(* ===== verification/Prelude.thy ===== *)
theory Prelude
  imports Main "HOL-Library.Word" "HOL-Library.Monad_Syntax"
begin

unbundle bit_operations_syntax

text \<open>
  Shared vocabulary of the development: the integer types and error numbers of
  \<^verbatim>\<open>include/rtdef.h\<close>, the reading of a failing \<^verbatim>\<open>RT_ASSERT\<close>, and the generic facts on lists
  and words that every component uses.

  Every operation that can run into an assertion (or into undefined behaviour of C, such as an
  array access out of range) returns an \<open>option\<close>: \<open>None\<close> stands for a system that has stopped
  in \<^verbatim>\<open>rt_assert_handler\<close>, which prints and then spins for ever.
\<close>

type_synonym u8 = "8 word"
type_synonym u16 = "16 word"
type_synonym u32 = "32 word"

section \<open>Assertions\<close>

definition kassert :: "bool \<Rightarrow> unit option" where
  "kassert b = (if b then Some () else None)"

lemma kassert_bind [simp]: "(kassert b \<bind> f) = (if b then f () else None)"
  by (simp add: kassert_def)

lemma kassert_eq_Some [simp]: "kassert b = Some u \<longleftrightarrow> b"
  by (simp add: kassert_def)

text \<open>
  Collections: \<open>kdefs\<close> holds the definitions of operations that are unfolded together,
  \<open>kframe\<close> the facts that an operation leaves a part of the state alone.
\<close>

named_theorems kdefs
named_theorems kframe

section \<open>Error numbers of rtdef.h\<close>

abbreviation (input) RT_EOK :: int where "RT_EOK \<equiv> 0"
abbreviation (input) RT_ERROR :: int where "RT_ERROR \<equiv> 1"
abbreviation (input) RT_ETIMEOUT :: int where "RT_ETIMEOUT \<equiv> 2"
abbreviation (input) RT_EFULL :: int where "RT_EFULL \<equiv> 3"
abbreviation (input) RT_EEMPTY :: int where "RT_EEMPTY \<equiv> 4"
abbreviation (input) RT_ENOMEM :: int where "RT_ENOMEM \<equiv> 5"
abbreviation (input) RT_ENOSYS :: int where "RT_ENOSYS \<equiv> 6"
abbreviation (input) RT_EBUSY :: int where "RT_EBUSY \<equiv> 7"
abbreviation (input) RT_EINVAL :: int where "RT_EINVAL \<equiv> 10"

abbreviation (input) RT_TICK_MAX :: u32 where "RT_TICK_MAX \<equiv> 0xffffffff"
abbreviation (input) RT_TICK_HALF :: u32 where "RT_TICK_HALF \<equiv> 0x7fffffff"
  \<comment> \<open>the value of \<^verbatim>\<open>RT_TICK_MAX / 2\<close>\<close>

abbreviation (input) RT_ALIGN_DOWN :: "u32 \<Rightarrow> u32 \<Rightarrow> u32" where
  "RT_ALIGN_DOWN x align \<equiv> x AND NOT (align - 1)"

section \<open>Lists\<close>

lemma remove1_distinct_set [simp]: "distinct xs \<Longrightarrow> set (remove1 x xs) = set xs - {x}"
  by (rule set_remove1_eq)

lemma hd_in_set_neq: "xs \<noteq> [] \<Longrightarrow> hd xs \<in> set xs"
  by simp

lemma list_rotate_nth:
  "0 < n \<Longrightarrow> i < n \<Longrightarrow> (if i + 1 \<ge> n then 0 else i + 1) = (i + 1) mod (n::nat)"
  by (cases "i + 1 = n") auto

lemma find_map_list: "find P (map f xs) = map_option f (find (\<lambda>x. P (f x)) xs)"
  by (induction xs) auto

lemma find_upt_Suc:
  "find P [0..<Suc n] = (if P 0 then Some 0 else map_option Suc (find (\<lambda>i. P (Suc i)) [0..<n]))"
  by (simp add: upt_conv_Cons map_Suc_upt[symmetric] find_map_list del: upt_Suc map_Suc_upt)

lemma drop_take_eq_map_nth:
  "i + n \<le> length xs \<Longrightarrow> take n (drop i xs) = map (\<lambda>k. xs ! (i + k)) [0..<n]"
  by (rule nth_equalityI) auto

section \<open>Words\<close>

lemma bit_or_push_bit_1:
  "bit ((g::'a::len word) OR push_bit n 1) k \<longleftrightarrow> bit g k \<or> (k = n \<and> n < LENGTH('a))"
  by (auto simp: bit_simps)

lemma bit_and_not_push_bit_1:
  "bit ((g::'a::len word) AND NOT (push_bit n 1)) k \<longleftrightarrow> bit g k \<and> k \<noteq> n"
  by (auto simp: bit_simps dest: bit_imp_le_length)

lemmas bit_shift_one = bit_or_push_bit_1 bit_or_push_bit_1 [simplified]
  bit_and_not_push_bit_1 bit_and_not_push_bit_1 [simplified]

lemma word_eq_0_bit: "(w::'a::len word) = 0 \<longleftrightarrow> (\<forall>n. \<not> bit w n)"
  by (metis bit_0_eq bot_apply bot_bool_def bit_word_eqI)

end
