(* ===== verification/RtList.thy ===== *)
theory RtList
  imports Prelude
begin

text \<open>
  The intrusive doubly linked lists of \<^verbatim>\<open>include/rtservice.h\<close>, at two levels.
  The concrete level is a store of \<^verbatim>\<open>next\<close> and \<^verbatim>\<open>prev\<close> pointers, written in the order the code
  writes them. The abstract level maps each list head to the sequence of nodes linked to it; the
  kernel theories work on that level. The relation \<open>rep\<close> and the locale \<open>list_store\<close> tie the two
  together, so what is proved of the kernel's queues holds of the pointer structure.
\<close>

section \<open>Pointer level\<close>

datatype ('h, 'n) lnode = LHead 'h | LNode 'n

record 'a lheap =
  lnext :: "'a \<Rightarrow> 'a"
  lprev :: "'a \<Rightarrow> 'a"

definition rt_list_init :: "'a \<Rightarrow> 'a lheap \<Rightarrow> 'a lheap" where
  "rt_list_init l h = h\<lparr>lnext := (lnext h)(l := l), lprev := (lprev h)(l := l)\<rparr>"

definition rt_list_insert_after :: "'a \<Rightarrow> 'a \<Rightarrow> 'a lheap \<Rightarrow> 'a lheap" where
  "rt_list_insert_after l n h =
    (let h = h\<lparr>lprev := (lprev h)(lnext h l := n)\<rparr>;
         h = h\<lparr>lnext := (lnext h)(n := lnext h l)\<rparr>;
         h = h\<lparr>lnext := (lnext h)(l := n)\<rparr>
     in h\<lparr>lprev := (lprev h)(n := l)\<rparr>)"

definition rt_list_insert_before :: "'a \<Rightarrow> 'a \<Rightarrow> 'a lheap \<Rightarrow> 'a lheap" where
  "rt_list_insert_before l n h =
    (let h = h\<lparr>lnext := (lnext h)(lprev h l := n)\<rparr>;
         h = h\<lparr>lprev := (lprev h)(n := lprev h l)\<rparr>;
         h = h\<lparr>lprev := (lprev h)(l := n)\<rparr>
     in h\<lparr>lnext := (lnext h)(n := l)\<rparr>)"

definition rt_list_remove :: "'a \<Rightarrow> 'a lheap \<Rightarrow> 'a lheap" where
  "rt_list_remove n h =
    (let h = h\<lparr>lprev := (lprev h)(lnext h n := lprev h n)\<rparr>;
         h = h\<lparr>lnext := (lnext h)(lprev h n := lnext h n)\<rparr>
     in h\<lparr>lnext := (lnext h)(n := n), lprev := (lprev h)(n := n)\<rparr>)"

definition rt_list_isempty :: "'a \<Rightarrow> 'a lheap \<Rightarrow> bool" where
  "rt_list_isempty l h \<longleftrightarrow> lnext h l = l"

text \<open>\<^verbatim>\<open>rt_list_len\<close> walks from \<open>p\<close> until the next node is the head; the counter is unsigned.\<close>

partial_function (option) list_len_from :: "'a \<Rightarrow> 'a lheap \<Rightarrow> 'a \<Rightarrow> u32 \<Rightarrow> u32 option" where
  "list_len_from l h p len =
    (if lnext h p \<noteq> l then list_len_from l h (lnext h p) (len + 1) else Some len)"

definition rt_list_len :: "'a \<Rightarrow> 'a lheap \<Rightarrow> u32 option" where
  "rt_list_len l h = list_len_from l h l 0"

section \<open>Segments\<close>

fun lseg :: "'a lheap \<Rightarrow> 'a \<Rightarrow> 'a list \<Rightarrow> 'a \<Rightarrow> bool" where
  "lseg h a [] b \<longleftrightarrow> lnext h a = b \<and> lprev h b = a"
| "lseg h a (x # xs) b \<longleftrightarrow> lnext h a = x \<and> lprev h x = a \<and> lseg h x xs b"

definition is_list :: "'a lheap \<Rightarrow> 'a \<Rightarrow> 'a list \<Rightarrow> bool" where
  "is_list h l xs \<longleftrightarrow> lseg h l xs l \<and> distinct (l # xs)"

lemma lseg_append: "lseg h a (xs @ y # ys) b \<longleftrightarrow> lseg h a xs y \<and> lseg h y ys b"
  by (induction xs arbitrary: a) auto

lemma lseg_last: "lseg h a xs b \<Longrightarrow> lprev h b = (if xs = [] then a else last xs)"
  by (induction xs arbitrary: a) auto

lemma lseg_first: "lseg h a xs b \<Longrightarrow> lnext h a = (if xs = [] then b else hd xs)"
  by (cases xs) auto

lemma lseg_cong:
  assumes "\<And>x. x \<in> set (a # xs) \<Longrightarrow> lnext h' x = lnext h x"
    and "\<And>x. x \<in> set (xs @ [b]) \<Longrightarrow> lprev h' x = lprev h x"
  shows "lseg h' a xs b \<longleftrightarrow> lseg h a xs b"
  using assms by (induction xs arbitrary: a) auto

lemma lseg_in_next: "lseg h a xs b \<Longrightarrow> x \<in> set (a # xs) \<Longrightarrow> lnext h x \<in> set (xs @ [b])"
  by (induction xs arbitrary: a) auto

lemma lseg_in_prev: "lseg h a xs b \<Longrightarrow> x \<in> set (xs @ [b]) \<Longrightarrow> lprev h x \<in> set (a # xs)"
  by (induction xs arbitrary: a) auto

lemma is_list_split:
  "is_list h l (xs @ p # ys) \<longleftrightarrow> lseg h l xs p \<and> lseg h p ys l \<and> distinct (l # xs @ p # ys)"
  by (auto simp: is_list_def lseg_append)

text \<open>Redirecting the last link of a segment to another end node.\<close>

lemma lseg_change_end:
  assumes "lseg h a xs b" "distinct (a # xs)"
    and "\<And>x. x \<in> set (a # xs) \<Longrightarrow> x \<noteq> lprev h b \<Longrightarrow> lnext h' x = lnext h x"
    and "\<And>x. x \<in> set xs \<Longrightarrow> lprev h' x = lprev h x"
    and "lnext h' (lprev h b) = c" "lprev h' c = lprev h b"
  shows "lseg h' a xs c"
  using assms
proof (induction xs arbitrary: a)
  case Nil
  then show ?case by simp
next
  case (Cons x xs)
  have "lprev h b \<in> set (x # xs)" using Cons.prems(1) lseg_in_prev[of h x xs b b] by simp
  then have "a \<noteq> lprev h b" using Cons.prems(2) by auto
  then show ?case using Cons by auto
qed

section \<open>The operations on segments\<close>

lemma lseg_insert_before:
  assumes "lseg h a xs b" "distinct (a # xs)" "n \<notin> set (a # xs @ [b])" "b \<notin> set xs"
  shows "lseg (rt_list_insert_before b n h) a (xs @ [n]) b"
proof -
  have "lprev h b \<in> set (a # xs)" using assms(1) by (rule lseg_in_prev) simp
  then have "lprev h b \<noteq> n" using assms(3) by auto
  then have "lseg (rt_list_insert_before b n h) a xs n"
    using assms
    by (intro lseg_change_end[OF assms(1,2)]) (auto simp: rt_list_insert_before_def Let_def)
  then show ?thesis
    using assms(3) by (simp add: lseg_append rt_list_insert_before_def Let_def)
qed

lemma insert_before_frame:
  "x \<noteq> lprev h b \<Longrightarrow> x \<noteq> n \<Longrightarrow> lnext (rt_list_insert_before b n h) x = lnext h x"
  "x \<noteq> b \<Longrightarrow> x \<noteq> n \<Longrightarrow> lprev (rt_list_insert_before b n h) x = lprev h x"
  by (auto simp: rt_list_insert_before_def Let_def)

lemma insert_after_frame:
  "x \<noteq> b \<Longrightarrow> x \<noteq> n \<Longrightarrow> lnext (rt_list_insert_after b n h) x = lnext h x"
  "x \<noteq> lnext h b \<Longrightarrow> x \<noteq> n \<Longrightarrow> lprev (rt_list_insert_after b n h) x = lprev h x"
  by (auto simp: rt_list_insert_after_def Let_def)

lemma remove_frame:
  "x \<noteq> lprev h n \<Longrightarrow> x \<noteq> n \<Longrightarrow> lnext (rt_list_remove n h) x = lnext h x"
  "x \<noteq> lnext h n \<Longrightarrow> x \<noteq> n \<Longrightarrow> lprev (rt_list_remove n h) x = lprev h x"
  by (auto simp: rt_list_remove_def Let_def)

text \<open>
  Inserting after \<open>a\<close> is inserting before its successor: on a linked segment the two functions
  of the header perform the same four writes.
\<close>

lemma insert_after_eq_before:
  assumes "lprev h (lnext h a) = a" "n \<noteq> a" "n \<noteq> lnext h a"
  shows "rt_list_insert_after a n h = rt_list_insert_before (lnext h a) n h"
  using assms
  by (auto simp: rt_list_insert_after_def rt_list_insert_before_def Let_def intro!: lheap.equality ext)

lemma is_list_insert_before:
  assumes "is_list h l xs" "n \<notin> set (l # xs)"
  shows "is_list (rt_list_insert_before l n h) l (xs @ [n])"
  using assms lseg_insert_before[of h l xs l n] by (auto simp: is_list_def)

lemma is_list_insert_before_node:
  assumes "is_list h l (xs @ p # ys)" "n \<notin> set (l # xs @ p # ys)"
  shows "is_list (rt_list_insert_before p n h) l (xs @ n # p # ys)"
proof -
  have sp: "lseg h l xs p" "lseg h p ys l" "distinct (l # xs @ p # ys)"
    using assms(1) by (auto simp: is_list_split)
  have "lprev h p \<in> set (l # xs)" using sp(1) by (rule lseg_in_prev) simp
  then have "lprev h p \<notin> set (p # ys)" using sp(3) by auto
  then have "lseg (rt_list_insert_before p n h) p ys l"
  proof (subst lseg_cong[of p ys _ h])
    fix x assume x: "x \<in> set (p # ys)"
    then have "x \<noteq> n" "x \<noteq> lprev h p" using assms(2) \<open>lprev h p \<notin> set (p # ys)\<close> by auto
    then show "lnext (rt_list_insert_before p n h) x = lnext h x" by (simp add: insert_before_frame)
  next
    fix x assume "x \<in> set (ys @ [l])"
    then have "x \<noteq> n" "x \<noteq> p" using assms(2) sp(3) by auto
    then show "lprev (rt_list_insert_before p n h) x = lprev h x" by (simp add: insert_before_frame)
  qed (rule sp(2))
  moreover have "lseg (rt_list_insert_before p n h) l (xs @ [n]) p"
    using sp assms(2) by (intro lseg_insert_before) auto
  ultimately show ?thesis
    using sp assms(2) by (auto simp: is_list_def lseg_append)
qed

lemma is_list_insert_after:
  assumes "is_list h l xs" "n \<notin> set (l # xs)"
  shows "is_list (rt_list_insert_after l n h) l (n # xs)"
proof (cases xs)
  case Nil
  then have "rt_list_insert_after l n h = rt_list_insert_before l n h"
    using assms insert_after_eq_before[of h l n] by (auto simp: is_list_def)
  then show ?thesis using Nil assms is_list_insert_before[of h l "[]" n] by simp
next
  case (Cons p ys)
  then have "rt_list_insert_after l n h = rt_list_insert_before p n h"
    using assms insert_after_eq_before[of h l n] by (auto simp: is_list_def)
  then show ?thesis using Cons assms is_list_insert_before_node[of h l "[]" p ys n] by simp
qed

lemma is_list_remove:
  assumes "is_list h l (xs @ n # ys)"
  shows "is_list (rt_list_remove n h) l (xs @ ys)"
proof -
  have sp: "lseg h l xs n" "lseg h n ys l" and d: "distinct (l # xs @ n # ys)"
    using assms by (auto simp: is_list_split)
  have pn: "lprev h n \<in> set (l # xs)" using sp(1) by (rule lseg_in_prev) simp
  have nn: "lnext h n \<in> set (ys @ [l])" using sp(2) by (rule lseg_in_next) simp
  let ?h = "rt_list_remove n h"
  have neq: "lprev h n \<noteq> n" "lnext h n \<noteq> n" using d pn nn by auto
  have link: "lnext ?h (lprev h n) = lnext h n" "lprev ?h (lnext h n) = lprev h n"
    using neq by (auto simp: rt_list_remove_def Let_def)
  have fr: "lnext ?h x = lnext h x" if "x \<in> set (l # xs @ ys)" "x \<noteq> lprev h n" for x
    using that d by (intro remove_frame) auto
  have fp: "lprev ?h x = lprev h x" if "x \<in> set (l # xs @ ys)" "x \<noteq> lnext h n" for x
    using that d by (intro remove_frame) auto
  have left: "lseg ?h l xs (lnext h n)"
  proof (rule lseg_change_end[OF sp(1)])
    show "lprev ?h x = lprev h x" if "x \<in> set xs" for x
      using that d nn by (intro fp) auto
  qed (use d fr link in auto)
  have "lseg ?h l (xs @ ys) l"
  proof (cases ys)
    case Nil
    then show ?thesis using left nn by simp
  next
    case (Cons y zs)
    then have y: "lnext h n = y" "lseg h y zs l" using sp(2) by auto
    have "lseg ?h y zs l \<longleftrightarrow> lseg h y zs l"
    proof (rule lseg_cong)
      fix x assume "x \<in> set (y # zs)"
      then show "lnext ?h x = lnext h x" using d pn Cons by (intro fr) auto
    next
      fix x assume "x \<in> set (zs @ [l])"
      then show "lprev ?h x = lprev h x" using d y(1) Cons by (intro fp) auto
    qed
    then show ?thesis using left y Cons by (simp add: lseg_append)
  qed
  then show ?thesis using d by (auto simp: is_list_def)
qed

lemma is_list_init: "is_list (rt_list_init l h) l []"
  by (simp add: is_list_def rt_list_init_def)

lemma remove_self: "lnext (rt_list_remove n h) n = n" "lprev (rt_list_remove n h) n = n"
  by (auto simp: rt_list_remove_def Let_def)

lemma remove_unlinked: "lnext h n = n \<Longrightarrow> lprev h n = n \<Longrightarrow> rt_list_remove n h = h"
  by (auto simp: rt_list_remove_def Let_def intro!: lheap.equality ext)

lemma is_list_isempty: "is_list h l xs \<Longrightarrow> rt_list_isempty l h \<longleftrightarrow> xs = []"
  by (cases xs) (auto simp: is_list_def rt_list_isempty_def)

lemma list_len_from_lseg:
  assumes "lseg h p xs l" "l \<notin> set xs"
  shows "list_len_from l h p n = Some (n + of_nat (length xs))"
  using assms
proof (induction xs arbitrary: p n)
  case Nil
  then show ?case by (subst list_len_from.simps) simp
next
  case (Cons x xs)
  then have "lnext h p \<noteq> l" "lnext h p = x" by auto
  then show ?case using Cons by (subst list_len_from.simps) (simp add: add.assoc)
qed

lemma is_list_len: "is_list h l xs \<Longrightarrow> rt_list_len l h = Some (of_nat (length xs))"
  using list_len_from_lseg[of h l xs l 0] by (simp add: is_list_def rt_list_len_def)

lemma is_list_cong:
  assumes "\<And>x. x \<in> set (l # xs) \<Longrightarrow> lnext h' x = lnext h x \<and> lprev h' x = lprev h x"
  shows "is_list h' l xs = is_list h l xs"
  unfolding is_list_def by (subst lseg_cong[of l xs h' h l]) (use assms in auto)

section \<open>Abstract level: one sequence of nodes per list head\<close>

type_synonym ('h, 'n) llists = "'h \<Rightarrow> 'n list"

definition ll_insert_before :: "'h \<Rightarrow> 'n \<Rightarrow> ('h, 'n) llists \<Rightarrow> ('h, 'n) llists" where
  "ll_insert_before h n ls = ls(h := ls h @ [n])"

definition ll_insert_after :: "'h \<Rightarrow> 'n \<Rightarrow> ('h, 'n) llists \<Rightarrow> ('h, 'n) llists" where
  "ll_insert_after h n ls = ls(h := n # ls h)"

definition ll_remove :: "'n \<Rightarrow> ('h, 'n) llists \<Rightarrow> ('h, 'n) llists" where
  "ll_remove n ls = (\<lambda>h. remove1 n (ls h))"

fun insert_at :: "'n \<Rightarrow> 'n \<Rightarrow> 'n list \<Rightarrow> 'n list" where
  "insert_at m n [] = []"
| "insert_at m n (x # xs) = (if x = m then n # x # xs else x # insert_at m n xs)"

text \<open>\<open>ll_insert_node m n\<close> is \<^verbatim>\<open>rt_list_insert_before\<close> applied to a node \<open>m\<close> that is itself linked.\<close>

definition ll_insert_node :: "'n \<Rightarrow> 'n \<Rightarrow> ('h, 'n) llists \<Rightarrow> ('h, 'n) llists" where
  "ll_insert_node m n ls = (\<lambda>h. insert_at m n (ls h))"

definition unlinked :: "'n \<Rightarrow> ('h, 'n) llists \<Rightarrow> bool" where
  "unlinked n ls \<longleftrightarrow> (\<forall>h. n \<notin> set (ls h))"

definition ll_wf :: "('h, 'n) llists \<Rightarrow> bool" where
  "ll_wf ls \<longleftrightarrow> (\<forall>h. distinct (ls h)) \<and> (\<forall>h h' n. n \<in> set (ls h) \<longrightarrow> n \<in> set (ls h') \<longrightarrow> h = h')"

lemma insert_at_notin [simp]: "m \<notin> set xs \<Longrightarrow> insert_at m n xs = xs"
  by (induction xs) auto

lemma insert_at_append: "m \<notin> set xs \<Longrightarrow> insert_at m n (xs @ m # ys) = xs @ n # m # ys"
  by (induction xs) auto

lemma set_insert_at: "set (insert_at m n xs) = set xs \<union> (if m \<in> set xs then {n} else {})"
  by (induction xs) auto

lemma distinct_insert_at: "distinct xs \<Longrightarrow> n \<notin> set xs \<Longrightarrow> distinct (insert_at m n xs)"
  by (induction xs) (auto simp: set_insert_at)

lemma ll_wf_insert_before: "ll_wf ls \<Longrightarrow> unlinked n ls \<Longrightarrow> ll_wf (ll_insert_before h n ls)"
  by (auto simp: ll_wf_def unlinked_def ll_insert_before_def)

lemma ll_wf_insert_after: "ll_wf ls \<Longrightarrow> unlinked n ls \<Longrightarrow> ll_wf (ll_insert_after h n ls)"
  by (auto simp: ll_wf_def unlinked_def ll_insert_after_def)

lemma ll_wf_remove: "ll_wf ls \<Longrightarrow> ll_wf (ll_remove n ls)"
  unfolding ll_wf_def ll_remove_def by (auto dest: notin_set_remove1 intro: distinct_remove1 | meson notin_set_remove1)+

lemma ll_wf_insert_node: "ll_wf ls \<Longrightarrow> unlinked n ls \<Longrightarrow> ll_wf (ll_insert_node m n ls)"
  by (auto simp: ll_wf_def unlinked_def ll_insert_node_def set_insert_at distinct_insert_at
      split: if_splits)

lemma unlinked_remove: "ll_wf ls \<Longrightarrow> unlinked n (ll_remove n ls)"
  by (auto simp: ll_wf_def unlinked_def ll_remove_def)

section \<open>The interface of a list store\<close>

text \<open>
  \<open>rep s ls\<close>: the store \<open>s\<close> holds the lists \<open>ls\<close>. Every operation, applied within its
  precondition, takes a representation of \<open>ls\<close> to a representation of the abstract result.
\<close>

datatype ('h, 'n) list_cmd = InsBefore 'h 'n | InsAfter 'h 'n | InsNode 'n 'n | Remove 'n

fun ll_step :: "('h, 'n) list_cmd \<Rightarrow> ('h, 'n) llists \<Rightarrow> ('h, 'n) llists" where
  "ll_step (InsBefore h n) = ll_insert_before h n"
| "ll_step (InsAfter h n) = ll_insert_after h n"
| "ll_step (InsNode m n) = ll_insert_node m n"
| "ll_step (Remove n) = ll_remove n"

fun cmd_ok :: "('h, 'n) list_cmd \<Rightarrow> ('h, 'n) llists \<Rightarrow> bool" where
  "cmd_ok (InsBefore h n) ls \<longleftrightarrow> unlinked n ls"
| "cmd_ok (InsAfter h n) ls \<longleftrightarrow> unlinked n ls"
| "cmd_ok (InsNode m n) ls \<longleftrightarrow> unlinked n ls \<and> \<not> unlinked m ls"
| "cmd_ok (Remove n) ls \<longleftrightarrow> True"

fun ll_run :: "('h, 'n) list_cmd list \<Rightarrow> ('h, 'n) llists \<Rightarrow> ('h, 'n) llists" where
  "ll_run [] ls = ls"
| "ll_run (c # cs) ls = ll_run cs (ll_step c ls)"

fun cmds_ok :: "('h, 'n) list_cmd list \<Rightarrow> ('h, 'n) llists \<Rightarrow> bool" where
  "cmds_ok [] ls \<longleftrightarrow> True"
| "cmds_ok (c # cs) ls \<longleftrightarrow> cmd_ok c ls \<and> cmds_ok cs (ll_step c ls)"

locale list_store =
  fixes rep :: "'s \<Rightarrow> ('h, 'n) llists \<Rightarrow> bool"
    and step :: "('h, 'n) list_cmd \<Rightarrow> 's \<Rightarrow> 's"
    and empty_head :: "'h \<Rightarrow> 's \<Rightarrow> bool"
    and len :: "'h \<Rightarrow> 's \<Rightarrow> u32 option"
  assumes rep_wf: "rep s ls \<Longrightarrow> ll_wf ls"
    and rep_step: "rep s ls \<Longrightarrow> cmd_ok c ls \<Longrightarrow> rep (step c s) (ll_step c ls)"
    and rep_empty: "rep s ls \<Longrightarrow> empty_head h s \<longleftrightarrow> ls h = []"
    and rep_len: "rep s ls \<Longrightarrow> len h s = Some (of_nat (length (ls h)))"
begin

fun run :: "('h, 'n) list_cmd list \<Rightarrow> 's \<Rightarrow> 's" where
  "run [] s = s"
| "run (c # cs) s = run cs (step c s)"

lemma rep_run: "rep s ls \<Longrightarrow> cmds_ok cs ls \<Longrightarrow> rep (run cs s) (ll_run cs ls)"
  by (induction cs arbitrary: s ls) (auto intro: rep_step)

lemma rep_removed_empty:
  "rep s ls \<Longrightarrow> set (ls h) \<subseteq> {n} \<Longrightarrow> empty_head h (step (Remove n) s)"
  using rep_step[of s ls "Remove n"] rep_empty[of "step (Remove n) s" "ll_remove n ls" h] rep_wf[of s ls]
  by (auto simp: ll_remove_def ll_wf_def) (metis remove1_distinct_set set_empty Diff_eq_empty_iff)

end

text \<open>The kernel's view, where the store is the lists themselves.\<close>

definition view_empty :: "'h \<Rightarrow> ('h, 'n) llists \<Rightarrow> bool" where
  "view_empty h ls \<longleftrightarrow> ls h = []"

definition view_len :: "'h \<Rightarrow> ('h, 'n) llists \<Rightarrow> u32 option" where
  "view_len h ls = Some (of_nat (length (ls h)))"

lemma ll_step_wf: "ll_wf ls \<Longrightarrow> cmd_ok c ls \<Longrightarrow> ll_wf (ll_step c ls)"
  by (cases c) (auto intro: ll_wf_insert_before ll_wf_insert_after ll_wf_insert_node ll_wf_remove)

interpretation view: list_store "\<lambda>s ls. s = ls \<and> ll_wf ls" ll_step view_empty view_len
  by unfold_locales (auto simp: view_empty_def view_len_def ll_step_wf)

section \<open>The pointer structure implements the interface\<close>

definition ptr_rep :: "('h, 'n) lnode lheap \<Rightarrow> ('h, 'n) llists \<Rightarrow> bool" where
  "ptr_rep s ls \<longleftrightarrow> ll_wf ls \<and> (\<forall>h. is_list s (LHead h) (map LNode (ls h))) \<and>
     (\<forall>n. unlinked n ls \<longrightarrow> lnext s (LNode n) = LNode n \<and> lprev s (LNode n) = LNode n)"

fun ptr_step :: "('h, 'n) list_cmd \<Rightarrow> ('h, 'n) lnode lheap \<Rightarrow> ('h, 'n) lnode lheap" where
  "ptr_step (InsBefore h n) = rt_list_insert_before (LHead h) (LNode n)"
| "ptr_step (InsAfter h n) = rt_list_insert_after (LHead h) (LNode n)"
| "ptr_step (InsNode m n) = rt_list_insert_before (LNode m) (LNode n)"
| "ptr_step (Remove n) = rt_list_remove (LNode n)"

text \<open>The nodes whose pointers an operation writes.\<close>

definition nodes_of :: "'h \<Rightarrow> 'n list \<Rightarrow> ('h, 'n) lnode set" where
  "nodes_of h xs = insert (LHead h) (LNode ` set xs)"

lemma ptr_rep_other:
  assumes r: "ptr_rep s ls" and ne: "h' \<noteq> h"
    and fr: "\<And>x. x \<notin> nodes_of h (ls h) \<Longrightarrow> x \<noteq> LNode n \<Longrightarrow> lnext s' x = lnext s x \<and> lprev s' x = lprev s x"
    and n: "n \<notin> set (ls h')"
  shows "is_list s' (LHead h') (map LNode (ls h'))"
proof -
  have "\<And>k. k \<in> set (ls h') \<Longrightarrow> k \<notin> set (ls h)" using r ne by (auto simp: ptr_rep_def ll_wf_def)
  then have "is_list s' (LHead h') (map LNode (ls h')) = is_list s (LHead h') (map LNode (ls h'))"
    using ne n by (intro is_list_cong fr) (auto simp: nodes_of_def)
  then show ?thesis using r by (simp add: ptr_rep_def)
qed

lemma ptr_ends:
  assumes "ptr_rep s ls"
  shows "lprev s (LHead h) \<in> nodes_of h (ls h)" "lnext s (LHead h) \<in> nodes_of h (ls h)"
    and "m \<in> set (ls h) \<Longrightarrow> lprev s (LNode m) \<in> nodes_of h (ls h)"
    and "m \<in> set (ls h) \<Longrightarrow> lnext s (LNode m) \<in> nodes_of h (ls h)"
proof -
  have l: "lseg s (LHead h) (map LNode (ls h)) (LHead h)"
    using assms by (auto simp: ptr_rep_def is_list_def)
  show "lprev s (LHead h) \<in> nodes_of h (ls h)" "lnext s (LHead h) \<in> nodes_of h (ls h)"
    using lseg_in_prev[OF l, of "LHead h"] lseg_in_next[OF l, of "LHead h"] by (auto simp: nodes_of_def)
  assume "m \<in> set (ls h)"
  then show "lprev s (LNode m) \<in> nodes_of h (ls h)" "lnext s (LNode m) \<in> nodes_of h (ls h)"
    using lseg_in_prev[OF l, of "LNode m"] lseg_in_next[OF l, of "LNode m"] by (auto simp: nodes_of_def)
qed

lemma ptr_repI:
  assumes r: "ptr_rep s ls" and wf: "ll_wf ls'"
    and target: "is_list s' (LHead h) (map LNode (ls' h))"
    and same: "\<And>h'. h' \<noteq> h \<Longrightarrow> ls' h' = ls h'"
    and fr: "\<And>x. x \<notin> nodes_of h (ls h) \<Longrightarrow> x \<noteq> LNode n \<Longrightarrow> lnext s' x = lnext s x \<and> lprev s' x = lprev s x"
    and n: "\<And>h'. h' \<noteq> h \<Longrightarrow> n \<notin> set (ls h')"
    and nodes: "set (ls h) - {n} \<subseteq> set (ls' h)"
    and out: "n \<notin> set (ls' h) \<Longrightarrow> lnext s' (LNode n) = LNode n \<and> lprev s' (LNode n) = LNode n"
  shows "ptr_rep s' ls'"
proof -
  have "is_list s' (LHead h') (map LNode (ls' h'))" for h'
    using target ptr_rep_other[OF r _ fr n] same[of h'] by (cases "h' = h") auto
  moreover have "lnext s' (LNode k) = LNode k \<and> lprev s' (LNode k) = LNode k" if k: "unlinked k ls'" for k
  proof (cases "k = n")
    case True
    then show ?thesis using k out by (auto simp: unlinked_def)
  next
    case False
    have "k \<notin> set (ls h)" using k nodes False by (auto simp: unlinked_def)
    moreover from this have "unlinked k ls" using k same by (metis unlinked_def)
    ultimately show ?thesis using r False fr[of "LNode k"] by (auto simp: ptr_rep_def nodes_of_def)
  qed
  ultimately show ?thesis using wf by (auto simp: ptr_rep_def)
qed

lemma ptr_insert_before:
  assumes "ptr_rep s ls" "unlinked n ls"
  shows "ptr_rep (rt_list_insert_before (LHead h) (LNode n) s) (ll_insert_before h n ls)"
proof (rule ptr_repI[OF assms(1), where h = h and n = n])
  show "ll_wf (ll_insert_before h n ls)"
    using assms by (auto simp: ptr_rep_def intro: ll_wf_insert_before)
  show "is_list (rt_list_insert_before (LHead h) (LNode n) s) (LHead h) (map LNode (ll_insert_before h n ls h))"
    using assms is_list_insert_before[of s "LHead h" "map LNode (ls h)" "LNode n"]
    by (auto simp: ptr_rep_def ll_insert_before_def unlinked_def)
  show "lnext (rt_list_insert_before (LHead h) (LNode n) s) x = lnext s x \<and>
      lprev (rt_list_insert_before (LHead h) (LNode n) s) x = lprev s x"
    if "x \<notin> nodes_of h (ls h)" "x \<noteq> LNode n" for x
    using that ptr_ends(1)[OF assms(1), of h] by (intro conjI insert_before_frame) (auto simp: nodes_of_def)
qed (use assms(2) in \<open>auto simp: ll_insert_before_def unlinked_def\<close>)

lemma ptr_insert_after:
  assumes "ptr_rep s ls" "unlinked n ls"
  shows "ptr_rep (rt_list_insert_after (LHead h) (LNode n) s) (ll_insert_after h n ls)"
proof (rule ptr_repI[OF assms(1), where h = h and n = n])
  show "ll_wf (ll_insert_after h n ls)"
    using assms by (auto simp: ptr_rep_def intro: ll_wf_insert_after)
  show "is_list (rt_list_insert_after (LHead h) (LNode n) s) (LHead h) (map LNode (ll_insert_after h n ls h))"
    using assms is_list_insert_after[of s "LHead h" "map LNode (ls h)" "LNode n"]
    by (auto simp: ptr_rep_def ll_insert_after_def unlinked_def)
  show "lnext (rt_list_insert_after (LHead h) (LNode n) s) x = lnext s x \<and>
      lprev (rt_list_insert_after (LHead h) (LNode n) s) x = lprev s x"
    if "x \<notin> nodes_of h (ls h)" "x \<noteq> LNode n" for x
    using that ptr_ends(2)[OF assms(1), of h] by (intro conjI insert_after_frame) (auto simp: nodes_of_def)
qed (use assms(2) in \<open>auto simp: ll_insert_after_def unlinked_def\<close>)

lemma ptr_insert_node:
  assumes r: "ptr_rep s ls" and n: "unlinked n ls" and m: "\<not> unlinked m ls"
  shows "ptr_rep (rt_list_insert_before (LNode m) (LNode n) s) (ll_insert_node m n ls)"
proof -
  obtain h where h: "m \<in> set (ls h)" using m by (auto simp: unlinked_def)
  then have other: "m \<notin> set (ls h')" if "h' \<noteq> h" for h' using r that by (auto simp: ptr_rep_def ll_wf_def)
  obtain xs ys where sp: "ls h = xs @ m # ys" by (meson h split_list)
  have d: "distinct (ls h)" using r by (auto simp: ptr_rep_def ll_wf_def)
  show ?thesis
  proof (rule ptr_repI[OF r, where h = h and n = n])
    show "ll_wf (ll_insert_node m n ls)"
      using r n by (auto simp: ptr_rep_def intro: ll_wf_insert_node)
    have "is_list s (LHead h) (map LNode xs @ LNode m # map LNode ys)"
      using r sp by (auto simp: ptr_rep_def dest: spec[of _ h])
    moreover have "n \<notin> set (xs @ m # ys)" using n sp by (metis unlinked_def)
    ultimately show "is_list (rt_list_insert_before (LNode m) (LNode n) s) (LHead h) (map LNode (ll_insert_node m n ls h))"
      using is_list_insert_before_node[of s "LHead h" "map LNode xs" "LNode m" "map LNode ys" "LNode n"] d sp
      by (auto simp: ll_insert_node_def insert_at_append)
    show "lnext (rt_list_insert_before (LNode m) (LNode n) s) x = lnext s x \<and>
        lprev (rt_list_insert_before (LNode m) (LNode n) s) x = lprev s x"
      if "x \<notin> nodes_of h (ls h)" "x \<noteq> LNode n" for x
      using that ptr_ends(3)[OF r h] h by (intro conjI insert_before_frame) (auto simp: nodes_of_def)
  qed (use n other h in \<open>auto simp: ll_insert_node_def unlinked_def set_insert_at\<close>)
qed

lemma ptr_remove:
  assumes r: "ptr_rep s ls"
  shows "ptr_rep (rt_list_remove (LNode n) s) (ll_remove n ls)"
proof (cases "unlinked n ls")
  case True
  then have "ll_remove n ls = ls" by (auto simp: unlinked_def ll_remove_def remove1_idem)
  then show ?thesis using r True by (auto simp: ptr_rep_def remove_unlinked)
next
  case False
  then obtain h where h: "n \<in> set (ls h)" by (auto simp: unlinked_def)
  then have other: "n \<notin> set (ls h')" if "h' \<noteq> h" for h' using r that by (auto simp: ptr_rep_def ll_wf_def)
  obtain xs ys where sp: "ls h = xs @ n # ys" by (meson h split_list)
  have d: "distinct (ls h)" using r by (auto simp: ptr_rep_def ll_wf_def)
  show ?thesis
  proof (rule ptr_repI[OF r, where h = h and n = n])
    show "ll_wf (ll_remove n ls)" using r by (auto simp: ptr_rep_def intro: ll_wf_remove)
    have "is_list s (LHead h) (map LNode xs @ LNode n # map LNode ys)"
      using r sp by (auto simp: ptr_rep_def dest: spec[of _ h])
    then show "is_list (rt_list_remove (LNode n) s) (LHead h) (map LNode (ll_remove n ls h))"
      using is_list_remove[of s "LHead h" "map LNode xs" "LNode n" "map LNode ys"] d sp
      by (auto simp: ll_remove_def remove1_append)
    show "lnext (rt_list_remove (LNode n) s) x = lnext s x \<and> lprev (rt_list_remove (LNode n) s) x = lprev s x"
      if "x \<notin> nodes_of h (ls h)" "x \<noteq> LNode n" for x
      using that ptr_ends(3,4)[OF r h] by (intro conjI remove_frame) auto
  qed (use other d in \<open>auto simp: ll_remove_def remove1_idem remove_self\<close>)
qed

definition ptr_empty :: "'h \<Rightarrow> ('h, 'n) lnode lheap \<Rightarrow> bool" where
  "ptr_empty h s = rt_list_isempty (LHead h) s"

definition ptr_len :: "'h \<Rightarrow> ('h, 'n) lnode lheap \<Rightarrow> u32 option" where
  "ptr_len h s = rt_list_len (LHead h) s"

interpretation ptr: list_store ptr_rep ptr_step ptr_empty ptr_len
proof
  show "ptr_rep (ptr_step c s) (ll_step c ls)" if "ptr_rep s ls" "cmd_ok c ls" for s ls c
    using that by (cases c) (auto intro: ptr_insert_before ptr_insert_after ptr_insert_node ptr_remove)
  show "ptr_empty h s \<longleftrightarrow> ls h = []" if "ptr_rep s ls" for s ls h
    using that is_list_isempty[of s "LHead h" "map LNode (ls h)"] by (auto simp: ptr_rep_def ptr_empty_def)
  show "ptr_len h s = Some (of_nat (length (ls h)))" if "ptr_rep s ls" for s ls h
    using that is_list_len[of s "LHead h" "map LNode (ls h)"] by (auto simp: ptr_rep_def ptr_len_def)
qed (simp add: ptr_rep_def)

text \<open>All heads and nodes initialised, no node linked: the state after \<^verbatim>\<open>rt_list_init\<close> on each.\<close>

definition ptr_init :: "('h, 'n) lnode lheap" where
  "ptr_init = \<lparr>lnext = (\<lambda>x. x), lprev = (\<lambda>x. x)\<rparr>"

lemma ptr_rep_init: "ptr_rep ptr_init (\<lambda>h. [])"
  by (auto simp: ptr_rep_def ptr_init_def ll_wf_def is_list_def)

primrec ptr_run :: "('h, 'n) list_cmd list \<Rightarrow> ('h, 'n) lnode lheap \<Rightarrow> ('h, 'n) lnode lheap" where
  "ptr_run [] s = s"
| "ptr_run (c # cs) s = ptr_run cs (ptr_step c s)"

lemma ptr_run_eq: "ptr.run cs s = ptr_run cs s"
  by (induction cs arbitrary: s) auto

lemma ptr_run_rep: "cmds_ok cs (\<lambda>h. []) \<Longrightarrow> ptr_rep (ptr_run cs ptr_init) (ll_run cs (\<lambda>h. []))"
  using ptr.rep_run[OF ptr_rep_init] by (simp add: ptr_run_eq)


text \<open>
  C38. The intrusive lists of \<^verbatim>\<open>rtservice.h\<close> implement sequences: after any sequence of
  insertions of unlinked nodes and removals, on any number of heads, each head is a circular doubly
  linked list with exactly the nodes of its abstract sequence in order, and the emptiness test and the
  length agree with it.
\<close>

theorem lists_implement_sequences:
  assumes "cmds_ok cs (\<lambda>h. [])"
  shows "is_list (ptr_run cs ptr_init) (LHead h) (map LNode (ll_run cs (\<lambda>h. []) h)) \<and>
    (rt_list_isempty (LHead h) (ptr_run cs ptr_init) \<longleftrightarrow> ll_run cs (\<lambda>h. []) h = []) \<and>
    rt_list_len (LHead h) (ptr_run cs ptr_init) = Some (of_nat (length (ll_run cs (\<lambda>h. []) h)))"
proof -
  have r: "ptr_rep (ptr_run cs ptr_init) (ll_run cs (\<lambda>h. []))" using ptr_run_rep[OF assms] .
  show ?thesis using r ptr.rep_empty[OF r, of h] ptr.rep_len[OF r, of h]
    by (simp add: ptr_rep_def ptr_empty_def ptr_len_def)
qed

theorem lists_implement_sequences_witness:
  "rt_list_len (LHead (0::nat)) (ptr_run [InsBefore 0 (5::nat), InsAfter 0 6, InsNode 5 7, Remove 5] ptr_init) = Some 2"
  by (subst lists_implement_sequences[THEN conjunct2, THEN conjunct2])
    (simp_all add: unlinked_def ll_insert_before_def ll_insert_after_def ll_insert_node_def ll_remove_def)

end
