(* ===== verification/Ffs.thy ===== *)
theory Ffs
  imports Prelude
begin

text \<open>
  Find-first-set. The scheduler keeps one bit per priority and asks \<^verbatim>\<open>__rt_ffs\<close> for the lowest set
  bit. The configured target uses the compiler builtin (\<^verbatim>\<open>libcpu/arm/cortex-m4/cpuport.c\<close>);
  \<^verbatim>\<open>src/kservice.c\<close> holds two table-driven versions for targets without one: a 37-entry table
  indexed by the isolated bit modulo 37, and a 256-entry table applied byte by byte.
\<close>

section \<open>The builtin\<close>

definition rt_ffs :: "u32 \<Rightarrow> nat" where
  "rt_ffs w = (case find (bit w) [0..<32] of None \<Rightarrow> 0 | Some i \<Rightarrow> Suc i)"

lemma find_bit_None: "find (bit w) [0..<32] = None \<longleftrightarrow> (w::u32) = 0"
proof -
  have "find (bit w) [0..<32] = None \<longleftrightarrow> (\<forall>i<32. \<not> bit w i)" by (auto simp: find_None_iff)
  also have "\<dots> \<longleftrightarrow> (\<forall>i. \<not> bit w i)" using bit_imp_le_length[of w] by auto
  finally show ?thesis by (simp add: word_eq_0_bit)
qed

lemma find_bit_Some: "find (bit (w::u32)) [0..<32] = Some i \<longleftrightarrow> bit w i \<and> (\<forall>j<i. \<not> bit w j)"
proof -
  have "i < 32" if "bit w i" using bit_imp_le_length[of w i] that by simp
  then show ?thesis by (auto simp: find_Some_iff)
qed

lemma rt_ffs_0_iff: "rt_ffs w = 0 \<longleftrightarrow> w = 0"
  unfolding find_bit_None[symmetric] rt_ffs_def by (auto split: option.splits)

lemma rt_ffs_Suc_iff: "rt_ffs w = Suc i \<longleftrightarrow> bit w i \<and> (\<forall>j<i. \<not> bit w j)"
  unfolding find_bit_Some[symmetric] rt_ffs_def by (auto split: option.splits)

lemma rt_ffs_bit: "w \<noteq> 0 \<Longrightarrow> bit w (rt_ffs w - 1)"
  using rt_ffs_Suc_iff[of w "rt_ffs w - 1"] rt_ffs_0_iff[of w] by (cases "rt_ffs w") auto

lemma rt_ffs_least: "bit w j \<Longrightarrow> rt_ffs w - 1 \<le> j"
  using rt_ffs_Suc_iff[of w "rt_ffs w - 1"] by (cases "rt_ffs w") (auto simp: not_less[symmetric])

section \<open>The 37-entry table\<close>

definition lowest_bit_bitmap37 :: "nat list" where
  "lowest_bit_bitmap37 =
    [0, 1, 2, 27, 3, 24, 28, 32,
     4, 17, 25, 31, 29, 12, 32, 14,
     5, 8, 18, 32, 26, 23, 32, 16,
     30, 11, 13, 7, 32, 22, 15, 10,
     6, 21, 9, 20, 19]"

definition rt_ffs_tiny :: "u32 \<Rightarrow> nat" where
  "rt_ffs_tiny value = lowest_bit_bitmap37 ! (unat ((value AND (value - 1)) XOR value) mod 37)"

lemma isolate_lowest_bit:
  fixes w :: u32
  assumes "bit w i" "\<forall>j<i. \<not> bit w j"
  shows "(w AND (w - 1)) XOR w = push_bit i 1"
proof -
  have i: "i < 32" using assms(1) bit_imp_le_length[of w i] by simp
  define n q where "n = unat w" and "q = n div 2 ^ Suc i"
  have wbit: "bit v j = odd (unat v div 2 ^ j)" for v :: u32 and j
    unfolding bit_iff_odd[of "unat v" j, symmetric] by (simp add: bit_unsigned_iff)
  have bits: "bit w j = odd (n div 2 ^ j)" for j
    unfolding n_def by (rule wbit)
  have low: "take_bit i n = 0"
  proof (rule bit_eqI)
    fix j :: nat
    have "bit n j = bit w j" by (simp add: n_def bit_unsigned_iff)
    then show "bit (take_bit i n) j = bit (0::nat) j" using assms(2) by (auto simp: bit_take_bit_iff)
  qed
  then have d: "2 ^ i dvd n" by (simp add: take_bit_eq_0_iff)
  have "q = n div 2 ^ i div 2" by (simp only: q_def power_Suc2 div_mult2_eq)
  then have "n div 2 ^ i = 2 * q + 1"
    using assms(1) odd_two_times_div_two_succ[of "n div 2 ^ i"] unfolding bits by simp
  then have n: "n = 2 ^ Suc i * q + 2 ^ i"
    using d by (metis dvd_div_mult_self add_mult_distrib mult.commute mult.left_commute mult_1 power_Suc)
  then have pos: "0 < n" by simp
  then have "w \<noteq> 0" by (auto simp: n_def)
  then have m: "unat (w - 1) = 2 ^ Suc i * q + (2 ^ i - 1)"
    using n by (simp add: unat_minus_one n_def[symmetric])
  have bits1: "bit (w - 1) j = odd (unat (w - 1) div 2 ^ j)" for j
    by (rule wbit)
  have high: "(2 ^ Suc i * q + r) div 2 ^ j = q div 2 ^ (j - Suc i)"
    if "r < 2 ^ Suc i" "Suc i \<le> j" for r j
  proof -
    have "(2 ^ Suc i * q + r) div 2 ^ j = ((2 ^ Suc i * q + r) div 2 ^ Suc i) div 2 ^ (j - Suc i)"
      using that(2) by (metis div_mult2_eq le_add_diff_inverse power_add)
    also have "(2 ^ Suc i * q + r) div 2 ^ Suc i = q" using that by simp
    finally show ?thesis .
  qed
  have upper: "bit (w - 1) j = bit w j" if "Suc i \<le> j" for j
    unfolding bits bits1 m n using that
    by (subst (1 2) high) (auto intro: le_less_trans[of _ "2 ^ i"])
  have at: "\<not> bit (w - 1) i"
  proof -
    have "(2 ^ i * (2 * q) + (2 ^ i - 1)) div 2 ^ i = 2 * q"
      using div_mult_self2[of "2 ^ i" "2 ^ i - 1" "2 * q"] by (simp add: add.commute)
    then have "(2 ^ Suc i * q + (2 ^ i - 1)) div 2 ^ i = 2 * q"
      by (simp only: power_Suc2 mult.assoc)
    then show ?thesis unfolding bits1 m by simp
  qed
  show ?thesis
  proof (rule bit_word_eqI)
    fix j assume "j < LENGTH(32)"
    then show "bit ((w AND (w - 1)) XOR w) j = bit (push_bit i 1 :: u32) j"
      using assms at upper[of j] i
      by (cases j i rule: linorder_cases) (auto simp: bit_simps)
  qed
qed

lemma bitmap37_correct: "\<forall>i<32. lowest_bit_bitmap37 ! (2 ^ i mod 37) = Suc i"
proof (intro allI impI)
  fix i :: nat assume "i < 32"
  then have "i \<in> {0,1,2,3,4,5,6,7,8,9,10,11,12,13,14,15,16,17,18,19,20,21,22,23,24,25,26,27,28,29,30,31}"
    by (simp only: insert_iff empty_iff) arith
  then show "lowest_bit_bitmap37 ! (2 ^ i mod 37) = Suc i"
    by (elim insertE) (simp_all add: lowest_bit_bitmap37_def)
qed

lemma rt_ffs_tiny_eq: "rt_ffs_tiny w = rt_ffs w"
proof (cases "w = 0")
  case True
  then show ?thesis by (simp add: rt_ffs_tiny_def lowest_bit_bitmap37_def rt_ffs_0_iff)
next
  case False
  then obtain i where i: "rt_ffs w = Suc i" using rt_ffs_0_iff[of w] by (cases "rt_ffs w") auto
  then have b: "bit w i" "\<forall>j<i. \<not> bit w j" by (auto simp: rt_ffs_Suc_iff)
  then have "i < 32" using bit_imp_le_length[of w i] by simp
  moreover have "unat (push_bit i 1 :: u32) = 2 ^ i"
  proof -
    have "(push_bit i 1 :: u32) = word_of_nat (2 ^ i)" by (simp add: push_bit_eq_mult)
    then have "unat (push_bit i 1 :: u32) = take_bit 32 (2 ^ i)" by (simp only: unsigned_of_nat) simp
    moreover have "(2::nat) ^ i < 2 ^ 32" using \<open>i < 32\<close> by (intro power_strict_increasing) auto
    ultimately show ?thesis by (simp only: take_bit_nat_eq_self)
  qed
  ultimately show ?thesis
    using i isolate_lowest_bit[OF b] bitmap37_correct by (simp add: rt_ffs_tiny_def)
qed

section \<open>The 256-entry table\<close>

definition bitmap_row :: "nat \<Rightarrow> nat list" where
  "bitmap_row k = [k, 0, 1, 0, 2, 0, 1, 0, 3, 0, 1, 0, 2, 0, 1, 0]"

definition lowest_bit_bitmap256 :: "nat list" where
  "lowest_bit_bitmap256 = concat (map bitmap_row [0, 4, 5, 4, 6, 4, 5, 4, 7, 4, 5, 4, 6, 4, 5, 4])"

definition rt_ffs_byte :: "u32 \<Rightarrow> nat" where
  "rt_ffs_byte value =
    (if value = 0 then 0
     else if value AND 0xff \<noteq> 0 then lowest_bit_bitmap256 ! unat (value AND 0xff) + 1
     else if value AND 0xff00 \<noteq> 0 then lowest_bit_bitmap256 ! unat (drop_bit 8 (value AND 0xff00)) + 9
     else if value AND 0xff0000 \<noteq> 0 then lowest_bit_bitmap256 ! unat (drop_bit 16 (value AND 0xff0000)) + 17
     else lowest_bit_bitmap256 ! unat (drop_bit 24 (value AND 0xff000000)) + 25)"

lemma nth_concat_rows: "l < 16 \<Longrightarrow> h < length ks \<Longrightarrow> concat (map bitmap_row ks) ! (16 * h + l) = bitmap_row (ks ! h) ! l"
proof (induction ks arbitrary: h)
  case (Cons k ks)
  have "length (bitmap_row k) = 16" by (simp add: bitmap_row_def)
  with Cons show ?case by (cases h) (simp_all add: nth_append)
qed simp

lemma all_less_small:
  "(\<forall>j<1::nat. P j) \<longleftrightarrow> P 0"
  "(\<forall>j<2::nat. P j) \<longleftrightarrow> P 0 \<and> P 1"
  "(\<forall>j<3::nat. P j) \<longleftrightarrow> P 0 \<and> P 1 \<and> P 2"
  by (auto simp: less_Suc_eq numeral_2_eq_2 numeral_3_eq_3)

lemma bitmap16_correct:
  assumes "0 < b" "b < 16"
  shows "bit b (bitmap_row k ! b) \<and> (\<forall>j < bitmap_row k ! b. \<not> bit b j) \<and> bitmap_row k ! b < 4"
proof -
  have "b \<in> {1,2,3,4,5,6,7,8,9,10,11,12,13,14,15}"
    using assms by (simp only: insert_iff empty_iff) arith
  then show ?thesis
    by (elim insertE) (simp_all add: bitmap_row_def all_less_small[simplified] bit_0)
qed

lemma bitmap256_correct:
  assumes "0 < b" "b < 256"
  shows "bit b (lowest_bit_bitmap256 ! b) \<and> (\<forall>j < lowest_bit_bitmap256 ! b. \<not> bit b j)"
proof -
  define h l where "h = b div 16" and "l = b mod 16"
  have b: "b = 16 * h + l" "l < 16" "h < 16" using assms(2) by (auto simp: h_def l_def)
  let ?ks = "[0, 4, 5, 4, 6, 4, 5, 4, 7, 4, 5, 4, 6, 4, 5, 4] :: nat list"
  have nth: "lowest_bit_bitmap256 ! b = bitmap_row (?ks ! h) ! l"
    unfolding lowest_bit_bitmap256_def b(1) by (rule nth_concat_rows) (use b in auto)
  have lo: "bit b j = bit l j" if "j < 4" for j
    using that by (simp add: l_def bit_take_bit_iff flip: take_bit_eq_mod[of 4, simplified])
  have hi: "bit b (4 + j) = bit h j" for j
    by (simp add: h_def bit_iff_odd div_mult2_eq power_add)
  show ?thesis
  proof (cases "l = 0")
    case False
    then show ?thesis using bitmap16_correct[of l "?ks ! h"] b lo nth by auto
  next
    case True
    then have h0: "0 < h" using assms(1) b(1) by simp
    have "?ks ! h = 4 + bitmap_row 0 ! h" using h0 b(3)
    proof -
      have "h \<in> {1,2,3,4,5,6,7,8,9,10,11,12,13,14,15}"
        using h0 b(3) by (simp only: insert_iff empty_iff) arith
      then show ?thesis by (elim insertE) (simp_all add: bitmap_row_def)
    qed
    then have t: "lowest_bit_bitmap256 ! b = 4 + bitmap_row 0 ! h"
      using nth True by (simp add: bitmap_row_def)
    have "\<not> bit b j" if "j < 4 + bitmap_row 0 ! h" for j
    proof (cases "j < 4")
      case True
      then show ?thesis using lo[of j] \<open>l = 0\<close> by simp
    next
      case False
      then have "bit b j = bit h (j - 4)" using hi[of "j - 4"] by simp
      then show ?thesis using bitmap16_correct[of h 0] h0 b(3) that False by auto
    qed
    then show ?thesis using t hi bitmap16_correct[of h 0] h0 b(3) by auto
  qed
qed

lemma byte_bits:
  fixes w :: u32
  assumes "k + 8 \<le> 32"
  shows "unat (drop_bit k (w AND push_bit k 0xff)) < 256"
    and "j < 8 \<Longrightarrow> bit (unat (drop_bit k (w AND push_bit k 0xff))) j = bit w (k + j)"
    and "w AND push_bit k 0xff = 0 \<longleftrightarrow> (\<forall>j<8. \<not> bit w (k + j))"
proof -
  have m: "(0xff::u32) = mask 8" by (simp add: mask_eq_exp_minus_1)
  have e: "drop_bit k (w AND push_bit k 0xff) = take_bit 8 (drop_bit k w)"
    unfolding m using assms by (intro bit_word_eqI) (auto simp: bit_simps)
  show "unat (drop_bit k (w AND push_bit k 0xff)) < 256"
    unfolding e using take_bit_nat_less_exp[of 8 "unat (drop_bit k w)"] by (simp add: unsigned_take_bit_eq)
  show "bit (unat (drop_bit k (w AND push_bit k 0xff))) j = bit w (k + j)" if "j < 8"
    unfolding e using that assms by (simp add: bit_simps)
  show "w AND push_bit k 0xff = 0 \<longleftrightarrow> (\<forall>j<8. \<not> bit w (k + j))"
  proof
    assume z: "w AND push_bit k 0xff = 0"
    show "\<forall>j<8. \<not> bit w (k + j)"
    proof (intro allI impI)
      fix j :: nat assume "j < 8"
      have "\<not> bit (w AND push_bit k 0xff) (k + j)" using z by simp
      then show "\<not> bit w (k + j)" unfolding m using \<open>j < 8\<close> assms by (simp add: bit_simps)
    qed
  next
    assume a: "\<forall>j<8. \<not> bit w (k + j)"
    show "w AND push_bit k 0xff = 0"
    proof (rule bit_word_eqI)
      fix n assume "n < LENGTH(32)"
      have "\<not> bit w n" if "k \<le> n" "n - k < 8" using a that by (metis le_add_diff_inverse)
      then show "bit (w AND push_bit k 0xff) n = bit (0 :: u32) n"
        unfolding m by (auto simp: bit_simps)
    qed
  qed
qed

lemma rt_ffs_byte_step:
  fixes w :: u32
  assumes "k + 8 \<le> 32" "\<forall>j<k. \<not> bit w j" "w AND push_bit k 0xff \<noteq> 0"
  shows "lowest_bit_bitmap256 ! unat (drop_bit k (w AND push_bit k 0xff)) + Suc k = rt_ffs w"
proof -
  let ?b = "unat (drop_bit k (w AND push_bit k 0xff))"
  let ?t = "lowest_bit_bitmap256 ! ?b"
  obtain j0 where "j0 < 8" "bit w (k + j0)" using assms(1,3) byte_bits(3) by blast
  then have "bit ?b j0" using byte_bits(2)[OF assms(1)] by blast
  then have "0 < ?b" by (metis bit_0_eq bot_apply bot_bool_def gr0I)
  then have t: "bit ?b ?t" "\<forall>j<?t. \<not> bit ?b j"
    using bitmap256_correct byte_bits(1)[OF assms(1)] by blast+
  have "?t < 8"
  proof (rule ccontr)
    assume "\<not> ?t < 8"
    then have "(256::nat) \<le> 2 ^ ?t" using power_increasing[of 8 ?t "2::nat"] by simp
    then have "?b div 2 ^ ?t = 0" using byte_bits(1)[OF assms(1), of w] by simp
    then show False using t(1) by (simp add: bit_iff_odd)
  qed
  then have "bit w (k + ?t)" using t(1) byte_bits(2)[OF assms(1)] by blast
  moreover have "\<not> bit w j" if "j < k + ?t" for j
  proof (cases "j < k")
    case True
    then show ?thesis using assms(2) by blast
  next
    case False
    then have "j - k < ?t" "j - k < 8" using that \<open>?t < 8\<close> by auto
    then have "\<not> bit w (k + (j - k))" using t(2) byte_bits(2)[OF assms(1)] by blast
    then show ?thesis using False by simp
  qed
  ultimately have "rt_ffs w = Suc (k + ?t)" by (simp add: rt_ffs_Suc_iff)
  then show ?thesis by simp
qed

lemma rt_ffs_byte_eq: "rt_ffs_byte w = rt_ffs w"
proof -
  have c: "push_bit 0 0xff = (0xff::u32)" "push_bit 8 0xff = (0xff00::u32)"
    "push_bit 16 0xff = (0xff0000::u32)" "push_bit 24 0xff = (0xff000000::u32)"
    by (simp_all add: push_bit_eq_mult)
  have low: "\<forall>j<k + 8. \<not> bit w j"
    if "\<forall>j<k. \<not> bit w j" "w AND push_bit k 0xff = 0" "k + 8 \<le> 32" for k
    using that byte_bits(3)[OF that(3), of w] by (metis add_diff_inverse_nat nat_add_left_cancel_less)
  have low8: "\<forall>j<8. \<not> bit w j" if "w AND 0xff = 0"
    using low[of 0] that unfolding c by simp
  have low16: "\<forall>j<16. \<not> bit w j" if "w AND 0xff = 0" "w AND 0xff00 = 0"
    using low[OF low8] that unfolding c by simp
  have low24: "\<forall>j<24. \<not> bit w j" if "w AND 0xff = 0" "w AND 0xff00 = 0" "w AND 0xff0000 = 0"
    using low[OF low16] that unfolding c by simp
  have step: "lowest_bit_bitmap256 ! unat (w AND 0xff) + 1 = rt_ffs w" if "w AND 0xff \<noteq> 0"
    using rt_ffs_byte_step[of 0 w] that unfolding c by simp
  have step8: "lowest_bit_bitmap256 ! unat (drop_bit 8 (w AND 0xff00)) + 9 = rt_ffs w"
    if "w AND 0xff = 0" "w AND 0xff00 \<noteq> 0"
    using rt_ffs_byte_step[of 8 w] low8 that unfolding c by simp
  have step16: "lowest_bit_bitmap256 ! unat (drop_bit 16 (w AND 0xff0000)) + 17 = rt_ffs w"
    if "w AND 0xff = 0" "w AND 0xff00 = 0" "w AND 0xff0000 \<noteq> 0"
    using rt_ffs_byte_step[of 16 w] low16 that unfolding c by simp
  have step24: "lowest_bit_bitmap256 ! unat (drop_bit 24 (w AND 0xff000000)) + 25 = rt_ffs w"
    if "w AND 0xff = 0" "w AND 0xff00 = 0" "w AND 0xff0000 = 0" "w \<noteq> 0"
  proof -
    have "w AND 0xff000000 \<noteq> 0"
    proof
      assume "w AND 0xff000000 = 0"
      then have "\<forall>j<32. \<not> bit w j" using low[OF low24] that unfolding c by simp
      then show False using that(4) bit_imp_le_length[of w] by (auto simp: word_eq_0_bit)
    qed
    then show ?thesis using rt_ffs_byte_step[of 24 w] low24 that unfolding c by simp
  qed
  show ?thesis
    unfolding rt_ffs_byte_def using step step8 step16 step24 rt_ffs_0_iff[of w] by presburger
qed


text \<open>
  C39. The three implementations of \<^verbatim>\<open>__rt_ffs\<close> in the tree, the bit-scan of the port, the 37-entry
  table and the byte tables, return the same number for every word.
\<close>

theorem ffs_implementations_agree: "rt_ffs_tiny w = rt_ffs w \<and> rt_ffs_byte w = rt_ffs w"
  by (simp add: rt_ffs_tiny_eq rt_ffs_byte_eq)

text \<open>
  \<^verbatim>\<open>__rt_ffs\<close> finds the least bit: it answers 0 exactly for the empty bitmap, and otherwise one
  more than the index of the lowest set bit, so the scheduler reads the best ready priority from it.
\<close>

theorem ffs_finds_least:
  "(rt_ffs w = 0 \<longleftrightarrow> w = 0) \<and> (rt_ffs w = Suc i \<longleftrightarrow> bit w i \<and> (\<forall>j<i. \<not> bit w j))"
  by (simp add: rt_ffs_0_iff rt_ffs_Suc_iff)


theorem ffs_finds_least_witness: "rt_ffs 12 = Suc 2"
proof -
  have "bit (12::u32) 2 \<and> (\<forall>j<2. \<not> bit (12::u32) j)" by code_simp
  then show ?thesis using ffs_finds_least[of 12 2] by blast
qed

end
