(* ===== verification/KState.thy ===== *)
theory KState
  imports RtList Ffs
begin

text \<open>
  The data of the kernel: the structures of \<^verbatim>\<open>include/rtdef.h\<close> as records and the kernel's global
  variables as one record \<open>kstate\<close>. The configuration is that of \<^verbatim>\<open>rtconfig.h\<close>: one core, 32
  priorities, no signals, no modules, hooks enabled but none installed, one timer row.

  A thread, and an object that is a structure of its own, is named by the number of its memory
  block. The timer embedded in a thread has an address of its own, \<open>TimerOf t\<close>. The \<^verbatim>\<open>tlist\<close> nodes of
  the threads and the \<^verbatim>\<open>row\<close> nodes of the timers are kept on the abstract level of \<open>RtList\<close>, one
  sequence per list head.
\<close>

type_synonym tid = nat

datatype addr = Mem nat | TimerOf tid

section \<open>Constants of rtdef.h\<close>

abbreviation (input) RT_THREAD_PRIORITY_MAX :: nat where "RT_THREAD_PRIORITY_MAX \<equiv> 32"

abbreviation (input) RT_THREAD_INIT :: u8 where "RT_THREAD_INIT \<equiv> 0"
abbreviation (input) RT_THREAD_READY :: u8 where "RT_THREAD_READY \<equiv> 1"
abbreviation (input) RT_THREAD_SUSPEND :: u8 where "RT_THREAD_SUSPEND \<equiv> 2"
abbreviation (input) RT_THREAD_RUNNING :: u8 where "RT_THREAD_RUNNING \<equiv> 3"
abbreviation (input) RT_THREAD_CLOSE :: u8 where "RT_THREAD_CLOSE \<equiv> 4"
abbreviation (input) RT_THREAD_STAT_MASK :: u8 where "RT_THREAD_STAT_MASK \<equiv> 7"
abbreviation (input) RT_THREAD_STAT_YIELD :: u8 where "RT_THREAD_STAT_YIELD \<equiv> 8"

abbreviation (input) RT_Object_Class_Null :: u8 where "RT_Object_Class_Null \<equiv> 0"
abbreviation (input) RT_Object_Class_Thread :: u8 where "RT_Object_Class_Thread \<equiv> 1"
abbreviation (input) RT_Object_Class_Semaphore :: u8 where "RT_Object_Class_Semaphore \<equiv> 2"
abbreviation (input) RT_Object_Class_Mutex :: u8 where "RT_Object_Class_Mutex \<equiv> 3"
abbreviation (input) RT_Object_Class_Event :: u8 where "RT_Object_Class_Event \<equiv> 4"
abbreviation (input) RT_Object_Class_MailBox :: u8 where "RT_Object_Class_MailBox \<equiv> 5"
abbreviation (input) RT_Object_Class_MessageQueue :: u8 where "RT_Object_Class_MessageQueue \<equiv> 6"
abbreviation (input) RT_Object_Class_MemPool :: u8 where "RT_Object_Class_MemPool \<equiv> 8"
abbreviation (input) RT_Object_Class_Device :: u8 where "RT_Object_Class_Device \<equiv> 9"
abbreviation (input) RT_Object_Class_Timer :: u8 where "RT_Object_Class_Timer \<equiv> 10"
abbreviation (input) RT_Object_Class_Memory :: u8 where "RT_Object_Class_Memory \<equiv> 12"
abbreviation (input) RT_Object_Class_Static :: u8 where "RT_Object_Class_Static \<equiv> 0x80"

abbreviation (input) RT_TIMER_FLAG_DEACTIVATED :: u8 where "RT_TIMER_FLAG_DEACTIVATED \<equiv> 0"
abbreviation (input) RT_TIMER_FLAG_ACTIVATED :: u8 where "RT_TIMER_FLAG_ACTIVATED \<equiv> 1"
abbreviation (input) RT_TIMER_FLAG_ONE_SHOT :: u8 where "RT_TIMER_FLAG_ONE_SHOT \<equiv> 0"
abbreviation (input) RT_TIMER_FLAG_PERIODIC :: u8 where "RT_TIMER_FLAG_PERIODIC \<equiv> 2"
abbreviation (input) RT_TIMER_FLAG_SOFT_TIMER :: u8 where "RT_TIMER_FLAG_SOFT_TIMER \<equiv> 4"

abbreviation (input) RT_IPC_FLAG_FIFO :: u8 where "RT_IPC_FLAG_FIFO \<equiv> 0"
abbreviation (input) RT_IPC_FLAG_PRIO :: u8 where "RT_IPC_FLAG_PRIO \<equiv> 1"
abbreviation (input) RT_IPC_CMD_RESET :: int where "RT_IPC_CMD_RESET \<equiv> 1"

abbreviation (input) RT_EVENT_FLAG_AND :: u8 where "RT_EVENT_FLAG_AND \<equiv> 1"
abbreviation (input) RT_EVENT_FLAG_OR :: u8 where "RT_EVENT_FLAG_OR \<equiv> 2"
abbreviation (input) RT_EVENT_FLAG_CLEAR :: u8 where "RT_EVENT_FLAG_CLEAR \<equiv> 4"

abbreviation (input) RT_NAME_MAX :: nat where "RT_NAME_MAX \<equiv> 8"

section \<open>Structures\<close>

text \<open>\<^verbatim>\<open>struct rt_object\<close>; its list node lives in \<open>containers\<close> of the kernel state.\<close>

record rt_object =
  oname :: "u8 list"
  otype :: u8
  oflag :: u8

text \<open>The functions that are installed as timer callbacks.\<close>

datatype timer_fun = TF_thread_timeout tid | TF_user nat

text \<open>\<^verbatim>\<open>struct rt_timer\<close>, without its object part.\<close>

record rt_timer =
  tm_func :: timer_fun
  tm_init_tick :: u32
  tm_timeout_tick :: u32

text \<open>
  \<^verbatim>\<open>struct rt_thread\<close>, without its object part and its timer. \<open>th_guard\<close> is the byte at the end of the
  stack that the overflow check reads.
\<close>

record rt_thread =
  th_sp :: u32
  th_entry :: nat
  th_parameter :: nat
  th_stack_addr :: u32
  th_stack_size :: u32
  th_guard :: u8
  th_error :: int
  th_stat :: u8
  th_prio :: u8
  th_number_mask :: u32
  th_event_set :: u32
  th_event_info :: u8
  th_init_tick :: u32
  th_remaining_tick :: u32
  th_cleanup :: "nat option"
  th_user_data :: u32

record rt_semaphore =
  sem_value :: u16

record rt_mutex =
  mx_value :: u16
  mx_original_priority :: u8
  mx_hold :: u8
  mx_owner :: "tid option"

record rt_event =
  ev_set :: u32

record rt_mailbox =
  mb_pool :: "nat \<Rightarrow> u32"
  mb_size :: u16
  mb_entry :: u16
  mb_in_offset :: u16
  mb_out_offset :: u16

text \<open>
  \<^verbatim>\<open>struct rt_messagequeue\<close>: the pool is an array of slots, each a \<^verbatim>\<open>struct rt_mq_message\<close> header
  (the \<^verbatim>\<open>next\<close> pointer) followed by \<open>mq_msg_size\<close> bytes; slots are named by their index.
\<close>

record rt_messagequeue =
  mq_next :: "nat \<Rightarrow> nat option"
  mq_data :: "nat \<Rightarrow> u8 list"
  mq_msg_size :: u16
  mq_max_msgs :: u16
  mq_entry :: u16
  mq_head :: "nat option"
  mq_tail :: "nat option"
  mq_free :: "nat option"

section \<open>The kernel state\<close>

text \<open>The heads of the lists a thread's \<^verbatim>\<open>tlist\<close> node can be linked to.\<close>

datatype lhead =
    Ready nat          \<comment> \<open>\<^verbatim>\<open>rt_thread_priority_table[i]\<close>\<close>
  | Susp nat           \<comment> \<open>\<^verbatim>\<open>suspend_thread\<close> of the IPC object at this address\<close>
  | SuspSender nat     \<comment> \<open>\<^verbatim>\<open>suspend_sender_thread\<close> of a mailbox or message queue\<close>
  | Defunct            \<comment> \<open>\<^verbatim>\<open>_rt_thread_defunct\<close>\<close>

text \<open>The heads of timer lists: the two global ones and the local ones of the two check functions.\<close>

datatype tmhead = TmHard | TmSoft | TmHardLocal | TmSoftLocal

record kstate =
  threads :: "tid \<Rightarrow> rt_thread"
  klists :: "(lhead, tid) llists"
  ready_group :: u32                 \<comment> \<open>\<^verbatim>\<open>rt_thread_ready_priority_group\<close>\<close>
  cur :: "tid option"                \<comment> \<open>\<^verbatim>\<open>rt_current_thread\<close>\<close>
  cur_prio :: u8                     \<comment> \<open>\<^verbatim>\<open>rt_current_priority\<close>\<close>
  lock_nest :: u16                   \<comment> \<open>\<^verbatim>\<open>rt_scheduler_lock_nest\<close>, read as signed\<close>
  int_nest :: u8                     \<comment> \<open>\<^verbatim>\<open>rt_interrupt_nest\<close>\<close>
  tick :: u32                        \<comment> \<open>\<^verbatim>\<open>rt_tick\<close>\<close>
  objs :: "addr \<Rightarrow> rt_object"
  containers :: "(u8, addr) llists"  \<comment> \<open>\<^verbatim>\<open>_object_container\<close>, by class\<close>
  timers :: "addr \<Rightarrow> rt_timer"
  tmlists :: "(tmhead, addr) llists"
  soft_busy :: bool                  \<comment> \<open>\<^verbatim>\<open>_soft_timer_status == RT_SOFT_TIMER_BUSY\<close>\<close>
  random_nr :: u32
  sems :: "nat \<Rightarrow> rt_semaphore"
  mutexes :: "nat \<Rightarrow> rt_mutex"
  events :: "nat \<Rightarrow> rt_event"
  mailboxes :: "nat \<Rightarrow> rt_mailbox"
  mqs :: "nat \<Rightarrow> rt_messagequeue"

text \<open>The static thread structures \<^verbatim>\<open>_timer_thread\<close> and \<^verbatim>\<open>idle[0]\<close> have fixed addresses.\<close>

abbreviation (input) timer_thread :: tid where "timer_thread \<equiv> 0"
abbreviation (input) idle_thread :: tid where "idle_thread \<equiv> 1"

definition upd_thread :: "tid \<Rightarrow> (rt_thread \<Rightarrow> rt_thread) \<Rightarrow> kstate \<Rightarrow> kstate" where
  "upd_thread t f s = s\<lparr>threads := (threads s)(t := f (threads s t))\<rparr>"

definition upd_timer :: "addr \<Rightarrow> (rt_timer \<Rightarrow> rt_timer) \<Rightarrow> kstate \<Rightarrow> kstate" where
  "upd_timer a f s = s\<lparr>timers := (timers s)(a := f (timers s a))\<rparr>"

definition upd_obj :: "addr \<Rightarrow> (rt_object \<Rightarrow> rt_object) \<Rightarrow> kstate \<Rightarrow> kstate" where
  "upd_obj a f s = s\<lparr>objs := (objs s)(a := f (objs s a))\<rparr>"

text \<open>\<open>tstat s t\<close> is the masked status the code compares.\<close>

definition tstat :: "kstate \<Rightarrow> tid \<Rightarrow> u8" where
  "tstat s t = th_stat (threads s t) AND RT_THREAD_STAT_MASK"

definition set_state :: "u8 \<Rightarrow> rt_thread \<Rightarrow> rt_thread" where
  "set_state k th = th\<lparr>th_stat := k OR (th_stat th AND NOT RT_THREAD_STAT_MASK)\<rparr>"

definition prio :: "kstate \<Rightarrow> tid \<Rightarrow> nat" where
  "prio s t = unat (th_prio (threads s t))"

text \<open>The kernel's memory at reset: static variables are zero and nothing is linked.\<close>

definition blank_thread :: rt_thread where
  "blank_thread = \<lparr>th_sp = 0, th_entry = 0, th_parameter = 0, th_stack_addr = 0, th_stack_size = 0,
     th_guard = 0, th_error = 0, th_stat = 0, th_prio = 0, th_number_mask = 0, th_event_set = 0,
     th_event_info = 0, th_init_tick = 0, th_remaining_tick = 0, th_cleanup = None, th_user_data = 0\<rparr>"

definition blank_mq :: rt_messagequeue where
  "blank_mq = \<lparr>mq_next = (\<lambda>i. None), mq_data = (\<lambda>i. []), mq_msg_size = 0, mq_max_msgs = 0, mq_entry = 0,
     mq_head = None, mq_tail = None, mq_free = None\<rparr>"

definition bss :: kstate where
  "bss = \<lparr>threads = (\<lambda>t. blank_thread), klists = (\<lambda>h. []), ready_group = 0, cur = None, cur_prio = 0,
     lock_nest = 0, int_nest = 0, tick = 0, objs = (\<lambda>a. \<lparr>oname = [], otype = 0, oflag = 0\<rparr>),
     containers = (\<lambda>c. []),
     timers = (\<lambda>a. \<lparr>tm_func = TF_user 0, tm_init_tick = 0, tm_timeout_tick = 0\<rparr>), tmlists = (\<lambda>h. []),
     soft_busy = False, random_nr = 0, sems = (\<lambda>x. \<lparr>sem_value = 0\<rparr>),
     mutexes = (\<lambda>x. \<lparr>mx_value = 0, mx_original_priority = 0, mx_hold = 0, mx_owner = None\<rparr>),
     events = (\<lambda>x. \<lparr>ev_set = 0\<rparr>),
     mailboxes = (\<lambda>x. \<lparr>mb_pool = (\<lambda>i. 0), mb_size = 0, mb_entry = 0, mb_in_offset = 0, mb_out_offset = 0\<rparr>),
     mqs = (\<lambda>x. blank_mq)\<rparr>"

text \<open>What a call that may block answers: a result, or the fact that the caller was put to sleep.
  The payload of \<open>Blocked\<close> is what the rest of the function still needs from its local variables.\<close>

datatype ('a, 'k) outcome = Done 'a | Blocked 'k

section \<open>The context checks of rtdebug.h\<close>

definition not_in_interrupt :: "kstate \<Rightarrow> bool" where
  "not_in_interrupt s \<longleftrightarrow> int_nest s = 0"

definition in_thread_context :: "kstate \<Rightarrow> bool" where
  "in_thread_context s \<longleftrightarrow> cur s \<noteq> None \<and> not_in_interrupt s"

definition scheduler_available :: "bool \<Rightarrow> kstate \<Rightarrow> bool" where
  "scheduler_available need_check s \<longleftrightarrow>
     (need_check \<longrightarrow> lock_nest s = 0 \<and> in_thread_context s)"

section \<open>Facts about the status byte\<close>

lemma yield_mask [simp]: "(x OR 8) AND 7 = x AND (7::u8)"
  by (simp add: bit.conj_disj_distrib2)

lemma clear_yield_mask [simp]: "(x AND NOT 8) AND 7 = x AND (7::u8)" "(x AND - 9) AND 7 = x AND (7::u8)"
  by (simp_all add: and.assoc)

lemma state_mask_low [simp]: "(k OR (x AND NOT 7)) AND 7 = k AND (7::u8)" "(k OR (x AND - 8)) AND 7 = k AND (7::u8)"
  by (simp_all add: bit.conj_disj_distrib2 and.assoc)

lemma tstat_set_state:
  "k AND 7 = k \<Longrightarrow> tstat (upd_thread t (set_state k) s) u = (if u = t then k else tstat s u)"
  by (simp add: tstat_def upd_thread_def set_state_def)

end
