(* ===== verification/Scheduler.thy ===== *)
theory Scheduler
  imports KState
begin

text \<open>
  \<^verbatim>\<open>src/scheduler.c\<close> for one core: the priority table with its bitmap, the choice of the next
  thread, and the scheduler lock; with the interrupt nesting counter of \<^verbatim>\<open>src/irq.c\<close>.
  A call of \<^verbatim>\<open>rt_hw_context_switch\<close> shows in the state only as the change of \<open>cur\<close>: what the
  switched-out thread still has to do happens when it is current again. Interrupts are disabled
  around each function, so each is one atomic step.
\<close>

section \<open>Operations\<close>

text \<open>The overflow check: when it fails the system stops, with interrupts off, in \<^verbatim>\<open>while (level)\<close>.\<close>

definition stack_check :: "rt_thread \<Rightarrow> bool" where
  "stack_check th \<longleftrightarrow> \<not> (th_guard th \<noteq> 0x23 \<or> th_sp th \<le> th_stack_addr th \<or>
     th_sp th > th_stack_addr th + th_stack_size th)"

definition scheduler_get_highest :: "kstate \<Rightarrow> (tid \<times> nat) option" where
  "scheduler_get_highest s =
    (case rt_ffs (ready_group s) of
       0 \<Rightarrow> None
     | Suc highest \<Rightarrow> (case klists s (Ready highest) of [] \<Rightarrow> None | t # _ \<Rightarrow> Some (t, highest)))"

definition rt_system_scheduler_init :: "kstate \<Rightarrow> kstate" where
  "rt_system_scheduler_init s =
    s\<lparr>lock_nest := 0,
      klists := (\<lambda>h. case h of Ready p \<Rightarrow> if p < RT_THREAD_PRIORITY_MAX then [] else klists s h
                             | _ \<Rightarrow> klists s h),
      ready_group := 0\<rparr>"

definition rt_schedule_insert_thread :: "tid \<Rightarrow> kstate \<Rightarrow> kstate option" where
  "rt_schedule_insert_thread t s =
    (if cur s = Some t then Some (upd_thread t (set_state RT_THREAD_RUNNING) s)
     else
       let s = upd_thread t (set_state RT_THREAD_READY) s in
       if prio s t < RT_THREAD_PRIORITY_MAX then
         Some (s\<lparr>klists := ll_insert_before (Ready (prio s t)) t (klists s),
                 ready_group := ready_group s OR th_number_mask (threads s t)\<rparr>)
       else None)"

definition rt_schedule_remove_thread :: "tid \<Rightarrow> kstate \<Rightarrow> kstate option" where
  "rt_schedule_remove_thread t s =
    (let s = s\<lparr>klists := ll_remove t (klists s)\<rparr> in
     if prio s t < RT_THREAD_PRIORITY_MAX then
       if klists s (Ready (prio s t)) = [] then
         Some (s\<lparr>ready_group := ready_group s AND NOT (th_number_mask (threads s t))\<rparr>)
       else Some s
     else None)"

definition rt_system_scheduler_start :: "kstate \<Rightarrow> kstate option" where
  "rt_system_scheduler_start s = do {
     (to, hp) \<leftarrow> scheduler_get_highest s;
     let s = s\<lparr>cur := Some to\<rparr>;
     s \<leftarrow> rt_schedule_remove_thread to s;
     Some (upd_thread to (\<lambda>th. th\<lparr>th_stat := RT_THREAD_RUNNING\<rparr>) s)
   }"

text \<open>
  \<open>pick_thread c hi hp s\<close> is the decision inside \<^verbatim>\<open>rt_schedule\<close>: which thread runs next, whether the
  running thread \<open>c\<close> goes back to its queue, and the state with \<open>c\<close>'s yield bit cleared.
\<close>

definition pick_thread :: "tid \<Rightarrow> tid \<Rightarrow> nat \<Rightarrow> kstate \<Rightarrow> tid \<times> bool \<times> kstate" where
  "pick_thread c hi hp s =
    (if tstat s c = RT_THREAD_RUNNING then
       (let s' = upd_thread c (\<lambda>th. th\<lparr>th_stat := th_stat th AND NOT RT_THREAD_STAT_YIELD\<rparr>) s in
        if prio s c < hp then (c, False, s')
        else if prio s c = hp \<and> th_stat (threads s c) AND RT_THREAD_STAT_YIELD = 0 then (c, False, s')
        else (hi, True, s'))
     else (hi, False, s))"

definition rt_schedule :: "kstate \<Rightarrow> kstate option" where
  "rt_schedule s =
    (if lock_nest s = 0 then
       if ready_group s \<noteq> 0 then do {
         (hi, hp) \<leftarrow> scheduler_get_highest s;
         c \<leftarrow> cur s;
         let (to, need_insert, s) = pick_thread c hi hp s;
         if to \<noteq> c then do {
           let s = s\<lparr>cur_prio := of_nat hp, cur := Some to\<rparr>;
           s \<leftarrow> (if need_insert then rt_schedule_insert_thread c s else Some s);
           s \<leftarrow> rt_schedule_remove_thread to s;
           let s = upd_thread to (set_state RT_THREAD_RUNNING) s;
           _ \<leftarrow> kassert (stack_check (threads s to));
           Some s
         } else do {
           s \<leftarrow> rt_schedule_remove_thread c s;
           Some (upd_thread c (set_state RT_THREAD_RUNNING) s)
         }
       } else Some s
     else Some s)"

definition rt_enter_critical :: "kstate \<Rightarrow> kstate" where
  "rt_enter_critical s = s\<lparr>lock_nest := lock_nest s + 1\<rparr>"

definition rt_exit_critical :: "kstate \<Rightarrow> kstate option" where
  "rt_exit_critical s =
    (let s = s\<lparr>lock_nest := lock_nest s - 1\<rparr> in
     if sint (lock_nest s) \<le> 0 then
       let s = s\<lparr>lock_nest := 0\<rparr> in
       (if cur s \<noteq> None then rt_schedule s else Some s)
     else Some s)"

definition rt_critical_level :: "kstate \<Rightarrow> u16" where
  "rt_critical_level s = lock_nest s"

definition rt_interrupt_enter :: "kstate \<Rightarrow> kstate" where
  "rt_interrupt_enter s = s\<lparr>int_nest := int_nest s + 1\<rparr>"

definition rt_interrupt_leave :: "kstate \<Rightarrow> kstate" where
  "rt_interrupt_leave s = s\<lparr>int_nest := int_nest s - 1\<rparr>"

definition rt_interrupt_get_nest :: "kstate \<Rightarrow> u8" where
  "rt_interrupt_get_nest s = int_nest s"

section \<open>The scheduler's invariant\<close>

text \<open>
  \<open>sched_inv X s\<close>: the lists are well formed, the bitmap mirrors the non-empty queues, a thread is
  queued exactly when it is ready, at its current priority, and a thread on a wait list is
  suspended. \<open>X\<close> holds the threads in transit, which are on no list whatever their status.
\<close>

definition runnable :: "kstate \<Rightarrow> tid \<Rightarrow> bool" where
  "runnable s t \<longleftrightarrow> prio s t < 32 \<and> th_number_mask (threads s t) = push_bit (prio s t) 1"

definition started :: "kstate \<Rightarrow> tid \<Rightarrow> bool" where
  "started s t \<longleftrightarrow> tstat s t \<in> {RT_THREAD_READY, RT_THREAD_SUSPEND, RT_THREAD_RUNNING}"

definition wait_head :: "lhead \<Rightarrow> bool" where
  "wait_head h \<longleftrightarrow> (\<exists>x. h = Susp x \<or> h = SuspSender x)"

definition sched_inv :: "tid set \<Rightarrow> kstate \<Rightarrow> bool" where
  "sched_inv X s \<longleftrightarrow>
     ll_wf (klists s) \<and>
     (\<forall>p. bit (ready_group s) p \<longleftrightarrow> klists s (Ready p) \<noteq> []) \<and>
     (\<forall>t\<in>X. unlinked t (klists s)) \<and>
     (\<forall>t p. t \<notin> X \<longrightarrow> t \<in> set (klists s (Ready p)) \<longleftrightarrow> tstat s t = RT_THREAD_READY \<and> prio s t = p) \<and>
     (\<forall>t h. t \<in> set (klists s h) \<longrightarrow> wait_head h \<longrightarrow> tstat s t = RT_THREAD_SUSPEND) \<and>
     (\<forall>t. t \<in> set (klists s Defunct) \<longrightarrow> tstat s t = RT_THREAD_CLOSE) \<and>
     (\<forall>t. started s t \<longrightarrow> runnable s t)"

definition cur_ok :: "kstate \<Rightarrow> bool" where
  "cur_ok s \<longleftrightarrow> (\<forall>t. tstat s t = RT_THREAD_RUNNING \<longrightarrow> cur s = Some t) \<and>
     (\<forall>t. cur s = Some t \<longrightarrow> tstat s t \<in> {RT_THREAD_RUNNING, RT_THREAD_SUSPEND, RT_THREAD_CLOSE})"

definition sched_wf :: "kstate \<Rightarrow> bool" where
  "sched_wf s \<longleftrightarrow> sched_inv {} s \<and> cur_ok s"

text \<open>What the invariant looks at.\<close>

lemma sched_inv_cong:
  assumes "klists s' = klists s" "ready_group s' = ready_group s"
    and "\<And>t. tstat s' t = tstat s t" "\<And>t. prio s' t = prio s t"
    and "\<And>t. th_number_mask (threads s' t) = th_number_mask (threads s t)"
  shows "sched_inv X s' = sched_inv X s"
  unfolding sched_inv_def runnable_def started_def assms ..

lemma cur_ok_cong:
  "cur s' = cur s \<Longrightarrow> (\<And>t. tstat s' t = tstat s t) \<Longrightarrow> cur_ok s' = cur_ok s"
  by (simp add: cur_ok_def)

lemma sched_wf_cong:
  assumes "klists s' = klists s" "ready_group s' = ready_group s" "cur s' = cur s"
    and "\<And>t. tstat s' t = tstat s t" "\<And>t. prio s' t = prio s t"
    and "\<And>t. th_number_mask (threads s' t) = th_number_mask (threads s t)"
  shows "sched_wf s' = sched_wf s"
  unfolding sched_wf_def using sched_inv_cong[of s' s, OF assms(1,2,4,5,6)] cur_ok_cong[of s' s] assms
  by simp

lemma threads_same:
  "threads s' = threads s \<Longrightarrow> tstat s' t = tstat s t"
  "threads s' = threads s \<Longrightarrow> prio s' t = prio s t"
  "threads s' = threads s \<Longrightarrow> runnable s' t = runnable s t"
  unfolding tstat_def prio_def runnable_def by auto

lemma cur_okD:
  assumes "cur_ok s" "cur s = Some c"
  shows "tstat s c \<noteq> RT_THREAD_READY" and "tstat s t = RT_THREAD_RUNNING \<Longrightarrow> t = c"
proof -
  have "tstat s c \<in> {RT_THREAD_RUNNING, RT_THREAD_SUSPEND, RT_THREAD_CLOSE}"
    using assms unfolding cur_ok_def by blast
  then show "tstat s c \<noteq> RT_THREAD_READY" by auto
  show "t = c" if "tstat s t = RT_THREAD_RUNNING"
    using assms that unfolding cur_ok_def by (metis option.inject)
qed

lemma cur_upd_thread [simp]: "cur (upd_thread t f s) = cur s"
  by (simp add: upd_thread_def)

text \<open>Moving a thread into transit, changing its status there, and queueing it again.\<close>

lemma remove_inv:
  assumes inv: "sched_inv X s" and run: "runnable s t"
  shows "\<exists>s'. rt_schedule_remove_thread t s = Some s' \<and> sched_inv (insert t X) s' \<and>
           klists s' = ll_remove t (klists s) \<and> threads s' = threads s \<and> cur s' = cur s"
proof -
  have wf: "ll_wf (klists s)" and bits: "\<And>p. bit (ready_group s) p \<longleftrightarrow> klists s (Ready p) \<noteq> []"
    using inv by (auto simp: sched_inv_def)
  have p: "prio s t < 32" "th_number_mask (threads s t) = push_bit (prio s t) 1"
    using run by (auto simp: runnable_def)
  define s1 where "s1 = s\<lparr>klists := ll_remove t (klists s)\<rparr>"
  define s2 where "s2 = (if klists s1 (Ready (prio s t)) = []
    then s1\<lparr>ready_group := ready_group s1 AND NOT (th_number_mask (threads s1 t))\<rparr> else s1)"
  have r: "rt_schedule_remove_thread t s = Some s2"
    using p by (simp add: rt_schedule_remove_thread_def s1_def s2_def prio_def)
  have kl: "klists s2 = ll_remove t (klists s)" and th: "threads s2 = threads s" and c: "cur s2 = cur s"
    by (simp_all add: s2_def s1_def)
  have st: "tstat s2 u = tstat s u" "prio s2 u = prio s u" for u by (simp_all add: tstat_def prio_def th)
  have other: "t \<notin> set (klists s (Ready q))" if "q \<noteq> prio s t" for q
    using that inv by (cases "t \<in> X") (auto simp: sched_inv_def unlinked_def)
  have mem: "u \<in> set (ll_remove t (klists s) h) \<longleftrightarrow> u \<noteq> t \<and> u \<in> set (klists s h)" for u h
    using wf by (auto simp: ll_remove_def ll_wf_def)
  have "bit (ready_group s2) q \<longleftrightarrow> klists s2 (Ready q) \<noteq> []" for q
  proof (cases "q = prio s t")
    case True
    then show ?thesis using p bits[of q]
      by (auto simp: s2_def s1_def bit_shift_one ll_remove_def)
  next
    case False
    then show ?thesis using p bits[of q] other[OF False]
      by (auto simp: s2_def s1_def bit_shift_one ll_remove_def remove1_idem)
  qed
  then have "sched_inv (insert t X) s2"
    using inv wf unfolding sched_inv_def started_def runnable_def st th
    by (auto simp: mem unlinked_def kl intro: ll_wf_remove)
  with r kl th c show ?thesis by blast
qed

lemma set_state_inv:
  assumes inv: "sched_inv (insert t X) s" and "t \<notin> X" and k: "k AND 7 = k" "k \<noteq> RT_THREAD_READY"
    and run: "k \<in> {RT_THREAD_SUSPEND, RT_THREAD_RUNNING} \<Longrightarrow> runnable s t"
  shows "sched_inv X (upd_thread t (set_state k) s)"
proof -
  let ?s = "upd_thread t (set_state k) s"
  have st: "tstat ?s u = (if u = t then k else tstat s u)" for u using k by (simp add: tstat_set_state)
  have pr: "prio ?s u = prio s u" "th_number_mask (threads ?s u) = th_number_mask (threads s u)"
    "klists ?s = klists s" "ready_group ?s = ready_group s" for u
    by (simp_all add: prio_def upd_thread_def set_state_def)
  have "t \<notin> set (klists s h)" for h using inv by (auto simp: sched_inv_def unlinked_def)
  then show ?thesis
    using inv k run unfolding sched_inv_def started_def runnable_def st pr by auto
qed

lemma insert_inv:
  assumes inv: "sched_inv (insert t X) s" and "t \<notin> X" and run: "runnable s t"
  shows "\<exists>s'. rt_schedule_insert_thread t s = Some s' \<and> sched_inv X s' \<and>
    cur s' = cur s \<and>
    (\<forall>u. tstat s' u = (if u = t then if cur s = Some t then RT_THREAD_RUNNING else RT_THREAD_READY
                       else tstat s u))"
proof (cases "cur s = Some t")
  case True
  then show ?thesis
    using set_state_inv[OF inv assms(2), of RT_THREAD_RUNNING] run
    by (auto simp: rt_schedule_insert_thread_def tstat_set_state)
next
  case False
  define s1 where "s1 = upd_thread t (set_state RT_THREAD_READY) s"
  define s2 where "s2 = s1\<lparr>klists := ll_insert_before (Ready (prio s1 t)) t (klists s1),
      ready_group := ready_group s1 OR th_number_mask (threads s1 t)\<rparr>"
  have p: "prio s t < 32" "th_number_mask (threads s t) = push_bit (prio s t) 1"
    using run by (auto simp: runnable_def)
  have pr: "prio s1 u = prio s u" "th_number_mask (threads s1 u) = th_number_mask (threads s u)"
    "klists s1 = klists s" "ready_group s1 = ready_group s" "cur s1 = cur s" for u
    by (simp_all add: s1_def prio_def upd_thread_def set_state_def)
  have r: "rt_schedule_insert_thread t s = Some s2"
    using False p by (simp add: rt_schedule_insert_thread_def s1_def[symmetric] s2_def Let_def pr)
  have st: "tstat s2 u = (if u = t then RT_THREAD_READY else tstat s u)" for u
    using tstat_set_state[of RT_THREAD_READY t s u] by (simp add: s2_def s1_def tstat_def)
  have pr2: "prio s2 u = prio s u" "th_number_mask (threads s2 u) = th_number_mask (threads s u)"
    "klists s2 = ll_insert_before (Ready (prio s t)) t (klists s)"
    "ready_group s2 = ready_group s OR push_bit (prio s t) 1" for u
    using pr p by (simp_all add: s2_def prio_def)
  have unl: "unlinked t (klists s)" using inv by (auto simp: sched_inv_def)
  have mem: "u \<in> set (klists s2 h) \<longleftrightarrow> u \<in> set (klists s h) \<or> (h = Ready (prio s t) \<and> u = t)" for u h
    by (auto simp: pr2 ll_insert_before_def)
  have wf: "ll_wf (klists s2)"
    using inv unl unfolding pr2 by (auto simp: sched_inv_def intro: ll_wf_insert_before)
  have bits: "bit (ready_group s2) q \<longleftrightarrow> klists s2 (Ready q) \<noteq> []" for q
    using inv p(1) unfolding pr2 bit_shift_one by (auto simp: sched_inv_def ll_insert_before_def)
  have "sched_inv X s2"
    using inv wf bits run \<open>t \<notin> X\<close>
    unfolding sched_inv_def started_def runnable_def st
    by (auto simp: mem unlinked_def pr2(1,2) wait_head_def)
  then show ?thesis using r st False by (auto simp: s2_def s1_def upd_thread_def)
qed

section \<open>The next thread\<close>

lemma sched_inv_transit: "sched_inv X s \<Longrightarrow> unlinked t (klists s) \<Longrightarrow> sched_inv (insert t X) s"
  by (auto simp: sched_inv_def)

lemma running_unlinked:
  assumes "sched_inv X s" "tstat s t = RT_THREAD_RUNNING"
  shows "unlinked t (klists s)"
proof -
  have "t \<notin> set (klists s h)" for h
    using assms by (cases "t \<in> X"; cases h) (auto simp: sched_inv_def wait_head_def unlinked_def)
  then show ?thesis by (simp add: unlinked_def)
qed

lemma in_queue_ready: "sched_inv X s \<Longrightarrow> t \<in> set (klists s (Ready p)) \<Longrightarrow> tstat s t = RT_THREAD_READY \<and> prio s t = p"
  by (cases "t \<in> X") (auto simp: sched_inv_def unlinked_def)

lemma get_highest_spec:
  assumes "sched_inv X s"
  shows "scheduler_get_highest s = None \<longleftrightarrow> ready_group s = 0"
    and "scheduler_get_highest s = Some (hi, hp) \<Longrightarrow>
      klists s (Ready hp) \<noteq> [] \<and> hi = hd (klists s (Ready hp)) \<and>
      tstat s hi = RT_THREAD_READY \<and> prio s hi = hp \<and>
      (\<forall>p. klists s (Ready p) \<noteq> [] \<longrightarrow> hp \<le> p)"
proof -
  have bits: "bit (ready_group s) p \<longleftrightarrow> klists s (Ready p) \<noteq> []" for p
    using assms by (auto simp: sched_inv_def)
  have ne: "klists s (Ready p) \<noteq> []" if "rt_ffs (ready_group s) = Suc p" for p
    using that bits by (auto simp: rt_ffs_Suc_iff)
  show "scheduler_get_highest s = None \<longleftrightarrow> ready_group s = 0"
    using ne rt_ffs_0_iff[of "ready_group s"]
    by (auto simp: scheduler_get_highest_def split: nat.splits list.splits)
  assume h: "scheduler_get_highest s = Some (hi, hp)"
  then have f: "rt_ffs (ready_group s) = Suc hp" and q: "klists s (Ready hp) \<noteq> []" "hi = hd (klists s (Ready hp))"
    by (auto simp: scheduler_get_highest_def split: nat.splits list.splits)
  have "hp \<le> p" if "klists s (Ready p) \<noteq> []" for p
    using that f bits by (metis rt_ffs_Suc_iff not_less)
  then show "klists s (Ready hp) \<noteq> [] \<and> hi = hd (klists s (Ready hp)) \<and>
      tstat s hi = RT_THREAD_READY \<and> prio s hi = hp \<and> (\<forall>p. klists s (Ready p) \<noteq> [] \<longrightarrow> hp \<le> p)"
    using q in_queue_ready[OF assms, of hi hp] by auto
qed

text \<open>\<open>keeps s c hp\<close>: the running thread stays although the best queued priority is \<open>hp\<close>.\<close>

definition keeps :: "kstate \<Rightarrow> tid \<Rightarrow> nat \<Rightarrow> bool" where
  "keeps s c hp \<longleftrightarrow> tstat s c = RT_THREAD_RUNNING \<and>
     (prio s c < hp \<or> prio s c = hp \<and> th_stat (threads s c) AND RT_THREAD_STAT_YIELD = 0)"

definition clear_yield :: "tid \<Rightarrow> kstate \<Rightarrow> kstate" where
  "clear_yield c s =
    (if tstat s c = RT_THREAD_RUNNING
     then upd_thread c (\<lambda>th. th\<lparr>th_stat := th_stat th AND NOT RT_THREAD_STAT_YIELD\<rparr>) s else s)"

lemma pick_thread_eq:
  "pick_thread c hi hp s =
    (if keeps s c hp then c else hi, tstat s c = RT_THREAD_RUNNING \<and> \<not> keeps s c hp, clear_yield c s)"
  by (simp add: pick_thread_def keeps_def clear_yield_def Let_def)

lemma clear_yield_same [simp]:
  "klists (clear_yield c s) = klists s" "ready_group (clear_yield c s) = ready_group s"
  "cur (clear_yield c s) = cur s" "tstat (clear_yield c s) t = tstat s t"
  "prio (clear_yield c s) t = prio s t"
  "th_number_mask (threads (clear_yield c s) t) = th_number_mask (threads s t)"
  by (simp_all add: clear_yield_def upd_thread_def tstat_def prio_def)

lemma clear_yield_stack [simp]: "stack_check (threads (clear_yield c s) t) = stack_check (threads s t)"
  by (simp add: clear_yield_def upd_thread_def stack_check_def)

lemma clear_yield_inv [simp]: "sched_inv X (clear_yield c s) = sched_inv X s"
  by (rule sched_inv_cong) simp_all

text \<open>The three ways through \<^verbatim>\<open>rt_schedule\<close> once it decides to look at the queues.\<close>

lemma schedule_keep:
  assumes wf: "sched_wf s" and c: "cur s = Some c" "tstat s c = RT_THREAD_RUNNING"
  shows "\<exists>s'. rt_schedule_remove_thread c (clear_yield c s) = Some s' \<and>
    sched_wf (upd_thread c (set_state RT_THREAD_RUNNING) s') \<and> cur s' = Some c \<and>
    (\<forall>u. tstat (upd_thread c (set_state RT_THREAD_RUNNING) s') u = tstat s u)"
proof -
  let ?s = "clear_yield c s"
  have inv: "sched_inv {} ?s" using wf by (simp add: sched_wf_def)
  have run: "runnable ?s c" using inv c(2) by (auto simp: sched_inv_def started_def)
  obtain s1 where s1: "rt_schedule_remove_thread c ?s = Some s1" "sched_inv {c} s1"
      "threads s1 = threads ?s" "cur s1 = cur ?s"
    using remove_inv[OF inv run] by auto
  have st: "tstat s1 u = tstat s u" for u
    using threads_same(1)[OF s1(3)] by simp
  have "sched_inv {} (upd_thread c (set_state RT_THREAD_RUNNING) s1)"
    using run threads_same(3)[OF s1(3)] by (intro set_state_inv[OF s1(2)]) simp_all
  moreover have st': "tstat (upd_thread c (set_state RT_THREAD_RUNNING) s1) u = tstat s u" for u
    using c(2) by (simp add: tstat_set_state st)
  moreover have "cur_ok (upd_thread c (set_state RT_THREAD_RUNNING) s1)"
    using wf cur_ok_cong[of "upd_thread c (set_state RT_THREAD_RUNNING) s1" s] st' s1(4)
    by (simp add: sched_wf_def)
  ultimately show ?thesis using s1(1,4) c(1) by (intro exI[of _ s1]) (simp add: sched_wf_def)
qed

lemma schedule_switch:
  fixes cp :: u8
  assumes wf: "sched_wf s" and c: "cur s = Some c" and hi: "tstat s hi = RT_THREAD_READY"
    and need: "need \<longleftrightarrow> tstat s c = RT_THREAD_RUNNING"
  defines "s0 \<equiv> (clear_yield c s)\<lparr>cur_prio := cp, cur := Some hi\<rparr>"
  shows "\<exists>s1 s2. (if need then rt_schedule_insert_thread c s0 else Some s0) = Some s1 \<and>
    rt_schedule_remove_thread hi s1 = Some s2 \<and>
    sched_wf (upd_thread hi (set_state RT_THREAD_RUNNING) s2) \<and> cur s2 = Some hi \<and>
    (\<forall>u. tstat (upd_thread hi (set_state RT_THREAD_RUNNING) s2) u =
      (if u = hi then RT_THREAD_RUNNING else if u = c \<and> need then RT_THREAD_READY else tstat s u))"
proof -
  have ok: "cur_ok s" using wf by (simp add: sched_wf_def)
  have "hi \<noteq> c" using cur_okD(1)[OF ok c(1)] hi by auto
  have st0: "tstat s0 u = tstat s u" "prio s0 u = prio s u"
    "th_number_mask (threads s0 u) = th_number_mask (threads s u)" for u
    using threads_same[of s0 "clear_yield c s" u] by (simp_all add: s0_def)
  have inv0: "sched_inv {} s0"
    using wf sched_inv_cong[of s0 s "{}"] st0 by (simp add: sched_wf_def s0_def)
  have "\<exists>s1. (if need then rt_schedule_insert_thread c s0 else Some s0) = Some s1 \<and>
    sched_inv {} s1 \<and> cur s1 = Some hi \<and>
    (\<forall>u. tstat s1 u = (if u = c \<and> need then RT_THREAD_READY else tstat s u))"
  proof (cases need)
    case True
    then have r: "tstat s0 c = RT_THREAD_RUNNING" using need st0 by simp
    then have "sched_inv {c} s0" using inv0 running_unlinked sched_inv_transit by blast
    moreover have "runnable s0 c" using inv0 r by (auto simp: sched_inv_def started_def)
    ultimately show ?thesis
      using insert_inv[of c "{}" s0] True \<open>hi \<noteq> c\<close> st0 by (auto simp: s0_def)
  next
    case False
    then show ?thesis using inv0 st0 by (auto simp: s0_def)
  qed
  then obtain s1 where s1: "(if need then rt_schedule_insert_thread c s0 else Some s0) = Some s1"
    "sched_inv {} s1" "cur s1 = Some hi"
    "\<And>u. tstat s1 u = (if u = c \<and> need then RT_THREAD_READY else tstat s u)"
    by blast
  have run: "runnable s1 hi" using s1(2,4) hi \<open>hi \<noteq> c\<close> by (auto simp: sched_inv_def started_def)
  obtain s2 where s2: "rt_schedule_remove_thread hi s1 = Some s2" "sched_inv {hi} s2"
      "threads s2 = threads s1" "cur s2 = cur s1"
    using remove_inv[OF s1(2) run] by auto
  let ?s = "upd_thread hi (set_state RT_THREAD_RUNNING) s2"
  have "sched_inv {} ?s"
    using run threads_same(3)[OF s2(3)] by (intro set_state_inv[OF s2(2)]) simp_all
  moreover have st: "tstat ?s u = (if u = hi then RT_THREAD_RUNNING
      else if u = c \<and> need then RT_THREAD_READY else tstat s u)" for u
    using s1(4)[of u] threads_same(1)[OF s2(3), of u] by (simp add: tstat_set_state)
  moreover have "cur_ok ?s"
  proof -
    have "tstat s u = RT_THREAD_RUNNING \<Longrightarrow> u = c" for u by (rule cur_okD(2)[OF ok c(1)])
    then show ?thesis using s2(4) s1(3) need unfolding cur_ok_def st by auto
  qed
  ultimately show ?thesis
    using s1(1,3) s2(1,4) by (intro exI[of _ s1] exI[of _ s2]) (simp add: sched_wf_def)
qed

definition next_thread :: "kstate \<Rightarrow> tid \<Rightarrow> tid \<Rightarrow> nat \<Rightarrow> tid" where
  "next_thread s c hi hp = (if keeps s c hp then c else hi)"

text \<open>
  Everything \<^verbatim>\<open>rt_schedule\<close> does when the scheduler is unlocked and a queue is non-empty: it
  keeps the invariant, the new current thread is the chosen one, a preempted thread is ready, and
  it can stop the system only through the stack check of the thread switched to.
\<close>

lemma rt_schedule_active:
  assumes wf: "sched_wf s" and free: "lock_nest s = 0" and c: "cur s = Some c"
    and h: "scheduler_get_highest s = Some (hi, hp)"
  shows "rt_schedule s = Some s' \<Longrightarrow> sched_wf s' \<and> cur s' = Some (next_thread s c hi hp) \<and>
      (\<forall>u. tstat s' u = (if u = next_thread s c hi hp then RT_THREAD_RUNNING
        else if u = c \<and> tstat s c = RT_THREAD_RUNNING then RT_THREAD_READY else tstat s u))"
    and "rt_schedule s = None \<Longrightarrow> next_thread s c hi hp = hi \<and> \<not> stack_check (threads s hi)"
proof -
  have inv: "sched_inv {} s" using wf by (simp add: sched_wf_def)
  have g: "ready_group s \<noteq> 0" using h get_highest_spec(1)[OF inv] by auto
  have hi: "tstat s hi = RT_THREAD_READY" using h get_highest_spec(2)[OF inv] by blast
  have ne: "hi \<noteq> c" using wf cur_okD(1)[of s c] c hi by (auto simp: sched_wf_def)
  show "sched_wf s' \<and> cur s' = Some (next_thread s c hi hp) \<and>
      (\<forall>u. tstat s' u = (if u = next_thread s c hi hp then RT_THREAD_RUNNING
        else if u = c \<and> tstat s c = RT_THREAD_RUNNING then RT_THREAD_READY else tstat s u))"
    if r: "rt_schedule s = Some s'"
  proof (cases "keeps s c hp")
    case True
    then have "tstat s c = RT_THREAD_RUNNING" by (simp add: keeps_def)
    then obtain s1 where "rt_schedule_remove_thread c (clear_yield c s) = Some s1"
      "sched_wf (upd_thread c (set_state RT_THREAD_RUNNING) s1)" "cur s1 = Some c"
      "\<forall>u. tstat (upd_thread c (set_state RT_THREAD_RUNNING) s1) u = tstat s u"
      using schedule_keep[OF wf c] by blast
    moreover from this have "s' = upd_thread c (set_state RT_THREAD_RUNNING) s1"
      using r True free g c h by (simp add: rt_schedule_def pick_thread_eq)
    ultimately show ?thesis
      using True \<open>tstat s c = RT_THREAD_RUNNING\<close> by (simp add: next_thread_def)
  next
    case False
    let ?need = "tstat s c = RT_THREAD_RUNNING"
    let ?s0 = "(clear_yield c s)\<lparr>cur_prio := of_nat hp, cur := Some hi\<rparr>"
    obtain s1 s2 where s12:
      "(if ?need then rt_schedule_insert_thread c ?s0 else Some ?s0) = Some s1"
      "rt_schedule_remove_thread hi s1 = Some s2"
      "sched_wf (upd_thread hi (set_state RT_THREAD_RUNNING) s2)" "cur s2 = Some hi"
      "\<And>u. tstat (upd_thread hi (set_state RT_THREAD_RUNNING) s2) u =
        (if u = hi then RT_THREAD_RUNNING else if u = c \<and> ?need then RT_THREAD_READY else tstat s u)"
      using schedule_switch[OF wf c hi, of ?need "of_nat hp"] by blast
    have "s' = upd_thread hi (set_state RT_THREAD_RUNNING) s2"
      using r False free g c h ne s12(1,2)
      by (auto simp: rt_schedule_def pick_thread_eq Let_def split: if_splits)
    then show ?thesis using s12(3,4,5) False by (simp add: next_thread_def)
  qed
  show "next_thread s c hi hp = hi \<and> \<not> stack_check (threads s hi)" if r: "rt_schedule s = None"
  proof (cases "keeps s c hp")
    case True
    then have "tstat s c = RT_THREAD_RUNNING" by (simp add: keeps_def)
    then obtain s1 where "rt_schedule_remove_thread c (clear_yield c s) = Some s1"
      using schedule_keep[OF wf c] by blast
    then show ?thesis using r True free g c h by (auto simp: rt_schedule_def pick_thread_eq)
  next
    case False
    let ?need = "tstat s c = RT_THREAD_RUNNING"
    let ?s0 = "(clear_yield c s)\<lparr>cur_prio := of_nat hp, cur := Some hi\<rparr>"
    obtain s1 s2 where s12:
      "(if ?need then rt_schedule_insert_thread c ?s0 else Some ?s0) = Some s1"
      "rt_schedule_remove_thread hi s1 = Some s2"
      using schedule_switch[OF wf c hi, of ?need "of_nat hp"] by blast
    have "stack_check (threads s1 hi) = stack_check (threads s hi)"
      using s12(1) ne clear_yield_stack[of c s hi]
      by (auto simp: rt_schedule_insert_thread_def upd_thread_def set_state_def Let_def stack_check_def
          split: if_splits)
    moreover have "threads s2 = threads s1"
      using s12(2) by (auto simp: rt_schedule_remove_thread_def Let_def split: if_splits)
    ultimately show ?thesis
      using r False free g c h ne s12
      by (auto simp: rt_schedule_def pick_thread_eq next_thread_def Let_def upd_thread_def
          set_state_def stack_check_def split: if_splits)
  qed
qed

lemma unlinked_ll_remove: "unlinked t L \<Longrightarrow> ll_remove t L = L"
  by (auto simp: ll_remove_def unlinked_def remove1_idem)

lemma rt_schedule_queues:
  assumes wf: "sched_wf s" and free: "lock_nest s = 0" and c: "cur s = Some c"
    and h: "scheduler_get_highest s = Some (hi, hp)" and r: "rt_schedule s = Some s'"
  shows "klists s' = (if keeps s c hp then klists s
    else ll_remove hi (if tstat s c = RT_THREAD_RUNNING
           then ll_insert_before (Ready (prio s c)) c (klists s) else klists s))"
proof -
  have inv: "sched_inv {} s" using wf by (simp add: sched_wf_def)
  have g: "ready_group s \<noteq> 0" using h get_highest_spec(1)[OF inv] by auto
  have "tstat s hi = RT_THREAD_READY" using h get_highest_spec(2)[OF inv] by blast
  then have ne: "hi \<noteq> c" using wf cur_okD(1)[of s c] c by (auto simp: sched_wf_def)
  have unl: "ll_remove c (klists s) = klists s" if "keeps s c hp"
    using that running_unlinked[OF inv] by (auto simp: keeps_def intro: unlinked_ll_remove)
  show ?thesis
    using r free g c h ne unl clear_yield_same(5)[of c s c]
    by (auto simp: rt_schedule_def pick_thread_eq Let_def rt_schedule_insert_thread_def
        rt_schedule_remove_thread_def upd_thread_def set_state_def prio_def bind_eq_Some_conv
        split: if_splits)
qed

lemma rt_schedule_idle:
  "lock_nest s \<noteq> 0 \<or> ready_group s = 0 \<Longrightarrow> rt_schedule s = Some s"
  by (auto simp: rt_schedule_def)

lemma rt_schedule_wf: "sched_wf s \<Longrightarrow> rt_schedule s = Some s' \<Longrightarrow> sched_wf s'"
proof (cases "lock_nest s \<noteq> 0 \<or> ready_group s = 0")
  case False
  assume wf: "sched_wf s" and r: "rt_schedule s = Some s'"
  then have "sched_inv {} s" by (simp add: sched_wf_def)
  then obtain hi hp where h: "scheduler_get_highest s = Some (hi, hp)"
    using False get_highest_spec(1) by (metis old.prod.exhaust option.exhaust)
  moreover obtain c where "cur s = Some c"
    using r False h by (auto simp: rt_schedule_def bind_eq_Some_conv)
  ultimately show ?thesis using rt_schedule_active(1)[OF wf] False r by blast
qed (auto simp: rt_schedule_idle)

section \<open>What the scheduler leaves alone\<close>

text \<open>
  \<open>no_sched s\<close> blanks the queues, the bitmap, the current thread and the status bytes; the
  scheduler's operations keep everything else, so they keep \<open>no_sched\<close>.
\<close>

definition no_sched :: "kstate \<Rightarrow> kstate" where
  "no_sched s = s\<lparr>threads := (\<lambda>t. (threads s t)\<lparr>th_stat := 0\<rparr>), klists := (\<lambda>h. []),
     ready_group := 0, cur := None, cur_prio := 0\<rparr>"

lemma no_sched_fields:
  assumes "no_sched s' = no_sched s"
  shows "lock_nest s' = lock_nest s" "int_nest s' = int_nest s" "tick s' = tick s"
    "objs s' = objs s" "containers s' = containers s" "timers s' = timers s"
    "tmlists s' = tmlists s" "soft_busy s' = soft_busy s" "random_nr s' = random_nr s"
    "sems s' = sems s" "mutexes s' = mutexes s" "events s' = events s"
    "mailboxes s' = mailboxes s" "mqs s' = mqs s"
    "(threads s' t)\<lparr>th_stat := 0\<rparr> = (threads s t)\<lparr>th_stat := 0\<rparr>"
  using arg_cong[OF assms, of lock_nest] arg_cong[OF assms, of int_nest] arg_cong[OF assms, of tick]
    arg_cong[OF assms, of objs] arg_cong[OF assms, of containers] arg_cong[OF assms, of timers]
    arg_cong[OF assms, of tmlists] arg_cong[OF assms, of soft_busy] arg_cong[OF assms, of random_nr]
    arg_cong[OF assms, of sems] arg_cong[OF assms, of mutexes] arg_cong[OF assms, of events]
    arg_cong[OF assms, of mailboxes] arg_cong[OF assms, of mqs]
    arg_cong[OF assms, of "\<lambda>s. threads s t"]
  by (simp_all add: no_sched_def)

lemma no_sched_thread:
  assumes "no_sched s' = no_sched s"
  shows "th_prio (threads s' t) = th_prio (threads s t)" "th_error (threads s' t) = th_error (threads s t)"
    "th_number_mask (threads s' t) = th_number_mask (threads s t)"
    "th_event_set (threads s' t) = th_event_set (threads s t)"
    "th_event_info (threads s' t) = th_event_info (threads s t)"
    "th_sp (threads s' t) = th_sp (threads s t)" "th_guard (threads s' t) = th_guard (threads s t)"
    "th_stack_addr (threads s' t) = th_stack_addr (threads s t)"
    "th_stack_size (threads s' t) = th_stack_size (threads s t)"
    "prio s' t = prio s t" "stack_check (threads s' t) = stack_check (threads s t)"
proof -
  have e: "(threads s' t)\<lparr>th_stat := 0\<rparr> = (threads s t)\<lparr>th_stat := 0\<rparr>"
    by (rule no_sched_fields(15)[OF assms])
  note c = arg_cong[OF e]
  show 1: "th_prio (threads s' t) = th_prio (threads s t)" "th_error (threads s' t) = th_error (threads s t)"
    "th_number_mask (threads s' t) = th_number_mask (threads s t)"
    "th_event_set (threads s' t) = th_event_set (threads s t)"
    "th_event_info (threads s' t) = th_event_info (threads s t)"
    "th_sp (threads s' t) = th_sp (threads s t)" "th_guard (threads s' t) = th_guard (threads s t)"
    "th_stack_addr (threads s' t) = th_stack_addr (threads s t)"
    "th_stack_size (threads s' t) = th_stack_size (threads s t)"
    using c[of th_prio] c[of th_error] c[of th_number_mask] c[of th_event_set] c[of th_event_info]
      c[of th_sp] c[of th_guard] c[of th_stack_addr] c[of th_stack_size] by simp_all
  show "prio s' t = prio s t" "stack_check (threads s' t) = stack_check (threads s t)"
    unfolding prio_def stack_check_def 1 by (rule refl)+
qed

lemma no_sched_upd [simp]:
  "no_sched (upd_thread t (set_state k) s) = no_sched s"
  "no_sched (upd_thread t (\<lambda>th. th\<lparr>th_stat := f th\<rparr>) s) = no_sched s"
  "no_sched (s\<lparr>klists := L\<rparr>) = no_sched s" "no_sched (s\<lparr>ready_group := g\<rparr>) = no_sched s"
  "no_sched (s\<lparr>cur := c\<rparr>) = no_sched s" "no_sched (s\<lparr>cur_prio := p\<rparr>) = no_sched s"
  by (auto simp: no_sched_def upd_thread_def set_state_def intro!: kstate.equality ext)

lemma no_sched_insert [kframe]: "rt_schedule_insert_thread t s = Some s' \<Longrightarrow> no_sched s' = no_sched s"
  by (auto simp: rt_schedule_insert_thread_def Let_def split: if_splits)

lemma no_sched_remove [kframe]: "rt_schedule_remove_thread t s = Some s' \<Longrightarrow> no_sched s' = no_sched s"
  by (auto simp: rt_schedule_remove_thread_def Let_def split: if_splits)

lemma no_sched_clear_yield [simp]: "no_sched (clear_yield c s) = no_sched s"
  by (simp add: clear_yield_def)

lemma no_sched_schedule [kframe]: "rt_schedule s = Some s' \<Longrightarrow> no_sched s' = no_sched s"
  by (auto simp: rt_schedule_def pick_thread_eq Let_def bind_eq_Some_conv split: if_splits
      dest!: no_sched_insert no_sched_remove)

section \<open>A concrete state\<close>

text \<open>
  \<open>demo\<close>: thread 2 runs at priority 10, thread 3 has just been made ready at priority 5, the idle
  thread is ready at 31 and the timer thread is suspended.
\<close>

definition demo_thread :: "u8 \<Rightarrow> nat \<Rightarrow> rt_thread" where
  "demo_thread st p = blank_thread\<lparr>th_stat := st, th_prio := of_nat p, th_number_mask := push_bit p 1,
     th_sp := 0x2000, th_stack_addr := 0x1000, th_stack_size := 0x2000, th_guard := 0x23\<rparr>"

definition demo :: kstate where
  "demo = bss\<lparr>threads := (\<lambda>t. blank_thread)(0 := demo_thread RT_THREAD_SUSPEND 4,
       1 := demo_thread RT_THREAD_READY 31, 2 := demo_thread RT_THREAD_RUNNING 10,
       3 := demo_thread RT_THREAD_READY 5),
     klists := (\<lambda>h. [])(Ready 31 := [1], Ready 5 := [3]),
     ready_group := 0x80000020, cur := Some 2, cur_prio := 10\<rparr>"

lemma demo_simps [simp]:
  "threads demo = (\<lambda>t. blank_thread)(0 := demo_thread RT_THREAD_SUSPEND 4,
       1 := demo_thread RT_THREAD_READY 31, 2 := demo_thread RT_THREAD_RUNNING 10,
       3 := demo_thread RT_THREAD_READY 5)"
  "klists demo = (\<lambda>h. [])(Ready 31 := [1], Ready 5 := [3])" "ready_group demo = 0x80000020"
  "cur demo = Some 2" "cur_prio demo = 10" "lock_nest demo = 0" "int_nest demo = 0" "tick demo = 0"
  "objs demo = objs bss" "containers demo = containers bss" "timers demo = timers bss"
  "tmlists demo = (\<lambda>h. [])"
  by (simp_all add: demo_def bss_def)

lemma demo_tstat:
  "tstat demo t = (if t = 0 then RT_THREAD_SUSPEND else if t = 1 then RT_THREAD_READY
     else if t = 2 then RT_THREAD_RUNNING else if t = 3 then RT_THREAD_READY else RT_THREAD_INIT)"
  by (simp add: tstat_def demo_thread_def blank_thread_def)

lemma demo_prio:
  "prio demo t = (if t = 0 then 4 else if t = 1 then 31 else if t = 2 then 10 else if t = 3 then 5 else 0)"
  by (simp add: prio_def demo_thread_def blank_thread_def)

lemma demo_bits: "bit (0x80000020::u32) p \<longleftrightarrow> p = 5 \<or> p = 31"
proof -
  have "(0x80000020::u32) = push_bit 31 1 OR push_bit 5 1" by (simp add: push_bit_eq_mult)
  then show ?thesis
    by (simp only: bit_or_push_bit_1 bit_push_bit_iff bit_1_iff) auto
qed

lemma demo_ffs: "rt_ffs 0x80000020 = Suc 5"
  unfolding rt_ffs_Suc_iff demo_bits by simp

lemma demo_wf: "sched_wf demo"
proof -
  have "ll_wf (klists demo)" by (auto simp: ll_wf_def)
  moreover have "started demo t \<Longrightarrow> runnable demo t" for t
    unfolding started_def runnable_def demo_tstat demo_prio
    by (auto simp: demo_thread_def blank_thread_def split: if_splits)
  ultimately have "sched_inv {} demo"
    unfolding sched_inv_def demo_simps(3) demo_bits
    by (auto simp: demo_tstat demo_prio wait_head_def unlinked_def)
  moreover have "cur_ok demo" unfolding cur_ok_def demo_tstat by simp
  ultimately show ?thesis by (simp add: sched_wf_def)
qed

section \<open>The scheduling policy\<close>

text \<open>The thread that runs after a switch.\<close>

lemma schedule_highest:
  assumes "sched_wf s" "lock_nest s = 0" "ready_group s \<noteq> 0" "rt_schedule s = Some s'"
  shows "\<exists>t. cur s' = Some t \<and> tstat s' t = RT_THREAD_RUNNING \<and>
    (\<forall>u. tstat s' u = RT_THREAD_READY \<longrightarrow> prio s' t \<le> prio s' u)"
proof -
  have inv: "sched_inv {} s" using assms(1) by (simp add: sched_wf_def)
  obtain hi hp where h: "scheduler_get_highest s = Some (hi, hp)"
    using assms(3) get_highest_spec(1)[OF inv] by (metis old.prod.exhaust option.exhaust)
  obtain c where c: "cur s = Some c"
    using assms(2-4) h by (auto simp: rt_schedule_def bind_eq_Some_conv)
  note act = rt_schedule_active(1)[OF assms(1,2) c h assms(4)]
  let ?t = "next_thread s c hi hp"
  have pr: "prio s' u = prio s u" for u using no_sched_schedule[OF assms(4)] by (rule no_sched_thread)
  have hi: "prio s hi = hp" using get_highest_spec(2)[OF inv h] by blast
  have hi2: "hp \<le> prio s u" if "tstat s u = RT_THREAD_READY" for u
  proof -
    have "u \<in> set (klists s (Ready (prio s u)))" using inv that by (simp add: sched_inv_def)
    then have "klists s (Ready (prio s u)) \<noteq> []" by (metis empty_iff list.set(1))
    then show ?thesis using get_highest_spec(2)[OF inv h] by blast
  qed
  have "prio s ?t \<le> hp" using hi by (auto simp: next_thread_def keeps_def)
  moreover have "prio s ?t \<le> prio s u" if "tstat s' u = RT_THREAD_READY" for u
  proof (cases "u = c \<and> tstat s c = RT_THREAD_RUNNING")
    case True
    then have "\<not> keeps s c hp" using that act by (auto simp: next_thread_def)
    then show ?thesis using True hi by (auto simp: next_thread_def keeps_def)
  next
    case False
    then have "tstat s u = RT_THREAD_READY" using that act by (auto split: if_splits)
    then show ?thesis using hi2 \<open>prio s ?t \<le> hp\<close> by (meson order_trans)
  qed
  ultimately show ?thesis using act pr by auto
qed

text \<open>
  C2. Strict priority: when \<^verbatim>\<open>rt_schedule\<close> runs with the scheduler unlocked and something queued,
  the thread it leaves current is running, and no ready thread has a better (numerically smaller)
  priority.
\<close>

theorem schedule_runs_highest:
  assumes "sched_wf s" "lock_nest s = 0" "ready_group s \<noteq> 0" "rt_schedule s = Some s'"
  shows "\<exists>t. cur s' = Some t \<and> tstat s' t = RT_THREAD_RUNNING \<and>
    (\<forall>u. tstat s' u = RT_THREAD_READY \<longrightarrow> prio s' t \<le> prio s' u)"
  by (rule schedule_highest[OF assms])

theorem schedule_runs_highest_witness:
  "\<exists>s' t. rt_schedule demo = Some s' \<and> cur s' = Some t \<and>
    (\<forall>u. tstat s' u = RT_THREAD_READY \<longrightarrow> prio s' t \<le> prio s' u)"
proof -
  have g: "scheduler_get_highest demo = Some (3, 5)"
    unfolding scheduler_get_highest_def demo_simps(3) demo_ffs by simp
  then obtain s' where s': "rt_schedule demo = Some s'"
    using rt_schedule_active(2)[OF demo_wf _ _ g] by (cases "rt_schedule demo") (auto simp: stack_check_def demo_thread_def)
  show ?thesis using schedule_runs_highest[OF demo_wf _ _ s'] s' by auto
qed


lemma schedule_returns:
  assumes "sched_wf s" "cur s \<noteq> None"
    and "\<And>t. tstat s t = RT_THREAD_READY \<Longrightarrow> stack_check (threads s t)"
  shows "\<exists>s'. rt_schedule s = Some s' \<and> sched_wf s' \<and> cur s' \<noteq> None"
proof (cases "lock_nest s \<noteq> 0 \<or> ready_group s = 0")
  case True
  then show ?thesis using assms by (simp add: rt_schedule_idle)
next
  case False
  have inv: "sched_inv {} s" using assms(1) by (simp add: sched_wf_def)
  then obtain hi hp where h: "scheduler_get_highest s = Some (hi, hp)"
    using False get_highest_spec(1) by (metis old.prod.exhaust option.exhaust)
  obtain c where c: "cur s = Some c" using assms(2) by blast
  have "tstat s hi = RT_THREAD_READY" using h get_highest_spec(2)[OF inv] by blast
  then obtain s' where "rt_schedule s = Some s'"
    using rt_schedule_active(2)[OF assms(1) _ c h] assms(3) False by (cases "rt_schedule s") auto
  then show ?thesis using rt_schedule_active(1)[OF assms(1) _ c h] False by auto
qed

text \<open>
  C3. The scheduler never fails by itself: from a well-formed state with a current thread, if no
  ready thread has overflowed its stack, \<^verbatim>\<open>rt_schedule\<close> returns, in a well-formed state.
\<close>

theorem schedule_total:
  assumes "sched_wf s" "cur s \<noteq> None"
    and "\<And>t. tstat s t = RT_THREAD_READY \<Longrightarrow> stack_check (threads s t)"
  shows "\<exists>s'. rt_schedule s = Some s' \<and> sched_wf s' \<and> cur s' \<noteq> None"
  using schedule_returns[OF assms] .

theorem schedule_total_witness: "\<exists>s'. rt_schedule demo = Some s' \<and> sched_wf s' \<and> cur s' \<noteq> None"
  by (rule schedule_total[OF demo_wf])
    (auto simp: demo_tstat stack_check_def demo_thread_def split: if_splits)

end
