(* ===== verification/KString.thy ===== *)
theory KString
  imports Prelude
begin

text \<open>
  The memory and string routines of \<^verbatim>\<open>src/kservice.c\<close>, over a byte-addressed memory. A pointer is
  its address; an object does not wrap around the end of the address space, so addresses are
  natural numbers. The machine is little endian, \<^verbatim>\<open>sizeof (long)\<close> is 4 and plain \<^verbatim>\<open>char\<close> is
  unsigned, as the ARM compilers have it. Scans for a terminating zero may run for ever in a memory
  without one: they are partial functions, with \<open>None\<close> for a scan that never ends.
\<close>

type_synonym mem = "nat \<Rightarrow> u8"

section \<open>Filling and copying\<close>

definition store32 :: "nat \<Rightarrow> u32 \<Rightarrow> mem \<Rightarrow> mem" where
  "store32 a w m = m(a := ucast w, a + 1 := ucast (drop_bit 8 w), a + 2 := ucast (drop_bit 16 w),
     a + 3 := ucast (drop_bit 24 w))"

definition load32 :: "mem \<Rightarrow> nat \<Rightarrow> u32" where
  "load32 m a = ucast (m a) OR push_bit 8 (ucast (m (a + 1))) OR push_bit 16 (ucast (m (a + 2)))
     OR push_bit 24 (ucast (m (a + 3)))"

fun memset_blocks :: "nat \<Rightarrow> u32 \<Rightarrow> nat \<Rightarrow> mem \<Rightarrow> nat \<times> nat \<times> mem" where
  "memset_blocks p buffer count m =
    (if count \<ge> 16 then
       memset_blocks (p + 16) buffer (count - 16)
         (store32 (p + 12) buffer (store32 (p + 8) buffer (store32 (p + 4) buffer (store32 p buffer m))))
     else (p, count, m))"

fun memset_words :: "nat \<Rightarrow> u32 \<Rightarrow> nat \<Rightarrow> mem \<Rightarrow> nat \<times> nat \<times> mem" where
  "memset_words p buffer count m =
    (if count \<ge> 4 then memset_words (p + 4) buffer (count - 4) (store32 p buffer m)
     else (p, count, m))"

fun memset_bytes :: "nat \<Rightarrow> u8 \<Rightarrow> nat \<Rightarrow> mem \<Rightarrow> mem" where
  "memset_bytes p d 0 m = m"
| "memset_bytes p d (Suc count) m = memset_bytes (p + 1) d count (m(p := d))"

definition rt_memset :: "nat \<Rightarrow> u32 \<Rightarrow> nat \<Rightarrow> mem \<Rightarrow> mem" where
  "rt_memset s c count m =
    (let d = c AND 0xff in
     if \<not> count < 4 \<and> s mod 4 = 0 then
       let buffer = push_bit 8 d OR d;
           buffer = buffer OR push_bit 16 buffer;
           (p, count, m) = memset_blocks s buffer count m;
           (p, count, m) = memset_words p buffer count m
       in memset_bytes p (ucast d) count m
     else memset_bytes s (ucast d) count m)"

fun memcpy_blocks :: "nat \<Rightarrow> nat \<Rightarrow> nat \<Rightarrow> mem \<Rightarrow> nat \<times> nat \<times> nat \<times> mem" where
  "memcpy_blocks d s len m =
    (if len \<ge> 16 then
       let m = store32 d (load32 m s) m;
           m = store32 (d + 4) (load32 m (s + 4)) m;
           m = store32 (d + 8) (load32 m (s + 8)) m;
           m = store32 (d + 12) (load32 m (s + 12)) m
       in memcpy_blocks (d + 16) (s + 16) (len - 16) m
     else (d, s, len, m))"

fun memcpy_words :: "nat \<Rightarrow> nat \<Rightarrow> nat \<Rightarrow> mem \<Rightarrow> nat \<times> nat \<times> nat \<times> mem" where
  "memcpy_words d s len m =
    (if len \<ge> 4 then memcpy_words (d + 4) (s + 4) (len - 4) (store32 d (load32 m s) m)
     else (d, s, len, m))"

fun memcpy_bytes :: "nat \<Rightarrow> nat \<Rightarrow> nat \<Rightarrow> mem \<Rightarrow> mem" where
  "memcpy_bytes d s 0 m = m"
| "memcpy_bytes d s (Suc len) m = memcpy_bytes (d + 1) (s + 1) len (m(d := m s))"

definition rt_memcpy :: "nat \<Rightarrow> nat \<Rightarrow> nat \<Rightarrow> mem \<Rightarrow> mem" where
  "rt_memcpy dst src count m =
    (if \<not> count < 16 \<and> src mod 4 = 0 \<and> dst mod 4 = 0 then
       let (d, s, len, m) = memcpy_blocks dst src count m;
           (d, s, len, m) = memcpy_words d s len m
       in memcpy_bytes d s len m
     else memcpy_bytes dst src count m)"

fun memmove_down :: "nat \<Rightarrow> nat \<Rightarrow> nat \<Rightarrow> mem \<Rightarrow> mem" where
  "memmove_down tmp s 0 m = m"
| "memmove_down tmp s (Suc n) m = memmove_down (tmp - 1) (s - 1) n (m(tmp - 1 := m (s - 1)))"

definition rt_memmove :: "nat \<Rightarrow> nat \<Rightarrow> nat \<Rightarrow> mem \<Rightarrow> mem" where
  "rt_memmove dest src n m =
    (if src < dest \<and> dest < src + n then memmove_down (dest + n) (src + n) n m
     else memcpy_bytes dest src n m)"

section \<open>Comparing and searching\<close>

text \<open>The difference of two characters as C computes it, on \<^verbatim>\<open>int\<close>.\<close>

definition cdiff :: "u8 \<Rightarrow> u8 \<Rightarrow> int" where
  "cdiff a b = uint a - uint b"

fun rt_memcmp :: "mem \<Rightarrow> nat \<Rightarrow> nat \<Rightarrow> nat \<Rightarrow> int" where
  "rt_memcmp m cs ct 0 = 0"
| "rt_memcmp m cs ct (Suc count) =
    (let res = cdiff (m cs) (m ct) in if res \<noteq> 0 then res else rt_memcmp m (cs + 1) (ct + 1) count)"

partial_function (option) scan_zero :: "mem \<Rightarrow> nat \<Rightarrow> nat option" where
  "scan_zero m sc = (if m sc \<noteq> 0 then scan_zero m (sc + 1) else Some sc)"

definition rt_strlen :: "mem \<Rightarrow> nat \<Rightarrow> nat option" where
  "rt_strlen m s = do { sc \<leftarrow> scan_zero m s; Some (sc - s) }"

fun strnlen_from :: "mem \<Rightarrow> nat \<Rightarrow> nat \<Rightarrow> nat \<Rightarrow> nat" where
  "strnlen_from m s maxlen 0 = maxlen"
| "strnlen_from m s maxlen (Suc k) =
    (let sc = s + (maxlen - Suc k) in if m sc \<noteq> 0 then strnlen_from m s maxlen k else sc - s)"

text \<open>
  \<^verbatim>\<open>rt_strnlen\<close> tests \<^verbatim>\<open>*sc\<close> before the bound, so it also reads the byte at \<open>s + maxlen\<close>; whatever is
  there, the loop ends with \<open>maxlen\<close>, as the first clause says.
\<close>

definition rt_strnlen :: "mem \<Rightarrow> nat \<Rightarrow> nat \<Rightarrow> nat" where
  "rt_strnlen m s maxlen = strnlen_from m s maxlen maxlen"

fun strstr_loop :: "mem \<Rightarrow> nat \<Rightarrow> nat \<Rightarrow> nat \<Rightarrow> nat \<Rightarrow> nat option" where
  "strstr_loop m s1 s2 l1 l2 =
    (if l1 \<ge> l2 \<and> 0 < l2 then
       if rt_memcmp m s1 s2 l2 = 0 then Some s1 else strstr_loop m (s1 + 1) s2 (l1 - 1) l2
     else None)"

text \<open>The outer option is the termination of the two scans, the inner one \<^verbatim>\<open>RT_NULL\<close>.\<close>

definition rt_strstr :: "mem \<Rightarrow> nat \<Rightarrow> nat \<Rightarrow> nat option option" where
  "rt_strstr m s1 s2 = do {
     l2 \<leftarrow> rt_strlen m s2;
     if l2 = 0 then Some (Some s1)
     else do {
       l1 \<leftarrow> rt_strlen m s1;
       Some (strstr_loop m s1 s2 l1 l2)
     }
   }"

definition to_lower :: "u8 \<Rightarrow> u8" where
  "to_lower c = (if c \<ge> 65 \<and> c \<le> 90 then c + 32 else c)"

partial_function (option) rt_strcasecmp :: "mem \<Rightarrow> nat \<Rightarrow> nat \<Rightarrow> int option" where
  "rt_strcasecmp m a b =
    (let ca = to_lower (m a); cb = to_lower (m b) in
     if ca = cb \<and> ca \<noteq> 0 then rt_strcasecmp m (a + 1) (b + 1) else Some (cdiff ca cb))"

fun strncpy_loop :: "nat \<Rightarrow> nat \<Rightarrow> nat \<Rightarrow> mem \<Rightarrow> mem" where
  "strncpy_loop d s 0 m = m"
| "strncpy_loop d s (Suc n) m =
    (let m = m(d := m s) in
     if m d = 0 then memset_bytes (d + 1) 0 n m else strncpy_loop (d + 1) (s + 1) n m)"

definition rt_strncpy :: "nat \<Rightarrow> nat \<Rightarrow> nat \<Rightarrow> mem \<Rightarrow> mem" where
  "rt_strncpy dst src n m = (if n \<noteq> 0 then strncpy_loop dst src n m else m)"

partial_function (option) rt_strcpy :: "nat \<Rightarrow> nat \<Rightarrow> mem \<Rightarrow> mem option" where
  "rt_strcpy dst src m =
    (if m src \<noteq> 0 then rt_strcpy (dst + 1) (src + 1) (m(dst := m src)) else Some (m(dst := 0)))"

text \<open>\<^verbatim>\<open>__res\<close> is a \<^verbatim>\<open>signed char\<close>: the difference is cut to 8 bits and read as signed.\<close>

fun rt_strncmp :: "mem \<Rightarrow> nat \<Rightarrow> nat \<Rightarrow> nat \<Rightarrow> int" where
  "rt_strncmp m cs ct 0 = 0"
| "rt_strncmp m cs ct (Suc count) =
    (let res = sint (m cs - m ct) in
     if res \<noteq> 0 \<or> m cs = 0 then res else rt_strncmp m (cs + 1) (ct + 1) count)"

partial_function (option) rt_strcmp :: "mem \<Rightarrow> nat \<Rightarrow> nat \<Rightarrow> int option" where
  "rt_strcmp m cs ct =
    (if m cs \<noteq> 0 \<and> m cs = m ct then rt_strcmp m (cs + 1) (ct + 1) else Some (cdiff (m cs) (m ct)))"

text \<open>The new block comes from \<^verbatim>\<open>rt_malloc\<close>: its answer is an argument.\<close>

definition rt_strdup :: "nat option \<Rightarrow> nat \<Rightarrow> mem \<Rightarrow> (nat option \<times> mem) option" where
  "rt_strdup block s m = do {
     len \<leftarrow> rt_strlen m s;
     case block of
       None \<Rightarrow> Some (None, m)
     | Some tmp \<Rightarrow> Some (Some tmp, rt_memcpy tmp s (len + 1) m)
   }"

declare memset_blocks.simps [simp del] memset_words.simps [simp del]
declare memcpy_blocks.simps [simp del] memcpy_words.simps [simp del] strstr_loop.simps [simp del]


section \<open>What they compute\<close>

text \<open>\<open>fill\<close> and \<open>copy\<close> state the effect on the memory as one function update of a range.\<close>

definition fill :: "nat \<Rightarrow> nat \<Rightarrow> u8 \<Rightarrow> mem \<Rightarrow> mem" where
  "fill p n d m = (\<lambda>x. if p \<le> x \<and> x < p + n then d else m x)"

definition copy :: "nat \<Rightarrow> nat \<Rightarrow> nat \<Rightarrow> mem \<Rightarrow> mem" where
  "copy d s n m = (\<lambda>x. if d \<le> x \<and> x < d + n then m (s + (x - d)) else m x)"

lemma fill_0 [simp]: "fill p 0 d m = m"
  by (auto simp: fill_def fun_eq_iff)

lemma fill_fill: "fill (p + k) n d (fill p k d m) = fill p (k + n) d m"
  by (auto simp: fill_def fun_eq_iff)

lemma memset_bytes_fill: "memset_bytes p d n m = fill p n d m"
proof (induction n arbitrary: p m)
  case (Suc n)
  have "m(p := d) = fill p 1 d m" by (auto simp: fill_def fun_eq_iff)
  then show ?case using Suc fill_fill[of p 1 n d m] by simp
qed simp

definition splat :: "u8 \<Rightarrow> u32" where
  "splat d = (let b = push_bit 8 (ucast d) OR ucast d in b OR push_bit 16 b)"

lemma splat_bytes:
  "ucast (splat d) = d" "ucast (drop_bit 8 (splat d)) = d" "ucast (drop_bit 16 (splat d)) = d"
  "ucast (drop_bit 24 (splat d)) = d"
  by (auto simp: splat_def Let_def bit_eq_iff bit_simps dest: bit_imp_le_length)

lemma store32_splat: "store32 p (splat d) m = fill p 4 d m"
  by (auto simp: store32_def splat_bytes fill_def fun_eq_iff)

lemma memset_blocks_fill:
  "memset_blocks p (splat d) n m = (p', n', m') \<Longrightarrow>
    \<exists>k. n = k + n' \<and> p' = p + k \<and> m' = fill p k d m \<and> n' < 16"
proof (induction p "splat d" n m rule: memset_blocks.induct)
  case (1 p n m)
  show ?case
  proof (cases "n \<ge> 16")
    case True
    have f: "store32 (p + 12) (splat d) (store32 (p + 8) (splat d) (store32 (p + 4) (splat d)
        (store32 p (splat d) m))) = fill p 16 d m"
      using fill_fill[of p 4 4 d m] fill_fill[of p 8 4 d m] fill_fill[of p 12 4 d m]
      by (simp add: store32_splat)
    from 1(1)[OF True] 1(2) True obtain k where
      "n - 16 = k + n'" "p' = p + 16 + k" "m' = fill (p + 16) k d (fill p 16 d m)" "n' < 16"
      by (auto simp: memset_blocks.simps[of p] f)
    then show ?thesis using True fill_fill[of p 16 k d m] by (intro exI[of _ "16 + k"]) auto
  next
    case False
    then show ?thesis using 1(2) by (auto simp: memset_blocks.simps[of p])
  qed
qed

lemma memset_words_fill:
  "memset_words p (splat d) n m = (p', n', m') \<Longrightarrow>
    \<exists>k. n = k + n' \<and> p' = p + k \<and> m' = fill p k d m \<and> n' < 4"
proof (induction p "splat d" n m rule: memset_words.induct)
  case (1 p n m)
  show ?case
  proof (cases "n \<ge> 4")
    case True
    from 1(1)[OF True] 1(2) True obtain k where
      "n - 4 = k + n'" "p' = p + 4 + k" "m' = fill (p + 4) k d (fill p 4 d m)" "n' < 4"
      by (auto simp: memset_words.simps[of p] store32_splat)
    then show ?thesis using True fill_fill[of p 4 k d m] by (intro exI[of _ "4 + k"]) auto
  next
    case False
    then show ?thesis using 1(2) by (auto simp: memset_words.simps[of p])
  qed
qed

lemma memset_fill: "rt_memset s c count m = fill s count (ucast c) m"
proof -
  let ?d = "ucast c :: u8"
  have m8: "(0xff :: u32) = mask 8" by (simp add: mask_eq_exp_minus_1)
  have d: "ucast (c AND 0xff) = ?d" and c8: "c AND 0xff = ucast ?d"
    unfolding m8 by (auto simp: bit_eq_iff bit_simps dest: bit_imp_le_length)
  have sp: "(push_bit 8 (c AND 0xff) OR (c AND 0xff)) OR push_bit 16 (push_bit 8 (c AND 0xff) OR (c AND 0xff))
      = splat ?d"
    by (simp only: splat_def Let_def c8)
  show ?thesis
  proof (cases "\<not> count < 4 \<and> s mod 4 = 0")
    case True
    obtain p1 n1 m1 where b: "memset_blocks s (splat ?d) count m = (p1, n1, m1)"
      by (metis prod_cases3)
    obtain p2 n2 m2 where w: "memset_words p1 (splat ?d) n1 m1 = (p2, n2, m2)"
      by (metis prod_cases3)
    have "rt_memset s c count m = memset_bytes p2 ?d n2 m2"
      unfolding rt_memset_def Let_def if_P[OF True] sp d by (simp add: b w)
    also have "\<dots> = fill s count ?d m"
      using memset_blocks_fill[OF b] memset_words_fill[OF w]
      by (auto simp: memset_bytes_fill fill_fill add.assoc)
    finally show ?thesis .
  next
    case False
    then show ?thesis by (auto simp: rt_memset_def Let_def d memset_bytes_fill)
  qed
qed

text \<open>
  \<^verbatim>\<open>rt_memset\<close> is equivalent to its byte loop: whatever the alignment and the length, it sets
  exactly the bytes of the range to the low byte of \<open>c\<close>.
\<close>

theorem memset_correct:
  "rt_memset s c count m = (\<lambda>x. if s \<le> x \<and> x < s + count then ucast c else m x)"
  by (simp add: memset_fill fill_def)

subsection \<open>Copies\<close>

lemma copy_0 [simp]: "copy d s 0 m = m"
  by (auto simp: copy_def fun_eq_iff)

definition copyable :: "nat \<Rightarrow> nat \<Rightarrow> nat \<Rightarrow> bool" where
  "copyable d s n \<longleftrightarrow> d \<le> s \<or> s + n \<le> d"

lemma copy_copy:
  "copyable d s (k + n) \<Longrightarrow> copy (d + k) (s + k) n (copy d s k m) = copy d s (k + n) m"
  by (auto simp: copy_def copyable_def fun_eq_iff)

lemma copyable_step: "copyable d s (k + n) \<Longrightarrow> copyable (d + k) (s + k) n"
  by (auto simp: copyable_def)

lemma load32_bytes:
  "ucast (load32 m a) = m a" "ucast (drop_bit 8 (load32 m a)) = m (a + 1)"
  "ucast (drop_bit 16 (load32 m a)) = m (a + 2)" "ucast (drop_bit 24 (load32 m a)) = m (a + 3)"
  by (auto simp: load32_def bit_eq_iff bit_simps dest: bit_imp_le_length)

lemma store_load: "store32 d (load32 m s) m = copy d s 4 m"
  unfolding store32_def load32_bytes by (auto simp: copy_def fun_eq_iff le_Suc_eq numeral_eq_Suc)

lemma memcpy_bytes_copy: "copyable d s n \<Longrightarrow> memcpy_bytes d s n m = copy d s n m"
proof (induction n arbitrary: d s m)
  case (Suc n)
  have "m(d := m s) = copy d s 1 m" by (auto simp: copy_def fun_eq_iff)
  then show ?case using Suc copy_copy[of d s 1 n m] copyable_step[of d s 1 n] by simp
qed simp

lemma memcpy_words_copy:
  "copyable d s n \<Longrightarrow> memcpy_words d s n m = (d', s', n', m') \<Longrightarrow>
    \<exists>k. n = k + n' \<and> d' = d + k \<and> s' = s + k \<and> m' = copy d s k m"
proof (induction d s n m rule: memcpy_words.induct)
  case (1 d s n m)
  show ?case
  proof (cases "n \<ge> 4")
    case True
    then have "copyable d s (4 + (n - 4))" using 1(2) by simp
    then have c: "copyable (d + 4) (s + 4) (n - 4)" by (rule copyable_step)
    from 1(1)[OF True c] 1(3) True obtain k where k:
      "n - 4 = k + n'" "d' = d + 4 + k" "s' = s + 4 + k" "m' = copy (d + 4) (s + 4) k (copy d s 4 m)"
      by (auto simp: memcpy_words.simps[of d] store_load)
    then show ?thesis using True copy_copy[of d s 4 k m] 1(2)
      by (intro exI[of _ "4 + k"]) (auto simp: copyable_def)
  next
    case False
    then show ?thesis using 1(3) by (auto simp: memcpy_words.simps[of d])
  qed
qed

lemma memcpy_blocks_copy:
  "copyable d s n \<Longrightarrow> memcpy_blocks d s n m = (d', s', n', m') \<Longrightarrow>
    \<exists>k. n = k + n' \<and> d' = d + k \<and> s' = s + k \<and> m' = copy d s k m"
proof (induction d s n m rule: memcpy_blocks.induct)
  case (1 d s n m)
  show ?case
  proof (cases "n \<ge> 16")
    case True
    then have "copyable d s (16 + (n - 16))" using 1(2) by simp
    then have c: "copyable (d + 16) (s + 16) (n - 16)" by (rule copyable_step)
    have sub: "copyable d s k" if "k \<le> 16" for k using that True 1(2) by (auto simp: copyable_def)
    have f: "copy (d + 12) (s + 12) 4 (copy (d + 8) (s + 8) 4 (copy (d + 4) (s + 4) 4 (copy d s 4 m)))
      = copy d s 16 m"
      using copy_copy[of d s 4 4 m] copy_copy[of d s 8 4 m] copy_copy[of d s 12 4 m]
        sub[of 8] sub[of 12] sub[of 16] by simp
    from 1(1)[OF True refl refl refl refl] c 1(3) True obtain k where k:
      "n - 16 = k + n'" "d' = d + 16 + k" "s' = s + 16 + k" "m' = copy (d + 16) (s + 16) k (copy d s 16 m)"
      by (auto simp: memcpy_blocks.simps[of d] store_load Let_def f)
    then show ?thesis using True copy_copy[of d s 16 k m] 1(2)
      by (intro exI[of _ "16 + k"]) (auto simp: copyable_def)
  next
    case False
    then show ?thesis using 1(3) by (auto simp: memcpy_blocks.simps[of d])
  qed
qed

lemma memcpy_copy:
  assumes "copyable dst src n"
  shows "rt_memcpy dst src n m = copy dst src n m"
proof (cases "\<not> n < 16 \<and> src mod 4 = 0 \<and> dst mod 4 = 0")
  case True
  obtain d1 s1 n1 m1 where b: "memcpy_blocks dst src n m = (d1, s1, n1, m1)" by (metis prod_cases4)
  obtain d2 s2 n2 m2 where w: "memcpy_words d1 s1 n1 m1 = (d2, s2, n2, m2)" by (metis prod_cases4)
  obtain k where k: "n = k + n1" "d1 = dst + k" "s1 = src + k" "m1 = copy dst src k m"
    using memcpy_blocks_copy[OF assms b] by blast
  have c1: "copyable d1 s1 n1" using assms k copyable_step by metis
  then obtain j where j: "n1 = j + n2" "d2 = d1 + j" "s2 = s1 + j" "m2 = copy d1 s1 j m1"
    using memcpy_words_copy[OF _ w] by blast
  have c2: "copyable d2 s2 n2" using c1 j copyable_step by metis
  have "rt_memcpy dst src n m = memcpy_bytes d2 s2 n2 m2" using True by (simp add: rt_memcpy_def b w)
  also have "\<dots> = copy d2 s2 n2 (copy d1 s1 j m1)" using c2 j by (simp add: memcpy_bytes_copy)
  also have "\<dots> = copy d1 s1 n1 m1" using c1 j by (simp add: copy_copy)
  also have "\<dots> = copy dst src n m" using assms k by (simp add: copy_copy)
  finally show ?thesis .
next
  case False
  then show ?thesis using memcpy_bytes_copy[OF assms] by (auto simp: rt_memcpy_def)
qed

lemma memmove_down_copy:
  "s \<le> d \<Longrightarrow> memmove_down (d + n) (s + n) n m = copy d s n m"
proof (induction n arbitrary: m)
  case (Suc n)
  have "copy d s n (m(d + n := m (s + n))) = copy d s (Suc n) m"
    using Suc.prems by (auto simp: copy_def fun_eq_iff less_Suc_eq)
  then show ?case using Suc by simp
qed simp

text \<open>
  C40. \<^verbatim>\<open>rt_memcpy\<close>, for every alignment and length, moves the range as it was before the call,
  whenever the ranges do not overlap or the destination starts at or below the source.
\<close>

theorem memcpy_correct:
  assumes "dst \<le> src \<or> src + count \<le> dst"
  shows "rt_memcpy dst src count m x = (if dst \<le> x \<and> x < dst + count then m (src + (x - dst)) else m x)"
  using memcpy_copy[of dst src count m] assms by (simp add: copyable_def copy_def)

theorem memcpy_correct_witness: "rt_memcpy 1000 2000 23 (\<lambda>a. of_nat a) 1007 = of_nat 2007"
  by (subst memcpy_correct) simp_all

text \<open>\<^verbatim>\<open>rt_memmove\<close> moves the range as it was before the call, however the ranges overlap.\<close>

theorem memmove_correct:
  "rt_memmove dest src n m = (\<lambda>x. if dest \<le> x \<and> x < dest + n then m (src + (x - dest)) else m x)"
proof (cases "src < dest \<and> dest < src + n")
  case True
  then show ?thesis using memmove_down_copy[of src dest n m] by (simp add: rt_memmove_def copy_def)
next
  case False
  then have "copyable dest src n" by (auto simp: copyable_def)
  then show ?thesis using memcpy_bytes_copy[of dest src n m] False
    unfolding rt_memmove_def if_not_P[OF False] by (simp add: copy_def)
qed


subsection \<open>Comparisons\<close>

lemma cdiff_0 [simp]: "cdiff a b = 0 \<longleftrightarrow> a = b"
  by (simp add: cdiff_def word_uint_eq_iff)

text \<open>
  \<^verbatim>\<open>rt_memcmp\<close> is the lexicographic comparison of the two ranges as unsigned bytes: it is 0
  exactly when the ranges agree, and otherwise the difference at the first place where they do not.
\<close>

theorem memcmp_correct:
  "rt_memcmp m a b n =
    (case find (\<lambda>i. m (a + i) \<noteq> m (b + i)) [0..<n] of
       None \<Rightarrow> 0 | Some i \<Rightarrow> uint (m (a + i)) - uint (m (b + i)))"
proof (induction n arbitrary: a b)
  case (Suc n)
  then show ?case using Suc[of "a + 1" "b + 1"]
    by (auto simp: cdiff_def Let_def find_upt_Suc word_uint_eq_iff simp del: upt_Suc split: option.split)
qed simp

lemma memcmp_0: "rt_memcmp m a b n = 0 \<longleftrightarrow> (\<forall>i<n. m (a + i) = m (b + i))"
proof (induction n arbitrary: a b)
  case (Suc n)
  then show ?case by (auto simp: Let_def All_less_Suc2)
qed simp

text \<open>\<open>cstr m s n\<close>: a string of length \<open>n\<close> starts at \<open>s\<close>.\<close>

definition cstr :: "mem \<Rightarrow> nat \<Rightarrow> nat \<Rightarrow> bool" where
  "cstr m s n \<longleftrightarrow> m (s + n) = 0 \<and> (\<forall>i<n. m (s + i) \<noteq> 0)"

lemma cstr_step: "m s \<noteq> 0 \<Longrightarrow> cstr m (s + 1) n \<longleftrightarrow> cstr m s (Suc n)"
  by (auto simp: cstr_def All_less_Suc2)

lemma scan_zero_cstr: "cstr m s n \<Longrightarrow> scan_zero m s = Some (s + n)"
proof (induction n arbitrary: s)
  case 0
  then show ?case by (subst scan_zero.simps) (simp add: cstr_def)
next
  case (Suc n)
  then have "m s \<noteq> 0" by (auto simp: cstr_def)
  then show ?case using Suc cstr_step[of m s n] by (subst scan_zero.simps) simp
qed

lemma scan_zero_Some: "scan_zero m s = Some r \<Longrightarrow> s \<le> r \<and> cstr m s (r - s)"
proof (induction arbitrary: rule: scan_zero.raw_induct[rotated, consumes 1])
  case (1 f m s r)
  show ?case
  proof (cases "m s = 0")
    case True
    then show ?thesis using 1(2) by (auto simp: cstr_def)
  next
    case False
    then have "Suc s \<le> r" "cstr m (s + 1) (r - (s + 1))" using 1 by auto
    then show ?thesis using cstr_step[of m s "r - (s + 1)"] False by (auto simp: Suc_diff_Suc)
  qed
qed

lemma strlen_cstr: "cstr m s n \<Longrightarrow> rt_strlen m s = Some n"
  by (simp add: rt_strlen_def scan_zero_cstr)

text \<open>
  \<^verbatim>\<open>rt_strlen\<close> returns exactly when the memory holds a terminated string, and then returns its
  length.
\<close>

theorem strlen_correct: "rt_strlen m s = Some n \<longleftrightarrow> m (s + n) = 0 \<and> (\<forall>i<n. m (s + i) \<noteq> 0)"
  using strlen_cstr[of m s n] scan_zero_Some[of m s "s + n"]
  by (auto simp: rt_strlen_def cstr_def bind_eq_Some_conv dest!: scan_zero_Some)

lemma strstr_loop_spec:
  "0 < l2 \<Longrightarrow> strstr_loop m s1 s2 l1 l2 =
    map_option ((+) s1) (find (\<lambda>i. rt_memcmp m (s1 + i) s2 l2 = 0) [0..<Suc l1 - l2])"
proof (induction l1 arbitrary: s1)
  case 0
  then show ?case by (subst strstr_loop.simps) simp
next
  case (Suc l1)
  show ?case
  proof (cases "Suc l1 \<ge> l2")
    case True
    then have "Suc (Suc l1) - l2 = Suc (Suc l1 - l2)" by simp
    moreover have "(+) (Suc s1) = (\<lambda>x. Suc (s1 + x))" by auto
    ultimately show ?thesis using True Suc
      by (subst strstr_loop.simps) (auto simp: find_upt_Suc option.map_comp comp_def simp del: upt_Suc)
  next
    case False
    then show ?thesis by (subst strstr_loop.simps) simp
  qed
qed

text \<open>
  \<^verbatim>\<open>rt_strstr\<close> on two terminated strings returns the address of the first place of \<open>s1\<close> where
  \<open>s2\<close> occurs, and \<^verbatim>\<open>RT_NULL\<close> when there is none.
\<close>

theorem strstr_first:
  assumes "cstr m s1 l1" "cstr m s2 l2"
  shows "rt_strstr m s1 s2 = Some
    (map_option ((+) s1) (find (\<lambda>i. \<forall>k<l2. m (s1 + i + k) = m (s2 + k)) [0..<Suc l1 - l2]))"
  using strstr_loop_spec[of l2 m s1 s2 l1] assms
  by (auto simp: rt_strstr_def strlen_cstr memcmp_0 upt_conv_Cons simp del: upt_Suc)

definition hello :: mem where
  "hello = (\<lambda>a. if a < 5 then [104, 101, 108, 108, 111] ! a else if a = 10 then 108 else if a = 11 then 108 else 0)"

theorem strstr_first_witness: "rt_strstr hello 0 10 = Some (Some 2)"
proof -
  have "cstr hello 0 5" "cstr hello 10 2"
    by code_simp+
  then have "rt_strstr hello 0 10 = Some
      (map_option ((+) 0) (find (\<lambda>i. \<forall>k<2. hello (0 + i + k) = hello (10 + k)) [0..<Suc 5 - 2]))"
    by (rule strstr_first)
  moreover have "map_option ((+) 0) (find (\<lambda>i. \<forall>k<2. hello (0 + i + k) = hello (10 + k)) [0..<Suc 5 - 2]) = Some 2"
    by code_simp
  ultimately show ?thesis by simp
qed

lemma strncmp_0:
  "rt_strncmp m a b n = 0 \<longleftrightarrow>
    (\<forall>i<n. (\<forall>k<i. m (a + k) \<noteq> 0 \<and> m (a + k) = m (b + k)) \<longrightarrow> m (a + i) = m (b + i))"
proof (induction n arbitrary: a b)
  case (Suc n)
  have z: "sint (m a - m b) = 0 \<longleftrightarrow> m a = m b" by (simp add: signed_eq_0_iff)
  show ?case
  proof (cases "m a = m b \<and> m a \<noteq> 0")
    case True
    then show ?thesis using Suc[of "a + 1" "b + 1"] by (simp add: Let_def All_less_Suc2)
  next
    case False
    then show ?thesis using z by (auto simp: Let_def All_less_Suc2)
  qed
qed simp

text \<open>
  \<^verbatim>\<open>rt_strncmp\<close> answers 0 exactly when the strings agree on their first \<open>n\<close> characters or up to
  and including a common end, although it cuts the difference to a signed character.
\<close>

theorem strncmp_equal:
  "rt_strncmp m a b n = 0 \<longleftrightarrow>
    (\<forall>i<n. (\<forall>k<i. m (a + k) \<noteq> 0 \<and> m (a + k) = m (b + k)) \<longrightarrow> m (a + i) = m (b + i))"
  by (rule strncmp_0)

theorem strncmp_equal_witness: "rt_strncmp hello 2 10 3 \<noteq> 0"
proof -
  have "\<not> (\<forall>i<3. (\<forall>k<i. hello (2 + k) \<noteq> 0 \<and> hello (2 + k) = hello (10 + k)) \<longrightarrow> hello (2 + i) = hello (10 + i))"
    by code_simp
  then show ?thesis using strncmp_equal[of hello 2 10 3] by blast
qed

theorem strlen_correct_witness: "rt_strlen hello 10 = Some 2"
proof -
  have "hello (10 + 2) = 0 \<and> (\<forall>i<2. hello (10 + i) \<noteq> 0)" by code_simp
  then show ?thesis using strlen_correct[of hello 10 2] by blast
qed

lemma strncpy_loop_spec:
  assumes "d + n \<le> s \<or> s + n \<le> d"
  shows "strncpy_loop d s n m x =
    (if d \<le> x \<and> x < d + n then (if \<exists>k<x - d. m (s + k) = 0 then 0 else m (s + (x - d))) else m x)"
  using assms
proof (induction n arbitrary: d s m)
  case (Suc n)
  show ?case
  proof (cases "m s = 0")
    case True
    then have "x = d \<or> \<not> d \<le> x \<or> (\<exists>k<x - d. m (s + k) = 0)"
      by (cases "x - d") (auto intro!: exI[of _ 0])
    then show ?thesis using True by (auto simp: Let_def memset_bytes_fill fill_def)
  next
    case False
    have m': "(m(d := m s)) (s + 1 + k) = m (s + Suc k)" if "k < n" for k using Suc.prems that by auto
    consider "x = d" | "d + 1 \<le> x \<and> x < d + 1 + n" | "\<not> d \<le> x \<or> d + 1 + n \<le> x" by linarith
    then show ?thesis
    proof cases
      case 2
      then obtain j where j: "x = d + 1 + j" "j < n" by (metis le_Suc_ex nat_add_left_cancel_less)
      have "strncpy_loop d s (Suc n) m x = strncpy_loop (d + 1) (s + 1) n (m(d := m s)) x"
        using False by (simp add: Let_def)
      also have "\<dots> = (if \<exists>k<j. m (s + Suc k) = 0 then 0 else m (s + Suc j))"
        using Suc j m' by (auto simp: less_trans)
      also have "(\<exists>k<j. m (s + Suc k) = 0) = (\<exists>k<Suc j. m (s + k) = 0)"
        using False by (auto simp: Ex_less_Suc2)
      finally have e: "strncpy_loop d s (Suc n) m x = (if \<exists>k<Suc j. m (s + k) = 0 then 0 else m (s + Suc j))" .
      have xe: "x - d = Suc j" "(d \<le> x \<and> x < d + Suc n) = True" using j by auto
      show ?thesis unfolding e xe by (simp only: if_True)
    qed (use False Suc in \<open>auto simp: Let_def\<close>)
  qed
qed auto

text \<open>
  \<^verbatim>\<open>rt_strncpy\<close> writes exactly the \<open>n\<close> bytes of the destination: the source up to its end, then
  zeros.
\<close>

theorem strncpy_pads:
  assumes "dst + n \<le> src \<or> src + n \<le> dst"
  shows "rt_strncpy dst src n m x =
    (if dst \<le> x \<and> x < dst + n then (if \<exists>k<x - dst. m (src + k) = 0 then 0 else m (src + (x - dst))) else m x)"
  using strncpy_loop_spec[OF assms] by (auto simp: rt_strncpy_def)

theorem strncpy_pads_witness: "rt_strncpy 20 0 8 hello 26 = 0"
  by (subst strncpy_pads) (auto simp: hello_def intro!: exI[of _ 5])

end
