(* ===== verification/KObject.thy ===== *)
theory KObject
  imports Scheduler KString
begin

text \<open>
  \<^verbatim>\<open>src/object.c\<close>: the containers of kernel objects, one list per class. An object is known by the
  address of its structure. Names are the 8-byte buffers of \<^verbatim>\<open>RT_NAME_MAX\<close>; they are written and
  compared by the string routines of \<open>KString\<close>. The answer of the memory allocator is an argument of
  the operations that allocate.
\<close>

section \<open>Names\<close>

text \<open>A memory with the name buffer of an object at address 0 and a C string at address 8.\<close>

definition two_strings :: "u8 list \<Rightarrow> u8 list \<Rightarrow> mem" where
  "two_strings buf nm a = (if a < 8 then (if a < length buf then buf ! a else 0)
     else if a - 8 < length nm then nm ! (a - 8) else 0)"

definition name_copy :: "u8 list \<Rightarrow> u8 list \<Rightarrow> u8 list" where
  "name_copy buf nm = map (rt_strncpy 0 8 RT_NAME_MAX (two_strings buf nm)) [0..<8]"

definition name_matches :: "u8 list \<Rightarrow> u8 list \<Rightarrow> bool" where
  "name_matches buf nm \<longleftrightarrow> rt_strncmp (two_strings buf nm) 0 8 RT_NAME_MAX = 0"

section \<open>Operations\<close>

definition container_types :: "u8 list" where
  "container_types = [RT_Object_Class_Thread, RT_Object_Class_Semaphore, RT_Object_Class_Mutex,
     RT_Object_Class_Event, RT_Object_Class_MailBox, RT_Object_Class_MessageQueue,
     RT_Object_Class_MemPool, RT_Object_Class_Device, RT_Object_Class_Timer, RT_Object_Class_Memory]"

definition rt_object_get_information :: "u8 \<Rightarrow> u8 option" where
  "rt_object_get_information ty = find (\<lambda>c. c = ty) container_types"

definition rt_object_get_length :: "u8 \<Rightarrow> kstate \<Rightarrow> nat" where
  "rt_object_get_length ty s =
    (case rt_object_get_information ty of None \<Rightarrow> 0 | Some c \<Rightarrow> length (containers s c))"

text \<open>The pointers stored in the caller's array, and the number returned.\<close>

definition rt_object_get_pointers :: "u8 \<Rightarrow> int \<Rightarrow> kstate \<Rightarrow> addr list \<times> nat" where
  "rt_object_get_pointers ty maxlen s =
    (if maxlen \<le> 0 then ([], 0)
     else case rt_object_get_information ty of
       None \<Rightarrow> ([], 0)
     | Some c \<Rightarrow> (let ps = take (nat maxlen) (containers s c) in (ps, length ps)))"

definition rt_object_init :: "addr \<Rightarrow> u8 \<Rightarrow> u8 list \<Rightarrow> kstate \<Rightarrow> kstate option" where
  "rt_object_init a ty nm s = do {
     c \<leftarrow> rt_object_get_information ty;
     let s = rt_enter_critical s;
     _ \<leftarrow> kassert (\<forall>obj \<in> set (containers s c). obj \<noteq> a);
     s \<leftarrow> rt_exit_critical s;
     let s = upd_obj a (\<lambda>ob. ob\<lparr>otype := ty OR RT_Object_Class_Static, oname := name_copy (oname ob) nm\<rparr>) s;
     Some (s\<lparr>containers := ll_insert_after c a (containers s)\<rparr>)
   }"

definition rt_object_detach :: "addr \<Rightarrow> kstate \<Rightarrow> kstate" where
  "rt_object_detach a s =
    (let s = upd_obj a (\<lambda>ob. ob\<lparr>otype := 0\<rparr>) s in s\<lparr>containers := ll_remove a (containers s)\<rparr>)"

text \<open>\<^verbatim>\<open>rt_memset(object, 0, information->object_size)\<close> on the structure of each class.\<close>

definition clear_block :: "nat \<Rightarrow> u8 \<Rightarrow> kstate \<Rightarrow> kstate" where
  "clear_block x ty s =
    (let s = upd_obj (Mem x) (\<lambda>ob. \<lparr>oname = replicate 8 0, otype = 0, oflag = 0\<rparr>) s in
     if ty = RT_Object_Class_Thread then
       s\<lparr>threads := (threads s)(x := blank_thread), objs := (objs s)(TimerOf x := objs bss (TimerOf x)),
         timers := (timers s)(TimerOf x := timers bss (TimerOf x))\<rparr>
     else if ty = RT_Object_Class_Semaphore then s\<lparr>sems := (sems s)(x := sems bss x)\<rparr>
     else if ty = RT_Object_Class_Mutex then s\<lparr>mutexes := (mutexes s)(x := mutexes bss x)\<rparr>
     else if ty = RT_Object_Class_Event then s\<lparr>events := (events s)(x := events bss x)\<rparr>
     else if ty = RT_Object_Class_MailBox then s\<lparr>mailboxes := (mailboxes s)(x := mailboxes bss x)\<rparr>
     else if ty = RT_Object_Class_MessageQueue then s\<lparr>mqs := (mqs s)(x := mqs bss x)\<rparr>
     else if ty = RT_Object_Class_Timer then s\<lparr>timers := (timers s)(Mem x := timers bss (Mem x))\<rparr>
     else s)"

definition rt_object_allocate :: "nat option \<Rightarrow> u8 \<Rightarrow> u8 list \<Rightarrow> kstate \<Rightarrow> (nat option \<times> kstate) option" where
  "rt_object_allocate block ty nm s = do {
     _ \<leftarrow> kassert (not_in_interrupt s);
     c \<leftarrow> rt_object_get_information ty;
     case block of
       None \<Rightarrow> Some (None, s)
     | Some x \<Rightarrow> do {
         let s = clear_block x ty s;
         let s = upd_obj (Mem x) (\<lambda>ob. ob\<lparr>otype := ty, oflag := 0, oname := name_copy (oname ob) nm\<rparr>) s;
         Some (Some x, s\<lparr>containers := ll_insert_after c (Mem x) (containers s)\<rparr>)
       }
   }"

definition rt_object_delete :: "addr \<Rightarrow> kstate \<Rightarrow> kstate option" where
  "rt_object_delete a s = do {
     _ \<leftarrow> kassert (otype (objs s a) AND RT_Object_Class_Static = 0);
     let s = upd_obj a (\<lambda>ob. ob\<lparr>otype := RT_Object_Class_Null\<rparr>) s;
     Some (s\<lparr>containers := ll_remove a (containers s)\<rparr>)
   }"

definition rt_object_is_systemobject :: "addr \<Rightarrow> kstate \<Rightarrow> bool" where
  "rt_object_is_systemobject a s \<longleftrightarrow> otype (objs s a) AND RT_Object_Class_Static \<noteq> 0"

definition rt_object_get_type :: "addr \<Rightarrow> kstate \<Rightarrow> u8" where
  "rt_object_get_type a s = otype (objs s a) AND NOT RT_Object_Class_Static"

text \<open>The outer option is the context assertion and the scheduling on the way out.\<close>

definition rt_object_find :: "u8 list \<Rightarrow> u8 \<Rightarrow> kstate \<Rightarrow> (addr option \<times> kstate) option" where
  "rt_object_find nm ty s =
    (case rt_object_get_information ty of
       None \<Rightarrow> Some (None, s)
     | Some c \<Rightarrow> do {
         _ \<leftarrow> kassert (not_in_interrupt s);
         let s = rt_enter_critical s;
         let r = find (\<lambda>a. name_matches (oname (objs s a)) nm) (containers s c);
         s \<leftarrow> rt_exit_critical s;
         Some (r, s)
       })"


section \<open>Names match after they are copied\<close>

lemma name_copy_matches: "name_matches (name_copy buf nm) nm"
proof -
  let ?m = "two_strings buf nm" and ?c = "name_copy buf nm"
  have c: "length ?c = 8" "\<And>i. i < 8 \<Longrightarrow> ?c ! i = (if \<exists>k<i. ?m (8 + k) = 0 then 0 else ?m (8 + i))"
    unfolding name_copy_def rt_strncpy_def by (auto simp add: strncpy_loop_spec)
  let ?m' = "two_strings ?c nm"
  have lo: "?m' i = (if \<exists>k<i. ?m (8 + k) = 0 then 0 else ?m (8 + i))" if "i < 8" for i
    using c that by (simp add: two_strings_def)
  have hi: "?m' (8 + i) = ?m (8 + i)" for i by (simp add: two_strings_def)
  have "?m' (0 + i) = ?m' (8 + i)"
    if "i < 8" "\<forall>k<i. ?m' (0 + k) \<noteq> 0 \<and> ?m' (0 + k) = ?m' (8 + k)" for i
  proof -
    have "\<not> (\<exists>k<i. ?m (8 + k) = 0)" using that hi by auto
    then have "?m' i = ?m (8 + i)" unfolding lo[OF that(1)] by (rule if_not_P)
    then show ?thesis using hi by simp
  qed
  then show ?thesis unfolding name_matches_def strncmp_0 by blast
qed

section \<open>The containers\<close>

text \<open>
  \<open>obj_wf\<close>: an object is in the container of a class exactly when its type field, without the
  static bit, says so.
\<close>

definition obj_wf :: "kstate \<Rightarrow> bool" where
  "obj_wf s \<longleftrightarrow> ll_wf (containers s) \<and>
    (\<forall>a c. a \<in> set (containers s c) \<longleftrightarrow> c \<noteq> 0 \<and> rt_object_get_type a s = c)"

lemma obj_wf_cong: "containers s' = containers s \<Longrightarrow> objs s' = objs s \<Longrightarrow> obj_wf s' = obj_wf s"
  by (simp add: obj_wf_def rt_object_get_type_def)

lemma find_eq_elem: "find (\<lambda>c. c = x) xs = (if x \<in> set xs then Some x else None)"
  by (induction xs) auto

lemma information_Some:
  "rt_object_get_information ty = Some c \<longleftrightarrow> c = ty \<and> ty \<in> set container_types"
  by (auto simp: rt_object_get_information_def find_eq_elem split: if_splits)

lemma container_type_masks:
  assumes "ty \<in> set container_types"
  shows "ty \<noteq> 0" "(ty OR 0x80) AND NOT 0x80 = ty" "ty AND NOT 0x80 = ty"
  using assms by (auto simp: container_types_def)

lemma no_sched_lock: "no_sched (s\<lparr>lock_nest := n\<rparr>) = (no_sched s)\<lparr>lock_nest := n\<rparr>"
  by (simp add: no_sched_def)

lemma no_sched_exit: "rt_exit_critical s = Some s' \<Longrightarrow> no_sched (s'\<lparr>lock_nest := 0\<rparr>) = no_sched (s\<lparr>lock_nest := 0\<rparr>)"
  by (auto simp: rt_exit_critical_def Let_def no_sched_lock split: if_splits dest!: no_sched_schedule)

lemma critical_frame:
  assumes "rt_exit_critical (rt_enter_critical s) = Some s'"
  shows "objs s' = objs s" "containers s' = containers s" "timers s' = timers s" "tmlists s' = tmlists s"
    "tick s' = tick s" "int_nest s' = int_nest s"
  using no_sched_fields[OF no_sched_exit[OF assms]] by (simp_all add: rt_enter_critical_def)

lemma object_init_eq:
  assumes "rt_object_init a ty nm s = Some s'"
  shows "ty \<in> set container_types" "a \<notin> set (containers s ty)"
    "objs s' = (objs s)(a := (objs s a)\<lparr>otype := ty OR 0x80, oname := name_copy (oname (objs s a)) nm\<rparr>)"
    "containers s' = ll_insert_after ty a (containers s)"
    "timers s' = timers s" "tmlists s' = tmlists s" "tick s' = tick s" "int_nest s' = int_nest s"
proof -
  obtain s1 where s1: "ty \<in> set container_types" "\<forall>b \<in> set (containers s ty). b \<noteq> a"
    "rt_exit_critical (rt_enter_critical s) = Some s1"
    and s': "s' = (let s = upd_obj a (\<lambda>ob. ob\<lparr>otype := ty OR 0x80, oname := name_copy (oname ob) nm\<rparr>) s1
       in s\<lparr>containers := ll_insert_after ty a (containers s)\<rparr>)"
    using assms
    by (auto simp: rt_object_init_def information_Some bind_eq_Some_conv Let_def rt_enter_critical_def
        split: if_splits)
  note f = critical_frame[OF s1(3)]
  show "ty \<in> set container_types" "a \<notin> set (containers s ty)" using s1 by auto
  show "objs s' = (objs s)(a := (objs s a)\<lparr>otype := ty OR 0x80, oname := name_copy (oname (objs s a)) nm\<rparr>)"
    "containers s' = ll_insert_after ty a (containers s)"
    "timers s' = timers s" "tmlists s' = tmlists s" "tick s' = tick s" "int_nest s' = int_nest s"
    unfolding s' Let_def by (simp_all add: f upd_obj_def)
qed

lemma object_init_wf:
  assumes wf: "obj_wf s" and t: "rt_object_get_type a s = 0" and r: "rt_object_init a ty nm s = Some s'"
  shows "obj_wf s'"
proof -
  note e = object_init_eq[OF r] and m = container_type_masks[OF object_init_eq(1)[OF r]]
  have u: "unlinked a (containers s)" using wf t by (auto simp: obj_wf_def unlinked_def)
  then have "ll_wf (containers s')" using wf unfolding e(4) by (auto simp: obj_wf_def intro: ll_wf_insert_after)
  moreover have "rt_object_get_type b s' = (if b = a then ty else rt_object_get_type b s)" for b
    using m by (simp add: rt_object_get_type_def e(3))
  ultimately show ?thesis
    using wf u m(1) unfolding obj_wf_def e(4) by (auto simp: ll_insert_after_def unlinked_def)
qed

lemma object_remove_wf:
  assumes wf: "obj_wf s"
  shows "obj_wf (rt_object_detach a s)"
proof -
  have "rt_object_get_type b (rt_object_detach a s) = (if b = a then 0 else rt_object_get_type b s)" for b
    by (simp add: rt_object_get_type_def rt_object_detach_def upd_obj_def Let_def)
  moreover have "containers (rt_object_detach a s) = ll_remove a (containers s)"
    by (simp add: rt_object_detach_def upd_obj_def Let_def)
  ultimately show ?thesis
    using wf by (auto simp: obj_wf_def ll_remove_def intro: ll_wf_remove[unfolded ll_remove_def])
      (auto simp: ll_wf_def)
qed

lemma object_delete_detach: "rt_object_delete a s = Some s' \<Longrightarrow> s' = rt_object_detach a s"
  by (auto simp: rt_object_delete_def rt_object_detach_def Let_def split: if_splits)

text \<open>
  After \<^verbatim>\<open>rt_object_init\<close> of a fresh object the containers are well formed, and
  \<^verbatim>\<open>rt_object_find\<close> for the same name and class returns that object, whatever else is registered.
\<close>

theorem object_init_find:
  assumes "obj_wf s" "rt_object_get_type a s = 0"
    and "rt_object_init a ty nm s = Some s1" "rt_object_find nm ty s1 = Some (r, s2)"
  shows "obj_wf s1 \<and> r = Some a \<and> rt_object_get_length ty s1 = Suc (rt_object_get_length ty s)"
proof -
  note e = object_init_eq[OF assms(3)]
  have "containers s1 ty = a # containers s ty" by (simp add: e(4) ll_insert_after_def)
  moreover have "name_matches (oname (objs s1 a)) nm" by (simp add: e(3) name_copy_matches)
  moreover have "rt_object_get_information ty = Some ty" using e(1) by (simp add: information_Some)
  ultimately have "rt_object_find nm ty s1 = (if not_in_interrupt s1 then
      rt_exit_critical (rt_enter_critical s1) \<bind> (\<lambda>s. Some (Some a, s)) else None)"
    by (simp add: rt_object_find_def Let_def rt_enter_critical_def)
  then have "r = Some a" using assms(4)
    by (cases "rt_exit_critical (rt_enter_critical s1)") (auto split: if_splits)
  then show ?thesis
    using object_init_wf[OF assms(1-3)] \<open>rt_object_get_information ty = Some ty\<close>
      \<open>containers s1 ty = a # containers s ty\<close>
    by (simp add: rt_object_get_length_def)
qed

text \<open>
  Taking an object out, by \<^verbatim>\<open>rt_object_detach\<close> or \<^verbatim>\<open>rt_object_delete\<close>, keeps the containers well
  formed, and afterwards no container holds the object; deleting a static object is refused.
\<close>

theorem object_remove_clean:
  assumes "obj_wf s"
  shows "obj_wf (rt_object_detach a s) \<and> (\<forall>c. a \<notin> set (containers (rt_object_detach a s) c)) \<and>
    rt_object_delete a s = (if rt_object_is_systemobject a s then None else Some (rt_object_detach a s))"
proof (intro conjI allI)
  show "obj_wf (rt_object_detach a s)" by (rule object_remove_wf[OF assms])
  have "ll_wf (containers s)" using assms by (simp add: obj_wf_def)
  then show "a \<notin> set (containers (rt_object_detach a s) c)" for c
    using unlinked_remove[of "containers s" a]
    by (simp add: rt_object_detach_def upd_obj_def Let_def unlinked_def)
  show "rt_object_delete a s = (if rt_object_is_systemobject a s then None else Some (rt_object_detach a s))"
    by (simp add: rt_object_detach_def rt_object_delete_def rt_object_is_systemobject_def Let_def)
qed

lemma bss_obj_wf: "obj_wf bss"
  by (auto simp: obj_wf_def bss_def ll_wf_def rt_object_get_type_def)

lemma init_bss: "rt_object_init (Mem 7) RT_Object_Class_Semaphore [115, 49] bss \<noteq> None"
  by (simp add: rt_object_init_def rt_object_get_information_def container_types_def bss_def
      rt_enter_critical_def rt_exit_critical_def Let_def)

theorem object_remove_clean_witness: "obj_wf (rt_object_detach (Mem 7) bss)"
  using object_remove_clean[OF bss_obj_wf] by blast

theorem object_init_find_witness:
  "\<exists>s1 s2. rt_object_init (Mem 7) RT_Object_Class_Semaphore [115, 49] bss = Some s1 \<and>
     rt_object_find [115, 49] RT_Object_Class_Semaphore s1 = Some (Some (Mem 7), s2)"
proof -
  obtain s1 where s1: "rt_object_init (Mem 7) RT_Object_Class_Semaphore [115, 49] bss = Some s1"
    using init_bss by blast
  then have "cur s1 = None" "int_nest s1 = 0" "lock_nest s1 = 0"
    by (auto simp: rt_object_init_def rt_object_get_information_def container_types_def bss_def
        rt_enter_critical_def rt_exit_critical_def Let_def upd_obj_def)
  then obtain r s2 where s2: "rt_object_find [115, 49] RT_Object_Class_Semaphore s1 = Some (r, s2)"
    by (simp add: rt_object_find_def rt_object_get_information_def container_types_def
        rt_enter_critical_def rt_exit_critical_def Let_def not_in_interrupt_def)
  have "rt_object_get_type (Mem 7) bss = 0" by (simp add: rt_object_get_type_def bss_def)
  then show ?thesis using object_init_find[OF bss_obj_wf _ s1 s2] s1 s2 by blast
qed

end
