(* ===== verification/Timer.thy ===== *)
theory Timer
  imports KObject
begin

text \<open>
  \<^verbatim>\<open>src/timer.c\<close> and the tick counter of \<^verbatim>\<open>src/clock.c\<close>, with the operations of \<^verbatim>\<open>src/thread.c\<close> that
  timers call and are called by: suspending, resuming and the timeout of a waiting thread.

  With one skip-list row the timer lists are plain lists in order of expiry. A callback is a
  \<open>timer_fun\<close>: the thread timeout, or a function of the application, whose effect on the kernel is the
  parameter \<open>ucb\<close>. The two check loops restart periodic timers, so they need not end: they are partial
  functions, \<open>None\<close> for a loop that never returns (or for an assertion failing inside).
\<close>

abbreviation (input) RT_TIMER_CTRL_SET_TIME :: int where "RT_TIMER_CTRL_SET_TIME \<equiv> 0"
abbreviation (input) RT_TIMER_CTRL_GET_TIME :: int where "RT_TIMER_CTRL_GET_TIME \<equiv> 1"
abbreviation (input) RT_TIMER_CTRL_SET_ONESHOT :: int where "RT_TIMER_CTRL_SET_ONESHOT \<equiv> 2"
abbreviation (input) RT_TIMER_CTRL_SET_PERIODIC :: int where "RT_TIMER_CTRL_SET_PERIODIC \<equiv> 3"
abbreviation (input) RT_TIMER_CTRL_GET_STATE :: int where "RT_TIMER_CTRL_GET_STATE \<equiv> 4"
abbreviation (input) RT_TIMER_CTRL_GET_REMAIN_TIME :: int where "RT_TIMER_CTRL_GET_REMAIN_TIME \<equiv> 5"

section \<open>Operations\<close>

definition rt_tick_get :: "kstate \<Rightarrow> u32" where
  "rt_tick_get s = tick s"

definition flag_clear :: "u8 \<Rightarrow> addr \<Rightarrow> kstate \<Rightarrow> kstate" where
  "flag_clear f a s = upd_obj a (\<lambda>ob. ob\<lparr>oflag := oflag ob AND NOT f\<rparr>) s"

definition flag_set :: "u8 \<Rightarrow> addr \<Rightarrow> kstate \<Rightarrow> kstate" where
  "flag_set f a s = upd_obj a (\<lambda>ob. ob\<lparr>oflag := oflag ob OR f\<rparr>) s"

definition has_flag :: "u8 \<Rightarrow> addr \<Rightarrow> kstate \<Rightarrow> bool" where
  "has_flag f a s \<longleftrightarrow> oflag (objs s a) AND f \<noteq> 0"

text \<open>\<^verbatim>\<open>_timer_init\<close>; the row node of a fresh timer is not linked, and stays so.\<close>

definition do_timer_init :: "addr \<Rightarrow> timer_fun \<Rightarrow> u32 \<Rightarrow> u8 \<Rightarrow> kstate \<Rightarrow> kstate" where
  "do_timer_init a f time flag s =
    (let s = upd_obj a (\<lambda>ob. ob\<lparr>oflag := flag\<rparr>) s;
         s = flag_clear RT_TIMER_FLAG_ACTIVATED a s
     in upd_timer a (\<lambda>tm. tm\<lparr>tm_func := f, tm_timeout_tick := 0, tm_init_tick := time\<rparr>) s)"

definition do_timer_list_next_timeout :: "tmhead \<Rightarrow> kstate \<Rightarrow> u32 option" where
  "do_timer_list_next_timeout h s =
    (case tmlists s h of [] \<Rightarrow> None | a # _ \<Rightarrow> Some (tm_timeout_tick (timers s a)))"

definition do_timer_remove :: "addr \<Rightarrow> kstate \<Rightarrow> kstate" where
  "do_timer_remove a s = s\<lparr>tmlists := ll_remove a (tmlists s)\<rparr>"

definition rt_timer_init :: "addr \<Rightarrow> u8 list \<Rightarrow> timer_fun \<Rightarrow> u32 \<Rightarrow> u8 \<Rightarrow> kstate \<Rightarrow> kstate option" where
  "rt_timer_init a nm f time flag s = do {
     _ \<leftarrow> kassert (time < RT_TICK_HALF);
     s \<leftarrow> rt_object_init a RT_Object_Class_Timer nm s;
     Some (do_timer_init a f time flag s)
   }"

definition rt_timer_detach :: "addr \<Rightarrow> kstate \<Rightarrow> (int \<times> kstate) option" where
  "rt_timer_detach a s = do {
     _ \<leftarrow> kassert (rt_object_get_type a s = RT_Object_Class_Timer);
     _ \<leftarrow> kassert (rt_object_is_systemobject a s);
     let s = do_timer_remove a s;
     let s = flag_clear RT_TIMER_FLAG_ACTIVATED a s;
     let s = rt_object_detach a s;
     Some (RT_EOK, s)
   }"

definition rt_timer_create ::
    "nat option \<Rightarrow> u8 list \<Rightarrow> timer_fun \<Rightarrow> u32 \<Rightarrow> u8 \<Rightarrow> kstate \<Rightarrow> (nat option \<times> kstate) option" where
  "rt_timer_create block nm f time flag s = do {
     _ \<leftarrow> kassert (time < RT_TICK_HALF);
     (r, s) \<leftarrow> rt_object_allocate block RT_Object_Class_Timer nm s;
     case r of
       None \<Rightarrow> Some (None, s)
     | Some x \<Rightarrow> Some (Some x, do_timer_init (Mem x) f time flag s)
   }"

definition rt_timer_delete :: "addr \<Rightarrow> kstate \<Rightarrow> (int \<times> kstate) option" where
  "rt_timer_delete a s = do {
     _ \<leftarrow> kassert (rt_object_get_type a s = RT_Object_Class_Timer);
     _ \<leftarrow> kassert (\<not> rt_object_is_systemobject a s);
     let s = do_timer_remove a s;
     let s = flag_clear RT_TIMER_FLAG_ACTIVATED a s;
     s \<leftarrow> rt_object_delete a s;
     Some (RT_EOK, s)
   }"

text \<open>
  The walk of \<^verbatim>\<open>rt_timer_start\<close> to the last node that does not expire later, and the insertion behind
  it. \<open>exp\<close> is the expiry of the new timer \<open>a\<close>.
\<close>

fun timer_walk :: "(addr \<Rightarrow> rt_timer) \<Rightarrow> u32 \<Rightarrow> addr \<Rightarrow> addr list \<Rightarrow> addr list" where
  "timer_walk tms exp a [] = [a]"
| "timer_walk tms exp a (t # ts) =
    (let d = tm_timeout_tick (tms t) - exp in
     if d = 0 then t # timer_walk tms exp a ts
     else if d < RT_TICK_HALF then a # t # ts
     else t # timer_walk tms exp a ts)"

definition rt_timer_stop :: "addr \<Rightarrow> kstate \<Rightarrow> (int \<times> kstate) option" where
  "rt_timer_stop a s = do {
     _ \<leftarrow> kassert (rt_object_get_type a s = RT_Object_Class_Timer);
     if \<not> has_flag RT_TIMER_FLAG_ACTIVATED a s then Some (- RT_ERROR, s)
     else do {
       let s = do_timer_remove a s;
       let s = flag_clear RT_TIMER_FLAG_ACTIVATED a s;
       Some (RT_EOK, s)
     }
   }"

text \<open>From \<^verbatim>\<open>thread.c\<close>.\<close>

definition rt_thread_suspend :: "tid \<Rightarrow> kstate \<Rightarrow> (int \<times> kstate) option" where
  "rt_thread_suspend t s = do {
     _ \<leftarrow> kassert (rt_object_get_type (Mem t) s = RT_Object_Class_Thread);
     _ \<leftarrow> kassert (cur s = Some t);
     let stat = tstat s t;
     if stat \<noteq> RT_THREAD_READY \<and> stat \<noteq> RT_THREAD_RUNNING then Some (- RT_ERROR, s)
     else do {
       s \<leftarrow> rt_schedule_remove_thread t s;
       let s = upd_thread t (set_state RT_THREAD_SUSPEND) s;
       (_, s) \<leftarrow> rt_timer_stop (TimerOf t) s;
       Some (RT_EOK, s)
     }
   }"

definition rt_thread_resume :: "tid \<Rightarrow> kstate \<Rightarrow> (int \<times> kstate) option" where
  "rt_thread_resume t s = do {
     _ \<leftarrow> kassert (rt_object_get_type (Mem t) s = RT_Object_Class_Thread);
     if tstat s t \<noteq> RT_THREAD_SUSPEND then Some (- RT_ERROR, s)
     else do {
       let s = s\<lparr>klists := ll_remove t (klists s)\<rparr>;
       (_, s) \<leftarrow> rt_timer_stop (TimerOf t) s;
       s \<leftarrow> rt_schedule_insert_thread t s;
       Some (RT_EOK, s)
     }
   }"

definition do_thread_timeout :: "tid \<Rightarrow> kstate \<Rightarrow> kstate option" where
  "do_thread_timeout t s = do {
     _ \<leftarrow> kassert (tstat s t = RT_THREAD_SUSPEND);
     _ \<leftarrow> kassert (rt_object_get_type (Mem t) s = RT_Object_Class_Thread);
     let s = upd_thread t (\<lambda>th. th\<lparr>th_error := - RT_ETIMEOUT\<rparr>) s;
     let s = s\<lparr>klists := ll_remove t (klists s)\<rparr>;
     s \<leftarrow> rt_schedule_insert_thread t s;
     rt_schedule s
   }"

text \<open>Back in \<^verbatim>\<open>timer.c\<close>.\<close>

definition rt_timer_start :: "addr \<Rightarrow> kstate \<Rightarrow> (int \<times> kstate) option" where
  "rt_timer_start a s = do {
     _ \<leftarrow> kassert (rt_object_get_type a s = RT_Object_Class_Timer);
     let s = do_timer_remove a s;
     let s = flag_clear RT_TIMER_FLAG_ACTIVATED a s;
     let s = upd_timer a (\<lambda>tm. tm\<lparr>tm_timeout_tick := rt_tick_get s + tm_init_tick tm\<rparr>) s;
     let h = (if has_flag RT_TIMER_FLAG_SOFT_TIMER a s then TmSoft else TmHard);
     let s = s\<lparr>random_nr := random_nr s + 1\<rparr>;
     let s = s\<lparr>tmlists := (tmlists s)(h :=
                 timer_walk (timers s) (tm_timeout_tick (timers s a)) a (tmlists s h))\<rparr>;
     let s = flag_set RT_TIMER_FLAG_ACTIVATED a s;
     if has_flag RT_TIMER_FLAG_SOFT_TIMER a s \<and> \<not> soft_busy s \<and> tstat s timer_thread = RT_THREAD_SUSPEND
     then do {
       (_, s) \<leftarrow> rt_thread_resume timer_thread s;
       s \<leftarrow> rt_schedule s;
       Some (RT_EOK, s)
     } else Some (RT_EOK, s)
   }"

text \<open>\<open>arg\<close> is the word the pointer argument points to; the call answers its new value.\<close>

definition rt_timer_control :: "addr \<Rightarrow> int \<Rightarrow> u32 \<Rightarrow> kstate \<Rightarrow> (int \<times> u32 \<times> kstate) option" where
  "rt_timer_control a cmd arg s = do {
     _ \<leftarrow> kassert (rt_object_get_type a s = RT_Object_Class_Timer);
     if cmd = RT_TIMER_CTRL_GET_TIME then Some (RT_EOK, tm_init_tick (timers s a), s)
     else if cmd = RT_TIMER_CTRL_SET_TIME then do {
       _ \<leftarrow> kassert (arg < RT_TICK_HALF);
       Some (RT_EOK, arg, upd_timer a (\<lambda>tm. tm\<lparr>tm_init_tick := arg\<rparr>) s)
     }
     else if cmd = RT_TIMER_CTRL_SET_ONESHOT then Some (RT_EOK, arg, flag_clear RT_TIMER_FLAG_PERIODIC a s)
     else if cmd = RT_TIMER_CTRL_SET_PERIODIC then Some (RT_EOK, arg, flag_set RT_TIMER_FLAG_PERIODIC a s)
     else if cmd = RT_TIMER_CTRL_GET_STATE then
       \<comment> \<open>the case writes the state and falls through to the next one\<close>
       let arg = (if has_flag RT_TIMER_FLAG_ACTIVATED a s then 1 else (0::u32));
           arg = tm_timeout_tick (timers s a)
       in Some (RT_EOK, arg, s)
     else if cmd = RT_TIMER_CTRL_GET_REMAIN_TIME then Some (RT_EOK, tm_timeout_tick (timers s a), s)
     else Some (RT_EOK, arg, s)
   }"

type_synonym callbacks = "nat \<Rightarrow> kstate \<Rightarrow> kstate option"

definition run_timeout :: "callbacks \<Rightarrow> timer_fun \<Rightarrow> kstate \<Rightarrow> kstate option" where
  "run_timeout ucb f s = (case f of TF_thread_timeout t \<Rightarrow> do_thread_timeout t s | TF_user n \<Rightarrow> ucb n s)"

text \<open>Taking an expired timer off its list and onto the local list \<open>l\<close> of the check function.\<close>

definition timer_expire :: "tmhead \<Rightarrow> addr \<Rightarrow> kstate \<Rightarrow> kstate" where
  "timer_expire l t s =
    (let s = do_timer_remove t s;
         s = (if \<not> has_flag RT_TIMER_FLAG_PERIODIC t s then flag_clear RT_TIMER_FLAG_ACTIVATED t s else s)
     in s\<lparr>tmlists := ll_insert_after l t (tmlists s)\<rparr>)"

text \<open>After the callback: restart a periodic timer that is still active.\<close>

definition timer_rearm :: "addr \<Rightarrow> kstate \<Rightarrow> kstate option" where
  "timer_rearm t s =
    (let s = s\<lparr>tmlists := ll_remove t (tmlists s)\<rparr> in
     if has_flag RT_TIMER_FLAG_PERIODIC t s \<and> has_flag RT_TIMER_FLAG_ACTIVATED t s then do {
       let s = flag_clear RT_TIMER_FLAG_ACTIVATED t s;
       (_, s) \<leftarrow> rt_timer_start t s;
       Some s
     } else Some s)"

partial_function (option) timer_check_loop :: "callbacks \<Rightarrow> u32 \<Rightarrow> kstate \<Rightarrow> kstate option" where
  "timer_check_loop ucb current_tick s =
    (case tmlists s TmHard of
       [] \<Rightarrow> Some s
     | t # _ \<Rightarrow>
         if current_tick - tm_timeout_tick (timers s t) < RT_TICK_HALF then
           run_timeout ucb (tm_func (timers s t)) (timer_expire TmHardLocal t s) \<bind> (\<lambda>s.
             let current_tick = rt_tick_get s in
             if tmlists s TmHardLocal = [] then timer_check_loop ucb current_tick s
             else timer_rearm t s \<bind> (\<lambda>s. timer_check_loop ucb current_tick s))
         else Some s)"

definition rt_timer_check :: "callbacks \<Rightarrow> kstate \<Rightarrow> kstate option" where
  "rt_timer_check ucb s =
    timer_check_loop ucb (rt_tick_get s) (s\<lparr>tmlists := (tmlists s)(TmHardLocal := [])\<rparr>)"

definition rt_timer_next_timeout_tick :: "kstate \<Rightarrow> u32" where
  "rt_timer_next_timeout_tick s =
    (case do_timer_list_next_timeout TmHard s of None \<Rightarrow> RT_TICK_MAX | Some x \<Rightarrow> x)"

partial_function (option) soft_timer_check_loop :: "callbacks \<Rightarrow> kstate \<Rightarrow> kstate option" where
  "soft_timer_check_loop ucb s =
    (case tmlists s TmSoft of
       [] \<Rightarrow> Some s
     | t # _ \<Rightarrow>
         if rt_tick_get s - tm_timeout_tick (timers s t) < RT_TICK_HALF then
           run_timeout ucb (tm_func (timers s t)) ((timer_expire TmSoftLocal t s)\<lparr>soft_busy := True\<rparr>) \<bind> (\<lambda>s.
             let s = s\<lparr>soft_busy := False\<rparr> in
             if tmlists s TmSoftLocal = [] then soft_timer_check_loop ucb s
             else timer_rearm t s \<bind> soft_timer_check_loop ucb)
         else Some s)"

definition rt_soft_timer_check :: "callbacks \<Rightarrow> kstate \<Rightarrow> kstate option" where
  "rt_soft_timer_check ucb s =
    soft_timer_check_loop ucb (s\<lparr>tmlists := (tmlists s)(TmSoftLocal := [])\<rparr>)"

definition rt_system_timer_init :: "kstate \<Rightarrow> kstate" where
  "rt_system_timer_init s = s\<lparr>tmlists := (tmlists s)(TmHard := [])\<rparr>"


section \<open>What scheduling and timing leave alone\<close>

text \<open>
  \<open>no_kern\<close> blanks what the scheduler and the timers own: queues, status bytes, timer lists, times and
  the flags of timer objects. Everything up to here keeps the rest, so it keeps \<open>no_kern\<close>.
\<close>

definition no_kern :: "kstate \<Rightarrow> kstate" where
  "no_kern s = (no_sched s)\<lparr>objs := (\<lambda>a. if otype (objs s a) AND NOT RT_Object_Class_Static = RT_Object_Class_Timer
       then (objs s a)\<lparr>oflag := 0\<rparr> else objs s a),
     timers := (\<lambda>a. (timers s a)\<lparr>tm_timeout_tick := 0, tm_init_tick := 0\<rparr>),
     tmlists := (\<lambda>h. []), random_nr := 0\<rparr>"

lemma no_kern_sched: "no_sched s' = no_sched s \<Longrightarrow> no_kern s' = no_kern s"
proof -
  assume e: "no_sched s' = no_sched s"
  show ?thesis unfolding no_kern_def e no_sched_fields(4,6)[OF e] by (rule refl)
qed

lemma no_kern_fields:
  assumes "no_kern s' = no_kern s"
  shows "lock_nest s' = lock_nest s" "int_nest s' = int_nest s" "tick s' = tick s"
    "containers s' = containers s" "soft_busy s' = soft_busy s" "sems s' = sems s"
    "mutexes s' = mutexes s" "events s' = events s" "mailboxes s' = mailboxes s" "mqs s' = mqs s"
    "(threads s' t)\<lparr>th_stat := 0\<rparr> = (threads s t)\<lparr>th_stat := 0\<rparr>"
    "rt_object_get_type a s' = rt_object_get_type a s"
    "tm_func (timers s' a) = tm_func (timers s a)"
    "rt_object_get_type a s \<noteq> RT_Object_Class_Timer \<Longrightarrow> objs s' a = objs s a"
proof -
  note c = arg_cong[OF assms]
  show "lock_nest s' = lock_nest s" using c[of lock_nest] by (simp add: no_kern_def no_sched_def)
  show "int_nest s' = int_nest s" using c[of int_nest] by (simp add: no_kern_def no_sched_def)
  show "tick s' = tick s" using c[of tick] by (simp add: no_kern_def no_sched_def)
  show "containers s' = containers s" using c[of containers] by (simp add: no_kern_def no_sched_def)
  show "soft_busy s' = soft_busy s" using c[of soft_busy] by (simp add: no_kern_def no_sched_def)
  show "sems s' = sems s" using c[of sems] by (simp add: no_kern_def no_sched_def)
  show "mutexes s' = mutexes s" using c[of mutexes] by (simp add: no_kern_def no_sched_def)
  show "events s' = events s" using c[of events] by (simp add: no_kern_def no_sched_def)
  show "mailboxes s' = mailboxes s" using c[of mailboxes] by (simp add: no_kern_def no_sched_def)
  show "mqs s' = mqs s" using c[of mqs] by (simp add: no_kern_def no_sched_def)
  show "(threads s' t)\<lparr>th_stat := 0\<rparr> = (threads s t)\<lparr>th_stat := 0\<rparr>"
    using c[of "\<lambda>s. threads s t"] by (simp add: no_kern_def no_sched_def)
  let ?b = "\<lambda>ob. if otype ob AND NOT RT_Object_Class_Static = RT_Object_Class_Timer then ob\<lparr>oflag := 0\<rparr> else ob"
  have ob: "?b (objs s' a) = ?b (objs s a)" using c[of "\<lambda>s. objs s a"] by (simp add: no_kern_def)
  from arg_cong[OF ob, of otype] have ot: "otype (objs s' a) = otype (objs s a)" by (simp split: if_splits)
  then show "rt_object_get_type a s' = rt_object_get_type a s" by (simp add: rt_object_get_type_def)
  show "objs s' a = objs s a" if "rt_object_get_type a s \<noteq> RT_Object_Class_Timer"
    using that ob ot unfolding rt_object_get_type_def by simp
  have "(timers s' a)\<lparr>tm_timeout_tick := 0, tm_init_tick := 0\<rparr> = (timers s a)\<lparr>tm_timeout_tick := 0, tm_init_tick := 0\<rparr>"
    using c[of "\<lambda>s. timers s a"] by (simp add: no_kern_def)
  from arg_cong[OF this, of tm_func] show "tm_func (timers s' a) = tm_func (timers s a)" by simp
qed

lemma no_kern_thread:
  assumes "no_kern s' = no_kern s"
  shows "th_prio (threads s' t) = th_prio (threads s t)" "th_error (threads s' t) = th_error (threads s t)"
    "th_event_set (threads s' t) = th_event_set (threads s t)"
    "th_event_info (threads s' t) = th_event_info (threads s t)"
    "th_number_mask (threads s' t) = th_number_mask (threads s t)"
    "prio s' t = prio s t" "stack_check (threads s' t) = stack_check (threads s t)"
proof -
  have e: "(threads s' t)\<lparr>th_stat := 0\<rparr> = (threads s t)\<lparr>th_stat := 0\<rparr>" by (rule no_kern_fields(11)[OF assms])
  note c = arg_cong[OF e]
  show 1: "th_prio (threads s' t) = th_prio (threads s t)" "th_error (threads s' t) = th_error (threads s t)"
    "th_event_set (threads s' t) = th_event_set (threads s t)"
    "th_event_info (threads s' t) = th_event_info (threads s t)"
    "th_number_mask (threads s' t) = th_number_mask (threads s t)"
    using c[of th_prio] c[of th_error] c[of th_event_set] c[of th_event_info] c[of th_number_mask] by simp_all
  show "prio s' t = prio s t" by (simp add: prio_def 1)
  show "stack_check (threads s' t) = stack_check (threads s t)"
    using c[of th_guard] c[of th_sp] c[of th_stack_addr] c[of th_stack_size] by (simp add: stack_check_def)
qed

lemma no_kern_simps [simp]:
  "no_kern (do_timer_remove a s) = no_kern s" "no_kern (s\<lparr>tmlists := L\<rparr>) = no_kern s"
  "no_kern (s\<lparr>random_nr := n\<rparr>) = no_kern s" "no_kern (s\<lparr>klists := K\<rparr>) = no_kern s"
  "no_kern (upd_timer a (\<lambda>tm. tm\<lparr>tm_timeout_tick := g tm\<rparr>) s) = no_kern s"
  "no_kern (upd_timer a (\<lambda>tm. tm\<lparr>tm_init_tick := g tm\<rparr>) s) = no_kern s"
  "no_kern (upd_thread t (set_state k) s) = no_kern s"
  "no_kern (upd_thread t (\<lambda>th. th\<lparr>th_stat := h th\<rparr>) s) = no_kern s"
  by (auto simp: no_kern_def no_sched_def flag_clear_def flag_set_def upd_obj_def upd_timer_def
      upd_thread_def set_state_def do_timer_remove_def intro!: kstate.equality ext)

lemma no_kern_flag [simp]:
  assumes "rt_object_get_type a s = RT_Object_Class_Timer"
  shows "no_kern (flag_clear f a s) = no_kern s" "no_kern (flag_set f a s) = no_kern s"
  using assms by (auto simp: no_kern_def no_sched_def flag_clear_def flag_set_def upd_obj_def
      rt_object_get_type_def intro!: kstate.equality ext)

lemma type_same [simp]:
  "rt_object_get_type a (flag_clear f b s) = rt_object_get_type a s"
  "rt_object_get_type a (flag_set f b s) = rt_object_get_type a s"
  "rt_object_get_type a (do_timer_remove b s) = rt_object_get_type a s"
  "rt_object_get_type a (upd_timer b g s) = rt_object_get_type a s"
  "rt_object_get_type a (s\<lparr>tmlists := L\<rparr>) = rt_object_get_type a s"
  "rt_object_get_type a (s\<lparr>random_nr := n\<rparr>) = rt_object_get_type a s"
  "rt_object_get_type a (s\<lparr>klists := K\<rparr>) = rt_object_get_type a s"
  by (simp_all add: rt_object_get_type_def flag_clear_def flag_set_def upd_obj_def do_timer_remove_def upd_timer_def)

lemma no_kern_stop [kframe]: "rt_timer_stop a s = Some (r, s') \<Longrightarrow> no_kern s' = no_kern s"
  by (auto simp: rt_timer_stop_def Let_def split: if_splits)

lemma no_kern_insert [kframe]: "rt_schedule_insert_thread t s = Some s' \<Longrightarrow> no_kern s' = no_kern s"
  by (rule no_kern_sched[OF no_sched_insert])

lemma no_kern_sremove [kframe]: "rt_schedule_remove_thread t s = Some s' \<Longrightarrow> no_kern s' = no_kern s"
  by (rule no_kern_sched[OF no_sched_remove])

lemma no_kern_schedule [kframe]: "rt_schedule s = Some s' \<Longrightarrow> no_kern s' = no_kern s"
  by (rule no_kern_sched[OF no_sched_schedule])

lemma no_kern_suspend [kframe]: "rt_thread_suspend t s = Some (r, s') \<Longrightarrow> no_kern s' = no_kern s"
  by (auto simp: rt_thread_suspend_def Let_def bind_eq_Some_conv split: if_splits
      dest!: no_kern_stop no_kern_sremove)

lemma no_kern_resume [kframe]: "rt_thread_resume t s = Some (r, s') \<Longrightarrow> no_kern s' = no_kern s"
  by (auto simp: rt_thread_resume_def Let_def bind_eq_Some_conv split: if_splits
      dest!: no_kern_stop no_kern_insert)

lemma no_kern_start [kframe]: "rt_timer_start a s = Some (r, s') \<Longrightarrow> no_kern s' = no_kern s"
  by (auto simp: rt_timer_start_def Let_def bind_eq_Some_conv split: if_splits
      dest!: no_kern_resume no_kern_schedule)

lemma no_kern_control [kframe]: "rt_timer_control a cmd arg s = Some (r, w, s') \<Longrightarrow> no_kern s' = no_kern s"
  by (auto simp: rt_timer_control_def Let_def split: if_splits)

lemmas no_kern_ops = no_kern_stop no_kern_insert no_kern_sremove no_kern_schedule no_kern_suspend
  no_kern_resume no_kern_start no_kern_control


section \<open>The invariant of threads and timers\<close>

text \<open>
  \<open>timer_wf\<close>: a timer on a global list is a timer object, is flagged active, and is on the list its
  soft flag selects. \<open>thread_tm_wf\<close>: an active thread timer belongs to a suspended thread, is a
  one-shot hard timer and calls that thread's timeout, which nothing else calls. \<open>thread_objs\<close>: a
  started thread is a thread object and its timer a timer object.
\<close>

definition timer_wf :: "kstate \<Rightarrow> bool" where
  "timer_wf s \<longleftrightarrow> ll_wf (tmlists s) \<and>
    (\<forall>a h. a \<in> set (tmlists s h) \<longrightarrow> h \<in> {TmHard, TmSoft} \<longrightarrow>
       has_flag RT_TIMER_FLAG_ACTIVATED a s \<and> rt_object_get_type a s = RT_Object_Class_Timer \<and>
       (has_flag RT_TIMER_FLAG_SOFT_TIMER a s \<longleftrightarrow> h = TmSoft))"

definition thread_tm_wf :: "kstate \<Rightarrow> bool" where
  "thread_tm_wf s \<longleftrightarrow>
    (\<forall>a t. tm_func (timers s a) = TF_thread_timeout t \<longrightarrow> a = TimerOf t) \<and>
    (\<forall>t. started s t \<longrightarrow> tm_func (timers s (TimerOf t)) = TF_thread_timeout t \<and>
       \<not> has_flag RT_TIMER_FLAG_PERIODIC (TimerOf t) s \<and> \<not> has_flag RT_TIMER_FLAG_SOFT_TIMER (TimerOf t) s) \<and>
    (\<forall>t. has_flag RT_TIMER_FLAG_ACTIVATED (TimerOf t) s \<longrightarrow> tstat s t = RT_THREAD_SUSPEND)"

definition thread_objs :: "kstate \<Rightarrow> bool" where
  "thread_objs s \<longleftrightarrow> (\<forall>t. started s t \<longrightarrow> rt_object_get_type (Mem t) s = RT_Object_Class_Thread \<and>
     rt_object_get_type (TimerOf t) s = RT_Object_Class_Timer)"

definition kern_inv :: "tid set \<Rightarrow> kstate \<Rightarrow> bool" where
  "kern_inv X s \<longleftrightarrow> sched_inv X s \<and> cur_ok s \<and> timer_wf s \<and> thread_tm_wf s \<and> thread_objs s"

abbreviation kern_wf :: "kstate \<Rightarrow> bool" where "kern_wf \<equiv> kern_inv {}"

lemma kern_wf_sched: "kern_wf s \<Longrightarrow> sched_wf s"
  by (simp add: kern_inv_def sched_wf_def)

text \<open>What the timer part of the invariant looks at.\<close>

lemma timer_part_cong:
  assumes "tmlists s' = tmlists s" "objs s' = objs s" "timers s' = timers s"
    "\<And>t. has_flag RT_TIMER_FLAG_ACTIVATED (TimerOf t) s \<Longrightarrow> tstat s' t = tstat s t"
    "\<And>t. started s' t \<Longrightarrow> started s t"
  shows "timer_wf s \<Longrightarrow> timer_wf s'" "thread_tm_wf s \<Longrightarrow> thread_tm_wf s'" "thread_objs s \<Longrightarrow> thread_objs s'"
  using assms unfolding timer_wf_def thread_tm_wf_def thread_objs_def has_flag_def rt_object_get_type_def
  by (auto 0 3)

lemma kern_inv_cong:
  assumes "klists s' = klists s" "ready_group s' = ready_group s" "cur s' = cur s"
    and "\<And>t. tstat s' t = tstat s t" "\<And>t. prio s' t = prio s t"
    and "\<And>t. th_number_mask (threads s' t) = th_number_mask (threads s t)"
    and "tmlists s' = tmlists s" "objs s' = objs s" "timers s' = timers s"
  shows "kern_inv X s' = kern_inv X s"
proof -
  have "started s' t = started s t" for t by (simp add: started_def assms(4))
  then show ?thesis
    unfolding kern_inv_def timer_wf_def thread_tm_wf_def thread_objs_def has_flag_def rt_object_get_type_def
    using sched_inv_cong[of s' s X] cur_ok_cong[of s' s] assms by simp
qed

lemma flag_facts:
  "has_flag RT_TIMER_FLAG_ACTIVATED a (flag_clear RT_TIMER_FLAG_ACTIVATED b s) \<longleftrightarrow> a \<noteq> b \<and> has_flag RT_TIMER_FLAG_ACTIVATED a s"
  "has_flag RT_TIMER_FLAG_PERIODIC a (flag_clear RT_TIMER_FLAG_ACTIVATED b s) = has_flag RT_TIMER_FLAG_PERIODIC a s"
  "has_flag RT_TIMER_FLAG_SOFT_TIMER a (flag_clear RT_TIMER_FLAG_ACTIVATED b s) = has_flag RT_TIMER_FLAG_SOFT_TIMER a s"
  "has_flag RT_TIMER_FLAG_ACTIVATED a (flag_set RT_TIMER_FLAG_ACTIVATED b s) \<longleftrightarrow> a = b \<or> has_flag RT_TIMER_FLAG_ACTIVATED a s"
  "has_flag RT_TIMER_FLAG_PERIODIC a (flag_set RT_TIMER_FLAG_ACTIVATED b s) = has_flag RT_TIMER_FLAG_PERIODIC a s"
  "has_flag RT_TIMER_FLAG_SOFT_TIMER a (flag_set RT_TIMER_FLAG_ACTIVATED b s) = has_flag RT_TIMER_FLAG_SOFT_TIMER a s"
  by (auto simp: has_flag_def flag_clear_def flag_set_def upd_obj_def and.assoc bit.conj_disj_distrib2)

text \<open>\<open>timer_off\<close>: the effect of removing a timer and clearing its flag.\<close>

definition timer_off :: "addr \<Rightarrow> kstate \<Rightarrow> kstate" where
  "timer_off a s = flag_clear RT_TIMER_FLAG_ACTIVATED a (do_timer_remove a s)"

lemma timer_off_simps [simp]:
  "threads (timer_off a s) = threads s" "klists (timer_off a s) = klists s"
  "ready_group (timer_off a s) = ready_group s" "cur (timer_off a s) = cur s"
  "timers (timer_off a s) = timers s" "tmlists (timer_off a s) = ll_remove a (tmlists s)"
  "tick (timer_off a s) = tick s" "lock_nest (timer_off a s) = lock_nest s"
  "int_nest (timer_off a s) = int_nest s"
  "rt_object_get_type b (timer_off a s) = rt_object_get_type b s"
  by (simp_all add: timer_off_def flag_clear_def do_timer_remove_def upd_obj_def rt_object_get_type_def)

lemma no_kern_off [simp]: "rt_object_get_type a s = RT_Object_Class_Timer \<Longrightarrow> no_kern (timer_off a s) = no_kern s"
  by (simp add: timer_off_def)

lemma timer_off_tstat [simp]: "tstat (timer_off a s) t = tstat s t" "prio (timer_off a s) t = prio s t"
  "started (timer_off a s) t = started s t" "runnable (timer_off a s) t = runnable s t"
  by (simp_all add: tstat_def prio_def started_def runnable_def)

lemma timer_off_flags [simp]:
  "has_flag RT_TIMER_FLAG_ACTIVATED b (timer_off a s) \<longleftrightarrow> b \<noteq> a \<and> has_flag RT_TIMER_FLAG_ACTIVATED b s"
  "has_flag RT_TIMER_FLAG_PERIODIC b (timer_off a s) = has_flag RT_TIMER_FLAG_PERIODIC b s"
  "has_flag RT_TIMER_FLAG_SOFT_TIMER b (timer_off a s) = has_flag RT_TIMER_FLAG_SOFT_TIMER b s"
  by (simp_all add: timer_off_def flag_facts) (simp_all add: has_flag_def do_timer_remove_def)

lemma set_ll_remove: "ll_wf L \<Longrightarrow> x \<in> set (ll_remove n L h) \<longleftrightarrow> x \<noteq> n \<and> x \<in> set (L h)"
  by (auto simp: ll_remove_def ll_wf_def)

lemma timer_off_inv: "kern_inv X s \<Longrightarrow> kern_inv X (timer_off a s)"
proof -
  assume k: "kern_inv X s"
  have "sched_inv X (timer_off a s)"
    using k sched_inv_cong[of "timer_off a s" s X] by (simp add: kern_inv_def)
  moreover have "cur_ok (timer_off a s)" using k cur_ok_cong[of "timer_off a s" s] by (simp add: kern_inv_def)
  moreover have "timer_wf (timer_off a s)"
    using k by (auto simp: kern_inv_def timer_wf_def set_ll_remove intro: ll_wf_remove)
  ultimately show ?thesis using k by (simp add: kern_inv_def thread_tm_wf_def thread_objs_def)
qed

lemma timer_stop_eq:
  "rt_object_get_type a s = RT_Object_Class_Timer \<Longrightarrow>
    rt_timer_stop a s = Some (if has_flag RT_TIMER_FLAG_ACTIVATED a s then (RT_EOK, timer_off a s) else (- RT_ERROR, s))"
  by (simp add: rt_timer_stop_def timer_off_def Let_def)

lemma timer_stop_inv:
  assumes "kern_inv X s" "rt_object_get_type a s = RT_Object_Class_Timer"
  obtains r s' where "rt_timer_stop a s = Some (r, s')" "kern_inv X s'" "threads s' = threads s"
    "klists s' = klists s" "cur s' = cur s" "\<not> has_flag RT_TIMER_FLAG_ACTIVATED a s'"
    "r = RT_EOK \<or> r = - RT_ERROR"
  using timer_stop_eq[OF assms(2)] timer_off_inv[OF assms(1), of a] assms(1)
  by (cases "has_flag RT_TIMER_FLAG_ACTIVATED a s") auto


section \<open>Suspending, resuming and timed waiting keep the invariant\<close>

lemma insert_thread_klists:
  "rt_schedule_insert_thread t s = Some s' \<Longrightarrow> (\<And>p. h \<noteq> Ready p) \<Longrightarrow> klists s' h = klists s h"
  by (auto simp: rt_schedule_insert_thread_def Let_def ll_insert_before_def upd_thread_def split: if_splits)

lemma wait_remove_inv:
  assumes "sched_inv X s" "tstat s t = RT_THREAD_SUSPEND"
  shows "sched_inv (insert t X) (s\<lparr>klists := ll_remove t (klists s)\<rparr>)"
proof -
  let ?s = "s\<lparr>klists := ll_remove t (klists s)\<rparr>"
  have wf: "ll_wf (klists s)" using assms by (simp add: sched_inv_def)
  have st: "tstat ?s u = tstat s u" "prio ?s u = prio s u" "runnable ?s u = runnable s u" for u
    by (simp_all add: tstat_def prio_def runnable_def)
  have nr: "t \<notin> set (klists s (Ready p))" for p using in_queue_ready[OF assms(1), of t p] assms(2) by auto
  then have r: "ll_remove t (klists s) (Ready p) = klists s (Ready p)" for p
    by (simp add: ll_remove_def remove1_idem)
  then show ?thesis using assms nr unfolding sched_inv_def started_def st
    by (auto simp: set_ll_remove[OF wf] unlinked_def intro: ll_wf_remove)
qed

lemma wait_add_inv:
  assumes inv: "sched_inv X s" and t: "unlinked t (klists s)" "tstat s t = RT_THREAD_SUSPEND" "t \<notin> X"
    and L: "ll_wf L" "\<And>h u. u \<in> set (L h) \<longleftrightarrow> u \<in> set (klists s h) \<or> (h = w \<and> u = t)" and w: "wait_head w"
  shows "sched_inv X (s\<lparr>klists := L\<rparr>)"
proof -
  let ?s = "s\<lparr>klists := L\<rparr>"
  have st: "tstat ?s u = tstat s u" "prio ?s u = prio s u" "runnable ?s u = runnable s u" for u
    by (simp_all add: tstat_def prio_def runnable_def)
  have r: "L (Ready p) = [] \<longleftrightarrow> klists s (Ready p) = []" for p
    using L(2)[of _ "Ready p"] w by (auto simp: wait_head_def) (metis list.set_intros(1) list.exhaust)+
  show ?thesis using inv t w unfolding sched_inv_def started_def st
    by (auto simp: L r unlinked_def wait_head_def)
qed

lemma started_cases: "tstat s t \<in> {RT_THREAD_READY, RT_THREAD_SUSPEND, RT_THREAD_RUNNING} \<Longrightarrow> started s t"
  by (simp add: started_def)

lemma kern_started:
  assumes "kern_inv X s" "started s t"
  shows "runnable s t" "rt_object_get_type (Mem t) s = RT_Object_Class_Thread"
    "rt_object_get_type (TimerOf t) s = RT_Object_Class_Timer"
    "tm_func (timers s (TimerOf t)) = TF_thread_timeout t"
    "\<not> has_flag RT_TIMER_FLAG_PERIODIC (TimerOf t) s" "\<not> has_flag RT_TIMER_FLAG_SOFT_TIMER (TimerOf t) s"
  using assms by (auto simp: kern_inv_def sched_inv_def thread_objs_def thread_tm_wf_def)

lemma kern_running:
  assumes "kern_wf s" "tstat s t = RT_THREAD_RUNNING"
  shows "cur s = Some t" "unlinked t (klists s)" "started s t"
  using assms running_unlinked[of "{}" s t] by (auto simp: kern_inv_def cur_ok_def started_def)

lemma cur_ok_insert:
  assumes ok: "cur_ok s" and c: "cur s' = cur s" and t: "tstat s t = RT_THREAD_SUSPEND"
    and st: "\<And>u. tstat s' u = (if u = t then if cur s = Some t then RT_THREAD_RUNNING else RT_THREAD_READY
                       else tstat s u)"
  shows "cur_ok s'"
  using ok t unfolding cur_ok_def c st by auto

lemma resume_thread:
  assumes k: "kern_wf s" and t: "tstat s t = RT_THREAD_SUSPEND"
  obtains s' where "rt_thread_resume t s = Some (RT_EOK, s')" "kern_wf s'" "cur s' = cur s"
    "\<And>u. tstat s' u = (if u = t then if cur s = Some t then RT_THREAD_RUNNING else RT_THREAD_READY else tstat s u)"
    "\<And>h. (\<And>p. h \<noteq> Ready p) \<Longrightarrow> klists s' h = ll_remove t (klists s) h"
    "\<not> has_flag RT_TIMER_FLAG_ACTIVATED (TimerOf t) s'"
proof -
  have st: "started s t" using t by (simp add: started_def)
  note ks = kern_started[OF k st]
  define s1 where "s1 = s\<lparr>klists := ll_remove t (klists s)\<rparr>"
  have s1: "sched_inv {t} s1" using wait_remove_inv[of "{}" s t] k t by (simp add: s1_def kern_inv_def)
  have same: "tstat s1 u = tstat s u" "runnable s1 u = runnable s u" "started s1 u = started s u" for u
    by (simp_all add: s1_def tstat_def runnable_def prio_def started_def)
  have "kern_inv {t} s1"
    using k s1 timer_part_cong[of s1 s] same cur_ok_cong[of s1 s] by (simp add: kern_inv_def s1_def)
  moreover have "rt_object_get_type (TimerOf t) s1 = RT_Object_Class_Timer"
    using ks(3) by (simp add: s1_def rt_object_get_type_def)
  ultimately obtain r s2 where s2: "rt_timer_stop (TimerOf t) s1 = Some (r, s2)" "kern_inv {t} s2"
    "threads s2 = threads s1" "klists s2 = klists s1" "cur s2 = cur s1"
    "\<not> has_flag RT_TIMER_FLAG_ACTIVATED (TimerOf t) s2"
    by (rule timer_stop_inv)
  have same2: "tstat s2 u = tstat s u" "started s2 u = started s u" "runnable s2 u = runnable s u" for u
    using threads_same[OF s2(3), of u] same[of u] by (simp_all add: started_def)
  obtain s3 where s3: "rt_schedule_insert_thread t s2 = Some s3" "sched_inv {} s3" "cur s3 = cur s2"
    "\<And>u. tstat s3 u = (if u = t then if cur s2 = Some t then RT_THREAD_RUNNING else RT_THREAD_READY else tstat s2 u)"
    using insert_inv[of t "{}" s2] s2(2) ks(1) same2(3) by (auto simp: kern_inv_def)
  note f = no_sched_fields[OF no_sched_insert[OF s3(1)]]
  have started: "started s3 u = started s2 u" for u using s3(4)[of u] t same2[of u] by (simp add: started_def)
  have act: "tstat s3 u = tstat s2 u" if "has_flag RT_TIMER_FLAG_ACTIVATED (TimerOf u) s2" for u
    using that s2(6) s3(4) by auto
  have "timer_wf s3" "thread_tm_wf s3" "thread_objs s3"
    using timer_part_cong[of s3 s2, OF f(7,4,6) act] started s2(2) by (auto simp: kern_inv_def)
  moreover have "cur_ok s3"
    using cur_ok_insert[of s2 s3 t] s2(2) s3(3,4) same2(1) t by (simp add: kern_inv_def)
  ultimately have "kern_wf s3" using s3(2) by (simp add: kern_inv_def)
  moreover have "\<not> has_flag RT_TIMER_FLAG_ACTIVATED (TimerOf t) s3" using s2(6) by (simp add: has_flag_def f)
  moreover have "rt_thread_resume t s = Some (RT_EOK, s3)"
    using ks(2) t s2(1) s3(1) by (simp add: rt_thread_resume_def s1_def)
  moreover have "klists s3 h = ll_remove t (klists s) h" if "\<And>p. h \<noteq> Ready p" for h
    using insert_thread_klists[OF s3(1) that] s2(4) by (simp add: s1_def)
  moreover have "cur s3 = cur s" using s3(3) s2(5) by (simp add: s1_def)
  ultimately show ?thesis using that[of s3] s3(4) same2 s2(5) by (simp add: s1_def)
qed

lemma suspend_thread:
  assumes k: "kern_wf s" and t: "tstat s t = RT_THREAD_RUNNING"
  obtains s' where "rt_thread_suspend t s = Some (RT_EOK, s')" "kern_wf s'" "cur s' = Some t"
    "\<And>u. tstat s' u = (if u = t then RT_THREAD_SUSPEND else tstat s u)" "klists s' = klists s"
proof -
  note r = kern_running[OF k t] and ks = kern_started[OF k kern_running(3)[OF k t]]
  obtain s1 where s1: "rt_schedule_remove_thread t s = Some s1" "sched_inv {t} s1"
      "klists s1 = ll_remove t (klists s)" "threads s1 = threads s" "cur s1 = cur s"
    using remove_inv[of "{}" s t] k ks(1) by (auto simp: kern_inv_def)
  have kl: "klists s1 = klists s" using s1(3) unlinked_ll_remove[OF r(2)] by simp
  note f = no_sched_fields[OF no_sched_remove[OF s1(1)]]
  define s2 where "s2 = upd_thread t (set_state RT_THREAD_SUSPEND) s1"
  have st: "tstat s2 u = (if u = t then RT_THREAD_SUSPEND else tstat s u)" for u
    using threads_same(1)[OF s1(4), of u] by (simp add: s2_def tstat_set_state)
  have started: "started s2 u = started s u" for u using st[of u] t by (simp add: started_def)
  have "sched_inv {} s2"
    using set_state_inv[OF s1(2)] ks(1) threads_same(3)[OF s1(4)] by (simp add: s2_def)
  moreover have "cur_ok s2"
  proof -
    have "tstat s u = RT_THREAD_RUNNING \<Longrightarrow> u = t" for u
      using r(1) cur_okD(2)[of s t u] k by (simp add: kern_inv_def)
    then show ?thesis using r(1) s1(5) unfolding cur_ok_def st by (auto simp: s2_def)
  qed
  moreover have "tstat s2 u = tstat s u" if "has_flag RT_TIMER_FLAG_ACTIVATED (TimerOf u) s" for u
    using that k t st by (auto simp: kern_inv_def thread_tm_wf_def)
  then have "timer_wf s2" "thread_tm_wf s2" "thread_objs s2"
    using timer_part_cong[of s2 s] f started k by (auto simp: s2_def upd_thread_def kern_inv_def)
  ultimately have k2: "kern_wf s2" by (simp add: kern_inv_def)
  have "rt_object_get_type (TimerOf t) s2 = RT_Object_Class_Timer"
    using ks(3) f by (simp add: s2_def upd_thread_def rt_object_get_type_def)
  then obtain q s3 where s3: "rt_timer_stop (TimerOf t) s2 = Some (q, s3)" "kern_wf s3"
    "threads s3 = threads s2" "klists s3 = klists s2" "cur s3 = cur s2"
    using timer_stop_inv[OF k2] by metis
  have "rt_thread_suspend t s = Some (RT_EOK, s3)"
    using ks(2) r(1) t s1(1) s3(1) by (simp add: rt_thread_suspend_def s2_def)
  moreover have "klists s3 = klists s" "cur s3 = Some t" using s3 kl s1(5) r(1) by (simp_all add: s2_def upd_thread_def)
  ultimately show ?thesis using that[of s3] s3(2) st threads_same(1)[OF s3(3)] by simp
qed


text \<open>\<open>stacks_ok\<close>: no started thread has overflowed its stack, so \<^verbatim>\<open>rt_schedule\<close> cannot stop the system.\<close>

definition stacks_ok :: "kstate \<Rightarrow> bool" where
  "stacks_ok s \<longleftrightarrow> (\<forall>t. started s t \<longrightarrow> stack_check (threads s t))"

lemma stacks_ok_cong:
  "no_kern s' = no_kern s \<Longrightarrow> (\<And>t. started s' t \<Longrightarrow> started s t) \<Longrightarrow> stacks_ok s \<Longrightarrow> stacks_ok s'"
  using no_kern_thread(7)[of s' s] by (auto simp: stacks_ok_def)

lemma schedule_kern:
  assumes k: "kern_wf s" and c: "cur s \<noteq> None" and ok: "stacks_ok s"
  obtains s' where "rt_schedule s = Some s'" "kern_wf s'" "cur s' \<noteq> None" "stacks_ok s'"
    "\<And>u. tstat s u = RT_THREAD_SUSPEND \<Longrightarrow> tstat s' u = RT_THREAD_SUSPEND"
    "\<And>u. tstat s u \<in> {RT_THREAD_READY, RT_THREAD_RUNNING} \<Longrightarrow> tstat s' u \<in> {RT_THREAD_READY, RT_THREAD_RUNNING}"
    "\<And>u. tstat s u \<notin> {RT_THREAD_READY, RT_THREAD_RUNNING} \<Longrightarrow> tstat s' u = tstat s u"
proof (cases "lock_nest s \<noteq> 0 \<or> ready_group s = 0")
  case True
  then show ?thesis using that[of s] k c ok by (simp add: rt_schedule_idle)
next
  case False
  have wf: "sched_wf s" by (rule kern_wf_sched[OF k])
  have inv: "sched_inv {} s" using wf by (simp add: sched_wf_def)
  then obtain hi hp where h: "scheduler_get_highest s = Some (hi, hp)"
    using False get_highest_spec(1) by (metis old.prod.exhaust option.exhaust)
  obtain cc where cc: "cur s = Some cc" using c by blast
  have hi: "tstat s hi = RT_THREAD_READY" using h get_highest_spec(2)[OF inv] by blast
  then have "stack_check (threads s hi)" using ok by (simp add: stacks_ok_def started_def)
  then obtain s' where s': "rt_schedule s = Some s'"
    using rt_schedule_active(2)[OF wf _ cc h] False by (cases "rt_schedule s") auto
  note act = rt_schedule_active(1)[OF wf _ cc h s']
  have nt: "tstat s (next_thread s cc hi hp) \<in> {RT_THREAD_READY, RT_THREAD_RUNNING}"
    using hi by (simp add: next_thread_def keeps_def)
  have st: "tstat s' u = (if u = next_thread s cc hi hp then RT_THREAD_RUNNING
      else if u = cc \<and> tstat s cc = RT_THREAD_RUNNING then RT_THREAD_READY else tstat s u)" for u
    using act False by blast
  have started: "started s' u = started s u" for u using st[of u] nt by (auto simp: started_def)
  note nk = no_kern_schedule[OF s'] and f = no_sched_fields[OF no_sched_schedule[OF s']]
  have act': "tstat s' u = tstat s u" if "has_flag RT_TIMER_FLAG_ACTIVATED (TimerOf u) s" for u
  proof -
    have "tstat s u = RT_THREAD_SUSPEND" using that k by (auto simp: kern_inv_def thread_tm_wf_def)
    then show ?thesis using st[of u] nt by auto
  qed
  have "kern_wf s'"
    using act False k timer_part_cong[of s' s, OF f(7,4,6) act'] started
    by (auto simp: kern_inv_def sched_wf_def)
  moreover have "stacks_ok s'" using stacks_ok_cong[OF nk] started ok by blast
  moreover have "cur s' \<noteq> None" using act False by auto
  ultimately show ?thesis using s' st nt by (intro that[of s']) auto
qed

lemma schedule_kern_ex:
  assumes "kern_wf s" "cur s \<noteq> None" "stacks_ok s"
  shows "\<exists>s'. rt_schedule s = Some s' \<and> kern_wf s' \<and> cur s' \<noteq> None \<and> stacks_ok s' \<and>
    (\<forall>u. tstat s u = RT_THREAD_SUSPEND \<longrightarrow> tstat s' u = RT_THREAD_SUSPEND)"
  by (rule schedule_kern[OF assms]) blast

lemma tstat_upd_same [simp]: "tstat (upd_thread t (\<lambda>th. th\<lparr>th_error := e\<rparr>) s) u = tstat s u"
  "prio (upd_thread t (\<lambda>th. th\<lparr>th_error := e\<rparr>) s) u = prio s u"
  by (simp_all add: tstat_def prio_def upd_thread_def)

lemma kern_inv_error: "kern_inv X (upd_thread t (\<lambda>th. th\<lparr>th_error := e\<rparr>) s) = kern_inv X s"
  by (rule kern_inv_cong) (simp_all add: upd_thread_def tstat_def prio_def)

text \<open>\<open>awake\<close>: the thread is ready or running.\<close>

definition awake :: "kstate \<Rightarrow> tid \<Rightarrow> bool" where
  "awake s t \<longleftrightarrow> tstat s t \<in> {RT_THREAD_READY, RT_THREAD_RUNNING}"

text \<open>The timeout of a suspended thread.\<close>

lemma timeout_insert:
  assumes k: "kern_wf s" and t: "tstat s t = RT_THREAD_SUSPEND" and c: "cur s \<noteq> None" and ok: "stacks_ok s"
    and off: "\<not> has_flag RT_TIMER_FLAG_ACTIVATED (TimerOf t) s"
  obtains s' where "do_thread_timeout t s = rt_schedule s'" "kern_wf s'" "cur s' = cur s" "stacks_ok s'"
    "no_sched s' = no_sched (upd_thread t (\<lambda>th. th\<lparr>th_error := - RT_ETIMEOUT\<rparr>) s)"
    "\<And>u. tstat s' u = (if u = t then if cur s = Some t then RT_THREAD_RUNNING else RT_THREAD_READY else tstat s u)"
    "\<And>h. (\<And>p. h \<noteq> Ready p) \<Longrightarrow> klists s' h = ll_remove t (klists s) h"
proof -
  have st: "started s t" using t by (simp add: started_def)
  note ks = kern_started[OF k st]
  define s0 where "s0 = upd_thread t (\<lambda>th. th\<lparr>th_error := - RT_ETIMEOUT\<rparr>) s"
  have k0: "kern_wf s0" using k by (simp add: s0_def kern_inv_error)
  define s1 where "s1 = s0\<lparr>klists := ll_remove t (klists s0)\<rparr>"
  have same: "tstat s1 u = tstat s u" "runnable s1 u = runnable s u" "started s1 u = started s u" for u
    by (simp_all add: s1_def s0_def tstat_def runnable_def prio_def started_def upd_thread_def)
  have s1: "sched_inv {t} s1" using wait_remove_inv[of "{}" s0 t] k0 t by (simp add: s1_def s0_def kern_inv_def)
  have e1: "tmlists s1 = tmlists s" "timers s1 = timers s" "objs s1 = objs s" "tick s1 = tick s" "cur s1 = cur s"
    by (simp_all add: s1_def s0_def upd_thread_def)
  have tm1: "timer_wf s1" "thread_tm_wf s1" "thread_objs s1" "cur_ok s1"
    using k timer_part_cong[of s1 s] cur_ok_cong[of s1 s] same e1 by (simp_all add: kern_inv_def)
  obtain s2 where s2: "rt_schedule_insert_thread t s1 = Some s2" "sched_inv {} s2" "cur s2 = cur s1"
    "\<And>u. tstat s2 u = (if u = t then if cur s1 = Some t then RT_THREAD_RUNNING else RT_THREAD_READY else tstat s1 u)"
    using insert_inv[of t "{}" s1] s1 ks(1) same(2) by auto
  note n2 = no_sched_insert[OF s2(1)]
  note f = no_sched_fields[OF n2]
  have started: "started s2 u = started s1 u" for u using s2(4)[of u] t same[of u] by (simp add: started_def)
  have "timer_wf s2" "thread_tm_wf s2" "thread_objs s2"
  proof -
    have "tstat s2 u = tstat s1 u" if "has_flag RT_TIMER_FLAG_ACTIVATED (TimerOf u) s1" for u
      using that off s2(4) e1 by (auto simp: has_flag_def)
    then show "timer_wf s2" "thread_tm_wf s2" "thread_objs s2"
      using timer_part_cong[of s2 s1, OF f(7,4,6)] started tm1 by auto
  qed
  moreover have "cur_ok s2" using cur_ok_insert[of s1 s2 t] tm1(4) s2(3,4) same(1) t by simp
  ultimately have k2: "kern_wf s2" using s2(2) by (simp add: kern_inv_def)
  have "stack_check (threads s2 u)" if "started s2 u" for u
    using that ok started[of u] same(3)[of u] no_sched_thread(11)[OF n2, of u]
    by (simp add: stacks_ok_def s1_def s0_def stack_check_def upd_thread_def split: if_splits)
  then have ok2: "stacks_ok s2" by (simp add: stacks_ok_def)
  have "no_sched s1 = no_sched s0" by (simp add: s1_def no_sched_def)
  then have "no_sched s2 = no_sched s0" using n2 by simp
  moreover have "do_thread_timeout t s = rt_schedule s2"
    using ks(2) t s2(1) by (simp add: do_thread_timeout_def s1_def s0_def rt_object_get_type_def)
  moreover have "klists s2 h = ll_remove t (klists s) h" if "\<And>p. h \<noteq> Ready p" for h
    using insert_thread_klists[OF s2(1) that] by (simp add: s1_def s0_def upd_thread_def)
  ultimately show ?thesis using that[of s2] k2 ok2 s2(3,4) same(1) e1 by (simp add: s0_def)
qed

lemma thread_timeout:
  assumes k: "kern_wf s" and t: "tstat s t = RT_THREAD_SUSPEND" and c: "cur s \<noteq> None" and ok: "stacks_ok s"
    and off: "\<not> has_flag RT_TIMER_FLAG_ACTIVATED (TimerOf t) s"
  obtains s' where "do_thread_timeout t s = Some s'" "kern_wf s'" "cur s' \<noteq> None" "stacks_ok s'"
    "tmlists s' = tmlists s" "timers s' = timers s" "objs s' = objs s" "tick s' = tick s"
    "th_error (threads s' t) = - RT_ETIMEOUT" "tstat s' t \<in> {RT_THREAD_READY, RT_THREAD_RUNNING}"
    "\<forall>u. awake s u \<longrightarrow> awake s' u"
proof -
  obtain s2 where s2: "do_thread_timeout t s = rt_schedule s2" "kern_wf s2" "cur s2 = cur s" "stacks_ok s2"
    "no_sched s2 = no_sched (upd_thread t (\<lambda>th. th\<lparr>th_error := - RT_ETIMEOUT\<rparr>) s)"
    "\<And>u. tstat s2 u = (if u = t then if cur s = Some t then RT_THREAD_RUNNING else RT_THREAD_READY else tstat s u)"
    using timeout_insert[OF assms] by metis
  have "cur s2 \<noteq> None" using s2(3) c by simp
  then obtain s3 where s3: "rt_schedule s2 = Some s3" "kern_wf s3" "cur s3 \<noteq> None" "stacks_ok s3"
    "\<And>u. tstat s2 u \<in> {RT_THREAD_READY, RT_THREAD_RUNNING} \<Longrightarrow> tstat s3 u \<in> {RT_THREAD_READY, RT_THREAD_RUNNING}"
    using schedule_kern[OF s2(2) _ s2(4)] by metis
  have n3: "no_sched s3 = no_sched (upd_thread t (\<lambda>th. th\<lparr>th_error := - RT_ETIMEOUT\<rparr>) s)"
    using no_sched_schedule[OF s3(1)] s2(5) by simp
  note f3 = no_sched_fields[OF n3]
  have "tstat s3 t \<in> {RT_THREAD_READY, RT_THREAD_RUNNING}" using s3(5)[of t] s2(6)[of t] by simp
  moreover have "th_error (threads s3 t) = - RT_ETIMEOUT" using no_sched_thread(2)[OF n3, of t] by (simp add: upd_thread_def)
  moreover have "awake s3 u" if "awake s u" for u using that s3(5)[of u] s2(6)[of u] by (auto simp: awake_def)
  ultimately show ?thesis using that[of s3] s2(1) s3 f3 by (simp add: upd_thread_def)
qed


section \<open>Starting a timer\<close>

text \<open>\<open>timer_on\<close>: the state in which the new timer is queued, before the timer thread is woken.\<close>

definition timer_on :: "addr \<Rightarrow> kstate \<Rightarrow> kstate" where
  "timer_on a s =
    (let s = timer_off a s;
         s = upd_timer a (\<lambda>tm. tm\<lparr>tm_timeout_tick := rt_tick_get s + tm_init_tick tm\<rparr>) s;
         h = (if has_flag RT_TIMER_FLAG_SOFT_TIMER a s then TmSoft else TmHard);
         s = s\<lparr>random_nr := random_nr s + 1\<rparr>;
         s = s\<lparr>tmlists := (tmlists s)(h :=
                 timer_walk (timers s) (tm_timeout_tick (timers s a)) a (tmlists s h))\<rparr>
     in flag_set RT_TIMER_FLAG_ACTIVATED a s)"

definition timer_head :: "addr \<Rightarrow> kstate \<Rightarrow> tmhead" where
  "timer_head a s = (if has_flag RT_TIMER_FLAG_SOFT_TIMER a s then TmSoft else TmHard)"

lemma set_timer_walk: "set (timer_walk tms e a ts) = insert a (set ts)"
  by (induction ts) (auto simp: Let_def)

lemma distinct_timer_walk: "a \<notin> set ts \<Longrightarrow> distinct ts \<Longrightarrow> distinct (timer_walk tms e a ts)"
  by (induction ts) (auto simp: Let_def set_timer_walk)

lemma has_flag_cong: "objs s' = objs s \<Longrightarrow> has_flag f a s' = has_flag f a s"
  by (simp add: has_flag_def)

lemma timer_on_simps [simp]:
  "threads (timer_on a s) = threads s" "klists (timer_on a s) = klists s"
  "ready_group (timer_on a s) = ready_group s" "cur (timer_on a s) = cur s" "tick (timer_on a s) = tick s"
  "soft_busy (timer_on a s) = soft_busy s" "lock_nest (timer_on a s) = lock_nest s"
  "timers (timer_on a s) = (timers s)(a := (timers s a)\<lparr>tm_timeout_tick := tick s + tm_init_tick (timers s a)\<rparr>)"
  "rt_object_get_type b (timer_on a s) = rt_object_get_type b s"
  by (simp_all add: timer_on_def Let_def flag_set_def upd_obj_def upd_timer_def rt_tick_get_def
      rt_object_get_type_def) (simp_all add: timer_off_def flag_clear_def do_timer_remove_def upd_obj_def)

lemma no_kern_on [simp]: "rt_object_get_type a s = RT_Object_Class_Timer \<Longrightarrow> no_kern (timer_on a s) = no_kern s"
  by (simp add: timer_on_def Let_def)

lemma timer_on_flags [simp]:
  "has_flag RT_TIMER_FLAG_ACTIVATED b (timer_on a s) \<longleftrightarrow> b = a \<or> has_flag RT_TIMER_FLAG_ACTIVATED b s"
  "has_flag RT_TIMER_FLAG_PERIODIC b (timer_on a s) = has_flag RT_TIMER_FLAG_PERIODIC b s"
  "has_flag RT_TIMER_FLAG_SOFT_TIMER b (timer_on a s) = has_flag RT_TIMER_FLAG_SOFT_TIMER b s"
  unfolding timer_on_def Let_def flag_facts
  using timer_off_flags[of b a s] by (auto simp: has_flag_def upd_timer_def)

lemma timer_on_lists:
  "tmlists (timer_on a s) = (ll_remove a (tmlists s))(timer_head a s :=
     timer_walk (timers (timer_on a s)) (tick s + tm_init_tick (timers s a)) a (ll_remove a (tmlists s) (timer_head a s)))"
proof -
  have f: "has_flag RT_TIMER_FLAG_SOFT_TIMER a (upd_timer a g (timer_off a s)) = has_flag RT_TIMER_FLAG_SOFT_TIMER a s" for g
    using timer_off_flags(3)[of a a s] by (simp add: has_flag_def upd_timer_def)
  show ?thesis
    unfolding timer_on_simps(8) timer_head_def timer_on_def Let_def f
    by (simp add: flag_set_def upd_obj_def upd_timer_def rt_tick_get_def)
qed

lemma timer_on_inv:
  assumes k: "kern_inv X s" and ty: "rt_object_get_type a s = RT_Object_Class_Timer"
    and susp: "\<And>t. a = TimerOf t \<Longrightarrow> tstat s t = RT_THREAD_SUSPEND"
  shows "kern_inv X (timer_on a s)"
proof -
  have st: "tstat (timer_on a s) t = tstat s t" "prio (timer_on a s) t = prio s t" "started (timer_on a s) t = started s t" for t
    by (simp_all add: tstat_def prio_def started_def)
  have wf: "ll_wf (tmlists s)" using k by (simp add: kern_inv_def timer_wf_def)
  have mem: "b \<in> set (tmlists (timer_on a s) h) \<longleftrightarrow> (b = a \<and> h = timer_head a s) \<or> (b \<noteq> a \<and> b \<in> set (tmlists s h))" for b h
    unfolding timer_on_lists using set_ll_remove[OF wf] by (auto simp: set_timer_walk)
  have "ll_wf (tmlists (timer_on a s))"
  proof -
    have "ll_wf (ll_remove a (tmlists s))" "unlinked a (ll_remove a (tmlists s))"
      using wf by (rule ll_wf_remove, rule unlinked_remove)
    then show ?thesis unfolding timer_on_lists
      by (auto simp: ll_wf_def unlinked_def set_timer_walk distinct_timer_walk)
  qed
  then have "timer_wf (timer_on a s)"
    using k ty unfolding timer_wf_def mem kern_inv_def by (auto simp: timer_head_def)
  moreover have "sched_inv X (timer_on a s)" "cur_ok (timer_on a s)"
    using k sched_inv_cong[of "timer_on a s" s X] cur_ok_cong[of "timer_on a s" s] st by (simp_all add: kern_inv_def)
  ultimately show ?thesis
    using k susp by (auto simp: kern_inv_def thread_tm_wf_def thread_objs_def st split: if_splits)
qed

lemma timer_start_eq:
  assumes "rt_object_get_type a s = RT_Object_Class_Timer"
  shows "rt_timer_start a s =
    (if has_flag RT_TIMER_FLAG_SOFT_TIMER a s \<and> \<not> soft_busy s \<and> tstat s timer_thread = RT_THREAD_SUSPEND
     then rt_thread_resume timer_thread (timer_on a s) \<bind> (\<lambda>(_, s). rt_schedule s \<bind> (\<lambda>s. Some (RT_EOK, s)))
     else Some (RT_EOK, timer_on a s))"
proof -
  have "tstat (timer_on a s) timer_thread = tstat s timer_thread" by (simp add: tstat_def)
  moreover have "rt_timer_start a s =
    (if has_flag RT_TIMER_FLAG_SOFT_TIMER a (timer_on a s) \<and> \<not> soft_busy (timer_on a s) \<and>
        tstat (timer_on a s) timer_thread = RT_THREAD_SUSPEND
     then rt_thread_resume timer_thread (timer_on a s) \<bind> (\<lambda>(_, s). rt_schedule s \<bind> (\<lambda>s. Some (RT_EOK, s)))
     else Some (RT_EOK, timer_on a s))"
    using assms unfolding rt_timer_start_def timer_on_def timer_off_def Let_def by simp
  ultimately show ?thesis by simp
qed

lemma timer_start_hard:
  "rt_object_get_type a s = RT_Object_Class_Timer \<Longrightarrow> \<not> has_flag RT_TIMER_FLAG_SOFT_TIMER a s \<Longrightarrow>
    rt_timer_start a s = Some (RT_EOK, timer_on a s)"
  by (simp add: timer_start_eq)

text \<open>A thread timer, started for its suspended thread.\<close>

lemma start_thread_timer:
  assumes k: "kern_wf s" and t: "tstat s t = RT_THREAD_SUSPEND"
  shows "rt_timer_start (TimerOf t) s = Some (RT_EOK, timer_on (TimerOf t) s)" "kern_wf (timer_on (TimerOf t) s)"
proof -
  have st: "started s t" using t by (simp add: started_def)
  note ks = kern_started[OF k st]
  show "rt_timer_start (TimerOf t) s = Some (RT_EOK, timer_on (TimerOf t) s)" by (rule timer_start_hard[OF ks(3,6)])
  show "kern_wf (timer_on (TimerOf t) s)" using timer_on_inv[OF k ks(3)] t by simp
qed

section \<open>The order of expiry\<close>

text \<open>
  Times are compared modulo \<open>2 ^ 32\<close>: relative to a reference tick \<open>base\<close>, as long as every timer
  expires within half the range after it, the walk of \<^verbatim>\<open>rt_timer_start\<close> is the stable insertion into
  the order of expiry.
\<close>

lemma wrap_compare:
  fixes d e :: u32
  assumes "d < RT_TICK_HALF" "e < RT_TICK_HALF"
  shows "(d - e \<noteq> 0 \<and> d - e < RT_TICK_HALF) \<longleftrightarrow> e < d"
proof (cases "e \<le> d")
  case True
  then have "d - e \<le> d" by (simp add: word_le_nat_alt unat_sub)
  then have "d - e < RT_TICK_HALF" using assms(1) by (rule le_less_trans)
  then show ?thesis using True by auto
next
  case False
  then have lt: "d < e" by simp
  then have "uint (d - e) = uint d - uint e + 4294967296"
    by (simp add: uint_sub_if_size word_size word_less_def)
  moreover have "uint e < 0x7fffffff" using assms(2) by (simp add: word_less_def)
  ultimately have "uint (d - e) > 0x7fffffff" using uint_ge_0[of d] by linarith
  then have "\<not> d - e < RT_TICK_HALF" by (simp add: word_less_def)
  then show ?thesis using lt by auto
qed

lemma timer_walk_insert:
  assumes "\<forall>x\<in>set ts. tm_timeout_tick (tms x) - base < RT_TICK_HALF" "e - base < RT_TICK_HALF"
    and "sorted (map (\<lambda>x. tm_timeout_tick (tms x) - base) ts)"
  shows "timer_walk tms e a ts = filter (\<lambda>x. tm_timeout_tick (tms x) - base \<le> e - base) ts @ a #
    filter (\<lambda>x. e - base < tm_timeout_tick (tms x) - base) ts"
  using assms
proof (induction ts)
  case (Cons t ts)
  let ?k = "\<lambda>x. tm_timeout_tick (tms x) - base"
  have "tm_timeout_tick (tms t) - e = ?k t - (e - base)" by simp
  then have cmp: "(tm_timeout_tick (tms t) - e \<noteq> 0 \<and> tm_timeout_tick (tms t) - e < RT_TICK_HALF) \<longleftrightarrow> e - base < ?k t"
    using wrap_compare[of "?k t" "e - base"] Cons.prems(1,2) by simp
  show ?case
  proof (cases "e - base < ?k t")
    case True
    then have "\<forall>x\<in>set ts. e - base < ?k x" using Cons.prems(3) by (auto intro: less_le_trans)
    then have "filter (\<lambda>x. ?k x \<le> e - base) (t # ts) = []" "filter (\<lambda>x. e - base < ?k x) (t # ts) = t # ts"
      using True by (auto simp: filter_empty_conv filter_id_conv)
    moreover have "timer_walk tms e a (t # ts) = a # t # ts" using cmp True by (simp add: Let_def)
    ultimately show ?thesis by simp
  next
    case False
    have w: "timer_walk tms e a (t # ts) = t # timer_walk tms e a ts"
      using cmp False by (auto simp: Let_def)
    have "timer_walk tms e a ts = filter (\<lambda>x. ?k x \<le> e - base) ts @ a # filter (\<lambda>x. e - base < ?k x) ts"
      using Cons by simp
    then show ?thesis unfolding w using False by auto
  qed
qed simp


section \<open>The check loop\<close>

text \<open>\<open>due s a\<close> is the test of the loop: the expiry is at most half the range in the past.\<close>

definition due :: "kstate \<Rightarrow> addr \<Rightarrow> bool" where
  "due s a \<longleftrightarrow> tick s - tm_timeout_tick (timers s a) < RT_TICK_HALF"

definition due_set :: "kstate \<Rightarrow> addr set" where
  "due_set s = {a \<in> set (tmlists s TmHard). due s a}"

definition periods_ok :: "kstate \<Rightarrow> bool" where
  "periods_ok s \<longleftrightarrow> (\<forall>a. has_flag RT_TIMER_FLAG_PERIODIC a s \<and> rt_object_get_type a s = RT_Object_Class_Timer \<longrightarrow>
     0 < tm_init_tick (timers s a) \<and> tm_init_tick (timers s a) < RT_TICK_HALF)"

definition check_ready :: "kstate \<Rightarrow> bool" where
  "check_ready s \<longleftrightarrow> kern_wf s \<and> cur s \<noteq> None \<and> stacks_ok s \<and> periods_ok s"

text \<open>
  What the loop needs of the application's callbacks: they return, keep the invariant and do not make
  a timer due that was not; they may start timers (with a positive time), stop timers and wake
  threads.
\<close>

definition callbacks_ok :: "callbacks \<Rightarrow> bool" where
  "callbacks_ok ucb \<longleftrightarrow> (\<forall>n s. check_ready s \<longrightarrow>
     (\<exists>s'. ucb n s = Some s' \<and> check_ready s' \<and> tick s' = tick s \<and> due_set s' \<subseteq> due_set s \<and>
       (\<forall>a. rt_object_get_type a s = RT_Object_Class_Timer \<longrightarrow>
          rt_object_get_type a s' = RT_Object_Class_Timer \<or> \<not> has_flag RT_TIMER_FLAG_ACTIVATED a s') \<and>
       (\<forall>t. tstat s t \<noteq> RT_THREAD_SUSPEND \<longrightarrow> has_flag RT_TIMER_FLAG_PERIODIC (TimerOf t) s' \<longrightarrow>
          has_flag RT_TIMER_FLAG_PERIODIC (TimerOf t) s)))"

lemma restarted_not_due:
  fixes i :: u32
  assumes "0 < i" "i < RT_TICK_HALF"
  shows "\<not> t - (t + i) < RT_TICK_HALF"
proof -
  have "t - (t + i) = 0 - i" by simp
  then show ?thesis using wrap_compare[of 0 i] assms by auto
qed

lemma tmlists_upd_inv:
  assumes "kern_inv X s" "ll_wf L" "\<And>h. h \<in> {TmHard, TmSoft} \<Longrightarrow> set (L h) \<subseteq> set (tmlists s h)"
  shows "kern_inv X (s\<lparr>tmlists := L\<rparr>)"
proof -
  let ?s = "s\<lparr>tmlists := L\<rparr>"
  have same: "tstat ?s t = tstat s t" "prio ?s t = prio s t" "started ?s t = started s t" for t
    by (simp_all add: tstat_def prio_def started_def)
  have "timer_wf ?s" using assms by (auto simp: kern_inv_def timer_wf_def has_flag_def rt_object_get_type_def)
  moreover have "sched_inv X ?s" "cur_ok ?s"
    using assms(1) sched_inv_cong[of ?s s X] cur_ok_cong[of ?s s] same by (simp_all add: kern_inv_def)
  ultimately show ?thesis using assms(1) unfolding kern_inv_def
    by (auto simp: thread_tm_wf_def thread_objs_def same has_flag_def rt_object_get_type_def)
qed

lemma expire_step:
  assumes r: "check_ready s" and t: "tmlists s TmHard = t # ts" and l: "l \<in> {TmHardLocal, TmSoftLocal}"
    and h: "l = TmHardLocal"
  defines "s1 \<equiv> timer_expire l t s"
  shows "check_ready s1" "tmlists s1 TmHard = ts" "timers s1 = timers s" "tick s1 = tick s" "threads s1 = threads s"
    "t \<notin> set ts" "rt_object_get_type a s1 = rt_object_get_type a s"
    "has_flag RT_TIMER_FLAG_PERIODIC a s1 = has_flag RT_TIMER_FLAG_PERIODIC a s"
    "has_flag RT_TIMER_FLAG_ACTIVATED t s1 = has_flag RT_TIMER_FLAG_PERIODIC t s"
proof -
  have k: "kern_wf s" using r by (simp add: check_ready_def)
  then have wf: "ll_wf (tmlists s)" by (simp add: kern_inv_def timer_wf_def)
  have tw: "has_flag RT_TIMER_FLAG_ACTIVATED t s"
    using k t unfolding kern_inv_def timer_wf_def by (metis insertI1 list.set_intros(1))
  define s0 where "s0 = (if \<not> has_flag RT_TIMER_FLAG_PERIODIC t s then timer_off t s else do_timer_remove t s)"
  have hf: "has_flag f a (do_timer_remove b s) = has_flag f a s" for f a b
    by (simp add: has_flag_def do_timer_remove_def)
  have s1: "s1 = s0\<lparr>tmlists := ll_insert_after l t (tmlists s0)\<rparr>"
    unfolding s1_def s0_def timer_expire_def Let_def timer_off_def hf by simp
  have e0: "tmlists s0 = ll_remove t (tmlists s)" "timers s0 = timers s" "tick s0 = tick s" "threads s0 = threads s"
    "cur s0 = cur s"
    by (simp_all add: s0_def do_timer_remove_def)
  have lw: "ll_wf (ll_remove t (tmlists s))" "unlinked t (ll_remove t (tmlists s))"
    using wf by (rule ll_wf_remove, rule unlinked_remove)
  have k0: "kern_wf s0"
    using timer_off_inv[OF k, of t] tmlists_upd_inv[OF k lw(1)] set_ll_remove[OF wf]
    by (auto simp: s0_def do_timer_remove_def)
  have k1: "kern_wf s1" unfolding s1
    using lw e0 l by (intro tmlists_upd_inv[OF k0]) (auto simp: ll_insert_after_def intro: ll_wf_insert_after[unfolded ll_insert_after_def])
  have ty: "rt_object_get_type a s1 = rt_object_get_type a s" for a
    by (simp add: s1 s0_def rt_object_get_type_def do_timer_remove_def timer_off_def flag_clear_def upd_obj_def)
  have per: "has_flag RT_TIMER_FLAG_PERIODIC a s1 = has_flag RT_TIMER_FLAG_PERIODIC a s" for a
    using timer_off_flags(2)[of a t s] hf by (auto simp: s1 s0_def has_flag_def)
  have e1: "timers s1 = timers s" "threads s1 = threads s" "cur s1 = cur s" by (simp_all add: s1 e0)
  have "stacks_ok s1" using r e1 by (simp add: check_ready_def stacks_ok_def started_def tstat_def)
  moreover have "periods_ok s1" using r by (simp add: check_ready_def periods_ok_def per ty e1)
  ultimately show "check_ready s1" using r k1 e1 by (simp add: check_ready_def)
  show "tmlists s1 TmHard = ts" using l by (auto simp: s1 e0 ll_insert_after_def ll_remove_def t)
  show "timers s1 = timers s" "tick s1 = tick s" "threads s1 = threads s" by (simp_all add: s1 e0)
  show "t \<notin> set ts" using wf t unfolding ll_wf_def by (metis distinct.simps(2))
  show "rt_object_get_type a s1 = rt_object_get_type a s" by (rule ty)
  show "has_flag RT_TIMER_FLAG_PERIODIC a s1 = has_flag RT_TIMER_FLAG_PERIODIC a s" by (rule per)
  show "has_flag RT_TIMER_FLAG_ACTIVATED t s1 = has_flag RT_TIMER_FLAG_PERIODIC t s"
    using timer_off_flags(1)[of t t s] hf tw by (auto simp: s1 s0_def has_flag_def)
qed


lemma local_removed:
  assumes r: "check_ready s"
  shows "check_ready (s\<lparr>tmlists := ll_remove t (tmlists s)\<rparr>)"
proof -
  have k: "kern_wf s" using r by (simp add: check_ready_def)
  then have wf: "ll_wf (tmlists s)" by (simp add: kern_inv_def timer_wf_def)
  have "kern_wf (s\<lparr>tmlists := ll_remove t (tmlists s)\<rparr>)"
    using set_ll_remove[OF wf] by (intro tmlists_upd_inv[OF k ll_wf_remove[OF wf]]) auto
  then show ?thesis using r
    by (simp add: check_ready_def stacks_ok_def started_def tstat_def periods_ok_def has_flag_def
        rt_object_get_type_def)
qed

lemma start_total:
  assumes r: "check_ready s" and ty: "rt_object_get_type a s = RT_Object_Class_Timer"
    and susp: "\<And>t. a = TimerOf t \<Longrightarrow> tstat s t = RT_THREAD_SUSPEND"
  obtains s' where "rt_timer_start a s = Some (RT_EOK, s')" "check_ready s'" "tick s' = tick s"
    "due_set s' \<subseteq> due_set (timer_on a s)" "timers s' = timers (timer_on a s)"
    "tmlists s' TmHard = tmlists (timer_on a s) TmHard \<or>
     tmlists s' TmHard = remove1 (TimerOf timer_thread) (tmlists (timer_on a s) TmHard) \<and>
       awake s' timer_thread"
    "\<forall>u. awake s u \<longrightarrow> awake s' u"
proof -
  have k: "kern_wf (timer_on a s)" using timer_on_inv[OF _ ty susp] r by (simp add: check_ready_def)
  have ready: "check_ready (timer_on a s)"
    using r k by (auto simp: check_ready_def stacks_ok_def started_def tstat_def periods_ok_def)
  show ?thesis
  proof (cases "has_flag RT_TIMER_FLAG_SOFT_TIMER a s \<and> \<not> soft_busy s \<and> tstat s timer_thread = RT_THREAD_SUSPEND")
    case False
    then have "rt_timer_start a s = Some (RT_EOK, timer_on a s)" unfolding timer_start_eq[OF ty] by (rule if_not_P)
    moreover have "awake (timer_on a s) u = awake s u" for u by (simp add: awake_def tstat_def)
    ultimately show ?thesis using ready by (intro that[of "timer_on a s"]) simp_all
  next
    case True
    let ?s = "timer_on a s"
    have ts: "tstat ?s timer_thread = RT_THREAD_SUSPEND" using True by (simp add: tstat_def)
    obtain s1 where s1: "rt_thread_resume timer_thread ?s = Some (RT_EOK, s1)" "kern_wf s1" "cur s1 = cur ?s"
      "\<And>u. tstat s1 u = (if u = timer_thread then if cur ?s = Some timer_thread then RT_THREAD_RUNNING
         else RT_THREAD_READY else tstat ?s u)"
      using resume_thread[OF k ts] by blast
    have n1: "no_kern s1 = no_kern ?s" by (rule no_kern_resume[OF s1(1)])
    have st1: "started s1 u \<Longrightarrow> started ?s u" for u using s1(4)[of u] ts by (auto simp: started_def split: if_splits)
    have ok1: "stacks_ok s1" using stacks_ok_cong[OF n1 st1] ready by (simp add: check_ready_def)
    have c1: "cur s1 \<noteq> None" using s1(3) r by (simp add: check_ready_def)
    obtain s2 where s2: "rt_schedule s1 = Some s2" "kern_wf s2" "cur s2 \<noteq> None" "stacks_ok s2"
      "\<And>u. tstat s1 u \<in> {RT_THREAD_READY, RT_THREAD_RUNNING} \<Longrightarrow> tstat s2 u \<in> {RT_THREAD_READY, RT_THREAD_RUNNING}"
      using schedule_kern[OF s1(2) c1 ok1] by metis
    note f2 = no_sched_fields[OF no_sched_schedule[OF s2(1)]]
    have e: "timers s1 = timers ?s \<and> (tmlists s1 = ll_remove (TimerOf timer_thread) (tmlists ?s) \<or> tmlists s1 = tmlists ?s) \<and>
        (\<forall>b. has_flag RT_TIMER_FLAG_PERIODIC b s1 = has_flag RT_TIMER_FLAG_PERIODIC b ?s)"
    proof -
      let ?k = "?s\<lparr>klists := ll_remove timer_thread (klists ?s)\<rparr>"
      have ty0: "rt_object_get_type (TimerOf timer_thread) ?k = RT_Object_Class_Timer"
        using kern_started(3)[OF k, of timer_thread] ts by (simp add: started_def rt_object_get_type_def)
      obtain q m where m: "rt_timer_stop (TimerOf timer_thread) ?k = Some (q, m)" "rt_schedule_insert_thread timer_thread m = Some s1"
        using s1(1) ts by (auto simp: rt_thread_resume_def bind_eq_Some_conv split: if_splits)
      have m': "m = timer_off (TimerOf timer_thread) ?k \<or> m = ?k"
        using m(1) timer_stop_eq[OF ty0] by (auto split: if_splits)
      note g = no_sched_fields[OF no_sched_insert[OF m(2)]]
      have "has_flag RT_TIMER_FLAG_PERIODIC b m = has_flag RT_TIMER_FLAG_PERIODIC b ?s" for b
        using m' timer_off_flags(2)[of b "TimerOf timer_thread" ?k] by (auto simp: has_flag_def)
      then show ?thesis using m' g by (auto simp: has_flag_def)
    qed
    have wf: "ll_wf (tmlists ?s)" using k by (simp add: kern_inv_def timer_wf_def)
    have "due_set s2 \<subseteq> due_set ?s"
      using e f2 no_kern_fields(3)[OF n1] set_ll_remove[OF wf] by (auto simp: due_set_def due_def)
    moreover have "periods_ok s2"
      using ready e f2(4,6) no_kern_fields(12)[OF n1] no_kern_fields(12)[OF no_kern_schedule[OF s2(1)]]
      by (simp add: check_ready_def periods_ok_def has_flag_def)
    moreover have "rt_timer_start a s = Some (RT_EOK, s2)"
      using True s1(1) s2(1) unfolding timer_start_eq[OF ty] by simp
    moreover have "timers s2 = timers ?s" "tmlists s2 TmHard = tmlists ?s TmHard \<or>
       tmlists s2 TmHard = remove1 (TimerOf timer_thread) (tmlists ?s TmHard)"
      using e f2(6,7) by (auto simp: ll_remove_def)
    moreover have "awake s2 timer_thread"
      using s2(5)[of timer_thread] s1(4)[of timer_thread] by (simp add: awake_def)
    moreover have "awake s2 u" if "awake s u" for u
    proof -
      have "tstat ?s u = tstat s u" by (simp add: tstat_def)
      then show ?thesis using that s2(5)[of u] s1(4)[of u] unfolding awake_def by (cases "u = timer_thread") auto
    qed
    ultimately show ?thesis
      using that[of s2] s2(2-4) f2(3) no_kern_fields(3)[OF n1] unfolding check_ready_def by simp
  qed
qed


lemma due_set_on:
  assumes "0 < tm_init_tick (timers s a)" "tm_init_tick (timers s a) < RT_TICK_HALF" "ll_wf (tmlists s)"
  shows "due_set (timer_on a s) \<subseteq> due_set s - {a}"
proof -
  have "\<not> due (timer_on a s) a" using restarted_not_due[OF assms(1,2)] by (simp add: due_def)
  moreover have "b \<in> due_set s" if b: "b \<in> due_set (timer_on a s)" "b \<noteq> a" for b
  proof -
    have "b \<in> set (tmlists s TmHard)"
      using b unfolding due_set_def timer_on_lists
      by (auto simp: set_timer_walk set_ll_remove[OF assms(3)] split: if_splits)
    then show ?thesis using b by (auto simp: due_set_def due_def)
  qed
  ultimately show ?thesis by (auto simp: due_set_def)
qed

text \<open>One round of the loop: the callback returns, and the set of due timers shrinks.\<close>

lemma check_round:
  assumes cb: "callbacks_ok ucb" and r: "check_ready s" and t: "tmlists s TmHard = t # ts" and d: "due s t"
  obtains s2 where "run_timeout ucb (tm_func (timers s t)) (timer_expire TmHardLocal t s) = Some s2"
    "check_ready s2" "tick s2 = tick s" "due_set s2 \<subset> due_set s"
    "has_flag RT_TIMER_FLAG_PERIODIC t s2 \<and> has_flag RT_TIMER_FLAG_ACTIVATED t s2 \<longrightarrow>
       rt_object_get_type t s2 = RT_Object_Class_Timer \<and> (\<forall>u. t \<noteq> TimerOf u)"
proof -
  define s1 where "s1 = timer_expire TmHardLocal t s"
  have e: "check_ready s1" "tmlists s1 TmHard = ts" "timers s1 = timers s" "tick s1 = tick s" "threads s1 = threads s"
    "t \<notin> set ts" "\<And>a. rt_object_get_type a s1 = rt_object_get_type a s"
    "\<And>a. has_flag RT_TIMER_FLAG_PERIODIC a s1 = has_flag RT_TIMER_FLAG_PERIODIC a s"
    "has_flag RT_TIMER_FLAG_ACTIVATED t s1 = has_flag RT_TIMER_FLAG_PERIODIC t s"
    using expire_step[OF r t, of TmHardLocal] by (simp_all add: s1_def)
  have k: "kern_wf s" and k1: "kern_wf s1" using r e(1) by (simp_all add: check_ready_def)
  have act: "has_flag RT_TIMER_FLAG_ACTIVATED t s" "rt_object_get_type t s = RT_Object_Class_Timer"
    using k t unfolding kern_inv_def timer_wf_def by (metis insertI1 list.set_intros(1))+
  have due1: "due_set s1 \<subset> due_set s" using e d t by (auto simp: due_set_def due_def)
  show ?thesis
  proof (cases "tm_func (timers s t)")
    case (TF_thread_timeout u)
    then have tu: "t = TimerOf u" using k by (simp add: kern_inv_def thread_tm_wf_def)
    have su: "tstat s u = RT_THREAD_SUSPEND" using k act tu by (simp add: kern_inv_def thread_tm_wf_def)
    have "\<not> has_flag RT_TIMER_FLAG_PERIODIC t s"
      using kern_started(5)[OF k, of u] su tu by (simp add: started_def)
    then have off: "\<not> has_flag RT_TIMER_FLAG_ACTIVATED (TimerOf u) s1" using e(9) tu by simp
    have su1: "tstat s1 u = RT_THREAD_SUSPEND" using su e(5) by (simp add: tstat_def)
    have c1: "cur s1 \<noteq> None" "stacks_ok s1" using e(1) by (simp_all add: check_ready_def)
    obtain s2 where s2: "do_thread_timeout u s1 = Some s2" "kern_wf s2" "cur s2 \<noteq> None" "stacks_ok s2"
      "tmlists s2 = tmlists s1" "timers s2 = timers s1" "objs s2 = objs s1" "tick s2 = tick s1"
      by (rule thread_timeout[OF k1 su1 c1 off]) blast
    have "check_ready s2" using s2 e(1)
      by (simp add: check_ready_def periods_ok_def has_flag_def rt_object_get_type_def)
    moreover have "due_set s2 = due_set s1" using s2 by (simp add: due_set_def due_def)
    moreover have "\<not> has_flag RT_TIMER_FLAG_PERIODIC t s2"
      using \<open>\<not> has_flag RT_TIMER_FLAG_PERIODIC t s\<close> e(8) s2(7) by (simp add: has_flag_def)
    ultimately show ?thesis
      using that[of s2] s2(1,8) e(4) due1 TF_thread_timeout by (simp add: run_timeout_def s1_def)
  next
    case (TF_user n)
    obtain s2 where s2: "ucb n s1 = Some s2" "check_ready s2" "tick s2 = tick s1" "due_set s2 \<subseteq> due_set s1"
      "rt_object_get_type t s1 = RT_Object_Class_Timer \<longrightarrow>
         rt_object_get_type t s2 = RT_Object_Class_Timer \<or> \<not> has_flag RT_TIMER_FLAG_ACTIVATED t s2"
      using cb e(1) unfolding callbacks_ok_def by blast
    have "t \<noteq> TimerOf u" for u
    proof
      assume "t = TimerOf u"
      then have "started s u" using k act by (simp add: kern_inv_def thread_tm_wf_def started_def)
      then have "tm_func (timers s t) = TF_thread_timeout u" using kern_started(4)[OF k] \<open>t = TimerOf u\<close> by simp
      then show False using TF_user by simp
    qed
    then show ?thesis
      using that[of s2] s2 e(4,7) act due1 TF_user by (auto simp: run_timeout_def s1_def)
  qed
qed

text \<open>The state in which a periodic timer is started again.\<close>

lemma rearm_start:
  assumes r: "check_ready s"
    and f: "has_flag RT_TIMER_FLAG_PERIODIC t s" "has_flag RT_TIMER_FLAG_ACTIVATED t s"
    and ty: "rt_object_get_type t s = RT_Object_Class_Timer" "\<forall>u. t \<noteq> TimerOf u"
  obtains s' where "timer_rearm t s = rt_timer_start t s' \<bind> (\<lambda>(_, s). Some s)" "check_ready s'"
    "rt_object_get_type t s' = RT_Object_Class_Timer" "tick s' = tick s" "timers s' = timers s" "threads s' = threads s"
    "tmlists s' = ll_remove t (tmlists s)" "0 < tm_init_tick (timers s' t)" "tm_init_tick (timers s' t) < RT_TICK_HALF"
    "klists s' = klists s" "cur s' = cur s" "no_kern s' = no_kern s"
proof -
  define s1 where "s1 = s\<lparr>tmlists := ll_remove t (tmlists s)\<rparr>"
  have r1: "check_ready s1" unfolding s1_def by (rule local_removed[OF r])
  have wf: "ll_wf (tmlists s)" using r by (simp add: check_ready_def kern_inv_def timer_wf_def)
  have hf: "has_flag f a s1 = has_flag f a s" for f a by (simp add: s1_def has_flag_def)
  define s2 where "s2 = timer_off t s1"
  have ll: "ll_remove t (tmlists s1) = tmlists s1"
    by (simp add: s1_def ll_remove_def remove1_idem wf[unfolded ll_wf_def] comp_def)
  have e2: "flag_clear RT_TIMER_FLAG_ACTIVATED t s1 = s2"
    using ll by (simp add: s2_def timer_off_def do_timer_remove_def)
  have l2: "tmlists s2 = ll_remove t (tmlists s)" "threads s2 = threads s" "timers s2 = timers s"
    using ll by (simp_all add: s2_def) (simp_all add: s1_def)
  have r2: "check_ready s2" unfolding s2_def
    using r1 timer_off_inv[of "{}" s1 t] by (auto simp: check_ready_def stacks_ok_def periods_ok_def)
  have ty2: "rt_object_get_type t s2 = RT_Object_Class_Timer"
    unfolding s2_def timer_off_simps using ty(1) by (simp add: s1_def rt_object_get_type_def)
  have "0 < tm_init_tick (timers s2 t)" "tm_init_tick (timers s2 t) < RT_TICK_HALF"
    using r1 f hf ty unfolding check_ready_def periods_ok_def
    by (auto simp: s2_def s1_def rt_object_get_type_def)
  moreover have "timer_rearm t s = rt_timer_start t s2 \<bind> (\<lambda>(_, s). Some s)"
    using f hf e2 by (simp add: timer_rearm_def flip: s1_def)
  moreover have "tick s2 = tick s" by (simp add: s2_def s1_def)
  moreover have "klists s2 = klists s" "cur s2 = cur s" by (simp_all add: s2_def) (simp_all add: s1_def)
  moreover have "no_kern s1 = no_kern s" unfolding s1_def by (auto simp: no_kern_def no_sched_def intro!: kstate.equality ext)
  then have "no_kern s2 = no_kern s" using ty(1) by (simp add: s2_def) (simp add: s1_def rt_object_get_type_def)
  ultimately show ?thesis using r2 ty2 l2 by (intro that[of s2])
qed

lemma rearm_round:
  assumes r: "check_ready s"
    and a: "has_flag RT_TIMER_FLAG_PERIODIC t s \<and> has_flag RT_TIMER_FLAG_ACTIVATED t s \<longrightarrow>
       rt_object_get_type t s = RT_Object_Class_Timer \<and> (\<forall>u. t \<noteq> TimerOf u)"
  obtains s' where "timer_rearm t s = Some s'" "check_ready s'" "tick s' = tick s" "due_set s' \<subseteq> due_set s"
proof -
  have wf: "ll_wf (tmlists s)" using r by (simp add: check_ready_def kern_inv_def timer_wf_def)
  show ?thesis
  proof (cases "has_flag RT_TIMER_FLAG_PERIODIC t s \<and> has_flag RT_TIMER_FLAG_ACTIVATED t s")
    case False
    let ?s = "s\<lparr>tmlists := ll_remove t (tmlists s)\<rparr>"
    have "due_set ?s \<subseteq> due_set s" using set_ll_remove[OF wf] by (auto simp: due_set_def due_def)
    moreover have "timer_rearm t s = Some ?s" using False by (auto simp: timer_rearm_def has_flag_def Let_def)
    ultimately show ?thesis using that[of ?s] local_removed[OF r] by simp
  next
    case True
    have ty: "rt_object_get_type t s = RT_Object_Class_Timer" "\<forall>u. t \<noteq> TimerOf u" using a True by blast+
    obtain s2 where s2: "timer_rearm t s = rt_timer_start t s2 \<bind> (\<lambda>(_, s). Some s)" "check_ready s2"
      "rt_object_get_type t s2 = RT_Object_Class_Timer" "tick s2 = tick s" "timers s2 = timers s"
      "tmlists s2 = ll_remove t (tmlists s)" "0 < tm_init_tick (timers s2 t)" "tm_init_tick (timers s2 t) < RT_TICK_HALF"
      by (rule rearm_start[OF r _ _ ty]) (use True in blast)+
    obtain s3 where s3: "rt_timer_start t s2 = Some (RT_EOK, s3)" "check_ready s3" "tick s3 = tick s2"
      "due_set s3 \<subseteq> due_set (timer_on t s2)"
      by (rule start_total[OF s2(2,3)]) (use ty(2) in \<open>blast+\<close>)
    have "due_set (timer_on t s2) \<subseteq> due_set s2"
      using due_set_on[OF s2(7,8)] s2(2) by (auto simp: check_ready_def kern_inv_def timer_wf_def)
    moreover have "due_set s2 \<subseteq> due_set s"
      using set_ll_remove[OF wf] s2(4-6) by (auto simp: due_set_def due_def)
    ultimately show ?thesis using that[of s3] s2(1,4) s3 by auto
  qed
qed

lemma check_loop_total:
  assumes cb: "callbacks_ok ucb"
  shows "check_ready s \<Longrightarrow> \<exists>s'. timer_check_loop ucb (tick s) s = Some s' \<and> check_ready s' \<and> tick s' = tick s \<and>
    (\<forall>t ts. tmlists s' TmHard = t # ts \<longrightarrow> \<not> due s' t)"
proof (induction "card (due_set s)" arbitrary: s rule: less_induct)
  case less
  have fin: "finite (due_set s)" for s by (simp add: due_set_def)
  show ?case
  proof (cases "tmlists s TmHard")
    case Nil
    then show ?thesis using less.prems by (subst timer_check_loop.simps) simp
  next
    case (Cons t ts)
    show ?thesis
    proof (cases "due s t")
      case False
      then show ?thesis using less.prems Cons by (subst timer_check_loop.simps) (simp add: due_def)
    next
      case True
      obtain s2 where s2: "run_timeout ucb (tm_func (timers s t)) (timer_expire TmHardLocal t s) = Some s2"
        "check_ready s2" "tick s2 = tick s" "due_set s2 \<subset> due_set s"
        "has_flag RT_TIMER_FLAG_PERIODIC t s2 \<and> has_flag RT_TIMER_FLAG_ACTIVATED t s2 \<longrightarrow>
           rt_object_get_type t s2 = RT_Object_Class_Timer \<and> (\<forall>u. t \<noteq> TimerOf u)"
        by (rule check_round[OF cb less.prems Cons True])
      obtain s3 where s3: "timer_rearm t s2 = Some s3" "check_ready s3" "tick s3 = tick s2" "due_set s3 \<subseteq> due_set s2"
        by (rule rearm_round[OF s2(2,5)])
      define s4 where "s4 = (if tmlists s2 TmHardLocal = [] then s2 else s3)"
      have "timer_check_loop ucb (tick s) s = timer_check_loop ucb (tick s4) s4"
        using Cons True s2(1,3) s3(1,3) by (subst timer_check_loop.simps) (simp add: due_def rt_tick_get_def s4_def)
      moreover have "check_ready s4" "tick s4 = tick s" "due_set s4 \<subset> due_set s"
        using s2 s3 by (auto simp: s4_def)
      ultimately show ?thesis using less.hyps[of s4] psubset_card_mono[OF fin] by metis
    qed
  qed
qed

text \<open>
  C4. \<^verbatim>\<open>rt_timer_check\<close> terminates: if the application's callbacks return and no periodic timer has a
  zero period, the loop returns, in a state that keeps the kernel invariant and in which the first
  timer of the list is not due.
\<close>

theorem timer_check_terminates:
  assumes "callbacks_ok ucb" "check_ready s" "tmlists s TmHardLocal = []"
  shows "\<exists>s'. rt_timer_check ucb s = Some s' \<and> kern_wf s' \<and> tick s' = tick s \<and>
    (case tmlists s' TmHard of [] \<Rightarrow> True | t # _ \<Rightarrow> \<not> tick s' - tm_timeout_tick (timers s' t) < RT_TICK_HALF)"
proof -
  have "(tmlists s)(TmHardLocal := []) = tmlists s" using assms(3) by auto
  then have "rt_timer_check ucb s = timer_check_loop ucb (tick s) s" by (simp add: rt_timer_check_def rt_tick_get_def)
  then show ?thesis using check_loop_total[OF assms(1,2)]
    by (auto simp: check_ready_def due_def split: list.splits)
qed


section \<open>A concrete state with timers\<close>

text \<open>
  \<open>kdemo\<close>: the threads of \<open>demo\<close> at tick 100; the suspended thread 0 waits with a timeout that has just
  expired, and the application's periodic timer at address 20 is five ticks overdue.
\<close>

definition kdemo :: kstate where
  "kdemo = demo\<lparr>tick := 100,
     objs := (\<lambda>a. case a of
        TimerOf t \<Rightarrow> \<lparr>oname = [], otype = 0x8a, oflag = (if t = 0 then 1 else 0)\<rparr>
      | Mem x \<Rightarrow> if x < 10 then \<lparr>oname = [], otype = 0x81, oflag = 0\<rparr>
               else if x = 20 then \<lparr>oname = [], otype = 0x8a, oflag = 3\<rparr> else \<lparr>oname = [], otype = 0, oflag = 0\<rparr>),
     timers := (\<lambda>a. case a of
        TimerOf t \<Rightarrow> \<lparr>tm_func = TF_thread_timeout t, tm_init_tick = 30, tm_timeout_tick = 100\<rparr>
      | Mem x \<Rightarrow> \<lparr>tm_func = TF_user x, tm_init_tick = 10, tm_timeout_tick = 95\<rparr>),
     tmlists := (\<lambda>h. [])(TmHard := [Mem 20, TimerOf 0])\<rparr>"

lemma kdemo_simps [simp]:
  "threads kdemo = threads demo" "klists kdemo = klists demo" "ready_group kdemo = ready_group demo"
  "cur kdemo = Some 2" "tick kdemo = 100" "lock_nest kdemo = 0" "int_nest kdemo = 0"
  "tmlists kdemo = (\<lambda>h. [])(TmHard := [Mem 20, TimerOf 0])" "soft_busy kdemo = False"
  by (simp_all add: kdemo_def demo_def bss_def)

lemma kdemo_tstat: "tstat kdemo t = tstat demo t" "prio kdemo t = prio demo t"
  by (simp_all add: tstat_def prio_def)

lemma kdemo_started: "started kdemo t \<longleftrightarrow> t < 4"
  unfolding started_def kdemo_tstat demo_tstat by auto

lemma kdemo_wf: "kern_wf kdemo"
proof -
  have s: "sched_inv {} kdemo" "cur_ok kdemo"
    using demo_wf sched_inv_cong[of kdemo demo "{}"] cur_ok_cong[of kdemo demo] kdemo_tstat
    by (simp_all add: sched_wf_def)
  have l: "a \<in> set (tmlists kdemo h) \<longleftrightarrow> h = TmHard \<and> (a = Mem 20 \<or> a = TimerOf 0)" for a h by auto
  have w: "ll_wf (tmlists kdemo)" by (auto simp: ll_wf_def)
  have "timer_wf kdemo"
    unfolding timer_wf_def l using w by (auto simp: kdemo_def has_flag_def rt_object_get_type_def)
  moreover have "thread_tm_wf kdemo"
    unfolding thread_tm_wf_def kdemo_started kdemo_tstat demo_tstat
    by (auto simp: kdemo_def has_flag_def split: addr.splits if_splits)
  moreover have "thread_objs kdemo"
    unfolding thread_objs_def kdemo_started by (auto simp: kdemo_def rt_object_get_type_def)
  ultimately show ?thesis using s by (simp add: kern_inv_def)
qed

lemma kdemo_stacks: "stacks_ok kdemo"
  unfolding stacks_ok_def kdemo_started by (auto simp: stack_check_def demo_thread_def)

lemma kdemo_ready: "check_ready kdemo"
proof -
  have "periods_ok kdemo"
    by (auto simp: periods_ok_def kdemo_def has_flag_def rt_object_get_type_def split: addr.splits if_splits)
  then show ?thesis by (simp add: check_ready_def kdemo_wf kdemo_stacks)
qed

theorem timer_check_terminates_witness:
  "\<exists>s'. rt_timer_check (\<lambda>n s. Some s) kdemo = Some s' \<and> kern_wf s' \<and> tick s' = tick kdemo"
proof -
  have "callbacks_ok (\<lambda>n s. Some s)" by (auto simp: callbacks_ok_def)
  moreover have "tmlists kdemo TmHardLocal = []" by simp
  ultimately show ?thesis using timer_check_terminates[OF _ kdemo_ready] by blast
qed

section \<open>Properties of timers\<close>

text \<open>
  C5. Starting a hard timer: it expires \<open>init_tick\<close> ticks from now and is flagged active; the list
  stays in order of expiry across the wrap-around of the tick, and timers that expire at the same tick
  stay in the order in which they were started.
\<close>

theorem timer_start_sorted:
  assumes "kern_wf s" "rt_object_get_type a s = RT_Object_Class_Timer" "\<not> has_flag RT_TIMER_FLAG_SOFT_TIMER a s"
    and "tm_init_tick (timers s a) < RT_TICK_HALF"
    and "\<forall>x\<in>set (tmlists s TmHard). tm_timeout_tick (timers s x) - tick s < RT_TICK_HALF"
    and "sorted (map (\<lambda>x. tm_timeout_tick (timers s x) - tick s) (tmlists s TmHard))"
    and "rt_timer_start a s = Some (r, s')"
  shows "r = RT_EOK \<and> has_flag RT_TIMER_FLAG_ACTIVATED a s' \<and>
    tm_timeout_tick (timers s' a) = tick s + tm_init_tick (timers s a) \<and>
    tmlists s' TmHard =
      filter (\<lambda>x. tm_timeout_tick (timers s x) - tick s \<le> tm_init_tick (timers s a)) (remove1 a (tmlists s TmHard))
      @ a # filter (\<lambda>x. tm_init_tick (timers s a) < tm_timeout_tick (timers s x) - tick s) (remove1 a (tmlists s TmHard)) \<and>
    sorted (map (\<lambda>x. tm_timeout_tick (timers s' x) - tick s') (tmlists s' TmHard))"
proof -
  let ?ts = "remove1 a (tmlists s TmHard)" and ?i = "tm_init_tick (timers s a)"
  let ?k = "\<lambda>x. tm_timeout_tick (timers s x) - tick s" and ?k' = "\<lambda>x. tm_timeout_tick (timers s' x) - tick s'"
  have s': "r = RT_EOK" "s' = timer_on a s" using assms(7) timer_start_hard[OF assms(2,3)] by simp_all
  have na: "a \<notin> set ?ts" using assms(1) by (simp add: kern_inv_def timer_wf_def ll_wf_def)
  have kk: "?k' x = ?k x" if "x \<in> set ?ts" for x using that na by (auto simp: s')
  have sub: "set ?ts \<subseteq> set (tmlists s TmHard)" by (rule set_remove1_subset)
  have cg: "map ?k' ?ts = map ?k ?ts" using kk by (intro map_cong refl)
  have "sorted (map ?k ?ts)" using assms(6) by (rule sorted_map_remove1)
  then have so: "sorted (map ?k' ?ts)" unfolding cg .
  have win: "\<forall>x\<in>set ?ts. ?k' x < RT_TICK_HALF" using assms(5) sub kk by auto
  have "tmlists s' TmHard = timer_walk (timers s') (tick s + ?i) a ?ts"
    unfolding s' timer_on_lists using assms(3) by (simp add: timer_head_def ll_remove_def)
  also have "\<dots> = filter (\<lambda>x. ?k' x \<le> tick s + ?i - tick s) ?ts @ a # filter (\<lambda>x. tick s + ?i - tick s < ?k' x) ?ts"
    using timer_walk_insert[of ?ts "timers s'" "tick s'" "tick s + ?i" a] win so assms(4) by (simp add: s')
  also have "\<dots> = filter (\<lambda>x. ?k x \<le> ?i) ?ts @ a # filter (\<lambda>x. ?i < ?k x) ?ts"
  proof -
    have "filter (\<lambda>x. P (?k' x)) ?ts = filter (\<lambda>x. P (?k x)) ?ts" for P
      by (rule filter_cong[OF refl]) (simp add: kk)
    from this[of "\<lambda>k. k \<le> ?i"] this[of "\<lambda>k. ?i < k"] show ?thesis by simp
  qed
  finally have l: "tmlists s' TmHard = filter (\<lambda>x. ?k x \<le> ?i) ?ts @ a # filter (\<lambda>x. ?i < ?k x) ?ts" .
  have ka: "?k' a = ?i" by (simp add: s')
  have "sorted (map ?k' (filter P ?ts))" for P using so by (rule sorted_filter)
  then have "sorted (map ?k' (tmlists s' TmHard))"
    unfolding l map_append list.map sorted_append sorted_wrt.simps(2) ka by (auto simp: kk)
  then show ?thesis using s' l by simp
qed

theorem timer_start_sorted_witness:
  "\<exists>s'. rt_timer_start (Mem 20) (kdemo\<lparr>tick := 95\<rparr>) = Some (0, s') \<and> tmlists s' TmHard = [TimerOf 0, Mem 20]"
proof -
  let ?s = "kdemo\<lparr>tick := 95\<rparr>"
  have k: "kern_wf ?s" using kdemo_wf kern_inv_cong[of ?s kdemo "{}"] by (simp add: tstat_def prio_def)
  have ty: "rt_object_get_type (Mem 20) ?s = RT_Object_Class_Timer" "\<not> has_flag RT_TIMER_FLAG_SOFT_TIMER (Mem 20) ?s"
    by (simp_all add: kdemo_def rt_object_get_type_def has_flag_def)
  obtain s' where s': "rt_timer_start (Mem 20) ?s = Some (0, s')" using timer_start_hard[OF ty] by simp
  show ?thesis using timer_start_sorted[OF k ty _ _ _ s'] s' by (simp add: kdemo_def)
qed

text \<open>
  C37. When the timeout of a suspended thread fires, the assertions of \<^verbatim>\<open>_thread_timeout\<close> hold, and
  afterwards the thread is ready (or running already), its error is \<open>-RT_ETIMEOUT\<close>, it is on no wait
  list, and the kernel invariant holds.
\<close>

theorem timeout_wakes_thread:
  assumes "kern_wf s" "tstat s t = RT_THREAD_SUSPEND" "\<not> has_flag RT_TIMER_FLAG_ACTIVATED (TimerOf t) s"
    and "cur s \<noteq> None" "stacks_ok s"
  shows "\<exists>s'. do_thread_timeout t s = Some s' \<and> kern_wf s' \<and> th_error (threads s' t) = - RT_ETIMEOUT \<and>
    tstat s' t \<in> {RT_THREAD_READY, RT_THREAD_RUNNING} \<and> (\<forall>x. t \<notin> set (klists s' (Susp x)) \<and> t \<notin> set (klists s' (SuspSender x)))"
proof -
  obtain s' where s': "do_thread_timeout t s = Some s'" "kern_wf s'" "th_error (threads s' t) = - RT_ETIMEOUT"
    "tstat s' t \<in> {RT_THREAD_READY, RT_THREAD_RUNNING}"
    using thread_timeout[OF assms(1,2,4,5,3)] by metis
  have "t \<notin> set (klists s' h)" if "wait_head h" for h
  proof
    assume "t \<in> set (klists s' h)"
    then have "tstat s' t = RT_THREAD_SUSPEND" using s'(2) that unfolding kern_inv_def sched_inv_def by blast
    then show False using s'(4) by simp
  qed
  then show ?thesis using s' by (auto simp: wait_head_def)
qed

theorem timeout_wakes_thread_witness:
  "\<exists>s'. do_thread_timeout 0 (timer_off (TimerOf 0) kdemo) = Some s' \<and> th_error (threads s' 0) = - 2"
proof -
  have "tstat (timer_off (TimerOf 0) kdemo) 0 = RT_THREAD_SUSPEND" by (simp add: kdemo_tstat demo_tstat)
  moreover have "stacks_ok (timer_off (TimerOf 0) kdemo)" using kdemo_stacks by (simp add: stacks_ok_def)
  ultimately show ?thesis
    using timeout_wakes_thread[OF timer_off_inv[OF kdemo_wf], of "TimerOf 0" 0] by auto
qed

text \<open>
  \<^verbatim>\<open>rt_timer_control\<close> reads back what it sets: after \<open>SET_TIME\<close> with a legal time, \<open>GET_TIME\<close>
  answers it, and times of half the tick range or more are refused by the assertion. The state query
  \<open>GET_STATE\<close>, for lack of a \<^verbatim>\<open>break\<close>, answers the expiry tick, never the state.
\<close>

theorem timer_control_roundtrip:
  assumes "rt_object_get_type a s = RT_Object_Class_Timer"
  shows "rt_timer_control a RT_TIMER_CTRL_SET_TIME time s \<bind> (\<lambda>(r, _, s). rt_timer_control a RT_TIMER_CTRL_GET_TIME w s)
      = (if time < RT_TICK_HALF
         then Some (RT_EOK, time, s\<lparr>timers := (timers s)(a := (timers s a)\<lparr>tm_init_tick := time\<rparr>)\<rparr>) else None) \<and>
    rt_timer_control a RT_TIMER_CTRL_GET_STATE w s = Some (RT_EOK, tm_timeout_tick (timers s a), s)"
  using assms by (simp add: rt_timer_control_def upd_timer_def rt_object_get_type_def)

theorem timer_control_roundtrip_witness:
  "rt_timer_control (Mem 20) RT_TIMER_CTRL_GET_STATE 0 kdemo = Some (RT_EOK, 95, kdemo)"
  by (subst timer_control_roundtrip[THEN conjunct2]) (simp_all add: kdemo_def rt_object_get_type_def)

end
