(* ===== verification/Thread.thy ===== *)
theory Thread
  imports Timer
begin

text \<open>
  \<^verbatim>\<open>src/thread.c\<close>: the life of a thread (creation, startup, closing), sleeping, yielding and priority
  changes; with \<^verbatim>\<open>rt_hw_stack_init\<close> of the Cortex-M4 port, the defunct list of \<^verbatim>\<open>src/idle.c\<close>, the
  conversion of \<^verbatim>\<open>src/clock.c\<close> from milliseconds, and the body of the timer thread.

  A call that puts its caller to sleep ends in \<^verbatim>\<open>rt_schedule\<close>: the definition runs up to there and
  answers \<open>Blocked\<close>; the code behind it is a definition with the suffix \<open>_resume\<close>, which runs when the
  thread is current again.
\<close>

section \<open>The initial stack frame\<close>

text \<open>
  \<^verbatim>\<open>struct stack_frame\<close> with the FPU: the flag word, r4 to r11, then the exception frame. The result
  is the stack pointer and the words stored from there upwards.
\<close>

definition rt_hw_stack_init :: "u32 \<Rightarrow> u32 \<Rightarrow> u32 \<Rightarrow> u32 \<Rightarrow> u32 \<times> u32 list" where
  "rt_hw_stack_init tentry param stack_addr texit =
    (let stk = stack_addr + 4;
         stk = RT_ALIGN_DOWN stk 8;
         stk = stk - 68;
         frame = replicate 17 0xdeadbeef;
         frame = frame[9 := param, 10 := 0, 11 := 0, 12 := 0, 13 := 0, 14 := texit, 15 := tentry, 16 := 0x01000000];
         frame = frame[0 := 0]
     in (stk, frame))"

section \<open>Creation\<close>

text \<open>The address of \<^verbatim>\<open>_thread_exit\<close>.\<close>

definition thread_exit_addr :: u32 where
  "thread_exit_addr = 0x0800e001"

text \<open>
  The guard byte is the first byte of the stack: it is \<^verbatim>\<open>'#'\<close> unless the frame reaches down to it; a
  frame below the stack is written out of bounds.
\<close>

definition do_thread_init ::
    "tid \<Rightarrow> nat \<Rightarrow> nat \<Rightarrow> u32 \<Rightarrow> u32 \<Rightarrow> u8 \<Rightarrow> u32 \<Rightarrow> kstate \<Rightarrow> (int \<times> kstate) option" where
  "do_thread_init t entry param stack_start stack_size priority ticks s = do {
     let (sp, frame) = rt_hw_stack_init (of_nat entry) (of_nat param) (stack_start + stack_size - 4) thread_exit_addr;
     _ \<leftarrow> kassert (stack_start \<le> sp);
     let s = upd_thread t (\<lambda>th. th\<lparr>th_entry := entry, th_parameter := param, th_stack_addr := stack_start,
               th_stack_size := stack_size, th_guard := (if sp = stack_start then 0 else 0x23), th_sp := sp\<rparr>) s;
     _ \<leftarrow> kassert (unat priority < RT_THREAD_PRIORITY_MAX);
     let s = upd_thread t (\<lambda>th. th\<lparr>th_prio := priority, th_number_mask := 0, th_event_set := 0, th_event_info := 0,
               th_init_tick := ticks, th_remaining_tick := ticks, th_error := RT_EOK, th_stat := RT_THREAD_INIT,
               th_cleanup := None, th_user_data := 0\<rparr>) s;
     s \<leftarrow> rt_timer_init (TimerOf t) (oname (objs s (Mem t))) (TF_thread_timeout t) 0 RT_TIMER_FLAG_ONE_SHOT s;
     Some (RT_EOK, s)
   }"

definition rt_thread_init ::
    "tid \<Rightarrow> u8 list \<Rightarrow> nat \<Rightarrow> nat \<Rightarrow> u32 \<Rightarrow> u32 \<Rightarrow> u8 \<Rightarrow> u32 \<Rightarrow> kstate \<Rightarrow> (int \<times> kstate) option" where
  "rt_thread_init t nm entry param stack_start stack_size priority ticks s = do {
     _ \<leftarrow> kassert (stack_start \<noteq> 0);
     s \<leftarrow> rt_object_init (Mem t) RT_Object_Class_Thread nm s;
     do_thread_init t entry param stack_start stack_size priority ticks s
   }"

text \<open>The two memory blocks, the thread structure and the stack, are the allocator's answers.\<close>

definition rt_thread_create ::
    "nat option \<Rightarrow> u32 option \<Rightarrow> u8 list \<Rightarrow> nat \<Rightarrow> nat \<Rightarrow> u32 \<Rightarrow> u8 \<Rightarrow> u32 \<Rightarrow> kstate \<Rightarrow> (tid option \<times> kstate) option" where
  "rt_thread_create block stack nm entry param stack_size priority ticks s = do {
     (r, s) \<leftarrow> rt_object_allocate block RT_Object_Class_Thread nm s;
     case r of
       None \<Rightarrow> Some (None, s)
     | Some t \<Rightarrow> (case stack of
           None \<Rightarrow> do { s \<leftarrow> rt_object_delete (Mem t) s; Some (None, s) }
         | Some stack_start \<Rightarrow> do {
             (_, s) \<leftarrow> do_thread_init t entry param stack_start stack_size priority ticks s;
             Some (Some t, s)
           })
   }"

definition rt_thread_self :: "kstate \<Rightarrow> tid option" where
  "rt_thread_self s = cur s"

definition rt_thread_startup :: "tid \<Rightarrow> kstate \<Rightarrow> (int \<times> kstate) option" where
  "rt_thread_startup t s = do {
     _ \<leftarrow> kassert (tstat s t = RT_THREAD_INIT);
     _ \<leftarrow> kassert (rt_object_get_type (Mem t) s = RT_Object_Class_Thread);
     let s = upd_thread t (\<lambda>th. th\<lparr>th_number_mask := push_bit (unat (th_prio th)) 1\<rparr>) s;
     let s = upd_thread t (\<lambda>th. th\<lparr>th_stat := RT_THREAD_SUSPEND\<rparr>) s;
     (_, s) \<leftarrow> rt_thread_resume t s;
     if rt_thread_self s \<noteq> None then do {
       s \<leftarrow> rt_schedule s;
       Some (RT_EOK, s)
     } else Some (RT_EOK, s)
   }"

section \<open>Closing\<close>

definition rt_thread_defunct_enqueue :: "tid \<Rightarrow> kstate \<Rightarrow> kstate" where
  "rt_thread_defunct_enqueue t s = s\<lparr>klists := ll_insert_after Defunct t (klists s)\<rparr>"

definition rt_thread_defunct_dequeue :: "kstate \<Rightarrow> tid option \<times> kstate" where
  "rt_thread_defunct_dequeue s =
    (case klists s Defunct of
       [] \<Rightarrow> (None, s)
     | t # _ \<Rightarrow> (Some t, s\<lparr>klists := ll_remove t (klists s)\<rparr>))"

text \<open>What \<^verbatim>\<open>_thread_exit\<close>, \<^verbatim>\<open>rt_thread_detach\<close> and \<^verbatim>\<open>rt_thread_delete\<close> share.\<close>

definition thread_close :: "tid \<Rightarrow> kstate \<Rightarrow> kstate option" where
  "thread_close t s = do {
     (_, s) \<leftarrow> rt_timer_detach (TimerOf t) s;
     let s = upd_thread t (\<lambda>th. th\<lparr>th_stat := RT_THREAD_CLOSE\<rparr>) s;
     Some (rt_thread_defunct_enqueue t s)
   }"

definition do_thread_exit :: "kstate \<Rightarrow> kstate option" where
  "do_thread_exit s = do {
     t \<leftarrow> rt_thread_self s;
     s \<leftarrow> rt_schedule_remove_thread t s;
     s \<leftarrow> thread_close t s;
     rt_schedule s
   }"

definition rt_thread_detach :: "tid \<Rightarrow> kstate \<Rightarrow> (int \<times> kstate) option" where
  "rt_thread_detach t s = do {
     _ \<leftarrow> kassert (rt_object_get_type (Mem t) s = RT_Object_Class_Thread);
     _ \<leftarrow> kassert (rt_object_is_systemobject (Mem t) s);
     if tstat s t = RT_THREAD_CLOSE then Some (RT_EOK, s)
     else do {
       s \<leftarrow> (if tstat s t \<noteq> RT_THREAD_INIT then rt_schedule_remove_thread t s else Some s);
       s \<leftarrow> thread_close t s;
       Some (RT_EOK, s)
     }
   }"

definition rt_thread_delete :: "tid \<Rightarrow> kstate \<Rightarrow> (int \<times> kstate) option" where
  "rt_thread_delete t s = do {
     _ \<leftarrow> kassert (rt_object_get_type (Mem t) s = RT_Object_Class_Thread);
     _ \<leftarrow> kassert (\<not> rt_object_is_systemobject (Mem t) s);
     if tstat s t = RT_THREAD_CLOSE then Some (RT_EOK, s)
     else do {
       s \<leftarrow> (if tstat s t \<noteq> RT_THREAD_INIT then rt_schedule_remove_thread t s else Some s);
       s \<leftarrow> thread_close t s;
       Some (RT_EOK, s)
     }
   }"

text \<open>
  The idle thread's clean-up loop. \<open>ccb\<close> stands for the clean-up functions of the application; the
  freeing of the stack and of the structure is the allocator's business.
\<close>

partial_function (option) rt_defunct_execute :: "(nat \<Rightarrow> tid \<Rightarrow> kstate \<Rightarrow> kstate option) \<Rightarrow> kstate \<Rightarrow> kstate option" where
  "rt_defunct_execute ccb s =
    (case rt_thread_defunct_dequeue s of
       (None, s) \<Rightarrow> Some s
     | (Some t, s) \<Rightarrow>
         (case th_cleanup (threads s t) of None \<Rightarrow> Some s | Some f \<Rightarrow> ccb f t s) \<bind> (\<lambda>s.
         (if rt_object_is_systemobject (Mem t) s then Some (rt_object_detach (Mem t) s)
          else rt_object_delete (Mem t) s) \<bind> rt_defunct_execute ccb))"

section \<open>Giving up the processor\<close>

definition rt_thread_yield :: "kstate \<Rightarrow> (int \<times> kstate) option" where
  "rt_thread_yield s = do {
     t \<leftarrow> rt_thread_self s;
     let s = upd_thread t (\<lambda>th. th\<lparr>th_remaining_tick := th_init_tick th,
                                   th_stat := th_stat th OR RT_THREAD_STAT_YIELD\<rparr>) s;
     s \<leftarrow> rt_schedule s;
     Some (RT_EOK, s)
   }"

text \<open>Arming the thread's own timer, as every timed wait of the kernel does.\<close>

definition thread_timer_arm :: "tid \<Rightarrow> u32 \<Rightarrow> kstate \<Rightarrow> kstate option" where
  "thread_timer_arm t time s = do {
     (_, _, s) \<leftarrow> rt_timer_control (TimerOf t) RT_TIMER_CTRL_SET_TIME time s;
     (_, s) \<leftarrow> rt_timer_start (TimerOf t) s;
     Some s
   }"

definition rt_thread_sleep :: "u32 \<Rightarrow> kstate \<Rightarrow> ((int, unit) outcome \<times> kstate) option" where
  "rt_thread_sleep ticks s = do {
     t \<leftarrow> rt_thread_self s;
     _ \<leftarrow> kassert (rt_object_get_type (Mem t) s = RT_Object_Class_Thread);
     let s = upd_thread t (\<lambda>th. th\<lparr>th_error := RT_EOK\<rparr>) s;
     (_, s) \<leftarrow> rt_thread_suspend t s;
     s \<leftarrow> thread_timer_arm t ticks s;
     s \<leftarrow> rt_schedule s;
     Some (Blocked (), s)
   }"

definition rt_thread_sleep_resume :: "tid \<Rightarrow> kstate \<Rightarrow> int \<times> kstate" where
  "rt_thread_sleep_resume t s =
    (let s = (if th_error (threads s t) = - RT_ETIMEOUT
              then upd_thread t (\<lambda>th. th\<lparr>th_error := RT_EOK\<rparr>) s else s)
     in (th_error (threads s t), s))"

definition rt_thread_delay :: "u32 \<Rightarrow> kstate \<Rightarrow> ((int, unit) outcome \<times> kstate) option" where
  "rt_thread_delay ticks s = rt_thread_sleep ticks s"

text \<open>The second component of the result is the new value of \<^verbatim>\<open>*tick\<close>.\<close>

definition rt_thread_delay_until :: "u32 \<Rightarrow> u32 \<Rightarrow> kstate \<Rightarrow> ((int, unit) outcome \<times> u32 \<times> kstate) option" where
  "rt_thread_delay_until last_tick inc_tick s = do {
     t \<leftarrow> rt_thread_self s;
     _ \<leftarrow> kassert (rt_object_get_type (Mem t) s = RT_Object_Class_Thread);
     let s = upd_thread t (\<lambda>th. th\<lparr>th_error := RT_EOK\<rparr>) s;
     let cur_tick = rt_tick_get s;
     if cur_tick - last_tick < inc_tick then do {
       let last_tick = last_tick + inc_tick;
       let left_tick = last_tick - cur_tick;
       (_, s) \<leftarrow> rt_thread_suspend t s;
       s \<leftarrow> thread_timer_arm t left_tick s;
       s \<leftarrow> rt_schedule s;
       Some (Blocked (), last_tick, s)
     } else Some (Done (th_error (threads s t)), cur_tick, s)
   }"

definition rt_thread_delay_until_resume :: "tid \<Rightarrow> kstate \<Rightarrow> int \<times> kstate" where
  "rt_thread_delay_until_resume t s =
    (let s = (if th_error (threads s t) = - RT_ETIMEOUT
              then upd_thread t (\<lambda>th. th\<lparr>th_error := RT_EOK\<rparr>) s else s)
     in (th_error (threads s t), s))"

text \<open>From \<^verbatim>\<open>clock.c\<close>; \<^verbatim>\<open>RT_TICK_PER_SECOND\<close> is 1000, the division of C rounds towards zero.\<close>

definition rt_tick_from_millisecond :: "int \<Rightarrow> u32" where
  "rt_tick_from_millisecond ms =
    (if ms < 0 then of_int (- 1)
     else of_int (1000 * (ms div 1000)) + of_int ((1000 * (ms mod 1000) + 999) div 1000))"

definition rt_thread_mdelay :: "int \<Rightarrow> kstate \<Rightarrow> ((int, unit) outcome \<times> kstate) option" where
  "rt_thread_mdelay ms s = rt_thread_sleep (rt_tick_from_millisecond ms) s"

section \<open>Control\<close>

abbreviation (input) RT_THREAD_CTRL_STARTUP :: int where "RT_THREAD_CTRL_STARTUP \<equiv> 0"
abbreviation (input) RT_THREAD_CTRL_CLOSE :: int where "RT_THREAD_CTRL_CLOSE \<equiv> 1"
abbreviation (input) RT_THREAD_CTRL_CHANGE_PRIORITY :: int where "RT_THREAD_CTRL_CHANGE_PRIORITY \<equiv> 2"

text \<open>A priority of 32 or more makes the shift of the mask undefined.\<close>

definition change_priority :: "u8 \<Rightarrow> rt_thread \<Rightarrow> rt_thread" where
  "change_priority p th = th\<lparr>th_prio := p, th_number_mask := push_bit (unat p) 1\<rparr>"

definition rt_thread_control :: "tid \<Rightarrow> int \<Rightarrow> u8 \<Rightarrow> kstate \<Rightarrow> (int \<times> kstate) option" where
  "rt_thread_control t cmd arg s = do {
     _ \<leftarrow> kassert (rt_object_get_type (Mem t) s = RT_Object_Class_Thread);
     if cmd = RT_THREAD_CTRL_CHANGE_PRIORITY then
       (if tstat s t = RT_THREAD_READY then do {
          s \<leftarrow> rt_schedule_remove_thread t s;
          _ \<leftarrow> kassert (unat arg < 32);
          let s = upd_thread t (change_priority arg) s;
          s \<leftarrow> rt_schedule_insert_thread t s;
          Some (RT_EOK, s)
        } else do {
          _ \<leftarrow> kassert (unat arg < 32);
          Some (RT_EOK, upd_thread t (change_priority arg) s)
        })
     else if cmd = RT_THREAD_CTRL_STARTUP then rt_thread_startup t s
     else if cmd = RT_THREAD_CTRL_CLOSE then do {
       (rt_err, s) \<leftarrow> (if rt_object_is_systemobject (Mem t) s then rt_thread_detach t s else rt_thread_delete t s);
       s \<leftarrow> rt_schedule s;
       Some (rt_err, s)
     }
     else Some (RT_EOK, s)
   }"

definition rt_thread_find :: "u8 list \<Rightarrow> kstate \<Rightarrow> (addr option \<times> kstate) option" where
  "rt_thread_find nm s = rt_object_find nm RT_Object_Class_Thread s"

section \<open>The timer thread\<close>

text \<open>One turn of the loop of \<^verbatim>\<open>_timer_thread_entry\<close>, up to the point where it waits.\<close>

definition do_timer_thread_wait :: "kstate \<Rightarrow> ((unit, unit) outcome \<times> kstate) option" where
  "do_timer_thread_wait s =
    (case do_timer_list_next_timeout TmSoft s of
       None \<Rightarrow> do {
         t \<leftarrow> rt_thread_self s;
         (_, s) \<leftarrow> rt_thread_suspend t s;
         s \<leftarrow> rt_schedule s;
         Some (Blocked (), s)
       }
     | Some next_timeout \<Rightarrow>
         let current_tick = rt_tick_get s in
         if next_timeout - current_tick < RT_TICK_HALF then do {
           (_, s) \<leftarrow> rt_thread_delay (next_timeout - current_tick) s;
           Some (Blocked (), s)
         } else Some (Done (), s))"

text \<open>The rest of the turn; a wait that was a delay first ends as \<^verbatim>\<open>rt_thread_sleep\<close> does.\<close>

definition do_timer_thread_rest :: "callbacks \<Rightarrow> bool \<Rightarrow> tid \<Rightarrow> kstate \<Rightarrow> kstate option" where
  "do_timer_thread_rest ucb delayed t s =
    rt_soft_timer_check ucb (if delayed then snd (rt_thread_sleep_resume t s) else s)"

definition rt_system_timer_thread_init :: "u32 \<Rightarrow> nat \<Rightarrow> kstate \<Rightarrow> kstate option" where
  "rt_system_timer_thread_init stack entry s = do {
     let s = s\<lparr>tmlists := (tmlists s)(TmSoft := [])\<rparr>;
     (_, s) \<leftarrow> rt_thread_init timer_thread [116, 105, 109, 101, 114] entry 0 stack 512 4 10 s;
     (_, s) \<leftarrow> rt_thread_startup timer_thread s;
     Some s
   }"


section \<open>Arming a thread's timer\<close>

lemma kern_inv_init_tick: "kern_inv X (upd_timer a (\<lambda>tm. tm\<lparr>tm_init_tick := g tm\<rparr>) s) = kern_inv X s"
proof -
  let ?s = "upd_timer a (\<lambda>tm. tm\<lparr>tm_init_tick := g tm\<rparr>) s"
  have e: "klists ?s = klists s" "ready_group ?s = ready_group s" "cur ?s = cur s" "threads ?s = threads s"
    "tmlists ?s = tmlists s" "objs ?s = objs s" "\<And>b. tm_func (timers ?s b) = tm_func (timers s b)"
    by (simp_all add: upd_timer_def)
  note st = threads_same[OF e(4)]
  have "sched_inv X ?s = sched_inv X s" "cur_ok ?s = cur_ok s"
    using sched_inv_cong[of ?s s X] cur_ok_cong[of ?s s] e st by simp_all
  moreover have "timer_wf ?s = timer_wf s" "thread_tm_wf ?s = thread_tm_wf s" "thread_objs ?s = thread_objs s"
    unfolding timer_wf_def thread_tm_wf_def thread_objs_def has_flag_def rt_object_get_type_def started_def e st
    by (rule refl)+
  ultimately show ?thesis by (simp add: kern_inv_def)
qed

lemma arm_timer:
  assumes k: "kern_wf s" and t: "tstat s t = RT_THREAD_SUSPEND" and time: "time < RT_TICK_HALF"
  obtains s' where "thread_timer_arm t time s = Some s'" "kern_wf s'" "threads s' = threads s"
    "klists s' = klists s" "cur s' = cur s" "no_kern s' = no_kern s"
    "has_flag RT_TIMER_FLAG_ACTIVATED (TimerOf t) s'" "tm_timeout_tick (timers s' (TimerOf t)) = tick s + time"
proof -
  have st: "started s t" using t by (simp add: started_def)
  define s1 where "s1 = upd_timer (TimerOf t) (\<lambda>tm. tm\<lparr>tm_init_tick := time\<rparr>) s"
  have k1: "kern_wf s1" using k by (simp add: s1_def kern_inv_init_tick)
  have t1: "tstat s1 t = RT_THREAD_SUSPEND" using t by (simp add: s1_def tstat_def upd_timer_def)
  note r = start_thread_timer[OF k1 t1]
  have "thread_timer_arm t time s = Some (timer_on (TimerOf t) s1)"
    using kern_started(3)[OF k st] time r(1) by (simp add: thread_timer_arm_def rt_timer_control_def s1_def)
  moreover have "no_kern (timer_on (TimerOf t) s1) = no_kern s"
    using kern_started(3)[OF k st] by (simp add: s1_def)
  moreover have "threads s1 = threads s" "klists s1 = klists s" "cur s1 = cur s" "tick s1 = tick s"
    "tm_init_tick (timers s1 (TimerOf t)) = time"
    by (simp_all add: s1_def upd_timer_def)
  ultimately show ?thesis using that[of "timer_on (TimerOf t) s1"] r(2) by simp
qed

lemma arm_refused: "\<not> time < RT_TICK_HALF \<Longrightarrow> thread_timer_arm t time s = None"
  by (simp add: thread_timer_arm_def rt_timer_control_def)

section \<open>Sleeping\<close>

text \<open>
  The end of every blocking call: the caller is suspended and the scheduler picks another thread.
\<close>

lemma schedule_away:
  assumes k: "kern_wf s" and c: "cur s = Some t" and t: "tstat s t = RT_THREAD_SUSPEND"
    and ok: "stacks_ok s" and free: "lock_nest s = 0" and some: "ready_group s \<noteq> 0"
  obtains s' u where "rt_schedule s = Some s'" "kern_wf s'" "stacks_ok s'" "cur s' = Some u" "u \<noteq> t"
    "tstat s' t = RT_THREAD_SUSPEND" "no_sched s' = no_sched s"
    "\<And>h. (\<And>p. h \<noteq> Ready p) \<Longrightarrow> klists s' h = klists s h"
proof -
  have "cur s \<noteq> None" using c by simp
  then obtain s' where s': "rt_schedule s = Some s'" "kern_wf s'" "stacks_ok s'" "tstat s' t = RT_THREAD_SUSPEND"
    using schedule_kern_ex[OF k _ ok] t by blast
  have wf: "sched_wf s" by (rule kern_wf_sched[OF k])
  then have inv: "sched_inv {} s" by (simp add: sched_wf_def)
  obtain hi hp where h: "scheduler_get_highest s = Some (hi, hp)"
    using some get_highest_spec(1)[OF inv] by (metis old.prod.exhaust option.exhaust)
  have hi: "tstat s hi = RT_THREAD_READY" using get_highest_spec(2)[OF inv h] by blast
  have nk: "\<not> keeps s t hp" using t by (simp add: keeps_def)
  then have "cur s' = Some hi" using rt_schedule_active(1)[OF wf free c h s'(1)] by (simp add: next_thread_def)
  moreover have "hi \<noteq> t" using hi t by auto
  moreover have "klists s' h = klists s h" if "\<And>p. h \<noteq> Ready p" for h
  proof -
    have "hi \<notin> set (klists s h)"
    proof
      assume "hi \<in> set (klists s h)"
      then have "h = Ready (prio s hi)"
        using inv hi unfolding sched_inv_def ll_wf_def by (metis empty_iff)
      then show False using that by blast
    qed
    then show ?thesis
      using rt_schedule_queues[OF wf free c h s'(1)] nk t by (simp add: ll_remove_def remove1_idem)
  qed
  ultimately show ?thesis using that s' no_sched_schedule[OF s'(1)] by blast
qed

text \<open>
  \<^verbatim>\<open>rt_thread_sleep\<close> by the running thread suspends it, arms its timer for \<open>now + ticks\<close> and
  hands the processor to another thread; the kernel invariant is kept. When the timeout later fires,
  the resumed call answers \<open>RT_EOK\<close>. A sleep of half the tick range or more stops in an assertion.
\<close>

theorem sleep_suspends:
  assumes "kern_wf s" "stacks_ok s" "lock_nest s = 0" "ready_group s \<noteq> 0"
    and "cur s = Some t" "tstat s t = RT_THREAD_RUNNING"
  shows "(ticks < RT_TICK_HALF \<longrightarrow> (\<exists>s'. rt_thread_sleep ticks s = Some (Blocked (), s') \<and> kern_wf s' \<and>
      tstat s' t = RT_THREAD_SUSPEND \<and> cur s' \<noteq> Some t \<and> has_flag RT_TIMER_FLAG_ACTIVATED (TimerOf t) s' \<and>
      tm_timeout_tick (timers s' (TimerOf t)) = tick s + ticks)) \<and>
    (\<not> ticks < RT_TICK_HALF \<longrightarrow> rt_thread_sleep ticks s = None) \<and>
    (th_error (threads s2 t) = - RT_ETIMEOUT \<longrightarrow> fst (rt_thread_sleep_resume t s2) = RT_EOK)"
proof -
  let ?s0 = "upd_thread t (\<lambda>th. th\<lparr>th_error := RT_EOK\<rparr>) s"
  have ty: "rt_object_get_type (Mem t) s = RT_Object_Class_Thread"
    using kern_started(2)[OF assms(1)] assms(6) by (simp add: started_def)
  have k0: "kern_wf ?s0" using assms(1) by (simp add: kern_inv_error)
  have r0: "tstat ?s0 t = RT_THREAD_RUNNING" using assms(6) by simp
  obtain s1 where s1: "rt_thread_suspend t ?s0 = Some (RT_EOK, s1)" "kern_wf s1" "cur s1 = Some t"
    "\<And>u. tstat s1 u = (if u = t then RT_THREAD_SUSPEND else tstat ?s0 u)" "klists s1 = klists ?s0"
    using suspend_thread[OF k0 r0] by metis
  note n1 = no_kern_suspend[OF s1(1)]
  have t1: "tstat s1 t = RT_THREAD_SUSPEND" using s1(4) by simp
  have lock: "lock_nest s1 = 0" using no_kern_fields(1)[OF n1] assms(3) by (simp add: upd_thread_def)
  have ok1: "stacks_ok s1"
  proof -
    have "stacks_ok ?s0" using assms(2)
      by (auto simp: stacks_ok_def started_def stack_check_def upd_thread_def tstat_def split: if_splits)
    moreover have "started s1 u \<Longrightarrow> started ?s0 u" for u using s1(4)[of u] r0 by (auto simp: started_def split: if_splits)
    ultimately show ?thesis using stacks_ok_cong[OF n1] by blast
  qed
  have sleep: "rt_thread_sleep ticks s = thread_timer_arm t ticks s1 \<bind> (\<lambda>s. rt_schedule s \<bind> (\<lambda>s. Some (Blocked (), s)))"
    using assms(5) ty s1(1) by (simp add: rt_thread_sleep_def rt_thread_self_def)
  have "\<exists>s'. rt_thread_sleep ticks s = Some (Blocked (), s') \<and> kern_wf s' \<and>
      tstat s' t = RT_THREAD_SUSPEND \<and> cur s' \<noteq> Some t \<and> has_flag RT_TIMER_FLAG_ACTIVATED (TimerOf t) s' \<and>
      tm_timeout_tick (timers s' (TimerOf t)) = tick s + ticks" if lt: "ticks < RT_TICK_HALF"
  proof -
    obtain s2 where s2: "thread_timer_arm t ticks s1 = Some s2" "kern_wf s2" "threads s2 = threads s1"
      "klists s2 = klists s1" "cur s2 = cur s1" "no_kern s2 = no_kern s1"
      "has_flag RT_TIMER_FLAG_ACTIVATED (TimerOf t) s2" "tm_timeout_tick (timers s2 (TimerOf t)) = tick s1 + ticks"
      by (rule arm_timer[OF s1(2) t1 lt])
    have t2: "tstat s2 t = RT_THREAD_SUSPEND" using t1 threads_same(1)[OF s2(3)] by simp
    have ok2: "stacks_ok s2" using ok1 s2(3) by (simp add: stacks_ok_def started_def tstat_def)
    have g2: "ready_group s2 \<noteq> 0"
    proof -
      have "\<exists>p. bit (ready_group s) p" using assms(4) by (simp add: word_eq_0_bit)
      then obtain p where "klists s (Ready p) \<noteq> []" using assms(1) by (auto simp: kern_inv_def sched_inv_def)
      then have "klists s2 (Ready p) \<noteq> []" using s2(4) s1(5) by (simp add: upd_thread_def)
      then have "bit (ready_group s2) p" using s2(2) by (simp add: kern_inv_def sched_inv_def)
      then show ?thesis by auto
    qed
    have l2: "lock_nest s2 = 0" using lock no_kern_fields(1)[OF s2(6)] by simp
    have c2: "cur s2 = Some t" using s1(3) s2(5) by simp
    obtain s3 u where s3: "rt_schedule s2 = Some s3" "kern_wf s3" "cur s3 = Some u" "u \<noteq> t"
      "tstat s3 t = RT_THREAD_SUSPEND" "no_sched s3 = no_sched s2"
      using schedule_away[OF s2(2) c2 t2 ok2 l2 g2] by metis
    note f3 = no_sched_fields[OF s3(6)]
    have "tick s1 = tick s" using no_kern_fields(3)[OF n1] by (simp add: upd_thread_def)
    then show ?thesis using sleep s2(1,7,8) s3 f3 by (simp add: has_flag_def)
  qed
  moreover have "rt_thread_sleep ticks s = None" if "\<not> ticks < RT_TICK_HALF"
    using sleep arm_refused[OF that] by simp
  ultimately show ?thesis by (simp add: rt_thread_sleep_resume_def upd_thread_def)
qed

theorem sleep_suspends_witness:
  "\<exists>s'. rt_thread_sleep 5 kdemo = Some (Blocked (), s') \<and> tstat s' 2 = RT_THREAD_SUSPEND \<and>
    tm_timeout_tick (timers s' (TimerOf 2)) = 105"
proof -
  have "tstat kdemo 2 = RT_THREAD_RUNNING" by (simp add: kdemo_tstat demo_tstat)
  from sleep_suspends[OF kdemo_wf kdemo_stacks _ _ _ this, THEN conjunct1, of 5] show ?thesis by auto
qed


section \<open>Yielding\<close>

lemma kern_inv_yield:
  "kern_inv X (upd_thread t (\<lambda>th. th\<lparr>th_remaining_tick := f th, th_stat := th_stat th OR 8\<rparr>) s) = kern_inv X s"
  by (rule kern_inv_cong) (simp_all add: upd_thread_def tstat_def prio_def)

text \<open>
  Round robin: when the running thread yields and a thread of the same priority is ready, with no
  better one, then the first thread of that queue runs next, the yielding thread goes to the end of the
  queue, and its time slice is filled up again.
\<close>

theorem yield_round_robin:
  assumes "sched_wf s" "lock_nest s = 0" "cur s = Some c" "tstat s c = RT_THREAD_RUNNING"
    and "klists s (Ready (prio s c)) = u # us" "\<forall>p < prio s c. klists s (Ready p) = []"
    and "rt_thread_yield s = Some (r, s')"
  shows "r = RT_EOK \<and> cur s' = Some u \<and> tstat s' u = RT_THREAD_RUNNING \<and> tstat s' c = RT_THREAD_READY \<and>
    klists s' (Ready (prio s c)) = us @ [c] \<and>
    th_remaining_tick (threads s' c) = th_init_tick (threads s c)"
proof -
  define s1 where "s1 = upd_thread c (\<lambda>th. th\<lparr>th_remaining_tick := th_init_tick th,
                                   th_stat := th_stat th OR RT_THREAD_STAT_YIELD\<rparr>) s"
  have same: "tstat s1 t = tstat s t" "prio s1 t = prio s t" "klists s1 = klists s" "cur s1 = cur s"
    "ready_group s1 = ready_group s" "lock_nest s1 = lock_nest s" for t
    by (simp_all add: s1_def upd_thread_def tstat_def prio_def)
  have wf: "sched_wf s1"
    using assms(1) sched_wf_cong[of s1 s] same by (simp add: s1_def upd_thread_def)
  then have inv: "sched_inv {} s1" by (simp add: sched_wf_def)
  have r: "rt_schedule s1 = Some s'" "r = RT_EOK"
    using assms(3,7) by (auto simp: rt_thread_yield_def rt_thread_self_def s1_def bind_eq_Some_conv)
  have bits: "bit (ready_group s1) p \<longleftrightarrow> klists s (Ready p) \<noteq> []" for p
    using inv same by (simp add: sched_inv_def)
  have "rt_ffs (ready_group s1) = Suc (prio s c)" unfolding rt_ffs_Suc_iff using bits assms(5,6) by auto
  then have h: "scheduler_get_highest s1 = Some (u, prio s c)"
    using assms(5) same by (simp add: scheduler_get_highest_def)
  have "th_stat (threads s1 c) AND RT_THREAD_STAT_YIELD \<noteq> 0"
  proof -
    have "bit (th_stat (threads s1 c) AND 8) 3" by (simp add: s1_def upd_thread_def bit_simps)
    then show ?thesis by auto
  qed
  then have nk: "\<not> keeps s1 c (prio s c)" using same by (simp add: keeps_def)
  have act: "cur s' = Some u" "\<And>t. tstat s' t = (if t = u then RT_THREAD_RUNNING
        else if t = c \<and> tstat s c = RT_THREAD_RUNNING then RT_THREAD_READY else tstat s t)"
    using rt_schedule_active(1)[OF wf _ _ h r(1)] assms(2,3) nk same by (simp_all add: next_thread_def)
  have q: "klists s' = ll_remove u (ll_insert_before (Ready (prio s c)) c (klists s))"
    using rt_schedule_queues[OF wf _ _ h r(1)] assms(2,3,4) nk same by simp
  have "u \<noteq> c" using in_queue_ready[OF inv, of u "prio s c"] assms(4,5) same by auto
  moreover have "th_remaining_tick (threads s' c) = th_remaining_tick (threads s1 c)"
    using arg_cong[OF no_sched_fields(15)[OF no_sched_schedule[OF r(1)]], of th_remaining_tick c] by simp
  then have "th_remaining_tick (threads s' c) = th_init_tick (threads s c)" by (simp add: s1_def upd_thread_def)
  ultimately show ?thesis using act r(2) assms(4,5) by (simp add: q ll_remove_def ll_insert_before_def)
qed

text \<open>A state with two ready threads of the priority of the running one.\<close>

definition rr_demo :: kstate where
  "rr_demo = bss\<lparr>threads := (\<lambda>t. blank_thread)(2 := demo_thread RT_THREAD_RUNNING 10,
       3 := demo_thread RT_THREAD_READY 10, 4 := demo_thread RT_THREAD_READY 10),
     klists := (\<lambda>h. [])(Ready 10 := [3, 4]), ready_group := push_bit 10 1, cur := Some 2\<rparr>"

lemma rr_demo_tstat:
  "tstat rr_demo t = (if t = 2 then RT_THREAD_RUNNING else if t = 3 \<or> t = 4 then RT_THREAD_READY else RT_THREAD_INIT)"
  "prio rr_demo t = (if t = 2 \<or> t = 3 \<or> t = 4 then 10 else 0)"
  by (simp_all add: rr_demo_def tstat_def prio_def demo_thread_def blank_thread_def)

lemma rr_demo_wf: "sched_wf rr_demo"
proof -
  have e: "klists rr_demo = (\<lambda>h. [])(Ready 10 := [3, 4])" "ready_group rr_demo = push_bit 10 1" "cur rr_demo = Some 2"
    by (simp_all add: rr_demo_def)
  have "ll_wf (klists rr_demo)" unfolding e by (auto simp: ll_wf_def)
  moreover have "runnable rr_demo t" if "started rr_demo t" for t
    using that unfolding started_def runnable_def rr_demo_tstat
    by (auto simp: rr_demo_def demo_thread_def blank_thread_def split: if_splits)
  moreover have "bit (push_bit 10 1 :: u32) p \<longleftrightarrow> p = 10" for p
    by (auto simp: bit_push_bit_iff bit_1_iff simp del: push_bit_of_1)
  ultimately have "sched_inv {} rr_demo"
    unfolding sched_inv_def rr_demo_tstat e(2) by (auto simp: e(1) wait_head_def)
  moreover have "cur_ok rr_demo" unfolding cur_ok_def rr_demo_tstat e by auto
  ultimately show ?thesis by (simp add: sched_wf_def)
qed

theorem yield_round_robin_witness:
  "\<exists>s'. rt_thread_yield rr_demo = Some (0, s') \<and> klists s' (Ready 10) = [4, 2]"
proof -
  have p: "prio rr_demo 2 = 10" "tstat rr_demo 2 = RT_THREAD_RUNNING" by (simp_all add: rr_demo_tstat)
  have e: "cur rr_demo = Some 2" "lock_nest rr_demo = 0" "klists rr_demo (Ready 10) = 3 # [4]"
    "\<forall>q<10. klists rr_demo (Ready q) = []" by (auto simp: rr_demo_def bss_def)
  let ?s = "upd_thread 2 (\<lambda>th. th\<lparr>th_remaining_tick := th_init_tick th, th_stat := th_stat th OR 8\<rparr>) rr_demo"
  have w: "sched_wf ?s"
    using rr_demo_wf sched_wf_cong[of ?s rr_demo] by (simp add: upd_thread_def tstat_def prio_def)
  have st: "stack_check (threads ?s t)" if "tstat ?s t = RT_THREAD_READY" for t
  proof -
    have "tstat ?s t = tstat rr_demo t" by (simp add: tstat_def upd_thread_def)
    then have "t = 3 \<or> t = 4" using that by (auto simp: rr_demo_tstat split: if_splits)
    then show ?thesis by (auto simp: rr_demo_def upd_thread_def stack_check_def demo_thread_def)
  qed
  have c: "cur ?s \<noteq> None" using e(1) by simp
  obtain s' where "rt_schedule ?s = Some s'" using schedule_returns[OF w c st] by blast
  then have y: "rt_thread_yield rr_demo = Some (0, s')" using e by (simp add: rt_thread_yield_def rt_thread_self_def)
  from yield_round_robin[OF rr_demo_wf e(2,1) p(2) _ _ y] show ?thesis
    unfolding p(1) using e(3,4) y by auto
qed

section \<open>Clock and stack\<close>

text \<open>
  \<^verbatim>\<open>rt_tick_from_millisecond\<close> never loses time: with 1000 ticks per second every non-negative
  \<^verbatim>\<open>int32\<close> is converted exactly, and every negative one to the largest tick, "wait forever".
\<close>

theorem tick_from_millisecond_exact:
  assumes "- (2 ^ 31) \<le> ms" "ms < 2 ^ 31"
  shows "uint (rt_tick_from_millisecond ms) = (if ms < 0 then 2 ^ 32 - 1 else ms)"
proof (cases "ms < 0")
  case True
  then show ?thesis by (simp add: rt_tick_from_millisecond_def unsigned_minus_1_eq_mask mask_eq_exp_minus_1)
next
  case False
  have "(1000 * (ms mod 1000) + 999) div 1000 = ms mod 1000" by simp
  then have "rt_tick_from_millisecond ms = of_int (1000 * (ms div 1000) + ms mod 1000)"
    using False unfolding rt_tick_from_millisecond_def of_int_add by simp
  also have "1000 * (ms div 1000) + ms mod 1000 = ms" by simp
  finally show ?thesis using False assms by (simp add: uint_word_of_int take_bit_int_eq_self_iff)
qed

theorem tick_from_millisecond_exact_witness: "uint (rt_tick_from_millisecond 1500) = 1500"
  by (subst tick_from_millisecond_exact) simp_all

lemma stack_frame_facts:
  assumes "unat start + unat sz < 2 ^ 32" "80 \<le> sz" "rt_hw_stack_init entry param (start + sz - 4) texit = (sp, frame)"
  shows "unat start < unat sp" "unat sp + 4 * length frame \<le> unat start + unat sz"
    "(sp + 68) AND 7 = 0" "frame ! 9 = param" "frame ! 14 = texit" "frame ! 15 = entry" "frame ! 16 = 0x01000000"
proof -
  define x where "x = start + sz"
  have x: "unat x = unat start + unat sz" using assms(1) by (simp add: x_def unat_word_ariths(1))
  have e: "sp = (x AND NOT 7) - 68"
    "frame = ((replicate 17 0xdeadbeef)[9 := param, 10 := 0, 11 := 0, 12 := 0, 13 := 0, 14 := texit, 15 := entry,
      16 := 0x01000000])[0 := 0]"
    using assms(3) by (simp_all add: rt_hw_stack_init_def x_def)
  show "(sp + 68) AND 7 = 0" by (simp add: e and.assoc)
  show "frame ! 9 = param" "frame ! 14 = texit" "frame ! 15 = entry" "frame ! 16 = 0x01000000"
    by (simp_all add: e numeral_eq_Suc)
  define y where "y = x AND NOT 7"
  have "x = y + (x AND 7)" unfolding y_def by (subst disjunctive_add_eq_or) (auto simp: bit_eq_iff bit_simps)
  moreover have "y \<le> x" unfolding y_def by (rule word_and_le2)
  moreover have "x AND 7 \<le> 7" by (rule word_and_le1)
  ultimately have "unat x = unat y + unat (x AND 7)" "unat (x AND 7) \<le> unat (7 :: u32)"
    by (metis add_diff_cancel_left' le_add_diff_inverse unat_sub word_le_nat_alt, simp add: word_le_nat_alt)
  moreover have "80 \<le> unat sz" using assms(2) by (simp add: word_le_nat_alt)
  ultimately have y: "unat start + 73 \<le> unat y" "unat y \<le> unat start + unat sz" using x by simp_all
  then have "(68::u32) \<le> y" by (simp add: word_le_nat_alt)
  then have "unat sp = unat y - 68" by (simp add: e(1) y_def unat_sub)
  then show "unat start < unat sp" "unat sp + 4 * length frame \<le> unat start + unat sz" using y by (simp_all add: e(2))
qed

text \<open>
  The frame \<^verbatim>\<open>rt_hw_stack_init\<close> builds for a new thread lies inside its stack and leaves the
  overflow check satisfied; the end of the frame is 8-byte aligned; popping it starts the entry function
  with its parameter in r0, in Thumb state, and returns into the exit function.
\<close>

theorem stack_init_frame:
  assumes "unat start + unat sz < 2 ^ 32" "80 \<le> sz" "rt_hw_stack_init entry param (start + sz - 4) texit = (sp, frame)"
  shows "unat start < unat sp \<and> unat sp + 4 * length frame \<le> unat start + unat sz \<and>
    (sp + 68) AND 7 = 0 \<and> frame ! 9 = param \<and> frame ! 14 = texit \<and> frame ! 15 = entry \<and> frame ! 16 = 0x01000000"
  using stack_frame_facts[OF assms] by blast

theorem stack_init_frame_witness:
  "\<exists>sp frame. rt_hw_stack_init 0x08000101 7 (0x20001000 + 0x200 - 4) 0x0800e001 = (sp, frame) \<and>
     unat (0x20001000 :: u32) < unat sp \<and> (sp + 68) AND 7 = 0 \<and> frame ! 15 = 0x08000101"
proof -
  obtain sp frame where r: "rt_hw_stack_init 0x08000101 7 (0x20001000 + 0x200 - 4) 0x0800e001 = (sp, frame)"
    by (metis surj_pair)
  have a: "unat (0x20001000 :: u32) + unat (0x200 :: u32) < 2 ^ 32" "(80 :: u32) \<le> 0x200" by simp_all
  show ?thesis using r stack_init_frame[OF a r] by blast
qed


section \<open>The life of a thread\<close>

text \<open>\<open>initialised t s\<close>: what \<^verbatim>\<open>_thread_init\<close> leaves behind.\<close>

definition initialised :: "tid \<Rightarrow> kstate \<Rightarrow> bool" where
  "initialised t s \<longleftrightarrow> tstat s t = RT_THREAD_INIT \<and> prio s t < 32 \<and>
     rt_object_get_type (Mem t) s = RT_Object_Class_Thread \<and>
     rt_object_get_type (TimerOf t) s = RT_Object_Class_Timer \<and>
     tm_func (timers s (TimerOf t)) = TF_thread_timeout t \<and>
     \<not> has_flag RT_TIMER_FLAG_ACTIVATED (TimerOf t) s \<and> \<not> has_flag RT_TIMER_FLAG_PERIODIC (TimerOf t) s \<and>
     \<not> has_flag RT_TIMER_FLAG_SOFT_TIMER (TimerOf t) s"

lemma init_unlinked:
  assumes "sched_inv {} s" "tstat s t = RT_THREAD_INIT"
  shows "t \<notin> set (klists s h)"
proof
  assume "t \<in> set (klists s h)"
  then show False
    using assms by (cases h) (auto simp: sched_inv_def wait_head_def)
qed

lemma startup_prepare:
  assumes k: "kern_wf s" and i: "initialised t s"
  defines "s1 \<equiv> upd_thread t (\<lambda>th. th\<lparr>th_stat := RT_THREAD_SUSPEND\<rparr>)
      (upd_thread t (\<lambda>th. th\<lparr>th_number_mask := push_bit (unat (th_prio th)) 1\<rparr>) s)"
  shows "kern_wf s1" "\<And>u. tstat s1 u = (if u = t then RT_THREAD_SUSPEND else tstat s u)"
    "cur s1 = cur s"
proof -
  have st: "tstat s1 u = (if u = t then RT_THREAD_SUSPEND else tstat s u)" "prio s1 u = prio s u"
    "runnable s1 u = (if u = t then prio s t < 32 else runnable s u)"
    "started s1 u = (u = t \<or> started s u)" for u
    by (auto simp: s1_def upd_thread_def tstat_def prio_def runnable_def started_def)
  have same: "klists s1 = klists s" "ready_group s1 = ready_group s" "cur s1 = cur s" "objs s1 = objs s"
    "timers s1 = timers s" "tmlists s1 = tmlists s"
    by (simp_all add: s1_def upd_thread_def)
  have inv: "sched_inv {} s" and t: "tstat s t = RT_THREAD_INIT" using k i by (auto simp: kern_inv_def initialised_def)
  have "sched_inv {} s1"
    using inv i init_unlinked[OF inv t] unfolding sched_inv_def st same
    by (auto simp: initialised_def)
  moreover have "cur_ok s1"
  proof -
    have "cur s \<noteq> Some t" using k t unfolding kern_inv_def cur_ok_def by auto
    then show ?thesis using k unfolding kern_inv_def cur_ok_def st same by auto
  qed
  moreover have "timer_wf s1" "thread_tm_wf s1" "thread_objs s1"
    using k i unfolding kern_inv_def timer_wf_def thread_tm_wf_def thread_objs_def st
    by (auto simp: same has_flag_def rt_object_get_type_def initialised_def)
  ultimately show "kern_wf s1" by (simp add: kern_inv_def)
  show "tstat s1 u = (if u = t then RT_THREAD_SUSPEND else tstat s u)" for u by (rule st(1))
  show "cur s1 = cur s" by (rule same(3))
qed

lemma startup_thread:
  assumes k: "kern_wf s" and i: "initialised t s" and ok: "stacks_ok s" and chk: "stack_check (threads s t)"
  shows "\<exists>s'. rt_thread_startup t s = Some (RT_EOK, s') \<and> kern_wf s' \<and> stacks_ok s' \<and>
    tstat s' t \<in> {RT_THREAD_READY, RT_THREAD_RUNNING} \<and> (cur s = None \<longrightarrow> cur s' = None) \<and> lock_nest s' = lock_nest s"
proof -
  define s1 where "s1 = upd_thread t (\<lambda>th. th\<lparr>th_stat := RT_THREAD_SUSPEND\<rparr>)
      (upd_thread t (\<lambda>th. th\<lparr>th_number_mask := push_bit (unat (th_prio th)) 1\<rparr>) s)"
  note p = startup_prepare[OF k i, folded s1_def]
  have t1: "tstat s1 t = RT_THREAD_SUSPEND" using p(2)[of t] by simp
  obtain s2 where s2: "rt_thread_resume t s1 = Some (RT_EOK, s2)" "kern_wf s2" "cur s2 = cur s1"
    "\<And>u. tstat s2 u = (if u = t then if cur s1 = Some t then RT_THREAD_RUNNING else RT_THREAD_READY else tstat s1 u)"
    using resume_thread[OF p(1) t1] by metis
  have "stack_check (threads s1 u)" if "started s1 u" for u
  proof -
    have "stack_check (threads s1 u) = stack_check (threads s u)" by (simp add: s1_def stack_check_def upd_thread_def)
    moreover have "u = t \<or> started s u" using that p(2)[of u] by (auto simp: started_def split: if_splits)
    ultimately show ?thesis using ok chk by (auto simp: stacks_ok_def)
  qed
  then have ok1: "stacks_ok s1" by (simp add: stacks_ok_def)
  have "started s2 u \<Longrightarrow> started s1 u" for u using s2(4)[of u] t1 by (auto simp: started_def split: if_splits)
  then have ok2: "stacks_ok s2" using stacks_ok_cong[OF no_kern_resume[OF s2(1)]] ok1 by blast
  have l2: "lock_nest s2 = lock_nest s" using no_kern_fields(1)[OF no_kern_resume[OF s2(1)]] by (simp add: s1_def upd_thread_def)
  have start: "rt_thread_startup t s = (if cur s2 \<noteq> None then rt_schedule s2 \<bind> (\<lambda>s. Some (RT_EOK, s)) else Some (RT_EOK, s2))"
    using i s2(1) by (simp add: rt_thread_startup_def rt_thread_self_def initialised_def s1_def)
  have t2: "tstat s2 t \<in> {RT_THREAD_READY, RT_THREAD_RUNNING}" using s2(4)[of t] by simp
  show ?thesis
  proof (cases "cur s2 = None")
    case True
    then show ?thesis using start s2 ok2 t2 l2 by auto
  next
    case False
    then obtain s3 where s3: "rt_schedule s2 = Some s3" "kern_wf s3" "stacks_ok s3"
      "\<And>u. tstat s2 u \<in> {RT_THREAD_READY, RT_THREAD_RUNNING} \<Longrightarrow> tstat s3 u \<in> {RT_THREAD_READY, RT_THREAD_RUNNING}"
      using schedule_kern[OF s2(2) _ ok2] by metis
    have "cur s \<noteq> None" using False s2(3) p(3) by simp
    then show ?thesis using start False s3(1,2,3) s3(4)[OF t2] l2 no_kern_fields(1)[OF no_kern_schedule[OF s3(1)]]
      by auto
  qed
qed

text \<open>
  \<^verbatim>\<open>rt_thread_startup\<close> of an initialised thread with a sound stack succeeds, makes the thread
  ready or running, and keeps the kernel invariant; any other thread is refused.
\<close>

theorem startup_makes_ready:
  assumes "kern_wf s" "stacks_ok s" "stack_check (threads s t)"
  shows "(initialised t s \<longrightarrow> (\<exists>s'. rt_thread_startup t s = Some (RT_EOK, s') \<and> kern_wf s' \<and> stacks_ok s' \<and>
      tstat s' t \<in> {RT_THREAD_READY, RT_THREAD_RUNNING})) \<and>
    (tstat s t \<noteq> RT_THREAD_INIT \<longrightarrow> rt_thread_startup t s = None)"
proof -
  have "tstat s t \<noteq> RT_THREAD_INIT \<longrightarrow> rt_thread_startup t s = None" by (simp add: rt_thread_startup_def)
  then show ?thesis using startup_thread[OF assms(1) _ assms(2,3)] by blast
qed

theorem startup_makes_ready_witness:
  "\<exists>s'. rt_thread_startup 4 (kdemo\<lparr>threads := (threads kdemo)(4 := demo_thread 0 7)\<rparr>) = Some (0, s') \<and>
     tstat s' 4 \<in> {RT_THREAD_READY, RT_THREAD_RUNNING}"
proof -
  define d where "d = kdemo\<lparr>threads := (threads kdemo)(4 := demo_thread 0 7)\<rparr>"
  have t: "tstat d t = tstat kdemo t" for t
    by (simp add: d_def tstat_def demo_thread_def blank_thread_def)
  have st: "started d t = started kdemo t" for t unfolding started_def t ..
  have pr: "prio d t = (if t = 4 then 7 else prio kdemo t)" for t
    by (simp add: d_def prio_def demo_thread_def)
  have inv: "sched_inv {} kdemo" using kdemo_wf by (simp add: kern_inv_def)
  have t4: "tstat kdemo 4 = RT_THREAD_INIT" by (simp add: kdemo_tstat demo_tstat)
  have run: "runnable d u" if "started d u" for u
  proof -
    have u: "u < 4" using that by (simp add: st kdemo_started)
    then have "runnable kdemo u" using inv that by (simp add: sched_inv_def st)
    then show ?thesis using u by (simp add: runnable_def pr) (simp add: d_def)
  qed
  have "sched_inv {} d"
    using inv run init_unlinked[OF inv t4] t4 unfolding sched_inv_def t pr by (simp add: d_def)
  moreover have "cur_ok d" using kdemo_wf cur_ok_cong[of d kdemo] t by (simp add: kern_inv_def d_def)
  moreover have "timer_wf d" "thread_tm_wf d" "thread_objs d"
    using kdemo_wf timer_part_cong[of d kdemo] t st by (simp_all add: kern_inv_def d_def)
  ultimately have k: "kern_wf d" by (simp add: kern_inv_def)
  have "stack_check (threads d u)" if "started d u" for u
  proof -
    have "u < 4" using that by (simp add: st kdemo_started)
    then have "threads d u = threads kdemo u" by (simp add: d_def)
    moreover have "stack_check (threads kdemo u)"
      using kdemo_stacks \<open>u < 4\<close> unfolding stacks_ok_def kdemo_started by blast
    ultimately show ?thesis by simp
  qed
  then have ok: "stacks_ok d" by (simp add: stacks_ok_def)
  have chk: "stack_check (threads d 4)" by (simp add: d_def stack_check_def demo_thread_def)
  have "initialised 4 d"
    unfolding initialised_def t pr t4 by (simp add: d_def kdemo_def rt_object_get_type_def has_flag_def)
  then show ?thesis using startup_makes_ready[OF k ok chk] unfolding d_def by blast
qed


text \<open>Closing: \<open>s\<close> is the state in which the thread is on no list any more.\<close>

lemma close_thread:
  assumes k: "kern_inv {t} s" and ty: "rt_object_get_type (TimerOf t) s = RT_Object_Class_Timer"
    and sys: "rt_object_is_systemobject (TimerOf t) s"
  shows "\<exists>s'. thread_close t s = Some s' \<and> kern_wf s' \<and> cur s' = cur s \<and> lock_nest s' = lock_nest s \<and>
    (\<forall>u. tstat s' u = (if u = t then RT_THREAD_CLOSE else tstat s u)) \<and> klists s' Defunct = t # klists s Defunct \<and>
    \<not> has_flag RT_TIMER_FLAG_ACTIVATED (TimerOf t) s' \<and> (\<forall>u. stack_check (threads s' u) = stack_check (threads s u))"
proof -
  define s1 where "s1 = rt_object_detach (TimerOf t) (timer_off (TimerOf t) s)"
  define s2 where "s2 = rt_thread_defunct_enqueue t (upd_thread t (\<lambda>th. th\<lparr>th_stat := RT_THREAD_CLOSE\<rparr>) s1)"
  have r: "thread_close t s = Some s2"
    using ty sys by (simp add: thread_close_def rt_timer_detach_def s2_def s1_def timer_off_def)
  have k0: "kern_inv {t} (timer_off (TimerOf t) s)" by (rule timer_off_inv[OF k])
  have st: "tstat s2 u = (if u = t then RT_THREAD_CLOSE else tstat s u)" "prio s2 u = prio s u"
    "runnable s2 u = runnable s u" "stack_check (threads s2 u) = stack_check (threads s u)" for u
    by (auto simp: s2_def s1_def rt_thread_defunct_enqueue_def rt_object_detach_def upd_obj_def upd_thread_def Let_def
        tstat_def prio_def runnable_def stack_check_def)
  have e: "klists s2 = ll_insert_after Defunct t (klists s)" "ready_group s2 = ready_group s" "cur s2 = cur s"
    "tmlists s2 = ll_remove (TimerOf t) (tmlists s)" "timers s2 = timers s" "lock_nest s2 = lock_nest s"
    by (simp_all add: s2_def s1_def rt_thread_defunct_enqueue_def rt_object_detach_def upd_obj_def upd_thread_def Let_def)
  have lock: "lock_nest s2 = lock_nest s" by (rule e(6))
  have ot: "rt_object_get_type a s2 = (if a = TimerOf t then 0 else rt_object_get_type a s)" for a
    using timer_off_simps(10)[of a "TimerOf t" s]
    by (simp add: s2_def s1_def rt_thread_defunct_enqueue_def rt_object_detach_def upd_obj_def upd_thread_def Let_def
        rt_object_get_type_def)
  have fl: "oflag (objs s2 a) = oflag (objs (timer_off (TimerOf t) s) a)" for a
    by (simp add: s2_def s1_def rt_thread_defunct_enqueue_def rt_object_detach_def upd_obj_def upd_thread_def Let_def)
  then have hf: "has_flag f a s2 = has_flag f a (timer_off (TimerOf t) s)" for f a by (simp add: has_flag_def)
  have u: "unlinked t (klists s)" and wf: "ll_wf (klists s)" and inv: "sched_inv {t} s"
    using k by (simp_all add: kern_inv_def sched_inv_def)
  have "ll_wf (klists s2)" unfolding e(1) by (rule ll_wf_insert_after[OF wf u])
  then have "sched_inv {} s2"
    using inv u unfolding sched_inv_def started_def st e(2)
    by (auto simp: e(1) ll_insert_after_def unlinked_def wait_head_def)
  moreover have "cur_ok s2" using k unfolding kern_inv_def cur_ok_def st e(3) by auto
  moreover have "timer_wf s2"
  proof -
    have tw: "timer_wf (timer_off (TimerOf t) s)" using k0 by (simp add: kern_inv_def)
    have "TimerOf t \<notin> set (tmlists s2 h)" for h
      unfolding e(4) using k by (simp add: kern_inv_def timer_wf_def set_ll_remove)
    then show ?thesis using tw unfolding timer_wf_def hf by (auto simp: e(4) ot)
  qed
  moreover have "thread_tm_wf s2" "thread_objs s2"
  proof -
    have sd: "started s2 v \<longleftrightarrow> v \<noteq> t \<and> started s v" for v by (simp add: started_def st)
    show "thread_tm_wf s2" "thread_objs s2"
      using k unfolding kern_inv_def thread_tm_wf_def thread_objs_def sd st hf by (auto simp: e(5) ot)
  qed
  ultimately have "kern_wf s2" by (simp add: kern_inv_def)
  moreover have "\<not> has_flag RT_TIMER_FLAG_ACTIVATED (TimerOf t) s2" by (simp add: hf)
  ultimately show ?thesis using r st e by (auto simp: ll_insert_after_def)
qed

lemma remove_kern:
  assumes k: "kern_wf s" and st: "started s t"
  obtains s1 where "rt_schedule_remove_thread t s = Some s1" "kern_inv {t} s1" "threads s1 = threads s" "cur s1 = cur s"
    "objs s1 = objs s" "klists s1 = ll_remove t (klists s)" "lock_nest s1 = lock_nest s"
proof -
  obtain s1 where s1: "rt_schedule_remove_thread t s = Some s1" "sched_inv {t} s1"
      "klists s1 = ll_remove t (klists s)" "threads s1 = threads s" "cur s1 = cur s"
    using remove_inv[of "{}" s t] k kern_started(1)[OF k st] by (auto simp: kern_inv_def)
  note f = no_sched_fields[OF no_sched_remove[OF s1(1)]] and sm = threads_same[OF s1(4)]
  have "cur_ok s1" using k cur_ok_cong[of s1 s] s1(5) sm by (simp add: kern_inv_def)
  moreover have "timer_wf s1" "thread_tm_wf s1" "thread_objs s1"
    using k timer_part_cong[of s1 s, OF f(7,4,6)] sm by (simp_all add: kern_inv_def started_def)
  ultimately show ?thesis using that[of s1] s1 f by (simp add: kern_inv_def)
qed

text \<open>
  Closing a thread that is running, ready or waiting anywhere, by \<^verbatim>\<open>rt_thread_detach\<close> or by
  \<^verbatim>\<open>rt_thread_delete\<close>, takes it off every list, disarms its timer, marks it closed and puts it at the
  head of the defunct list; the kernel invariant is kept. A second close does nothing.
\<close>

theorem close_thread_clean:
  assumes "kern_wf s" "started s t" "rt_object_is_systemobject (TimerOf t) s"
    and "r = (if rt_object_is_systemobject (Mem t) s then rt_thread_detach t s else rt_thread_delete t s)"
  shows "\<exists>s'. r = Some (RT_EOK, s') \<and> kern_wf s' \<and> tstat s' t = RT_THREAD_CLOSE \<and>
    klists s' Defunct = t # klists s Defunct \<and> (\<forall>h. h \<noteq> Defunct \<longrightarrow> t \<notin> set (klists s' h)) \<and>
    \<not> has_flag RT_TIMER_FLAG_ACTIVATED (TimerOf t) s' \<and> (\<forall>u. u \<noteq> t \<longrightarrow> tstat s' u = tstat s u)"
proof -
  note ks = kern_started[OF assms(1,2)]
  have st: "tstat s t \<noteq> RT_THREAD_INIT" "tstat s t \<noteq> RT_THREAD_CLOSE" using assms(2) by (auto simp: started_def)
  obtain s1 where s1: "rt_schedule_remove_thread t s = Some s1" "kern_inv {t} s1" "threads s1 = threads s"
    "cur s1 = cur s" "objs s1 = objs s" "klists s1 = ll_remove t (klists s)" "lock_nest s1 = lock_nest s"
    by (rule remove_kern[OF assms(1,2)])
  have "rt_object_get_type (TimerOf t) s1 = RT_Object_Class_Timer" "rt_object_is_systemobject (TimerOf t) s1"
    using ks(3) assms(3) s1(5) by (simp_all add: rt_object_get_type_def rt_object_is_systemobject_def)
  then obtain s' where s': "thread_close t s1 = Some s'" "kern_wf s'"
    "\<forall>u. tstat s' u = (if u = t then RT_THREAD_CLOSE else tstat s1 u)" "klists s' Defunct = t # klists s1 Defunct"
    "\<not> has_flag RT_TIMER_FLAG_ACTIVATED (TimerOf t) s'"
    using close_thread[OF s1(2)] by metis
  have "r = Some (RT_EOK, s')"
    unfolding assms(4) using ks(2) st s1(1) s'(1) by (simp add: rt_thread_detach_def rt_thread_delete_def)
  moreover have "t \<notin> set (klists s' h)" if "h \<noteq> Defunct" for h
    using s'(2,4) that unfolding kern_inv_def sched_inv_def ll_wf_def by (metis list.set_intros(1))
  moreover have "klists s1 Defunct = klists s Defunct"
  proof -
    have "t \<notin> set (klists s Defunct)" using assms(1) st(2) by (auto simp: kern_inv_def sched_inv_def)
    then show ?thesis by (simp add: s1(6) ll_remove_def remove1_idem)
  qed
  ultimately show ?thesis using s' threads_same(1)[OF s1(3)] by simp
qed

theorem close_thread_clean_witness:
  "\<exists>s'. rt_thread_detach 3 kdemo = Some (0, s') \<and> klists s' Defunct = [3]"
proof -
  have "started kdemo 3" "rt_object_is_systemobject (TimerOf 3) kdemo" "rt_object_is_systemobject (Mem 3) kdemo"
    by (simp_all add: kdemo_started) (simp_all add: kdemo_def rt_object_is_systemobject_def)
  then show ?thesis using close_thread_clean[OF kdemo_wf _ _ refl, of 3] by auto
qed

lemma no_kern_upd:
  assumes "\<And>th k. (f th)\<lparr>th_stat := k\<rparr> = f (th\<lparr>th_stat := k\<rparr>)"
  shows "no_kern (upd_thread t f s) = (no_kern s)\<lparr>threads := (threads (no_kern s))(t := f (threads (no_kern s) t))\<rparr>"
  by (auto simp: no_kern_def no_sched_def upd_thread_def assms intro!: kstate.equality ext)

lemma no_kern_change:
  "no_kern s' = no_kern s \<Longrightarrow> no_kern (upd_thread t (change_priority p) s') = no_kern (upd_thread t (change_priority p) s)"
  using no_kern_upd[of "change_priority p" t] by (simp add: change_priority_def)

lemma change_fields:
  assumes "s' = upd_thread t (change_priority p) s"
  shows "klists s' = klists s" "ready_group s' = ready_group s" "cur s' = cur s" "objs s' = objs s"
    "tmlists s' = tmlists s" "timers s' = timers s" "tstat s' u = tstat s u" "started s' u = started s u"
    "prio s' u = (if u = t then unat p else prio s u)" "stacks_ok s' = stacks_ok s"
proof -
  show st: "tstat s' u = tstat s u" "started s' u = started s u" for u
    by (simp_all add: assms tstat_def started_def upd_thread_def change_priority_def)
  have "stack_check (threads s' u) = stack_check (threads s u)" for u
    by (simp add: assms stack_check_def upd_thread_def change_priority_def)
  then show "stacks_ok s' = stacks_ok s" by (simp add: stacks_ok_def st)
qed (simp_all add: assms prio_def upd_thread_def change_priority_def)

lemma change_runnable:
  "unat p < 32 \<Longrightarrow> runnable s t \<Longrightarrow> runnable (upd_thread t (change_priority p) s) u = (u = t \<or> runnable s u)"
  by (auto simp: runnable_def prio_def upd_thread_def change_priority_def)

lemma change_ready:
  assumes k: "kern_wf s" and st: "started s t" and p: "unat p < 32" and r: "tstat s t = RT_THREAD_READY"
  shows "\<exists>s'. rt_thread_control t RT_THREAD_CTRL_CHANGE_PRIORITY p s = Some (RT_EOK, s') \<and> kern_wf s' \<and> cur s' = cur s \<and>
    (\<forall>u. prio s' u = (if u = t then unat p else prio s u)) \<and> (\<forall>u. tstat s' u = tstat s u) \<and>
    no_kern s' = no_kern (upd_thread t (change_priority p) s) \<and>
    klists s' = (ll_remove t (klists s))(Ready (unat p) := remove1 t (klists s (Ready (unat p))) @ [t])"
proof -
  note ks = kern_started[OF k st]
  obtain s1 where s1: "rt_schedule_remove_thread t s = Some s1" "kern_inv {t} s1" "threads s1 = threads s"
    "cur s1 = cur s" "objs s1 = objs s" "klists s1 = ll_remove t (klists s)"
    by (rule remove_kern[OF k st])
  define s2 where "s2 = upd_thread t (change_priority p) s1"
  note same = change_fields[OF s2_def] and sm = threads_same[OF s1(3)]
  have run: "runnable s2 u = (u = t \<or> runnable s1 u)" for u
    using change_runnable[OF p, of s1 t u] ks(1) s1(3) by (simp add: s2_def runnable_def prio_def)
  have unl: "unlinked t (klists s1)" using s1(2) by (simp add: kern_inv_def sched_inv_def)
  have inv2: "sched_inv {t} s2"
    using s1(2) unl unfolding kern_inv_def sched_inv_def same by (auto simp: run unlinked_def)
  obtain s3 where s3: "rt_schedule_insert_thread t s2 = Some s3" "sched_inv {} s3" "cur s3 = cur s2"
    "\<And>u. tstat s3 u = (if u = t then if cur s2 = Some t then RT_THREAD_RUNNING else RT_THREAD_READY else tstat s2 u)"
    using insert_inv[of t "{}" s2] inv2 run by auto
  have nc: "cur s \<noteq> Some t" using cur_okD(1)[of s t] k r by (auto simp: kern_inv_def)
  then have nc2: "cur s2 \<noteq> Some t" using same(3) s1(4) by simp
  have st2: "tstat s2 u = tstat s u" for u using same(7) sm by simp
  have st3: "tstat s3 u = tstat s u" for u using s3(4)[of u] nc2 r st2 by simp
  note n3 = no_sched_insert[OF s3(1)]
  note f = no_sched_fields[OF n3]
  have pr: "prio s3 u = (if u = t then unat p else prio s u)" for u
    using no_sched_thread(10)[OF n3, of u] same(9)[of u] sm by simp
  have "cur_ok s3" using k cur_ok_cong[of s3 s] s3(3) same(3) s1(4) st3 by (simp add: kern_inv_def)
  moreover have "timer_wf s3" "thread_tm_wf s3" "thread_objs s3"
    using s1(2) timer_part_cong[of s3 s1] f same st3 sm by (auto simp: kern_inv_def started_def)
  ultimately have "kern_wf s3" using s3(2) by (simp add: kern_inv_def)
  moreover have "klists s3 = (klists s2)(Ready (prio s2 t) := klists s2 (Ready (prio s2 t)) @ [t])"
    using s3(1) nc2 by (auto simp: rt_schedule_insert_thread_def Let_def ll_insert_before_def upd_thread_def
        set_state_def prio_def split: if_splits)
  moreover have "no_kern s3 = no_kern (upd_thread t (change_priority p) s)"
    using no_kern_sched[OF n3] no_kern_change[OF no_kern_sremove[OF s1(1)], of t p] by (simp add: s2_def)
  moreover have "rt_thread_control t RT_THREAD_CTRL_CHANGE_PRIORITY p s = Some (RT_EOK, s3)"
    using r ks(2) s1(1) p s3(1) by (simp add: rt_thread_control_def s2_def)
  ultimately show ?thesis using st3 pr s3(3) same(1,3,9) s1(4,6) by (intro exI[of _ s3]) (simp add: ll_remove_def)
qed

lemma change_other:
  assumes k: "kern_wf s" and st: "started s t" and p: "unat p < 32" and r: "tstat s t \<noteq> RT_THREAD_READY"
  shows "rt_thread_control t RT_THREAD_CTRL_CHANGE_PRIORITY p s = Some (RT_EOK, upd_thread t (change_priority p) s) \<and>
    kern_wf (upd_thread t (change_priority p) s)"
proof -
  note ks = kern_started[OF k st]
  define s2 where "s2 = upd_thread t (change_priority p) s"
  note same = change_fields[OF s2_def]
  have run: "runnable s2 u = (u = t \<or> runnable s u)" for u
    using change_runnable[OF p, of s t u] ks(1) by (simp add: s2_def)
  have "sched_inv {} s2" using k r unfolding kern_inv_def sched_inv_def same by (auto simp: run)
  moreover have "cur_ok s2" using k cur_ok_cong[of s2 s] same by (simp add: kern_inv_def)
  moreover have "timer_wf s2" "thread_tm_wf s2" "thread_objs s2"
    using k timer_part_cong[of s2 s] same by (auto simp: kern_inv_def)
  ultimately have "kern_wf s2" by (simp add: kern_inv_def)
  then show ?thesis using r ks(2) p by (simp add: rt_thread_control_def s2_def)
qed

text \<open>Both cases together, as the mutex uses them.\<close>

lemma change_priority_kern:
  assumes k: "kern_wf s" and st: "started s t" and p: "unat p < 32" and ok: "stacks_ok s"
  shows "\<exists>s'. rt_thread_control t RT_THREAD_CTRL_CHANGE_PRIORITY p s = Some (RT_EOK, s') \<and> kern_wf s' \<and> stacks_ok s' \<and>
    cur s' = cur s \<and> (\<forall>u. prio s' u = (if u = t then unat p else prio s u)) \<and> (\<forall>u. tstat s' u = tstat s u) \<and>
    no_kern s' = no_kern (upd_thread t (change_priority p) s) \<and>
    (\<forall>h. wait_head h \<longrightarrow> klists s' h = klists s h) \<and> (ready_group s \<noteq> 0 \<longrightarrow> ready_group s' \<noteq> 0)"
proof (cases "tstat s t = RT_THREAD_READY")
  case False
  note same = change_fields[OF refl, of t p s]
  show ?thesis using change_other[OF k st p False] ok same by simp
next
  case True
  obtain s' where s': "rt_thread_control t RT_THREAD_CTRL_CHANGE_PRIORITY p s = Some (RT_EOK, s')" "kern_wf s'" "cur s' = cur s"
    "\<forall>u. prio s' u = (if u = t then unat p else prio s u)" "\<forall>u. tstat s' u = tstat s u"
    "no_kern s' = no_kern (upd_thread t (change_priority p) s)"
    "klists s' = (ll_remove t (klists s))(Ready (unat p) := remove1 t (klists s (Ready (unat p))) @ [t])"
    using change_ready[OF k st p True] by blast
  have "stacks_ok s'"
    using stacks_ok_cong[OF s'(6)] s'(5) ok change_fields(10)[OF refl, of t p s] change_fields(8)[OF refl, of t p s]
    by (simp add: started_def)
  moreover have "klists s' h = klists s h" if "wait_head h" for h
  proof -
    have "t \<notin> set (klists s h)" using k True that unfolding kern_inv_def sched_inv_def by force
    then show ?thesis using that s'(7) by (auto simp: wait_head_def ll_remove_def remove1_idem)
  qed
  moreover have "ready_group s' \<noteq> 0"
  proof -
    have "klists s' (Ready (unat p)) \<noteq> []" using s'(7) by simp
    then show ?thesis using s'(2) by (auto simp: word_eq_0_bit kern_inv_def sched_inv_def)
  qed
  ultimately show ?thesis using s' by blast
qed

text \<open>
  Changing the priority of a started thread keeps the kernel invariant: a ready thread moves to the
  end of the queue of its new priority, any other thread takes it on at once. A priority beyond 31 is
  not checked for, and the model stops there, in an undefined shift.
\<close>

theorem change_priority_moves:
  assumes "kern_wf s" "started s t"
  shows "(unat p < 32 \<longrightarrow> (\<exists>s'. rt_thread_control t RT_THREAD_CTRL_CHANGE_PRIORITY p s = Some (RT_EOK, s') \<and>
      kern_wf s' \<and> prio s' t = unat p \<and> (\<forall>u. tstat s' u = tstat s u) \<and>
      (tstat s t = RT_THREAD_READY \<longrightarrow> klists s' (Ready (unat p)) = remove1 t (klists s (Ready (unat p))) @ [t]))) \<and>
    (\<not> unat p < 32 \<longrightarrow> rt_thread_control t RT_THREAD_CTRL_CHANGE_PRIORITY p s = None)"
proof -
  obtain s1 where s1: "rt_schedule_remove_thread t s = Some s1"
    using remove_kern[OF assms] by metis
  have "rt_thread_control t RT_THREAD_CTRL_CHANGE_PRIORITY p s = None" if "\<not> unat p < 32"
    using that kern_started(2)[OF assms] s1 by (simp add: rt_thread_control_def)
  moreover have "\<exists>s'. rt_thread_control t RT_THREAD_CTRL_CHANGE_PRIORITY p s = Some (RT_EOK, s') \<and>
      kern_wf s' \<and> prio s' t = unat p \<and> (\<forall>u. tstat s' u = tstat s u) \<and>
      (tstat s t = RT_THREAD_READY \<longrightarrow> klists s' (Ready (unat p)) = remove1 t (klists s (Ready (unat p))) @ [t])"
    if p: "unat p < 32"
  proof (cases "tstat s t = RT_THREAD_READY")
    case True
    show ?thesis using change_ready[OF assms p True] True by auto
  next
    case False
    show ?thesis using change_other[OF assms p False] change_fields(7,9)[OF refl, of t p s] False by simp
  qed
  ultimately show ?thesis by blast
qed

theorem change_priority_moves_witness:
  "\<exists>s'. rt_thread_control 3 RT_THREAD_CTRL_CHANGE_PRIORITY 31 kdemo = Some (0, s') \<and> klists s' (Ready 31) = [1, 3]"
proof -
  have "started kdemo 3" "tstat kdemo 3 = RT_THREAD_READY" by (simp_all add: kdemo_started kdemo_tstat demo_tstat)
  then show ?thesis using change_priority_moves[OF kdemo_wf, of 3 31] by auto
qed

end
