(* ===== verification/IpcBase.thy ===== *)
theory IpcBase
  imports Thread
begin

text \<open>
  The wait lists of \<^verbatim>\<open>src/ipc.c\<close>: the inline functions every IPC object is built from, and what each
  of them does to the kernel. An IPC object at address \<open>x\<close> has the lists \<open>Susp x\<close> and, where it has
  two, \<open>SuspSender x\<close>; its flag is the flag of its object part.
\<close>

section \<open>Operations\<close>

definition do_ipc_object_init :: "lhead \<Rightarrow> kstate \<Rightarrow> kstate" where
  "do_ipc_object_init h s = s\<lparr>klists := (klists s)(h := [])\<rparr>"

definition do_ipc_list_suspend :: "lhead \<Rightarrow> tid \<Rightarrow> u8 \<Rightarrow> kstate \<Rightarrow> kstate option" where
  "do_ipc_list_suspend h t flag s = do {
     (_, s) \<leftarrow> rt_thread_suspend t s;
     if flag = RT_IPC_FLAG_FIFO then Some (s\<lparr>klists := ll_insert_before h t (klists s)\<rparr>)
     else if flag = RT_IPC_FLAG_PRIO then
       (case find (\<lambda>n. prio s t < prio s n) (klists s h) of
          Some sthread \<Rightarrow> Some (s\<lparr>klists := ll_insert_node sthread t (klists s)\<rparr>)
        | None \<Rightarrow> Some (s\<lparr>klists := ll_insert_before h t (klists s)\<rparr>))
     else None
   }"

definition do_ipc_list_resume :: "lhead \<Rightarrow> kstate \<Rightarrow> kstate option" where
  "do_ipc_list_resume h s =
    (case klists s h of
       [] \<Rightarrow> None
     | t # _ \<Rightarrow> do { (_, s) \<leftarrow> rt_thread_resume t s; Some s })"

partial_function (option) do_ipc_list_resume_all :: "lhead \<Rightarrow> kstate \<Rightarrow> kstate option" where
  "do_ipc_list_resume_all h s =
    (case klists s h of
       [] \<Rightarrow> Some s
     | t # _ \<Rightarrow>
         rt_thread_resume t (upd_thread t (\<lambda>th. th\<lparr>th_error := - RT_ERROR\<rparr>) s) \<bind> (\<lambda>(_, s).
         do_ipc_list_resume_all h s))"

text \<open>
  The steps the blocking calls share: suspend on the list and, for a positive timeout, arm the timer.
  Times are \<^verbatim>\<open>rt_int32_t\<close>, here integers.
\<close>

definition ipc_wait :: "lhead \<Rightarrow> tid \<Rightarrow> u8 \<Rightarrow> int \<Rightarrow> kstate \<Rightarrow> kstate option" where
  "ipc_wait h t flag time s = do {
     s \<leftarrow> do_ipc_list_suspend h t flag s;
     if time > 0 then thread_timer_arm t (of_int time) s else Some s
   }"

definition set_flag :: "nat \<Rightarrow> u8 \<Rightarrow> kstate \<Rightarrow> kstate" where
  "set_flag x flag s = upd_obj (Mem x) (\<lambda>ob. ob\<lparr>oflag := flag\<rparr>) s"

definition ipc_flag_ok :: "u8 \<Rightarrow> bool" where
  "ipc_flag_ok flag \<longleftrightarrow> flag = RT_IPC_FLAG_FIFO \<or> flag = RT_IPC_FLAG_PRIO"

section \<open>The order of a wait list\<close>

definition wait_insert :: "(tid \<Rightarrow> nat) \<Rightarrow> u8 \<Rightarrow> tid \<Rightarrow> tid list \<Rightarrow> tid list" where
  "wait_insert pr flag t q =
    (if flag = RT_IPC_FLAG_PRIO then takeWhile (\<lambda>n. pr n \<le> pr t) q @ t # dropWhile (\<lambda>n. pr n \<le> pr t) q
     else q @ [t])"

lemma set_wait_insert: "set (wait_insert pr flag t q) = insert t (set q)"
proof -
  have "set (takeWhile P q) \<union> set (dropWhile P q) = set q" for P
    by (metis set_append takeWhile_dropWhile_id)
  from this[of "\<lambda>n. pr n \<le> pr t"] show ?thesis by (auto simp: wait_insert_def)
qed

lemma wait_insert_cong:
  "(\<And>u. u = t \<or> u \<in> set q \<Longrightarrow> f u = g u) \<Longrightarrow> wait_insert f flag t q = wait_insert g flag t q"
  by (auto simp: wait_insert_def cong: takeWhile_cong dropWhile_cong)

lemma insert_at_find:
  "distinct q \<Longrightarrow> find P q = Some n \<Longrightarrow>
    insert_at n t q = takeWhile (\<lambda>x. \<not> P x) q @ t # dropWhile (\<lambda>x. \<not> P x) q"
proof (induction q)
  case (Cons a q)
  have "n \<in> set q" if "\<not> P a" using Cons.prems(2) that by (auto simp: find_Some_iff in_set_conv_nth)
  then show ?case using Cons by auto
qed simp

lemma sorted_wait_insert:
  assumes "sorted (map pr q)"
  shows "sorted (map pr (wait_insert pr RT_IPC_FLAG_PRIO t q))"
proof -
  have "sorted (map pr (takeWhile (\<lambda>n. pr n \<le> pr t) q @ dropWhile (\<lambda>n. pr n \<le> pr t) q))" using assms by simp
  then have parts: "sorted (map pr (takeWhile (\<lambda>n. pr n \<le> pr t) q))" "sorted (map pr (dropWhile (\<lambda>n. pr n \<le> pr t) q))"
    unfolding map_append sorted_append by simp_all
  have "\<forall>x\<in>set (dropWhile (\<lambda>n. pr n \<le> pr t) q). pr t \<le> pr x"
  proof (cases "dropWhile (\<lambda>n. pr n \<le> pr t) q")
    case (Cons y ys)
    then have "\<not> pr y \<le> pr t" by (metis hd_dropWhile list.discI list.sel(1))
    moreover have "sorted (map pr (y # ys))" using assms Cons by (metis sorted_append map_append takeWhile_dropWhile_id)
    ultimately show ?thesis using Cons by auto
  next
    case Nil
    then show ?thesis by (simp only: list.set ball_simps)
  qed
  moreover have "\<forall>x\<in>set (takeWhile (\<lambda>n. pr n \<le> pr t) q). pr x \<le> pr t" by (auto dest: set_takeWhileD)
  ultimately show ?thesis using parts by (auto simp: wait_insert_def sorted_append intro: order_trans)
qed

section \<open>Blocking on a wait list\<close>

lemma kern_wait_add:
  assumes k: "kern_wf s" and t: "unlinked t (klists s)" "tstat s t = RT_THREAD_SUSPEND"
    and L: "ll_wf L" "\<And>h u. u \<in> set (L h) \<longleftrightarrow> u \<in> set (klists s h) \<or> (h = w \<and> u = t)" and w: "wait_head w"
  shows "kern_wf (s\<lparr>klists := L\<rparr>)"
proof -
  let ?s = "s\<lparr>klists := L\<rparr>"
  have same: "tstat ?s u = tstat s u" "prio ?s u = prio s u" "started ?s u = started s u" for u
    by (simp_all add: tstat_def prio_def started_def)
  have "sched_inv {} ?s" using wait_add_inv[of "{}" s t L w] k t L w by (simp add: kern_inv_def)
  moreover have "cur_ok ?s" using k cur_ok_cong[of ?s s] same by (simp add: kern_inv_def)
  moreover have "timer_wf ?s" "thread_tm_wf ?s" "thread_objs ?s"
    using k timer_part_cong[of ?s s] same by (simp_all add: kern_inv_def)
  ultimately show ?thesis by (simp add: kern_inv_def)
qed

lemma suspend_on_list:
  assumes k: "kern_wf s" and t: "tstat s t = RT_THREAD_RUNNING" and h: "wait_head h"
    and flag: "flag = RT_IPC_FLAG_FIFO \<or> flag = RT_IPC_FLAG_PRIO"
  shows "\<exists>s'. do_ipc_list_suspend h t flag s = Some s' \<and> kern_wf s' \<and> cur s' = Some t \<and> no_kern s' = no_kern s \<and>
    (\<forall>u. tstat s' u = (if u = t then RT_THREAD_SUSPEND else tstat s u)) \<and>
    klists s' = (klists s)(h := wait_insert (prio s) flag t (klists s h))"
proof -
  obtain s1 where s1: "rt_thread_suspend t s = Some (RT_EOK, s1)" "kern_wf s1" "cur s1 = Some t"
    "\<And>u. tstat s1 u = (if u = t then RT_THREAD_SUSPEND else tstat s u)" "klists s1 = klists s"
    using suspend_thread[OF k t] by metis
  note n1 = no_kern_suspend[OF s1(1)]
  have pr: "prio s1 u = prio s u" for u by (rule no_kern_thread(6)[OF n1])
  have wf: "ll_wf (klists s)" using k by (simp add: kern_inv_def sched_inv_def)
  have unl: "unlinked t (klists s)" by (rule kern_running(2)[OF k t])
  let ?L = "(klists s)(h := wait_insert (prio s) flag t (klists s h))"
  have mem: "u \<in> set (?L g) \<longleftrightarrow> u \<in> set (klists s g) \<or> (g = h \<and> u = t)" for u g
    by (auto simp: set_wait_insert)
  have "do_ipc_list_suspend h t flag s = Some (s1\<lparr>klists := ?L\<rparr>) \<and> ll_wf ?L"
  proof (cases "flag = RT_IPC_FLAG_PRIO \<and> find (\<lambda>n. prio s t < prio s n) (klists s h) \<noteq> None")
    case True
    then obtain n where n: "find (\<lambda>n. prio s t < prio s n) (klists s h) = Some n" by blast
    have "n \<in> set (klists s h)" using n by (auto simp: find_Some_iff in_set_conv_nth)
    then have g: "n \<notin> set (klists s g)" if "g \<noteq> h" for g using wf that unfolding ll_wf_def by blast
    have "distinct (klists s h)" using wf by (simp add: ll_wf_def)
    then have "insert_at n t (klists s h) = wait_insert (prio s) flag t (klists s h)"
      using insert_at_find[of _ _ n t] n True by (simp add: wait_insert_def not_less)
    then have "ll_insert_node n t (klists s) = ?L" using g by (auto simp: ll_insert_node_def fun_eq_iff)
    moreover have "ll_wf (ll_insert_node n t (klists s))" by (rule ll_wf_insert_node[OF wf unl])
    ultimately show ?thesis using s1(1,5) pr n True by (simp add: do_ipc_list_suspend_def)
  next
    case False
    have "wait_insert (prio s) flag t (klists s h) = klists s h @ [t]"
    proof (cases "flag = RT_IPC_FLAG_PRIO")
      case True
      then have "\<forall>n\<in>set (klists s h). prio s n \<le> prio s t" using False by (auto simp: find_None_iff not_less)
      then have "takeWhile (\<lambda>n. prio s n \<le> prio s t) (klists s h) = klists s h" "dropWhile (\<lambda>n. prio s n \<le> prio s t) (klists s h) = []"
        by (simp_all add: takeWhile_eq_all_conv dropWhile_eq_Nil_conv)
      then show ?thesis by (simp add: wait_insert_def)
    qed (simp add: wait_insert_def)
    then have "ll_insert_before h t (klists s) = ?L" by (auto simp: ll_insert_before_def fun_eq_iff)
    moreover have "ll_wf (ll_insert_before h t (klists s))" by (rule ll_wf_insert_before[OF wf unl])
    ultimately show ?thesis using s1(1,5) pr flag False by (auto simp: do_ipc_list_suspend_def)
  qed
  moreover from this have "kern_wf (s1\<lparr>klists := ?L\<rparr>)"
    using s1(4,5) unl h mem by (intro kern_wait_add[OF s1(2), of t _ h]) auto
  moreover have "tstat (s1\<lparr>klists := ?L\<rparr>) u = (if u = t then RT_THREAD_SUSPEND else tstat s u)" for u
    using s1(4)[of u] by (simp add: tstat_def)
  ultimately show ?thesis using s1(3) n1 by auto
qed

text \<open>A legal timeout: none, or one the assertion of the timer accepts.\<close>

definition time_ok :: "int \<Rightarrow> bool" where
  "time_ok time \<longleftrightarrow> time < 0x7fffffff"

lemma time_ok_word: "time_ok time \<Longrightarrow> 0 < time \<Longrightarrow> (of_int time :: u32) < RT_TICK_HALF"
  by (simp add: time_ok_def word_less_def uint_word_of_int)

lemma wait_on_list:
  assumes k: "kern_wf s" and t: "tstat s t = RT_THREAD_RUNNING" and h: "wait_head h" and ok: "stacks_ok s"
    and flag: "flag = RT_IPC_FLAG_FIFO \<or> flag = RT_IPC_FLAG_PRIO" and time: "time_ok time"
  shows "\<exists>s'. ipc_wait h t flag time s = Some s' \<and> kern_wf s' \<and> stacks_ok s' \<and> cur s' = Some t \<and> no_kern s' = no_kern s \<and>
    (\<forall>u. tstat s' u = (if u = t then RT_THREAD_SUSPEND else tstat s u)) \<and>
    klists s' = (klists s)(h := wait_insert (prio s) flag t (klists s h)) \<and>
    (0 < time \<longrightarrow> has_flag RT_TIMER_FLAG_ACTIVATED (TimerOf t) s' \<and>
       tm_timeout_tick (timers s' (TimerOf t)) = tick s + of_int time)"
proof -
  obtain s1 where s1: "do_ipc_list_suspend h t flag s = Some s1" "kern_wf s1" "cur s1 = Some t" "no_kern s1 = no_kern s"
    "\<forall>u. tstat s1 u = (if u = t then RT_THREAD_SUSPEND else tstat s u)"
    "klists s1 = (klists s)(h := wait_insert (prio s) flag t (klists s h))"
    using suspend_on_list[OF k t h flag] by blast
  have "started s1 u \<Longrightarrow> started s u" for u using s1(5) t by (auto simp: started_def split: if_splits)
  then have ok1: "stacks_ok s1" using stacks_ok_cong[OF s1(4)] ok by blast
  have tk: "tick s1 = tick s" by (rule no_kern_fields(3)[OF s1(4)])
  show ?thesis
  proof (cases "0 < time")
    case False
    then show ?thesis using s1 ok1 by (simp add: ipc_wait_def)
  next
    case True
    have t1: "tstat s1 t = RT_THREAD_SUSPEND" using s1(5) by simp
    obtain s2 where s2: "thread_timer_arm t (of_int time) s1 = Some s2" "kern_wf s2" "threads s2 = threads s1"
      "klists s2 = klists s1" "cur s2 = cur s1" "no_kern s2 = no_kern s1"
      "has_flag RT_TIMER_FLAG_ACTIVATED (TimerOf t) s2" "tm_timeout_tick (timers s2 (TimerOf t)) = tick s1 + of_int time"
      by (rule arm_timer[OF s1(2) t1 time_ok_word[OF time True]])
    have "stacks_ok s2" using ok1 s2(3) by (simp add: stacks_ok_def started_def tstat_def)
    then show ?thesis using s1 s2 True tk threads_same(1)[OF s2(3)] by (simp add: ipc_wait_def)
  qed
qed

lemma ready_group_queues:
  assumes "kern_wf s" "kern_wf s'" "\<And>p. klists s' (Ready p) = klists s (Ready p)"
  shows "ready_group s' \<noteq> 0 \<longleftrightarrow> ready_group s \<noteq> 0"
  using assms by (simp add: word_eq_0_bit kern_inv_def sched_inv_def)

lemma schedule_started:
  assumes "kern_wf s" "cur s \<noteq> None" "stacks_ok s" "rt_schedule s = Some s'"
  shows "started s' u = started s u"
proof (rule schedule_kern[OF assms(1-3)])
  fix s2
  assume s2: "rt_schedule s = Some s2"
    "\<And>u. tstat s u \<in> {RT_THREAD_READY, RT_THREAD_RUNNING} \<Longrightarrow> tstat s2 u \<in> {RT_THREAD_READY, RT_THREAD_RUNNING}"
    "\<And>u. tstat s u \<notin> {RT_THREAD_READY, RT_THREAD_RUNNING} \<Longrightarrow> tstat s2 u = tstat s u"
  have "s' = s2" using s2(1) assms(4) by simp
  then show ?thesis using s2(2,3)[of u] by (auto simp: started_def)
qed

text \<open>The whole of a blocking wait: the caller sleeps on the list and somebody else runs.\<close>

lemma block_and_switch:
  assumes k: "kern_wf s" and t: "cur s = Some t" "tstat s t = RT_THREAD_RUNNING" and h: "wait_head h" and ok: "stacks_ok s"
    and free: "lock_nest s = 0" and some: "ready_group s \<noteq> 0"
    and flag: "flag = RT_IPC_FLAG_FIFO \<or> flag = RT_IPC_FLAG_PRIO" and time: "time_ok time"
  shows "\<exists>s1 s' u. ipc_wait h t flag time s = Some s1 \<and> rt_schedule s1 = Some s' \<and> kern_wf s' \<and> stacks_ok s' \<and>
    cur s' = Some u \<and> u \<noteq> t \<and> tstat s' t = RT_THREAD_SUSPEND \<and> no_kern s' = no_kern s \<and>
    (\<forall>v. started s' v = started s v) \<and>
    (\<forall>g. wait_head g \<longrightarrow> klists s' g = (if g = h then wait_insert (prio s) flag t (klists s h) else klists s g)) \<and>
    (0 < time \<longrightarrow> has_flag RT_TIMER_FLAG_ACTIVATED (TimerOf t) s' \<and>
       tm_timeout_tick (timers s' (TimerOf t)) = tick s + of_int time)"
proof -
  obtain s1 where s1: "ipc_wait h t flag time s = Some s1" "kern_wf s1" "stacks_ok s1" "cur s1 = Some t" "no_kern s1 = no_kern s"
    "\<forall>u. tstat s1 u = (if u = t then RT_THREAD_SUSPEND else tstat s u)"
    "klists s1 = (klists s)(h := wait_insert (prio s) flag t (klists s h))"
    "0 < time \<longrightarrow> has_flag RT_TIMER_FLAG_ACTIVATED (TimerOf t) s1 \<and>
       tm_timeout_tick (timers s1 (TimerOf t)) = tick s + of_int time"
    using wait_on_list[OF k t(2) h ok flag time] by blast
  have rd: "klists s1 (Ready p) = klists s (Ready p)" for p using s1(7) h by (auto simp: wait_head_def)
  have g: "ready_group s1 \<noteq> 0" using ready_group_queues[OF k s1(2) rd] some by simp
  have l: "lock_nest s1 = 0" using no_kern_fields(1)[OF s1(5)] free by simp
  have t1: "tstat s1 t = RT_THREAD_SUSPEND" using s1(6) by simp
  obtain s2 u where s2: "rt_schedule s1 = Some s2" "kern_wf s2" "stacks_ok s2" "cur s2 = Some u" "u \<noteq> t"
    "tstat s2 t = RT_THREAD_SUSPEND" "no_sched s2 = no_sched s1"
    "\<And>h. (\<And>p. h \<noteq> Ready p) \<Longrightarrow> klists s2 h = klists s1 h"
    using schedule_away[OF s1(2,4) t1 s1(3) l g] by metis
  note f = no_sched_fields[OF s2(7)]
  have "klists s2 g = (if g = h then wait_insert (prio s) flag t (klists s h) else klists s g)" if "wait_head g" for g
    using s2(8)[of g] that s1(7) by (auto simp: wait_head_def)
  moreover have "no_kern s2 = no_kern s" using no_kern_sched[OF s2(7)] s1(5) by simp
  moreover have "started s2 v = started s v" for v
    using schedule_started[OF s1(2) _ s1(3) s2(1)] s1(4,6) t(2) by (simp add: started_def)
  ultimately show ?thesis using s1(1,8) s2 f by (auto simp: has_flag_def)
qed


lemma running_not_waiting: "kern_wf s \<Longrightarrow> tstat s t = RT_THREAD_RUNNING \<Longrightarrow> t \<notin> set (klists s h)"
  using kern_running(2)[of s t] by (simp add: unlinked_def)

section \<open>Waking waiters\<close>

lemma schedule_waits:
  assumes wf: "sched_wf s" and c: "cur s \<noteq> None" and r: "rt_schedule s = Some s'" and h: "wait_head h"
  shows "klists s' h = klists s h"
proof (cases "lock_nest s \<noteq> 0 \<or> ready_group s = 0")
  case True
  then show ?thesis using r by (simp add: rt_schedule_idle)
next
  case False
  have inv: "sched_inv {} s" using wf by (simp add: sched_wf_def)
  obtain hi hp where g: "scheduler_get_highest s = Some (hi, hp)"
    using False get_highest_spec(1)[OF inv] by (metis old.prod.exhaust option.exhaust)
  obtain cc where cc: "cur s = Some cc" using c by blast
  have hi: "tstat s hi = RT_THREAD_READY" using get_highest_spec(2)[OF inv g] by blast
  have "hi \<notin> set (klists s h)"
  proof
    assume "hi \<in> set (klists s h)"
    then have "tstat s hi = RT_THREAD_SUSPEND" using inv h unfolding sched_inv_def by blast
    then show False using hi by simp
  qed
  moreover have "h \<noteq> Ready p" for p using h by (auto simp: wait_head_def)
  ultimately show ?thesis
    using rt_schedule_queues[OF wf _ cc g r] False by (simp add: ll_remove_def ll_insert_before_def remove1_idem)
qed

lemma waiter_suspended: "kern_wf s \<Longrightarrow> wait_head h \<Longrightarrow> t \<in> set (klists s h) \<Longrightarrow> tstat s t = RT_THREAD_SUSPEND"
  by (auto simp: kern_inv_def sched_inv_def)

lemma resume_waiter:
  assumes k: "kern_wf s" and ok: "stacks_ok s" and h: "wait_head h" and q: "t \<in> set (klists s h)"
  shows "\<exists>s'. rt_thread_resume t s = Some (RT_EOK, s') \<and>
    kern_wf s' \<and> stacks_ok s' \<and> cur s' = cur s \<and> no_kern s' = no_kern s \<and>
    tstat s' t \<in> {RT_THREAD_READY, RT_THREAD_RUNNING} \<and> (\<forall>u. u \<noteq> t \<longrightarrow> tstat s' u = tstat s u) \<and>
    (\<forall>g. wait_head g \<longrightarrow> klists s' g = (if g = h then remove1 t (klists s h) else klists s g))"
proof -
  have t: "tstat s t = RT_THREAD_SUSPEND" by (rule waiter_suspended[OF k h q])
  obtain s' where s': "rt_thread_resume t s = Some (RT_EOK, s')" "kern_wf s'" "cur s' = cur s"
    "\<And>u. tstat s' u = (if u = t then if cur s = Some t then RT_THREAD_RUNNING else RT_THREAD_READY else tstat s u)"
    "\<And>h. (\<And>p. h \<noteq> Ready p) \<Longrightarrow> klists s' h = ll_remove t (klists s) h"
    using resume_thread[OF k t] by metis
  note n = no_kern_resume[OF s'(1)]
  have "started s' u \<Longrightarrow> started s u" for u using s'(4)[of u] t by (auto simp: started_def split: if_splits)
  then have "stacks_ok s'" using stacks_ok_cong[OF n] ok by blast
  moreover have "klists s' g = (if g = h then remove1 t (klists s h) else klists s g)" if "wait_head g" for g
  proof -
    have wf: "ll_wf (klists s)" using k by (simp add: kern_inv_def sched_inv_def)
    then have "t \<notin> set (klists s g)" if "g \<noteq> h" using q that unfolding ll_wf_def by blast
    then show ?thesis using s'(5)[of g] that by (auto simp: wait_head_def ll_remove_def remove1_idem)
  qed
  ultimately show ?thesis using s' n by auto
qed

lemma resume_head:
  assumes k: "kern_wf s" and ok: "stacks_ok s" and h: "wait_head h" and q: "klists s h = t # ts"
  shows "\<exists>s'. rt_thread_resume t s = Some (RT_EOK, s') \<and> do_ipc_list_resume h s = Some s' \<and>
    kern_wf s' \<and> stacks_ok s' \<and> cur s' = cur s \<and> no_kern s' = no_kern s \<and>
    tstat s' t \<in> {RT_THREAD_READY, RT_THREAD_RUNNING} \<and> (\<forall>u. u \<noteq> t \<longrightarrow> tstat s' u = tstat s u) \<and>
    (\<forall>g. wait_head g \<longrightarrow> klists s' g = (if g = h then ts else klists s g))"
  using resume_waiter[OF k ok h, of t] q by (auto simp: do_ipc_list_resume_def)

text \<open>The switch after a wake-up: nobody's wait ends or begins by it.\<close>

lemma schedule_after:
  assumes k: "kern_wf s" and c: "cur s \<noteq> None" and ok: "stacks_ok s"
  shows "\<exists>s'. rt_schedule s = Some s' \<and> kern_wf s' \<and> stacks_ok s' \<and> cur s' \<noteq> None \<and> no_kern s' = no_kern s \<and>
    (\<forall>u. tstat s u \<in> {RT_THREAD_READY, RT_THREAD_RUNNING} \<longrightarrow> tstat s' u \<in> {RT_THREAD_READY, RT_THREAD_RUNNING}) \<and>
    (\<forall>u. tstat s u \<notin> {RT_THREAD_READY, RT_THREAD_RUNNING} \<longrightarrow> tstat s' u = tstat s u) \<and>
    (\<forall>g. wait_head g \<longrightarrow> klists s' g = klists s g)"
proof (rule schedule_kern[OF k c ok])
  fix s'
  assume s': "rt_schedule s = Some s'" "kern_wf s'" "cur s' \<noteq> None" "stacks_ok s'"
    "\<And>u. tstat s u \<in> {RT_THREAD_READY, RT_THREAD_RUNNING} \<Longrightarrow> tstat s' u \<in> {RT_THREAD_READY, RT_THREAD_RUNNING}"
    "\<And>u. tstat s u \<notin> {RT_THREAD_READY, RT_THREAD_RUNNING} \<Longrightarrow> tstat s' u = tstat s u"
  have "klists s' g = klists s g" if "wait_head g" for g
    by (rule schedule_waits[OF kern_wf_sched[OF k] c s'(1) that])
  then show ?thesis
    using s' no_kern_schedule[OF s'(1)] by (intro exI[of _ s'] conjI allI impI)
qed

text \<open>Changes of a thread structure that neither the scheduler nor the overflow check looks at.\<close>

definition inert :: "(rt_thread \<Rightarrow> rt_thread) \<Rightarrow> bool" where
  "inert f \<longleftrightarrow> (\<forall>th. th_stat (f th) = th_stat th \<and> th_prio (f th) = th_prio th \<and>
     th_number_mask (f th) = th_number_mask th \<and> stack_check (f th) = stack_check th)"

lemma inert_upd:
  assumes "inert f"
  shows "tstat (upd_thread t f s) u = tstat s u" "prio (upd_thread t f s) u = prio s u"
    "kern_inv X (upd_thread t f s) = kern_inv X s" "stacks_ok (upd_thread t f s) = stacks_ok s"
proof -
  have f: "th_stat (f th) = th_stat th" "th_prio (f th) = th_prio th"
    "th_number_mask (f th) = th_number_mask th" "stack_check (f th) = stack_check th" for th
    using assms by (simp_all add: inert_def)
  show 1: "tstat (upd_thread t f s) u = tstat s u" "prio (upd_thread t f s) u = prio s u" for u
    by (simp_all add: tstat_def prio_def upd_thread_def f)
  show "kern_inv X (upd_thread t f s) = kern_inv X s" by (rule kern_inv_cong) (simp_all add: upd_thread_def 1[unfolded upd_thread_def] f)
  have "stack_check (threads (upd_thread t f s) u) = stack_check (threads s u)"
    "started (upd_thread t f s) u = started s u" for u
    using 1[of u] by (simp_all add: upd_thread_def f started_def)
  then show "stacks_ok (upd_thread t f s) = stacks_ok s" by (simp add: stacks_ok_def)
qed

lemma no_kern_error: "no_kern s' = no_kern s \<Longrightarrow>
    no_kern (upd_thread t (\<lambda>th. th\<lparr>th_error := e\<rparr>) s') = no_kern (upd_thread t (\<lambda>th. th\<lparr>th_error := e\<rparr>) s)"
proof -
  assume a: "no_kern s' = no_kern s"
  have "no_kern (upd_thread t (\<lambda>th. th\<lparr>th_error := e\<rparr>) x) =
      (no_kern x)\<lparr>threads := (threads (no_kern x))(t := (threads (no_kern x) t)\<lparr>th_error := e\<rparr>)\<rparr>" for x
    by (auto simp: no_kern_def no_sched_def upd_thread_def intro!: kstate.equality ext)
  then show ?thesis using a by simp
qed

lemma error_same [simp]:
  "klists (upd_thread t f s) = klists s" "lock_nest (upd_thread t f s) = lock_nest s"
  "ready_group (upd_thread t f s) = ready_group s" "int_nest (upd_thread t f s) = int_nest s"
  "objs (upd_thread t f s) = objs s" "tick (upd_thread t f s) = tick s"
  "sems (upd_thread t f s) = sems s" "mutexes (upd_thread t f s) = mutexes s" "events (upd_thread t f s) = events s"
  "mailboxes (upd_thread t f s) = mailboxes s" "mqs (upd_thread t f s) = mqs s" "timers (upd_thread t f s) = timers s"
  "rt_object_get_type a (upd_thread t f s) = rt_object_get_type a s"
  by (simp_all add: upd_thread_def rt_object_get_type_def)

lemma stacks_ok_error [simp]: "stacks_ok (upd_thread t (\<lambda>th. th\<lparr>th_error := e\<rparr>) s) = stacks_ok s"
proof -
  let ?s = "upd_thread t (\<lambda>th. th\<lparr>th_error := e\<rparr>) s"
  have "stack_check (threads ?s u) = stack_check (threads s u)" "started ?s u = started s u" for u
    by (simp_all add: stack_check_def started_def) (simp_all add: upd_thread_def)
  then show ?thesis by (simp add: stacks_ok_def)
qed

text \<open>
  Waking all waiters: the loop ends, the list is empty, every waiter is ready with \<open>-RT_ERROR\<close>.
\<close>

lemma resume_all:
  assumes h: "wait_head h"
  shows "kern_wf s \<Longrightarrow> stacks_ok s \<Longrightarrow> \<exists>s'. do_ipc_list_resume_all h s = Some s' \<and> kern_wf s' \<and> stacks_ok s' \<and> cur s' = cur s \<and>
    (\<forall>g. wait_head g \<longrightarrow> klists s' g = (if g = h then [] else klists s g)) \<and>
    (\<forall>t\<in>set (klists s h). tstat s' t \<in> {RT_THREAD_READY, RT_THREAD_RUNNING}) \<and>
    (\<forall>t. th_error (threads s' t) = (if t \<in> set (klists s h) then - RT_ERROR else th_error (threads s t))) \<and>
    (\<forall>u. u \<notin> set (klists s h) \<longrightarrow> tstat s' u = tstat s u) \<and>
    (\<exists>f. no_kern s' = no_kern (s\<lparr>threads := (\<lambda>t. (threads s t)\<lparr>th_error := f t\<rparr>)\<rparr>))"
proof (induction "klists s h" arbitrary: s)
  case Nil
  have "threads s = (\<lambda>t. (threads s t)\<lparr>th_error := th_error (threads s t)\<rparr>)" by simp
  then have "no_kern s = no_kern (s\<lparr>threads := (\<lambda>t. (threads s t)\<lparr>th_error := th_error (threads s t)\<rparr>)\<rparr>)" by simp
  then show ?case using Nil by (subst do_ipc_list_resume_all.simps) (auto intro: exI[of _ "\<lambda>t. th_error (threads s t)"])
next
  case (Cons t ts)
  let ?s = "upd_thread t (\<lambda>th. th\<lparr>th_error := - RT_ERROR\<rparr>) s"
  have q: "klists ?s h = t # ts" using Cons.hyps(2) by simp
  obtain s1 where s1: "rt_thread_resume t ?s = Some (RT_EOK, s1)" "kern_wf s1" "stacks_ok s1" "cur s1 = cur s"
    "no_kern s1 = no_kern ?s" "tstat s1 t \<in> {RT_THREAD_READY, RT_THREAD_RUNNING}" "\<forall>u. u \<noteq> t \<longrightarrow> tstat s1 u = tstat s u"
    "\<forall>g. wait_head g \<longrightarrow> klists s1 g = (if g = h then ts else klists s g)"
    using resume_head[of ?s h t ts] Cons.prems h q by (auto simp: kern_inv_error)
  have ts: "ts = klists s1 h" using s1(8) h by simp
  obtain s' f where s': "do_ipc_list_resume_all h s1 = Some s'" "kern_wf s'" "stacks_ok s'" "cur s' = cur s1"
    "\<forall>g. wait_head g \<longrightarrow> klists s' g = (if g = h then [] else klists s1 g)"
    "\<forall>t\<in>set ts. tstat s' t \<in> {RT_THREAD_READY, RT_THREAD_RUNNING}"
    "\<forall>t. th_error (threads s' t) = (if t \<in> set ts then - RT_ERROR else th_error (threads s1 t))"
    "\<forall>u. u \<notin> set ts \<longrightarrow> tstat s' u = tstat s1 u"
    "no_kern s' = no_kern (s1\<lparr>threads := (\<lambda>t. (threads s1 t)\<lparr>th_error := f t\<rparr>)\<rparr>)"
    using Cons.hyps(1)[OF ts s1(2,3)] unfolding ts by blast
  have "do_ipc_list_resume_all h s = Some s'"
    using s1(1) s'(1) Cons.hyps(2) by (subst do_ipc_list_resume_all.simps) (simp flip: Cons.hyps(2))
  moreover have e1: "th_error (threads s1 u) = (if u = t then - RT_ERROR else th_error (threads s u))" for u
    using no_kern_thread(2)[OF s1(5), of u] by (simp add: upd_thread_def)
  moreover have nd: "t \<notin> set ts"
    using Cons.prems Cons.hyps(2) unfolding kern_inv_def sched_inv_def ll_wf_def by (metis distinct.simps(2))
  moreover have "no_kern s' = no_kern (s\<lparr>threads := (\<lambda>u. (threads s u)\<lparr>th_error := f u\<rparr>)\<rparr>)"
  proof -
    have "no_kern (x\<lparr>threads := (\<lambda>u. (threads x u)\<lparr>th_error := f u\<rparr>)\<rparr>) =
        (no_kern x)\<lparr>threads := (\<lambda>u. (threads (no_kern x) u)\<lparr>th_error := f u\<rparr>)\<rparr>" for x
      by (auto simp: no_kern_def no_sched_def intro!: kstate.equality ext)
    note m = this
    show ?thesis unfolding s'(9) m s1(5)
      by (auto simp: no_kern_def no_sched_def upd_thread_def intro!: kstate.equality ext)
  qed
  ultimately show ?case
    using s1 s' by (intro exI[of _ s'] conjI) (auto simp flip: Cons.hyps(2) ts simp: nd)
qed


section \<open>Waking one waiter and switching\<close>

text \<open>How mailboxes and message queues end: if somebody waits on the list, the first is woken.\<close>

definition wake_one :: "lhead \<Rightarrow> kstate \<Rightarrow> kstate option" where
  "wake_one h s = (if klists s h \<noteq> [] then do { s \<leftarrow> do_ipc_list_resume h s; rt_schedule s } else Some s)"

lemma wake_one_kern:
  assumes k: "kern_wf s" and ok: "stacks_ok s" and c: "cur s \<noteq> None" and h: "wait_head h"
  shows "\<exists>s'. wake_one h s = Some s' \<and> kern_wf s' \<and> stacks_ok s' \<and> no_kern s' = no_kern s \<and>
    (\<forall>g. wait_head g \<longrightarrow> klists s' g = (if g = h then tl (klists s h) else klists s g)) \<and>
    (\<forall>t ts. klists s h = t # ts \<longrightarrow> tstat s' t \<in> {RT_THREAD_READY, RT_THREAD_RUNNING})"
proof (cases "klists s h")
  case Nil
  then show ?thesis using k ok by (intro exI[of _ s]) (simp add: wake_one_def)
next
  case (Cons t ts)
  obtain s1 where s1: "do_ipc_list_resume h s = Some s1" "kern_wf s1" "stacks_ok s1" "cur s1 = cur s" "no_kern s1 = no_kern s"
    "tstat s1 t \<in> {RT_THREAD_READY, RT_THREAD_RUNNING}" "\<forall>g. wait_head g \<longrightarrow> klists s1 g = (if g = h then ts else klists s g)"
    using resume_head[OF k ok h Cons] by blast
  have c1: "cur s1 \<noteq> None" using s1(4) c by simp
  obtain s2 where s2: "rt_schedule s1 = Some s2" "kern_wf s2" "stacks_ok s2" "no_kern s2 = no_kern s1"
    "\<forall>u. tstat s1 u \<in> {RT_THREAD_READY, RT_THREAD_RUNNING} \<longrightarrow> tstat s2 u \<in> {RT_THREAD_READY, RT_THREAD_RUNNING}"
    "\<forall>g. wait_head g \<longrightarrow> klists s2 g = klists s1 g"
    using schedule_after[OF s1(2) c1 s1(3)] by blast
  have "tstat s2 t \<in> {RT_THREAD_READY, RT_THREAD_RUNNING}" using s1(6) s2(5) by blast
  then show ?thesis using s1 s2 Cons by (intro exI[of _ s2]) (simp add: wake_one_def)
qed

text \<open>Blocking after the error code of the caller has been reset, as the two-sided objects do.\<close>

lemma block_reset:
  assumes k: "kern_wf s" and t: "cur s = Some t" "tstat s t = RT_THREAD_RUNNING" and h: "wait_head h" and ok: "stacks_ok s"
    and free: "lock_nest s = 0" "ready_group s \<noteq> 0" and flag: "ipc_flag_ok flag" and time: "time_ok time"
  shows "\<exists>s1 s'. ipc_wait h t flag time (upd_thread t (\<lambda>th. th\<lparr>th_error := RT_EOK\<rparr>) s) = Some s1 \<and> rt_schedule s1 = Some s' \<and>
    kern_wf s' \<and> stacks_ok s' \<and> cur s' \<noteq> Some t \<and> tstat s' t = RT_THREAD_SUSPEND \<and>
    no_kern s' = no_kern (upd_thread t (\<lambda>th. th\<lparr>th_error := RT_EOK\<rparr>) s) \<and>
    (\<forall>g. wait_head g \<longrightarrow> klists s' g = (if g = h then wait_insert (prio s) flag t (klists s h) else klists s g)) \<and>
    (0 < time \<longrightarrow> tm_timeout_tick (timers s' (TimerOf t)) = tick s + of_int time)"
proof -
  let ?s = "upd_thread t (\<lambda>th. th\<lparr>th_error := RT_EOK\<rparr>) s"
  have k0: "kern_wf ?s" "stacks_ok ?s" "cur ?s = Some t" "tstat ?s t = RT_THREAD_RUNNING" "lock_nest ?s = 0" "ready_group ?s \<noteq> 0"
    using k ok t free by (simp_all add: kern_inv_error)
  have fl: "flag = RT_IPC_FLAG_FIFO \<or> flag = RT_IPC_FLAG_PRIO" using flag by (simp add: ipc_flag_ok_def)
  have pr: "prio ?s = prio s" by (simp add: fun_eq_iff)
  obtain s1 s' u where b: "ipc_wait h t flag time ?s = Some s1" "rt_schedule s1 = Some s'"
    "kern_wf s'" "stacks_ok s'" "cur s' = Some u" "u \<noteq> t" "tstat s' t = RT_THREAD_SUSPEND" "no_kern s' = no_kern ?s"
    "\<forall>g. wait_head g \<longrightarrow> klists s' g = (if g = h then wait_insert (prio ?s) flag t (klists ?s h) else klists ?s g)"
    "0 < time \<longrightarrow> has_flag RT_TIMER_FLAG_ACTIVATED (TimerOf t) s' \<and> tm_timeout_tick (timers s' (TimerOf t)) = tick ?s + of_int time"
    using block_and_switch[OF k0(1,3,4) h k0(2,5,6) fl time] by blast
  then show ?thesis by (simp add: pr)
qed

section \<open>Objects with waiters on both sides\<close>

text \<open>
  What mailboxes and message queues have in common: an object of class \<open>c\<close> with a legal flag, whose
  waiting receivers and senders have no error pending. Waking and blocking keep it.
\<close>

definition two_sided :: "u8 \<Rightarrow> nat \<Rightarrow> kstate \<Rightarrow> bool" where
  "two_sided c x s \<longleftrightarrow> rt_object_get_type (Mem x) s = c \<and> c \<noteq> RT_Object_Class_Timer \<and> ipc_flag_ok (oflag (objs s (Mem x))) \<and>
     (\<forall>h\<in>{Susp x, SuspSender x}. \<forall>t\<in>set (klists s h). th_error (threads s t) = RT_EOK)"

lemma two_heads: "h \<in> {Susp x, SuspSender x} \<Longrightarrow> wait_head h"
  by (auto simp: wait_head_def)

lemma two_sided_cong:
  assumes "two_sided c x s" "rt_object_get_type (Mem x) s' = rt_object_get_type (Mem x) s" "objs s' (Mem x) = objs s (Mem x)"
    and "\<And>h t. h \<in> {Susp x, SuspSender x} \<Longrightarrow> t \<in> set (klists s' h) \<Longrightarrow> th_error (threads s' t) = RT_EOK"
  shows "two_sided c x s'"
  using assms by (simp add: two_sided_def)

lemma two_sided_wake:
  assumes k: "kern_wf s" "stacks_ok s" "cur s \<noteq> None" and o: "two_sided c x s" and h: "h \<in> {Susp x, SuspSender x}"
  shows "\<exists>s'. wake_one h s = Some s' \<and> kern_wf s' \<and> stacks_ok s' \<and> two_sided c x s' \<and> no_kern s' = no_kern s \<and>
    klists s' h = tl (klists s h) \<and> (\<forall>t ts. klists s h = t # ts \<longrightarrow> tstat s' t \<in> {RT_THREAD_READY, RT_THREAD_RUNNING})"
proof -
  have wh: "wait_head h" by (rule two_heads[OF h])
  obtain s' where s': "wake_one h s = Some s'" "kern_wf s'" "stacks_ok s'" "no_kern s' = no_kern s"
    "\<forall>g. wait_head g \<longrightarrow> klists s' g = (if g = h then tl (klists s h) else klists s g)"
    "\<forall>t ts. klists s h = t # ts \<longrightarrow> tstat s' t \<in> {RT_THREAD_READY, RT_THREAD_RUNNING}"
    using wake_one_kern[OF k wh] by blast
  have "two_sided c x s'"
  proof (rule two_sided_cong[OF o no_kern_fields(12,14)[OF s'(4)]])
    show "rt_object_get_type (Mem x) s \<noteq> RT_Object_Class_Timer" using o by (simp add: two_sided_def)
    fix g t assume g: "g \<in> {Susp x, SuspSender x}" and t: "t \<in> set (klists s' g)"
    have "klists s' g = (if g = h then tl (klists s h) else klists s g)" using s'(5) two_heads[OF g] by blast
    then have "t \<in> set (klists s g)" using t by (metis empty_iff list.set(1) list.set_sel(2) tl_Nil)
    then show "th_error (threads s' t) = RT_EOK" using o g no_kern_thread(2)[OF s'(4), of t] unfolding two_sided_def by auto
  qed
  then show ?thesis using s' wh by (intro exI[of _ s']) simp
qed

lemma two_sided_block:
  assumes k: "kern_wf s" and t: "cur s = Some t" "tstat s t = RT_THREAD_RUNNING" and ok: "stacks_ok s" and o: "two_sided c x s"
    and free: "lock_nest s = 0" "ready_group s \<noteq> 0" and time: "time_ok time" and h: "h \<in> {Susp x, SuspSender x}"
  shows "\<exists>s1 s'. ipc_wait h t (oflag (objs s (Mem x))) time (upd_thread t (\<lambda>th. th\<lparr>th_error := RT_EOK\<rparr>) s) = Some s1 \<and>
    rt_schedule s1 = Some s' \<and> kern_wf s' \<and> stacks_ok s' \<and> two_sided c x s' \<and>
    no_kern s' = no_kern (upd_thread t (\<lambda>th. th\<lparr>th_error := RT_EOK\<rparr>) s) \<and>
    cur s' \<noteq> Some t \<and> tstat s' t = RT_THREAD_SUSPEND \<and>
    klists s' h = wait_insert (prio s) (oflag (objs s (Mem x))) t (klists s h) \<and>
    (0 < time \<longrightarrow> tm_timeout_tick (timers s' (TimerOf t)) = tick s + of_int time)"
proof -
  have wh: "wait_head h" by (rule two_heads[OF h])
  have fl: "ipc_flag_ok (oflag (objs s (Mem x)))" using o by (simp add: two_sided_def)
  obtain s1 s' where b: "ipc_wait h t (oflag (objs s (Mem x))) time (upd_thread t (\<lambda>th. th\<lparr>th_error := RT_EOK\<rparr>) s) = Some s1"
    "rt_schedule s1 = Some s'" "kern_wf s'" "stacks_ok s'" "cur s' \<noteq> Some t" "tstat s' t = RT_THREAD_SUSPEND"
    "no_kern s' = no_kern (upd_thread t (\<lambda>th. th\<lparr>th_error := RT_EOK\<rparr>) s)"
    "\<forall>g. wait_head g \<longrightarrow> klists s' g = (if g = h then wait_insert (prio s) (oflag (objs s (Mem x))) t (klists s h) else klists s g)"
    "0 < time \<longrightarrow> tm_timeout_tick (timers s' (TimerOf t)) = tick s + of_int time"
    using block_reset[OF k t wh ok free fl time] by blast
  have ob: "rt_object_get_type (Mem x) s' = rt_object_get_type (Mem x) s" "objs s' (Mem x) = objs s (Mem x)"
    using no_kern_fields(12)[OF b(7), of "Mem x"] no_kern_fields(14)[OF b(7), of "Mem x"] o by (simp_all add: two_sided_def)
  have "two_sided c x s'"
  proof (rule two_sided_cong[OF o ob])
    fix g u assume g: "g \<in> {Susp x, SuspSender x}" and u: "u \<in> set (klists s' g)"
    have "u = t \<or> u \<in> set (klists s g)" using b(8) two_heads[OF g] u by (auto simp: set_wait_insert split: if_splits)
    moreover have "th_error (threads s' u) = (if u = t then RT_EOK else th_error (threads s u))"
      using no_kern_thread(2)[OF b(7), of u] by (simp add: upd_thread_def)
    ultimately show "th_error (threads s' u) = RT_EOK" using o g unfolding two_sided_def by auto
  qed
  then show ?thesis using b wh by (intro exI[of _ s1] exI[of _ s']) simp
qed

section \<open>A concrete state with IPC objects\<close>

lemma kern_upd_obj:
  assumes "kern_inv X s" "rt_object_get_type (Mem x) s \<notin> {RT_Object_Class_Thread, RT_Object_Class_Timer}"
    and "otype ob AND NOT RT_Object_Class_Static \<notin> {RT_Object_Class_Thread, RT_Object_Class_Timer}"
  shows "kern_inv X (s\<lparr>objs := (objs s)(Mem x := ob)\<rparr>)"
proof -
  let ?s = "s\<lparr>objs := (objs s)(Mem x := ob)\<rparr>"
  have same: "tstat ?s t = tstat s t" "prio ?s t = prio s t" "started ?s t = started s t" for t
    by (simp_all add: tstat_def prio_def started_def)
  have ty: "rt_object_get_type a ?s = (if a = Mem x then otype ob AND NOT RT_Object_Class_Static else rt_object_get_type a s)" for a
    by (simp add: rt_object_get_type_def)
  have hf: "has_flag f a ?s = (if a = Mem x then oflag ob AND f \<noteq> 0 else has_flag f a s)" for f a
    by (simp add: has_flag_def)
  have "sched_inv X ?s" "cur_ok ?s"
    using assms(1) sched_inv_cong[of ?s s X] cur_ok_cong[of ?s s] same by (simp_all add: kern_inv_def)
  moreover have "timer_wf ?s"
    using assms(1,2) unfolding kern_inv_def timer_wf_def ty hf by auto
  moreover have "thread_tm_wf ?s" using assms(1) unfolding kern_inv_def thread_tm_wf_def hf same by simp
  moreover have "thread_objs ?s"
    using assms(1,2) unfolding kern_inv_def thread_objs_def same ty by auto
  ultimately show ?thesis by (simp add: kern_inv_def)
qed

text \<open>\<open>idemo\<close> is \<open>kdemo\<close> with five IPC objects, a semaphore at 30 to a message queue at 34.\<close>

definition idemo :: kstate where
  "idemo = kdemo\<lparr>objs := (objs kdemo)(Mem 30 := \<lparr>oname = [], otype = 0x82, oflag = 0\<rparr>,
     Mem 31 := \<lparr>oname = [], otype = 0x83, oflag = 1\<rparr>, Mem 32 := \<lparr>oname = [], otype = 0x84, oflag = 0\<rparr>,
     Mem 33 := \<lparr>oname = [], otype = 0x85, oflag = 0\<rparr>, Mem 34 := \<lparr>oname = [], otype = 0x86, oflag = 0\<rparr>)\<rparr>"

lemma idemo_simps [simp]:
  "threads idemo = threads demo" "klists idemo = klists demo" "ready_group idemo = ready_group demo"
  "cur idemo = Some 2" "tick idemo = 100" "lock_nest idemo = 0" "int_nest idemo = 0"
  "tstat idemo 2 = RT_THREAD_RUNNING" "prio idemo 2 = 10"
  "rt_object_get_type (Mem 30) idemo = RT_Object_Class_Semaphore" "rt_object_get_type (Mem 31) idemo = RT_Object_Class_Mutex"
  "rt_object_get_type (Mem 32) idemo = RT_Object_Class_Event" "rt_object_get_type (Mem 33) idemo = RT_Object_Class_MailBox"
  "rt_object_get_type (Mem 34) idemo = RT_Object_Class_MessageQueue"
  "oflag (objs idemo (Mem 30)) = 0" "oflag (objs idemo (Mem 31)) = 1" "oflag (objs idemo (Mem 32)) = 0"
  "oflag (objs idemo (Mem 33)) = 0" "oflag (objs idemo (Mem 34)) = 0"
  "sems idemo = sems bss" "mutexes idemo = mutexes bss" "events idemo = events bss"
  "mailboxes idemo = mailboxes bss" "mqs idemo = mqs bss"
  using demo_tstat[of 2] demo_prio[of 2]
  by (simp_all add: idemo_def tstat_def prio_def rt_object_get_type_def) (simp_all add: kdemo_def demo_def bss_def)

lemma kdemo_ipc_types: "30 \<le> x \<Longrightarrow> rt_object_get_type (Mem x) kdemo = 0"
  by (simp add: kdemo_def rt_object_get_type_def)

lemma idemo_wf: "kern_wf idemo"
  unfolding idemo_def
  using kern_upd_obj[OF kern_upd_obj[OF kern_upd_obj[OF kern_upd_obj[OF kern_upd_obj[OF kdemo_wf,
    of 30 "\<lparr>oname = [], otype = 0x82, oflag = 0\<rparr>"], of 31 "\<lparr>oname = [], otype = 0x83, oflag = 1\<rparr>"],
    of 32 "\<lparr>oname = [], otype = 0x84, oflag = 0\<rparr>"], of 33 "\<lparr>oname = [], otype = 0x85, oflag = 0\<rparr>"],
    of 34 "\<lparr>oname = [], otype = 0x86, oflag = 0\<rparr>"]
    kdemo_ipc_types[of 30] kdemo_ipc_types[of 31] kdemo_ipc_types[of 32] kdemo_ipc_types[of 33] kdemo_ipc_types[of 34]
  by (simp add: rt_object_get_type_def)

lemma idemo_stacks: "stacks_ok idemo"
  using kdemo_stacks unfolding stacks_ok_def started_def tstat_def by simp

end
