(* ===== verification/Mutex.thy ===== *)
theory Mutex
  imports IpcBase
begin

text \<open>
  Mutexes of \<^verbatim>\<open>src/ipc.c\<close>: recursive locks with an owner, a hold count and priority inheritance. The
  abstract mutex is the owner with the number of its holds, if any, and the queue of waiters; the
  invariant ties the four fields together and says that an owner never runs at a lower priority than
  a thread that waits for it.
\<close>

section \<open>Operations\<close>

definition upd_mutex :: "nat \<Rightarrow> (rt_mutex \<Rightarrow> rt_mutex) \<Rightarrow> kstate \<Rightarrow> kstate" where
  "upd_mutex x f s = s\<lparr>mutexes := (mutexes s)(x := f (mutexes s x))\<rparr>"

abbreviation (input) RT_MUTEX_HOLD_MAX :: u8 where "RT_MUTEX_HOLD_MAX \<equiv> 0xff"
abbreviation (input) RT_MUTEX_VALUE_MAX :: u16 where "RT_MUTEX_VALUE_MAX \<equiv> 0xffff"

definition fresh_mutex :: rt_mutex where
  "fresh_mutex = \<lparr>mx_value = 1, mx_original_priority = 0xff, mx_hold = 0, mx_owner = None\<rparr>"

definition rt_mutex_init :: "nat \<Rightarrow> u8 list \<Rightarrow> kstate \<Rightarrow> (int \<times> kstate) option" where
  "rt_mutex_init x nm s = do {
     s \<leftarrow> rt_object_init (Mem x) RT_Object_Class_Mutex nm s;
     let s = do_ipc_object_init (Susp x) s;
     Some (RT_EOK, set_flag x RT_IPC_FLAG_PRIO (upd_mutex x (\<lambda>_. fresh_mutex) s))
   }"

definition rt_mutex_detach :: "nat \<Rightarrow> kstate \<Rightarrow> (int \<times> kstate) option" where
  "rt_mutex_detach x s = do {
     _ \<leftarrow> kassert (rt_object_get_type (Mem x) s = RT_Object_Class_Mutex);
     _ \<leftarrow> kassert (rt_object_is_systemobject (Mem x) s);
     s \<leftarrow> do_ipc_list_resume_all (Susp x) s;
     Some (RT_EOK, rt_object_detach (Mem x) s)
   }"

definition rt_mutex_create :: "nat option \<Rightarrow> u8 list \<Rightarrow> kstate \<Rightarrow> (nat option \<times> kstate) option" where
  "rt_mutex_create block nm s = do {
     _ \<leftarrow> kassert (not_in_interrupt s);
     (r, s) \<leftarrow> rt_object_allocate block RT_Object_Class_Mutex nm s;
     case r of
       None \<Rightarrow> Some (None, s)
     | Some x \<Rightarrow>
         let s = do_ipc_object_init (Susp x) s
         in Some (Some x, set_flag x RT_IPC_FLAG_PRIO (upd_mutex x (\<lambda>_. fresh_mutex) s))
   }"

definition rt_mutex_delete :: "nat \<Rightarrow> kstate \<Rightarrow> (int \<times> kstate) option" where
  "rt_mutex_delete x s = do {
     _ \<leftarrow> kassert (rt_object_get_type (Mem x) s = RT_Object_Class_Mutex);
     _ \<leftarrow> kassert (\<not> rt_object_is_systemobject (Mem x) s);
     _ \<leftarrow> kassert (not_in_interrupt s);
     s \<leftarrow> do_ipc_list_resume_all (Susp x) s;
     s \<leftarrow> rt_object_delete (Mem x) s;
     Some (RT_EOK, s)
   }"

text \<open>
  Inheritance: before the caller \<open>t\<close> queues, the owner is raised to the caller's priority if that is
  the higher one.
\<close>

definition inherit :: "tid \<Rightarrow> tid \<Rightarrow> kstate \<Rightarrow> kstate option" where
  "inherit t own s =
    (if th_prio (threads s t) < th_prio (threads s own)
     then do { (_, s) \<leftarrow> rt_thread_control own RT_THREAD_CTRL_CHANGE_PRIORITY (th_prio (threads s t)) s; Some s }
     else Some s)"

text \<open>A mutex with no tokens and no owner would be a null dereference.\<close>

definition rt_mutex_take :: "nat \<Rightarrow> int \<Rightarrow> kstate \<Rightarrow> ((int, tid) outcome \<times> kstate) option" where
  "rt_mutex_take x time s = do {
     _ \<leftarrow> kassert (scheduler_available True s);
     _ \<leftarrow> kassert (rt_object_get_type (Mem x) s = RT_Object_Class_Mutex);
     t \<leftarrow> rt_thread_self s;
     let s = upd_thread t (\<lambda>th. th\<lparr>th_error := RT_EOK\<rparr>) s;
     let m = mutexes s x;
     if mx_owner m = Some t then
       (if mx_hold m < RT_MUTEX_HOLD_MAX
        then Some (Done RT_EOK, upd_mutex x (\<lambda>m. m\<lparr>mx_hold := mx_hold m + 1\<rparr>) s)
        else Some (Done (- RT_EFULL), s))
     else if mx_value m > 0 then
       (let s = upd_mutex x (\<lambda>m. m\<lparr>mx_value := mx_value m - 1, mx_owner := Some t,
                  mx_original_priority := th_prio (threads s t)\<rparr>) s
        in if mx_hold m < RT_MUTEX_HOLD_MAX
           then Some (Done RT_EOK, upd_mutex x (\<lambda>m. m\<lparr>mx_hold := mx_hold m + 1\<rparr>) s)
           else Some (Done (- RT_EFULL), s))
     else if time = 0 then
       Some (Done (- RT_ETIMEOUT), upd_thread t (\<lambda>th. th\<lparr>th_error := - RT_ETIMEOUT\<rparr>) s)
     else do {
       own \<leftarrow> mx_owner m;
       s \<leftarrow> inherit t own s;
       s \<leftarrow> ipc_wait (Susp x) t (oflag (objs s (Mem x))) time s;
       s \<leftarrow> rt_schedule s;
       Some (Blocked t, s)
     }
   }"

definition rt_mutex_take_resume :: "tid \<Rightarrow> kstate \<Rightarrow> int" where
  "rt_mutex_take_resume t s = (if th_error (threads s t) \<noteq> RT_EOK then th_error (threads s t) else RT_EOK)"

definition rt_mutex_trytake :: "nat \<Rightarrow> kstate \<Rightarrow> ((int, tid) outcome \<times> kstate) option" where
  "rt_mutex_trytake x s = rt_mutex_take x 0 s"

text \<open>
  The release: after the last hold the owner returns to the priority it had when it took the mutex
  (\<open>restore\<close>), and the mutex goes to the first waiter or becomes free (\<open>give_up\<close>).
\<close>

definition restore :: "tid \<Rightarrow> u8 \<Rightarrow> kstate \<Rightarrow> kstate option" where
  "restore t p s = (if p \<noteq> th_prio (threads s t)
     then do { (_, s) \<leftarrow> rt_thread_control t RT_THREAD_CTRL_CHANGE_PRIORITY p s; Some s } else Some s)"

definition give_up :: "nat \<Rightarrow> kstate \<Rightarrow> (int \<times> kstate) option" where
  "give_up x s =
    (case klists s (Susp x) of
       w # _ \<Rightarrow>
         let s = upd_mutex x (\<lambda>m. m\<lparr>mx_owner := Some w, mx_original_priority := th_prio (threads s w)\<rparr>) s
         in if mx_hold (mutexes s x) < RT_MUTEX_HOLD_MAX then do {
              s \<leftarrow> do_ipc_list_resume (Susp x) (upd_mutex x (\<lambda>m. m\<lparr>mx_hold := mx_hold m + 1\<rparr>) s);
              s \<leftarrow> rt_schedule s;
              Some (RT_EOK, s)
            } else Some (- RT_EFULL, s)
     | [] \<Rightarrow>
         if mx_value (mutexes s x) < RT_MUTEX_VALUE_MAX then
           Some (RT_EOK, upd_mutex x (\<lambda>m. m\<lparr>mx_value := mx_value m + 1, mx_owner := None, mx_original_priority := 0xff\<rparr>) s)
         else Some (- RT_EFULL, s))"

definition rt_mutex_release :: "nat \<Rightarrow> kstate \<Rightarrow> (int \<times> kstate) option" where
  "rt_mutex_release x s = do {
     _ \<leftarrow> kassert (rt_object_get_type (Mem x) s = RT_Object_Class_Mutex);
     _ \<leftarrow> kassert (in_thread_context s);
     t \<leftarrow> rt_thread_self s;
     if mx_owner (mutexes s x) \<noteq> Some t then
       Some (- RT_ERROR, upd_thread t (\<lambda>th. th\<lparr>th_error := - RT_ERROR\<rparr>) s)
     else do {
       let s = upd_mutex x (\<lambda>m. m\<lparr>mx_hold := mx_hold m - 1\<rparr>) s;
       if mx_hold (mutexes s x) \<noteq> 0 then Some (RT_EOK, s)
       else do {
         s \<leftarrow> restore t (mx_original_priority (mutexes s x)) s;
         give_up x s
       }
     }
   }"

definition rt_mutex_control :: "nat \<Rightarrow> kstate \<Rightarrow> (int \<times> kstate) option" where
  "rt_mutex_control x s = do {
     _ \<leftarrow> kassert (rt_object_get_type (Mem x) s = RT_Object_Class_Mutex);
     Some (- RT_ERROR, s)
   }"

section \<open>The abstract mutex\<close>

definition abs_mutex :: "kstate \<Rightarrow> nat \<Rightarrow> (tid \<times> nat) option \<times> tid list" where
  "abs_mutex s x = (map_option (\<lambda>own. (own, unat (mx_hold (mutexes s x)))) (mx_owner (mutexes s x)), klists s (Susp x))"

text \<open>
  \<open>held_by\<close>: what holds while a thread owns the mutex. The inheritance clause is the last one.
\<close>

definition held_by :: "rt_mutex \<Rightarrow> tid list \<Rightarrow> tid \<Rightarrow> kstate \<Rightarrow> bool" where
  "held_by m q own s \<longleftrightarrow> mx_value m = 0 \<and> 0 < mx_hold m \<and> unat (mx_original_priority m) < 32 \<and> started s own \<and>
     own \<notin> set q \<and> (\<forall>w\<in>set q. prio s own \<le> prio s w)"

definition mutex_ok :: "nat \<Rightarrow> kstate \<Rightarrow> bool" where
  "mutex_ok x s \<longleftrightarrow> rt_object_get_type (Mem x) s = RT_Object_Class_Mutex \<and> oflag (objs s (Mem x)) = RT_IPC_FLAG_PRIO \<and>
     (case mx_owner (mutexes s x) of
        None \<Rightarrow> mx_value (mutexes s x) = 1 \<and> mx_hold (mutexes s x) = 0 \<and> klists s (Susp x) = []
      | Some own \<Rightarrow> held_by (mutexes s x) (klists s (Susp x)) own s) \<and>
     sorted (map (prio s) (klists s (Susp x))) \<and> (\<forall>w\<in>set (klists s (Susp x)). th_error (threads s w) = RT_EOK)"

lemma kern_upd_mutex: "kern_inv X (upd_mutex x f s) = kern_inv X s" "stacks_ok (upd_mutex x f s) = stacks_ok s"
proof -
  show "kern_inv X (upd_mutex x f s) = kern_inv X s"
    by (rule kern_inv_cong) (simp_all add: upd_mutex_def tstat_def prio_def)
  show "stacks_ok (upd_mutex x f s) = stacks_ok s" by (simp add: stacks_ok_def started_def tstat_def upd_mutex_def)
qed

lemma upd_mutex_simps [simp]:
  "threads (upd_mutex x f s) = threads s" "klists (upd_mutex x f s) = klists s" "cur (upd_mutex x f s) = cur s"
  "objs (upd_mutex x f s) = objs s" "rt_object_get_type a (upd_mutex x f s) = rt_object_get_type a s"
  "mutexes (upd_mutex x f s) = (mutexes s)(x := f (mutexes s x))" "ready_group (upd_mutex x f s) = ready_group s"
  "tstat (upd_mutex x f s) t = tstat s t" "prio (upd_mutex x f s) t = prio s t" "started (upd_mutex x f s) t = started s t"
  by (simp_all add: upd_mutex_def rt_object_get_type_def tstat_def prio_def started_def)

lemma sched_prio: "kern_wf s \<Longrightarrow> started s t \<Longrightarrow> unat (th_prio (threads s t)) < 32"
  using kern_started(1)[of "{}" s t] by (simp add: runnable_def prio_def)

text \<open>What the invariant looks at.\<close>

lemma mutex_ok_cong:
  assumes "mutexes s' x = mutexes s x" "klists s' (Susp x) = klists s (Susp x)"
    "rt_object_get_type (Mem x) s' = rt_object_get_type (Mem x) s" "objs s' (Mem x) = objs s (Mem x)"
    "\<And>u. prio s' u = prio s u" "\<And>u. started s' u = started s u"
    "\<And>w. w \<in> set (klists s (Susp x)) \<Longrightarrow> th_error (threads s' w) = th_error (threads s w)"
  shows "mutex_ok x s' = mutex_ok x s"
proof -
  have p: "prio s' = prio s" using assms(5) by (simp add: fun_eq_iff)
  show ?thesis
    using assms(1-4,6,7) by (auto simp: mutex_ok_def held_by_def p split: option.splits)
qed


lemma inert_error: "inert (\<lambda>th. th\<lparr>th_error := e\<rparr>)"
  by (simp add: inert_def stack_check_def)

lemma started_error [simp]: "started (upd_thread t (\<lambda>th. th\<lparr>th_error := e\<rparr>) s) u = started s u"
  by (simp add: started_def)

lemma mutex_ok_error:
  "t \<notin> set (klists s (Susp x)) \<Longrightarrow> mutex_ok x (upd_thread t (\<lambda>th. th\<lparr>th_error := e\<rparr>) s) = mutex_ok x s"
  by (rule mutex_ok_cong, simp_all) (auto simp: upd_thread_def)

lemma mutex_owned:
  assumes "mutex_ok x s" "mx_owner (mutexes s x) = Some own"
  shows "held_by (mutexes s x) (klists s (Susp x)) own s"
  using assms by (simp add: mutex_ok_def)

text \<open>Taking a free mutex, or one the caller owns already.\<close>

lemma take_free:
  assumes ok: "mutex_ok x s" and free: "mx_owner (mutexes s x) = None" and t: "started s t" "unat p < 32"
  shows "mutex_ok x (upd_mutex x (\<lambda>m. m\<lparr>mx_hold := mx_hold m + 1\<rparr>) (upd_mutex x (\<lambda>m. m\<lparr>mx_value := mx_value m - 1,
      mx_owner := Some t, mx_original_priority := p\<rparr>) s))"
  using ok free t by (simp add: mutex_ok_def held_by_def prio_def[abs_def] word_greater_zero_iff)

lemma take_again:
  assumes ok: "mutex_ok x s" and own: "mx_owner (mutexes s x) = Some t" and h: "mx_hold (mutexes s x) < 0xff"
  shows "mutex_ok x (upd_mutex x (\<lambda>m. m\<lparr>mx_hold := mx_hold m + 1\<rparr>) s)"
    "unat (mx_hold (mutexes s x) + 1) = unat (mx_hold (mutexes s x)) + 1"
proof -
  have "unat (mx_hold (mutexes s x)) < 255" using h by (simp add: word_less_nat_alt)
  then show u: "unat (mx_hold (mutexes s x) + 1) = unat (mx_hold (mutexes s x)) + 1" by (simp add: unat_word_ariths(1))
  then have "0 < mx_hold (mutexes s x) + 1" by (simp add: word_less_nat_alt del: word_neq_0_conv)
  then show "mutex_ok x (upd_mutex x (\<lambda>m. m\<lparr>mx_hold := mx_hold m + 1\<rparr>) s)"
    using ok own by (simp add: mutex_ok_def held_by_def prio_def[abs_def])
qed

text \<open>What the kernel operations a mutex calls leave alone.\<close>

definition same_rest :: "kstate \<Rightarrow> kstate \<Rightarrow> bool" where
  "same_rest s' s \<longleftrightarrow> mutexes s' = mutexes s \<and> tick s' = tick s \<and> lock_nest s' = lock_nest s \<and>
     (\<forall>a. rt_object_get_type a s' = rt_object_get_type a s) \<and>
     (\<forall>a. rt_object_get_type a s \<noteq> RT_Object_Class_Timer \<longrightarrow> objs s' a = objs s a) \<and>
     (\<forall>u. th_error (threads s' u) = th_error (threads s u))"

lemma same_restD:
  assumes "same_rest s' s"
  shows "mutexes s' = mutexes s" "tick s' = tick s" "lock_nest s' = lock_nest s"
    "rt_object_get_type a s' = rt_object_get_type a s" "th_error (threads s' u) = th_error (threads s u)"
    "rt_object_get_type a s \<noteq> RT_Object_Class_Timer \<Longrightarrow> objs s' a = objs s a"
  using assms by (simp_all add: same_rest_def)

lemma same_rest_refl [simp]: "same_rest s s" by (simp add: same_rest_def)

lemma same_rest_trans: "same_rest s3 s2 \<Longrightarrow> same_rest s2 s1 \<Longrightarrow> same_rest s3 s1"
  by (simp add: same_rest_def)

lemma same_rest_no_kern: "no_kern s' = no_kern s \<Longrightarrow> same_rest s' s"
  using no_kern_fields(1,3,7,12,14)[of s' s] no_kern_thread(2)[of s' s] by (simp add: same_rest_def)

lemma same_rest_change:
  assumes "no_kern s' = no_kern (upd_thread t (change_priority p) s)"
  shows "same_rest s' s"
proof (rule same_rest_trans[OF same_rest_no_kern[OF assms]])
  show "same_rest (upd_thread t (change_priority p) s) s"
    by (auto simp: same_rest_def) (simp_all add: upd_thread_def change_priority_def)
qed

lemma inherit_kern:
  assumes k: "kern_wf s" and ok: "stacks_ok s" and t: "started s t" "started s own"
  shows "\<exists>s'. inherit t own s = Some s' \<and> kern_wf s' \<and> stacks_ok s' \<and> cur s' = cur s \<and> same_rest s' s \<and>
    (\<forall>u. prio s' u = (if u = own then min (prio s own) (prio s t) else prio s u)) \<and> (\<forall>u. tstat s' u = tstat s u) \<and>
    (\<forall>h. wait_head h \<longrightarrow> klists s' h = klists s h) \<and> (ready_group s \<noteq> 0 \<longrightarrow> ready_group s' \<noteq> 0)"
proof (cases "th_prio (threads s t) < th_prio (threads s own)")
  case False
  then show ?thesis using k ok by (intro exI[of _ s]) (auto simp: inherit_def prio_def word_less_nat_alt)
next
  case True
  let ?p = "th_prio (threads s t)"
  obtain s' where s': "rt_thread_control own RT_THREAD_CTRL_CHANGE_PRIORITY ?p s = Some (RT_EOK, s')" "kern_wf s'" "stacks_ok s'"
    "cur s' = cur s" "\<forall>u. prio s' u = (if u = own then unat ?p else prio s u)" "\<forall>u. tstat s' u = tstat s u"
    "no_kern s' = no_kern (upd_thread own (change_priority ?p) s)"
    "\<forall>h. wait_head h \<longrightarrow> klists s' h = klists s h" "ready_group s \<noteq> 0 \<longrightarrow> ready_group s' \<noteq> 0"
    using change_priority_kern[OF k t(2) sched_prio[OF k t(1)] ok] by blast
  have "min (prio s own) (prio s t) = unat ?p" using True by (simp add: prio_def word_less_nat_alt)
  then show ?thesis using s' same_rest_change[OF s'(7)] True by (intro exI[of _ s']) (auto simp: inherit_def)
qed

text \<open>Queueing behind an owner that has inherited the caller's priority keeps the invariant.\<close>

lemma queue_ok:
  assumes ok: "mutex_ok x s" "mx_owner (mutexes s x) = Some own" and t: "own \<noteq> t" "t \<notin> set (klists s (Susp x))" "th_error (threads s t) = RT_EOK"
    and q: "klists s' (Susp x) = wait_insert (prio s) RT_IPC_FLAG_PRIO t (klists s (Susp x))"
    and r: "same_rest s' s" and st: "\<And>u. started s' u = started s u"
    and pr: "\<And>u. prio s' u = (if u = own then min (prio s own) (prio s t) else prio s u)"
  shows "mutex_ok x s'"
proof -
  have h: "held_by (mutexes s x) (klists s (Susp x)) own s" by (rule mutex_owned[OF ok])
  have ty: "rt_object_get_type (Mem x) s = RT_Object_Class_Mutex" using ok(1) by (simp add: mutex_ok_def)
  have sub: "w \<in> set (klists s' (Susp x)) \<longleftrightarrow> w = t \<or> w \<in> set (klists s (Susp x))" for w by (simp add: q set_wait_insert)
  have no: "own \<notin> set (klists s' (Susp x))" using h t(1) sub by (simp add: held_by_def)
  have srt: "sorted (map (prio s) (klists s' (Susp x)))"
    unfolding q by (rule sorted_wait_insert) (use ok(1) in \<open>simp add: mutex_ok_def\<close>)
  have "map (prio s') (klists s' (Susp x)) = map (prio s) (klists s' (Susp x))"
    by (rule map_cong) (use no pr in auto)
  then have "sorted (map (prio s') (klists s' (Susp x)))" using srt by (rule ssubst)
  moreover have "held_by (mutexes s x) (klists s' (Susp x)) own s'"
    using h no st sub by (auto simp: held_by_def pr min_le_iff_disj)
  ultimately show ?thesis
    using ok ty same_restD[OF r] sub t(3) by (auto simp: mutex_ok_def)
qed

lemma mutex_take_eq:
  assumes "rt_object_get_type (Mem x) s = RT_Object_Class_Mutex" "scheduler_available True s" "rt_thread_self s = Some t"
    and "s0 = upd_thread t (\<lambda>th. th\<lparr>th_error := RT_EOK\<rparr>) s" "mx_owner (mutexes s x) = Some own" "own \<noteq> t"
    and "mx_value (mutexes s x) = 0" "time \<noteq> 0" "oflag (objs s (Mem x)) = flag" "\<And>s1. inherit t own s0 = Some s1 \<Longrightarrow> objs s1 (Mem x) = objs s (Mem x)"
  shows "rt_mutex_take x time s = do {
     s \<leftarrow> inherit t own s0;
     s \<leftarrow> ipc_wait (Susp x) t flag time s;
     s \<leftarrow> rt_schedule s;
     Some (Blocked t, s) }"
  using assms by (cases "inherit t own s0") (auto simp: rt_mutex_take_def Let_def split: if_splits)


lemma take_blocks:
  assumes k: "kern_wf s" and ok: "stacks_ok s" and m: "mutex_ok x s" and t: "cur s = Some t" "tstat s t = RT_THREAD_RUNNING"
    and free: "lock_nest s = 0" "int_nest s = 0" "ready_group s \<noteq> 0" and time: "time_ok time" "time \<noteq> 0"
    and own: "mx_owner (mutexes s x) = Some own" "own \<noteq> t"
  shows "\<exists>s'. rt_mutex_take x time s = Some (Blocked t, s') \<and> kern_wf s' \<and> stacks_ok s' \<and> mutex_ok x s' \<and>
    tstat s' t = RT_THREAD_SUSPEND \<and> cur s' \<noteq> Some t \<and> prio s' own = min (prio s own) (prio s t) \<and>
    abs_mutex s' x = (Some (own, unat (mx_hold (mutexes s x))), wait_insert (prio s) RT_IPC_FLAG_PRIO t (klists s (Susp x))) \<and>
    (0 < time \<longrightarrow> tm_timeout_tick (timers s' (TimerOf t)) = tick s + of_int time)"
proof -
  let ?q = "klists s (Susp x)"
  define s0 where "s0 = upd_thread t (\<lambda>th. th\<lparr>th_error := RT_EOK\<rparr>) s"
  have nw: "t \<notin> set ?q" by (rule running_not_waiting[OF k t(2)])
  have h: "held_by (mutexes s x) ?q own s" by (rule mutex_owned[OF m own(1)])
  have m0: "mutex_ok x s0" using m nw by (simp add: s0_def mutex_ok_error)
  have k0: "kern_wf s0" "stacks_ok s0" using k ok by (simp_all add: s0_def kern_inv_error)
  have st: "started s0 t" "started s0 own" using h t(2) by (simp_all add: s0_def held_by_def started_cases)
  have ty: "rt_object_get_type (Mem x) s = RT_Object_Class_Mutex" "oflag (objs s (Mem x)) = RT_IPC_FLAG_PRIO"
    using m by (simp_all add: mutex_ok_def)
  obtain s1 where s1: "inherit t own s0 = Some s1" "kern_wf s1" "stacks_ok s1" "cur s1 = cur s0" "same_rest s1 s0"
    "\<forall>u. prio s1 u = (if u = own then min (prio s0 own) (prio s0 t) else prio s0 u)" "\<forall>u. tstat s1 u = tstat s0 u"
    "\<forall>h. wait_head h \<longrightarrow> klists s1 h = klists s0 h" "ready_group s0 \<noteq> 0 \<longrightarrow> ready_group s1 \<noteq> 0"
    using inherit_kern[OF k0 st] by blast
  note r1 = same_restD[OF s1(5)]
  have wh: "wait_head (Susp x)" by (simp add: wait_head_def)
  have c1: "cur s1 = Some t" "tstat s1 t = RT_THREAD_RUNNING" "lock_nest s1 = 0" "ready_group s1 \<noteq> 0" "klists s1 (Susp x) = ?q"
    using s1(4,7,8,9) r1(3) t free wh by (simp_all add: s0_def)
  have fl: "RT_IPC_FLAG_PRIO = RT_IPC_FLAG_FIFO \<or> RT_IPC_FLAG_PRIO = RT_IPC_FLAG_PRIO" by simp
  obtain s2 s' u where b: "ipc_wait (Susp x) t RT_IPC_FLAG_PRIO time s1 = Some s2" "rt_schedule s2 = Some s'" "kern_wf s'" "stacks_ok s'"
    "cur s' = Some u" "u \<noteq> t" "tstat s' t = RT_THREAD_SUSPEND" "no_kern s' = no_kern s1"
    "\<forall>v. started s' v = started s1 v" "\<forall>g. wait_head g \<longrightarrow> klists s' g = (if g = Susp x then wait_insert (prio s1) RT_IPC_FLAG_PRIO t (klists s1 (Susp x)) else klists s1 g)"
    "0 < time \<longrightarrow> has_flag RT_TIMER_FLAG_ACTIVATED (TimerOf t) s' \<and> tm_timeout_tick (timers s' (TimerOf t)) = tick s1 + of_int time"
    using block_and_switch[OF s1(2) c1(1,2) wh s1(3) c1(3,4) fl time(1)] by blast
  have r: "same_rest s' s0" by (rule same_rest_trans[OF same_rest_no_kern[OF b(8)] s1(5)])
  note r' = same_restD[OF r]
  have prs: "prio s0 v = prio s v" for v by (simp add: s0_def)
  have pr: "prio s' v = (if v = own then min (prio s own) (prio s t) else prio s v)" for v
    using no_kern_thread(6)[OF b(8), of v] s1(6) prs by simp
  have no: "own \<notin> insert t (set ?q)" using h own(2) by (simp add: held_by_def)
  have q: "klists s' (Susp x) = wait_insert (prio s) RT_IPC_FLAG_PRIO t ?q"
  proof -
    have "wait_insert (prio s1) RT_IPC_FLAG_PRIO t ?q = wait_insert (prio s) RT_IPC_FLAG_PRIO t ?q"
      by (rule wait_insert_cong) (use s1(6) prs no in auto)
    then show ?thesis using b(10) wh c1(5) by simp
  qed
  have eq: "rt_mutex_take x time s = do {
     s \<leftarrow> inherit t own s0; s \<leftarrow> ipc_wait (Susp x) t RT_IPC_FLAG_PRIO time s; s \<leftarrow> rt_schedule s; Some (Blocked t, s) }"
  proof (rule mutex_take_eq[OF ty(1) _ _ s0_def own _ time(2) ty(2)])
    show "scheduler_available True s" "rt_thread_self s = Some t"
      using t free by (simp_all add: scheduler_available_def in_thread_context_def not_in_interrupt_def rt_thread_self_def)
    show "mx_value (mutexes s x) = 0" using h by (simp add: held_by_def)
    show "objs s2 (Mem x) = objs s (Mem x)" if "inherit t own s0 = Some s2" for s2
      using that s1(1) r1(6)[of "Mem x"] ty(1) by (simp add: s0_def)
  qed
  have st': "started s' v = started s0 v" for v
    using b(9) s1(7) by (simp add: started_def)
  have "mutex_ok x s'"
    by (rule queue_ok[OF m0 _ own(2) _ _ _ r st']) (use own nw q pr prs in \<open>simp_all add: s0_def upd_thread_def prio_def[abs_def]\<close>)
  moreover have "tick s1 = tick s" using r1(2) by (simp add: s0_def)
  ultimately show ?thesis
    using eq s1(1) b pr q r'(1) own by (intro exI[of _ s']) (simp add: abs_mutex_def s0_def)
qed


section \<open>Correctness\<close>

text \<open>
  C10. \<^verbatim>\<open>rt_mutex_take\<close> on every branch. A free mutex goes to the caller with one hold; the owner itself
  only counts up, and at 255 holds it is refused with \<open>-RT_EFULL\<close>; a mutex of another thread is refused
  with a zero timeout, and otherwise the caller queues by priority, its timer armed, while the owner
  inherits the caller's priority if that is higher. The invariant is kept: no owner runs at a lower
  priority than one of its waiters.
\<close>

theorem mutex_take_refines:
  assumes "kern_wf s" "stacks_ok s" "mutex_ok x s" "cur s = Some t" "tstat s t = RT_THREAD_RUNNING"
    and "lock_nest s = 0" "int_nest s = 0" "ready_group s \<noteq> 0" "time_ok time"
  shows "\<exists>out s'. rt_mutex_take x time s = Some (out, s') \<and> kern_wf s' \<and> stacks_ok s' \<and> mutex_ok x s' \<and>
    (case abs_mutex s x of
       (None, q) \<Rightarrow> out = Done RT_EOK \<and> abs_mutex s' x = (Some (t, 1), q)
     | (Some (own, n), q) \<Rightarrow>
         if own = t then
           if n < 255 then out = Done RT_EOK \<and> abs_mutex s' x = (Some (t, n + 1), q)
           else out = Done (- RT_EFULL) \<and> abs_mutex s' x = abs_mutex s x
         else if time = 0 then out = Done (- RT_ETIMEOUT) \<and> abs_mutex s' x = abs_mutex s x
         else out = Blocked t \<and> tstat s' t = RT_THREAD_SUSPEND \<and> cur s' \<noteq> Some t \<and>
           abs_mutex s' x = (Some (own, n), wait_insert (prio s) RT_IPC_FLAG_PRIO t q) \<and>
           prio s' own = min (prio s own) (prio s t) \<and>
           (0 < time \<longrightarrow> tm_timeout_tick (timers s' (TimerOf t)) = tick s + of_int time))"
proof -
  let ?m = "mutexes s x"
  let ?s0 = "upd_thread t (\<lambda>th. th\<lparr>th_error := RT_EOK\<rparr>) s"
  have nw: "t \<notin> set (klists s (Susp x))" by (rule running_not_waiting[OF assms(1,5)])
  have ty: "rt_object_get_type (Mem x) s = RT_Object_Class_Mutex" using assms(3) by (simp add: mutex_ok_def)
  have av: "scheduler_available True s" "rt_thread_self s = Some t"
    using assms(4,6,7) by (simp_all add: scheduler_available_def in_thread_context_def not_in_interrupt_def rt_thread_self_def)
  have m0: "mutex_ok x (upd_thread t (\<lambda>th. th\<lparr>th_error := e\<rparr>) s)" for e using assms(3) nw by (simp add: mutex_ok_error)
  have k0: "kern_wf (upd_thread t (\<lambda>th. th\<lparr>th_error := e\<rparr>) s)" for e using assms(1) by (simp add: kern_inv_error)
  have st: "started s t" "unat (th_prio (threads s t)) < 32"
    using assms(5) sched_prio[OF assms(1)] by (simp_all add: started_cases)
  have ee: "upd_thread t (\<lambda>th. th\<lparr>th_error := b\<rparr>) (upd_thread t (\<lambda>th. th\<lparr>th_error := a\<rparr>) s) = upd_thread t (\<lambda>th. th\<lparr>th_error := b\<rparr>) s" for a b
    by (simp add: upd_thread_def)
  have pe: "th_prio (threads ?s0 t) = th_prio (threads s t)" by (simp add: upd_thread_def)
  show ?thesis
  proof (cases "mx_owner ?m")
    case None
    then have free: "mx_value ?m = 1" "mx_hold ?m = 0" using assms(3) by (simp_all add: mutex_ok_def)
    have "mx_owner (mutexes ?s0 x) = None" using None by simp
    then have "mutex_ok x (upd_mutex x (\<lambda>m. m\<lparr>mx_hold := mx_hold m + 1\<rparr>) (upd_mutex x (\<lambda>m. m\<lparr>mx_value := mx_value m - 1,
      mx_owner := Some t, mx_original_priority := th_prio (threads s t)\<rparr>) ?s0))"
      using take_free[OF m0 _ _ st(2)] st(1) by simp
    then show ?thesis using None free ty av assms(2) k0
      by (simp add: rt_mutex_take_def Let_def pe abs_mutex_def kern_upd_mutex)
  next
    case (Some own)
    have h: "held_by ?m (klists s (Susp x)) own s" by (rule mutex_owned[OF assms(3) Some])
    consider "own = t" | "own \<noteq> t" "time = 0" | "own \<noteq> t" "time \<noteq> 0" by blast
    then show ?thesis
    proof cases
      case 1
      have own: "mx_owner (mutexes ?s0 x) = Some t" using Some 1 by simp
      show ?thesis
      proof (cases "mx_hold ?m < 0xff")
        case True
        then show ?thesis
          using take_again[OF m0 own] Some 1 ty av assms(2) k0
          by (simp add: rt_mutex_take_def Let_def abs_mutex_def kern_upd_mutex word_less_nat_alt)
      next
        case False
        then show ?thesis
          using Some 1 ty av assms(2) k0 m0 by (simp add: rt_mutex_take_def Let_def abs_mutex_def word_less_nat_alt)
      qed
    next
      case 2
      then show ?thesis
        using Some h ty av assms(2) k0 m0 by (simp add: rt_mutex_take_def Let_def abs_mutex_def held_by_def ee)
    next
      case 3
      show ?thesis
        using take_blocks[OF assms(1-9) 3(2) Some 3(1)] Some 3 by (auto simp: abs_mutex_def)
    qed
  qed
qed

lemma idemo_mutex: "mutex_ok 31 (upd_mutex 31 (\<lambda>_. fresh_mutex) idemo)"
  by (simp add: mutex_ok_def fresh_mutex_def)

lemma idemo_mutex_state:
  "kern_wf (upd_mutex 31 (\<lambda>_. fresh_mutex) idemo)" "stacks_ok (upd_mutex 31 (\<lambda>_. fresh_mutex) idemo)"
  "lock_nest (upd_mutex 31 (\<lambda>_. fresh_mutex) idemo) = 0" "int_nest (upd_mutex 31 (\<lambda>_. fresh_mutex) idemo) = 0"
  "ready_group (upd_mutex 31 (\<lambda>_. fresh_mutex) idemo) \<noteq> 0" "abs_mutex (upd_mutex 31 (\<lambda>_. fresh_mutex) idemo) 31 = (None, [])"
  using idemo_wf idemo_stacks
  by (simp_all add: kern_upd_mutex abs_mutex_def fresh_mutex_def) (simp_all add: upd_mutex_def)

theorem mutex_take_refines_witness:
  "\<exists>s'. rt_mutex_take 31 0 (upd_mutex 31 (\<lambda>_. fresh_mutex) idemo) = Some (Done RT_EOK, s') \<and>
    mutex_ok 31 s' \<and> abs_mutex s' 31 = (Some (2, 1), [])"
proof -
  let ?s = "upd_mutex 31 (\<lambda>_. fresh_mutex) idemo"
  have c: "cur ?s = Some 2" "tstat ?s 2 = RT_THREAD_RUNNING" "time_ok 0" by (simp_all add: time_ok_def)
  show ?thesis
    using mutex_take_refines[OF idemo_mutex_state(1,2) idemo_mutex c(1,2) idemo_mutex_state(3-5) c(3)]
    unfolding idemo_mutex_state(6) by auto
qed

text \<open>Handing the mutex over to the first waiter.\<close>

lemma hand_over:
  assumes m: "mutex_ok x s" "mx_owner (mutexes s x) = Some t" and q: "klists s (Susp x) = w # ws" "klists s' (Susp x) = ws"
    and k: "kern_wf s" and hold: "mx_hold (mutexes s x) = 1"
    and pr: "\<And>u. u \<in> set (w # ws) \<Longrightarrow> prio s' u = prio s u" and st: "started s' w"
    and mx: "mutexes s' x = \<lparr>mx_value = mx_value (mutexes s x), mx_original_priority = th_prio (threads s w), mx_hold = 1, mx_owner = Some w\<rparr>"
    and ob: "rt_object_get_type (Mem x) s' = rt_object_get_type (Mem x) s" "objs s' (Mem x) = objs s (Mem x)"
    and er: "\<And>u. u \<in> set ws \<Longrightarrow> th_error (threads s' u) = th_error (threads s u)"
  shows "mutex_ok x s'"
proof -
  have h: "held_by (mutexes s x) (w # ws) t s" using mutex_owned[OF m] q(1) by simp
  have "tstat s w = RT_THREAD_SUSPEND" using waiter_suspended[OF k, of "Susp x" w] q(1) by (simp add: wait_head_def)
  then have p: "unat (th_prio (threads s w)) < 32" using sched_prio[OF k] by (simp add: started_cases)
  have d: "w \<notin> set ws" using k q(1) unfolding kern_inv_def sched_inv_def ll_wf_def by (metis distinct.simps(2))
  have srt: "sorted (map (prio s) (w # ws))" using m(1) q(1) by (simp add: mutex_ok_def)
  then have "sorted (map (prio s) ws)" by simp
  moreover have "map (prio s) ws = map (prio s') ws" by (rule map_cong) (use pr in auto)
  ultimately have "sorted (map (prio s') ws)" by (rule back_subst)
  moreover have "held_by (mutexes s' x) ws w s'" using h p st d srt pr by (auto simp: held_by_def mx)
  ultimately show ?thesis using m(1) ob er q mx by (auto simp: mutex_ok_def)
qed


lemma restore_kern:
  assumes k: "kern_wf s" and ok: "stacks_ok s" and t: "started s t" "unat p < 32"
  shows "\<exists>s'. restore t p s = Some s' \<and> kern_wf s' \<and> stacks_ok s' \<and> cur s' = cur s \<and> same_rest s' s \<and>
    (\<forall>u. prio s' u = (if u = t then unat p else prio s u)) \<and> (\<forall>u. tstat s' u = tstat s u) \<and>
    (\<forall>h. wait_head h \<longrightarrow> klists s' h = klists s h)"
proof (cases "p = th_prio (threads s t)")
  case True
  then show ?thesis using k ok by (intro exI[of _ s]) (simp add: restore_def prio_def)
next
  case False
  obtain s' where s': "rt_thread_control t RT_THREAD_CTRL_CHANGE_PRIORITY p s = Some (RT_EOK, s')" "kern_wf s'" "stacks_ok s'"
    "cur s' = cur s" "\<forall>u. prio s' u = (if u = t then unat p else prio s u)" "\<forall>u. tstat s' u = tstat s u"
    "no_kern s' = no_kern (upd_thread t (change_priority p) s)" "\<forall>h. wait_head h \<longrightarrow> klists s' h = klists s h"
    using change_priority_kern[OF k t ok] by blast
  then show ?thesis using same_rest_change[OF s'(7)] False by (intro exI[of _ s']) (simp add: restore_def)
qed

lemma mutex_release_eq:
  assumes "rt_object_get_type (Mem x) s = RT_Object_Class_Mutex" "in_thread_context s" "rt_thread_self s = Some t"
    and "mx_owner (mutexes s x) = Some t" "s0 = upd_mutex x (\<lambda>m. m\<lparr>mx_hold := mx_hold m - 1\<rparr>) s"
  shows "rt_mutex_release x s = (if mx_hold (mutexes s x) \<noteq> 1 then Some (RT_EOK, s0)
    else do { s \<leftarrow> restore t (mx_original_priority (mutexes s x)) s0; give_up x s })"
proof -
  have "mx_hold (mutexes s0 x) = 0 \<longleftrightarrow> mx_hold (mutexes s x) = 1" using assms(5) by simp
  then show ?thesis
    using assms by (simp add: rt_mutex_release_def)
qed

lemma give_up_empty:
  assumes "mutex_ok x s" "mx_owner (mutexes s x) = Some t" "klists s (Susp x) = []"
    and "mutexes s' x = (mutexes s x)\<lparr>mx_hold := 0\<rparr>" "klists s' (Susp x) = []" "rt_object_get_type (Mem x) s' = rt_object_get_type (Mem x) s"
    and "objs s' (Mem x) = objs s (Mem x)"
  shows "\<exists>s2. give_up x s' = Some (RT_EOK, s2) \<and> mutex_ok x s2 \<and> abs_mutex s2 x = (None, []) \<and>
    kern_inv X s2 = kern_inv X s' \<and> stacks_ok s2 = stacks_ok s' \<and> prio s2 = prio s'"
proof -
  have h: "held_by (mutexes s x) [] t s" using mutex_owned[OF assms(1,2)] assms(3) by simp
  let ?s = "upd_mutex x (\<lambda>m. m\<lparr>mx_value := mx_value m + 1, mx_owner := None, mx_original_priority := 0xff\<rparr>) s'"
  have "give_up x s' = Some (RT_EOK, ?s)" using h assms(4,5) by (simp add: give_up_def held_by_def)
  moreover have "mutex_ok x ?s" using assms h by (simp add: mutex_ok_def held_by_def)
  ultimately show ?thesis using assms(5) by (intro exI[of _ ?s]) (simp add: abs_mutex_def kern_upd_mutex fun_eq_iff)
qed

lemma give_up_waiter:
  assumes m: "mutex_ok x s" "mx_owner (mutexes s x) = Some t" and q: "klists s (Susp x) = w # ws" and ks: "kern_wf s"
    and k: "kern_wf s'" "stacks_ok s'" "cur s' \<noteq> None" and q': "klists s' (Susp x) = w # ws"
    and mx: "mutexes s' x = (mutexes s x)\<lparr>mx_hold := 0\<rparr>" and ob: "rt_object_get_type (Mem x) s' = rt_object_get_type (Mem x) s"
      "objs s' (Mem x) = objs s (Mem x)"
    and hold: "mx_hold (mutexes s x) = 1" and pr: "\<And>u. u \<noteq> t \<Longrightarrow> prio s' u = prio s u"
    and er: "\<And>u. th_error (threads s' u) = th_error (threads s u)"
  shows "\<exists>s2. give_up x s' = Some (RT_EOK, s2) \<and> kern_wf s2 \<and> stacks_ok s2 \<and> mutex_ok x s2 \<and> abs_mutex s2 x = (Some (w, 1), ws) \<and>
    prio s2 = prio s' \<and> tstat s2 w \<in> {RT_THREAD_READY, RT_THREAD_RUNNING} \<and> rt_mutex_take_resume w s2 = RT_EOK"
proof -
  define s0 where "s0 = upd_mutex x (\<lambda>m. m\<lparr>mx_hold := mx_hold m + 1\<rparr>)
    (upd_mutex x (\<lambda>m. m\<lparr>mx_owner := Some w, mx_original_priority := th_prio (threads s' w)\<rparr>) s')"
  have h: "t \<notin> set (w # ws)" using mutex_owned[OF m] q by (simp add: held_by_def)
  have ty: "rt_object_get_type (Mem x) s = RT_Object_Class_Mutex" using m(1) by (simp add: mutex_ok_def)
  have k0: "kern_wf s0" "stacks_ok s0" "klists s0 (Susp x) = w # ws" "cur s0 \<noteq> None" using k q' by (simp_all add: s0_def kern_upd_mutex)
  have wh: "wait_head (Susp x)" by (simp add: wait_head_def)
  obtain s1 where s1: "do_ipc_list_resume (Susp x) s0 = Some s1" "kern_wf s1" "stacks_ok s1" "cur s1 = cur s0" "no_kern s1 = no_kern s0"
    "tstat s1 w \<in> {RT_THREAD_READY, RT_THREAD_RUNNING}" "\<forall>g. wait_head g \<longrightarrow> klists s1 g = (if g = Susp x then ws else klists s0 g)"
    using resume_head[OF k0(1,2) wh k0(3)] by blast
  have c1: "cur s1 \<noteq> None" using s1(4) k0(4) by simp
  obtain s2 where s2: "rt_schedule s1 = Some s2" "kern_wf s2" "stacks_ok s2" "no_kern s2 = no_kern s1"
    "\<forall>u. tstat s1 u \<in> {RT_THREAD_READY, RT_THREAD_RUNNING} \<longrightarrow> tstat s2 u \<in> {RT_THREAD_READY, RT_THREAD_RUNNING}"
    "\<forall>g. wait_head g \<longrightarrow> klists s2 g = klists s1 g"
    using schedule_after[OF s1(2) c1 s1(3)] by blast
  have n: "no_kern s2 = no_kern s0" using s1(5) s2(4) by simp
  have r: "give_up x s' = Some (RT_EOK, s2)"
    using q' mx s1(1) s2(1) by (simp add: give_up_def Let_def s0_def)
  have p2: "prio s2 u = prio s' u" for u using no_kern_thread(6)[OF n, of u] by (simp add: s0_def)
  have e2: "th_error (threads s2 u) = th_error (threads s u)" for u using no_kern_thread(2)[OF n, of u] er by (simp add: s0_def)
  have w: "tstat s2 w \<in> {RT_THREAD_READY, RT_THREAD_RUNNING}" using s1(6) s2(5) by blast
  have q2: "klists s2 (Susp x) = ws" using s1(7) s2(6) wh by simp
  have ty': "rt_object_get_type (Mem x) s0 = rt_object_get_type (Mem x) s" "objs s0 (Mem x) = objs s (Mem x)" using ob by (simp_all add: s0_def)
  have ob2: "rt_object_get_type (Mem x) s2 = rt_object_get_type (Mem x) s" "objs s2 (Mem x) = objs s (Mem x)"
    using no_kern_fields(12)[OF n, of "Mem x"] no_kern_fields(14)[OF n, of "Mem x"] ty ty' by simp_all
  have "w \<noteq> t" using h by auto
  then have "th_prio (threads s' w) = th_prio (threads s w)" using pr[of w] by (simp add: prio_def word_unat_eq_iff)
  then have mx2: "mutexes s2 x = \<lparr>mx_value = mx_value (mutexes s x), mx_original_priority = th_prio (threads s w), mx_hold = 1, mx_owner = Some w\<rparr>"
    using no_kern_fields(7)[OF n] mx by (simp add: s0_def)
  have pw: "prio s2 u = prio s u" if "u \<in> set (w # ws)" for u
  proof -
    have "u \<noteq> t" using that h by blast
    then show ?thesis using pr[of u] p2[of u] by simp
  qed
  have st2: "started s2 w" by (rule started_cases) (use w in auto)
  have "mutex_ok x s2"
    by (rule hand_over[OF m q q2 ks hold pw st2 mx2 ob2 e2])
  moreover have "rt_mutex_take_resume w s2 = RT_EOK" using e2 m(1) q by (simp add: rt_mutex_take_resume_def mutex_ok_def)
  ultimately show ?thesis using r s2(2,3) w q2 mx2 p2 by (intro exI[of _ s2]) (auto simp: abs_mutex_def)
qed


text \<open>
  C11. \<^verbatim>\<open>rt_mutex_release\<close> on every branch. A thread that is not the owner is refused and changes nothing;
  an owner with several holds gives up one; the last release returns the owner to its original priority
  and hands the mutex to the first waiter, who becomes ready and whose take answers \<open>RT_EOK\<close>, or frees
  it. The call cannot fail, and keeps the invariant.
\<close>

theorem mutex_release_refines:
  assumes "kern_wf s" "stacks_ok s" "mutex_ok x s" "cur s = Some t" "tstat s t = RT_THREAD_RUNNING" "int_nest s = 0"
  shows "\<exists>r s'. rt_mutex_release x s = Some (r, s') \<and> kern_wf s' \<and> stacks_ok s' \<and> mutex_ok x s' \<and>
    (case abs_mutex s x of
       (None, q) \<Rightarrow> r = - RT_ERROR \<and> abs_mutex s' x = (None, q)
     | (Some (own, n), q) \<Rightarrow>
         if own \<noteq> t then r = - RT_ERROR \<and> abs_mutex s' x = (Some (own, n), q)
         else r = RT_EOK \<and>
           (if n \<noteq> 1 then abs_mutex s' x = (Some (t, n - 1), q)
            else prio s' t = unat (mx_original_priority (mutexes s x)) \<and>
              (case q of
                 [] \<Rightarrow> abs_mutex s' x = (None, [])
               | w # ws \<Rightarrow> abs_mutex s' x = (Some (w, 1), ws) \<and> tstat s' w \<in> {RT_THREAD_READY, RT_THREAD_RUNNING} \<and>
                   rt_mutex_take_resume w s' = RT_EOK)))"
proof -
  let ?m = "mutexes s x"
  have ty: "rt_object_get_type (Mem x) s = RT_Object_Class_Mutex" using assms(3) by (simp add: mutex_ok_def)
  have av: "in_thread_context s" "rt_thread_self s = Some t"
    using assms(4,6) by (simp_all add: in_thread_context_def not_in_interrupt_def rt_thread_self_def)
  show ?thesis
  proof (cases "mx_owner ?m = Some t")
    case False
    let ?s = "upd_thread t (\<lambda>th. th\<lparr>th_error := - RT_ERROR\<rparr>) s"
    have nw: "t \<notin> set (klists s (Susp x))" by (rule running_not_waiting[OF assms(1,5)])
    have "rt_mutex_release x s = Some (- RT_ERROR, ?s)" using ty av False by (simp add: rt_mutex_release_def)
    moreover have "abs_mutex ?s x = abs_mutex s x" by (simp add: abs_mutex_def)
    ultimately show ?thesis
      using assms(1-3) nw False by (intro exI[of _ "- RT_ERROR"] exI[of _ ?s])
        (auto simp: mutex_ok_error kern_inv_error abs_mutex_def split: option.splits)
  next
    case True
    define s0 where "s0 = upd_mutex x (\<lambda>m. m\<lparr>mx_hold := mx_hold m - 1\<rparr>) s"
    have h: "held_by ?m (klists s (Susp x)) t s" by (rule mutex_owned[OF assms(3) True])
    have k0: "kern_wf s0" "stacks_ok s0" using assms(1,2) by (simp_all add: s0_def kern_upd_mutex)
    note eq = mutex_release_eq[OF ty av True s0_def]
    have abs: "abs_mutex s x = (Some (t, unat (mx_hold ?m)), klists s (Susp x))" using True by (simp add: abs_mutex_def)
    have one: "unat (mx_hold ?m) = 1 \<longleftrightarrow> mx_hold ?m = 1" by (simp add: word_unat_eq_iff)
    show ?thesis
    proof (cases "mx_hold ?m = 1")
      case False
      have p: "0 < mx_hold ?m" using h by (simp add: held_by_def)
      then have "unat (mx_hold ?m - 1) = unat (mx_hold ?m) - 1" by (simp add: unat_minus_one)
      moreover have "0 < mx_hold ?m - 1" using False by (simp add: word_greater_zero_iff)
      moreover have "unat (mx_hold ?m) \<noteq> 1" using False one by simp
      moreover from calculation have "mutex_ok x s0" "abs_mutex s0 x = (Some (t, unat (mx_hold ?m) - 1), klists s (Susp x))"
        using True assms(3) h by (simp_all add: s0_def abs_mutex_def mutex_ok_def held_by_def prio_def[abs_def])
      ultimately show ?thesis using eq False k0 unfolding abs by simp
    next
      case last: True
      have st: "started s0 t" "unat (mx_original_priority ?m) < 32" using h by (simp_all add: held_by_def s0_def)
      obtain s1 where s1: "restore t (mx_original_priority ?m) s0 = Some s1" "kern_wf s1" "stacks_ok s1" "cur s1 = cur s0"
        "same_rest s1 s0" "\<forall>u. prio s1 u = (if u = t then unat (mx_original_priority ?m) else prio s0 u)"
        "\<forall>h. wait_head h \<longrightarrow> klists s1 h = klists s0 h"
        using restore_kern[OF k0 st] by blast
      note r1 = same_restD[OF s1(5)]
      have q1: "klists s1 (Susp x) = klists s (Susp x)" using s1(7) by (simp add: s0_def wait_head_def)
      have m1: "mutexes s1 x = ?m\<lparr>mx_hold := 0\<rparr>" using r1(1) last by (simp add: s0_def)
      have o1: "rt_object_get_type (Mem x) s1 = rt_object_get_type (Mem x) s" "objs s1 (Mem x) = objs s (Mem x)"
        using r1(4,6) ty by (simp_all add: s0_def)
      have p1: "prio s1 t = unat (mx_original_priority ?m)" using s1(6) by simp
      show ?thesis
      proof (cases "klists s (Susp x)")
        case Nil
        obtain s2 where s2: "give_up x s1 = Some (RT_EOK, s2)" "mutex_ok x s2" "abs_mutex s2 x = (None, [])"
          "kern_wf s2 = kern_wf s1" "stacks_ok s2 = stacks_ok s1" "prio s2 = prio s1"
          using give_up_empty[OF assms(3) True Nil m1 _ o1] q1 Nil by metis
        show ?thesis unfolding abs Nil eq using s2 s1(1-3) last p1 by simp
      next
        case (Cons w ws)
        have c1: "cur s1 \<noteq> None" using s1(4) assms(4) by (simp add: s0_def)
        have q1': "klists s1 (Susp x) = w # ws" using q1 Cons by simp
        have pr: "prio s1 u = prio s u" if "u \<noteq> t" for u using s1(6) that by (simp add: s0_def)
        have er: "th_error (threads s1 u) = th_error (threads s u)" for u using r1(5) by (simp add: s0_def)
        obtain s2 where s2: "give_up x s1 = Some (RT_EOK, s2)" "kern_wf s2" "stacks_ok s2" "mutex_ok x s2"
          "abs_mutex s2 x = (Some (w, 1), ws)" "prio s2 = prio s1" "tstat s2 w \<in> {RT_THREAD_READY, RT_THREAD_RUNNING}"
          "rt_mutex_take_resume w s2 = RT_EOK"
          using give_up_waiter[OF assms(3) True Cons assms(1) s1(2,3) c1 q1' m1 o1 last pr er] by blast
        show ?thesis unfolding abs Cons eq using s2 s1(1) last p1 by simp
      qed
    qed
  qed
qed

theorem mutex_release_refines_witness:
  "\<exists>s'. rt_mutex_release 31 (upd_mutex 31 (\<lambda>_. fresh_mutex) idemo) = Some (- RT_ERROR, s') \<and> mutex_ok 31 s'"
proof -
  let ?s = "upd_mutex 31 (\<lambda>_. fresh_mutex) idemo"
  have c: "cur ?s = Some 2" "tstat ?s 2 = RT_THREAD_RUNNING" by simp_all
  show ?thesis
    using mutex_release_refines[OF idemo_mutex_state(1,2) idemo_mutex c idemo_mutex_state(4)]
    unfolding idemo_mutex_state(6) by auto
qed

end
