(* ===== verification/Event.thy ===== *)
theory Event
  imports IpcBase
begin

text \<open>
  Event sets of \<^verbatim>\<open>src/ipc.c\<close>: 32 flags that threads wait for in AND or OR mode, with or without
  clearing what they received. The abstract event is the set of flags and the queue of waiters with
  what each of them waits for; the invariant says that no waiter's condition holds already.
\<close>

section \<open>Operations\<close>

definition upd_event :: "nat \<Rightarrow> (u32 \<Rightarrow> u32) \<Rightarrow> kstate \<Rightarrow> kstate" where
  "upd_event x f s = s\<lparr>events := (events s)(x := (events s x)\<lparr>ev_set := f (ev_set (events s x))\<rparr>)\<rparr>"

definition rt_event_init :: "nat \<Rightarrow> u8 list \<Rightarrow> u8 \<Rightarrow> kstate \<Rightarrow> (int \<times> kstate) option" where
  "rt_event_init x nm flag s = do {
     _ \<leftarrow> kassert (ipc_flag_ok flag);
     s \<leftarrow> rt_object_init (Mem x) RT_Object_Class_Event nm s;
     let s = do_ipc_object_init (Susp x) (set_flag x flag s);
     Some (RT_EOK, upd_event x (\<lambda>_. 0) s)
   }"

definition rt_event_detach :: "nat \<Rightarrow> kstate \<Rightarrow> (int \<times> kstate) option" where
  "rt_event_detach x s = do {
     _ \<leftarrow> kassert (rt_object_get_type (Mem x) s = RT_Object_Class_Event);
     _ \<leftarrow> kassert (rt_object_is_systemobject (Mem x) s);
     s \<leftarrow> do_ipc_list_resume_all (Susp x) s;
     Some (RT_EOK, rt_object_detach (Mem x) s)
   }"

definition rt_event_create :: "nat option \<Rightarrow> u8 list \<Rightarrow> u8 \<Rightarrow> kstate \<Rightarrow> (nat option \<times> kstate) option" where
  "rt_event_create block nm flag s = do {
     _ \<leftarrow> kassert (ipc_flag_ok flag);
     _ \<leftarrow> kassert (not_in_interrupt s);
     (r, s) \<leftarrow> rt_object_allocate block RT_Object_Class_Event nm s;
     case r of
       None \<Rightarrow> Some (None, s)
     | Some x \<Rightarrow> Some (Some x, upd_event x (\<lambda>_. 0) (do_ipc_object_init (Susp x) (set_flag x flag s)))
   }"

definition rt_event_delete :: "nat \<Rightarrow> kstate \<Rightarrow> (int \<times> kstate) option" where
  "rt_event_delete x s = do {
     _ \<leftarrow> kassert (rt_object_get_type (Mem x) s = RT_Object_Class_Event);
     _ \<leftarrow> kassert (\<not> rt_object_is_systemobject (Mem x) s);
     _ \<leftarrow> kassert (not_in_interrupt s);
     s \<leftarrow> do_ipc_list_resume_all (Susp x) s;
     s \<leftarrow> rt_object_delete (Mem x) s;
     Some (RT_EOK, s)
   }"

text \<open>
  The walk over the waiters. The code reads the successor of a node before it resumes the node's
  thread, and resuming unlinks that one node only, so the walk visits the list it found. \<open>Inl\<close> is the
  early return for a waiter with neither mode, \<open>Inr\<close> answers \<^verbatim>\<open>need_schedule\<close>.
\<close>

fun event_send_walk :: "nat \<Rightarrow> tid list \<Rightarrow> bool \<Rightarrow> kstate \<Rightarrow> ((int + bool) \<times> kstate) option" where
  "event_send_walk x [] need s = Some (Inr need, s)"
| "event_send_walk x (t # ns) need s =
    (let th = threads s t; have_set = ev_set (events s x) in
     if th_event_info th AND RT_EVENT_FLAG_AND \<noteq> 0 \<or> th_event_info th AND RT_EVENT_FLAG_OR \<noteq> 0 then
       if th_event_info th AND RT_EVENT_FLAG_AND \<noteq> 0 \<and> th_event_set th AND have_set \<noteq> th_event_set th \<or>
          th_event_info th AND RT_EVENT_FLAG_AND = 0 \<and> th_event_set th AND have_set = 0
       then event_send_walk x ns need s
       else
         let s = (if th_event_info th AND RT_EVENT_FLAG_AND \<noteq> 0 then s
                  else upd_thread t (\<lambda>th. th\<lparr>th_event_set := th_event_set th AND have_set\<rparr>) s);
             s = (if th_event_info th AND RT_EVENT_FLAG_CLEAR \<noteq> 0
                  then upd_event x (\<lambda>v. v AND NOT (th_event_set (threads s t))) s else s)
         in do { (_, s) \<leftarrow> rt_thread_resume t s; event_send_walk x ns True s }
     else Some (Inl (- RT_EINVAL), s))"

definition rt_event_send :: "nat \<Rightarrow> u32 \<Rightarrow> kstate \<Rightarrow> (int \<times> kstate) option" where
  "rt_event_send x bits s = do {
     _ \<leftarrow> kassert (rt_object_get_type (Mem x) s = RT_Object_Class_Event);
     if bits = 0 then Some (- RT_ERROR, s)
     else do {
       let s = upd_event x (\<lambda>v. v OR bits) s;
       (r, s) \<leftarrow> event_send_walk x (klists s (Susp x)) False s;
       case r of
         Inl err \<Rightarrow> Some (err, s)
       | Inr True \<Rightarrow> do { s \<leftarrow> rt_schedule s; Some (RT_EOK, s) }
       | Inr False \<Rightarrow> Some (RT_EOK, s)
     }
   }"



definition rt_event_recv_resume :: "tid \<Rightarrow> bool \<Rightarrow> kstate \<Rightarrow> int \<times> u32 option" where
  "rt_event_recv_resume t recved s =
    (if th_error (threads s t) \<noteq> RT_EOK then (th_error (threads s t), None)
     else (th_error (threads s t), if recved then Some (th_event_set (threads s t)) else None))"

definition rt_event_control :: "nat \<Rightarrow> int \<Rightarrow> kstate \<Rightarrow> (int \<times> kstate) option" where
  "rt_event_control x cmd s = do {
     _ \<leftarrow> kassert (rt_object_get_type (Mem x) s = RT_Object_Class_Event);
     if cmd = RT_IPC_CMD_RESET then do {
       s \<leftarrow> do_ipc_list_resume_all (Susp x) s;
       s \<leftarrow> rt_schedule (upd_event x (\<lambda>_. 0) s);
       Some (RT_EOK, s)
     } else Some (- RT_ERROR, s)
   }"

section \<open>The abstract event\<close>

text \<open>\<open>ev_match opt w S\<close>: what a wait for the flags \<open>w\<close> in mode \<open>opt\<close> receives from the set \<open>S\<close>.\<close>

definition ev_match :: "u8 \<Rightarrow> u32 \<Rightarrow> u32 \<Rightarrow> u32 option" where
  "ev_match opt w S =
    (if opt AND RT_EVENT_FLAG_AND \<noteq> 0 then if S AND w = w then Some w else None
     else if S AND w \<noteq> 0 then Some (S AND w) else None)"

definition ev_clear :: "u8 \<Rightarrow> u32 \<Rightarrow> u32 \<Rightarrow> u32" where
  "ev_clear opt got S = (if opt AND RT_EVENT_FLAG_CLEAR \<noteq> 0 then S AND NOT got else S)"

type_synonym waiter = "tid \<times> u32 \<times> u8"

text \<open>One pass over the queue in order: who is woken with what, and who goes on waiting.\<close>

fun wake_spec :: "waiter list \<Rightarrow> u32 \<Rightarrow> (tid \<times> u32) list \<times> waiter list \<times> u32" where
  "wake_spec [] S = ([], [], S)"
| "wake_spec ((t, w, opt) # ws) S =
    (case ev_match opt w S of
       Some got \<Rightarrow> (case wake_spec ws (ev_clear opt got S) of (k, l, S') \<Rightarrow> ((t, got) # k, l, S'))
     | None \<Rightarrow> (case wake_spec ws S of (k, l, S') \<Rightarrow> (k, (t, w, opt) # l, S')))"

definition ev_waiter :: "kstate \<Rightarrow> tid \<Rightarrow> waiter" where
  "ev_waiter s t = (t, th_event_set (threads s t), th_event_info (threads s t))"

definition abs_event :: "kstate \<Rightarrow> nat \<Rightarrow> waiter list \<times> u32" where
  "abs_event s x = (map (ev_waiter s) (klists s (Susp x)), ev_set (events s x))"

definition ev_mode_ok :: "u8 \<Rightarrow> bool" where
  "ev_mode_ok opt \<longleftrightarrow> opt AND RT_EVENT_FLAG_AND \<noteq> 0 \<or> opt AND RT_EVENT_FLAG_OR \<noteq> 0"

text \<open>
  \<open>event_ok\<close>: an event object with a legal flag, whose waiters wait in a legal mode, have no error
  pending, and are not satisfied by the flags that are set: no wake-up has been lost.
\<close>

definition waiter_ok :: "kstate \<Rightarrow> tid \<Rightarrow> bool" where
  "waiter_ok s t \<longleftrightarrow> ev_mode_ok (th_event_info (threads s t)) \<and> th_error (threads s t) = RT_EOK"

definition event_ok :: "nat \<Rightarrow> kstate \<Rightarrow> bool" where
  "event_ok x s \<longleftrightarrow> rt_object_get_type (Mem x) s = RT_Object_Class_Event \<and> ipc_flag_ok (oflag (objs s (Mem x))) \<and>
     (\<forall>t\<in>set (klists s (Susp x)). waiter_ok s t) \<and>
     (\<forall>(t, w, opt)\<in>set (fst (abs_event s x)). ev_match opt w (ev_set (events s x)) = None)"

text \<open>Matching is monotone in the set, so what was passed over stays unmatched when flags are cleared.\<close>

lemma ev_match_mono: "ev_match opt w S = None \<Longrightarrow> S' AND S = S' \<Longrightarrow> ev_match opt w S' = None"
proof -
  assume n: "ev_match opt w S = None" and sub: "S' AND S = S'"
  have "S' AND w = S' AND (S AND w)" by (metis sub and.assoc)
  then show ?thesis using n sub
    by (auto simp: ev_match_def split: if_splits) (metis and.assoc and.commute)
qed

lemma wake_spec_less: "wake_spec ws S = (k, l, S') \<Longrightarrow> S' AND S = S'"
proof (induction ws S arbitrary: k l S' rule: wake_spec.induct)
  case (2 t w opt ws S)
  show ?case
  proof (cases "ev_match opt w S")
    case None
    then show ?thesis using 2 by (auto split: prod.splits)
  next
    case (Some got)
    then have "S' AND ev_clear opt got S = S'" using 2 by (auto split: prod.splits)
    moreover have "ev_clear opt got S AND S = ev_clear opt got S"
      by (simp add: ev_clear_def and.assoc and.commute)
    ultimately show ?thesis by (metis and.assoc)
  qed
qed simp

lemma wake_spec_left:
  "wake_spec ws S = (k, l, S') \<Longrightarrow> (t, w, opt) \<in> set l \<Longrightarrow> ev_match opt w S' = None"
proof (induction ws S arbitrary: k l S' rule: wake_spec.induct)
  case (2 u v o' ws S)
  show ?case
  proof (cases "ev_match o' v S")
    case None
    obtain k1 l1 S1 where w: "wake_spec ws S = (k1, l1, S1)" by (metis prod_cases3)
    then have "l = (u, v, o') # l1" "S' = S1" using 2(3) None by simp_all
    then show ?thesis using 2(1)[OF None w] 2(4) ev_match_mono[OF None] wake_spec_less[OF w] by auto
  next
    case (Some got)
    then show ?thesis using 2 by (auto split: prod.splits)
  qed
qed simp

lemma wake_spec_split: "wake_spec ws S = (k, l, S') \<Longrightarrow> fst ` set ws = fst ` set k \<union> fst ` set l"
proof (induction ws S arbitrary: k l S' rule: wake_spec.induct)
  case (2 t w opt ws S)
  show ?case
  proof (cases "ev_match opt w S")
    case None
    then show ?thesis using 2 by (auto split: prod.splits)
  next
    case (Some got)
    then show ?thesis using 2 by (auto split: prod.splits)
  qed
qed simp

section \<open>The walk implements the pass\<close>

lemma kern_upd_event: "kern_inv X (upd_event x f s) = kern_inv X s" "stacks_ok (upd_event x f s) = stacks_ok s"
  "tstat (upd_event x f s) t = tstat s t"
proof -
  show 1: "tstat (upd_event x f s) t = tstat s t" for t by (simp add: upd_event_def tstat_def)
  show "kern_inv X (upd_event x f s) = kern_inv X s"
    by (rule kern_inv_cong) (simp_all add: upd_event_def tstat_def prio_def)
  show "stacks_ok (upd_event x f s) = stacks_ok s" by (simp add: stacks_ok_def started_def 1) (simp add: upd_event_def)
qed

lemma upd_event_simps [simp]:
  "threads (upd_event x f s) = threads s" "klists (upd_event x f s) = klists s" "cur (upd_event x f s) = cur s"
  "objs (upd_event x f s) = objs s" "rt_object_get_type a (upd_event x f s) = rt_object_get_type a s"
  "ev_set (events (upd_event x f s) y) = (if y = x then f (ev_set (events s x)) else ev_set (events s y))"
  by (simp_all add: upd_event_def rt_object_get_type_def)

lemma inert_event: "inert (\<lambda>th. th\<lparr>th_event_set := f th\<rparr>)" "inert (\<lambda>th. th\<lparr>th_event_set := f th, th_event_info := g th\<rparr>)"
  "inert (\<lambda>th. th\<lparr>th_error := e\<rparr>)"
  by (simp_all add: inert_def stack_check_def)

text \<open>One waiter whose condition holds: the step of the walk, in terms of the abstract match.\<close>

definition ev_grant :: "nat \<Rightarrow> tid \<Rightarrow> u32 \<Rightarrow> kstate \<Rightarrow> kstate" where
  "ev_grant x t got s = upd_event x (ev_clear (th_event_info (threads s t)) got)
     (upd_thread t (\<lambda>th. th\<lparr>th_event_set := got\<rparr>) s)"

lemma walk_step:
  assumes "ev_mode_ok (th_event_info (threads s t))"
  shows "event_send_walk x (t # ns) need s =
    (case ev_match (th_event_info (threads s t)) (th_event_set (threads s t)) (ev_set (events s x)) of
       None \<Rightarrow> event_send_walk x ns need s
     | Some got \<Rightarrow> do { (_, s) \<leftarrow> rt_thread_resume t (ev_grant x t got s); event_send_walk x ns True s })"
proof -
  have same: "upd_thread t (\<lambda>th. th\<lparr>th_event_set := th_event_set (threads s t)\<rparr>) s = s"
    by (simp add: upd_thread_def)
  have clr: "upd_event x (ev_clear opt got) s' = (if opt AND RT_EVENT_FLAG_CLEAR \<noteq> 0 then upd_event x (\<lambda>v. v AND NOT got) s' else s')" for opt got s'
    by (simp add: ev_clear_def upd_event_def)
  show ?thesis
    using assms by (auto simp: ev_match_def ev_mode_ok_def ev_grant_def Let_def clr same and.commute upd_thread_def)
qed

lemma walk_refines:
  assumes "kern_wf s" "stacks_ok s" "distinct ns" "set ns \<subseteq> set (klists s (Susp x))" "\<forall>t\<in>set ns. waiter_ok s t"
    and "wake_spec (map (ev_waiter s) ns) (ev_set (events s x)) = (k, l, S')"
  shows "\<exists>s'. event_send_walk x ns need s = Some (Inr (need \<or> k \<noteq> []), s') \<and> kern_wf s' \<and> stacks_ok s' \<and> cur s' = cur s \<and>
    ev_set (events s' x) = S' \<and> (\<forall>a. rt_object_get_type a s' = rt_object_get_type a s) \<and>
    (\<forall>y. rt_object_get_type (Mem y) s \<noteq> RT_Object_Class_Timer \<longrightarrow> objs s' (Mem y) = objs s (Mem y)) \<and>
    klists s' (Susp x) = filter (\<lambda>t. t \<notin> fst ` set k) (klists s (Susp x)) \<and>
    (\<forall>(t, got)\<in>set k. tstat s' t \<in> {RT_THREAD_READY, RT_THREAD_RUNNING} \<and> th_event_set (threads s' t) = got) \<and>
    (\<forall>t. t \<notin> fst ` set k \<longrightarrow> tstat s' t = tstat s t \<and> ev_waiter s' t = ev_waiter s t) \<and>
    (\<forall>t. th_error (threads s' t) = th_error (threads s t) \<and> th_event_info (threads s' t) = th_event_info (threads s t))"
  using assms
proof (induction ns arbitrary: s k l S' need)
  case Nil
  then show ?case by simp
next
  case (Cons t ns)
  let ?opt = "th_event_info (threads s t)" and ?w = "th_event_set (threads s t)" and ?S = "ev_set (events s x)"
  have mode: "ev_mode_ok ?opt" using Cons.prems(5) by (simp add: waiter_ok_def)
  show ?case
  proof (cases "ev_match ?opt ?w ?S")
    case None
    obtain l1 where w: "wake_spec (map (ev_waiter s) ns) ?S = (k, l1, S')"
      using Cons.prems(6) None by (auto simp: ev_waiter_def[of s t] split: prod.splits)
    show ?thesis
      unfolding walk_step[OF mode] None option.case
      by (rule Cons.IH) (use Cons.prems w in auto)
  next
    case (Some got)
    obtain k1 where k: "k = (t, got) # k1" and w: "wake_spec (map (ev_waiter s) ns) (ev_clear ?opt got ?S) = (k1, l, S')"
      using Cons.prems(6) Some by (auto simp: ev_waiter_def[of s t] split: prod.splits)
    define s0 where "s0 = ev_grant x t got s"
    have k0: "kern_wf s0" "stacks_ok s0" "klists s0 = klists s" "cur s0 = cur s" "ev_set (events s0 x) = ev_clear ?opt got ?S"
      "objs s0 = objs s" "\<And>a. rt_object_get_type a s0 = rt_object_get_type a s" "\<And>u. tstat s0 u = tstat s u"
      "\<And>u. th_error (threads s0 u) = th_error (threads s u)" "\<And>u. th_event_info (threads s0 u) = th_event_info (threads s u)"
      "\<And>u. th_event_set (threads s0 u) = (if u = t then got else th_event_set (threads s u))"
      using Cons.prems(1,2) by (simp_all add: s0_def ev_grant_def kern_upd_event inert_upd[OF inert_event(1)])
        (simp_all add: upd_thread_def)
    have wh: "wait_head (Susp x)" by (simp add: wait_head_def)
    have tin: "t \<in> set (klists s0 (Susp x))" using Cons.prems(4) k0(3) by simp
    obtain s1 where s1: "rt_thread_resume t s0 = Some (RT_EOK, s1)" "kern_wf s1" "stacks_ok s1" "cur s1 = cur s0"
      "no_kern s1 = no_kern s0" "tstat s1 t \<in> {RT_THREAD_READY, RT_THREAD_RUNNING}" "\<forall>u. u \<noteq> t \<longrightarrow> tstat s1 u = tstat s0 u"
      "klists s1 (Susp x) = remove1 t (klists s0 (Susp x))"
      using resume_waiter[OF k0(1,2) wh tin] wh by (metis (no_types, lifting))
    note th = no_kern_thread(2-4)[OF s1(5)]
    have ev1: "ev_set (events s1 x) = ev_clear ?opt got ?S" using no_kern_fields(8)[OF s1(5)] k0(5) by simp
    have ns: "t \<notin> set ns" "distinct ns" using Cons.prems(3) by simp_all
    have wait1: "map (ev_waiter s1) ns = map (ev_waiter s) ns"
      using ns th k0 by (auto simp: ev_waiter_def)
    have d: "distinct (klists s (Susp x))" using Cons.prems(1) by (simp add: kern_inv_def sched_inv_def ll_wf_def)
    have sub: "set ns \<subseteq> set (klists s1 (Susp x))" using Cons.prems(4) ns s1(8) k0(3) d by (auto simp: set_remove1_eq)
    have wok: "\<forall>u\<in>set ns. waiter_ok s1 u" using Cons.prems(5) th k0 by (auto simp: waiter_ok_def)
    obtain s' where s': "event_send_walk x ns True s1 = Some (Inr (True \<or> k1 \<noteq> []), s')" "kern_wf s'" "stacks_ok s'" "cur s' = cur s1"
      "ev_set (events s' x) = S'" "\<forall>a. rt_object_get_type a s' = rt_object_get_type a s1"
      "\<forall>y. rt_object_get_type (Mem y) s1 \<noteq> RT_Object_Class_Timer \<longrightarrow> objs s' (Mem y) = objs s1 (Mem y)"
      "klists s' (Susp x) = filter (\<lambda>t. t \<notin> fst ` set k1) (klists s1 (Susp x))"
      "\<forall>(t, got)\<in>set k1. tstat s' t \<in> {RT_THREAD_READY, RT_THREAD_RUNNING} \<and> th_event_set (threads s' t) = got"
      "\<forall>t. t \<notin> fst ` set k1 \<longrightarrow> tstat s' t = tstat s1 t \<and> ev_waiter s' t = ev_waiter s1 t"
      "\<forall>t. th_error (threads s' t) = th_error (threads s1 t) \<and> th_event_info (threads s' t) = th_event_info (threads s1 t)"
      using Cons.IH[OF s1(2,3) ns(2) sub wok w[folded wait1 ev1], of True] by blast
    have tk: "t \<notin> fst ` set k1"
      using wake_spec_split[OF w] ns(1) by (auto simp: ev_waiter_def image_iff)
    have "event_send_walk x (t # ns) need s = Some (Inr (need \<or> k \<noteq> []), s')"
      unfolding walk_step[OF mode] Some option.case using s1(1) s'(1) k by (simp add: s0_def)
    moreover have "klists s' (Susp x) = filter (\<lambda>t. t \<notin> fst ` set k) (klists s (Susp x))"
      using s'(8) s1(8) k0(3) d k by (simp add: distinct_remove1_removeAll removeAll_filter_not_eq) (rule filter_cong; auto)
    moreover have "\<forall>(u, g)\<in>set k. tstat s' u \<in> {RT_THREAD_READY, RT_THREAD_RUNNING} \<and> th_event_set (threads s' u) = g"
    proof -
      have "tstat s' t = tstat s1 t" "th_event_set (threads s' t) = got"
        using s'(10) tk th(2) k0(11) by (simp_all add: ev_waiter_def)
      then show ?thesis using s'(9) s1(6) k by auto
    qed
    moreover have "tstat s' u = tstat s u \<and> ev_waiter s' u = ev_waiter s u" if "u \<notin> fst ` set k" for u
      using that s'(10) s1(7) k0 th k by (auto simp: ev_waiter_def)
    moreover have "\<forall>y. rt_object_get_type (Mem y) s \<noteq> RT_Object_Class_Timer \<longrightarrow> objs s' (Mem y) = objs s (Mem y)"
      using s'(7) no_kern_fields(12,14)[OF s1(5)] k0(6,7) by simp
    moreover have "rt_object_get_type a s' = rt_object_get_type a s" for a
      using s'(6) no_kern_fields(12)[OF s1(5)] k0(7) by simp
    ultimately show ?thesis using s'(2-5,11) s1(4) k0 th by (intro exI[of _ s']) simp
  qed
qed


section \<open>Correctness\<close>

lemma wake_spec_kept:
  "distinct (map fst ws) \<Longrightarrow> wake_spec ws S = (k, l, S') \<Longrightarrow> l = filter (\<lambda>w. fst w \<notin> fst ` set k) ws"
proof (induction ws S arbitrary: k l S' rule: wake_spec.induct)
  case (2 t w opt ws S)
  have fresh: "t \<notin> fst ` set k1" if "wake_spec ws S1 = (k1, l1, S2)" for k1 l1 S1 S2
    using wake_spec_split[OF that] 2(3) by auto
  show ?case
  proof (cases "ev_match opt w S")
    case None
    obtain k1 l1 S1 where w: "wake_spec ws S = (k1, l1, S1)" by (metis prod_cases3)
    then show ?thesis using 2(1)[OF None _ w] 2(3,4) None fresh[OF w] by auto
  next
    case (Some got)
    obtain k1 l1 S1 where w: "wake_spec ws (ev_clear opt got S) = (k1, l1, S1)" by (metis prod_cases3)
    have "filter (\<lambda>v. fst v \<noteq> t \<and> fst v \<notin> fst ` set k1) ws = filter (\<lambda>v. fst v \<notin> fst ` set k1) ws"
      using 2(3) by (intro filter_cong) auto
    then show ?thesis using 2(2)[OF Some _ w] 2(3,4) Some w by auto
  qed
qed simp

lemma event_okD:
  assumes "event_ok x s"
  shows "rt_object_get_type (Mem x) s = RT_Object_Class_Event" "ipc_flag_ok (oflag (objs s (Mem x)))"
    "\<forall>t\<in>set (klists s (Susp x)). waiter_ok s t"
    "t \<in> set (klists s (Susp x)) \<Longrightarrow> ev_match (th_event_info (threads s t)) (th_event_set (threads s t)) (ev_set (events s x)) = None"
  using assms by (auto simp: event_ok_def abs_event_def ev_waiter_def)

lemma event_okI:
  assumes "rt_object_get_type (Mem x) s = RT_Object_Class_Event" "ipc_flag_ok (oflag (objs s (Mem x)))"
    "\<And>t. t \<in> set (klists s (Susp x)) \<Longrightarrow> waiter_ok s t"
    "\<And>t. t \<in> set (klists s (Susp x)) \<Longrightarrow> ev_match (th_event_info (threads s t)) (th_event_set (threads s t)) (ev_set (events s x)) = None"
  shows "event_ok x s"
  using assms by (auto simp: event_ok_def abs_event_def ev_waiter_def)

text \<open>
  C12. \<^verbatim>\<open>rt_event_send\<close> implements one pass over the waiting threads: in the order of the queue every thread
  whose AND or OR condition holds is woken with the flags it receives, a thread that asked for clearing
  takes its flags away from those behind it, and the others stay queued in order. Afterwards no waiting
  thread's condition holds: no wake-up is lost.
\<close>

theorem event_send_refines:
  assumes "kern_wf s" "stacks_ok s" "event_ok x s" "cur s \<noteq> None" "bits \<noteq> 0"
    and "wake_spec (fst (abs_event s x)) (snd (abs_event s x) OR bits) = (woken, waiting, left)"
  shows "\<exists>s'. rt_event_send x bits s = Some (RT_EOK, s') \<and> kern_wf s' \<and> stacks_ok s' \<and> event_ok x s' \<and>
    abs_event s' x = (waiting, left) \<and>
    (\<forall>(t, got)\<in>set woken. tstat s' t \<in> {RT_THREAD_READY, RT_THREAD_RUNNING} \<and>
       rt_event_recv_resume t True s' = (RT_EOK, Some got))"
proof -
  let ?q = "klists s (Susp x)"
  note ok = event_okD[OF assms(3)]
  define s0 where "s0 = upd_event x (\<lambda>v. v OR bits) s"
  have k0: "kern_wf s0" "stacks_ok s0" "cur s0 \<noteq> None" using assms(1,2,4) by (simp_all add: s0_def kern_upd_event)
  have d: "distinct ?q" using assms(1) by (simp add: kern_inv_def sched_inv_def ll_wf_def)
  have w0: "wake_spec (map (ev_waiter s0) ?q) (ev_set (events s0 x)) = (woken, waiting, left)"
    using assms(6) by (simp add: s0_def abs_event_def ev_waiter_def[abs_def])
  have sub: "set ?q \<subseteq> set (klists s0 (Susp x))" and wok: "\<forall>t\<in>set ?q. waiter_ok s0 t"
    using ok(3) by (simp_all add: s0_def waiter_ok_def)
  obtain s1 where s1: "event_send_walk x ?q False s0 = Some (Inr (False \<or> woken \<noteq> []), s1)" "kern_wf s1" "stacks_ok s1" "cur s1 = cur s0"
    "ev_set (events s1 x) = left" "\<forall>a. rt_object_get_type a s1 = rt_object_get_type a s0"
    "\<forall>y. rt_object_get_type (Mem y) s0 \<noteq> RT_Object_Class_Timer \<longrightarrow> objs s1 (Mem y) = objs s0 (Mem y)"
    "klists s1 (Susp x) = filter (\<lambda>t. t \<notin> fst ` set woken) (klists s0 (Susp x))"
    "\<forall>(t, got)\<in>set woken. tstat s1 t \<in> {RT_THREAD_READY, RT_THREAD_RUNNING} \<and> th_event_set (threads s1 t) = got"
    "\<forall>t. t \<notin> fst ` set woken \<longrightarrow> tstat s1 t = tstat s0 t \<and> ev_waiter s1 t = ev_waiter s0 t"
    "\<forall>t. th_error (threads s1 t) = th_error (threads s0 t) \<and> th_event_info (threads s1 t) = th_event_info (threads s0 t)"
    using walk_refines[OF k0(1,2) d sub wok w0, of False] by blast
  have k1: "cur s1 \<noteq> None" using s1(4) k0(3) by simp
  define s2 where "s2 = (if woken \<noteq> [] then the (rt_schedule s1) else s1)"
  have s2: "kern_wf s2 \<and> stacks_ok s2 \<and> no_kern s2 = no_kern s1 \<and> klists s2 (Susp x) = klists s1 (Susp x) \<and>
      rt_event_send x bits s = Some (RT_EOK, s2) \<and>
      (\<forall>u. tstat s1 u \<in> {RT_THREAD_READY, RT_THREAD_RUNNING} \<longrightarrow> tstat s2 u \<in> {RT_THREAD_READY, RT_THREAD_RUNNING})"
  proof (cases "woken = []")
    case True
    then show ?thesis using s1(1-3) ok(1) assms(5) by (simp add: s2_def rt_event_send_def s0_def)
  next
    case False
    obtain s3 where s3: "rt_schedule s1 = Some s3" "kern_wf s3" "stacks_ok s3" "no_kern s3 = no_kern s1"
      "\<forall>u. tstat s1 u \<in> {RT_THREAD_READY, RT_THREAD_RUNNING} \<longrightarrow> tstat s3 u \<in> {RT_THREAD_READY, RT_THREAD_RUNNING}"
      "\<forall>g. wait_head g \<longrightarrow> klists s3 g = klists s1 g"
      using schedule_after[OF s1(2) k1 s1(3)] by blast
    then show ?thesis using False s1(1) ok(1) assms(5) by (simp add: s2_def rt_event_send_def s0_def wait_head_def)
  qed
  have n: "no_kern s2 = no_kern s1" using s2 by blast
  note th = no_kern_thread(2-4)[OF n] and fl = no_kern_fields(12,14)[OF n]
  have ev2: "ev_waiter s2 t = ev_waiter s1 t" for t by (simp add: ev_waiter_def th)
  have left: "ev_set (events s2 x) = left" using no_kern_fields(8)[OF n] s1(5) by simp
  have q2: "klists s2 (Susp x) = filter (\<lambda>t. t \<notin> fst ` set woken) ?q" using s2 s1(8) by (simp add: s0_def)
  have same: "ev_waiter s2 t = ev_waiter s t" if "t \<notin> fst ` set woken" for t
    using s1(10) that ev2 by (simp add: s0_def ev_waiter_def)
  have ab: "map (ev_waiter s2) (klists s2 (Susp x)) = waiting"
  proof -
    have "waiting = filter (\<lambda>w. fst w \<notin> fst ` set woken) (map (ev_waiter s) ?q)"
      using wake_spec_kept[OF _ assms(6)] d by (simp add: abs_event_def comp_def ev_waiter_def)
    also have "\<dots> = map (ev_waiter s) (klists s2 (Susp x))"
      by (simp add: q2 filter_map comp_def ev_waiter_def)
    finally show ?thesis using same q2 by simp
  qed
  then have abs: "abs_event s2 x = (waiting, left)" by (simp add: abs_event_def left)
  have "event_ok x s2"
  proof (rule event_okI)
    show ty: "rt_object_get_type (Mem x) s2 = RT_Object_Class_Event" using fl(1) s1(6) ok(1) by (simp add: s0_def)
    have "objs s2 (Mem x) = objs s (Mem x)" using fl s1(6,7) ok(1) by (simp add: s0_def)
    then show "ipc_flag_ok (oflag (objs s2 (Mem x)))" using ok(2) by simp
    fix t assume t: "t \<in> set (klists s2 (Susp x))"
    have "ev_waiter s2 t \<in> set waiting" using t ab[symmetric] by simp
    then show "ev_match (th_event_info (threads s2 t)) (th_event_set (threads s2 t)) (ev_set (events s2 x)) = None"
      using wake_spec_left[OF assms(6)] by (simp add: ev_waiter_def left)
    show "waiter_ok s2 t" using t q2 ok(3) s1(11) th by (simp add: waiter_ok_def s0_def)
  qed
  moreover have "tstat s2 t \<in> {RT_THREAD_READY, RT_THREAD_RUNNING} \<and> rt_event_recv_resume t True s2 = (RT_EOK, Some got)"
    if k: "(t, got) \<in> set woken" for t got
  proof -
    have "t \<in> fst ` set (map (ev_waiter s) ?q)"
      using k wake_spec_split[OF assms(6)] by (force simp: abs_event_def)
    then have "t \<in> set ?q" by (auto simp: ev_waiter_def)
    then have "th_error (threads s2 t) = RT_EOK" using ok(3) s1(11) th by (simp add: waiter_ok_def s0_def)
    moreover have "th_event_set (threads s2 t) = got" "tstat s1 t \<in> {RT_THREAD_READY, RT_THREAD_RUNNING}"
      using s1(9) k th by auto
    moreover from this have "tstat s2 t \<in> {RT_THREAD_READY, RT_THREAD_RUNNING}" using s2 by blast
    ultimately show ?thesis by (simp add: rt_event_recv_resume_def)
  qed
  ultimately show ?thesis using s2 abs by (intro exI[of _ s2]) auto
qed



lemma idemo_event: "event_ok 32 idemo"
  by (rule event_okI) (simp_all add: ipc_flag_ok_def)

theorem event_send_refines_witness:
  "\<exists>s'. rt_event_send 32 5 idemo = Some (RT_EOK, s') \<and> event_ok 32 s' \<and> abs_event s' 32 = ([], 5)"
proof -
  have c: "cur idemo \<noteq> None" by simp
  have w: "wake_spec (fst (abs_event idemo 32)) (snd (abs_event idemo 32) OR 5) = ([], [], 5)"
    by (simp add: abs_event_def bss_def)
  show ?thesis using event_send_refines[OF idemo_wf idemo_stacks idemo_event c _ w] by auto
qed



end
