(* ===== verification/Fifo.thy ===== *)
theory Fifo
  imports Prelude
begin

text \<open>
  The contract of a bounded queue, which mailboxes, message queues and ring buffers share: an
  abstraction to a list, a capacity, and one operation for each end, which refuses (\<open>None\<close>) on a full or
  an empty queue. What the clients rely on is proved once here, from the laws alone: in any run of puts
  and gets the elements come out in the order in which they went in, none lost, none invented, and never
  more of them inside than the capacity.
\<close>

datatype 'a queue_op = Put 'a | Get

text \<open>
  A run with its two histories, the elements a put has accepted and those a get has delivered. A
  refused operation changes nothing.
\<close>

fun fifo_run :: "('a \<Rightarrow> 'q \<Rightarrow> 'q option) \<Rightarrow> ('q \<Rightarrow> ('a \<times> 'q) option) \<Rightarrow> 'a queue_op list \<Rightarrow> 'q \<Rightarrow> 'q \<times> 'a list \<times> 'a list" where
  "fifo_run put get [] q = (q, [], [])"
| "fifo_run put get (Put x # ops) q =
    (case put x q of
       None \<Rightarrow> fifo_run put get ops q
     | Some q1 \<Rightarrow> (case fifo_run put get ops q1 of (q', ins, outs) \<Rightarrow> (q', x # ins, outs)))"
| "fifo_run put get (Get # ops) q =
    (case get q of
       None \<Rightarrow> fifo_run put get ops q
     | Some (x, q1) \<Rightarrow> (case fifo_run put get ops q1 of (q', ins, outs) \<Rightarrow> (q', ins, x # outs)))"

locale fifo =
  fixes invar :: "'q \<Rightarrow> bool" and content :: "'q \<Rightarrow> 'a list" and capacity :: "'q \<Rightarrow> nat"
    and legal :: "'q \<Rightarrow> 'a \<Rightarrow> bool"
    and put :: "'a \<Rightarrow> 'q \<Rightarrow> 'q option" and get :: "'q \<Rightarrow> ('a \<times> 'q) option"
  assumes bounded: "invar q \<Longrightarrow> length (content q) \<le> capacity q"
    and put_full: "invar q \<Longrightarrow> legal q x \<Longrightarrow> put x q = None \<longleftrightarrow> length (content q) = capacity q"
    and put_law: "invar q \<Longrightarrow> legal q x \<Longrightarrow> put x q = Some q' \<Longrightarrow>
      invar q' \<and> content q' = content q @ [x] \<and> capacity q' = capacity q \<and> legal q' = legal q"
    and get_empty: "invar q \<Longrightarrow> get q = None \<longleftrightarrow> content q = []"
    and get_law: "invar q \<Longrightarrow> get q = Some (x, q') \<Longrightarrow>
      invar q' \<and> content q = x # content q' \<and> capacity q' = capacity q \<and> legal q' = legal q"
begin

lemma run_fifo:
  assumes "invar q" "\<And>x. Put x \<in> set ops \<Longrightarrow> legal q x" "fifo_run put get ops q = (q', ins, outs)"
  shows "invar q' \<and> content q @ ins = outs @ content q' \<and> capacity q' = capacity q \<and> length (content q') \<le> capacity q"
  using assms
proof (induction ops arbitrary: q ins outs)
  case Nil
  then show ?case using bounded by simp
next
  case step: (Cons a ops)
  have rest: "legal p = legal q \<Longrightarrow> (\<And>x. Put x \<in> set ops \<Longrightarrow> legal p x)" for p using step.prems(2) by simp
  show ?case
  proof (cases "case a of Put x \<Rightarrow> put x q = None | Get \<Rightarrow> get q = None")
    case True
    then have "fifo_run put get ops q = (q', ins, outs)" using step.prems(3) by (cases a) simp_all
    from step.IH[OF step.prems(1) rest[OF refl] this] show ?thesis .
  next
    case moves: False
    show ?thesis
    proof (cases a)
      case (Put x)
      then obtain q1 where q1: "put x q = Some q1" using moves by auto
      have l: "legal q x" using step.prems(2) Put by simp
      note law = put_law[OF step.prems(1) l q1]
      obtain ins' where r: "fifo_run put get ops q1 = (q', ins', outs)" "ins = x # ins'"
        using step.prems(3) Put q1 by (auto split: prod.splits)
      have "invar q1" "legal q1 = legal q" using law by simp_all
      from step.IH[OF this(1) rest[OF this(2)] r(1)] show ?thesis using law r(2) by simp
    next
      case Get
      then obtain x q1 where q1: "get q = Some (x, q1)" using moves by auto
      note law = get_law[OF step.prems(1) q1]
      obtain outs' where r: "fifo_run put get ops q1 = (q', ins, outs')" "outs = x # outs'"
        using step.prems(3) q1 Get by (auto split: prod.splits)
      have "invar q1" "legal q1 = legal q" using law by simp_all
      from step.IH[OF this(1) rest[OF this(2)] r(1)] show ?thesis using law r(2) by simp
    qed
  qed
qed

text \<open>Room and data: after a put there is something to get, after a get there is room.\<close>

lemma put_then_get:
  assumes "invar q" "legal q x" "put x q = Some q'"
  shows "get q' \<noteq> None"
proof -
  have "invar q'" "content q' \<noteq> []" using put_law[OF assms] by simp_all
  then show ?thesis using get_empty by blast
qed

lemma get_then_put:
  assumes "invar q" "get q = Some (x, q')" "legal q y"
  shows "put y q' \<noteq> None"
proof -
  have 1: "invar q'" "legal q' y" "content q = x # content q'" "capacity q' = capacity q"
    using get_law[OF assms(1,2)] assms(3) by simp_all
  then have "length (content q') < capacity q'" using bounded[OF assms(1)] by simp
  then show ?thesis using put_full[OF 1(1,2)] by simp
qed

end

text \<open>A queue with a second way in, at the head: what the urgent operations promise.\<close>

locale fifo_urgent = fifo invar content capacity legal put get
  for invar :: "'q \<Rightarrow> bool" and content :: "'q \<Rightarrow> 'a list" and capacity :: "'q \<Rightarrow> nat" and legal :: "'q \<Rightarrow> 'a \<Rightarrow> bool"
    and put :: "'a \<Rightarrow> 'q \<Rightarrow> 'q option" and get :: "'q \<Rightarrow> ('a \<times> 'q) option" +
  fixes push :: "'a \<Rightarrow> 'q \<Rightarrow> 'q option"
  assumes push_full: "invar q \<Longrightarrow> legal q x \<Longrightarrow> push x q = None \<longleftrightarrow> length (content q) = capacity q"
    and push_law: "invar q \<Longrightarrow> legal q x \<Longrightarrow> push x q = Some q' \<Longrightarrow>
      invar q' \<and> content q' = x # content q \<and> capacity q' = capacity q \<and> legal q' = legal q"
begin

lemma urgent_first:
  assumes "invar q" "legal q x" "push x q = Some q1"
  shows "\<exists>q2. get q1 = Some (x, q2) \<and> content q2 = content q \<and> invar q2"
proof -
  note law = push_law[OF assms]
  have "get q1 \<noteq> None" using get_empty[of q1] law by simp
  then obtain y q2 where q2: "get q1 = Some (y, q2)" by auto
  have "invar q1" "content q1 = x # content q" using law by simp_all
  then show ?thesis using get_law[OF _ q2] q2 by simp
qed

end

section \<open>Circular buffers\<close>

text \<open>The \<open>n\<close> elements of a circular array from \<open>start\<close> on.\<close>

definition ring :: "(nat \<Rightarrow> 'a) \<Rightarrow> nat \<Rightarrow> nat \<Rightarrow> nat \<Rightarrow> 'a list" where
  "ring pool sz start n = map (\<lambda>i. pool ((start + i) mod sz)) [0..<n]"

lemma length_ring [simp]: "length (ring pool sz start n) = n"
  by (simp add: ring_def)

lemma ring_0 [simp]: "ring pool sz start 0 = []"
  by (simp add: ring_def)

lemma ring_index_inj:
  assumes "i < sz" "j < sz" "(start + i) mod sz = (start + j) mod (sz::nat)"
  shows "i = j"
proof -
  have "(int start + int i) mod int sz = (int start + int j) mod int sz" using assms(3) by (metis of_nat_add of_nat_mod)
  then have "int sz dvd int i - int j" by (simp add: mod_eq_dvd_iff)
  then have "\<bar>int sz\<bar> \<le> \<bar>int i - int j\<bar>" if "i \<noteq> j" using that by (intro dvd_imp_le_int) auto
  then show ?thesis using assms(1,2) by linarith
qed

lemma ring_snoc:
  assumes "n < sz"
  shows "ring (pool((start + n) mod sz := x)) sz start (Suc n) = ring pool sz start n @ [x]"
proof -
  have "(start + i) mod sz \<noteq> (start + n) mod sz" if "i < n" for i
    using ring_index_inj[of i sz n start] that assms by auto
  then show ?thesis by (simp add: ring_def)
qed

lemma ring_pop: "ring pool sz start (Suc n) = pool (start mod sz) # ring pool sz ((start + 1) mod sz) n"
  by (simp add: ring_def upt_conv_Cons map_Suc_upt[symmetric] mod_simps comp_def del: upt_Suc map_Suc_upt)

lemma ring_push:
  assumes "n < sz" "p = (start + (sz - 1)) mod sz"
  shows "ring (pool(p := x)) sz p (Suc n) = x # ring pool sz start n"
proof -
  have sz: "0 < sz" using assms(1) by simp
  have p: "(p + Suc i) mod sz = (start + i) mod sz" for i
  proof -
    have "(p + Suc i) mod sz = (start + (sz - 1) + Suc i) mod sz" unfolding assms(2) by (simp only: mod_add_left_eq)
    also have "start + (sz - 1) + Suc i = start + i + sz" using sz by simp
    finally show ?thesis by simp
  qed
  have "(p + Suc i) mod sz \<noteq> p mod sz" if "i < n" for i
    using ring_index_inj[of "Suc i" sz 0 p] that assms(1) by auto
  moreover have pm: "p mod sz = p" using assms(2) by simp
  moreover have "((p + 1) mod sz + i) mod sz = (p + Suc i) mod sz" for i by (simp add: mod_simps)
  ultimately have "ring (pool(p := x)) sz ((p + 1) mod sz) n = ring pool sz start n"
    unfolding ring_def by (intro map_cong refl) (use p in simp)
  then show ?thesis by (simp add: ring_pop pm)
qed

end
