(* ===== verification/Mailbox.thy ===== *)
theory Mailbox
  imports IpcBase Fifo
begin

text \<open>
  Mailboxes of \<^verbatim>\<open>src/ipc.c\<close>: a circular buffer of machine words with a list of waiting receivers and
  one of waiting senders. The buffer alone implements the contract of \<open>Fifo\<close>, urgent mails included; on
  top of it the blocking calls are shown to send, receive, refuse or wait as they should.
\<close>

section \<open>The buffer\<close>

abbreviation (input) RT_MB_ENTRY_MAX :: u16 where "RT_MB_ENTRY_MAX \<equiv> 0xffff"

text \<open>An offset beyond the pool would be an access out of range.\<close>

definition mb_put :: "u32 \<Rightarrow> rt_mailbox \<Rightarrow> (int \<times> rt_mailbox) option" where
  "mb_put v mb = do {
     _ \<leftarrow> kassert (mb_in_offset mb < mb_size mb);
     let mb = mb\<lparr>mb_pool := (mb_pool mb)(unat (mb_in_offset mb) := v)\<rparr>;
     let mb = mb\<lparr>mb_in_offset := mb_in_offset mb + 1\<rparr>;
     let mb = (if mb_in_offset mb \<ge> mb_size mb then mb\<lparr>mb_in_offset := 0\<rparr> else mb);
     if mb_entry mb < RT_MB_ENTRY_MAX then Some (RT_EOK, mb\<lparr>mb_entry := mb_entry mb + 1\<rparr>)
     else Some (- RT_EFULL, mb)
   }"

definition mb_push :: "u32 \<Rightarrow> rt_mailbox \<Rightarrow> rt_mailbox option" where
  "mb_push v mb = do {
     let mb = mb\<lparr>mb_out_offset := if mb_out_offset mb > 0 then mb_out_offset mb - 1 else mb_size mb - 1\<rparr>;
     _ \<leftarrow> kassert (mb_out_offset mb < mb_size mb);
     let mb = mb\<lparr>mb_pool := (mb_pool mb)(unat (mb_out_offset mb) := v)\<rparr>;
     Some (mb\<lparr>mb_entry := mb_entry mb + 1\<rparr>)
   }"

definition mb_get :: "rt_mailbox \<Rightarrow> (u32 \<times> rt_mailbox) option" where
  "mb_get mb = do {
     _ \<leftarrow> kassert (mb_out_offset mb < mb_size mb);
     let v = mb_pool mb (unat (mb_out_offset mb));
     let mb = mb\<lparr>mb_out_offset := mb_out_offset mb + 1\<rparr>;
     let mb = (if mb_out_offset mb \<ge> mb_size mb then mb\<lparr>mb_out_offset := 0\<rparr> else mb);
     Some (v, if mb_entry mb > 0 then mb\<lparr>mb_entry := mb_entry mb - 1\<rparr> else mb)
   }"

section \<open>Operations\<close>

definition upd_mb :: "nat \<Rightarrow> (rt_mailbox \<Rightarrow> rt_mailbox) \<Rightarrow> kstate \<Rightarrow> kstate" where
  "upd_mb x f s = s\<lparr>mailboxes := (mailboxes s)(x := f (mailboxes s x))\<rparr>"

definition mb_clear :: "rt_mailbox \<Rightarrow> rt_mailbox" where
  "mb_clear mb = mb\<lparr>mb_entry := 0, mb_in_offset := 0, mb_out_offset := 0\<rparr>"

text \<open>\<open>pool\<close> is what the caller's message pool holds; the size is stored in 16 bits.\<close>

definition rt_mb_init :: "nat \<Rightarrow> u8 list \<Rightarrow> (nat \<Rightarrow> u32) \<Rightarrow> u32 \<Rightarrow> u8 \<Rightarrow> kstate \<Rightarrow> (int \<times> kstate) option" where
  "rt_mb_init x nm pool sz flag s = do {
     _ \<leftarrow> kassert (ipc_flag_ok flag);
     s \<leftarrow> rt_object_init (Mem x) RT_Object_Class_MailBox nm s;
     let s = do_ipc_object_init (Susp x) (set_flag x flag s);
     let s = upd_mb x (\<lambda>mb. mb_clear (mb\<lparr>mb_pool := pool, mb_size := ucast sz\<rparr>)) s;
     Some (RT_EOK, do_ipc_object_init (SuspSender x) s)
   }"

definition rt_mb_detach :: "nat \<Rightarrow> kstate \<Rightarrow> (int \<times> kstate) option" where
  "rt_mb_detach x s = do {
     _ \<leftarrow> kassert (rt_object_get_type (Mem x) s = RT_Object_Class_MailBox);
     _ \<leftarrow> kassert (rt_object_is_systemobject (Mem x) s);
     s \<leftarrow> do_ipc_list_resume_all (Susp x) s;
     s \<leftarrow> do_ipc_list_resume_all (SuspSender x) s;
     Some (RT_EOK, rt_object_detach (Mem x) s)
   }"

text \<open>\<open>pool\<close> is the answer of the allocator for the pool.\<close>

definition rt_mb_create :: "nat option \<Rightarrow> (nat \<Rightarrow> u32) option \<Rightarrow> u8 list \<Rightarrow> u32 \<Rightarrow> u8 \<Rightarrow> kstate \<Rightarrow> (nat option \<times> kstate) option" where
  "rt_mb_create block pool nm sz flag s = do {
     _ \<leftarrow> kassert (ipc_flag_ok flag);
     _ \<leftarrow> kassert (not_in_interrupt s);
     (r, s) \<leftarrow> rt_object_allocate block RT_Object_Class_MailBox nm s;
     case r of
       None \<Rightarrow> Some (None, s)
     | Some x \<Rightarrow>
         let s = do_ipc_object_init (Susp x) (set_flag x flag s);
             s = upd_mb x (\<lambda>mb. mb\<lparr>mb_size := ucast sz\<rparr>) s
         in case pool of
              None \<Rightarrow> do { s \<leftarrow> rt_object_delete (Mem x) s; Some (None, s) }
            | Some p \<Rightarrow>
                let s = upd_mb x (\<lambda>mb. mb_clear (mb\<lparr>mb_pool := p\<rparr>)) s
                in Some (Some x, do_ipc_object_init (SuspSender x) s)
   }"

definition rt_mb_delete :: "nat \<Rightarrow> kstate \<Rightarrow> (int \<times> kstate) option" where
  "rt_mb_delete x s = do {
     _ \<leftarrow> kassert (rt_object_get_type (Mem x) s = RT_Object_Class_MailBox);
     _ \<leftarrow> kassert (\<not> rt_object_is_systemobject (Mem x) s);
     _ \<leftarrow> kassert (not_in_interrupt s);
     s \<leftarrow> do_ipc_list_resume_all (Susp x) s;
     s \<leftarrow> do_ipc_list_resume_all (SuspSender x) s;
     s \<leftarrow> rt_object_delete (Mem x) s;
     Some (RT_EOK, s)
   }"

text \<open>
  The remaining time of a waiter that wakes up: the ticks that passed since \<open>start\<close> are taken off a
  positive timeout, in 32-bit arithmetic read back as signed, and never below zero.
\<close>

definition time_left :: "int \<Rightarrow> u32 \<Rightarrow> kstate \<Rightarrow> int" where
  "time_left timeout start s =
    (if timeout > 0 then max 0 (sint (of_int timeout - (rt_tick_get s - start))) else timeout)"

text \<open>
  \<open>mb_send_loop\<close> is the loop of \<^verbatim>\<open>rt_mb_send_wait\<close> from a test of its condition to the next wait, or
  to the end of the function. A blocked sender keeps its value, the timeout and the tick of its wait.
\<close>

definition mb_send_loop :: "nat \<Rightarrow> tid option \<Rightarrow> u32 \<Rightarrow> int \<Rightarrow> kstate \<Rightarrow> ((int, tid \<times> u32 \<times> int \<times> u32) outcome \<times> kstate) option" where
  "mb_send_loop x thr v timeout s =
    (if mb_entry (mailboxes s x) = mb_size (mailboxes s x) then do {
       t \<leftarrow> thr;
       let s = upd_thread t (\<lambda>th. th\<lparr>th_error := RT_EOK\<rparr>) s;
       if timeout = 0 then Some (Done (- RT_EFULL), s)
       else do {
         s1 \<leftarrow> ipc_wait (SuspSender x) t (oflag (objs s (Mem x))) timeout s;
         s2 \<leftarrow> rt_schedule s1;
         Some (Blocked (t, v, timeout, rt_tick_get s), s2)
       }
     } else do {
       (r, mb) \<leftarrow> mb_put v (mailboxes s x);
       let s = upd_mb x (\<lambda>_. mb) s;
       if r \<noteq> RT_EOK then Some (Done r, s)
       else do { s \<leftarrow> wake_one (Susp x) s; Some (Done RT_EOK, s) }
     })"

definition rt_mb_send_wait :: "nat \<Rightarrow> u32 \<Rightarrow> int \<Rightarrow> kstate \<Rightarrow> ((int, tid \<times> u32 \<times> int \<times> u32) outcome \<times> kstate) option" where
  "rt_mb_send_wait x v timeout s = do {
     _ \<leftarrow> kassert (rt_object_get_type (Mem x) s = RT_Object_Class_MailBox);
     _ \<leftarrow> kassert (scheduler_available (timeout \<noteq> 0) s);
     if mb_entry (mailboxes s x) = mb_size (mailboxes s x) \<and> timeout = 0 then Some (Done (- RT_EFULL), s)
     else mb_send_loop x (rt_thread_self s) v timeout s
   }"

definition rt_mb_send_wait_resume ::
    "nat \<Rightarrow> tid \<times> u32 \<times> int \<times> u32 \<Rightarrow> kstate \<Rightarrow> ((int, tid \<times> u32 \<times> int \<times> u32) outcome \<times> kstate) option" where
  "rt_mb_send_wait_resume x loc s = (case loc of (t, v, timeout, start) \<Rightarrow>
     if th_error (threads s t) \<noteq> RT_EOK then Some (Done (th_error (threads s t)), s)
     else mb_send_loop x (Some t) v (time_left timeout start s) s)"

definition rt_mb_send :: "nat \<Rightarrow> u32 \<Rightarrow> kstate \<Rightarrow> ((int, tid \<times> u32 \<times> int \<times> u32) outcome \<times> kstate) option" where
  "rt_mb_send x v s = rt_mb_send_wait x v 0 s"

definition rt_mb_urgent :: "nat \<Rightarrow> u32 \<Rightarrow> kstate \<Rightarrow> (int \<times> kstate) option" where
  "rt_mb_urgent x v s = do {
     _ \<leftarrow> kassert (rt_object_get_type (Mem x) s = RT_Object_Class_MailBox);
     if mb_entry (mailboxes s x) = mb_size (mailboxes s x) then Some (- RT_EFULL, s)
     else do {
       mb \<leftarrow> mb_push v (mailboxes s x);
       s \<leftarrow> wake_one (Susp x) (upd_mb x (\<lambda>_. mb) s);
       Some (RT_EOK, s)
     }
   }"

text \<open>The result of a receive carries the mail that is stored through the pointer.\<close>

definition mb_recv_loop :: "nat \<Rightarrow> tid option \<Rightarrow> int \<Rightarrow> kstate \<Rightarrow> ((int \<times> u32 option, tid \<times> int \<times> u32) outcome \<times> kstate) option" where
  "mb_recv_loop x thr timeout s =
    (if mb_entry (mailboxes s x) = 0 then do {
       t \<leftarrow> thr;
       let s = upd_thread t (\<lambda>th. th\<lparr>th_error := RT_EOK\<rparr>) s;
       if timeout = 0 then Some (Done (- RT_ETIMEOUT, None), upd_thread t (\<lambda>th. th\<lparr>th_error := - RT_ETIMEOUT\<rparr>) s)
       else do {
         s1 \<leftarrow> ipc_wait (Susp x) t (oflag (objs s (Mem x))) timeout s;
         s2 \<leftarrow> rt_schedule s1;
         Some (Blocked (t, timeout, rt_tick_get s), s2)
       }
     } else do {
       (v, mb) \<leftarrow> mb_get (mailboxes s x);
       s \<leftarrow> wake_one (SuspSender x) (upd_mb x (\<lambda>_. mb) s);
       Some (Done (RT_EOK, Some v), s)
     })"

definition rt_mb_recv :: "nat \<Rightarrow> int \<Rightarrow> kstate \<Rightarrow> ((int \<times> u32 option, tid \<times> int \<times> u32) outcome \<times> kstate) option" where
  "rt_mb_recv x timeout s = do {
     _ \<leftarrow> kassert (rt_object_get_type (Mem x) s = RT_Object_Class_MailBox);
     _ \<leftarrow> kassert (scheduler_available (timeout \<noteq> 0) s);
     if mb_entry (mailboxes s x) = 0 \<and> timeout = 0 then Some (Done (- RT_ETIMEOUT, None), s)
     else mb_recv_loop x (rt_thread_self s) timeout s
   }"

definition rt_mb_recv_resume :: "nat \<Rightarrow> tid \<times> int \<times> u32 \<Rightarrow> kstate \<Rightarrow> ((int \<times> u32 option, tid \<times> int \<times> u32) outcome \<times> kstate) option" where
  "rt_mb_recv_resume x loc s = (case loc of (t, timeout, start) \<Rightarrow>
     if th_error (threads s t) \<noteq> RT_EOK then Some (Done (th_error (threads s t), None), s)
     else mb_recv_loop x (Some t) (time_left timeout start s) s)"

definition rt_mb_control :: "nat \<Rightarrow> int \<Rightarrow> kstate \<Rightarrow> (int \<times> kstate) option" where
  "rt_mb_control x cmd s = do {
     _ \<leftarrow> kassert (rt_object_get_type (Mem x) s = RT_Object_Class_MailBox);
     if cmd = RT_IPC_CMD_RESET then do {
       s \<leftarrow> do_ipc_list_resume_all (Susp x) s;
       s \<leftarrow> do_ipc_list_resume_all (SuspSender x) s;
       s \<leftarrow> rt_schedule (upd_mb x mb_clear s);
       Some (RT_EOK, s)
     } else Some (- RT_ERROR, s)
   }"

section \<open>The buffer implements the queue\<close>

definition mb_wf :: "rt_mailbox \<Rightarrow> bool" where
  "mb_wf mb \<longleftrightarrow> mb_in_offset mb < mb_size mb \<and> mb_out_offset mb < mb_size mb \<and> mb_entry mb \<le> mb_size mb \<and>
     unat (mb_in_offset mb) = (unat (mb_out_offset mb) + unat (mb_entry mb)) mod unat (mb_size mb)"

definition mb_content :: "rt_mailbox \<Rightarrow> u32 list" where
  "mb_content mb = ring (mb_pool mb) (unat (mb_size mb)) (unat (mb_out_offset mb)) (unat (mb_entry mb))"

lemma length_mb_content [simp]: "length (mb_content mb) = unat (mb_entry mb)"
  by (simp add: mb_content_def)

lemma ring_step:
  assumes "i < (n :: u16)"
  shows "unat (if i + 1 \<ge> n then 0 else i + 1) = (unat i + 1) mod unat n" "(if i + 1 \<ge> n then 0 else i + 1) < n"
proof -
  have lt: "unat i < unat n" "unat n < 2 ^ 16" using assms unsigned_less[of n, where 'a=nat] by (simp_all add: word_less_nat_alt)
  then have s: "unat (i + 1) = unat i + 1" by (simp add: unat_word_ariths(1))
  show "unat (if i + 1 \<ge> n then 0 else i + 1) = (unat i + 1) mod unat n"
    using lt s by (cases "unat i + 1 = unat n") (auto simp: word_le_nat_alt)
  show "(if i + 1 \<ge> n then 0 else i + 1) < n" using assms by (auto simp: not_le word_less_nat_alt)
qed

lemma mb_put_law:
  assumes "mb_wf mb" "mb_entry mb \<noteq> mb_size mb"
  shows "\<exists>mb'. mb_put v mb = Some (RT_EOK, mb') \<and> mb_wf mb' \<and> mb_content mb' = mb_content mb @ [v] \<and> mb_size mb' = mb_size mb"
proof -
  define i where "i = (if mb_in_offset mb + 1 \<ge> mb_size mb then 0 else mb_in_offset mb + 1)"
  define mb' where "mb' = mb\<lparr>mb_pool := (mb_pool mb)(unat (mb_in_offset mb) := v), mb_in_offset := i, mb_entry := mb_entry mb + 1\<rparr>"
  have wf: "mb_in_offset mb < mb_size mb" "mb_out_offset mb < mb_size mb" "mb_entry mb \<le> mb_size mb"
    "unat (mb_in_offset mb) = (unat (mb_out_offset mb) + unat (mb_entry mb)) mod unat (mb_size mb)"
    using assms(1) by (simp_all add: mb_wf_def)
  have lt: "mb_entry mb < mb_size mb" using wf(3) assms(2) by simp
  then have ltn: "unat (mb_entry mb) < unat (mb_size mb)" "unat (mb_size mb) < 2 ^ 16"
    using unsigned_less[of "mb_size mb", where 'a=nat] by (simp_all add: word_less_nat_alt)
  then have e: "unat (mb_entry mb + 1) = unat (mb_entry mb) + 1" by (simp add: unat_word_ariths(1))
  have "mb_entry mb < 0xffff" using ltn by (simp add: word_less_nat_alt)
  then have "mb_put v mb = Some (RT_EOK, mb')"
    using wf(1) by (simp add: mb_put_def Let_def mb'_def i_def)
  moreover have "mb_wf mb'"
    using ring_step[OF wf(1)] wf ltn e unfolding i_def[symmetric]
    by (simp add: mb_wf_def mb'_def word_le_nat_alt mod_simps)
  moreover have "mb_content mb' = mb_content mb @ [v]"
    using ring_snoc[OF ltn(1), of "mb_pool mb" "unat (mb_out_offset mb)" v] e wf(4) by (simp add: mb_content_def mb'_def)
  ultimately show ?thesis by (simp add: mb'_def)
qed

lemma mb_get_law:
  assumes "mb_wf mb" "mb_entry mb \<noteq> 0"
  shows "\<exists>v mb'. mb_get mb = Some (v, mb') \<and> mb_wf mb' \<and> mb_content mb = v # mb_content mb' \<and> mb_size mb' = mb_size mb"
proof -
  define i where "i = (if mb_out_offset mb + 1 \<ge> mb_size mb then 0 else mb_out_offset mb + 1)"
  define mb' where "mb' = mb\<lparr>mb_out_offset := i, mb_entry := mb_entry mb - 1\<rparr>"
  have wf: "mb_in_offset mb < mb_size mb" "mb_out_offset mb < mb_size mb" "mb_entry mb \<le> mb_size mb"
    "unat (mb_in_offset mb) = (unat (mb_out_offset mb) + unat (mb_entry mb)) mod unat (mb_size mb)"
    using assms(1) by (simp_all add: mb_wf_def)
  have e: "unat (mb_entry mb) = Suc (unat (mb_entry mb - 1))" using assms(2) by (simp add: unat_minus_one unat_gt_0)
  have r: "mb_get mb = Some (mb_pool mb (unat (mb_out_offset mb)), mb')"
    using wf(2) assms(2) by (simp add: mb_get_def Let_def mb'_def i_def word_greater_zero_iff)
  have o: "unat (mb_out_offset mb) < unat (mb_size mb)" using wf(2) by (simp add: word_less_nat_alt)
  have "mb_wf mb'"
    using ring_step[OF wf(2)] wf e unfolding i_def[symmetric]
    by (simp add: mb_wf_def mb'_def word_le_nat_alt mod_simps)
  moreover have "mb_content mb = mb_pool mb (unat (mb_out_offset mb)) # mb_content mb'"
    using ring_pop[of "mb_pool mb" "unat (mb_size mb)" "unat (mb_out_offset mb)" "unat (mb_entry mb - 1)"] e o
      ring_step(1)[OF wf(2)] unfolding i_def[symmetric] by (simp add: mb_content_def mb'_def)
  ultimately show ?thesis using r by (simp add: mb'_def)
qed

lemma mb_push_law:
  assumes "mb_wf mb" "mb_entry mb \<noteq> mb_size mb"
  shows "\<exists>mb'. mb_push v mb = Some mb' \<and> mb_wf mb' \<and> mb_content mb' = v # mb_content mb \<and> mb_size mb' = mb_size mb"
proof -
  define p where "p = (if mb_out_offset mb > 0 then mb_out_offset mb - 1 else mb_size mb - 1)"
  define mb' where "mb' = mb\<lparr>mb_out_offset := p, mb_pool := (mb_pool mb)(unat p := v), mb_entry := mb_entry mb + 1\<rparr>"
  have wf: "mb_in_offset mb < mb_size mb" "mb_out_offset mb < mb_size mb" "mb_entry mb \<le> mb_size mb"
    "unat (mb_in_offset mb) = (unat (mb_out_offset mb) + unat (mb_entry mb)) mod unat (mb_size mb)"
    using assms(1) by (simp_all add: mb_wf_def)
  let ?n = "unat (mb_size mb)" and ?o = "unat (mb_out_offset mb)"
  have "mb_entry mb < mb_size mb" using wf(3) assms(2) by simp
  then have lt: "unat (mb_entry mb) < ?n" "?n < 2 ^ 16" "?o < ?n"
    using wf(2) unsigned_less[of "mb_size mb", where 'a=nat] by (simp_all add: word_less_nat_alt)
  then have e: "unat (mb_entry mb + 1) = unat (mb_entry mb) + 1" by (simp add: unat_word_ariths(1))
  have p: "unat p = (?o + (?n - 1)) mod ?n"
  proof (cases "mb_out_offset mb > 0")
    case True
    then have o: "0 < ?o" by (simp add: word_less_nat_alt)
    have "(?o + (?n - 1)) mod ?n = (?o - 1 + ?n) mod ?n" by (rule arg_cong[of _ _ "\<lambda>k. k mod ?n"]) (use o lt in linarith)
    also have "\<dots> = ?o - 1" using lt(3) by simp
    also have "?o - 1 = unat (mb_out_offset mb - 1)" using True by (simp add: unat_minus_one)
    finally show ?thesis using True by (simp only: p_def if_True)
  next
    case False
    have "mb_size mb \<noteq> 0" using lt(1) by (metis not_less0 unsigned_0)
    then show ?thesis using False lt by (simp add: p_def unat_minus_one word_greater_zero_iff)
  qed
  have pl: "p < mb_size mb" using p lt by (simp add: word_less_nat_alt)
  then have "mb_push v mb = Some mb'" by (simp add: mb_push_def Let_def mb'_def p_def[symmetric])
  moreover have "mb_wf mb'"
  proof -
    have "(unat p + (unat (mb_entry mb) + 1)) mod ?n = (?o + (?n - 1) + (unat (mb_entry mb) + 1)) mod ?n"
      unfolding p by (simp only: mod_add_left_eq)
    also have "?o + (?n - 1) + (unat (mb_entry mb) + 1) = ?o + unat (mb_entry mb) + ?n" using lt by simp
    finally show ?thesis using wf lt e pl by (simp add: mb_wf_def mb'_def word_le_nat_alt)
  qed
  moreover have "mb_content mb' = v # mb_content mb"
    using ring_push[OF lt(1) p, of "mb_pool mb" v] e by (simp add: mb_content_def mb'_def)
  ultimately show ?thesis by (simp add: mb'_def)
qed

text \<open>The tests of the code in front, as the non-blocking calls make them.\<close>

definition mb_try_put :: "u32 \<Rightarrow> rt_mailbox \<Rightarrow> rt_mailbox option" where
  "mb_try_put v mb = (if mb_entry mb = mb_size mb then None else map_option snd (mb_put v mb))"

definition mb_try_get :: "rt_mailbox \<Rightarrow> (u32 \<times> rt_mailbox) option" where
  "mb_try_get mb = (if mb_entry mb = 0 then None else mb_get mb)"

definition mb_try_push :: "u32 \<Rightarrow> rt_mailbox \<Rightarrow> rt_mailbox option" where
  "mb_try_push v mb = (if mb_entry mb = mb_size mb then None else mb_push v mb)"

interpretation mbq: fifo_urgent mb_wf mb_content "\<lambda>mb. unat (mb_size mb)" "\<lambda>mb v. True" mb_try_put mb_try_get mb_try_push
proof
  fix mb mb' :: rt_mailbox and v :: u32
  assume wf: "mb_wf mb"
  have e: "unat (mb_entry mb) = unat (mb_size mb) \<longleftrightarrow> mb_entry mb = mb_size mb" by (simp add: word_unat_eq_iff)
  have z: "mb_content mb = [] \<longleftrightarrow> mb_entry mb = 0" by (metis length_0_conv length_mb_content unat_eq_zero)
  show "length (mb_content mb) \<le> unat (mb_size mb)" using wf by (simp add: mb_wf_def word_le_nat_alt)
  show "mb_try_put v mb = None \<longleftrightarrow> length (mb_content mb) = unat (mb_size mb)"
    using mb_put_law[OF wf, of v] by (auto simp: mb_try_put_def e)
  show "mb_try_push v mb = None \<longleftrightarrow> length (mb_content mb) = unat (mb_size mb)"
    using mb_push_law[OF wf, of v] by (auto simp: mb_try_push_def e)
  show "mb_try_get mb = None \<longleftrightarrow> mb_content mb = []"
    using mb_get_law[OF wf] by (auto simp: mb_try_get_def z)
  show "mb_wf mb' \<and> mb_content mb' = mb_content mb @ [v] \<and> unat (mb_size mb') = unat (mb_size mb) \<and> (\<lambda>v. True) = (\<lambda>v. True)"
    if "mb_try_put v mb = Some mb'"
    using mb_put_law[OF wf, of v] that by (auto simp: mb_try_put_def split: if_splits)
  show "mb_wf mb' \<and> mb_content mb' = v # mb_content mb \<and> unat (mb_size mb') = unat (mb_size mb) \<and> (\<lambda>v. True) = (\<lambda>v. True)"
    if "mb_try_push v mb = Some mb'"
    using mb_push_law[OF wf, of v] that by (auto simp: mb_try_push_def split: if_splits)
  show "mb_wf mb' \<and> mb_content mb = v # mb_content mb' \<and> unat (mb_size mb') = unat (mb_size mb) \<and> (\<lambda>v. True) = (\<lambda>v. True)"
    if "mb_try_get mb = Some (v, mb')"
    using mb_get_law[OF wf] that by (auto simp: mb_try_get_def split: if_splits)
qed


section \<open>Correctness of the calls\<close>

definition mb_ok :: "nat \<Rightarrow> kstate \<Rightarrow> bool" where
  "mb_ok x s \<longleftrightarrow> two_sided RT_Object_Class_MailBox x s \<and> mb_wf (mailboxes s x)"

lemma kern_upd_mb: "kern_inv X (upd_mb x f s) = kern_inv X s" "stacks_ok (upd_mb x f s) = stacks_ok s"
proof -
  show "kern_inv X (upd_mb x f s) = kern_inv X s"
    by (rule kern_inv_cong) (simp_all add: upd_mb_def tstat_def prio_def)
  show "stacks_ok (upd_mb x f s) = stacks_ok s" by (simp add: stacks_ok_def started_def tstat_def upd_mb_def)
qed

lemma upd_mb_simps [simp]:
  "threads (upd_mb x f s) = threads s" "klists (upd_mb x f s) = klists s" "cur (upd_mb x f s) = cur s"
  "objs (upd_mb x f s) = objs s" "rt_object_get_type a (upd_mb x f s) = rt_object_get_type a s"
  "mailboxes (upd_mb x f s) = (mailboxes s)(x := f (mailboxes s x))"
  by (simp_all add: upd_mb_def rt_object_get_type_def)

text \<open>Changing the buffer and waking the other side; blocking on one side.\<close>

lemma mb_wake:
  assumes k: "kern_wf s" "stacks_ok s" "cur s \<noteq> None" and ok: "mb_ok x s" and wf: "mb_wf mb" and h: "h \<in> {Susp x, SuspSender x}"
  shows "\<exists>s'. wake_one h (upd_mb x (\<lambda>_. mb) s) = Some s' \<and> kern_wf s' \<and> stacks_ok s' \<and> mb_ok x s' \<and> mailboxes s' x = mb \<and>
    klists s' h = tl (klists s h) \<and> (\<forall>t ts. klists s h = t # ts \<longrightarrow> tstat s' t \<in> {RT_THREAD_READY, RT_THREAD_RUNNING})"
proof -
  let ?s = "upd_mb x (\<lambda>_. mb) s"
  have k0: "kern_wf ?s" "stacks_ok ?s" "cur ?s \<noteq> None" using k by (simp_all add: kern_upd_mb)
  have o: "two_sided RT_Object_Class_MailBox x ?s" using ok by (simp add: mb_ok_def two_sided_def)
  obtain s' where s': "wake_one h ?s = Some s'" "kern_wf s'" "stacks_ok s'" "two_sided RT_Object_Class_MailBox x s'" "no_kern s' = no_kern ?s"
    "klists s' h = tl (klists ?s h)" "\<forall>t ts. klists ?s h = t # ts \<longrightarrow> tstat s' t \<in> {RT_THREAD_READY, RT_THREAD_RUNNING}"
    using two_sided_wake[OF k0 o h] by blast
  then show ?thesis using wf no_kern_fields(9)[OF s'(5)] by (intro exI[of _ s']) (simp add: mb_ok_def)
qed

lemma mb_block:
  assumes k: "kern_wf s" and t: "cur s = Some t" "tstat s t = RT_THREAD_RUNNING" and ok: "stacks_ok s" and m: "mb_ok x s"
    and free: "lock_nest s = 0" "ready_group s \<noteq> 0" and time: "time_ok time" and h: "h \<in> {Susp x, SuspSender x}"
  shows "\<exists>s1 s'. ipc_wait h t (oflag (objs s (Mem x))) time (upd_thread t (\<lambda>th. th\<lparr>th_error := RT_EOK\<rparr>) s) = Some s1 \<and>
    rt_schedule s1 = Some s' \<and> kern_wf s' \<and> stacks_ok s' \<and> mb_ok x s' \<and> mailboxes s' = mailboxes s \<and>
    cur s' \<noteq> Some t \<and> tstat s' t = RT_THREAD_SUSPEND \<and>
    klists s' h = wait_insert (prio s) (oflag (objs s (Mem x))) t (klists s h) \<and>
    (0 < time \<longrightarrow> tm_timeout_tick (timers s' (TimerOf t)) = tick s + of_int time)"
proof -
  have o: "two_sided RT_Object_Class_MailBox x s" using m by (simp add: mb_ok_def)
  obtain s1 s' where b: "ipc_wait h t (oflag (objs s (Mem x))) time (upd_thread t (\<lambda>th. th\<lparr>th_error := RT_EOK\<rparr>) s) = Some s1"
    "rt_schedule s1 = Some s'" "kern_wf s'" "stacks_ok s'" "two_sided RT_Object_Class_MailBox x s'"
    "no_kern s' = no_kern (upd_thread t (\<lambda>th. th\<lparr>th_error := RT_EOK\<rparr>) s)"
    "cur s' \<noteq> Some t" "tstat s' t = RT_THREAD_SUSPEND"
    "klists s' h = wait_insert (prio s) (oflag (objs s (Mem x))) t (klists s h)"
    "0 < time \<longrightarrow> tm_timeout_tick (timers s' (TimerOf t)) = tick s + of_int time"
    using two_sided_block[OF k t ok o free time h] by blast
  moreover have "mailboxes s' = mailboxes s" using no_kern_fields(9)[OF b(6)] by simp
  ultimately show ?thesis using m by (intro exI[of _ s1] exI[of _ s']) (simp add: mb_ok_def)
qed

text \<open>
  C14. \<^verbatim>\<open>rt_mb_send_wait\<close> implements a put into a bounded queue. With room the mail is appended and the
  first waiting receiver becomes ready; with none a zero timeout is refused and changes nothing, and any
  other timeout queues the sender at its place, its timer armed, with the mail still in its hands. The
  kernel and mailbox invariants are kept.
\<close>

theorem mb_send_refines:
  assumes "kern_wf s" "stacks_ok s" "mb_ok x s" "cur s = Some t" "tstat s t = RT_THREAD_RUNNING"
    and "lock_nest s = 0" "int_nest s = 0" "ready_group s \<noteq> 0" "time_ok timeout"
  shows "\<exists>out s'. rt_mb_send_wait x v timeout s = Some (out, s') \<and> kern_wf s' \<and> stacks_ok s' \<and> mb_ok x s' \<and>
    (if length (mb_content (mailboxes s x)) < unat (mb_size (mailboxes s x))
     then out = Done RT_EOK \<and> mb_content (mailboxes s' x) = mb_content (mailboxes s x) @ [v] \<and>
       klists s' (Susp x) = tl (klists s (Susp x)) \<and>
       (\<forall>r rs. klists s (Susp x) = r # rs \<longrightarrow> tstat s' r \<in> {RT_THREAD_READY, RT_THREAD_RUNNING})
     else mailboxes s' x = mailboxes s x \<and>
       (if timeout = 0 then out = Done (- RT_EFULL) \<and> s' = s
        else out = Blocked (t, v, timeout, tick s) \<and> tstat s' t = RT_THREAD_SUSPEND \<and> cur s' \<noteq> Some t \<and>
          klists s' (SuspSender x) = wait_insert (prio s) (oflag (objs s (Mem x))) t (klists s (SuspSender x)) \<and>
          (0 < timeout \<longrightarrow> tm_timeout_tick (timers s' (TimerOf t)) = tick s + of_int timeout)))"
proof -
  let ?mb = "mailboxes s x"
  have wf: "mb_wf ?mb" and ty: "rt_object_get_type (Mem x) s = RT_Object_Class_MailBox" using assms(3) by (simp_all add: mb_ok_def two_sided_def)
  have av: "scheduler_available b s" "rt_thread_self s = Some t" for b
    using assms(4,6,7) by (simp_all add: scheduler_available_def in_thread_context_def not_in_interrupt_def rt_thread_self_def)
  have room: "length (mb_content ?mb) < unat (mb_size ?mb) \<longleftrightarrow> mb_entry ?mb \<noteq> mb_size ?mb"
    using wf unsigned_word_eqI[of "mb_entry ?mb" "mb_size ?mb", where 'a=nat] by (auto simp: mb_wf_def word_le_nat_alt order.order_iff_strict word_unat_eq_iff)
  show ?thesis
  proof (cases "mb_entry ?mb = mb_size ?mb")
    case False
    obtain mb' where mb': "mb_put v ?mb = Some (RT_EOK, mb')" "mb_wf mb'" "mb_content mb' = mb_content ?mb @ [v]"
      using mb_put_law[OF wf False] by blast
    have c: "cur s \<noteq> None" using assms(4) by simp
    obtain s' where s': "wake_one (Susp x) (upd_mb x (\<lambda>_. mb') s) = Some s'" "kern_wf s'" "stacks_ok s'" "mb_ok x s'"
      "mailboxes s' x = mb'" "klists s' (Susp x) = tl (klists s (Susp x))"
      "\<forall>t ts. klists s (Susp x) = t # ts \<longrightarrow> tstat s' t \<in> {RT_THREAD_READY, RT_THREAD_RUNNING}"
      using mb_wake[OF assms(1,2) c assms(3) mb'(2), of "Susp x"] by blast
    have r: "rt_mb_send_wait x v timeout s = Some (Done RT_EOK, s')"
      using ty av False mb'(1) s'(1) by (simp add: rt_mb_send_wait_def mb_send_loop_def)
    show ?thesis using r s' mb'(3) False room by (intro exI[of _ "Done RT_EOK"] exI[of _ s']) simp
  next
    case True
    show ?thesis
    proof (cases "timeout = 0")
      case t0: True
      then show ?thesis using ty av True room assms(1-3) by (simp add: rt_mb_send_wait_def)
    next
      case False
      obtain s1 s' where b: "ipc_wait (SuspSender x) t (oflag (objs s (Mem x))) timeout (upd_thread t (\<lambda>th. th\<lparr>th_error := RT_EOK\<rparr>) s) = Some s1"
        "rt_schedule s1 = Some s'" "kern_wf s'" "stacks_ok s'" "mb_ok x s'" "mailboxes s' = mailboxes s"
        "cur s' \<noteq> Some t" "tstat s' t = RT_THREAD_SUSPEND"
        "klists s' (SuspSender x) = wait_insert (prio s) (oflag (objs s (Mem x))) t (klists s (SuspSender x))"
        "0 < timeout \<longrightarrow> tm_timeout_tick (timers s' (TimerOf t)) = tick s + of_int timeout"
        using mb_block[OF assms(1,4,5,2,3,6,8,9), of "SuspSender x"] by blast
      have r: "rt_mb_send_wait x v timeout s = Some (Blocked (t, v, timeout, tick s), s')"
        using ty av True False b(1,2) by (simp add: rt_mb_send_wait_def mb_send_loop_def rt_tick_get_def)
      show ?thesis using r b True False room by (intro exI[of _ "Blocked (t, v, timeout, tick s)"] exI[of _ s']) simp
    qed
  qed
qed

text \<open>
  C15. \<^verbatim>\<open>rt_mb_recv\<close> implements a get from a bounded queue. It answers the oldest mail, and wakes the first
  waiting sender; from an empty mailbox a zero timeout is refused and changes nothing, and any other
  timeout queues the receiver at its place. The invariants are kept.
\<close>

theorem mb_recv_refines:
  assumes "kern_wf s" "stacks_ok s" "mb_ok x s" "cur s = Some t" "tstat s t = RT_THREAD_RUNNING"
    and "lock_nest s = 0" "int_nest s = 0" "ready_group s \<noteq> 0" "time_ok timeout"
  shows "\<exists>out s'. rt_mb_recv x timeout s = Some (out, s') \<and> kern_wf s' \<and> stacks_ok s' \<and> mb_ok x s' \<and>
    (case mb_content (mailboxes s x) of
       v # vs \<Rightarrow> out = Done (RT_EOK, Some v) \<and> mb_content (mailboxes s' x) = vs \<and>
         klists s' (SuspSender x) = tl (klists s (SuspSender x)) \<and>
         (\<forall>r rs. klists s (SuspSender x) = r # rs \<longrightarrow> tstat s' r \<in> {RT_THREAD_READY, RT_THREAD_RUNNING})
     | [] \<Rightarrow> mailboxes s' x = mailboxes s x \<and>
         (if timeout = 0 then out = Done (- RT_ETIMEOUT, None) \<and> s' = s
          else out = Blocked (t, timeout, tick s) \<and> tstat s' t = RT_THREAD_SUSPEND \<and> cur s' \<noteq> Some t \<and>
            klists s' (Susp x) = wait_insert (prio s) (oflag (objs s (Mem x))) t (klists s (Susp x)) \<and>
            (0 < timeout \<longrightarrow> tm_timeout_tick (timers s' (TimerOf t)) = tick s + of_int timeout)))"
proof -
  let ?mb = "mailboxes s x"
  have wf: "mb_wf ?mb" and ty: "rt_object_get_type (Mem x) s = RT_Object_Class_MailBox" using assms(3) by (simp_all add: mb_ok_def two_sided_def)
  have av: "scheduler_available b s" "rt_thread_self s = Some t" for b
    using assms(4,6,7) by (simp_all add: scheduler_available_def in_thread_context_def not_in_interrupt_def rt_thread_self_def)
  show ?thesis
  proof (cases "mb_entry ?mb = 0")
    case False
    obtain v mb' where mb': "mb_get ?mb = Some (v, mb')" "mb_wf mb'" "mb_content ?mb = v # mb_content mb'"
      using mb_get_law[OF wf False] by blast
    have c: "cur s \<noteq> None" using assms(4) by simp
    obtain s' where s': "wake_one (SuspSender x) (upd_mb x (\<lambda>_. mb') s) = Some s'" "kern_wf s'" "stacks_ok s'" "mb_ok x s'"
      "mailboxes s' x = mb'" "klists s' (SuspSender x) = tl (klists s (SuspSender x))"
      "\<forall>t ts. klists s (SuspSender x) = t # ts \<longrightarrow> tstat s' t \<in> {RT_THREAD_READY, RT_THREAD_RUNNING}"
      using mb_wake[OF assms(1,2) c assms(3) mb'(2), of "SuspSender x"] by blast
    have r: "rt_mb_recv x timeout s = Some (Done (RT_EOK, Some v), s')"
      using ty av False mb'(1) s'(1) by (simp add: rt_mb_recv_def mb_recv_loop_def)
    show ?thesis using r s' mb'(3) by (intro exI[of _ "Done (RT_EOK, Some v)"] exI[of _ s']) simp
  next
    case True
    then have nil: "mb_content ?mb = []" by (simp add: mb_content_def)
    show ?thesis
    proof (cases "timeout = 0")
      case t0: True
      then show ?thesis using ty av True nil assms(1-3) by (simp add: rt_mb_recv_def)
    next
      case False
      obtain s1 s' where b: "ipc_wait (Susp x) t (oflag (objs s (Mem x))) timeout (upd_thread t (\<lambda>th. th\<lparr>th_error := RT_EOK\<rparr>) s) = Some s1"
        "rt_schedule s1 = Some s'" "kern_wf s'" "stacks_ok s'" "mb_ok x s'" "mailboxes s' = mailboxes s"
        "cur s' \<noteq> Some t" "tstat s' t = RT_THREAD_SUSPEND"
        "klists s' (Susp x) = wait_insert (prio s) (oflag (objs s (Mem x))) t (klists s (Susp x))"
        "0 < timeout \<longrightarrow> tm_timeout_tick (timers s' (TimerOf t)) = tick s + of_int timeout"
        using mb_block[OF assms(1,4,5,2,3,6,8,9), of "Susp x"] by blast
      have r: "rt_mb_recv x timeout s = Some (Blocked (t, timeout, tick s), s')"
        using ty av True False b(1,2) by (simp add: rt_mb_recv_def mb_recv_loop_def rt_tick_get_def)
      show ?thesis using r b False nil by (intro exI[of _ "Blocked (t, timeout, tick s)"] exI[of _ s']) simp
    qed
  qed
qed


definition mb_demo :: kstate where
  "mb_demo = upd_mb 33 (\<lambda>mb. mb_clear (mb\<lparr>mb_size := 2\<rparr>)) idemo"

lemma mb_demo_state:
  "kern_wf mb_demo" "stacks_ok mb_demo" "mb_ok 33 mb_demo" "cur mb_demo = Some 2" "tstat mb_demo 2 = RT_THREAD_RUNNING"
  "lock_nest mb_demo = 0" "int_nest mb_demo = 0" "ready_group mb_demo \<noteq> 0" "mailboxes mb_demo 33 = mb_clear ((mailboxes bss 33)\<lparr>mb_size := 2\<rparr>)"
proof -
  show "kern_wf mb_demo" "stacks_ok mb_demo" using idemo_wf idemo_stacks by (simp_all add: mb_demo_def kern_upd_mb)
  show "mb_ok 33 mb_demo" by (simp add: mb_demo_def mb_ok_def two_sided_def ipc_flag_ok_def mb_wf_def mb_clear_def bss_def)
  have "tstat mb_demo 2 = tstat idemo 2" by (simp add: mb_demo_def tstat_def)
  then show "tstat mb_demo 2 = RT_THREAD_RUNNING" by simp
  show "lock_nest mb_demo = 0" "int_nest mb_demo = 0" "ready_group mb_demo \<noteq> 0"
    using idemo_simps(3,6,7) unfolding mb_demo_def upd_mb_def by simp_all
qed (simp_all add: mb_demo_def)

theorem mb_send_refines_witness:
  "\<exists>s'. rt_mb_send_wait 33 7 0 mb_demo = Some (Done RT_EOK, s') \<and> mb_content (mailboxes s' 33) = [7]"
proof -
  have t: "time_ok 0" by (simp add: time_ok_def)
  show ?thesis using mb_send_refines[OF mb_demo_state(1-8) t, of 7]
    unfolding mb_demo_state(9) by (auto simp: mb_clear_def mb_content_def)
qed

theorem mb_recv_refines_witness:
  "\<exists>s'. rt_mb_recv 33 5 mb_demo = Some (Blocked (2, 5, tick mb_demo), s') \<and> tstat s' 2 = RT_THREAD_SUSPEND"
proof -
  have t: "time_ok 5" by (simp add: time_ok_def)
  show ?thesis using mb_recv_refines[OF mb_demo_state(1-8) t]
    unfolding mb_demo_state(9) by (auto simp: mb_clear_def mb_content_def)
qed

text \<open>
  A mailbox is a bounded first-in first-out buffer: in any run of sends and receives, those that find
  it full or empty refused, what comes out is what was inside followed by what was accepted, in order,
  with nothing lost across the wrap-around of the offsets, and it never holds more than its size.
\<close>

theorem mb_delivers_in_order:
  assumes "mb_wf mb" "fifo_run mb_try_put mb_try_get ops mb = (mb', ins, outs)"
  shows "mb_wf mb' \<and> mb_content mb @ ins = outs @ mb_content mb' \<and> length (mb_content mb') \<le> unat (mb_size mb)"
  using mbq.run_fifo[OF assms(1) TrueI assms(2)] by simp

theorem mb_delivers_in_order_witness:
  "\<exists>mb'. fifo_run mb_try_put mb_try_get [Put 7, Put 8, Put 9, Get, Put 10, Get] (mailboxes mb_demo 33) = (mb', [7, 8, 10], [7, 8]) \<and>
    mb_content mb' = [10]"
proof -
  let ?mb = "mailboxes mb_demo 33" and ?ops = "[Put 7, Put 8, Put 9, Get, Put 10, Get] :: u32 queue_op list"
  have wf: "mb_wf ?mb" using mb_demo_state(3) by (simp add: mb_ok_def)
  have run: "\<exists>mb'. fifo_run mb_try_put mb_try_get ?ops ?mb = (mb', [7, 8, 10], [7, 8])"
    unfolding mb_demo_state(9) by (simp add: mb_try_put_def mb_try_get_def mb_put_def mb_get_def mb_clear_def bss_def Let_def word_le_nat_alt)
  then obtain mb' where mb': "fifo_run mb_try_put mb_try_get ?ops ?mb = (mb', [7, 8, 10], [7, 8])" by blast
  have "mb_content ?mb = []" unfolding mb_demo_state(9) by (simp add: mb_clear_def mb_content_def)
  then show ?thesis using mb_delivers_in_order[OF wf mb'] mb' by simp
qed

text \<open>An urgent mail is the next one out.\<close>

lemma mb_urgent_first:
  assumes "mb_wf mb" "mb_try_push v mb = Some mb1"
  shows "\<exists>mb2. mb_try_get mb1 = Some (v, mb2) \<and> mb_content mb2 = mb_content mb"
  using mbq.urgent_first[OF assms(1) TrueI assms(2)] by blast

text \<open>A sender that is woken tries again with the time that is left.\<close>

lemma mb_send_retries:
  assumes "rt_object_get_type (Mem x) s = RT_Object_Class_MailBox" "scheduler_available True s" "cur s = Some t"
    and "th_error (threads s t) = RT_EOK" "mb_entry (mailboxes s x) \<noteq> mb_size (mailboxes s x) \<or> time_left timeout start s \<noteq> 0"
  shows "rt_mb_send_wait_resume x (t, v, timeout, start) s = rt_mb_send_wait x v (time_left timeout start s) s"
  using assms by (auto simp: rt_mb_send_wait_resume_def rt_mb_send_wait_def rt_thread_self_def scheduler_available_def)

end
