(* ===== verification/Heap.thy ===== *)
theory Heap
  imports Mutex
begin

text \<open>
  \<^verbatim>\<open>src/mem.c\<close>, the small-memory allocator that is the system heap of this configuration, and the
  \<^verbatim>\<open>rt_malloc\<close> family of \<^verbatim>\<open>src/kservice.c\<close> on top of it. The heap is a chain of items; each block starts
  with its item, linked to its neighbours by offsets from the start of the heap. The lemmas show that
  the chain partitions the heap into blocks, that allocation is first fit with splitting, and that
  freeing merges the block with its free neighbours.
\<close>

section \<open>Data\<close>

text \<open>
  The items are found by their addresses; the bytes of the blocks lie in a memory of \<open>KString\<close>, which
  only \<^verbatim>\<open>rt_smem_realloc\<close> and \<^verbatim>\<open>rt_calloc\<close> touch. An item is 12 bytes long, \<^verbatim>\<open>struct rt_small_mem\<close> 56.
\<close>

record rt_small_mem_item =
  mi_pool_ptr :: u32
  mi_next :: u32
  mi_prev :: u32

record rt_small_mem =
  sm_self :: u32                       \<comment> \<open>the address of the structure itself\<close>
  sm_total :: u32                      \<comment> \<open>\<^verbatim>\<open>parent.total\<close>, \<^verbatim>\<open>parent.used\<close>, \<^verbatim>\<open>parent.max\<close>\<close>
  sm_used :: u32
  sm_max :: u32
  sm_heap_ptr :: u32
  sm_heap_end :: u32
  sm_lfree :: u32
  sm_size_aligned :: u32
  sm_items :: "u32 \<Rightarrow> rt_small_mem_item"

abbreviation (input) SIZEOF_STRUCT_MEM :: u32 where "SIZEOF_STRUCT_MEM \<equiv> 12"
abbreviation (input) MIN_SIZE_ALIGNED :: u32 where "MIN_SIZE_ALIGNED \<equiv> 12"
abbreviation (input) SIZEOF_SMALL_MEM :: u32 where "SIZEOF_SMALL_MEM \<equiv> 56"
abbreviation (input) MEM_MASK :: u32 where "MEM_MASK \<equiv> 0xfffffffe"

definition align_up :: "u32 \<Rightarrow> u32" where
  "align_up n = (n + 4 - 1) AND NOT (4 - 1)"

definition align_down :: "u32 \<Rightarrow> u32" where
  "align_down n = n AND NOT (4 - 1)"

definition mem_used :: "rt_small_mem \<Rightarrow> u32" where
  "mem_used h = (sm_self h AND MEM_MASK) OR 1"

definition mem_freed :: "rt_small_mem \<Rightarrow> u32" where
  "mem_freed h = (sm_self h AND MEM_MASK) OR 0"

definition is_used :: "rt_small_mem \<Rightarrow> u32 \<Rightarrow> bool" where
  "is_used h mem \<longleftrightarrow> mi_pool_ptr (sm_items h mem) AND NOT MEM_MASK \<noteq> 0"

definition mem_pool :: "rt_small_mem \<Rightarrow> u32 \<Rightarrow> u32" where
  "mem_pool h mem = mi_pool_ptr (sm_items h mem) AND MEM_MASK"

definition upd_item :: "u32 \<Rightarrow> (rt_small_mem_item \<Rightarrow> rt_small_mem_item) \<Rightarrow> rt_small_mem \<Rightarrow> rt_small_mem" where
  "upd_item a f h = h\<lparr>sm_items := (sm_items h)(a := f (sm_items h a))\<rparr>"

text \<open>The assertions on the handle: the structure is a static memory object.\<close>

definition heap_object :: "u32 \<Rightarrow> kstate \<Rightarrow> bool" where
  "heap_object a s \<longleftrightarrow> rt_object_get_type (Mem (unat a)) s = RT_Object_Class_Memory \<and>
     rt_object_is_systemobject (Mem (unat a)) s"

section \<open>Initialisation\<close>

text \<open>\<open>I\<close> is what the memory holds before. \<open>None\<close> in the result is the null pointer.\<close>

definition smem_set_up :: "u32 \<Rightarrow> u32 \<Rightarrow> u32 \<Rightarrow> (u32 \<Rightarrow> rt_small_mem_item) \<Rightarrow> rt_small_mem" where
  "smem_set_up self begin_align mem_size I =
    (let h = \<lparr>sm_self = self, sm_total = mem_size, sm_used = 0, sm_max = 0, sm_heap_ptr = begin_align,
              sm_heap_end = 0, sm_lfree = 0, sm_size_aligned = mem_size, sm_items = I\<rparr>;
         mem = sm_heap_ptr h;
         h = upd_item mem (\<lambda>_. \<lparr>mi_pool_ptr = mem_freed h, mi_next = mem_size + SIZEOF_STRUCT_MEM, mi_prev = 0\<rparr>) h;
         h = h\<lparr>sm_heap_end := sm_heap_ptr h + mi_next (sm_items h mem)\<rparr>;
         h = upd_item (sm_heap_end h) (\<lambda>_. \<lparr>mi_pool_ptr = mem_used h, mi_next = mem_size + SIZEOF_STRUCT_MEM,
               mi_prev = mem_size + SIZEOF_STRUCT_MEM\<rparr>) h
     in h\<lparr>sm_lfree := sm_heap_ptr h\<rparr>)"

definition rt_smem_init ::
    "u8 list \<Rightarrow> u32 \<Rightarrow> u32 \<Rightarrow> (u32 \<Rightarrow> rt_small_mem_item) \<Rightarrow> kstate \<Rightarrow> (rt_small_mem option \<times> kstate) option" where
  "rt_smem_init nm begin_addr sz I s =
    (let self = align_up begin_addr;
         start_addr = self + SIZEOF_SMALL_MEM;
         begin_align = align_up start_addr;
         end_align = align_down (begin_addr + sz)
     in if end_align > 2 * SIZEOF_STRUCT_MEM \<and> end_align - 2 * SIZEOF_STRUCT_MEM \<ge> start_addr then do {
          let mem_size = end_align - begin_align - 2 * SIZEOF_STRUCT_MEM;
          s \<leftarrow> rt_object_init (Mem (unat self)) RT_Object_Class_Memory nm s;
          Some (Some (smem_set_up self begin_align mem_size I), s)
        } else Some (None, s))"

definition rt_smem_detach :: "rt_small_mem \<Rightarrow> kstate \<Rightarrow> (int \<times> kstate) option" where
  "rt_smem_detach h s = do {
     _ \<leftarrow> kassert (heap_object (sm_self h) s);
     Some (RT_EOK, rt_object_detach (Mem (unat (sm_self h))) s)
   }"

section \<open>Allocation\<close>

text \<open>Taking the item at offset \<open>ptr\<close>, with the rest split off when it can hold a block of its own.\<close>

definition count_used :: "u32 \<Rightarrow> rt_small_mem \<Rightarrow> rt_small_mem" where
  "count_used n h =
    (let h = h\<lparr>sm_used := sm_used h + n\<rparr> in if sm_max h < sm_used h then h\<lparr>sm_max := sm_used h\<rparr> else h)"

definition smem_carve :: "u32 \<Rightarrow> u32 \<Rightarrow> rt_small_mem \<Rightarrow> rt_small_mem" where
  "smem_carve sz ptr h =
    (let mem = sm_heap_ptr h + ptr;
         h = (if mi_next (sm_items h mem) - (ptr + SIZEOF_STRUCT_MEM) \<ge> sz + SIZEOF_STRUCT_MEM + MIN_SIZE_ALIGNED then
            let ptr2 = ptr + SIZEOF_STRUCT_MEM + sz;
                mem2 = sm_heap_ptr h + ptr2;
                h = upd_item mem2 (\<lambda>it. \<lparr>mi_pool_ptr = mem_freed h, mi_next = mi_next (sm_items h mem), mi_prev = ptr\<rparr>) h;
                h = upd_item mem (\<lambda>it. it\<lparr>mi_next := ptr2\<rparr>) h;
                nx = mi_next (sm_items h mem2);
                h = (if nx \<noteq> sm_size_aligned h + SIZEOF_STRUCT_MEM
                     then upd_item (sm_heap_ptr h + nx) (\<lambda>it. it\<lparr>mi_prev := ptr2\<rparr>) h else h)
            in count_used (sz + SIZEOF_STRUCT_MEM) h
          else count_used (mi_next (sm_items h mem) - ptr) h)
     in upd_item mem (\<lambda>it. it\<lparr>mi_pool_ptr := mem_used h\<rparr>) h)"

text \<open>The walk of \<open>lfree\<close> to the next free item, and the search; a damaged chain may make both run forever.\<close>

partial_function (option) skip_used :: "rt_small_mem \<Rightarrow> rt_small_mem option" where
  "skip_used h =
    (if is_used h (sm_lfree h) \<and> sm_lfree h \<noteq> sm_heap_end h
     then skip_used (h\<lparr>sm_lfree := sm_heap_ptr h + mi_next (sm_items h (sm_lfree h))\<rparr>) else Some h)"

partial_function (option) smem_search :: "u32 \<Rightarrow> u32 \<Rightarrow> rt_small_mem \<Rightarrow> (u32 option \<times> rt_small_mem) option" where
  "smem_search sz ptr h =
    (if ptr \<le> sm_size_aligned h - sz then
       if \<not> is_used h (sm_heap_ptr h + ptr) \<and>
          mi_next (sm_items h (sm_heap_ptr h + ptr)) - (ptr + SIZEOF_STRUCT_MEM) \<ge> sz then
         let mem = sm_heap_ptr h + ptr;
             h = smem_carve sz ptr h
         in (if mem = sm_lfree h then
               skip_used h \<bind> (\<lambda>h. if sm_lfree h = sm_heap_end h \<or> \<not> is_used h (sm_lfree h) then Some h else None)
             else Some h) \<bind>
            (\<lambda>h. if mem + SIZEOF_STRUCT_MEM + sz \<le> sm_heap_end h \<and> (mem + SIZEOF_STRUCT_MEM) mod 4 = 0 \<and> mem AND (4 - 1) = 0
                 then Some (Some (mem + SIZEOF_STRUCT_MEM), h) else None)
       else smem_search sz (mi_next (sm_items h (sm_heap_ptr h + ptr))) h
     else Some (None, h))"

definition rt_smem_alloc :: "kstate \<Rightarrow> u32 \<Rightarrow> rt_small_mem \<Rightarrow> (u32 option \<times> rt_small_mem) option" where
  "rt_smem_alloc s sz h =
    (if sz = 0 then Some (None, h)
     else do {
       _ \<leftarrow> kassert (heap_object (sm_self h) s);
       let sz = align_up sz;
       if sz > sm_size_aligned h then Some (None, h)
       else
         let sz = (if sz < MIN_SIZE_ALIGNED then MIN_SIZE_ALIGNED else sz)
         in smem_search sz (sm_lfree h - sm_heap_ptr h) h
     })"

section \<open>Freeing\<close>

definition plug_holes :: "u32 \<Rightarrow> rt_small_mem \<Rightarrow> rt_small_mem option" where
  "plug_holes mem h = do {
     _ \<leftarrow> kassert (mem \<ge> sm_heap_ptr h);
     _ \<leftarrow> kassert (mem < sm_heap_end h);
     let nmem = sm_heap_ptr h + mi_next (sm_items h mem);
     let h = (if mem \<noteq> nmem \<and> \<not> is_used h nmem \<and> nmem \<noteq> sm_heap_end h then
          let h = (if sm_lfree h = nmem then h\<lparr>sm_lfree := mem\<rparr> else h);
              h = upd_item nmem (\<lambda>it. it\<lparr>mi_pool_ptr := 0\<rparr>) h;
              h = upd_item mem (\<lambda>it. it\<lparr>mi_next := mi_next (sm_items h nmem)\<rparr>) h
          in upd_item (sm_heap_ptr h + mi_next (sm_items h nmem)) (\<lambda>it. it\<lparr>mi_prev := mem - sm_heap_ptr h\<rparr>) h
        else h);
     let pmem = sm_heap_ptr h + mi_prev (sm_items h mem);
     Some (if pmem \<noteq> mem \<and> \<not> is_used h pmem then
          let h = (if sm_lfree h = mem then h\<lparr>sm_lfree := pmem\<rparr> else h);
              h = upd_item mem (\<lambda>it. it\<lparr>mi_pool_ptr := 0\<rparr>) h;
              h = upd_item pmem (\<lambda>it. it\<lparr>mi_next := mi_next (sm_items h mem)\<rparr>) h
          in upd_item (sm_heap_ptr h + mi_next (sm_items h mem)) (\<lambda>it. it\<lparr>mi_prev := pmem - sm_heap_ptr h\<rparr>) h
        else h)
   }"

text \<open>
  The pool is read from the item: it must be this heap (a null pool is stopped by the assertion, the
  pool of another heap would be worked on there).
\<close>

definition rt_smem_free :: "kstate \<Rightarrow> u32 option \<Rightarrow> rt_small_mem \<Rightarrow> rt_small_mem option" where
  "rt_smem_free s rmem h =
    (case rmem of
       None \<Rightarrow> Some h
     | Some rmem \<Rightarrow> do {
         _ \<leftarrow> kassert (rmem AND (4 - 1) = 0);
         let mem = rmem - SIZEOF_STRUCT_MEM;
         _ \<leftarrow> kassert (mem_pool h mem \<noteq> 0 \<and> mem_pool h mem = sm_self h);
         _ \<leftarrow> kassert (is_used h mem);
         _ \<leftarrow> kassert (heap_object (sm_self h) s);
         _ \<leftarrow> kassert (rmem \<ge> sm_heap_ptr h \<and> rmem < sm_heap_end h);
         _ \<leftarrow> kassert (mem_pool h (sm_heap_ptr h + mi_next (sm_items h mem)) = sm_self h);
         let h = upd_item mem (\<lambda>it. it\<lparr>mi_pool_ptr := mem_freed h\<rparr>) h;
         let h = (if mem < sm_lfree h then h\<lparr>sm_lfree := mem\<rparr> else h);
         let h = h\<lparr>sm_used := sm_used h - (mi_next (sm_items h mem) - (mem - sm_heap_ptr h))\<rparr>;
         plug_holes mem h
       })"

section \<open>Changing the size\<close>

text \<open>Cutting a block down: the tail becomes a free item of its own.\<close>

definition smem_shrink :: "u32 \<Rightarrow> u32 \<Rightarrow> u32 \<Rightarrow> u32 \<Rightarrow> rt_small_mem \<Rightarrow> rt_small_mem option" where
  "smem_shrink mem ptr sz newsize h =
    (let h = h\<lparr>sm_used := sm_used h - (sz - newsize)\<rparr>;
         ptr2 = ptr + SIZEOF_STRUCT_MEM + newsize;
         mem2 = sm_heap_ptr h + ptr2;
         h = upd_item mem2 (\<lambda>it. \<lparr>mi_pool_ptr = mem_freed h, mi_next = mi_next (sm_items h mem), mi_prev = ptr\<rparr>) h;
         h = upd_item mem (\<lambda>it. it\<lparr>mi_next := ptr2\<rparr>) h;
         nx = mi_next (sm_items h mem2);
         h = (if nx \<noteq> sm_size_aligned h + SIZEOF_STRUCT_MEM
              then upd_item (sm_heap_ptr h + nx) (\<lambda>it. it\<lparr>mi_prev := ptr2\<rparr>) h else h);
         h = (if mem2 < sm_lfree h then h\<lparr>sm_lfree := mem2\<rparr> else h)
     in plug_holes mem2 h)"

definition rt_smem_realloc :: "kstate \<Rightarrow> u32 option \<Rightarrow> u32 \<Rightarrow> rt_small_mem \<times> mem \<Rightarrow> (u32 option \<times> rt_small_mem \<times> mem) option" where
  "rt_smem_realloc s rmem newsize hm = (case hm of (h, m) \<Rightarrow> do {
     _ \<leftarrow> kassert (heap_object (sm_self h) s);
     let newsize = align_up newsize;
     if newsize > sm_size_aligned h then Some (None, h, m)
     else if newsize = 0 then do { h \<leftarrow> rt_smem_free s rmem h; Some (None, h, m) }
     else (case rmem of
         None \<Rightarrow> do { (p, h) \<leftarrow> rt_smem_alloc s newsize h; Some (p, h, m) }
       | Some rm \<Rightarrow> do {
           _ \<leftarrow> kassert (rm AND (4 - 1) = 0);
           _ \<leftarrow> kassert (rm \<ge> sm_heap_ptr h);
           _ \<leftarrow> kassert (rm < sm_heap_end h);
           let mem = rm - SIZEOF_STRUCT_MEM;
           let ptr = mem - sm_heap_ptr h;
           let sz = mi_next (sm_items h mem) - ptr - SIZEOF_STRUCT_MEM;
           if sz = newsize then Some (Some rm, h, m)
           else if newsize + SIZEOF_STRUCT_MEM + MIN_SIZE_ALIGNED < sz then do {
             h \<leftarrow> smem_shrink mem ptr sz newsize h;
             Some (Some rm, h, m)
           } else do {
             (p, h) \<leftarrow> rt_smem_alloc s newsize h;
             case p of
               None \<Rightarrow> Some (None, h, m)
             | Some nm \<Rightarrow> do {
                 let m = rt_memcpy (unat nm) (unat rm) (unat (if sz < newsize then sz else newsize)) m;
                 h \<leftarrow> rt_smem_free s (Some rm) h;
                 Some (Some nm, h, m)
               }
           }
         })
   })"

section \<open>The chain of items\<close>

text \<open>
  \<open>view h\<close> reads the item at an offset. The abstract heap is the list of its blocks in order of address,
  each with its size (item included) and whether it is in use. \<open>segs\<close> says that the items from offset
  \<open>o'\<close> on are such a list, \<open>p\<close> being the offset of the item before.
\<close>

type_synonym blocks = "(nat \<times> bool) list"

definition view :: "rt_small_mem \<Rightarrow> nat \<Rightarrow> rt_small_mem_item" where
  "view h k = sm_items h (sm_heap_ptr h + of_nat k)"

definition tag :: "u32 \<Rightarrow> bool \<Rightarrow> u32" where
  "tag self u = (self AND MEM_MASK) OR (if u then 1 else 0)"

definition span :: "blocks \<Rightarrow> nat" where
  "span bs = sum_list (map fst bs)"

definition used_total :: "blocks \<Rightarrow> nat" where
  "used_total bs = sum_list (map fst (filter snd bs))"

fun segs :: "u32 \<Rightarrow> (nat \<Rightarrow> rt_small_mem_item) \<Rightarrow> nat \<Rightarrow> nat \<Rightarrow> blocks \<Rightarrow> bool" where
  "segs self J p k [] = True"
| "segs self J p k ((n, u) # bs) = (mi_pool_ptr (J k) = tag self u \<and> mi_next (J k) = of_nat (k + n) \<and>
     mi_prev (J k) = of_nat p \<and> segs self J k (k + n) bs)"

fun last_at :: "nat \<Rightarrow> nat \<Rightarrow> blocks \<Rightarrow> nat" where
  "last_at p k [] = p"
| "last_at p k ((n, u) # bs) = last_at k (k + n) bs"

fun first_free :: "nat \<Rightarrow> blocks \<Rightarrow> nat" where
  "first_free k [] = k"
| "first_free k ((n, u) # bs) = (if u then first_free (k + n) bs else k)"

lemma span_simps [simp]:
  "span [] = 0" "span (b # bs) = fst b + span bs" "span (xs @ ys) = span xs + span ys"
  by (simp_all add: span_def)

lemma used_total_simps [simp]:
  "used_total [] = 0" "used_total ((n, u) # bs) = (if u then n else 0) + used_total bs"
  "used_total (xs @ ys) = used_total xs + used_total ys"
  by (simp_all add: used_total_def)

lemma used_le_span: "used_total bs \<le> span bs"
  by (induction bs) auto

lemma segs_append: "segs self J p k (xs @ ys) \<longleftrightarrow> segs self J p k xs \<and> segs self J (last_at p k xs) (k + span xs) ys"
  by (induction xs arbitrary: p k) (auto simp: add.assoc)

lemma last_at_append: "last_at p k (xs @ ys) = last_at (last_at p k xs) (k + span xs) ys"
  by (induction xs arbitrary: p k) (auto simp: add.assoc)

lemma first_free_append:
  "first_free k (xs @ ys) = (if \<forall>b\<in>set xs. snd b then first_free (k + span xs) ys else first_free k xs)"
proof (induction xs arbitrary: k)
  case (Cons b xs)
  then show ?case using Cons.IH[of "k + fst b"] by (cases b) (simp add: add.assoc)
qed simp

lemma first_free_range: "k \<le> first_free k bs \<and> first_free k bs \<le> k + span bs"
proof (induction bs arbitrary: k)
  case (Cons b bs)
  have "k + fst b \<le> first_free (k + fst b) bs" "first_free (k + fst b) bs \<le> k + fst b + span bs"
    using Cons.IH[of "k + fst b"] by simp_all
  then show ?case by (cases b) simp
qed simp

lemma last_at_le: "p \<le> k \<Longrightarrow> last_at p k bs \<le> k + span bs"
  by (induction bs arbitrary: p k) (auto simp: add.assoc[symmetric])

text \<open>Sizes are positive, so that different blocks start at different offsets.\<close>

definition sizes_ok :: "blocks \<Rightarrow> bool" where
  "sizes_ok bs \<longleftrightarrow> (\<forall>b\<in>set bs. 16 \<le> fst b \<and> 4 dvd fst b)"

lemma sizes_ok_simps [simp]:
  "sizes_ok []" "sizes_ok (b # bs) \<longleftrightarrow> 16 \<le> fst b \<and> 4 dvd fst b \<and> sizes_ok bs"
  "sizes_ok (xs @ ys) \<longleftrightarrow> sizes_ok xs \<and> sizes_ok ys"
  by (auto simp: sizes_ok_def)

lemma span_dvd: "sizes_ok bs \<Longrightarrow> 4 dvd span bs"
  by (induction bs) auto

lemma segs_cong:
  assumes "sizes_ok bs" "\<And>x. k \<le> x \<Longrightarrow> x < k + span bs \<Longrightarrow> J' x = J x"
  shows "segs self J' p k bs = segs self J p k bs"
  using assms
proof (induction bs arbitrary: p k)
  case (Cons b bs)
  obtain n u where b: "b = (n, u)" by (cases b)
  have "segs self J' k (k + n) bs = segs self J k (k + n) bs"
    using Cons.prems b by (intro Cons.IH) auto
  moreover have "J' k = J k" using Cons.prems b by simp
  ultimately show ?case by (simp add: b)
qed simp

lemma segs_prev:
  assumes "segs self J p k bs" "sizes_ok bs" "bs \<noteq> [] \<Longrightarrow> J' k = (J k)\<lparr>mi_prev := of_nat q\<rparr>"
    and "\<And>x. k < x \<Longrightarrow> x < k + span bs \<Longrightarrow> J' x = J x"
  shows "segs self J' q k bs"
proof (cases bs)
  case (Cons b ys)
  obtain n u where b: "b = (n, u)" by (cases b)
  have "segs self J' k (k + n) ys = segs self J k (k + n) ys"
    using assms(2,4) Cons b by (intro segs_cong) auto
  then show ?thesis using assms(1,3) Cons b by simp
qed simp

text \<open>Replacing blocks in the middle.\<close>

lemma segs_replace:
  assumes "segs self J p k (xs @ zs @ ys)" "sizes_ok xs" "sizes_ok ys"
    and "\<And>x. k \<le> x \<Longrightarrow> x < k + span xs \<Longrightarrow> J' x = J x"
    and "segs self J' (last_at p k xs) (k + span xs) zs'" "span zs' = span zs"
    and "ys \<noteq> [] \<Longrightarrow> J' (k + span xs + span zs) =
      (J (k + span xs + span zs))\<lparr>mi_prev := of_nat (last_at (last_at p k xs) (k + span xs) zs')\<rparr>"
    and "\<And>x. k + span xs + span zs < x \<Longrightarrow> x < k + span xs + span zs + span ys \<Longrightarrow> J' x = J x"
  shows "segs self J' p k (xs @ zs' @ ys)"
proof -
  have "segs self J' p k xs" using assms(1,2,4) segs_cong[of xs k J' J self p] by (simp add: segs_append)
  moreover have "segs self J (last_at (last_at p k xs) (k + span xs) zs) (k + span xs + span zs) ys"
    using assms(1) by (simp add: segs_append)
  then have "segs self J' (last_at (last_at p k xs) (k + span xs) zs') (k + span xs + span zs) ys"
    using assms(3,7,8) by (rule segs_prev) auto
  ultimately show ?thesis using assms(5,6) by (simp add: segs_append)
qed

text \<open>The tag of an item.\<close>

lemma tag_used: "tag self u AND 1 \<noteq> 0 \<longleftrightarrow> u"
  by (simp add: tag_def bit.conj_disj_distrib2 and.assoc)

lemma tag_pool: "tag self u AND MEM_MASK = self AND MEM_MASK"
  by (simp add: tag_def bit.conj_disj_distrib2 and.assoc)

lemma used_tag: "mem_used h = tag (sm_self h) True" "mem_freed h = tag (sm_self h) False"
  by (simp_all add: mem_used_def mem_freed_def tag_def)

lemma is_used_view: "is_used h (sm_heap_ptr h + of_nat k) \<longleftrightarrow> mi_pool_ptr (view h k) AND 1 \<noteq> 0"
proof -
  have "NOT MEM_MASK = 1" by simp
  then show ?thesis by (simp only: is_used_def view_def)
qed

text \<open>Offsets as words.\<close>

lemma of_nat_cmp:
  assumes "a < 4294967296" "b < 4294967296"
  shows "(of_nat a :: u32) \<le> of_nat b \<longleftrightarrow> a \<le> b" "(of_nat a :: u32) < of_nat b \<longleftrightarrow> a < b"
    "(of_nat a :: u32) = of_nat b \<longleftrightarrow> a = b"
  using assms by (simp_all add: word_le_nat_alt word_less_nat_alt unat_of_nat take_bit_nat_eq_self word_unat_eq_iff)

lemma view_upd:
  assumes "k < 4294967296" "x < 4294967296"
  shows "view (upd_item (sm_heap_ptr h + of_nat k) f h) x = (if x = k then f (view h k) else view h x)"
  using of_nat_cmp(3)[OF assms(2,1)] by (simp add: view_def upd_item_def)

lemma upd_item_simps [simp]:
  "sm_self (upd_item a f h) = sm_self h" "sm_total (upd_item a f h) = sm_total h"
  "sm_used (upd_item a f h) = sm_used h" "sm_max (upd_item a f h) = sm_max h"
  "sm_heap_ptr (upd_item a f h) = sm_heap_ptr h" "sm_heap_end (upd_item a f h) = sm_heap_end h"
  "sm_lfree (upd_item a f h) = sm_lfree h" "sm_size_aligned (upd_item a f h) = sm_size_aligned h"
  by (simp_all add: upd_item_def)

section \<open>The representation invariant\<close>

definition chain :: "rt_small_mem \<Rightarrow> blocks \<Rightarrow> bool" where
  "chain h bs \<longleftrightarrow> sizes_ok bs \<and> 24 \<le> span bs \<and> unat (sm_heap_ptr h) + span bs + 12 \<le> 4294967296 \<and>
     4 dvd unat (sm_heap_ptr h) \<and> sm_heap_ptr h \<noteq> 0 \<and> sm_self h \<noteq> 0 \<and> sm_self h AND MEM_MASK = sm_self h \<and>
     sm_heap_end h = sm_heap_ptr h + of_nat (span bs) \<and> sm_size_aligned h = of_nat (span bs - 12) \<and>
     segs (sm_self h) (view h) 0 0 bs \<and> mi_pool_ptr (view h (span bs)) = tag (sm_self h) True"

text \<open>No two neighbours are free, \<open>lfree\<close> is the first free block, and the counters are right.\<close>

definition merged :: "blocks \<Rightarrow> bool" where
  "merged bs \<longleftrightarrow> successively (\<lambda>a b. snd a \<or> snd b) bs"

definition heap_rep :: "rt_small_mem \<Rightarrow> blocks \<Rightarrow> bool" where
  "heap_rep h bs \<longleftrightarrow> chain h bs \<and> merged bs \<and> sm_lfree h = sm_heap_ptr h + of_nat (first_free 0 bs) \<and>
     sm_used h = of_nat (used_total bs) \<and> sm_used h \<le> sm_max h"

lemma chain_mid:
  assumes "chain h (xs @ (n, u) # ys)"
  shows "mi_pool_ptr (view h (span xs)) = tag (sm_self h) u" "mi_next (view h (span xs)) = of_nat (span xs + n)"
    "mi_prev (view h (span xs)) = of_nat (last_at 0 0 xs)" "16 \<le> n" "4 dvd n"
    "span xs + n + span ys + 12 < 4294967296" "4 dvd span xs"
proof -
  have "0 < unat (sm_heap_ptr h)" using assms by (simp add: chain_def unat_gt_0)
  then show "span xs + n + span ys + 12 < 4294967296" using assms by (simp add: chain_def)
qed (use assms span_dvd[of xs] in \<open>simp_all add: chain_def segs_append\<close>)

lemma chain_used:
  assumes "chain h (xs @ (n, u) # ys)"
  shows "is_used h (sm_heap_ptr h + of_nat (span xs)) = u"
    "mem_pool h (sm_heap_ptr h + of_nat (span xs)) = sm_self h"
  using chain_mid(1)[OF assms] assms tag_used[of "sm_self h" u] tag_pool[of "sm_self h" u]
  by (simp_all add: is_used_view mem_pool_def view_def[symmetric] chain_def)

text \<open>The chain depends on these fields only.\<close>

lemma chain_fields:
  assumes "sm_self h' = sm_self h" "sm_heap_ptr h' = sm_heap_ptr h" "sm_heap_end h' = sm_heap_end h"
    "sm_size_aligned h' = sm_size_aligned h" "sm_items h' = sm_items h"
  shows "chain h' bs = chain h bs"
proof -
  have "view h' = view h" using assms by (simp add: view_def fun_eq_iff)
  then show ?thesis using assms by (simp add: chain_def)
qed

text \<open>Replacing the middle of the chain, on the heap.\<close>

lemma chain_replace:
  assumes c: "chain h (xs @ zs @ ys)"
    and e: "sm_self h' = sm_self h" "sm_heap_ptr h' = sm_heap_ptr h" "sm_heap_end h' = sm_heap_end h"
      "sm_size_aligned h' = sm_size_aligned h"
    and z: "sizes_ok zs'" "span zs' = span zs" "segs (sm_self h) (view h') (last_at 0 0 xs) (span xs) zs'"
    and v: "\<And>x. x < span xs \<Longrightarrow> view h' x = view h x"
      "ys \<noteq> [] \<Longrightarrow> view h' (span xs + span zs) =
        (view h (span xs + span zs))\<lparr>mi_prev := of_nat (last_at (last_at 0 0 xs) (span xs) zs')\<rparr>"
      "\<And>x. span xs + span zs < x \<Longrightarrow> x \<le> span xs + span zs + span ys \<Longrightarrow> view h' x = view h x"
      "ys = [] \<Longrightarrow> mi_pool_ptr (view h' (span xs + span zs)) = mi_pool_ptr (view h (span xs + span zs))"
  shows "chain h' (xs @ zs' @ ys)"
proof -
  have ok: "sizes_ok xs" "sizes_ok ys" "segs (sm_self h) (view h) 0 0 (xs @ zs @ ys)" using c by (simp_all add: chain_def)
  have "segs (sm_self h) (view h') 0 0 (xs @ zs' @ ys)"
    by (rule segs_replace[OF ok(3,1,2)]) (use z v in auto)
  moreover have "mi_pool_ptr (view h' (span (xs @ zs' @ ys))) = mi_pool_ptr (view h (span (xs @ zs @ ys)))"
  proof (cases "ys = []")
    case False
    then have "span ys \<noteq> 0" using ok(2) by (cases ys) auto
    then show ?thesis using v(3) z(2) by (simp add: add.assoc)
  qed (use v(4) z(2) in simp)
  ultimately show ?thesis using c e z(1,2) by (simp add: chain_def)
qed

section \<open>Allocation is first fit\<close>

definition carved :: "nat \<Rightarrow> nat \<Rightarrow> blocks" where
  "carved k n = (if k + 36 \<le> n then [(k + 12, True), (n - k - 12, False)] else [(n, True)])"

text \<open>The specification: the offset of the block found, and the blocks afterwards.\<close>

fun alloc_spec :: "nat \<Rightarrow> blocks \<Rightarrow> (nat \<times> blocks) option" where
  "alloc_spec k [] = None"
| "alloc_spec k ((n, u) # bs) =
    (if \<not> u \<and> k + 12 \<le> n then Some (0, carved k n @ bs)
     else map_option (\<lambda>(pos, bs'). (n + pos, (n, u) # bs')) (alloc_spec k bs))"

lemma count_used_simps [simp]:
  "view (count_used m h) = view h" "sm_items (count_used m h) = sm_items h" "sm_self (count_used m h) = sm_self h"
  "sm_heap_ptr (count_used m h) = sm_heap_ptr h" "sm_heap_end (count_used m h) = sm_heap_end h"
  "sm_lfree (count_used m h) = sm_lfree h" "sm_size_aligned (count_used m h) = sm_size_aligned h"
  "sm_used (count_used m h) = sm_used h + m" "sm_used h + m \<le> sm_max (count_used m h)"
  by (simp_all add: count_used_def Let_def view_def fun_eq_iff not_less)

text \<open>The two cases of the carving, as the items they leave.\<close>

definition carve_to :: "nat \<Rightarrow> nat \<Rightarrow> nat \<Rightarrow> bool \<Rightarrow> rt_small_mem \<Rightarrow> rt_small_mem" where
  "carve_to k pos n rest h =
    (let b = sm_heap_ptr h; q = pos + 12 + k;
         h = upd_item (b + of_nat q) (\<lambda>_. \<lparr>mi_pool_ptr = tag (sm_self h) False, mi_next = of_nat (pos + n), mi_prev = of_nat pos\<rparr>) h;
         h = upd_item (b + of_nat pos) (\<lambda>it. it\<lparr>mi_next := of_nat q\<rparr>) h
     in if rest then upd_item (b + of_nat (pos + n)) (\<lambda>it. it\<lparr>mi_prev := of_nat q\<rparr>) h else h)"

lemma view_carve_to:
  assumes "pos + 12 + k < pos + n" "pos + n < 4294967296" "x < 4294967296"
  shows "view (carve_to k pos n rest h) x =
    (if x = pos then (view h pos)\<lparr>mi_next := of_nat (pos + 12 + k)\<rparr>
     else if x = pos + 12 + k then \<lparr>mi_pool_ptr = tag (sm_self h) False, mi_next = of_nat (pos + n), mi_prev = of_nat pos\<rparr>
     else if x = pos + n \<and> rest then (view h (pos + n))\<lparr>mi_prev := of_nat (pos + 12 + k)\<rparr> else view h x)"
proof -
  define q where "q = pos + 12 + k"
  define h1 where "h1 = upd_item (sm_heap_ptr h + of_nat q)
    (\<lambda>_. \<lparr>mi_pool_ptr = tag (sm_self h) False, mi_next = of_nat (pos + n), mi_prev = of_nat pos\<rparr>) h"
  define h2 where "h2 = upd_item (sm_heap_ptr h + of_nat pos) (\<lambda>it. it\<lparr>mi_next := of_nat q\<rparr>) h1"
  have lt: "q < 4294967296" "pos < 4294967296" "pos < q" "q < pos + n" using assms by (simp_all add: q_def)
  have b: "sm_heap_ptr h1 = sm_heap_ptr h" "sm_heap_ptr h2 = sm_heap_ptr h" by (simp_all add: h1_def h2_def)
  have v1: "view h1 x = (if x = q then \<lparr>mi_pool_ptr = tag (sm_self h) False, mi_next = of_nat (pos + n), mi_prev = of_nat pos\<rparr>
      else view h x)" if "x < 4294967296" for x
    unfolding h1_def by (rule view_upd[OF lt(1) that])
  have v2: "view h2 x = (if x = pos then (view h1 pos)\<lparr>mi_next := of_nat q\<rparr> else view h1 x)" if "x < 4294967296" for x
    using view_upd[OF lt(2) that, of h1 "\<lambda>it. it\<lparr>mi_next := of_nat q\<rparr>"] by (simp add: h2_def b)
  have "carve_to k pos n rest h = (if rest then upd_item (sm_heap_ptr h2 + of_nat (pos + n)) (\<lambda>it. it\<lparr>mi_prev := of_nat q\<rparr>) h2 else h2)"
    by (simp only: carve_to_def Let_def h2_def h1_def q_def upd_item_simps)
  then have "view (carve_to k pos n rest h) x = (if rest \<and> x = pos + n then (view h2 (pos + n))\<lparr>mi_prev := of_nat q\<rparr> else view h2 x)"
    using view_upd[OF assms(2,3), of h2 "\<lambda>it. it\<lparr>mi_prev := of_nat q\<rparr>"] by (cases rest) simp_all
  then show ?thesis using v1 v2 assms lt by (auto simp: q_def)
qed

lemma carve_to_simps [simp]:
  "sm_self (carve_to k pos n rest h) = sm_self h" "sm_heap_ptr (carve_to k pos n rest h) = sm_heap_ptr h"
  "sm_heap_end (carve_to k pos n rest h) = sm_heap_end h" "sm_lfree (carve_to k pos n rest h) = sm_lfree h"
  "sm_size_aligned (carve_to k pos n rest h) = sm_size_aligned h" "sm_used (carve_to k pos n rest h) = sm_used h"
  "sm_max (carve_to k pos n rest h) = sm_max h"
  by (simp_all add: carve_to_def Let_def)

lemma carve_items:
  assumes c: "chain h (xs @ (n, u) # ys)" and k: "k + 28 \<le> n"
  shows "(let h' = upd_item (sm_heap_ptr h + (of_nat (span xs) + 12 + of_nat k))
               (\<lambda>it. \<lparr>mi_pool_ptr = mem_freed h, mi_next = mi_next (sm_items h (sm_heap_ptr h + of_nat (span xs))),
                  mi_prev = of_nat (span xs)\<rparr>) h;
             h' = upd_item (sm_heap_ptr h + of_nat (span xs)) (\<lambda>it. it\<lparr>mi_next := of_nat (span xs) + 12 + of_nat k\<rparr>) h';
             nx = mi_next (sm_items h' (sm_heap_ptr h + (of_nat (span xs) + 12 + of_nat k)))
         in if nx \<noteq> sm_size_aligned h' + 12
            then upd_item (sm_heap_ptr h' + nx) (\<lambda>it. it\<lparr>mi_prev := of_nat (span xs) + 12 + of_nat k\<rparr>) h' else h') =
    carve_to k (span xs) n (ys \<noteq> []) h"
proof -
  let ?b = "sm_heap_ptr h" and ?o = "span xs"
  note m = chain_mid[OF c]
  have nx: "mi_next (sm_items h (?b + of_nat ?o)) = of_nat (?o + n)" using m(2) by (simp add: view_def)
  define q where "q = ?o + 12 + k"
  have lt: "q < 4294967296" "?o < 4294967296" "?o < q" "q < ?o + n" "?o + n < 4294967296"
    using m(6) k by (simp_all add: q_def)
  have qw: "of_nat ?o + 12 + of_nat k = (of_nat q :: u32)" by (simp add: q_def)
  define h1 where "h1 = upd_item (?b + of_nat q)
    (\<lambda>_. \<lparr>mi_pool_ptr = tag (sm_self h) False, mi_next = of_nat (?o + n), mi_prev = of_nat ?o\<rparr>) h"
  define h2 where "h2 = upd_item (?b + of_nat ?o) (\<lambda>it. it\<lparr>mi_next := of_nat q\<rparr>) h1"
  have b: "sm_heap_ptr h1 = ?b" "sm_heap_ptr h2 = ?b" "sm_size_aligned h2 = of_nat (span (xs @ (n, u) # ys) - 12)"
    using c by (simp_all add: h1_def h2_def chain_def)
  have "view h1 q = \<lparr>mi_pool_ptr = tag (sm_self h) False, mi_next = of_nat (?o + n), mi_prev = of_nat ?o\<rparr>"
    using view_upd[OF lt(1,1), of h] by (simp add: h1_def)
  moreover have "view h2 q = view h1 q"
    using view_upd[OF lt(2,1), of h1] lt(3) by (simp add: h2_def b)
  ultimately have nq: "mi_next (sm_items h2 (?b + of_nat q)) = of_nat (?o + n)" by (simp add: view_def b)
  have "12 \<le> span (xs @ (n, u) # ys)" using m(4) by simp
  then have "sm_size_aligned h2 + 12 = of_nat (?o + n + span ys)" unfolding b(3) by (simp add: of_nat_diff)
  moreover have "span ys = 0 \<longleftrightarrow> ys = []" using c by (cases ys) (auto simp: chain_def)
  ultimately have rest: "of_nat (?o + n) = sm_size_aligned h2 + 12 \<longleftrightarrow> ys = []"
    using of_nat_cmp(3)[of "?o + n" "?o + n + span ys"] m(6) by simp
  show ?thesis
    unfolding Let_def used_tag nx qw carve_to_def q_def[symmetric] h1_def[symmetric] h2_def[symmetric] b(1,2) nq
    using rest by simp
qed

lemma carve_eq:
  assumes c: "chain h (xs @ (n, u) # ys)" and k: "k + 12 \<le> n"
  shows "smem_carve (of_nat k) (of_nat (span xs)) h =
    upd_item (sm_heap_ptr h + of_nat (span xs)) (\<lambda>it. it\<lparr>mi_pool_ptr := tag (sm_self h) True\<rparr>)
      (if k + 36 \<le> n then count_used (of_nat (k + 12)) (carve_to k (span xs) n (ys \<noteq> []) h)
       else count_used (of_nat n) h)"
proof -
  let ?b = "sm_heap_ptr h" and ?o = "span xs"
  note m = chain_mid[OF c]
  have nx: "mi_next (sm_items h (?b + of_nat ?o)) = of_nat (?o + n)" using m(2) by (simp add: view_def)
  have "of_nat (?o + n) - (of_nat ?o + 12 :: u32) = of_nat (n - 12)" using k(1) by (simp add: of_nat_diff)
  moreover have "of_nat k + 12 + 12 = (of_nat (k + 24) :: u32)" by simp
  moreover have "(of_nat (k + 24) :: u32) \<le> of_nat (n - 12) \<longleftrightarrow> k + 24 \<le> n - 12"
    using k m(6) by (intro of_nat_cmp(1)) linarith+
  ultimately have split: "(of_nat k + 12 + 12 \<le> of_nat (?o + n) - (of_nat ?o + 12 :: u32)) \<longleftrightarrow> k + 36 \<le> n"
    using k by (simp only:) linarith
  show ?thesis
  proof (cases "k + 36 \<le> n")
    case False
    then show ?thesis
      using nx split unfolding smem_carve_def Let_def used_tag nx by simp
  next
    case True
    then have i: "k + 28 \<le> n" by simp
    have "smem_carve (of_nat k) (of_nat ?o) h = upd_item (?b + of_nat ?o) (\<lambda>it. it\<lparr>mi_pool_ptr := tag (sm_self h) True\<rparr>)
        (count_used (of_nat (k + 12)) (carve_to k ?o n (ys \<noteq> []) h))"
      unfolding carve_items[OF c i, symmetric]
      using True split by (simp add: smem_carve_def Let_def used_tag(1) nx add.commute)
    then show ?thesis using True by simp
  qed
qed

lemma mark_chain:
  assumes c: "chain h (xs @ (n, u) # ys)"
  shows "chain (upd_item (sm_heap_ptr h + of_nat (span xs)) (\<lambda>it. it\<lparr>mi_pool_ptr := tag (sm_self h) v\<rparr>) h) (xs @ (n, v) # ys)"
    (is "chain ?h _")
proof -
  note m = chain_mid[OF c]
  have w: "view ?h x = (if x = span xs then (view h (span xs))\<lparr>mi_pool_ptr := tag (sm_self h) v\<rparr> else view h x)"
    if "x < 4294967296" for x
    using view_upd[of "span xs" x h] that m(6) by simp
  have c': "chain h (xs @ [(n, u)] @ ys)" using c by simp
  have pv: "ys \<noteq> [] \<Longrightarrow> mi_prev (view h (span xs + n)) = of_nat (span xs)"
    using c by (cases ys) (auto simp: chain_def segs_append)
  have "chain ?h (xs @ [(n, v)] @ ys)"
  proof (rule chain_replace[OF c'])
    show "segs (sm_self h) (view ?h) (last_at 0 0 xs) (span xs) [(n, v)]" using m w[of "span xs"] by simp
    show "view ?h x = view h x" if "x < span xs" for x using that m(6) w[of x] by simp
    show "view ?h (span xs + span [(n, u)]) =
        (view h (span xs + span [(n, u)]))\<lparr>mi_prev := of_nat (last_at (last_at 0 0 xs) (span xs) [(n, v)])\<rparr>" if "ys \<noteq> []"
      using that m(4,6) w[of "span xs + n"] pv by simp
    show "view ?h x = view h x" if "span xs + span [(n, u)] < x" "x \<le> span xs + span [(n, u)] + span ys" for x
      using that m(4,6) w[of x] by simp
    show "mi_pool_ptr (view ?h (span xs + span [(n, u)])) = mi_pool_ptr (view h (span xs + span [(n, u)]))"
      using m(4,6) w[of "span xs + n"] by simp
  qed (use m in simp_all)
  then show ?thesis by simp
qed

lemma carve_to_chain:
  assumes c: "chain h (xs @ (n, u) # ys)" and k: "k + 28 \<le> n" "4 \<le> k" "4 dvd k"
  shows "chain (carve_to k (span xs) n (ys \<noteq> []) h) (xs @ (k + 12, u) # (n - k - 12, False) # ys)" (is "chain ?h _")
proof -
  note m = chain_mid[OF c]
  have v: "view ?h x = (if x = span xs then (view h (span xs))\<lparr>mi_next := of_nat (span xs + 12 + k)\<rparr>
     else if x = span xs + 12 + k then \<lparr>mi_pool_ptr = tag (sm_self h) False, mi_next = of_nat (span xs + n), mi_prev = of_nat (span xs)\<rparr>
     else if x = span xs + n \<and> ys \<noteq> [] then (view h (span xs + n))\<lparr>mi_prev := of_nat (span xs + 12 + k)\<rparr> else view h x)"
    if "x < 4294967296" for x
    using k m(6) that by (simp add: view_carve_to)
  have ne: "span ys \<noteq> 0 \<or> ys = []" using c by (cases ys) (auto simp: chain_def)
  have c': "chain h (xs @ [(n, u)] @ ys)" using c by simp
  let ?zs = "[(k + 12, u), (n - k - 12, False)]"
  have "chain ?h (xs @ ?zs @ ys)"
  proof (rule chain_replace[OF c'])
    have "4 dvd n - k - 12" using m(5) k(3) by (simp add: dvd_diff_nat)
    then show "sizes_ok ?zs" using k by simp
    show "segs (sm_self h) (view ?h) (last_at 0 0 xs) (span xs) ?zs"
      using k m v[of "span xs"] v[of "span xs + 12 + k"] by (simp add: add.commute add.left_commute)
    show "view ?h x = view h x" if "x < span xs" for x using that m(6) v[of x] by simp
    show "view ?h (span xs + span [(n, u)]) =
      (view h (span xs + span [(n, u)]))\<lparr>mi_prev := of_nat (last_at (last_at 0 0 xs) (span xs) ?zs)\<rparr>" if "ys \<noteq> []"
      using that k m(4,6) v[of "span xs + n"] by (simp add: add.commute add.left_commute)
    show "view ?h x = view h x" if "span xs + span [(n, u)] < x" "x \<le> span xs + span [(n, u)] + span ys" for x
      using that k m(4,6) v[of x] by simp
    show "mi_pool_ptr (view ?h (span xs + span [(n, u)])) = mi_pool_ptr (view h (span xs + span [(n, u)]))" if "ys = []"
      using that k m(4,6) v[of "span xs + n"] by simp
  qed (use k m in simp_all)
  then show ?thesis by simp
qed

lemma carve_chain:
  assumes c: "chain h (xs @ (n, False) # ys)" and k: "k + 12 \<le> n" "12 \<le> k" "4 dvd k"
  defines "h' \<equiv> smem_carve (of_nat k) (of_nat (span xs)) h"
  shows "chain h' (xs @ carved k n @ ys)" "sm_used h' = sm_used h + of_nat (used_total (carved k n))"
    "sm_lfree h' = sm_lfree h" "sm_self h' = sm_self h" "sm_heap_ptr h' = sm_heap_ptr h" "sm_heap_end h' = sm_heap_end h"
    "sm_used h' \<le> sm_max h'" "sm_size_aligned h' = sm_size_aligned h"
proof -
  define h1 where "h1 = (if k + 36 \<le> n then count_used (of_nat (k + 12)) (carve_to k (span xs) n (ys \<noteq> []) h)
       else count_used (of_nat n) h)"
  have f: "sm_self h1 = sm_self h" "sm_heap_ptr h1 = sm_heap_ptr h" "sm_heap_end h1 = sm_heap_end h"
    "sm_size_aligned h1 = sm_size_aligned h" "sm_lfree h1 = sm_lfree h"
    "sm_used h1 = sm_used h + of_nat (used_total (carved k n))" "sm_used h1 \<le> sm_max h1"
    using count_used_simps(9)[of "carve_to k (span xs) n (ys \<noteq> []) h" "of_nat (k + 12)"] count_used_simps(9)[of h "of_nat n"]
    by (simp_all add: h1_def carved_def)
  have h': "h' = upd_item (sm_heap_ptr h1 + of_nat (span xs)) (\<lambda>it. it\<lparr>mi_pool_ptr := tag (sm_self h1) True\<rparr>) h1"
    unfolding h'_def f unfolding h1_def by (rule carve_eq[OF c k(1)])
  show "sm_used h' = sm_used h + of_nat (used_total (carved k n))"
    "sm_lfree h' = sm_lfree h" "sm_self h' = sm_self h" "sm_heap_ptr h' = sm_heap_ptr h" "sm_heap_end h' = sm_heap_end h"
    "sm_used h' \<le> sm_max h'" "sm_size_aligned h' = sm_size_aligned h"
    using f by (simp_all add: h')
  show "chain h' (xs @ carved k n @ ys)"
  proof (cases "k + 36 \<le> n")
    case True
    let ?c = "carve_to k (span xs) n (ys \<noteq> []) h"
    have "chain ?c (xs @ (k + 12, False) # (n - k - 12, False) # ys)" using carve_to_chain[OF c] True k by simp
    then have "chain h1 (xs @ (k + 12, False) # (n - k - 12, False) # ys)"
      using chain_fields[of h1 ?c] True by (simp add: h1_def)
    from mark_chain[OF this] show ?thesis using True by (simp add: h' carved_def)
  next
    case False
    then have "chain h1 (xs @ (n, False) # ys)" using c chain_fields[of h1 h] by (simp add: h1_def)
    from mark_chain[OF this] show ?thesis using False by (simp add: h' carved_def)
  qed
qed

text \<open>Addresses in the heap.\<close>

lemma heap_addr:
  assumes "chain h bs" "a \<le> span bs + 12" "c \<le> span bs + 12"
  shows "a < span bs + 12 \<Longrightarrow> unat (sm_heap_ptr h + of_nat a) = unat (sm_heap_ptr h) + a"
    "a < span bs + 12 \<Longrightarrow> c < span bs + 12 \<Longrightarrow> (sm_heap_ptr h + of_nat a \<le> sm_heap_ptr h + of_nat c) \<longleftrightarrow> a \<le> c"
    "a < span bs + 12 \<Longrightarrow> c < span bs + 12 \<Longrightarrow> (sm_heap_ptr h + of_nat a < sm_heap_ptr h + of_nat c) \<longleftrightarrow> a < c"
    "a < span bs + 12 \<Longrightarrow> c < span bs + 12 \<Longrightarrow> (sm_heap_ptr h + of_nat a = sm_heap_ptr h + of_nat c) \<longleftrightarrow> a = c"
proof -
  have lim: "unat (sm_heap_ptr h) + span bs + 12 \<le> 4294967296" using assms(1) by (simp add: chain_def)
  have u: "unat (sm_heap_ptr h + of_nat x) = unat (sm_heap_ptr h) + x" if "x < span bs + 12" for x
    using lim that by (simp add: unat_word_ariths(1) unat_of_nat take_bit_nat_eq_self)
  show "a < span bs + 12 \<Longrightarrow> unat (sm_heap_ptr h + of_nat a) = unat (sm_heap_ptr h) + a" by (rule u)
  show "a < span bs + 12 \<Longrightarrow> c < span bs + 12 \<Longrightarrow> (sm_heap_ptr h + of_nat a \<le> sm_heap_ptr h + of_nat c) \<longleftrightarrow> a \<le> c"
    "a < span bs + 12 \<Longrightarrow> c < span bs + 12 \<Longrightarrow> (sm_heap_ptr h + of_nat a < sm_heap_ptr h + of_nat c) \<longleftrightarrow> a < c"
    "a < span bs + 12 \<Longrightarrow> c < span bs + 12 \<Longrightarrow> (sm_heap_ptr h + of_nat a = sm_heap_ptr h + of_nat c) \<longleftrightarrow> a = c"
    using u[of a] u[of c] by (simp_all only: word_le_nat_alt word_less_nat_alt word_unat_eq_iff) simp_all
qed

lemma heap_aligned:
  assumes "chain h bs" "a < span bs + 12" "4 dvd a"
  shows "(sm_heap_ptr h + of_nat a) AND 3 = 0" "(sm_heap_ptr h + of_nat a) mod 4 = 0"
proof -
  have "4 dvd unat (sm_heap_ptr h + of_nat a)"
    using heap_addr(1)[OF assms(1), of a 0] assms by (simp add: chain_def)
  then have m: "unat (sm_heap_ptr h + of_nat a) mod 4 = 0" by (rule dvd_imp_mod_0)
  then show "(sm_heap_ptr h + of_nat a) mod 4 = 0" by (simp add: word_unat_eq_iff unat_mod_distrib)
  moreover have "w AND 3 = w mod 4" for w :: u32 using take_bit_eq_mask[of 2 w] take_bit_eq_mod[of 2 w] by (simp add: mask_eq_exp_minus_1)
  ultimately show "(sm_heap_ptr h + of_nat a) AND 3 = 0" by simp
qed

lemma first_free_split:
  "first_free p ys = p + span ys \<and> (\<forall>b\<in>set ys. snd b) \<or>
   (\<exists>as n bs. ys = as @ (n, False) # bs \<and> first_free p ys = p + span as \<and> (\<forall>b\<in>set as. snd b))"
proof (induction ys arbitrary: p)
  case (Cons b ys)
  obtain n u where b: "b = (n, u)" by (cases b)
  show ?case
  proof (cases u)
    case False
    then have "b # ys = [] @ (n, False) # ys \<and> first_free p (b # ys) = p + span []" by (simp add: b)
    then show ?thesis by (metis empty_iff empty_set)
  next
    case True
    consider "first_free (p + n) ys = p + n + span ys" "\<forall>b\<in>set ys. snd b" |
      as m bs where "ys = as @ (m, False) # bs" "first_free (p + n) ys = p + n + span as" "\<forall>b\<in>set as. snd b"
      using Cons.IH[of "p + n"] by blast
    then show ?thesis
    proof cases
      case 2
      then have "b # ys = ((n, True) # as) @ (m, False) # bs \<and> first_free p (b # ys) = p + span ((n, True) # as) \<and>
          (\<forall>b\<in>set ((n, True) # as). snd b)"
        using True b by simp
      then show ?thesis by blast
    qed (use True b in simp)
  qed
qed simp

lemma chain_size: "chain h bs \<Longrightarrow> k \<le> span bs - 12 \<Longrightarrow> sm_size_aligned h - of_nat k = of_nat (span bs - 12 - k)"
  by (simp only: chain_def of_nat_diff)

lemma skip_used_chain:
  "chain h (xs @ ys) \<Longrightarrow> sm_lfree h = sm_heap_ptr h + of_nat (span xs) \<Longrightarrow>
    skip_used h = Some (h\<lparr>sm_lfree := sm_heap_ptr h + of_nat (first_free (span xs) ys)\<rparr>)"
proof (induction ys arbitrary: xs h)
  case Nil
  then have "sm_lfree h = sm_heap_end h" by (simp add: chain_def)
  then have "skip_used h = Some h" by (subst skip_used.simps) simp
  then show ?case using Nil.prems(2) by (metis first_free.simps(1) rt_small_mem.surjective rt_small_mem.update_convs(7))
next
  case (Cons b ys)
  obtain n u where b: "b = (n, u)" by (cases b)
  have c: "chain h (xs @ (n, u) # ys)" using Cons.prems(1) b by simp
  note m = chain_mid[OF c] and us = chain_used(1)[OF c]
  have ne: "sm_lfree h \<noteq> sm_heap_end h"
    using heap_addr(4)[OF c, of "span xs" "span (xs @ (n, u) # ys)"] Cons.prems(2) c m(4)
    by (simp add: chain_def)
  show ?case
  proof (cases u)
    case False
    then have "skip_used h = Some h" using us Cons.prems(2) by (subst skip_used.simps) simp
    then show ?thesis using Cons.prems(2) False b
      by (metis first_free.simps(2) rt_small_mem.surjective rt_small_mem.update_convs(7))
  next
    case True
    let ?h = "h\<lparr>sm_lfree := sm_heap_ptr h + of_nat (span xs + n)\<rparr>"
    have c': "chain ?h ((xs @ [(n, u)]) @ ys)" using c chain_fields[of ?h h] by simp
    have "mi_next (sm_items h (sm_lfree h)) = of_nat (span xs + n)" using m(2) Cons.prems(2) by (simp add: view_def)
    then have "skip_used h = skip_used ?h" using us ne Cons.prems(2) True by (subst skip_used.simps) simp
    then show ?thesis using Cons.IH[OF c'] True b by simp
  qed
qed

lemma alloc_spec_fits: "alloc_spec k bs = Some (pos, bs') \<Longrightarrow> pos + k + 12 \<le> span bs"
  by (induction bs arbitrary: pos bs') (fastforce split: if_splits)+

lemma carved_simps [simp]:
  "k + 12 \<le> n \<Longrightarrow> span (carved k n) = n" "carved k n \<noteq> []"
  "first_free p (carved k n @ ys) = (if k + 36 \<le> n then p + 12 + k else first_free (p + n) ys)"
  by (simp_all add: carved_def)

lemma merged_carved: "merged (xs @ (n, False) # ys) \<Longrightarrow> merged (xs @ carved k n @ ys)"
  by (auto simp: merged_def carved_def successively_append_iff successively_Cons split: if_splits)

text \<open>Taking the block at the end of \<open>xs\<close>, with the walk of \<open>lfree\<close> and the assertions.\<close>

definition smem_taken :: "nat \<Rightarrow> blocks \<Rightarrow> rt_small_mem \<Rightarrow> rt_small_mem" where
  "smem_taken k xs h =
    (let mem = sm_heap_ptr h + of_nat (span xs); h = smem_carve (of_nat k) (of_nat (span xs)) h
     in if mem = sm_lfree h then the (skip_used h) else h)"

lemma search_found:
  assumes r: "heap_rep h (xs @ (n, False) # ys)" and k: "k + 12 \<le> n" "12 \<le> k" "4 dvd k"
  shows "smem_search (of_nat k) (of_nat (span xs)) h =
      Some (Some (sm_heap_ptr h + of_nat (span xs + 12)), smem_taken k xs h)"
    "heap_rep (smem_taken k xs h) (xs @ carved k n @ ys)" "sm_heap_ptr (smem_taken k xs h) = sm_heap_ptr h"
    "sm_self (smem_taken k xs h) = sm_self h"
proof -
  let ?b = "sm_heap_ptr h" and ?o = "span xs" and ?bs = "xs @ (n, False) # ys"
  have c: "chain h ?bs" using r by (simp add: heap_rep_def)
  note m = chain_mid[OF c]
  define h1 where "h1 = smem_carve (of_nat k) (of_nat ?o) h"
  note ca = carve_chain[OF c k, folded h1_def]
  have c1: "chain h1 (xs @ carved k n @ ys)" by (rule ca(1))
  have lf: "sm_lfree h = ?b + of_nat (first_free 0 ?bs)" using r by (simp add: heap_rep_def)
  define all where "all \<longleftrightarrow> (\<forall>b\<in>set xs. snd b)"
  have ff: "first_free 0 ?bs = (if all then ?o else first_free 0 xs)" by (simp add: first_free_append all_def)
  have "sizes_ok xs" using c by (simp add: chain_def)
  then have ffx: "first_free 0 xs < ?o" if "\<not> all"
    using that first_free_split[of 0 xs] unfolding all_def by fastforce
  have at: "?b + of_nat ?o = sm_lfree h1 \<longleftrightarrow> all"
    using heap_addr(4)[OF c, of ?o "first_free 0 ?bs"] ffx by (auto simp: ca(3) lf ff)
  define l where "l = first_free ?o (carved k n @ ys)"
  have skip: "skip_used h1 = Some (h1\<lparr>sm_lfree := ?b + of_nat l\<rparr>)" if all
    using skip_used_chain[OF c1] that at by (simp add: ca(5) l_def)
  have t: "smem_taken k xs h = (if all then h1\<lparr>sm_lfree := ?b + of_nat l\<rparr> else h1)"
    using skip at by (simp add: smem_taken_def Let_def flip: h1_def)
  let ?t = "smem_taken k xs h"
  have ct: "chain ?t (xs @ carved k n @ ys)" using c1 chain_fields[of "h1\<lparr>sm_lfree := ?b + of_nat l\<rparr>" h1] by (simp add: t)
  show "sm_heap_ptr ?t = ?b" "sm_self ?t = sm_self h" by (simp_all add: t ca)
  have sp: "span (xs @ carved k n @ ys) = span ?bs" using k by simp
  have stop: "sm_lfree ?t = sm_heap_end ?t \<or> \<not> is_used ?t (sm_lfree ?t)" if all
  proof -
    consider "l = ?o + span (carved k n @ ys)" | as n' bs where "carved k n @ ys = as @ (n', False) # bs" "l = ?o + span as"
      using first_free_split[of ?o "carved k n @ ys"] unfolding l_def by blast
    then show ?thesis
    proof cases
      case 1
      then have "l = span ?bs" using sp by simp
      then show ?thesis using that c ca by (simp add: t chain_def)
    next
      case 2
      then have "chain ?t ((xs @ as) @ (n', False) # bs)" using ct by simp
      from chain_used(1)[OF this] have "\<not> is_used ?t (?b + of_nat l)" using 2 by (simp add: t ca that)
      then show ?thesis using that by (simp add: t)
    qed
  qed
  have bound: "(of_nat ?o :: u32) \<le> sm_size_aligned h - of_nat k"
  proof -
    have "sm_size_aligned h - of_nat k = of_nat (span ?bs - 12 - k)" using chain_size[OF c, of k] k by simp
    then show ?thesis using of_nat_cmp(1)[of ?o "span ?bs - 12 - k"] m(6) k by (simp del: of_nat_add of_nat_diff)
  qed
  have nx: "mi_next (sm_items h (?b + of_nat ?o)) = of_nat (?o + n)" using m(2) by (simp add: view_def)
  have "of_nat (?o + n) - (of_nat ?o + 12 :: u32) = of_nat (n - 12)" using k(1) by (simp add: of_nat_diff)
  moreover have "(of_nat k :: u32) \<le> of_nat (n - 12)" using of_nat_cmp(1)[of k "n - 12"] m(6) k by simp
  ultimately have fits: "(of_nat k :: u32) \<le> mi_next (sm_items h (?b + of_nat ?o)) - (of_nat ?o + 12)" unfolding nx by simp
  have un: "\<not> is_used h (?b + of_nat ?o)" using chain_used(1)[OF c] by simp
  have w: "?b + of_nat ?o + 12 = ?b + of_nat (?o + 12)" "?b + of_nat ?o + 12 + of_nat k = ?b + of_nat (?o + 12 + k)" by simp_all
  have e: "sm_heap_end ?t = ?b + of_nat (span ?bs)" using c ca by (simp add: t chain_def)
  have as: "?b + of_nat ?o + 12 + of_nat k \<le> sm_heap_end ?t" "(?b + of_nat ?o + 12) mod 4 = 0" "(?b + of_nat ?o) AND 3 = 0"
    using heap_addr(2)[OF c, of "?o + 12 + k" "span ?bs"] heap_aligned[OF c, of "?o + 12"] heap_aligned[OF c, of ?o] k m(7)
    unfolding w e by (simp_all add: add.assoc)
  have "smem_search (of_nat k) (of_nat ?o) h =
      (if ?b + of_nat ?o = sm_lfree h1 then
               skip_used h1 \<bind> (\<lambda>h. if sm_lfree h = sm_heap_end h \<or> \<not> is_used h (sm_lfree h) then Some h else None)
             else Some h1) \<bind>
            (\<lambda>h'. if ?b + of_nat ?o + 12 + of_nat k \<le> sm_heap_end h' \<and> (?b + of_nat ?o + 12) mod 4 = 0 \<and> (?b + of_nat ?o) AND 3 = 0
                 then Some (Some (?b + of_nat ?o + 12), h') else None)"
    using bound un fits by (subst smem_search.simps) (simp add: Let_def flip: h1_def)
  also have "\<dots> = Some (Some (?b + of_nat ?o + 12), ?t)"
    using at skip stop as by (cases all) (simp_all add: t)
  finally show "smem_search (of_nat k) (of_nat ?o) h = Some (Some (?b + of_nat (?o + 12)), ?t)" by simp
  have "sm_lfree ?t = ?b + of_nat (first_free 0 (xs @ carved k n @ ys))"
    using lf ff by (simp add: t ca first_free_append l_def flip: all_def)
  moreover have "merged (xs @ carved k n @ ys)" using r merged_carved by (simp add: heap_rep_def)
  moreover have "sm_used ?t = of_nat (used_total (xs @ carved k n @ ys))" using r ca(2) by (simp add: t heap_rep_def add.commute add.left_commute)
  moreover have "sm_used ?t \<le> sm_max ?t" using ca(7) by (simp add: t)
  ultimately show "heap_rep ?t (xs @ carved k n @ ys)" using ct by (simp add: heap_rep_def t ca)
qed

lemma search_alloc:
  assumes "heap_rep h (xs @ ys)" "12 \<le> k" "4 dvd k" "k \<le> span (xs @ ys) - 12"
  shows "case alloc_spec k ys of
      None \<Rightarrow> smem_search (of_nat k) (of_nat (span xs)) h = Some (None, h)
    | Some (pos, ys') \<Rightarrow> \<exists>h'. smem_search (of_nat k) (of_nat (span xs)) h =
          Some (Some (sm_heap_ptr h + of_nat (span xs + pos + 12)), h') \<and> heap_rep h' (xs @ ys') \<and>
          sm_heap_ptr h' = sm_heap_ptr h \<and> sm_self h' = sm_self h"
  using assms
proof (induction ys arbitrary: xs)
  case Nil
  have c: "chain h xs" using Nil.prems(1) by (simp add: heap_rep_def)
  have "0 < unat (sm_heap_ptr h)" using c by (simp add: chain_def unat_gt_0)
  then have l: "span xs < 4294967296" using c by (simp add: chain_def)
  have "sm_size_aligned h - of_nat k = of_nat (span xs - 12 - k)" using chain_size[OF c] Nil.prems(4) by simp
  moreover have "24 \<le> span xs" using c by (simp add: chain_def)
  ultimately have "\<not> (of_nat (span xs) :: u32) \<le> sm_size_aligned h - of_nat k"
    using of_nat_cmp(1)[of "span xs" "span xs - 12 - k"] l Nil.prems(2) by simp
  then show ?case by (subst smem_search.simps) simp
next
  case (Cons b ys)
  obtain n u where b: "b = (n, u)" by (cases b)
  have r: "heap_rep h (xs @ (n, u) # ys)" using Cons.prems(1) b by simp
  then have c: "chain h (xs @ (n, u) # ys)" by (simp add: heap_rep_def)
  note m = chain_mid[OF c]
  show ?case
  proof (cases "\<not> u \<and> k + 12 \<le> n")
    case True
    then have "heap_rep h (xs @ (n, False) # ys)" using r by simp
    from search_found[OF this _ Cons.prems(2,3)] True show ?thesis by (auto simp: b)
  next
    case False
    have "of_nat (span xs + n) - (of_nat (span xs) + 12 :: u32) = of_nat (n - 12)" using m(4) by (simp add: of_nat_diff)
    moreover have "(of_nat k :: u32) \<le> of_nat (n - 12) \<longleftrightarrow> k \<le> n - 12"
      using m(6) Cons.prems(4) b by (intro of_nat_cmp(1)) simp_all
    moreover have nx: "mi_next (sm_items h (sm_heap_ptr h + of_nat (span xs))) = of_nat (span xs + n)"
      using m(2) by (simp add: view_def)
    ultimately have no: "\<not> (\<not> is_used h (sm_heap_ptr h + of_nat (span xs)) \<and>
        of_nat k \<le> mi_next (sm_items h (sm_heap_ptr h + of_nat (span xs))) - (of_nat (span xs) + 12))"
      using False m(4) chain_used(1)[OF c] by (simp only:) linarith
    have "smem_search (of_nat k) (of_nat (span xs)) h =
        (if (of_nat (span xs) :: u32) \<le> sm_size_aligned h - of_nat k then smem_search (of_nat k) (of_nat (span xs + n)) h
         else Some (None, h))"
      using no nx by (subst smem_search.simps) auto
    moreover have "sm_size_aligned h - of_nat k = of_nat (span (xs @ b # ys) - 12 - k)"
      using chain_size[OF Cons.prems(1)[unfolded heap_rep_def, THEN conjunct1] Cons.prems(4)] .
    moreover have "(of_nat (span xs) :: u32) \<le> of_nat (span (xs @ b # ys) - 12 - k) \<longleftrightarrow> span xs \<le> span (xs @ b # ys) - 12 - k"
      using m(6) b by (intro of_nat_cmp(1)) simp_all
    ultimately have s: "smem_search (of_nat k) (of_nat (span xs)) h =
        (if span xs \<le> span (xs @ b # ys) - 12 - k then smem_search (of_nat k) (of_nat (span xs + n)) h else Some (None, h))"
      by (simp only:)
    have sp: "alloc_spec k (b # ys) = map_option (\<lambda>(pos, bs'). (n + pos, (n, u) # bs')) (alloc_spec k ys)"
      using False b by auto
    note ih = Cons.IH[of "xs @ [(n, u)]"]
    show ?thesis
    proof (cases "alloc_spec k ys")
      case None
      then show ?thesis using ih r Cons.prems s sp b by simp
    next
      case (Some a)
      obtain pos ys' where a: "a = (pos, ys')" by (cases a)
      have "span xs \<le> span (xs @ b # ys) - 12 - k" using alloc_spec_fits[of k ys pos ys'] Some a b by simp
      then show ?thesis using ih r Cons.prems s sp b Some a by (auto simp: add.assoc)
    qed
  qed
qed

text \<open>Rounding up to a multiple of four wraps at the end of the address range.\<close>

lemma and_not_3: "(w :: u32) AND - 4 = w - w mod 4"
proof -
  have "Suc (Suc (i - 2)) = i" if "2 \<le> i" for i :: nat using that by simp
  then have "w AND NOT (mask 2) = push_bit 2 (drop_bit 2 w)" by (intro bit_word_eqI) (auto simp: bit_simps not_less)
  moreover have "NOT (mask 2) = (- 4 :: u32)" by (simp add: mask_eq_exp_minus_1)
  ultimately have "w AND - 4 = push_bit 2 (drop_bit 2 w)" by simp
  then show ?thesis using bits_ident[of 2 w] by (simp add: take_bit_eq_mod eq_diff_eq)
qed

lemma unat_and_not_3: "unat ((w :: u32) AND - 4) = unat w div 4 * 4"
proof -
  have "unat w mod 4 \<le> unat w" by simp
  then have "unat (w - w mod 4) = unat w - unat w mod 4" by (simp add: unat_sub word_le_nat_alt unat_mod_distrib)
  then show ?thesis by (simp add: and_not_3 minus_mod_eq_div_mult)
qed

lemma unat_align_up: "unat (align_up n) = (unat n + 3) mod 4294967296 div 4 * 4"
proof -
  have "align_up n = (n + 3) AND - 4" by (simp add: align_up_def add.commute)
  moreover have "unat (n + 3) = (unat n + 3) mod 4294967296" by (simp add: unat_word_ariths(1))
  ultimately show ?thesis using unat_and_not_3[of "n + 3"] by (simp only:)
qed

text \<open>The size of the payload that a request is served with.\<close>

definition asked :: "u32 \<Rightarrow> nat" where
  "asked n = max 12 ((unat n + 3) mod 4294967296 div 4 * 4)"

lemma asked_simps [simp]: "12 \<le> asked n" "4 dvd asked n"
  by (auto simp: asked_def max_def)

lemma asked_enough: "unat n + 3 < 4294967296 \<Longrightarrow> unat n \<le> asked n"
  by (simp add: asked_def)

lemma asked_word: "of_nat (asked n) = (if align_up n < 12 then 12 else align_up n)"
proof -
  have u: "(unat n + 3) mod 4294967296 div 4 * 4 = unat (align_up n)" by (simp add: unat_align_up)
  show ?thesis unfolding asked_def u by (auto simp: word_less_nat_alt max_def)
qed

lemma alloc_spec_used: "\<forall>b\<in>set as. snd b \<Longrightarrow>
    alloc_spec k (as @ ys) = map_option (\<lambda>(pos, bs'). (span as + pos, as @ bs')) (alloc_spec k ys)"
  by (induction as) (auto simp: option.map_comp comp_def split_def option.map_ident add.assoc)

lemma alloc_spec_all_used: "\<forall>b\<in>set bs. snd b \<Longrightarrow> alloc_spec k bs = None"
  using alloc_spec_used[of bs k "[]"] by simp

lemma alloc_spec_small: "span bs < k + 12 \<Longrightarrow> alloc_spec k bs = None"
  using alloc_spec_fits[of k bs] by (cases "alloc_spec k bs") fastforce+

lemma smem_alloc_rep:
  assumes r: "heap_rep h bs" and ob: "heap_object (sm_self h) s"
  shows "case if n = 0 then None else alloc_spec (asked n) bs of
      None \<Rightarrow> rt_smem_alloc s n h = Some (None, h)
    | Some (pos, bs') \<Rightarrow> \<exists>h'. rt_smem_alloc s n h = Some (Some (sm_heap_ptr h + of_nat (pos + 12)), h') \<and>
        heap_rep h' bs' \<and> sm_heap_ptr h' = sm_heap_ptr h \<and> sm_self h' = sm_self h"
proof (cases "n = 0")
  case True
  then show ?thesis by (simp add: rt_smem_alloc_def)
next
  case False
  have c: "chain h bs" using r by (simp add: heap_rep_def)
  have lim: "span bs < 4294967296" "24 \<le> span bs"
    using c by (auto simp: chain_def unat_gt_0[symmetric])
  have "sm_size_aligned h = of_nat (span bs - 12)" using c by (simp only: chain_def)
  then have sa: "unat (sm_size_aligned h) = span bs - 12" using lim(1) by (simp only: unat_of_nat take_bit_nat_eq_self) simp
  define w where "w = align_up n"
  have asw: "of_nat (asked n) = (if w < 12 then 12 else w)" using asked_word by (simp add: w_def)
  have asn: "asked n = max 12 (unat w)" by (simp add: asked_def w_def unat_align_up)
  have al: "rt_smem_alloc s n h = (if sm_size_aligned h < w then Some (None, h)
      else smem_search (of_nat (asked n)) (sm_lfree h - sm_heap_ptr h) h)"
    using False ob by (simp add: rt_smem_alloc_def Let_def asw flip: w_def)
  show ?thesis
  proof (cases "sm_size_aligned h < w")
    case True
    then have "span bs < asked n + 12" using lim by (simp add: word_less_nat_alt sa asn)
    then show ?thesis using alloc_spec_small al True False by simp
  next
    case fit: False
    have k: "asked n \<le> span bs - 12" using fit lim by (simp add: word_less_nat_alt sa asn)
    obtain as cs where sp: "bs = as @ cs" "\<forall>b\<in>set as. snd b" "first_free 0 bs = span as"
      using first_free_split[of 0 bs] by (metis append_Nil2 add_0)
    have "sm_lfree h - sm_heap_ptr h = of_nat (span as)" using r sp(3) by (simp add: heap_rep_def)
    then have al': "rt_smem_alloc s n h = smem_search (of_nat (asked n)) (of_nat (span as)) h" using al fit by simp
    show ?thesis
    proof (cases "alloc_spec (asked n) cs")
      case None
      then show ?thesis
        using search_alloc[of h as cs "asked n"] r k sp al' False by (simp add: alloc_spec_used)
    next
      case (Some a)
      then show ?thesis
        using search_alloc[of h as cs "asked n"] r k sp al' False by (cases a) (auto simp: alloc_spec_used)
    qed
  qed
qed

text \<open>
  C19. Allocating is first fit: the request, rounded up to a multiple of four and at least twelve bytes,
  is served from the first free block that is large enough, which is split when the rest can hold
  a block of its own; the answer is null, and nothing changes, when the request is for nothing or no
  block fits. No assertion fires, the search ends, and the chain of items, the index of the first
  free block and the usage counter are those of the blocks afterwards.
\<close>

theorem smem_alloc_refines:
  assumes r: "heap_rep h bs" and ob: "heap_object (sm_self h) s"
  shows "case if n = 0 then None else alloc_spec (asked n) bs of
      None \<Rightarrow> rt_smem_alloc s n h = Some (None, h)
    | Some (pos, bs') \<Rightarrow> \<exists>h'. rt_smem_alloc s n h = Some (Some (sm_heap_ptr h + of_nat (pos + 12)), h') \<and>
        heap_rep h' bs' \<and> sm_heap_ptr h' = sm_heap_ptr h \<and> sm_self h' = sm_self h"
  using smem_alloc_rep[OF assms] .

section \<open>A heap to apply the theorems to\<close>

lemma smem_set_up_rep:
  assumes "4 dvd unat self" "self \<noteq> 0" "4 dvd unat b" "b \<noteq> 0" "24 \<le> n" "4 dvd n" "unat b + n + 12 \<le> 4294967296"
  shows "heap_rep (smem_set_up self b (of_nat (n - 12)) I) [(n, False)]"
    "sm_self (smem_set_up self b (of_nat (n - 12)) I) = self" "sm_heap_ptr (smem_set_up self b (of_nat (n - 12)) I) = b"
    "sm_heap_end (smem_set_up self b (of_nat (n - 12)) I) = b + of_nat n"
proof -
  define H where "H = smem_set_up self b (of_nat (n - 12)) I"
  have nn: "of_nat (n - 12) + 12 = (of_nat n :: u32)" using assms(5) by (simp add: of_nat_diff)
  have "0 < unat b" using assms(4) by (simp add: unat_gt_0)
  then have lt: "n < 4294967296" using assms(7) by simp
  have bn: "b \<noteq> b + of_nat n" using of_nat_cmp(3)[of n 0] lt assms(5) by simp
  have f: "sm_self H = self" "sm_heap_ptr H = b" "sm_heap_end H = b + of_nat n" "sm_lfree H = b" "sm_used H = 0" "sm_max H = 0"
    "sm_size_aligned H = of_nat (n - 12)"
    unfolding H_def smem_set_up_def Let_def nn by (simp_all add: upd_item_def)
  have it: "view H 0 = \<lparr>mi_pool_ptr = tag self False, mi_next = of_nat n, mi_prev = 0\<rparr>"
    "mi_pool_ptr (view H n) = tag self True"
    using bn unfolding view_def f(2) unfolding H_def smem_set_up_def Let_def nn
    by (simp_all add: upd_item_def mem_used_def mem_freed_def tag_def)
  have "self mod 4 = 0" using assms(1) by (simp add: word_unat_eq_iff unat_mod_distrib)
  then have "self AND - 4 = self" by (simp add: and_not_3)
  moreover have "(- 4 :: u32) AND MEM_MASK = - 4" by simp
  ultimately have "self AND MEM_MASK = self" by (metis and.assoc)
  then have "chain H [(n, False)]" using f it assms by (simp add: chain_def)
  then show "heap_rep H [(n, False)]" by (simp add: heap_rep_def merged_def f)
  show "sm_self H = self" "sm_heap_ptr H = b" "sm_heap_end H = b + of_nat n" by (simp_all add: f)
qed

definition hdemo :: rt_small_mem where
  "hdemo = smem_set_up 0x1000 0x1038 1000 (\<lambda>a. \<lparr>mi_pool_ptr = 0, mi_next = 0, mi_prev = 0\<rparr>)"

definition hkdemo :: kstate where
  "hkdemo = upd_obj (Mem 0x1000) (\<lambda>ob. ob\<lparr>otype := RT_Object_Class_Memory OR RT_Object_Class_Static\<rparr>) bss"

lemma hdemo_rep: "heap_rep hdemo [(1012, False)]" "sm_self hdemo = 0x1000" "sm_heap_ptr hdemo = 0x1038"
  using smem_set_up_rep[where self = "0x1000" and b = "0x1038" and n = 1012 and I = "\<lambda>a. \<lparr>mi_pool_ptr = 0, mi_next = 0, mi_prev = 0\<rparr>"]
  by (simp_all add: hdemo_def)

lemma hkdemo_object: "heap_object 0x1000 hkdemo"
  by (simp add: heap_object_def hkdemo_def upd_obj_def rt_object_get_type_def rt_object_is_systemobject_def)

theorem smem_alloc_refines_witness:
  "\<exists>h'. rt_smem_alloc hkdemo 100 hdemo = Some (Some 0x1044, h') \<and> heap_rep h' [(112, True), (900, False)]"
  using smem_alloc_refines[OF hdemo_rep(1), of hkdemo 100] hkdemo_object hdemo_rep(2,3)
  by (auto simp: asked_def carved_def)

text \<open>A request of more than \<open>0xfffffffc\<close> bytes wraps around when it is rounded up, and is served with twelve bytes.\<close>

lemma alloc_wraps: "unat n + 3 \<ge> 4294967296 \<Longrightarrow> 12 \<le> sm_size_aligned h \<Longrightarrow> rt_smem_alloc s n h = rt_smem_alloc s 12 h"
proof -
  assume n: "unat n + 3 \<ge> 4294967296" and h: "12 \<le> sm_size_aligned h"
  moreover have "unat n < 4294967296" using unsigned_less[of n] by simp
  ultimately have "(unat n + 3) mod 4294967296 < 4" using le_mod_geq[of 4294967296 "unat n + 3"] by simp
  then have "unat (align_up n) = 0" unfolding unat_align_up by simp
  then have "align_up n = 0" by (simp add: unat_eq_0)
  moreover have "n \<noteq> 0" using n by auto
  moreover have "align_up 12 = 12" by (simp add: align_up_def)
  moreover have "\<not> sm_size_aligned h < 12" using h by (simp add: not_less)
  ultimately show ?thesis by (simp add: rt_smem_alloc_def Let_def)
qed

end
