(* ===== verification/HeapFree.thy ===== *)
theory HeapFree
  imports Heap
begin

text \<open>
  Freeing, resizing and initialising the small-memory heap of \<open>Heap\<close>: freeing turns the block into a
  free one and merges free neighbours, which is the function \<open>coalesce\<close> on the list of blocks.
\<close>

section \<open>Merging free neighbours\<close>

fun coalesce :: "blocks \<Rightarrow> blocks" where
  "coalesce ((n, u) # (m, v) # bs) =
    (if u \<or> v then (n, u) # coalesce ((m, v) # bs) else coalesce ((n + m, False) # bs))"
| "coalesce bs = bs"

lemma merged_simps [simp]:
  "merged []" "merged [b]" "merged (a # b # bs) \<longleftrightarrow> (snd a \<or> snd b) \<and> merged (b # bs)"
  by (simp_all add: merged_def)

lemma merged_append: "merged (xs @ b # ys) \<longleftrightarrow> merged (xs @ [b]) \<and> merged (b # ys)"
  by (auto simp: merged_def successively_append_iff)

lemma merged_tl: "merged (b # bs) \<Longrightarrow> merged bs"
  by (cases bs) simp_all

lemma merged_size: "merged ((n, u) # bs) \<longleftrightarrow> merged ((m, u) # bs)"
  by (cases bs) simp_all

lemma coalesce_merged: "merged bs \<Longrightarrow> coalesce bs = bs"
  by (induction bs rule: coalesce.induct) auto

lemma coalesce_prefix: "merged (xs @ [b]) \<Longrightarrow> coalesce (xs @ b # ys) = xs @ coalesce (b # ys)"
proof (induction xs)
  case (Cons a xs)
  show ?case
  proof (cases xs)
    case Nil
    then show ?thesis using Cons.prems by (cases a; cases b) simp
  next
    case (Cons c zs)
    then show ?thesis using Cons.prems Cons.IH by (cases a; cases c) simp
  qed
qed simp

lemma coalesce_keeps [simp]: "span (coalesce bs) = span bs" "used_total (coalesce bs) = used_total bs"
  by (induction bs rule: coalesce.induct) auto

lemma sizes_ok_coalesce: "sizes_ok bs \<Longrightarrow> sizes_ok (coalesce bs)"
  by (induction bs rule: coalesce.induct) simp_all

lemma coalesce_hd: "\<exists>m bs'. coalesce ((n, u) # bs) = (m, u) # bs'"
proof (induction "(n, u) # bs" arbitrary: n u bs rule: coalesce.induct)
  case (1 n u m v bs)
  show ?case using 1(2) by (cases "u \<or> v") auto
qed auto

lemma merged_coalesce: "merged (coalesce bs)"
proof (induction bs rule: coalesce.induct)
  case (1 n u m v bs)
  show ?case
  proof (cases "u \<or> v")
    case True
    obtain k bs' where "coalesce ((m, v) # bs) = (k, v) # bs'" using coalesce_hd by blast
    then show ?thesis using 1(1)[OF True] True by auto
  qed (use 1(2) in simp)
qed simp_all

text \<open>The two mergings around a block that becomes free.\<close>

lemma coalesce_next: "merged ((m, False) # ys) \<Longrightarrow> coalesce ((n, False) # (m, False) # ys) = (n + m, False) # ys"
  using coalesce_merged[of "(n + m, False) # ys"] merged_size[of m False ys "n + m"] by simp

lemma coalesce_both:
  "merged (xs @ [(m, False)]) \<Longrightarrow> merged ((n, False) # ys) \<Longrightarrow>
    coalesce (xs @ (m, False) # (n, False) # ys) = xs @ (m + n, False) # ys"
  using coalesce_prefix[of xs "(m, False)" "(n, False) # ys"] coalesce_next[of n ys m] by simp

lemma coalesce_grow: "coalesce ((n, False) # ys) = (n1, False) # ys1 \<Longrightarrow> coalesce ((m + n, False) # ys) = (m + n1, False) # ys1"
proof (induction "(n, False) # ys" arbitrary: n ys rule: coalesce.induct)
  case (1 n k v bs)
  then show ?case by (cases v) (auto simp: add.assoc)
qed auto

lemma coalesce_again:
  assumes "merged xs" "coalesce ((n, False) # ys) = (n1, False) # ys1"
  shows "coalesce (xs @ (n1, False) # ys1) = coalesce (xs @ (n, False) # ys)"
proof -
  have m1: "merged ((n1, False) # ys1)" using merged_coalesce assms(2) by metis
  show ?thesis
  proof (cases "\<exists>zs m. xs = zs @ [(m, False)]")
    case True
    then obtain zs m where x: "xs = zs @ [(m, False)]" by blast
    have "coalesce (xs @ (n, False) # ys) = zs @ coalesce ((m + n, False) # ys)"
      using coalesce_prefix[of zs "(m, False)" "(n, False) # ys"] assms(1) x by simp
    moreover have "coalesce (xs @ (n1, False) # ys1) = zs @ (m + n1, False) # ys1"
      using coalesce_both[of zs m n1 ys1] assms(1) x m1 by simp
    ultimately show ?thesis using coalesce_grow[OF assms(2)] by simp
  next
    case False
    have "merged (xs @ [(k, False)])" for k
    proof (cases xs rule: rev_cases)
      case (snoc zs b)
      then show ?thesis using False assms(1) merged_append[of zs b "[(k, False)]"] by (cases b) auto
    qed simp
    then show ?thesis using coalesce_prefix[of xs "(n1, False)" ys1] coalesce_prefix[of xs "(n, False)" ys] assms(2)
      coalesce_merged[OF m1] by simp
  qed
qed

section \<open>One merging step on the heap\<close>

text \<open>Both halves of \<^verbatim>\<open>plug_holes\<close> are this step, with the item \<open>b\<close> swallowed by the item \<open>a\<close> before it.\<close>

definition join :: "u32 \<Rightarrow> u32 \<Rightarrow> rt_small_mem \<Rightarrow> rt_small_mem" where
  "join a b h =
    (let h = (if sm_lfree h = b then h\<lparr>sm_lfree := a\<rparr> else h);
         h = upd_item b (\<lambda>it. it\<lparr>mi_pool_ptr := 0\<rparr>) h;
         h = upd_item a (\<lambda>it. it\<lparr>mi_next := mi_next (sm_items h b)\<rparr>) h
     in upd_item (sm_heap_ptr h + mi_next (sm_items h b)) (\<lambda>it. it\<lparr>mi_prev := a - sm_heap_ptr h\<rparr>) h)"

lemma plug_holes_join:
  "plug_holes mem h = do {
     _ \<leftarrow> kassert (mem \<ge> sm_heap_ptr h);
     _ \<leftarrow> kassert (mem < sm_heap_end h);
     let nmem = sm_heap_ptr h + mi_next (sm_items h mem);
     let h = (if mem \<noteq> nmem \<and> \<not> is_used h nmem \<and> nmem \<noteq> sm_heap_end h then join mem nmem h else h);
     let pmem = sm_heap_ptr h + mi_prev (sm_items h mem);
     Some (if pmem \<noteq> mem \<and> \<not> is_used h pmem then join pmem mem h else h)
   }"
  by (simp add: plug_holes_def join_def Let_def)

lemma chain_join:
  assumes c: "chain h (xs @ (n, False) # (m, False) # ys)"
  defines "h' \<equiv> join (sm_heap_ptr h + of_nat (span xs)) (sm_heap_ptr h + of_nat (span xs + n)) h"
  shows "chain h' (xs @ (n + m, False) # ys)"
    "sm_lfree h = sm_heap_ptr h + of_nat (first_free 0 (xs @ (n, False) # zs)) \<Longrightarrow> sm_lfree h' = sm_lfree h"
    "sm_used h' = sm_used h" "sm_max h' = sm_max h" "sm_self h' = sm_self h" "sm_heap_ptr h' = sm_heap_ptr h"
proof -
  let ?b = "sm_heap_ptr h" and ?o = "span xs"
  have c2: "chain h ((xs @ [(n, False)]) @ (m, False) # ys)" using c by simp
  note m1 = chain_mid[OF c] and m2 = chain_mid[OF c2]
  have lt: "?o < 4294967296" "?o + n < 4294967296" "?o + n + m < 4294967296" using m1 m2 by simp_all
  define h0 where "h0 = (if sm_lfree h = ?b + of_nat (?o + n) then h\<lparr>sm_lfree := ?b + of_nat ?o\<rparr> else h)"
  define h1 where "h1 = upd_item (?b + of_nat (?o + n)) (\<lambda>it. it\<lparr>mi_pool_ptr := 0\<rparr>) h0"
  have b: "sm_heap_ptr h0 = ?b" "sm_heap_ptr h1 = ?b" by (simp_all add: h0_def h1_def)
  have v0: "view h0 x = view h x" for x by (simp add: h0_def view_def)
  have v1: "view h1 x = (if x = ?o + n then (view h (?o + n))\<lparr>mi_pool_ptr := 0\<rparr> else view h x)" if "x < 4294967296" for x
    using view_upd[OF lt(2) that, of h0 "\<lambda>it. it\<lparr>mi_pool_ptr := 0\<rparr>"] by (simp add: h1_def b v0)
  define h2 where "h2 = upd_item (?b + of_nat ?o) (\<lambda>it. it\<lparr>mi_next := of_nat (?o + n + m)\<rparr>) h1"
  have b2: "sm_heap_ptr h2 = ?b" by (simp add: h2_def b)
  have v2: "view h2 x = (if x = ?o then (view h1 ?o)\<lparr>mi_next := of_nat (?o + n + m)\<rparr> else view h1 x)" if "x < 4294967296" for x
    using view_upd[OF lt(1) that, of h1] by (simp add: h2_def b)
  have n1: "mi_next (sm_items h1 (?b + of_nat (?o + n))) = of_nat (?o + n + m)"
    using v1[OF lt(2)] m2(2) by (simp add: view_def b)
  have n2: "mi_next (sm_items h2 (?b + of_nat (?o + n))) = of_nat (?o + n + m)"
    using v2[OF lt(2)] v1[OF lt(2)] m1(4) m2(2) by (simp add: view_def b b2)
  have h': "h' = upd_item (?b + of_nat (?o + n + m)) (\<lambda>it. it\<lparr>mi_prev := of_nat ?o\<rparr>) h2"
    unfolding h'_def join_def Let_def h0_def[symmetric] h1_def[symmetric] b n1
    unfolding h2_def[symmetric] b2 n2 by simp
  have v: "view h' x = (if x = ?o + n + m then (view h2 (?o + n + m))\<lparr>mi_prev := of_nat ?o\<rparr> else view h2 x)"
    if "x < 4294967296" for x
    using view_upd[OF lt(3) that, of h2] by (simp add: h' b2)
  have f: "sm_self h' = sm_self h" "sm_heap_ptr h' = ?b" "sm_heap_end h' = sm_heap_end h" "sm_size_aligned h' = sm_size_aligned h"
    by (simp_all add: h' h2_def h1_def h0_def)
  show "sm_used h' = sm_used h" "sm_max h' = sm_max h" "sm_self h' = sm_self h" "sm_heap_ptr h' = sm_heap_ptr h"
    by (simp_all add: h' h2_def h1_def h0_def)
  have lf: "first_free 0 (xs @ (n, False) # zs) \<le> ?o"
    using first_free_range[of 0 xs] by (simp add: first_free_append)
  show "sm_lfree h' = sm_lfree h" if "sm_lfree h = ?b + of_nat (first_free 0 (xs @ (n, False) # zs))"
  proof -
    have "sm_lfree h \<noteq> ?b + of_nat (?o + n)"
      using of_nat_cmp(3)[of "first_free 0 (xs @ (n, False) # zs)" "?o + n"] lf m1(4) lt that by simp
    then show ?thesis by (simp add: h' h2_def h1_def h0_def)
  qed
  have c': "chain h (xs @ [(n, False), (m, False)] @ ys)" using c by simp
  show "chain h' (xs @ (n + m, False) # ys)"
  proof -
    have "chain h' (xs @ [(n + m, False)] @ ys)"
    proof (rule chain_replace[OF c' f])
      show "segs (sm_self h) (view h') (last_at 0 0 xs) (span xs) [(n + m, False)]"
        using m1 m2 lt v[of ?o] v2[of ?o] v1[of ?o] by (simp add: add.assoc)
      show "view h' x = view h x" if "x < span xs" for x
        using that m1(4) lt v[of x] v2[of x] v1[of x] by simp
      show "view h' (span xs + span [(n, False), (m, False)]) =
        (view h (span xs + span [(n, False), (m, False)]))\<lparr>mi_prev := of_nat (last_at (last_at 0 0 xs) (span xs) [(n + m, False)])\<rparr>"
        using m1(4) m2(4) lt v[of "?o + n + m"] v2[of "?o + n + m"] v1[of "?o + n + m"] by (simp add: add.assoc)
      show "view h' x = view h x" if "span xs + span [(n, False), (m, False)] < x"
        "x \<le> span xs + span [(n, False), (m, False)] + span ys" for x
        using that m1 m2 v[of x] v2[of x] v1[of x] by simp
      show "mi_pool_ptr (view h' (span xs + span [(n, False), (m, False)])) = mi_pool_ptr (view h (span xs + span [(n, False), (m, False)]))"
        using m1(4) m2(4) lt v[of "?o + n + m"] v2[of "?o + n + m"] v1[of "?o + n + m"] by (simp add: add.assoc)
    qed (use m1 m2 in simp_all)
    then show ?thesis by simp
  qed
qed

text \<open>
  \<open>swallow\<close> is the second half of \<^verbatim>\<open>plug_holes\<close>; the first half leaves a chain in which the block
  after the freed one is in use.
\<close>

lemma item_before: "last_at 0 0 (xs @ [(m, u)]) = span xs"
  by (simp add: last_at_append)

lemma plug_prev:
  assumes c: "chain h (xs @ (n, False) # ys)" and mg: "merged xs" "merged ((n, False) # ys)"
    and lf: "sm_lfree h = sm_heap_ptr h + of_nat (first_free 0 (xs @ (n, False) # ys))"
  defines "mem \<equiv> sm_heap_ptr h + of_nat (span xs)"
  defines "pmem \<equiv> sm_heap_ptr h + mi_prev (sm_items h mem)"
  defines "h' \<equiv> if pmem \<noteq> mem \<and> \<not> is_used h pmem then join pmem mem h else h"
  shows "chain h' (coalesce (xs @ (n, False) # ys))"
    "sm_lfree h' = sm_heap_ptr h + of_nat (first_free 0 (coalesce (xs @ (n, False) # ys)))"
    "sm_used h' = sm_used h" "sm_max h' = sm_max h" "sm_self h' = sm_self h" "sm_heap_ptr h' = sm_heap_ptr h"
proof -
  have pm: "pmem = sm_heap_ptr h + of_nat (last_at 0 0 xs)"
    using chain_mid(3)[OF c] by (simp add: pmem_def mem_def view_def)
  show "sm_used h' = sm_used h" "sm_max h' = sm_max h" "sm_self h' = sm_self h" "sm_heap_ptr h' = sm_heap_ptr h"
    by (simp_all add: h'_def join_def Let_def)
  have "chain h' (coalesce (xs @ (n, False) # ys)) \<and>
    sm_lfree h' = sm_heap_ptr h + of_nat (first_free 0 (coalesce (xs @ (n, False) # ys)))"
  proof (cases xs rule: rev_cases)
    case Nil
    then have "h' = h" using pm by (simp add: h'_def mem_def)
    then show ?thesis using Nil c lf coalesce_merged[OF mg(2)] by simp
  next
    case (snoc zs b)
    obtain m u where b: "b = (m, u)" by (cases b)
    have c1: "chain h (zs @ (m, u) # (n, False) # ys)" using c snoc b by simp
    note m1 = chain_mid[OF c1]
    have p: "pmem = sm_heap_ptr h + of_nat (span zs)" using pm snoc b by (simp add: item_before)
    have ne: "pmem \<noteq> mem"
      using heap_addr(4)[OF c1, of "span zs" "span xs"] m1(4) snoc b by (simp add: p mem_def)
    have us: "is_used h pmem = u" using chain_used(1)[OF c1] p by simp
    show ?thesis
    proof (cases u)
      case True
      have "merged (xs @ (n, False) # ys)"
        using mg snoc b True merged_append[of zs b "(n, False) # ys"] by simp
      then show ?thesis using ne us True c lf by (simp add: h'_def coalesce_merged)
    next
      case False
      have cj: "chain h (zs @ (m, False) # (n, False) # ys)" using c1 False by simp
      have h': "h' = join (sm_heap_ptr h + of_nat (span zs)) (sm_heap_ptr h + of_nat (span zs + m)) h"
        using ne us False snoc b by (simp add: h'_def p mem_def)
      have co: "coalesce (xs @ (n, False) # ys) = zs @ (m + n, False) # ys"
        using coalesce_both[of zs m n ys] mg snoc b False by simp
      have "sm_lfree h = sm_heap_ptr h + of_nat (first_free 0 (zs @ (m, False) # (n, False) # ys))"
        using lf snoc b False by simp
      from chain_join(2)[OF cj this] have "sm_lfree h' = sm_lfree h" by (simp add: h')
      moreover have "first_free 0 (xs @ (n, False) # ys) = first_free 0 (zs @ (m + n, False) # ys)"
        using snoc b False by (simp add: first_free_append)
      ultimately show ?thesis using chain_join(1)[OF cj] lf by (simp add: co h')
    qed
  qed
  then show "chain h' (coalesce (xs @ (n, False) # ys))"
    "sm_lfree h' = sm_heap_ptr h + of_nat (first_free 0 (coalesce (xs @ (n, False) # ys)))" by simp_all
qed

lemma plug_holes_coalesce:
  assumes c: "chain h (xs @ (n, False) # ys)" and mg: "merged xs" "merged ys"
    and lf: "sm_lfree h = sm_heap_ptr h + of_nat (first_free 0 (xs @ (n, False) # ys))"
  shows "\<exists>h'. plug_holes (sm_heap_ptr h + of_nat (span xs)) h = Some h' \<and>
    chain h' (coalesce (xs @ (n, False) # ys)) \<and>
    sm_lfree h' = sm_heap_ptr h + of_nat (first_free 0 (coalesce (xs @ (n, False) # ys))) \<and>
    sm_used h' = sm_used h \<and> sm_max h' = sm_max h \<and> sm_self h' = sm_self h \<and> sm_heap_ptr h' = sm_heap_ptr h"
proof -
  let ?b = "sm_heap_ptr h" and ?o = "span xs" and ?bs = "xs @ (n, False) # ys"
  note m = chain_mid[OF c]
  define mem where "mem = ?b + of_nat ?o"
  define nmem where "nmem = ?b + of_nat (?o + n)"
  have nm: "?b + mi_next (sm_items h mem) = nmem" using m(2) by (simp add: mem_def nmem_def view_def)
  have e: "sm_heap_end h = ?b + of_nat (span ?bs)" using c by (simp add: chain_def)
  have as: "mem \<ge> ?b" "mem < sm_heap_end h" "mem \<noteq> nmem"
    using heap_addr(2)[OF c, of 0 ?o] heap_addr(3)[OF c, of ?o "span ?bs"] heap_addr(4)[OF c, of ?o "?o + n"] m(4)
    by (simp_all add: mem_def nmem_def e)
  have nu: "\<not> is_used h nmem \<and> nmem \<noteq> sm_heap_end h \<longleftrightarrow> (\<exists>k zs. ys = (k, False) # zs)"
  proof (cases ys)
    case (Cons b zs)
    obtain k u where b: "b = (k, u)" by (cases b)
    have c2: "chain h ((xs @ [(n, False)]) @ (k, u) # zs)" using c Cons b by simp
    have "nmem \<noteq> sm_heap_end h"
      using heap_addr(4)[OF c, of "?o + n" "span ?bs"] chain_mid(4)[OF c2] Cons b by (simp add: nmem_def e)
    then show ?thesis using chain_used(1)[OF c2] Cons b by (simp add: nmem_def)
  qed (simp add: nmem_def e)
  define h1 where "h1 = (if mem \<noteq> nmem \<and> \<not> is_used h nmem \<and> nmem \<noteq> sm_heap_end h then join mem nmem h else h)"
  have "\<exists>n1 ys1. chain h1 (xs @ (n1, False) # ys1) \<and> coalesce ((n, False) # ys) = (n1, False) # ys1 \<and> sm_lfree h1 = sm_lfree h"
  proof (cases "\<exists>k zs. ys = (k, False) # zs")
    case True
    then obtain k zs where y: "ys = (k, False) # zs" by blast
    have "h1 = join mem nmem h" using True nu as by (simp add: h1_def)
    moreover have "chain h (xs @ (n, False) # (k, False) # zs)" using c y by simp
    ultimately show ?thesis
      using chain_join(1,2)[of h xs n k zs] lf coalesce_next[of k zs n] mg y by (auto simp: mem_def nmem_def)
  next
    case False
    then have "h1 = h" using nu by (auto simp: h1_def)
    moreover have "merged ((n, False) # ys)" using False mg(2) by (cases ys) auto
    ultimately show ?thesis using c coalesce_merged[of "(n, False) # ys"] by auto
  qed
  then obtain n1 ys1 where s1: "chain h1 (xs @ (n1, False) # ys1)" "coalesce ((n, False) # ys) = (n1, False) # ys1"
    "sm_lfree h1 = sm_lfree h" by blast
  have f1: "sm_used h1 = sm_used h" "sm_max h1 = sm_max h" "sm_self h1 = sm_self h" "sm_heap_ptr h1 = ?b"
    by (simp_all add: h1_def join_def Let_def)
  have ff: "first_free 0 (xs @ (n1, False) # ys1) = first_free 0 ?bs" by (simp add: first_free_append)
  have m1: "merged ((n1, False) # ys1)" using merged_coalesce s1(2) by metis
  have co: "coalesce (xs @ (n1, False) # ys1) = coalesce ?bs" by (rule coalesce_again[OF mg(1) s1(2)])
  have lf1: "sm_lfree h1 = sm_heap_ptr h1 + of_nat (first_free 0 (xs @ (n1, False) # ys1))"
    using s1(3) lf f1(4) ff by simp
  define pm where "pm = ?b + mi_prev (sm_items h1 mem)"
  define h2 where "h2 = (if pm \<noteq> mem \<and> \<not> is_used h1 pm then join pm mem h1 else h1)"
  note p = plug_prev[OF s1(1) mg(1) m1 lf1, unfolded f1(4) co, folded mem_def, folded pm_def, folded h2_def]
  have "plug_holes mem h = Some h2"
    using as nm f1(4) unfolding plug_holes_join Let_def nm h1_def[symmetric] f1(4) pm_def[symmetric] h2_def by simp
  then show ?thesis using p f1 by (simp add: mem_def)
qed

section \<open>Freeing\<close>

lemma merged_split: "merged (xs @ b # ys) \<Longrightarrow> merged xs" "merged (xs @ b # ys) \<Longrightarrow> merged ys"
  by (auto simp: merged_def successively_append_iff successively_Cons)

lemma end_pool: "chain h bs \<Longrightarrow> mem_pool h (sm_heap_ptr h + of_nat (span bs)) = sm_self h"
  using tag_pool[of "sm_self h" True] by (simp add: mem_pool_def chain_def flip: view_def)

lemma pool_after:
  assumes "chain h (xs @ (n, u) # ys)"
  shows "mem_pool h (sm_heap_ptr h + of_nat (span xs + n)) = sm_self h"
proof (cases ys)
  case (Cons b zs)
  then have "chain h ((xs @ [(n, u)]) @ (fst b, snd b) # zs)" using assms by simp
  from chain_used(2)[OF this] show ?thesis by simp
qed (use end_pool[OF assms] in simp)

text \<open>The first free block after one more has become free.\<close>

lemma first_free_freed:
  assumes c: "chain h (xs @ (n, u) # ys)" and lf: "sm_lfree h = sm_heap_ptr h + of_nat (first_free 0 (xs @ (n, True) # ys))"
  shows "(if sm_heap_ptr h + of_nat (span xs) < sm_lfree h then sm_heap_ptr h + of_nat (span xs) else sm_lfree h) =
    sm_heap_ptr h + of_nat (first_free 0 (xs @ (n, False) # ys))"
proof -
  let ?f = "first_free 0 (xs @ (n, True) # ys)"
  have "?f \<le> span (xs @ (n, True) # ys)" using first_free_range[of 0 "xs @ (n, True) # ys"] by simp
  then have "sm_heap_ptr h + of_nat (span xs) < sm_lfree h \<longleftrightarrow> span xs < ?f"
    using heap_addr(3)[OF c, of "span xs" ?f] lf by simp
  moreover have "first_free 0 xs \<le> span xs" using first_free_range[of 0 xs] by simp
  moreover have "span xs + n \<le> first_free (span xs + n) ys" using first_free_range[of "span xs + n" ys] by simp
  ultimately show ?thesis using lf chain_mid(4)[OF c] by (auto simp: first_free_append)
qed

lemma used_down:
  assumes "chain h bs" "sm_used h = of_nat (used_total bs)" "sm_used h \<le> sm_max h" "m \<le> used_total bs"
  shows "sm_used h - of_nat m = of_nat (used_total bs - m)" "sm_used h - of_nat m \<le> sm_max h"
proof -
  show eq: "sm_used h - of_nat m = of_nat (used_total bs - m)" using assms(2,4) by (simp only: of_nat_diff)
  have "used_total bs < 4294967296"
    using assms(1) used_le_span[of bs] by (simp add: chain_def unat_gt_0[symmetric])
  then have "of_nat (used_total bs - m) \<le> sm_used h" unfolding assms(2) by (simp add: of_nat_cmp)
  then show "sm_used h - of_nat m \<le> sm_max h" unfolding eq using assms(3) by simp
qed

lemma smem_free_rep:
  assumes r: "heap_rep h (xs @ (n, True) # ys)" and ob: "heap_object (sm_self h) s"
  shows "\<exists>h'. rt_smem_free s (Some (sm_heap_ptr h + of_nat (span xs + 12))) h = Some h' \<and>
    heap_rep h' (coalesce (xs @ (n, False) # ys)) \<and> sm_heap_ptr h' = sm_heap_ptr h \<and> sm_self h' = sm_self h"
proof -
  let ?b = "sm_heap_ptr h" and ?o = "span xs" and ?bs = "xs @ (n, True) # ys"
  have c: "chain h ?bs" and mg: "merged xs" "merged ys" and us: "sm_used h = of_nat (used_total ?bs)" "sm_used h \<le> sm_max h"
    and lf: "sm_lfree h = ?b + of_nat (first_free 0 ?bs)"
    using r merged_split[of xs "(n, True)" ys] unfolding heap_rep_def by blast+
  note m = chain_mid[OF c]
  define mem where "mem = ?b + of_nat ?o"
  have rm: "?b + of_nat (?o + 12) - 12 = mem" "?b + of_nat (?o + 12) = mem + 12" by (simp_all add: mem_def)
  have nx: "mi_next (sm_items h mem) = of_nat (?o + n)" using m(2) by (simp add: mem_def view_def)
  have e: "sm_heap_end h = ?b + of_nat (span ?bs)" using c by (simp add: chain_def)
  have al: "(mem + 12) AND 3 = 0" using heap_aligned(1)[OF c, of "?o + 12"] m(4,7) by (simp add: mem_def add.assoc)
  have rg: "?b \<le> mem + 12" "mem + 12 < sm_heap_end h"
    using heap_addr(2)[OF c, of 0 "?o + 12"] heap_addr(3)[OF c, of "?o + 12" "span ?bs"] m(4)
    unfolding e rm(2)[symmetric] by simp_all
  have self: "sm_self h \<noteq> 0" using c by (simp add: chain_def)
  define h1 where "h1 = upd_item mem (\<lambda>it. it\<lparr>mi_pool_ptr := mem_freed h\<rparr>) h"
  define h2 where "h2 = (if mem < sm_lfree h1 then h1\<lparr>sm_lfree := mem\<rparr> else h1)"
  define h3 where "h3 = h2\<lparr>sm_used := sm_used h2 - (mi_next (sm_items h2 mem) - (mem - sm_heap_ptr h2))\<rparr>"
  have ev: "rt_smem_free s (Some (?b + of_nat (?o + 12))) h = plug_holes mem h3"
    using al rg self ob chain_used[OF c] pool_after[OF c]
    unfolding rm(2) by (simp add: rt_smem_free_def Let_def nx h3_def h2_def h1_def flip: mem_def)
  have nx2: "mi_next (sm_items h2 mem) = of_nat (?o + n)" using nx by (simp add: h2_def h1_def upd_item_def)
  have f: "sm_heap_ptr h3 = ?b" "sm_self h3 = sm_self h" "sm_max h3 = sm_max h" "sm_heap_ptr h2 = ?b" "sm_used h2 = sm_used h"
    "sm_items h3 = sm_items h1" "sm_heap_end h3 = sm_heap_end h1" "sm_size_aligned h3 = sm_size_aligned h1" "sm_lfree h1 = sm_lfree h"
    by (simp_all add: h3_def h2_def h1_def)
  have "chain h1 (xs @ (n, False) # ys)" using mark_chain[OF c, of False] by (simp add: h1_def mem_def used_tag)
  then have c3: "chain h3 (xs @ (n, False) # ys)" using chain_fields[of h3 h1] f by (simp add: h1_def)
  have lf3: "sm_lfree h3 = sm_heap_ptr h3 + of_nat (first_free 0 (xs @ (n, False) # ys))"
  proof -
    have "sm_lfree h3 = (if mem < sm_lfree h then mem else sm_lfree h)" by (simp add: h3_def h2_def h1_def)
    then show ?thesis using first_free_freed[OF c lf] f(1) by (simp only: mem_def)
  qed
  have "n \<le> used_total ?bs" by simp
  note ud = used_down[OF c us this]
  have us3: "sm_used h3 = sm_used h - of_nat n" using nx2 f by (simp add: h3_def mem_def)
  obtain h' where h': "plug_holes mem h3 = Some h'" "chain h' (coalesce (xs @ (n, False) # ys))"
    "sm_lfree h' = ?b + of_nat (first_free 0 (coalesce (xs @ (n, False) # ys)))" "sm_used h' = sm_used h3" "sm_max h' = sm_max h"
    "sm_self h' = sm_self h" "sm_heap_ptr h' = ?b"
    using plug_holes_coalesce[OF c3 mg lf3] by (auto simp: f mem_def)
  then have "heap_rep h' (coalesce (xs @ (n, False) # ys))"
    using ud us3 merged_coalesce by (simp add: heap_rep_def)
  then show ?thesis using ev h' by simp
qed

text \<open>
  C20. Freeing a block in use turns it into a free one and merges it with its free neighbours; the
  chain, the index of the first free block and the usage counter are those of the result, and no assertion
  fires.
\<close>

theorem smem_free_refines:
  assumes r: "heap_rep h (xs @ (n, True) # ys)" and ob: "heap_object (sm_self h) s"
  shows "\<exists>h'. rt_smem_free s (Some (sm_heap_ptr h + of_nat (span xs + 12))) h = Some h' \<and>
    heap_rep h' (coalesce (xs @ (n, False) # ys)) \<and> sm_heap_ptr h' = sm_heap_ptr h \<and> sm_self h' = sm_self h"
  using smem_free_rep[OF assms] .

theorem smem_free_refines_witness:
  "\<exists>h h'. rt_smem_alloc hkdemo 100 hdemo = Some (Some 0x1044, h) \<and> rt_smem_free hkdemo (Some 0x1044) h = Some h' \<and>
    heap_rep h' [(1012, False)]"
proof -
  obtain h where h: "rt_smem_alloc hkdemo 100 hdemo = Some (Some 0x1044, h)" "heap_rep h [(112, True), (900, False)]"
      "sm_heap_ptr h = 0x1038" "sm_self h = 0x1000"
    using smem_alloc_rep[OF hdemo_rep(1), of hkdemo 100] hkdemo_object hdemo_rep(2,3) by (auto simp: asked_def carved_def)
  then show ?thesis
    using smem_free_refines[of h "[]" 112 "[(900, False)]" hkdemo] hkdemo_object by auto
qed

section \<open>Changing the size\<close>

lemma smem_shrink_refines:
  assumes r: "heap_rep h (xs @ (n, True) # ys)" and k: "4 \<le> k" "4 dvd k" "k + 36 < n"
  shows "\<exists>h'. smem_shrink (sm_heap_ptr h + of_nat (span xs)) (of_nat (span xs)) (of_nat (n - 12)) (of_nat k) h = Some h' \<and>
    heap_rep h' (coalesce (xs @ (k + 12, True) # (n - k - 12, False) # ys)) \<and>
    sm_heap_ptr h' = sm_heap_ptr h \<and> sm_self h' = sm_self h"
proof -
  let ?b = "sm_heap_ptr h" and ?o = "span xs" and ?bs = "xs @ (n, True) # ys"
  define n2 where "n2 = n - k - 12"
  define xs' where "xs' = xs @ [(k + 12, True)]"
  have c: "chain h ?bs" and mg: "merged xs" "merged ys" and us: "sm_used h = of_nat (used_total ?bs)" "sm_used h \<le> sm_max h"
    and lf: "sm_lfree h = ?b + of_nat (first_free 0 ?bs)"
    using r merged_split[of xs "(n, True)" ys] unfolding heap_rep_def by blast+
  have mg': "merged xs'"
    using r merged_append[of xs "(n, True)" ys] by (auto simp: heap_rep_def xs'_def merged_def successively_append_iff)
  have d: "of_nat (n - 12) - of_nat k = (of_nat n2 :: u32)"
    using of_nat_diff[of k "n - 12", where ?'a = "32 word"] k by (simp add: n2_def diff_diff_eq add.commute)
  define h0 where "h0 = h\<lparr>sm_used := sm_used h - of_nat n2\<rparr>"
  define h1 where "h1 = carve_to k ?o n (ys \<noteq> []) h0"
  define mem2 where "mem2 = ?b + of_nat (span xs')"
  have m2: "mem2 = ?b + (of_nat ?o + 12 + of_nat k)" by (simp add: mem2_def xs'_def)
  have c0: "chain h0 ?bs" using c chain_fields[of h0 h] by (simp add: h0_def)
  have f0: "sm_heap_ptr h0 = ?b" "sm_items h0 = sm_items h" "mem_freed h0 = mem_freed h" by (simp_all add: h0_def mem_freed_def)
  define h2 where "h2 = (if mem2 < sm_lfree h1 then h1\<lparr>sm_lfree := mem2\<rparr> else h1)"
  have i: "k + 28 \<le> n" using k by simp
  have ev: "smem_shrink (?b + of_nat ?o) (of_nat ?o) (of_nat (n - 12)) (of_nat k) h = plug_holes mem2 h2"
    unfolding h2_def h1_def carve_items[OF c0 i, symmetric]
    by (simp add: smem_shrink_def Let_def d m2 f0 flip: h0_def)
  have f: "sm_heap_ptr h2 = ?b" "sm_self h2 = sm_self h" "sm_max h2 = sm_max h" "sm_used h2 = sm_used h - of_nat n2"
    by (simp_all add: h2_def h1_def h0_def)
  have c1: "chain h1 (xs' @ (n2, False) # ys)"
    using carve_to_chain[OF c0 i k(1,2)] by (simp add: h1_def xs'_def n2_def)
  then have c2: "chain h2 (xs' @ (n2, False) # ys)" using chain_fields[of h2 h1] by (simp add: h2_def)
  have "first_free 0 (xs' @ (n2, True) # ys) = first_free 0 ?bs"
    using k by (simp add: xs'_def first_free_append n2_def)
  then have "sm_lfree h1 = sm_heap_ptr h1 + of_nat (first_free 0 (xs' @ (n2, True) # ys))"
    using lf by (simp add: h1_def h0_def)
  from first_free_freed[OF c1 this] have lf2: "sm_lfree h2 = sm_heap_ptr h2 + of_nat (first_free 0 (xs' @ (n2, False) # ys))"
    by (simp add: h2_def mem2_def h1_def h0_def split: if_splits)
  have "n2 \<le> used_total ?bs" by (simp add: n2_def)
  note ud = used_down[OF c us this]
  have tot: "used_total ?bs - n2 = used_total (xs' @ (n2, False) # ys)" using k by (simp add: xs'_def n2_def)
  obtain h' where "plug_holes mem2 h2 = Some h'" "chain h' (coalesce (xs' @ (n2, False) # ys))"
    "sm_lfree h' = ?b + of_nat (first_free 0 (coalesce (xs' @ (n2, False) # ys)))" "sm_used h' = sm_used h2" "sm_max h' = sm_max h"
    "sm_self h' = sm_self h" "sm_heap_ptr h' = ?b"
    using plug_holes_coalesce[OF c2 mg' mg(2) lf2] by (auto simp: f mem2_def)
  moreover then have "heap_rep h' (coalesce (xs' @ (n2, False) # ys))"
    using ud merged_coalesce f tot by (simp add: heap_rep_def)
  ultimately show ?thesis using ev by (simp add: xs'_def n2_def)
qed

section \<open>The blocks in use\<close>

text \<open>\<open>live\<close> is the set of the blocks in use, with offset and size; a client sees their payloads.\<close>

fun live :: "nat \<Rightarrow> blocks \<Rightarrow> (nat \<times> nat) set" where
  "live k [] = {}"
| "live k ((n, u) # bs) = (if u then insert (k, n) (live (k + n) bs) else live (k + n) bs)"

definition smem_holds :: "rt_small_mem \<Rightarrow> (u32 \<times> nat) set \<Rightarrow> bool" where
  "smem_holds h L \<longleftrightarrow> (\<exists>bs. heap_rep h bs \<and> L = (\<lambda>(k, n). (sm_heap_ptr h + of_nat (k + 12), n - 12)) ` live 0 bs)"

definition apart :: "u32 \<times> nat \<Rightarrow> u32 \<times> nat \<Rightarrow> bool" where
  "apart x y \<longleftrightarrow> unat (fst x) + snd x \<le> unat (fst y) \<or> unat (fst y) + snd y \<le> unat (fst x)"

lemma live_append: "live k (xs @ ys) = live k xs \<union> live (k + span xs) ys"
  by (induction xs arbitrary: k) (auto simp: add.assoc)

lemma live_coalesce: "live k (coalesce bs) = live k bs"
  by (induction bs arbitrary: k rule: coalesce.induct) (auto simp: add.assoc)

lemma live_at: "(p, n) \<in> live k bs \<Longrightarrow> \<exists>xs ys. bs = xs @ (n, True) # ys \<and> p = k + span xs"
proof (induction bs arbitrary: k)
  case (Cons b bs)
  obtain m u where b: "b = (m, u)" by (cases b)
  consider "u \<and> p = k \<and> n = m" | "(p, n) \<in> live (k + m) bs" using Cons.prems b by (auto split: if_splits)
  then show ?case
  proof cases
    case 1
    then have "b # bs = [] @ (n, True) # bs \<and> p = k + span []" using b by simp
    then show ?thesis by blast
  next
    case 2
    with Cons.IH obtain xs ys where "bs = xs @ (n, True) # ys" "p = k + m + span xs" by blast
    then have "b # bs = (b # xs) @ (n, True) # ys \<and> p = k + span (b # xs)" using b by simp
    then show ?thesis by blast
  qed
qed simp

lemma live_mem: "(p, n) \<in> live k bs \<longleftrightarrow> (\<exists>xs ys. bs = xs @ (n, True) # ys \<and> p = k + span xs)"
  using live_at by (auto simp: live_append)

lemma live_range: "(p, n) \<in> live k bs \<Longrightarrow> k \<le> p \<and> p + n \<le> k + span bs"
  by (auto simp: live_mem)

lemma live_size: "(p, n) \<in> live k bs \<Longrightarrow> sizes_ok bs \<Longrightarrow> 16 \<le> n"
  by (auto simp: live_mem)

lemma live_carved: "live k (carved m n) = {(k, if m + 36 \<le> n then m + 12 else n)}"
  by (simp add: carved_def)

lemma alloc_spec_at: "alloc_spec k bs = Some (pos, bs') \<Longrightarrow>
    \<exists>xs n ys. bs = xs @ (n, False) # ys \<and> pos = span xs \<and> k + 12 \<le> n \<and> bs' = xs @ carved k n @ ys"
proof (induction bs arbitrary: pos bs')
  case (Cons b bs)
  obtain m u where b: "b = (m, u)" by (cases b)
  show ?case
  proof (cases "\<not> u \<and> k + 12 \<le> m")
    case True
    then have "b # bs = [] @ (m, False) # bs \<and> pos = span [] \<and> k + 12 \<le> m \<and> bs' = [] @ carved k m @ bs"
      using Cons.prems b by simp
    then show ?thesis by blast
  next
    case False
    then obtain pos0 bs0 where "alloc_spec k bs = Some (pos0, bs0)" "pos = m + pos0" "bs' = (m, u) # bs0"
      using Cons.prems b by (auto split: if_splits)
    with Cons.IH obtain xs n ys where "bs = xs @ (n, False) # ys" "pos0 = span xs" "k + 12 \<le> n" "bs0 = xs @ carved k n @ ys" by blast
    then have "b # bs = (b # xs) @ (n, False) # ys \<and> pos = span (b # xs) \<and> k + 12 \<le> n \<and> bs' = (b # xs) @ carved k n @ ys"
      using \<open>pos = m + pos0\<close> \<open>bs' = (m, u) # bs0\<close> b by simp
    then show ?thesis by blast
  qed
qed simp

lemma live_alloc:
  assumes "alloc_spec k bs = Some (pos, bs')"
  shows "\<exists>n. live 0 bs' = insert (pos, n) (live 0 bs) \<and> k + 12 \<le> n \<and> (pos, n) \<notin> live 0 bs"
proof -
  obtain xs n ys where a: "bs = xs @ (n, False) # ys" "pos = span xs" "k + 12 \<le> n" "bs' = xs @ carved k n @ ys"
    using alloc_spec_at[OF assms] by blast
  let ?n = "if k + 36 \<le> n then k + 12 else n"
  have "live 0 bs' = insert (pos, ?n) (live 0 bs)"
    using a by (simp add: live_append live_carved)
  moreover have "(pos, ?n) \<notin> live 0 bs"
    using a live_range[of pos ?n 0 xs] live_range[of pos ?n "pos + n" ys] by (auto simp: live_append)
  ultimately show ?thesis using a(3) by (metis le_refl)
qed

lemma live_apart:
  assumes "(p, n) \<in> live k bs" "(q, m) \<in> live k bs" "sizes_ok bs"
  shows "p = q \<and> n = m \<or> p + n \<le> q \<or> q + m \<le> p"
proof -
  obtain xs ys where a: "bs = xs @ (n, True) # ys" "p = k + span xs" using assms(1) live_mem by blast
  consider "(q, m) \<in> live k xs" | "q = p \<and> m = n" | "(q, m) \<in> live (p + n) ys"
    using assms(2) a by (auto simp: live_append)
  then show ?thesis using live_range[of q m k xs] live_range[of q m "p + n" ys] a(2) by cases auto
qed

lemma smem_holds_inside:
  assumes "smem_holds h L" "(a, n) \<in> L"
  shows "a \<noteq> 0" "4 dvd unat a" "4 \<le> n" "unat a + n < 4294967296" "sm_heap_ptr h \<le> a" "unat a + n \<le> unat (sm_heap_end h)"
proof -
  obtain bs p m where b: "heap_rep h bs" "(p, m) \<in> live 0 bs" "a = sm_heap_ptr h + of_nat (p + 12)" "n = m - 12"
    using assms by (auto simp: smem_holds_def)
  have c: "chain h bs" using b(1) by (simp add: heap_rep_def)
  obtain xs ys where x: "bs = xs @ (m, True) # ys" "p = span xs" using b(2) live_mem[of p m 0] by auto
  note k = chain_mid[OF c[unfolded x(1)]]
  have lim: "unat (sm_heap_ptr h) + span bs + 12 \<le> 4294967296" "sm_heap_ptr h \<noteq> 0" "4 dvd unat (sm_heap_ptr h)"
    "sm_heap_end h = sm_heap_ptr h + of_nat (span bs)" using c by (simp_all add: chain_def)
  have u: "unat a = unat (sm_heap_ptr h) + (p + 12)" using heap_addr(1)[OF c, of "p + 12" 0] k(4) x b(3) by simp
  have e: "unat (sm_heap_end h) = unat (sm_heap_ptr h) + span bs" using heap_addr(1)[OF c, of "span bs" 0] lim(4) by simp
  show "a \<noteq> 0" using u by auto
  show "4 dvd unat a" using u lim(3) k(7) x(2) by simp
  show "4 \<le> n" using k(4) b(4) by simp
  show "unat a + n < 4294967296" using u lim(1) x k(4) b(4) by simp
  show "sm_heap_ptr h \<le> a" using u by (simp add: word_le_nat_alt)
  show "unat a + n \<le> unat (sm_heap_end h)" using u e x k(4) b(4) by simp
qed

lemma smem_holds_apart:
  assumes "smem_holds h L" "(a, n) \<in> L" "(b, m) \<in> L" "(a, n) \<noteq> (b, m)"
  shows "apart (a, n) (b, m)"
proof -
  obtain bs p n' q m' where b: "heap_rep h bs" "(p, n') \<in> live 0 bs" "a = sm_heap_ptr h + of_nat (p + 12)" "n = n' - 12"
    "(q, m') \<in> live 0 bs" "b = sm_heap_ptr h + of_nat (q + 12)" "m = m' - 12"
    using assms(1,2,3) by (force simp: smem_holds_def)
  have c: "chain h bs" and s: "sizes_ok bs" using b(1) by (simp_all add: heap_rep_def chain_def)
  have r: "p + n' \<le> span bs" "16 \<le> n'" "q + m' \<le> span bs" "16 \<le> m'"
    using live_range[OF b(2)] live_range[OF b(5)] live_size[OF b(2) s] live_size[OF b(5) s] by simp_all
  have "unat a = unat (sm_heap_ptr h) + (p + 12)" "unat b = unat (sm_heap_ptr h) + (q + 12)"
    using heap_addr(1)[OF c, of "p + 12" 0] heap_addr(1)[OF c, of "q + 12" 0] r b(3,6) by simp_all
  then show ?thesis using live_apart[OF b(2,5) s] r b assms(4) by (auto simp: apart_def)
qed

lemma payload_inj:
  assumes c: "chain h bs"
  shows "inj_on (\<lambda>(k, n). (sm_heap_ptr h + of_nat (k + 12), n - 12)) (live 0 bs)"
proof (rule inj_onI, clarsimp simp del: of_nat_add)
  fix p n q m
  assume a: "(p, n) \<in> live 0 bs" "(q, m) \<in> live 0 bs" "(of_nat (p + 12) :: u32) = of_nat (q + 12)" "n - 12 = m - 12"
  have s: "sizes_ok bs" using c by (simp add: chain_def)
  have r: "p + n \<le> span bs" "16 \<le> n" "q + m \<le> span bs" "16 \<le> m"
    using live_range[OF a(1)] live_range[OF a(2)] live_size[OF a(1) s] live_size[OF a(2) s] by simp_all
  then have "p + 12 = q + 12" using heap_addr(4)[OF c, of "p + 12" "q + 12"] a(3) by simp
  then show "p = q \<and> n = m" using a(4) r by simp
qed

lemma smem_holds_alloc:
  assumes L: "smem_holds h L" and ob: "heap_object (sm_self h) s"
  shows "\<exists>p h'. rt_smem_alloc s n h = Some (p, h') \<and> sm_heap_ptr h' = sm_heap_ptr h \<and> sm_self h' = sm_self h \<and>
    sm_heap_end h' = sm_heap_end h \<and>
    (case p of None \<Rightarrow> h' = h
     | Some a \<Rightarrow> n \<noteq> 0 \<and> (\<exists>m. asked n \<le> m \<and> a \<notin> fst ` L \<and> smem_holds h' (insert (a, m) L)))"
proof -
  obtain bs where r: "heap_rep h bs" and l: "L = (\<lambda>(k, n). (sm_heap_ptr h + of_nat (k + 12), n - 12)) ` live 0 bs"
    using L by (auto simp: smem_holds_def)
  show ?thesis
  proof (cases "if n = 0 then None else alloc_spec (asked n) bs")
    case None
    then show ?thesis using smem_alloc_rep[OF r ob, of n] by simp
  next
    case (Some a)
    obtain pos bs' where a: "a = (pos, bs')" by (cases a)
    then have sp: "alloc_spec (asked n) bs = Some (pos, bs')" "n \<noteq> 0" using Some by (simp_all split: if_splits)
    obtain h' where h': "rt_smem_alloc s n h = Some (Some (sm_heap_ptr h + of_nat (pos + 12)), h')" "heap_rep h' bs'"
        "sm_heap_ptr h' = sm_heap_ptr h" "sm_self h' = sm_self h"
      using smem_alloc_rep[OF r ob, of n] Some a by auto
    obtain m where m: "live 0 bs' = insert (pos, m) (live 0 bs)" "asked n + 12 \<le> m" "(pos, m) \<notin> live 0 bs"
      using live_alloc[OF sp(1)] by blast
    have "sm_heap_ptr h + of_nat (pos + 12) \<notin> fst ` L"
    proof
      assume "sm_heap_ptr h + of_nat (pos + 12) \<in> fst ` L"
      then obtain q k where q: "(q, k) \<in> live 0 bs" "sm_heap_ptr h + of_nat (pos + 12) = sm_heap_ptr h + of_nat (q + 12)"
        unfolding l by (force simp del: of_nat_add)
      have c: "chain h' bs'" and s: "sizes_ok bs'" using h'(2) by (simp_all add: heap_rep_def chain_def)
      have i: "(q, k) \<in> live 0 bs'" "(pos, m) \<in> live 0 bs'" using q(1) m(1) by simp_all
      have g: "q + k \<le> span bs'" "16 \<le> k" "pos + m \<le> span bs'" "16 \<le> m"
        using live_range[OF i(1)] live_range[OF i(2)] live_size[OF i(1) s] live_size[OF i(2) s] by simp_all
      then have "pos = q" using heap_addr(4)[OF c, of "pos + 12" "q + 12"] q(2) h'(3) by simp
      then show False using live_apart[OF i s] g m(3) q(1) by auto
    qed
    moreover have "sm_heap_end h' = sm_heap_end h"
      using alloc_spec_at[OF sp(1)] r h'(2,3) by (auto simp: heap_rep_def chain_def)
    moreover have "smem_holds h' (insert (sm_heap_ptr h + of_nat (pos + 12), m - 12) L)"
      unfolding smem_holds_def by (rule exI[of _ bs']) (use h' m(1) l in simp)
    ultimately show ?thesis using h' sp(2) m(2) by (auto intro!: exI[of _ "m - 12"])
  qed
qed

lemma smem_holds_free:
  assumes L: "smem_holds h L" and ob: "heap_object (sm_self h) s" and a: "(a, m) \<in> L"
  shows "\<exists>h'. rt_smem_free s (Some a) h = Some h' \<and> smem_holds h' (L - {(a, m)}) \<and>
    sm_heap_ptr h' = sm_heap_ptr h \<and> sm_self h' = sm_self h \<and> sm_heap_end h' = sm_heap_end h"
proof -
  obtain bs where r: "heap_rep h bs" and l: "L = (\<lambda>(k, n). (sm_heap_ptr h + of_nat (k + 12), n - 12)) ` live 0 bs"
    using L by (auto simp: smem_holds_def)
  obtain p n where p: "(p, n) \<in> live 0 bs" "a = sm_heap_ptr h + of_nat (p + 12)" "m = n - 12" using a l by auto
  obtain xs ys where x: "bs = xs @ (n, True) # ys" "p = span xs" using live_at[OF p(1)] by auto
  obtain h' where h': "rt_smem_free s (Some a) h = Some h'" "heap_rep h' (coalesce (xs @ (n, False) # ys))"
      "sm_heap_ptr h' = sm_heap_ptr h" "sm_self h' = sm_self h"
    using smem_free_rep[OF r[unfolded x(1)] ob] p(2) x(2) by auto
  have c: "chain h bs" using r by (simp add: heap_rep_def)
  have "16 \<le> n" using chain_mid(4)[OF c[unfolded x(1)]] .
  then have "live 0 (coalesce (xs @ (n, False) # ys)) = live 0 bs - {(p, n)}"
    using live_range[of p n 0 xs] live_range[of p n "p + n" ys] x by (auto simp: live_coalesce live_append)
  moreover have "(\<lambda>(k, n). (sm_heap_ptr h + of_nat (k + 12), n - 12)) ` (live 0 bs - {(p, n)}) = L - {(a, m)}"
    using inj_on_image_set_diff[OF payload_inj[OF c], of "live 0 bs" "{(p, n)}"] p l by simp
  ultimately have "smem_holds h' (L - {(a, m)})"
    using h'(2,3) unfolding smem_holds_def by (intro exI[of _ "coalesce (xs @ (n, False) # ys)"]) simp
  moreover have "sm_heap_end h' = sm_heap_end h"
    using r h'(2,3) x(1) by (simp add: heap_rep_def chain_def)
  ultimately show ?thesis using h' by blast
qed

text \<open>With nothing in use the heap is one free block.\<close>

lemma smem_holds_nothing:
  assumes "smem_holds h {}"
  shows "heap_rep h [(unat (sm_heap_end h) - unat (sm_heap_ptr h), False)]"
proof -
  obtain bs where r: "heap_rep h bs" and l: "live 0 bs = {}" using assms by (auto simp: smem_holds_def)
  have c: "chain h bs" and m: "merged bs" using r by (simp_all add: heap_rep_def)
  have free: "\<not> snd b" if "b \<in> set bs" for b
  proof
    assume "snd b"
    with that obtain xs ys where "bs = xs @ (fst b, True) # ys" by (metis split_list prod.collapse)
    then show False using l by (simp add: live_append)
  qed
  obtain b zs where b: "bs = b # zs" using c by (cases bs) (auto simp: chain_def)
  have "zs = []"
  proof (cases zs)
    case (Cons d ds)
    then show ?thesis using m b free[of b] free[of d] by simp
  qed simp
  then have bs: "bs = [(span bs, False)]" using b free[of b] by (cases b) simp
  have "unat (sm_heap_end h) = unat (sm_heap_ptr h) + span bs"
    using heap_addr(1)[OF c, of "span bs" 0] c by (simp add: chain_def)
  then show ?thesis using r bs by simp
qed

lemma realloc_sizes:
  assumes c: "chain h (xs @ (n, True) # ys)" and w: "w \<le> sm_size_aligned h"
  shows "(of_nat (n - 12) = w) \<longleftrightarrow> n - 12 = unat w" "w + 12 + 12 < of_nat (n - 12) \<longleftrightarrow> unat w + 36 < n"
    "unat (of_nat (n - 12) :: u32) = n - 12"
proof -
  note m = chain_mid[OF c]
  have u: "unat (of_nat (n - 12) :: u32) = n - 12" using m(6) by (simp only: unat_of_nat take_bit_nat_eq_self) simp
  have "unat w \<le> span (xs @ (n, True) # ys) - 12"
  proof -
    have "sm_size_aligned h = of_nat (span (xs @ (n, True) # ys) - 12)" using c by (simp only: chain_def)
    moreover have "unat (of_nat (span (xs @ (n, True) # ys) - 12) :: u32) = span (xs @ (n, True) # ys) - 12"
      using m(6) by (simp only: unat_of_nat take_bit_nat_eq_self) simp
    ultimately show ?thesis using w by (simp add: word_le_nat_alt)
  qed
  then have "unat w + 24 < 4294967296" using m(6) by simp
  then have "unat (w + 12 + 12) = unat w + 24" by (simp add: unat_word_ariths(1))
  then show "(of_nat (n - 12) = w) \<longleftrightarrow> n - 12 = unat w" "w + 12 + 12 < of_nat (n - 12) \<longleftrightarrow> unat w + 36 < n"
    "unat (of_nat (n - 12) :: u32) = n - 12"
    using u by (auto simp: word_unat_eq_iff word_less_nat_alt)
qed

lemma realloc_eval:
  assumes r: "heap_rep h (xs @ (z, True) # ys)" and ob: "heap_object (sm_self h) s"
  defines "a \<equiv> sm_heap_ptr h + of_nat (span xs + 12)"
  shows "rt_smem_realloc s (Some a) n (h, mem) =
    (if sm_size_aligned h < align_up n then Some (None, h, mem)
     else if align_up n = 0 then map_option (\<lambda>h. (None, h, mem)) (rt_smem_free s (Some a) h)
     else if z - 12 = unat (align_up n) then Some (Some a, h, mem)
     else if unat (align_up n) + 36 < z then map_option (\<lambda>h. (Some a, h, mem))
       (smem_shrink (sm_heap_ptr h + of_nat (span xs)) (of_nat (span xs)) (of_nat (z - 12)) (align_up n) h)
     else do {
       (p, h) \<leftarrow> rt_smem_alloc s (align_up n) h;
       case p of None \<Rightarrow> Some (None, h, mem)
       | Some nm \<Rightarrow> map_option (\<lambda>h. (Some nm, h, rt_memcpy (unat nm) (unat a) (min (z - 12) (unat (align_up n))) mem))
           (rt_smem_free s (Some a) h) })"
proof -
  have c: "chain h (xs @ (z, True) # ys)" using r by (simp add: heap_rep_def)
  note m = chain_mid[OF c]
  define v where "v = align_up n"
  have a12: "a - 12 = sm_heap_ptr h + of_nat (span xs)" "a - 12 - sm_heap_ptr h = of_nat (span xs)" by (simp_all add: a_def)
  have e: "sm_heap_end h = sm_heap_ptr h + of_nat (span (xs @ (z, True) # ys))" using c by (simp add: chain_def)
  have as: "a AND 3 = 0" "sm_heap_ptr h \<le> a" "a < sm_heap_end h"
    using heap_aligned(1)[OF c, of "span xs + 12"] heap_addr(2)[OF c, of 0 "span xs + 12"]
      heap_addr(3)[OF c, of "span xs + 12" "span (xs @ (z, True) # ys)"] m(4,7)
    unfolding a_def e by simp_all
  have sz: "mi_next (sm_items h (a - 12)) - of_nat (span xs) - 12 = of_nat (z - 12)"
    using m(2,4) by (simp add: a12 view_def of_nat_diff)
  define w where "w = (of_nat (z - 12) :: u32)"
  show ?thesis
  proof (cases "sm_size_aligned h < v")
    case True
    then show ?thesis using ob by (simp add: rt_smem_realloc_def Let_def flip: v_def)
  next
    case False
    then have le: "v \<le> sm_size_aligned h" by simp
    note rs = realloc_sizes[OF c le, folded w_def]
    have mn: "min (z - 12) (unat v) = (if w < v then z - 12 else unat v)"
      using rs(3) by (auto simp: min_def word_less_nat_alt)
    have sz': "mi_next (sm_items h (sm_heap_ptr h + of_nat (span xs))) - of_nat (span xs) - 12 = w"
      using sz by (simp only: a12 w_def)
    show ?thesis
      using as ob False rs
      unfolding rt_smem_realloc_def Let_def split_conv option.case a12 v_def[symmetric] w_def[symmetric] map_conv_bind_option comp_def
      by (simp add: sz' mn cong: option.case_cong)
  qed
qed

lemma smem_holds_shrink:
  assumes L: "heap_rep h (xs @ (z, True) # ys)" "L = (\<lambda>(k, n). (sm_heap_ptr h + of_nat (k + 12), n - 12)) ` live 0 (xs @ (z, True) # ys)"
    and h': "heap_rep h' (coalesce (xs @ (k + 12, True) # (z - k - 12, False) # ys))" "sm_heap_ptr h' = sm_heap_ptr h"
    and k: "k + 36 < z"
  defines "a \<equiv> sm_heap_ptr h + of_nat (span xs + 12)"
  shows "smem_holds h' (insert (a, k) (L - {(a, z - 12)}))"
proof -
  have c: "chain h (xs @ (z, True) # ys)" using L(1) by (simp add: heap_rep_def)
  define B where "B = live 0 (xs @ (z, True) # ys)"
  have at: "(span xs, z) \<in> B" by (simp add: B_def live_append)
  have "live 0 (coalesce (xs @ (k + 12, True) # (z - k - 12, False) # ys)) =
      insert (span xs, k + 12) (B - {(span xs, z)})"
    unfolding B_def using live_range[of "span xs" z 0 xs] live_range[of "span xs" z "span xs + z" ys] k
    by (auto simp: live_coalesce live_append)
  moreover have "(\<lambda>(k, n). (sm_heap_ptr h + of_nat (k + 12), n - 12)) ` (B - {(span xs, z)}) = L - {(a, z - 12)}"
    using inj_on_image_set_diff[OF payload_inj[OF c], folded B_def, of B "{(span xs, z)}"] L(2)[folded B_def] at
    by (simp add: a_def)
  ultimately show ?thesis
    using h' unfolding smem_holds_def
    by (intro exI[of _ "coalesce (xs @ (k + 12, True) # (z - k - 12, False) # ys)"]) (simp add: a_def)
qed

lemma copy_apart:
  assumes "apart (b, k) (a, m)" "j \<le> k" "j \<le> m"
  shows "i < j \<Longrightarrow> rt_memcpy (unat b) (unat a) j mem (unat b + i) = mem (unat a + i)"
    "apart (b, k) (c, n) \<Longrightarrow> i < n \<Longrightarrow> rt_memcpy (unat b) (unat a) j mem (unat c + i) = mem (unat c + i)"
proof -
  have "rt_memcpy (unat b) (unat a) j mem = copy (unat b) (unat a) j mem"
    by (rule memcpy_copy) (use assms in \<open>auto simp: copyable_def apart_def\<close>)
  then show "i < j \<Longrightarrow> rt_memcpy (unat b) (unat a) j mem (unat b + i) = mem (unat a + i)"
    "apart (b, k) (c, n) \<Longrightarrow> i < n \<Longrightarrow> rt_memcpy (unat b) (unat a) j mem (unat c + i) = mem (unat c + i)"
    using assms(2) by (auto simp: copy_def apart_def)
qed

text \<open>
  Resizing: the answer is null only when the request is to free the block or no block fits, and then
  the old block is untouched unless it was to be freed; otherwise the answer is a block at
  least as large as asked for that holds the old contents, up to the smaller of the two sizes, and no other
  block in use is written.
\<close>

lemma smem_realloc_rep:
  assumes L: "smem_holds h L" and ob: "heap_object (sm_self h) s" and a: "(a, m) \<in> L"
    and w: "unat n + 3 < 4294967296"
  shows "\<exists>p h' mem'. rt_smem_realloc s (Some a) n (h, mem) = Some (p, h', mem') \<and>
    sm_heap_ptr h' = sm_heap_ptr h \<and> sm_self h' = sm_self h \<and> sm_heap_end h' = sm_heap_end h \<and>
    (case p of
       None \<Rightarrow> mem' = mem \<and> (if n = 0 then smem_holds h' (L - {(a, m)}) else h' = h)
     | Some b \<Rightarrow> n \<noteq> 0 \<and> (\<exists>k\<ge>unat n. smem_holds h' (insert (b, k) (L - {(a, m)})) \<and>
         (\<forall>i. i < min m (unat n) \<longrightarrow> mem' (unat b + i) = mem (unat a + i)) \<and>
         (\<forall>(c, j) \<in> L - {(a, m)}. \<forall>i<j. mem' (unat c + i) = mem (unat c + i))))"
proof -
  obtain bs where r: "heap_rep h bs" and l: "L = (\<lambda>(k, n). (sm_heap_ptr h + of_nat (k + 12), n - 12)) ` live 0 bs"
    using L by (auto simp: smem_holds_def)
  obtain p z where p: "(p, z) \<in> live 0 bs" "a = sm_heap_ptr h + of_nat (p + 12)" "m = z - 12" using a l by auto
  obtain xs ys where x: "bs = xs @ (z, True) # ys" "p = span xs" using live_at[OF p(1)] by auto
  have c: "chain h (xs @ (z, True) # ys)" using r x by (simp add: heap_rep_def)
  note mid = chain_mid[OF c]
  have ra: "a = sm_heap_ptr h + of_nat (span xs + 12)" using p(2) x(2) by simp
  define v where "v = align_up n"
  have v: "unat v = (unat n + 3) div 4 * 4" using w by (simp add: v_def unat_align_up)
  have v0: "v = 0 \<longleftrightarrow> n = 0" "unat n \<le> unat v" "4 dvd unat v" using v by (auto simp: word_unat_eq_iff)
  note ev = realloc_eval[OF r[unfolded x(1)] ob, of n mem, folded ra v_def]
  have Lx: "L = (\<lambda>(k, n). (sm_heap_ptr h + of_nat (k + 12), n - 12)) ` live 0 (xs @ (z, True) # ys)" using l x(1) by simp
  have lt: "\<not> v \<le> sm_size_aligned h \<Longrightarrow> v \<noteq> 0" by auto
  consider "sm_size_aligned h < v" | "v = 0" | "v \<le> sm_size_aligned h" "v \<noteq> 0" "z - 12 = unat v" |
    "v \<le> sm_size_aligned h" "v \<noteq> 0" "z - 12 \<noteq> unat v" "unat v + 36 < z" |
    "v \<le> sm_size_aligned h" "v \<noteq> 0" "z - 12 \<noteq> unat v" "\<not> unat v + 36 < z" by force
  then show ?thesis
  proof cases
    case 1
    then show ?thesis using ev v0(1) lt by auto
  next
    case 2
    then show ?thesis using ev v0(1) smem_holds_free[OF L ob a] by auto
  next
    case 3
    then have "insert (a, m) (L - {(a, m)}) = L" "unat n \<le> m" using a v0(2) p(3) by auto
    moreover have "rt_smem_realloc s (Some a) n (h, mem) = Some (Some a, h, mem)" using ev 3 by simp
    ultimately show ?thesis using L v0(1) 3 by auto
  next
    case 4
    have "4 \<le> unat v" using 4(2) v0(3) by (auto simp: word_unat_eq_iff dvd_def)
    from smem_shrink_refines[OF r[unfolded x(1)] this v0(3) 4(4)] obtain h' where sf: "sm_self h' = sm_self h" and h':
      "smem_shrink (sm_heap_ptr h + of_nat (span xs)) (of_nat (span xs)) (of_nat (z - 12)) v h = Some h'"
      "heap_rep h' (coalesce (xs @ (unat v + 12, True) # (z - unat v - 12, False) # ys))" "sm_heap_ptr h' = sm_heap_ptr h" by auto
    have "smem_holds h' (insert (a, unat v) (L - {(a, m)}))"
      using smem_holds_shrink[OF r[unfolded x(1)] Lx h'(2,3) 4(4)] ra p(3) by simp
    moreover have "rt_smem_realloc s (Some a) n (h, mem) = Some (Some a, h', mem)" using ev 4 h'(1) by simp
    moreover have "sm_heap_end h' = sm_heap_end h"
      using r h'(2,3) x(1) 4(4) by (simp add: heap_rep_def chain_def)
    ultimately show ?thesis using v0 4(2) sf h'(3) by auto
  next
    case 5
    obtain q h1 where f1: "sm_heap_ptr h1 = sm_heap_ptr h" "sm_heap_end h1 = sm_heap_end h"
      and h1: "rt_smem_alloc s v h = Some (q, h1)" "sm_self h1 = sm_self h"
      "case q of None \<Rightarrow> h1 = h | Some b \<Rightarrow> v \<noteq> 0 \<and> (\<exists>k. asked v \<le> k \<and> b \<notin> fst ` L \<and> smem_holds h1 (insert (b, k) L))"
      using smem_holds_alloc[OF L ob, of v] by blast
    show ?thesis
    proof (cases q)
      case None
      then have "rt_smem_realloc s (Some a) n (h, mem) = Some (None, h, mem)" using ev 5 h1 by auto
      then show ?thesis using v0(1) 5(2) by simp
    next
      case (Some b)
      then obtain k where k: "asked v \<le> k" "b \<notin> fst ` L" "smem_holds h1 (insert (b, k) L)" using h1(3) by auto
      have "unat v < 4294967296" using unsigned_less[of v] by simp
      then have "unat v + 3 < 4294967296" using v0(3) by (auto elim!: dvdE)
      then have vk: "unat v \<le> k" using asked_enough[of v] k(1) by simp
      have ne: "(a, m) \<noteq> (b, k)" using k(2) a by force
      obtain h2 where f2: "sm_heap_ptr h2 = sm_heap_ptr h1" "sm_self h2 = sm_self h1" "sm_heap_end h2 = sm_heap_end h1"
        and h2: "rt_smem_free s (Some a) h1 = Some h2" "smem_holds h2 (insert (b, k) L - {(a, m)})"
        using smem_holds_free[OF k(3), of s a m] ob h1(2) a by auto
      define j where "j = min (z - 12) (unat v)"
      have re: "rt_smem_realloc s (Some a) n (h, mem) = Some (Some b, h2, rt_memcpy (unat b) (unat a) j mem)"
        using ev 5 h1(1) Some h2(1) by (simp add: j_def)
      have ap: "apart (b, k) (c, i)" if "(c, i) \<in> L" for c i
        using smem_holds_apart[OF k(3), of b k c i] that k(2) by force
      have jk: "j \<le> k" "j \<le> m" using vk p(3) by (simp_all add: j_def)
      note cp = copy_apart[OF ap[OF a] jk]
      have "insert (b, k) L - {(a, m)} = insert (b, k) (L - {(a, m)})" using ne by auto
      moreover have "\<forall>i < min m (unat n). rt_memcpy (unat b) (unat a) j mem (unat b + i) = mem (unat a + i)"
        using cp(1) v0(2) p(3) by (simp add: j_def)
      moreover have "\<forall>(c, n) \<in> L - {(a, m)}. \<forall>i<n. rt_memcpy (unat b) (unat a) j mem (unat c + i) = mem (unat c + i)"
        using cp(2) ap by blast
      ultimately show ?thesis using re h2(2) vk v0 5(2) f1 f2 h1(2) by (auto intro!: exI[of _ k])
    qed
  qed
qed

section \<open>Initialisation\<close>

lemma unat_align_down: "unat (align_down n) = unat n div 4 * 4"
  using unat_and_not_3[of n] by (simp add: align_down_def)

text \<open>
  Initialising a region of at least 98 bytes that does not wrap around lays the structure and one
  free block into it; the heap lies inside the region.
\<close>

lemma smem_init_rep:
  assumes "begin_addr \<noteq> 0" "unat begin_addr + unat sz < 4294967296" "98 \<le> unat sz"
    and "rt_object_init (Mem (unat (align_up begin_addr))) RT_Object_Class_Memory nm s = Some s'"
  shows "\<exists>h n. rt_smem_init nm begin_addr sz I s = Some (Some h, s') \<and> heap_rep h [(n, False)] \<and> smem_holds h {} \<and>
    heap_object (sm_self h) s' \<and> unat begin_addr \<le> unat (sm_self h) \<and> unat (sm_self h) + 56 \<le> unat (sm_heap_ptr h) \<and>
    unat (sm_heap_end h) + 12 \<le> unat begin_addr + unat sz \<and> unat sz \<le> n + 74"
proof -
  define self where "self = align_up begin_addr"
  define e where "e = align_down (begin_addr + sz)"
  have us: "unat self = (unat begin_addr + 3) div 4 * 4" using assms(2,3) by (simp add: self_def unat_align_up)
  have ue: "unat e = (unat begin_addr + unat sz) div 4 * 4"
    using assms(2) by (simp add: e_def unat_align_down unat_word_ariths(1))
  have ub: "unat (self + 56) = unat self + 56" using us assms(2,3) by (simp add: unat_word_ariths(1))
  have ba: "align_up (self + 56) = self + 56"
  proof -
    have "unat self + 56 + 3 < 4294967296" using us assms(2,3) by simp
    then have "unat (align_up (self + 56)) = (unat self + 56 + 3) div 4 * 4" using ub by (simp add: unat_align_up)
    also have "\<dots> = unat self + 56" unfolding us by simp
    finally show ?thesis using ub by (simp add: word_unat_eq_iff)
  qed
  define n where "n = unat e - unat self - 68"
  have big: "unat self + 92 \<le> unat e" using us ue assms(3) by simp
  have e24: "unat (e - 24) = unat e - 24" using big by (simp add: unat_sub word_le_nat_alt)
  have ms: "e - (self + 56) - 24 = of_nat (n - 12)"
  proof -
    have "unat (e - (self + 56)) = unat e - (unat self + 56)" using big ub by (simp add: unat_sub word_le_nat_alt)
    moreover then have "unat (e - (self + 56) - 24) = unat e - (unat self + 56) - 24" using big by (simp add: unat_sub word_le_nat_alt)
    ultimately have "n - 12 = unat (e - (self + 56) - 24)" by (simp add: n_def)
    then show ?thesis by (simp only: of_nat_unat) simp
  qed
  have cond: "24 < e \<and> self + 56 \<le> e - 24" using big e24 ub by (simp add: word_less_nat_alt word_le_nat_alt)
  define h where "h = smem_set_up self (self + 56) (of_nat (n - 12)) I"
  have ev: "rt_smem_init nm begin_addr sz I s = Some (Some h, s')"
    using cond assms(4) by (simp add: rt_smem_init_def Let_def ba ms h_def del: of_nat_diff flip: self_def e_def)
  have "4 dvd unat self" "4 dvd unat e" using us ue by simp_all
  then have n4: "4 dvd n" "4 dvd unat (self + 56)" using ub by (simp_all add: n_def dvd_diff_nat)
  have "unat begin_addr \<noteq> 0" using assms(1) by (simp add: unat_eq_0)
  then have "unat self \<noteq> 0" using us by auto
  then have s0: "self \<noteq> 0" "self + 56 \<noteq> 0" using ub by (auto simp: word_unat_eq_iff simp del: unat_eq_0)
  have lim: "24 \<le> n" "unat (self + 56) + n + 12 \<le> 4294967296" using ub big ue assms(2) by (simp_all add: n_def)
  note up = smem_set_up_rep[OF \<open>4 dvd unat self\<close> s0(1) n4(2) s0(2) lim(1) n4(1) lim(2), of I, folded h_def]
  have "heap_rep h [(n, False)]" by (rule up(1))
  moreover then have "smem_holds h {}" unfolding smem_holds_def by (intro exI[of _ "[(n, False)]"]) simp
  moreover note f = up(2-4)
  moreover have "heap_object self s'"
    using object_init_eq(3)[OF assms(4)] by (simp add: heap_object_def rt_object_get_type_def rt_object_is_systemobject_def self_def)
  moreover have "unat (sm_heap_end h) = unat self + 56 + n"
    using heap_addr(1)[of h "[(n, False)]" n 0] up(1) ub by (simp add: heap_rep_def f)
  moreover have "unat sz \<le> n + 74" "unat begin_addr \<le> unat self" using us ue by (simp_all add: n_def)
  ultimately show ?thesis using ev us ub ue big by (intro exI[of _ h] exI[of _ n]) (simp add: n_def)
qed

lemma init_memory_bss: "rt_object_init (Mem a) RT_Object_Class_Memory nm bss \<noteq> None"
  by (simp add: rt_object_init_def rt_object_get_information_def container_types_def bss_def
      rt_enter_critical_def rt_exit_critical_def Let_def)

text \<open>
  A region that leaves less than twelve bytes of payload is accepted, but the search on it never ends: the item
  of the end of the heap points to itself.
\<close>

lemma search_stuck:
  assumes "is_used h (sm_heap_ptr h + q)" "mi_next (sm_items h (sm_heap_ptr h + q)) = q"
  shows "smem_search sz q h = Some r \<Longrightarrow> \<not> q \<le> sm_size_aligned h - sz"
proof -
  assume r: "smem_search sz q h = Some r"
  have "sz' = sz \<longrightarrow> q' = q \<longrightarrow> h' = h \<longrightarrow> \<not> q \<le> sm_size_aligned h - sz" if "smem_search sz' q' h' = Some r" for sz' q' h' r
  proof (rule smem_search.raw_induct[where P = "\<lambda>sz' q' h' r. sz' = sz \<longrightarrow> q' = q \<longrightarrow> h' = h \<longrightarrow> \<not> q \<le> sm_size_aligned h - sz", OF _ that], goal_cases)
    case (1 search sz' q' h' r)
    then show ?case using assms by (auto split: if_splits)
  qed
  then show ?thesis using r by blast
qed

lemma tiny_heap_hangs:
  "\<exists>h s'. rt_smem_init [104] 0x1000 88 (\<lambda>a. \<lparr>mi_pool_ptr = 0, mi_next = 0, mi_prev = 0\<rparr>) bss = Some (Some h, s') \<and>
    rt_smem_alloc s' 4 h = None"
proof -
  have al: "align_up 0x1000 = 0x1000" "align_up 0x1038 = 0x1038" "align_down 0x1058 = 0x1058" "align_up 4 = 4"
    by (simp_all add: align_up_def align_down_def)
  obtain s' where s': "rt_object_init (Mem (unat (0x1000 :: u32))) RT_Object_Class_Memory [104] bss = Some s'"
    using init_memory_bss by blast
  define h where "h = smem_set_up 0x1000 0x1038 8 (\<lambda>a. \<lparr>mi_pool_ptr = 0, mi_next = 0, mi_prev = 0\<rparr>)"
  have ini: "rt_smem_init [104] 0x1000 88 (\<lambda>a. \<lparr>mi_pool_ptr = 0, mi_next = 0, mi_prev = 0\<rparr>) bss = Some (Some h, s')"
    using s' by (simp add: rt_smem_init_def al h_def Let_def)
  have ob: "heap_object 0x1000 s'"
    using object_init_eq(3)[OF s'] by (simp add: heap_object_def rt_object_get_type_def rt_object_is_systemobject_def)
  have f: "sm_self h = 0x1000" "sm_heap_ptr h = 0x1038" "sm_size_aligned h = 8" "sm_lfree h = 0x1038"
    "\<not> is_used h 0x1038" "mi_next (sm_items h 0x1038) = 20" "is_used h 0x104c" "mi_next (sm_items h 0x104c) = 20"
    by (simp_all add: h_def smem_set_up_def Let_def upd_item_def is_used_def mem_used_def mem_freed_def)
  have "smem_search 12 20 h = None"
    using search_stuck[of h 20 12] f by (cases "smem_search 12 20 h") (auto simp: word_le_nat_alt)
  then have "smem_search 12 0 h = None" using f by (subst smem_search.simps) (simp add: word_le_nat_alt)
  then have "rt_smem_alloc s' 4 h = None" using f ob by (simp add: rt_smem_alloc_def al Let_def)
  then show ?thesis using ini by blast
qed

end
