(* ===== verification/Malloc.thy ===== *)
theory Malloc
  imports HeapFree
begin

text \<open>
  The system heap of \<^verbatim>\<open>src/kservice.c\<close>: \<^verbatim>\<open>rt_malloc\<close> and its family, which guard the small-memory heap of
  \<open>Heap\<close> with a mutex. The contract of an allocator is a locale; the small-memory heap by itself and the
  system heap behind its lock are interpretations of it.
\<close>

section \<open>The contract of an allocator\<close>

text \<open>
  A client asks for blocks and gives back blocks it holds, in any order. The history is the set of blocks it
  holds, each address with the number of bytes the client asked for.
\<close>

datatype request = Want u32 | Give u32

fun serve :: "(u32 \<Rightarrow> 'h \<Rightarrow> (u32 option \<times> 'h) option) \<Rightarrow> (u32 \<Rightarrow> 'h \<Rightarrow> 'h option) \<Rightarrow> request list \<Rightarrow>
    'h \<times> (u32 \<times> u32) set \<Rightarrow> ('h \<times> (u32 \<times> u32) set) option" where
  "serve alloc release [] x = Some x"
| "serve alloc release (Want n # rs) (h, H) =
    (case alloc n h of
       None \<Rightarrow> None
     | Some (None, h) \<Rightarrow> serve alloc release rs (h, H)
     | Some (Some a, h) \<Rightarrow> serve alloc release rs (h, insert (a, n) H))"
| "serve alloc release (Give a # rs) (h, H) =
    (if a \<in> fst ` H then
       (case release a h of None \<Rightarrow> None | Some h \<Rightarrow> serve alloc release rs (h, {r \<in> H. fst r \<noteq> a}))
     else serve alloc release rs (h, H))"

text \<open>The blocks in use, with their real sizes, serve what the client holds: each is as large as asked for.\<close>

definition served :: "(u32 \<times> nat) set \<Rightarrow> (u32 \<times> u32) set \<Rightarrow> bool" where
  "served L H \<longleftrightarrow> fst ` H = fst ` L \<and> inj_on fst H \<and> (\<forall>(a, n) \<in> H. \<exists>m. (a, m) \<in> L \<and> asked n \<le> m)"

lemma served_insert:
  assumes "served L H" "a \<notin> fst ` L" "asked n \<le> m"
  shows "served (insert (a, m) L) (insert (a, n) H)"
proof -
  have f: "fst ` H = fst ` L" "inj_on fst H" "\<forall>(c, n) \<in> H. \<exists>m. (c, m) \<in> L \<and> asked n \<le> m"
    using assms(1) by (simp_all add: served_def)
  have "fst (a, n) \<notin> fst ` H" using f(1) assms(2) by simp
  then have "fst (a, n) \<notin> fst ` (H - {(a, n)})" by blast
  then have "inj_on fst (insert (a, n) H)" using f(2) by (simp only: inj_on_insert conj_absorb simp_thms)
  moreover have "\<forall>(c, n) \<in> insert (a, n) H. \<exists>k. (c, k) \<in> insert (a, m) L \<and> asked n \<le> k"
    using f(3) assms(3) by blast
  ultimately show ?thesis using f(1) by (simp add: served_def)
qed

lemma served_remove:
  assumes "served L H" "(a, k) \<in> L" "\<And>m. (a, m) \<in> L \<Longrightarrow> m = k"
  shows "served (L - {(a, k)}) {r \<in> H. fst r \<noteq> a}"
proof -
  have f: "fst ` H = fst ` L" "inj_on fst H" "\<And>c n. (c, n) \<in> H \<Longrightarrow> \<exists>m. (c, m) \<in> L \<and> asked n \<le> m"
    using assms(1) by (auto simp: served_def)
  have "fst ` {r \<in> H. fst r \<noteq> a} = fst ` H - {a}" by force
  moreover have "fst ` (L - {(a, k)}) = fst ` L - {a}" using assms(3) by force
  ultimately have "fst ` {r \<in> H. fst r \<noteq> a} = fst ` (L - {(a, k)})" using f(1) by simp
  moreover have "inj_on fst {r \<in> H. fst r \<noteq> a}" by (rule inj_on_subset[OF f(2)]) blast
  moreover have "\<exists>m. (c, m) \<in> L - {(a, k)} \<and> asked n \<le> m" if "(c, n) \<in> {r \<in> H. fst r \<noteq> a}" for c n
    using f(3)[of c n] that by auto
  ultimately show ?thesis unfolding served_def by blast
qed

lemma served_empty [simp]: "served {} H = (H = {})" "served L {} = (L = {})"
  by (auto simp: served_def)

lemma apart_smaller: "apart (a, m) (c, j) \<Longrightarrow> n \<le> m \<Longrightarrow> k \<le> j \<Longrightarrow> apart (a, n) (c, k)"
  by (auto simp: apart_def)

text \<open>\<open>holds h L\<close>: the blocks in use are those of \<open>L\<close>, each with its usable size.\<close>

locale allocator =
  fixes holds :: "'h \<Rightarrow> (u32 \<times> nat) set \<Rightarrow> bool"
    and alloc :: "u32 \<Rightarrow> 'h \<Rightarrow> (u32 option \<times> 'h) option" and release :: "u32 \<Rightarrow> 'h \<Rightarrow> 'h option"
  assumes inside: "holds h L \<Longrightarrow> (a, n) \<in> L \<Longrightarrow> a \<noteq> 0 \<and> 4 dvd unat a \<and> 4 \<le> n \<and> unat a + n < 4294967296"
    and separate: "holds h L \<Longrightarrow> (a, n) \<in> L \<Longrightarrow> (b, m) \<in> L \<Longrightarrow> (a, n) \<noteq> (b, m) \<Longrightarrow> apart (a, n) (b, m)"
    and alloc_law: "holds h L \<Longrightarrow> \<exists>p h'. alloc w h = Some (p, h') \<and>
      (case p of None \<Rightarrow> holds h' L | Some a \<Rightarrow> \<exists>m. asked w \<le> m \<and> a \<notin> fst ` L \<and> holds h' (insert (a, m) L))"
    and release_law: "holds h L \<Longrightarrow> (a, n) \<in> L \<Longrightarrow> \<exists>h'. release a h = Some h' \<and> holds h' (L - {(a, n)})"
begin

lemma one_size:
  assumes "holds h L" "(a, n) \<in> L" "(a, m) \<in> L"
  shows "n = m"
proof (rule ccontr)
  assume "n \<noteq> m"
  then have "apart (a, n) (a, m)" using separate[OF assms] by simp
  then show False using inside[OF assms(1,2)] inside[OF assms(1,3)] by (simp add: apart_def)
qed

text \<open>
  Nothing a client does makes the allocator fail, and at the end the blocks in use serve what it holds.
\<close>

lemma serve_holds:
  "holds h L \<Longrightarrow> served L H \<Longrightarrow>
    \<exists>h' H' L'. serve alloc release rs (h, H) = Some (h', H') \<and> holds h' L' \<and> served L' H'"
proof (induction rs arbitrary: h L H)
  case Nil
  then show ?case by auto
next
  case (Cons r rs)
  show ?case
  proof (cases r)
    case (Want n)
    obtain p h1 where h1: "alloc n h = Some (p, h1)"
      "case p of None \<Rightarrow> holds h1 L | Some a \<Rightarrow> \<exists>m. asked n \<le> m \<and> a \<notin> fst ` L \<and> holds h1 (insert (a, m) L)"
      using alloc_law[OF Cons.prems(1)] by blast
    show ?thesis
    proof (cases p)
      case None
      then show ?thesis using Cons.IH[of h1 L H] Cons.prems(2) h1 Want by simp
    next
      case (Some a)
      then obtain m where m: "asked n \<le> m" "a \<notin> fst ` L" "holds h1 (insert (a, m) L)" using h1(2) by auto
      from Cons.IH[OF m(3) served_insert[OF Cons.prems(2) m(2,1)]] show ?thesis using h1(1) Some Want by simp
    qed
  next
    case (Give a)
    show ?thesis
    proof (cases "a \<in> fst ` H")
      case True
      then obtain k where k: "(a, k) \<in> L" using Cons.prems(2) by (auto simp: served_def)
      obtain h1 where h1: "release a h = Some h1" "holds h1 (L - {(a, k)})" using release_law[OF Cons.prems(1) k] by blast
      have "served (L - {(a, k)}) {r \<in> H. fst r \<noteq> a}"
        by (rule served_remove[OF Cons.prems(2) k]) (rule one_size[OF Cons.prems(1) _ k])
      from Cons.IH[OF h1(2) this] show ?thesis using h1(1) True Give by simp
    next
      case False
      then show ?thesis using Cons.IH[OF Cons.prems] Give by simp
    qed
  qed
qed

text \<open>What the client holds lies inside the blocks in use, and so apart, over the sizes it asked for.\<close>

lemma served_apart:
  assumes "holds h L" "served L H" "(a, n) \<in> H" "(c, k) \<in> H" "(a, n) \<noteq> (c, k)"
  shows "apart (a, asked n) (c, asked k)"
proof -
  obtain m j where m: "(a, m) \<in> L" "asked n \<le> m" "(c, j) \<in> L" "asked k \<le> j"
    using assms(2-4) unfolding served_def by blast
  have "inj_on fst H" using assms(2) by (simp add: served_def)
  then have "a \<noteq> c" using inj_onD[of fst H "(a, n)" "(c, k)"] assms(3-5) by auto
  then show ?thesis using apart_smaller[OF separate[OF assms(1) m(1,3)] m(2,4)] by simp
qed

lemma alloc_then_release:
  assumes "holds h L" "alloc n h = Some (Some a, h1)"
  shows "\<exists>h2. release a h1 = Some h2 \<and> holds h2 L"
proof -
  obtain m where m: "a \<notin> fst ` L" "holds h1 (insert (a, m) L)" using alloc_law[OF assms(1), of n] assms(2) by auto
  then have "insert (a, m) L - {(a, m)} = L" by force
  then show ?thesis using release_law[OF m(2), of a m] by auto
qed

end

section \<open>The small-memory heap is an allocator\<close>

definition smem_state :: "kstate \<Rightarrow> u32 \<Rightarrow> u32 \<Rightarrow> rt_small_mem \<Rightarrow> (u32 \<times> nat) set \<Rightarrow> bool" where
  "smem_state s b e h L \<longleftrightarrow> smem_holds h L \<and> heap_object (sm_self h) s \<and> sm_heap_ptr h = b \<and> sm_heap_end h = e"

interpretation sm: allocator "smem_state s b e" "rt_smem_alloc s" "\<lambda>a. rt_smem_free s (Some a)"
proof unfold_locales
  fix h L a n c m
  assume h: "smem_state s b e h L"
  then have r: "smem_holds h L" "heap_object (sm_self h) s" by (simp_all add: smem_state_def)
  show "(a, n) \<in> L \<Longrightarrow> a \<noteq> 0 \<and> 4 dvd unat a \<and> 4 \<le> n \<and> unat a + n < 4294967296"
    using smem_holds_inside[OF r(1)] by blast
  show "(a, n) \<in> L \<Longrightarrow> (c, m) \<in> L \<Longrightarrow> (a, n) \<noteq> (c, m) \<Longrightarrow> apart (a, n) (c, m)"
    by (rule smem_holds_apart[OF r(1)])
  show "\<exists>p h'. rt_smem_alloc s w h = Some (p, h') \<and>
      (case p of None \<Rightarrow> smem_state s b e h' L | Some a \<Rightarrow> \<exists>m. asked w \<le> m \<and> a \<notin> fst ` L \<and> smem_state s b e h' (insert (a, m) L))" for w
  proof -
    obtain p h' where a: "rt_smem_alloc s w h = Some (p, h')" "sm_heap_ptr h' = sm_heap_ptr h" "sm_self h' = sm_self h"
      "sm_heap_end h' = sm_heap_end h"
      "case p of None \<Rightarrow> h' = h | Some a \<Rightarrow> w \<noteq> 0 \<and> (\<exists>m. asked w \<le> m \<and> a \<notin> fst ` L \<and> smem_holds h' (insert (a, m) L))"
      using smem_holds_alloc[OF r, of w] by blast
    then show ?thesis using h by (intro exI[of _ p] exI[of _ h']) (auto simp: smem_state_def split: option.splits)
  qed
  show "(a, n) \<in> L \<Longrightarrow> \<exists>h'. rt_smem_free s (Some a) h = Some h' \<and> smem_state s b e h' (L - {(a, n)})"
    using smem_holds_free[OF r, of a n] h by (auto simp: smem_state_def)
qed

section \<open>The system heap of kservice.c\<close>

text \<open>
  The state: the kernel, \<^verbatim>\<open>system_heap\<close> (a null pointer until the heap is initialised) and the bytes of
  the blocks. \<open>lk\<close> is the address of the static mutex \<^verbatim>\<open>_lock\<close>.
\<close>

abbreviation (input) RT_WAITING_FOREVER :: int where "RT_WAITING_FOREVER \<equiv> - 1"

record hstate =
  hs_k :: kstate
  hs_heap :: "rt_small_mem option"
  hs_mem :: mem

definition do_heap_lock_init :: "nat \<Rightarrow> kstate \<Rightarrow> kstate option" where
  "do_heap_lock_init lk s = do { (_, s) \<leftarrow> rt_mutex_init lk [104, 101, 97, 112] s; Some s }"

definition do_heap_lock :: "nat \<Rightarrow> kstate \<Rightarrow> ((int, tid) outcome \<times> kstate) option" where
  "do_heap_lock lk s =
    (if rt_thread_self s \<noteq> None then rt_mutex_take lk RT_WAITING_FOREVER s else Some (Done RT_EOK, s))"

definition do_heap_unlock :: "nat \<Rightarrow> int \<Rightarrow> kstate \<Rightarrow> kstate option" where
  "do_heap_unlock lk level s = do {
     _ \<leftarrow> kassert (level = RT_EOK);
     if rt_thread_self s \<noteq> None then do { (_, s) \<leftarrow> rt_mutex_release lk s; Some s } else Some s
   }"

text \<open>
  Every operation is a body between lock and unlock. \<open>locked\<close> is the part after the lock has been
  obtained with the answer \<open>level\<close>; a caller that had to wait resumes there.
\<close>

definition locked :: "nat \<Rightarrow> int \<Rightarrow> (hstate \<Rightarrow> ('a \<times> hstate) option) \<Rightarrow> hstate \<Rightarrow> ('a \<times> hstate) option" where
  "locked lk level body h = do {
     (r, h) \<leftarrow> body h;
     k \<leftarrow> do_heap_unlock lk level (hs_k h);
     Some (r, h\<lparr>hs_k := k\<rparr>)
   }"

definition with_lock :: "nat \<Rightarrow> (hstate \<Rightarrow> ('a \<times> hstate) option) \<Rightarrow> hstate \<Rightarrow> (('a, tid) outcome \<times> hstate) option" where
  "with_lock lk body h = do {
     (o', k) \<leftarrow> do_heap_lock lk (hs_k h);
     let h = h\<lparr>hs_k := k\<rparr>;
     case o' of
       Blocked t \<Rightarrow> Some (Blocked t, h)
     | Done level \<Rightarrow> do { (r, h) \<leftarrow> locked lk level body h; Some (Done r, h) }
   }"

definition mem_malloc :: "u32 \<Rightarrow> hstate \<Rightarrow> (u32 option \<times> hstate) option" where
  "mem_malloc sz h =
    (case hs_heap h of
       None \<Rightarrow> if sz = 0 then Some (None, h) else None
     | Some sm \<Rightarrow> do { (p, sm) \<leftarrow> rt_smem_alloc (hs_k h) sz sm; Some (p, h\<lparr>hs_heap := Some sm\<rparr>) })"

definition mem_realloc :: "u32 option \<Rightarrow> u32 \<Rightarrow> hstate \<Rightarrow> (u32 option \<times> hstate) option" where
  "mem_realloc rmem newsize h =
    (case hs_heap h of
       None \<Rightarrow> None
     | Some sm \<Rightarrow> do {
         (p, sm, m) \<leftarrow> rt_smem_realloc (hs_k h) rmem newsize (sm, hs_mem h);
         Some (p, h\<lparr>hs_heap := Some sm, hs_mem := m\<rparr>)
       })"

definition mem_free :: "u32 option \<Rightarrow> hstate \<Rightarrow> (unit \<times> hstate) option" where
  "mem_free rmem h =
    (case rmem of
       None \<Rightarrow> Some ((), h)
     | Some a \<Rightarrow> (case hs_heap h of
         None \<Rightarrow> None
       | Some sm \<Rightarrow> do { sm \<leftarrow> rt_smem_free (hs_k h) (Some a) sm; Some ((), h\<lparr>hs_heap := Some sm\<rparr>) }))"

definition mem_info :: "hstate \<Rightarrow> ((u32 \<times> u32 \<times> u32) \<times> hstate) option" where
  "mem_info h = do { sm \<leftarrow> hs_heap h; Some ((sm_total sm, sm_used sm, sm_max sm), h) }"

definition rt_malloc :: "nat \<Rightarrow> u32 \<Rightarrow> hstate \<Rightarrow> ((u32 option, tid) outcome \<times> hstate) option" where
  "rt_malloc lk sz h = with_lock lk (mem_malloc sz) h"

definition rt_malloc_resume :: "nat \<Rightarrow> u32 \<Rightarrow> tid \<Rightarrow> hstate \<Rightarrow> (u32 option \<times> hstate) option" where
  "rt_malloc_resume lk sz t h = locked lk (rt_mutex_take_resume t (hs_k h)) (mem_malloc sz) h"

definition rt_realloc :: "nat \<Rightarrow> u32 option \<Rightarrow> u32 \<Rightarrow> hstate \<Rightarrow> ((u32 option, tid) outcome \<times> hstate) option" where
  "rt_realloc lk rmem newsize h = with_lock lk (mem_realloc rmem newsize) h"

definition rt_realloc_resume :: "nat \<Rightarrow> u32 option \<Rightarrow> u32 \<Rightarrow> tid \<Rightarrow> hstate \<Rightarrow> (u32 option \<times> hstate) option" where
  "rt_realloc_resume lk rmem newsize t h = locked lk (rt_mutex_take_resume t (hs_k h)) (mem_realloc rmem newsize) h"

definition rt_free :: "nat \<Rightarrow> u32 option \<Rightarrow> hstate \<Rightarrow> ((unit, tid) outcome \<times> hstate) option" where
  "rt_free lk rmem h = with_lock lk (mem_free rmem) h"

definition rt_free_resume :: "nat \<Rightarrow> u32 option \<Rightarrow> tid \<Rightarrow> hstate \<Rightarrow> (unit \<times> hstate) option" where
  "rt_free_resume lk rmem t h = locked lk (rt_mutex_take_resume t (hs_k h)) (mem_free rmem) h"

definition rt_memory_info :: "nat \<Rightarrow> hstate \<Rightarrow> ((u32 \<times> u32 \<times> u32, tid) outcome \<times> hstate) option" where
  "rt_memory_info lk h = with_lock lk mem_info h"

text \<open>\<^verbatim>\<open>rt_calloc\<close>: the product is computed modulo $2^{32}$.\<close>

definition calloc_clear :: "u32 \<Rightarrow> u32 option \<times> hstate \<Rightarrow> u32 option \<times> hstate" where
  "calloc_clear n r = (case r of
      (None, h) \<Rightarrow> (None, h)
    | (Some p, h) \<Rightarrow> (Some p, h\<lparr>hs_mem := rt_memset (unat p) 0 (unat n) (hs_mem h)\<rparr>))"

definition rt_calloc :: "nat \<Rightarrow> u32 \<Rightarrow> u32 \<Rightarrow> hstate \<Rightarrow> ((u32 option, tid) outcome \<times> hstate) option" where
  "rt_calloc lk count sz h = do {
     (r, h) \<leftarrow> rt_malloc lk (count * sz) h;
     case r of
       Blocked t \<Rightarrow> Some (Blocked t, h)
     | Done p \<Rightarrow> (case calloc_clear (count * sz) (p, h) of (p, h) \<Rightarrow> Some (Done p, h))
   }"

definition rt_calloc_resume :: "nat \<Rightarrow> u32 \<Rightarrow> u32 \<Rightarrow> tid \<Rightarrow> hstate \<Rightarrow> (u32 option \<times> hstate) option" where
  "rt_calloc_resume lk count sz t h = map_option (calloc_clear (count * sz)) (rt_malloc_resume lk (count * sz) t h)"

text \<open>Aligned blocks: the pointer that \<^verbatim>\<open>rt_malloc\<close> gave is kept in the word before the aligned address.\<close>

definition align_size :: "u32 \<Rightarrow> u32 \<Rightarrow> u32" where
  "align_size sz align = ((sz + 3) AND NOT 3) + align"

definition place_aligned :: "u32 \<Rightarrow> u32 option \<times> hstate \<Rightarrow> u32 option \<times> hstate" where
  "place_aligned align r = (case r of
      (None, h) \<Rightarrow> (None, h)
    | (Some ptr, h) \<Rightarrow>
        let align_ptr = (if ptr AND (align - 1) = 0 then ptr + align
              else (ptr + (align - 1)) AND NOT (align - 1))
        in (Some align_ptr, h\<lparr>hs_mem := store32 (unat (align_ptr - 4)) ptr (hs_mem h)\<rparr>))"

definition rt_malloc_align :: "nat \<Rightarrow> u32 \<Rightarrow> u32 \<Rightarrow> hstate \<Rightarrow> ((u32 option, tid) outcome \<times> hstate) option" where
  "rt_malloc_align lk sz align h =
    (let align = (align + 3) AND NOT 3
     in do {
       (r, h) \<leftarrow> rt_malloc lk (align_size sz align) h;
       case r of
         Blocked t \<Rightarrow> Some (Blocked t, h)
       | Done p \<Rightarrow> (case place_aligned align (p, h) of (p, h) \<Rightarrow> Some (Done p, h))
     })"

definition rt_malloc_align_resume :: "nat \<Rightarrow> u32 \<Rightarrow> u32 \<Rightarrow> tid \<Rightarrow> hstate \<Rightarrow> (u32 option \<times> hstate) option" where
  "rt_malloc_align_resume lk sz align t h =
    (let align = (align + 3) AND NOT 3
     in map_option (place_aligned align) (rt_malloc_resume lk (align_size sz align) t h))"

text \<open>A null pointer that was stored there is freed as one.\<close>

definition rt_free_align :: "nat \<Rightarrow> u32 \<Rightarrow> hstate \<Rightarrow> ((unit, tid) outcome \<times> hstate) option" where
  "rt_free_align lk ptr h =
    (let real_ptr = load32 (hs_mem h) (unat (ptr - 4))
     in rt_free lk (if real_ptr = 0 then None else Some real_ptr) h)"

definition rt_system_heap_init :: "nat \<Rightarrow> u32 \<Rightarrow> u32 \<Rightarrow> (u32 \<Rightarrow> rt_small_mem_item) \<Rightarrow> hstate \<Rightarrow> hstate option" where
  "rt_system_heap_init lk begin_addr end_addr I h =
    (let begin_align = align_up begin_addr; end_align = align_down end_addr
     in do {
       _ \<leftarrow> kassert (end_align > begin_align);
       (sm, k) \<leftarrow> rt_smem_init [104, 101, 97, 112] begin_addr (end_align - begin_align) I (hs_k h);
       k \<leftarrow> do_heap_lock_init lk k;
       Some (h\<lparr>hs_heap := sm, hs_k := k\<rparr>)
     })"

section \<open>The lock, uncontended\<close>

text \<open>
  \<open>calm\<close>: the context in which \<^verbatim>\<open>rt_malloc\<close> may be called and does not have to wait. Before the scheduler
  runs there is no current thread and no lock is taken; afterwards the caller is a running thread with the
  scheduler unlocked.
\<close>

definition calm :: "nat \<Rightarrow> kstate \<Rightarrow> bool" where
  "calm lk s \<longleftrightarrow> cur s = None \<or>
     (kern_wf s \<and> stacks_ok s \<and> mutex_ok lk s \<and> mx_owner (mutexes s lk) = None \<and> lock_nest s = 0 \<and> int_nest s = 0 \<and>
      ready_group s \<noteq> 0 \<and> (\<exists>t. cur s = Some t \<and> tstat s t = RT_THREAD_RUNNING))"

lemma mutex_all: "m\<lparr>mx_value := a, mx_owner := b, mx_original_priority := c, mx_hold := d\<rparr> =
    \<lparr>mx_value = a, mx_original_priority = c, mx_hold = d, mx_owner = b\<rparr>"
  by (cases m) simp

lemma lock_unlock:
  assumes "calm lk s"
  shows "\<exists>s1 s2. do_heap_lock lk s = Some (Done RT_EOK, s1) \<and> objs s1 = objs s \<and>
    do_heap_unlock lk RT_EOK s1 = Some s2 \<and> calm lk s2 \<and> objs s2 = objs s"
proof (cases "cur s")
  case None
  then show ?thesis by (intro exI[of _ s]) (simp add: do_heap_lock_def do_heap_unlock_def rt_thread_self_def calm_def)
next
  case (Some t)
  then have k: "kern_wf s" "stacks_ok s" "mutex_ok lk s" "mx_owner (mutexes s lk) = None" "lock_nest s = 0" "int_nest s = 0"
    "ready_group s \<noteq> 0" "tstat s t = RT_THREAD_RUNNING" using assms by (auto simp: calm_def)
  have free: "mx_value (mutexes s lk) = 1" "mx_hold (mutexes s lk) = 0" "klists s (Susp lk) = []"
    "rt_object_get_type (Mem lk) s = RT_Object_Class_Mutex"
    using k(3,4) by (simp_all add: mutex_ok_def)
  define s0 where "s0 = upd_thread t (\<lambda>th. th\<lparr>th_error := RT_EOK\<rparr>) s"
  define s1 where "s1 = upd_mutex lk (\<lambda>_. \<lparr>mx_value = 0, mx_original_priority = th_prio (threads s t), mx_hold = 1,
    mx_owner = Some t\<rparr>) s0"
  define s2 where "s2 = upd_mutex lk (\<lambda>_. \<lparr>mx_value = 1, mx_original_priority = 0xff, mx_hold = 0, mx_owner = None\<rparr>) s0"
  have c: "cur s0 = Some t" "lock_nest s0 = 0" "int_nest s0 = 0" "mutexes s0 = mutexes s" "klists s0 = klists s" "objs s0 = objs s"
    "ready_group s0 = ready_group s" "tstat s0 t = tstat s t" "th_prio (threads s0 t) = th_prio (threads s t)"
    using Some k by (simp_all add: s0_def upd_thread_def tstat_def)
  have f: "cur s1 = Some t" "lock_nest s1 = 0" "int_nest s1 = 0" "objs s1 = objs s"
    using c by (simp_all add: s1_def upd_mutex_def)
  have g: "cur s2 = Some t" "lock_nest s2 = 0" "int_nest s2 = 0" "objs s2 = objs s" "ready_group s2 = ready_group s"
    "tstat s2 t = tstat s t" using c by (simp_all add: s2_def upd_mutex_def tstat_def)
  have mx: "mutexes s lk = \<lparr>mx_value = 1, mx_original_priority = mx_original_priority (mutexes s lk), mx_hold = 0, mx_owner = None\<rparr>"
    using free k(4) by simp
  have "do_heap_lock lk s = Some (Done RT_EOK, s1)"
    using Some k free c mx
    by (simp add: do_heap_lock_def rt_mutex_take_def rt_thread_self_def scheduler_available_def in_thread_context_def
        not_in_interrupt_def Let_def s1_def flip: s0_def) (simp add: upd_mutex_def mutex_all)
  moreover have "do_heap_unlock lk RT_EOK s1 = Some s2"
    using f free(3,4) c
    by (simp add: do_heap_unlock_def rt_thread_self_def rt_mutex_release_def in_thread_context_def not_in_interrupt_def
        rt_object_get_type_def restore_def give_up_def Let_def s1_def s2_def) (simp add: upd_mutex_def)
  moreover have "calm lk s2"
  proof -
    have nw: "t \<notin> set (klists s (Susp lk))" using free(3) by simp
    have "mutex_ok lk s0" unfolding s0_def using k(3) nw by (simp add: mutex_ok_error)
    then have "mutex_ok lk s2" using free c k(4) by (simp add: s2_def mutex_ok_def)
    moreover have "kern_wf s2" "stacks_ok s2" using k(1,2) by (simp_all add: s2_def kern_upd_mutex s0_def kern_inv_error)
    moreover have "mx_owner (mutexes s2 lk) = None" by (simp add: s2_def)
    ultimately show ?thesis using g k by (simp add: calm_def)
  qed
  ultimately show ?thesis using f g by blast
qed

text \<open>An operation whose body succeeds and leaves the kernel alone.\<close>

lemma with_lock_done:
  assumes c: "calm lk (hs_k h)" and b: "\<And>k. objs k = objs (hs_k h) \<Longrightarrow> \<exists>h'. body (h\<lparr>hs_k := k\<rparr>) = Some (r, h') \<and> hs_k h' = k \<and> Q h'"
    and q: "\<And>h' k. Q h' \<Longrightarrow> objs k = objs (hs_k h) \<Longrightarrow> Q (h'\<lparr>hs_k := k\<rparr>)"
  shows "\<exists>h'. with_lock lk body h = Some (Done r, h') \<and> calm lk (hs_k h') \<and> objs (hs_k h') = objs (hs_k h) \<and> Q h'"
proof -
  obtain s1 s2 where s: "do_heap_lock lk (hs_k h) = Some (Done RT_EOK, s1)" "objs s1 = objs (hs_k h)"
    "do_heap_unlock lk RT_EOK s1 = Some s2" "calm lk s2" "objs s2 = objs (hs_k h)"
    using lock_unlock[OF c] by blast
  obtain h' where h': "body (h\<lparr>hs_k := s1\<rparr>) = Some (r, h')" "hs_k h' = s1" "Q h'" using b[OF s(2)] by blast
  have "with_lock lk body h = Some (Done r, h'\<lparr>hs_k := s2\<rparr>)" using s h' by (simp add: with_lock_def locked_def)
  then show ?thesis using s(4,5) q[OF h'(3) s(5)] by simp
qed

section \<open>The system heap is an allocator\<close>

definition heap_state :: "nat \<Rightarrow> u32 \<Rightarrow> u32 \<Rightarrow> hstate \<Rightarrow> (u32 \<times> nat) set \<Rightarrow> bool" where
  "heap_state lk b e h L \<longleftrightarrow> calm lk (hs_k h) \<and> (\<exists>sm. hs_heap h = Some sm \<and> smem_state (hs_k h) b e sm L)"

text \<open>A client that never has to wait sees these two operations.\<close>

definition malloc_now :: "nat \<Rightarrow> u32 \<Rightarrow> hstate \<Rightarrow> (u32 option \<times> hstate) option" where
  "malloc_now lk n h = (case rt_malloc lk n h of Some (Done p, h') \<Rightarrow> Some (p, h') | _ \<Rightarrow> None)"

definition free_now :: "nat \<Rightarrow> u32 \<Rightarrow> hstate \<Rightarrow> hstate option" where
  "free_now lk a h = (case rt_free lk (Some a) h of Some (Done _, h') \<Rightarrow> Some h' | _ \<Rightarrow> None)"

lemma object_only:
  assumes "objs k = objs s"
  shows "heap_object a k = heap_object a s" "smem_state k b e sm L = smem_state s b e sm L"
    "rt_smem_alloc k n sm = rt_smem_alloc s n sm" "rt_smem_free k r sm = rt_smem_free s r sm"
    "rt_smem_realloc k r n (sm, m) = rt_smem_realloc s r n (sm, m)"
proof -
  show ob: "heap_object a k = heap_object a s" for a
    using assms by (simp add: heap_object_def rt_object_get_type_def rt_object_is_systemobject_def)
  show "smem_state k b e sm L = smem_state s b e sm L" by (simp add: smem_state_def ob)
  show al: "rt_smem_alloc k n sm = rt_smem_alloc s n sm" for n sm by (simp only: rt_smem_alloc_def ob)
  show fr: "rt_smem_free k r sm = rt_smem_free s r sm" for r sm by (simp only: rt_smem_free_def ob)
  show "rt_smem_realloc k r n (sm, m) = rt_smem_realloc s r n (sm, m)"
    by (simp only: rt_smem_realloc_def ob al fr)
qed

lemma malloc_law:
  assumes "heap_state lk b e h L"
  shows "\<exists>p h'. rt_malloc lk n h = Some (Done p, h') \<and> hs_mem h' = hs_mem h \<and>
    (case p of None \<Rightarrow> heap_state lk b e h' L
     | Some a \<Rightarrow> \<exists>m. asked n \<le> m \<and> a \<notin> fst ` L \<and> heap_state lk b e h' (insert (a, m) L))"
proof -
  obtain sm where sm: "hs_heap h = Some sm" "smem_state (hs_k h) b e sm L" and c: "calm lk (hs_k h)"
    using assms by (auto simp: heap_state_def)
  obtain p sm' where a: "rt_smem_alloc (hs_k h) n sm = Some (p, sm')"
    "case p of None \<Rightarrow> smem_state (hs_k h) b e sm' L
     | Some a \<Rightarrow> \<exists>m. asked n \<le> m \<and> a \<notin> fst ` L \<and> smem_state (hs_k h) b e sm' (insert (a, m) L)"
    using sm.alloc_law[OF sm(2), of n] by blast
  define Q where "Q h' \<longleftrightarrow> hs_heap h' = Some sm' \<and> hs_mem h' = hs_mem h" for h' :: hstate
  have "\<exists>h'. with_lock lk (mem_malloc n) h = Some (Done p, h') \<and> calm lk (hs_k h') \<and> objs (hs_k h') = objs (hs_k h) \<and> Q h'"
    by (rule with_lock_done[OF c]) (simp_all add: Q_def mem_malloc_def sm(1) a(1) object_only)
  then obtain h' where h': "with_lock lk (mem_malloc n) h = Some (Done p, h')" "calm lk (hs_k h')" "objs (hs_k h') = objs (hs_k h)"
    "hs_heap h' = Some sm'" "hs_mem h' = hs_mem h" by (auto simp: Q_def)
  have "heap_state lk b e h' M = smem_state (hs_k h) b e sm' M" for M
    using h'(2,4) object_only(2)[OF h'(3)] by (simp add: heap_state_def)
  then show ?thesis using h'(1,5) a(2) by (intro exI[of _ p] exI[of _ h']) (simp add: rt_malloc_def split: option.splits)
qed

lemma free_law:
  assumes "heap_state lk b e h L" "(a, n) \<in> L"
  shows "\<exists>h'. rt_free lk (Some a) h = Some (Done (), h') \<and> hs_mem h' = hs_mem h \<and> heap_state lk b e h' (L - {(a, n)})"
proof -
  obtain sm where sm: "hs_heap h = Some sm" "smem_state (hs_k h) b e sm L" and c: "calm lk (hs_k h)"
    using assms by (auto simp: heap_state_def)
  obtain sm' where a: "rt_smem_free (hs_k h) (Some a) sm = Some sm'" "smem_state (hs_k h) b e sm' (L - {(a, n)})"
    using sm.release_law[OF sm(2) assms(2)] by blast
  define Q where "Q h' \<longleftrightarrow> hs_heap h' = Some sm' \<and> hs_mem h' = hs_mem h" for h' :: hstate
  have "\<exists>h'. with_lock lk (mem_free (Some a)) h = Some (Done (), h') \<and> calm lk (hs_k h') \<and> objs (hs_k h') = objs (hs_k h) \<and> Q h'"
    by (rule with_lock_done[OF c]) (simp_all add: Q_def mem_free_def sm(1) a(1) object_only)
  then obtain h' where h': "with_lock lk (mem_free (Some a)) h = Some (Done (), h')" "calm lk (hs_k h')"
    "objs (hs_k h') = objs (hs_k h)" "hs_heap h' = Some sm'" "hs_mem h' = hs_mem h" by (auto simp: Q_def)
  have "heap_state lk b e h' M = smem_state (hs_k h) b e sm' M" for M
    using h'(2,4) object_only(2)[OF h'(3)] by (simp add: heap_state_def)
  then show ?thesis using h'(1,5) a(2) by (intro exI[of _ h']) (simp add: rt_free_def)
qed

interpretation heap: allocator "heap_state lk b e" "malloc_now lk" "free_now lk"
proof unfold_locales
  fix h L a n c m w
  assume h: "heap_state lk b e h L"
  then obtain sm where s: "smem_state (hs_k h) b e sm L" by (auto simp: heap_state_def)
  show "(a, n) \<in> L \<Longrightarrow> a \<noteq> 0 \<and> 4 dvd unat a \<and> 4 \<le> n \<and> unat a + n < 4294967296" by (rule sm.inside[OF s])
  show "(a, n) \<in> L \<Longrightarrow> (c, m) \<in> L \<Longrightarrow> (a, n) \<noteq> (c, m) \<Longrightarrow> apart (a, n) (c, m)" by (rule sm.separate[OF s])
  show "\<exists>p h'. malloc_now lk w h = Some (p, h') \<and>
      (case p of None \<Rightarrow> heap_state lk b e h' L | Some a \<Rightarrow> \<exists>m. asked w \<le> m \<and> a \<notin> fst ` L \<and> heap_state lk b e h' (insert (a, m) L))"
    using malloc_law[OF h, of w] by (auto simp: malloc_now_def)
  show "(a, n) \<in> L \<Longrightarrow> \<exists>h'. free_now lk a h = Some h' \<and> heap_state lk b e h' (L - {(a, n)})"
    using free_law[OF h, of a n] by (auto simp: free_now_def)
qed

text \<open>
  C21. Whatever sequence of requests a client of \<^verbatim>\<open>rt_malloc\<close> and \<^verbatim>\<open>rt_free\<close> makes, as long as it frees
  only what it holds, no call trips an assertion or fails to return. Every block it holds is aligned and has room,
  inside the heap, for the number of bytes asked for, rounded up to a multiple of four and to at least twelve (the
  rounding wraps around for the three largest requests of a 32-bit size), these rooms do not overlap, and once it has given back
  everything the heap is one free block again.
\<close>

theorem malloc_clients_safe:
  assumes "heap_state lk b e h {}"
  shows "\<exists>h' H. serve (malloc_now lk) (free_now lk) rs (h, {}) = Some (h', H) \<and>
    (\<forall>(a, n) \<in> H. 4 dvd unat a \<and> unat b \<le> unat a \<and> unat a + asked n \<le> unat e \<and>
       (unat n + 3 < 2 ^ 32 \<longrightarrow> unat n \<le> asked n)) \<and>
    (\<forall>(a, n) \<in> H. \<forall>(c, k) \<in> H. (a, n) \<noteq> (c, k) \<longrightarrow> apart (a, asked n) (c, asked k)) \<and>
    (H = {} \<longrightarrow> (\<exists>sm. hs_heap h' = Some sm \<and> heap_rep sm [(unat e - unat b, False)]))"
proof -
  obtain h' H L where h': "serve (malloc_now lk) (free_now lk) rs (h, {}) = Some (h', H)" "heap_state lk b e h' L" "served L H"
    using heap.serve_holds[OF assms, of "{}" rs] by auto
  obtain sm where sm: "hs_heap h' = Some sm" "smem_holds sm L" "sm_heap_ptr sm = b" "sm_heap_end sm = e"
    using h'(2) by (auto simp: heap_state_def smem_state_def)
  have in_heap: "4 dvd unat a \<and> unat b \<le> unat a \<and> unat a + asked n \<le> unat e" if "(a, n) \<in> H" for a n
  proof -
    obtain m where m: "(a, m) \<in> L" "asked n \<le> m" using h'(3) \<open>(a, n) \<in> H\<close> unfolding served_def by blast
    then show ?thesis using smem_holds_inside(2,5,6)[OF sm(2) m(1)] sm(3,4) by (auto simp: word_le_nat_alt)
  qed
  have ap: "apart (a, asked n) (c, asked k)" if "(a, n) \<in> H" "(c, k) \<in> H" "(a, n) \<noteq> (c, k)" for a n c k
    by (rule heap.served_apart[OF h'(2,3) that])
  have "\<exists>sm. hs_heap h' = Some sm \<and> heap_rep sm [(unat e - unat b, False)]" if "H = {}"
    using that h'(3) sm smem_holds_nothing by auto
  then show ?thesis using h'(1) in_heap ap asked_enough by (intro exI[of _ h'] exI[of _ H]) auto
qed

text \<open>
  C22. \<^verbatim>\<open>rt_realloc\<close> of a block in use: the answer is null only when the request is to free the block or no
  block fits, and then the old block is untouched unless it was to be freed; otherwise the answer is a block at
  least as large as asked for that holds the old contents, up to the smaller of the two sizes, and no other
  block in use is written.
\<close>

theorem realloc_keeps:
  assumes "heap_state lk b e h L" "(a, m) \<in> L" "unat n + 3 < 4294967296"
  shows "\<exists>p h'. rt_realloc lk (Some a) n h = Some (Done p, h') \<and>
    (case p of
       None \<Rightarrow> hs_mem h' = hs_mem h \<and> heap_state lk b e h' (if n = 0 then L - {(a, m)} else L)
     | Some q \<Rightarrow> n \<noteq> 0 \<and> (\<exists>k\<ge>unat n. heap_state lk b e h' (insert (q, k) (L - {(a, m)})) \<and>
         (\<forall>i. i < min m (unat n) \<longrightarrow> hs_mem h' (unat q + i) = hs_mem h (unat a + i)) \<and>
         (\<forall>(c, j) \<in> L - {(a, m)}. \<forall>i<j. hs_mem h' (unat c + i) = hs_mem h (unat c + i))))"
proof -
  obtain sm where sm: "hs_heap h = Some sm" "smem_state (hs_k h) b e sm L" and c: "calm lk (hs_k h)"
    using assms by (auto simp: heap_state_def)
  have hl: "smem_holds sm L" "heap_object (sm_self sm) (hs_k h)" "sm_heap_ptr sm = b" "sm_heap_end sm = e"
    using sm(2) by (simp_all add: smem_state_def)
  obtain p sm' mem' where f: "sm_heap_ptr sm' = b" "sm_self sm' = sm_self sm" "sm_heap_end sm' = e"
    and a: "rt_smem_realloc (hs_k h) (Some a) n (sm, hs_mem h) = Some (p, sm', mem')"
    and cs: "case p of
       None \<Rightarrow> mem' = hs_mem h \<and> (if n = 0 then smem_holds sm' (L - {(a, m)}) else sm' = sm)
     | Some q \<Rightarrow> n \<noteq> 0 \<and> (\<exists>k\<ge>unat n. smem_holds sm' (insert (q, k) (L - {(a, m)})) \<and>
         (\<forall>i. i < min m (unat n) \<longrightarrow> mem' (unat q + i) = hs_mem h (unat a + i)) \<and>
         (\<forall>(c, j) \<in> L - {(a, m)}. \<forall>i<j. mem' (unat c + i) = hs_mem h (unat c + i)))"
    using smem_realloc_rep[OF hl(1,2) assms(2,3), of "hs_mem h"] unfolding hl(3,4) by blast
  define Q where "Q h' \<longleftrightarrow> hs_heap h' = Some sm' \<and> hs_mem h' = mem'" for h' :: hstate
  have "\<exists>h'. with_lock lk (mem_realloc (Some a) n) h = Some (Done p, h') \<and> calm lk (hs_k h') \<and> objs (hs_k h') = objs (hs_k h) \<and> Q h'"
    by (rule with_lock_done[OF c]) (simp_all add: Q_def mem_realloc_def sm(1) a object_only)
  then obtain h' where h': "with_lock lk (mem_realloc (Some a) n) h = Some (Done p, h')" "calm lk (hs_k h')"
    "objs (hs_k h') = objs (hs_k h)" "hs_heap h' = Some sm'" "hs_mem h' = mem'" by (auto simp: Q_def)
  have st: "heap_state lk b e h' M = smem_holds sm' M" for M
    using h'(2,4) object_only(1)[OF h'(3)] hl(2) f by (simp add: heap_state_def smem_state_def)
  show ?thesis
    by (rule exI[of _ p], rule exI[of _ h'])
      (use h'(1,5) cs hl(1) in \<open>auto simp: rt_realloc_def st split: option.splits if_splits\<close>)
qed

section \<open>Cleared and aligned blocks\<close>

text \<open>
  \<^verbatim>\<open>rt_calloc\<close>, when the product of the sizes does not wrap around, answers null or a new block of
  at least that many bytes, which are zero; no other block in use changes.
\<close>

theorem calloc_clears:
  assumes "heap_state lk b e h L" "unat count * unat sz + 3 < 4294967296"
  shows "\<exists>p h'. rt_calloc lk count sz h = Some (Done p, h') \<and>
    (case p of None \<Rightarrow> heap_state lk b e h' L \<and> hs_mem h' = hs_mem h
     | Some a \<Rightarrow> \<exists>m. unat count * unat sz \<le> m \<and> heap_state lk b e h' (insert (a, m) L) \<and>
         (\<forall>i < unat count * unat sz. hs_mem h' (unat a + i) = 0) \<and>
         (\<forall>(c, n) \<in> L. apart (a, m) (c, n) \<and> (\<forall>i<n. hs_mem h' (unat c + i) = hs_mem h (unat c + i))))"
proof -
  have u: "unat (count * sz) = unat count * unat sz" using assms(2) by (simp add: unat_word_ariths(2))
  obtain p h1 where h1: "rt_malloc lk (count * sz) h = Some (Done p, h1)" "hs_mem h1 = hs_mem h"
    "case p of None \<Rightarrow> heap_state lk b e h1 L
     | Some a \<Rightarrow> \<exists>m. asked (count * sz) \<le> m \<and> a \<notin> fst ` L \<and> heap_state lk b e h1 (insert (a, m) L)"
    using malloc_law[OF assms(1)] by blast
  show ?thesis
  proof (cases p)
    case None
    then show ?thesis using h1 by (simp add: rt_calloc_def calloc_clear_def)
  next
    case (Some a)
    then obtain m where m: "asked (count * sz) \<le> m" "a \<notin> fst ` L" "heap_state lk b e h1 (insert (a, m) L)" using h1(3) by auto
    have big: "unat count * unat sz \<le> m" using asked_enough[of "count * sz"] m(1) u assms(2) by simp
    let ?m = "rt_memset (unat a) 0 (unat count * unat sz) (hs_mem h)"
    have ev: "rt_calloc lk count sz h = Some (Done (Some a), h1\<lparr>hs_mem := ?m\<rparr>)"
      using h1 Some by (simp add: rt_calloc_def calloc_clear_def u)
    have st: "heap_state lk b e (h1\<lparr>hs_mem := ?m\<rparr>) (insert (a, m) L)" using m(3) by (simp add: heap_state_def)
    have ap: "apart (a, m) (c, n)" if "(c, n) \<in> L" for c n
      using heap.separate[OF m(3), of a m c n] that m(2) by force
    have z: "?m x = (if unat a \<le> x \<and> x < unat a + unat count * unat sz then 0 else hs_mem h x)" for x
      by (simp add: memset_fill fill_def)
    have "\<forall>(c, n) \<in> L. apart (a, m) (c, n) \<and> (\<forall>i<n. ?m (unat c + i) = hs_mem h (unat c + i))"
      using ap big by (fastforce simp: z apart_def)
    moreover have "\<forall>i < unat count * unat sz. ?m (unat a + i) = 0" by (simp add: z)
    ultimately show ?thesis
      using ev st big by (intro exI[of _ "Some a"] exI[of _ "h1\<lparr>hs_mem := ?m\<rparr>"]) (simp, blast)
  qed
qed

lemma load_store: "load32 (store32 p w m) p = w"
proof -
  have "load32 (store32 p w m) p = ucast (ucast w :: u8) OR push_bit 8 (ucast (ucast (drop_bit 8 w) :: u8)) OR
      push_bit 16 (ucast (ucast (drop_bit 16 w) :: u8)) OR push_bit 24 (ucast (ucast (drop_bit 24 w) :: u8))"
    by (simp add: load32_def store32_def)
  also have "\<dots> = w"
  proof (rule bit_word_eqI)
    fix n
    assume n: "n < LENGTH(32)"
    consider "n < 8" | "8 \<le> n" "n < 16" | "16 \<le> n" "n < 24" | "24 \<le> n" by linarith
    then show "bit (ucast (ucast w :: u8) OR push_bit 8 (ucast (ucast (drop_bit 8 w) :: u8)) OR
      push_bit 16 (ucast (ucast (drop_bit 16 w) :: u8)) OR push_bit 24 (ucast (ucast (drop_bit 24 w) :: u8)) :: u32) n = bit w n"
      using n by cases (auto simp: bit_simps)
  qed
  finally show ?thesis .
qed

lemma and_not_mask: "(w :: u32) AND NOT (mask k) = w - take_bit k w"
proof -
  have "k + (i - k) = i" if "k \<le> i" for i using that by simp
  then have "w AND NOT (mask k) = push_bit k (drop_bit k w)" by (intro bit_word_eqI) (auto simp: bit_simps not_less)
  then show ?thesis using bits_ident[of k w] by (simp add: eq_diff_eq)
qed

lemma unat_take_bit: "unat (take_bit k (w :: u32)) = unat w mod 2 ^ k"
  unfolding unsigned_take_bit_eq by (rule take_bit_eq_mod)

lemma unat_and_not_mask:
  assumes "k < 32"
  shows "unat ((w :: u32) AND NOT (mask k)) = unat w div 2 ^ k * 2 ^ k"
proof -
  have t: "unat (take_bit k w) = unat w mod 2 ^ k" by (rule unat_take_bit)
  then have "unat (w - take_bit k w) = unat w - unat w mod 2 ^ k" by (simp add: unat_sub word_le_nat_alt)
  then show ?thesis by (simp add: and_not_mask minus_mod_eq_div_mult)
qed

lemma unat_two_power: "k < 32 \<Longrightarrow> unat (2 ^ k :: u32) = 2 ^ k"
proof -
  assume "k < 32"
  then have "(2 :: nat) ^ k < 2 ^ 32" by (intro power_strict_increasing) simp_all
  then have "unat (of_nat (2 ^ k) :: u32) = 2 ^ k" by (subst unat_of_nat) (simp add: take_bit_nat_eq_self)
  then show ?thesis by simp
qed

text \<open>Where the aligned pointer lies in the block.\<close>

definition aligned_at :: "nat \<Rightarrow> u32 \<Rightarrow> u32" where
  "aligned_at k a = (if a AND (2 ^ k - 1) = 0 then a + 2 ^ k else (a + (2 ^ k - 1)) AND NOT (2 ^ k - 1))"

lemma aligned_at:
  assumes k: "2 \<le> k" "k < 32" and a: "4 dvd unat a" "unat a + 2 ^ k < 4294967296"
  shows "2 ^ k dvd unat (aligned_at k a)" "unat a + 4 \<le> unat (aligned_at k a)" "unat (aligned_at k a) \<le> unat a + 2 ^ k"
proof -
  let ?n = "unat a"
  have p: "(2 :: nat) ^ k = 4 * 2 ^ (k - 2)" using power_add[of "2 :: nat" 2 "k - 2"] unfolding le_add_diff_inverse[OF k(1)] by simp
  note u = unat_two_power[OF k(2)]
  have m: "(2 ^ k - 1 :: u32) = mask k" by (simp add: mask_eq_exp_minus_1)
  have z: "a AND mask k = 0 \<longleftrightarrow> ?n mod 2 ^ k = 0"
    by (simp add: take_bit_eq_mask[symmetric] word_unat_eq_iff unat_take_bit)
  have "2 ^ k dvd unat (aligned_at k a) \<and> ?n + 4 \<le> unat (aligned_at k a) \<and> unat (aligned_at k a) \<le> ?n + 2 ^ k"
  proof (cases "?n mod 2 ^ k = 0")
    case True
    have "unat (a + 2 ^ k) = ?n + 2 ^ k" using a(2) u by (simp add: unat_word_ariths(1))
    moreover have "4 \<le> (2 :: nat) ^ k" unfolding p by simp
    ultimately show ?thesis using True z by (simp add: aligned_at_def m mod_eq_0_iff_dvd)
  next
    case False
    have "unat (mask k :: u32) = 2 ^ k - 1"
      using u k(2) unfolding m[symmetric] by (subst unat_minus_one) auto
    then have "unat (a + mask k) = ?n + (2 ^ k - 1)" using a(2) by (simp add: unat_word_ariths(1))
    then have q: "unat (aligned_at k a) = (?n + (2 ^ k - 1)) div 2 ^ k * 2 ^ k"
      using False z unat_and_not_mask[OF k(2)] by (simp add: aligned_at_def m)
    define d r where "d = ?n div 2 ^ k" and "r = ?n mod 2 ^ k"
    have n: "?n = d * 2 ^ k + r" unfolding d_def r_def by (rule div_mult_mod_eq[symmetric])
    have r: "0 < r" "r < 2 ^ k" using False by (simp_all add: r_def)
    have "(?n + (2 ^ k - 1)) div 2 ^ k = d + 1"
      using r n by (intro div_nat_eqI) (auto simp: algebra_simps)
    then have e: "unat (aligned_at k a) = d * 2 ^ k + 2 ^ k" using q by (simp add: algebra_simps)
    have "4 dvd d * 2 ^ k" unfolding p by simp
    then have "4 dvd r" using a(1) n by (metis dvd_add_right_iff)
    then have "4 dvd 2 ^ k - r" using p by (simp add: dvd_diff_nat)
    then have "4 \<le> 2 ^ k - r" using r by (intro dvd_imp_le) simp_all
    then show ?thesis using e n r by auto
  qed
  then show "2 ^ k dvd unat (aligned_at k a)" "?n + 4 \<le> unat (aligned_at k a)" "unat (aligned_at k a) \<le> ?n + 2 ^ k" by simp_all
qed

lemma malloc_align_eval:
  assumes k: "2 \<le> k" "k < 32" and w: "unat sz + 2 ^ k + 3 < 4294967296"
  shows "rt_malloc_align lk sz (2 ^ k) h = do {
       (r, h) \<leftarrow> rt_malloc lk (align_size sz (2 ^ k)) h;
       case r of
         Blocked t \<Rightarrow> Some (Blocked t, h)
       | Done p \<Rightarrow> (case place_aligned (2 ^ k) (p, h) of (p, h) \<Rightarrow> Some (Done p, h)) }"
    "unat sz + 2 ^ k \<le> asked (align_size sz (2 ^ k))"
proof -
  have p: "(2 :: nat) ^ k = 4 * 2 ^ (k - 2)" using power_add[of "2 :: nat" 2 "k - 2"] unfolding le_add_diff_inverse[OF k(1)] by simp
  note u = unat_two_power[OF k(2)]
  have m3: "NOT 3 = (- 4 :: u32)" by simp
  have "unat (2 ^ k + 3 :: u32) = 2 ^ k + 3" using w u by (simp add: unat_word_ariths(1))
  then have "unat ((2 ^ k + 3 :: u32) AND - 4) = (2 ^ k + 3) div 4 * 4" by (simp only: unat_and_not_3)
  also have "\<dots> = 2 ^ k" unfolding p by simp
  finally have "(2 ^ k + 3 :: u32) AND - 4 = 2 ^ k" using u by (simp add: word_unat_eq_iff)
  then show "rt_malloc_align lk sz (2 ^ k) h = do {
       (r, h) \<leftarrow> rt_malloc lk (align_size sz (2 ^ k)) h;
       case r of
         Blocked t \<Rightarrow> Some (Blocked t, h)
       | Done p \<Rightarrow> (case place_aligned (2 ^ k) (p, h) of (p, h) \<Rightarrow> Some (Done p, h)) }"
    by (simp add: rt_malloc_align_def Let_def)
  have "unat ((sz + 3) AND - 4) = (unat sz + 3) div 4 * 4"
    using w by (simp add: unat_and_not_3 unat_word_ariths(1))
  moreover have up: "unat sz \<le> (unat sz + 3) div 4 * 4" by simp
  moreover have le: "(unat sz + 3) div 4 * 4 + 2 ^ k + 3 < 4294967296"
  proof -
    have "(unat sz + 3) div 4 * 4 + 2 ^ k \<le> unat sz + 3 + 2 ^ k" by simp
    moreover have "4 dvd (unat sz + 3) div 4 * 4 + 2 ^ k" unfolding p by simp
    then obtain t where t: "(unat sz + 3) div 4 * 4 + 2 ^ k = 4 * t" by (rule dvdE)
    ultimately have "4 * t < 4294967296" using w by linarith
    then show ?thesis unfolding t by simp
  qed
  ultimately have "unat (align_size sz (2 ^ k)) = (unat sz + 3) div 4 * 4 + 2 ^ k"
    using u by (simp add: align_size_def unat_word_ariths(1))
  then show "unat sz + 2 ^ k \<le> asked (align_size sz (2 ^ k))"
    using asked_enough[of "align_size sz (2 ^ k)"] up le by simp
qed

text \<open>
  C23. For an alignment that is a power of two, at least four, \<^verbatim>\<open>rt_malloc_align\<close> answers null or an aligned
  pointer with the asked number of bytes behind it inside one new block, no byte of another block changes, and
  \<^verbatim>\<open>rt_free_align\<close> of that pointer gives exactly this block back.
\<close>

theorem malloc_align_roundtrip:
  assumes st: "heap_state lk b e h L" and k: "2 \<le> k" "k < 32" "unat sz + 2 ^ k + 3 < 4294967296"
  shows "\<exists>p h'. rt_malloc_align lk sz (2 ^ k) h = Some (Done p, h') \<and>
    (case p of None \<Rightarrow> heap_state lk b e h' L \<and> hs_mem h' = hs_mem h
     | Some q \<Rightarrow> 2 ^ k dvd unat q \<and>
         (\<exists>a m. unat a + 4 \<le> unat q \<and> unat q + unat sz \<le> unat a + m \<and> heap_state lk b e h' (insert (a, m) L) \<and>
           (\<forall>(c, n) \<in> L. apart (a, m) (c, n) \<and> (\<forall>i<n. hs_mem h' (unat c + i) = hs_mem h (unat c + i)))) \<and>
         (\<exists>h2. rt_free_align lk q h' = Some (Done (), h2) \<and> heap_state lk b e h2 L))"
proof -
  note ev = malloc_align_eval(1)[OF k, of lk h] malloc_align_eval(2)[OF k]
  obtain p h1 where h1: "rt_malloc lk (align_size sz (2 ^ k)) h = Some (Done p, h1)" "hs_mem h1 = hs_mem h"
    "case p of None \<Rightarrow> heap_state lk b e h1 L
     | Some a \<Rightarrow> \<exists>m. asked (align_size sz (2 ^ k)) \<le> m \<and> a \<notin> fst ` L \<and> heap_state lk b e h1 (insert (a, m) L)"
    using malloc_law[OF st] by blast
  show ?thesis
  proof (cases p)
    case None
    then show ?thesis using h1 ev(1) by (simp add: place_aligned_def)
  next
    case (Some a)
    then obtain m where m: "asked (align_size sz (2 ^ k)) \<le> m" "a \<notin> fst ` L" "heap_state lk b e h1 (insert (a, m) L)"
      using h1(3) by auto
    have big: "unat sz + 2 ^ k \<le> m" using ev(2) m(1) by simp
    note i = heap.inside[OF m(3), of a m, simplified]
    define q where "q = aligned_at k a"
    have "unat a + 2 ^ k < 4294967296" using i big by simp
    from aligned_at[OF k(1,2) _ this] i
    have q: "2 ^ k dvd unat q" "unat a + 4 \<le> unat q" "unat q \<le> unat a + 2 ^ k" by (simp_all add: q_def)
    have q4: "unat (q - 4) = unat q - 4" using q(2) by (simp add: unat_sub word_le_nat_alt)
    let ?m = "store32 (unat (q - 4)) a (hs_mem h)"
    define h2 where "h2 = h1\<lparr>hs_mem := ?m\<rparr>"
    have re: "rt_malloc_align lk sz (2 ^ k) h = Some (Done (Some q), h2)"
      using ev(1) h1(1,2) Some by (simp add: place_aligned_def Let_def h2_def q_def aligned_at_def)
    have s2: "heap_state lk b e h2 (insert (a, m) L)" using m(3) by (simp add: heap_state_def h2_def)
    have ap: "apart (a, m) (c, n)" if "(c, n) \<in> L" for c n
      using heap.separate[OF m(3), of a m c n] that m(2) by force
    have same: "?m (unat c + j) = hs_mem h (unat c + j)" if "(c, n) \<in> L" "j < n" for c n j
      using ap[OF that(1)] that(2) q big by (auto simp: store32_def q4 apart_def)
    have "load32 (hs_mem h2) (unat (q - 4)) = a" by (simp add: h2_def load_store)
    moreover obtain h3 where h3: "rt_free lk (Some a) h2 = Some (Done (), h3)" "heap_state lk b e h3 (insert (a, m) L - {(a, m)})"
      using free_law[OF s2, of a m] by auto
    moreover have "insert (a, m) L - {(a, m)} = L" using m(2) by force
    ultimately have fr: "rt_free_align lk q h2 = Some (Done (), h3)" "heap_state lk b e h3 L"
      using i by (simp_all add: rt_free_align_def)
    have "\<forall>(c, n) \<in> L. apart (a, m) (c, n) \<and> (\<forall>i<n. hs_mem h2 (unat c + i) = hs_mem h (unat c + i))"
      using ap same by (auto simp: h2_def)
    moreover have "unat q + unat sz \<le> unat a + m" using q(3) big by simp
    ultimately show ?thesis using re q s2 fr by (intro exI[of _ "Some q"] exI[of _ h2]) (simp, blast)
  qed
qed

section \<open>Starting the system heap\<close>

lemma init_object_only:
  assumes "cur s = None" "a \<notin> set (containers s ty)" "ty \<in> set container_types"
  shows "\<exists>s'. rt_object_init a ty nm s = Some s' \<and> cur s' = None"
proof -
  have i: "rt_object_get_information ty = Some ty" using assms(3) by (simp add: information_Some)
  have "\<forall>b \<in> set (containers s ty). b \<noteq> a" using assms(2) by auto
  then show ?thesis using assms(1)
    by (simp add: rt_object_init_def i rt_enter_critical_def rt_exit_critical_def Let_def upd_obj_def)
qed

text \<open>
  \<^verbatim>\<open>rt_system_heap_init\<close>, called before the scheduler runs, on a region that leaves 98 bytes between its
  aligned ends: the heap starts empty, inside the region, and its lock is a free mutex.
\<close>

theorem system_heap_init_establishes:
  assumes "cur (hs_k h) = None" "0 < unat begin_addr" "unat begin_addr + 101 \<le> unat (align_down end_addr)"
    and "Mem (unat (align_up begin_addr)) \<notin> set (containers (hs_k h) RT_Object_Class_Memory)"
      "Mem lk \<notin> set (containers (hs_k h) RT_Object_Class_Mutex)" "lk \<noteq> unat (align_up begin_addr)"
  shows "\<exists>h' b e. rt_system_heap_init lk begin_addr end_addr I h = Some h' \<and> heap_state lk b e h' {} \<and>
    mutex_ok lk (hs_k h') \<and> abs_mutex (hs_k h') lk = (None, []) \<and>
    unat begin_addr \<le> unat b \<and> unat e + 12 \<le> unat end_addr"
proof -
  have d: "unat (align_down end_addr) = unat end_addr div 4 * 4" by (rule unat_align_down)
  have e: "unat (align_down end_addr) \<le> unat end_addr" unfolding d by simp
  have lt: "unat end_addr < 4294967296" using unsigned_less[of end_addr] by simp
  have u: "unat (align_up begin_addr) = (unat begin_addr + 3) div 4 * 4" using assms(3) e lt by (simp add: unat_align_up)
  define sz where "sz = align_down end_addr - align_up begin_addr"
  have up: "unat begin_addr \<le> (unat begin_addr + 3) div 4 * 4" "(unat begin_addr + 3) div 4 * 4 \<le> unat begin_addr + 3" by simp_all
  have sz: "unat sz = unat (align_down end_addr) - unat (align_up begin_addr)"
    using assms(3) u up by (simp add: sz_def unat_sub word_le_nat_alt)
  have gt: "align_up begin_addr < align_down end_addr" using assms(3) u up by (simp add: word_less_nat_alt)
  obtain k1 where k1: "rt_object_init (Mem (unat (align_up begin_addr))) RT_Object_Class_Memory [104, 101, 97, 112] (hs_k h) = Some k1" "cur k1 = None"
    using init_object_only[OF assms(1,4)] by (auto simp: container_types_def)
  have a: "begin_addr \<noteq> 0" "unat begin_addr + unat sz < 4294967296" "98 \<le> unat sz"
    using assms(2,3) sz u up e lt by auto
  obtain sm n where sm: "rt_smem_init [104, 101, 97, 112] begin_addr sz I (hs_k h) = Some (Some sm, k1)" "smem_holds sm {}"
    "heap_object (sm_self sm) k1" "unat begin_addr \<le> unat (sm_self sm)" "unat (sm_self sm) + 56 \<le> unat (sm_heap_ptr sm)"
    "unat (sm_heap_end sm) + 12 \<le> unat begin_addr + unat sz"
    using smem_init_rep[OF a k1(1)] by blast
  have self: "sm_self sm = align_up begin_addr"
    using sm(1) by (auto simp: rt_smem_init_def Let_def smem_set_up_def bind_eq_Some_conv split: if_splits)
  have c1: "containers k1 = ll_insert_after RT_Object_Class_Memory (Mem (unat (align_up begin_addr))) (containers (hs_k h))"
    by (rule object_init_eq(4)[OF k1(1)])
  have "Mem lk \<notin> set (containers k1 RT_Object_Class_Mutex)" using assms(5) by (simp add: c1 ll_insert_after_def)
  then obtain k2 where k2: "rt_object_init (Mem lk) RT_Object_Class_Mutex [104, 101, 97, 112] k1 = Some k2" "cur k2 = None"
    using init_object_only[OF k1(2), of "Mem lk" RT_Object_Class_Mutex] by (auto simp: container_types_def)
  define k3 where "k3 = set_flag lk RT_IPC_FLAG_PRIO (upd_mutex lk (\<lambda>_. fresh_mutex) (do_ipc_object_init (Susp lk) k2))"
  have ini: "do_heap_lock_init lk k1 = Some k3" using k2(1) by (simp add: do_heap_lock_init_def rt_mutex_init_def Let_def k3_def)
  have "objs k2 (Mem (unat (sm_self sm))) = objs k1 (Mem (unat (sm_self sm)))"
    using object_init_eq(3)[OF k2(1)] assms(6) self by simp
  then have "objs k3 (Mem (unat (sm_self sm))) = objs k1 (Mem (unat (sm_self sm)))"
    using assms(6) self by (simp add: k3_def set_flag_def upd_obj_def upd_mutex_def do_ipc_object_init_def)
  then have ob: "heap_object (sm_self sm) k3"
    using sm(3) by (simp add: heap_object_def rt_object_get_type_def rt_object_is_systemobject_def)
  have t3: "rt_object_get_type (Mem lk) k3 = RT_Object_Class_Mutex" "oflag (objs k3 (Mem lk)) = RT_IPC_FLAG_PRIO"
    using object_init_eq(3)[OF k2(1)]
    by (simp_all add: k3_def set_flag_def upd_obj_def upd_mutex_def do_ipc_object_init_def rt_object_get_type_def)
  have m3: "klists k3 (Susp lk) = []" "mutexes k3 lk = fresh_mutex" "cur k3 = None"
    using k2(2) by (simp_all add: k3_def set_flag_def upd_obj_def upd_mutex_def do_ipc_object_init_def)
  have "mutex_ok lk k3" "abs_mutex k3 lk = (None, [])" using t3 m3 by (simp_all add: mutex_ok_def abs_mutex_def fresh_mutex_def)
  moreover have "rt_system_heap_init lk begin_addr end_addr I h = Some (h\<lparr>hs_heap := Some sm, hs_k := k3\<rparr>)"
    using gt sm(1) ini by (simp add: rt_system_heap_init_def Let_def flip: sz_def)
  moreover have "heap_state lk (sm_heap_ptr sm) (sm_heap_end sm) (h\<lparr>hs_heap := Some sm, hs_k := k3\<rparr>) {}"
    using sm(2) ob m3(3) by (simp add: heap_state_def smem_state_def calm_def)
  moreover have "unat (sm_heap_end sm) + 12 \<le> unat end_addr" using sm(6) sz u up e assms(3) by simp
  ultimately show ?thesis using sm(4,5) by (intro exI[of _ "h\<lparr>hs_heap := Some sm, hs_k := k3\<rparr>"]
      exI[of _ "sm_heap_ptr sm"] exI[of _ "sm_heap_end sm"]) simp
qed

section \<open>A state to apply the theorems to\<close>

definition hsdemo :: hstate where
  "hsdemo = \<lparr>hs_k = hkdemo, hs_heap = Some hdemo, hs_mem = (\<lambda>x. 0)\<rparr>"

lemma hsdemo_state: "heap_state 7 0x1038 0x142c hsdemo {}"
proof -
  have "smem_holds hdemo {}" using hdemo_rep(1) unfolding smem_holds_def by (intro exI[of _ "[(1012, False)]"]) simp
  moreover have "sm_heap_end hdemo = 0x142c" using hdemo_rep(1,3) by (simp add: heap_rep_def chain_def)
  moreover have "cur hkdemo = None" by (simp add: hkdemo_def upd_obj_def bss_def)
  ultimately show ?thesis
    using hdemo_rep(2,3) hkdemo_object by (simp add: heap_state_def smem_state_def hsdemo_def calm_def)
qed

lemma unlocked_now:
  assumes "cur (hs_k h) = None" "hs_heap h = Some sm"
  shows "rt_smem_alloc (hs_k h) n sm = Some (p, sm') \<Longrightarrow> malloc_now lk n h = Some (p, h\<lparr>hs_heap := Some sm'\<rparr>)"
    "rt_smem_free (hs_k h) (Some a) sm = Some sm' \<Longrightarrow> free_now lk a h = Some (h\<lparr>hs_heap := Some sm'\<rparr>)"
  using assms by (simp_all add: malloc_now_def rt_malloc_def free_now_def rt_free_def with_lock_def do_heap_lock_def
      locked_def do_heap_unlock_def rt_thread_self_def mem_malloc_def mem_free_def)

text \<open>Of two blocks the first is given back, and a smaller one is served in its place.\<close>

lemma hsdemo_serve:
  "\<exists>h'. serve (malloc_now 7) (free_now 7) [Want 100, Want 20, Give 0x1044, Want 8] (hsdemo, {}) =
    Some (h', {(0x1044, 8), (0x10b4, 20)})"
proof -
  have a: "asked 100 = 100" "asked 20 = 20" "asked 8 = 12" by (simp_all add: asked_def)
  have k: "heap_object 0x1000 hkdemo" "cur (hs_k hsdemo) = None" "hs_heap hsdemo = Some hdemo" "hs_k hsdemo = hkdemo"
    using hkdemo_object by (simp_all add: hsdemo_def hkdemo_def upd_obj_def bss_def)
  obtain h1 where h1: "rt_smem_alloc hkdemo 100 hdemo = Some (Some 0x1044, h1)" "heap_rep h1 [(112, True), (900, False)]"
      "sm_heap_ptr h1 = 0x1038" "sm_self h1 = 0x1000"
    using smem_alloc_rep[OF hdemo_rep(1), of hkdemo 100] hkdemo_object hdemo_rep(2,3) by (auto simp: a carved_def)
  obtain h2 where h2: "rt_smem_alloc hkdemo 20 h1 = Some (Some 0x10b4, h2)" "heap_rep h2 [(112, True), (32, True), (868, False)]"
      "sm_heap_ptr h2 = 0x1038" "sm_self h2 = 0x1000"
    using smem_alloc_rep[OF h1(2), of hkdemo 20] k(1) h1(3,4) by (auto simp: a carved_def)
  obtain h3 where h3: "rt_smem_free hkdemo (Some 0x1044) h2 = Some h3" "heap_rep h3 [(112, False), (32, True), (868, False)]"
      "sm_heap_ptr h3 = 0x1038" "sm_self h3 = 0x1000"
    using smem_free_rep[of h2 "[]" 112 "[(32, True), (868, False)]" hkdemo] h2(2-4) k(1) by auto
  obtain h4 where h4: "rt_smem_alloc hkdemo 8 h3 = Some (Some 0x1044, h4)"
    using smem_alloc_rep[OF h3(2), of hkdemo 8] k(1) h3(3,4) by (auto simp: a carved_def)
  have u: "{r. (r = (0x10b4, 20) \<or> r = (0x1044, 100)) \<and> fst r \<noteq> (0x1044 :: u32)} = {(0x10b4 :: u32, 20 :: u32)}" by auto
  have m: "malloc_now 7 100 hsdemo = Some (Some 0x1044, hsdemo\<lparr>hs_heap := Some h1\<rparr>)"
    "malloc_now 7 20 (hsdemo\<lparr>hs_heap := Some h1\<rparr>) = Some (Some 0x10b4, hsdemo\<lparr>hs_heap := Some h2\<rparr>)"
    "free_now 7 0x1044 (hsdemo\<lparr>hs_heap := Some h2\<rparr>) = Some (hsdemo\<lparr>hs_heap := Some h3\<rparr>)"
    "malloc_now 7 8 (hsdemo\<lparr>hs_heap := Some h3\<rparr>) = Some (Some 0x1044, hsdemo\<lparr>hs_heap := Some h4\<rparr>)"
    using unlocked_now(1)[of hsdemo hdemo 100 "Some 0x1044" h1 7]
      unlocked_now(1)[of "hsdemo\<lparr>hs_heap := Some h1\<rparr>" h1 20 "Some 0x10b4" h2 7]
      unlocked_now(2)[of "hsdemo\<lparr>hs_heap := Some h2\<rparr>" h2 "0x1044" h3 7]
      unlocked_now(1)[of "hsdemo\<lparr>hs_heap := Some h3\<rparr>" h3 8 "Some 0x1044" h4 7] k h1(1) h2(1) h3(1) h4 by simp_all
  show ?thesis by (simp add: m u)
qed

theorem malloc_clients_safe_witness:
  "\<exists>h'. serve (malloc_now 7) (free_now 7) [Want 100, Want 20, Give 0x1044, Want 8] (hsdemo, {}) =
      Some (h', {(0x1044, 8), (0x10b4, 20)}) \<and> apart (0x1044, asked 8) (0x10b4, asked 20)"
proof -
  obtain h' H where h': "serve (malloc_now 7) (free_now 7) [Want 100, Want 20, Give 0x1044, Want 8] (hsdemo, {}) = Some (h', H)"
    "\<forall>(a, n) \<in> H. \<forall>(c, k) \<in> H. (a, n) \<noteq> (c, k) \<longrightarrow> apart (a, asked n) (c, asked k)"
    using malloc_clients_safe[OF hsdemo_state, of "[Want 100, Want 20, Give 0x1044, Want 8]"] by (elim exE conjE) (rule that)
  then have "H = {(0x1044, 8), (0x10b4, 20)}" using hsdemo_serve by (elim exE) (simp only: option.inject prod.inject)
  then show ?thesis using h' by auto
qed

theorem realloc_keeps_witness:
  "\<exists>h1 a p h2. malloc_now 7 100 hsdemo = Some (a, h1) \<and> (a \<noteq> None \<longrightarrow> rt_realloc 7 a 200 h1 = Some (Done p, h2))"
proof -
  obtain a h1 where a: "malloc_now 7 100 hsdemo = Some (a, h1)"
    "case a of None \<Rightarrow> True | Some x \<Rightarrow> \<exists>m. heap_state 7 0x1038 0x142c h1 {(x, m)}"
    using heap.alloc_law[OF hsdemo_state, of 100] by (elim exE conjE) (rule that, assumption, auto split: option.splits)
  then show ?thesis
  proof (cases a)
    case (Some x)
    then obtain m where "heap_state 7 0x1038 0x142c h1 {(x, m)}" using a(2) by auto
    from realloc_keeps[OF this, of x m 200] show ?thesis using a(1) Some by auto
  qed auto
qed

theorem calloc_clears_witness: "\<exists>p h'. rt_calloc 7 10 4 hsdemo = Some (Done p, h')"
  using calloc_clears[OF hsdemo_state, of 10 4] by auto

theorem malloc_align_roundtrip_witness: "\<exists>p h'. rt_malloc_align 7 100 (2 ^ 4) hsdemo = Some (Done p, h')"
  using malloc_align_roundtrip[OF hsdemo_state, of 4 100] by auto

theorem system_heap_init_establishes_witness:
  "\<exists>h'. rt_system_heap_init 7 0x1000 0x9000 (\<lambda>a. \<lparr>mi_pool_ptr = 0, mi_next = 0, mi_prev = 0\<rparr>)
    \<lparr>hs_k = bss, hs_heap = None, hs_mem = (\<lambda>x. 0)\<rparr> = Some h' \<and> mutex_ok 7 (hs_k h')"
proof -
  have al: "align_up 0x1000 = 0x1000" "align_down 0x9000 = 0x9000" by (simp_all add: align_up_def align_down_def)
  show ?thesis
    using system_heap_init_establishes[of "\<lparr>hs_k = bss, hs_heap = None, hs_mem = (\<lambda>x. 0)\<rparr>" "0x1000" "0x9000" 7]
    unfolding al by (auto simp: bss_def)
qed

end
