(* ===== verification/MemPool.thy ===== *)
theory MemPool
  imports Mailbox Malloc
begin

text \<open>
  \<^verbatim>\<open>src/mempool.c\<close>: pools of blocks of one size. A free block holds the address of the next free block in
  its header word, a block in use the address of its pool. The free blocks are related to the chain
  through the headers; allocating and freeing are shown on every branch, blocking and waking included,
  and the pool is a second provider of the contract of an allocator.
\<close>

section \<open>Data\<close>

text \<open>
  The object part and the wait list of a pool at address \<open>x\<close> are \<open>Mem x\<close> and \<open>Susp x\<close> of the kernel; \<open>word_at\<close>
  is the memory that holds the headers, \<open>the_errno\<close> the variable \<^verbatim>\<open>__rt_errno\<close>.
\<close>

record rt_mempool =
  mp_start_address :: u32
  mp_size :: u32
  mp_block_size :: u32
  mp_block_list :: u32
  mp_block_total_count :: u32
  mp_block_free_count :: u32

record pstate =
  pk :: kstate
  pools :: "nat \<Rightarrow> rt_mempool"
  word_at :: "u32 \<Rightarrow> u32"
  the_errno :: int

definition upd_pool :: "nat \<Rightarrow> (rt_mempool \<Rightarrow> rt_mempool) \<Rightarrow> pstate \<Rightarrow> pstate" where
  "upd_pool x f p = p\<lparr>pools := (pools p)(x := f (pools p x))\<rparr>"

definition rt_set_errno :: "int \<Rightarrow> pstate \<Rightarrow> pstate" where
  "rt_set_errno e p =
    (if int_nest (pk p) \<noteq> 0 then p\<lparr>the_errno := e\<rparr>
     else case rt_thread_self (pk p) of
       None \<Rightarrow> p\<lparr>the_errno := e\<rparr>
     | Some t \<Rightarrow> p\<lparr>pk := upd_thread t (\<lambda>th. th\<lparr>th_error := e\<rparr>) (pk p)\<rparr>)"

definition rt_get_errno :: "pstate \<Rightarrow> int" where
  "rt_get_errno p =
    (if int_nest (pk p) \<noteq> 0 then the_errno p
     else case rt_thread_self (pk p) of None \<Rightarrow> the_errno p | Some t \<Rightarrow> th_error (threads (pk p) t))"

section \<open>Operations\<close>

text \<open>The loop that links the blocks; \<open>step\<close> is the size of a block with its header.\<close>

fun mp_link :: "nat \<Rightarrow> u32 \<Rightarrow> u32 \<Rightarrow> (u32 \<Rightarrow> u32) \<Rightarrow> u32 \<Rightarrow> u32" where
  "mp_link 0 start step w = w"
| "mp_link (Suc n) start step w = (mp_link n start step w)(start + of_nat n * step := start + (of_nat n + 1) * step)"

definition mp_link_all :: "u32 \<Rightarrow> u32 \<Rightarrow> u32 \<Rightarrow> (u32 \<Rightarrow> u32) \<Rightarrow> u32 \<Rightarrow> u32" where
  "mp_link_all n start step w = (mp_link (unat n) start step w)(start + (n - 1) * step := 0)"

text \<open>A block size whose aligned value leaves no room for the header would divide by zero.\<close>

definition rt_mp_init :: "nat \<Rightarrow> u8 list \<Rightarrow> u32 \<Rightarrow> u32 \<Rightarrow> u32 \<Rightarrow> pstate \<Rightarrow> (int \<times> pstate) option" where
  "rt_mp_init x nm start sz block_size p = do {
     _ \<leftarrow> kassert (start \<noteq> 0);
     _ \<leftarrow> kassert (sz > 0 \<and> block_size > 0);
     k \<leftarrow> rt_object_init (Mem x) RT_Object_Class_MemPool nm (pk p);
     let block_size = align_up block_size;
     _ \<leftarrow> kassert (block_size + 4 \<noteq> 0);
     let n = align_down sz div (block_size + 4);
     let p = upd_pool x (\<lambda>_. \<lparr>mp_start_address = start, mp_size = align_down sz, mp_block_size = block_size,
               mp_block_list = start, mp_block_total_count = n, mp_block_free_count = n\<rparr>) (p\<lparr>pk := k\<rparr>);
     let p = p\<lparr>pk := (pk p)\<lparr>klists := (klists (pk p))(Susp x := [])\<rparr>\<rparr>;
     Some (RT_EOK, p\<lparr>word_at := mp_link_all n start (block_size + 4) (word_at p)\<rparr>)
   }"

definition rt_mp_detach :: "nat \<Rightarrow> pstate \<Rightarrow> (int \<times> pstate) option" where
  "rt_mp_detach x p = do {
     _ \<leftarrow> kassert (rt_object_get_type (Mem x) (pk p) = RT_Object_Class_MemPool);
     _ \<leftarrow> kassert (rt_object_is_systemobject (Mem x) (pk p));
     k \<leftarrow> do_ipc_list_resume_all (Susp x) (pk p);
     Some (RT_EOK, p\<lparr>pk := rt_object_detach (Mem x) k\<rparr>)
   }"

text \<open>\<open>block\<close> and \<open>area\<close> are the allocator's answers for the structure and for the blocks.\<close>

definition rt_mp_create :: "nat option \<Rightarrow> u32 option \<Rightarrow> u8 list \<Rightarrow> u32 \<Rightarrow> u32 \<Rightarrow> pstate \<Rightarrow> (nat option \<times> pstate) option" where
  "rt_mp_create block area nm block_count block_size p = do {
     _ \<leftarrow> kassert (not_in_interrupt (pk p));
     _ \<leftarrow> kassert (block_count > 0 \<and> block_size > 0);
     (r, k) \<leftarrow> rt_object_allocate block RT_Object_Class_MemPool nm (pk p);
     case r of
       None \<Rightarrow> Some (None, p\<lparr>pk := k\<rparr>)
     | Some x \<Rightarrow>
         let block_size = align_up block_size in
         (case area of
            None \<Rightarrow> do { k \<leftarrow> rt_object_delete (Mem x) k; Some (None, p\<lparr>pk := k\<rparr>) }
          | Some start \<Rightarrow>
              let p = upd_pool x (\<lambda>_. \<lparr>mp_start_address = start, mp_size = (block_size + 4) * block_count,
                        mp_block_size = block_size, mp_block_list = start, mp_block_total_count = block_count,
                        mp_block_free_count = block_count\<rparr>) (p\<lparr>pk := k\<lparr>klists := (klists k)(Susp x := [])\<rparr>\<rparr>)
              in Some (Some x, p\<lparr>word_at := mp_link_all block_count start (block_size + 4) (word_at p)\<rparr>))
   }"

text \<open>Deleting gives the area back to the allocator, which is outside of this state.\<close>

definition rt_mp_delete :: "nat \<Rightarrow> pstate \<Rightarrow> (int \<times> pstate) option" where
  "rt_mp_delete x p = do {
     _ \<leftarrow> kassert (not_in_interrupt (pk p));
     _ \<leftarrow> kassert (rt_object_get_type (Mem x) (pk p) = RT_Object_Class_MemPool);
     _ \<leftarrow> kassert (\<not> rt_object_is_systemobject (Mem x) (pk p));
     k \<leftarrow> do_ipc_list_resume_all (Susp x) (pk p);
     k \<leftarrow> rt_object_delete (Mem x) k;
     Some (RT_EOK, p\<lparr>pk := k\<rparr>)
   }"

text \<open>
  \<open>mp_take\<close> is the end of \<^verbatim>\<open>rt_mp_alloc\<close>, after its loop; \<open>mp_wait\<close> puts the caller to sleep: it joins the
  wait list at its head.
\<close>

definition mp_take :: "nat \<Rightarrow> pstate \<Rightarrow> (u32 \<times> pstate) option" where
  "mp_take x p = do {
     let p = upd_pool x (\<lambda>m. m\<lparr>mp_block_free_count := mp_block_free_count m - 1\<rparr>) p;
     let block_ptr = mp_block_list (pools p x);
     _ \<leftarrow> kassert (block_ptr \<noteq> 0);
     let p = upd_pool x (\<lambda>m. m\<lparr>mp_block_list := word_at p block_ptr\<rparr>) p;
     Some (block_ptr + 4, p\<lparr>word_at := (word_at p)(block_ptr := of_nat x)\<rparr>)
   }"

definition mp_wait :: "nat \<Rightarrow> tid \<Rightarrow> int \<Rightarrow> kstate \<Rightarrow> kstate option" where
  "mp_wait x t time s = do {
     let s = upd_thread t (\<lambda>th. th\<lparr>th_error := RT_EOK\<rparr>) s;
     (_, s) \<leftarrow> rt_thread_suspend t s;
     let s = s\<lparr>klists := ll_insert_after (Susp x) t (klists s)\<rparr>;
     if time > 0 then thread_timer_arm t (of_int time) s else Some s
   }"

definition mp_alloc_loop :: "nat \<Rightarrow> tid option \<Rightarrow> int \<Rightarrow> pstate \<Rightarrow> ((u32, tid \<times> int \<times> u32) outcome \<times> pstate) option" where
  "mp_alloc_loop x thr time p =
    (if mp_block_free_count (pools p x) = 0 then
       if time = 0 then Some (Done 0, rt_set_errno (- RT_ETIMEOUT) p)
       else do {
         _ \<leftarrow> kassert (not_in_interrupt (pk p));
         t \<leftarrow> thr;
         k1 \<leftarrow> mp_wait x t time (pk p);
         k2 \<leftarrow> rt_schedule k1;
         Some (Blocked (t, time, rt_tick_get (pk p)), p\<lparr>pk := k2\<rparr>)
       }
     else do { (b, p) \<leftarrow> mp_take x p; Some (Done b, p) })"

definition rt_mp_alloc :: "nat \<Rightarrow> int \<Rightarrow> pstate \<Rightarrow> ((u32, tid \<times> int \<times> u32) outcome \<times> pstate) option" where
  "rt_mp_alloc x time p = mp_alloc_loop x (rt_thread_self (pk p)) time p"

definition rt_mp_alloc_resume :: "nat \<Rightarrow> tid \<times> int \<times> u32 \<Rightarrow> pstate \<Rightarrow> ((u32, tid \<times> int \<times> u32) outcome \<times> pstate) option" where
  "rt_mp_alloc_resume x loc p = (case loc of (t, time, before_sleep) \<Rightarrow>
     if th_error (threads (pk p) t) \<noteq> RT_EOK then Some (Done 0, p)
     else mp_alloc_loop x (Some t) (time_left time before_sleep (pk p)) p)"

definition rt_mp_free :: "u32 \<Rightarrow> pstate \<Rightarrow> pstate option" where
  "rt_mp_free block p =
    (if block = 0 then Some p
     else
       let block_ptr = block - 4;
           x = unat (word_at p block_ptr);
           p = upd_pool x (\<lambda>m. m\<lparr>mp_block_free_count := mp_block_free_count m + 1\<rparr>) p;
           p = p\<lparr>word_at := (word_at p)(block_ptr := mp_block_list (pools p x))\<rparr>;
           p = upd_pool x (\<lambda>m. m\<lparr>mp_block_list := block_ptr\<rparr>) p
       in case klists (pk p) (Susp x) of
            [] \<Rightarrow> Some p
          | t # _ \<Rightarrow> do {
              (_, k) \<leftarrow> rt_thread_resume t (upd_thread t (\<lambda>th. th\<lparr>th_error := RT_EOK\<rparr>) (pk p));
              k \<leftarrow> rt_schedule k;
              Some (p\<lparr>pk := k\<rparr>)
            })"

section \<open>The chain of free blocks\<close>

fun wchain :: "(u32 \<Rightarrow> u32) \<Rightarrow> u32 \<Rightarrow> u32 list \<Rightarrow> bool" where
  "wchain w a [] = (a = 0)"
| "wchain w a (b # bs) = (a = b \<and> b \<noteq> 0 \<and> wchain w (w b) bs)"

lemma wchain_upd [simp]: "b \<notin> set bs \<Longrightarrow> wchain (w(b := v)) a bs = wchain w a bs"
  by (induction w a bs rule: wchain.induct) auto

definition mp_blocks :: "rt_mempool \<Rightarrow> u32 list" where
  "mp_blocks m = map (\<lambda>i. mp_start_address m + of_nat i * (mp_block_size m + 4)) [0..<unat (mp_block_total_count m)]"

text \<open>The pool lies inside the address space and a block holds a word at least.\<close>

definition mp_fits :: "rt_mempool \<Rightarrow> bool" where
  "mp_fits m \<longleftrightarrow> mp_start_address m \<noteq> 0 \<and> 4 \<le> unat (mp_block_size m) \<and> unat (mp_block_size m) + 4 < 4294967296 \<and>
     unat (mp_start_address m) + unat (mp_block_total_count m) * (unat (mp_block_size m) + 4) < 4294967296"

definition pool_rep :: "nat \<Rightarrow> pstate \<Rightarrow> u32 list \<Rightarrow> bool" where
  "pool_rep x p frees \<longleftrightarrow> rt_object_get_type (Mem x) (pk p) = RT_Object_Class_MemPool \<and> x < 4294967296 \<and> mp_fits (pools p x) \<and>
     wchain (word_at p) (mp_block_list (pools p x)) frees \<and> distinct frees \<and> set frees \<subseteq> set (mp_blocks (pools p x)) \<and>
     unat (mp_block_free_count (pools p x)) = length frees \<and>
     (\<forall>b\<in>set (mp_blocks (pools p x)) - set frees. word_at p b = of_nat x)"

lemma block_address:
  assumes f: "mp_fits m" and i: "i < unat (mp_block_total_count m)"
  shows "unat (mp_start_address m + of_nat i * (mp_block_size m + 4)) = unat (mp_start_address m) + i * (unat (mp_block_size m) + 4)"
    "unat (mp_start_address m) + i * (unat (mp_block_size m) + 4) + (unat (mp_block_size m) + 4) < 4294967296"
proof -
  let ?z = "unat (mp_block_size m) + 4"
  have "Suc i * ?z \<le> unat (mp_block_total_count m) * ?z" using i by (intro mult_le_mono1) simp
  then show b: "unat (mp_start_address m) + i * ?z + ?z < 4294967296" using f by (simp add: mp_fits_def)
  have z: "unat (mp_block_size m + 4) = ?z" using f by (simp add: mp_fits_def unat_word_ariths(1))
  have ii: "i < 4294967296" using i unsigned_less[of "mp_block_total_count m", where 'a=nat] by simp
  have "i * ?z < 4294967296" using b by simp
  then have m: "unat (of_nat i * (mp_block_size m + 4)) = i * ?z"
    using z ii by (simp add: unat_word_ariths(2) unat_of_nat)
  show "unat (mp_start_address m + of_nat i * (mp_block_size m + 4)) = unat (mp_start_address m) + i * ?z"
    using m b by (simp add: unat_word_ariths(1))
qed

lemma blocks_memb:
  assumes "b \<in> set (mp_blocks m)"
  obtains i where "i < unat (mp_block_total_count m)" "b = mp_start_address m + of_nat i * (mp_block_size m + 4)"
  using assms by (auto simp: mp_blocks_def)

lemma block_bounds:
  assumes f: "mp_fits m" and b: "b \<in> set (mp_blocks m)"
  shows "b \<noteq> 0" "unat (mp_start_address m) \<le> unat b" "unat (b + 4) = unat b + 4"
    "unat b + 4 + unat (mp_block_size m) \<le> unat (mp_start_address m) + unat (mp_block_total_count m) * (unat (mp_block_size m) + 4)"
proof -
  obtain i where i: "i < unat (mp_block_total_count m)" "b = mp_start_address m + of_nat i * (mp_block_size m + 4)"
    by (rule blocks_memb[OF b])
  let ?z = "unat (mp_block_size m) + 4"
  have u: "unat b = unat (mp_start_address m) + i * ?z" "unat b + ?z < 4294967296"
    using block_address[OF f i(1)] i(2) by simp_all
  have "0 < unat (mp_start_address m)" using f by (simp add: mp_fits_def unat_gt_0)
  then show "b \<noteq> 0" "unat (mp_start_address m) \<le> unat b" using u(1) by auto
  show "unat (b + 4) = unat b + 4" using u(2) by (simp add: unat_word_ariths(1))
  have "Suc i * ?z \<le> unat (mp_block_total_count m) * ?z" using i(1) by (intro mult_le_mono1) simp
  then show "unat b + 4 + unat (mp_block_size m) \<le> unat (mp_start_address m) + unat (mp_block_total_count m) * ?z"
    using u(1) by simp
qed

lemma block_inj:
  assumes f: "mp_fits m" and i: "i < unat (mp_block_total_count m)" "j < unat (mp_block_total_count m)"
    and e: "mp_start_address m + of_nat i * (mp_block_size m + 4) = mp_start_address m + of_nat j * (mp_block_size m + 4)"
  shows "i = j"
proof -
  have "unat (mp_start_address m) + i * (unat (mp_block_size m) + 4) = unat (mp_start_address m) + j * (unat (mp_block_size m) + 4)"
    using block_address(1)[OF f i(1)] block_address(1)[OF f i(2)] unfolding e by simp
  then show "i = j" by simp
qed

lemma distinct_blocks: "mp_fits m \<Longrightarrow> distinct (mp_blocks m)"
  unfolding mp_blocks_def distinct_map by (auto intro!: inj_onI dest: block_inj simp del: add_left_cancel)

section \<open>Taking and giving back\<close>

lemma upd_pool_simps [simp]:
  "pk (upd_pool x f p) = pk p" "word_at (upd_pool x f p) = word_at p" "pools (upd_pool x f p) x = f (pools p x)"
  by (simp_all add: upd_pool_def)

text \<open>A change of the counters and of the chain only.\<close>

definition same_pool :: "rt_mempool \<Rightarrow> rt_mempool \<Rightarrow> bool" where
  "same_pool m m' \<longleftrightarrow> mp_start_address m' = mp_start_address m \<and> mp_block_size m' = mp_block_size m \<and>
     mp_block_total_count m' = mp_block_total_count m"

lemma same_pool_parts: "same_pool m m' \<Longrightarrow> mp_blocks m' = mp_blocks m \<and> mp_fits m' = mp_fits m"
  by (simp add: same_pool_def mp_blocks_def mp_fits_def)

lemma pool_take:
  assumes r: "pool_rep x p (b # frees)"
  shows "\<exists>p'. mp_take x p = Some (b + 4, p') \<and> pool_rep x p' frees \<and> pk p' = pk p \<and> same_pool (pools p x) (pools p' x) \<and>
    word_at p' = (word_at p)(b := of_nat x)"
proof -
  let ?m = "pools p x"
  define m' where "m' = ?m\<lparr>mp_block_free_count := mp_block_free_count ?m - 1, mp_block_list := word_at p b\<rparr>"
  define p' where "p' = upd_pool x (\<lambda>_. m') p\<lparr>word_at := (word_at p)(b := of_nat x)\<rparr>"
  have c: "mp_block_list ?m = b" "b \<noteq> 0" "wchain (word_at p) (word_at p b) frees" "b \<notin> set frees" "distinct frees"
    "unat (mp_block_free_count ?m) = Suc (length frees)"
    using r by (auto simp: pool_rep_def)
  then have n: "unat (mp_block_free_count ?m - 1) = length frees" by (subst unat_minus_one) auto
  have "mp_take x p = Some (b + 4, p')"
    using c(1,2) by (simp add: mp_take_def p'_def m'_def upd_pool_def Let_def)
  moreover have sp: "same_pool ?m m'" by (simp add: same_pool_def m'_def)
  moreover have "pool_rep x p' frees"
    using r c n same_pool_parts[OF sp] by (auto simp: pool_rep_def p'_def m'_def)
  ultimately show ?thesis by (intro exI[of _ p']) (simp add: p'_def)
qed

definition mp_give :: "nat \<Rightarrow> u32 \<Rightarrow> pstate \<Rightarrow> pstate" where
  "mp_give x b p = (let p = upd_pool x (\<lambda>m. m\<lparr>mp_block_free_count := mp_block_free_count m + 1\<rparr>) p;
     p = p\<lparr>word_at := (word_at p)(b := mp_block_list (pools p x))\<rparr>
   in upd_pool x (\<lambda>m. m\<lparr>mp_block_list := b\<rparr>) p)"

lemma pool_give:
  assumes r: "pool_rep x p frees" and b: "b \<in> set (mp_blocks (pools p x)) - set frees"
  shows "pool_rep x (mp_give x b p) (b # frees)" "same_pool (pools p x) (pools (mp_give x b p) x)" "pk (mp_give x b p) = pk p"
    "word_at (mp_give x b p) = (word_at p)(b := mp_block_list (pools p x))"
proof -
  let ?m = "pools p x"
  have f: "mp_fits ?m" and sub: "insert b (set frees) \<subseteq> set (mp_blocks ?m)" and d: "distinct (b # frees)"
    using r b by (auto simp: pool_rep_def)
  have "card (set (b # frees)) \<le> card (set (mp_blocks ?m))" using sub by (intro card_mono) auto
  also have "\<dots> \<le> unat (mp_block_total_count ?m)" using card_length[of "mp_blocks ?m"] by (simp add: mp_blocks_def)
  finally have "Suc (length frees) \<le> unat (mp_block_total_count ?m)" using d by (simp add: distinct_card)
  then have "Suc (length frees) < 4294967296" using unsigned_less[of "mp_block_total_count ?m", where 'a=nat] by simp
  then have n: "unat (mp_block_free_count ?m + 1) = Suc (length frees)" using r by (simp add: pool_rep_def unat_word_ariths(1))
  show sp: "same_pool (pools p x) (pools (mp_give x b p) x)" by (simp add: same_pool_def mp_give_def Let_def upd_pool_def)
  show "pk (mp_give x b p) = pk p" "word_at (mp_give x b p) = (word_at p)(b := mp_block_list (pools p x))"
    by (simp_all add: mp_give_def Let_def upd_pool_def)
  have "b \<noteq> 0" using block_bounds(1)[OF f] b by auto
  then show "pool_rep x (mp_give x b p) (b # frees)"
    using r d n b unfolding pool_rep_def conjunct1[OF same_pool_parts[OF sp]] conjunct2[OF same_pool_parts[OF sp]]
    by (auto simp: mp_give_def Let_def upd_pool_def)
qed

text \<open>Freeing in these terms.\<close>

lemma mp_free_eq:
  assumes r: "pool_rep x p frees" and b: "b \<in> set (mp_blocks (pools p x)) - set frees"
  shows "rt_mp_free (b + 4) p =
    (case klists (pk p) (Susp x) of
       [] \<Rightarrow> Some (mp_give x b p)
     | t # _ \<Rightarrow> do {
         (_, k) \<leftarrow> rt_thread_resume t (upd_thread t (\<lambda>th. th\<lparr>th_error := RT_EOK\<rparr>) (pk p));
         k \<leftarrow> rt_schedule k;
         Some ((mp_give x b p)\<lparr>pk := k\<rparr>)
       })"
proof -
  have f: "mp_fits (pools p x)" "x < 4294967296" "word_at p b = of_nat x" using r b by (auto simp: pool_rep_def)
  have "unat (b + 4) \<noteq> 0" using block_bounds(3)[OF f(1), of b] b by auto
  then have "b + 4 \<noteq> 0" by auto
  moreover have "unat (word_at p b) = x" using f(2,3) by (simp add: unat_of_nat)
  ultimately show ?thesis
    by (simp add: rt_mp_free_def mp_give_def Let_def split: list.split)
qed

text \<open>The initialisation links the blocks in the order of their addresses.\<close>

lemma mp_link_at:
  assumes f: "mp_fits m" and n: "n \<le> unat (mp_block_total_count m)"
  shows "mp_link n (mp_start_address m) (mp_block_size m + 4) w a =
    (if \<exists>i<n. a = mp_start_address m + of_nat i * (mp_block_size m + 4) then a + (mp_block_size m + 4) else w a)"
  using n
proof (induction n)
  case (Suc n)
  let ?st = "mp_block_size m + 4"
  have "(\<exists>i<Suc n. a = mp_start_address m + of_nat i * ?st) \<longleftrightarrow> a = mp_start_address m + of_nat n * ?st \<or> (\<exists>i<n. a = mp_start_address m + of_nat i * ?st)"
    by (auto simp: less_Suc_eq)
  then show ?case using Suc by (auto simp: algebra_simps)
qed simp

lemma wchain_linked:
  assumes f: "mp_fits m" and n: "n \<le> unat (mp_block_total_count m)" "0 < unat (mp_block_total_count m)"
  defines "A \<equiv> \<lambda>i. mp_start_address m + of_nat i * (mp_block_size m + 4)"
  shows "wchain (mp_link_all (mp_block_total_count m) (mp_start_address m) (mp_block_size m + 4) w) (if n = 0 then 0 else A (unat (mp_block_total_count m) - n))
     (map A [unat (mp_block_total_count m) - n..<unat (mp_block_total_count m)])"
proof -
  let ?N = "unat (mp_block_total_count m)" and ?w = "mp_link_all (mp_block_total_count m) (mp_start_address m) (mp_block_size m + 4) w"
  have inj: "A i = A j \<longleftrightarrow> i = j" if "i < ?N" "j < ?N" for i j
    using block_inj[OF f that] unfolding A_def by blast
  have z: "A i \<noteq> 0" if "i < ?N" for i using block_bounds(1)[OF f, of "A i"] that by (auto simp: mp_blocks_def A_def)
  have lst: "mp_start_address m + (mp_block_total_count m - 1) * (mp_block_size m + 4) = A (?N - 1)"
    using n(2) by (simp add: A_def of_nat_diff)
  have w: "?w (A i) = (if i = ?N - 1 then 0 else A (Suc i))" if "i < ?N" for i
  proof -
    have "\<exists>j<?N. A i = mp_start_address m + of_nat j * (mp_block_size m + 4)" using that by (auto simp: A_def)
    then have "mp_link ?N (mp_start_address m) (mp_block_size m + 4) w (A i) = A i + (mp_block_size m + 4)"
      using mp_link_at[OF f order_refl, of w "A i"] by (simp only: if_True)
    moreover have "A i = A (?N - 1) \<longleftrightarrow> i = ?N - 1" using inj[OF that, of "?N - 1"] n(2) by simp
    ultimately have "?w (A i) = (if i = ?N - 1 then 0 else A i + (mp_block_size m + 4))"
      unfolding mp_link_all_def lst by simp
    then show ?thesis by (simp add: A_def algebra_simps)
  qed
  show ?thesis
    using n(1)
  proof (induction n)
    case (Suc n)
    then have i: "?N - Suc n < ?N" "Suc (?N - Suc n) = ?N - n" by simp_all
    have "[?N - Suc n..<?N] = (?N - Suc n) # [?N - n..<?N]" using upt_conv_Cons[OF i(1)] i(2) by simp
    moreover have "?w (A (?N - Suc n)) = (if n = 0 then 0 else A (?N - n))"
      using w[OF i(1)] i(2) Suc.prems by (auto simp: A_def)
    ultimately show ?case using Suc z[OF i(1)] by simp
  qed simp
qed

section \<open>Waiting for a block\<close>

lemma mp_wait_switch:
  assumes k: "kern_wf s" and t: "cur s = Some t" "tstat s t = RT_THREAD_RUNNING" and ok: "stacks_ok s"
    and free: "lock_nest s = 0" "ready_group s \<noteq> 0" and time: "time_ok time"
  shows "\<exists>s1 s'. mp_wait x t time s = Some s1 \<and> rt_schedule s1 = Some s' \<and> kern_wf s' \<and> stacks_ok s' \<and>
    cur s' \<noteq> Some t \<and> tstat s' t = RT_THREAD_SUSPEND \<and> no_kern s' = no_kern (upd_thread t (\<lambda>th. th\<lparr>th_error := RT_EOK\<rparr>) s) \<and>
    klists s' (Susp x) = t # klists s (Susp x) \<and>
    (0 < time \<longrightarrow> tm_timeout_tick (timers s' (TimerOf t)) = tick s + of_int time)"
proof -
  let ?f = "\<lambda>th. th\<lparr>th_error := RT_EOK\<rparr>"
  let ?s = "upd_thread t ?f s"
  have "inert ?f" by (simp add: inert_def stack_check_def)
  note i = inert_upd[OF this]
  have k0: "kern_wf ?s" "stacks_ok ?s" "tstat ?s t = RT_THREAD_RUNNING" using k ok t(2) by (simp_all add: i)
  obtain s1 where s1: "rt_thread_suspend t ?s = Some (RT_EOK, s1)" "kern_wf s1" "cur s1 = Some t"
    "\<And>u. tstat s1 u = (if u = t then RT_THREAD_SUSPEND else tstat ?s u)" "klists s1 = klists ?s"
    using suspend_thread[OF k0(1,3)] by metis
  note n1 = no_kern_suspend[OF s1(1)]
  have ls: "klists ?s = klists s" by (simp add: upd_thread_def)
  let ?L = "ll_insert_after (Susp x) t (klists s1)"
  define s2 where "s2 = s1\<lparr>klists := ?L\<rparr>"
  have unl: "unlinked t (klists s1)" using kern_running(2)[OF k t(2)] s1(5) ls by simp
  have "ll_wf (klists s1)" using s1(2) by (simp add: kern_inv_def sched_inv_def)
  then have "ll_wf ?L" using unl by (rule ll_wf_insert_after)
  then have k2: "kern_wf s2" unfolding s2_def
    by (intro kern_wait_add[OF s1(2) unl, of _ "Susp x"]) (use s1(4) in \<open>auto simp: ll_insert_after_def wait_head_def\<close>)
  have st2: "tstat s2 u = tstat s1 u" for u by (simp add: s2_def tstat_def)
  have "started s1 u \<Longrightarrow> started ?s u" for u using s1(4)[of u] k0(3) by (auto simp: started_def split: if_splits)
  then have "stacks_ok s1" by (rule stacks_ok_cong[OF n1 _ k0(2)])
  then have ok2: "stacks_ok s2" by (simp add: s2_def stacks_ok_def started_def tstat_def)
  have "no_sched s2 = no_sched s1" by (simp add: s2_def no_sched_def)
  then have n2: "no_kern s2 = no_kern ?s" by (rule trans[OF no_kern_sched n1])
  have tk: "tick s2 = tick s" using no_kern_fields(3)[OF n2] by (simp add: upd_thread_def)
  have su: "tstat s2 t = RT_THREAD_SUSPEND" using st2[of t] s1(4)[of t] by simp
  obtain s3 where s3: "(if time > 0 then thread_timer_arm t (of_int time) s2 else Some s2) = Some s3" "kern_wf s3" "stacks_ok s3"
    "threads s3 = threads s2" "klists s3 = klists s2" "cur s3 = cur s2" "no_kern s3 = no_kern s2"
    "0 < time \<longrightarrow> tm_timeout_tick (timers s3 (TimerOf t)) = tick s2 + of_int time"
  proof (cases "0 < time")
    case True
    obtain s3 where s3: "thread_timer_arm t (of_int time) s2 = Some s3" "kern_wf s3" "threads s3 = threads s2"
      "klists s3 = klists s2" "cur s3 = cur s2" "no_kern s3 = no_kern s2" "tm_timeout_tick (timers s3 (TimerOf t)) = tick s2 + of_int time"
      by (rule arm_timer[OF k2 su time_ok_word[OF time True]])
    have "stacks_ok s3" using ok2 s3(3) by (simp add: stacks_ok_def started_def tstat_def)
    then show ?thesis using that[of s3] s3 True by simp
  qed (use that[of s2] k2 ok2 in simp)
  have rd: "klists s3 (Ready q) = klists s (Ready q)" for q using s3(5) s1(5) ls by (simp add: s2_def ll_insert_after_def)
  have g: "ready_group s3 \<noteq> 0" using ready_group_queues[OF k s3(2) rd] free(2) by simp
  have l3: "lock_nest s3 = 0" using no_kern_fields(1)[OF s3(7)] no_kern_fields(1)[OF n2] free(1) by (simp add: upd_thread_def)
  have c3: "cur s3 \<noteq> None" using s3(6) s1(3) by (simp add: s2_def)
  obtain s' where s': "rt_schedule s3 = Some s'" "kern_wf s'" "stacks_ok s'" "no_kern s' = no_kern s3"
    "\<forall>u. tstat s3 u \<notin> {RT_THREAD_READY, RT_THREAD_RUNNING} \<longrightarrow> tstat s' u = tstat s3 u" "\<forall>g. wait_head g \<longrightarrow> klists s' g = klists s3 g"
    using schedule_after[OF s3(2) c3 s3(3)] by blast
  have t3: "tstat s3 t = RT_THREAD_SUSPEND" using threads_same(1)[OF s3(4)] su by simp
  then have t': "tstat s' t = RT_THREAD_SUSPEND" using s'(5) by simp
  then have "cur s' \<noteq> Some t" using schedule_highest[OF kern_wf_sched[OF s3(2)] l3 g s'(1)] by auto
  moreover have "klists s' (Susp x) = t # klists s (Susp x)"
    using s'(6) s3(5) s1(5) ls by (simp add: s2_def ll_insert_after_def wait_head_def)
  moreover have ts: "timers s' = timers s3"
    using no_sched_fields(6)[OF no_sched_schedule[OF s'(1)]] by simp
  moreover have "mp_wait x t time s = Some s3" using s1(1) s3(1) unfolding s2_def by (simp add: mp_wait_def Let_def)
  moreover have "no_kern s' = no_kern ?s" using s'(4) s3(7) n2 by (rule trans[OF _ trans])
  moreover have "0 < time \<longrightarrow> tm_timeout_tick (timers s' (TimerOf t)) = tick s + of_int time" using s3(8) tk ts by simp
  ultimately show ?thesis using s'(1-3) t' by blast
qed

text \<open>What a step of the kernel does not change about the pools.\<close>

lemma pool_rep_kernel:
  "pool_rep x p frees \<Longrightarrow> rt_object_get_type (Mem x) k = rt_object_get_type (Mem x) (pk p) \<Longrightarrow> pool_rep x (p\<lparr>pk := k\<rparr>) frees"
  by (simp add: pool_rep_def)

section \<open>Correctness of the calls\<close>

text \<open>
  C24. \<^verbatim>\<open>rt_mp_alloc\<close>: with a free block it answers the payload of the first one, whose header then names the
  pool, and touches neither the kernel nor another header; without one a zero timeout is refused with a null
  pointer and \<open>-RT_ETIMEOUT\<close> as error number, and any other timeout suspends the caller, first in line
  before the threads that wait already, with its timer armed for a positive one.
\<close>

theorem mp_alloc_refines:
  assumes "kern_wf (pk p)" "stacks_ok (pk p)" "pool_rep x p frees" "cur (pk p) = Some t" "tstat (pk p) t = RT_THREAD_RUNNING"
    and "lock_nest (pk p) = 0" "int_nest (pk p) = 0" "ready_group (pk p) \<noteq> 0" "time_ok time"
  shows "\<exists>out p'. rt_mp_alloc x time p = Some (out, p') \<and> kern_wf (pk p') \<and> stacks_ok (pk p') \<and>
    (case frees of
       b # bs \<Rightarrow> out = Done (b + 4) \<and> pool_rep x p' bs \<and> pk p' = pk p \<and> word_at p' = (word_at p)(b := of_nat x)
     | [] \<Rightarrow> pool_rep x p' [] \<and> word_at p' = word_at p \<and>
         (if time = 0 then out = Done 0 \<and> rt_get_errno p' = - RT_ETIMEOUT \<and> cur (pk p') = Some t
          else out = Blocked (t, time, tick (pk p)) \<and> tstat (pk p') t = RT_THREAD_SUSPEND \<and> cur (pk p') \<noteq> Some t \<and>
            klists (pk p') (Susp x) = t # klists (pk p) (Susp x) \<and>
            (0 < time \<longrightarrow> tm_timeout_tick (timers (pk p') (TimerOf t)) = tick (pk p) + of_int time)))"
proof (cases frees)
  case (Cons b bs)
  obtain p' where p': "mp_take x p = Some (b + 4, p')" "pool_rep x p' bs" "pk p' = pk p" "word_at p' = (word_at p)(b := of_nat x)"
    using pool_take[of x p b bs] assms(3) Cons by auto
  have "mp_block_free_count (pools p x) \<noteq> 0" using assms(3) Cons by (auto simp: pool_rep_def)
  then have "rt_mp_alloc x time p = Some (Done (b + 4), p')" using p'(1) by (simp add: rt_mp_alloc_def mp_alloc_loop_def)
  then show ?thesis using p'(2-4) assms(1,2) Cons by simp
next
  case Nil
  have e: "mp_block_free_count (pools p x) = 0" using assms(3) Nil by (simp add: pool_rep_def unat_eq_0)
  have th: "rt_thread_self (pk p) = Some t" using assms(4) by (simp add: rt_thread_self_def)
  show ?thesis
  proof (cases "time = 0")
    case True
    let ?p = "p\<lparr>pk := upd_thread t (\<lambda>th. th\<lparr>th_error := - RT_ETIMEOUT\<rparr>) (pk p)\<rparr>"
    have "inert (\<lambda>th. th\<lparr>th_error := - RT_ETIMEOUT\<rparr>)" by (simp add: inert_def stack_check_def)
    note i = inert_upd[OF this]
    have "rt_mp_alloc x time p = Some (Done 0, ?p)"
      using e th True assms(7) by (simp add: rt_mp_alloc_def mp_alloc_loop_def rt_set_errno_def)
    moreover have "pool_rep x ?p []" using assms(3) Nil by (intro pool_rep_kernel) simp_all
    moreover have "kern_wf (pk ?p)" "stacks_ok (pk ?p)" using assms(1,2) by (simp_all add: i)
    moreover have "rt_get_errno ?p = - RT_ETIMEOUT" "cur (pk ?p) = Some t"
      using assms(4,7) by (simp_all add: rt_get_errno_def rt_thread_self_def upd_thread_def)
    ultimately show ?thesis using True Nil by (intro exI[of _ "Done 0"] exI[of _ ?p]) simp
  next
    case False
    obtain k1 k2 where w: "mp_wait x t time (pk p) = Some k1" "rt_schedule k1 = Some k2" "kern_wf k2" "stacks_ok k2"
      "cur k2 \<noteq> Some t" "tstat k2 t = RT_THREAD_SUSPEND" "no_kern k2 = no_kern (upd_thread t (\<lambda>th. th\<lparr>th_error := RT_EOK\<rparr>) (pk p))"
      "klists k2 (Susp x) = t # klists (pk p) (Susp x)"
      "0 < time \<longrightarrow> tm_timeout_tick (timers k2 (TimerOf t)) = tick (pk p) + of_int time"
      using mp_wait_switch[OF assms(1,4,5,2,6,8,9)] by blast
    have "rt_object_get_type (Mem x) k2 = rt_object_get_type (Mem x) (pk p)" using no_kern_fields(12)[OF w(7), of "Mem x"] by simp
    then have "pool_rep x (p\<lparr>pk := k2\<rparr>) []" using assms(3) Nil pool_rep_kernel by blast
    moreover have "rt_mp_alloc x time p = Some (Blocked (t, time, tick (pk p)), p\<lparr>pk := k2\<rparr>)"
      using e th False w(1,2) assms(7) by (simp add: rt_mp_alloc_def mp_alloc_loop_def not_in_interrupt_def rt_tick_get_def)
    ultimately show ?thesis
      using w(3-6,8,9) False Nil by (intro exI[of _ "Blocked (t, time, tick (pk p))"] exI[of _ "p\<lparr>pk := k2\<rparr>"]) simp
  qed
qed

lemma mp_free_step:
  assumes k: "kern_wf (pk p)" "stacks_ok (pk p)" "cur (pk p) \<noteq> None" and r: "pool_rep x p frees" and b: "b \<in> set (mp_blocks (pools p x)) - set frees"
  shows "\<exists>p'. rt_mp_free (b + 4) p = Some p' \<and> pool_rep x p' (b # frees) \<and> kern_wf (pk p') \<and> stacks_ok (pk p') \<and> cur (pk p') \<noteq> None \<and>
    same_pool (pools p x) (pools p' x) \<and> (\<forall>a. a \<noteq> b \<longrightarrow> word_at p' a = word_at p a) \<and>
    klists (pk p') (Susp x) = tl (klists (pk p) (Susp x)) \<and>
    (\<forall>w ws. klists (pk p) (Susp x) = w # ws \<longrightarrow>
       tstat (pk p') w \<in> {RT_THREAD_READY, RT_THREAD_RUNNING} \<and> th_error (threads (pk p') w) = RT_EOK)"
proof -
  note g = pool_give[OF r b]
  show ?thesis
  proof (cases "klists (pk p) (Susp x)")
    case Nil
    then have "rt_mp_free (b + 4) p = Some (mp_give x b p)" using mp_free_eq[OF r b] by simp
    then show ?thesis using g k Nil by (intro exI[of _ "mp_give x b p"]) simp
  next
    case (Cons w ws)
    let ?f = "\<lambda>th. th\<lparr>th_error := RT_EOK\<rparr>"
    let ?s = "upd_thread w ?f (pk p)"
    have "inert ?f" by (simp add: inert_def stack_check_def)
    note i = inert_upd[OF this]
    have wh: "wait_head (Susp x)" by (simp add: wait_head_def)
    have k0: "kern_wf ?s" "stacks_ok ?s" using k by (simp_all add: i)
    have q: "w \<in> set (klists ?s (Susp x))" "klists ?s (Susp x) = w # ws" using Cons by (simp_all add: upd_thread_def)
    obtain s1 where s1: "rt_thread_resume w ?s = Some (RT_EOK, s1)" "kern_wf s1" "stacks_ok s1" "cur s1 = cur ?s" "no_kern s1 = no_kern ?s"
      "tstat s1 w \<in> {RT_THREAD_READY, RT_THREAD_RUNNING}"
      "\<forall>g. wait_head g \<longrightarrow> klists s1 g = (if g = Susp x then remove1 w (klists ?s (Susp x)) else klists ?s g)"
      using resume_waiter[OF k0 wh q(1)] by blast
    have c1: "cur s1 \<noteq> None" using s1(4) k(3) by (simp add: upd_thread_def)
    obtain s2 where s2: "rt_schedule s1 = Some s2" "kern_wf s2" "stacks_ok s2" "cur s2 \<noteq> None" "no_kern s2 = no_kern s1"
      "\<forall>u. tstat s1 u \<in> {RT_THREAD_READY, RT_THREAD_RUNNING} \<longrightarrow> tstat s2 u \<in> {RT_THREAD_READY, RT_THREAD_RUNNING}"
      "\<forall>g. wait_head g \<longrightarrow> klists s2 g = klists s1 g"
      using schedule_after[OF s1(2) c1 s1(3)] by blast
    have n: "no_kern s2 = no_kern ?s" by (rule trans[OF s2(5) s1(5)])
    let ?p = "(mp_give x b p)\<lparr>pk := s2\<rparr>"
    have "rt_mp_free (b + 4) p = Some ?p" using mp_free_eq[OF r b] Cons s1(1) s2(1) by simp
    moreover have "pool_rep x ?p (b # frees)"
      using no_kern_fields(12)[OF n, of "Mem x"] g(3) by (intro pool_rep_kernel[OF g(1)]) simp
    moreover have "klists s2 (Susp x) = ws" using s2(7) s1(7) wh q(2) by simp
    moreover have "th_error (threads s2 w) = RT_EOK" using no_kern_thread(2)[OF n, of w] by (simp add: upd_thread_def)
    moreover have "tstat s2 w \<in> {RT_THREAD_READY, RT_THREAD_RUNNING}" using s1(6) s2(6) by blast
    ultimately show ?thesis using s2(2-4) g(2,4) Cons by (intro exI[of _ ?p]) simp
  qed
qed

text \<open>
  \<^verbatim>\<open>rt_mp_free\<close> of a block in use puts it in front of the free blocks, finding its pool through the header,
  and writes no other header; the thread first in line, the last one that began to wait, becomes ready without
  an error, and nobody else leaves the line. The kernel invariant holds again.
\<close>

theorem mp_free_refines:
  assumes "kern_wf (pk p)" "stacks_ok (pk p)" "cur (pk p) \<noteq> None" "pool_rep x p frees" "b \<in> set (mp_blocks (pools p x)) - set frees"
  shows "\<exists>p'. rt_mp_free (b + 4) p = Some p' \<and> pool_rep x p' (b # frees) \<and> kern_wf (pk p') \<and> stacks_ok (pk p') \<and> cur (pk p') \<noteq> None \<and>
    same_pool (pools p x) (pools p' x) \<and> (\<forall>a. a \<noteq> b \<longrightarrow> word_at p' a = word_at p a) \<and>
    klists (pk p') (Susp x) = tl (klists (pk p) (Susp x)) \<and>
    (\<forall>w ws. klists (pk p) (Susp x) = w # ws \<longrightarrow>
       tstat (pk p') w \<in> {RT_THREAD_READY, RT_THREAD_RUNNING} \<and> th_error (threads (pk p') w) = RT_EOK)"
  by (rule mp_free_step[OF assms])

section \<open>The pool is an allocator\<close>

text \<open>
  A client that takes from the pool what fits into one of its blocks and does not wait. The rest of the
  kernel is as it may be between two calls.
\<close>

definition pool_get :: "nat \<Rightarrow> u32 \<Rightarrow> pstate \<Rightarrow> (u32 option \<times> pstate) option" where
  "pool_get x n p =
    (if asked n \<le> unat (mp_block_size (pools p x)) then
       (case rt_mp_alloc x 0 p of
          Some (Done b, p) \<Rightarrow> Some (if b = 0 then None else Some b, p)
        | _ \<Rightarrow> None)
     else Some (None, p))"

definition held :: "rt_mempool \<Rightarrow> u32 list \<Rightarrow> (u32 \<times> nat) set" where
  "held m frees = (\<lambda>b. (b + 4, unat (mp_block_size m))) ` (set (mp_blocks m) - set frees)"

definition pool_state :: "nat \<Rightarrow> rt_mempool \<Rightarrow> pstate \<Rightarrow> (u32 \<times> nat) set \<Rightarrow> bool" where
  "pool_state x m p L \<longleftrightarrow> kern_wf (pk p) \<and> stacks_ok (pk p) \<and> cur (pk p) \<noteq> None \<and> same_pool m (pools p x) \<and>
     4 dvd unat (mp_start_address m) \<and> 4 dvd unat (mp_block_size m) \<and> (\<exists>frees. pool_rep x p frees \<and> L = held m frees)"

lemma held_same: "same_pool m m' \<Longrightarrow> held m' frees = held m frees"
  using same_pool_parts[of m m'] by (simp add: held_def same_pool_def)

lemma blocks_apart:
  assumes f: "mp_fits m" and b: "b \<in> set (mp_blocks m)" "c \<in> set (mp_blocks m)" "b \<noteq> c"
  shows "apart (b + 4, unat (mp_block_size m)) (c + 4, unat (mp_block_size m))"
proof -
  obtain i j where i: "i < unat (mp_block_total_count m)" "b = mp_start_address m + of_nat i * (mp_block_size m + 4)"
    and j: "j < unat (mp_block_total_count m)" "c = mp_start_address m + of_nat j * (mp_block_size m + 4)"
    using b(1,2) by (auto elim!: blocks_memb)
  let ?z = "unat (mp_block_size m) + 4"
  have u: "unat b = unat (mp_start_address m) + i * ?z" "unat c = unat (mp_start_address m) + j * ?z"
    using block_address(1)[OF f i(1)] block_address(1)[OF f j(1)] i(2) j(2) by simp_all
  have "i \<noteq> j" using b(3) i(2) j(2) by auto
  then have "Suc i * ?z \<le> j * ?z \<or> Suc j * ?z \<le> i * ?z" by (metis Suc_leI linorder_neqE_nat mult_le_mono1)
  then show ?thesis using u block_bounds(3)[OF f b(1)] block_bounds(3)[OF f b(2)] by (auto simp: apart_def)
qed

lemma held_take: "b \<in> set (mp_blocks m) \<Longrightarrow> b \<notin> set frees \<Longrightarrow> held m frees = insert (b + 4, unat (mp_block_size m)) (held m (b # frees))"
  by (auto simp: held_def)

lemma held_give: "b \<in> set (mp_blocks m) \<Longrightarrow> b \<notin> set frees \<Longrightarrow> held m frees - {(b + 4, unat (mp_block_size m))} = held m (b # frees)"
  by (auto simp: held_def)

lemma pool_get_law:
  assumes st: "pool_state x m p L"
  shows "\<exists>r p'. pool_get x w p = Some (r, p') \<and>
    (case r of None \<Rightarrow> pool_state x m p' L | Some a \<Rightarrow> \<exists>n. asked w \<le> n \<and> a \<notin> fst ` L \<and> pool_state x m p' (insert (a, n) L))"
proof -
  obtain frees where r: "pool_rep x p frees" and L: "L = held m frees" using st by (auto simp: pool_state_def)
  have sm: "same_pool m (pools p x)" and k: "kern_wf (pk p)" "stacks_ok (pk p)" "cur (pk p) \<noteq> None" using st by (simp_all add: pool_state_def)
  have f: "mp_fits m" and bl: "mp_blocks (pools p x) = mp_blocks m" using r same_pool_parts[OF sm] by (simp_all add: pool_rep_def)
  have sz: "mp_block_size (pools p x) = mp_block_size m" using sm by (simp add: same_pool_def)
  show ?thesis
  proof (cases "asked w \<le> unat (mp_block_size m)")
    case False
    then show ?thesis using st sz by (simp add: pool_get_def)
  next
    case fit: True
    show ?thesis
    proof (cases frees)
      case Nil
      obtain t where t: "cur (pk p) = Some t" using k(3) by blast
      have e: "mp_block_free_count (pools p x) = 0" using r Nil by (simp add: pool_rep_def unat_eq_0)
      have "inert (\<lambda>th. th\<lparr>th_error := - RT_ETIMEOUT\<rparr>)" by (simp add: inert_def stack_check_def)
      note i = inert_upd[OF this]
      let ?p = "rt_set_errno (- RT_ETIMEOUT) p"
      have "kern_wf (pk ?p)" "stacks_ok (pk ?p)" "cur (pk ?p) \<noteq> None" "pools ?p = pools p" "pool_rep x ?p frees"
        using k r t i by (auto simp: rt_set_errno_def rt_thread_self_def pool_rep_def)
      then have "pool_state x m ?p L" using st r L unfolding pool_state_def by auto
      moreover have "pool_get x w p = Some (None, ?p)"
        using fit sz e by (simp add: pool_get_def rt_mp_alloc_def mp_alloc_loop_def)
      ultimately show ?thesis by simp
    next
      case (Cons b bs)
      obtain p' where p': "mp_take x p = Some (b + 4, p')" "pool_rep x p' bs" "pk p' = pk p" "same_pool (pools p x) (pools p' x)"
        using pool_take[of x p b bs] r Cons by auto
      have b: "b \<in> set (mp_blocks m)" "b \<notin> set bs" using r Cons bl by (auto simp: pool_rep_def)
      have "mp_block_free_count (pools p x) \<noteq> 0" using r Cons by (auto simp: pool_rep_def)
      then have "rt_mp_alloc x 0 p = Some (Done (b + 4), p')" using p'(1) by (simp add: rt_mp_alloc_def mp_alloc_loop_def)
      moreover have "unat (b + 4) \<noteq> 0" using block_bounds(3)[OF f b(1)] by simp
      ultimately have g: "pool_get x w p = Some (Some (b + 4), p')" using fit sz by (auto simp: pool_get_def)
      have "same_pool m (pools p' x)" using sm p'(4) by (simp add: same_pool_def)
      then have "pool_state x m p' (insert (b + 4, unat (mp_block_size m)) L)"
        using st p'(2,3) held_take[OF b] L Cons unfolding pool_state_def by auto
      moreover have "b + 4 \<notin> fst ` L" using L Cons by (auto simp: held_def)
      ultimately show ?thesis using g fit by auto
    qed
  qed
qed

lemma pool_free_law:
  assumes st: "pool_state x m p L" and a: "(a, n) \<in> L"
  shows "\<exists>p'. rt_mp_free a p = Some p' \<and> pool_state x m p' (L - {(a, n)})"
proof -
  obtain frees where r: "pool_rep x p frees" and L: "L = held m frees" using st by (auto simp: pool_state_def)
  have sm: "same_pool m (pools p x)" and k: "kern_wf (pk p)" "stacks_ok (pk p)" "cur (pk p) \<noteq> None" using st by (simp_all add: pool_state_def)
  have bl: "mp_blocks (pools p x) = mp_blocks m" using same_pool_parts[OF sm] by simp
  obtain b where b: "a = b + 4" "n = unat (mp_block_size m)" "b \<in> set (mp_blocks m) - set frees" using a L by (auto simp: held_def)
  have b': "b \<in> set (mp_blocks (pools p x)) - set frees" using b(3) bl by simp
  obtain p' where p': "rt_mp_free (b + 4) p = Some p'" "pool_rep x p' (b # frees)" "kern_wf (pk p')" "stacks_ok (pk p')" "cur (pk p') \<noteq> None"
    "same_pool (pools p x) (pools p' x)"
    using mp_free_step[OF k r b'] by blast
  have "same_pool m (pools p' x)" using sm p'(6) by (simp add: same_pool_def)
  moreover have "L - {(a, n)} = held m (b # frees)" using held_give[of b m frees] b L by simp
  ultimately have "pool_state x m p' (L - {(a, n)})" using st p'(2-5) unfolding pool_state_def by blast
  then show ?thesis using p'(1) b(1) by blast
qed

interpretation pool: allocator "pool_state x m" "pool_get x" rt_mp_free for x m
proof
  fix p L a n b k w
  assume st: "pool_state x m p L"
  obtain frees where r: "pool_rep x p frees" and L: "L = held m frees" using st by (auto simp: pool_state_def)
  have f: "mp_fits m" using r st same_pool_parts[of m "pools p x"] by (simp add: pool_rep_def pool_state_def)
  have al: "4 dvd unat (mp_start_address m)" "4 dvd unat (mp_block_size m)" using st by (simp_all add: pool_state_def)
  show "a \<noteq> 0 \<and> 4 dvd unat a \<and> 4 \<le> n \<and> unat a + n < 4294967296" if i: "(a, n) \<in> L"
  proof -
    obtain c where c: "c \<in> set (mp_blocks m)" "a = c + 4" "n = unat (mp_block_size m)" using i L by (auto simp: held_def)
    obtain j where j: "j < unat (mp_block_total_count m)" "c = mp_start_address m + of_nat j * (mp_block_size m + 4)"
      by (rule blocks_memb[OF c(1)])
    have u: "unat a = unat (mp_start_address m) + j * (unat (mp_block_size m) + 4) + 4"
      using block_bounds(3)[OF f c(1)] block_address(1)[OF f j(1)] c(2) j(2) by simp
    then have "4 dvd unat a" using al by simp
    moreover have "a \<noteq> 0" using u by auto
    moreover have "unat a + n < 4294967296" using u block_address(2)[OF f j(1)] c(3) by simp
    ultimately show ?thesis using c(3) f by (simp add: mp_fits_def)
  qed
  show "apart (a, n) (b, k)" if i: "(a, n) \<in> L" "(b, k) \<in> L" "(a, n) \<noteq> (b, k)"
    using i L blocks_apart[OF f] by (auto simp: held_def)
  show "\<exists>r p'. pool_get x w p = Some (r, p') \<and>
      (case r of None \<Rightarrow> pool_state x m p' L | Some a \<Rightarrow> \<exists>n. asked w \<le> n \<and> a \<notin> fst ` L \<and> pool_state x m p' (insert (a, n) L))"
    by (rule pool_get_law[OF st])
  show "\<exists>p'. rt_mp_free a p = Some p' \<and> pool_state x m p' (L - {(a, n)})" if "(a, n) \<in> L"
    by (rule pool_free_law[OF st that])
qed

text \<open>
  C25. Whatever sequence of requests a client makes of a pool it does not wait for, as long as it gives back only what it
  holds, no call fails. Every address it holds is that of a whole block, aligned, inside the pool and at least as large
  as asked for; blocks of the pool's size at two addresses it holds never overlap; and nothing leaks: the blocks of
  the pool are those it holds and those on the free list, so once it has given everything back every block is free again.
\<close>

theorem pool_clients_safe:
  assumes "pool_state x m p {}"
  shows "\<exists>p' H. serve (pool_get x) rt_mp_free rs (p, {}) = Some (p', H) \<and>
    (\<forall>(a, n)\<in>H. 4 dvd unat a \<and> unat (mp_start_address m) + 4 \<le> unat a \<and> asked n \<le> unat (mp_block_size m) \<and>
       unat a + unat (mp_block_size m) \<le> unat (mp_start_address m) + unat (mp_block_total_count m) * (unat (mp_block_size m) + 4)) \<and>
    (\<forall>(a, n)\<in>H. \<forall>(c, k)\<in>H. (a, n) \<noteq> (c, k) \<longrightarrow> apart (a, unat (mp_block_size m)) (c, unat (mp_block_size m))) \<and>
    (\<exists>frees. pool_rep x p' frees \<and> fst ` H = (\<lambda>b. b + 4) ` (set (mp_blocks m) - set frees))"
proof -
  obtain p' H L where p': "serve (pool_get x) rt_mp_free rs (p, {}) = Some (p', H)" "pool_state x m p' L" "served L H"
    using pool.serve_holds[OF assms, of "{}" rs] by auto
  obtain frees where r: "pool_rep x p' frees" "L = held m frees" using p'(2) by (auto simp: pool_state_def)
  have f: "mp_fits m" using r p'(2) same_pool_parts[of m "pools p' x"] by (simp add: pool_rep_def pool_state_def)
  have sv: "fst ` H = fst ` L" "inj_on fst H" "\<And>a n. (a, n) \<in> H \<Longrightarrow> \<exists>k. (a, k) \<in> L \<and> asked n \<le> k"
    using p'(3) by (auto simp: served_def)
  have L: "(a, unat (mp_block_size m)) \<in> L \<and> asked n \<le> unat (mp_block_size m)" if "(a, n) \<in> H" for a n
    using sv(3)[OF that] r(2) by (auto simp: held_def)
  have in_pool: "4 dvd unat a \<and> unat (mp_start_address m) + 4 \<le> unat a \<and>
      unat a + unat (mp_block_size m) \<le> unat (mp_start_address m) + unat (mp_block_total_count m) * (unat (mp_block_size m) + 4)"
    if i: "(a, n) \<in> H" for a n
  proof -
    obtain b where b: "b \<in> set (mp_blocks m)" "a = b + 4" using L[OF i] r(2) by (auto simp: held_def)
    have "4 dvd unat a" using pool.inside[OF p'(2)] L[OF i] by blast
    then show ?thesis using block_bounds[OF f b(1)] b(2) by simp
  qed
  have ap: "apart (a, unat (mp_block_size m)) (c, unat (mp_block_size m))" if i: "(a, n) \<in> H" "(c, k) \<in> H" "(a, n) \<noteq> (c, k)" for a n c k
  proof -
    have "a \<noteq> c" using inj_onD[OF sv(2), of "(a, n)" "(c, k)"] i by auto
    then show ?thesis using pool.separate[OF p'(2)] L[OF i(1)] L[OF i(2)] by auto
  qed
  have "fst ` H = (\<lambda>b. b + 4) ` (set (mp_blocks m) - set frees)" unfolding sv(1) r(2) held_def by (simp add: image_image)
  then show ?thesis using p'(1) r(1) L in_pool ap by (intro exI[of _ p'] exI[of _ H]) auto
qed

text \<open>
  A fresh pool: every block is free, in the order of the addresses, and the blocks lie inside the area.
\<close>

theorem mp_init_establishes:
  assumes "start \<noteq> 0" "0 < bs" "unat bs + 7 < 4294967296" "unat start + unat sz < 4294967296"
    and room: "unat (align_up bs) + 4 \<le> unat (align_down sz)" and x: "x < 4294967296"
    and k: "rt_object_init (Mem x) RT_Object_Class_MemPool nm (pk p) = Some k"
  shows "\<exists>p'. rt_mp_init x nm start sz bs p = Some (RT_EOK, p') \<and> pool_rep x p' (mp_blocks (pools p' x)) \<and>
    mp_start_address (pools p' x) = start \<and> mp_block_size (pools p' x) = align_up bs \<and>
    unat (mp_block_total_count (pools p' x)) = unat (align_down sz) div (unat (align_up bs) + 4)"
proof -
  let ?z = "align_up bs" and ?n = "align_down sz div (align_up bs + 4)"
  define m where "m = \<lparr>mp_start_address = start, mp_size = align_down sz, mp_block_size = ?z, mp_block_list = start,
    mp_block_total_count = ?n, mp_block_free_count = ?n\<rparr>"
  define p' where "p' = (upd_pool x (\<lambda>_. m) p)\<lparr>pk := k\<lparr>klists := (klists k)(Susp x := [])\<rparr>, word_at := mp_link_all ?n start (?z + 4) (word_at p)\<rparr>"
  have uz: "unat ?z = (unat bs + 3) div 4 * 4" using unat_align_up[of bs] assms(3) by simp
  have "0 < unat bs" using assms(2) by (simp add: word_less_nat_alt)
  then have z4: "4 \<le> unat ?z" "unat ?z + 4 < 4294967296" using uz assms(3) by simp_all
  have z: "unat (?z + 4) = unat ?z + 4" using z4(2) by (simp add: unat_word_ariths(1))
  then have nz: "?z + 4 \<noteq> 0" by auto
  have n: "unat ?n = unat (align_down sz) div (unat ?z + 4)" using z by (simp add: unat_div)
  have "unat ?n * (unat ?z + 4) \<le> unat (align_down sz)" unfolding n by simp
  moreover have "unat (align_down sz) \<le> unat sz" unfolding unat_align_down by simp
  ultimately have fits: "mp_fits m" using assms(1,4) z4 by (simp add: mp_fits_def m_def)
  have "0 < unat ?n" unfolding n using room by (simp add: div_greater_zero_iff)
  then have n0: "0 < unat (mp_block_total_count m)" by (simp add: m_def)
  have sz0: "0 < sz" using room z4(1) unfolding unat_align_down by (auto simp: word_less_nat_alt)
  have init: "rt_mp_init x nm start sz bs p = Some (RT_EOK, p')"
    using assms(1,2) k nz sz0 by (simp add: rt_mp_init_def p'_def m_def upd_pool_def Let_def)
  have "mp_blocks m \<noteq> []" using n0 by (simp add: mp_blocks_def)
  have ch: "wchain (word_at p') start (mp_blocks m)"
    using wchain_linked[OF fits order_refl n0, of "word_at p"] n0 by (simp add: p'_def m_def mp_blocks_def)
  have "rt_object_get_type (Mem x) k = RT_Object_Class_MemPool"
    using object_init_eq(3)[OF k] by (simp add: rt_object_get_type_def)
  then have "pool_rep x p' (mp_blocks m)"
    using ch fits distinct_blocks[OF fits] x
    unfolding pool_rep_def by (simp add: p'_def rt_object_get_type_def) (simp add: m_def mp_blocks_def)
  then show ?thesis using init n by (intro exI[of _ p']) (simp add: p'_def m_def)
qed

text \<open>
  An area too small for a block gives a pool of none, and the initialisation writes a null word below the area.
\<close>

lemma mp_init_below:
  assumes "start \<noteq> 0" "0 < bs" "0 < sz" "align_up bs + 4 \<noteq> 0" "align_down sz < align_up bs + 4"
    and k: "rt_object_init (Mem x) RT_Object_Class_MemPool nm (pk p) = Some k"
  shows "\<exists>p'. rt_mp_init x nm start sz bs p = Some (RT_EOK, p') \<and> mp_block_total_count (pools p' x) = 0 \<and>
    word_at p' (start - (align_up bs + 4)) = 0"
proof -
  have "align_down sz div (align_up bs + 4) = 0" using assms(5) by (simp add: word_arith_nat_div word_less_nat_alt)
  then show ?thesis using assms by (simp add: rt_mp_init_def Let_def mp_link_all_def upd_pool_def)
qed

section \<open>A concrete pool\<close>

definition demo_pool :: rt_mempool where
  "demo_pool = \<lparr>mp_start_address = 0x2000, mp_size = 32, mp_block_size = 12, mp_block_list = 0x2000,
     mp_block_total_count = 2, mp_block_free_count = 2\<rparr>"

definition pdemo :: pstate where
  "pdemo = \<lparr>pk = idemo\<lparr>objs := (objs idemo)(Mem 40 := \<lparr>oname = [], otype = 0x88, oflag = 0\<rparr>)\<rparr>,
     pools = (\<lambda>_. demo_pool), word_at = mp_link_all 2 0x2000 16 (\<lambda>_. 0), the_errno = 0\<rparr>"

lemma pdemo_state:
  "kern_wf (pk pdemo)" "stacks_ok (pk pdemo)" "cur (pk pdemo) = Some 2" "tstat (pk pdemo) 2 = RT_THREAD_RUNNING"
  "lock_nest (pk pdemo) = 0" "int_nest (pk pdemo) = 0" "ready_group (pk pdemo) \<noteq> 0" "klists (pk pdemo) (Susp 40) = []"
proof -
  let ?o = "\<lparr>oname = [], otype = 0x88, oflag = 0\<rparr>"
  have ty: "rt_object_get_type (Mem 40) idemo = 0" by (simp add: idemo_def rt_object_get_type_def kdemo_def)
  show "kern_wf (pk pdemo)" using kern_upd_obj[OF idemo_wf, of 40 ?o] ty by (simp add: pdemo_def)
  have st: "tstat (pk pdemo) u = tstat idemo u" for u by (simp add: pdemo_def tstat_def)
  show "stacks_ok (pk pdemo)" using idemo_stacks by (simp add: stacks_ok_def started_def st) (simp add: pdemo_def)
  show "tstat (pk pdemo) 2 = RT_THREAD_RUNNING" using st by simp
qed (simp_all add: pdemo_def)

lemma pdemo_pool: "pool_rep 40 pdemo [0x2000, 0x2010]"
proof -
  have f: "mp_fits demo_pool" by (simp add: mp_fits_def demo_pool_def)
  have b: "mp_blocks demo_pool = [0x2000, 0x2010]" by (simp add: mp_blocks_def demo_pool_def upt_conv_Cons)
  have "wchain (word_at pdemo) 0x2000 [0x2000, 0x2010]"
    using wchain_linked[OF f order_refl, of "\<lambda>_. 0"] b by (simp add: pdemo_def demo_pool_def mp_blocks_def)
  then show ?thesis
    using f b unfolding pool_rep_def by (simp add: pdemo_def rt_object_get_type_def) (simp add: demo_pool_def)
qed

theorem mp_alloc_refines_witness:
  "\<exists>p'. rt_mp_alloc 40 0 pdemo = Some (Done 0x2004, p') \<and> pool_rep 40 p' [0x2010]"
proof -
  have t: "time_ok 0" by (simp add: time_ok_def)
  show ?thesis using mp_alloc_refines[OF pdemo_state(1,2) pdemo_pool pdemo_state(3-7) t] by auto
qed

theorem mp_free_refines_witness:
  "\<exists>p1 p2. rt_mp_alloc 40 0 pdemo = Some (Done 0x2004, p1) \<and> rt_mp_free 0x2004 p1 = Some p2 \<and> pool_rep 40 p2 [0x2000, 0x2010]"
proof -
  obtain p1 where p1: "mp_take 40 pdemo = Some (0x2004, p1)" "pool_rep 40 p1 [0x2010]" "pk p1 = pk pdemo" "same_pool (pools pdemo 40) (pools p1 40)"
    using pool_take[OF pdemo_pool] by auto
  have a: "rt_mp_alloc 40 0 pdemo = Some (Done 0x2004, p1)"
    using p1(1) by (simp add: rt_mp_alloc_def mp_alloc_loop_def) (simp add: pdemo_def demo_pool_def)
  have "mp_blocks (pools p1 40) = [0x2000, 0x2010]"
    using same_pool_parts[OF p1(4)] by (simp add: pdemo_def demo_pool_def mp_blocks_def upt_conv_Cons)
  then have b: "0x2000 \<in> set (mp_blocks (pools p1 40)) - set [0x2010 :: u32]" by simp
  have k: "kern_wf (pk p1)" "stacks_ok (pk p1)" "cur (pk p1) \<noteq> None" using p1(3) pdemo_state(1-3) by simp_all
  show ?thesis using mp_free_refines[OF k p1(2) b] a by auto
qed

lemma pdemo_serve:
  "\<exists>p'. serve (pool_get 40) rt_mp_free [Want 12, Want 4, Want 8, Want 40] (pdemo, {}) = Some (p', {(0x2004, 12), (0x2014, 4)})"
proof -
  have a: "asked 12 = 12" "asked 4 = 12" "asked 8 = 12" "asked 40 = 40" by (simp_all add: asked_def)
  have s0: "mp_block_size (pools pdemo 40) = 12" "mp_block_free_count (pools pdemo 40) = 2" by (simp_all add: pdemo_def demo_pool_def)
  obtain p1 where p1: "mp_take 40 pdemo = Some (0x2004, p1)" "pool_rep 40 p1 [0x2010]" "same_pool (pools pdemo 40) (pools p1 40)"
    using pool_take[OF pdemo_pool] by auto
  obtain p2 where p2: "mp_take 40 p1 = Some (0x2014, p2)" "pool_rep 40 p2 []" "same_pool (pools p1 40) (pools p2 40)"
    using pool_take[OF p1(2)] by auto
  have s1: "mp_block_size (pools p1 40) = 12" "mp_block_free_count (pools p1 40) \<noteq> 0"
    using p1(2,3) s0 by (auto simp: same_pool_def pool_rep_def)
  have s2: "mp_block_size (pools p2 40) = 12" "mp_block_free_count (pools p2 40) = 0"
    using p2(2,3) s1 by (auto simp: same_pool_def pool_rep_def unat_eq_0)
  have 1: "pool_get 40 12 pdemo = Some (Some 0x2004, p1)" using s0 p1(1) by (simp add: pool_get_def rt_mp_alloc_def mp_alloc_loop_def a)
  have 2: "pool_get 40 4 p1 = Some (Some 0x2014, p2)" using s1 p2(1) by (simp add: pool_get_def rt_mp_alloc_def mp_alloc_loop_def a)
  define p3 where "p3 = rt_set_errno (- RT_ETIMEOUT) p2"
  have 3: "pool_get 40 8 p2 = Some (None, p3)" using s2 by (simp add: pool_get_def rt_mp_alloc_def mp_alloc_loop_def a p3_def)
  have "mp_block_size (pools p3 40) = 12" using s2 by (simp add: p3_def rt_set_errno_def split: option.splits)
  then have 4: "pool_get 40 40 p3 = Some (None, p3)" by (simp add: pool_get_def a)
  show ?thesis by (simp add: 1 2 3 4 insert_commute)
qed

theorem pool_clients_safe_witness:
  "\<exists>p'. serve (pool_get 40) rt_mp_free [Want 12, Want 4, Want 8, Want 40] (pdemo, {}) = Some (p', {(0x2004, 12), (0x2014, 4)}) \<and>
    apart (0x2004, 12) (0x2014, 12)"
proof -
  have "held demo_pool [0x2000, 0x2010] = {}" by (simp add: held_def mp_blocks_def demo_pool_def upt_conv_Cons)
  then have st: "pool_state 40 demo_pool pdemo {}"
    using pdemo_state(1-3) pdemo_pool unfolding pool_state_def
    by (intro conjI exI[of _ "[0x2000, 0x2010]"]) (simp_all add: same_pool_def, simp_all add: pdemo_def demo_pool_def)
  have bl: "mp_blocks demo_pool = [0x2000, 0x2010]" "mp_block_size demo_pool = 12"
    by (simp_all add: mp_blocks_def demo_pool_def upt_conv_Cons)
  obtain p' H where p': "serve (pool_get 40) rt_mp_free [Want 12, Want 4, Want 8, Want 40] (pdemo, {}) = Some (p', H)"
    "\<forall>(a, n)\<in>H. \<forall>(c, k)\<in>H. (a, n) \<noteq> (c, k) \<longrightarrow> apart (a, unat (mp_block_size demo_pool)) (c, unat (mp_block_size demo_pool))"
    using pool_clients_safe[OF st, of "[Want 12, Want 4, Want 8, Want 40]"] by (elim exE conjE) (rule that)
  have H: "H = {(0x2004, 12), (0x2014, 4)}" using p'(1) pdemo_serve by (elim exE) (simp only: option.inject prod.inject)
  show ?thesis using p'(1,2) by (auto simp: H bl(2))
qed

end
