(* ===== verification/RingBuffer.thy ===== *)
theory RingBuffer
  imports KString Fifo
begin

text \<open>
  \<^verbatim>\<open>components/drivers/ipc/ringbuffer.c\<close>: the byte ring with mirror bits. The bytes lie in a memory of
  \<open>KString\<close>; the structure itself is a record. The lemmas show that the ring is a bounded queue of bytes,
  both byte by byte and in bulk, across the wrap-around, and that the forcing operations keep the newest
  bytes.
\<close>

section \<open>Data\<close>

text \<open>The mirror bits are bit fields of one bit, the indices of 15; the size is signed.\<close>

record rt_ringbuffer =
  rb_buffer_ptr :: u32
  rb_read_mirror :: bool
  rb_read_index :: "15 word"
  rb_write_mirror :: bool
  rb_write_index :: "15 word"
  rb_buffer_size :: u16

datatype rt_ringbuffer_state = RT_RINGBUFFER_EMPTY | RT_RINGBUFFER_FULL | RT_RINGBUFFER_HALFFULL

text \<open>Operands of arithmetic are promoted to \<^verbatim>\<open>int\<close>.\<close>

definition rb_size :: "rt_ringbuffer \<Rightarrow> int" where
  "rb_size rb = sint (rb_buffer_size rb)"

definition rt_ringbuffer_status :: "rt_ringbuffer \<Rightarrow> rt_ringbuffer_state" where
  "rt_ringbuffer_status rb =
    (if rb_read_index rb = rb_write_index rb then
       (if rb_read_mirror rb = rb_write_mirror rb then RT_RINGBUFFER_EMPTY else RT_RINGBUFFER_FULL)
     else RT_RINGBUFFER_HALFFULL)"

definition rt_ringbuffer_init :: "u32 \<Rightarrow> u16 \<Rightarrow> rt_ringbuffer option" where
  "rt_ringbuffer_init pool sz = do {
     _ \<leftarrow> kassert (sint sz > 0);
     Some \<lparr>rb_buffer_ptr = pool, rb_read_mirror = False, rb_read_index = 0, rb_write_mirror = False,
       rb_write_index = 0, rb_buffer_size = sz AND NOT 3\<rparr>
   }"

definition rt_ringbuffer_data_len :: "rt_ringbuffer \<Rightarrow> u32" where
  "rt_ringbuffer_data_len rb =
    (case rt_ringbuffer_status rb of
       RT_RINGBUFFER_EMPTY \<Rightarrow> 0
     | RT_RINGBUFFER_FULL \<Rightarrow> of_int (rb_size rb)
     | RT_RINGBUFFER_HALFFULL \<Rightarrow>
         let wi = ucast (rb_write_index rb); ri = ucast (rb_read_index rb)
         in if wi > ri then wi - ri else of_int (rb_size rb) - (ri - wi))"

definition rt_ringbuffer_space_len :: "rt_ringbuffer \<Rightarrow> u32" where
  "rt_ringbuffer_space_len rb = of_int (rb_size rb) - rt_ringbuffer_data_len rb"

definition rt_ringbuffer_get_size :: "rt_ringbuffer \<Rightarrow> u16" where
  "rt_ringbuffer_get_size rb = rb_buffer_size rb"

definition rt_ringbuffer_reset :: "rt_ringbuffer \<Rightarrow> rt_ringbuffer" where
  "rt_ringbuffer_reset rb = rb\<lparr>rb_read_mirror := False, rb_read_index := 0, rb_write_mirror := False, rb_write_index := 0\<rparr>"

section \<open>Operations\<close>

text \<open>
  \<open>rb_fill\<close> and \<open>rb_drain\<close> are the copying that the bulk operations share: in one piece, or in two with a
  flip of the mirror bit. \<open>ptr\<close> is an address of the caller's memory.
\<close>

definition rb_fill :: "u32 \<Rightarrow> u16 \<Rightarrow> rt_ringbuffer \<times> mem \<Rightarrow> rt_ringbuffer \<times> mem" where
  "rb_fill ptr len x = (case x of (rb, m) \<Rightarrow>
    let wi = rb_write_index rb; b = rb_buffer_ptr rb; rest = rb_size rb - uint wi
    in if rest > uint len then
         (rb\<lparr>rb_write_index := wi + ucast len\<rparr>, rt_memcpy (unat (b + ucast wi)) (unat ptr) (unat len) m)
       else
         let m = rt_memcpy (unat (b + ucast wi)) (unat ptr) (unat (of_int rest :: u32)) m;
             m = rt_memcpy (unat b) (unat (ptr + of_int rest)) (unat (of_int (uint len - rest) :: u32)) m
         in (rb\<lparr>rb_write_mirror := \<not> rb_write_mirror rb, rb_write_index := of_int (uint len - rest)\<rparr>, m))"

definition rb_drain :: "u32 \<Rightarrow> u16 \<Rightarrow> rt_ringbuffer \<times> mem \<Rightarrow> rt_ringbuffer \<times> mem" where
  "rb_drain ptr len x = (case x of (rb, m) \<Rightarrow>
    let ri = rb_read_index rb; b = rb_buffer_ptr rb; rest = rb_size rb - uint ri
    in if rest > uint len then
         (rb\<lparr>rb_read_index := ri + ucast len\<rparr>, rt_memcpy (unat ptr) (unat (b + ucast ri)) (unat len) m)
       else
         let m = rt_memcpy (unat ptr) (unat (b + ucast ri)) (unat (of_int rest :: u32)) m;
             m = rt_memcpy (unat (ptr + of_int rest)) (unat b) (unat (of_int (uint len - rest) :: u32)) m
         in (rb\<lparr>rb_read_mirror := \<not> rb_read_mirror rb, rb_read_index := of_int (uint len - rest)\<rparr>, m))"

definition rt_ringbuffer_put :: "u32 \<Rightarrow> u16 \<Rightarrow> rt_ringbuffer \<times> mem \<Rightarrow> u32 \<times> rt_ringbuffer \<times> mem" where
  "rt_ringbuffer_put ptr len x =
    (let sz = ucast (rt_ringbuffer_space_len (fst x)) :: u16
     in if sz = 0 then (0, x)
        else let len = (if sz < len then sz else len) in (ucast len, rb_fill ptr len x))"

definition rt_ringbuffer_put_force :: "u32 \<Rightarrow> u16 \<Rightarrow> rt_ringbuffer \<times> mem \<Rightarrow> u32 \<times> rt_ringbuffer \<times> mem" where
  "rt_ringbuffer_put_force ptr len x = (case x of (rb, m) \<Rightarrow>
    let space = ucast (rt_ringbuffer_space_len rb) :: u16;
        (ptr, len) = (if uint len > rb_size rb then (ptr + of_int (uint len - rb_size rb), rb_buffer_size rb) else (ptr, len));
        one_piece = rb_size rb - uint (rb_write_index rb) > uint len;
        (rb, m) = rb_fill ptr len (rb, m);
        rb = (if len > space then
            let rb = (if \<not> one_piece \<and> rb_write_index rb \<le> rb_read_index rb
                  then rb\<lparr>rb_read_mirror := \<not> rb_read_mirror rb\<rparr> else rb)
            in rb\<lparr>rb_read_index := rb_write_index rb\<rparr>
          else rb)
    in (ucast len, rb, m))"

definition rt_ringbuffer_get :: "u32 \<Rightarrow> u16 \<Rightarrow> rt_ringbuffer \<times> mem \<Rightarrow> u32 \<times> rt_ringbuffer \<times> mem" where
  "rt_ringbuffer_get ptr len x =
    (let sz = rt_ringbuffer_data_len (fst x)
     in if sz = 0 then (0, x)
        else let len = (if sz < ucast len then ucast sz else len) in (ucast len, rb_drain ptr len x))"

text \<open>The pointer that \<^verbatim>\<open>rt_ringbuffer_peak\<close> hands out is an address inside the ring, or null.\<close>

definition rt_ringbuffer_peak :: "rt_ringbuffer \<Rightarrow> u32 \<times> u32 option \<times> rt_ringbuffer" where
  "rt_ringbuffer_peak rb =
    (let sz = rt_ringbuffer_data_len rb; ri = rb_read_index rb
     in if sz = 0 then (0, None, rb)
        else
          let ptr = rb_buffer_ptr rb + ucast ri;
              rest = of_int (rb_size rb - uint ri) :: u32
          in if rest > sz then (sz, Some ptr, rb\<lparr>rb_read_index := ri + ucast sz\<rparr>)
             else (rest, Some ptr, rb\<lparr>rb_read_mirror := \<not> rb_read_mirror rb, rb_read_index := 0\<rparr>))"

definition rb_step_write :: "rt_ringbuffer \<Rightarrow> rt_ringbuffer" where
  "rb_step_write rb =
    (if uint (rb_write_index rb) = rb_size rb - 1
     then rb\<lparr>rb_write_mirror := \<not> rb_write_mirror rb, rb_write_index := 0\<rparr>
     else rb\<lparr>rb_write_index := rb_write_index rb + 1\<rparr>)"

definition rt_ringbuffer_putchar :: "u8 \<Rightarrow> rt_ringbuffer \<times> mem \<Rightarrow> u32 \<times> rt_ringbuffer \<times> mem" where
  "rt_ringbuffer_putchar ch x = (case x of (rb, m) \<Rightarrow>
    if rt_ringbuffer_space_len rb = 0 then (0, rb, m)
    else (1, rb_step_write rb, m(unat (rb_buffer_ptr rb + ucast (rb_write_index rb)) := ch)))"

definition rt_ringbuffer_putchar_force :: "u8 \<Rightarrow> rt_ringbuffer \<times> mem \<Rightarrow> u32 \<times> rt_ringbuffer \<times> mem" where
  "rt_ringbuffer_putchar_force ch x = (case x of (rb, m) \<Rightarrow>
    let old_state = rt_ringbuffer_status rb;
        m = m(unat (rb_buffer_ptr rb + ucast (rb_write_index rb)) := ch);
        wraps = (uint (rb_write_index rb) = rb_size rb - 1);
        rb = rb_step_write rb;
        rb = (if old_state = RT_RINGBUFFER_FULL then
            let rb = (if wraps then rb\<lparr>rb_read_mirror := \<not> rb_read_mirror rb\<rparr> else rb)
            in rb\<lparr>rb_read_index := rb_write_index rb\<rparr>
          else rb)
    in (1, rb, m))"

definition rt_ringbuffer_getchar :: "rt_ringbuffer \<times> mem \<Rightarrow> u32 \<times> u8 option \<times> rt_ringbuffer" where
  "rt_ringbuffer_getchar x = (case x of (rb, m) \<Rightarrow>
    if rt_ringbuffer_data_len rb = 0 then (0, None, rb)
    else
      let ch = m (unat (rb_buffer_ptr rb + ucast (rb_read_index rb)));
          rb = (if uint (rb_read_index rb) = rb_size rb - 1
            then rb\<lparr>rb_read_mirror := \<not> rb_read_mirror rb, rb_read_index := 0\<rparr>
            else rb\<lparr>rb_read_index := rb_read_index rb + 1\<rparr>)
      in (1, Some ch, rb))"

text \<open>
  Creation on the heap: \<open>blk\<close> and \<open>pool\<close> are the answers of the two \<^verbatim>\<open>rt_malloc\<close> calls, the second of which
  is only made when the first succeeded; the first block is freed again when the second one fails.
\<close>

definition rt_ringbuffer_create :: "u32 option \<Rightarrow> u32 option \<Rightarrow> u16 \<Rightarrow> (u32 \<times> rt_ringbuffer) option option" where
  "rt_ringbuffer_create blk pool sz = do {
     _ \<leftarrow> kassert (sz > 0);
     let sz = sz AND NOT 3;
     case blk of
       None \<Rightarrow> Some None
     | Some a \<Rightarrow> (case pool of
         None \<Rightarrow> Some None
       | Some p \<Rightarrow> do { rb \<leftarrow> rt_ringbuffer_init p sz; Some (Some (a, rb)) })
   }"

section \<open>The ring as a sequence\<close>

definition rb_cap :: "rt_ringbuffer \<Rightarrow> nat" where
  "rb_cap rb = nat (rb_size rb)"

definition rb_ok :: "rt_ringbuffer \<Rightarrow> bool" where
  "rb_ok rb \<longleftrightarrow> 0 < rb_size rb \<and> unat (rb_read_index rb) < rb_cap rb \<and> unat (rb_write_index rb) < rb_cap rb \<and>
     unat (rb_buffer_ptr rb) + rb_cap rb \<le> 4294967296 \<and>
     (if rb_read_mirror rb = rb_write_mirror rb then rb_read_index rb \<le> rb_write_index rb
      else rb_write_index rb \<le> rb_read_index rb)"

definition rb_len :: "rt_ringbuffer \<Rightarrow> nat" where
  "rb_len rb =
    (if rb_read_mirror rb = rb_write_mirror rb then unat (rb_write_index rb) - unat (rb_read_index rb)
     else rb_cap rb - (unat (rb_read_index rb) - unat (rb_write_index rb)))"

definition rb_content :: "rt_ringbuffer \<times> mem \<Rightarrow> u8 list" where
  "rb_content x = (case x of (rb, m) \<Rightarrow>
    ring (\<lambda>j. m (unat (rb_buffer_ptr rb) + j)) (rb_cap rb) (unat (rb_read_index rb)) (rb_len rb))"

lemma rb_cap_less: "rb_cap rb < 32768" "0 < rb_size rb \<Longrightarrow> int (rb_cap rb) = rb_size rb"
  using sint_lt[of "rb_buffer_size rb"] by (simp_all add: rb_cap_def rb_size_def)

lemma unat_index [simp]: "unat (ucast (i :: 15 word) :: u32) = unat i"
proof -
  have "unat i < 32768" using unsigned_less[of i] by simp
  then show ?thesis by (simp add: unsigned_ucast_eq take_bit_nat_eq_self)
qed

lemma unat_u16 [simp]: "unat (ucast (i :: u16) :: u32) = unat i"
proof -
  have "unat i < 65536" using unsigned_less[of i] by simp
  then show ?thesis by (simp add: unsigned_ucast_eq take_bit_nat_eq_self)
qed

lemma rb_len_le: "rb_ok rb \<Longrightarrow> rb_len rb \<le> rb_cap rb"
  by (auto simp: rb_ok_def rb_len_def)

lemma rb_len_index:
  assumes "rb_ok rb"
  shows "unat (rb_write_index rb) = (unat (rb_read_index rb) + rb_len rb) mod rb_cap rb"
proof (cases "rb_read_mirror rb = rb_write_mirror rb")
  case True
  then have "unat (rb_read_index rb) + rb_len rb = unat (rb_write_index rb)"
    using assms by (simp add: rb_ok_def rb_len_def word_le_nat_alt)
  then show ?thesis using assms by (simp add: rb_ok_def)
next
  case False
  then have "unat (rb_read_index rb) + rb_len rb = unat (rb_write_index rb) + rb_cap rb"
    using assms by (simp add: rb_ok_def rb_len_def word_le_nat_alt)
  then show ?thesis using assms by (simp add: rb_ok_def)
qed

lemma rb_size_cap: "rb_ok rb \<Longrightarrow> rb_size rb = int (rb_cap rb)"
  by (simp add: rb_cap_less rb_ok_def)

lemma data_len:
  assumes "rb_ok rb"
  shows "rt_ringbuffer_data_len rb = of_nat (rb_len rb)" "rt_ringbuffer_space_len rb = of_nat (rb_cap rb - rb_len rb)"
proof -
  have c: "of_int (rb_size rb) = (of_nat (rb_cap rb) :: u32)" using rb_size_cap[OF assms] by simp
  let ?w = "unat (rb_write_index rb)" and ?r = "unat (rb_read_index rb)"
  have u: "ucast (rb_write_index rb) = (of_nat ?w :: u32)" "ucast (rb_read_index rb) = (of_nat ?r :: u32)"
    by (simp_all add: of_nat_unat)
  have lt: "?w < 32768" "?r < 32768" using unsigned_less[of "rb_write_index rb"] unsigned_less[of "rb_read_index rb"] by simp_all
  have gt: "(of_nat ?r :: u32) < of_nat ?w \<longleftrightarrow> ?r < ?w" using lt by (simp add: word_less_nat_alt flip: u)
  show d: "rt_ringbuffer_data_len rb = of_nat (rb_len rb)"
  proof (cases "rb_read_index rb = rb_write_index rb")
    case True
    then show ?thesis by (simp add: rt_ringbuffer_data_len_def rt_ringbuffer_status_def rb_len_def c)
  next
    case False
    then have ne: "?r \<noteq> ?w" by (simp add: word_unat_eq_iff)
    have h: "rt_ringbuffer_data_len rb = (if ?r < ?w then of_nat ?w - of_nat ?r else of_nat (rb_cap rb) - (of_nat ?r - of_nat ?w))"
      using False gt by (simp only: rt_ringbuffer_data_len_def rt_ringbuffer_status_def u c Let_def if_False if_True rt_ringbuffer_state.case)
    show ?thesis
    proof (cases "rb_read_mirror rb = rb_write_mirror rb")
      case True
      then have "?r < ?w" using assms ne by (simp add: rb_ok_def word_le_nat_alt)
      then show ?thesis using h True by (simp add: rb_len_def of_nat_diff)
    next
      case m: False
      then have "?w < ?r" "?r < rb_cap rb" using assms ne by (simp_all add: rb_ok_def word_le_nat_alt)
      then show ?thesis using h m by (simp add: rb_len_def of_nat_diff)
    qed
  qed
  show "rt_ringbuffer_space_len rb = of_nat (rb_cap rb - rb_len rb)"
    using rb_len_le[OF assms] by (simp add: rt_ringbuffer_space_len_def d c of_nat_diff)
qed

text \<open>Copying into the ring: the \<open>n\<close> bytes from \<open>p\<close> on go to the positions from \<open>w\<close> on, around the end.\<close>

definition ring_off :: "nat \<Rightarrow> nat \<Rightarrow> nat \<Rightarrow> nat" where
  "ring_off N w j = (if w \<le> j then j - w else j + (N - w))"

definition ring_store :: "nat \<Rightarrow> nat \<Rightarrow> nat \<Rightarrow> nat \<Rightarrow> nat \<Rightarrow> mem \<Rightarrow> mem" where
  "ring_store b N w p n m = (\<lambda>x. if b \<le> x \<and> x < b + N \<and> ring_off N w (x - b) < n then m (p + ring_off N w (x - b)) else m x)"

lemma ring_off: "i < N \<Longrightarrow> w < N \<Longrightarrow> ring_off N w ((w + i) mod N) = i"
proof (cases "w + i < N")
  case False
  moreover assume "i < N" "w < N"
  moreover from calculation have "(w + i) mod N = w + i - N" by (simp add: mod_if)
  ultimately show ?thesis by (simp add: ring_off_def)
qed (simp add: ring_off_def)

lemma store_at:
  assumes "j < N"
  shows "copy d s k m (b + j) = (if d \<le> b + j \<and> b + j < d + k then m (s + (b + j - d)) else m (b + j))"
    "ring_store b N w p n m (b + j) = (if ring_off N w j < n then m (p + ring_off N w j) else m (b + j))"
  using assms by (simp_all add: copy_def ring_store_def)

lemma store_one:
  assumes "w + n \<le> N" "w < N"
  shows "copy (b + w) p n m = ring_store b N w p n m"
proof
  fix x
  show "copy (b + w) p n m x = ring_store b N w p n m x"
  proof (cases "b \<le> x \<and> x < b + N")
    case True
    then obtain j where "x = b + j" "j < N" by (auto simp: le_iff_add)
    then show ?thesis using assms by (auto simp: store_at ring_off_def)
  qed (use assms in \<open>auto simp: copy_def ring_store_def\<close>)
qed

lemma store_two:
  assumes "N \<le> w + n" "w < N" "n \<le> N" "p + n \<le> b \<or> b + N \<le> p"
  shows "copy b (p + (N - w)) (n - (N - w)) (copy (b + w) p (N - w) m) = ring_store b N w p n m"
proof
  fix x
  have r: "copy (b + w) p (N - w) m y = m y" if "y < b \<or> b + N \<le> y" for y using that assms(2) by (auto simp: copy_def)
  show "copy b (p + (N - w)) (n - (N - w)) (copy (b + w) p (N - w) m) x = ring_store b N w p n m x"
  proof (cases "b \<le> x \<and> x < b + N")
    case True
    then obtain j where j: "x = b + j" "j < N" by (auto simp: le_iff_add)
    show ?thesis
    proof (cases "w \<le> j")
      case True
      then have "\<not> j < n - (N - w)" using assms j by simp
      then have "copy b (p + (N - w)) (n - (N - w)) (copy (b + w) p (N - w) m) x = copy (b + w) p (N - w) m x"
        using j by (simp add: store_at)
      moreover have "j - w < n" using True assms(1) j(2) by simp
      moreover have "copy (b + w) p (N - w) m (b + j) = m (p + (j - w))" using True j by (simp add: store_at)
      ultimately show ?thesis using True j by (simp add: store_at ring_off_def)
    next
      case False
      have "copy (b + w) p (N - w) m (p + (N - w) + j) = m (p + (N - w) + j)" if "j < n - (N - w)"
        using assms(4) that by (intro r) auto
      moreover have "copy (b + w) p (N - w) m (b + j) = m (b + j)" using False by (simp add: copy_def)
      moreover have "j < n - (N - w) \<longleftrightarrow> j + (N - w) < n" by auto
      ultimately show ?thesis using False j by (simp add: store_at ring_off_def add.assoc add.commute[of j])
    qed
  next
    case False
    then show ?thesis using assms r[of x] by (auto simp: copy_def[of b] ring_store_def)
  qed
qed

text \<open>The effect of \<open>rb_fill\<close> and \<open>rb_drain\<close>, as long as no more than a whole ring is copied.\<close>

definition outside :: "rt_ringbuffer \<Rightarrow> u32 \<Rightarrow> nat \<Rightarrow> bool" where
  "outside rb p n \<longleftrightarrow> unat p + n < 4294967296 \<and>
     (unat p + n \<le> unat (rb_buffer_ptr rb) \<or> unat (rb_buffer_ptr rb) + rb_cap rb \<le> unat p)"

definition rb_base :: "rt_ringbuffer \<Rightarrow> bool" where
  "rb_base rb \<longleftrightarrow> 0 < rb_size rb \<and> unat (rb_read_index rb) < rb_cap rb \<and> unat (rb_write_index rb) < rb_cap rb \<and>
     unat (rb_buffer_ptr rb) + rb_cap rb \<le> 4294967296"

lemma rb_base_ok: "rb_ok rb \<Longrightarrow> rb_base rb"
  by (simp add: rb_ok_def rb_base_def)

lemma slot_addr:
  fixes b :: u32
  assumes "unat b + N \<le> 4294967296" "i < N"
  shows "unat (b + of_nat i) = unat b + i"
  using assms by (simp add: unat_word_ariths(1) unat_of_nat take_bit_nat_eq_self)

lemma index_of_nat:
  assumes "n < 32768"
  shows "unat (of_nat n :: 15 word) = n" "(of_nat (unat i) :: 15 word) = i"
  using assms by (simp_all add: unat_of_nat take_bit_nat_eq_self)

lemma fill_effect:
  assumes b: "rb_base rb" and n: "unat len \<le> rb_cap rb" and o: "outside rb p (unat len)"
  shows "rb_fill p len (rb, m) =
    (rb\<lparr>rb_write_mirror := (rb_write_mirror rb \<noteq> (rb_cap rb \<le> unat (rb_write_index rb) + unat len)),
        rb_write_index := of_nat ((unat (rb_write_index rb) + unat len) mod rb_cap rb)\<rparr>,
     ring_store (unat (rb_buffer_ptr rb)) (rb_cap rb) (unat (rb_write_index rb)) (unat p) (unat len) m)"
proof -
  let ?N = "rb_cap rb" and ?w = "unat (rb_write_index rb)" and ?n = "unat len" and ?b = "unat (rb_buffer_ptr rb)"
  have sz: "rb_size rb = int ?N" and lt: "?w < ?N" "?N < 32768" and l: "?b + ?N \<le> 4294967296"
    using b rb_cap_less[of rb] by (simp_all add: rb_base_def)
  have u: "ucast (rb_write_index rb) = (of_nat ?w :: u32)" "ucast len = (of_nat ?n :: 15 word)" by (simp_all add: of_nat_unat)
  have ui: "uint (rb_write_index rb) = int ?w" "uint len = int ?n" by simp_all
  have a: "unat (rb_buffer_ptr rb + ucast (rb_write_index rb)) = ?b + ?w" unfolding u(1) using slot_addr[OF l lt(1)] .
  have wi: "rb_write_index rb + ucast len = of_nat (?w + ?n)" unfolding of_nat_add of_nat_unat by simp
  show ?thesis
  proof (cases "?w + ?n < ?N")
    case True
    then have "rb_size rb - uint (rb_write_index rb) > uint len" unfolding sz ui by linarith
    moreover have "rt_memcpy (?b + ?w) (unat p) ?n m = ring_store ?b ?N ?w (unat p) ?n m"
      using o True lt store_one[of ?w ?n ?N ?b "unat p" m]
      by (subst memcpy_copy) (auto simp: copyable_def outside_def)
    ultimately show ?thesis using True wi by (simp add: rb_fill_def Let_def a)
  next
    case False
    define k where "k = ?N - ?w"
    have k3: "k \<le> ?n" "k < 32768" using False lt by (simp_all add: k_def)
    have k: "rb_size rb - uint (rb_write_index rb) = int k" "uint len - int k = int (?n - k)" "k \<le> ?n" "k < 32768"
      using lt k3 unfolding sz ui k_def by linarith+
    have uk: "unat (of_int (int k) :: u32) = k" "unat (of_int (int (?n - k)) :: u32) = ?n - k"
      using k(4) n lt by (simp_all add: unat_of_nat take_bit_nat_eq_self)
    have pk: "unat (p + of_int (int k)) = unat p + k"
      using o k(3) by (simp add: outside_def unat_word_ariths(1) unat_of_nat take_bit_nat_eq_self)
    have c1: "rt_memcpy (?b + ?w) (unat p) k m = copy (?b + ?w) (unat p) k m"
      using o k(3) lt by (intro memcpy_copy) (auto simp: copyable_def outside_def k_def)
    have c2: "rt_memcpy ?b (unat p + k) (?n - k) m' = copy ?b (unat p + k) (?n - k) m'" for m'
      using o k(3) n by (intro memcpy_copy) (auto simp: copyable_def outside_def)
    have st: "copy ?b (unat p + k) (?n - k) (copy (?b + ?w) (unat p) k m) = ring_store ?b ?N ?w (unat p) ?n m"
      unfolding k_def using False lt n o by (intro store_two) (auto simp: outside_def)
    have kn: "\<not> uint len < int k" using k(3) unfolding ui by linarith
    have oi: "(of_int (int (?n - k)) :: 15 word) = of_nat (?n - k)" by (rule of_int_of_nat_eq)
    have md: "(?w + ?n) mod ?N = ?n - k" using False lt n by (auto simp: mod_if k_def)
    show ?thesis
      using False k(3)
      by (simp add: rb_fill_def Let_def a k(1,2) uk pk c1 c2 st md kn oi del: of_int_of_nat_eq of_nat_diff)
  qed
qed

definition ring_load :: "nat \<Rightarrow> nat \<Rightarrow> nat \<Rightarrow> nat \<Rightarrow> nat \<Rightarrow> mem \<Rightarrow> mem" where
  "ring_load b N r p n m = (\<lambda>x. if p \<le> x \<and> x < p + n then m (b + (r + (x - p)) mod N) else m x)"

lemma drain_effect:
  assumes b: "rb_base rb" and n: "unat len \<le> rb_cap rb" and o: "outside rb p (unat len)"
  shows "rb_drain p len (rb, m) =
    (rb\<lparr>rb_read_mirror := (rb_read_mirror rb \<noteq> (rb_cap rb \<le> unat (rb_read_index rb) + unat len)),
        rb_read_index := of_nat ((unat (rb_read_index rb) + unat len) mod rb_cap rb)\<rparr>,
     ring_load (unat (rb_buffer_ptr rb)) (rb_cap rb) (unat (rb_read_index rb)) (unat p) (unat len) m)"
proof -
  let ?N = "rb_cap rb" and ?r = "unat (rb_read_index rb)" and ?n = "unat len" and ?b = "unat (rb_buffer_ptr rb)"
  have sz: "rb_size rb = int ?N" and lt: "?r < ?N" "?N < 32768" and l: "?b + ?N \<le> 4294967296"
    using b rb_cap_less[of rb] by (simp_all add: rb_base_def)
  have u: "ucast (rb_read_index rb) = (of_nat ?r :: u32)" by (simp add: of_nat_unat)
  have ui: "uint (rb_read_index rb) = int ?r" "uint len = int ?n" by simp_all
  have a: "unat (rb_buffer_ptr rb + ucast (rb_read_index rb)) = ?b + ?r" unfolding u using slot_addr[OF l lt(1)] .
  have ri: "rb_read_index rb + ucast len = of_nat (?r + ?n)" unfolding of_nat_add of_nat_unat by simp
  show ?thesis
  proof (cases "?r + ?n < ?N")
    case True
    then have "rb_size rb - uint (rb_read_index rb) > uint len" unfolding sz ui by linarith
    moreover have "rt_memcpy (unat p) (?b + ?r) ?n m = ring_load ?b ?N ?r (unat p) ?n m"
      using o True lt by (subst memcpy_copy) (auto simp: copyable_def outside_def copy_def ring_load_def fun_eq_iff add.assoc)
    ultimately show ?thesis using True ri by (simp add: rb_drain_def Let_def a)
  next
    case False
    define k where "k = ?N - ?r"
    have k3: "k \<le> ?n" "k < 32768" using False lt by (simp_all add: k_def)
    have k: "rb_size rb - uint (rb_read_index rb) = int k" "uint len - int k = int (?n - k)" "k \<le> ?n" "k < 32768"
      using lt k3 unfolding sz ui k_def by linarith+
    have uk: "unat (of_int (int k) :: u32) = k" "unat (of_int (int (?n - k)) :: u32) = ?n - k"
      using k(4) n lt by (simp_all add: unat_of_nat take_bit_nat_eq_self)
    have pk: "unat (p + of_int (int k)) = unat p + k"
      using o k(3) by (simp add: outside_def unat_word_ariths(1) unat_of_nat take_bit_nat_eq_self)
    have c1: "rt_memcpy (unat p) (?b + ?r) k m = copy (unat p) (?b + ?r) k m"
      using o k(3) lt by (intro memcpy_copy) (auto simp: copyable_def outside_def k_def)
    have c2: "rt_memcpy (unat p + k) ?b (?n - k) m' = copy (unat p + k) ?b (?n - k) m'" for m'
      using o k(3) n by (intro memcpy_copy) (auto simp: copyable_def outside_def)
    have st: "copy (unat p + k) ?b (?n - k) (copy (unat p) (?b + ?r) k m) = ring_load ?b ?N ?r (unat p) ?n m"
    proof
      fix x
      consider "x < unat p \<or> unat p + ?n \<le> x" | i where "x = unat p + i" "i < k" | i where "x = unat p + (k + i)" "i < ?n - k"
      proof -
        have "x = unat p + (x - unat p)" "x = unat p + (k + (x - unat p - k))" if "unat p + k \<le> x" using that by simp_all
        then show ?thesis using that(1) that(2)[of "x - unat p"] that(3)[of "x - unat p - k"] k(3)
          by (cases "unat p + k \<le> x"; cases "unat p \<le> x"; cases "x < unat p + ?n") auto
      qed
      then show "copy (unat p + k) ?b (?n - k) (copy (unat p) (?b + ?r) k m) x = ring_load ?b ?N ?r (unat p) ?n m x"
      proof cases
        case 1
        then show ?thesis using k(3) by (auto simp: copy_def ring_load_def)
      next
        case 2
        then have "?r + i < ?N" by (simp add: k_def)
        then show ?thesis using 2 k(3) by (simp add: copy_def ring_load_def add.assoc)
      next
        case 3
        have e: "?r + (k + i) = ?N + i" using lt by (simp add: k_def)
        have "i < ?N" using 3(2) n by simp
        then have "(?r + (k + i)) mod ?N = i" unfolding e by simp
        moreover have "copy (unat p) (?b + ?r) k m (?b + i) = m (?b + i)"
          using o 3(2) k(3) \<open>i < ?N\<close> by (auto simp: copy_def outside_def)
        moreover have "k + i < ?n" using 3(2) by simp
        ultimately show ?thesis using 3 by (simp add: copy_def[of "unat p + k"] ring_load_def)
      qed
    qed
    have kn: "\<not> uint len < int k" using k(3) unfolding ui by linarith
    have oi: "(of_int (int (?n - k)) :: 15 word) = of_nat (?n - k)" by (rule of_int_of_nat_eq)
    have md: "(?r + ?n) mod ?N = ?n - k" using False lt n by (auto simp: mod_if k_def)
    show ?thesis
      using False k(3)
      by (simp add: rb_drain_def Let_def a k(1,2) uk pk c1 c2 st md kn oi del: of_int_of_nat_eq of_nat_diff)
  qed
qed

section \<open>Bulk put and get\<close>

text \<open>Going on by \<open>n\<close> positions.\<close>

lemma write_on:
  assumes "rb_ok rb" "n \<le> rb_cap rb - rb_len rb"
    and "rb' = rb\<lparr>rb_write_mirror := (rb_write_mirror rb \<noteq> (rb_cap rb \<le> unat (rb_write_index rb) + n)),
        rb_write_index := of_nat ((unat (rb_write_index rb) + n) mod rb_cap rb)\<rparr>"
  shows "rb_ok rb'" "rb_len rb' = rb_len rb + n" "rb_cap rb' = rb_cap rb"
proof -
  let ?N = "rb_cap rb" and ?w = "unat (rb_write_index rb)" and ?r = "unat (rb_read_index rb)"
  have lt: "?w < ?N" "?r < ?N" "?N < 32768" "0 < rb_size rb" "unat (rb_buffer_ptr rb) + ?N \<le> 4294967296"
    using assms(1) rb_cap_less[of rb] by (simp_all add: rb_ok_def)
  have nN: "n \<le> ?N" using assms(2) by simp
  have c: "rb_cap rb' = ?N" "rb_size rb' = rb_size rb" by (simp_all add: assms(3) rb_cap_def rb_size_def)
  then show "rb_cap rb' = ?N" by simp
  have md: "(?w + n) mod ?N = (if ?N \<le> ?w + n then ?w + n - ?N else ?w + n)" using lt nN by (auto simp: mod_if)
  have "(?w + n) mod ?N < 32768" using lt by (metis (no_types) less_trans mod_less_divisor neq0_conv not_less_zero)
  then have w': "unat (rb_write_index rb') = (if ?N \<le> ?w + n then ?w + n - ?N else ?w + n)"
    by (simp add: assms(3) md index_of_nat)
  have f: "rb_read_index rb' = rb_read_index rb" "rb_read_mirror rb' = rb_read_mirror rb" "rb_buffer_ptr rb' = rb_buffer_ptr rb"
    "rb_write_mirror rb' = (rb_write_mirror rb \<noteq> (?N \<le> ?w + n))"
    by (simp_all add: assms(3))
  show "rb_ok rb'" "rb_len rb' = rb_len rb + n"
    using assms(1,2) lt nN by (auto simp: rb_ok_def rb_len_def c f w' word_le_nat_alt split: if_splits)
qed

lemma read_on:
  assumes "rb_ok rb" "n \<le> rb_len rb"
    and "rb' = rb\<lparr>rb_read_mirror := (rb_read_mirror rb \<noteq> (rb_cap rb \<le> unat (rb_read_index rb) + n)),
        rb_read_index := of_nat ((unat (rb_read_index rb) + n) mod rb_cap rb)\<rparr>"
  shows "rb_ok rb'" "rb_len rb' = rb_len rb - n" "rb_cap rb' = rb_cap rb"
    "unat (rb_read_index rb') = (unat (rb_read_index rb) + n) mod rb_cap rb"
proof -
  let ?N = "rb_cap rb" and ?w = "unat (rb_write_index rb)" and ?r = "unat (rb_read_index rb)"
  have lt: "?w < ?N" "?r < ?N" "?N < 32768" "0 < rb_size rb" "unat (rb_buffer_ptr rb) + ?N \<le> 4294967296"
    using assms(1) rb_cap_less[of rb] by (simp_all add: rb_ok_def)
  have nN: "n \<le> ?N" using assms(2) rb_len_le[OF assms(1)] by simp
  have c: "rb_cap rb' = ?N" "rb_size rb' = rb_size rb" by (simp_all add: assms(3) rb_cap_def rb_size_def)
  then show "rb_cap rb' = ?N" by simp
  have md: "(?r + n) mod ?N = (if ?N \<le> ?r + n then ?r + n - ?N else ?r + n)" using lt nN by (auto simp: mod_if)
  have "(?r + n) mod ?N < 32768" using lt by (metis (no_types) less_trans mod_less_divisor neq0_conv not_less_zero)
  then show r': "unat (rb_read_index rb') = (?r + n) mod ?N" by (simp add: assms(3) index_of_nat)
  have f: "rb_write_index rb' = rb_write_index rb" "rb_write_mirror rb' = rb_write_mirror rb" "rb_buffer_ptr rb' = rb_buffer_ptr rb"
    "rb_read_mirror rb' = (rb_read_mirror rb \<noteq> (?N \<le> ?r + n))"
    by (simp_all add: assms(3))
  show "rb_ok rb'" "rb_len rb' = rb_len rb - n"
    using assms(1,2) lt nN by (auto simp: rb_ok_def rb_len_def c f r' md word_le_nat_alt split: if_splits)
qed

lemma length_content [simp]: "length (rb_content (rb, m)) = rb_len rb"
  by (simp add: rb_content_def)

lemma ring_grow:
  assumes "l + n \<le> N" "r < N" "w = (r + l) mod N"
  shows "ring (\<lambda>j. ring_store b N w p n m (b + j)) N r (l + n) = ring (\<lambda>j. m (b + j)) N r l @ map (\<lambda>i. m (p + i)) [0..<n]"
proof (rule nth_equalityI)
  fix i
  assume i: "i < length (ring (\<lambda>j. ring_store b N w p n m (b + j)) N r (l + n))"
  have N: "0 < N" "w < N" using assms by auto
  define k where "k = (if l \<le> i then i - l else i + (N - l))"
  have "i < l + n" using i by simp
  then have k: "k < N" using assms(1) unfolding k_def by (split if_split) linarith
  have "(w + k) mod N = (r + l + k) mod N" unfolding assms(3) by (simp add: mod_simps)
  also have "r + l + k = (if l \<le> i then r + i else r + i + N)" using assms(1) by (simp add: k_def)
  finally have at: "(r + i) mod N = (w + k) mod N" by simp
  have lt: "(w + k) mod N < N" using N by simp
  have "ring_off N w ((w + k) mod N) = k" by (rule ring_off[OF k N(2)])
  then have "ring_store b N w p n m (b + (r + i) mod N) = (if k < n then m (p + k) else m (b + (r + i) mod N))"
    unfolding at by (simp only: store_at(2)[OF lt])
  moreover have "k < n \<longleftrightarrow> l \<le> i" using i assms(1) by (simp add: k_def) arith
  ultimately show "ring (\<lambda>j. ring_store b N w p n m (b + j)) N r (l + n) ! i =
      (ring (\<lambda>j. m (b + j)) N r l @ map (\<lambda>i. m (p + i)) [0..<n]) ! i"
    using i by (auto simp: ring_def nth_append k_def)
qed simp

lemma ring_drop: "n \<le> l \<Longrightarrow> ring pool N ((r + n) mod N) (l - n) = drop n (ring pool N r l)"
  by (rule nth_equalityI) (simp_all add: ring_def mod_simps less_diff_conv ac_simps)

text \<open>
  C30. \<^verbatim>\<open>rt_ringbuffer_put\<close> appends as many bytes as there is room for, in order and across the end
  of the buffer, answers their number, and writes nothing outside the buffer.
\<close>

theorem ring_put_appends:
  assumes ok: "rb_ok rb" and o: "outside rb p (unat len)"
  shows "\<exists>n rb' m'. n = min (unat len) (rb_cap rb - length (rb_content (rb, m))) \<and>
    rt_ringbuffer_put p len (rb, m) = (of_nat n, rb', m') \<and> rb_ok rb' \<and> rb_cap rb' = rb_cap rb \<and>
    rb_buffer_ptr rb' = rb_buffer_ptr rb \<and>
    rb_content (rb', m') = rb_content (rb, m) @ map (\<lambda>i. m (unat p + i)) [0..<n] \<and>
    (\<forall>x. x < unat (rb_buffer_ptr rb) \<or> unat (rb_buffer_ptr rb) + rb_cap rb \<le> x \<longrightarrow> m' x = m x)"
proof -
  define n where "n = min (unat len) (rb_cap rb - length (rb_content (rb, m)))"
  define q where "q = rb_cap rb - rb_len rb"
  have q: "q < 32768" using rb_cap_less(1)[of rb] by (simp add: q_def)
  have n: "n = min (unat len) q" by (simp add: n_def q_def)
  define sz where "sz = (ucast (rt_ringbuffer_space_len rb) :: u16)"
  have usz: "unat sz = q"
    using q by (simp add: sz_def data_len(2)[OF ok] flip: q_def) (simp add: unsigned_ucast_eq unat_of_nat take_bit_nat_eq_self)
  show ?thesis
  proof (cases "q = 0")
    case True
    then have "sz = 0" using usz by (simp add: unat_eq_0)
    then show ?thesis using True ok by (simp add: rt_ringbuffer_put_def q_def flip: sz_def)
  next
    case False
    define l where "l = (if sz < len then sz else len)"
    have l: "unat l = n" using usz by (auto simp: l_def n word_less_nat_alt min_def)
    have nq: "n \<le> rb_cap rb - rb_len rb" "n \<le> rb_cap rb" by (simp_all add: n q_def)
    have ol: "outside rb p (unat l)" using o by (auto simp: outside_def l n)
    note e = fill_effect[OF rb_base_ok[OF ok] _ ol, of m, unfolded l, OF nq(2)]
    define rb' where "rb' = rb\<lparr>rb_write_mirror := (rb_write_mirror rb \<noteq> (rb_cap rb \<le> unat (rb_write_index rb) + n)),
        rb_write_index := of_nat ((unat (rb_write_index rb) + n) mod rb_cap rb)\<rparr>"
    define m' where "m' = ring_store (unat (rb_buffer_ptr rb)) (rb_cap rb) (unat (rb_write_index rb)) (unat p) n m"
    note w = write_on[OF ok nq(1) rb'_def]
    have "sz \<noteq> 0" using False usz by auto
    moreover have "ucast l = (of_nat n :: u32)" using l by (metis of_nat_unat unat_u16)
    ultimately have "rt_ringbuffer_put p len (rb, m) = (of_nat n, rb', m')"
      using e by (simp add: rt_ringbuffer_put_def Let_def rb'_def m'_def flip: sz_def l_def)
    moreover have f: "rb_read_index rb' = rb_read_index rb" "rb_buffer_ptr rb' = rb_buffer_ptr rb" by (simp_all add: rb'_def)
    moreover have "rb_content (rb', m') = rb_content (rb, m) @ map (\<lambda>i. m (unat p + i)) [0..<n]"
      unfolding rb_content_def split_conv f w m'_def
      by (rule ring_grow) (use nq rb_len_le[OF ok] ok rb_len_index[OF ok] in \<open>auto simp: rb_ok_def\<close>)
    moreover have "\<forall>x. x < unat (rb_buffer_ptr rb) \<or> unat (rb_buffer_ptr rb) + rb_cap rb \<le> x \<longrightarrow> m' x = m x"
      by (auto simp: m'_def ring_store_def)
    ultimately show ?thesis using w n_def by blast
  qed
qed

text \<open>
  \<^verbatim>\<open>rt_ringbuffer_get\<close> takes the oldest bytes, as many as there are and as were asked for, writes
  them to the caller's memory in order, and leaves the rest of the memory and of the ring as they were.
\<close>

theorem ring_get_takes:
  assumes ok: "rb_ok rb" and o: "outside rb p (unat len)"
  shows "\<exists>n rb' m'. n = min (unat len) (length (rb_content (rb, m))) \<and>
    rt_ringbuffer_get p len (rb, m) = (of_nat n, rb', m') \<and> rb_ok rb' \<and> rb_cap rb' = rb_cap rb \<and>
    rb_content (rb', m') = drop n (rb_content (rb, m)) \<and>
    map (\<lambda>i. m' (unat p + i)) [0..<n] = take n (rb_content (rb, m)) \<and>
    (\<forall>x. x < unat p \<or> unat p + n \<le> x \<longrightarrow> m' x = m x)"
proof -
  define n where "n = min (unat len) (length (rb_content (rb, m)))"
  have n: "n = min (unat len) (rb_len rb)" by (simp add: n_def)
  have le: "rb_len rb \<le> rb_cap rb" "rb_cap rb < 32768" using rb_len_le[OF ok] rb_cap_less(1)[of rb] by simp_all
  define sz where "sz = rt_ringbuffer_data_len rb"
  have usz: "unat sz = rb_len rb" using le by (simp add: sz_def data_len(1)[OF ok] unat_of_nat take_bit_nat_eq_self)
  show ?thesis
  proof (cases "rb_len rb = 0")
    case True
    then have "sz = 0" using usz by (simp add: unat_eq_0)
    then show ?thesis using True ok by (simp add: rt_ringbuffer_get_def rb_content_def flip: sz_def)
  next
    case False
    define l where "l = (if sz < ucast len then ucast sz else len)"
    have "unat (ucast sz :: u16) = rb_len rb" using usz le by (simp add: unsigned_ucast_eq take_bit_nat_eq_self)
    then have l: "unat l = n" using usz by (auto simp: l_def n word_less_nat_alt min_def)
    have nq: "n \<le> rb_len rb" "n \<le> rb_cap rb" using le by (simp_all add: n)
    have ol: "outside rb p (unat l)" using o by (auto simp: outside_def l n)
    note e = drain_effect[OF rb_base_ok[OF ok] _ ol, of m, unfolded l, OF nq(2)]
    define rb' where "rb' = rb\<lparr>rb_read_mirror := (rb_read_mirror rb \<noteq> (rb_cap rb \<le> unat (rb_read_index rb) + n)),
        rb_read_index := of_nat ((unat (rb_read_index rb) + n) mod rb_cap rb)\<rparr>"
    define m' where "m' = ring_load (unat (rb_buffer_ptr rb)) (rb_cap rb) (unat (rb_read_index rb)) (unat p) n m"
    note w = read_on[OF ok nq(1) rb'_def]
    have "sz \<noteq> 0" using False usz by auto
    moreover have "ucast l = (of_nat n :: u32)" using l by (metis of_nat_unat unat_u16)
    ultimately have "rt_ringbuffer_get p len (rb, m) = (of_nat n, rb', m')"
      using e by (simp add: rt_ringbuffer_get_def Let_def rb'_def m'_def flip: sz_def l_def)
    moreover have f: "rb_buffer_ptr rb' = rb_buffer_ptr rb" by (simp add: rb'_def)
    moreover have "m' (unat (rb_buffer_ptr rb) + j) = m (unat (rb_buffer_ptr rb) + j)" if "j < rb_cap rb" for j
      using o that nq by (auto simp: m'_def ring_load_def outside_def n)
    then have "ring (\<lambda>j. m' (unat (rb_buffer_ptr rb) + j)) (rb_cap rb) s k = ring (\<lambda>j. m (unat (rb_buffer_ptr rb) + j)) (rb_cap rb) s k" for s k
      using ok by (simp add: ring_def rb_ok_def)
    then have "rb_content (rb', m') = drop n (rb_content (rb, m))"
      unfolding rb_content_def split_conv f w by (simp add: ring_drop[OF nq(1)])
    moreover have "map (\<lambda>i. m' (unat p + i)) [0..<n] = take n (rb_content (rb, m))"
      by (rule nth_equalityI) (use nq in \<open>simp_all add: rb_content_def ring_def m'_def ring_load_def\<close>)
    moreover have "\<forall>x. x < unat p \<or> unat p + n \<le> x \<longrightarrow> m' x = m x" by (auto simp: m'_def ring_load_def)
    ultimately show ?thesis using w n_def by blast
  qed
qed

section \<open>Byte by byte: a bounded queue\<close>

lemma index_int: "uint i = int (unat (i :: 15 word))"
  by simp

lemma wrap_one: "w < N \<Longrightarrow> N \<le> Suc w \<Longrightarrow> Suc w mod N = 0"
  by (simp add: le_Suc_eq)

lemma step_write:
  assumes "rb_ok rb"
  shows "rb_step_write rb = rb\<lparr>rb_write_mirror := (rb_write_mirror rb \<noteq> (rb_cap rb \<le> unat (rb_write_index rb) + 1)),
        rb_write_index := of_nat ((unat (rb_write_index rb) + 1) mod rb_cap rb)\<rparr>"
proof -
  have w: "unat (rb_write_index rb) < rb_cap rb" using assms by (simp add: rb_ok_def)
  have "uint (rb_write_index rb) = rb_size rb - 1 \<longleftrightarrow> rb_cap rb \<le> unat (rb_write_index rb) + 1"
    unfolding index_int rb_size_cap[OF assms] using w by linarith
  then show ?thesis using w by (cases "rb_cap rb \<le> unat (rb_write_index rb) + 1") (auto simp: rb_step_write_def of_nat_unat wrap_one)
qed

lemma putchar_law:
  assumes ok: "rb_ok rb"
  shows "rt_ringbuffer_putchar c (rb, m) = (0, rb, m) \<longleftrightarrow> rb_len rb = rb_cap rb"
    "rb_len rb \<noteq> rb_cap rb \<Longrightarrow> \<exists>rb' m'. rt_ringbuffer_putchar c (rb, m) = (1, rb', m') \<and> rb_ok rb' \<and> rb_cap rb' = rb_cap rb \<and>
      rb_content (rb', m') = rb_content (rb, m) @ [c]"
proof -
  have le: "rb_len rb \<le> rb_cap rb" "rb_cap rb < 32768" using rb_len_le[OF ok] rb_cap_less(1)[of rb] by simp_all
  have sp: "rt_ringbuffer_space_len rb = 0 \<longleftrightarrow> rb_len rb = rb_cap rb"
    using le by (simp add: data_len(2)[OF ok] word_unat_eq_iff unat_of_nat take_bit_nat_eq_self eq_commute[of "rb_cap rb"] del: of_nat_diff)
  show "rt_ringbuffer_putchar c (rb, m) = (0, rb, m) \<longleftrightarrow> rb_len rb = rb_cap rb"
    using sp by (simp add: rt_ringbuffer_putchar_def)
  assume f: "rb_len rb \<noteq> rb_cap rb"
  then have one: "1 \<le> rb_cap rb - rb_len rb" using le by simp
  note w = write_on[OF ok one step_write[OF ok]]
  let ?b = "unat (rb_buffer_ptr rb)" and ?w = "unat (rb_write_index rb)"
  have a: "unat (rb_buffer_ptr rb + ucast (rb_write_index rb)) = ?b + ?w"
    using slot_addr[of "rb_buffer_ptr rb" "rb_cap rb" ?w] ok by (simp add: rb_ok_def of_nat_unat)
  have fr: "rb_read_index (rb_step_write rb) = rb_read_index rb" "rb_buffer_ptr (rb_step_write rb) = rb_buffer_ptr rb"
    by (simp_all add: rb_step_write_def)
  have "rb_content (rb_step_write rb, m(?b + ?w := c)) =
      ring ((\<lambda>j. m (?b + j))((unat (rb_read_index rb) + rb_len rb) mod rb_cap rb := c)) (rb_cap rb) (unat (rb_read_index rb)) (Suc (rb_len rb))"
    unfolding rb_content_def split_conv fr w rb_len_index[OF ok]
    unfolding Suc_eq_plus1 by (rule arg_cong[where f = "\<lambda>f. ring f _ _ _"]) (auto simp: fun_eq_iff)
  also have "\<dots> = rb_content (rb, m) @ [c]" using f le by (subst ring_snoc) (simp_all add: rb_content_def)
  finally show "\<exists>rb' m'. rt_ringbuffer_putchar c (rb, m) = (1, rb', m') \<and> rb_ok rb' \<and> rb_cap rb' = rb_cap rb \<and>
      rb_content (rb', m') = rb_content (rb, m) @ [c]"
    using w f sp a by (simp add: rt_ringbuffer_putchar_def)
qed

lemma getchar_law:
  assumes ok: "rb_ok rb"
  shows "rb_len rb = 0 \<Longrightarrow> rt_ringbuffer_getchar (rb, m) = (0, None, rb)"
    "rb_len rb \<noteq> 0 \<Longrightarrow> \<exists>c rb'. rt_ringbuffer_getchar (rb, m) = (1, Some c, rb') \<and> rb_ok rb' \<and> rb_cap rb' = rb_cap rb \<and>
      rb_content (rb, m) = c # rb_content (rb', m)"
proof -
  have le: "rb_len rb \<le> rb_cap rb" "rb_cap rb < 32768" using rb_len_le[OF ok] rb_cap_less(1)[of rb] by simp_all
  have dl: "rt_ringbuffer_data_len rb = 0 \<longleftrightarrow> rb_len rb = 0"
    using le by (simp add: data_len(1)[OF ok] word_unat_eq_iff unat_of_nat take_bit_nat_eq_self)
  then show "rb_len rb = 0 \<Longrightarrow> rt_ringbuffer_getchar (rb, m) = (0, None, rb)" by (simp add: rt_ringbuffer_getchar_def)
  assume f: "rb_len rb \<noteq> 0"
  let ?b = "unat (rb_buffer_ptr rb)" and ?r = "unat (rb_read_index rb)"
  define rb' where "rb' = rb\<lparr>rb_read_mirror := (rb_read_mirror rb \<noteq> (rb_cap rb \<le> ?r + 1)), rb_read_index := of_nat ((?r + 1) mod rb_cap rb)\<rparr>"
  have "1 \<le> rb_len rb" using f by simp
  note w = read_on[OF ok this rb'_def]
  have r: "?r < rb_cap rb" using ok by (simp add: rb_ok_def)
  have "uint (rb_read_index rb) = rb_size rb - 1 \<longleftrightarrow> rb_cap rb \<le> ?r + 1"
    unfolding index_int rb_size_cap[OF ok] using r by linarith
  then have st: "(if uint (rb_read_index rb) = rb_size rb - 1 then rb\<lparr>rb_read_mirror := \<not> rb_read_mirror rb, rb_read_index := 0\<rparr>
            else rb\<lparr>rb_read_index := rb_read_index rb + 1\<rparr>) = rb'"
    using r by (cases "rb_cap rb \<le> ?r + 1") (auto simp: rb'_def of_nat_unat wrap_one)
  have a: "unat (rb_buffer_ptr rb + ucast (rb_read_index rb)) = ?b + ?r"
    using slot_addr[of "rb_buffer_ptr rb" "rb_cap rb" ?r] ok by (simp add: rb_ok_def of_nat_unat)
  have "rb_content (rb, m) = m (?b + ?r) # rb_content (rb', m)"
  proof -
    have "rb_len rb = Suc (rb_len rb - 1)" using f by simp
    then have "rb_content (rb, m) = ring (\<lambda>j. m (?b + j)) (rb_cap rb) ?r (Suc (rb_len rb - 1))" by (simp add: rb_content_def)
    also have "\<dots> = m (?b + ?r) # ring (\<lambda>j. m (?b + j)) (rb_cap rb) ((?r + 1) mod rb_cap rb) (rb_len rb - 1)"
      unfolding ring_pop using r by simp
    finally show ?thesis unfolding rb_content_def split_conv w by (simp add: rb'_def)
  qed
  then show "\<exists>c rb'. rt_ringbuffer_getchar (rb, m) = (1, Some c, rb') \<and> rb_ok rb' \<and> rb_cap rb' = rb_cap rb \<and>
      rb_content (rb, m) = c # rb_content (rb', m)"
    using w dl f st a by (simp add: rt_ringbuffer_getchar_def Let_def)
qed

definition rb_try_put :: "u8 \<Rightarrow> rt_ringbuffer \<times> mem \<Rightarrow> (rt_ringbuffer \<times> mem) option" where
  "rb_try_put c x = (case rt_ringbuffer_putchar c x of (r, x') \<Rightarrow> if r = 0 then None else Some x')"

definition rb_try_get :: "rt_ringbuffer \<times> mem \<Rightarrow> (u8 \<times> rt_ringbuffer \<times> mem) option" where
  "rb_try_get x = (case rt_ringbuffer_getchar x of (r, c, rb) \<Rightarrow> map_option (\<lambda>c. (c, rb, snd x)) c)"

interpretation rbq: fifo "\<lambda>x. rb_ok (fst x)" rb_content "\<lambda>x. rb_cap (fst x)" "\<lambda>x c. True" rb_try_put rb_try_get
proof
  fix x x' :: "rt_ringbuffer \<times> mem" and c :: u8
  assume ok: "rb_ok (fst x)"
  obtain rb m where x: "x = (rb, m)" by (cases x)
  have o: "rb_ok rb" using ok x by simp
  show "length (rb_content x) \<le> rb_cap (fst x)" using rb_len_le[OF o] by (simp add: x)
  show "rb_try_put c x = None \<longleftrightarrow> length (rb_content x) = rb_cap (fst x)"
    using putchar_law[OF o, of c m] by (auto simp: rb_try_put_def x)
  show "rb_try_put c x = Some x' \<Longrightarrow>
      rb_ok (fst x') \<and> rb_content x' = rb_content x @ [c] \<and> rb_cap (fst x') = rb_cap (fst x) \<and> (\<lambda>c. True) = (\<lambda>c. True)"
    using putchar_law[OF o, of c m] by (cases "rb_len rb = rb_cap rb") (auto simp: rb_try_put_def x)
  show "rb_try_get x = None \<longleftrightarrow> rb_content x = []"
    using getchar_law[OF o, of m] by (cases "rb_len rb = 0") (auto simp: rb_try_get_def x rb_content_def)
  show "rb_try_get x = Some (c, x') \<Longrightarrow>
      rb_ok (fst x') \<and> rb_content x = c # rb_content x' \<and> rb_cap (fst x') = rb_cap (fst x) \<and> (\<lambda>c. True) = (\<lambda>c. True)"
    using getchar_law[OF o, of m] by (cases "rb_len rb = 0") (auto simp: rb_try_get_def x)
qed

text \<open>
  In any run of \<^verbatim>\<open>rt_ringbuffer_putchar\<close> and \<^verbatim>\<open>rt_ringbuffer_getchar\<close> on a ring that starts empty, the bytes
  that came out and then the bytes still inside are exactly the bytes accepted, in their order.
\<close>

theorem ring_delivers_in_order:
  assumes "rb_ok rb" "rb_content (rb, m) = []"
    and "fifo_run rb_try_put rb_try_get ops (rb, m) = (x, ins, outs)"
  shows "ins = outs @ rb_content x \<and> rb_ok (fst x) \<and> length (rb_content x) \<le> rb_cap rb"
  using rbq.run_fifo[of "(rb, m)" ops x ins outs] assms by auto

section \<open>The forcing put keeps the newest bytes\<close>

text \<open>The ring after it has been filled beyond its room: full, and starting where the write ended.\<close>

lemma ring_overrun:
  assumes "N < l + n" "l \<le> N" "n \<le> N" "r < N" "w = (r + l) mod N" "w' = (w + n) mod N"
  shows "ring (\<lambda>j. ring_store b N w p n m (b + j)) N w' N =
    drop (l + n - N) (ring (\<lambda>j. m (b + j)) N r l) @ map (\<lambda>i. m (p + i)) [0..<n]"
proof (rule nth_equalityI)
  show "length (ring (\<lambda>j. ring_store b N w p n m (b + j)) N w' N) =
      length (drop (l + n - N) (ring (\<lambda>j. m (b + j)) N r l) @ map (\<lambda>i. m (p + i)) [0..<n])"
    using assms(1-3) by simp
  fix i
  assume "i < length (ring (\<lambda>j. ring_store b N w p n m (b + j)) N w' N)"
  then have i: "i < N" by simp
  have N: "w < N" using assms(4,5) by simp
  define k where "k = (if n + i < N then n + i else n + i - N)"
  have k: "k < N" using i assms(3) unfolding k_def by (split if_split) linarith
  have "(w' + i) mod N = (w + (n + i)) mod N" unfolding assms(6) by (simp add: mod_simps add.assoc)
  also have "\<dots> = (w + k) mod N"
  proof (cases "n + i < N")
    case False
    then have e: "w + (n + i) = w + k + N" by (simp add: k_def)
    show ?thesis unfolding e by (rule mod_add_self2)
  qed (simp add: k_def)
  finally have at: "(w' + i) mod N = (w + k) mod N" .
  have lt: "(w + k) mod N < N" using N by simp
  have "ring_off N w ((w + k) mod N) = k" by (rule ring_off[OF k N])
  then have v: "ring_store b N w p n m (b + (w' + i) mod N) = (if k < n then m (p + k) else m (b + (w + k) mod N))"
    unfolding at by (simp only: store_at(2)[OF lt])
  show "ring (\<lambda>j. ring_store b N w p n m (b + j)) N w' N ! i =
      (drop (l + n - N) (ring (\<lambda>j. m (b + j)) N r l) @ map (\<lambda>i. m (p + i)) [0..<n]) ! i"
  proof (cases "n + i < N")
    case True
    then have old: "i < l - (l + n - N)" "l + n - N + i < l" using assms(1,2) by linarith+
    have "(w + k) mod N = (r + (l + n - N + i)) mod N"
    proof -
      have "(w + k) mod N = (r + l + (n + i)) mod N" unfolding assms(5) using True by (simp add: k_def mod_simps)
      also have "r + l + (n + i) = r + (l + n - N + i) + N" using assms(1) by simp
      finally show ?thesis by simp
    qed
    then show ?thesis using v True old i by (simp add: ring_def nth_append k_def)
  next
    case False
    then have "\<not> i < l - (l + n - N)" "i - (l - (l + n - N)) = k" "k < n" using assms(1-3) i by (simp_all add: k_def)
    then show ?thesis using v i by (simp add: ring_def nth_append)
  qed
qed

lemma write_over:
  assumes ok: "rb_ok rb" and n: "n \<le> rb_cap rb" "rb_cap rb < rb_len rb + n"
    and rb': "rb' = rb\<lparr>rb_write_mirror := (rb_write_mirror rb \<noteq> (rb_cap rb \<le> unat (rb_write_index rb) + n)),
        rb_write_index := of_nat ((unat (rb_write_index rb) + n) mod rb_cap rb)\<rparr>"
    and rb'': "rb'' = (let rb = (if rb_cap rb \<le> unat (rb_write_index rb) + n \<and> rb_write_index rb' \<le> rb_read_index rb'
                  then rb'\<lparr>rb_read_mirror := \<not> rb_read_mirror rb'\<rparr> else rb')
            in rb\<lparr>rb_read_index := rb_write_index rb\<rparr>)"
  shows "rb_ok rb''" "rb_len rb'' = rb_cap rb" "rb_cap rb'' = rb_cap rb" "rb_buffer_ptr rb'' = rb_buffer_ptr rb"
    "unat (rb_read_index rb'') = (unat (rb_write_index rb) + n) mod rb_cap rb"
proof -
  let ?N = "rb_cap rb" and ?w = "unat (rb_write_index rb)" and ?r = "unat (rb_read_index rb)"
  have lt: "?w < ?N" "?r < ?N" "?N < 32768" "0 < rb_size rb" "unat (rb_buffer_ptr rb) + ?N \<le> 4294967296"
    using ok rb_cap_less[of rb] by (simp_all add: rb_ok_def)
  have md: "(?w + n) mod ?N = (if ?N \<le> ?w + n then ?w + n - ?N else ?w + n)" using lt n(1) by (auto simp: mod_if)
  have "(?w + n) mod ?N < 32768" using lt by (metis (no_types) less_trans mod_less_divisor neq0_conv not_less_zero)
  then have w': "unat (rb_write_index rb') = (?w + n) mod ?N" by (simp add: rb' index_of_nat)
  have f: "rb_read_index rb' = rb_read_index rb" "rb_read_mirror rb' = rb_read_mirror rb"
    "rb_write_mirror rb' = (rb_write_mirror rb \<noteq> (?N \<le> ?w + n))" by (simp_all add: rb')
  have g: "rb_write_index rb'' = rb_write_index rb'" "rb_read_index rb'' = rb_write_index rb'" "rb_write_mirror rb'' = rb_write_mirror rb'"
    "rb_read_mirror rb'' = (rb_read_mirror rb \<noteq> (?N \<le> ?w + n \<and> (?w + n) mod ?N \<le> ?r))"
    using w' by (auto simp: rb'' f Let_def word_le_nat_alt)
  show c: "rb_cap rb'' = ?N" "rb_buffer_ptr rb'' = rb_buffer_ptr rb" by (simp_all add: rb'' rb' Let_def rb_cap_def rb_size_def)
  have s: "rb_size rb'' = rb_size rb" by (simp add: rb'' rb' Let_def rb_size_def)
  show "unat (rb_read_index rb'') = (?w + n) mod ?N" by (simp add: g w')
  have "rb_read_mirror rb'' \<noteq> rb_write_mirror rb''"
    using ok n lt unfolding g f md by (auto simp: rb_ok_def rb_len_def word_le_nat_alt split: if_splits)
  moreover have "(?w + n) mod ?N < ?N" using lt by simp
  ultimately show "rb_ok rb''" "rb_len rb'' = ?N" using lt by (simp_all add: rb_ok_def rb_len_def c s g(1,2) w')
qed

text \<open>
  \<^verbatim>\<open>rt_ringbuffer_put_force\<close> never refuses: the ring afterwards holds the last bytes of what it held before
  followed by the new bytes, as many as fit, whatever was overwritten and wherever the indices wrapped.
\<close>

theorem ring_put_force_keeps_newest:
  assumes ok: "rb_ok rb" and o: "outside rb p (unat len)"
  shows "\<exists>rb' m' n. rt_ringbuffer_put_force p len (rb, m) = (n, rb', m') \<and> rb_ok rb' \<and> rb_cap rb' = rb_cap rb \<and>
    unat n = min (unat len) (rb_cap rb) \<and>
    (let new = rb_content (rb, m) @ map (\<lambda>i. m (unat p + i)) [0..<unat len]
     in rb_content (rb', m') = drop (length new - rb_cap rb) new)"
proof -
  let ?N = "rb_cap rb" and ?l = "rb_len rb" and ?w = "unat (rb_write_index rb)" and ?b = "unat (rb_buffer_ptr rb)"
  have le: "?l \<le> ?N" "?N < 32768" "0 < ?N" using rb_len_le[OF ok] rb_cap_less(1)[of rb] ok by (auto simp: rb_ok_def)
  have sz: "rb_size rb = int ?N" by (rule rb_size_cap[OF ok])
  define d where "d = unat len - ?N"
  define p' where "p' = (if uint len > rb_size rb then p + of_int (uint len - rb_size rb) else p)"
  define l' where "l' = (if uint len > rb_size rb then rb_buffer_size rb else len)"
  have ul: "uint len = int (unat len)" by simp
  have big: "uint len > rb_size rb \<longleftrightarrow> ?N < unat len" unfolding sz ul by linarith
  have d': "uint len - rb_size rb = int d" if "?N < unat len" unfolding sz ul d_def using that by linarith
  have ld: "unat len < 65536" using unsigned_less[of len] by simp
  have pd: "unat p' = unat p + d"
  proof (cases "?N < unat len")
    case True
    have "unat (of_nat d :: u32) = d" using ld by (simp add: d_def unat_of_nat take_bit_nat_eq_self)
    moreover have "unat p + d < 4294967296" using o unfolding outside_def d_def by linarith
    ultimately show ?thesis using True big d'[OF True] by (simp add: p'_def unat_word_ariths(1))
  qed (use big in \<open>simp add: p'_def d_def\<close>)
  have bs: "unat (rb_buffer_size rb) = ?N"
  proof -
    have "sint (rb_buffer_size rb) = int ?N" using sz by (simp add: rb_size_def)
    then have "(of_int (sint (rb_buffer_size rb)) :: u16) = of_nat ?N" by simp
    then show ?thesis using le by (simp add: unat_of_nat take_bit_nat_eq_self)
  qed
  have ll: "unat l' = min (unat len) ?N" using big bs by (auto simp: l'_def)
  define n where "n = min (unat len) ?N"
  have nN: "n \<le> ?N" "d + n = unat len" by (simp_all add: n_def d_def)
  have o': "outside rb p' n" using o nN(2) unfolding outside_def pd by auto
  define rb1 where "rb1 = rb\<lparr>rb_write_mirror := (rb_write_mirror rb \<noteq> (?N \<le> ?w + n)), rb_write_index := of_nat ((?w + n) mod ?N)\<rparr>"
  define m1 where "m1 = ring_store ?b ?N ?w (unat p + d) n m"
  have fe: "rb_fill p' l' (rb, m) = (rb1, m1)"
    using fill_effect[OF rb_base_ok[OF ok], of l' p' m] nN(1) o' by (simp add: ll rb1_def m1_def pd flip: n_def)
  have one: "rb_size rb - uint (rb_write_index rb) > uint l' \<longleftrightarrow> \<not> ?N \<le> ?w + n"
  proof -
    have "uint l' = int (unat l')" by simp
    then have "uint l' = int n" using ll n_def by simp
    then show ?thesis unfolding sz index_int by linarith
  qed
  have sp: "unat (ucast (rt_ringbuffer_space_len rb) :: u16) = ?N - ?l"
    using le by (simp add: data_len(2)[OF ok] unsigned_ucast_eq unat_of_nat take_bit_nat_eq_self del: of_nat_diff)
  have over: "ucast (rt_ringbuffer_space_len rb) < l' \<longleftrightarrow> ?N < ?l + n"
    using le(1) by (simp only: word_less_nat_alt sp ll flip: n_def) linarith
  define rb2 where "rb2 = (let rb = (if ?N \<le> ?w + n \<and> rb_write_index rb1 \<le> rb_read_index rb1
                  then rb1\<lparr>rb_read_mirror := \<not> rb_read_mirror rb1\<rparr> else rb1)
            in rb\<lparr>rb_read_index := rb_write_index rb\<rparr>)"
  have pl: "(if uint len > rb_size rb then (p + of_int (uint len - rb_size rb), rb_buffer_size rb) else (p, len)) = (p', l')"
    by (simp only: p'_def l'_def split: if_split) simp
  have ev: "rt_ringbuffer_put_force p len (rb, m) = (ucast l', if ?N < ?l + n then rb2 else rb1, m1)"
    unfolding rt_ringbuffer_put_force_def split_conv Let_def pl fe over one not_not rb2_def by (rule refl)
  have un: "unat (ucast l' :: u32) = n" by (simp add: ll n_def)
  have new: "drop (length (rb_content (rb, m) @ map (\<lambda>i. m (unat p + i)) [0..<unat len]) - ?N)
      (rb_content (rb, m) @ map (\<lambda>i. m (unat p + i)) [0..<unat len]) =
      drop (?l + n - ?N) (rb_content (rb, m)) @ map (\<lambda>i. m (unat p + d + i)) [0..<n]" (is "?L = ?R")
  proof (rule nth_equalityI)
    show "length ?L = length ?R" using nN le by (simp add: n_def)
    show "?L ! i = ?R ! i" if "i < length ?L" for i
      using that nN le(1) by (cases "?N < unat len") (simp_all add: nth_append n_def d_def add.assoc)
  qed
  have goal: "unat (ucast l' :: u32) = min (unat len) ?N" using un by (simp add: n_def)
  show ?thesis
  proof (cases "?N < ?l + n")
    case True
    note w = write_over[OF ok nN(1) True rb1_def rb2_def]
    have "rb_content (rb2, m1) = drop (?l + n - ?N) (rb_content (rb, m)) @ map (\<lambda>i. m (unat p + d + i)) [0..<n]"
      unfolding rb_content_def split_conv w m1_def
      by (rule ring_overrun[OF True le(1) nN(1) _ rb_len_index[OF ok] refl]) (use ok in \<open>simp add: rb_ok_def\<close>)
    then show ?thesis using ev True w(1,3) goal unfolding new[symmetric] Let_def
      by (intro exI[of _ rb2] exI[of _ m1] exI[of _ "ucast l'"]) simp
  next
    case False
    then have fits: "n \<le> ?N - ?l" by linarith
    note w = write_on[OF ok fits rb1_def]
    have f: "rb_read_index rb1 = rb_read_index rb" "rb_buffer_ptr rb1 = rb_buffer_ptr rb" by (simp_all add: rb1_def)
    have "rb_content (rb1, m1) = rb_content (rb, m) @ map (\<lambda>i. m (unat p + d + i)) [0..<n]"
      unfolding rb_content_def split_conv f w m1_def
      by (rule ring_grow) (use False ok rb_len_index[OF ok] in \<open>auto simp: rb_ok_def\<close>)
    then have "rb_content (rb1, m1) = drop (?l + n - ?N) (rb_content (rb, m)) @ map (\<lambda>i. m (unat p + d + i)) [0..<n]"
      using False by simp
    then show ?thesis using ev False w(1,3) goal unfolding new[symmetric] Let_def
      by (intro exI[of _ rb1] exI[of _ m1] exI[of _ "ucast l'"]) simp
  qed
qed

section \<open>A new ring\<close>

text \<open>
  A ring that \<^verbatim>\<open>rt_ringbuffer_init\<close> sets up is empty and in order, provided its pool is at least four bytes:
  for less, the rounding leaves a ring of no bytes.
\<close>

lemma small_sint:
  assumes "unat (w :: u16) < 32768"
  shows "sint w = int (unat w)"
proof -
  have "uint w = int (unat w)" by simp
  then have "uint w < 32768" using assms by linarith
  then have "take_bit 15 (uint w) = uint w" by (simp add: take_bit_int_eq_self)
  moreover from this have "\<not> bit (uint w) 15" by (metis bit_take_bit_iff less_irrefl)
  ultimately show ?thesis by (simp add: sint_uint signed_take_bit_eq_if_positive)
qed

lemma sint_small:
  assumes "0 \<le> sint (w :: u16)"
  shows "unat w < 32768" "sint w = int (unat w)"
proof -
  have "nat (sint w) < 32768" using sint_lt[of w] by simp
  then have "unat (of_nat (nat (sint w)) :: u16) = nat (sint w)" unfolding unat_of_nat by (simp add: take_bit_nat_eq_self)
  moreover have "(of_nat (nat (sint w)) :: u16) = w" using assms by simp
  ultimately have "unat w = nat (sint w)" by (simp only:)
  then show "unat w < 32768" using \<open>nat (sint w) < 32768\<close> by simp
  then show "sint w = int (unat w)" by (rule small_sint)
qed

lemma ring_init_ok:
  assumes "4 \<le> sint sz" "rt_ringbuffer_init pool sz = Some rb" "unat pool + 32768 \<le> 4294967296"
  shows "rb_ok rb \<and> rb_content (rb, m) = []"
proof -
  have "0 \<le> sint sz" using assms(1) by simp
  from sint_small[OF this] have u: "4 \<le> unat sz" "unat sz < 32768" using assms(1) by linarith+
  have "(sz AND 3) OR (sz AND NOT 3) = sz" "(sz AND 3) AND (sz AND NOT 3) = 0"
    by (intro bit_word_eqI; auto simp: bit_simps)+
  then have n: "sz AND NOT 3 = sz - (sz AND 3)" by (metis add_diff_cancel_left' disjunctive_add_eq_or)
  have "sz AND 3 = take_bit 2 sz" by (simp add: take_bit_eq_mask mask_eq_exp_minus_1)
  then have "unat (sz AND 3) = unat sz mod 4" by (simp add: take_bit_eq_mod unat_mod_distrib)
  then have "unat (sz AND 3) \<le> 3" by linarith
  then have v: "0 < unat (sz AND NOT 3)" "unat (sz AND NOT 3) < 32768"
    using u unfolding n by (simp_all add: unat_sub word_le_nat_alt)
  define q where "q = sz AND NOT 3"
  have "0 < sint sz" using assms(1) by linarith
  then have rb: "rb = \<lparr>rb_buffer_ptr = pool, rb_read_mirror = False, rb_read_index = 0, rb_write_mirror = False,
       rb_write_index = 0, rb_buffer_size = q\<rparr>"
    using assms(2) unfolding rt_ringbuffer_init_def q_def by (simp add: kassert_def)
  have "rb_size rb = int (unat q)" unfolding rb_size_def rb q_def using small_sint[OF v(2)] by simp
  moreover from this have "rb_cap rb = unat q" by (simp add: rb_cap_def)
  moreover have "0 < unat q" "unat q < 32768" using v by (simp_all only: q_def)
  ultimately have "0 < rb_size rb" "0 < rb_cap rb" "rb_cap rb < 32768" by linarith+
  then show ?thesis using assms(3)
    by (simp add: rb_ok_def rb_content_def rb_len_def ring_def) (simp add: rb)
qed

lemma ring_of_no_bytes: "\<exists>rb. rt_ringbuffer_init pool 3 = Some rb \<and> rb_size rb = 0 \<and>
    (let (n, rb', m') = rt_ringbuffer_putchar_force c (rb, m) in n = 1 \<and> m' (unat pool) = c)"
  by (simp add: rt_ringbuffer_init_def rb_size_def rt_ringbuffer_putchar_force_def Let_def kassert_def)

text \<open>A ring of eight bytes at \<^verbatim>\<open>0x100\<close>, which the witnesses use.\<close>

definition demo_ring :: rt_ringbuffer where
  "demo_ring = \<lparr>rb_buffer_ptr = 0x100, rb_read_mirror = False, rb_read_index = 5, rb_write_mirror = True,
     rb_write_index = 2, rb_buffer_size = 8\<rparr>"

lemma demo_ring: "rb_ok demo_ring" "rb_cap demo_ring = 8" "rb_len demo_ring = 5" "rb_buffer_ptr demo_ring = 0x100"
  by (simp_all add: demo_ring_def rb_ok_def rb_len_def rb_cap_def rb_size_def)

lemma demo_content: "rb_content (demo_ring, \<lambda>a. 7) = [7, 7, 7, 7, 7]"
  by (simp add: rb_content_def demo_ring ring_def upt_rec)

lemma demo_outside: "n < 100 \<Longrightarrow> outside demo_ring 0x1000 n"
  by (simp add: outside_def demo_ring)

lemma ring_put_appends_witness:
  "\<exists>rb' m'. rt_ringbuffer_put 0x1000 6 (demo_ring, (\<lambda>a. 7)) = (3, rb', m') \<and> rb_content (rb', m') = [7, 7, 7, 7, 7, 7, 7, 7]"
proof -
  have o: "outside demo_ring 0x1000 (unat (6 :: u16))" by (simp add: demo_outside)
  have r: "[0..<3] = [0, 1, 2]" by (simp add: upt_rec)
  show ?thesis using ring_put_appends[OF demo_ring(1) o, of "\<lambda>a. 7"]
    by (elim exE conjE) (simp add: demo_ring demo_content r)
qed

lemma ring_get_takes_witness:
  "\<exists>rb' m'. rt_ringbuffer_get 0x1000 2 (demo_ring, (\<lambda>a. 7)) = (2, rb', m') \<and> m' 0x1001 = 7 \<and> rb_content (rb', m') = [7, 7, 7]"
proof -
  have o: "outside demo_ring 0x1000 (unat (2 :: u16))" by (simp add: demo_outside)
  have r: "[0..<2] = [0, 1]" by (simp add: upt_rec)
  show ?thesis using ring_get_takes[OF demo_ring(1) o, of "\<lambda>a. 7"]
    by (elim exE conjE) (simp add: demo_ring demo_content r)
qed

lemma ring_put_force_keeps_newest_witness:
  "\<exists>n rb' m'. rt_ringbuffer_put_force 0x1000 6 (demo_ring, (\<lambda>a. 7)) = (n, rb', m') \<and> unat n = 6 \<and>
    rb_content (rb', m') = [7, 7, 7, 7, 7, 7, 7, 7]"
proof -
  have o: "outside demo_ring 0x1000 (unat (6 :: u16))" by (simp add: demo_outside)
  have r: "[0..<6] = [0, 1, 2, 3, 4, 5]" by (simp add: upt_rec)
  show ?thesis using ring_put_force_keeps_newest[OF demo_ring(1) o, of "\<lambda>a. 7"]
    by (elim exE conjE) (simp add: demo_ring demo_content Let_def r)
qed

lemma ring_delivers_in_order_witness:
  "\<exists>x ins outs. fifo_run rb_try_put rb_try_get [Put 1, Put 2, Get] (rt_ringbuffer_reset demo_ring, (\<lambda>a. 7)) = (x, ins, outs) \<and>
    ins = outs @ rb_content x \<and> ins = [1, 2]"
proof -
  let ?x = "(rt_ringbuffer_reset demo_ring, (\<lambda>a. 7) :: mem)"
  obtain x ins outs where r: "fifo_run rb_try_put rb_try_get [Put 1, Put 2, Get] ?x = (x, ins, outs)" by (metis prod_cases3)
  have ok: "rb_ok (rt_ringbuffer_reset demo_ring)" "rb_content ?x = []"
    by (simp_all add: demo_ring_def rt_ringbuffer_reset_def rb_ok_def rb_size_def rb_cap_def rb_content_def rb_len_def ring_def)
  have "ins = [1, 2]" using r
    by (auto simp: rb_try_put_def rb_try_get_def rt_ringbuffer_putchar_def rt_ringbuffer_getchar_def demo_ring_def
      rt_ringbuffer_reset_def rt_ringbuffer_space_len_def rt_ringbuffer_data_len_def rt_ringbuffer_status_def rb_size_def rb_step_write_def)
  then show ?thesis using r ring_delivers_in_order[OF ok r] by blast
qed

end
