(* ===== verification/Completion.thy ===== *)
theory Completion
  imports IpcBase
begin

text \<open>
  \<^verbatim>\<open>components/drivers/ipc/completion.c\<close>: a flag that one thread waits for and somebody else sets. The
  blocking step is the one the data queues share. A completion at address \<open>x\<close> has its wait list at
  \<open>Susp x\<close> of the kernel.
\<close>

section \<open>Waiting in a driver\<close>

text \<open>Reset the error of the caller, put it at the end of the list, arm its timer for a positive timeout.\<close>

definition dev_wait :: "lhead \<Rightarrow> tid \<Rightarrow> int \<Rightarrow> kstate \<Rightarrow> kstate option" where
  "dev_wait h t time s = do {
     let s = upd_thread t (\<lambda>th. th\<lparr>th_error := RT_EOK\<rparr>) s;
     (_, s) \<leftarrow> rt_thread_suspend t s;
     let s = s\<lparr>klists := ll_insert_before h t (klists s)\<rparr>;
     if time > 0 then thread_timer_arm t (of_int time) s else Some s
   }"

text \<open>Wake the first thread of the list, if there is one, and let it run if it is preferable.\<close>

definition dev_wake :: "lhead \<Rightarrow> kstate \<Rightarrow> kstate option" where
  "dev_wake h s =
    (case klists s h of
       [] \<Rightarrow> Some s
     | t # _ \<Rightarrow> do { (_, s) \<leftarrow> rt_thread_resume t s; rt_schedule s })"

lemma dev_wait_eq: "dev_wait h t time s = ipc_wait h t RT_IPC_FLAG_FIFO time (upd_thread t (\<lambda>th. th\<lparr>th_error := RT_EOK\<rparr>) s)"
  by (simp add: dev_wait_def ipc_wait_def do_ipc_list_suspend_def Let_def case_prod_beta split: bind_splits)

lemma dev_wake_eq: "dev_wake h s = wake_one h s"
  by (cases "klists s h") (simp_all add: dev_wake_def wake_one_def do_ipc_list_resume_def case_prod_beta split: bind_splits)

text \<open>A thread that may call a blocking operation with timeout \<open>time\<close>, between two calls of the kernel.\<close>

definition may_block :: "tid \<Rightarrow> int \<Rightarrow> kstate \<Rightarrow> bool" where
  "may_block t time s \<longleftrightarrow> kern_wf s \<and> stacks_ok s \<and> cur s = Some t \<and> tstat s t = RT_THREAD_RUNNING \<and>
     lock_nest s = 0 \<and> int_nest s = 0 \<and> ready_group s \<noteq> 0 \<and> time_ok time"

lemma may_block_calls:
  assumes "may_block t time s"
  shows "kern_wf s" "stacks_ok s" "cur s \<noteq> None" "scheduler_available b s" "rt_thread_self s = Some t" "t \<notin> set (klists s h)"
  using assms running_not_waiting[of s t h]
  by (simp_all add: may_block_def scheduler_available_def in_thread_context_def not_in_interrupt_def rt_thread_self_def)

lemma dev_wait_switch:
  assumes m: "may_block t time s" and h: "wait_head h"
  shows "\<exists>s1 s'. dev_wait h t time s = Some s1 \<and> rt_schedule s1 = Some s' \<and> kern_wf s' \<and> stacks_ok s' \<and>
    (\<exists>u. cur s' = Some u \<and> u \<noteq> t) \<and> tstat s' t = RT_THREAD_SUSPEND \<and>
    (\<forall>u. th_error (threads s' u) = (if u = t then RT_EOK else th_error (threads s u))) \<and>
    (\<forall>g. wait_head g \<longrightarrow> klists s' g = (if g = h then klists s h @ [t] else klists s g)) \<and>
    (0 < time \<longrightarrow> tm_timeout_tick (timers s' (TimerOf t)) = tick s + of_int time)"
proof -
  have m': "kern_wf s" "cur s = Some t" "tstat s t = RT_THREAD_RUNNING" "stacks_ok s" "lock_nest s = 0" "ready_group s \<noteq> 0" "time_ok time"
    using m by (simp_all add: may_block_def)
  let ?s = "upd_thread t (\<lambda>th. th\<lparr>th_error := RT_EOK\<rparr>) s"
  have k0: "kern_wf ?s" "stacks_ok ?s" "cur ?s = Some t" "tstat ?s t = RT_THREAD_RUNNING" "lock_nest ?s = 0" "ready_group ?s \<noteq> 0"
    using m' by (simp_all add: kern_inv_error)
  obtain s1 s' u where b: "ipc_wait h t RT_IPC_FLAG_FIFO time ?s = Some s1" "rt_schedule s1 = Some s'" "kern_wf s'" "stacks_ok s'"
    "cur s' = Some u" "u \<noteq> t" "tstat s' t = RT_THREAD_SUSPEND" "no_kern s' = no_kern ?s"
    "\<forall>g. wait_head g \<longrightarrow> klists s' g = (if g = h then wait_insert (prio ?s) RT_IPC_FLAG_FIFO t (klists ?s h) else klists ?s g)"
    "0 < time \<longrightarrow> has_flag RT_TIMER_FLAG_ACTIVATED (TimerOf t) s' \<and> tm_timeout_tick (timers s' (TimerOf t)) = tick ?s + of_int time"
    using block_and_switch[OF k0(1,3,4) h k0(2,5,6) disjI1[OF refl] m'(7)] by blast
  have "th_error (threads s' v) = (if v = t then RT_EOK else th_error (threads s v))" for v
    using no_kern_thread(2)[OF b(8), of v] by (simp add: upd_thread_def)
  then show ?thesis using b by (intro exI[of _ s1] exI[of _ s']) (simp add: dev_wait_eq wait_insert_def)
qed

section \<open>Completions\<close>

abbreviation (input) RT_COMPLETED :: u32 where "RT_COMPLETED \<equiv> 1"
abbreviation (input) RT_UNCOMPLETED :: u32 where "RT_UNCOMPLETED \<equiv> 0"

record cstate =
  ck :: kstate
  cflag :: "nat \<Rightarrow> u32"

definition rt_completion_init :: "nat \<Rightarrow> cstate \<Rightarrow> cstate" where
  "rt_completion_init x c = c\<lparr>ck := (ck c)\<lparr>klists := (klists (ck c))(Susp x := [])\<rparr>, cflag := (cflag c)(x := RT_UNCOMPLETED)\<rparr>"

definition rt_completion_wait :: "nat \<Rightarrow> int \<Rightarrow> cstate \<Rightarrow> ((int, tid) outcome \<times> cstate) option" where
  "rt_completion_wait x timeout c = do {
     _ \<leftarrow> kassert (scheduler_available (timeout \<noteq> 0) (ck c));
     if cflag c x \<noteq> RT_COMPLETED then do {
       _ \<leftarrow> kassert (klists (ck c) (Susp x) = []);
       if timeout = 0 then Some (Done (- RT_ETIMEOUT), c)
       else do {
         t \<leftarrow> rt_thread_self (ck c);
         k1 \<leftarrow> dev_wait (Susp x) t timeout (ck c);
         k2 \<leftarrow> rt_schedule k1;
         Some (Blocked t, c\<lparr>ck := k2\<rparr>)
       }
     } else Some (Done RT_EOK, c\<lparr>cflag := (cflag c)(x := RT_UNCOMPLETED)\<rparr>)
   }"

text \<open>The rest of a blocked wait: the flag is cleared whatever woke the thread.\<close>

definition rt_completion_wait_resume :: "nat \<Rightarrow> tid \<Rightarrow> cstate \<Rightarrow> int \<times> cstate" where
  "rt_completion_wait_resume x t c = (th_error (threads (ck c) t), c\<lparr>cflag := (cflag c)(x := RT_UNCOMPLETED)\<rparr>)"

definition rt_completion_done :: "nat \<Rightarrow> cstate \<Rightarrow> cstate option" where
  "rt_completion_done x c =
    (if cflag c x = RT_COMPLETED then Some c
     else do {
       k \<leftarrow> dev_wake (Susp x) (ck c);
       Some (c\<lparr>ck := k, cflag := (cflag c)(x := RT_COMPLETED)\<rparr>)
     })"

section \<open>Correctness\<close>

text \<open>At most one thread waits, without an error, and only while the flag is clear.\<close>

definition completion_ok :: "nat \<Rightarrow> cstate \<Rightarrow> bool" where
  "completion_ok x c \<longleftrightarrow> cflag c x \<in> {RT_COMPLETED, RT_UNCOMPLETED} \<and> length (klists (ck c) (Susp x)) \<le> 1 \<and>
     (cflag c x = RT_COMPLETED \<longrightarrow> klists (ck c) (Susp x) = []) \<and>
     (\<forall>t\<in>set (klists (ck c) (Susp x)). th_error (threads (ck c) t) = RT_EOK)"

text \<open>
  \<^verbatim>\<open>rt_completion_wait\<close> with nobody waiting: a set flag is taken, a clear one refuses a zero timeout and
  makes the caller wait for any other, with its timer armed for a positive one. The invariants are kept.
\<close>

theorem completion_wait_refines:
  assumes "may_block t timeout (ck c)" "completion_ok x c" "klists (ck c) (Susp x) = []"
  shows "\<exists>out c'. rt_completion_wait x timeout c = Some (out, c') \<and> kern_wf (ck c') \<and> stacks_ok (ck c') \<and> completion_ok x c' \<and>
    cflag c' x = RT_UNCOMPLETED \<and>
    (if cflag c x = RT_COMPLETED then out = Done RT_EOK \<and> ck c' = ck c
     else if timeout = 0 then out = Done (- RT_ETIMEOUT) \<and> c' = c
     else out = Blocked t \<and> klists (ck c') (Susp x) = [t] \<and> tstat (ck c') t = RT_THREAD_SUSPEND \<and>
       (\<exists>u. cur (ck c') = Some u \<and> u \<noteq> t) \<and>
       (0 < timeout \<longrightarrow> tm_timeout_tick (timers (ck c') (TimerOf t)) = tick (ck c) + of_int timeout))"
proof -
  note mb = may_block_calls[OF assms(1)]
  have wh: "wait_head (Susp x)" by (simp add: wait_head_def)
  show ?thesis
  proof (cases "cflag c x = RT_COMPLETED \<or> timeout = 0")
    case True
    then show ?thesis using mb assms(2,3) by (auto simp: rt_completion_wait_def completion_ok_def)
  next
    case False
    obtain k1 k2 where w: "dev_wait (Susp x) t timeout (ck c) = Some k1" "rt_schedule k1 = Some k2" "kern_wf k2" "stacks_ok k2"
      "\<exists>u. cur k2 = Some u \<and> u \<noteq> t" "tstat k2 t = RT_THREAD_SUSPEND"
      "\<forall>u. th_error (threads k2 u) = (if u = t then RT_EOK else th_error (threads (ck c) u))"
      "\<forall>g. wait_head g \<longrightarrow> klists k2 g = (if g = Susp x then klists (ck c) (Susp x) @ [t] else klists (ck c) g)"
      "0 < timeout \<longrightarrow> tm_timeout_tick (timers k2 (TimerOf t)) = tick (ck c) + of_int timeout"
      using dev_wait_switch[OF assms(1) wh] by blast
    have "rt_completion_wait x timeout c = Some (Blocked t, c\<lparr>ck := k2\<rparr>)"
      using False mb assms(3) w(1,2) by (simp add: rt_completion_wait_def)
    then show ?thesis using False w(3-9) wh assms(2,3) by (intro exI[of _ "Blocked t"] exI[of _ "c\<lparr>ck := k2\<rparr>"]) (simp add: completion_ok_def)
  qed
qed

text \<open>
  \<^verbatim>\<open>rt_completion_done\<close> loses no wake-up: the flag is set, the waiting thread, if there is one, becomes
  ready and nobody waits any more; when that thread goes on, its wait is answered with \<open>RT_EOK\<close> and the flag is
  clear again, and a thread that comes only then finds the flag and does not wait.
\<close>

theorem completion_done_wakes:
  assumes "kern_wf (ck c)" "stacks_ok (ck c)" "cur (ck c) \<noteq> None" "completion_ok x c"
  shows "\<exists>c'. rt_completion_done x c = Some c' \<and> kern_wf (ck c') \<and> stacks_ok (ck c') \<and> completion_ok x c' \<and>
    cflag c' x = RT_COMPLETED \<and> klists (ck c') (Susp x) = [] \<and>
    (\<forall>w. klists (ck c) (Susp x) = [w] \<longrightarrow> tstat (ck c') w \<in> {RT_THREAD_READY, RT_THREAD_RUNNING} \<and>
       rt_completion_wait_resume x w c' = (RT_EOK, c'\<lparr>cflag := (cflag c')(x := RT_UNCOMPLETED)\<rparr>)) \<and>
    (\<forall>timeout. scheduler_available (timeout \<noteq> 0) (ck c') \<longrightarrow>
       rt_completion_wait x timeout c' = Some (Done RT_EOK, c'\<lparr>cflag := (cflag c')(x := RT_UNCOMPLETED)\<rparr>))"
proof (cases "cflag c x = RT_COMPLETED")
  case True
  then show ?thesis using assms by (intro exI[of _ c]) (auto simp: rt_completion_done_def completion_ok_def rt_completion_wait_def)
next
  case False
  have wh: "wait_head (Susp x)" by (simp add: wait_head_def)
  obtain k where k: "wake_one (Susp x) (ck c) = Some k" "kern_wf k" "stacks_ok k" "no_kern k = no_kern (ck c)"
    "\<forall>g. wait_head g \<longrightarrow> klists k g = (if g = Susp x then tl (klists (ck c) (Susp x)) else klists (ck c) g)"
    "\<forall>t ts. klists (ck c) (Susp x) = t # ts \<longrightarrow> tstat k t \<in> {RT_THREAD_READY, RT_THREAD_RUNNING}"
    using wake_one_kern[OF assms(1-3) wh] by blast
  let ?c = "c\<lparr>ck := k, cflag := (cflag c)(x := RT_COMPLETED)\<rparr>"
  have "length (klists (ck c) (Susp x)) \<le> 1" using assms(4) by (simp add: completion_ok_def)
  then have nil: "klists k (Susp x) = []" using k(5) wh by (cases "klists (ck c) (Susp x)") simp_all
  have err: "th_error (threads k w) = th_error (threads (ck c) w)" for w by (rule no_kern_thread(2)[OF k(4)])
  have "rt_completion_done x c = Some ?c" using False k(1) by (simp add: rt_completion_done_def dev_wake_eq)
  then show ?thesis using k(2,3,6) nil err assms(4)
    by (intro exI[of _ ?c]) (simp add: completion_ok_def rt_completion_wait_def rt_completion_wait_resume_def)
qed

text \<open>
  A wait that times out clears the flag as well: a completion that is signalled between the timeout of the
  waiter and the moment it runs again is lost.
\<close>

lemma completion_lost:
  assumes "rt_completion_done x c = Some c'" "th_error (threads (ck c') w) = - RT_ETIMEOUT"
  shows "\<exists>c''. rt_completion_wait_resume x w c' = (- RT_ETIMEOUT, c'') \<and> cflag c'' x = RT_UNCOMPLETED"
  using assms by (simp add: rt_completion_wait_resume_def)

definition cdemo :: cstate where
  "cdemo = \<lparr>ck = idemo, cflag = (\<lambda>_. RT_UNCOMPLETED)\<rparr>"

lemma idemo_may_block: "time_ok time \<Longrightarrow> may_block 2 time idemo"
  using idemo_wf idemo_stacks by (simp add: may_block_def)

lemma cdemo_ok: "completion_ok 50 cdemo" "klists (ck cdemo) (Susp 50) = []"
  by (simp_all add: cdemo_def completion_ok_def)

lemma cdemo_may_block: "may_block 2 5 (ck cdemo)"
  using idemo_may_block[of 5] by (simp add: cdemo_def time_ok_def)

theorem completion_wait_refines_witness:
  "\<exists>c'. rt_completion_wait 50 5 cdemo = Some (Blocked 2, c') \<and> klists (ck c') (Susp 50) = [2]"
  using completion_wait_refines[OF cdemo_may_block cdemo_ok] by (auto simp: cdemo_def)

definition cwait :: cstate where
  "cwait = \<lparr>ck = the (do { k \<leftarrow> dev_wait (Susp 50) 2 5 idemo; rt_schedule k }), cflag = (\<lambda>_. RT_UNCOMPLETED)\<rparr>"

lemma cwait_ok: "kern_wf (ck cwait)" "stacks_ok (ck cwait)" "cur (ck cwait) \<noteq> None" "completion_ok 50 cwait" "klists (ck cwait) (Susp 50) = [2]"
proof -
  have "wait_head (Susp 50)" by (simp add: wait_head_def)
  then obtain s1 s' where "dev_wait (Susp 50) 2 5 idemo = Some s1" "rt_schedule s1 = Some s'" "kern_wf s'" "stacks_ok s'"
    "\<exists>u. cur s' = Some u \<and> u \<noteq> 2" "th_error (threads s' 2) = RT_EOK" "klists s' (Susp 50) = klists idemo (Susp 50) @ [2]"
    using dev_wait_switch[of 2 5 idemo "Susp 50"] idemo_may_block[of 5] by (auto simp: time_ok_def)
  then show "kern_wf (ck cwait)" "stacks_ok (ck cwait)" "cur (ck cwait) \<noteq> None" "completion_ok 50 cwait" "klists (ck cwait) (Susp 50) = [2]"
    using cdemo_ok(2) by (auto simp: cwait_def completion_ok_def cdemo_def)
qed

theorem completion_done_wakes_witness:
  "\<exists>c. rt_completion_done 50 cwait = Some c \<and> tstat (ck c) 2 \<in> {RT_THREAD_READY, RT_THREAD_RUNNING} \<and>
    fst (rt_completion_wait_resume 50 2 c) = RT_EOK"
  using completion_done_wakes[OF cwait_ok(1-4)] cwait_ok(5) by auto

end
