(* ===== verification/DataQueue.thy ===== *)
theory DataQueue
  imports Completion Fifo
begin

text \<open>
  \<^verbatim>\<open>components/drivers/ipc/dataqueue.c\<close>: a circular queue of pairs of a pointer and a size, with threads
  that wait to push and to pop, a low water mark, and a callback for its owner. The indices are the 15-bit
  fields of the structure. The buffer implements the contract of \<open>Fifo\<close>; the calls are shown on every branch.
\<close>

section \<open>The queue\<close>

abbreviation (input) DATAQUEUE_MAGIC :: u32 where "DATAQUEUE_MAGIC \<equiv> 0xbead0e0e"
abbreviation (input) RT_DATAQUEUE_EVENT_POP :: u32 where "RT_DATAQUEUE_EVENT_POP \<equiv> 1"
abbreviation (input) RT_DATAQUEUE_EVENT_PUSH :: u32 where "RT_DATAQUEUE_EVENT_PUSH \<equiv> 2"
abbreviation (input) RT_DATAQUEUE_EVENT_LWM :: u32 where "RT_DATAQUEUE_EVENT_LWM \<equiv> 3"

text \<open>A \<^verbatim>\<open>struct rt_data_item\<close> is the pair of its fields.\<close>

record rt_data_queue =
  dq_magic :: u32
  dq_size :: u16
  dq_lwm :: u16
  dq_get_index :: "15 word"
  dq_is_empty :: bool
  dq_put_index :: "15 word"
  dq_is_full :: bool
  dq_queue :: "nat \<Rightarrow> u32 \<times> u32"
  dq_evt_notify :: "nat option"

text \<open>An index beyond the array would be an access out of range.\<close>

definition dq_store :: "u32 \<times> u32 \<Rightarrow> rt_data_queue \<Rightarrow> rt_data_queue option" where
  "dq_store item q = do {
     _ \<leftarrow> kassert (unat (dq_put_index q) < unat (dq_size q));
     let q = q\<lparr>dq_queue := (dq_queue q)(unat (dq_put_index q) := item)\<rparr>;
     let q = q\<lparr>dq_put_index := dq_put_index q + 1\<rparr>;
     let q = (if unat (dq_put_index q) = unat (dq_size q) then q\<lparr>dq_put_index := 0\<rparr> else q);
     let q = q\<lparr>dq_is_empty := False\<rparr>;
     Some (if dq_put_index q = dq_get_index q then q\<lparr>dq_is_full := True\<rparr> else q)
   }"

definition dq_fetch :: "rt_data_queue \<Rightarrow> ((u32 \<times> u32) \<times> rt_data_queue) option" where
  "dq_fetch q = do {
     _ \<leftarrow> kassert (unat (dq_get_index q) < unat (dq_size q));
     let item = dq_queue q (unat (dq_get_index q));
     let q = q\<lparr>dq_get_index := dq_get_index q + 1\<rparr>;
     let q = (if unat (dq_get_index q) = unat (dq_size q) then q\<lparr>dq_get_index := 0\<rparr> else q);
     let q = q\<lparr>dq_is_full := False\<rparr>;
     Some (item, if dq_put_index q = dq_get_index q then q\<lparr>dq_is_empty := True\<rparr> else q)
   }"

definition rt_data_queue_len :: "rt_data_queue \<Rightarrow> u16 option" where
  "rt_data_queue_len q = do {
     _ \<leftarrow> kassert (dq_magic q = DATAQUEUE_MAGIC);
     Some (if dq_is_empty q then 0
       else if dq_put_index q > dq_get_index q then ucast (dq_put_index q) - ucast (dq_get_index q)
       else dq_size q + ucast (dq_put_index q) - ucast (dq_get_index q))
   }"

definition rt_data_queue_peek :: "rt_data_queue \<Rightarrow> (int \<times> (u32 \<times> u32) option) option" where
  "rt_data_queue_peek q = do {
     _ \<leftarrow> kassert (dq_magic q = DATAQUEUE_MAGIC);
     if dq_is_empty q then Some (- RT_EEMPTY, None)
     else do {
       _ \<leftarrow> kassert (unat (dq_get_index q) < unat (dq_size q));
       Some (RT_EOK, Some (dq_queue q (unat (dq_get_index q))))
     }
   }"

definition dq_clear :: "rt_data_queue \<Rightarrow> rt_data_queue" where
  "dq_clear q = q\<lparr>dq_get_index := 0, dq_put_index := 0, dq_is_empty := True, dq_is_full := False\<rparr>"

section \<open>Operations\<close>

text \<open>
  The queue at address \<open>x\<close> keeps the threads that wait to pop in \<open>Susp x\<close> and those that wait to push in
  \<open>SuspSender x\<close>. A callback is known by its address; what the owner's function does is the argument \<open>cb\<close>.
\<close>

record dstate =
  dk :: kstate
  dqs :: "nat \<Rightarrow> rt_data_queue"

type_synonym dq_callback = "nat \<Rightarrow> nat \<Rightarrow> u32 \<Rightarrow> dstate \<Rightarrow> dstate option"

definition upd_dq :: "nat \<Rightarrow> (rt_data_queue \<Rightarrow> rt_data_queue) \<Rightarrow> dstate \<Rightarrow> dstate" where
  "upd_dq x f d = d\<lparr>dqs := (dqs d)(x := f (dqs d x))\<rparr>"

definition dq_notify :: "dq_callback \<Rightarrow> nat \<Rightarrow> u32 \<Rightarrow> dstate \<Rightarrow> dstate option" where
  "dq_notify cb x event d = (case dq_evt_notify (dqs d x) of None \<Rightarrow> Some d | Some f \<Rightarrow> cb f x event d)"

text \<open>\<open>area\<close> is the answer of the allocator for the array.\<close>

definition rt_data_queue_init :: "nat \<Rightarrow> u16 \<Rightarrow> u16 \<Rightarrow> nat option \<Rightarrow> (nat \<Rightarrow> u32 \<times> u32) option \<Rightarrow> dstate \<Rightarrow> (int \<times> dstate) option" where
  "rt_data_queue_init x sz lwm notify area d = do {
     _ \<leftarrow> kassert (sz > 0);
     let d = upd_dq x (\<lambda>q. dq_clear (q\<lparr>dq_evt_notify := notify, dq_magic := DATAQUEUE_MAGIC, dq_size := sz, dq_lwm := lwm\<rparr>)) d;
     let d = d\<lparr>dk := (dk d)\<lparr>klists := (klists (dk d))(SuspSender x := [], Susp x := [])\<rparr>\<rparr>;
     case area of
       None \<Rightarrow> Some (- RT_ENOMEM, d)
     | Some a \<Rightarrow> Some (RT_EOK, upd_dq x (\<lambda>q. q\<lparr>dq_queue := a\<rparr>) d)
   }"

text \<open>The loop from a test of its condition to the next wait or to the end; a retry keeps the whole timeout.\<close>

definition dq_push_loop :: "dq_callback \<Rightarrow> nat \<Rightarrow> tid option \<Rightarrow> u32 \<times> u32 \<Rightarrow> int \<Rightarrow> dstate \<Rightarrow>
    ((int, tid \<times> (u32 \<times> u32) \<times> int) outcome \<times> dstate) option" where
  "dq_push_loop cb x thr item timeout d =
    (if dq_is_full (dqs d x) then
       if timeout = 0 then Some (Done (- RT_ETIMEOUT), d)
       else do {
         t \<leftarrow> thr;
         k1 \<leftarrow> dev_wait (SuspSender x) t timeout (dk d);
         k2 \<leftarrow> rt_schedule k1;
         Some (Blocked (t, item, timeout), d\<lparr>dk := k2\<rparr>)
       }
     else do {
       q \<leftarrow> dq_store item (dqs d x);
       let d = upd_dq x (\<lambda>_. q) d;
       if klists (dk d) (Susp x) \<noteq> [] then do {
         k \<leftarrow> dev_wake (Susp x) (dk d);
         Some (Done RT_EOK, d\<lparr>dk := k\<rparr>)
       } else do {
         d \<leftarrow> dq_notify cb x RT_DATAQUEUE_EVENT_PUSH d;
         Some (Done RT_EOK, d)
       }
     })"

definition rt_data_queue_push :: "dq_callback \<Rightarrow> nat \<Rightarrow> u32 \<Rightarrow> u32 \<Rightarrow> int \<Rightarrow> dstate \<Rightarrow>
    ((int, tid \<times> (u32 \<times> u32) \<times> int) outcome \<times> dstate) option" where
  "rt_data_queue_push cb x data_ptr data_size timeout d = do {
     _ \<leftarrow> kassert (dq_magic (dqs d x) = DATAQUEUE_MAGIC);
     _ \<leftarrow> kassert (scheduler_available (timeout \<noteq> 0) (dk d));
     dq_push_loop cb x (rt_thread_self (dk d)) (data_ptr, data_size) timeout d
   }"

definition rt_data_queue_push_resume :: "dq_callback \<Rightarrow> nat \<Rightarrow> tid \<times> (u32 \<times> u32) \<times> int \<Rightarrow> dstate \<Rightarrow>
    ((int, tid \<times> (u32 \<times> u32) \<times> int) outcome \<times> dstate) option" where
  "rt_data_queue_push_resume cb x loc d = (case loc of (t, item, timeout) \<Rightarrow>
     if th_error (threads (dk d) t) \<noteq> RT_EOK then Some (Done (th_error (threads (dk d) t)), d)
     else dq_push_loop cb x (Some t) item timeout d)"

definition dq_pop_loop :: "dq_callback \<Rightarrow> nat \<Rightarrow> tid option \<Rightarrow> int \<Rightarrow> dstate \<Rightarrow>
    ((int \<times> (u32 \<times> u32) option, tid \<times> int) outcome \<times> dstate) option" where
  "dq_pop_loop cb x thr timeout d =
    (if dq_is_empty (dqs d x) then
       if timeout = 0 then Some (Done (- RT_ETIMEOUT, None), d)
       else do {
         t \<leftarrow> thr;
         k1 \<leftarrow> dev_wait (Susp x) t timeout (dk d);
         k2 \<leftarrow> rt_schedule k1;
         Some (Blocked (t, timeout), d\<lparr>dk := k2\<rparr>)
       }
     else do {
       (item, q) \<leftarrow> dq_fetch (dqs d x);
       let d = upd_dq x (\<lambda>_. q) d;
       len \<leftarrow> rt_data_queue_len (dqs d x);
       if len \<le> dq_lwm (dqs d x) then do {
         k \<leftarrow> dev_wake (SuspSender x) (dk d);
         d \<leftarrow> dq_notify cb x RT_DATAQUEUE_EVENT_LWM (d\<lparr>dk := k\<rparr>);
         Some (Done (RT_EOK, Some item), d)
       } else do {
         d \<leftarrow> dq_notify cb x RT_DATAQUEUE_EVENT_POP d;
         Some (Done (RT_EOK, Some item), d)
       }
     })"

definition rt_data_queue_pop :: "dq_callback \<Rightarrow> nat \<Rightarrow> int \<Rightarrow> dstate \<Rightarrow>
    ((int \<times> (u32 \<times> u32) option, tid \<times> int) outcome \<times> dstate) option" where
  "rt_data_queue_pop cb x timeout d = do {
     _ \<leftarrow> kassert (dq_magic (dqs d x) = DATAQUEUE_MAGIC);
     _ \<leftarrow> kassert (scheduler_available (timeout \<noteq> 0) (dk d));
     dq_pop_loop cb x (rt_thread_self (dk d)) timeout d
   }"

definition rt_data_queue_pop_resume :: "dq_callback \<Rightarrow> nat \<Rightarrow> tid \<times> int \<Rightarrow> dstate \<Rightarrow>
    ((int \<times> (u32 \<times> u32) option, tid \<times> int) outcome \<times> dstate) option" where
  "rt_data_queue_pop_resume cb x loc d = (case loc of (t, timeout) \<Rightarrow>
     if th_error (threads (dk d) t) \<noteq> RT_EOK then Some (Done (th_error (threads (dk d) t), None), d)
     else dq_pop_loop cb x (Some t) timeout d)"

text \<open>Both loops that wake the waiters are those of the IPC objects.\<close>

definition rt_data_queue_reset :: "nat \<Rightarrow> dstate \<Rightarrow> dstate option" where
  "rt_data_queue_reset x d = do {
     _ \<leftarrow> kassert (dq_magic (dqs d x) = DATAQUEUE_MAGIC);
     let d = upd_dq x dq_clear d;
     k \<leftarrow> do_ipc_list_resume_all (Susp x) (rt_enter_critical (dk d));
     k \<leftarrow> do_ipc_list_resume_all (SuspSender x) k;
     k \<leftarrow> rt_exit_critical k;
     k \<leftarrow> rt_schedule k;
     Some (d\<lparr>dk := k\<rparr>)
   }"

text \<open>The array goes back to the allocator, which is outside of this state.\<close>

definition rt_data_queue_deinit :: "nat \<Rightarrow> dstate \<Rightarrow> (int \<times> dstate) option" where
  "rt_data_queue_deinit x d = do {
     _ \<leftarrow> kassert (dq_magic (dqs d x) = DATAQUEUE_MAGIC);
     d \<leftarrow> rt_data_queue_reset x d;
     Some (RT_EOK, upd_dq x (\<lambda>q. q\<lparr>dq_magic := 0\<rparr>) d)
   }"

section \<open>The buffer implements the queue\<close>

text \<open>
  The bound on the size is what the 15-bit indices can address; see \<open>dq_len_wrong\<close> below for larger queues.
\<close>

definition dq_count :: "rt_data_queue \<Rightarrow> nat" where
  "dq_count q =
    (if dq_is_empty q then 0
     else if dq_put_index q > dq_get_index q then unat (dq_put_index q) - unat (dq_get_index q)
     else unat (dq_size q) + unat (dq_put_index q) - unat (dq_get_index q))"

definition dq_wf :: "rt_data_queue \<Rightarrow> bool" where
  "dq_wf q \<longleftrightarrow> dq_magic q = DATAQUEUE_MAGIC \<and> unat (dq_size q) \<le> 32768 \<and>
     unat (dq_get_index q) < unat (dq_size q) \<and> unat (dq_put_index q) < unat (dq_size q) \<and>
     \<not> (dq_is_empty q \<and> dq_is_full q) \<and> (dq_put_index q = dq_get_index q \<longleftrightarrow> dq_is_empty q \<or> dq_is_full q)"

definition dq_content :: "rt_data_queue \<Rightarrow> (u32 \<times> u32) list" where
  "dq_content q = ring (dq_queue q) (unat (dq_size q)) (unat (dq_get_index q)) (dq_count q)"

lemma length_dq_content [simp]: "length (dq_content q) = dq_count q"
  by (simp add: dq_content_def)

lemma dq_index_step:
  assumes "unat (i :: 15 word) < n" "n \<le> 32768"
  shows "unat (if unat (i + 1) = n then 0 else i + 1) = (unat i + 1) mod n"
proof (cases "unat i + 1 = 32768")
  case True
  then have "i + 1 = 0" by (intro word_unat_eq_iff[THEN iffD2]) (simp add: unat_word_ariths(1))
  moreover have "n = 32768" using True assms by simp
  ultimately show ?thesis using True by simp
next
  case False
  then have "unat (i + 1) = unat i + 1" using unsigned_less[of i, where 'a=nat] by (simp add: unat_word_ariths(1))
  then show ?thesis using assms by (cases "unat i + 1 = n") simp_all
qed

lemma dq_count_facts:
  assumes "dq_wf q"
  shows "dq_count q \<le> unat (dq_size q)" "dq_is_full q \<longleftrightarrow> dq_count q = unat (dq_size q)" "dq_is_empty q \<longleftrightarrow> dq_count q = 0"
    "unat (dq_put_index q) = (unat (dq_get_index q) + dq_count q) mod unat (dq_size q)"
    "rt_data_queue_len q = Some (of_nat (dq_count q))"
proof -
  let ?n = "unat (dq_size q)" and ?p = "unat (dq_put_index q)" and ?g = "unat (dq_get_index q)"
  have w: "?n \<le> 32768" "?g < ?n" "?p < ?n" "\<not> (dq_is_empty q \<and> dq_is_full q)" "?p = ?g \<longleftrightarrow> dq_is_empty q \<or> dq_is_full q"
    using assms by (simp_all add: dq_wf_def word_unat_eq_iff)
  have c: "dq_count q = (if dq_is_empty q then 0 else if ?g < ?p then ?p - ?g else ?n + ?p - ?g)"
    by (simp add: dq_count_def word_less_nat_alt)
  show "dq_count q \<le> ?n" "dq_is_full q \<longleftrightarrow> dq_count q = ?n" "dq_is_empty q \<longleftrightarrow> dq_count q = 0"
    using w unfolding c by auto
  show "?p = (?g + dq_count q) mod ?n"
    using w unfolding c by auto
  have "(ucast (dq_put_index q) :: u16) = of_nat ?p" "(ucast (dq_get_index q) :: u16) = of_nat ?g" "dq_size q = of_nat ?n" by simp_all
  then show "rt_data_queue_len q = Some (of_nat (dq_count q))"
    using assms w unfolding c rt_data_queue_len_def by (auto simp: dq_wf_def word_less_nat_alt of_nat_diff)
qed

lemma dq_wfI:
  assumes "dq_magic q = DATAQUEUE_MAGIC" "unat (dq_size q) \<le> 32768" "unat (dq_get_index q) < unat (dq_size q)"
    and p: "unat (dq_put_index q) = (unat (dq_get_index q) + k) mod unat (dq_size q)" and k: "k \<le> unat (dq_size q)"
    and e: "dq_is_empty q \<longleftrightarrow> k = 0" and f: "dq_is_full q \<longleftrightarrow> k = unat (dq_size q)"
  shows "dq_wf q \<and> dq_count q = k"
proof -
  let ?n = "unat (dq_size q)" and ?p = "unat (dq_put_index q)" and ?g = "unat (dq_get_index q)"
  have "?p = (if ?g + k < ?n then ?g + k else ?g + k - ?n)" using p k assms(3) by (simp add: mod_if)
  then show ?thesis using assms by (auto simp: dq_wf_def dq_count_def word_less_nat_alt word_unat_eq_iff)
qed

lemma dq_store_law:
  assumes wf: "dq_wf q" and room: "\<not> dq_is_full q"
  shows "\<exists>q'. dq_store item q = Some q' \<and> dq_wf q' \<and> dq_content q' = dq_content q @ [item] \<and> dq_size q' = dq_size q \<and>
    dq_evt_notify q' = dq_evt_notify q \<and> dq_lwm q' = dq_lwm q"
proof -
  let ?n = "unat (dq_size q)" and ?k = "dq_count q" and ?g = "unat (dq_get_index q)" and ?p = "unat (dq_put_index q)"
  note c = dq_count_facts[OF wf]
  have w: "dq_magic q = DATAQUEUE_MAGIC" "?n \<le> 32768" "?g < ?n" "?p < ?n" using wf by (simp_all add: dq_wf_def)
  define i where "i = (if unat (dq_put_index q + 1) = ?n then 0 else dq_put_index q + 1)"
  have i: "unat i = (?p + 1) mod ?n" using dq_index_step[OF w(4,2)] by (simp add: i_def)
  define q' where "q' = q\<lparr>dq_queue := (dq_queue q)(?p := item), dq_put_index := i, dq_is_empty := False, dq_is_full := (i = dq_get_index q)\<rparr>"
  have k: "?k < ?n" using c(1,2) room by simp
  have i': "unat i = (?g + Suc ?k) mod ?n" using i c(4) by (simp add: mod_simps)
  have "i = dq_get_index q \<longleftrightarrow> Suc ?k = ?n"
  proof -
    have "(?g + Suc ?k) mod ?n = (if ?g + Suc ?k < ?n then ?g + Suc ?k else ?g + Suc ?k - ?n)" using k w(3) by (simp add: mod_if)
    then show ?thesis using i' k w(3) by (auto simp: word_unat_eq_iff)
  qed
  then have q': "dq_wf q' \<and> dq_count q' = Suc ?k" using w i' k by (intro dq_wfI) (simp_all add: q'_def)
  have "dq_store item q = Some q'" using w(4) room by (simp add: dq_store_def Let_def q'_def i_def)
  moreover have "dq_content q' = dq_content q @ [item]"
    using ring_snoc[OF k, of "dq_queue q" ?g item] q' c(4) by (simp add: dq_content_def) (simp add: q'_def)
  ultimately show ?thesis using q' by (intro exI[of _ q']) (simp add: q'_def)
qed

lemma dq_fetch_law:
  assumes wf: "dq_wf q" and some: "\<not> dq_is_empty q"
  shows "\<exists>item q'. dq_fetch q = Some (item, q') \<and> dq_wf q' \<and> dq_content q = item # dq_content q' \<and> dq_size q' = dq_size q \<and>
    dq_evt_notify q' = dq_evt_notify q \<and> dq_lwm q' = dq_lwm q"
proof -
  let ?n = "unat (dq_size q)" and ?k = "dq_count q" and ?g = "unat (dq_get_index q)" and ?p = "unat (dq_put_index q)"
  note c = dq_count_facts[OF wf]
  have w: "dq_magic q = DATAQUEUE_MAGIC" "?n \<le> 32768" "?g < ?n" "?p < ?n" using wf by (simp_all add: dq_wf_def)
  define i where "i = (if unat (dq_get_index q + 1) = ?n then 0 else dq_get_index q + 1)"
  have i: "unat i = (?g + 1) mod ?n" using dq_index_step[OF w(3,2)] by (simp add: i_def)
  define q' where "q' = q\<lparr>dq_get_index := i, dq_is_full := False, dq_is_empty := (dq_put_index q = i)\<rparr>"
  obtain j where j: "?k = Suc j" "j < ?n" using c(1,3) some by (cases ?k) auto
  have in': "unat i < ?n" using i w(3) by simp
  have p: "?p = (unat i + j) mod ?n" using c(4) j i by (simp add: mod_simps)
  have "dq_put_index q = i \<longleftrightarrow> j = 0"
  proof -
    have "(unat i + j) mod ?n = (if unat i + j < ?n then unat i + j else unat i + j - ?n)" using j in' by (simp add: mod_if)
    then show ?thesis using p j in' by (auto simp: word_unat_eq_iff)
  qed
  then have q': "dq_wf q' \<and> dq_count q' = j" using w in' p j by (intro dq_wfI) (simp_all add: q'_def)
  have "dq_fetch q = Some (dq_queue q ?g, q')" using w(3) some by (simp add: dq_fetch_def Let_def q'_def i_def)
  moreover have "dq_content q = dq_queue q ?g # dq_content q'"
    using ring_pop[of "dq_queue q" ?n ?g j] q' i j w(3) by (simp add: dq_content_def) (simp add: q'_def)
  ultimately show ?thesis using q' by (intro exI[of _ "dq_queue q ?g"] exI[of _ q']) (simp add: q'_def)
qed

text \<open>A fresh or cleared queue is empty.\<close>

lemma dq_clear_law:
  assumes "dq_magic q = DATAQUEUE_MAGIC" "0 < unat (dq_size q)" "unat (dq_size q) \<le> 32768"
  shows "dq_wf (dq_clear q)" "dq_content (dq_clear q) = []"
  using assms by (simp_all add: dq_wf_def dq_clear_def dq_content_def dq_count_def)

text \<open>The tests of the code in front, as a caller that does not wait makes them.\<close>

definition dq_try_push :: "u32 \<times> u32 \<Rightarrow> rt_data_queue \<Rightarrow> rt_data_queue option" where
  "dq_try_push item q = (if dq_is_full q then None else dq_store item q)"

definition dq_try_pop :: "rt_data_queue \<Rightarrow> ((u32 \<times> u32) \<times> rt_data_queue) option" where
  "dq_try_pop q = (if dq_is_empty q then None else dq_fetch q)"

interpretation dq: fifo dq_wf dq_content "\<lambda>q. unat (dq_size q)" "\<lambda>q item. True" dq_try_push dq_try_pop
proof
  fix q q' :: rt_data_queue and item :: "u32 \<times> u32"
  assume wf: "dq_wf q"
  note c = dq_count_facts[OF wf]
  show "length (dq_content q) \<le> unat (dq_size q)" using c(1) by simp
  show "dq_try_push item q = None \<longleftrightarrow> length (dq_content q) = unat (dq_size q)"
    using dq_store_law[OF wf, of item] c(2) by (auto simp: dq_try_push_def)
  show "dq_try_pop q = None \<longleftrightarrow> dq_content q = []"
    using dq_fetch_law[OF wf] c(3) by (auto simp: dq_try_pop_def simp flip: length_0_conv)
  show "dq_wf q' \<and> dq_content q' = dq_content q @ [item] \<and> unat (dq_size q') = unat (dq_size q) \<and> (\<lambda>item. True) = (\<lambda>item. True)"
    if "dq_try_push item q = Some q'"
    using dq_store_law[OF wf, of item] that by (auto simp: dq_try_push_def split: if_splits)
  show "dq_wf q' \<and> dq_content q = item # dq_content q' \<and> unat (dq_size q') = unat (dq_size q) \<and> (\<lambda>item. True) = (\<lambda>item. True)"
    if "dq_try_pop q = Some (item, q')"
    using dq_fetch_law[OF wf] that by (auto simp: dq_try_pop_def split: if_splits)
qed

text \<open>
  With more than 32768 entries the length is computed from the size while the indices wrap around at their 15
  bits: a queue of 40000 entries that holds a single one across the wrap counts 7233.
\<close>

lemma dq_len_wrong:
  assumes "dq_magic q = DATAQUEUE_MAGIC" "dq_size q = 40000" "dq_get_index q = 32767" "dq_put_index q = 32767" "\<not> dq_is_full q"
  shows "\<exists>q'. dq_store item q = Some q' \<and> rt_data_queue_len q' = Some 7233"
  using assms by (simp add: dq_store_def rt_data_queue_len_def Let_def)

section \<open>Correctness of the calls\<close>

lemma upd_dq_simps [simp]: "dk (upd_dq x f d) = dk d" "dqs (upd_dq x f d) = (dqs d)(x := f (dqs d x))"
  by (simp_all add: upd_dq_def)

text \<open>
  C26. \<^verbatim>\<open>rt_data_queue_push\<close> implements a put into a bounded queue. With room the item is appended; the first
  thread that waits to pop becomes ready, or, if there is none, the owner's callback is told. Without
  room a zero timeout is refused and changes nothing, and any other queues the caller behind the threads that
  wait already, with its timer armed for a positive one. The invariants hold at every point where the owner
  is called.
\<close>

theorem dq_push_refines:
  assumes "may_block t timeout (dk d)" "dq_wf (dqs d x)"
  shows "if length (dq_content (dqs d x)) < unat (dq_size (dqs d x)) then
      \<exists>d'. rt_data_queue_push cb x ptr n timeout d =
          (if klists (dk d) (Susp x) = [] then map_option (Pair (Done RT_EOK)) (dq_notify cb x RT_DATAQUEUE_EVENT_PUSH d')
           else Some (Done RT_EOK, d')) \<and>
        kern_wf (dk d') \<and> stacks_ok (dk d') \<and> dq_wf (dqs d' x) \<and>
        dq_content (dqs d' x) = dq_content (dqs d x) @ [(ptr, n)] \<and> klists (dk d') (Susp x) = tl (klists (dk d) (Susp x)) \<and>
        (\<forall>r rs. klists (dk d) (Susp x) = r # rs \<longrightarrow> tstat (dk d') r \<in> {RT_THREAD_READY, RT_THREAD_RUNNING})
    else if timeout = 0 then rt_data_queue_push cb x ptr n timeout d = Some (Done (- RT_ETIMEOUT), d)
    else \<exists>k. rt_data_queue_push cb x ptr n timeout d = Some (Blocked (t, (ptr, n), timeout), d\<lparr>dk := k\<rparr>) \<and>
        kern_wf k \<and> stacks_ok k \<and> tstat k t = RT_THREAD_SUSPEND \<and> (\<exists>u. cur k = Some u \<and> u \<noteq> t) \<and>
        klists k (SuspSender x) = klists (dk d) (SuspSender x) @ [t] \<and>
        (0 < timeout \<longrightarrow> tm_timeout_tick (timers k (TimerOf t)) = tick (dk d) + of_int timeout)"
proof -
  note mb = may_block_calls[OF assms(1)]
  have wh: "wait_head (Susp x)" "wait_head (SuspSender x)" by (simp_all add: wait_head_def)
  have magic: "dq_magic (dqs d x) = DATAQUEUE_MAGIC" using assms(2) by (simp add: dq_wf_def)
  have full: "dq_is_full (dqs d x) \<longleftrightarrow> \<not> length (dq_content (dqs d x)) < unat (dq_size (dqs d x))"
    using dq_count_facts(1,2)[OF assms(2)] by auto
  have loop: "rt_data_queue_push cb x ptr n timeout d = dq_push_loop cb x (Some t) (ptr, n) timeout d"
    using magic mb by (simp add: rt_data_queue_push_def)
  show ?thesis
  proof (cases "dq_is_full (dqs d x)")
    case False
    obtain q where q: "dq_store (ptr, n) (dqs d x) = Some q" "dq_wf q" "dq_content q = dq_content (dqs d x) @ [(ptr, n)]"
      using dq_store_law[OF assms(2) False] by blast
    obtain k where k: "wake_one (Susp x) (dk d) = Some k" "kern_wf k" "stacks_ok k"
      "\<forall>g. wait_head g \<longrightarrow> klists k g = (if g = Susp x then tl (klists (dk d) (Susp x)) else klists (dk d) g)"
      "\<forall>r rs. klists (dk d) (Susp x) = r # rs \<longrightarrow> tstat k r \<in> {RT_THREAD_READY, RT_THREAD_RUNNING}"
      using wake_one_kern[OF mb(1-3) wh(1)] by blast
    let ?d = "(upd_dq x (\<lambda>_. q) d)\<lparr>dk := k\<rparr>"
    have "k = dk d" if "klists (dk d) (Susp x) = []" using k(1) that by (simp add: wake_one_def)
    then have "rt_data_queue_push cb x ptr n timeout d =
        (if klists (dk d) (Susp x) = [] then map_option (Pair (Done RT_EOK)) (dq_notify cb x RT_DATAQUEUE_EVENT_PUSH ?d)
         else Some (Done RT_EOK, ?d))"
      unfolding loop using False q(1) k(1)
      by (simp add: dq_push_loop_def dev_wake_eq Let_def upd_dq_def map_conv_bind_option comp_def)
    then show ?thesis using False full q(2,3) k(2-5) wh by (simp add: exI[of _ ?d])
  next
    case True
    show ?thesis
    proof (cases "timeout = 0")
      case False
      obtain k1 k2 where w: "dev_wait (SuspSender x) t timeout (dk d) = Some k1" "rt_schedule k1 = Some k2" "kern_wf k2" "stacks_ok k2"
        "\<exists>u. cur k2 = Some u \<and> u \<noteq> t" "tstat k2 t = RT_THREAD_SUSPEND"
        "\<forall>g. wait_head g \<longrightarrow> klists k2 g = (if g = SuspSender x then klists (dk d) (SuspSender x) @ [t] else klists (dk d) g)"
        "0 < timeout \<longrightarrow> tm_timeout_tick (timers k2 (TimerOf t)) = tick (dk d) + of_int timeout"
        using dev_wait_switch[OF assms(1) wh(2)] by blast
      have "rt_data_queue_push cb x ptr n timeout d = Some (Blocked (t, (ptr, n), timeout), d\<lparr>dk := k2\<rparr>)"
        unfolding loop using True False w(1,2) by (simp add: dq_push_loop_def)
      then show ?thesis using True False full w(3-8) wh by simp (intro exI[of _ k2] conjI; simp)
    qed (use True full loop in \<open>simp add: dq_push_loop_def\<close>)
  qed
qed

text \<open>
  C27. \<^verbatim>\<open>rt_data_queue_pop\<close> implements a get from a bounded queue. It answers the oldest item; when the queue has
  come down to the low water mark the first thread that waits to push becomes ready, above it nobody is woken,
  and the owner's callback is told which. From an empty queue a zero timeout is refused and changes
  nothing, and any other queues the caller behind the threads that wait already.
\<close>

theorem dq_pop_refines:
  assumes "may_block t timeout (dk d)" "dq_wf (dqs d x)"
  shows "case dq_content (dqs d x) of
      item # items \<Rightarrow> let low = length items \<le> unat (dq_lwm (dqs d x)) in
        \<exists>d'. rt_data_queue_pop cb x timeout d =
            map_option (Pair (Done (RT_EOK, Some item))) (dq_notify cb x (if low then RT_DATAQUEUE_EVENT_LWM else RT_DATAQUEUE_EVENT_POP) d') \<and>
          kern_wf (dk d') \<and> stacks_ok (dk d') \<and> dq_wf (dqs d' x) \<and> dq_content (dqs d' x) = items \<and>
          klists (dk d') (SuspSender x) = (if low then tl else id) (klists (dk d) (SuspSender x)) \<and>
          (\<forall>r rs. low \<longrightarrow> klists (dk d) (SuspSender x) = r # rs \<longrightarrow> tstat (dk d') r \<in> {RT_THREAD_READY, RT_THREAD_RUNNING})
    | [] \<Rightarrow> if timeout = 0 then rt_data_queue_pop cb x timeout d = Some (Done (- RT_ETIMEOUT, None), d)
        else \<exists>k. rt_data_queue_pop cb x timeout d = Some (Blocked (t, timeout), d\<lparr>dk := k\<rparr>) \<and>
          kern_wf k \<and> stacks_ok k \<and> tstat k t = RT_THREAD_SUSPEND \<and> (\<exists>u. cur k = Some u \<and> u \<noteq> t) \<and>
          klists k (Susp x) = klists (dk d) (Susp x) @ [t] \<and>
          (0 < timeout \<longrightarrow> tm_timeout_tick (timers k (TimerOf t)) = tick (dk d) + of_int timeout)"
proof -
  note mb = may_block_calls[OF assms(1)]
  have wh: "wait_head (Susp x)" "wait_head (SuspSender x)" by (simp_all add: wait_head_def)
  have magic: "dq_magic (dqs d x) = DATAQUEUE_MAGIC" using assms(2) by (simp add: dq_wf_def)
  have loop: "rt_data_queue_pop cb x timeout d = dq_pop_loop cb x (Some t) timeout d"
    using magic mb by (simp add: rt_data_queue_pop_def)
  show ?thesis
  proof (cases "dq_is_empty (dqs d x)")
    case False
    obtain item q where q: "dq_fetch (dqs d x) = Some (item, q)" "dq_wf q" "dq_content (dqs d x) = item # dq_content q" "dq_lwm q = dq_lwm (dqs d x)"
      using dq_fetch_law[OF assms(2) False] by blast
    have "length (dq_content q) \<le> 32768" using dq_count_facts(1)[OF q(2)] q(2) by (simp add: dq_wf_def)
    then have low: "(of_nat (dq_count q) :: u16) \<le> dq_lwm q \<longleftrightarrow> length (dq_content q) \<le> unat (dq_lwm (dqs d x))"
      using q(4) by (simp add: word_le_nat_alt unat_of_nat)
    obtain k where k: "wake_one (SuspSender x) (dk d) = Some k" "kern_wf k" "stacks_ok k"
      "\<forall>g. wait_head g \<longrightarrow> klists k g = (if g = SuspSender x then tl (klists (dk d) (SuspSender x)) else klists (dk d) g)"
      "\<forall>r rs. klists (dk d) (SuspSender x) = r # rs \<longrightarrow> tstat k r \<in> {RT_THREAD_READY, RT_THREAD_RUNNING}"
      using wake_one_kern[OF mb(1-3) wh(2)] by blast
    show ?thesis
    proof (cases "length (dq_content q) \<le> unat (dq_lwm (dqs d x))")
      case True
      let ?d = "(upd_dq x (\<lambda>_. q) d)\<lparr>dk := k\<rparr>"
      have "rt_data_queue_pop cb x timeout d = map_option (Pair (Done (RT_EOK, Some item))) (dq_notify cb x RT_DATAQUEUE_EVENT_LWM ?d)"
        unfolding loop using False q(1) k(1) True low dq_count_facts(5)[OF q(2)]
        by (simp add: dq_pop_loop_def dev_wake_eq Let_def upd_dq_def map_conv_bind_option comp_def)
      then show ?thesis using True q(2,3) k(2-5) wh by (simp add: exI[of _ ?d])
    next
      case high: False
      let ?d = "upd_dq x (\<lambda>_. q) d"
      have "rt_data_queue_pop cb x timeout d = map_option (Pair (Done (RT_EOK, Some item))) (dq_notify cb x RT_DATAQUEUE_EVENT_POP ?d)"
        unfolding loop using False q(1) high low dq_count_facts(5)[OF q(2)]
        by (simp add: dq_pop_loop_def Let_def map_conv_bind_option comp_def)
      then show ?thesis using high q(2,3) mb(1,2) by (simp add: exI[of _ ?d])
    qed
  next
    case True
    then have nil: "dq_content (dqs d x) = []" using dq_count_facts(3)[OF assms(2)] by (simp flip: length_0_conv)
    show ?thesis
    proof (cases "timeout = 0")
      case False
      obtain k1 k2 where w: "dev_wait (Susp x) t timeout (dk d) = Some k1" "rt_schedule k1 = Some k2" "kern_wf k2" "stacks_ok k2"
        "\<exists>u. cur k2 = Some u \<and> u \<noteq> t" "tstat k2 t = RT_THREAD_SUSPEND"
        "\<forall>g. wait_head g \<longrightarrow> klists k2 g = (if g = Susp x then klists (dk d) (Susp x) @ [t] else klists (dk d) g)"
        "0 < timeout \<longrightarrow> tm_timeout_tick (timers k2 (TimerOf t)) = tick (dk d) + of_int timeout"
        using dev_wait_switch[OF assms(1) wh(1)] by blast
      have "rt_data_queue_pop cb x timeout d = Some (Blocked (t, timeout), d\<lparr>dk := k2\<rparr>)"
        unfolding loop using True False w(1,2) by (simp add: dq_pop_loop_def)
      then show ?thesis using nil False w(3-8) wh by simp (intro exI[of _ k2] conjI; simp)
    qed (use True nil loop in \<open>simp add: dq_pop_loop_def\<close>)
  qed
qed

text \<open>
  A data queue is first-in first-out: in any run of pushes and pops, those that find it full or empty
  refused, what comes out is what was inside followed by what was accepted, in order and with nothing lost
  across the wrap-around of the 15-bit indices, and it never holds more than its size.
\<close>

theorem dq_delivers_in_order:
  assumes "dq_wf q" "fifo_run dq_try_push dq_try_pop ops q = (q', ins, outs)"
  shows "dq_wf q' \<and> dq_content q @ ins = outs @ dq_content q' \<and> length (dq_content q') \<le> unat (dq_size q)"
  using dq.run_fifo[OF assms(1) TrueI assms(2)] by simp

text \<open>Emptying the queue wakes everybody who waits on either side, with \<open>-RT_ERROR\<close>.\<close>

lemma kern_lock: "kern_inv X (s\<lparr>lock_nest := n\<rparr>) = kern_inv X s" "stacks_ok (s\<lparr>lock_nest := n\<rparr>) = stacks_ok s"
proof -
  show "kern_inv X (s\<lparr>lock_nest := n\<rparr>) = kern_inv X s" by (rule kern_inv_cong) (simp_all add: tstat_def prio_def)
  show "stacks_ok (s\<lparr>lock_nest := n\<rparr>) = stacks_ok s" by (simp add: stacks_ok_def started_def tstat_def)
qed

lemma dq_reset_wakes:
  assumes k: "kern_wf (dk d)" "stacks_ok (dk d)" "cur (dk d) \<noteq> None" "lock_nest (dk d) = 0" and q: "dq_wf (dqs d x)"
  shows "\<exists>d'. rt_data_queue_reset x d = Some d' \<and> kern_wf (dk d') \<and> stacks_ok (dk d') \<and> dq_wf (dqs d' x) \<and> dq_content (dqs d' x) = [] \<and>
    klists (dk d') (Susp x) = [] \<and> klists (dk d') (SuspSender x) = [] \<and>
    (\<forall>t\<in>set (klists (dk d) (Susp x)) \<union> set (klists (dk d) (SuspSender x)).
       tstat (dk d') t \<in> {RT_THREAD_READY, RT_THREAD_RUNNING} \<and> th_error (threads (dk d') t) = - RT_ERROR)"
proof -
  let ?on = "{RT_THREAD_READY, RT_THREAD_RUNNING}"
  have wh: "wait_head (Susp x)" "wait_head (SuspSender x)" by (simp_all add: wait_head_def)
  have magic: "dq_magic (dqs d x) = DATAQUEUE_MAGIC" "0 < unat (dq_size (dqs d x))" "unat (dq_size (dqs d x)) \<le> 32768"
    using q by (auto simp: dq_wf_def)
  let ?s1 = "rt_enter_critical (dk d)"
  have k1: "kern_wf ?s1" "stacks_ok ?s1" using k(1,2) by (simp_all add: rt_enter_critical_def kern_lock)
  obtain s2 f where s2: "do_ipc_list_resume_all (Susp x) ?s1 = Some s2" "kern_wf s2" "stacks_ok s2" "cur s2 = cur ?s1"
    "\<forall>g. wait_head g \<longrightarrow> klists s2 g = (if g = Susp x then [] else klists ?s1 g)" "\<forall>t\<in>set (klists ?s1 (Susp x)). tstat s2 t \<in> ?on"
    "\<forall>t. th_error (threads s2 t) = (if t \<in> set (klists ?s1 (Susp x)) then - RT_ERROR else th_error (threads ?s1 t))"
    "no_kern s2 = no_kern (?s1\<lparr>threads := (\<lambda>t. (threads ?s1 t)\<lparr>th_error := f t\<rparr>)\<rparr>)"
    using resume_all[OF wh(1) k1] by blast
  obtain s3 g where s3: "do_ipc_list_resume_all (SuspSender x) s2 = Some s3" "kern_wf s3" "stacks_ok s3" "cur s3 = cur s2"
    "\<forall>g. wait_head g \<longrightarrow> klists s3 g = (if g = SuspSender x then [] else klists s2 g)" "\<forall>t\<in>set (klists s2 (SuspSender x)). tstat s3 t \<in> ?on"
    "\<forall>t. th_error (threads s3 t) = (if t \<in> set (klists s2 (SuspSender x)) then - RT_ERROR else th_error (threads s2 t))"
    "\<forall>u. u \<notin> set (klists s2 (SuspSender x)) \<longrightarrow> tstat s3 u = tstat s2 u"
    "no_kern s3 = no_kern (s2\<lparr>threads := (\<lambda>t. (threads s2 t)\<lparr>th_error := g t\<rparr>)\<rparr>)"
    using resume_all[OF wh(2) s2(2,3)] by blast
  let ?s4 = "s3\<lparr>lock_nest := 0\<rparr>"
  have c4: "kern_wf ?s4" "stacks_ok ?s4" "cur ?s4 \<noteq> None" using s3(2-4) s2(4) k(3) by (simp_all add: kern_lock rt_enter_critical_def)
  have "lock_nest s3 = 1" using no_kern_fields(1)[OF s3(9)] no_kern_fields(1)[OF s2(8)] k(4) by (simp add: rt_enter_critical_def)
  then have ex: "rt_exit_critical s3 = rt_schedule ?s4" using c4(3) by (simp add: rt_exit_critical_def)
  obtain s5 where s5: "rt_schedule ?s4 = Some s5" "kern_wf s5" "stacks_ok s5" "cur s5 \<noteq> None" "no_kern s5 = no_kern ?s4"
    "\<forall>u. tstat ?s4 u \<in> ?on \<longrightarrow> tstat s5 u \<in> ?on" "\<forall>g. wait_head g \<longrightarrow> klists s5 g = klists ?s4 g"
    using schedule_after[OF c4(1,3,2)] by blast
  obtain s6 where s6: "rt_schedule s5 = Some s6" "kern_wf s6" "stacks_ok s6" "no_kern s6 = no_kern s5"
    "\<forall>u. tstat s5 u \<in> ?on \<longrightarrow> tstat s6 u \<in> ?on" "\<forall>g. wait_head g \<longrightarrow> klists s6 g = klists s5 g"
    using schedule_after[OF s5(2,4,3)] by blast
  have st: "tstat ?s4 u = tstat s3 u" for u by (simp add: tstat_def)
  have l1: "klists ?s1 = klists (dk d)" by (simp add: rt_enter_critical_def)
  have l2: "klists s2 (SuspSender x) = klists (dk d) (SuspSender x)" using s2(5) wh l1 by simp
  have on: "tstat s3 t \<in> ?on" "th_error (threads s3 t) = - RT_ERROR"
    if "t \<in> set (klists (dk d) (Susp x)) \<union> set (klists (dk d) (SuspSender x))" for t
    using s2(6,7) s3(6-8) that l1 l2 by (cases "t \<in> set (klists (dk d) (SuspSender x))"; simp)+
  have e6: "th_error (threads s6 t) = th_error (threads s3 t)" for t
    using no_kern_thread(2)[OF trans[OF s6(4) s5(5)], of t] by simp
  have on6: "tstat s6 t \<in> ?on" if "t \<in> set (klists (dk d) (Susp x)) \<union> set (klists (dk d) (SuspSender x))" for t
    using on(1)[OF that] st s5(6) s6(5) by metis
  have "rt_data_queue_reset x d = Some ((upd_dq x dq_clear d)\<lparr>dk := s6\<rparr>)"
    using magic(1) s2(1) s3(1) ex s5(1) s6(1) by (simp add: rt_data_queue_reset_def Let_def)
  then show ?thesis using s6(2,3,6) s5(7) s3(5) s2(5) wh on(2) on6 e6 dq_clear_law[OF magic]
    by (intro exI[of _ "(upd_dq x dq_clear d)\<lparr>dk := s6\<rparr>"]) simp
qed

section \<open>A concrete queue\<close>

definition dq_demo :: rt_data_queue where
  "dq_demo = dq_clear \<lparr>dq_magic = DATAQUEUE_MAGIC, dq_size = 2, dq_lwm = 1, dq_get_index = 0, dq_is_empty = True,
     dq_put_index = 0, dq_is_full = False, dq_queue = (\<lambda>_. (0, 0)), dq_evt_notify = None\<rparr>"

definition ddemo :: dstate where
  "ddemo = \<lparr>dk = idemo, dqs = (\<lambda>_. dq_demo)\<rparr>"

lemma ddemo_ok: "dq_wf (dqs ddemo 60)" "dq_content (dqs ddemo 60) = []" "unat (dq_size (dqs ddemo 60)) = 2"
  "klists (dk ddemo) (Susp 60) = []" "dq_evt_notify (dqs ddemo 60) = None"
  "time_ok time \<Longrightarrow> may_block 2 time (dk ddemo)"
  using dq_clear_law idemo_may_block by (simp_all add: ddemo_def dq_demo_def) (simp_all add: dq_clear_def)

theorem dq_push_refines_witness:
  "\<exists>d'. rt_data_queue_push (\<lambda>_ _ _. Some) 60 0x1000 8 0 ddemo = map_option (Pair (Done RT_EOK)) (dq_notify (\<lambda>_ _ _. Some) 60 RT_DATAQUEUE_EVENT_PUSH d') \<and>
    dq_content (dqs d' 60) = [(0x1000, 8)]"
  using dq_push_refines[where t = 2 and timeout = 0 and d = ddemo and x = 60 and cb = "\<lambda>_ _ _. Some" and ptr = "0x1000" and n = 8] ddemo_ok(1-4) ddemo_ok(6)[of 0] by (auto simp: time_ok_def)

theorem dq_pop_refines_witness:
  "\<exists>k. rt_data_queue_pop (\<lambda>_ _ _. Some) 60 5 ddemo = Some (Blocked (2, 5), ddemo\<lparr>dk := k\<rparr>) \<and> tstat k 2 = RT_THREAD_SUSPEND"
  using dq_pop_refines[where t = 2 and timeout = 5 and d = ddemo and x = 60 and cb = "\<lambda>_ _ _. Some"] ddemo_ok(1,2) ddemo_ok(6)[of 5] by (auto simp: time_ok_def)

theorem dq_delivers_in_order_witness:
  "\<exists>q'. fifo_run dq_try_push dq_try_pop [Put (1, 1), Put (2, 2), Put (3, 3), Get, Put (4, 4), Get] dq_demo = (q', [(1, 1), (2, 2), (4, 4)], [(1, 1), (2, 2)]) \<and>
    dq_content q' = [(4, 4)]"
proof -
  let ?ops = "[Put (1, 1), Put (2, 2), Put (3, 3), Get, Put (4, 4), Get] :: (u32 \<times> u32) queue_op list"
  have wf: "dq_wf dq_demo" "dq_content dq_demo = []" using ddemo_ok(1,2) by (simp_all add: ddemo_def)
  have "\<exists>q'. fifo_run dq_try_push dq_try_pop ?ops dq_demo = (q', [(1, 1), (2, 2), (4, 4)], [(1, 1), (2, 2)])"
    by (simp add: dq_demo_def dq_clear_def dq_try_push_def dq_try_pop_def dq_store_def dq_fetch_def Let_def)
  then obtain q' where q': "fifo_run dq_try_push dq_try_pop ?ops dq_demo = (q', [(1, 1), (2, 2), (4, 4)], [(1, 1), (2, 2)])" by blast
  show ?thesis using dq_delivers_in_order[OF wf(1) q'] wf(2) q' by simp
qed

end
