(* ===== verification/SList.thy ===== *)
theory SList
  imports Prelude
begin

text \<open>
  The single linked lists of \<^verbatim>\<open>include/rtservice.h\<close>: a node holds the pointer to the next one, the head is a
  node without payload. \<open>sl\<close> relates the pointers to the sequence behind a node; from it follow the ends of the
  loops, which run forever on a cyclic list.
\<close>

section \<open>Operations\<close>

type_synonym 'a sheap = "'a \<Rightarrow> 'a option"

definition rt_slist_init :: "'a \<Rightarrow> 'a sheap \<Rightarrow> 'a sheap" where
  "rt_slist_init l h = h(l := None)"

partial_function (option) slist_end :: "'a sheap \<Rightarrow> 'a \<Rightarrow> 'a option" where
  "slist_end h node = (case h node of None \<Rightarrow> Some node | Some m \<Rightarrow> slist_end h m)"

definition rt_slist_append :: "'a \<Rightarrow> 'a \<Rightarrow> 'a sheap \<Rightarrow> 'a sheap option" where
  "rt_slist_append l n h = do { node \<leftarrow> slist_end h l; Some (h(node := Some n, n := None)) }"

definition rt_slist_insert :: "'a \<Rightarrow> 'a \<Rightarrow> 'a sheap \<Rightarrow> 'a sheap" where
  "rt_slist_insert l n h = (let h = h(n := h l) in h(l := Some n))"

partial_function (option) slist_count :: "'a sheap \<Rightarrow> 'a option \<Rightarrow> u32 \<Rightarrow> u32 option" where
  "slist_count h p len = (case p of None \<Rightarrow> Some len | Some m \<Rightarrow> slist_count h (h m) (len + 1))"

definition rt_slist_len :: "'a \<Rightarrow> 'a sheap \<Rightarrow> u32 option" where
  "rt_slist_len l h = slist_count h (h l) 0"

text \<open>The node in front of \<open>n\<close>, or the last one.\<close>

partial_function (option) slist_before :: "'a sheap \<Rightarrow> 'a \<Rightarrow> 'a \<Rightarrow> 'a option" where
  "slist_before h n node = (case h node of None \<Rightarrow> Some node | Some m \<Rightarrow> if m \<noteq> n then slist_before h n m else Some node)"

definition rt_slist_remove :: "'a \<Rightarrow> 'a \<Rightarrow> 'a sheap \<Rightarrow> 'a sheap option" where
  "rt_slist_remove l n h = do {
     node \<leftarrow> slist_before h n l;
     Some (case h node of None \<Rightarrow> h | Some m \<Rightarrow> h(node := h m))
   }"

definition rt_slist_first :: "'a \<Rightarrow> 'a sheap \<Rightarrow> 'a option" where
  "rt_slist_first l h = h l"

definition rt_slist_tail :: "'a \<Rightarrow> 'a sheap \<Rightarrow> 'a option" where
  "rt_slist_tail l h = slist_end h l"

definition rt_slist_next :: "'a \<Rightarrow> 'a sheap \<Rightarrow> 'a option" where
  "rt_slist_next n h = h n"

definition rt_slist_isempty :: "'a \<Rightarrow> 'a sheap \<Rightarrow> bool" where
  "rt_slist_isempty l h \<longleftrightarrow> h l = None"

section \<open>The sequence behind a node\<close>

fun sl :: "'a sheap \<Rightarrow> 'a \<Rightarrow> 'a list \<Rightarrow> bool" where
  "sl h a [] \<longleftrightarrow> h a = None"
| "sl h a (x # xs) \<longleftrightarrow> h a = Some x \<and> sl h x xs"

lemma sl_unique: "sl h a xs \<Longrightarrow> sl h a ys \<Longrightarrow> xs = ys"
proof (induction xs arbitrary: a ys)
  case Nil
  then show ?case by (cases ys) simp_all
next
  case (Cons x xs)
  then show ?case by (cases ys) auto
qed

lemma sl_split: "sl h a (xs @ y # ys) \<Longrightarrow> sl h y ys"
  by (induction xs arbitrary: a) auto

lemma sl_distinct: "sl h a xs \<Longrightarrow> distinct (a # xs)"
proof (induction xs arbitrary: a)
  case (Cons x xs)
  have d: "distinct (x # xs)" using Cons by auto
  have "a \<notin> set (x # xs)"
  proof
    assume "a \<in> set (x # xs)"
    then obtain us vs where s: "x # xs = us @ a # vs" by (metis split_list)
    have "sl h a vs" using sl_split[of h a us a vs] Cons.prems s by simp
    then have "x # xs = vs" using sl_unique[OF Cons.prems] by blast
    then show False using s by (metis append_Cons append_is_Nil_conv length_append length_Cons less_irrefl
        not_add_less2 lessI trans_less_add2)
  qed
  then show ?case using d by simp
qed simp

lemma sl_frame [simp]: "b \<notin> set (a # xs) \<Longrightarrow> sl (h(b := v)) a xs = sl h a xs"
  by (induction xs arbitrary: a) auto

lemma sl_cong: "(\<And>b. b \<in> set (a # xs) \<Longrightarrow> h' b = h b) \<Longrightarrow> sl h' a xs = sl h a xs"
  by (induction xs arbitrary: a) auto

lemma sl_end: "sl h a xs \<Longrightarrow> slist_end h a = Some (last (a # xs))"
  by (induction xs arbitrary: a) (subst slist_end.simps; simp)+

lemma sl_last: "sl h a xs \<Longrightarrow> h (last (a # xs)) = None"
  by (induction xs arbitrary: a) auto

lemma sl_snoc:
  assumes "sl h a xs" "n \<notin> set (a # xs)"
  shows "sl (h(last (a # xs) := Some n, n := None)) a (xs @ [n])"
  using assms sl_distinct[OF assms(1)]
proof (induction xs arbitrary: a)
  case (Cons x xs)
  have "a \<noteq> last (x # xs)" using Cons.prems(3) by (metis distinct.simps(2) last_in_set list.discI)
  then show ?case using Cons by auto
qed auto

lemma slist_append_law:
  assumes "sl h l xs" "n \<notin> set (l # xs)"
  shows "\<exists>h'. rt_slist_append l n h = Some h' \<and> sl h' l (xs @ [n])"
  using sl_snoc[OF assms] sl_end[OF assms(1)] by (simp add: rt_slist_append_def)

lemma slist_insert_law:
  assumes "sl h l xs" "n \<notin> set (l # xs)"
  shows "sl (rt_slist_insert l n h) l (n # xs)"
proof -
  have "l \<notin> set xs" using sl_distinct[OF assms(1)] by simp
  moreover have "sl (h(n := h l, l := Some n)) n xs"
    using assms \<open>l \<notin> set xs\<close> by (cases xs) auto
  ultimately show ?thesis by (simp add: rt_slist_insert_def Let_def)
qed

lemma slist_len_law: "sl h l xs \<Longrightarrow> rt_slist_len l h = Some (of_nat (length xs))"
proof -
  have "slist_count h (h a) n = Some (n + of_nat (length xs))" if "sl h a xs" for a n
    using that
  proof (induction xs arbitrary: a n)
    case Nil
    then show ?case by (subst slist_count.simps) simp
  next
    case (Cons x xs)
    then show ?case by (subst slist_count.simps) (simp add: algebra_simps)
  qed
  then show "sl h l xs \<Longrightarrow> ?thesis" by (simp add: rt_slist_len_def)
qed

text \<open>The node in front of a member, and what becomes of the list without the member.\<close>

lemma slist_before_member:
  "sl h a (us @ n # vs) \<Longrightarrow> n \<notin> set us \<Longrightarrow> slist_before h n a = Some (last (a # us)) \<and> h (last (a # us)) = Some n"
  by (induction us arbitrary: a) (subst slist_before.simps; auto)+

lemma slist_before_absent:
  "sl h a xs \<Longrightarrow> n \<notin> set xs \<Longrightarrow> slist_before h n a = Some (last (a # xs))"
  by (induction xs arbitrary: a) (subst slist_before.simps; auto)+

lemma sl_unlink:
  assumes "sl h a (us @ n # vs)"
  shows "sl (h(last (a # us) := h n)) a (us @ vs)"
  using assms sl_distinct[OF assms]
proof (induction us arbitrary: a)
  case Nil
  show ?case
  proof (cases vs)
    case (Cons v ws)
    have "sl (h(a := h n)) v ws = sl h v ws" using Nil Cons by (intro sl_frame) simp
    moreover have "h n = Some v" "sl h v ws" using Nil Cons by simp_all
    moreover have "(h(a := h n)) a = h n" by simp
    ultimately show ?thesis unfolding Cons by (simp del: fun_upd_apply)
  qed (use Nil in simp)
next
  case (Cons u us)
  have "a \<noteq> last (u # us)" using Cons.prems(2) by (metis append_Cons distinct.simps(2) in_set_conv_decomp last_in_set list.discI Un_iff set_append)
  then show ?case using Cons by auto
qed

lemma slist_remove_law:
  assumes "sl h l xs"
  shows "\<exists>h'. rt_slist_remove l n h = Some h' \<and> sl h' l (remove1 n xs) \<and> (\<forall>b. b \<notin> set (l # xs) \<longrightarrow> h' b = h b)"
proof (cases "n \<in> set xs")
  case True
  then obtain us vs where s: "xs = us @ n # vs" "n \<notin> set us" by (metis split_list_first)
  have b: "slist_before h n l = Some (last (l # us))" "h (last (l # us)) = Some n"
    using slist_before_member[of h l us n vs] assms s by simp_all
  have "last (l # us) \<in> set (l # xs)" using s(1) last_in_set[of "l # us"] by auto
  then show ?thesis using b s sl_unlink[of h l us n vs] assms
    by (auto simp: rt_slist_remove_def remove1_append)
next
  case False
  then show ?thesis using slist_before_absent[OF assms False] sl_last[OF assms] assms
    by (simp add: rt_slist_remove_def remove1_idem)
qed

end
