(* ===== verification/RingBlk.thy ===== *)
theory RingBlk
  imports SList
begin

text \<open>
  \<^verbatim>\<open>components/drivers/ipc/ringblk_buf.c\<close>: a buffer given out in blocks that lie in it one behind the other,
  wrapping around at its end. The blocks in use form a single linked list with a pointer to its tail, the
  unused descriptors another. The descriptors are the elements of the array \<^verbatim>\<open>blk_set\<close>, known by their index.
\<close>

section \<open>Data\<close>

datatype rt_rbb_status = RT_RBB_BLK_UNUSED | RT_RBB_BLK_INITED | RT_RBB_BLK_PUT | RT_RBB_BLK_GET

text \<open>The list nodes: the heads inside of \<^verbatim>\<open>struct rt_rbb\<close> and the node inside of a descriptor.\<close>

datatype rbb_node = BlkList | FreeList | Blk nat

record rt_rbb_blk =
  blk_status :: rt_rbb_status
  blk_size :: "24 word"
  blk_buf :: u32

record rt_rbb =
  rbb_buf :: u32
  rbb_buf_size :: u32
  rbb_blk_set :: "nat \<Rightarrow> rt_rbb_blk"
  rbb_blk_max_num :: u32
  rbb_next :: "rbb_node sheap"
  rbb_tail :: rbb_node

record rt_rbb_blk_queue =
  bq_blocks :: nat
  bq_blk_num :: u32

definition upd_blk :: "nat \<Rightarrow> (rt_rbb_blk \<Rightarrow> rt_rbb_blk) \<Rightarrow> rt_rbb \<Rightarrow> rt_rbb" where
  "upd_blk i f r = r\<lparr>rbb_blk_set := (rbb_blk_set r)(i := f (rbb_blk_set r i))\<rparr>"

text \<open>\<^verbatim>\<open>rt_slist_entry\<close> of a node: a head is inside of no descriptor.\<close>

definition rbb_entry :: "rbb_node \<Rightarrow> nat option" where
  "rbb_entry n = (case n of Blk i \<Rightarrow> Some i | _ \<Rightarrow> None)"

section \<open>Operations\<close>

fun rbb_add_blks :: "nat \<Rightarrow> rt_rbb \<Rightarrow> rt_rbb" where
  "rbb_add_blks 0 r = r"
| "rbb_add_blks (Suc i) r =
    (let r = rbb_add_blks i r;
         r = upd_blk i (\<lambda>b. b\<lparr>blk_status := RT_RBB_BLK_UNUSED\<rparr>) r
     in r\<lparr>rbb_next := rt_slist_insert FreeList (Blk i) (rt_slist_init (Blk i) (rbb_next r))\<rparr>)"

definition rt_rbb_init :: "u32 \<Rightarrow> u32 \<Rightarrow> (nat \<Rightarrow> rt_rbb_blk) \<Rightarrow> u32 \<Rightarrow> rt_rbb \<Rightarrow> rt_rbb" where
  "rt_rbb_init buf buf_size block_set blk_max_num r =
    (let r = r\<lparr>rbb_buf := buf, rbb_buf_size := buf_size, rbb_blk_set := block_set, rbb_blk_max_num := blk_max_num, rbb_tail := BlkList\<rparr>;
         r = r\<lparr>rbb_next := rt_slist_init FreeList (rt_slist_init BlkList (rbb_next r))\<rparr>
     in rbb_add_blks (unat blk_max_num) r)"

text \<open>The three arguments of type option are the answers of the allocator, the first with the memory it gives.\<close>

definition rt_rbb_create :: "rt_rbb option \<Rightarrow> u32 option \<Rightarrow> (nat \<Rightarrow> rt_rbb_blk) option \<Rightarrow> u32 \<Rightarrow> u32 \<Rightarrow> rt_rbb option" where
  "rt_rbb_create mem buf blk_set buf_size blk_max_num = do {
     r \<leftarrow> mem;
     b \<leftarrow> buf;
     set \<leftarrow> blk_set;
     Some (rt_rbb_init b buf_size set blk_max_num r)
   }"

definition find_empty_blk_in_set :: "rt_rbb \<Rightarrow> (nat option \<times> rt_rbb) option" where
  "find_empty_blk_in_set r =
    (if rt_slist_isempty FreeList (rbb_next r) then Some (None, r)
     else do {
       n \<leftarrow> rt_slist_first FreeList (rbb_next r);
       blk \<leftarrow> rbb_entry n;
       h \<leftarrow> rt_slist_remove FreeList n (rbb_next r);
       _ \<leftarrow> kassert (blk_status (rbb_blk_set r blk) = RT_RBB_BLK_UNUSED);
       Some (Some blk, r\<lparr>rbb_next := h\<rparr>)
     })"

definition rbb_list_append :: "rbb_node \<Rightarrow> rt_rbb \<Rightarrow> rt_rbb" where
  "rbb_list_append n r = r\<lparr>rbb_next := (rbb_next r)(rbb_tail r := Some n, n := None), rbb_tail := n\<rparr>"

definition rbb_list_remove :: "rbb_node \<Rightarrow> rt_rbb \<Rightarrow> rt_rbb option" where
  "rbb_list_remove n r = do {
     node \<leftarrow> slist_before (rbb_next r) n BlkList;
     Some (case rbb_next r node of
         None \<Rightarrow> r
       | Some m \<Rightarrow> r\<lparr>rbb_next := (rbb_next r)(node := rbb_next r m, n := None), rbb_tail := if rbb_tail r = n then node else rbb_tail r\<rparr>)
   }"

text \<open>The four assignments of every successful branch.\<close>

definition rbb_place :: "nat \<Rightarrow> u32 \<Rightarrow> u32 \<Rightarrow> rt_rbb \<Rightarrow> rt_rbb" where
  "rbb_place i a n r = upd_blk i (\<lambda>b. b\<lparr>blk_status := RT_RBB_BLK_INITED, blk_buf := a, blk_size := ucast n\<rparr>) (rbb_list_append (Blk i) r)"

definition rt_rbb_blk_alloc :: "u32 \<Rightarrow> rt_rbb \<Rightarrow> (nat option \<times> rt_rbb) option" where
  "rt_rbb_blk_alloc n r = do {
     _ \<leftarrow> kassert (n < 0x1000000);
     (new_rbb, r) \<leftarrow> find_empty_blk_in_set r;
     case new_rbb of
       None \<Rightarrow> Some (None, r)
     | Some i \<Rightarrow>
         if \<not> rt_slist_isempty BlkList (rbb_next r) then do {
           hn \<leftarrow> rt_slist_first BlkList (rbb_next r);
           h0 \<leftarrow> rbb_entry hn;
           t0 \<leftarrow> rbb_entry (rbb_tail r);
           let head = rbb_blk_set r h0;
           let tail = rbb_blk_set r t0;
           let tail_end = blk_buf tail + ucast (blk_size tail);
           if blk_buf head \<le> blk_buf tail then
             let empty1 = rbb_buf r + rbb_buf_size r - tail_end;
                 empty2 = blk_buf head - rbb_buf r
             in if empty1 \<ge> n then Some (Some i, rbb_place i tail_end n r)
                else if empty2 \<ge> n then Some (Some i, rbb_place i (rbb_buf r) n r)
                else Some (None, r)
           else
             let empty1 = blk_buf head - tail_end
             in if empty1 \<ge> n then Some (Some i, rbb_place i tail_end n r) else Some (None, r)
         } else Some (Some i, rbb_place i (rbb_buf r) n r)
   }"

definition rt_rbb_blk_put :: "nat \<Rightarrow> rt_rbb \<Rightarrow> rt_rbb option" where
  "rt_rbb_blk_put i r = do {
     _ \<leftarrow> kassert (blk_status (rbb_blk_set r i) = RT_RBB_BLK_INITED);
     Some (upd_blk i (\<lambda>b. b\<lparr>blk_status := RT_RBB_BLK_PUT\<rparr>) r)
   }"

partial_function (option) rbb_find_put :: "rt_rbb \<Rightarrow> rbb_node option \<Rightarrow> nat option option" where
  "rbb_find_put r p =
    (case p of
       None \<Rightarrow> Some None
     | Some node \<Rightarrow>
         rbb_entry node \<bind> (\<lambda>i.
         if blk_status (rbb_blk_set r i) = RT_RBB_BLK_PUT then Some (Some i)
         else rbb_find_put r (rt_slist_next node (rbb_next r))))"

definition rt_rbb_blk_get :: "rt_rbb \<Rightarrow> (nat option \<times> rt_rbb) option" where
  "rt_rbb_blk_get r =
    (if rt_slist_isempty BlkList (rbb_next r) then Some (None, r)
     else do {
       block \<leftarrow> rbb_find_put r (rt_slist_first BlkList (rbb_next r));
       Some (block, case block of None \<Rightarrow> r | Some i \<Rightarrow> upd_blk i (\<lambda>b. b\<lparr>blk_status := RT_RBB_BLK_GET\<rparr>) r)
     })"

definition rt_rbb_blk_size :: "nat \<Rightarrow> rt_rbb \<Rightarrow> u32" where
  "rt_rbb_blk_size i r = ucast (blk_size (rbb_blk_set r i))"

definition rt_rbb_blk_buf :: "nat \<Rightarrow> rt_rbb \<Rightarrow> u32" where
  "rt_rbb_blk_buf i r = blk_buf (rbb_blk_set r i)"

definition rt_rbb_blk_free :: "nat \<Rightarrow> rt_rbb \<Rightarrow> rt_rbb option" where
  "rt_rbb_blk_free i r = do {
     _ \<leftarrow> kassert (blk_status (rbb_blk_set r i) \<noteq> RT_RBB_BLK_UNUSED);
     r \<leftarrow> rbb_list_remove (Blk i) r;
     let r = upd_blk i (\<lambda>b. b\<lparr>blk_status := RT_RBB_BLK_UNUSED\<rparr>) r;
     Some (r\<lparr>rbb_next := rt_slist_insert FreeList (Blk i) (rbb_next r)\<rparr>)
   }"

text \<open>
  The loop of \<^verbatim>\<open>rt_rbb_blk_queue_get\<close>; \<open>last\<close> is \<^verbatim>\<open>last_block\<close>, \<open>dsum\<close> is \<^verbatim>\<open>data_total_size\<close>. At the end of the list
  the loop header reads the successor of a null pointer, whose value it does not use.
\<close>

partial_function (option) rbb_queue_loop ::
    "rbb_node option \<Rightarrow> nat option \<Rightarrow> u32 \<Rightarrow> u32 \<Rightarrow> rt_rbb_blk_queue \<Rightarrow> rt_rbb \<Rightarrow> (u32 \<times> rt_rbb_blk_queue \<times> rt_rbb) option" where
  "rbb_queue_loop p last_block dsum len q r =
    (case p of
       None \<Rightarrow> Some (dsum, q, r)
     | Some node \<Rightarrow>
         rbb_entry node \<bind> (\<lambda>i.
         let blk = rbb_blk_set r i;
             nxt = rt_slist_next node (rbb_next r);
             q' = (if last_block = None then q\<lparr>bq_blocks := i, bq_blk_num := 0\<rparr> else q);
             r' = upd_blk i (\<lambda>b. b\<lparr>blk_status := RT_RBB_BLK_GET\<rparr>) r
         in if last_block = None \<and> blk_status blk \<noteq> RT_RBB_BLK_PUT then rbb_queue_loop nxt None dsum len q r
            else if last_block \<noteq> None \<and> (blk_status blk \<noteq> RT_RBB_BLK_PUT \<or> blk_buf (rbb_blk_set r (the last_block)) > blk_buf blk \<or>
              dsum + ucast (blk_size blk) > len) then Some (dsum, q, r)
            else rbb_queue_loop nxt (Some i) (dsum + ucast (blk_size blk)) len (q'\<lparr>bq_blk_num := bq_blk_num q' + 1\<rparr>) r'))"

definition rt_rbb_blk_queue_get :: "u32 \<Rightarrow> rt_rbb_blk_queue \<Rightarrow> rt_rbb \<Rightarrow> (u32 \<times> rt_rbb_blk_queue \<times> rt_rbb) option" where
  "rt_rbb_blk_queue_get queue_data_len q r =
    (if rt_slist_isempty BlkList (rbb_next r) then Some (0, q, r)
     else rbb_queue_loop (rt_slist_first BlkList (rbb_next r)) None 0 queue_data_len q r)"

text \<open>The entry of a null pointer is an error only when it is used.\<close>

fun rbb_queue_len_loop :: "nat \<Rightarrow> rbb_node option \<Rightarrow> rt_rbb \<Rightarrow> u32 \<Rightarrow> u32 option" where
  "rbb_queue_len_loop 0 p r dsum = Some dsum"
| "rbb_queue_len_loop (Suc k) p r dsum = do {
     node \<leftarrow> p;
     i \<leftarrow> rbb_entry node;
     rbb_queue_len_loop k (rbb_next r node) r (dsum + ucast (blk_size (rbb_blk_set r i)))
   }"

definition rt_rbb_blk_queue_len :: "rt_rbb_blk_queue \<Rightarrow> rt_rbb \<Rightarrow> u32 option" where
  "rt_rbb_blk_queue_len q r = rbb_queue_len_loop (unat (bq_blk_num q)) (Some (Blk (bq_blocks q))) r 0"

definition rt_rbb_blk_queue_buf :: "rt_rbb_blk_queue \<Rightarrow> rt_rbb \<Rightarrow> u32" where
  "rt_rbb_blk_queue_buf q r = blk_buf (rbb_blk_set r (bq_blocks q))"

fun rbb_queue_free_loop :: "nat \<Rightarrow> rbb_node option \<Rightarrow> rt_rbb \<Rightarrow> rt_rbb option" where
  "rbb_queue_free_loop 0 p r = Some r"
| "rbb_queue_free_loop (Suc k) p r = do {
     node \<leftarrow> p;
     i \<leftarrow> rbb_entry node;
     let next_blk = rbb_next r node;
     r \<leftarrow> rt_rbb_blk_free i r;
     rbb_queue_free_loop k next_blk r
   }"

definition rt_rbb_blk_queue_free :: "rt_rbb_blk_queue \<Rightarrow> rt_rbb \<Rightarrow> rt_rbb option" where
  "rt_rbb_blk_queue_free q r = rbb_queue_free_loop (unat (bq_blk_num q)) (Some (Blk (bq_blocks q))) r"

partial_function (option) rbb_next_len_loop :: "rbb_node option \<Rightarrow> nat option \<Rightarrow> u32 \<Rightarrow> rt_rbb \<Rightarrow> u32 option" where
  "rbb_next_len_loop p last_block dsum r =
    (case p of
       None \<Rightarrow> Some dsum
     | Some node \<Rightarrow>
         rbb_entry node \<bind> (\<lambda>i.
         let blk = rbb_blk_set r i; nxt = rt_slist_next node (rbb_next r)
         in if last_block = None \<and> blk_status blk \<noteq> RT_RBB_BLK_PUT then rbb_next_len_loop nxt None dsum r
            else if last_block \<noteq> None \<and> (blk_status blk \<noteq> RT_RBB_BLK_PUT \<or> blk_buf (rbb_blk_set r (the last_block)) > blk_buf blk)
              then Some dsum
            else rbb_next_len_loop nxt (Some i) (dsum + ucast (blk_size blk)) r))"

definition rt_rbb_next_blk_queue_len :: "rt_rbb \<Rightarrow> u32 option" where
  "rt_rbb_next_blk_queue_len r =
    (if rt_slist_isempty BlkList (rbb_next r) then Some 0
     else rbb_next_len_loop (rt_slist_first BlkList (rbb_next r)) None 0 r)"

definition rt_rbb_get_buf_size :: "rt_rbb \<Rightarrow> u32" where
  "rt_rbb_get_buf_size r = rbb_buf_size r"

section \<open>The layout of the blocks\<close>

text \<open>
  Spans \<open>(address, size)\<close> in the order of the list. \<open>asc lo hi\<close>: they ascend within \<open>lo\<close> and \<open>hi\<close>. The whole list
  ascends to the end of the buffer and may go on from its beginning, below its first span.
\<close>

fun asc :: "nat \<Rightarrow> nat \<Rightarrow> (nat \<times> nat) list \<Rightarrow> bool" where
  "asc lo hi [] \<longleftrightarrow> lo \<le> hi"
| "asc lo hi ((a, n) # ss) \<longleftrightarrow> lo \<le> a \<and> 0 < n \<and> asc (a + n) hi ss"

definition circular :: "nat \<Rightarrow> nat \<Rightarrow> (nat \<times> nat) list \<Rightarrow> bool" where
  "circular B E ss \<longleftrightarrow> (\<exists>us vs. ss = us @ vs \<and> (us = [] \<longrightarrow> vs = []) \<and> asc B E (vs @ us))"

definition disjoint :: "nat \<times> nat \<Rightarrow> nat \<times> nat \<Rightarrow> bool" where
  "disjoint s t \<longleftrightarrow> fst s + snd s \<le> fst t \<or> fst t + snd t \<le> fst s"

text \<open>The places where a block may go, in the order in which the code tries them.\<close>

definition rbb_gaps :: "nat \<Rightarrow> nat \<Rightarrow> (nat \<times> nat) list \<Rightarrow> (nat \<times> nat) list" where
  "rbb_gaps B E ss =
    (if ss = [] then [(B, E - B)]
     else let e = fst (last ss) + snd (last ss) in
       if fst (hd ss) \<le> fst (last ss) then [(e, E - e), (B, fst (hd ss) - B)] else [(e, fst (hd ss) - e)])"

lemma asc_le: "asc lo hi ss \<Longrightarrow> lo \<le> hi"
proof (induction ss arbitrary: lo)
  case (Cons s ss)
  obtain a n where s: "s = (a, n)" by (cases s)
  then have "a + n \<le> hi" using Cons.IH[of "a + n"] Cons.prems by simp
  then show ?case using Cons.prems s by simp
qed simp

lemma asc_raise: "asc lo hi ss \<Longrightarrow> ss \<noteq> [] \<Longrightarrow> lo' \<le> fst (hd ss) \<Longrightarrow> asc lo' hi ss"
  by (cases ss) auto

lemma asc_weaken: "asc lo hi ss \<Longrightarrow> lo' \<le> lo \<Longrightarrow> hi \<le> hi' \<Longrightarrow> asc lo' hi' ss"
  by (induction ss arbitrary: lo lo') auto

lemma asc_append: "asc lo hi (us @ vs) \<longleftrightarrow> (\<exists>m. asc lo m us \<and> asc m hi vs)"
proof (induction us arbitrary: lo)
  case Nil
  then show ?case using asc_weaken by (auto 4 4)
qed auto

lemma asc_inside: "asc lo hi ss \<Longrightarrow> s \<in> set ss \<Longrightarrow> lo \<le> fst s \<and> 0 < snd s \<and> fst s + snd s \<le> hi"
proof (induction ss arbitrary: lo)
  case (Cons x ss)
  obtain a n where x: "x = (a, n)" by (cases x)
  have "lo \<le> a" "0 < n" "asc (a + n) hi ss" using Cons.prems(1) x by simp_all
  then show ?case using Cons.IH[of "a + n"] Cons.prems(2) asc_le[of "a + n" hi ss] x by fastforce
qed simp

lemma asc_apart:
  "asc lo hi ss \<Longrightarrow> distinct ss \<and> (\<forall>s\<in>set ss. \<forall>t\<in>set ss. s \<noteq> t \<longrightarrow> disjoint s t)"
proof (induction ss arbitrary: lo)
  case (Cons x ss)
  obtain a n where x: "x = (a, n)" by (cases x)
  have h: "0 < n" "asc (a + n) hi ss" using Cons.prems x by simp_all
  then have "a + n \<le> fst s" if "s \<in> set ss" for s using asc_inside[OF h(2) that] by simp
  then have le: "\<forall>s\<in>set ss. a + n \<le> fst s" by blast
  then have "x \<notin> set ss" using h(1) x by (metis add_le_same_cancel1 fst_conv not_le)
  moreover have "\<forall>s\<in>set ss. disjoint x s \<and> disjoint s x" using le x by (simp add: disjoint_def)
  ultimately have "x \<notin> set ss" "\<forall>s\<in>set ss. disjoint x s \<and> disjoint s x" by blast+
  then show ?case using Cons.IH[OF h(2)] by auto
qed simp

lemma asc_tight: "asc lo hi ss \<Longrightarrow> ss \<noteq> [] \<Longrightarrow> asc lo (fst (last ss) + snd (last ss)) ss"
proof (induction ss arbitrary: lo)
  case (Cons x ss)
  then show ?case by (cases x; cases "ss = []") auto
qed simp

lemma asc_ends: "asc lo hi ss \<Longrightarrow> ss \<noteq> [] \<Longrightarrow> fst (hd ss) \<le> fst (last ss)"
  using asc_inside[of "fst (hd ss)" hi ss "last ss"] asc_raise[of lo hi ss] by simp

lemma asc_remove1: "asc lo hi ss \<Longrightarrow> asc lo hi (remove1 s ss)"
proof (induction ss arbitrary: lo)
  case (Cons x ss)
  then show ?case by (cases x) (auto intro: asc_weaken)
qed simp

lemma circularE:
  assumes "circular B E ss"
  obtains us vs where "ss = us @ vs" "us = [] \<Longrightarrow> vs = []" "asc B E (vs @ us)"
  using assms unfolding circular_def by blast

lemma circular_inside:
  assumes "circular B E ss" "s \<in> set ss"
  shows "B \<le> fst s \<and> 0 < snd s \<and> fst s + snd s \<le> E"
proof (rule circularE[OF assms(1)])
  fix us vs assume "ss = us @ vs" "asc B E (vs @ us)"
  then show ?thesis using asc_inside[of B E "vs @ us" s] assms(2) by auto
qed

lemma circular_apart:
  assumes "circular B E ss"
  shows "distinct ss \<and> (\<forall>s\<in>set ss. \<forall>t\<in>set ss. s \<noteq> t \<longrightarrow> disjoint s t)"
proof (rule circularE[OF assms])
  fix us vs assume "ss = us @ vs" "asc B E (vs @ us)"
  then show ?thesis using asc_apart[of B E "vs @ us"] by auto
qed

lemma circular_remove1:
  assumes "circular B E ss"
  shows "circular B E (remove1 s ss)"
proof (rule circularE[OF assms])
  fix us vs assume s: "ss = us @ vs" "us = [] \<Longrightarrow> vs = []" "asc B E (vs @ us)"
  have d: "distinct (vs @ us)" using asc_apart[OF s(3)] by blast
  have r: "asc B E (remove1 s (vs @ us))" by (rule asc_remove1[OF s(3)])
  show ?thesis
  proof (cases "s \<in> set us")
    case True
    then have "s \<notin> set vs" using d by auto
    then have a: "asc B E (vs @ remove1 s us)" using r by (simp add: remove1_append)
    have e: "remove1 s ss = remove1 s us @ vs" using True s(1) by (simp add: remove1_append)
    show ?thesis
    proof (cases "remove1 s us = []")
      case True
      then show ?thesis using a e unfolding circular_def by (intro exI[of _ vs] exI[of _ "[]"]) simp
    qed (use a e in \<open>auto simp: circular_def\<close>)
  next
    case False
    then have "asc B E (remove1 s vs @ us)" "remove1 s ss = us @ remove1 s vs"
      using r s(1) by (auto simp: remove1_append remove1_idem split: if_splits)
    moreover have "us = [] \<Longrightarrow> remove1 s vs = []" using s(2) by simp
    ultimately show ?thesis unfolding circular_def by blast
  qed
qed

lemma circular_add:
  assumes c: "circular B E ss" and g: "(a, g) \<in> set (rbb_gaps B E ss)" "n \<le> g" "0 < n"
  shows "circular B E (ss @ [(a, n)])"
proof (cases "ss = []")
  case True
  then have "asc B E [(a, n)]" using g by (auto simp: rbb_gaps_def)
  then show ?thesis using True unfolding circular_def by (intro exI[of _ "[(a, n)]"] exI[of _ "[]"]) simp
next
  case ne: False
  obtain us vs where s: "ss = us @ vs" "us = [] \<Longrightarrow> vs = []" "asc B E (vs @ us)" using c unfolding circular_def by blast
  have us: "us \<noteq> []" using ne s(1,2) by auto
  obtain m where m: "asc B m vs" "asc m E us" using s(3) by (auto simp: asc_append)
  have h: "hd ss = hd us" using us s(1) by simp
  have hm: "m \<le> fst (hd us)" using asc_inside[OF m(2)] us by simp
  define e where "e = fst (last ss) + snd (last ss)"
  show ?thesis
  proof (cases "vs = []")
    case True
    have l: "last ss = last us" using True s(1) by simp
    have au: "asc B E us" using s(3) True by simp
    have "fst (hd ss) \<le> fst (last ss)" using asc_ends[OF au us] h l by simp
    then consider "a = e" "g = E - e" | "a = B" "g = fst (hd us) - B" using g(1) ne h by (auto simp: rbb_gaps_def e_def Let_def)
    then show ?thesis
    proof cases
      case 1
      have "asc B e us" using asc_tight[OF au us] by (simp add: e_def l)
      moreover have "asc e E [(e, n)]" using 1 g(2,3) by auto
      ultimately have "asc B E (us @ [(e, n)])" unfolding asc_append by blast
      then show ?thesis using 1 True s(1) unfolding circular_def by (intro exI[of _ "us @ [(e, n)]"] exI[of _ "[]"]) simp
    next
      case 2
      have "asc (B + n) E us" using 2 g(2,3) by (intro asc_raise[OF au us]) simp
      then have "asc B E ([(B, n)] @ us)" using g(3) by simp
      then show ?thesis using 2 True us s(1) unfolding circular_def by (intro exI[of _ us] exI[of _ "[(B, n)]"]) simp
    qed
  next
    case False
    have l: "last ss = last vs" using False s(1) by simp
    have le: "fst (last vs) + snd (last vs) \<le> m" "0 < snd (last vs)" using asc_inside[OF m(1)] False by simp_all
    have "\<not> fst (hd ss) \<le> fst (last ss)" using le hm by (simp add: h l)
    then have 1: "a = e" "g = fst (hd us) - e" using g(1) ne h by (auto simp: rbb_gaps_def e_def Let_def)
    have "asc B e vs" using asc_tight[OF m(1) False] by (simp add: e_def l)
    moreover have "asc (e + n) E us" using 1 g(2,3) by (intro asc_raise[OF m(2) us]) simp
    ultimately have "asc B E (vs @ (e, n) # us)" using g(3) unfolding asc_append by auto
    then show ?thesis using 1 us s(1) unfolding circular_def by (intro exI[of _ us] exI[of _ "vs @ [(e, n)]"]) simp
  qed
qed

section \<open>The invariant\<close>

text \<open>\<open>xs\<close> are the descriptors in use, oldest first, \<open>fs\<close> the unused ones.\<close>

definition span :: "rt_rbb \<Rightarrow> nat \<Rightarrow> nat \<times> nat" where
  "span r i = (unat (blk_buf (rbb_blk_set r i)), unat (blk_size (rbb_blk_set r i)))"

definition rbb_wf :: "rt_rbb \<Rightarrow> nat list \<Rightarrow> nat list \<Rightarrow> bool" where
  "rbb_wf r xs fs \<longleftrightarrow> sl (rbb_next r) BlkList (map Blk xs) \<and> sl (rbb_next r) FreeList (map Blk fs) \<and> distinct (xs @ fs) \<and>
     rbb_tail r = last (BlkList # map Blk xs) \<and>
     (\<forall>i\<in>set fs. blk_status (rbb_blk_set r i) = RT_RBB_BLK_UNUSED) \<and> (\<forall>i\<in>set xs. blk_status (rbb_blk_set r i) \<noteq> RT_RBB_BLK_UNUSED) \<and>
     unat (rbb_buf r) + unat (rbb_buf_size r) < 4294967296 \<and>
     circular (unat (rbb_buf r)) (unat (rbb_buf r) + unat (rbb_buf_size r)) (map (span r) xs)"

lemma upd_blk_simps [simp]:
  "rbb_blk_set (upd_blk i f r) = (rbb_blk_set r)(i := f (rbb_blk_set r i))" "rbb_next (upd_blk i f r) = rbb_next r"
  "rbb_tail (upd_blk i f r) = rbb_tail r" "rbb_buf (upd_blk i f r) = rbb_buf r" "rbb_buf_size (upd_blk i f r) = rbb_buf_size r"
  by (simp_all add: upd_blk_def)

lemma unat_blk_size [simp]: "unat (ucast (s :: 24 word) :: u32) = unat s"
  using unsigned_less[of s, where 'a=nat] by (simp add: unsigned_ucast_eq take_bit_nat_eq_self)

lemma unat_blk_fit: "n < 0x1000000 \<Longrightarrow> unat (ucast (n :: u32) :: 24 word) = unat n"
  by (simp add: unsigned_ucast_eq take_bit_nat_eq_self word_less_nat_alt)

lemma in_blk_map [simp]: "Blk i \<in> Blk ` S \<longleftrightarrow> i \<in> S" "BlkList \<notin> Blk ` S" "FreeList \<notin> Blk ` S"
  by auto

lemma map_span_cong: "(\<And>j. j \<in> set xs \<Longrightarrow> rbb_blk_set r' j = rbb_blk_set r j) \<Longrightarrow> map (span r') xs = map (span r) xs"
  by (simp add: span_def)

lemma rbb_blocks_apart:
  assumes "rbb_wf r xs fs"
  shows "\<forall>i\<in>set xs. unat (rbb_buf r) \<le> fst (span r i) \<and> 0 < snd (span r i) \<and>
      fst (span r i) + snd (span r i) \<le> unat (rbb_buf r) + unat (rbb_buf_size r)"
    and "\<forall>i\<in>set xs. \<forall>j\<in>set xs. i \<noteq> j \<longrightarrow> disjoint (span r i) (span r j)" "inj_on (span r) (set xs)"
proof -
  have c: "circular (unat (rbb_buf r)) (unat (rbb_buf r) + unat (rbb_buf_size r)) (map (span r) xs)" using assms by (simp add: rbb_wf_def)
  show "\<forall>i\<in>set xs. unat (rbb_buf r) \<le> fst (span r i) \<and> 0 < snd (span r i) \<and>
      fst (span r i) + snd (span r i) \<le> unat (rbb_buf r) + unat (rbb_buf_size r)"
    using circular_inside[OF c] by simp
  show inj: "inj_on (span r) (set xs)" using circular_apart[OF c] by (simp add: distinct_map)
  show "\<forall>i\<in>set xs. \<forall>j\<in>set xs. i \<noteq> j \<longrightarrow> disjoint (span r i) (span r j)"
    using circular_apart[OF c] inj_onD[OF inj] by fastforce
qed

lemma find_empty_law:
  assumes "rbb_wf r xs (i # fs)"
  shows "\<exists>h. find_empty_blk_in_set r = Some (Some i, r\<lparr>rbb_next := h\<rparr>) \<and> rbb_wf (r\<lparr>rbb_next := h\<rparr>) xs fs"
proof -
  have w: "sl (rbb_next r) BlkList (map Blk xs)" "sl (rbb_next r) FreeList (map Blk (i # fs))" "distinct (xs @ i # fs)"
    "blk_status (rbb_blk_set r i) = RT_RBB_BLK_UNUSED"
    using assms by (simp_all add: rbb_wf_def)
  obtain h where h: "rt_slist_remove FreeList (Blk i) (rbb_next r) = Some h" "sl h FreeList (map Blk fs)"
    "\<forall>b. b \<notin> set (FreeList # map Blk (i # fs)) \<longrightarrow> h b = rbb_next r b"
    using slist_remove_law[OF w(2), of "Blk i"] by auto
  have "sl h BlkList (map Blk xs)" using w(1,3) h(3) by (subst sl_cong[of _ _ _ "rbb_next r"]) auto
  moreover have "span (r\<lparr>rbb_next := h\<rparr>) = span r" by (simp add: span_def fun_eq_iff)
  ultimately have "rbb_wf (r\<lparr>rbb_next := h\<rparr>) xs fs" using assms h(2) by (simp add: rbb_wf_def)
  then show ?thesis using w(2,4) h(1)
    by (intro exI[of _ h]) (simp add: find_empty_blk_in_set_def rt_slist_isempty_def rt_slist_first_def rbb_entry_def)
qed

lemma rbb_place_law:
  assumes wf: "rbb_wf r xs fs" and i: "i \<notin> set (xs @ fs)" and n: "n < 0x1000000"
    and c: "circular (unat (rbb_buf r)) (unat (rbb_buf r) + unat (rbb_buf_size r)) (map (span r) xs @ [(unat a, unat n)])"
  shows "rbb_wf (rbb_place i a n r) (xs @ [i]) fs \<and> span (rbb_place i a n r) i = (unat a, unat n) \<and>
    blk_status (rbb_blk_set (rbb_place i a n r) i) = RT_RBB_BLK_INITED \<and>
    (\<forall>j. j \<noteq> i \<longrightarrow> rbb_blk_set (rbb_place i a n r) j = rbb_blk_set r j)"
proof -
  let ?r = "rbb_place i a n r"
  have w: "sl (rbb_next r) BlkList (map Blk xs)" "sl (rbb_next r) FreeList (map Blk fs)" "distinct (xs @ fs)"
    "rbb_tail r = last (BlkList # map Blk xs)" using wf by (simp_all add: rbb_wf_def)
  have nx: "rbb_next ?r = (rbb_next r)(last (BlkList # map Blk xs) := Some (Blk i), Blk i := None)"
    by (simp add: rbb_place_def rbb_list_append_def w(4) del: last.simps)
  have "last (BlkList # map Blk xs) \<in> insert BlkList (Blk ` set xs)" using last_in_set[of "BlkList # map Blk xs"] by simp
  then have "last (BlkList # map Blk xs) \<notin> set (FreeList # map Blk fs)" using w(3) by auto
  then have f: "sl (rbb_next ?r) FreeList (map Blk fs)" unfolding nx using w(2) i by (simp del: last.simps)
  have b: "sl (rbb_next ?r) BlkList (map Blk (xs @ [i]))" unfolding nx using sl_snoc[OF w(1), of "Blk i"] i by simp
  have s: "span ?r i = (unat a, unat n)" using n by (simp add: span_def rbb_place_def unat_blk_fit)
  have o: "rbb_blk_set ?r j = rbb_blk_set r j" if "j \<noteq> i" for j using that by (simp add: rbb_place_def rbb_list_append_def)
  have "map (span ?r) (xs @ [i]) = map (span r) xs @ [(unat a, unat n)]" using i s map_span_cong[of xs ?r r, OF o] by auto
  then have "circular (unat (rbb_buf r)) (unat (rbb_buf r) + unat (rbb_buf_size r)) (map (span ?r) (xs @ [i]))" using c by (simp only:)
  moreover have g: "rbb_tail ?r = Blk i" "rbb_buf ?r = rbb_buf r" "rbb_buf_size ?r = rbb_buf_size r"
    "blk_status (rbb_blk_set ?r i) = RT_RBB_BLK_INITED"
    by (simp_all add: rbb_place_def rbb_list_append_def)
  moreover have "\<forall>j\<in>set fs. blk_status (rbb_blk_set ?r j) = RT_RBB_BLK_UNUSED" "\<forall>j\<in>set xs. blk_status (rbb_blk_set ?r j) \<noteq> RT_RBB_BLK_UNUSED"
    using wf i o by (metis Un_iff rbb_wf_def set_append)+
  ultimately have "rbb_wf ?r (xs @ [i]) fs" using b f wf i unfolding rbb_wf_def by auto
  then show ?thesis using s o g by blast
qed

section \<open>Correctness of the operations\<close>

lemma rbb_last_node: "xs \<noteq> [] \<Longrightarrow> last (BlkList # map Blk xs) = Blk (last xs)"
  by (simp add: last_map)

lemma unat_minus_le: "b \<le> (a :: u32) \<Longrightarrow> unat (a - b) = unat a - unat b"
  by (simp add: unat_sub)

lemma rbb_alloc_place:
  assumes wf: "rbb_wf r xs (i # fs)" and n: "0 < n" "n < 0x1000000"
    and f: "find (\<lambda>(a, g). unat n \<le> g) (rbb_gaps (unat (rbb_buf r)) (unat (rbb_buf r) + unat (rbb_buf_size r)) (map (span r) xs)) = Some (unat a, g)"
    and h: "rbb_wf (r\<lparr>rbb_next := h\<rparr>) xs fs"
  defines "r' \<equiv> rbb_place i a n (r\<lparr>rbb_next := h\<rparr>)"
  shows "rbb_wf r' (xs @ [i]) fs \<and> span r' i = (unat a, unat n) \<and> blk_status (rbb_blk_set r' i) = RT_RBB_BLK_INITED \<and>
    (\<forall>j. j \<noteq> i \<longrightarrow> rbb_blk_set r' j = rbb_blk_set r j) \<and> (\<forall>j\<in>set xs. disjoint (unat a, unat n) (span r' j)) \<and>
    rbb_buf r' = rbb_buf r \<and> rbb_buf_size r' = rbb_buf_size r"
proof -
  let ?s = "r\<lparr>rbb_next := h\<rparr>" and ?B = "unat (rbb_buf r)" and ?E = "unat (rbb_buf r) + unat (rbb_buf_size r)"
  have i: "i \<notin> set (xs @ fs)" using wf by (simp add: rbb_wf_def)
  have c: "circular ?B ?E (map (span r) xs)" using wf by (simp add: rbb_wf_def)
  have sp: "span ?s = span r" by (simp add: span_def fun_eq_iff)
  have g: "(unat a, g) \<in> set (rbb_gaps ?B ?E (map (span r) xs))" "unat n \<le> g" using f by (auto simp: find_Some_iff in_set_conv_nth)
  have "circular ?B ?E (map (span ?s) xs @ [(unat a, unat n)])"
    unfolding sp using circular_add[OF c g] n(1) by (simp add: word_less_nat_alt)
  then have p: "rbb_wf r' (xs @ [i]) fs" "span r' i = (unat a, unat n)" "blk_status (rbb_blk_set r' i) = RT_RBB_BLK_INITED"
    "\<forall>j. j \<noteq> i \<longrightarrow> rbb_blk_set r' j = rbb_blk_set ?s j"
    using rbb_place_law[OF h i n(2), of a] unfolding r'_def by simp_all
  moreover have "\<forall>j\<in>set xs. disjoint (unat a, unat n) (span r' j)" using rbb_blocks_apart(2)[OF p(1)] i by (auto simp flip: p(2))
  moreover have "rbb_buf r' = rbb_buf r" "rbb_buf_size r' = rbb_buf_size r" by (simp_all add: r'_def rbb_place_def rbb_list_append_def)
  ultimately show ?thesis by simp
qed

text \<open>The gaps as the code computes them.\<close>

lemma rbb_gaps_code:
  assumes wf: "rbb_wf r xs fs" and ne: "xs \<noteq> []"
  defines "h \<equiv> rbb_blk_set r (hd xs)" and "t \<equiv> rbb_blk_set r (last xs)"
  defines "e \<equiv> blk_buf t + ucast (blk_size t)"
  shows "rbb_gaps (unat (rbb_buf r)) (unat (rbb_buf r) + unat (rbb_buf_size r)) (map (span r) xs) =
    (if blk_buf h \<le> blk_buf t
     then [(unat e, unat (rbb_buf r + rbb_buf_size r - e)), (unat (rbb_buf r), unat (blk_buf h - rbb_buf r))]
     else [(unat e, unat (blk_buf h - e))])"
proof -
  let ?B = "unat (rbb_buf r)" and ?E = "unat (rbb_buf r) + unat (rbb_buf_size r)"
  have E: "?E < 4294967296" using wf by (simp add: rbb_wf_def)
  have m: "hd xs \<in> set xs" "last xs \<in> set xs" using ne by simp_all
  have hs: "span r (hd xs) = (unat (blk_buf h), unat (blk_size h))" and ts: "span r (last xs) = (unat (blk_buf t), unat (blk_size t))"
    by (simp_all add: span_def h_def t_def)
  have ih: "?B \<le> unat (blk_buf h)" using rbb_blocks_apart(1)[OF wf] m(1) hs by auto
  have it: "unat (blk_buf t) + unat (blk_size t) \<le> ?E" "0 < unat (blk_size t)" using rbb_blocks_apart(1)[OF wf] m(2) ts by auto
  have ue: "unat e = unat (blk_buf t) + unat (blk_size t)" using it E by (simp add: e_def unat_word_ariths(1))
  have uE: "unat (rbb_buf r + rbb_buf_size r) = ?E" using E by (simp add: unat_word_ariths(1))
  have hd_last: "hd (map (span r) xs) = span r (hd xs)" "last (map (span r) xs) = span r (last xs)" using ne by (simp_all add: hd_map last_map)
  show ?thesis
  proof (cases "blk_buf h \<le> blk_buf t")
    case True
    have "e \<le> rbb_buf r + rbb_buf_size r" "rbb_buf r \<le> blk_buf h" using ue uE it ih by (simp_all add: word_le_nat_alt)
    then show ?thesis using True ne ue uE by (simp add: rbb_gaps_def hd_last hs ts unat_minus_le word_le_nat_alt Let_def)
  next
    case False
    then have lt: "unat (blk_buf t) < unat (blk_buf h)" by (simp add: word_le_nat_alt)
    then have "hd xs \<noteq> last xs" using h_def t_def by auto
    then have "disjoint (span r (hd xs)) (span r (last xs))" using rbb_blocks_apart(2)[OF wf] m by blast
    then have "e \<le> blk_buf h" using lt ue by (simp add: disjoint_def hs ts word_le_nat_alt)
    then show ?thesis using False ne ue by (simp add: rbb_gaps_def hd_last hs ts unat_minus_le word_le_nat_alt Let_def)
  qed
qed

lemma rbb_alloc_law:
  assumes wf: "rbb_wf r xs fs" and n: "0 < n" "n < 0x1000000" and fits: "unat n \<le> unat (rbb_buf_size r)"
  shows "case fs of
      [] \<Rightarrow> rt_rbb_blk_alloc n r = Some (None, r)
    | i # fs \<Rightarrow> \<exists>out r'. rt_rbb_blk_alloc n r = Some (out, r') \<and> rbb_buf r' = rbb_buf r \<and> rbb_buf_size r' = rbb_buf_size r \<and>
        (case find (\<lambda>(a, g). unat n \<le> g) (rbb_gaps (unat (rbb_buf r)) (unat (rbb_buf r) + unat (rbb_buf_size r)) (map (span r) xs)) of
           None \<Rightarrow> out = None \<and> rbb_wf r' xs fs \<and> rbb_blk_set r' = rbb_blk_set r
         | Some (a, g) \<Rightarrow> out = Some i \<and> rbb_wf r' (xs @ [i]) fs \<and> span r' i = (a, unat n) \<and>
             blk_status (rbb_blk_set r' i) = RT_RBB_BLK_INITED \<and> (\<forall>j. j \<noteq> i \<longrightarrow> rbb_blk_set r' j = rbb_blk_set r j) \<and>
             (\<forall>j\<in>set xs. disjoint (a, unat n) (span r' j)))"
proof (cases fs)
  case Nil
  have "rt_slist_isempty FreeList (rbb_next r)" using wf Nil by (simp add: rbb_wf_def rt_slist_isempty_def)
  then show ?thesis using Nil n(2) by (simp add: rt_rbb_blk_alloc_def find_empty_blk_in_set_def)
next
  case (Cons i fs')
  let ?B = "unat (rbb_buf r)" and ?E = "unat (rbb_buf r) + unat (rbb_buf_size r)"
  let ?fit = "\<lambda>(a, g). unat n \<le> g"
  have wf': "rbb_wf r xs (i # fs')" using wf Cons by simp
  obtain h where h: "find_empty_blk_in_set r = Some (Some i, r\<lparr>rbb_next := h\<rparr>)" "rbb_wf (r\<lparr>rbb_next := h\<rparr>) xs fs'"
    using find_empty_law[OF wf'] by blast
  let ?s = "r\<lparr>rbb_next := h\<rparr>"
  note place = rbb_alloc_place[OF wf' n _ h(2)]
  have out: ?thesis if f: "find ?fit (rbb_gaps ?B ?E (map (span r) xs)) = Some (unat a, g)"
    and al: "rt_rbb_blk_alloc n r = Some (Some i, rbb_place i a n ?s)" for a g
    using place[OF f] al f Cons by simp
  have none: ?thesis if f: "find ?fit (rbb_gaps ?B ?E (map (span r) xs)) = None" and al: "rt_rbb_blk_alloc n r = Some (None, ?s)"
    using h(2) al f Cons by simp
  show ?thesis
  proof (cases "xs = []")
    case True
    have "rt_slist_isempty BlkList h" using h(2) True by (simp add: rbb_wf_def rt_slist_isempty_def)
    then have "rt_rbb_blk_alloc n r = Some (Some i, rbb_place i (rbb_buf r) n ?s)" using n(2) h(1) by (simp add: rt_rbb_blk_alloc_def)
    then show ?thesis using out[of "rbb_buf r"] True fits by (simp add: rbb_gaps_def)
  next
    case ne: False
    let ?h = "rbb_blk_set r (hd xs)" and ?t = "rbb_blk_set r (last xs)"
    let ?e = "blk_buf ?t + ucast (blk_size ?t)"
    have s: "sl h BlkList (map Blk xs)" "rbb_tail r = Blk (last xs)"
      using h(2) wf rbb_last_node[OF ne] unfolding rbb_wf_def by simp_all
    then have "h BlkList = Some (Blk (hd xs))" using ne by (cases xs) simp_all
    then have al: "rt_rbb_blk_alloc n r =
        (if blk_buf ?h \<le> blk_buf ?t then
           if rbb_buf r + rbb_buf_size r - ?e \<ge> n then Some (Some i, rbb_place i ?e n ?s)
           else if blk_buf ?h - rbb_buf r \<ge> n then Some (Some i, rbb_place i (rbb_buf r) n ?s) else Some (None, ?s)
         else if blk_buf ?h - ?e \<ge> n then Some (Some i, rbb_place i ?e n ?s) else Some (None, ?s))"
      using n(2) h(1) s(2) by (simp add: rt_rbb_blk_alloc_def rt_slist_isempty_def rt_slist_first_def rbb_entry_def Let_def)
    note gaps = rbb_gaps_code[OF wf ne]
    let ?g1 = "rbb_buf r + rbb_buf_size r - ?e" and ?g2 = "blk_buf ?h - rbb_buf r" and ?g3 = "blk_buf ?h - ?e"
    consider "blk_buf ?h \<le> blk_buf ?t" "n \<le> ?g1" | "blk_buf ?h \<le> blk_buf ?t" "\<not> n \<le> ?g1" "n \<le> ?g2"
      | "blk_buf ?h \<le> blk_buf ?t" "\<not> n \<le> ?g1" "\<not> n \<le> ?g2"
      | "\<not> blk_buf ?h \<le> blk_buf ?t" "n \<le> ?g3" | "\<not> blk_buf ?h \<le> blk_buf ?t" "\<not> n \<le> ?g3" by blast
    then show ?thesis
    proof cases
      case 1
      have "find ?fit (rbb_gaps ?B ?E (map (span r) xs)) = Some (unat ?e, unat ?g1)" unfolding gaps using 1 by (simp add: word_le_nat_alt)
      then show ?thesis by (rule out) (use 1 al in simp)
    next
      case 2
      have "find ?fit (rbb_gaps ?B ?E (map (span r) xs)) = Some (unat (rbb_buf r), unat ?g2)" unfolding gaps using 2 by (simp add: word_le_nat_alt)
      then show ?thesis by (rule out) (use 2 al in simp)
    next
      case 3
      have "find ?fit (rbb_gaps ?B ?E (map (span r) xs)) = None" unfolding gaps using 3 by (simp add: word_le_nat_alt)
      then show ?thesis by (rule none) (use 3 al in simp)
    next
      case 4
      have "find ?fit (rbb_gaps ?B ?E (map (span r) xs)) = Some (unat ?e, unat ?g3)" unfolding gaps using 4 by (simp add: word_le_nat_alt)
      then show ?thesis by (rule out) (use 4 al in simp)
    next
      case 5
      have "find ?fit (rbb_gaps ?B ?E (map (span r) xs)) = None" unfolding gaps using 5 by (simp add: word_le_nat_alt)
      then show ?thesis by (rule none) (use 5 al in simp)
    qed
  qed
qed


text \<open>
  C28. \<^verbatim>\<open>rt_rbb_blk_alloc\<close> is first fit on the gaps: behind the newest block up to the end of the buffer and then
  in front of the oldest one, or between the two when the blocks wrap around. The block is appended as the
  newest one, inside the buffer and apart from all others, whose descriptors stay as they are. Without an
  unused descriptor nothing happens; without a gap nothing is allocated, and the unused descriptor is gone.
\<close>

theorem rbb_alloc_refines:
  assumes wf: "rbb_wf r xs fs" and n: "0 < n" "n < 0x1000000" and fits: "unat n \<le> unat (rbb_buf_size r)"
  shows "case fs of
      [] \<Rightarrow> rt_rbb_blk_alloc n r = Some (None, r)
    | i # fs \<Rightarrow> \<exists>out r'. rt_rbb_blk_alloc n r = Some (out, r') \<and> rbb_buf r' = rbb_buf r \<and> rbb_buf_size r' = rbb_buf_size r \<and>
        (case find (\<lambda>(a, g). unat n \<le> g) (rbb_gaps (unat (rbb_buf r)) (unat (rbb_buf r) + unat (rbb_buf_size r)) (map (span r) xs)) of
           None \<Rightarrow> out = None \<and> rbb_wf r' xs fs \<and> rbb_blk_set r' = rbb_blk_set r
         | Some (a, g) \<Rightarrow> out = Some i \<and> rbb_wf r' (xs @ [i]) fs \<and> span r' i = (a, unat n) \<and>
             blk_status (rbb_blk_set r' i) = RT_RBB_BLK_INITED \<and> (\<forall>j. j \<noteq> i \<longrightarrow> rbb_blk_set r' j = rbb_blk_set r j) \<and>
             (\<forall>j\<in>set xs. disjoint (a, unat n) (span r' j)))"
  by (rule rbb_alloc_law[OF assms])

text \<open>
  The code does not look at the size of the buffer when no block is in use: it then serves any request.
\<close>

lemma rbb_alloc_oversize:
  assumes "rbb_wf r [] (i # fs)" "n < 0x1000000"
  shows "\<exists>r'. rt_rbb_blk_alloc n r = Some (Some i, r') \<and> span r' i = (unat (rbb_buf r), unat n)"
proof -
  obtain h where h: "find_empty_blk_in_set r = Some (Some i, r\<lparr>rbb_next := h\<rparr>)" "rbb_wf (r\<lparr>rbb_next := h\<rparr>) [] fs"
    using find_empty_law[OF assms(1)] by blast
  have "rt_slist_isempty BlkList h" using h(2) by (simp add: rbb_wf_def rt_slist_isempty_def)
  then show ?thesis using assms(2) h(1) by (simp add: rt_rbb_blk_alloc_def span_def rbb_place_def unat_blk_fit)
qed

lemma remove1_map: "inj_on f (insert x (set xs)) \<Longrightarrow> remove1 (f x) (map f xs) = map f (remove1 x xs)"
  by (induction xs) (auto simp: inj_on_def)

lemma rbb_free_law:
  assumes wf: "rbb_wf r xs fs" and i: "i \<in> set xs"
  shows "\<exists>r'. rt_rbb_blk_free i r = Some r' \<and> rbb_wf r' (remove1 i xs) (i # fs) \<and>
    (\<forall>j. j \<noteq> i \<longrightarrow> rbb_blk_set r' j = rbb_blk_set r j) \<and> rbb_buf r' = rbb_buf r \<and> rbb_buf_size r' = rbb_buf_size r"
proof -
  let ?h = "rbb_next r"
  obtain us vs where s: "xs = us @ i # vs" using i by (meson split_list)
  have w: "sl ?h BlkList (map Blk us @ Blk i # map Blk vs)" "sl ?h FreeList (map Blk fs)" "distinct (us @ i # vs @ fs)"
    "rbb_tail r = last (BlkList # map Blk us @ Blk i # map Blk vs)" "blk_status (rbb_blk_set r i) \<noteq> RT_RBB_BLK_UNUSED"
    using wf i by (simp_all add: rbb_wf_def s)
  have "Blk i \<notin> set (map Blk us)" using w(3) by auto
  then have b: "slist_before ?h (Blk i) BlkList = Some (last (BlkList # map Blk us))" "?h (last (BlkList # map Blk us)) = Some (Blk i)"
    using slist_before_member[OF w(1)] by blast+
  define p where "p = last (BlkList # map Blk us)"
  have p: "p \<in> insert BlkList (Blk ` set us)" using last_in_set[of "BlkList # map Blk us"] by (simp add: p_def)
  define h1 where "h1 = ?h(p := ?h (Blk i), Blk i := None)"
  define r1 where "r1 = r\<lparr>rbb_next := h1, rbb_tail := if rbb_tail r = Blk i then p else rbb_tail r\<rparr>"
  define r' where "r' = (upd_blk i (\<lambda>b. b\<lparr>blk_status := RT_RBB_BLK_UNUSED\<rparr>) r1)\<lparr>rbb_next := rt_slist_insert FreeList (Blk i) h1\<rparr>"
  have free: "rt_rbb_blk_free i r = Some r'"
    using w(5) b by (simp add: rt_rbb_blk_free_def rbb_list_remove_def r'_def r1_def h1_def p_def del: last.simps)
  have "sl (?h(p := ?h (Blk i))) BlkList (map Blk us @ map Blk vs)" unfolding p_def by (rule sl_unlink[OF w(1)])
  then have l1: "sl h1 BlkList (map Blk (us @ vs))" using w(3) by (simp add: h1_def image_iff)
  have f1: "sl h1 FreeList (map Blk fs)" unfolding h1_def using w(2,3) p by (intro sl_frame[THEN iffD2]) auto
  have f2: "sl (rbb_next r') FreeList (map Blk (i # fs))"
    using slist_insert_law[OF f1, of "Blk i"] w(3) by (simp add: r'_def)
  have l2: "sl (rbb_next r') BlkList (map Blk (us @ vs))"
    using l1 w(3) by (subst sl_cong[of _ _ _ h1]) (auto simp: r'_def rt_slist_insert_def)
  have t2: "rbb_tail r' = last (BlkList # map Blk (us @ vs))"
    using w(3,4) by (cases "vs = []") (auto simp: r'_def r1_def p_def last_map)
  have o: "rbb_blk_set r' j = rbb_blk_set r j" if "j \<noteq> i" for j using that by (simp add: r'_def r1_def)
  have st: "blk_status (rbb_blk_set r' i) = RT_RBB_BLK_UNUSED" by (simp add: r'_def)
  have rm: "remove1 i xs = us @ vs" using w(3) s by (simp add: remove1_append)
  have inj: "inj_on (span r) (insert i (set xs))" using rbb_blocks_apart(3)[OF wf] i by (simp add: insert_absorb)
  have "map (span r') (us @ vs) = map (span r) (us @ vs)" using w(3) by (intro map_span_cong o) auto
  also have "\<dots> = remove1 (span r i) (map (span r) xs)" unfolding remove1_map[OF inj] rm ..
  finally have "circular (unat (rbb_buf r)) (unat (rbb_buf r) + unat (rbb_buf_size r)) (map (span r') (us @ vs))"
    using circular_remove1 wf unfolding rbb_wf_def by metis
  moreover have e: "rbb_buf r' = rbb_buf r" "rbb_buf_size r' = rbb_buf_size r" by (simp_all add: r'_def r1_def)
  moreover have "blk_status (rbb_blk_set r' j) = RT_RBB_BLK_UNUSED" if "j \<in> set (i # fs)" for j
    using wf st o[of j] that by (cases "j = i") (simp_all add: rbb_wf_def)
  moreover have "blk_status (rbb_blk_set r' j) \<noteq> RT_RBB_BLK_UNUSED" if "j \<in> set (us @ vs)" for j
  proof -
    have "j \<noteq> i" "j \<in> set xs" using that w(3) s by auto
    then show ?thesis using wf o[of j] by (simp add: rbb_wf_def)
  qed
  ultimately have "rbb_wf r' (us @ vs) (i # fs)" using l2 f2 t2 w(3) wf unfolding rbb_wf_def by simp
  then show ?thesis using free o e rm by (intro exI[of _ r']) simp
qed

text \<open>A change of status between the three states of a block in use.\<close>

lemma rbb_status_law:
  assumes "rbb_wf r xs fs" "i \<in> set xs" "st \<noteq> RT_RBB_BLK_UNUSED"
  shows "rbb_wf (upd_blk i (\<lambda>b. b\<lparr>blk_status := st\<rparr>) r) xs fs"
proof -
  let ?r = "upd_blk i (\<lambda>b. b\<lparr>blk_status := st\<rparr>) r"
  have sp: "span ?r = span r" by (simp add: span_def fun_eq_iff)
  have "i \<notin> set fs" using assms(1,2) by (auto simp: rbb_wf_def)
  then show ?thesis using assms unfolding rbb_wf_def sp by (simp del: last.simps) fastforce
qed

lemma rbb_find_put_law: "sl (rbb_next r) a (map Blk xs) \<Longrightarrow>
    rbb_find_put r (rbb_next r a) = Some (find (\<lambda>i. blk_status (rbb_blk_set r i) = RT_RBB_BLK_PUT) xs)"
  by (induction xs arbitrary: a) (subst rbb_find_put.simps; simp add: rbb_entry_def rt_slist_next_def)+

lemma rbb_get_law:
  assumes "rbb_wf r xs fs"
  shows "rt_rbb_blk_get r = Some (case find (\<lambda>i. blk_status (rbb_blk_set r i) = RT_RBB_BLK_PUT) xs of
      None \<Rightarrow> (None, r) | Some i \<Rightarrow> (Some i, upd_blk i (\<lambda>b. b\<lparr>blk_status := RT_RBB_BLK_GET\<rparr>) r))"
proof -
  have l: "sl (rbb_next r) BlkList (map Blk xs)" using assms by (simp add: rbb_wf_def)
  then have "rt_slist_isempty BlkList (rbb_next r) \<longleftrightarrow> xs = []" by (cases xs) (simp_all add: rt_slist_isempty_def)
  then show ?thesis using rbb_find_put_law[OF l]
    by (cases "find (\<lambda>i. blk_status (rbb_blk_set r i) = RT_RBB_BLK_PUT) xs") (auto simp: rt_rbb_blk_get_def rt_slist_first_def)
qed

lemma rbb_add_blks_law:
  assumes "sl (rbb_next r) BlkList []" "sl (rbb_next r) FreeList []"
  shows "sl (rbb_next (rbb_add_blks k r)) BlkList [] \<and> sl (rbb_next (rbb_add_blks k r)) FreeList (map Blk (rev [0..<k])) \<and>
    (\<forall>i<k. blk_status (rbb_blk_set (rbb_add_blks k r) i) = RT_RBB_BLK_UNUSED) \<and> rbb_tail (rbb_add_blks k r) = rbb_tail r \<and>
    rbb_buf (rbb_add_blks k r) = rbb_buf r \<and> rbb_buf_size (rbb_add_blks k r) = rbb_buf_size r"
proof (induction k)
  case (Suc k)
  let ?r = "rbb_add_blks k r"
  let ?h = "rt_slist_init (Blk k) (rbb_next ?r)"
  have "sl ?h FreeList (map Blk (rev [0..<k]))" "sl ?h BlkList []" using Suc by (simp_all add: rt_slist_init_def image_iff)
  then have "sl (rt_slist_insert FreeList (Blk k) ?h) FreeList (Blk k # map Blk (rev [0..<k]))"
    "sl (rt_slist_insert FreeList (Blk k) ?h) BlkList []"
    using slist_insert_law[of ?h FreeList _ "Blk k"] by (simp_all add: image_iff) (simp add: rt_slist_insert_def)
  then show ?case using Suc by (simp add: Let_def less_Suc_eq)
qed (use assms in simp)

lemma rbb_init_law:
  assumes "unat buf + unat sz < 4294967296"
  shows "rbb_wf (rt_rbb_init buf sz bset k r) [] (rev [0..<unat k])"
    "rbb_buf (rt_rbb_init buf sz bset k r) = buf" "rbb_buf_size (rt_rbb_init buf sz bset k r) = sz"
proof -
  let ?r = "r\<lparr>rbb_buf := buf, rbb_buf_size := sz, rbb_blk_set := bset, rbb_blk_max_num := k, rbb_tail := BlkList,
    rbb_next := rt_slist_init FreeList (rt_slist_init BlkList (rbb_next r))\<rparr>"
  have "sl (rbb_next ?r) BlkList []" "sl (rbb_next ?r) FreeList []" by (simp_all add: rt_slist_init_def)
  note a = rbb_add_blks_law[OF this, of "unat k"]
  have e: "rt_rbb_init buf sz bset k r = rbb_add_blks (unat k) ?r" by (simp add: rt_rbb_init_def Let_def)
  show "rbb_buf (rt_rbb_init buf sz bset k r) = buf" "rbb_buf_size (rt_rbb_init buf sz bset k r) = sz" using a unfolding e by simp_all
  have "circular (unat buf) (unat buf + unat sz) []" by (auto simp: circular_def)
  then show "rbb_wf (rt_rbb_init buf sz bset k r) [] (rev [0..<unat k])" using a assms unfolding e rbb_wf_def by simp
qed

section \<open>Clients\<close>

text \<open>
  A client that asks for blocks that can fit, puts what it has been given, and frees only what it holds: a call it
  must not make is left out. The second component is what it holds, oldest first.
\<close>

datatype rbb_call = Want_blk u32 | Put_blk nat | Get_blk | Free_blk nat

fun rbb_serve :: "rbb_call list \<Rightarrow> rt_rbb \<times> nat list \<Rightarrow> (rt_rbb \<times> nat list) option" where
  "rbb_serve [] s = Some s"
| "rbb_serve (Want_blk n # cs) (r, L) =
    (if 0 < n \<and> n < 0x1000000 \<and> unat n \<le> unat (rbb_buf_size r)
     then do { (out, r) \<leftarrow> rt_rbb_blk_alloc n r; rbb_serve cs (r, case out of None \<Rightarrow> L | Some i \<Rightarrow> L @ [i]) }
     else rbb_serve cs (r, L))"
| "rbb_serve (Put_blk i # cs) (r, L) =
    (if i \<in> set L \<and> blk_status (rbb_blk_set r i) = RT_RBB_BLK_INITED
     then do { r \<leftarrow> rt_rbb_blk_put i r; rbb_serve cs (r, L) } else rbb_serve cs (r, L))"
| "rbb_serve (Get_blk # cs) (r, L) = do { (_, r) \<leftarrow> rt_rbb_blk_get r; rbb_serve cs (r, L) }"
| "rbb_serve (Free_blk i # cs) (r, L) =
    (if i \<in> set L then do { r \<leftarrow> rt_rbb_blk_free i r; rbb_serve cs (r, remove1 i L) } else rbb_serve cs (r, L))"

lemma rbb_serve_wf:
  assumes "rbb_wf r L fs" "set (L @ fs) \<subseteq> D"
  shows "\<exists>r' L' fs'. rbb_serve cs (r, L) = Some (r', L') \<and> rbb_wf r' L' fs' \<and> set (L' @ fs') \<subseteq> D \<and>
    rbb_buf r' = rbb_buf r \<and> rbb_buf_size r' = rbb_buf_size r"
  using assms
proof (induction cs arbitrary: r L fs)
  case (Cons c cs)
  have step: ?case
    if "rbb_serve (c # cs) (r, L) = rbb_serve cs (r1, L1)" "rbb_wf r1 L1 fs1" "set (L1 @ fs1) \<subseteq> D"
      "rbb_buf r1 = rbb_buf r" "rbb_buf_size r1 = rbb_buf_size r" for r1 L1 fs1
    using Cons.IH[OF that(2,3)] that by simp
  show ?case
  proof (cases c)
    case (Want_blk n)
    show ?thesis
    proof (cases "0 < n \<and> n < 0x1000000 \<and> unat n \<le> unat (rbb_buf_size r)")
      case True
      note al = rbb_alloc_law[OF Cons.prems(1), of n]
      show ?thesis
      proof (cases fs)
        case Nil
        then have "rt_rbb_blk_alloc n r = Some (None, r)" using al True by simp
        then show ?thesis using step[OF _ Cons.prems] Want_blk True by simp
      next
        case (Cons i fs')
        obtain out r' where o: "rt_rbb_blk_alloc n r = Some (out, r')" "rbb_buf r' = rbb_buf r" "rbb_buf_size r' = rbb_buf_size r"
          "out = None \<and> rbb_wf r' L fs' \<or> out = Some i \<and> rbb_wf r' (L @ [i]) fs'"
          using al True Cons by (auto split: option.splits)
        have "set (L @ fs') \<subseteq> D" "set ((L @ [i]) @ fs') \<subseteq> D" using Cons.prems(2) Cons by auto
        then show ?thesis using step[of r' L fs'] step[of r' "L @ [i]" fs'] o Want_blk True by auto
      qed
    next
      case False
      then have "rbb_serve (c # cs) (r, L) = rbb_serve cs (r, L)" unfolding Want_blk rbb_serve.simps by (rule if_not_P)
      then show ?thesis by (rule step[OF _ Cons.prems refl refl])
    qed
  next
    case (Put_blk i)
    then show ?thesis
      using step[OF _ rbb_status_law[OF Cons.prems(1), of i RT_RBB_BLK_PUT] Cons.prems(2)] step[OF _ Cons.prems]
      by (cases "i \<in> set L \<and> blk_status (rbb_blk_set r i) = RT_RBB_BLK_INITED") (auto simp: rt_rbb_blk_put_def)
  next
    case Get_blk
    note g = rbb_get_law[OF Cons.prems(1)]
    show ?thesis
    proof (cases "find (\<lambda>i. blk_status (rbb_blk_set r i) = RT_RBB_BLK_PUT) L")
      case None
      then show ?thesis using step[OF _ Cons.prems] g Get_blk by simp
    next
      case (Some i)
      then have "i \<in> set L" by (auto simp: find_Some_iff in_set_conv_nth)
      then show ?thesis using step[OF _ rbb_status_law[OF Cons.prems(1), of i RT_RBB_BLK_GET] Cons.prems(2)] g Get_blk Some by simp
    qed
  next
    case (Free_blk i)
    show ?thesis
    proof (cases "i \<in> set L")
      case True
      obtain r' where r': "rt_rbb_blk_free i r = Some r'" "rbb_wf r' (remove1 i L) (i # fs)" "rbb_buf r' = rbb_buf r" "rbb_buf_size r' = rbb_buf_size r"
        using rbb_free_law[OF Cons.prems(1) True] by blast
      have "set (remove1 i L @ i # fs) \<subseteq> D" using Cons.prems(2) True set_remove1_subset[of i L] by auto
      then show ?thesis using step[OF _ r'(2)] r' Free_blk True by simp
    qed (use step[OF _ Cons.prems] Free_blk in simp)
  qed
qed auto

text \<open>
  C29. Whatever calls a client makes of a fresh block ring, as long as it asks for blocks that can fit and frees
  only what it holds, no call fails, the blocks it holds lie inside the buffer and apart from each other, and the
  list in the structure is the list of what it holds, in the order of allocation.
\<close>

theorem rbb_clients_safe:
  assumes "unat buf + unat sz < 4294967296"
  shows "\<exists>r' L fs. rbb_serve cs (rt_rbb_init buf sz blk_set k r, []) = Some (r', L) \<and> rbb_wf r' L fs \<and>
    (\<forall>i\<in>set L. i < unat k \<and> unat buf \<le> fst (span r' i) \<and> fst (span r' i) + snd (span r' i) \<le> unat buf + unat sz) \<and>
    (\<forall>i\<in>set L. \<forall>j\<in>set L. i \<noteq> j \<longrightarrow> disjoint (span r' i) (span r' j))"
proof -
  note init = rbb_init_law[OF assms, of blk_set k r]
  have d: "set ([] @ rev [0..<unat k]) \<subseteq> {..<unat k}" by auto
  obtain r' L fs where r': "rbb_serve cs (rt_rbb_init buf sz blk_set k r, []) = Some (r', L)" "rbb_wf r' L fs" "set (L @ fs) \<subseteq> {..<unat k}"
    "rbb_buf r' = buf" "rbb_buf_size r' = sz"
    using rbb_serve_wf[OF init(1) d, of cs] unfolding init(2,3) by blast
  then show ?thesis using rbb_blocks_apart(1,2)[OF r'(2)] by (intro exI[of _ r'] exI[of _ L] exI[of _ fs]) auto
qed

text \<open>
  \<^verbatim>\<open>rt_rbb_blk_get\<close> delivers the blocks in the order of their allocation: the oldest block that has been put
  and not yet taken, which is marked as taken and stays where it is; nothing if there is none.
\<close>

theorem rbb_get_oldest:
  assumes "rbb_wf r xs fs"
  shows "\<exists>out r'. rt_rbb_blk_get r = Some (out, r') \<and> rbb_wf r' xs fs \<and> map (span r') xs = map (span r) xs \<and>
    (case out of
       None \<Rightarrow> r' = r \<and> (\<forall>i\<in>set xs. blk_status (rbb_blk_set r i) \<noteq> RT_RBB_BLK_PUT)
     | Some i \<Rightarrow> \<exists>us vs. xs = us @ i # vs \<and> blk_status (rbb_blk_set r i) = RT_RBB_BLK_PUT \<and>
         (\<forall>j\<in>set us. blk_status (rbb_blk_set r j) \<noteq> RT_RBB_BLK_PUT) \<and> blk_status (rbb_blk_set r' i) = RT_RBB_BLK_GET)"
proof (cases "find (\<lambda>i. blk_status (rbb_blk_set r i) = RT_RBB_BLK_PUT) xs")
  case None
  then have "rt_rbb_blk_get r = Some (None, r)" using rbb_get_law[OF assms] by simp
  then show ?thesis using assms None by (intro exI[of _ None] exI[of _ r]) (simp add: find_None_iff)
next
  case (Some i)
  let ?r = "upd_blk i (\<lambda>b. b\<lparr>blk_status := RT_RBB_BLK_GET\<rparr>) r"
  obtain k where k: "k < length xs" "blk_status (rbb_blk_set r (xs ! k)) = RT_RBB_BLK_PUT" "i = xs ! k"
    "\<forall>j<k. blk_status (rbb_blk_set r (xs ! j)) \<noteq> RT_RBB_BLK_PUT"
    using Some by (auto simp: find_Some_iff)
  have s: "xs = take k xs @ i # drop (Suc k) xs" using k(1,3) by (simp add: id_take_nth_drop)
  have f: "\<forall>j\<in>set (take k xs). blk_status (rbb_blk_set r j) \<noteq> RT_RBB_BLK_PUT" using k(1,4) by (auto simp: in_set_conv_nth)
  have "span ?r = span r" by (simp add: span_def fun_eq_iff)
  moreover have "rbb_wf ?r xs fs" using rbb_status_law[OF assms, of i RT_RBB_BLK_GET] k(1,3) by simp
  moreover have "rt_rbb_blk_get r = Some (Some i, ?r)" using rbb_get_law[OF assms] Some by simp
  ultimately show ?thesis using s f k(2,3) by (intro exI[of _ "Some i"] exI[of _ ?r]) (simp, blast)
qed

section \<open>Queues of blocks\<close>

text \<open>
  What a block queue should hold: from the oldest block that has been put on, the blocks behind it as long as
  they have been put, do not wrap around, and fit into the size asked for, which does not limit the first one.
\<close>

fun rbb_batch :: "rt_rbb \<Rightarrow> u32 \<Rightarrow> nat \<Rightarrow> u32 \<Rightarrow> nat list \<Rightarrow> nat list" where
  "rbb_batch r len l d [] = []"
| "rbb_batch r len l d (i # is) =
    (if blk_status (rbb_blk_set r i) = RT_RBB_BLK_PUT \<and> rt_rbb_blk_buf l r \<le> rt_rbb_blk_buf i r \<and> d + rt_rbb_blk_size i r \<le> len
     then i # rbb_batch r len i (d + rt_rbb_blk_size i r) is else [])"

definition rbb_ready :: "rt_rbb \<Rightarrow> u32 \<Rightarrow> nat list \<Rightarrow> nat list" where
  "rbb_ready r len xs =
    (case dropWhile (\<lambda>i. blk_status (rbb_blk_set r i) \<noteq> RT_RBB_BLK_PUT) xs of
       [] \<Rightarrow> [] | i # is \<Rightarrow> i # rbb_batch r len i (rt_rbb_blk_size i r) is)"

definition rbb_take :: "nat list \<Rightarrow> rt_rbb \<Rightarrow> rt_rbb" where
  "rbb_take bs r = fold (\<lambda>i. upd_blk i (\<lambda>b. b\<lparr>blk_status := RT_RBB_BLK_GET\<rparr>)) bs r"

lemma rbb_take_simps [simp]: "rbb_take [] r = r"
  "rbb_take (i # bs) r = rbb_take bs (upd_blk i (\<lambda>b. b\<lparr>blk_status := RT_RBB_BLK_GET\<rparr>) r)"
  by (simp_all add: rbb_take_def)

lemma rbb_take_set: "rbb_blk_set (rbb_take bs r) i =
    (if i \<in> set bs then (rbb_blk_set r i)\<lparr>blk_status := RT_RBB_BLK_GET\<rparr> else rbb_blk_set r i)"
  by (induction bs arbitrary: r) auto

lemma rbb_take_wf: "rbb_wf r xs fs \<Longrightarrow> set bs \<subseteq> set xs \<Longrightarrow> rbb_wf (rbb_take bs r) xs fs"
  using rbb_status_law by (induction bs arbitrary: r) simp_all

lemma blk_size_buf_upd [simp]:
  "rt_rbb_blk_size j (upd_blk i (\<lambda>b. b\<lparr>blk_status := st\<rparr>) r) = rt_rbb_blk_size j r"
  "rt_rbb_blk_buf j (upd_blk i (\<lambda>b. b\<lparr>blk_status := st\<rparr>) r) = rt_rbb_blk_buf j r"
  by (simp_all add: rt_rbb_blk_size_def rt_rbb_blk_buf_def)

lemma rbb_batch_upd [simp]: "i \<notin> set ys \<Longrightarrow>
    rbb_batch (upd_blk i (\<lambda>b. b\<lparr>blk_status := st\<rparr>) r) len l d ys = rbb_batch r len l d ys"
  by (induction ys arbitrary: l d) auto

lemma rbb_batch_subset: "set (rbb_batch r len l d ys) \<subseteq> set ys"
  by (induction ys arbitrary: l d) auto

lemma rbb_queue_eq [simp]: "q\<lparr>bq_blocks := i, bq_blk_num := n\<rparr> = \<lparr>bq_blocks = i, bq_blk_num = n\<rparr>"
  by (cases q) simp

lemma rbb_queue_loop_law:
  "sl (rbb_next r) a (map Blk ys) \<Longrightarrow> distinct ys \<Longrightarrow>
    rbb_queue_loop (rbb_next r a) (Some l) d len q r =
      (let bs = rbb_batch r len l d ys in
         Some (d + sum_list (map (\<lambda>i. rt_rbb_blk_size i r) bs), q\<lparr>bq_blk_num := bq_blk_num q + of_nat (length bs)\<rparr>, rbb_take bs r))"
proof (induction ys arbitrary: a l d q r)
  case Nil
  then show ?case by (subst rbb_queue_loop.simps) simp
next
  case (Cons y ys)
  let ?r = "upd_blk y (\<lambda>b. b\<lparr>blk_status := RT_RBB_BLK_GET\<rparr>) r"
  have s: "rbb_next r a = Some (Blk y)" "sl (rbb_next ?r) (Blk y) (map Blk ys)" "distinct ys" "y \<notin> set ys" using Cons.prems by simp_all
  show ?case
  proof (cases "blk_status (rbb_blk_set r y) = RT_RBB_BLK_PUT \<and> rt_rbb_blk_buf l r \<le> rt_rbb_blk_buf y r \<and> d + rt_rbb_blk_size y r \<le> len")
    case False
    then show ?thesis using s(1)
      by (subst rbb_queue_loop.simps) (auto simp: rbb_entry_def Let_def rt_rbb_blk_buf_def rt_rbb_blk_size_def not_le)
  next
    case True
    then have "rbb_queue_loop (rbb_next r a) (Some l) d len q r =
        rbb_queue_loop (rbb_next ?r (Blk y)) (Some y) (d + rt_rbb_blk_size y r) len (q\<lparr>bq_blk_num := bq_blk_num q + 1\<rparr>) ?r"
      using s(1) by (subst rbb_queue_loop.simps)
        (auto simp: rbb_entry_def Let_def rt_rbb_blk_buf_def rt_rbb_blk_size_def rt_slist_next_def dest: leD)
    also have "\<dots> = (let bs = rbb_batch ?r len y (d + rt_rbb_blk_size y r) ys in
         Some (d + rt_rbb_blk_size y r + sum_list (map (\<lambda>i. rt_rbb_blk_size i ?r) bs),
           q\<lparr>bq_blk_num := bq_blk_num q + 1 + of_nat (length bs)\<rparr>, rbb_take bs ?r))"
      unfolding Cons.IH[OF s(2,3)] by simp
    finally show ?thesis using True s(4) by (simp add: Let_def add.assoc)
  qed
qed

lemma rbb_queue_skip:
  "sl (rbb_next r) a (map Blk ys) \<Longrightarrow>
    rbb_queue_loop (rbb_next r a) None 0 len q r =
      (case dropWhile (\<lambda>i. blk_status (rbb_blk_set r i) \<noteq> RT_RBB_BLK_PUT) ys of
         [] \<Rightarrow> Some (0, q, r)
       | i # is \<Rightarrow> rbb_queue_loop (rbb_next r (Blk i)) (Some i) (rt_rbb_blk_size i r) len \<lparr>bq_blocks = i, bq_blk_num = 1\<rparr>
           (upd_blk i (\<lambda>b. b\<lparr>blk_status := RT_RBB_BLK_GET\<rparr>) r))"
proof (induction ys arbitrary: a)
  case Nil
  then show ?case by (subst rbb_queue_loop.simps) simp
next
  case (Cons y ys)
  then show ?case
    by (subst rbb_queue_loop.simps) (simp add: rbb_entry_def Let_def rt_slist_next_def rt_rbb_blk_size_def)
qed

text \<open>
  \<^verbatim>\<open>rt_rbb_blk_queue_get\<close> collects exactly these blocks into the queue and marks them as taken; its result is
  the sum of their sizes. Nothing else changes, and without a block that has been put nothing at all.
\<close>

theorem rbb_queue_get_batch:
  assumes "rbb_wf r xs fs"
  shows "\<exists>q' r'. rt_rbb_blk_queue_get len q r = Some (sum_list (map (\<lambda>i. rt_rbb_blk_size i r) (rbb_ready r len xs)), q', r') \<and>
    rbb_wf r' xs fs \<and>
    (\<forall>i. rbb_blk_set r' i = (if i \<in> set (rbb_ready r len xs) then (rbb_blk_set r i)\<lparr>blk_status := RT_RBB_BLK_GET\<rparr> else rbb_blk_set r i)) \<and>
    q' = (case rbb_ready r len xs of [] \<Rightarrow> q | i # is \<Rightarrow> \<lparr>bq_blocks = i, bq_blk_num = of_nat (length (rbb_ready r len xs))\<rparr>)"
proof -
  let ?P = "\<lambda>i. blk_status (rbb_blk_set r i) \<noteq> RT_RBB_BLK_PUT"
  have l: "sl (rbb_next r) BlkList (map Blk xs)" "distinct xs" using assms by (simp_all add: rbb_wf_def)
  have e: "rt_slist_isempty BlkList (rbb_next r) \<longleftrightarrow> xs = []" using l(1) by (cases xs) (simp_all add: rt_slist_isempty_def)
  have g: "rt_rbb_blk_queue_get len q r = rbb_queue_loop (rbb_next r BlkList) None 0 len q r" if "xs \<noteq> []"
    using e that by (simp add: rt_rbb_blk_queue_get_def rt_slist_first_def)
  show ?thesis
  proof (cases "dropWhile ?P xs")
    case Nil
    then have "rt_rbb_blk_queue_get len q r = Some (0, q, r)"
      using rbb_queue_skip[OF l(1), of len q, unfolded Nil] g e by (cases "xs = []") (simp_all add: rt_rbb_blk_queue_get_def)
    moreover have "rbb_ready r len xs = []" unfolding rbb_ready_def Nil by simp
    ultimately show ?thesis using assms by simp
  next
    case (Cons i "is")
    let ?r = "upd_blk i (\<lambda>b. b\<lparr>blk_status := RT_RBB_BLK_GET\<rparr>) r" and ?bs = "rbb_batch r len i (rt_rbb_blk_size i r) is"
    have xs: "xs = takeWhile ?P xs @ i # is" by (simp flip: Cons)
    have s: "sl (rbb_next ?r) (Blk i) (map Blk is)" "distinct is" "i \<notin> set is" "i \<in> set xs" "set is \<subseteq> set xs"
      using l sl_split[of "rbb_next r" BlkList "map Blk (takeWhile ?P xs)" "Blk i" "map Blk is"] xs
      by (metis map_append list.map(2) upd_blk_simps(2), metis distinct.simps(2) distinct_append,
        metis distinct.simps(2) distinct_append, metis in_set_conv_decomp, metis set_append set_subset_Cons Un_upper2 subset_trans)
    have ne: "xs \<noteq> []" using s(4) by auto
    have "rt_rbb_blk_queue_get len q r = rbb_queue_loop (rbb_next ?r (Blk i)) (Some i) (rt_rbb_blk_size i r) len \<lparr>bq_blocks = i, bq_blk_num = 1\<rparr> ?r"
      unfolding g[OF ne] rbb_queue_skip[OF l(1)] Cons by simp
    also have "\<dots> = Some (rt_rbb_blk_size i r + sum_list (map (\<lambda>i. rt_rbb_blk_size i r) ?bs),
        \<lparr>bq_blocks = i, bq_blk_num = 1 + of_nat (length ?bs)\<rparr>, rbb_take ?bs ?r)"
      unfolding rbb_queue_loop_law[OF s(1,2)] using s(3) by (simp add: Let_def)
    finally have r: "rt_rbb_blk_queue_get len q r = Some (sum_list (map (\<lambda>i. rt_rbb_blk_size i r) (i # ?bs)),
        \<lparr>bq_blocks = i, bq_blk_num = of_nat (length (i # ?bs))\<rparr>, rbb_take (i # ?bs) r)" by simp
    have "rbb_wf (rbb_take (i # ?bs) r) xs fs" using rbb_batch_subset[of r len i _ "is"] s(4,5) by (intro rbb_take_wf[OF assms]) auto
    moreover have "rbb_ready r len xs = i # ?bs" using Cons by (simp add: rbb_ready_def)
    ultimately show ?thesis using r rbb_take_set[of "i # ?bs" r] by simp
  qed
qed

section \<open>A concrete ring\<close>

text \<open>Three descriptors over a buffer of 100 bytes; the newest descriptor is the first of the unused ones.\<close>

definition rbb_demo :: rt_rbb where
  "rbb_demo = rt_rbb_init 0x1000 100 (\<lambda>_. \<lparr>blk_status = RT_RBB_BLK_UNUSED, blk_size = 0, blk_buf = 0\<rparr>) 3
     \<lparr>rbb_buf = 0, rbb_buf_size = 0, rbb_blk_set = (\<lambda>_. \<lparr>blk_status = RT_RBB_BLK_UNUSED, blk_size = 0, blk_buf = 0\<rparr>), rbb_blk_max_num = 0,
       rbb_next = (\<lambda>_. None), rbb_tail = BlkList\<rparr>"

lemma rbb_demo_wf: "rbb_wf rbb_demo [] [2, 1, 0]" "rbb_buf rbb_demo = 0x1000" "rbb_buf_size rbb_demo = 100"
proof -
  have "[2, 1, 0] = rev [0..<unat (3 :: u32)]" by (simp add: upt_conv_Cons)
  then show "rbb_wf rbb_demo [] [2, 1, 0]" unfolding rbb_demo_def by (simp only:) (rule rbb_init_law(1), simp)
qed (simp_all add: rbb_demo_def rbb_init_law)

theorem rbb_alloc_refines_witness:
  "\<exists>r'. rt_rbb_blk_alloc 60 rbb_demo = Some (Some 2, r') \<and> rbb_wf r' [2] [1, 0] \<and> span r' 2 = (0x1000, 60)"
  using rbb_alloc_refines[OF rbb_demo_wf(1), of 60] rbb_demo_wf(2,3) by (auto simp: rbb_gaps_def)

theorem rbb_clients_safe_witness:
  "\<exists>r' L. rbb_serve [Want_blk 60, Want_blk 30, Put_blk 2, Get_blk, Free_blk 2, Want_blk 50, Free_blk 7] (rbb_demo, []) = Some (r', L) \<and>
    (\<forall>i\<in>set L. \<forall>j\<in>set L. i \<noteq> j \<longrightarrow> disjoint (span r' i) (span r' j))"
proof -
  have "unat (0x1000 :: u32) + unat (100 :: u32) < 4294967296" by simp
  from rbb_clients_safe[OF this, where k = 3 and cs = "[Want_blk 60, Want_blk 30, Put_blk 2, Get_blk, Free_blk 2, Want_blk 50, Free_blk 7]"]
  show ?thesis unfolding rbb_demo_def by blast
qed

definition rbb_full :: rt_rbb where
  "rbb_full = (upd_blk 2 (\<lambda>b. b\<lparr>blk_status := RT_RBB_BLK_PUT\<rparr>) (snd (the (rt_rbb_blk_alloc 60 rbb_demo))))"

lemma rbb_full_wf: "rbb_wf rbb_full [2] [1, 0]" "blk_status (rbb_blk_set rbb_full 2) = RT_RBB_BLK_PUT" "rt_rbb_blk_size 2 rbb_full = 60"
proof -
  obtain r' where r': "rt_rbb_blk_alloc 60 rbb_demo = Some (Some 2, r')" "rbb_wf r' [2] [1, 0]" "span r' 2 = (0x1000, 60)"
    using rbb_alloc_law[OF rbb_demo_wf(1), of 60] rbb_demo_wf(2,3) by (auto simp: rbb_gaps_def)
  show "rbb_wf rbb_full [2] [1, 0]" using rbb_status_law[OF r'(2), of 2 RT_RBB_BLK_PUT] r'(1) by (simp add: rbb_full_def)
  show "blk_status (rbb_blk_set rbb_full 2) = RT_RBB_BLK_PUT" by (simp add: rbb_full_def)
  have "unat (rt_rbb_blk_size 2 rbb_full) = unat (60 :: u32)" using r'(1,3) by (simp add: rbb_full_def rt_rbb_blk_size_def span_def)
  then show "rt_rbb_blk_size 2 rbb_full = 60" by (simp only: word_unat_eq_iff)
qed

theorem rbb_get_oldest_witness: "\<exists>r'. rt_rbb_blk_get rbb_full = Some (Some 2, r') \<and> blk_status (rbb_blk_set r' 2) = RT_RBB_BLK_GET"
proof -
  have s: "[2] = us @ i # vs \<longleftrightarrow> us = [] \<and> i = 2 \<and> vs = []" for us vs and i :: nat by (cases us) auto
  show ?thesis using rbb_get_oldest[OF rbb_full_wf(1)] rbb_full_wf(2) by (auto simp: s split: option.splits)
qed

theorem rbb_queue_get_batch_witness:
  "\<exists>r'. rt_rbb_blk_queue_get 10 \<lparr>bq_blocks = 0, bq_blk_num = 0\<rparr> rbb_full = Some (60, \<lparr>bq_blocks = 2, bq_blk_num = 1\<rparr>, r')"
proof -
  have "rbb_ready rbb_full 10 [2] = [2]" using rbb_full_wf(2) by (simp add: rbb_ready_def)
  then show ?thesis using rbb_queue_get_batch[OF rbb_full_wf(1), of 10 "\<lparr>bq_blocks = 0, bq_blk_num = 0\<rparr>"] rbb_full_wf(3) by auto
qed

text \<open>
  A request that finds no gap loses a descriptor: when it was the last unused one, nothing can be allocated
  until a block is freed.
\<close>

lemma rbb_leak:
  assumes "rbb_wf r xs [i]" "0 < n" "n < 0x1000000" "unat n \<le> unat (rbb_buf_size r)"
    and "find (\<lambda>(a, g). unat n \<le> g) (rbb_gaps (unat (rbb_buf r)) (unat (rbb_buf r) + unat (rbb_buf_size r)) (map (span r) xs)) = None"
  shows "\<exists>r'. rt_rbb_blk_alloc n r = Some (None, r') \<and> (\<forall>m. 0 < m \<longrightarrow> m < 0x1000000 \<longrightarrow> unat m \<le> unat (rbb_buf_size r) \<longrightarrow> rt_rbb_blk_alloc m r' = Some (None, r'))"
proof -
  obtain r' where r': "rt_rbb_blk_alloc n r = Some (None, r')" "rbb_wf r' xs []" "rbb_buf_size r' = rbb_buf_size r"
    using rbb_alloc_law[OF assms(1-4)] assms(5) by auto
  then show ?thesis using rbb_alloc_law[OF r'(2)] by simp
qed

end
