(* ===== verification/Format.thy ===== *)
theory Format
  imports KString
begin

text \<open>
  The formatted output of \<^verbatim>\<open>src/kservice.c\<close>, with precisions, without 64-bit integers and without the
  alternate form, as configured. The output goes byte by byte through a 32-bit pointer that moves on beyond the end of the
  buffer, where nothing is stored any more, and wraps around at the end of the address space; widths, precisions and
  lengths are 32-bit integers that wrap around too, as they do in the compiled code. A format and a string argument are the bytes before their
  terminator; the variable arguments are a list, and a conversion that finds none of its kind is undefined.
\<close>

section \<open>Output\<close>

type_synonym out = "u32 \<times> mem"

definition emit :: "u32 \<Rightarrow> u8 \<Rightarrow> out \<Rightarrow> out" where
  "emit e c = (\<lambda>(str, m). (str + 1, if str < e then m(unat str := c) else m))"

text \<open>The loop \<^verbatim>\<open>while (size-- > 0)\<close> with the value of \<^verbatim>\<open>size\<close> behind it.\<close>

function pad_loop :: "u32 \<Rightarrow> u8 \<Rightarrow> u32 \<Rightarrow> out \<Rightarrow> u32 \<times> out" where
  "pad_loop e c n out = (if sint n > 0 then pad_loop e c (n - 1) (emit e c out) else (n - 1, out))"
  by pat_completeness auto
termination
proof (relation "measure (\<lambda>(e, c, n, out). unat n)")
  fix e :: u32 and c :: u8 and n :: u32 and out
  assume "0 < sint n"
  then have "n \<noteq> 0" by auto
  then have "unat (n - 1) = unat n - 1" "0 < unat n" by (simp_all add: unat_minus_one unat_gt_0)
  then show "((e, c, n - 1, emit e c out), (e, c, n, out)) \<in> measure (\<lambda>(e, c, n, out). unat n)" by simp
qed simp

text \<open>The loop \<^verbatim>\<open>while (len < w--)\<close>.\<close>

lemma sint_inj: "sint (v :: u32) = sint w \<Longrightarrow> v = w"
  by (rule signed_word_eqI)

lemma sint_dec: "sint (len :: u32) < sint w \<Longrightarrow> sint (w - 1 :: u32) = sint w - 1"
proof -
  assume "sint len < sint w"
  moreover have "- 2147483648 \<le> sint len" "sint w < 2147483648" using sint_greater_eq[of len] sint_less[of w] by simp_all
  ultimately show ?thesis by (simp add: sint_word_ariths(2) signed_take_bit_int_eq_self)
qed

function width_loop :: "u32 \<Rightarrow> u8 \<Rightarrow> u32 \<Rightarrow> u32 \<Rightarrow> out \<Rightarrow> u32 \<times> out" where
  "width_loop e c len w out = (if sint len < sint w then width_loop e c len (w - 1) (emit e c out) else (w - 1, out))"
  by pat_completeness auto
termination by (relation "measure (\<lambda>(e, c, len, w, out). nat (sint w - sint len))") (auto simp: sint_dec)

section \<open>Numbers\<close>

abbreviation (input) ZEROPAD :: u8 where "ZEROPAD \<equiv> 1"
abbreviation (input) SIGN :: u8 where "SIGN \<equiv> 2"
abbreviation (input) PLUS :: u8 where "PLUS \<equiv> 4"
abbreviation (input) SPACE :: u8 where "SPACE \<equiv> 8"
abbreviation (input) LEFT :: u8 where "LEFT \<equiv> 16"
abbreviation (input) SPECIAL :: u8 where "SPECIAL \<equiv> 32"
abbreviation (input) LARGE :: u8 where "LARGE \<equiv> 64"

definition is_digit :: "u8 \<Rightarrow> bool" where
  "is_digit c \<longleftrightarrow> c - 48 < 10"

definition divide :: "u32 \<Rightarrow> int \<Rightarrow> nat \<times> u32" where
  "divide n base = (if base = 10 then (unat (n mod 10), n div 10) else (unat (n mod 16), n div 16))"

fun skip_atoi :: "u32 \<Rightarrow> u8 list \<Rightarrow> u32 \<times> u8 list" where
  "skip_atoi i [] = (i, [])"
| "skip_atoi i (c # cs) = (if is_digit c then skip_atoi (i * 10 + ucast c - 48) cs else (i, c # cs))"

text \<open>The two tables of digits.\<close>

definition small_digits :: "u8 list" where
  "small_digits = [48, 49, 50, 51, 52, 53, 54, 55, 56, 57, 97, 98, 99, 100, 101, 102]"

definition large_digits :: "u8 list" where
  "large_digits = [48, 49, 50, 51, 52, 53, 54, 55, 56, 57, 65, 66, 67, 68, 69, 70]"

text \<open>The buffer \<^verbatim>\<open>tmp\<close>, lowest digit first.\<close>

function num_digits :: "u8 list \<Rightarrow> int \<Rightarrow> u32 \<Rightarrow> u8 list" where
  "num_digits digits base num =
    (if num = 0 then [] else case divide num base of (d, num) \<Rightarrow> digits ! d # num_digits digits base num)"
  by pat_completeness auto
termination
proof (relation "measure (\<lambda>(digits, base, num). unat num)")
  fix digits :: "u8 list" and base :: int and num num' :: u32 and d
  assume "num \<noteq> 0" "(d, num') = divide num base"
  then have "unat num' = unat num div (if base = 10 then 10 else 16)" "0 < unat num"
    by (auto simp: divide_def unat_div unat_gt_0 split: if_splits)
  then show "((digits, base, num'), digits, base, num) \<in> measure (\<lambda>(digits, base, num). unat num)" by simp
qed simp

definition put_sign :: "u32 \<Rightarrow> u8 \<Rightarrow> u32 \<times> out \<Rightarrow> u32 \<times> out" where
  "put_sign e sign = (\<lambda>(n, out). if sign \<noteq> 0 then (n - 1, emit e sign out) else (n, out))"

definition print_number :: "u32 \<Rightarrow> u32 \<Rightarrow> int \<Rightarrow> u32 \<Rightarrow> u32 \<Rightarrow> u8 \<Rightarrow> out \<Rightarrow> out" where
  "print_number e num base s precision type out =
    (let digits = (if type AND LARGE \<noteq> 0 then large_digits else small_digits);
         type = (if type AND LEFT \<noteq> 0 then type AND NOT ZEROPAD else type);
         c = (if type AND ZEROPAD \<noteq> 0 then 48 else 32);
         (sign, num) =
           (if type AND SIGN \<noteq> 0 then
              if sint num < 0 then (45, - num)
              else if type AND PLUS \<noteq> 0 then (43, num)
              else if type AND SPACE \<noteq> 0 then (32, num)
              else (0, num)
            else (0, num));
         tmp = (if num = 0 then [48] else num_digits digits base num);
         i = of_nat (length tmp);
         precision_bak = precision;
         precision = (if sint i > sint precision then i else precision);
         size = s - precision;
         (size, out) =
           (if type AND (ZEROPAD OR LEFT) = 0 then pad_loop e 32 (if sign \<noteq> 0 \<and> sint size > 0 then size - 1 else size) out
            else (size, out));
         (size, out) = put_sign e sign (size, out);
         (size, out) = (if type AND LEFT = 0 then pad_loop e c size out else (size, out));
         (_, out) = width_loop e 48 i precision out;
         out = (if precision_bak \<noteq> 0 then fold (emit e) (rev tmp) out else out);
         (_, out) = pad_loop e 32 size out
     in out)"

section \<open>Formats\<close>

datatype vararg = VInt u32 | VStr "u8 list option"

fun va_int :: "vararg list \<Rightarrow> (u32 \<times> vararg list) option" where
  "va_int (VInt x # args) = Some (x, args)"
| "va_int _ = None"

fun va_str :: "vararg list \<Rightarrow> (u8 list option \<times> vararg list) option" where
  "va_str (VStr s # args) = Some (s, args)"
| "va_str _ = None"

fun parse_flags :: "u8 \<Rightarrow> u8 list \<Rightarrow> u8 \<times> u8 list" where
  "parse_flags flags [] = (flags, [])"
| "parse_flags flags (c # cs) =
    (if c = 45 then parse_flags (flags OR LEFT) cs
     else if c = 43 then parse_flags (flags OR PLUS) cs
     else if c = 32 then parse_flags (flags OR SPACE) cs
     else if c = 35 then parse_flags (flags OR SPECIAL) cs
     else if c = 48 then parse_flags (flags OR ZEROPAD) cs
     else (flags, c # cs))"

fun starts :: "(u8 \<Rightarrow> bool) \<Rightarrow> u8 list \<Rightarrow> bool" where
  "starts P [] = False"
| "starts P (c # cs) = P c"

definition parse_width :: "u8 \<Rightarrow> u8 list \<Rightarrow> vararg list \<Rightarrow> (u32 \<times> u8 \<times> u8 list \<times> vararg list) option" where
  "parse_width flags fmt args =
    (if starts is_digit fmt then (case skip_atoi 0 fmt of (w, fmt) \<Rightarrow> Some (w, flags, fmt, args))
     else if starts (\<lambda>c. c = 42) fmt then do {
       (x, args) \<leftarrow> va_int args;
       Some (if sint x < 0 then (- x, flags OR LEFT, tl fmt, args) else (x, flags, tl fmt, args))
     } else Some (-1, flags, fmt, args))"

definition parse_precision :: "u8 list \<Rightarrow> vararg list \<Rightarrow> (u32 \<times> u8 list \<times> vararg list) option" where
  "parse_precision fmt args =
    (if starts (\<lambda>c. c = 46) fmt then do {
       let fmt = tl fmt;
       (p, fmt, args) \<leftarrow>
         (if starts is_digit fmt then (case skip_atoi 0 fmt of (p, fmt) \<Rightarrow> Some (p, fmt, args))
          else if starts (\<lambda>c. c = 42) fmt then do { (x, args) \<leftarrow> va_int args; Some (x, tl fmt, args) }
          else Some (-1, fmt, args));
       Some (if sint p < 0 then 0 else p, fmt, args)
     } else Some (-1, fmt, args))"

definition parse_qualifier :: "u8 list \<Rightarrow> u8 \<times> u8 list" where
  "parse_qualifier fmt = (if starts (\<lambda>c. c = 104 \<or> c = 108) fmt then (hd fmt, tl fmt) else (0, fmt))"

text \<open>The loop \<^verbatim>\<open>while (--field_width > 0)\<close>, writing spaces.\<close>

function prepad_loop :: "u32 \<Rightarrow> u32 \<Rightarrow> out \<Rightarrow> u32 \<times> out" where
  "prepad_loop e w out = (let w = w - 1 in if sint w > 0 then prepad_loop e w (emit e 32 out) else (w, out))"
  by pat_completeness auto
termination
proof (relation "measure (\<lambda>(e, w, out). unat (w - 1))")
  fix e :: u32 and w v :: u32 and out
  assume v: "v = w - 1" and "0 < sint v"
  then have "v \<noteq> 0" by auto
  then have "unat (v - 1) = unat v - 1" "0 < unat v" by (simp_all add: unat_minus_one unat_gt_0)
  then show "((e, v, emit e 32 out), (e, w, out)) \<in> measure (\<lambda>(e, w, out). unat (w - 1))" unfolding v by simp
qed simp

declare pad_loop.simps [simp del] num_digits.simps [simp del] prepad_loop.simps [simp del] width_loop.simps [simp del]

definition conv_char :: "u32 \<Rightarrow> u8 \<Rightarrow> u32 \<Rightarrow> u32 \<Rightarrow> out \<Rightarrow> out" where
  "conv_char e flags w x out =
    (let (w, out) = (if flags AND LEFT = 0 then prepad_loop e w out else (w, out));
         out = emit e (ucast x) out;
         (_, out) = prepad_loop e w out
     in out)"

text \<open>The bytes of \<^verbatim>\<open>"(NULL)"\<close>.\<close>

definition null_text :: "u8 list" where
  "null_text = [40, 78, 85, 76, 76, 41]"

text \<open>The loop \<^verbatim>\<open>for (len = 0; (len != field_width) && (s[len] != '\0'); len++)\<close>.\<close>

fun str_len :: "u32 \<Rightarrow> u32 \<Rightarrow> u8 list \<Rightarrow> u32" where
  "str_len w len [] = len"
| "str_len w len (c # cs) = (if len \<noteq> w then str_len w (len + 1) cs else len)"

definition conv_str :: "u32 \<Rightarrow> u8 \<Rightarrow> u32 \<Rightarrow> u32 \<Rightarrow> u8 list option \<Rightarrow> out \<Rightarrow> out" where
  "conv_str e flags w precision arg out =
    (let s = (case arg of None \<Rightarrow> null_text | Some s \<Rightarrow> s);
         len = str_len w 0 s;
         len = (if sint precision > 0 \<and> sint len > sint precision then precision else len);
         (w, out) = (if flags AND LEFT = 0 then width_loop e 32 len w out else (w, out));
         out = fold (emit e) (take (nat (sint len)) s) out;
         (_, out) = width_loop e 32 len w out
     in out)"

definition conv_int :: "u8 \<Rightarrow> u8 \<Rightarrow> u32 \<Rightarrow> u32" where
  "conv_int flags qualifier x =
    (if qualifier = 104 then if flags AND SIGN \<noteq> 0 then scast (ucast x :: u16) else ucast (ucast x :: u16) else x)"

text \<open>The \<^verbatim>\<open>switch\<close> and what follows it; the answer is the rest of the format and of the arguments.\<close>

definition convert :: "u32 \<Rightarrow> u8 \<Rightarrow> u32 \<Rightarrow> u32 \<Rightarrow> u8 \<Rightarrow> u8 list \<Rightarrow> vararg list \<Rightarrow> out \<Rightarrow> (u8 list \<times> vararg list \<times> out) option" where
  "convert e flags w precision qualifier fmt args out =
    (case fmt of
       [] \<Rightarrow> Some ([], args, emit e 37 out)
     | c # cs \<Rightarrow>
         let number = (\<lambda>flags base. do {
               (x, args) \<leftarrow> va_int args;
               Some (cs, args, print_number e (conv_int flags qualifier x) base w precision flags out) })
         in if c = 99 then do { (x, args) \<leftarrow> va_int args; Some (cs, args, conv_char e flags w x out) }
            else if c = 115 then do { (s, args) \<leftarrow> va_str args; Some (cs, args, conv_str e flags w precision s out) }
            else if c = 112 then do {
              (x, args) \<leftarrow> va_int args;
              let (w, flags) = (if w = -1 then (8, flags OR ZEROPAD) else (w, flags));
              Some (cs, args, print_number e x 16 w precision flags out)
            }
            else if c = 37 then Some (cs, args, emit e 37 out)
            else if c = 111 then number flags 8
            else if c = 88 then number (flags OR LARGE) 16
            else if c = 120 then number flags 16
            else if c = 100 \<or> c = 105 then number (flags OR SIGN) 10
            else if c = 117 then number flags 10
            else Some (cs, args, emit e c (emit e 37 out)))"

lemma skip_atoi_length: "skip_atoi i cs = (j, cs') \<Longrightarrow> length cs' \<le> length cs"
  by (induction i cs rule: skip_atoi.induct) (auto split: if_splits)

lemma parse_flags_length: "parse_flags f cs = (g, cs') \<Longrightarrow> length cs' \<le> length cs"
  by (induction f cs rule: parse_flags.induct) (auto split: if_splits)

lemma parse_width_length: "parse_width flags fmt args = Some (w, f, fmt', as) \<Longrightarrow> length fmt' \<le> length fmt"
  by (auto simp: parse_width_def Let_def dest: skip_atoi_length split: if_splits bind_splits prod.splits)

lemma parse_precision_length: "parse_precision fmt args = Some (p, fmt', as) \<Longrightarrow> length fmt' \<le> length fmt"
  by (auto simp: parse_precision_def Let_def dest!: skip_atoi_length split: if_splits bind_splits prod.splits)

lemma convert_length: "convert e flags w p q fmt args out = Some (fmt', as, out') \<Longrightarrow> length fmt' \<le> length fmt"
  by (auto simp: convert_def Let_def split: list.splits if_splits bind_splits)

function vsn_loop :: "u32 \<Rightarrow> u8 list \<Rightarrow> vararg list \<Rightarrow> out \<Rightarrow> out option" where
  "vsn_loop e [] args out = Some out"
| "vsn_loop e (c # fmt) args out =
    (if c \<noteq> 37 then vsn_loop e fmt args (emit e c out)
     else case parse_flags 0 fmt of (flags, fmt1) \<Rightarrow> do {
       (w, flags, fmt2, args) \<leftarrow> parse_width flags fmt1 args;
       (precision, fmt3, args) \<leftarrow> parse_precision fmt2 args;
       case parse_qualifier fmt3 of (qualifier, fmt4) \<Rightarrow> do {
         (fmt5, args, out) \<leftarrow> convert e flags w precision qualifier fmt4 args out;
         vsn_loop e fmt5 args out
       }
     })"
  by pat_completeness auto
termination
proof (relation "measure (\<lambda>(e, fmt, args, out). length fmt)")
qed (auto dest!: parse_flags_length parse_flags_length[OF sym] parse_width_length parse_precision_length convert_length simp: parse_qualifier_def split: if_splits)

definition rt_vsnprintf :: "u32 \<Rightarrow> u32 \<Rightarrow> u8 list \<Rightarrow> vararg list \<Rightarrow> mem \<Rightarrow> (int \<times> mem) option" where
  "rt_vsnprintf buf sz fmt args m =
    (let e = buf + sz;
         (e, sz) = (if e < buf then (- 1, - 1 - buf) else (e, sz))
     in do {
       (str, m) \<leftarrow> vsn_loop e fmt args (buf, m);
       Some (sint (str - buf), if sz > 0 then if str < e then m(unat str := 0) else m(unat (e - 1) := 0) else m)
     })"

definition rt_snprintf :: "u32 \<Rightarrow> u32 \<Rightarrow> u8 list \<Rightarrow> vararg list \<Rightarrow> mem \<Rightarrow> (int \<times> mem) option" where
  "rt_snprintf buf sz fmt args m = rt_vsnprintf buf sz fmt args m"

definition rt_vsprintf :: "u32 \<Rightarrow> u8 list \<Rightarrow> vararg list \<Rightarrow> mem \<Rightarrow> (int \<times> mem) option" where
  "rt_vsprintf buf fmt args m = rt_vsnprintf buf (- 1) fmt args m"

definition rt_sprintf :: "u32 \<Rightarrow> u8 list \<Rightarrow> vararg list \<Rightarrow> mem \<Rightarrow> (int \<times> mem) option" where
  "rt_sprintf buf fmt args m = rt_vsprintf buf fmt args m"

abbreviation (input) RT_CONSOLEBUF_SIZE :: u32 where "RT_CONSOLEBUF_SIZE \<equiv> 256"

text \<open>
  \<open>log\<close> is the address of the static buffer; the second result is what a console device is given to write.
\<close>

definition rt_kprintf :: "u32 \<Rightarrow> u8 list \<Rightarrow> vararg list \<Rightarrow> mem \<Rightarrow> (u32 \<times> u8 list \<times> mem) option" where
  "rt_kprintf log fmt args m = do {
     (n, m) \<leftarrow> rt_vsnprintf log (RT_CONSOLEBUF_SIZE - 1) fmt args m;
     let len = word_of_int n;
     let len = (if len > RT_CONSOLEBUF_SIZE - 1 then RT_CONSOLEBUF_SIZE - 1 else len);
     Some (len, map (\<lambda>i. m (unat log + i)) [0..<unat len], m)
   }"

section \<open>What is written\<close>

text \<open>Where a text goes when it is no longer than the address space: byte \<open>i\<close> to \<open>str + i\<close>, modulo \<open>2 ^ 32\<close>.\<close>

lemma emit_all:
  "length tx \<le> 2 ^ 32 \<Longrightarrow> fold (emit e) tx (str, m) =
    (str + of_nat (length tx),
     \<lambda>a. if a < unat e \<and> unat (of_nat a - str) < length tx then tx ! unat (of_nat a - str) else m a)"
proof (induction tx arbitrary: str m)
  case (Cons c tx)
  let ?m = "if str < e then m(unat str := c) else m"
  have "(if a < unat e \<and> unat (of_nat a - (str + 1)) < length tx then tx ! unat (of_nat a - (str + 1)) else ?m a) =
    (if a < unat e \<and> unat (of_nat a - str) < length (c # tx) then (c # tx) ! unat (of_nat a - str) else m a)" for a
  proof (cases "a < unat e")
    case True
    let ?d = "of_nat a - str :: u32"
    have d: "of_nat a - (str + 1) = ?d - 1" by simp
    have lt: "a < 2 ^ 32" using True unsigned_less[of e, where 'a=nat] by simp
    then have ua: "unat (of_nat a :: u32) = a" by (simp add: unat_of_nat take_bit_nat_eq_self)
    have z: "?d = 0 \<longleftrightarrow> a = unat str" using ua by auto
    show ?thesis
    proof (cases "?d = 0")
      case True
      moreover have "unat (- 1 :: u32) = 4294967295" by (simp add: unsigned_minus_1_eq_mask mask_eq_exp_minus_1)
      ultimately have "\<not> unat (?d - 1) < length tx" using Cons.prems by simp
      moreover have "str < e" "a = unat str" using \<open>a < unat e\<close> z True by (simp_all add: word_less_nat_alt)
      ultimately show ?thesis using \<open>a < unat e\<close> True unfolding d by simp
    next
      case False
      then have "unat (?d - 1) = unat ?d - 1" "0 < unat ?d" by (simp_all add: unat_minus_one unat_gt_0)
      then show ?thesis using z False unfolding d by (auto simp: nth_Cons')
    qed
  next
    case False
    then show ?thesis by (auto simp: word_less_nat_alt)
  qed
  then show ?case unfolding fold_simps(2) comp_apply using Cons.prems
    by (simp add: emit_def Cons.IH fun_eq_iff del: length_Cons)
qed simp

text \<open>Without a wrap-around the text lies behind \<open>str\<close>.\<close>

lemma emit_near:
  assumes "unat str + length tx < 2 ^ 32"
  shows "fold (emit e) tx (str, m) = (str + of_nat (length tx),
    \<lambda>a. if unat str \<le> a \<and> a < unat str + length tx \<and> a < unat e then tx ! (a - unat str) else m a)"
proof -
  have "a < unat e \<and> unat (of_nat a - str) < length tx \<longleftrightarrow> unat str \<le> a \<and> a < unat str + length tx \<and> a < unat e"
    "a < unat e \<Longrightarrow> unat str \<le> a \<Longrightarrow> unat (of_nat a - str) = a - unat str" for a
  proof -
    have u: "unat (of_nat a - str) = (if unat str \<le> a then a - unat str else a + 2 ^ 32 - unat str)" if "a < unat e"
    proof -
      have "a < 2 ^ 32" using that unsigned_less[of e, where 'a=nat] by simp
      then have "unat (of_nat a :: u32) = a" by (simp add: unat_of_nat take_bit_nat_eq_self)
      then show ?thesis by (simp add: unat_sub_if')
    qed
    show "a < unat e \<and> unat (of_nat a - str) < length tx \<longleftrightarrow> unat str \<le> a \<and> a < unat str + length tx \<and> a < unat e"
      using u assms by (cases "a < unat e") (auto split: if_splits)
    show "a < unat e \<Longrightarrow> unat str \<le> a \<Longrightarrow> unat (of_nat a - str) = a - unat str" using u by simp
  qed
  then show ?thesis using assms by (subst emit_all) (auto simp: fun_eq_iff)
qed

lemma emit_one: "emit e c out = fold (emit e) [c] out"
  by simp

text \<open>How many bytes a loop writes, and its counter afterwards.\<close>

definition pad :: "u32 \<Rightarrow> nat \<times> u32" where
  "pad n = (if sint n > 0 then (nat (sint n), - 1) else (0, n - 1))"

lemma pad_loop_eq: "pad_loop e c n out = (snd (pad n), fold (emit e) (replicate (fst (pad n)) c) out)"
proof (induction e c n out rule: pad_loop.induct)
  case (1 e c n out)
  show ?case
  proof (cases "sint n > 0")
    case True
    then have d: "sint (n - 1) = sint n - 1" using sint_dec[of 0 n] by simp
    then have "nat (sint n) = Suc (nat (sint (n - 1)))" using True by simp
    moreover have "sint n = 1 \<Longrightarrow> n - 1 = 0" using d by (intro sint_inj) simp
    ultimately show ?thesis using 1[OF True] True d by (subst pad_loop.simps) (auto simp: pad_def)
  qed (subst pad_loop.simps; simp add: pad_def)
qed

lemma prepad_loop_eq: "prepad_loop e w out =
  (if sint (w - 1) > 0 then 0 else w - 1, fold (emit e) (replicate (nat (sint (w - 1))) 32) out)"
proof (induction e w out rule: prepad_loop.induct)
  case (1 e w out)
  show ?case
  proof (cases "sint (w - 1) > 0")
    case True
    then have d: "sint (w - 1 - 1) = sint (w - 1) - 1" using sint_dec[of 0 "w - 1"] by simp
    then have "nat (sint (w - 1)) = Suc (nat (sint (w - 1 - 1)))" using True by simp
    moreover have "sint (w - 1) = 1 \<Longrightarrow> w - 1 - 1 = 0" using d by (intro sint_inj) simp
    ultimately show ?thesis using 1[OF refl True] True d by (subst prepad_loop.simps) (auto simp: Let_def)
  qed (subst prepad_loop.simps; simp add: Let_def)
qed

lemma width_loop_eq: "width_loop e c len w out =
  ((if sint len < sint w then len else w) - 1, fold (emit e) (replicate (nat (sint w - sint len)) c) out)"
proof (induction e c len w out rule: width_loop.induct)
  case (1 e c len w out)
  show ?case
  proof (cases "sint len < sint w")
    case True
    then have d: "sint (w - 1) = sint w - 1" by (rule sint_dec)
    then have "nat (sint w - sint len) = Suc (nat (sint (w - 1) - sint len))" using True by simp
    moreover have "sint len \<ge> sint (w - 1) \<Longrightarrow> w - 1 = len" using d True by (intro sint_inj) simp
    ultimately show ?thesis using 1[OF True] True by (subst width_loop.simps) auto
  qed (subst width_loop.simps; simp)
qed

text \<open>The layout of a number: a sign, and at least \<open>precision\<close> digits, in a field of at least \<open>w\<close> bytes.\<close>

definition number_sign :: "u8 \<Rightarrow> u32 \<Rightarrow> u8 list" where
  "number_sign type num =
    (if type AND SIGN = 0 then []
     else if sint num < 0 then [45] else if type AND PLUS \<noteq> 0 then [43] else if type AND SPACE \<noteq> 0 then [32] else [])"

definition number_abs :: "u8 \<Rightarrow> u32 \<Rightarrow> u32" where
  "number_abs type num = (if type AND SIGN \<noteq> 0 \<and> sint num < 0 then - num else num)"

definition number_digits :: "u8 \<Rightarrow> int \<Rightarrow> u32 \<Rightarrow> u8 list" where
  "number_digits type base num =
    (if num = 0 then [48] else rev (num_digits (if type AND LARGE \<noteq> 0 then large_digits else small_digits) base num))"

text \<open>The three loops that fill the field, counting \<^verbatim>\<open>size\<close> down through its 32 bits.\<close>

definition field_pads :: "bool \<Rightarrow> u8 \<Rightarrow> u32 \<Rightarrow> nat \<times> nat \<times> nat" where
  "field_pads sg type n =
    (let (k1, n) = (if type AND LEFT = 0 \<and> type AND ZEROPAD = 0 then pad (if sg \<and> sint n > 0 then n - 1 else n) else (0, n));
         n = (if sg then n - 1 else n);
         (k2, n) = (if type AND LEFT = 0 then pad n else (0, n))
     in (k1, k2, fst (pad n)))"

text \<open>
  As long as the counter does not run below the least integer the field is filled up to its width; otherwise, for a
  width of about \<open>- 2 ^ 31\<close> or a precision of about \<open>2 ^ 31\<close>, with what the wrapped counter says.
\<close>

definition number_text :: "u32 \<Rightarrow> int \<Rightarrow> u32 \<Rightarrow> u32 \<Rightarrow> u8 \<Rightarrow> u8 list" where
  "number_text num base w precision type =
    (let sg = number_sign type num;
         digits = number_digits type base (number_abs type num);
         core = replicate (nat (sint precision - int (length digits))) 48 @ (if precision = 0 then [] else digits);
         n = max (sint precision) (int (length digits));
         gap = nat (sint w - n - int (length sg))
     in if sint w - n < 4 - 2 ^ 31 then
          (case field_pads (sg \<noteq> []) type (w - of_int n) of (k1, k2, k3) \<Rightarrow>
             replicate k1 32 @ sg @ replicate k2 (if type AND LEFT = 0 \<and> type AND ZEROPAD \<noteq> 0 then 48 else 32) @ core @ replicate k3 32)
        else if type AND LEFT \<noteq> 0 then sg @ core @ replicate gap 32
        else if type AND ZEROPAD \<noteq> 0 then sg @ replicate gap 48 @ core
        else replicate gap 32 @ sg @ core)"

lemma flag_keep:
  "(t AND NOT ZEROPAD) AND LEFT = t AND LEFT" "(t AND NOT ZEROPAD) AND SIGN = t AND SIGN" "(t AND NOT ZEROPAD) AND PLUS = t AND PLUS"
  "(t AND NOT ZEROPAD) AND SPACE = t AND SPACE" "(t AND NOT ZEROPAD) AND ZEROPAD = 0" for t :: u8
  by (simp_all add: and.assoc)

lemma flag_left:
  fixes t :: u8
  defines "u \<equiv> if t AND LEFT \<noteq> 0 then t AND NOT ZEROPAD else t"
  shows "u AND LEFT = t AND LEFT" "u AND SIGN = t AND SIGN" "u AND PLUS = t AND PLUS" "u AND SPACE = t AND SPACE"
    "u AND ZEROPAD \<noteq> 0 \<longleftrightarrow> t AND LEFT = 0 \<and> t AND ZEROPAD \<noteq> 0"
proof -
  have "u = t AND NOT ZEROPAD \<and> t AND LEFT \<noteq> 0 \<or> u = t \<and> t AND LEFT = 0" by (simp add: u_def)
  then show "u AND LEFT = t AND LEFT" "u AND SIGN = t AND SIGN" "u AND PLUS = t AND PLUS" "u AND SPACE = t AND SPACE"
    "u AND ZEROPAD \<noteq> 0 \<longleftrightarrow> t AND LEFT = 0 \<and> t AND ZEROPAD \<noteq> 0"
    using flag_keep[of t] by metis+
qed

lemma flag_both: "t AND (ZEROPAD OR LEFT) = 0 \<longleftrightarrow> t AND ZEROPAD = 0 \<and> t AND LEFT = 0" for t :: u8
  by (simp only: bit.conj_disj_distrib or_eq_0_iff)

lemma put_sign_eq: "put_sign e sign (n, out) = (if sign \<noteq> 0 then n - 1 else n, fold (emit e) (if sign = 0 then [] else [sign]) out)"
  by (simp add: put_sign_def)

lemma sign_pair:
  "(if type AND SIGN \<noteq> 0 then
      if sint num < 0 then (45, - num)
      else if type AND PLUS \<noteq> 0 then (43, num) else if type AND SPACE \<noteq> 0 then (32, num) else (0, num)
    else (0, num)) = (case number_sign type num of [] \<Rightarrow> 0 | c # _ \<Rightarrow> c, number_abs type num)"
  by (simp add: number_sign_def number_abs_def)

lemma number_sign_cases: "number_sign type num = [] \<or> (\<exists>c. number_sign type num = [c] \<and> c \<noteq> 0)"
  by (simp add: number_sign_def)

lemma num_digits_length: "n \<noteq> 0 \<Longrightarrow> 2 ^ (length (num_digits D base n) - 1) \<le> unat n"
proof (induction D base n rule: num_digits.induct)
  case (1 D base n)
  obtain d m where dv: "divide n base = (d, m)" by fastforce
  have nd: "num_digits D base n = D ! d # num_digits D base m" using 1(2) dv by (subst num_digits.simps) simp
  show ?case
  proof (cases "m = 0")
    case True
    then show ?thesis using nd 1(2) by (simp add: num_digits.simps[of D base 0] unat_gt_0 Suc_le_eq)
  next
    case False
    have "2 ^ (length (num_digits D base m) - 1) \<le> unat m" by (rule 1(1)[OF 1(2) dv[symmetric] False])
    moreover have "2 * unat m \<le> unat n" using dv by (auto simp: divide_def unat_div split: if_splits)
    ultimately have "2 * 2 ^ (length (num_digits D base m) - 1) \<le> unat n" by simp
    moreover have "0 < length (num_digits D base m)" using False by (subst num_digits.simps) (simp split: prod.splits)
    ultimately show ?thesis using nd by (simp flip: power_Suc)
  qed
qed

lemma number_digits_short: "0 < length (number_digits type base n) \<and> length (number_digits type base n) \<le> 32"
proof (cases "n = 0")
  case False
  let ?ds = "num_digits (if type AND LARGE \<noteq> 0 then large_digits else small_digits) base n"
  have "2 ^ (length ?ds - 1) \<le> unat n" by (rule num_digits_length[OF False])
  also have "unat n < 2 ^ 32" using unsigned_less[of n, where 'a=nat] by simp
  finally have "length ?ds - 1 < 32" by (rule power_less_imp_less_exp[rotated]) simp
  moreover have "0 < length ?ds" using False by (subst num_digits.simps) (simp split: prod.splits)
  ultimately show ?thesis using False by (simp add: number_digits_def)
qed (simp add: number_digits_def)

lemma sint_of_small: "k \<le> 32 \<Longrightarrow> sint (of_nat k :: u32) = int k"
  by (simp add: signed_of_nat signed_take_bit_int_eq_self)

lemma sint_range: "- 2147483648 \<le> sint (w :: u32)" "sint (w :: u32) \<le> 2147483647"
  using sint_greater_eq[of w] sint_less[of w] by simp_all

lemma sint_pred: "- 2147483648 < sint n \<Longrightarrow> sint (n - 1 :: u32) = sint n - 1"
proof -
  assume "- 2147483648 < sint n"
  then have "sint (- 2147483648 :: u32) < sint n" by simp
  then show ?thesis by (rule sint_dec)
qed

lemma nat_sint: "nat (sint (w :: u32)) \<le> 2147483647"
  using sint_range(2)[of w] by simp

lemma pad_count: "fst (pad n) \<le> 2147483647" "0 < fst (pad n) \<Longrightarrow> snd (pad n) = - 1"
  by (auto simp: pad_def nat_sint)

lemma field_pads_total: "field_pads sg type n = (k1, k2, k3) \<Longrightarrow> k1 + k2 + k3 \<le> 2147483647"
  by (auto simp: field_pads_def Let_def pad_def nat_sint split: if_splits prod.splits)

lemma field_pads_near:
  assumes "4 - 2147483648 \<le> sint n" "gap = nat (sint n - (if sg then 1 else 0))"
  shows "field_pads sg type n = (if type AND LEFT \<noteq> 0 then (0, 0, gap) else if type AND ZEROPAD \<noteq> 0 then (0, gap, 0) else (gap, 0, 0))"
proof -
  have s: "sint (n - 1) = sint n - 1" "sint (n - 2) = sint n - 2" "sint (n - 3) = sint n - 3" "sint (n - 4) = sint n - 4"
    using assms(1) sint_pred[of n] sint_pred[of "n - 1"] sint_pred[of "n - 2"] sint_pred[of "n - 3"] by simp_all
  show ?thesis unfolding assms(2)
    by (cases "0 < sint n"; cases sg; cases "type AND LEFT = 0"; cases "type AND ZEROPAD = 0"; cases "sint n = 1")
      (simp_all add: field_pads_def pad_def s Let_def)
qed

lemma print_number_eq: "print_number e num base w precision type out = fold (emit e) (number_text num base w precision type) out"
proof -
  let ?t = "if type AND LEFT \<noteq> 0 then type AND NOT ZEROPAD else type"
  define sg where "sg = number_sign type num"
  define ds where "ds = number_digits type base (number_abs type num)"
  define n where "n = max (sint precision) (int (length ds))"
  define sz where "sz = w - of_int n"
  have keep: "?t AND LEFT = type AND LEFT" "?t AND SIGN = type AND SIGN" "?t AND PLUS = type AND PLUS" "?t AND SPACE = type AND SPACE"
    by (rule flag_left)+
  have zp: "?t AND ZEROPAD \<noteq> 0 \<longleftrightarrow> type AND LEFT = 0 \<and> type AND ZEROPAD \<noteq> 0"
    by (rule flag_left)
  have zl: "?t AND (ZEROPAD OR LEFT) = 0 \<longleftrightarrow> type AND LEFT = 0 \<and> type AND ZEROPAD = 0"
    unfolding flag_both keep using zp by blast
  have ns: "number_sign ?t num = number_sign type num" "number_abs ?t num = number_abs type num"
    by (simp_all only: number_sign_def number_abs_def keep)
  have tmp: "(if number_abs type num = 0 then [48] else num_digits (if type AND LARGE \<noteq> 0 then large_digits else small_digits) base (number_abs type num)) = rev ds"
    by (simp add: ds_def number_digits_def)
  have len: "sint (of_nat (length ds) :: u32) = int (length ds)"
    using number_digits_short[of type base "number_abs type num"] by (simp add: ds_def sint_of_small)
  have pr: "(if sint (of_nat (length ds) :: u32) > sint precision then of_nat (length ds) else precision) = of_int n"
    unfolding len by (simp add: n_def max_def)
  have sn: "sint (of_int n :: u32) = n"
    using pr len by (auto simp: n_def max_def)
  define s0 where "s0 = (case sg of [] \<Rightarrow> 0 | c # _ \<Rightarrow> c)"
  define core where "core = replicate (nat (n - int (length ds))) 48 @ (if precision = 0 then [] else ds)"
  have "print_number e num base w precision type out =
    (let c = (if ?t AND ZEROPAD \<noteq> 0 then 48 else 32);
         (size, out) = (if ?t AND (ZEROPAD OR LEFT) = 0 then pad_loop e 32 (if s0 \<noteq> 0 \<and> sint sz > 0 then sz - 1 else sz) out else (sz, out));
         (size, out) = put_sign e s0 (size, out);
         (size, out) = (if type AND LEFT = 0 then pad_loop e c size out else (size, out));
         (_, out) = width_loop e 48 (of_nat (length ds)) (of_int n) out;
         out = (if precision \<noteq> 0 then fold (emit e) ds out else out);
         (_, out) = pad_loop e 32 size out
     in out)"
    unfolding print_number_def Let_def sign_pair prod.case ns keep sg_def[symmetric] tmp length_rev rev_rev_ident pr sz_def s0_def ..
  also have "\<dots> = fold (emit e) (case field_pads (s0 \<noteq> 0) type sz of (k1, k2, k3) \<Rightarrow>
      replicate k1 32 @ (if s0 = 0 then [] else [s0]) @
      replicate k2 (if type AND LEFT = 0 \<and> type AND ZEROPAD \<noteq> 0 then 48 else 32) @ core @ replicate k3 32) out"
    unfolding zp zl by (cases "type AND LEFT = 0"; cases "type AND ZEROPAD = 0"; cases "s0 = 0"; cases "sint sz > 0")
      (simp_all add: pad_loop_eq put_sign_eq width_loop_eq len sn Let_def core_def field_pads_def case_prod_beta)
  also have "(case field_pads (s0 \<noteq> 0) type sz of (k1, k2, k3) \<Rightarrow>
      replicate k1 32 @ (if s0 = 0 then [] else [s0]) @
      replicate k2 (if type AND LEFT = 0 \<and> type AND ZEROPAD \<noteq> 0 then 48 else 32) @ core @ replicate k3 32) =
    number_text num base w precision type"
  proof -
    have s: "sg = (if s0 = 0 then [] else [s0])" using number_sign_cases[of type num] by (auto simp: s0_def sg_def)
    have sn0: "sg \<noteq> [] \<longleftrightarrow> s0 \<noteq> 0" using s by simp
    have c: "core = replicate (nat (sint precision - int (length ds))) 48 @ (if precision = 0 then [] else ds)"
      by (simp add: core_def n_def max_def)
    have t: "number_text num base w precision type =
      (if sint w - n < 4 - 2 ^ 31 then
          (case field_pads (sg \<noteq> []) type (w - of_int n) of (k1, k2, k3) \<Rightarrow>
             replicate k1 32 @ sg @ replicate k2 (if type AND LEFT = 0 \<and> type AND ZEROPAD \<noteq> 0 then 48 else 32) @ core @ replicate k3 32)
        else let gap = nat (sint w - n - int (length sg)) in
          if type AND LEFT \<noteq> 0 then sg @ core @ replicate gap 32
          else if type AND ZEROPAD \<noteq> 0 then sg @ replicate gap 48 @ core
          else replicate gap 32 @ sg @ core)"
      unfolding number_text_def Let_def c n_def sg_def ds_def ..
    show ?thesis
    proof (cases "sint w - n < 4 - 2 ^ 31")
      case True
      then show ?thesis unfolding t sn0 sz_def by (simp add: s)
    next
      case False
      have "int (length ds) \<le> n" "0 < length ds" using number_digits_short[of type base "number_abs type num"] by (simp_all add: n_def ds_def)
      then have r: "- 2147483648 \<le> sint w - n" "sint w - n < 2147483648" using False sint_range[of w] by simp_all
      have "sint sz = sint w - n"
        unfolding sz_def sint_word_ariths(2) sn using r by (simp add: signed_take_bit_int_eq_self)
      then have "field_pads (s0 \<noteq> 0) type sz = (let gap = nat (sint w - n - int (length sg)) in
          if type AND LEFT \<noteq> 0 then (0, 0, gap) else if type AND ZEROPAD \<noteq> 0 then (0, gap, 0) else (gap, 0, 0))"
        unfolding Let_def by (intro field_pads_near) (use False s in auto)
      then show ?thesis unfolding t using False s by (auto simp: Let_def)
    qed
  qed
  finally show ?thesis .
qed

lemma number_text_length: "length (number_text num base w precision type) \<le> 2 ^ 32"
proof -
  define sg where "sg = number_sign type num"
  define ds where "ds = number_digits type base (number_abs type num)"
  define n where "n = max (sint precision) (int (length ds))"
  define core where "core = replicate (nat (sint precision - int (length ds))) 48 @ (if precision = 0 then [] else ds)"
  have l: "length ds \<le> 32" using number_digits_short[of type base "number_abs type num"] by (simp add: ds_def)
  have c: "length core \<le> 2147483647" using l sint_range(2)[of precision] by (auto simp: core_def)
  have s: "length sg \<le> 1" by (simp add: sg_def number_sign_def)
  have g: "nat (sint w - n - int (length sg)) \<le> 2147483647" using sint_range(2)[of w] by (simp add: n_def)
  obtain k1 k2 k3 where f: "field_pads (sg \<noteq> []) type (w - of_int n) = (k1, k2, k3)" by (metis prod_cases3)
  have "length (number_text num base w precision type) \<le> max (k1 + k2 + k3) (nat (sint w - n - int (length sg))) + length sg + length core"
    unfolding number_text_def Let_def ds_def[symmetric] sg_def[symmetric] n_def[symmetric] core_def[symmetric] f by simp
  also have "\<dots> \<le> 2 ^ 32" using field_pads_total[OF f] g s c by simp
  finally show ?thesis .
qed

text \<open>A single character, and a string.\<close>

definition char_text :: "u8 \<Rightarrow> u32 \<Rightarrow> u32 \<Rightarrow> u8 list" where
  "char_text flags w x =
    (let w1 = (if flags AND LEFT = 0 then if sint (w - 1) > 0 then 0 else w - 1 else w)
     in (if flags AND LEFT = 0 then replicate (nat (sint (w - 1))) 32 else []) @ ucast x # replicate (nat (sint (w1 - 1))) 32)"

lemma conv_char_eq: "conv_char e flags w x out = fold (emit e) (char_text flags w x) out"
  by (simp add: conv_char_def char_text_def prepad_loop_eq Let_def)

definition str_text :: "u8 \<Rightarrow> u32 \<Rightarrow> u32 \<Rightarrow> u8 list option \<Rightarrow> u8 list" where
  "str_text flags w precision arg =
    (let s = (case arg of None \<Rightarrow> null_text | Some s \<Rightarrow> s);
         len = str_len w 0 s;
         len = (if sint precision > 0 \<and> sint len > sint precision then precision else len);
         w1 = (if flags AND LEFT = 0 then (if sint len < sint w then len else w) - 1 else w)
     in (if flags AND LEFT = 0 then replicate (nat (sint w - sint len)) 32 else []) @
        take (nat (sint len)) s @ replicate (nat (sint w1 - sint len)) 32)"

lemma conv_str_eq: "conv_str e flags w precision arg out = fold (emit e) (str_text flags w precision arg) out"
  unfolding conv_str_def str_text_def Let_def by (simp add: width_loop_eq)

text \<open>The text of one conversion and of a whole format: nothing here knows of a buffer.\<close>

definition conversion :: "u8 \<Rightarrow> u32 \<Rightarrow> u32 \<Rightarrow> u8 \<Rightarrow> u8 list \<Rightarrow> vararg list \<Rightarrow> (u8 list \<times> vararg list \<times> u8 list) option" where
  "conversion flags w precision qualifier fmt args =
    (case fmt of
       [] \<Rightarrow> Some ([], args, [37])
     | c # cs \<Rightarrow>
         let number = (\<lambda>flags base. do {
               (x, args) \<leftarrow> va_int args;
               Some (cs, args, number_text (conv_int flags qualifier x) base w precision flags) })
         in if c = 99 then do { (x, args) \<leftarrow> va_int args; Some (cs, args, char_text flags w x) }
            else if c = 115 then do { (s, args) \<leftarrow> va_str args; Some (cs, args, str_text flags w precision s) }
            else if c = 112 then do {
              (x, args) \<leftarrow> va_int args;
              Some (cs, args, if w = - 1 then number_text x 16 8 precision (flags OR ZEROPAD) else number_text x 16 w precision flags)
            }
            else if c = 37 then Some (cs, args, [37])
            else if c = 111 then number flags 8
            else if c = 88 then number (flags OR LARGE) 16
            else if c = 120 then number flags 16
            else if c = 100 \<or> c = 105 then number (flags OR SIGN) 10
            else if c = 117 then number flags 10
            else Some (cs, args, [37, c]))"

lemma conversion_length: "conversion flags w p q fmt args = Some (fmt', as, tx) \<Longrightarrow> length fmt' \<le> length fmt"
  by (auto simp: conversion_def Let_def split: list.splits if_splits bind_splits)

function format_text :: "u8 list \<Rightarrow> vararg list \<Rightarrow> u8 list option" where
  "format_text [] args = Some []"
| "format_text (c # fmt) args =
    (if c \<noteq> 37 then map_option (\<lambda>tx. c # tx) (format_text fmt args)
     else case parse_flags 0 fmt of (flags, fmt1) \<Rightarrow> do {
       (w, flags, fmt2, args) \<leftarrow> parse_width flags fmt1 args;
       (precision, fmt3, args) \<leftarrow> parse_precision fmt2 args;
       case parse_qualifier fmt3 of (qualifier, fmt4) \<Rightarrow> do {
         (fmt5, args, tx) \<leftarrow> conversion flags w precision qualifier fmt4 args;
         map_option (\<lambda>t. tx @ t) (format_text fmt5 args)
       }
     })"
  by pat_completeness auto
termination
proof (relation "measure (\<lambda>(fmt, args). length fmt)")
qed (auto dest!: parse_flags_length parse_flags_length[OF sym] parse_width_length parse_precision_length conversion_length simp: parse_qualifier_def split: if_splits)

text \<open>The code writes the text, through whatever cursor and end.\<close>

lemma bind_text:
  "(do { (x, args) \<leftarrow> get; Some (cs, args, fold (emit e) (f x) out) }) =
    map_option (\<lambda>(fmt', as, tx). (fmt', as, fold (emit e) tx out)) (do { (x, args) \<leftarrow> get; Some (cs, args, f x) })"
  by (cases get) (simp_all add: case_prod_beta)

lemma convert_eq: "convert e flags w p q fmt args out =
    map_option (\<lambda>(fmt', as, tx). (fmt', as, fold (emit e) tx out)) (conversion flags w p q fmt args)"
proof (cases fmt)
  case Nil
  then show ?thesis by (simp add: convert_def conversion_def)
next
  case (Cons c cs)
  have lit: "Some (cs, args, emit e 37 out) = map_option (\<lambda>(fmt', as, tx). (fmt', as, fold (emit e) tx out)) (Some (cs, args, [37]))"
    "Some (cs, args, emit e c (emit e 37 out)) = map_option (\<lambda>(fmt', as, tx). (fmt', as, fold (emit e) tx out)) (Some (cs, args, [37, c]))"
    by simp_all
  have ptr: "(do { (x, args) \<leftarrow> va_int args;
        case if w = - 1 then (8, flags OR ZEROPAD) else (w, flags) of (w, flags) \<Rightarrow> Some (cs, args, fold (emit e) (number_text x 16 w p flags) out) }) =
      map_option (\<lambda>(fmt', as, tx). (fmt', as, fold (emit e) tx out)) (do { (x, args) \<leftarrow> va_int args;
        Some (cs, args, if w = - 1 then number_text x 16 8 p (flags OR ZEROPAD) else number_text x 16 w p flags) })"
    by (cases "va_int args") (simp_all add: case_prod_beta)
  show ?thesis
    unfolding convert_def conversion_def Cons list.case Let_def conv_char_eq conv_str_eq print_number_eq bind_text ptr lit
    by (simp only: if_distrib[of "map_option _"] cong: if_cong)
qed

lemma vsn_text: "vsn_loop e fmt args out = map_option (\<lambda>tx. fold (emit e) tx out) (format_text fmt args)"
proof (induction fmt args arbitrary: out rule: format_text.induct)
  case (2 c fmt args)
  show ?case
  proof (cases "c = 37")
    case False
    then show ?thesis using 2(1)[OF False] by (simp add: option.map_comp comp_def)
  next
    case True
    obtain fl f1 where f1: "parse_flags 0 fmt = (fl, f1)" by fastforce
    show ?thesis
    proof (cases "parse_width fl f1 args")
      case None
      then show ?thesis using True f1 by simp
    next
      case (Some r2)
      then obtain w fl2 f2 a2 where f2: "parse_width fl f1 args = Some (w, fl2, f2, a2)" by (cases r2) auto
      show ?thesis
      proof (cases "parse_precision f2 a2")
        case None
        then show ?thesis using True f1 f2 by simp
      next
        case (Some r3)
        then obtain p f3 a3 where f3: "parse_precision f2 a2 = Some (p, f3, a3)" by (cases r3) auto
        obtain q f4 where f4: "parse_qualifier f3 = (q, f4)" by fastforce
        show ?thesis
        proof (cases "conversion fl2 w p q f4 a3")
          case None
          then show ?thesis using True f1 f2 f3 f4 by (simp add: convert_eq)
        next
          case (Some r5)
          then obtain f5 a5 tx where r5: "conversion fl2 w p q f4 a3 = Some (f5, a5, tx)" by (cases r5) auto
          have "vsn_loop e f5 a5 out = map_option (\<lambda>tx. fold (emit e) tx out) (format_text f5 a5)" for out
            using 2(2)[of fl f1 _ w _ fl2 _ f2 a2 _ p _ f3 a3 q f4 _ f5 _ a5 tx out] True f1 f2 f3 f4 r5 by simp
          then show ?thesis using True f1 f2 f3 f4 r5 by (simp add: convert_eq option.map_comp comp_def)
        qed
      qed
    qed
  qed
qed simp

text \<open>Where the code puts the end of the buffer: at the last address when the size would run over it.\<close>

definition buf_end :: "u32 \<Rightarrow> u32 \<Rightarrow> u32 \<times> u32" where
  "buf_end buf sz = (if buf + sz < buf then (- 1, - 1 - buf) else (buf + sz, sz))"

lemma buf_end:
  assumes "buf_end buf sz = (e, z)"
  shows "unat z = min (unat sz) (2 ^ 32 - 1 - unat buf)" "unat e = unat buf + unat z"
proof -
  have m: "unat (- 1 :: u32) = 4294967295" by (simp add: unsigned_minus_1_eq_mask mask_eq_exp_minus_1)
  have b: "unat buf \<le> 4294967295" "unat sz \<le> 4294967295" using unsigned_less[of buf, where 'a=nat] unsigned_less[of sz, where 'a=nat] by simp_all
  have p: "unat (buf + sz) = (if unat buf + unat sz < 4294967296 then unat buf + unat sz else unat buf + unat sz - 4294967296)"
    using unat_plus_if'[of buf sz] by simp
  have "buf \<le> - 1" by simp
  then have d: "unat (- 1 - buf) = 4294967295 - unat buf" using m by (simp add: unat_sub)
  have "unat z = min (unat sz) (2 ^ 32 - 1 - unat buf) \<and> unat e = unat buf + unat z"
    using assms p d m b by (auto simp: buf_end_def word_less_nat_alt split: if_splits)
  then show "unat z = min (unat sz) (2 ^ 32 - 1 - unat buf)" "unat e = unat buf + unat z" by simp_all
qed

lemma vsnprintf_eval:
  assumes "buf_end buf sz = (e, z)" "format_text fmt args = Some tx"
  shows "rt_vsnprintf buf sz fmt args m = (case fold (emit e) tx (buf, m) of (str, m) \<Rightarrow>
    Some (sint (str - buf), if z > 0 then if str < e then m(unat str := 0) else m(unat (e - 1) := 0) else m))"
  using assms(1) unfolding rt_vsnprintf_def Let_def vsn_text assms(2) buf_end_def[symmetric] by simp

text \<open>
  C35. The contract of \<^verbatim>\<open>rt_vsnprintf\<close>. What a format prints is given by \<open>format_text\<close>, and no buffer changes it; it is undefined
  only when a conversion does not find its argument. As long as the text does not run past the end of the address
  space (the code's pointer wraps around there; see \<open>wide_fields_write_outside\<close>), the buffer, cut where it
  would run over the last address as for \<^verbatim>\<open>rt_sprintf\<close>, holds as much of the text as fits with a terminating zero behind it, and no
  byte outside of it is written, not even for a buffer of size zero. The result is the length of the whole text, also of a text that was
  cut off, where the comment of the function promises the number of characters written; it is an \<^verbatim>\<open>int\<close>, right for texts below
  \<open>2 ^ 31\<close> bytes.
\<close>

theorem vsnprintf_contract:
  "case format_text fmt args of
     None \<Rightarrow> rt_vsnprintf buf sz fmt args m = None
   | Some tx \<Rightarrow> unat buf + length tx < 2 ^ 32 \<longrightarrow>
       (let room = min (unat sz) (2 ^ 32 - 1 - unat buf) in
        \<exists>r m'. rt_vsnprintf buf sz fmt args m = Some (r, m') \<and> r = sint (of_nat (length tx) :: u32) \<and>
         (length tx < 2 ^ 31 \<longrightarrow> r = int (length tx)) \<and>
         (\<forall>a. \<not> (unat buf \<le> a \<and> a < unat buf + room) \<longrightarrow> m' a = m a) \<and>
         (0 < room \<longrightarrow> (let k = min (length tx) (room - 1) in (\<forall>i<k. m' (unat buf + i) = tx ! i) \<and> m' (unat buf + k) = 0)))"
proof (cases "format_text fmt args")
  case None
  then show ?thesis by (simp add: rt_vsnprintf_def Let_def vsn_text)
next
  case (Some tx)
  have "let room = min (unat sz) (2 ^ 32 - 1 - unat buf) in
        \<exists>r m'. rt_vsnprintf buf sz fmt args m = Some (r, m') \<and> r = sint (of_nat (length tx) :: u32) \<and>
         (length tx < 2 ^ 31 \<longrightarrow> r = int (length tx)) \<and>
         (\<forall>a. \<not> (unat buf \<le> a \<and> a < unat buf + room) \<longrightarrow> m' a = m a) \<and>
         (0 < room \<longrightarrow> (let k = min (length tx) (room - 1) in (\<forall>i<k. m' (unat buf + i) = tx ! i) \<and> m' (unat buf + k) = 0))"
    if b: "unat buf + length tx < 2 ^ 32"
  proof -
    obtain e z where ez: "buf_end buf sz = (e, z)" by fastforce
    let ?m = "\<lambda>a. if unat buf \<le> a \<and> a < unat buf + length tx \<and> a < unat e then tx ! (a - unat buf) else m a"
    let ?str = "buf + of_nat (length tx)"
    have us: "unat ?str = unat buf + length tx" using b by (simp add: unat_word_ariths(1) unat_of_nat take_bit_nat_eq_self)
    have r: "rt_vsnprintf buf sz fmt args m = Some (sint (of_nat (length tx) :: u32),
        if z > 0 then if ?str < e then ?m(unat ?str := 0) else ?m(unat (e - 1) := 0) else ?m)"
      unfolding vsnprintf_eval[OF ez Some] emit_near[OF b] by simp
    have e1: "z > 0 \<Longrightarrow> unat (e - 1) = unat e - 1"
      using buf_end(2)[OF ez] by (subst unat_minus_one) (auto simp: word_less_nat_alt)
    have lt: "?str < e \<longleftrightarrow> length tx < unat z" "z > 0 \<longleftrightarrow> 0 < unat z"
      using us buf_end(2)[OF ez] by (simp_all add: word_less_nat_alt)
    have i: "length tx < 2 ^ 31 \<Longrightarrow> sint (of_nat (length tx) :: u32) = int (length tx)"
      by (simp add: signed_of_nat signed_take_bit_int_eq_self)
    show ?thesis
      unfolding buf_end(1)[OF ez, symmetric] Let_def r lt us
      using i e1 lt buf_end(2)[OF ez]
      by (cases "0 < unat z"; cases "length tx < unat z") auto
  qed
  then show ?thesis using Some by simp
qed

section \<open>Numbers\<close>

text \<open>
  C36. \<^verbatim>\<open>print_number\<close> writes exactly the layout \<open>number_text\<close>: sign, zeros up to the precision, digits, and the
  rest of the field filled with spaces in front, zeros behind the sign, or spaces behind, as the flags say. It
  advances by the whole text and stores what lies before the end of the buffer, for every cursor, also when it wraps around.
\<close>

theorem print_number_layout:
  "print_number e num base w precision type (str, m) =
    (let t = number_text num base w precision type in
     (str + of_nat (length t), \<lambda>a. if a < unat e \<and> unat (of_nat a - str) < length t then t ! unat (of_nat a - str) else m a))"
  unfolding print_number_eq emit_all[OF number_text_length] Let_def ..

text \<open>Reading digits back.\<close>

lemma decimal_digit: "D \<in> {small_digits, large_digits} \<Longrightarrow> d < 10 \<Longrightarrow> is_digit (D ! d) \<and> (ucast (D ! d) :: u32) = 48 + of_nat d"
proof -
  assume D: "D \<in> {small_digits, large_digits}" and d: "d < 10"
  have "d = 0 \<or> d = 1 \<or> d = 2 \<or> d = 3 \<or> d = 4 \<or> d = 5 \<or> d = 6 \<or> d = 7 \<or> d = 8 \<or> d = 9" using d by presburger
  then show ?thesis using D by (elim disjE insertE emptyE; simp add: small_digits_def large_digits_def is_digit_def)
qed

lemma read_digits:
  assumes D: "D \<in> {small_digits, large_digits}"
  shows "base = 10 \<Longrightarrow> skip_atoi i (rev (num_digits D base n) @ cs) = skip_atoi (i * 10 ^ length (num_digits D base n) + n) cs"
  using D
proof (induction D base n arbitrary: cs rule: num_digits.induct)
  case (1 D base n)
  show ?case
  proof (cases "n = 0")
    case True
    then show ?thesis by (simp add: num_digits.simps)
  next
    case False
    let ?d = "unat (n mod 10)" and ?n = "n div 10"
    have dv: "divide n base = (?d, ?n)" using 1(2) by (simp add: divide_def)
    have nd: "num_digits D base n = D ! ?d # num_digits D base ?n" using False dv by (subst num_digits.simps) simp
    have lt: "?d < 10" by (simp add: unat_mod)
    have u: "?n * 10 + of_nat ?d = n" by (simp add: word_mod_div_equality)
    have "skip_atoi i (rev (num_digits D base n) @ cs) = skip_atoi i (rev (num_digits D base ?n) @ D ! ?d # cs)" by (simp add: nd)
    also have "\<dots> = skip_atoi (i * 10 ^ length (num_digits D base ?n) + ?n) (D ! ?d # cs)"
      by (rule 1(1)[OF False dv[symmetric] 1(2,3)])
    also have "\<dots> = skip_atoi ((i * 10 ^ length (num_digits D base ?n) + ?n) * 10 + ucast (D ! ?d) - 48) cs"
      using decimal_digit[OF 1(3) lt] by simp
    also have "(i * 10 ^ length (num_digits D base ?n) + ?n) * 10 + ucast (D ! ?d) - 48 = i * 10 ^ length (num_digits D base n) + (?n * 10 + of_nat ?d)"
      using decimal_digit[OF 1(3) lt] by (simp add: nd algebra_simps del: of_nat_unat)
    finally show ?thesis unfolding u .
  qed
qed

lemma digits_length:
  "base = 10 \<Longrightarrow> n \<noteq> 0 \<Longrightarrow> 10 ^ (length (num_digits D base n) - 1) \<le> unat n"
proof (induction D base n rule: num_digits.induct)
  case (1 D base n)
  let ?d = "unat (n mod 10)" and ?n = "n div 10"
  have dv: "divide n base = (?d, ?n)" using 1(2) by (simp add: divide_def)
  have nd: "num_digits D base n = D ! ?d # num_digits D base ?n" using 1(3) dv by (subst num_digits.simps) simp
  show ?case
  proof (cases "?n = 0")
    case True
    then show ?thesis using nd 1(3) by (simp add: num_digits.simps[of D base 0] unat_gt_0 Suc_le_eq)
  next
    case False
    have "10 ^ (length (num_digits D base ?n) - 1) \<le> unat ?n" by (rule 1(1)[OF 1(3) dv[symmetric] 1(2) False])
    then have "10 * 10 ^ (length (num_digits D base ?n) - 1) \<le> unat n" by (simp add: unat_div)
    moreover have "0 < length (num_digits D base ?n)" using False by (subst num_digits.simps) (simp split: prod.splits)
    ultimately show ?thesis using nd by (simp flip: power_Suc)
  qed
qed

lemma decimal_text:
  "skip_atoi 0 (number_digits type 10 x) = (x, [])" "length (number_digits type 10 x) \<le> 10"
proof -
  let ?D = "if type AND LARGE \<noteq> 0 then large_digits else small_digits"
  show "skip_atoi 0 (number_digits type 10 x) = (x, [])"
  proof (cases "x = 0")
    case False
    then show ?thesis using read_digits[of ?D 10 0 x "[]"] by (simp add: number_digits_def)
  qed (simp add: number_digits_def is_digit_def)
  show "length (number_digits type 10 x) \<le> 10"
  proof (cases "x = 0")
    case False
    have "10 ^ (length (num_digits ?D 10 x) - 1) \<le> unat x" by (rule digits_length[OF refl False])
    also have "unat x < 10 ^ 10" using unsigned_less[of x, where 'a=nat] by simp
    finally have "length (num_digits ?D 10 x) - 1 < 10" by (rule power_less_imp_less_exp[rotated]) simp
    then show ?thesis using False by (simp add: number_digits_def)
  qed (simp add: number_digits_def)
qed

text \<open>
  Printing and reading: \<^verbatim>\<open>rt_snprintf(buf, size, "%u", x)\<close> into more than ten bytes stores a terminated text
  of at most ten bytes that \<^verbatim>\<open>skip_atoi\<close> reads back to \<open>x\<close>, to its end, and answers its length.
\<close>

theorem printf_decimal_roundtrip:
  assumes "unat buf + unat sz < 2 ^ 32" "10 < sz"
  shows "\<exists>t m'. rt_snprintf buf sz [37, 117] [VInt x] m = Some (int (length t), m') \<and> length t \<le> 10 \<and>
    map (\<lambda>i. m' (unat buf + i)) [0..<length t] = t \<and> m' (unat buf + length t) = 0 \<and> skip_atoi 0 t = (x, []) \<and>
    (\<forall>a. \<not> (unat buf \<le> a \<and> a \<le> unat buf + length t) \<longrightarrow> m' a = m a)"
proof -
  let ?t = "number_digits 0 10 x"
  have t: "number_text x 10 (- 1) (- 1) 0 = ?t"
    using number_digits_short[of 0 10 x] by (simp add: number_text_def number_sign_def number_abs_def Let_def)
  have v: "format_text [37, 117] [VInt x] = Some ?t"
    by (simp add: parse_width_def parse_precision_def parse_qualifier_def conversion_def conv_int_def t is_digit_def Let_def)
  have s10: "10 < unat sz" using assms(2) by (simp add: word_less_nat_alt)
  have l: "length ?t \<le> 10" "length ?t < unat sz" using decimal_text(2)[of 0 x] s10 by simp_all
  have ez: "buf_end buf sz = (buf + sz, sz)" using assms(1) by (simp add: buf_end_def word_less_nat_alt unat_word_ariths(1))
  have ue: "unat (buf + sz) = unat buf + unat sz" by (rule buf_end(2)[OF ez])
  have b: "unat buf + length ?t < 2 ^ 32" using assms(1) l by simp
  have us: "unat (buf + of_nat (length ?t)) = unat buf + length ?t"
    using b by (simp add: unat_word_ariths(1) unat_of_nat take_bit_nat_eq_self)
  let ?m = "\<lambda>a. if unat buf \<le> a \<and> a < unat buf + length ?t \<and> a < unat (buf + sz) then ?t ! (a - unat buf) else m a"
  have "buf + of_nat (length ?t) < buf + sz" "0 < sz" using us ue l assms(2) by (simp_all add: word_less_nat_alt)
  then have "rt_snprintf buf sz [37, 117] [VInt x] m = Some (sint (of_nat (length ?t) :: u32), ?m(unat buf + length ?t := 0))"
    unfolding rt_snprintf_def vsnprintf_eval[OF ez v] emit_near[OF b] using us by simp
  moreover have "sint (of_nat (length ?t) :: u32) = int (length ?t)" using l by (simp add: sint_of_small)
  moreover have "map (\<lambda>i. (?m(unat buf + length ?t := 0)) (unat buf + i)) [0..<length ?t] = ?t"
    using l ue by (intro nth_equalityI) simp_all
  ultimately show ?thesis using decimal_text[of 0 x]
    by (intro exI[of _ ?t] exI[of _ "?m(unat buf + length ?t := 0)"]) simp
qed

section \<open>Where the code departs from the C library\<close>

text \<open>\<open>divide\<close> knows the bases 10 and 16 only: an octal conversion prints hexadecimal digits.\<close>

lemma octal_is_hexadecimal: "number_text x 8 w p type = number_text x 16 w p type"
proof -
  have "num_digits D 8 n = num_digits D 16 n" for D n
  proof (induction D "16 :: int" n rule: num_digits.induct)
    case (1 D n)
    have "divide n 8 = divide n 16" by (simp add: divide_def)
    then show ?case using 1 by (subst (1 2) num_digits.simps) (auto split: prod.splits)
  qed
  then show ?thesis by (simp add: number_text_def number_digits_def Let_def)
qed

text \<open>A precision of zero prints no digits even of a number that is not zero.\<close>

lemma precision_zero: "number_text 7 10 (- 1) 0 0 = []"
proof -
  have "length (number_digits 0 10 7) = 1" by (simp add: number_digits_def num_digits.simps divide_def)
  then show ?thesis by (simp add: number_text_def number_sign_def number_abs_def Let_def)
qed

text \<open>A field width cuts a string off.\<close>

lemma width_truncates: "str_text 0 3 (- 1) (Some [104, 101, 108, 108, 111]) = [104, 101, 108]"
  by (simp add: str_text_def Let_def)

text \<open>A field width of more than \<open>2 ^ 31\<close> overflows to a negative one: the number is printed without a field.\<close>

lemma huge_width: "skip_atoi 0 [51, 48, 48, 48, 48, 48, 48, 48, 48, 48] = (3000000000, []) \<and> sint (3000000000 :: u32) = - 1294967296"
  by (simp add: is_digit_def)

text \<open>
  Two fields of \<open>2 ^ 31 - 1\<close> bytes move the pointer around the address space: of \<^verbatim>\<open>"%*u%*uX"\<close> the last
  character is written two bytes before the buffer, and the terminator one byte before it.
\<close>

lemma number_text_wide: "length (number_text 7 10 2147483647 (- 1) 0) = 2147483647"
proof -
  have "length (number_digits 0 10 7) = 1" by (simp add: number_digits_def num_digits.simps divide_def)
  then show ?thesis by (simp add: number_text_def number_sign_def number_abs_def Let_def)
qed

lemma wide_fields_write_outside:
  assumes "2 \<le> unat buf" "unat buf + unat sz < 2 ^ 32" "0 < sz"
  shows "\<exists>r m'. rt_vsnprintf buf sz [37, 42, 117, 37, 42, 117, 88] [VInt 2147483647, VInt 7, VInt 2147483647, VInt 7] m = Some (r, m') \<and>
    m' (unat buf - 2) = 88 \<and> m' (unat buf - 1) = 0"
proof -
  define t where "t = number_text 7 10 2147483647 (- 1) 0"
  let ?tx = "t @ t @ [88]"
  have lt: "length t = 2147483647" unfolding t_def by (rule number_text_wide)
  have v: "format_text [37, 42, 117, 37, 42, 117, 88] [VInt 2147483647, VInt 7, VInt 2147483647, VInt 7] = Some ?tx"
    by (simp add: parse_width_def parse_precision_def parse_qualifier_def conversion_def conv_int_def is_digit_def Let_def flip: t_def)
  have ez: "buf_end buf sz = (buf + sz, sz)" using assms(2) by (simp add: buf_end_def word_less_nat_alt unat_word_ariths(1))
  have ue: "unat (buf + sz) = unat buf + unat sz" by (rule buf_end(2)[OF ez])
  have len: "length ?tx \<le> 2 ^ 32" "(of_nat (length ?tx) :: u32) = - 1" "length ?tx = 4294967295" by (simp_all add: lt)
  have "buf \<noteq> 0" using assms(1) by auto
  then have u1: "unat (buf - 1) = unat buf - 1" by (simp add: unat_minus_one)
  let ?a = "unat buf - 2"
  have d: "unat (of_nat ?a - buf) = 4294967294"
  proof -
    have "(of_nat ?a :: u32) = buf - 2" using assms(1) by (simp add: of_nat_diff)
    then have "of_nat ?a - buf = (- 2 :: u32)" by simp
    then show ?thesis by simp
  qed
  have a: "?a < unat (buf + sz)" "?a \<noteq> unat buf - 1" using assms(1) ue by auto
  have x: "?tx ! 4294967294 = 88" by (simp add: nth_append lt)
  have "buf - 1 < buf + sz" using u1 ue assms(1) by (simp add: word_less_nat_alt)
  then show ?thesis
    unfolding vsnprintf_eval[OF ez v] emit_all[OF len(1)] len(2)
    using assms(3) u1 a d x len(3) by (intro exI[of _ "sint (- 1 :: u32)"]) (simp del: append_assoc length_append)
qed

text \<open>
  When the text does not fit, \<^verbatim>\<open>rt_kprintf\<close> counts the terminator: the device is given a zero byte to write.
\<close>

lemma kprintf_writes_zero:
  assumes "unat log + 256 < 2 ^ 32" "format_text fmt args = Some tx" "255 \<le> length tx"
    "unat log + length tx < 2 ^ 32"
  shows "\<exists>bs m'. rt_kprintf log fmt args m = Some (255, bs, m') \<and> length bs = 255 \<and> last bs = 0"
proof -
  have ez: "buf_end log 255 = (log + 255, 255)" using assms(1) by (simp add: buf_end_def word_less_nat_alt unat_word_ariths(1))
  have ue: "unat (log + 255) = unat log + 255" using buf_end(2)[OF ez] by simp
  have e: "unat (log + 255 - 1) = unat log + 254" using ue by (subst unat_minus_one) auto
  have us: "unat (log + of_nat (length tx)) = unat log + length tx"
    using assms(4) by (simp add: unat_word_ariths(1) unat_of_nat take_bit_nat_eq_self)
  let ?m = "\<lambda>a. if unat log \<le> a \<and> a < unat log + length tx \<and> a < unat (log + 255) then tx ! (a - unat log) else m a"
  have n: "\<not> log + of_nat (length tx) < log + 255" using us ue assms(3) by (simp add: word_less_nat_alt)
  have v: "rt_vsnprintf log 255 fmt args m = Some (sint (of_nat (length tx) :: u32), ?m(unat log + 254 := 0))"
    unfolding vsnprintf_eval[OF ez assms(2)] emit_near[OF assms(4)] prod.case if_not_P[OF n] e by simp
  have "unat (of_nat (length tx) :: u32) = length tx" using assms(4) by (simp add: unat_of_nat take_bit_nat_eq_self)
  then have l: "\<not> of_nat (length tx) < (255 :: u32)" using assms(3) by (simp add: word_less_nat_alt)
  have "rt_kprintf log fmt args m = Some (255, map (\<lambda>i. (?m(unat log + 254 := 0)) (unat log + i)) [0..<255], ?m(unat log + 254 := 0))"
    using l by (auto simp: rt_kprintf_def v Let_def)
  moreover have "last (map (\<lambda>i. (?m(unat log + 254 := 0)) (unat log + i)) [0..<255]) = 0" by (subst last_map) simp_all
  ultimately show ?thesis by (intro exI conjI) (assumption, simp_all)
qed

theorem printf_decimal_roundtrip_witness:
  "\<exists>t m'. rt_snprintf 0x1000 16 [37, 117] [VInt 4294967295] (\<lambda>_. 1) = Some (int (length t), m') \<and>
    map (\<lambda>i. m' (0x1000 + i)) [0..<length t] = t \<and> m' (0x1000 + length t) = 0 \<and> skip_atoi 0 t = (4294967295, []) \<and> m' 0x100b = 1"
proof -
  obtain t m' where t: "rt_snprintf 0x1000 16 [37, 117] [VInt 4294967295] (\<lambda>_. 1) = Some (int (length t), m')" "length t \<le> 10"
    "map (\<lambda>i. m' (unat (0x1000 :: u32) + i)) [0..<length t] = t" "m' (unat (0x1000 :: u32) + length t) = 0" "skip_atoi 0 t = (4294967295, [])"
    "\<forall>a. \<not> (unat (0x1000 :: u32) \<le> a \<and> a \<le> unat (0x1000 :: u32) + length t) \<longrightarrow> m' a = 1"
    using printf_decimal_roundtrip[of "0x1000" 16 4294967295 "\<lambda>_. 1"] by auto
  have "m' 0x100b = 1" using t(2,6) by simp
  then show ?thesis using t by (intro exI[of _ t] exI[of _ m']) simp
qed

theorem vsnprintf_contract_witness:
  "\<exists>m'. rt_vsnprintf 0x1000 2 [72, 105] [] (\<lambda>_. 1) = Some (2, m') \<and> m' 0x1000 = 72 \<and> m' 0x1001 = 0 \<and> m' 0x1002 = 1"
proof -
  have f: "format_text [72, 105] [] = Some [72, 105]" by simp
  show ?thesis using vsnprintf_contract[of "0x1000" 2 "[72, 105]" "[]" "\<lambda>_. 1"] unfolding f by (auto simp: Let_def)
qed

end
