(* ===== verification/Device.thy ===== *)
theory Device
  imports IpcBase
begin

text \<open>
  \<^verbatim>\<open>src/device.c\<close>: the layer between an application and the drivers. A device is known by the address of its
  structure, 0 is the null pointer. The functions of a driver are the table \<open>ops x\<close> of the device, which nothing
  changes after the registration; they may work on the whole state, whose part \<open>drv\<close> is theirs. A call answers
  \<open>None\<close> where an assertion stops the system, and reading and writing may block.
\<close>

section \<open>Devices and drivers\<close>

datatype rt_device_class_type =
    RT_Device_Class_Char | RT_Device_Class_Block | RT_Device_Class_NetIf | RT_Device_Class_MTD | RT_Device_Class_CAN
  | RT_Device_Class_RTC | RT_Device_Class_Sound | RT_Device_Class_Graphic | RT_Device_Class_I2CBUS
  | RT_Device_Class_USBDevice | RT_Device_Class_USBHost | RT_Device_Class_USBOTG | RT_Device_Class_SPIBUS
  | RT_Device_Class_SPIDevice | RT_Device_Class_SDIO | RT_Device_Class_PM | RT_Device_Class_Pipe
  | RT_Device_Class_Portal | RT_Device_Class_Timer | RT_Device_Class_Miscellaneous | RT_Device_Class_Sensor
  | RT_Device_Class_Touch | RT_Device_Class_PHY | RT_Device_Class_Security | RT_Device_Class_Unknown

abbreviation (input) RT_DEVICE_FLAG_RDWR :: u16 where "RT_DEVICE_FLAG_RDWR \<equiv> 0x003"
abbreviation (input) RT_DEVICE_FLAG_STANDALONE :: u16 where "RT_DEVICE_FLAG_STANDALONE \<equiv> 0x008"
abbreviation (input) RT_DEVICE_FLAG_ACTIVATED :: u16 where "RT_DEVICE_FLAG_ACTIVATED \<equiv> 0x010"
abbreviation (input) RT_DEVICE_FLAG_SUSPENDED :: u16 where "RT_DEVICE_FLAG_SUSPENDED \<equiv> 0x020"
abbreviation (input) RT_DEVICE_FLAG_STREAM :: u16 where "RT_DEVICE_FLAG_STREAM \<equiv> 0x040"
abbreviation (input) RT_DEVICE_FLAG_INT_RX :: u16 where "RT_DEVICE_FLAG_INT_RX \<equiv> 0x100"
abbreviation (input) RT_DEVICE_FLAG_DMA_RX :: u16 where "RT_DEVICE_FLAG_DMA_RX \<equiv> 0x200"
abbreviation (input) RT_DEVICE_FLAG_INT_TX :: u16 where "RT_DEVICE_FLAG_INT_TX \<equiv> 0x400"
abbreviation (input) RT_DEVICE_FLAG_DMA_TX :: u16 where "RT_DEVICE_FLAG_DMA_TX \<equiv> 0x800"
abbreviation (input) RT_DEVICE_OFLAG_CLOSE :: u16 where "RT_DEVICE_OFLAG_CLOSE \<equiv> 0x000"
abbreviation (input) RT_DEVICE_OFLAG_OPEN :: u16 where "RT_DEVICE_OFLAG_OPEN \<equiv> 0x008"
abbreviation (input) RT_DEVICE_OFLAG_MASK :: u16 where "RT_DEVICE_OFLAG_MASK \<equiv> 0xf0f"

record rt_device =
  dv_type :: rt_device_class_type
  dv_flag :: u16
  dv_open_flag :: u16
  dv_ref_count :: u8
  dv_device_id :: u8
  dv_rx_indicate :: "nat option"
  dv_tx_complete :: "nat option"
  dv_user_data :: nat

text \<open>The kernel, the global error number, the memory, the devices and the state of the drivers.\<close>

record 'w vstate =
  vk :: kstate
  verrno :: int
  vmem :: mem
  devs :: "nat \<Rightarrow> rt_device"
  drv :: 'w

record ('a, 'k, 'w) rt_device_ops =
  op_init :: "(nat \<Rightarrow> 'w vstate \<Rightarrow> (int \<times> 'w vstate) option) option"
  op_open :: "(nat \<Rightarrow> u16 \<Rightarrow> 'w vstate \<Rightarrow> (int \<times> 'w vstate) option) option"
  op_close :: "(nat \<Rightarrow> 'w vstate \<Rightarrow> (int \<times> 'w vstate) option) option"
  op_read :: "(nat \<Rightarrow> int \<Rightarrow> nat \<Rightarrow> u32 \<Rightarrow> 'w vstate \<Rightarrow> ((u32, 'k) outcome \<times> 'w vstate) option) option"
  op_write :: "(nat \<Rightarrow> int \<Rightarrow> nat \<Rightarrow> u32 \<Rightarrow> 'w vstate \<Rightarrow> ((u32, 'k) outcome \<times> 'w vstate) option) option"
  op_control :: "(nat \<Rightarrow> int \<Rightarrow> 'a \<Rightarrow> 'w vstate \<Rightarrow> (int \<times> 'w vstate) option) option"

definition upd_dev :: "nat \<Rightarrow> (rt_device \<Rightarrow> rt_device) \<Rightarrow> 'w vstate \<Rightarrow> 'w vstate" where
  "upd_dev x f s = s\<lparr>devs := (devs s)(x := f (devs s x))\<rparr>"

text \<open>\<^verbatim>\<open>rt_set_errno\<close> on this state.\<close>

definition dev_set_errno :: "int \<Rightarrow> 'w vstate \<Rightarrow> 'w vstate" where
  "dev_set_errno e s =
    (if int_nest (vk s) \<noteq> 0 then s\<lparr>verrno := e\<rparr>
     else case rt_thread_self (vk s) of
       None \<Rightarrow> s\<lparr>verrno := e\<rparr>
     | Some t \<Rightarrow> s\<lparr>vk := upd_thread t (\<lambda>th. th\<lparr>th_error := e\<rparr>) (vk s)\<rparr>)"

definition is_device :: "nat \<Rightarrow> 'w vstate \<Rightarrow> bool" where
  "is_device x s \<longleftrightarrow> x \<noteq> 0 \<and> rt_object_get_type (Mem x) (vk s) = RT_Object_Class_Device"

section \<open>Registration\<close>

definition rt_device_find :: "u8 list \<Rightarrow> 'w vstate \<Rightarrow> (addr option \<times> 'w vstate) option" where
  "rt_device_find nm s = do { (r, k) \<leftarrow> rt_object_find nm RT_Object_Class_Device (vk s); Some (r, s\<lparr>vk := k\<rparr>) }"

definition rt_device_register :: "nat \<Rightarrow> u8 list \<Rightarrow> u16 \<Rightarrow> 'w vstate \<Rightarrow> (int \<times> 'w vstate) option" where
  "rt_device_register x nm flags s =
    (if x = 0 then Some (- RT_ERROR, s)
     else do {
       (r, s) \<leftarrow> rt_device_find nm s;
       if r \<noteq> None then Some (- RT_ERROR, s)
       else do {
         k \<leftarrow> rt_object_init (Mem x) RT_Object_Class_Device nm (vk s);
         Some (RT_EOK, upd_dev x (\<lambda>d. d\<lparr>dv_flag := flags, dv_ref_count := 0, dv_open_flag := 0\<rparr>) (s\<lparr>vk := k\<rparr>))
       }
     })"

definition rt_device_unregister :: "nat \<Rightarrow> 'w vstate \<Rightarrow> (int \<times> 'w vstate) option" where
  "rt_device_unregister x s = do {
     _ \<leftarrow> kassert (is_device x s);
     _ \<leftarrow> kassert (rt_object_is_systemobject (Mem x) (vk s));
     Some (RT_EOK, s\<lparr>vk := rt_object_detach (Mem x) (vk s)\<rparr>)
   }"

definition zero_device :: rt_device where
  "zero_device = \<lparr>dv_type = RT_Device_Class_Char, dv_flag = 0, dv_open_flag = 0, dv_ref_count = 0, dv_device_id = 0,
     dv_rx_indicate = None, dv_tx_complete = None, dv_user_data = 0\<rparr>"

text \<open>\<open>block\<close> is the answer of the allocator, 0 for none.\<close>

definition rt_device_create :: "nat \<Rightarrow> rt_device_class_type \<Rightarrow> 'w vstate \<Rightarrow> nat \<times> 'w vstate" where
  "rt_device_create block ty s =
    (if block \<noteq> 0 then
       let s = s\<lparr>vk := upd_obj (Mem block) (\<lambda>ob. \<lparr>oname = replicate 8 0, otype = 0, oflag = 0\<rparr>) (vk s)\<rparr>
       in (block, upd_dev block (\<lambda>_. zero_device\<lparr>dv_type := ty\<rparr>) s)
     else (0, s))"

text \<open>The answer names the block that is handed back to the allocator.\<close>

definition rt_device_destroy :: "nat \<Rightarrow> 'w vstate \<Rightarrow> (nat \<times> 'w vstate) option" where
  "rt_device_destroy x s = do {
     _ \<leftarrow> kassert (is_device x s);
     _ \<leftarrow> kassert (\<not> rt_object_is_systemobject (Mem x) (vk s));
     Some (x, s\<lparr>vk := rt_object_detach (Mem x) (vk s)\<rparr>)
   }"

section \<open>Use\<close>

definition rt_device_init :: "(nat \<Rightarrow> ('a, 'k, 'w) rt_device_ops) \<Rightarrow> nat \<Rightarrow> 'w vstate \<Rightarrow> (int \<times> 'w vstate) option" where
  "rt_device_init ops x s = do {
     _ \<leftarrow> kassert (x \<noteq> 0);
     case op_init (ops x) of
       None \<Rightarrow> Some (RT_EOK, s)
     | Some init \<Rightarrow>
         if dv_flag (devs s x) AND RT_DEVICE_FLAG_ACTIVATED = 0 then do {
           (result, s) \<leftarrow> init x s;
           if result \<noteq> RT_EOK then Some (result, s)
           else Some (result, upd_dev x (\<lambda>d. d\<lparr>dv_flag := dv_flag d OR RT_DEVICE_FLAG_ACTIVATED\<rparr>) s)
         } else Some (RT_EOK, s)
   }"

text \<open>The part of \<^verbatim>\<open>rt_device_open\<close> that makes the device active: the error with which it stops, if any.\<close>

definition dev_activate :: "(nat \<Rightarrow> ('a, 'k, 'w) rt_device_ops) \<Rightarrow> nat \<Rightarrow> 'w vstate \<Rightarrow> (int \<times> 'w vstate) option" where
  "dev_activate ops x s =
    (if dv_flag (devs s x) AND RT_DEVICE_FLAG_ACTIVATED = 0 then do {
       (result, s) \<leftarrow> (case op_init (ops x) of None \<Rightarrow> Some (RT_EOK, s) | Some init \<Rightarrow> init x s);
       if result \<noteq> RT_EOK then Some (result, s)
       else Some (RT_EOK, upd_dev x (\<lambda>d. d\<lparr>dv_flag := dv_flag d OR RT_DEVICE_FLAG_ACTIVATED\<rparr>) s)
     } else Some (RT_EOK, s))"

text \<open>The part that opens an active device and counts its user.\<close>

definition dev_enter :: "(nat \<Rightarrow> ('a, 'k, 'w) rt_device_ops) \<Rightarrow> nat \<Rightarrow> u16 \<Rightarrow> 'w vstate \<Rightarrow> (int \<times> 'w vstate) option" where
  "dev_enter ops x fl s = do {
     (result, s) \<leftarrow>
       (case op_open (ops x) of
          Some op \<Rightarrow> op x fl s
        | None \<Rightarrow> Some (RT_EOK, upd_dev x (\<lambda>d. d\<lparr>dv_open_flag := fl AND RT_DEVICE_OFLAG_MASK\<rparr>) s));
     if result = RT_EOK \<or> result = - RT_ENOSYS then do {
       let s = upd_dev x (\<lambda>d. d\<lparr>dv_open_flag := dv_open_flag d OR RT_DEVICE_OFLAG_OPEN, dv_ref_count := dv_ref_count d + 1\<rparr>) s;
       _ \<leftarrow> kassert (dv_ref_count (devs s x) \<noteq> 0);
       Some (result, s)
     } else Some (result, s)
   }"

definition rt_device_open :: "(nat \<Rightarrow> ('a, 'k, 'w) rt_device_ops) \<Rightarrow> nat \<Rightarrow> u16 \<Rightarrow> 'w vstate \<Rightarrow> (int \<times> 'w vstate) option" where
  "rt_device_open ops x fl s = do {
     _ \<leftarrow> kassert (is_device x s);
     (result, s) \<leftarrow> dev_activate ops x s;
     if result \<noteq> RT_EOK then Some (result, s)
     else if dv_flag (devs s x) AND RT_DEVICE_FLAG_STANDALONE \<noteq> 0 \<and> dv_open_flag (devs s x) AND RT_DEVICE_OFLAG_OPEN \<noteq> 0
     then Some (- RT_EBUSY, s)
     else dev_enter ops x fl s
   }"

definition rt_device_close :: "(nat \<Rightarrow> ('a, 'k, 'w) rt_device_ops) \<Rightarrow> nat \<Rightarrow> 'w vstate \<Rightarrow> (int \<times> 'w vstate) option" where
  "rt_device_close ops x s = do {
     _ \<leftarrow> kassert (is_device x s);
     if dv_ref_count (devs s x) = 0 then Some (- RT_ERROR, s)
     else do {
       let s = upd_dev x (\<lambda>d. d\<lparr>dv_ref_count := dv_ref_count d - 1\<rparr>) s;
       if dv_ref_count (devs s x) \<noteq> 0 then Some (RT_EOK, s)
       else do {
         (result, s) \<leftarrow> (case op_close (ops x) of None \<Rightarrow> Some (RT_EOK, s) | Some close \<Rightarrow> close x s);
         Some (result,
           if result = RT_EOK \<or> result = - RT_ENOSYS then upd_dev x (\<lambda>d. d\<lparr>dv_open_flag := RT_DEVICE_OFLAG_CLOSE\<rparr>) s else s)
       }
     }
   }"

definition rt_device_read ::
  "(nat \<Rightarrow> ('a, 'k, 'w) rt_device_ops) \<Rightarrow> nat \<Rightarrow> int \<Rightarrow> nat \<Rightarrow> u32 \<Rightarrow> 'w vstate \<Rightarrow> ((u32, 'k) outcome \<times> 'w vstate) option" where
  "rt_device_read ops x pos buffer sz s = do {
     _ \<leftarrow> kassert (is_device x s);
     if dv_ref_count (devs s x) = 0 then Some (Done 0, dev_set_errno (- RT_ERROR) s)
     else case op_read (ops x) of
       Some rd \<Rightarrow> rd x pos buffer sz s
     | None \<Rightarrow> Some (Done 0, dev_set_errno (- RT_ENOSYS) s)
   }"

definition rt_device_write ::
  "(nat \<Rightarrow> ('a, 'k, 'w) rt_device_ops) \<Rightarrow> nat \<Rightarrow> int \<Rightarrow> nat \<Rightarrow> u32 \<Rightarrow> 'w vstate \<Rightarrow> ((u32, 'k) outcome \<times> 'w vstate) option" where
  "rt_device_write ops x pos buffer sz s = do {
     _ \<leftarrow> kassert (is_device x s);
     if dv_ref_count (devs s x) = 0 then Some (Done 0, dev_set_errno (- RT_ERROR) s)
     else case op_write (ops x) of
       Some wr \<Rightarrow> wr x pos buffer sz s
     | None \<Rightarrow> Some (Done 0, dev_set_errno (- RT_ENOSYS) s)
   }"

definition rt_device_control ::
  "(nat \<Rightarrow> ('a, 'k, 'w) rt_device_ops) \<Rightarrow> nat \<Rightarrow> int \<Rightarrow> 'a \<Rightarrow> 'w vstate \<Rightarrow> (int \<times> 'w vstate) option" where
  "rt_device_control ops x cmd arg s = do {
     _ \<leftarrow> kassert (is_device x s);
     case op_control (ops x) of
       Some ctl \<Rightarrow> ctl x cmd arg s
     | None \<Rightarrow> Some (- RT_ENOSYS, s)
   }"

definition rt_device_set_rx_indicate :: "nat \<Rightarrow> nat option \<Rightarrow> 'w vstate \<Rightarrow> (int \<times> 'w vstate) option" where
  "rt_device_set_rx_indicate x cb s = do {
     _ \<leftarrow> kassert (is_device x s);
     Some (RT_EOK, upd_dev x (\<lambda>d. d\<lparr>dv_rx_indicate := cb\<rparr>) s)
   }"

definition rt_device_set_tx_complete :: "nat \<Rightarrow> nat option \<Rightarrow> 'w vstate \<Rightarrow> (int \<times> 'w vstate) option" where
  "rt_device_set_tx_complete x cb s = do {
     _ \<leftarrow> kassert (is_device x s);
     Some (RT_EOK, upd_dev x (\<lambda>d. d\<lparr>dv_tx_complete := cb\<rparr>) s)
   }"

section \<open>The contract of a driver\<close>

definition activated :: "nat \<Rightarrow> 'w vstate \<Rightarrow> bool" where
  "activated x s \<longleftrightarrow> dv_flag (devs s x) AND RT_DEVICE_FLAG_ACTIVATED \<noteq> 0"

definition opened :: "nat \<Rightarrow> 'w vstate \<Rightarrow> bool" where
  "opened x s \<longleftrightarrow> dv_open_flag (devs s x) AND RT_DEVICE_OFLAG_OPEN \<noteq> 0"

text \<open>What every function of a driver leaves alone: the count of its users, and that it is a device.\<close>

definition same_books :: "nat \<Rightarrow> 'w vstate \<Rightarrow> 'w vstate \<Rightarrow> bool" where
  "same_books x s s' \<longleftrightarrow> dv_ref_count (devs s' x) = dv_ref_count (devs s x) \<and>
     rt_object_get_type (Mem x) (vk s') = rt_object_get_type (Mem x) (vk s)"

text \<open>A device in use is active and marked as open.\<close>

definition dev_ok :: "nat \<Rightarrow> 'w vstate \<Rightarrow> bool" where
  "dev_ok x s \<longleftrightarrow> is_device x s \<and> (dv_ref_count (devs s x) \<noteq> 0 \<longrightarrow> activated x s \<and> opened x s)"

datatype 'a dev_call = Open u16 | Close | Read int nat u32 | Write int nat u32 | Control int 'a

definition dev_call ::
  "(nat \<Rightarrow> ('a, 'k, 'w) rt_device_ops) \<Rightarrow> nat \<Rightarrow> 'a dev_call \<Rightarrow> 'w vstate \<Rightarrow> ((int, 'k) outcome \<times> 'w vstate) option" where
  "dev_call ops x c s =
    (case c of
       Open fl \<Rightarrow> map_option (apfst Done) (rt_device_open ops x fl s)
     | Close \<Rightarrow> map_option (apfst Done) (rt_device_close ops x s)
     | Read pos buffer sz \<Rightarrow> map_option (apfst (map_outcome uint id)) (rt_device_read ops x pos buffer sz s)
     | Write pos buffer sz \<Rightarrow> map_option (apfst (map_outcome uint id)) (rt_device_write ops x pos buffer sz s)
     | Control cmd arg \<Rightarrow> map_option (apfst Done) (rt_device_control ops x cmd arg s))"

fun dev_calls ::
  "(nat \<Rightarrow> ('a, 'k, 'w) rt_device_ops) \<Rightarrow> nat \<Rightarrow> 'a dev_call list \<Rightarrow> 'w vstate \<Rightarrow> ((int, 'k) outcome list \<times> 'w vstate) option" where
  "dev_calls ops x [] s = Some ([], s)"
| "dev_calls ops x (c # cs) s = do {
     (r, s) \<leftarrow> dev_call ops x c s;
     (rs, s) \<leftarrow> dev_calls ops x cs s;
     Some (r # rs, s)
   }"

text \<open>
  The users of a device after a call with its answer. An open that answers \<^verbatim>\<open>-RT_ENOSYS\<close> is \<open>vague\<close>: it counts
  when the driver's open said so, but not when its initialisation did.
\<close>

fun vague :: "'a dev_call \<times> (int, 'k) outcome \<Rightarrow> bool" where
  "vague (Open _, Done r) \<longleftrightarrow> r = - RT_ENOSYS"
| "vague _ \<longleftrightarrow> False"

fun users :: "'a dev_call \<times> (int, 'k) outcome \<Rightarrow> nat \<Rightarrow> nat" where
  "users (Open _, Done r) n = (if r = RT_EOK then n + 1 else n)"
| "users (Close, _) n = n - 1"
| "users _ n = n"

lemma same_books_refl [simp]: "same_books x s s"
  by (simp add: same_books_def)

lemma same_books_device: "same_books x s s' \<Longrightarrow> is_device x s' = is_device x s"
  by (simp add: same_books_def is_device_def)

lemma upd_dev_simps [simp]: "vk (upd_dev x f s) = vk s" "drv (upd_dev x f s) = drv s"
    "devs (upd_dev x f s) y = (if y = x then f (devs s x) else devs s y)" "verrno (upd_dev x f s) = verrno s" "vmem (upd_dev x f s) = vmem s"
  by (simp_all add: upd_dev_def)

lemma dev_set_errno_simps [simp]: "devs (dev_set_errno e s) = devs s" "drv (dev_set_errno e s) = drv s"
    "vmem (dev_set_errno e s) = vmem s" "rt_object_get_type a (vk (dev_set_errno e s)) = rt_object_get_type a (vk s)"
  by (simp_all add: dev_set_errno_def rt_object_get_type_def upd_thread_def split: option.splits)

lemma is_device_simps [simp]: "is_device x (upd_dev y f s) = is_device x s" "is_device x (dev_set_errno e s) = is_device x s"
  by (simp_all add: is_device_def)

lemma flag_set: "(w OR 0x10) AND 0x10 \<noteq> (0 :: u16)" "(w OR 0x08) AND 0x08 \<noteq> (0 :: u16)"
  by (simp_all add: bit.conj_disj_distrib2)

locale device_driver =
  fixes ops :: "nat \<Rightarrow> ('a, 'k, 'w) rt_device_ops" and x :: nat
  assumes init_law: "op_init (ops x) = Some f \<Longrightarrow> f x s = Some (r, s') \<Longrightarrow> same_books x s s' \<and> opened x s' = opened x s"
    and open_law: "op_open (ops x) = Some g \<Longrightarrow> g x fl s = Some (r, s') \<Longrightarrow> same_books x s s' \<and> (activated x s \<longrightarrow> activated x s') \<and>
      (r \<noteq> RT_EOK \<and> r \<noteq> - RT_ENOSYS \<longrightarrow> opened x s \<longrightarrow> opened x s')"
    and close_law: "op_close (ops x) = Some f \<Longrightarrow> f x s = Some (r, s') \<Longrightarrow> same_books x s s'"
    and read_law: "op_read (ops x) = Some h \<Longrightarrow> h x pos buffer sz s = Some (v, s') \<Longrightarrow>
      same_books x s s' \<and> (activated x s \<longrightarrow> activated x s') \<and> (opened x s \<longrightarrow> opened x s')"
    and write_law: "op_write (ops x) = Some h \<Longrightarrow> h x pos buffer sz s = Some (v, s') \<Longrightarrow>
      same_books x s s' \<and> (activated x s \<longrightarrow> activated x s') \<and> (opened x s \<longrightarrow> opened x s')"
    and control_law: "op_control (ops x) = Some c \<Longrightarrow> c x cmd arg s = Some (r, s') \<Longrightarrow>
      same_books x s s' \<and> (activated x s \<longrightarrow> activated x s') \<and> (opened x s \<longrightarrow> opened x s')"
begin

lemma init_step:
  assumes "dev_activate ops x s = Some (r, s')" "dev_ok x s"
  shows "dev_ok x s' \<and> dv_ref_count (devs s' x) = dv_ref_count (devs s x) \<and> (r = RT_EOK \<longrightarrow> activated x s') \<and> opened x s' = opened x s"
proof (cases "activated x s")
  case True
  then show ?thesis using assms by (auto simp: dev_activate_def activated_def)
next
  case False
  then have ref: "dv_ref_count (devs s x) = 0" using assms(2) by (auto simp: dev_ok_def)
  obtain r1 s1 where i: "(case op_init (ops x) of None \<Rightarrow> Some (RT_EOK, s) | Some init \<Rightarrow> init x s) = Some (r1, s1)"
    "(r, s') = (if r1 \<noteq> RT_EOK then (r1, s1) else (RT_EOK, upd_dev x (\<lambda>d. d\<lparr>dv_flag := dv_flag d OR 0x10\<rparr>) s1))"
    using assms(1) False by (auto simp: dev_activate_def activated_def bind_eq_Some_conv split: if_splits)
  have l: "same_books x s s1" "opened x s1 = opened x s"
    using i(1) init_law by (auto split: option.splits)
  then have "is_device x s1" "dv_ref_count (devs s1 x) = 0" using assms(2) ref by (simp_all add: dev_ok_def same_books_device) (simp add: same_books_def)
  then show ?thesis using i(2) l(2) ref by (auto simp: dev_ok_def activated_def opened_def flag_set split: if_splits)
qed

lemma enter_step:
  assumes "dev_enter ops x fl s = Some (r, s')" "is_device x s" "activated x s"
  shows "is_device x s' \<and> activated x s' \<and> (r \<noteq> RT_EOK \<and> r \<noteq> - RT_ENOSYS \<longrightarrow> opened x s \<longrightarrow> opened x s') \<and>
    (r = RT_EOK \<or> r = - RT_ENOSYS \<longrightarrow> opened x s') \<and>
    unat (dv_ref_count (devs s' x)) =
      (if r = RT_EOK \<or> r = - RT_ENOSYS then unat (dv_ref_count (devs s x)) + 1 else unat (dv_ref_count (devs s x)))"
proof -
  let ?call = "case op_open (ops x) of Some op \<Rightarrow> op x fl s
    | None \<Rightarrow> Some (RT_EOK, upd_dev x (\<lambda>d. d\<lparr>dv_open_flag := fl AND RT_DEVICE_OFLAG_MASK\<rparr>) s)"
  let ?count = "\<lambda>s. upd_dev x (\<lambda>d. d\<lparr>dv_open_flag := dv_open_flag d OR 8, dv_ref_count := dv_ref_count d + 1\<rparr>) s"
  obtain s2 where c: "?call = Some (r, s2)"
    and s': "if r = RT_EOK \<or> r = - RT_ENOSYS then s' = ?count s2 \<and> dv_ref_count (devs s2 x) + 1 \<noteq> 0 else s' = s2"
    using assms(1) by (cases ?call) (auto simp: dev_enter_def Let_def split: if_splits)
  have l: "same_books x s s2" "activated x s2" "r \<noteq> RT_EOK \<and> r \<noteq> - RT_ENOSYS \<longrightarrow> opened x s \<longrightarrow> opened x s2"
    using c open_law[of _ fl s r s2] assms(2,3) by (auto simp: same_books_def activated_def split: option.splits)
  then have b: "is_device x s2" "dv_ref_count (devs s2 x) = dv_ref_count (devs s x)"
    using assms(2) by (simp_all add: same_books_device) (simp add: same_books_def)
  show ?thesis
  proof (cases "r = RT_EOK \<or> r = - RT_ENOSYS")
    case True
    then have e: "s' = ?count s2" "dv_ref_count (devs s2 x) + 1 \<noteq> 0" using s' by simp_all
    have "unat (dv_ref_count (devs s2 x) + 1) = unat (dv_ref_count (devs s2 x)) + 1"
      using e(2) by (metis add.commute unatSuc Suc_eq_plus1)
    then show ?thesis using True e l b by (simp add: activated_def opened_def flag_set)
  next
    case False
    then show ?thesis using s' l b by auto
  qed
qed

lemma open_step:
  assumes "rt_device_open ops x fl s = Some (r, s')" "dev_ok x s"
  shows "dev_ok x s' \<and> (r \<noteq> - RT_ENOSYS \<longrightarrow> unat (dv_ref_count (devs s' x)) =
    (if r = RT_EOK then unat (dv_ref_count (devs s x)) + 1 else unat (dv_ref_count (devs s x))))"
proof -
  obtain r1 s1 where a: "dev_activate ops x s = Some (r1, s1)" using assms(1) by (auto simp: rt_device_open_def bind_eq_Some_conv split: if_splits)
  note i = init_step[OF a assms(2)]
  then have dev: "is_device x s1" by (simp add: dev_ok_def)
  show ?thesis
  proof (cases "r1 \<noteq> RT_EOK \<or> dv_flag (devs s1 x) AND 8 \<noteq> 0 \<and> dv_open_flag (devs s1 x) AND 8 \<noteq> 0")
    case True
    then have "(r, s') = (if r1 \<noteq> RT_EOK then r1 else - RT_EBUSY, s1)"
      using assms(1) a by (auto simp: rt_device_open_def split: if_splits)
    then show ?thesis using i True by (auto split: if_splits)
  next
    case False
    then have "dev_enter ops x fl s1 = Some (r, s')" "activated x s1"
      using assms(1) a i by (auto simp: rt_device_open_def split: if_splits)
    note e = enter_step[OF this(1) dev this(2)]
    show ?thesis
    proof (cases "r = RT_EOK \<or> r = - RT_ENOSYS")
      case True
      then show ?thesis using e i by (auto simp: dev_ok_def)
    next
      case False
      then show ?thesis using e i by (auto simp: dev_ok_def unat_eq_0)
    qed
  qed
qed

lemma close_step:
  assumes "rt_device_close ops x s = Some (r, s')" "dev_ok x s"
  shows "dev_ok x s' \<and> unat (dv_ref_count (devs s' x)) = unat (dv_ref_count (devs s x)) - 1"
proof (cases "dv_ref_count (devs s x) = 0")
  case True
  then show ?thesis using assms by (auto simp: rt_device_close_def split: if_splits)
next
  case False
  let ?s = "upd_dev x (\<lambda>d. d\<lparr>dv_ref_count := dv_ref_count d - 1\<rparr>) s"
  have u: "unat (dv_ref_count (devs s x) - 1) = unat (dv_ref_count (devs s x)) - 1"
    using False by (metis unat_minus_one)
  show ?thesis
  proof (cases "dv_ref_count (devs ?s x) = 0")
    case True
    let ?call = "case op_close (ops x) of None \<Rightarrow> Some (RT_EOK, ?s) | Some close \<Rightarrow> close x ?s"
    obtain s2 where c: "?call = Some (r, s2)"
      "s' = (if r = RT_EOK \<or> r = - RT_ENOSYS then upd_dev x (\<lambda>d. d\<lparr>dv_open_flag := RT_DEVICE_OFLAG_CLOSE\<rparr>) s2 else s2)"
      using assms(1) False True by (auto simp: rt_device_close_def bind_eq_Some_conv Let_def split: if_splits)
    have "same_books x ?s s2" using c(1) close_law by (auto split: option.splits)
    then have "is_device x s2" "dv_ref_count (devs s2 x) = 0"
      using assms(2) True by (auto simp: same_books_def dev_ok_def is_device_def)
    then show ?thesis using c(2) True u by (simp add: dev_ok_def)
  next
    case m: False
    then have "s' = ?s" using assms(1) False by (auto simp: rt_device_close_def Let_def split: if_splits)
    then show ?thesis using assms(2) u False by (simp add: dev_ok_def activated_def opened_def)
  qed
qed

lemma kept_step:
  assumes "same_books x s s'" "activated x s \<longrightarrow> activated x s'" "opened x s \<longrightarrow> opened x s'" "dev_ok x s"
  shows "dev_ok x s' \<and> dv_ref_count (devs s' x) = dv_ref_count (devs s x)"
  using assms by (auto simp: same_books_def dev_ok_def is_device_def)

lemma errno_step: "dev_ok x s \<Longrightarrow> dev_ok x (dev_set_errno e s)"
  by (simp add: dev_ok_def activated_def opened_def)

lemma call_step:
  assumes "dev_call ops x c s = Some (r, s')" "dev_ok x s"
  shows "dev_ok x s' \<and> (\<not> vague (c, r) \<longrightarrow> unat (dv_ref_count (devs s' x)) = users (c, r) (unat (dv_ref_count (devs s x))))"
proof (cases c)
  case (Open fl)
  then show ?thesis using assms open_step by (auto simp: dev_call_def)
next
  case Close
  then show ?thesis using assms close_step by (auto simp: dev_call_def)
next
  case (Read pos buffer sz)
  then obtain v where "rt_device_read ops x pos buffer sz s = Some (v, s')" using assms(1) by (auto simp: dev_call_def)
  then show ?thesis using Read assms(2) kept_step read_law errno_step
    by (fastforce simp: rt_device_read_def split: if_splits option.splits)
next
  case (Write pos buffer sz)
  then obtain v where "rt_device_write ops x pos buffer sz s = Some (v, s')" using assms(1) by (auto simp: dev_call_def)
  then show ?thesis using Write assms(2) kept_step write_law errno_step
    by (fastforce simp: rt_device_write_def split: if_splits option.splits)
next
  case (Control cmd arg)
  then obtain v where "rt_device_control ops x cmd arg s = Some (v, s')" using assms(1) by (auto simp: dev_call_def)
  then show ?thesis using Control assms(2) kept_step control_law
    by (fastforce simp: rt_device_control_def split: if_splits option.splits)
qed

lemma calls_count:
  "dev_calls ops x cs s = Some (rs, s') \<Longrightarrow> dev_ok x s \<Longrightarrow> \<forall>cr\<in>set (zip cs rs). \<not> vague cr \<Longrightarrow>
    dev_ok x s' \<and> unat (dv_ref_count (devs s' x)) = fold users (zip cs rs) (unat (dv_ref_count (devs s x)))"
proof (induction cs arbitrary: s rs)
  case (Cons c cs)
  then obtain r s1 rs1 where c: "dev_call ops x c s = Some (r, s1)" "dev_calls ops x cs s1 = Some (rs1, s')" "rs = r # rs1"
    by (auto simp: bind_eq_Some_conv)
  show ?case using Cons.IH[OF c(2)] call_step[OF c(1) Cons.prems(2)] Cons.prems(3) c(3) by simp
qed simp

end

section \<open>Correctness\<close>

text \<open>
  C31. The count of users: after any calls of applications on a device whose driver keeps the contract, the count is
  the number of successful opens less the closes (unless the answer of an open was vague), a device in use is active and open, and a device without users
  refuses to be read, written or closed, without asking the driver.
\<close>

theorem device_counts_users:
  assumes "device_driver ops x" "dev_ok x s" "dev_calls ops x cs s = Some (rs, s')"
    and "\<forall>cr\<in>set (zip cs rs). \<not> vague cr"
  shows "dev_ok x s' \<and> unat (dv_ref_count (devs s' x)) = fold users (zip cs rs) (unat (dv_ref_count (devs s x))) \<and>
    (fold users (zip cs rs) (unat (dv_ref_count (devs s x))) = 0 \<longrightarrow>
      rt_device_read ops x pos buffer sz s' = Some (Done 0, dev_set_errno (- RT_ERROR) s') \<and>
      rt_device_write ops x pos buffer sz s' = Some (Done 0, dev_set_errno (- RT_ERROR) s') \<and>
      rt_device_close ops x s' = Some (- RT_ERROR, s'))"
proof -
  have c: "dev_ok x s'" "unat (dv_ref_count (devs s' x)) = fold users (zip cs rs) (unat (dv_ref_count (devs s x)))"
    using device_driver.calls_count[OF assms(1,3,2,4)] by simp_all
  then show ?thesis
    by (auto simp: dev_ok_def unat_eq_0 rt_device_read_def rt_device_write_def rt_device_close_def)
qed

lemma find_frame:
  assumes "rt_object_find nm ty k = Some (r, k')"
  shows "objs k' = objs k" "containers k' = containers k"
  using assms critical_frame[of k] by (auto simp: rt_object_find_def Let_def bind_eq_Some_conv split: option.splits if_splits)

text \<open>
  Registration: a fresh device becomes one without users that can be found by its name, and the name is taken.
\<close>

theorem device_register:
  assumes wf: "obj_wf (vk s)" "rt_object_get_type (Mem x) (vk s) = 0" and r: "rt_device_register x nm fl s = Some (RT_EOK, s1)"
  shows "obj_wf (vk s1) \<and> dev_ok x s1 \<and> dv_ref_count (devs s1 x) = 0 \<and>
    (\<forall>v s2. rt_device_find nm s1 = Some (v, s2) \<longrightarrow> v = Some (Mem x)) \<and>
    (\<forall>y g e s2. rt_device_register y nm g s1 = Some (e, s2) \<longrightarrow> e = - RT_ERROR)"
proof -
  obtain k1 k2 where f: "x \<noteq> 0" "rt_object_find nm RT_Object_Class_Device (vk s) = Some (None, k1)"
    "rt_object_init (Mem x) RT_Object_Class_Device nm k1 = Some k2"
    "s1 = upd_dev x (\<lambda>d. d\<lparr>dv_flag := fl, dv_ref_count := 0, dv_open_flag := 0\<rparr>) (s\<lparr>vk := k2\<rparr>)"
    using r by (auto simp: rt_device_register_def rt_device_find_def bind_eq_Some_conv split: if_splits)
  note fr = find_frame[OF f(2)]
  have wf1: "obj_wf k1" "rt_object_get_type (Mem x) k1 = 0"
    using wf obj_wf_cong[OF fr(2,1)] by (simp_all add: rt_object_get_type_def fr)
  have found: "v = Some (Mem x)" if "rt_object_find nm RT_Object_Class_Device k2 = Some (v, k3)" for v k3
    using object_init_find[OF wf1 f(3) that] by simp
  have "rt_object_get_type (Mem x) k2 = RT_Object_Class_Device"
    using object_init_eq(3)[OF f(3)] by (simp add: rt_object_get_type_def)
  then have "is_device x s1" using f(1,4) by (simp add: is_device_def)
  moreover have "obj_wf (vk s1)" using object_init_wf[OF wf1 f(3)] f(4) by simp
  moreover have "v = Some (Mem x)" if "rt_device_find nm s1 = Some (v, s2)" for v s2
    using that f(4) found by (auto simp: rt_device_find_def bind_eq_Some_conv)
  ultimately show ?thesis
    using f(4) by (fastforce simp: dev_ok_def rt_device_register_def bind_eq_Some_conv split: if_splits)
qed

section \<open>Where the code does not do what it means to\<close>

text \<open>
  No device can be destroyed: one that \<^verbatim>\<open>rt_device_create\<close> made is no device object before it is registered,
  and \<^verbatim>\<open>rt_device_register\<close> makes it a static one. Either way an assertion of \<^verbatim>\<open>rt_device_destroy\<close> fails.
\<close>

lemma destroy_created: "rt_device_create b ty s = (b', s1) \<Longrightarrow> rt_device_destroy b' s1 = None"
  by (auto simp: rt_device_create_def rt_device_destroy_def is_device_def rt_object_get_type_def upd_obj_def Let_def split: if_splits)

lemma destroy_registered:
  assumes "rt_device_register x nm fl s = Some (RT_EOK, s1)"
  shows "rt_device_destroy x s1 = None"
proof -
  obtain k1 k2 where "rt_object_init (Mem x) RT_Object_Class_Device nm k1 = Some k2" "vk s1 = k2"
    using assms by (auto simp: rt_device_register_def bind_eq_Some_conv split: if_splits)
  then have "otype (objs (vk s1) (Mem x)) = RT_Object_Class_Device OR 0x80" using object_init_eq(3) by fastforce
  then show ?thesis by (simp add: rt_device_destroy_def rt_object_is_systemobject_def)
qed

text \<open>
  When the driver of a stand-alone device fails to close, the count is 0 but the device stays marked as open: it can be
  neither opened nor closed any more.
\<close>

lemma standalone_stuck:
  assumes "is_device x s" "activated x s" "opened x s" "dv_flag (devs s x) AND RT_DEVICE_FLAG_STANDALONE \<noteq> 0"
    and "dv_ref_count (devs s x) = 1" "op_close (ops x) = Some f"
    and "f x (upd_dev x (\<lambda>d. d\<lparr>dv_ref_count := 0\<rparr>) s) = Some (- RT_ERROR, upd_dev x (\<lambda>d. d\<lparr>dv_ref_count := 0\<rparr>) s)"
  shows "\<exists>s'. rt_device_close ops x s = Some (- RT_ERROR, s') \<and> rt_device_close ops x s' = Some (- RT_ERROR, s') \<and>
    rt_device_open ops x fl s' = Some (- RT_EBUSY, s')"
proof -
  have u: "upd_dev x (\<lambda>d. d\<lparr>dv_ref_count := dv_ref_count d - 1\<rparr>) s = upd_dev x (\<lambda>d. d\<lparr>dv_ref_count := 0\<rparr>) s"
    using assms(5) by (simp add: upd_dev_def)
  show ?thesis
    using assms by (intro exI[of _ "upd_dev x (\<lambda>d. d\<lparr>dv_ref_count := 0\<rparr>) s"])
      (simp add: rt_device_close_def rt_device_open_def dev_activate_def activated_def opened_def u Let_def)
qed

section \<open>A concrete device\<close>

definition no_driver :: "nat \<Rightarrow> ('a, 'k, 'w) rt_device_ops" where
  "no_driver x = \<lparr>op_init = None, op_open = None, op_close = None, op_read = None, op_write = None, op_control = None\<rparr>"

interpretation nodrv: device_driver no_driver x
  by unfold_locales (simp_all add: no_driver_def)

definition vdemo :: "unit vstate" where
  "vdemo = \<lparr>vk = upd_obj (Mem 4) (\<lambda>ob. ob\<lparr>otype := RT_Object_Class_Device\<rparr>) bss, verrno = 0, vmem = (\<lambda>_. 0),
     devs = (\<lambda>_. zero_device), drv = ()\<rparr>"

lemma vdemo_ok: "dev_ok 4 vdemo"
  by (simp add: dev_ok_def is_device_def vdemo_def zero_device_def rt_object_get_type_def upd_obj_def)

theorem device_counts_users_witness:
  "\<exists>rs s'. dev_calls (no_driver :: nat \<Rightarrow> (unit, unit, unit) rt_device_ops) 4 [Open 3, Open 3, Close] vdemo = Some (rs, s') \<and>
     unat (dv_ref_count (devs s' 4)) = 1"
proof -
  let ?ops = "no_driver :: nat \<Rightarrow> (unit, unit, unit) rt_device_ops"
  have d: "is_device 4 vdemo" "dv_flag (devs vdemo 4) = 0" "dv_open_flag (devs vdemo 4) = 0" "dv_ref_count (devs vdemo 4) = 0"
    using vdemo_ok by (simp_all add: dev_ok_def vdemo_def zero_device_def)
  obtain s' where r: "dev_calls ?ops 4 [Open 3, Open 3, Close] vdemo = Some ([Done 0, Done 0, Done 0], s')"
    using d by (simp add: dev_call_def rt_device_open_def rt_device_close_def dev_activate_def dev_enter_def no_driver_def Let_def)
  then show ?thesis using device_counts_users[OF nodrv.device_driver_axioms vdemo_ok r] d by auto
qed

end
