(* ===== verification/Serial.thy ===== *)
theory Serial
  imports Device Completion
begin

text \<open>
  \<^verbatim>\<open>components/drivers/serial/serial.c\<close>, the driver of character devices that \<open>Device\<close> calls, as configured:
  polling and interrupt mode, without DMA and without the POSIX layer. The functions of a UART are a parameter
  \<open>u\<close> over the state \<open>'h\<close> of its hardware; \<open>mallocs\<close> holds the answers of the allocator to come (0 is the null pointer)
  and \<open>freed\<close> the blocks handed back. The buffer of a receive queue lies in the memory.
\<close>

section \<open>Data\<close>

record serial_configure =
  sc_baud_rate :: u32
  sc_data_bits :: "4 word"
  sc_stop_bits :: "2 word"
  sc_parity :: "2 word"
  sc_bit_order :: "1 word"
  sc_invert :: "1 word"
  sc_bufsz :: u16
  sc_flowcontrol :: "1 word"
  sc_reserved :: "5 word"

record rt_serial_rx_fifo =
  rx_buffer :: nat
  rx_put_index :: u16
  rx_get_index :: u16
  rx_is_full :: bool

record rt_serial_device =
  sd_config :: serial_configure
  sd_serial_rx :: nat
  sd_serial_tx :: nat

text \<open>\<open>tx_flags\<close> holds the completions of the transmit structures, by address.\<close>

record 'h sworld =
  serials :: "nat \<Rightarrow> rt_serial_device"
  rx_fifos :: "nat \<Rightarrow> rt_serial_rx_fifo"
  tx_flags :: "nat \<Rightarrow> u32"
  hw :: 'h
  mallocs :: "nat list"
  freed :: "nat list"
  already_output :: bool

type_synonym 'h sstate = "'h sworld vstate"

datatype serial_arg = No_arg | Cfg_arg serial_configure | Num_arg u16

record 'h rt_uart_ops =
  uo_configure :: "(nat \<Rightarrow> serial_configure \<Rightarrow> 'h \<Rightarrow> int \<times> 'h) option"
  uo_control :: "nat \<Rightarrow> int \<Rightarrow> serial_arg \<Rightarrow> 'h \<Rightarrow> int \<times> 'h"
  uo_putc :: "nat \<Rightarrow> u8 \<Rightarrow> 'h \<Rightarrow> int \<times> 'h"
  uo_getc :: "nat \<Rightarrow> 'h \<Rightarrow> int \<times> 'h"

abbreviation (input) RT_EIO :: int where "RT_EIO \<equiv> 8"
abbreviation (input) RT_DEVICE_CTRL_RESUME :: int where "RT_DEVICE_CTRL_RESUME \<equiv> 0x01"
abbreviation (input) RT_DEVICE_CTRL_SUSPEND :: int where "RT_DEVICE_CTRL_SUSPEND \<equiv> 0x02"
abbreviation (input) RT_DEVICE_CTRL_CONFIG :: int where "RT_DEVICE_CTRL_CONFIG \<equiv> 0x03"
abbreviation (input) RT_DEVICE_CTRL_CLOSE :: int where "RT_DEVICE_CTRL_CLOSE \<equiv> 0x04"
abbreviation (input) RT_DEVICE_CTRL_SET_INT :: int where "RT_DEVICE_CTRL_SET_INT \<equiv> 0x10"
abbreviation (input) RT_DEVICE_CTRL_CLR_INT :: int where "RT_DEVICE_CTRL_CLR_INT \<equiv> 0x11"
abbreviation (input) RT_SERIAL_EVENT_RX_IND :: u32 where "RT_SERIAL_EVENT_RX_IND \<equiv> 0x01"
abbreviation (input) RT_SERIAL_EVENT_TX_DONE :: u32 where "RT_SERIAL_EVENT_TX_DONE \<equiv> 0x02"

definition upd_world :: "('h sworld \<Rightarrow> 'h sworld) \<Rightarrow> 'h sstate \<Rightarrow> 'h sstate" where
  "upd_world f s = s\<lparr>drv := f (drv s)\<rparr>"

definition upd_serial :: "nat \<Rightarrow> (rt_serial_device \<Rightarrow> rt_serial_device) \<Rightarrow> 'h sstate \<Rightarrow> 'h sstate" where
  "upd_serial x f = upd_world (\<lambda>w. w\<lparr>serials := (serials w)(x := f (serials w x))\<rparr>)"

definition upd_fifo :: "nat \<Rightarrow> (rt_serial_rx_fifo \<Rightarrow> rt_serial_rx_fifo) \<Rightarrow> 'h sstate \<Rightarrow> 'h sstate" where
  "upd_fifo a f = upd_world (\<lambda>w. w\<lparr>rx_fifos := (rx_fifos w)(a := f (rx_fifos w a))\<rparr>)"

definition serial_bufsz :: "nat \<Rightarrow> 'h sstate \<Rightarrow> u16" where
  "serial_bufsz x s = sc_bufsz (sd_config (serials (drv s) x))"

definition store8 :: "nat \<Rightarrow> u8 \<Rightarrow> 'w vstate \<Rightarrow> 'w vstate" where
  "store8 a c s = s\<lparr>vmem := (vmem s)(a := c)\<rparr>"

text \<open>The functions of the hardware.\<close>

definition uart_putc :: "'h rt_uart_ops \<Rightarrow> nat \<Rightarrow> u8 \<Rightarrow> 'h sstate \<Rightarrow> int \<times> 'h sstate" where
  "uart_putc u x c s = (case uo_putc u x c (hw (drv s)) of (r, h) \<Rightarrow> (r, upd_world (\<lambda>w. w\<lparr>hw := h\<rparr>) s))"

definition uart_getc :: "'h rt_uart_ops \<Rightarrow> nat \<Rightarrow> 'h sstate \<Rightarrow> int \<times> 'h sstate" where
  "uart_getc u x s = (case uo_getc u x (hw (drv s)) of (r, h) \<Rightarrow> (r, upd_world (\<lambda>w. w\<lparr>hw := h\<rparr>) s))"

definition uart_control :: "'h rt_uart_ops \<Rightarrow> nat \<Rightarrow> int \<Rightarrow> serial_arg \<Rightarrow> 'h sstate \<Rightarrow> int \<times> 'h sstate" where
  "uart_control u x cmd arg s = (case uo_control u x cmd arg (hw (drv s)) of (r, h) \<Rightarrow> (r, upd_world (\<lambda>w. w\<lparr>hw := h\<rparr>) s))"

definition uart_configure :: "'h rt_uart_ops \<Rightarrow> nat \<Rightarrow> serial_configure \<Rightarrow> 'h sstate \<Rightarrow> int \<times> 'h sstate" where
  "uart_configure u x cfg s =
    (case uo_configure u of
       None \<Rightarrow> (RT_EOK, s)
     | Some f \<Rightarrow> (case f x cfg (hw (drv s)) of (r, h) \<Rightarrow> (r, upd_world (\<lambda>w. w\<lparr>hw := h\<rparr>) s)))"

text \<open>The allocator.\<close>

definition serial_malloc :: "'h sstate \<Rightarrow> nat \<times> 'h sstate" where
  "serial_malloc s = (case mallocs (drv s) of [] \<Rightarrow> (0, s) | a # as \<Rightarrow> (a, upd_world (\<lambda>w. w\<lparr>mallocs := as\<rparr>) s))"

definition serial_free :: "nat \<Rightarrow> 'h sstate \<Rightarrow> 'h sstate" where
  "serial_free a = upd_world (\<lambda>w. w\<lparr>freed := a # freed w\<rparr>)"

section \<open>Receiving and sending\<close>

definition streaming :: "nat \<Rightarrow> 'w vstate \<Rightarrow> bool" where
  "streaming x s \<longleftrightarrow> dv_open_flag (devs s x) AND RT_DEVICE_FLAG_STREAM \<noteq> 0"

text \<open>The loops answer how much is left.\<close>

fun poll_rx_loop :: "'h rt_uart_ops \<Rightarrow> nat \<Rightarrow> nat \<Rightarrow> nat \<Rightarrow> 'h sstate \<Rightarrow> nat \<times> 'h sstate" where
  "poll_rx_loop u x data 0 s = (0, s)"
| "poll_rx_loop u x data (Suc n) s =
    (case uart_getc u x s of (ch, s) \<Rightarrow>
       if ch = -1 then (Suc n, s)
       else let s = store8 data (of_int ch) s in
         if streaming x s \<and> ch = 10 then (n, s) else poll_rx_loop u x (data + 1) n s)"

definition do_serial_poll_rx :: "'h rt_uart_ops \<Rightarrow> nat \<Rightarrow> nat \<Rightarrow> nat \<Rightarrow> 'h sstate \<Rightarrow> nat \<times> 'h sstate" where
  "do_serial_poll_rx u x data len s = (case poll_rx_loop u x data len s of (left, s) \<Rightarrow> (len - left, s))"

fun poll_tx_loop :: "'h rt_uart_ops \<Rightarrow> nat \<Rightarrow> nat \<Rightarrow> nat \<Rightarrow> 'h sstate \<Rightarrow> 'h sstate" where
  "poll_tx_loop u x data 0 s = s"
| "poll_tx_loop u x data (Suc n) s =
    (let c = vmem s data;
         s = (if c = 10 \<and> streaming x s then snd (uart_putc u x 13 s) else s);
         s = snd (uart_putc u x c s)
     in poll_tx_loop u x (data + 1) n s)"

definition do_serial_poll_tx :: "'h rt_uart_ops \<Rightarrow> nat \<Rightarrow> nat \<Rightarrow> nat \<Rightarrow> 'h sstate \<Rightarrow> nat \<times> 'h sstate" where
  "do_serial_poll_tx u x data len s = (len, poll_tx_loop u x data len s)"

text \<open>One byte out of the queue, and one byte into it, with interrupts disabled.\<close>

definition rx_empty :: "nat \<Rightarrow> 'h sstate \<Rightarrow> bool" where
  "rx_empty a s \<longleftrightarrow> rx_get_index (rx_fifos (drv s) a) = rx_put_index (rx_fifos (drv s) a) \<and> \<not> rx_is_full (rx_fifos (drv s) a)"

definition rx_step :: "u16 \<Rightarrow> u16 \<Rightarrow> u16" where
  "rx_step bufsz i = (if i + 1 \<ge> bufsz then 0 else i + 1)"

definition rx_fetch :: "nat \<Rightarrow> nat \<Rightarrow> 'h sstate \<Rightarrow> u8 \<times> 'h sstate" where
  "rx_fetch x a s =
    (let f = rx_fifos (drv s) a in
     (vmem s (rx_buffer f + unat (rx_get_index f)),
      upd_fifo a (\<lambda>f. f\<lparr>rx_get_index := rx_step (serial_bufsz x s) (rx_get_index f), rx_is_full := False\<rparr>) s))"

definition serial_check_buffer_size :: "'h sstate \<Rightarrow> 'h sstate" where
  "serial_check_buffer_size = upd_world (\<lambda>w. w\<lparr>already_output := True\<rparr>)"

definition rx_store :: "nat \<Rightarrow> nat \<Rightarrow> u8 \<Rightarrow> 'h sstate \<Rightarrow> 'h sstate" where
  "rx_store x a c s =
    (let f = rx_fifos (drv s) a;
         s = store8 (rx_buffer f + unat (rx_put_index f)) c s;
         s = upd_fifo a (\<lambda>f. f\<lparr>rx_put_index := rx_step (serial_bufsz x s) (rx_put_index f)\<rparr>) s
     in if rx_put_index (rx_fifos (drv s) a) = rx_get_index (rx_fifos (drv s) a) then
          serial_check_buffer_size
            (upd_fifo a (\<lambda>f. f\<lparr>rx_is_full := True, rx_get_index := rx_step (serial_bufsz x s) (rx_get_index f)\<rparr>) s)
        else s)"

fun int_rx_loop :: "nat \<Rightarrow> nat \<Rightarrow> nat \<Rightarrow> nat \<Rightarrow> 'h sstate \<Rightarrow> nat \<times> 'h sstate" where
  "int_rx_loop x a data 0 s = (0, s)"
| "int_rx_loop x a data (Suc n) s =
    (if rx_empty a s then (Suc n, s)
     else case rx_fetch x a s of (c, s) \<Rightarrow> int_rx_loop x a (data + 1) n (store8 data c s))"

definition do_serial_int_rx :: "nat \<Rightarrow> nat \<Rightarrow> nat \<Rightarrow> 'h sstate \<Rightarrow> (nat \<times> 'h sstate) option" where
  "do_serial_int_rx x data len s = do {
     let a = sd_serial_rx (serials (drv s) x);
     _ \<leftarrow> kassert (a \<noteq> 0);
     case int_rx_loop x a data len s of (left, s) \<Rightarrow> Some (len - left, s)
   }"

text \<open>The completion of a transmit structure, in the state of \<open>Completion\<close>.\<close>

definition to_cstate :: "'h sstate \<Rightarrow> cstate" where
  "to_cstate s = \<lparr>ck = vk s, cflag = tx_flags (drv s)\<rparr>"

definition from_cstate :: "cstate \<Rightarrow> 'h sstate \<Rightarrow> 'h sstate" where
  "from_cstate c s = s\<lparr>vk := ck c, drv := (drv s)\<lparr>tx_flags := cflag c\<rparr>\<rparr>"

text \<open>Try to send a byte; the first result says whether it was accepted.\<close>

definition int_tx_byte :: "'h rt_uart_ops \<Rightarrow> nat \<Rightarrow> u8 \<Rightarrow> 'h sstate \<Rightarrow> bool \<times> 'h sstate" where
  "int_tx_byte u x c s =
    (case (if c = 10 \<and> streaming x s then uart_putc u x 13 s else (0, s)) of (r, s) \<Rightarrow>
       if r = -1 then (False, s)
       else case uart_putc u x c s of (r, s) \<Rightarrow> (r \<noteq> -1, s))"

text \<open>A transmission under way: the device, the rest of the data, how much is left, and the length of all of it.\<close>

type_synonym tx_job = "nat \<times> nat \<times> nat \<times> nat"

partial_function (option) int_tx_loop ::
  "'h rt_uart_ops \<Rightarrow> tx_job \<Rightarrow> 'h sstate \<Rightarrow> ((nat, tid \<times> tx_job) outcome \<times> 'h sstate) option" where
  "int_tx_loop u job s =
    (case job of (x, data, n, len) \<Rightarrow>
       if n = 0 then Some (Done len, s)
       else case int_tx_byte u x (vmem s data) s of (ok, s) \<Rightarrow>
         if ok then int_tx_loop u (x, data + 1, n - 1, len) s
         else do {
           (out, c) \<leftarrow> rt_completion_wait (sd_serial_tx (serials (drv s) x)) (-1) (to_cstate s);
           case out of
             Blocked t \<Rightarrow> Some (Blocked (t, job), from_cstate c s)
           | Done _ \<Rightarrow> int_tx_loop u job (from_cstate c s)
         })"

definition do_serial_int_tx ::
  "'h rt_uart_ops \<Rightarrow> nat \<Rightarrow> nat \<Rightarrow> nat \<Rightarrow> 'h sstate \<Rightarrow> ((nat, tid \<times> tx_job) outcome \<times> 'h sstate) option" where
  "do_serial_int_tx u x data len s = do {
     _ \<leftarrow> kassert (sd_serial_tx (serials (drv s) x) \<noteq> 0);
     int_tx_loop u (x, data, len, len) s
   }"

definition do_serial_int_tx_resume ::
  "'h rt_uart_ops \<Rightarrow> tid \<times> tx_job \<Rightarrow> 'h sstate \<Rightarrow> ((nat, tid \<times> tx_job) outcome \<times> 'h sstate) option" where
  "do_serial_int_tx_resume u b s =
    (case b of (t, x, rest) \<Rightarrow>
       int_tx_loop u (x, rest) (from_cstate (snd (rt_completion_wait_resume (sd_serial_tx (serials (drv s) x)) t (to_cstate s))) s))"

section \<open>The functions of the driver\<close>

definition rt_serial_init :: "'h rt_uart_ops \<Rightarrow> nat \<Rightarrow> 'h sstate \<Rightarrow> (int \<times> 'h sstate) option" where
  "rt_serial_init u x s = do {
     _ \<leftarrow> kassert (x \<noteq> 0);
     let s = upd_serial x (\<lambda>d. d\<lparr>sd_serial_rx := 0, sd_serial_tx := 0\<rparr>) s;
     Some (uart_configure u x (sd_config (serials (drv s) x)) s)
   }"

text \<open>The set-up of the receiving and of the sending side by \<^verbatim>\<open>rt_serial_open\<close>.\<close>

definition open_rx :: "'h rt_uart_ops \<Rightarrow> nat \<Rightarrow> u16 \<Rightarrow> 'h sstate \<Rightarrow> 'h sstate option" where
  "open_rx u x fl s =
    (if sd_serial_rx (serials (drv s) x) = 0 then
       if fl AND RT_DEVICE_FLAG_INT_RX \<noteq> 0 then do {
         let (a, s) = serial_malloc s;
         _ \<leftarrow> kassert (a \<noteq> 0);
         let buffer = a + 12;
         let s = s\<lparr>vmem := rt_memset buffer 0 (unat (serial_bufsz x s)) (vmem s)\<rparr>;
         let s = upd_fifo a (\<lambda>_. \<lparr>rx_buffer = buffer, rx_put_index = 0, rx_get_index = 0, rx_is_full = False\<rparr>) s;
         let s = upd_serial x (\<lambda>d. d\<lparr>sd_serial_rx := a\<rparr>) s;
         let s = upd_dev x (\<lambda>d. d\<lparr>dv_open_flag := dv_open_flag d OR RT_DEVICE_FLAG_INT_RX\<rparr>) s;
         Some (snd (uart_control u x RT_DEVICE_CTRL_SET_INT (Num_arg RT_DEVICE_FLAG_INT_RX) s))
       } else Some (upd_serial x (\<lambda>d. d\<lparr>sd_serial_rx := 0\<rparr>) s)
     else if fl AND RT_DEVICE_FLAG_INT_RX \<noteq> 0
     then Some (upd_dev x (\<lambda>d. d\<lparr>dv_open_flag := dv_open_flag d OR RT_DEVICE_FLAG_INT_RX\<rparr>) s)
     else Some s)"

definition open_tx :: "'h rt_uart_ops \<Rightarrow> nat \<Rightarrow> u16 \<Rightarrow> 'h sstate \<Rightarrow> 'h sstate option" where
  "open_tx u x fl s =
    (if sd_serial_tx (serials (drv s) x) = 0 then
       if fl AND RT_DEVICE_FLAG_INT_TX \<noteq> 0 then do {
         let (a, s) = serial_malloc s;
         _ \<leftarrow> kassert (a \<noteq> 0);
         let s = from_cstate (rt_completion_init a (to_cstate s)) s;
         let s = upd_serial x (\<lambda>d. d\<lparr>sd_serial_tx := a\<rparr>) s;
         let s = upd_dev x (\<lambda>d. d\<lparr>dv_open_flag := dv_open_flag d OR RT_DEVICE_FLAG_INT_TX\<rparr>) s;
         Some (snd (uart_control u x RT_DEVICE_CTRL_SET_INT (Num_arg RT_DEVICE_FLAG_INT_TX) s))
       } else Some (upd_serial x (\<lambda>d. d\<lparr>sd_serial_tx := 0\<rparr>) s)
     else if fl AND RT_DEVICE_FLAG_INT_TX \<noteq> 0
     then Some (upd_dev x (\<lambda>d. d\<lparr>dv_open_flag := dv_open_flag d OR RT_DEVICE_FLAG_INT_TX\<rparr>) s)
     else Some s)"

definition rt_serial_open :: "'h rt_uart_ops \<Rightarrow> nat \<Rightarrow> u16 \<Rightarrow> 'h sstate \<Rightarrow> (int \<times> 'h sstate) option" where
  "rt_serial_open u x fl s = do {
     _ \<leftarrow> kassert (x \<noteq> 0);
     let flags = dv_flag (devs s x);
     if fl AND RT_DEVICE_FLAG_DMA_RX \<noteq> 0 \<and> flags AND RT_DEVICE_FLAG_DMA_RX = 0 \<or>
        fl AND RT_DEVICE_FLAG_DMA_TX \<noteq> 0 \<and> flags AND RT_DEVICE_FLAG_DMA_TX = 0 \<or>
        fl AND RT_DEVICE_FLAG_INT_RX \<noteq> 0 \<and> flags AND RT_DEVICE_FLAG_INT_RX = 0 \<or>
        fl AND RT_DEVICE_FLAG_INT_TX \<noteq> 0 \<and> flags AND RT_DEVICE_FLAG_INT_TX = 0
     then Some (- RT_EIO, s)
     else do {
       let stream_flag = (if fl AND RT_DEVICE_FLAG_STREAM \<noteq> 0 \<or> streaming x s then RT_DEVICE_FLAG_STREAM else 0);
       let s = upd_dev x (\<lambda>d. d\<lparr>dv_open_flag := fl AND 0xff\<rparr>) s;
       s \<leftarrow> open_rx u x fl s;
       s \<leftarrow> open_tx u x fl s;
       Some (RT_EOK, upd_dev x (\<lambda>d. d\<lparr>dv_open_flag := dv_open_flag d OR stream_flag\<rparr>) s)
     }
   }"

definition close_rx :: "'h rt_uart_ops \<Rightarrow> nat \<Rightarrow> 'h sstate \<Rightarrow> 'h sstate option" where
  "close_rx u x s =
    (if dv_open_flag (devs s x) AND RT_DEVICE_FLAG_INT_RX \<noteq> 0 then do {
       let s = snd (uart_control u x RT_DEVICE_CTRL_CLR_INT (Num_arg RT_DEVICE_FLAG_INT_RX) s);
       let s = upd_dev x (\<lambda>d. d\<lparr>dv_open_flag := dv_open_flag d AND NOT RT_DEVICE_FLAG_INT_RX\<rparr>) s;
       let a = sd_serial_rx (serials (drv s) x);
       _ \<leftarrow> kassert (a \<noteq> 0);
       Some (upd_serial x (\<lambda>d. d\<lparr>sd_serial_rx := 0\<rparr>) (serial_free a s))
     } else Some s)"

definition close_tx :: "'h rt_uart_ops \<Rightarrow> nat \<Rightarrow> 'h sstate \<Rightarrow> 'h sstate option" where
  "close_tx u x s =
    (if dv_open_flag (devs s x) AND RT_DEVICE_FLAG_INT_TX \<noteq> 0 then do {
       let s = snd (uart_control u x RT_DEVICE_CTRL_CLR_INT (Num_arg RT_DEVICE_FLAG_INT_TX) s);
       let s = upd_dev x (\<lambda>d. d\<lparr>dv_open_flag := dv_open_flag d AND NOT RT_DEVICE_FLAG_INT_TX\<rparr>) s;
       let a = sd_serial_tx (serials (drv s) x);
       _ \<leftarrow> kassert (a \<noteq> 0);
       Some (upd_serial x (\<lambda>d. d\<lparr>sd_serial_tx := 0\<rparr>) (serial_free a s))
     } else Some s)"

definition rt_serial_close :: "'h rt_uart_ops \<Rightarrow> nat \<Rightarrow> 'h sstate \<Rightarrow> (int \<times> 'h sstate) option" where
  "rt_serial_close u x s = do {
     _ \<leftarrow> kassert (x \<noteq> 0);
     if dv_ref_count (devs s x) > 1 then Some (RT_EOK, s)
     else do {
       s \<leftarrow> close_rx u x s;
       s \<leftarrow> close_tx u x s;
       let s = snd (uart_control u x RT_DEVICE_CTRL_CLOSE No_arg s);
       Some (RT_EOK, upd_dev x (\<lambda>d. d\<lparr>dv_flag := dv_flag d AND NOT RT_DEVICE_FLAG_ACTIVATED\<rparr>) s)
     }
   }"

definition rt_serial_read ::
  "'h rt_uart_ops \<Rightarrow> nat \<Rightarrow> int \<Rightarrow> nat \<Rightarrow> u32 \<Rightarrow> 'h sstate \<Rightarrow> ((u32, tid \<times> tx_job) outcome \<times> 'h sstate) option" where
  "rt_serial_read u x pos buffer sz s = do {
     _ \<leftarrow> kassert (x \<noteq> 0);
     if sz = 0 then Some (Done 0, s)
     else if dv_open_flag (devs s x) AND RT_DEVICE_FLAG_INT_RX \<noteq> 0 then do {
       (n, s) \<leftarrow> do_serial_int_rx x buffer (unat sz) s;
       Some (Done (of_nat n), s)
     } else case do_serial_poll_rx u x buffer (unat sz) s of (n, s) \<Rightarrow> Some (Done (of_nat n), s)
   }"

definition rt_serial_write ::
  "'h rt_uart_ops \<Rightarrow> nat \<Rightarrow> int \<Rightarrow> nat \<Rightarrow> u32 \<Rightarrow> 'h sstate \<Rightarrow> ((u32, tid \<times> tx_job) outcome \<times> 'h sstate) option" where
  "rt_serial_write u x pos buffer sz s = do {
     _ \<leftarrow> kassert (x \<noteq> 0);
     if sz = 0 then Some (Done 0, s)
     else if dv_open_flag (devs s x) AND RT_DEVICE_FLAG_INT_TX \<noteq> 0 then do {
       (out, s) \<leftarrow> do_serial_int_tx u x buffer (unat sz) s;
       Some (map_outcome of_nat id out, s)
     } else case do_serial_poll_tx u x buffer (unat sz) s of (n, s) \<Rightarrow> Some (Done (of_nat n), s)
   }"

definition rt_serial_control :: "'h rt_uart_ops \<Rightarrow> nat \<Rightarrow> int \<Rightarrow> serial_arg \<Rightarrow> 'h sstate \<Rightarrow> (int \<times> 'h sstate) option" where
  "rt_serial_control u x cmd arg s = do {
     _ \<leftarrow> kassert (x \<noteq> 0);
     if cmd = RT_DEVICE_CTRL_SUSPEND then
       Some (RT_EOK, upd_dev x (\<lambda>d. d\<lparr>dv_flag := dv_flag d OR RT_DEVICE_FLAG_SUSPENDED\<rparr>) s)
     else if cmd = RT_DEVICE_CTRL_RESUME then
       Some (RT_EOK, upd_dev x (\<lambda>d. d\<lparr>dv_flag := dv_flag d AND NOT RT_DEVICE_FLAG_SUSPENDED\<rparr>) s)
     else if cmd = RT_DEVICE_CTRL_CONFIG then
       (case arg of
          Cfg_arg cfg \<Rightarrow>
            if sc_bufsz cfg \<noteq> serial_bufsz x s \<and> dv_ref_count (devs s x) \<noteq> 0 then Some (RT_EBUSY, s)
            else do {
              let s = upd_serial x (\<lambda>d. d\<lparr>sd_config := cfg\<rparr>) s;
              if dv_ref_count (devs s x) \<noteq> 0 then do {
                _ \<leftarrow> kassert (uo_configure u \<noteq> None);
                Some (RT_EOK, snd (uart_configure u x cfg s))
              } else Some (RT_EOK, s)
            }
        | No_arg \<Rightarrow> Some (RT_EOK, s)
        | Num_arg _ \<Rightarrow> None)
     else Some (uart_control u x cmd arg s)
   }"

definition serial_ops :: "'h rt_uart_ops \<Rightarrow> (serial_arg, tid \<times> tx_job, 'h sworld) rt_device_ops" where
  "serial_ops u = \<lparr>op_init = Some (rt_serial_init u), op_open = Some (rt_serial_open u), op_close = Some (rt_serial_close u),
     op_read = Some (rt_serial_read u), op_write = Some (rt_serial_write u), op_control = Some (rt_serial_control u)\<rparr>"

definition rt_hw_serial_register :: "nat \<Rightarrow> u8 list \<Rightarrow> u32 \<Rightarrow> nat \<Rightarrow> 'h sstate \<Rightarrow> (int \<times> 'h sstate) option" where
  "rt_hw_serial_register x nm flag data s = do {
     _ \<leftarrow> kassert (x \<noteq> 0);
     rt_device_register x nm (ucast flag)
       (upd_dev x (\<lambda>d. d\<lparr>dv_type := RT_Device_Class_Char, dv_rx_indicate := None, dv_tx_complete := None, dv_user_data := data\<rparr>) s)
   }"

section \<open>The interrupt\<close>

partial_function (option) isr_rx_loop :: "'h rt_uart_ops \<Rightarrow> nat \<Rightarrow> nat \<Rightarrow> 'h sstate \<Rightarrow> 'h sstate option" where
  "isr_rx_loop u x a s =
    (case uart_getc u x s of (ch, s) \<Rightarrow> if ch = -1 then Some s else isr_rx_loop u x a (rx_store x a (of_int ch) s))"

text \<open>The number of bytes in a queue that is given to the callback.\<close>

definition rx_length :: "u16 \<Rightarrow> rt_serial_rx_fifo \<Rightarrow> u32" where
  "rx_length bufsz f =
    (let put = ucast (rx_put_index f); get = ucast (rx_get_index f) in
     if put \<ge> get then put - get else ucast bufsz - (get - put))"

text \<open>\<open>cb\<close> runs the callbacks of the application. The transmit side uses its structure unchecked.\<close>

definition rt_hw_serial_isr ::
  "'h rt_uart_ops \<Rightarrow> (nat \<Rightarrow> nat \<Rightarrow> u32 \<Rightarrow> 'h sstate \<Rightarrow> 'h sstate option) \<Rightarrow> nat \<Rightarrow> u32 \<Rightarrow> 'h sstate \<Rightarrow> 'h sstate option" where
  "rt_hw_serial_isr u cb x event s =
    (if event AND 0xff = RT_SERIAL_EVENT_RX_IND then do {
       let a = sd_serial_rx (serials (drv s) x);
       _ \<leftarrow> kassert (a \<noteq> 0);
       s \<leftarrow> isr_rx_loop u x a s;
       case dv_rx_indicate (devs s x) of
         None \<Rightarrow> Some s
       | Some f \<Rightarrow>
           let len = rx_length (serial_bufsz x s) (rx_fifos (drv s) a) in if len \<noteq> 0 then cb f x len s else Some s
     }
     else if event AND 0xff = RT_SERIAL_EVENT_TX_DONE then do {
       let a = sd_serial_tx (serials (drv s) x);
       _ \<leftarrow> kassert (a \<noteq> 0);
       c \<leftarrow> rt_completion_done a (to_cstate s);
       Some (from_cstate c s)
     }
     else Some s)"

section \<open>What the operations leave alone\<close>

named_theorems sframe

lemma upd_world_simps [simp]: "vk (upd_world f s) = vk s" "devs (upd_world f s) = devs s" "vmem (upd_world f s) = vmem s"
    "drv (upd_world f s) = f (drv s)"
  by (simp_all add: upd_world_def)

lemma upd_serial_simps [simp]: "vk (upd_serial x f s) = vk s" "devs (upd_serial x f s) = devs s" "vmem (upd_serial x f s) = vmem s"
    "drv (upd_serial x f s) = (drv s)\<lparr>serials := (serials (drv s))(x := f (serials (drv s) x))\<rparr>"
  by (simp_all add: upd_serial_def)

lemma upd_fifo_simps [simp]: "vk (upd_fifo a g s) = vk s" "devs (upd_fifo a g s) = devs s" "vmem (upd_fifo a g s) = vmem s"
    "drv (upd_fifo a g s) = (drv s)\<lparr>rx_fifos := (rx_fifos (drv s))(a := g (rx_fifos (drv s) a))\<rparr>"
  by (simp_all add: upd_fifo_def)

lemma store8_simps [simp]: "vk (store8 a c s) = vk s" "devs (store8 a c s) = devs s" "vmem (store8 a c s) = (vmem s)(a := c)"
    "drv (store8 a c s) = drv s"
  by (simp_all add: store8_def)

lemma check_buffer_simps [simp]: "vk (serial_check_buffer_size s) = vk s" "devs (serial_check_buffer_size s) = devs s"
    "vmem (serial_check_buffer_size s) = vmem s" "drv (serial_check_buffer_size s) = (drv s)\<lparr>already_output := True\<rparr>"
  by (simp_all add: serial_check_buffer_size_def)

lemma serial_free_simps [simp]: "vk (serial_free a s) = vk s" "devs (serial_free a s) = devs s" "vmem (serial_free a s) = vmem s"
    "drv (serial_free a s) = (drv s)\<lparr>freed := a # freed (drv s)\<rparr>"
  by (simp_all add: serial_free_def)

text \<open>The hardware functions change the state of the hardware only.\<close>

lemma uart_frame:
  "uart_putc u x c s = (r, s') \<Longrightarrow> \<exists>h. s' = upd_world (\<lambda>w. w\<lparr>hw := h\<rparr>) s"
  "uart_getc u x s = (r, s') \<Longrightarrow> \<exists>h. s' = upd_world (\<lambda>w. w\<lparr>hw := h\<rparr>) s"
  "uart_control u x cmd arg s = (r, s') \<Longrightarrow> \<exists>h. s' = upd_world (\<lambda>w. w\<lparr>hw := h\<rparr>) s"
  by (auto simp: uart_putc_def uart_getc_def uart_control_def split: prod.splits)

lemma uart_kept [simp]:
  "vk (snd (uart_putc u x c s)) = vk s" "devs (snd (uart_putc u x c s)) = devs s" "vmem (snd (uart_putc u x c s)) = vmem s"
  "vk (snd (uart_control u x cmd arg s)) = vk s" "devs (snd (uart_control u x cmd arg s)) = devs s"
  "vmem (snd (uart_control u x cmd arg s)) = vmem s"
  "vk (snd (uart_configure u x cfg s)) = vk s" "devs (snd (uart_configure u x cfg s)) = devs s"
  "serials (drv (snd (uart_control u x cmd arg s))) = serials (drv s)"
  "rx_fifos (drv (snd (uart_control u x cmd arg s))) = rx_fifos (drv s)"
  "mallocs (drv (snd (uart_control u x cmd arg s))) = mallocs (drv s)"
  "freed (drv (snd (uart_control u x cmd arg s))) = freed (drv s)"
  "tx_flags (drv (snd (uart_control u x cmd arg s))) = tx_flags (drv s)"
  by (simp_all add: uart_putc_def uart_control_def uart_configure_def split: prod.splits option.splits)

text \<open>\<open>same_devs\<close>: the devices and the classes of the objects are as before.\<close>

definition same_devs :: "'w vstate \<Rightarrow> 'w vstate \<Rightarrow> bool" where
  "same_devs s s' \<longleftrightarrow> devs s' = devs s \<and> (\<forall>a. rt_object_get_type a (vk s') = rt_object_get_type a (vk s))"

lemma same_devs_trans: "same_devs s s1 \<Longrightarrow> same_devs s1 s2 \<Longrightarrow> same_devs s s2"
  by (simp add: same_devs_def)

lemma same_devs_books: "same_devs s s' \<Longrightarrow> same_books x s s' \<and> activated x s' = activated x s \<and> opened x s' = opened x s"
  by (simp add: same_devs_def same_books_def activated_def opened_def)

lemma poll_rx_devs: "poll_rx_loop u x data n s = (k, s') \<Longrightarrow> devs s' = devs s \<and> vk s' = vk s"
proof (induction u x data n s rule: poll_rx_loop.induct)
  case (2 u x data n s)
  obtain ch s1 where g: "uart_getc u x s = (ch, s1)" by force
  then obtain h where s1: "s1 = upd_world (\<lambda>w. w\<lparr>hw := h\<rparr>) s" using uart_frame(2) by blast
  show ?case
  proof (cases "ch = -1 \<or> streaming x (store8 data (of_int ch) s1) \<and> ch = 10")
    case True
    then show ?thesis using 2(2) g s1 by (auto simp: Let_def split: if_splits)
  next
    case False
    then have "poll_rx_loop u x (data + 1) n (store8 data (of_int ch) s1) = (k, s')"
      using 2(2) g by (auto simp: Let_def split: if_splits)
    then show ?thesis using 2(1)[OF g[symmetric] _ refl] False s1 by simp
  qed
qed simp

lemma poll_tx_devs: "devs (poll_tx_loop u x data n s) = devs s \<and> vk (poll_tx_loop u x data n s) = vk s"
  by (induction u x data n s rule: poll_tx_loop.induct) (simp_all add: Let_def)

lemma int_rx_devs: "int_rx_loop x a data n s = (k, s') \<Longrightarrow> devs s' = devs s \<and> vk s' = vk s"
proof (induction x a data n s rule: int_rx_loop.induct)
  case (2 x a data n s)
  then show ?case by (cases "rx_empty a s") (auto simp: rx_fetch_def Let_def split: prod.splits)
qed simp

lemma completion_wait_type:
  assumes "rt_completion_wait y (-1) c = Some (out, c')"
  shows "rt_object_get_type a (ck c') = rt_object_get_type a (ck c)"
proof (cases "cflag c y = RT_COMPLETED")
  case True
  then show ?thesis using assms by (auto simp: rt_completion_wait_def split: if_splits)
next
  case False
  then obtain t k1 k2 where k: "dev_wait (Susp y) t (-1) (ck c) = Some k1" "rt_schedule k1 = Some k2" "c' = c\<lparr>ck := k2\<rparr>"
    using assms by (auto simp: rt_completion_wait_def bind_eq_Some_conv split: if_splits)
  let ?k = "upd_thread t (\<lambda>th. th\<lparr>th_error := RT_EOK\<rparr>) (ck c)"
  obtain r k0 where k0: "rt_thread_suspend t ?k = Some (r, k0)" "k1 = k0\<lparr>klists := ll_insert_before (Susp y) t (klists k0)\<rparr>"
    using k(1) by (auto simp: dev_wait_def bind_eq_Some_conv)
  have "rt_object_get_type a k2 = rt_object_get_type a k1" by (rule no_kern_fields(12)[OF no_kern_schedule[OF k(2)]])
  also have "\<dots> = rt_object_get_type a k0" by (simp add: k0(2) rt_object_get_type_def)
  also have "\<dots> = rt_object_get_type a ?k" by (rule no_kern_fields(12)[OF no_kern_suspend[OF k0(1)]])
  also have "\<dots> = rt_object_get_type a (ck c)" by (simp add: rt_object_get_type_def upd_thread_def)
  finally show ?thesis by (simp add: k(3))
qed

lemma int_tx_byte_devs: "int_tx_byte u x c s = (ok, s') \<Longrightarrow> devs s' = devs s \<and> vk s' = vk s"
  by (auto simp: int_tx_byte_def uart_putc_def split: if_splits prod.splits)

lemma int_tx_devs:
  assumes r: "int_tx_loop u job s = Some r"
  shows "same_devs s (snd r)"
proof (rule int_tx_loop.raw_induct[where P = "\<lambda>u job s r. same_devs s (snd r)", OF _ r], goal_cases)
  case hyp: (1 loop u job s r)
  obtain x data n len where job: "job = (x, data, n, len)" by (cases job)
  obtain ok s1 where b: "int_tx_byte u x (vmem s data) s = (ok, s1)" by force
  then have s1: "same_devs s s1" using int_tx_byte_devs by (fastforce simp: same_devs_def)
  consider "n = 0" | "n \<noteq> 0" ok | "n \<noteq> 0" "\<not> ok" by blast
  then show ?case
  proof cases
    case 1
    then show ?thesis using hyp(2) job by (auto simp: same_devs_def)
  next
    case 2
    then have "loop u (x, data + 1, n - 1, len) s1 = Some r" using hyp(2) job b by simp
    then show ?thesis using hyp(1) s1 same_devs_trans by blast
  next
    case 3
    then obtain out c where w: "rt_completion_wait (sd_serial_tx (serials (drv s1) x)) (-1) (to_cstate s1) = Some (out, c)"
      using hyp(2) job b by (auto simp: bind_eq_Some_conv)
    then have "same_devs s1 (from_cstate c s1)"
      using completion_wait_type by (fastforce simp: same_devs_def from_cstate_def to_cstate_def)
    then have s2: "same_devs s (from_cstate c s1)" by (rule same_devs_trans[OF s1])
    show ?thesis
    proof (cases out)
      case (Done v)
      then have "loop u job (from_cstate c s1) = Some r" using hyp(2) job b w 3 by simp
      then show ?thesis using hyp(1) s2 same_devs_trans by blast
    next
      case (Blocked t)
      then show ?thesis using hyp(2) job b w 3 s2 by auto
    qed
  qed
qed

section \<open>The driver keeps the contract\<close>

lemma rx_open_frame:
  assumes "open_rx u x fl s = Some s'"
  shows "vk s' = vk s" "dv_ref_count (devs s' x) = dv_ref_count (devs s x)" "dv_flag (devs s' x) = dv_flag (devs s x)"
  using assms by (auto simp: open_rx_def serial_malloc_def Let_def bind_eq_Some_conv split: if_splits list.splits)

lemma tx_open_frame:
  assumes "open_tx u x fl s = Some s'"
  shows "rt_object_get_type a (vk s') = rt_object_get_type a (vk s)" "dv_ref_count (devs s' x) = dv_ref_count (devs s x)"
    "dv_flag (devs s' x) = dv_flag (devs s x)"
  using assms by (auto simp: open_tx_def serial_malloc_def from_cstate_def to_cstate_def rt_completion_init_def rt_object_get_type_def
      Let_def bind_eq_Some_conv split: if_splits list.splits)

lemma close_frame:
  "close_rx u x s = Some s' \<Longrightarrow> same_books x s s'"
  "close_tx u x s = Some s' \<Longrightarrow> same_books x s s'"
  by (auto simp: close_rx_def close_tx_def same_books_def Let_def split: if_splits)

lemma uart_same:
  "uart_configure u x cfg s = (r, s') \<Longrightarrow> devs s' = devs s \<and> vk s' = vk s"
  "uart_control u x cmd arg s = (r, s') \<Longrightarrow> devs s' = devs s \<and> vk s' = vk s"
  by (auto simp: uart_configure_def uart_control_def split: prod.splits option.splits)

lemma serial_init_frame:
  assumes "rt_serial_init u x s = Some (r, s')"
  shows "same_books x s s' \<and> opened x s' = opened x s"
  using assms by (auto simp: rt_serial_init_def same_books_def opened_def Let_def dest!: uart_same(1) split: if_splits)

lemma serial_open_frame:
  assumes "rt_serial_open u x fl s = Some (r, s')"
  shows "same_books x s s' \<and> activated x s' = activated x s \<and> (r \<noteq> RT_EOK \<longrightarrow> opened x s' = opened x s)"
proof (cases "r = RT_EOK")
  case False
  then have "s' = s" using assms by (auto simp: rt_serial_open_def Let_def bind_eq_Some_conv split: if_splits)
  then show ?thesis by simp
next
  case True
  let ?s = "upd_dev x (\<lambda>d. d\<lparr>dv_open_flag := fl AND 0xff\<rparr>) s"
  obtain s1 s2 where o: "open_rx u x fl ?s = Some s1" "open_tx u x fl s1 = Some s2"
    "vk s' = vk s2" "dv_ref_count (devs s' x) = dv_ref_count (devs s2 x)" "dv_flag (devs s' x) = dv_flag (devs s2 x)"
    using assms True by (auto simp: rt_serial_open_def Let_def bind_eq_Some_conv split: if_splits)
  show ?thesis using rx_open_frame[OF o(1)] tx_open_frame[OF o(2)] o(3-5) True by (simp add: same_books_def activated_def)
qed

lemma serial_close_frame:
  assumes "rt_serial_close u x s = Some (r, s')"
  shows "same_books x s s'"
proof (cases "dv_ref_count (devs s x) > 1")
  case True
  then show ?thesis using assms by (simp add: rt_serial_close_def split: if_splits)
next
  case False
  then obtain s1 s2 where c: "close_rx u x s = Some s1" "close_tx u x s1 = Some s2"
    "vk s' = vk s2" "dv_ref_count (devs s' x) = dv_ref_count (devs s2 x)"
    using assms by (auto simp: rt_serial_close_def Let_def bind_eq_Some_conv split: if_splits)
  show ?thesis using close_frame(1)[OF c(1)] close_frame(2)[OF c(2)] c(3,4) by (simp add: same_books_def)
qed

lemma serial_read_frame:
  assumes "rt_serial_read u x pos buffer sz s = Some (v, s')"
  shows "same_devs s s'"
proof -
  obtain k where "s' = s \<or> int_rx_loop x (sd_serial_rx (serials (drv s) x)) buffer (unat sz) s = (k, s') \<or>
      poll_rx_loop u x buffer (unat sz) s = (k, s')"
    using assms by (auto simp: rt_serial_read_def do_serial_int_rx_def do_serial_poll_rx_def Let_def bind_eq_Some_conv
      split: if_splits prod.splits)
  then show ?thesis using int_rx_devs[of x _ buffer "unat sz" s k s'] poll_rx_devs[of u x buffer "unat sz" s k s']
    by (auto simp: same_devs_def)
qed

lemma serial_write_frame:
  assumes "rt_serial_write u x pos buffer sz s = Some (v, s')"
  shows "same_devs s s'"
proof (cases "sz = 0 \<or> dv_open_flag (devs s x) AND RT_DEVICE_FLAG_INT_TX = 0")
  case True
  then have "s' = s \<or> s' = poll_tx_loop u x buffer (unat sz) s"
    using assms by (auto simp: rt_serial_write_def do_serial_poll_tx_def split: if_splits)
  then show ?thesis using poll_tx_devs[of u x buffer "unat sz" s] by (auto simp: same_devs_def)
next
  case False
  then obtain out where "int_tx_loop u (x, buffer, unat sz, unat sz) s = Some (out, s')"
    using assms by (auto simp: rt_serial_write_def do_serial_int_tx_def bind_eq_Some_conv split: if_splits)
  then show ?thesis using int_tx_devs by fastforce
qed

lemma flag_kept: "(w :: u16) AND 0x10 \<noteq> 0 \<Longrightarrow> (w OR 0x20) AND 0x10 \<noteq> 0 \<and> (w AND NOT 0x20) AND 0x10 \<noteq> 0"
proof -
  assume a: "w AND 0x10 \<noteq> 0"
  have "(w OR 0x20) AND 0x10 = w AND 0x10" by (simp add: bit.conj_disj_distrib2)
  moreover have "(w AND NOT 0x20) AND 0x10 = w AND (NOT 0x20 AND 0x10)" by (simp add: ac_simps)
  moreover have "NOT 0x20 AND 0x10 = (0x10 :: u16)" by simp
  ultimately show ?thesis using a by (simp only: simp_thms)
qed

lemma serial_control_frame:
  assumes "rt_serial_control u x cmd arg s = Some (r, s')"
  shows "same_books x s s' \<and> (activated x s \<longrightarrow> activated x s') \<and> (opened x s \<longrightarrow> opened x s')"
  using assms flag_kept[of "dv_flag (devs s x)", simplified]
  by (auto simp: rt_serial_control_def same_books_def activated_def opened_def Let_def dest!: uart_same split: if_splits serial_arg.splits)

interpretation ser: device_driver "\<lambda>_. serial_ops u" x
proof (unfold_locales, goal_cases)
  case 1
  then show ?case using serial_init_frame by (fastforce simp: serial_ops_def)
next
  case 2
  then show ?case using serial_open_frame by (fastforce simp: serial_ops_def)
next
  case 3
  then show ?case using serial_close_frame by (fastforce simp: serial_ops_def)
next
  case 4
  then show ?case using serial_read_frame same_devs_books by (fastforce simp: serial_ops_def)
next
  case 5
  then show ?case using serial_write_frame same_devs_books by (fastforce simp: serial_ops_def)
next
  case 6
  then show ?case using serial_control_frame by (fastforce simp: serial_ops_def)
qed

text \<open>So the users of a serial device are counted right.\<close>

lemma serial_counts_users:
  assumes "dev_ok x s" "dev_calls (\<lambda>_. serial_ops u) x cs s = Some (rs, s')" "\<forall>cr\<in>set (zip cs rs). \<not> vague cr"
  shows "dev_ok x s' \<and> unat (dv_ref_count (devs s' x)) = fold users (zip cs rs) (unat (dv_ref_count (devs s x)))"
  by (rule ser.calls_count[OF assms(2,1,3)])

section \<open>The receive queue\<close>

text \<open>
  \<open>rx_rep x s q\<close>: the queue of device \<open>x\<close> holds \<open>q\<close>, oldest byte first, in its buffer from the index of the next byte on.
\<close>

definition rx_fifo_of :: "nat \<Rightarrow> 'h sstate \<Rightarrow> rt_serial_rx_fifo" where
  "rx_fifo_of x s = rx_fifos (drv s) (sd_serial_rx (serials (drv s) x))"

definition rx_rep :: "nat \<Rightarrow> 'h sstate \<Rightarrow> u8 list \<Rightarrow> bool" where
  "rx_rep x s q \<longleftrightarrow>
    (let f = rx_fifo_of x s; n = unat (serial_bufsz x s); g = unat (rx_get_index f) in
     sd_serial_rx (serials (drv s) x) \<noteq> 0 \<and> 2 \<le> n \<and> g < n \<and> length q < n \<and> unat (rx_put_index f) = (g + length q) mod n \<and>
     (\<forall>i<length q. vmem s (rx_buffer f + (g + i) mod n) = q ! i) \<and> (rx_is_full f \<longrightarrow> q \<noteq> []))"

lemma rx_repI:
  assumes "sd_serial_rx (serials (drv s) x) \<noteq> 0" "rx_fifo_of x s = f" "unat (serial_bufsz x s) = n" "2 \<le> n"
    and "unat (rx_get_index f) = g" "g < n" "length q < n" "unat (rx_put_index f) = (g + length q) mod n"
    and "\<And>i. i < length q \<Longrightarrow> vmem s (rx_buffer f + (g + i) mod n) = q ! i" "rx_is_full f \<Longrightarrow> q \<noteq> []"
  shows "rx_rep x s q"
  using assms by (simp add: rx_rep_def)

lemma rx_repE:
  assumes "rx_rep x s q"
  obtains f n g where "sd_serial_rx (serials (drv s) x) \<noteq> 0" "rx_fifo_of x s = f" "unat (serial_bufsz x s) = n" "2 \<le> n"
    and "unat (rx_get_index f) = g" "g < n" "length q < n" "unat (rx_put_index f) = (g + length q) mod n"
    and "\<And>i. i < length q \<Longrightarrow> vmem s (rx_buffer f + (g + i) mod n) = q ! i" "rx_is_full f \<Longrightarrow> q \<noteq> []"
  using assms by (simp add: rx_rep_def Let_def)

definition newest :: "nat \<Rightarrow> 'a list \<Rightarrow> 'a list" where
  "newest k xs = drop (length xs - k) xs"

lemma newest_append: "newest k (newest k xs @ ys) = newest k (xs @ ys)"
proof (cases "length xs \<le> k")
  case False
  then have "length xs + length ys - (length xs - k + k) + (length xs - k) = length xs + length ys - k" by simp
  then show ?thesis using False by (simp add: newest_def)
qed (simp add: newest_def)

lemma newest_length [simp]: "length (newest k xs) = min k (length xs)"
  by (simp add: newest_def)

lemma wrapped: "g < n \<Longrightarrow> i \<le> n \<Longrightarrow> (g + i) mod n = (if g + i < n then g + i else g + i - (n :: nat))"
  by (simp add: mod_if)

lemma rx_step_unat:
  assumes "unat i < unat n"
  shows "unat (rx_step n i) = (unat i + 1) mod unat n"
proof -
  have "unat i + 1 < 2 ^ 16" using assms unsigned_less[of n, where 'a=nat] by simp
  then have "unat (i + 1) = unat i + 1" by (simp add: unat_word_ariths)
  then show ?thesis using assms by (simp add: rx_step_def word_le_nat_alt mod_if)
qed

lemma rx_store_rep:
  assumes r: "rx_rep x s q"
  shows "rx_rep x (rx_store x (sd_serial_rx (serials (drv s) x)) c s) (newest (unat (serial_bufsz x s) - 1) (q @ [c]))"
proof -
  let ?a = "sd_serial_rx (serials (drv s) x)"
  define f n g where "f = rx_fifo_of x s" and "n = unat (serial_bufsz x s)" and "g = unat (rx_get_index f)"
  have R: "?a \<noteq> 0" "2 \<le> n" "g < n" "length q < n" "unat (rx_put_index f) = (g + length q) mod n"
    "\<And>i. i < length q \<Longrightarrow> vmem s (rx_buffer f + (g + i) mod n) = q ! i"
    using r by (simp_all add: rx_rep_def Let_def f_def n_def g_def)
  let ?p = "rx_step (serial_bufsz x s) (rx_put_index f)" and ?g = "rx_step (serial_bufsz x s) (rx_get_index f)"
  have p: "unat ?p = (g + (length q + 1)) mod n"
    using rx_step_unat[of "rx_put_index f" "serial_bufsz x s"] R(2-5) by (simp add: n_def mod_Suc_eq)
  have g': "unat ?g = (g + 1) mod n" using rx_step_unat[of "rx_get_index f" "serial_bufsz x s"] R(3) by (simp add: n_def g_def)
  let ?m = "(vmem s)(rx_buffer f + (g + length q) mod n := c)"
  have m: "?m (rx_buffer f + (g + i) mod n) = (q @ [c]) ! i" if "i \<le> length q" for i
  proof (cases "i = length q")
    case False
    then have i: "i < length q" using that by simp
    then have "(g + i) mod n \<noteq> (g + length q) mod n" using wrapped[of g n i] wrapped[of g n "length q"] R(3,4) by (auto split: if_splits)
    then show ?thesis using R(6)[OF i] i by (simp add: nth_append)
  qed simp
  have hit: "?p = rx_get_index f \<longleftrightarrow> length q + 1 = n"
    using p R(2-4) wrapped[of g n "length q + 1"] by (auto simp: g_def word_unat_eq_iff split: if_splits)
  show ?thesis
  proof (cases "length q + 1 = n")
    case True
    define s' where "s' = rx_store x ?a c s"
    have s': "rx_fifo_of x s' = f\<lparr>rx_put_index := ?p, rx_is_full := True, rx_get_index := ?g\<rparr>" "vmem s' = ?m"
      "serials (drv s') = serials (drv s)"
      using True hit R(5) by (simp_all add: s'_def rx_store_def rx_fifo_of_def f_def[unfolded rx_fifo_of_def] Let_def serial_bufsz_def)
    have e: "((g + 1) mod n + i) mod n = (g + (i + 1)) mod n" for i unfolding mod_add_left_eq by (simp add: ac_simps)
    have nw: "newest (n - 1) (q @ [c]) = tl (q @ [c])" using True R(2) by (cases q) (simp_all add: newest_def)
    show ?thesis unfolding n_def[symmetric] nw s'_def[symmetric]
    proof (rule rx_repI[OF _ s'(1)])
      show "unat (serial_bufsz x s') = n" using s'(3) by (simp add: n_def serial_bufsz_def)
      show "unat (rx_get_index (f\<lparr>rx_put_index := ?p, rx_is_full := True, rx_get_index := ?g\<rparr>)) = (g + 1) mod n" using g' by simp
      show "unat (rx_put_index (f\<lparr>rx_put_index := ?p, rx_is_full := True, rx_get_index := ?g\<rparr>)) =
          ((g + 1) mod n + length (tl (q @ [c]))) mod n" unfolding e using p by simp
      show "vmem s' (rx_buffer (f\<lparr>rx_put_index := ?p, rx_is_full := True, rx_get_index := ?g\<rparr>) + ((g + 1) mod n + i) mod n) = tl (q @ [c]) ! i"
        if "i < length (tl (q @ [c]))" for i
        unfolding e s'(2) using m[of "i + 1"] that by (simp add: nth_tl)
      show "tl (q @ [c]) \<noteq> []" using True R(2) by (cases q) simp_all
    qed (use R True s'(3) in simp_all)
  next
    case False
    define s' where "s' = rx_store x ?a c s"
    have s': "rx_fifo_of x s' = f\<lparr>rx_put_index := ?p\<rparr>" "vmem s' = ?m" "serials (drv s') = serials (drv s)"
      using False hit R(5) by (simp_all add: s'_def rx_store_def rx_fifo_of_def f_def[unfolded rx_fifo_of_def] Let_def serial_bufsz_def)
    have nw: "newest (n - 1) (q @ [c]) = q @ [c]" using False R(4) by (simp add: newest_def)
    show ?thesis unfolding n_def[symmetric] nw s'_def[symmetric]
      by (rule rx_repI[OF _ s'(1), of n g]) (use R p m False s' in \<open>simp_all add: n_def g_def serial_bufsz_def\<close>)
  qed
qed

lemma rx_store_frame [simp]:
  "devs (rx_store x a c s) = devs s" "vk (rx_store x a c s) = vk s" "serials (drv (rx_store x a c s)) = serials (drv s)"
  "hw (drv (rx_store x a c s)) = hw (drv s)"
  by (simp_all add: rx_store_def Let_def)

lemma rx_rep_cong:
  assumes "serials (drv s') = serials (drv s)" "rx_fifos (drv s') = rx_fifos (drv s)" "vmem s' = vmem s"
  shows "rx_rep x s' q = rx_rep x s q"
  using assms by (simp add: rx_rep_def rx_fifo_of_def serial_bufsz_def Let_def)

lemma rx_rep_length: "rx_rep x s q \<Longrightarrow> length q \<le> unat (serial_bufsz x s) - 1"
  by (auto simp: rx_rep_def Let_def)

text \<open>The hardware has the bytes \<open>bs\<close> to read, and no more.\<close>

fun uart_feeds :: "'h rt_uart_ops \<Rightarrow> nat \<Rightarrow> u8 list \<Rightarrow> 'h \<Rightarrow> 'h \<Rightarrow> bool" where
  "uart_feeds u x [] h h' \<longleftrightarrow> uo_getc u x h = (-1, h')"
| "uart_feeds u x (b # bs) h h' \<longleftrightarrow> fst (uo_getc u x h) = uint b \<and> uart_feeds u x bs (snd (uo_getc u x h)) h'"

lemma isr_loop_rep:
  "uart_feeds u x bs (hw (drv s)) h' \<Longrightarrow> rx_rep x s q \<Longrightarrow> a = sd_serial_rx (serials (drv s) x) \<Longrightarrow>
    \<exists>s'. isr_rx_loop u x a s = Some s' \<and> rx_rep x s' (newest (unat (serial_bufsz x s) - 1) (q @ bs)) \<and>
      devs s' = devs s \<and> vk s' = vk s \<and> serials (drv s') = serials (drv s) \<and> hw (drv s') = h'"
proof (induction bs arbitrary: s q)
  case Nil
  let ?s = "upd_world (\<lambda>w. w\<lparr>hw := h'\<rparr>) s"
  have "uart_getc u x s = (-1, ?s)" using Nil(1) by (simp add: uart_getc_def)
  then have "isr_rx_loop u x a s = Some ?s" by (simp add: isr_rx_loop.simps)
  moreover have "rx_rep x ?s q" using Nil(2) by (subst rx_rep_cong[where s = s]) simp_all
  moreover have "newest (unat (serial_bufsz x s) - 1) q = q" using rx_rep_length[OF Nil(2)] by (simp add: newest_def)
  ultimately show ?case by simp
next
  case (Cons b bs)
  define h1 where "h1 = snd (uo_getc u x (hw (drv s)))"
  let ?s = "upd_world (\<lambda>w. w\<lparr>hw := h1\<rparr>) s"
  have g: "uart_getc u x s = (uint b, ?s)"
    using Cons(2) by (cases "uo_getc u x (hw (drv s))") (simp add: uart_getc_def h1_def)
  let ?s1 = "rx_store x a b ?s"
  have "rx_rep x ?s q" using Cons(3) by (subst rx_rep_cong[where s = s]) simp_all
  from rx_store_rep[OF this, of b]
  have r: "rx_rep x ?s1 (newest (unat (serial_bufsz x s) - 1) (q @ [b]))" using Cons(4) by (simp add: serial_bufsz_def)
  have "uint b \<noteq> -1" using unsigned_greater_eq[of b, where 'a=int] by linarith
  then have "isr_rx_loop u x a s = isr_rx_loop u x a ?s1" using g by (subst isr_rx_loop.simps) simp
  moreover have "uart_feeds u x bs (hw (drv ?s1)) h'" using Cons(2) by (simp add: h1_def)
  ultimately show ?case
    using Cons.IH[OF _ r] Cons(4) newest_append[of "unat (serial_bufsz x s) - 1" "q @ [b]" bs] by (simp add: serial_bufsz_def)
qed

lemma rx_length_eq:
  assumes "rx_rep x s q"
  shows "rx_length (serial_bufsz x s) (rx_fifo_of x s) = of_nat (length q)"
proof -
  obtain f n g where r: "rx_fifo_of x s = f" "unat (serial_bufsz x s) = n" "unat (rx_get_index f) = g" "g < n" "length q < n"
    "unat (rx_put_index f) = (g + length q) mod n" using assms by (elim rx_repE)
  have e: "(ucast w :: u32) = of_nat (unat w)" for w :: u16 by simp
  have n: "n < 2 ^ 16" using r(2) unsigned_less[of "serial_bufsz x s", where 'a=nat] by simp
  have le: "(of_nat a :: u32) \<le> of_nat b \<longleftrightarrow> a \<le> b" if "a < 2 ^ 16" "b < 2 ^ 16" for a b
    using that by (simp add: word_le_nat_alt unat_of_nat take_bit_eq_mod)
  show ?thesis
  proof (cases "g + length q < n")
    case True
    then have "(of_nat g :: u32) \<le> of_nat (g + length q)" using n by (subst le) simp_all
    then show ?thesis using r n True unfolding rx_length_def Let_def e by simp
  next
    case False
    then have "(g + length q) mod n = g + length q - n" using r(4,5) by (simp add: wrapped)
    moreover have "\<not> (of_nat g :: u32) \<le> of_nat (g + length q - n)" using False r(4,5) n by (subst le) simp_all
    ultimately show ?thesis using r n False unfolding rx_length_def Let_def e by (simp add: of_nat_diff)
  qed
qed

text \<open>
  C32. The receive interrupt: whatever bytes the hardware has, the queue holds the newest of the old and the new ones
  that fit, one less than the buffer has, in their order; the callback is run with their number, if there are any.
\<close>

theorem serial_isr_keeps_newest:
  assumes "rx_rep x s q" "uart_feeds u x bs (hw (drv s)) h'"
  shows "\<exists>s'. rx_rep x s' (newest (unat (serial_bufsz x s) - 1) (q @ bs)) \<and> devs s' = devs s \<and> vk s' = vk s \<and> hw (drv s') = h' \<and>
    rt_hw_serial_isr u cb x RT_SERIAL_EVENT_RX_IND s =
      (case dv_rx_indicate (devs s x) of
         None \<Rightarrow> Some s'
       | Some f \<Rightarrow> if q @ bs = [] then Some s' else cb f x (of_nat (length (newest (unat (serial_bufsz x s) - 1) (q @ bs)))) s')"
proof -
  let ?a = "sd_serial_rx (serials (drv s) x)" and ?q = "newest (unat (serial_bufsz x s) - 1) (q @ bs)"
  obtain s' where s': "isr_rx_loop u x ?a s = Some s'" "rx_rep x s' ?q" "devs s' = devs s" "vk s' = vk s"
    "serials (drv s') = serials (drv s)" "hw (drv s') = h'"
    using isr_loop_rep[OF assms(2,1) refl] by blast
  have a: "?a \<noteq> 0" and n: "2 \<le> unat (serial_bufsz x s)" using assms(1) by (simp_all add: rx_rep_def Let_def)
  have "length ?q < unat (serial_bufsz x s)" using n by auto
  then have "length ?q < 2 ^ 16" using unsigned_less[of "serial_bufsz x s", where 'a=nat] by simp
  then have "(of_nat (length ?q) :: u32) = 0 \<longleftrightarrow> length ?q = 0"
    unfolding word_unat_eq_iff by (simp only: unat_of_nat) simp
  then have z: "(of_nat (length ?q) :: u32) = 0 \<longleftrightarrow> q @ bs = []" using n by (auto simp: min_def split: if_splits)
  have f: "rx_fifos (drv s') ?a = rx_fifo_of x s'" "serial_bufsz x s' = serial_bufsz x s"
    using s'(5) by (simp_all add: rx_fifo_of_def serial_bufsz_def)
  have "rt_hw_serial_isr u cb x RT_SERIAL_EVENT_RX_IND s =
      (case dv_rx_indicate (devs s x) of
         None \<Rightarrow> Some s' | Some f \<Rightarrow> if q @ bs = [] then Some s' else cb f x (of_nat (length ?q)) s')"
    using rx_length_eq[OF s'(2)] a s'(1,3) z
    by (cases "dv_rx_indicate (devs s x)") (simp_all add: rt_hw_serial_isr_def f Let_def)
  then show ?thesis using s' by blast
qed

lemma rx_fetch_rep:
  assumes r: "rx_rep x s (c # q)" and a: "a = sd_serial_rx (serials (drv s) x)"
  shows "\<not> rx_empty a s" "fst (rx_fetch x a s) = c" "rx_rep x (snd (rx_fetch x a s)) q"
    "vmem (snd (rx_fetch x a s)) = vmem s" "serials (drv (snd (rx_fetch x a s))) = serials (drv s)"
    "rx_buffer (rx_fifo_of x (snd (rx_fetch x a s))) = rx_buffer (rx_fifo_of x s)"
proof -
  define s' where "s' = snd (rx_fetch x a s)"
  obtain f n g where R: "a \<noteq> 0" "rx_fifo_of x s = f" "unat (serial_bufsz x s) = n" "2 \<le> n" "unat (rx_get_index f) = g" "g < n"
    "Suc (length q) < n" "unat (rx_put_index f) = (g + Suc (length q)) mod n"
    "\<And>i. i < length (c # q) \<Longrightarrow> vmem s (rx_buffer f + (g + i) mod n) = (c # q) ! i"
    using r a by (elim rx_repE) simp
  let ?g = "rx_step (serial_bufsz x s) (rx_get_index f)"
  have fa: "rx_fifos (drv s) a = f" using R(2) a by (simp add: rx_fifo_of_def)
  have s': "rx_fifo_of x s' = f\<lparr>rx_get_index := ?g, rx_is_full := False\<rparr>" "vmem s' = vmem s" "serials (drv s') = serials (drv s)"
    using a fa by (simp_all add: s'_def rx_fetch_def rx_fifo_of_def Let_def)
  have g': "unat ?g = (g + 1) mod n" using rx_step_unat[of "rx_get_index f" "serial_bufsz x s"] R(3,5,6) by simp
  have e: "((g + 1) mod n + i) mod n = (g + (i + 1)) mod n" for i unfolding mod_add_left_eq by (simp add: ac_simps)
  have "(g + Suc (length q)) mod n \<noteq> g" using R(6,7) wrapped[of g n "Suc (length q)"] by (auto split: if_splits)
  then have "rx_get_index f \<noteq> rx_put_index f" using R(5,8) by metis
  then show "\<not> rx_empty a s" by (simp add: rx_empty_def fa)
  show "fst (rx_fetch x a s) = c" using R(9)[of 0] R(5,6) fa by (simp add: rx_fetch_def Let_def)
  show "rx_rep x (snd (rx_fetch x a s)) q" unfolding s'_def[symmetric]
  proof (rule rx_repI[OF _ s'(1)])
    show "unat (serial_bufsz x s') = n" using R(3) s'(3) by (simp add: serial_bufsz_def)
    show "unat (rx_put_index (f\<lparr>rx_get_index := ?g, rx_is_full := False\<rparr>)) = ((g + 1) mod n + length q) mod n"
      unfolding e using R(8) by simp
    show "vmem s' (rx_buffer (f\<lparr>rx_get_index := ?g, rx_is_full := False\<rparr>) + ((g + 1) mod n + i) mod n) = q ! i" if "i < length q" for i
      unfolding e s'(2) using R(9)[of "i + 1"] that by simp
  qed (use R a g' s'(3) in simp_all)
  show "vmem (snd (rx_fetch x a s)) = vmem s" "serials (drv (snd (rx_fetch x a s))) = serials (drv s)"
    "rx_buffer (rx_fifo_of x (snd (rx_fetch x a s))) = rx_buffer (rx_fifo_of x s)"
    using s' R(2) by (simp_all add: s'_def)
qed

definition rx_area :: "nat \<Rightarrow> 'h sstate \<Rightarrow> nat set" where
  "rx_area x s = {rx_buffer (rx_fifo_of x s) ..< rx_buffer (rx_fifo_of x s) + unat (serial_bufsz x s)}"

lemma store8_rep:
  assumes "rx_rep x s q" "b \<notin> rx_area x s"
  shows "rx_rep x (store8 b c s) q"
proof -
  have "rx_buffer (rx_fifo_of x s) + (g + i) mod unat (serial_bufsz x s) \<in> rx_area x s" for g i
    using assms(1) by (simp add: rx_area_def rx_rep_def Let_def)
  then have "vmem (store8 b c s) (rx_buffer (rx_fifo_of x s) + (g + i) mod unat (serial_bufsz x s)) =
      vmem s (rx_buffer (rx_fifo_of x s) + (g + i) mod unat (serial_bufsz x s))" for g i using assms(2) by auto
  then show ?thesis using assms(1) by (simp add: rx_rep_def rx_fifo_of_def serial_bufsz_def Let_def del: store8_simps(3))
qed

lemma int_rx_loop_rep:
  "rx_rep x s q \<Longrightarrow> a = sd_serial_rx (serials (drv s) x) \<Longrightarrow> {data ..< data + n} \<inter> rx_area x s = {} \<Longrightarrow>
    \<exists>s'. int_rx_loop x a data n s = (n - min n (length q), s') \<and> rx_rep x s' (drop n q) \<and>
      (\<forall>i<min n (length q). vmem s' (data + i) = q ! i) \<and>
      (\<forall>b. \<not> (data \<le> b \<and> b < data + min n (length q)) \<longrightarrow> vmem s' b = vmem s b)"
proof (induction n arbitrary: data s q)
  case (Suc n)
  show ?case
  proof (cases q)
    case Nil
    then have "rx_empty a s" using Suc(2,3) by (auto simp: rx_empty_def rx_rep_def rx_fifo_of_def Let_def word_unat_eq_iff)
    then show ?thesis using Nil Suc(2) by simp
  next
    case (Cons c q')
    note f = rx_fetch_rep[OF Suc(2)[unfolded Cons] Suc(3)]
    let ?s1 = "snd (rx_fetch x a s)" and ?s2 = "store8 data c (snd (rx_fetch x a s))"
    have area: "rx_area x ?s1 = rx_area x s" "rx_area x ?s2 = rx_area x s"
      using f(5,6) by (simp_all add: rx_area_def serial_bufsz_def rx_fifo_of_def)
    have "data \<in> {data ..< data + Suc n}" by simp
    then have "data \<notin> rx_area x ?s1" using Suc(4) area(1) by blast
    then have r2: "rx_rep x ?s2 q'" by (rule store8_rep[OF f(3)])
    have d: "{data + 1 ..< data + 1 + n} \<inter> rx_area x ?s2 = {}"
    proof -
      have "{data + 1 ..< data + 1 + n} \<subseteq> {data ..< data + Suc n}" by auto
      then show ?thesis using Suc(4) unfolding area(2) by blast
    qed
    have a2: "a = sd_serial_rx (serials (drv ?s2) x)" using f(5) Suc(3) by simp
    obtain s' where s': "int_rx_loop x a (data + 1) n ?s2 = (n - min n (length q'), s')" "rx_rep x s' (drop n q')"
      "\<forall>i<min n (length q'). vmem s' (data + 1 + i) = q' ! i"
      "\<forall>b. \<not> (data + 1 \<le> b \<and> b < data + 1 + min n (length q')) \<longrightarrow> vmem s' b = vmem ?s2 b"
      using Suc.IH[OF r2 a2 d] by blast
    have "int_rx_loop x a data (Suc n) s = (n - min n (length q'), s')"
      using f(1,2) s'(1) by (cases "rx_fetch x a s") simp
    moreover have "vmem s' (data + i) = q ! i" if "i < min (Suc n) (length q)" for i
    proof (cases i)
      case 0
      then show ?thesis using s'(4) Cons by simp
    next
      case (Suc j)
      then show ?thesis using s'(3) that Cons by simp
    qed
    moreover have "vmem s' b = vmem s b" if "\<not> (data \<le> b \<and> b < data + min (Suc n) (length q))" for b
      using that s'(4) f(4) Cons by auto
    ultimately show ?thesis using s'(2) Cons by auto
  qed
qed simp

text \<open>
  C33. Reading in interrupt mode: the caller gets the oldest bytes of the queue, as many as it asked for if there are
  that many, in their order in its buffer; they leave the queue, and no other byte of the memory changes.
\<close>

theorem serial_read_takes_oldest:
  assumes "rx_rep x s q" "x \<noteq> 0" "dv_open_flag (devs s x) AND RT_DEVICE_FLAG_INT_RX \<noteq> 0"
    and "{buffer ..< buffer + unat sz} \<inter> rx_area x s = {}"
  shows "\<exists>s'. rt_serial_read u x pos buffer sz s = Some (Done (of_nat (min (unat sz) (length q))), s') \<and> rx_rep x s' (drop (unat sz) q) \<and>
    map (\<lambda>i. vmem s' (buffer + i)) [0..<min (unat sz) (length q)] = take (unat sz) q \<and>
    (\<forall>b. \<not> (buffer \<le> b \<and> b < buffer + min (unat sz) (length q)) \<longrightarrow> vmem s' b = vmem s b)"
proof (cases "sz = 0")
  case True
  then show ?thesis using assms(1,2) by (auto simp: rt_serial_read_def)
next
  case False
  let ?a = "sd_serial_rx (serials (drv s) x)" and ?k = "min (unat sz) (length q)"
  obtain s' where s': "int_rx_loop x ?a buffer (unat sz) s = (unat sz - ?k, s')" "rx_rep x s' (drop (unat sz) q)"
    "\<forall>i<?k. vmem s' (buffer + i) = q ! i" "\<forall>b. \<not> (buffer \<le> b \<and> b < buffer + ?k) \<longrightarrow> vmem s' b = vmem s b"
    using int_rx_loop_rep[OF assms(1) refl assms(4)] by blast
  have "?a \<noteq> 0" using assms(1) by (simp add: rx_rep_def Let_def)
  then have "rt_serial_read u x pos buffer sz s = Some (Done (of_nat ?k), s')"
    using assms(2,3) False s'(1) by (simp add: rt_serial_read_def do_serial_int_rx_def Let_def)
  moreover have "map (\<lambda>i. vmem s' (buffer + i)) [0..<?k] = take (unat sz) q"
    using s'(3) by (intro nth_equalityI) auto
  ultimately show ?thesis using s'(2,4) by blast
qed

section \<open>Sending\<close>

text \<open>The text that goes out: in stream mode a carriage return before each line feed.\<close>

definition console_text :: "bool \<Rightarrow> u8 list \<Rightarrow> u8 list" where
  "console_text stream bs = concat (map (\<lambda>c. if c = 10 \<and> stream then [13, c] else [c]) bs)"

definition sent_text :: "'h rt_uart_ops \<Rightarrow> nat \<Rightarrow> u8 list \<Rightarrow> 'h \<Rightarrow> 'h" where
  "sent_text u x cs h = fold (\<lambda>c h. snd (uo_putc u x c h)) cs h"

lemma console_text_simps [simp]: "console_text st [] = []"
    "console_text st (c # bs) = (if c = 10 \<and> st then [13, c] else [c]) @ console_text st bs"
  by (simp_all add: console_text_def)

lemma sent_text_simps [simp]: "sent_text u x [] h = h" "sent_text u x (c # cs) h = sent_text u x cs (snd (uo_putc u x c h))"
  by (simp_all add: sent_text_def)

lemma uart_putc_snd: "snd (uart_putc u x c s) = upd_world (\<lambda>w. w\<lparr>hw := snd (uo_putc u x c (hw (drv s)))\<rparr>) s"
  by (simp add: uart_putc_def split: prod.splits)

lemma upd_hw_twice: "upd_world (\<lambda>w. w\<lparr>hw := h'\<rparr>) (upd_world (\<lambda>w. w\<lparr>hw := h\<rparr>) s) = upd_world (\<lambda>w. w\<lparr>hw := h'\<rparr>) s"
  by (simp add: upd_world_def)

lemma upd_hw_same: "upd_world (\<lambda>w. w\<lparr>hw := hw (drv s)\<rparr>) s = s"
  by (simp add: upd_world_def)

lemma upt_shift: "map (\<lambda>i. f (a + i)) [0..<Suc n] = f a # map (\<lambda>i. f (a + 1 + i)) [0..<n]"
  by (simp add: upt_conv_Cons map_Suc_upt[symmetric] del: upt_Suc)

lemma poll_tx_sends:
  "poll_tx_loop u x data n s = upd_world (\<lambda>w. w\<lparr>hw := sent_text u x
     (console_text (streaming x s) (map (\<lambda>i. vmem s (data + i)) [0..<n])) (hw (drv s))\<rparr>) s"
proof (induction n arbitrary: data s)
  case (Suc n)
  let ?s = "snd (uart_putc u x (vmem s data) (if vmem s data = 10 \<and> streaming x s then snd (uart_putc u x 13 s) else s))"
  have st: "streaming x ?s = streaming x s" "vmem ?s = vmem s" by (simp_all add: streaming_def)
  have "poll_tx_loop u x data (Suc n) s = poll_tx_loop u x (data + 1) n ?s" by (simp add: Let_def)
  also have "\<dots> = upd_world (\<lambda>w. w\<lparr>hw := sent_text u x
      (console_text (streaming x s) (map (\<lambda>i. vmem s (data + 1 + i)) [0..<n])) (hw (drv ?s))\<rparr>) ?s"
    unfolding Suc.IH st ..
  finally show ?case unfolding upt_shift by (simp add: uart_putc_snd upd_hw_twice)
qed (simp add: upd_hw_same)

lemma int_tx_sends:
  assumes "\<forall>c h. fst (uo_putc u x c h) \<noteq> -1"
  shows "int_tx_loop u (x, data, n, len) s = Some (Done len, upd_world (\<lambda>w. w\<lparr>hw := sent_text u x
     (console_text (streaming x s) (map (\<lambda>i. vmem s (data + i)) [0..<n])) (hw (drv s))\<rparr>) s)"
proof (induction n arbitrary: data s)
  case 0
  show ?case by (subst int_tx_loop.simps) (simp add: upd_hw_same)
next
  case (Suc n)
  let ?s = "snd (uart_putc u x (vmem s data) (if vmem s data = 10 \<and> streaming x s then snd (uart_putc u x 13 s) else s))"
  have st: "streaming x ?s = streaming x s" "vmem ?s = vmem s" by (simp_all add: streaming_def)
  have f: "fst (uart_putc u x c s) \<noteq> -1" for c s using assms by (simp add: uart_putc_def split: prod.splits) (metis fst_conv)
  have "int_tx_byte u x (vmem s data) s = (True, ?s)"
    using f[of "vmem s data" s] f[of 13 s] f[of "vmem s data" "snd (uart_putc u x 13 s)"] by (auto simp: int_tx_byte_def split: prod.splits)
  then have "int_tx_loop u (x, data, Suc n, len) s = int_tx_loop u (x, data + 1, n, len) ?s" by (subst int_tx_loop.simps) simp
  also have "\<dots> = Some (Done len, upd_world (\<lambda>w. w\<lparr>hw := sent_text u x
      (console_text (streaming x s) (map (\<lambda>i. vmem s (data + 1 + i)) [0..<n])) (hw (drv ?s))\<rparr>) ?s)"
    unfolding Suc.IH st ..
  finally show ?case unfolding upt_shift by (simp add: uart_putc_snd upd_hw_twice)
qed

text \<open>
  Writing, by polling or by interrupts with hardware that accepts every byte: all the bytes go out in their order,
  in stream mode with a carriage return before each line feed, and nothing else changes.
\<close>

theorem serial_write_sends_text:
  assumes "x \<noteq> 0" "dv_open_flag (devs s x) AND RT_DEVICE_FLAG_INT_TX = 0 \<or>
    sd_serial_tx (serials (drv s) x) \<noteq> 0 \<and> (\<forall>c h. fst (uo_putc u x c h) \<noteq> -1)"
  shows "rt_serial_write u x pos buffer sz s = Some (Done sz, upd_world (\<lambda>w. w\<lparr>hw := sent_text u x
    (console_text (streaming x s) (map (\<lambda>i. vmem s (buffer + i)) [0..<unat sz])) (hw (drv s))\<rparr>) s)"
proof (cases "sz = 0")
  case True
  then show ?thesis using assms(1) by (simp add: rt_serial_write_def upd_hw_same)
next
  case False
  then show ?thesis
  proof (cases "dv_open_flag (devs s x) AND RT_DEVICE_FLAG_INT_TX = 0")
    case True
    then show ?thesis using assms(1) False by (simp add: rt_serial_write_def do_serial_poll_tx_def poll_tx_sends)
  next
    case i: False
    then have "\<forall>c h. fst (uo_putc u x c h) \<noteq> -1" "sd_serial_tx (serials (drv s) x) \<noteq> 0" using assms(2) by auto
    then show ?thesis using assms(1) False i
      by (simp add: rt_serial_write_def do_serial_int_tx_def int_tx_sends del: int_tx_loop.simps)
  qed
qed

section \<open>Opening and closing\<close>

lemma flag_bits:
  "(w :: u16) AND 0x008 = 0 \<longleftrightarrow> \<not> bit w 3" "(w :: u16) AND 0x010 = 0 \<longleftrightarrow> \<not> bit w 4" "(w :: u16) AND 0x040 = 0 \<longleftrightarrow> \<not> bit w 6"
  "(w :: u16) AND 0x100 = 0 \<longleftrightarrow> \<not> bit w 8" "(w :: u16) AND 0x200 = 0 \<longleftrightarrow> \<not> bit w 9"
  "(w :: u16) AND 0x400 = 0 \<longleftrightarrow> \<not> bit w 10" "(w :: u16) AND 0x800 = 0 \<longleftrightarrow> \<not> bit w 11"
  using and_exp_eq_0_iff_not_bit[of w 3] and_exp_eq_0_iff_not_bit[of w 4] and_exp_eq_0_iff_not_bit[of w 6]
    and_exp_eq_0_iff_not_bit[of w 8] and_exp_eq_0_iff_not_bit[of w 9] and_exp_eq_0_iff_not_bit[of w 10] and_exp_eq_0_iff_not_bit[of w 11]
  by simp_all

lemma open_rx_fresh:
  assumes "sd_serial_rx (serials (drv s) x) = 0" "bit fl 8" "mallocs (drv s) = a # ms" "a \<noteq> 0"
  shows "\<exists>s'. open_rx u x fl s = Some s' \<and> vk s' = vk s \<and> mallocs (drv s') = ms \<and> freed (drv s') = freed (drv s) \<and>
    serials (drv s') = (serials (drv s))(x := (serials (drv s) x)\<lparr>sd_serial_rx := a\<rparr>) \<and>
    rx_fifos (drv s') a = \<lparr>rx_buffer = a + 12, rx_put_index = 0, rx_get_index = 0, rx_is_full = False\<rparr> \<and>
    devs s' = (devs s)(x := (devs s x)\<lparr>dv_open_flag := dv_open_flag (devs s x) OR 0x100\<rparr>)"
  using assms by (auto simp: open_rx_def serial_malloc_def flag_bits upd_dev_def Let_def fun_eq_iff)

lemma open_tx_fresh:
  assumes "sd_serial_tx (serials (drv s) x) = 0" "bit fl 10" "mallocs (drv s) = b # ms" "b \<noteq> 0"
  shows "\<exists>s'. open_tx u x fl s = Some s' \<and> (\<forall>c. rt_object_get_type c (vk s') = rt_object_get_type c (vk s)) \<and>
    mallocs (drv s') = ms \<and> freed (drv s') = freed (drv s) \<and>
    serials (drv s') = (serials (drv s))(x := (serials (drv s) x)\<lparr>sd_serial_tx := b\<rparr>) \<and> rx_fifos (drv s') = rx_fifos (drv s) \<and>
    tx_flags (drv s') b = RT_UNCOMPLETED \<and>
    devs s' = (devs s)(x := (devs s x)\<lparr>dv_open_flag := dv_open_flag (devs s x) OR 0x400\<rparr>)"
  using assms by (auto simp: open_tx_def serial_malloc_def flag_bits from_cstate_def to_cstate_def rt_completion_init_def
      rt_object_get_type_def Let_def fun_eq_iff)

lemma rx_rep_fresh:
  assumes "rx_fifos (drv s) (sd_serial_rx (serials (drv s) x)) = \<lparr>rx_buffer = a, rx_put_index = 0, rx_get_index = 0, rx_is_full = False\<rparr>"
    and "sd_serial_rx (serials (drv s) x) \<noteq> 0" "2 \<le> unat (serial_bufsz x s)"
  shows "rx_rep x s []"
  by (rule rx_repI[of s x _ "unat (serial_bufsz x s)" 0]) (use assms in \<open>auto simp: rx_fifo_of_def\<close>)

lemma serial_open_fresh:
  assumes "x \<noteq> 0" "sd_serial_rx (serials (drv s) x) = 0" "sd_serial_tx (serials (drv s) x) = 0" "mallocs (drv s) = a # b # ms" "a \<noteq> 0" "b \<noteq> 0"
    and fl: "bit fl 8" "bit fl 10" "\<not> bit fl 9" "\<not> bit fl 11" and dv: "bit (dv_flag (devs s x)) 8" "bit (dv_flag (devs s x)) 10"
    and n: "2 \<le> unat (serial_bufsz x s)"
  shows "\<exists>s'. rt_serial_open u x fl s = Some (RT_EOK, s') \<and> rx_rep x s' [] \<and> rx_fifo_of x s' = \<lparr>rx_buffer = a + 12, rx_put_index = 0, rx_get_index = 0, rx_is_full = False\<rparr> \<and>
    (\<forall>c. rt_object_get_type c (vk s') = rt_object_get_type c (vk s)) \<and> mallocs (drv s') = ms \<and> freed (drv s') = freed (drv s) \<and>
    sd_serial_rx (serials (drv s') x) = a \<and> sd_serial_tx (serials (drv s') x) = b \<and> tx_flags (drv s') b = RT_UNCOMPLETED \<and>
    dv_flag (devs s' x) = dv_flag (devs s x) \<and> dv_ref_count (devs s' x) = dv_ref_count (devs s x) \<and>
    bit (dv_open_flag (devs s' x)) 8 \<and> bit (dv_open_flag (devs s' x)) 10 \<and> serial_bufsz x s' = serial_bufsz x s"
proof -
  let ?s = "upd_dev x (\<lambda>d. d\<lparr>dv_open_flag := fl AND 0xff\<rparr>) s"
  obtain s1 where s1: "open_rx u x fl ?s = Some s1" "vk s1 = vk s" "mallocs (drv s1) = b # ms" "freed (drv s1) = freed (drv s)"
    "serials (drv s1) = (serials (drv s))(x := (serials (drv s) x)\<lparr>sd_serial_rx := a\<rparr>)"
    "rx_fifos (drv s1) a = \<lparr>rx_buffer = a + 12, rx_put_index = 0, rx_get_index = 0, rx_is_full = False\<rparr>"
    "devs s1 = (devs ?s)(x := (devs ?s x)\<lparr>dv_open_flag := dv_open_flag (devs ?s x) OR 0x100\<rparr>)"
    using open_rx_fresh[of ?s x fl a "b # ms" u] assms by auto
  obtain s2 where s2: "open_tx u x fl s1 = Some s2" "\<forall>c. rt_object_get_type c (vk s2) = rt_object_get_type c (vk s1)"
    "mallocs (drv s2) = ms" "freed (drv s2) = freed (drv s1)"
    "serials (drv s2) = (serials (drv s1))(x := (serials (drv s1) x)\<lparr>sd_serial_tx := b\<rparr>)" "rx_fifos (drv s2) = rx_fifos (drv s1)"
    "tx_flags (drv s2) b = RT_UNCOMPLETED"
    "devs s2 = (devs s1)(x := (devs s1 x)\<lparr>dv_open_flag := dv_open_flag (devs s1 x) OR 0x400\<rparr>)"
    using open_tx_fresh[of s1 x fl b ms u] assms(3,6) fl(2) s1(3,5) by auto
  let ?st = "if fl AND RT_DEVICE_FLAG_STREAM \<noteq> 0 \<or> streaming x s then RT_DEVICE_FLAG_STREAM else 0"
  let ?s' = "upd_dev x (\<lambda>d. d\<lparr>dv_open_flag := dv_open_flag d OR ?st\<rparr>) s2"
  have "rt_serial_open u x fl s = Some (RT_EOK, ?s')"
    using assms(1) fl dv s1(1) s2(1) by (simp add: rt_serial_open_def flag_bits Let_def)
  moreover have f: "rx_fifo_of x ?s' = \<lparr>rx_buffer = a + 12, rx_put_index = 0, rx_get_index = 0, rx_is_full = False\<rparr>"
    using s1(5,6) s2(5,6) by (simp add: rx_fifo_of_def)
  moreover have "rx_rep x ?s' []"
    by (rule rx_rep_fresh[of _ _ "a + 12"]) (use assms(5) n s1(5) s2(5) f in \<open>simp_all add: rx_fifo_of_def serial_bufsz_def\<close>)
  moreover have "bit (dv_open_flag (devs ?s' x)) 8" "bit (dv_open_flag (devs ?s' x)) 10"
    using s1(7) s2(8) by (simp_all add: bit_or_iff bit_and_iff)
  moreover have "serial_bufsz x ?s' = serial_bufsz x s" using s1(5) s2(5) by (simp add: serial_bufsz_def)
  ultimately show ?thesis using s1(2-5,7) s2(2-5,7,8) by (intro exI[of _ ?s']) simp
qed

lemma serial_close_frees:
  assumes "x \<noteq> 0" "\<not> dv_ref_count (devs s x) > 1" "bit (dv_open_flag (devs s x)) 8" "bit (dv_open_flag (devs s x)) 10"
    and "sd_serial_rx (serials (drv s) x) = a" "sd_serial_tx (serials (drv s) x) = b" "a \<noteq> 0" "b \<noteq> 0"
  shows "\<exists>s'. rt_serial_close u x s = Some (RT_EOK, s') \<and> freed (drv s') = b # a # freed (drv s) \<and> mallocs (drv s') = mallocs (drv s) \<and>
    sd_serial_rx (serials (drv s') x) = 0 \<and> sd_serial_tx (serials (drv s') x) = 0 \<and> vk s' = vk s \<and>
    \<not> activated x s' \<and> dv_ref_count (devs s' x) = dv_ref_count (devs s x)"
  using assms by (simp add: rt_serial_close_def close_rx_def close_tx_def flag_bits Let_def activated_def bit_and_iff bit_not_iff)

text \<open>
  C34. Opening and closing a serial device for interrupts gives back all it takes: the first open initialises the
  hardware, allocates the receive queue, empty and with its buffer in its own block, and the transmit structure; the last
  close frees both, and the device is as if it had never been opened.
\<close>

theorem serial_open_close_roundtrip:
  assumes "dev_ok x s" "dv_ref_count (devs s x) = 0" "\<not> activated x s" "\<not> opened x s"
    and fl: "bit fl 8" "bit fl 10" "\<not> bit fl 9" "\<not> bit fl 11" and dv: "bit (dv_flag (devs s x)) 8" "bit (dv_flag (devs s x)) 10"
    and "mallocs (drv s) = a # b # ms" "a \<noteq> 0" "b \<noteq> 0" "2 \<le> unat (serial_bufsz x s)"
    and conf: "\<forall>f. uo_configure u = Some f \<longrightarrow> (\<forall>cfg h. fst (f x cfg h) = RT_EOK)"
  shows "\<exists>s1 s2. rt_device_open (\<lambda>_. serial_ops u) x fl s = Some (RT_EOK, s1) \<and>
    dev_ok x s1 \<and> dv_ref_count (devs s1 x) = 1 \<and> rx_rep x s1 [] \<and> rx_area x s1 = {a + 12 ..< a + 12 + unat (serial_bufsz x s)} \<and>
    rt_device_close (\<lambda>_. serial_ops u) x s1 = Some (RT_EOK, s2) \<and>
    freed (drv s2) = b # a # freed (drv s) \<and> mallocs (drv s2) = ms \<and>
    dev_ok x s2 \<and> dv_ref_count (devs s2 x) = 0 \<and> \<not> activated x s2 \<and> \<not> opened x s2"
proof -
  let ?ops = "\<lambda>_ :: nat. serial_ops u"
  let ?s0 = "upd_serial x (\<lambda>d. d\<lparr>sd_serial_rx := 0, sd_serial_tx := 0\<rparr>) s"
  have dev: "is_device x s" "x \<noteq> 0" using assms(1) by (simp_all add: dev_ok_def is_device_def)
  have "\<exists>h. uart_configure u x cfg ?s0 = (RT_EOK, upd_world (\<lambda>w. w\<lparr>hw := h\<rparr>) ?s0)" for cfg
  proof (cases "uo_configure u")
    case None
    then have "uart_configure u x cfg ?s0 = (RT_EOK, upd_world (\<lambda>w. w\<lparr>hw := hw (drv ?s0)\<rparr>) ?s0)"
      unfolding upd_hw_same by (simp add: uart_configure_def)
    then show ?thesis by blast
  next
    case (Some f)
    then have "fst (f x cfg (hw (drv ?s0))) = RT_EOK" using conf by blast
    then show ?thesis using Some by (cases "f x cfg (hw (drv ?s0))") (auto simp: uart_configure_def)
  qed
  then obtain h where i: "rt_serial_init u x s = Some (RT_EOK, upd_world (\<lambda>w. w\<lparr>hw := h\<rparr>) ?s0)"
    using dev(2) unfolding rt_serial_init_def Let_def by force
  let ?s1 = "upd_dev x (\<lambda>d. d\<lparr>dv_flag := dv_flag d OR 0x10\<rparr>) (upd_world (\<lambda>w. w\<lparr>hw := h\<rparr>) ?s0)"
  have act: "dev_activate ?ops x s = Some (RT_EOK, ?s1)"
    using i assms(3) by (simp add: dev_activate_def activated_def serial_ops_def)
  have o: "sd_serial_rx (serials (drv ?s1) x) = 0" "sd_serial_tx (serials (drv ?s1) x) = 0" "mallocs (drv ?s1) = a # b # ms"
    "bit (dv_flag (devs ?s1 x)) 8" "bit (dv_flag (devs ?s1 x)) 10" "2 \<le> unat (serial_bufsz x ?s1)"
    using dv assms(11,14) by (simp_all add: serial_bufsz_def bit_or_iff)
  obtain s2 where s2: "rt_serial_open u x fl ?s1 = Some (RT_EOK, s2)" "rx_rep x s2 []"
    "rx_fifo_of x s2 = \<lparr>rx_buffer = a + 12, rx_put_index = 0, rx_get_index = 0, rx_is_full = False\<rparr>"
    "\<forall>c. rt_object_get_type c (vk s2) = rt_object_get_type c (vk ?s1)" "mallocs (drv s2) = ms" "freed (drv s2) = freed (drv ?s1)"
    "sd_serial_rx (serials (drv s2) x) = a" "sd_serial_tx (serials (drv s2) x) = b"
    "dv_flag (devs s2 x) = dv_flag (devs ?s1 x)" "dv_ref_count (devs s2 x) = dv_ref_count (devs ?s1 x)"
    "bit (dv_open_flag (devs s2 x)) 8" "bit (dv_open_flag (devs s2 x)) 10" "serial_bufsz x s2 = serial_bufsz x ?s1"
    using serial_open_fresh[OF dev(2) o(1-3) assms(12,13) fl o(4-6), of u] by blast
  let ?s3 = "upd_dev x (\<lambda>d. d\<lparr>dv_open_flag := dv_open_flag d OR 8, dv_ref_count := dv_ref_count d + 1\<rparr>) s2"
  have ref: "dv_ref_count (devs s2 x) = 0" using s2(10) assms(2) by simp
  have bz: "serial_bufsz x s2 = serial_bufsz x s" using s2(13) by (simp add: serial_bufsz_def)
  have dev2: "is_device x s2" using dev s2(4) by (simp add: is_device_def)
  have enter: "dev_enter ?ops x fl ?s1 = Some (RT_EOK, ?s3)"
    using s2(1) ref by (simp add: dev_enter_def serial_ops_def Let_def)
  have opn: "rt_device_open ?ops x fl s = Some (RT_EOK, ?s3)"
    using dev act enter assms(4) by (simp add: rt_device_open_def opened_def)
  have rep: "rx_rep x ?s3 []" using s2(2) by (subst rx_rep_cong[of _ s2]) simp_all
  have area: "rx_area x ?s3 = {a + 12 ..< a + 12 + unat (serial_bufsz x s)}"
    using s2(3) bz by (simp add: rx_area_def rx_fifo_of_def serial_bufsz_def)
  have ok3: "dev_ok x ?s3" using dev2 s2(9) by (simp add: dev_ok_def activated_def opened_def flag_bits bit_or_iff)
  let ?s4 = "upd_dev x (\<lambda>d. d\<lparr>dv_ref_count := dv_ref_count d - 1\<rparr>) ?s3"
  have "\<not> dv_ref_count (devs ?s4 x) > 1" "bit (dv_open_flag (devs ?s4 x)) 8" "bit (dv_open_flag (devs ?s4 x)) 10"
    "sd_serial_rx (serials (drv ?s4) x) = a" "sd_serial_tx (serials (drv ?s4) x) = b"
    using s2(7,8,11,12) ref by (simp_all add: bit_or_iff)
  then obtain s5 where s5: "rt_serial_close u x ?s4 = Some (RT_EOK, s5)" "freed (drv s5) = b # a # freed (drv ?s4)"
    "mallocs (drv s5) = mallocs (drv ?s4)" "vk s5 = vk ?s4" "\<not> activated x s5" "dv_ref_count (devs s5 x) = dv_ref_count (devs ?s4 x)"
    using serial_close_frees[OF dev(2), of ?s4 a b u] assms(12,13) by blast
  let ?s6 = "upd_dev x (\<lambda>d. d\<lparr>dv_open_flag := RT_DEVICE_OFLAG_CLOSE\<rparr>) s5"
  have cls: "rt_device_close ?ops x ?s3 = Some (RT_EOK, ?s6)"
    using dev2 ref s5(1) by (simp add: rt_device_close_def serial_ops_def Let_def)
  have end6: "dv_ref_count (devs ?s6 x) = 0" "\<not> activated x ?s6" "\<not> opened x ?s6" "is_device x ?s6"
    using s5(4-6) ref dev2 by (simp_all add: activated_def opened_def is_device_def)
  show ?thesis
    using opn ok3 ref rep area cls end6 s5(2,3) s2(5,6) by (intro exI[of _ ?s3] exI[of _ ?s6]) (simp add: dev_ok_def)
qed

section \<open>Where the code does not do what it means to\<close>

text \<open>
  A second open without \<^verbatim>\<open>RT_DEVICE_FLAG_INT_RX\<close> replaces the open flags of the first: the flag is gone, so the last
  close neither disables the interrupt nor frees the receive queue, which the next initialisation forgets.
\<close>

lemma second_open_loses_queue:
  assumes "x \<noteq> 0" "sd_serial_rx (serials (drv s) x) = a" "a \<noteq> 0" "\<not> streaming x s"
  shows "\<exists>s1 s2 s3 r s4. rt_serial_open u x RT_DEVICE_FLAG_RDWR s = Some (RT_EOK, s1) \<and>
    s2 = upd_dev x (\<lambda>d. d\<lparr>dv_ref_count := 0\<rparr>) s1 \<and> rt_serial_close u x s2 = Some (RT_EOK, s3) \<and> freed (drv s3) = freed (drv s) \<and>
    rt_serial_init u x s3 = Some (r, s4) \<and> sd_serial_rx (serials (drv s4) x) = 0 \<and> freed (drv s4) = freed (drv s)"
proof -
  let ?s = "upd_dev x (\<lambda>d. d\<lparr>dv_open_flag := 3\<rparr>) s"
  obtain s1 where s1: "rt_serial_open u x RT_DEVICE_FLAG_RDWR s = Some (RT_EOK, s1)" "dv_open_flag (devs s1 x) = 3"
    "freed (drv s1) = freed (drv s)"
  proof (cases "sd_serial_tx (serials (drv s) x) = 0")
    case True
    then show ?thesis using that assms by (simp add: rt_serial_open_def open_rx_def open_tx_def Let_def)
  next
    case False
    then show ?thesis using that assms by (simp add: rt_serial_open_def open_rx_def open_tx_def Let_def)
  qed
  let ?s2 = "upd_dev x (\<lambda>d. d\<lparr>dv_ref_count := 0\<rparr>) s1"
  obtain s3 where s3: "rt_serial_close u x ?s2 = Some (RT_EOK, s3)" "freed (drv s3) = freed (drv s)"
    using assms(1) s1(2,3) by (auto simp: rt_serial_close_def close_rx_def close_tx_def Let_def)
  have c: "freed (drv (snd (uart_configure u x cfg s))) = freed (drv s)" "serials (drv (snd (uart_configure u x cfg s))) = serials (drv s)"
    for cfg s by (simp_all add: uart_configure_def split: option.splits prod.splits)
  let ?s0 = "upd_serial x (\<lambda>d. d\<lparr>sd_serial_rx := 0, sd_serial_tx := 0\<rparr>) s3"
  let ?q = "uart_configure u x (sd_config (serials (drv ?s0) x)) ?s0"
  have "rt_serial_init u x s3 = Some (fst ?q, snd ?q)" using assms(1) by (simp add: rt_serial_init_def Let_def)
  moreover have "sd_serial_rx (serials (drv (snd ?q)) x) = 0" "freed (drv (snd ?q)) = freed (drv s)" using s3(2) by (simp_all add: c)
  ultimately show ?thesis using s1(1) s3 by blast
qed

text \<open>A UART for examples: bytes to come, bytes sent, and the answers to the bytes offered (accepted when it has no more).\<close>

record demo_hw =
  dh_in :: "u8 list"
  dh_out :: "u8 list"
  dh_ready :: "bool list"

definition demo_uart :: "demo_hw rt_uart_ops" where
  "demo_uart = \<lparr>uo_configure = None, uo_control = (\<lambda>x cmd arg h. (RT_EOK, h)),
     uo_putc = (\<lambda>x c h. case dh_ready h of
        [] \<Rightarrow> (1, h\<lparr>dh_out := dh_out h @ [c]\<rparr>)
      | r # rs \<Rightarrow> if r then (1, h\<lparr>dh_out := dh_out h @ [c], dh_ready := rs\<rparr>) else (-1, h\<lparr>dh_ready := rs\<rparr>)),
     uo_getc = (\<lambda>x h. case dh_in h of [] \<Rightarrow> (-1, h) | c # cs \<Rightarrow> (uint c, h\<lparr>dh_in := cs\<rparr>))\<rparr>"

definition demo_config :: serial_configure where
  "demo_config = \<lparr>sc_baud_rate = 115200, sc_data_bits = 8, sc_stop_bits = 0, sc_parity = 0, sc_bit_order = 0, sc_invert = 0,
     sc_bufsz = 4, sc_flowcontrol = 0, sc_reserved = 0\<rparr>"

text \<open>A registered serial device at address 4 that was never opened.\<close>

definition sdemo :: "demo_hw sstate" where
  "sdemo = \<lparr>vk = vk vdemo, verrno = 0, vmem = (\<lambda>a. of_nat a), devs = (\<lambda>_. zero_device\<lparr>dv_flag := 0x503\<rparr>),
     drv = \<lparr>serials = (\<lambda>_. \<lparr>sd_config = demo_config, sd_serial_rx = 0, sd_serial_tx = 0\<rparr>),
       rx_fifos = (\<lambda>_. \<lparr>rx_buffer = 0, rx_put_index = 0, rx_get_index = 0, rx_is_full = False\<rparr>), tx_flags = (\<lambda>_. 0),
       hw = \<lparr>dh_in = [], dh_out = [], dh_ready = []\<rparr>, mallocs = [0x100, 0x200], freed = [], already_output = False\<rparr>\<rparr>"

text \<open>
  When the hardware accepts the carriage return but not the line feed, the transmission starts the byte again
  after it has waited: the carriage return goes out twice.
\<close>

lemma carriage_return_twice:
  "\<exists>s1 s2. int_tx_byte demo_uart 4 10 (sdemo\<lparr>devs := (\<lambda>_. zero_device\<lparr>dv_open_flag := RT_DEVICE_FLAG_STREAM\<rparr>),
      drv := (drv sdemo)\<lparr>hw := \<lparr>dh_in = [], dh_out = [], dh_ready = [True, False]\<rparr>\<rparr>\<rparr>) = (False, s1) \<and>
    int_tx_byte demo_uart 4 10 s1 = (True, s2) \<and> dh_out (hw (drv s2)) = [13, 13, 10]"
  by (simp add: int_tx_byte_def streaming_def uart_putc_def demo_uart_def zero_device_def upd_world_def sdemo_def)

section \<open>A concrete serial device\<close>

lemma sdemo_simps: "dev_ok 4 sdemo" "dv_ref_count (devs sdemo 4) = 0" "\<not> activated 4 sdemo" "\<not> opened 4 sdemo"
  "dv_flag (devs sdemo 4) = 0x503" "mallocs (drv sdemo) = [0x100, 0x200]" "serial_bufsz 4 sdemo = 4"
  using vdemo_ok by (simp_all add: sdemo_def zero_device_def activated_def opened_def dev_ok_def is_device_def serial_bufsz_def demo_config_def)

theorem serial_open_close_roundtrip_witness:
  "\<exists>s1 s2. rt_device_open (\<lambda>_. serial_ops demo_uart) 4 0x503 sdemo = Some (RT_EOK, s1) \<and> rx_rep 4 s1 [] \<and>
     rt_device_close (\<lambda>_. serial_ops demo_uart) 4 s1 = Some (RT_EOK, s2) \<and> freed (drv s2) = [0x200, 0x100]"
proof -
  have f: "freed (drv sdemo) = []" by (simp add: sdemo_def)
  have b: "bit (0x503 :: u16) 8" "bit (0x503 :: u16) 10" "\<not> bit (0x503 :: u16) 9" "\<not> bit (0x503 :: u16) 11" by simp_all
  show ?thesis
    using serial_open_close_roundtrip[of 4 sdemo "0x503" "0x100" "0x200" "[]" demo_uart] sdemo_simps b f
    by (auto simp: demo_uart_def)
qed

text \<open>The device with an open receive queue that holds two bytes, and five more to come.\<close>

definition sdemo_open :: "demo_hw sstate" where
  "sdemo_open = sdemo\<lparr>devs := (\<lambda>_. zero_device\<lparr>dv_flag := 0x513, dv_open_flag := 0x10b, dv_ref_count := 1\<rparr>),
     drv := (drv sdemo)\<lparr>serials := (\<lambda>_. \<lparr>sd_config = demo_config, sd_serial_rx = 0x100, sd_serial_tx = 0\<rparr>),
       rx_fifos := (\<lambda>_. \<lparr>rx_buffer = 0x10c, rx_put_index = 1, rx_get_index = 3, rx_is_full = False\<rparr>),
       hw := \<lparr>dh_in = [1, 2, 3], dh_out = [], dh_ready = []\<rparr>\<rparr>\<rparr>"

lemma sdemo_open_fifo: "rx_fifo_of 4 sdemo_open = \<lparr>rx_buffer = 0x10c, rx_put_index = 1, rx_get_index = 3, rx_is_full = False\<rparr>"
  by (simp add: sdemo_open_def rx_fifo_of_def)

lemma sdemo_open_rep: "rx_rep 4 sdemo_open [0x0f, 0x0c]" "serial_bufsz 4 sdemo_open = 4"
proof -
  show b: "serial_bufsz 4 sdemo_open = 4" by (simp add: sdemo_open_def serial_bufsz_def demo_config_def)
  show "rx_rep 4 sdemo_open [0x0f, 0x0c]"
  proof (rule rx_repI[OF _ sdemo_open_fifo, of 4 3])
    show "sd_serial_rx (serials (drv sdemo_open) 4) \<noteq> 0" by (simp add: sdemo_open_def)
    fix i :: nat
    assume "i < length [0x0f, 0x0c :: u8]"
    then have "i = 0 \<or> i = 1" by auto
    then show "vmem sdemo_open (rx_buffer \<lparr>rx_buffer = 0x10c, rx_put_index = 1, rx_get_index = 3, rx_is_full = False\<rparr> + (3 + i) mod 4) =
        [0x0f, 0x0c] ! i" by (auto simp: sdemo_open_def sdemo_def)
  qed (simp_all add: b)
qed

theorem serial_isr_keeps_newest_witness:
  "\<exists>s'. rt_hw_serial_isr demo_uart (\<lambda>f x n s. Some s) 4 RT_SERIAL_EVENT_RX_IND sdemo_open = Some s' \<and> rx_rep 4 s' [1, 2, 3]"
proof -
  have "uart_feeds demo_uart 4 [1, 2, 3] (hw (drv sdemo_open)) \<lparr>dh_in = [], dh_out = [], dh_ready = []\<rparr>"
    by (simp add: sdemo_open_def demo_uart_def)
  moreover have "dv_rx_indicate (devs sdemo_open 4) = None" by (simp add: sdemo_open_def zero_device_def)
  ultimately show ?thesis
    using serial_isr_keeps_newest[OF sdemo_open_rep(1), of demo_uart "[1, 2, 3]" _ "\<lambda>f x n s. Some s"]
    by (force simp: sdemo_open_rep(2) newest_def)
qed

theorem serial_read_takes_oldest_witness:
  "\<exists>s'. rt_serial_read demo_uart 4 0 0x300 1 sdemo_open = Some (Done 1, s') \<and> rx_rep 4 s' [0x0c] \<and> vmem s' 0x300 = 0x0f"
proof -
  have "{0x300 ..< 0x300 + unat (1 :: u32)} \<inter> rx_area 4 sdemo_open = {}"
    unfolding rx_area_def sdemo_open_rep(2) sdemo_open_fifo by auto
  moreover have "dv_open_flag (devs sdemo_open 4) AND 0x100 \<noteq> 0" by (simp add: sdemo_open_def)
  ultimately show ?thesis
    using serial_read_takes_oldest[OF sdemo_open_rep(1), of "0x300" 1 demo_uart 0] by auto
qed

theorem serial_write_sends_text_witness:
  "\<exists>s'. rt_serial_write demo_uart 4 0 10 1 (sdemo\<lparr>devs := (\<lambda>_. zero_device\<lparr>dv_open_flag := RT_DEVICE_FLAG_STREAM\<rparr>)\<rparr>) = Some (Done 1, s') \<and>
     dh_out (hw (drv s')) = [13, 10]"
  using serial_write_sends_text[of 4 "sdemo\<lparr>devs := (\<lambda>_. zero_device\<lparr>dv_open_flag := RT_DEVICE_FLAG_STREAM\<rparr>)\<rparr>" demo_uart 0 10 1]
  by (simp add: zero_device_def streaming_def sdemo_def demo_uart_def)

end
