(* ===== verification/Clock.thy ===== *)
theory Clock
  imports Thread
begin

text \<open>
  \<^verbatim>\<open>src/clock.c\<close> and the tick interrupt \<^verbatim>\<open>SysTick_Handler\<close> of \<^verbatim>\<open>drivers/drv_common.c\<close>: the tick counter,
  time slices, and the check of the hard timers at every tick. The lemmas show that an interrupt
  returns and keeps the kernel invariant, that a used up time slice has the effect of a yield, that
  the timer list stays in the order of expiry from tick to tick, and that a thread that sleeps for
  \<open>n\<close> ticks is awake after \<open>n\<close> interrupts.
\<close>

section \<open>Operations\<close>

definition rt_tick_set :: "u32 \<Rightarrow> kstate \<Rightarrow> kstate" where
  "rt_tick_set t s = s\<lparr>tick := t\<rparr>"

abbreviation (input) RT_TICK_PER_SECOND :: u32 where "RT_TICK_PER_SECOND \<equiv> 1000"

definition rt_tick_get_millisecond :: "kstate \<Rightarrow> u32" where
  "rt_tick_get_millisecond s = rt_tick_get s * (1000 div RT_TICK_PER_SECOND)"

text \<open>The interrupted thread pays for the tick; a used up slice is refilled and ends in a yield.\<close>

definition rt_tick_increase :: "callbacks \<Rightarrow> kstate \<Rightarrow> kstate option" where
  "rt_tick_increase ucb s = do {
     let s = s\<lparr>tick := tick s + 1\<rparr>;
     t \<leftarrow> rt_thread_self s;
     let s = upd_thread t (\<lambda>th. th\<lparr>th_remaining_tick := th_remaining_tick th - 1\<rparr>) s;
     s \<leftarrow> (if th_remaining_tick (threads s t) = 0 then
            let s = upd_thread t (\<lambda>th. th\<lparr>th_remaining_tick := th_init_tick th\<rparr>) s;
                s = upd_thread t (\<lambda>th. th\<lparr>th_stat := th_stat th OR RT_THREAD_STAT_YIELD\<rparr>) s
            in rt_schedule s
          else Some s);
     rt_timer_check ucb s
   }"

text \<open>\<^verbatim>\<open>HAL_IncTick\<close> counts a variable of the vendor's library that the kernel does not read.\<close>

definition SysTick_Handler :: "callbacks \<Rightarrow> kstate \<Rightarrow> kstate option" where
  "SysTick_Handler ucb s = do {
     let s = rt_interrupt_enter s;
     s \<leftarrow> rt_tick_increase ucb s;
     Some (rt_interrupt_leave s)
   }"

fun ticks_pass :: "callbacks \<Rightarrow> nat \<Rightarrow> kstate \<Rightarrow> kstate option" where
  "ticks_pass ucb 0 s = Some s"
| "ticks_pass ucb (Suc n) s = SysTick_Handler ucb s \<bind> ticks_pass ucb n"

section \<open>Counting a tick\<close>

definition slice_end :: "tid \<Rightarrow> kstate \<Rightarrow> bool" where
  "slice_end t s \<longleftrightarrow> th_remaining_tick (threads s t) = 1"

text \<open>The state at the check of the timers.\<close>

definition count_tick :: "kstate \<Rightarrow> kstate option" where
  "count_tick s = do {
     t \<leftarrow> cur s;
     let s' = s\<lparr>tick := tick s + 1\<rparr>;
     if slice_end t s then do { (_, s) \<leftarrow> rt_thread_yield s'; Some s }
     else Some (upd_thread t (\<lambda>th. th\<lparr>th_remaining_tick := th_remaining_tick th - 1\<rparr>) s')
   }"

lemma tick_increase_eq: "rt_tick_increase ucb s = count_tick s \<bind> rt_timer_check ucb"
proof (cases "cur s")
  case (Some t)
  have z: "th_remaining_tick (threads s t) - 1 = 0 \<longleftrightarrow> slice_end t s" by (simp add: slice_end_def)
  show ?thesis
  proof (cases "slice_end t s")
    case True
    let ?f = "\<lambda>th. th\<lparr>th_remaining_tick := th_init_tick th, th_stat := th_stat th OR RT_THREAD_STAT_YIELD\<rparr>"
    have "upd_thread t (\<lambda>th. th\<lparr>th_stat := th_stat th OR RT_THREAD_STAT_YIELD\<rparr>)
        (upd_thread t (\<lambda>th. th\<lparr>th_remaining_tick := th_init_tick th\<rparr>)
          (upd_thread t (\<lambda>th. th\<lparr>th_remaining_tick := th_remaining_tick th - 1\<rparr>) (s\<lparr>tick := tick s + 1\<rparr>))) =
      upd_thread t ?f (s\<lparr>tick := tick s + 1\<rparr>)"
      by (simp add: upd_thread_def)
    moreover have "th_remaining_tick (threads (upd_thread t (\<lambda>th. th\<lparr>th_remaining_tick := th_remaining_tick th - 1\<rparr>)
        (s\<lparr>tick := tick s + 1\<rparr>)) t) = 0" using True by (simp add: upd_thread_def slice_end_def)
    ultimately show ?thesis using Some True
      by (simp add: rt_tick_increase_def count_tick_def rt_thread_self_def rt_thread_yield_def Let_def)
  next
    case False
    then have "th_remaining_tick (threads (upd_thread t (\<lambda>th. th\<lparr>th_remaining_tick := th_remaining_tick th - 1\<rparr>)
        (s\<lparr>tick := tick s + 1\<rparr>)) t) \<noteq> 0" using z by (simp add: upd_thread_def)
    then show ?thesis using Some False
      by (simp add: rt_tick_increase_def count_tick_def rt_thread_self_def)
  qed
qed (simp add: rt_tick_increase_def count_tick_def rt_thread_self_def)

text \<open>The invariants do not look at the tick, the time slice or the interrupt nesting.\<close>

lemma kern_inv_tick [simp]: "kern_inv X (s\<lparr>tick := k\<rparr>) = kern_inv X s"
  by (rule kern_inv_cong) (simp_all add: tstat_def prio_def)

lemma kern_inv_nest [simp]: "kern_inv X (s\<lparr>int_nest := k\<rparr>) = kern_inv X s"
  by (rule kern_inv_cong) (simp_all add: tstat_def prio_def)

lemma kern_inv_slice:
  assumes "\<And>th. f th = th\<lparr>th_remaining_tick := g th, th_stat := h th\<rparr> \<and> h th AND RT_THREAD_STAT_MASK = th_stat th AND RT_THREAD_STAT_MASK"
  shows "kern_inv X (upd_thread t f s) = kern_inv X s" "stacks_ok (upd_thread t f s) = stacks_ok s"
    "tstat (upd_thread t f s) u = tstat s u"
proof -
  have st: "tstat (upd_thread t f s) u = tstat s u" for u using assms by (simp add: tstat_def upd_thread_def)
  show "kern_inv X (upd_thread t f s) = kern_inv X s"
    by (rule kern_inv_cong) (use st assms in \<open>simp_all add: prio_def upd_thread_def\<close>)
  have "stack_check (threads (upd_thread t f s) u) = stack_check (threads s u)" for u
    using assms by (simp add: upd_thread_def stack_check_def)
  then show "stacks_ok (upd_thread t f s) = stacks_ok s" by (simp add: stacks_ok_def started_def st)
  show "tstat (upd_thread t f s) u = tstat s u" by (rule st)
qed

lemma check_ready_upd:
  assumes "kern_wf s' = kern_wf s" "stacks_ok s' = stacks_ok s" "cur s' = cur s" "objs s' = objs s" "timers s' = timers s"
  shows "check_ready s' = check_ready s"
  using assms by (simp add: check_ready_def periods_ok_def has_flag_def rt_object_get_type_def)

lemma check_ready_simps [simp]:
  "check_ready (s\<lparr>tick := k\<rparr>) = check_ready s" "check_ready (s\<lparr>int_nest := n\<rparr>) = check_ready s"
  by (rule check_ready_upd; simp add: stacks_ok_def started_def tstat_def)+

text \<open>A scheduling point keeps the invariant and the timers.\<close>

lemma schedule_ready:
  assumes "check_ready s"
  obtains s' where "rt_schedule s = Some s'" "check_ready s'" "tmlists s' = tmlists s" "timers s' = timers s"
    "tick s' = tick s" "int_nest s' = int_nest s" "\<forall>u. awake s u \<longrightarrow> awake s' u"
    "\<forall>u. tstat s u = RT_THREAD_SUSPEND \<longrightarrow> tstat s' u = RT_THREAD_SUSPEND"
proof -
  have r: "kern_wf s" "cur s \<noteq> None" "stacks_ok s" "periods_ok s" using assms by (simp_all add: check_ready_def)
  obtain s' where s': "rt_schedule s = Some s'" "kern_wf s'" "cur s' \<noteq> None" "stacks_ok s'"
    "\<And>u. tstat s u = RT_THREAD_SUSPEND \<Longrightarrow> tstat s' u = RT_THREAD_SUSPEND"
    "\<And>u. tstat s u \<in> {RT_THREAD_READY, RT_THREAD_RUNNING} \<Longrightarrow> tstat s' u \<in> {RT_THREAD_READY, RT_THREAD_RUNNING}"
    by (rule schedule_kern[OF r(1-3)]) blast
  note f = no_sched_fields[OF no_sched_schedule[OF s'(1)]]
  have "check_ready s'" using s'(2-4) r(4) f(4,6) by (simp add: check_ready_def periods_ok_def has_flag_def rt_object_get_type_def)
  then show ?thesis using that[of s'] s'(1,5,6) f(2,3,6,7) by (simp add: awake_def)
qed

lemma count_tick_ready:
  assumes "check_ready s"
  obtains s' where "count_tick s = Some s'" "check_ready s'" "tick s' = tick s + 1" "tmlists s' = tmlists s"
    "timers s' = timers s" "int_nest s' = int_nest s" "\<forall>u. awake s u \<longrightarrow> awake s' u"
    "\<forall>u. tstat s u = RT_THREAD_SUSPEND \<longrightarrow> tstat s' u = RT_THREAD_SUSPEND"
proof -
  obtain t where t: "cur s = Some t" using assms by (auto simp: check_ready_def)
  let ?s = "s\<lparr>tick := tick s + 1\<rparr>"
  have e: "tstat ?s u = tstat s u" for u by (simp add: tstat_def)
  show ?thesis
  proof (cases "slice_end t s")
    case True
    define f :: "rt_thread \<Rightarrow> rt_thread" where "f = (\<lambda>th. th\<lparr>th_remaining_tick := th_init_tick th, th_stat := th_stat th OR RT_THREAD_STAT_YIELD\<rparr>)"
    define s1 where "s1 = upd_thread t f ?s"
    have k: "kern_inv {} s1 = kern_inv {} ?s" "stacks_ok s1 = stacks_ok ?s" "tstat s1 u = tstat ?s u" for u
      unfolding s1_def by (rule kern_inv_slice[where f = f and g = th_init_tick and h = "\<lambda>th. th_stat th OR RT_THREAD_STAT_YIELD"];
        simp add: f_def)+
    have e1: "cur s1 = cur s" "tmlists s1 = tmlists s" "timers s1 = timers s" "objs s1 = objs s"
      "tick s1 = tick s + 1" "int_nest s1 = int_nest s" by (simp_all add: s1_def upd_thread_def)
    have "check_ready s1" using check_ready_upd[of s1 ?s] k e1 assms by simp
    then obtain s2 where s2: "rt_schedule s1 = Some s2" "check_ready s2" "tmlists s2 = tmlists s1"
      "timers s2 = timers s1" "tick s2 = tick s1" "int_nest s2 = int_nest s1" "\<forall>u. awake s1 u \<longrightarrow> awake s2 u"
      "\<forall>u. tstat s1 u = RT_THREAD_SUSPEND \<longrightarrow> tstat s2 u = RT_THREAD_SUSPEND"
      by (rule schedule_ready)
    have "count_tick s = Some s2"
      using t True s2(1) by (simp add: count_tick_def rt_thread_yield_def rt_thread_self_def s1_def f_def)
    moreover have "awake s1 u = awake s u" for u using k(3) e by (simp add: awake_def)
    ultimately show ?thesis using that[of s2] s2 e1 k(3) e by simp
  next
    case False
    define f :: "rt_thread \<Rightarrow> rt_thread" where "f = (\<lambda>th. th\<lparr>th_remaining_tick := th_remaining_tick th - 1\<rparr>)"
    define s1 where "s1 = upd_thread t f ?s"
    have k: "kern_inv {} s1 = kern_inv {} ?s" "stacks_ok s1 = stacks_ok ?s" "tstat s1 u = tstat ?s u" for u
      unfolding s1_def by (rule kern_inv_slice[where f = f and g = "\<lambda>th. th_remaining_tick th - 1" and h = th_stat]; simp add: f_def)+
    have e1: "cur s1 = cur s" "tmlists s1 = tmlists s" "timers s1 = timers s" "objs s1 = objs s"
      "tick s1 = tick s + 1" "int_nest s1 = int_nest s" by (simp_all add: s1_def upd_thread_def)
    have "check_ready s1" using check_ready_upd[of s1 ?s] k e1 assms by simp
    moreover have "count_tick s = Some s1" using t False by (simp add: count_tick_def s1_def f_def)
    ultimately show ?thesis using that[of s1] e1 k(3) e by (simp add: awake_def)
  qed
qed

text \<open>The check of the timers as the loop on the state with an empty local list.\<close>

lemma timer_check_eq: "rt_timer_check ucb s = timer_check_loop ucb (tick s) (s\<lparr>tmlists := (tmlists s)(TmHardLocal := [])\<rparr>)"
  by (simp add: rt_timer_check_def rt_tick_get_def)

lemma local_emptied: "check_ready s \<Longrightarrow> check_ready (s\<lparr>tmlists := (tmlists s)(TmHardLocal := [])\<rparr>)"
proof -
  assume r: "check_ready s"
  then have k: "kern_wf s" by (simp add: check_ready_def)
  then have "ll_wf ((tmlists s)(TmHardLocal := []))" by (auto simp: kern_inv_def timer_wf_def ll_wf_def)
  then have "kern_wf (s\<lparr>tmlists := (tmlists s)(TmHardLocal := [])\<rparr>)" using k by (intro tmlists_upd_inv) auto
  then show ?thesis using r
    by (simp add: check_ready_def stacks_ok_def started_def tstat_def periods_ok_def has_flag_def rt_object_get_type_def)
qed

lemma tick_increase_total:
  assumes "callbacks_ok ucb" "check_ready s"
  obtains s' where "rt_tick_increase ucb s = Some s'" "check_ready s'" "tick s' = tick s + 1"
    "\<forall>t ts. tmlists s' TmHard = t # ts \<longrightarrow> \<not> due s' t"
proof -
  obtain s1 where s1: "count_tick s = Some s1" "check_ready s1" "tick s1 = tick s + 1"
    by (rule count_tick_ready[OF assms(2)])
  show ?thesis
    using check_loop_total[OF assms(1) local_emptied[OF s1(2)]] s1 that
    by (auto simp: tick_increase_eq timer_check_eq)
qed

section \<open>The order of the timer list from tick to tick\<close>

text \<open>
  \<open>key s a\<close> counts the ticks to the expiry of \<open>a\<close> from the tick before the current one, so that a
  timer that expired at that tick still has a key in range. \<open>in_order\<close> holds during the check, \<open>settled\<close>
  between two ticks: no expired timer is left.
\<close>

definition key :: "kstate \<Rightarrow> addr \<Rightarrow> u32" where
  "key s a = tm_timeout_tick (timers s a) - (tick s - 1)"

definition in_order :: "kstate \<Rightarrow> bool" where
  "in_order s \<longleftrightarrow> (\<forall>a\<in>set (tmlists s TmHard). key s a \<le> RT_TICK_HALF) \<and> sorted (map (key s) (tmlists s TmHard))"

definition settled :: "kstate \<Rightarrow> bool" where
  "settled s \<longleftrightarrow> in_order s \<and> (\<forall>a\<in>set (tmlists s TmHard). key s a \<noteq> 0)"

lemma in_order_cong:
  assumes "tmlists s' TmHard = tmlists s TmHard" "timers s' = timers s" "tick s' = tick s"
  shows "in_order s' = in_order s"
proof -
  have "key s' = key s" using assms by (simp add: key_def fun_eq_iff)
  then show ?thesis using assms(1) by (simp add: in_order_def)
qed

lemma in_order_remove:
  assumes "in_order s" "tmlists s' TmHard = remove1 a (tmlists s TmHard)" "timers s' = timers s" "tick s' = tick s"
  shows "in_order s'"
proof -
  have "key s' = key s" using assms by (simp add: key_def fun_eq_iff)
  then show ?thesis using assms(1,2) notin_set_remove1 by (fastforce simp: in_order_def intro: sorted_map_remove1)
qed

text \<open>The comparison of the walk, with the earlier timers one tick further back.\<close>

lemma wrap_compare_late:
  fixes d e :: u32
  assumes "d \<le> RT_TICK_HALF" "0 < e" "e \<le> RT_TICK_HALF"
  shows "(d - e \<noteq> 0 \<and> d - e < RT_TICK_HALF) \<longleftrightarrow> e < d"
proof (cases "e \<le> d")
  case True
  then have "unat (d - e) = unat d - unat e" by (simp add: word_le_nat_alt unat_sub)
  moreover have "unat d \<le> 0x7fffffff" "0 < unat e" "unat e \<le> unat d"
    using assms True by (simp_all add: word_le_nat_alt unat_gt_0)
  ultimately have "d - e < RT_TICK_HALF" by (simp add: word_less_nat_alt)
  then show ?thesis using True by auto
next
  case False
  then have "uint (d - e) = uint d - uint e + 4294967296"
    by (simp add: uint_sub_if_size word_size word_le_def)
  moreover have "uint e \<le> 0x7fffffff" using assms(3) by (simp add: word_le_def)
  ultimately have "uint (d - e) > 0x7fffffff" using uint_ge_0[of d] by linarith
  then have "\<not> d - e < RT_TICK_HALF" by (simp add: word_less_def)
  then show ?thesis using False by auto
qed

lemma timer_walk_sorted:
  fixes base :: u32
  defines "k \<equiv> \<lambda>tms x. tm_timeout_tick (tms x) - base"
  assumes "\<forall>x\<in>set ts. k tms x \<le> RT_TICK_HALF" "sorted (map (k tms) ts)"
    and "k tms a = e - base" "0 < e - base" "e - base \<le> RT_TICK_HALF"
  shows "sorted (map (k tms) (timer_walk tms e a ts))"
  using assms(2,3)
proof (induction ts)
  case (Cons t ts)
  have "tm_timeout_tick (tms t) - e = k tms t - (e - base)" by (simp add: k_def)
  moreover have "(k tms t - (e - base) \<noteq> 0 \<and> k tms t - (e - base) < RT_TICK_HALF) \<longleftrightarrow> e - base < k tms t"
    using wrap_compare_late[of "k tms t" "e - base"] Cons.prems(1) assms(5,6) by simp
  ultimately have cmp: "(tm_timeout_tick (tms t) - e \<noteq> 0 \<and> tm_timeout_tick (tms t) - e < RT_TICK_HALF) \<longleftrightarrow> e - base < k tms t"
    by (simp only:)
  show ?case
  proof (cases "e - base < k tms t")
    case True
    then have "timer_walk tms e a (t # ts) = a # t # ts" using cmp by (simp add: Let_def)
    then show ?thesis using True Cons.prems(2) assms(4) by (auto intro: less_imp_le less_le_trans)
  next
    case False
    then have w: "timer_walk tms e a (t # ts) = t # timer_walk tms e a ts" using cmp by (auto simp: Let_def)
    show ?thesis unfolding w using False Cons assms(4) by (auto simp: set_timer_walk)
  qed
qed (simp add: assms(4))

text \<open>Starting a timer.\<close>

lemma key_on:
  "b \<noteq> a \<Longrightarrow> key (timer_on a s) b = key s b" "key (timer_on a s) a = tm_init_tick (timers s a) + 1"
  by (simp_all add: key_def)

lemma timer_on_in_order:
  assumes o: "in_order s" and wf: "ll_wf (tmlists s)" and i: "tm_init_tick (timers s a) < RT_TICK_HALF"
  shows "in_order (timer_on a s)" "settled s \<Longrightarrow> settled (timer_on a s)"
proof -
  let ?ts = "remove1 a (tmlists s TmHard)" and ?s = "timer_on a s"
  have na: "a \<notin> set ?ts" using wf by (simp add: ll_wf_def)
  have sub: "set ?ts \<subseteq> set (tmlists s TmHard)" by (rule set_remove1_subset)
  have "unat (tm_init_tick (timers s a) + 1) = unat (tm_init_tick (timers s a)) + 1"
    using i by (simp add: unat_add_lem[THEN iffD1] word_less_nat_alt)
  then have ka: "0 < key ?s a" "key ?s a \<le> RT_TICK_HALF"
    using i by (simp_all add: key_on word_less_nat_alt word_le_nat_alt)
  have kk: "key ?s x = key s x" if "x \<in> set ?ts" for x using that na by (metis key_on(1))
  have old: "\<forall>x\<in>set ?ts. key ?s x \<le> RT_TICK_HALF" "sorted (map (key ?s) ?ts)"
  proof -
    show "\<forall>x\<in>set ?ts. key ?s x \<le> RT_TICK_HALF" using o sub kk by (auto simp: in_order_def)
    have "map (key ?s) ?ts = map (key s) ?ts" by (rule map_cong[OF refl]) (rule kk)
    moreover have "sorted (map (key s) ?ts)" using o by (simp add: in_order_def sorted_map_remove1)
    ultimately show "sorted (map (key ?s) ?ts)" by (simp only:)
  qed
  have soft: "tmlists ?s TmHard = ?ts" if "timer_head a s \<noteq> TmHard"
    using that by (simp add: timer_on_lists ll_remove_def)
  have hard: "tmlists ?s TmHard = timer_walk (timers ?s) (tick s + tm_init_tick (timers s a)) a ?ts" if "timer_head a s = TmHard"
    unfolding timer_on_lists using that by (simp add: ll_remove_def)
  have "sorted (map (key ?s) (timer_walk (timers ?s) (tick s + tm_init_tick (timers s a)) a ?ts))"
  proof -
    have kf: "key ?s = (\<lambda>x. tm_timeout_tick (timers ?s x) - (tick s - 1))" by (simp add: key_def fun_eq_iff)
    have "key ?s a = tick s + tm_init_tick (timers s a) - (tick s - 1)" by (simp add: key_on)
    then show ?thesis
      using old ka timer_walk_sorted[of ?ts "timers ?s" "tick s - 1" a "tick s + tm_init_tick (timers s a)"]
      unfolding kf by (simp only:)
  qed
  then show 1: "in_order ?s"
    using old ka(2) hard soft by (cases "timer_head a s = TmHard") (auto simp: in_order_def set_timer_walk)
  assume "settled s"
  then have "\<forall>x\<in>set ?ts. key ?s x \<noteq> 0" using sub kk by (auto simp: settled_def)
  then show "settled ?s"
    using 1 ka(1) hard soft by (cases "timer_head a s = TmHard") (auto simp: settled_def set_timer_walk)
qed

section \<open>A waiting thread is woken in time\<close>

text \<open>
  \<open>pending t e s\<close>: the timer of thread \<open>t\<close> is queued and expires at tick \<open>e\<close>. \<open>on_time\<close> is the invariant of
  the check: the timers are in order, and \<open>t\<close> still waits for \<open>e\<close> or is awake; with \<open>None\<close> for \<open>e\<close>, \<open>t\<close> is awake.
\<close>

definition pending :: "tid \<Rightarrow> u32 option \<Rightarrow> kstate \<Rightarrow> bool" where
  "pending t e s \<longleftrightarrow> TimerOf t \<in> set (tmlists s TmHard) \<and> e = Some (tm_timeout_tick (timers s (TimerOf t)))"

definition on_time :: "tid \<Rightarrow> u32 option \<Rightarrow> kstate \<Rightarrow> bool" where
  "on_time t e s \<longleftrightarrow> in_order s \<and> (awake s t \<or> pending t e s)"

text \<open>
  What the application's callbacks must not do: disturb the order of the timer list (by a time of half
  the tick range, which the assertions refuse) or take the timer of \<open>t\<close> away without waking \<open>t\<close>.
\<close>

definition callbacks_timely :: "callbacks \<Rightarrow> tid \<Rightarrow> bool" where
  "callbacks_timely ucb t \<longleftrightarrow> callbacks_ok ucb \<and>
    (\<forall>n s s' e. check_ready s \<longrightarrow> on_time t e s \<longrightarrow> ucb n s = Some s' \<longrightarrow> on_time t e s')"

lemma pending_kern:
  assumes "kern_wf s" "pending t e s"
  shows "tstat s t = RT_THREAD_SUSPEND" "tm_func (timers s (TimerOf t)) = TF_thread_timeout t"
proof -
  have "has_flag RT_TIMER_FLAG_ACTIVATED (TimerOf t) s"
    using assms by (auto simp: kern_inv_def timer_wf_def pending_def)
  then show 1: "tstat s t = RT_THREAD_SUSPEND" using assms(1) by (simp add: kern_inv_def thread_tm_wf_def)
  then show "tm_func (timers s (TimerOf t)) = TF_thread_timeout t"
    using kern_started(4)[OF assms(1)] by (simp add: started_def)
qed

lemma start_on_time:
  assumes r: "check_ready s" and o: "in_order s" and ty: "rt_object_get_type a s = RT_Object_Class_Timer"
    and susp: "\<And>t. a = TimerOf t \<Longrightarrow> tstat s t = RT_THREAD_SUSPEND"
    and i: "tm_init_tick (timers s a) < RT_TICK_HALF" and s': "rt_timer_start a s = Some (c, s')"
  shows "in_order s'" "settled s \<Longrightarrow> settled s'" "\<forall>u. awake s u \<longrightarrow> awake s' u"
    "a \<noteq> TimerOf t \<Longrightarrow> pending t e s \<Longrightarrow> awake s' t \<or> pending t e s'"
proof -
  have wf: "ll_wf (tmlists s)" using r by (simp add: check_ready_def kern_inv_def timer_wf_def)
  note on = timer_on_in_order[OF o wf i]
  obtain s2 where s2: "rt_timer_start a s = Some (RT_EOK, s2)" "tick s2 = tick s"
    "timers s2 = timers (timer_on a s)"
    "tmlists s2 TmHard = tmlists (timer_on a s) TmHard \<or>
     tmlists s2 TmHard = remove1 (TimerOf timer_thread) (tmlists (timer_on a s) TmHard) \<and> awake s2 timer_thread"
    "\<forall>u. awake s u \<longrightarrow> awake s2 u"
    by (rule start_total[OF r ty susp]) blast+
  have [simp]: "s' = s2" using s' s2(1) by simp
  have t2: "tick s2 = tick (timer_on a s)" using s2(2) by simp
  have kk: "key s2 = key (timer_on a s)" using s2(3) t2 by (simp add: key_def fun_eq_iff)
  show "in_order s'"
    using s2(4) in_order_cong[OF _ s2(3) t2] in_order_remove[OF on(1) _ s2(3) t2] on(1) by auto
  then show "settled s'" if "settled s"
    using on(2)[OF that] s2(4) kk by (auto simp: settled_def dest: notin_set_remove1)
  show "\<forall>u. awake s u \<longrightarrow> awake s' u" using s2(5) by simp
  show "awake s' t \<or> pending t e s'" if "a \<noteq> TimerOf t" "pending t e s"
  proof -
    have "TimerOf t \<in> set (tmlists (timer_on a s) TmHard)"
      using that unfolding pending_def timer_on_lists by (auto simp: set_timer_walk set_ll_remove[OF wf])
    moreover have "e = Some (tm_timeout_tick (timers s2 (TimerOf t)))" using that s2(3) by (auto simp: pending_def)
    ultimately show ?thesis using s2(4) by (cases "t = timer_thread") (auto simp: pending_def)
  qed
qed

text \<open>One round of the check.\<close>

lemma round_on_time:
  assumes cb: "callbacks_timely ucb t" and r: "check_ready s" and o: "on_time t e s"
    and l: "tmlists s TmHard = a # ts"
    and run: "run_timeout ucb (tm_func (timers s a)) (timer_expire TmHardLocal a s) = Some s2"
  shows "on_time t e s2" "a = TimerOf t \<Longrightarrow> awake s2 t"
proof -
  define s1 where "s1 = timer_expire TmHardLocal a s"
  have e: "check_ready s1" "tmlists s1 TmHard = ts" "timers s1 = timers s" "tick s1 = tick s" "threads s1 = threads s"
    "has_flag RT_TIMER_FLAG_ACTIVATED a s1 = has_flag RT_TIMER_FLAG_PERIODIC a s"
    using expire_step[OF r l, of TmHardLocal] by (simp_all add: s1_def)
  have k: "kern_wf s" "kern_wf s1" using r e(1) by (simp_all add: check_ready_def)
  have ino: "in_order s1" using o e l by (intro in_order_remove[of s s1 a]) (simp_all add: on_time_def)
  have aw: "awake s1 u = awake s u" for u using e(5) by (simp add: awake_def tstat_def)
  have act: "has_flag RT_TIMER_FLAG_ACTIVATED a s"
    using k(1) l unfolding kern_inv_def timer_wf_def by (metis list.set_intros(1) insertI1)
  have th: "tstat s u = RT_THREAD_SUSPEND" "tm_func (timers s a) = TF_thread_timeout u" if "a = TimerOf u" for u
    using pending_kern[OF k(1), of u "Some (tm_timeout_tick (timers s a))"] l that by (simp_all add: pending_def)
  have o1: "on_time t e s1" if "a \<noteq> TimerOf t"
    using that o ino aw e(2,3) l by (auto simp: on_time_def pending_def)
  have "on_time t e s2 \<and> (a = TimerOf t \<longrightarrow> awake s2 t)"
  proof (cases "tm_func (timers s a)")
    case (TF_thread_timeout u)
    then have au: "a = TimerOf u" using k(1) by (simp add: kern_inv_def thread_tm_wf_def)
    have "\<not> has_flag RT_TIMER_FLAG_PERIODIC a s"
      using kern_started(5)[OF k(1), of u] th(1)[OF au] au by (simp add: started_def)
    then have off: "\<not> has_flag RT_TIMER_FLAG_ACTIVATED (TimerOf u) s1" using e(6) au by simp
    have su: "tstat s1 u = RT_THREAD_SUSPEND" using th(1)[OF au] e(5) by (simp add: tstat_def)
    have c: "cur s1 \<noteq> None" "stacks_ok s1" using e(1) by (simp_all add: check_ready_def)
    obtain s3 where s3: "do_thread_timeout u s1 = Some s3" "tmlists s3 = tmlists s1" "timers s3 = timers s1"
      "tick s3 = tick s1" "tstat s3 u \<in> {RT_THREAD_READY, RT_THREAD_RUNNING}" "\<forall>v. awake s1 v \<longrightarrow> awake s3 v"
      by (rule thread_timeout[OF k(2) su c off]) blast
    have [simp]: "s2 = s3" using run s3(1) TF_thread_timeout by (simp add: run_timeout_def s1_def)
    have "in_order s3" using ino in_order_cong[of s3 s1] s3(2-4) by simp
    moreover have "awake s3 u" using s3(5) by (simp add: awake_def)
    moreover have "awake s3 t \<or> pending t e s3" if "t \<noteq> u"
      using o1 that au s3(2,3,6) by (auto simp: on_time_def pending_def)
    ultimately show ?thesis using au by (auto simp: on_time_def)
  next
    case (TF_user n)
    then have "a \<noteq> TimerOf t" using th(2)[of t] by auto
    moreover have "ucb n s1 = Some s2" using run TF_user by (simp add: run_timeout_def s1_def)
    ultimately show ?thesis using cb e(1) o1 unfolding callbacks_timely_def by blast
  qed
  then show "on_time t e s2" "a = TimerOf t \<Longrightarrow> awake s2 t" by blast+
qed

lemma rearm_on_time:
  assumes r: "check_ready s" and o: "on_time t e s" and a: "a = TimerOf t \<Longrightarrow> awake s t"
    and p: "has_flag RT_TIMER_FLAG_PERIODIC a s \<and> has_flag RT_TIMER_FLAG_ACTIVATED a s \<longrightarrow>
       rt_object_get_type a s = RT_Object_Class_Timer \<and> (\<forall>u. a \<noteq> TimerOf u)"
    and s': "timer_rearm a s = Some s'"
  shows "on_time t e s'"
proof (cases "has_flag RT_TIMER_FLAG_PERIODIC a s \<and> has_flag RT_TIMER_FLAG_ACTIVATED a s")
  case False
  then have [simp]: "s' = s\<lparr>tmlists := ll_remove a (tmlists s)\<rparr>"
    using s' by (auto simp: timer_rearm_def has_flag_def Let_def)
  have wf: "ll_wf (tmlists s)" using r by (simp add: check_ready_def kern_inv_def timer_wf_def)
  have "in_order s'" using o by (intro in_order_remove[of s s' a]) (simp_all add: on_time_def ll_remove_def)
  moreover have "awake s' u = awake s u" for u by (simp add: awake_def tstat_def)
  moreover have "pending t e s \<longrightarrow> a = TimerOf t \<or> pending t e s'"
    by (auto simp: pending_def set_ll_remove[OF wf])
  ultimately show ?thesis using o a by (auto simp: on_time_def)
next
  case True
  then have ty: "rt_object_get_type a s = RT_Object_Class_Timer" "\<forall>u. a \<noteq> TimerOf u" using p by blast+
  obtain s2 where s2: "timer_rearm a s = rt_timer_start a s2 \<bind> (\<lambda>(_, s). Some s)" "check_ready s2"
    "rt_object_get_type a s2 = RT_Object_Class_Timer" "tick s2 = tick s" "timers s2 = timers s"
    "threads s2 = threads s" "tmlists s2 = ll_remove a (tmlists s)"
    "0 < tm_init_tick (timers s2 a)" "tm_init_tick (timers s2 a) < RT_TICK_HALF"
    by (rule rearm_start[OF r _ _ ty]) (use True in blast)+
  obtain c where c: "rt_timer_start a s2 = Some (c, s')"
    using s' s2(1) by (auto simp: bind_eq_Some_conv)
  have wf: "ll_wf (tmlists s)" using r by (simp add: check_ready_def kern_inv_def timer_wf_def)
  have o2: "in_order s2" using o s2(4,5,7) by (intro in_order_remove[of s s2 a]) (simp_all add: on_time_def ll_remove_def)
  have "awake s2 t = awake s t" using s2(6) by (simp add: awake_def tstat_def)
  moreover have "pending t e s \<longrightarrow> pending t e s2"
    using ty(2) s2(5) by (auto simp: pending_def s2(7) set_ll_remove[OF wf])
  moreover have "a = TimerOf u \<Longrightarrow> tstat s2 u = RT_THREAD_SUSPEND" for u using ty(2) by blast
  note st = start_on_time[OF s2(2) o2 s2(3) this s2(9) c]
  ultimately show ?thesis using o st(1,3) st(4)[of t e] ty(2) by (auto simp: on_time_def)
qed

lemma check_loop_on_time:
  assumes cb: "callbacks_timely ucb t" and s': "timer_check_loop ucb k s = Some s'"
    and r: "check_ready s" and o: "on_time t e s" and k: "k = tick s"
  shows "on_time t e s'"
proof -
  have "callbacks_timely ucb t \<longrightarrow> check_ready s \<longrightarrow> on_time t e s \<longrightarrow> k = tick s \<longrightarrow> on_time t e s'"
  proof (rule timer_check_loop.raw_induct[where P = "\<lambda>ucb k s s'. callbacks_timely ucb t \<longrightarrow> check_ready s \<longrightarrow>
        on_time t e s \<longrightarrow> k = tick s \<longrightarrow> on_time t e s'", OF _ s'], goal_cases)
    case (1 loop ucb k s s')
    show ?case
    proof (intro impI)
      assume cb: "callbacks_timely ucb t" and r: "check_ready s" and o: "on_time t e s" and k: "k = tick s"
      show "on_time t e s'"
      proof (cases "tmlists s TmHard")
        case Nil
        then show ?thesis using 1(2) o by simp
      next
        case (Cons a ts)
        show ?thesis
        proof (cases "due s a")
          case False
          then show ?thesis using 1(2) o Cons k by (simp add: due_def)
        next
          case True
          have ok: "callbacks_ok ucb" using cb by (simp add: callbacks_timely_def)
          obtain s2 where s2: "run_timeout ucb (tm_func (timers s a)) (timer_expire TmHardLocal a s) = Some s2"
            "check_ready s2" "tick s2 = tick s"
            "has_flag RT_TIMER_FLAG_PERIODIC a s2 \<and> has_flag RT_TIMER_FLAG_ACTIVATED a s2 \<longrightarrow>
               rt_object_get_type a s2 = RT_Object_Class_Timer \<and> (\<forall>u. a \<noteq> TimerOf u)"
            by (rule check_round[OF ok r Cons True]) blast
          note o2 = round_on_time[OF cb r o Cons s2(1)]
          obtain s3 where s3: "timer_rearm a s2 = Some s3" "check_ready s3" "tick s3 = tick s2"
            by (rule rearm_round[OF s2(2,4)])
          have o3: "on_time t e s3" by (rule rearm_on_time[OF s2(2) o2 s2(4) s3(1)])
          define s4 where "s4 = (if tmlists s2 TmHardLocal = [] then s2 else s3)"
          have "loop ucb (tick s4) s4 = Some s'"
            using 1(2) Cons True k s2(1,3) s3(1,3) by (simp add: due_def rt_tick_get_def s4_def Let_def split: if_splits)
          moreover have "check_ready s4" "on_time t e s4" using s2(2) s3(2) o2(1) o3 by (simp_all add: s4_def)
          ultimately show ?thesis using 1(1) cb by blast
        qed
      qed
    qed
  qed
  then show ?thesis using cb r o k by blast
qed

text \<open>A whole tick.\<close>

lemma due_key: "key s a \<le> RT_TICK_HALF \<Longrightarrow> due s a \<longleftrightarrow> key s a \<le> 1"
proof -
  assume h: "key s a \<le> RT_TICK_HALF"
  have d: "tick s - tm_timeout_tick (timers s a) = 1 - key s a" by (simp add: key_def)
  show ?thesis
  proof (cases "key s a \<le> 1")
    case True
    then have "unat (key s a) = 0 \<or> unat (key s a) = unat (1::u32)" by (auto simp: word_le_nat_alt)
    then have "key s a = 0 \<or> key s a = 1" by (metis unat_eq_zero word_unat_eq_iff)
    then show ?thesis using True unfolding due_def d by auto
  next
    case False
    then have "uint (1 - key s a) = 1 - uint (key s a) + 4294967296"
      by (simp add: uint_sub_if_size word_size word_le_def)
    moreover have "uint (key s a) \<le> 0x7fffffff" using h by (simp add: word_le_def)
    ultimately have "uint (1 - key s a) > 0x7fffffff" by linarith
    then show ?thesis using False unfolding due_def d by (simp add: word_less_def)
  qed
qed

lemma head_not_due:
  assumes "in_order s" "\<forall>a ts. tmlists s TmHard = a # ts \<longrightarrow> \<not> due s a"
  shows "\<forall>a\<in>set (tmlists s TmHard). 1 < key s a"
proof (cases "tmlists s TmHard")
  case (Cons b ts)
  then have "1 < key s b" using assms due_key[of s b] by (simp add: in_order_def not_le)
  moreover have "key s b \<le> key s a" if "a \<in> set ts" for a using that assms(1) Cons by (simp add: in_order_def)
  ultimately show ?thesis using Cons by (fastforce intro: less_le_trans)
qed simp

lemma in_order_next:
  assumes "settled s" "tmlists s' TmHard = tmlists s TmHard" "timers s' = timers s" "tick s' = tick s + 1"
  shows "in_order s'"
proof -
  have k: "key s' a = key s a - 1" for a using assms by (simp add: key_def)
  have le: "x - 1 \<le> y - 1" if "x \<le> y" "x \<noteq> 0" for x y :: u32
  proof -
    have "y \<noteq> 0" using that by auto
    then show ?thesis using that by (simp add: word_le_nat_alt unat_minus_one)
  qed
  have b: "x - 1 \<le> RT_TICK_HALF" if "x \<le> RT_TICK_HALF" "x \<noteq> 0" for x :: u32
    using that by (simp add: word_le_nat_alt unat_minus_one)
  have "sorted (map (key s') ts)" if "sorted (map (key s) ts)" "\<forall>a\<in>set ts. key s a \<noteq> 0" for ts
    using that by (induction ts) (auto simp: k le)
  then show ?thesis using assms(1,2) b by (auto simp: settled_def in_order_def k)
qed

lemma systick_step:
  assumes cb: "callbacks_timely ucb t" and r: "check_ready s" and o: "settled s" and p: "awake s t \<or> pending t e s"
  obtains s' where "SysTick_Handler ucb s = Some s'" "check_ready s'" "settled s'" "tick s' = tick s + 1"
    "awake s' t \<or> (\<exists>x. e = Some x \<and> pending t e s' \<and> unat (x - tick s) = Suc (unat (x - tick s')) \<and> x \<noteq> tick s')"
proof -
  let ?i = "rt_interrupt_enter s"
  have i: "check_ready ?i" "tmlists ?i = tmlists s" "timers ?i = timers s" "tick ?i = tick s" "awake ?i = awake s"
    using r by (simp_all add: rt_interrupt_enter_def awake_def tstat_def fun_eq_iff)
  obtain s1 where s1: "count_tick ?i = Some s1" "check_ready s1" "tick s1 = tick ?i + 1" "tmlists s1 = tmlists ?i"
    "timers s1 = timers ?i" "\<forall>u. awake ?i u \<longrightarrow> awake s1 u"
    by (rule count_tick_ready[OF i(1)])
  have ok: "callbacks_ok ucb" using cb by (simp add: callbacks_timely_def)
  define s2 where "s2 = s1\<lparr>tmlists := (tmlists s1)(TmHardLocal := [])\<rparr>"
  have r2: "check_ready s2" unfolding s2_def by (rule local_emptied[OF s1(2)])
  have in2: "in_order s2" using s1 i by (intro in_order_next[OF o]) (simp_all add: s2_def)
  have o2: "on_time t e s2"
    using p s1 i in2 by (auto simp: on_time_def pending_def s2_def awake_def tstat_def)
  obtain s3 where s3: "timer_check_loop ucb (tick s2) s2 = Some s3" "check_ready s3" "tick s3 = tick s2"
    "\<forall>a ts. tmlists s3 TmHard = a # ts \<longrightarrow> \<not> due s3 a"
    using check_loop_total[OF ok r2] by blast
  have o3: "on_time t e s3" by (rule check_loop_on_time[OF cb s3(1) r2 o2 refl])
  then have k3: "\<forall>a\<in>set (tmlists s3 TmHard). 1 < key s3 a" using head_not_due s3(4) by (simp add: on_time_def)
  let ?s = "rt_interrupt_leave s3"
  have j: "tmlists ?s = tmlists s3" "timers ?s = timers s3" "tick ?s = tick s3" "awake ?s = awake s3"
    "key ?s = key s3" "check_ready ?s = check_ready s3"
    by (simp_all add: rt_interrupt_leave_def awake_def tstat_def key_def fun_eq_iff)
  have t3: "tick s3 = tick s + 1" using s3(3) s1(3) i(4) by (simp add: s2_def)
  have "SysTick_Handler ucb s = Some ?s"
    using s1(1) s3(1) by (simp add: SysTick_Handler_def tick_increase_eq timer_check_eq s2_def)
  moreover have "settled ?s" using o3 k3 j in_order_cong[of ?s s3] by (auto simp: settled_def on_time_def)
  moreover have "unat (x - tick s) = Suc (unat (x - tick s3)) \<and> x \<noteq> tick s3" if "pending t (Some x) s3" "e = Some x" for x
  proof -
    define k where "k = key s3 (TimerOf t)"
    have k: "1 < k" "x - tick s = k" "x - tick s3 = k - 1"
      using that k3 t3 by (auto simp: pending_def key_def k_def)
    have "unat (k - 1) = unat k - 1" using k(1) by (intro unat_minus_one) auto
    moreover have "1 < unat k" using k(1) by (simp add: word_less_nat_alt)
    ultimately have "unat k = Suc (unat (k - 1))" "unat (k - 1) \<noteq> 0" by linarith+
    then show ?thesis using k(2,3) by (metis right_minus_eq unat_0)
  qed
  ultimately show ?thesis using that[of ?s] s3(2) o3 t3 j by (auto simp: on_time_def pending_def)
qed

lemma ticks_awake:
  assumes cb: "callbacks_timely ucb t"
  shows "check_ready s \<Longrightarrow> settled s \<Longrightarrow> awake s t \<Longrightarrow>
    \<exists>s'. ticks_pass ucb n s = Some s' \<and> check_ready s' \<and> settled s' \<and> awake s' t \<and> tick s' = tick s + of_nat n"
proof (induction n arbitrary: s)
  case (Suc n)
  obtain s1 where s1: "SysTick_Handler ucb s = Some s1" "check_ready s1" "settled s1" "tick s1 = tick s + 1" "awake s1 t"
    by (rule systick_step[OF cb Suc.prems(1,2), of None]) (use Suc.prems(3) in auto)
  then show ?case using Suc.IH[OF s1(2,3,5)] by (auto simp: add.assoc)
qed auto

lemma ticks_wake:
  assumes cb: "callbacks_timely ucb t"
  shows "check_ready s \<Longrightarrow> settled s \<Longrightarrow> pending t (Some e) s \<Longrightarrow> unat (e - tick s) \<le> n \<Longrightarrow> 0 < n \<Longrightarrow>
    \<exists>s'. ticks_pass ucb n s = Some s' \<and> check_ready s' \<and> settled s' \<and> awake s' t \<and> tick s' = tick s + of_nat n"
proof (induction n arbitrary: s)
  case (Suc n)
  obtain s1 where s1: "SysTick_Handler ucb s = Some s1" "check_ready s1" "settled s1" "tick s1 = tick s + 1"
    "awake s1 t \<or> pending t (Some e) s1 \<and> unat (e - tick s) = Suc (unat (e - tick s1)) \<and> e \<noteq> tick s1"
    by (rule systick_step[OF cb Suc.prems(1,2), of "Some e"]) (use Suc.prems(3) in auto)
  have "\<exists>s'. ticks_pass ucb n s1 = Some s' \<and> check_ready s' \<and> settled s' \<and> awake s' t \<and> tick s' = tick s1 + of_nat n"
  proof (cases "awake s1 t")
    case True
    then show ?thesis by (rule ticks_awake[OF cb s1(2,3)])
  next
    case False
    then have p: "pending t (Some e) s1" "unat (e - tick s1) \<le> n" "e - tick s1 \<noteq> 0" using s1(5) Suc.prems(4) by auto
    then have "0 < n" using unat_eq_zero[of "e - tick s1"] by linarith
    then show ?thesis using Suc.IH[OF s1(2,3) p(1,2)] by blast
  qed
  then show ?case using s1(1,4) by (auto simp: add.assoc)
qed simp

text \<open>Arming a thread's timer for a timed wait.\<close>

lemma arm_pending:
  assumes r: "check_ready s" and o: "settled s" and t: "tstat s t = RT_THREAD_SUSPEND" and n: "n < RT_TICK_HALF"
  obtains s' where "thread_timer_arm t n s = Some s'" "check_ready s'" "settled s'" "pending t (Some (tick s + n)) s'"
    "tick s' = tick s" "threads s' = threads s" "cur s' = cur s"
proof -
  let ?a = "TimerOf t"
  have k: "kern_wf s" using r by (simp add: check_ready_def)
  note ks = kern_started[OF k, of t]
  have ty: "rt_object_get_type ?a s = RT_Object_Class_Timer" "\<not> has_flag RT_TIMER_FLAG_SOFT_TIMER ?a s"
    "\<not> has_flag RT_TIMER_FLAG_PERIODIC ?a s"
    using ks t by (simp_all add: started_def)
  define s1 where "s1 = upd_timer ?a (\<lambda>tm. tm\<lparr>tm_init_tick := n\<rparr>) s"
  have e1: "tmlists s1 = tmlists s" "tick s1 = tick s" "objs s1 = objs s" "threads s1 = threads s" "cur s1 = cur s"
    "tm_timeout_tick (timers s1 a) = tm_timeout_tick (timers s a)" "tm_init_tick (timers s1 ?a) = n" for a
    by (simp_all add: s1_def upd_timer_def)
  have ky: "key s1 = key s" using e1 by (simp add: key_def fun_eq_iff)
  have o1: "settled s1" using o by (simp add: settled_def in_order_def ky e1)
  have "periods_ok s1" using r ty(3) unfolding check_ready_def periods_ok_def
    by (auto simp: s1_def upd_timer_def has_flag_def rt_object_get_type_def)
  then have r1: "check_ready s1"
    using r kern_inv_init_tick[of "{}" ?a "\<lambda>_. n" s] by (simp add: check_ready_def s1_def upd_timer_def stacks_ok_def started_def tstat_def)
  have ty1: "rt_object_get_type ?a s1 = RT_Object_Class_Timer" "\<not> has_flag RT_TIMER_FLAG_SOFT_TIMER ?a s1"
    using ty e1 by (simp_all add: rt_object_get_type_def has_flag_def)
  have su: "tstat s1 u = RT_THREAD_SUSPEND" if "?a = TimerOf u" for u using that t e1 by (simp add: tstat_def)
  note st = timer_start_hard[OF ty1]
  have i: "in_order s1" using o1 by (simp add: settled_def)
  have n1: "tm_init_tick (timers s1 ?a) < RT_TICK_HALF" using e1 n by simp
  have on: "settled (timer_on ?a s1)" by (rule start_on_time(2)[OF r1 i ty1(1) _ n1 st o1]) (rule su)
  have r2: "check_ready (timer_on ?a s1)"
    by (rule start_total[OF r1 ty1(1) su]) (use st in auto)
  have "pending t (Some (tick s + n)) (timer_on ?a s1)"
    using ty1(2) e1 by (auto simp: pending_def timer_on_lists timer_head_def set_timer_walk)
  moreover have "thread_timer_arm t n s = Some (timer_on ?a s1)"
    using ty(1) n st by (simp add: thread_timer_arm_def rt_timer_control_def s1_def)
  ultimately show ?thesis using that[of "timer_on ?a s1"] r2 on e1 by simp
qed

text \<open>The running thread's own suspension does not touch the timers.\<close>

lemma suspend_ready:
  assumes r: "check_ready s" and t: "tstat s t = RT_THREAD_RUNNING"
  obtains s' where "rt_thread_suspend t s = Some (RT_EOK, s')" "check_ready s'" "cur s' = Some t"
    "\<And>u. tstat s' u = (if u = t then RT_THREAD_SUSPEND else tstat s u)" "klists s' = klists s"
    "tmlists s' = tmlists s" "timers s' = timers s" "tick s' = tick s"
proof -
  have k: "kern_wf s" using r by (simp add: check_ready_def)
  obtain s' where s': "rt_thread_suspend t s = Some (RT_EOK, s')" "kern_wf s'" "cur s' = Some t"
    "\<And>u. tstat s' u = (if u = t then RT_THREAD_SUSPEND else tstat s u)" "klists s' = klists s"
    using suspend_thread[OF k t] by metis
  have off: "\<not> has_flag RT_TIMER_FLAG_ACTIVATED (TimerOf t) s"
    using k t by (auto simp: kern_inv_def thread_tm_wf_def)
  have ty: "rt_object_get_type (TimerOf t) s = RT_Object_Class_Timer"
    using kern_started(3)[OF k, of t] t by (simp add: started_def)
  obtain s1 q where s1: "rt_schedule_remove_thread t s = Some s1"
    "rt_timer_stop (TimerOf t) (upd_thread t (set_state RT_THREAD_SUSPEND) s1) = Some (q, s')"
    using s'(1) t by (auto simp: rt_thread_suspend_def bind_eq_Some_conv split: if_splits)
  note f = no_sched_fields[OF no_sched_remove[OF s1(1)]]
  let ?s = "upd_thread t (set_state RT_THREAD_SUSPEND) s1"
  have "rt_object_get_type (TimerOf t) ?s = RT_Object_Class_Timer" "\<not> has_flag RT_TIMER_FLAG_ACTIVATED (TimerOf t) ?s"
    using ty off f by (simp_all add: upd_thread_def rt_object_get_type_def has_flag_def)
  then have "s' = ?s" using s1(2) timer_stop_eq[of "TimerOf t" ?s] by simp
  then have e: "tmlists s' = tmlists s" "timers s' = timers s" "tick s' = tick s" "objs s' = objs s"
    using f by (simp_all add: upd_thread_def)
  have "started s' u \<Longrightarrow> started s u" for u using s'(4)[of u] t by (auto simp: started_def split: if_splits)
  then have "stacks_ok s'" using stacks_ok_cong[OF no_kern_suspend[OF s'(1)]] r by (simp add: check_ready_def)
  then have "check_ready s'"
    using r s'(2,3) e by (simp add: check_ready_def periods_ok_def has_flag_def rt_object_get_type_def)
  then show ?thesis using that[of s'] s' e by simp
qed

text \<open>
  The tick interrupt always returns, whatever thread it interrupts: it advances the tick by one,
  runs the expired timers, leaves no due timer at the head of the list and keeps the kernel invariant.
\<close>

theorem systick_advances:
  assumes "callbacks_ok ucb" "check_ready s"
  shows "\<exists>s'. SysTick_Handler ucb s = Some s' \<and> check_ready s' \<and> tick s' = tick s + 1 \<and>
    (\<forall>a ts. tmlists s' TmHard = a # ts \<longrightarrow> RT_TICK_HALF \<le> tick s' - tm_timeout_tick (timers s' a))"
proof -
  have "check_ready (rt_interrupt_enter s)" using assms(2) by (simp add: rt_interrupt_enter_def)
  then obtain s1 where s1: "rt_tick_increase ucb (rt_interrupt_enter s) = Some s1" "check_ready s1"
    "tick s1 = tick (rt_interrupt_enter s) + 1" "\<forall>t ts. tmlists s1 TmHard = t # ts \<longrightarrow> \<not> due s1 t"
    by (rule tick_increase_total[OF assms(1)])
  then show ?thesis
    by (simp add: SysTick_Handler_def rt_interrupt_leave_def rt_interrupt_enter_def due_def not_less)
qed

theorem systick_advances_witness:
  "\<exists>s'. SysTick_Handler (\<lambda>n s. Some s) kdemo = Some s' \<and> tick s' = 101"
proof -
  have "callbacks_ok (\<lambda>n s. Some s)" by (auto simp: callbacks_ok_def)
  then show ?thesis using systick_advances[OF _ kdemo_ready] by fastforce
qed

text \<open>
  C6. No sleeper is forgotten: a thread that calls \<^verbatim>\<open>rt_thread_sleep\<close> with \<open>n\<close> ticks is suspended, and
  after \<open>n\<close> tick interrupts (one for \<open>n = 0\<close>) it is ready or running again, whatever other timers expire
  and across the wrap-around of the tick.
\<close>

theorem sleeper_wakes:
  assumes "callbacks_timely ucb t" "check_ready s" "settled s" "cur s = Some t" "tstat s t = RT_THREAD_RUNNING"
    and "n < RT_TICK_HALF"
  shows "\<exists>s1 s2. rt_thread_sleep n s = Some (Blocked (), s1) \<and> tstat s1 t = RT_THREAD_SUSPEND \<and>
    ticks_pass ucb (max 1 (unat n)) s1 = Some s2 \<and> tstat s2 t \<in> {RT_THREAD_READY, RT_THREAD_RUNNING} \<and>
    check_ready s2 \<and> settled s2"
proof -
  define s0 where "s0 = upd_thread t (\<lambda>th. th\<lparr>th_error := RT_EOK\<rparr>) s"
  have e0: "tmlists s0 = tmlists s" "timers s0 = timers s" "tick s0 = tick s" "objs s0 = objs s" "cur s0 = cur s"
    by (simp_all add: s0_def upd_thread_def)
  have "stack_check (threads s0 u) = stack_check (threads s u)" "tstat s0 u = tstat s u" for u
    by (simp_all add: s0_def upd_thread_def stack_check_def tstat_def)
  then have "stacks_ok s0 = stacks_ok s" by (simp add: stacks_ok_def started_def)
  then have r0: "check_ready s0" using assms(2) check_ready_upd[of s0 s] e0 by (simp add: s0_def kern_inv_error)
  have t0: "tstat s0 t = RT_THREAD_RUNNING" using assms(5) by (simp add: s0_def)
  obtain s1 where s1: "rt_thread_suspend t s0 = Some (RT_EOK, s1)" "check_ready s1" "cur s1 = Some t"
    "tstat s1 t = RT_THREAD_SUSPEND" "tmlists s1 = tmlists s0" "timers s1 = timers s0" "tick s1 = tick s0"
    using suspend_ready[OF r0 t0] by metis
  have "key s1 = key s" using s1(6,7) e0 by (simp add: key_def fun_eq_iff)
  then have o1: "settled s1" using assms(3) s1(5) e0 by (simp add: settled_def in_order_def)
  have t1: "tstat s1 t = RT_THREAD_SUSPEND" using s1(4) by simp
  obtain s2 where s2: "thread_timer_arm t n s1 = Some s2" "check_ready s2" "settled s2"
    "pending t (Some (tick s1 + n)) s2" "tick s2 = tick s1" "threads s2 = threads s1"
    by (rule arm_pending[OF s1(2) o1 t1 assms(6)])
  obtain s3 where s3: "rt_schedule s2 = Some s3" "check_ready s3" "tmlists s3 = tmlists s2" "timers s3 = timers s2"
    "tick s3 = tick s2" "\<forall>u. tstat s2 u = RT_THREAD_SUSPEND \<longrightarrow> tstat s3 u = RT_THREAD_SUSPEND"
    by (rule schedule_ready[OF s2(2)])
  have "key s3 = key s2" using s3(4,5) by (simp add: key_def fun_eq_iff)
  then have o3: "settled s3" using s2(3) s3(3) by (simp add: settled_def in_order_def)
  have p3: "pending t (Some (tick s1 + n)) s3" using s2(4) s3(3,4) by (simp add: pending_def)
  have "unat (tick s1 + n - tick s3) \<le> max 1 (unat n)" using s3(5) s2(5) by simp
  then obtain s4 where "ticks_pass ucb (max 1 (unat n)) s3 = Some s4" "check_ready s4" "settled s4" "awake s4 t"
    using ticks_wake[OF assms(1) s3(2) o3 p3] by fastforce
  moreover have "rt_object_get_type (Mem t) s = RT_Object_Class_Thread"
    using kern_started(2)[of "{}" s t] assms(2,5) by (simp add: check_ready_def started_def)
  then have "rt_thread_sleep n s = Some (Blocked (), s3)"
    using s1(1) s2(1) s3(1) assms(4) by (simp add: rt_thread_sleep_def rt_thread_self_def s0_def)
  moreover have "tstat s3 t = RT_THREAD_SUSPEND" using s3(6) s2(6) t1 by (simp add: tstat_def)
  ultimately show ?thesis unfolding awake_def by blast
qed

theorem sleeper_wakes_witness:
  "\<exists>s1 s2. rt_thread_sleep 5 (kdemo\<lparr>tick := 95\<rparr>) = Some (Blocked (), s1) \<and> tstat s1 2 = RT_THREAD_SUSPEND \<and>
    ticks_pass (\<lambda>n s. Some s) 5 s1 = Some s2 \<and> tstat s2 2 \<in> {RT_THREAD_READY, RT_THREAD_RUNNING}"
proof -
  let ?s = "kdemo\<lparr>tick := 95\<rparr>"
  have cb: "callbacks_timely (\<lambda>n s. Some s) 2" by (auto simp: callbacks_timely_def callbacks_ok_def)
  have r: "check_ready ?s" by (simp add: kdemo_ready)
  have "key ?s (Mem 20) = 1" "key ?s (TimerOf 0) = 6" by (simp_all add: key_def kdemo_def)
  then have o: "settled ?s" by (simp add: settled_def in_order_def)
  have t: "tstat ?s 2 = RT_THREAD_RUNNING" 
  proof -
    have "tstat kdemo 2 = RT_THREAD_RUNNING" unfolding kdemo_tstat demo_tstat by simp
    then show ?thesis by (simp add: tstat_def)
  qed
  have "max 1 (unat (5 :: u32)) = 5" by simp
  then show ?thesis using sleeper_wakes[OF cb r o _ t, of 5] by auto
qed

end
