(* ===== verification/Steady.thy ===== *)
theory Steady
  imports Clock IpcBase
begin

text \<open>
  The state between two calls of the kernel, for the composition of its parts: the timers are in order
  and none is overdue, the scheduler is unlocked, the idle thread can run, and the running thread is one
  that no ready thread is preferable to. The lemmas say how the building blocks of the calls (a switch,
  blocking on a wait list, waking a waiter) keep it, and what they leave alone.
\<close>

section \<open>The invariant\<close>

definition steady :: "kstate \<Rightarrow> bool" where
  "steady s \<longleftrightarrow> check_ready s \<and> settled s \<and> lock_nest s = 0 \<and> awake s idle_thread"

definition front :: "kstate \<Rightarrow> bool" where
  "front s \<longleftrightarrow> (\<exists>t. cur s = Some t \<and> tstat s t = RT_THREAD_RUNNING \<and> (\<forall>u. tstat s u = RT_THREAD_READY \<longrightarrow> prio s t \<le> prio s u))"

lemma front_cong:
  assumes "cur s' = cur s" "\<And>u. tstat s' u = tstat s u" "\<And>u. prio s' u = prio s u"
  shows "front s' = front s"
  using assms by (simp add: front_def)

lemma steadyD:
  assumes "steady s"
  shows "kern_wf s" "stacks_ok s" "cur s \<noteq> None" "lock_nest s = 0" "check_ready s" "settled s" "awake s idle_thread"
  using assms by (simp_all add: steady_def check_ready_def)

lemma settled_cong:
  assumes "tmlists s' TmHard = tmlists s TmHard" "timers s' = timers s" "tick s' = tick s"
  shows "settled s' = settled s"
proof -
  have "key s' = key s" using assms by (simp add: key_def fun_eq_iff)
  then show ?thesis using assms(1) in_order_cong[OF assms] by (simp add: settled_def)
qed

lemma settled_remove:
  assumes "settled s" "tmlists s' TmHard = remove1 a (tmlists s TmHard)" "timers s' = timers s" "tick s' = tick s"
  shows "settled s'"
proof -
  have "key s' = key s" using assms by (simp add: key_def fun_eq_iff)
  then show ?thesis using assms(1) in_order_remove[OF _ assms(2-4)] assms(2)
    by (auto simp: settled_def dest: notin_set_remove1)
qed

section \<open>What a step leaves alone\<close>

text \<open>
  \<open>spares X s s'\<close>: except for the IPC objects in \<open>X\<close>, the step keeps the objects and their contents, and
  it ends waits at most: nobody joins a wait list, and who stays on one keeps what it is waiting for.
\<close>

definition waits_alike :: "kstate \<Rightarrow> kstate \<Rightarrow> tid \<Rightarrow> bool" where
  "waits_alike s s' t \<longleftrightarrow> th_error (threads s' t) = th_error (threads s t) \<and>
     th_event_set (threads s' t) = th_event_set (threads s t) \<and> th_event_info (threads s' t) = th_event_info (threads s t)"

definition spares :: "nat set \<Rightarrow> kstate \<Rightarrow> kstate \<Rightarrow> bool" where
  "spares X s s' \<longleftrightarrow> lock_nest s' = lock_nest s \<and> int_nest s' = int_nest s \<and>
     (\<forall>a. rt_object_get_type a s' = rt_object_get_type a s) \<and>
     (\<forall>x. rt_object_get_type (Mem x) s \<noteq> RT_Object_Class_Timer \<longrightarrow> objs s' (Mem x) = objs s (Mem x)) \<and>
     (\<forall>x. x \<notin> X \<longrightarrow> sems s' x = sems s x \<and> events s' x = events s x \<and> mailboxes s' x = mailboxes s x \<and> mqs s' x = mqs s x \<and>
        (\<forall>h\<in>{Susp x, SuspSender x}. set (klists s' h) \<subseteq> set (klists s h) \<and> (\<forall>t\<in>set (klists s' h). waits_alike s s' t)))"

lemma spares_refl [simp]: "spares X s s"
  by (simp add: spares_def waits_alike_def)

lemma spares_mono: "spares X s s' \<Longrightarrow> X \<subseteq> Y \<Longrightarrow> spares Y s s'"
  by (auto simp: spares_def)

lemma spares_trans:
  assumes a: "spares X s s'" and b: "spares X s' s''"
  shows "spares X s s''"
proof -
  have "set (klists s'' h) \<subseteq> set (klists s h) \<and> (\<forall>t\<in>set (klists s'' h). waits_alike s s'' t)"
    if "h \<in> {Susp x, SuspSender x}" "x \<notin> X" for x h
  proof -
    have "set (klists s' h) \<subseteq> set (klists s h)" "\<forall>t\<in>set (klists s' h). waits_alike s s' t"
      using a that unfolding spares_def by blast+
    moreover have "set (klists s'' h) \<subseteq> set (klists s' h)" "\<forall>t\<in>set (klists s'' h). waits_alike s' s'' t"
      using b that unfolding spares_def by blast+
    ultimately show ?thesis unfolding waits_alike_def by (metis subset_iff)
  qed
  then show ?thesis using a b unfolding spares_def by simp
qed

text \<open>Whatever keeps \<open>no_kern\<close> and adds nobody to a wait list spares everything.\<close>

lemma spares_no_kern:
  assumes n: "no_kern s' = no_kern s" and h: "\<And>h. wait_head h \<Longrightarrow> set (klists s' h) \<subseteq> set (klists s h)"
  shows "spares X s s'"
proof -
  have "waits_alike s s' t" for t using no_kern_thread(2-4)[OF n, of t] by (simp add: waits_alike_def)
  moreover have "wait_head (Susp x)" "wait_head (SuspSender x)" for x by (simp_all add: wait_head_def)
  ultimately show ?thesis using no_kern_fields[OF n] h unfolding spares_def by auto
qed

text \<open>A thread on no wait list may change its own waiting data.\<close>

lemma spares_upd_thread:
  assumes "\<And>h. wait_head h \<Longrightarrow> t \<notin> set (klists s h)"
  shows "spares X s (upd_thread t f s)"
proof -
  have "waits_alike s (upd_thread t f s) u" if "u \<in> set (klists s h)" "h \<in> {Susp x, SuspSender x}" for u h x
    using that assms[of h] by (auto simp: waits_alike_def upd_thread_def wait_head_def)
  then show ?thesis by (auto simp: spares_def)
qed

text \<open>A thread that leaves its list, or joins one in \<open>X\<close>, may change its waiting data on the way.\<close>

lemma spares_moved:
  assumes n: "no_kern s' = no_kern (upd_thread t f s)"
    and w: "\<And>x g u. x \<notin> X \<Longrightarrow> g \<in> {Susp x, SuspSender x} \<Longrightarrow> u \<in> set (klists s' g) \<Longrightarrow> u \<in> set (klists s g) \<and> u \<noteq> t"
  shows "spares X s s'"
proof -
  note nf = no_kern_fields[OF n]
  have alike: "waits_alike s s' u" if "u \<noteq> t" for u
    using no_kern_thread(2-4)[OF n, of u] that by (simp add: waits_alike_def upd_thread_def)
  have kept: "sems s' = sems s" "events s' = events s" "mailboxes s' = mailboxes s" "mqs s' = mqs s"
    "lock_nest s' = lock_nest s" "int_nest s' = int_nest s"
    using nf(1,2,6,8-10) by (simp_all add: upd_thread_def)
  have ty: "rt_object_get_type a s' = rt_object_get_type a s" for a using nf(12)[of a] by simp
  have ob: "rt_object_get_type a s \<noteq> RT_Object_Class_Timer \<longrightarrow> objs s' a = objs s a" for a using nf(14)[of a] by simp
  have "set (klists s' g) \<subseteq> set (klists s g) \<and> (\<forall>u\<in>set (klists s' g). waits_alike s s' u)"
    if "x \<notin> X" "g \<in> {Susp x, SuspSender x}" for x g
    using w[OF that] alike by blast
  then show ?thesis unfolding spares_def kept ty using ob by simp
qed

section \<open>A scheduling point\<close>

lemma front_unready: "kern_wf s \<Longrightarrow> ready_group s = 0 \<Longrightarrow> tstat s u \<noteq> RT_THREAD_READY"
proof
  assume k: "kern_wf s" and r: "ready_group s = 0" and u: "tstat s u = RT_THREAD_READY"
  from k u have "u \<in> set (klists s (Ready (prio s u)))" by (simp add: kern_inv_def sched_inv_def)
  moreover have "bit (ready_group s) (prio s u) \<longleftrightarrow> klists s (Ready (prio s u)) \<noteq> []"
    using k unfolding kern_inv_def sched_inv_def by blast
  ultimately show False using r by auto
qed

lemma ready_exists: "kern_wf s \<Longrightarrow> tstat s u = RT_THREAD_READY \<Longrightarrow> ready_group s \<noteq> 0"
  using front_unready[of s u] by blast

lemma schedule_calm:
  assumes r: "check_ready s" and l: "lock_nest s = 0"
  obtains s' where "rt_schedule s = Some s'" "check_ready s'" "spares {} s s'" "no_kern s' = no_kern s"
    "\<And>g. wait_head g \<Longrightarrow> klists s' g = klists s g" "ready_group s \<noteq> 0 \<or> front s \<Longrightarrow> front s'"
    "tmlists s' = tmlists s" "timers s' = timers s" "tick s' = tick s" "\<And>u. awake s u \<Longrightarrow> awake s' u"
proof -
  have k: "kern_wf s" "cur s \<noteq> None" using r by (simp_all add: check_ready_def)
  obtain s' where s': "rt_schedule s = Some s'" "check_ready s'" "tmlists s' = tmlists s" "timers s' = timers s"
    "tick s' = tick s" "int_nest s' = int_nest s" "\<forall>u. awake s u \<longrightarrow> awake s' u"
    by (rule schedule_ready[OF r]) blast
  note n = no_kern_schedule[OF s'(1)]
  have g: "klists s' g = klists s g" if "wait_head g" for g
    by (rule schedule_waits[OF kern_wf_sched[OF k(1)] k(2) s'(1) that])
  have "front s'" if "ready_group s \<noteq> 0 \<or> front s"
  proof (cases "ready_group s = 0")
    case True
    then have "s' = s" using s'(1) rt_schedule_idle[of s] by simp
    then show ?thesis using True that by simp
  next
    case False
    show ?thesis unfolding front_def by (rule schedule_highest[OF kern_wf_sched[OF k(1)] l False s'(1)])
  qed
  moreover have "spares {} s s'" by (rule spares_no_kern[OF n]) (simp add: g)
  ultimately show ?thesis using that[of s'] s' n g by blast
qed

lemma schedule_steady:
  assumes s: "steady s"
  obtains s' where "rt_schedule s = Some s'" "steady s'" "spares {} s s'" "no_kern s' = no_kern s"
    "\<And>g. wait_head g \<Longrightarrow> klists s' g = klists s g" "ready_group s \<noteq> 0 \<or> front s \<Longrightarrow> front s'" "tick s' = tick s"
proof -
  note d = steadyD[OF s]
  obtain s' where s': "rt_schedule s = Some s'" "check_ready s'" "spares {} s s'" "no_kern s' = no_kern s"
    "\<And>g. wait_head g \<Longrightarrow> klists s' g = klists s g" "ready_group s \<noteq> 0 \<or> front s \<Longrightarrow> front s'"
    "tmlists s' = tmlists s" "timers s' = timers s" "tick s' = tick s" "\<And>u. awake s u \<Longrightarrow> awake s' u"
    by (rule schedule_calm[OF d(5,4)]) blast
  have "steady s'" using s s'(2,7-10) no_kern_fields(1)[OF s'(4)] settled_cong[of s' s] by (simp add: steady_def)
  then show ?thesis using that[of s'] s' by blast
qed

section \<open>Blocking\<close>

lemma timer_arm_no_kern: "thread_timer_arm t n s = Some s' \<Longrightarrow> no_kern s' = no_kern s"
  by (auto simp: thread_timer_arm_def bind_eq_Some_conv dest!: no_kern_control no_kern_start)

lemma timer_arm_steady:
  assumes s: "steady s" and t: "tstat s t = RT_THREAD_SUSPEND" and n: "n < RT_TICK_HALF"
  obtains s' where "thread_timer_arm t n s = Some s'" "steady s'" "no_kern s' = no_kern s" "threads s' = threads s"
    "klists s' = klists s" "cur s' = cur s"
proof -
  note d = steadyD[OF s]
  obtain s' where s': "thread_timer_arm t n s = Some s'" "check_ready s'" "settled s'" "threads s' = threads s" "cur s' = cur s"
    by (rule arm_pending[OF d(5,6) t n]) blast
  have "klists s' = klists s" using arm_timer[OF d(1) t n] s'(1) by (metis option.inject)
  moreover have "steady s'"
    using s s' no_kern_fields(1)[OF timer_arm_no_kern[OF s'(1)]] by (simp add: steady_def awake_def tstat_def)
  ultimately show ?thesis using that[of s'] s' timer_arm_no_kern[OF s'(1)] by blast
qed

text \<open>The running thread goes to sleep, on a list or with a timer only; somebody else is ready then.\<close>

lemma suspend_steady:
  assumes s: "steady s" and t: "tstat s t = RT_THREAD_RUNNING" "t \<noteq> idle_thread"
  obtains s' where "rt_thread_suspend t s = Some (RT_EOK, s')" "steady s'" "no_kern s' = no_kern s" "klists s' = klists s"
    "\<And>u. tstat s' u = (if u = t then RT_THREAD_SUSPEND else tstat s u)" "cur s' = Some t" "ready_group s' \<noteq> 0"
proof -
  note d = steadyD[OF s]
  obtain s' where s': "rt_thread_suspend t s = Some (RT_EOK, s')" "check_ready s'" "cur s' = Some t"
    "\<And>u. tstat s' u = (if u = t then RT_THREAD_SUSPEND else tstat s u)" "klists s' = klists s"
    "tmlists s' = tmlists s" "timers s' = timers s" "tick s' = tick s"
    using suspend_ready[OF d(5) t(1)] by metis
  note n = no_kern_suspend[OF s'(1)]
  have st: "steady s'" using s s' t(2) no_kern_fields(1)[OF n] settled_cong[of s' s] by (simp add: steady_def awake_def)
  have "cur s = Some t" using d(1) t(1) by (simp add: kern_inv_def cur_ok_def)
  then have "tstat s idle_thread \<noteq> RT_THREAD_RUNNING" using d(1) t(2) by (auto simp: kern_inv_def cur_ok_def)
  then have "tstat s' idle_thread = RT_THREAD_READY" using d(7) s'(4) t(2) by (simp add: awake_def)
  then have "ready_group s' \<noteq> 0" using ready_exists st by (simp add: steady_def check_ready_def)
  then show ?thesis using that[of s'] s' n st by blast
qed

lemma klists_steady:
  assumes "steady s" "kern_wf (s\<lparr>klists := L\<rparr>)"
  shows "steady (s\<lparr>klists := L\<rparr>)"
proof -
  have "check_ready (s\<lparr>klists := L\<rparr>)"
    using assms by (simp add: steady_def check_ready_def stacks_ok_def started_def tstat_def periods_ok_def has_flag_def rt_object_get_type_def)
  then show ?thesis using assms(1) settled_cong[of "s\<lparr>klists := L\<rparr>" s] by (simp add: steady_def awake_def tstat_def)
qed

lemma wait_steady:
  assumes s: "steady s" and t: "tstat s t = RT_THREAD_RUNNING" "t \<noteq> idle_thread" and h: "wait_head h"
    and flag: "ipc_flag_ok flag" and time: "time_ok time"
  obtains s' where "ipc_wait h t flag time s = Some s'" "steady s'" "no_kern s' = no_kern s" "ready_group s' \<noteq> 0"
    "klists s' = (klists s)(h := wait_insert (prio s) flag t (klists s h))" "tstat s' t = RT_THREAD_SUSPEND"
proof -
  note d = steadyD[OF s]
  have fl: "flag = RT_IPC_FLAG_FIFO \<or> flag = RT_IPC_FLAG_PRIO" using flag by (simp add: ipc_flag_ok_def)
  let ?L = "(klists s)(h := wait_insert (prio s) flag t (klists s h))"
  obtain s0 where s0: "rt_thread_suspend t s = Some (RT_EOK, s0)" "steady s0" "no_kern s0 = no_kern s" "ready_group s0 \<noteq> 0"
    by (rule suspend_steady[OF s t]) blast
  obtain s1 where s1: "do_ipc_list_suspend h t flag s = Some s1" "kern_wf s1" "no_kern s1 = no_kern s"
    "\<forall>u. tstat s1 u = (if u = t then RT_THREAD_SUSPEND else tstat s u)" "klists s1 = ?L"
    using suspend_on_list[OF d(1) t(1) h fl] by blast
  have "\<exists>L. s1 = s0\<lparr>klists := L\<rparr>"
    using s1(1) s0(1) by (auto simp: do_ipc_list_suspend_def split: if_splits option.splits)
  then have e1: "s1 = s0\<lparr>klists := ?L\<rparr>" using s1(5) by auto
  then have st1: "steady s1" "ready_group s1 \<noteq> 0" using klists_steady[OF s0(2)] s1(2) s0(4) by auto
  have t1: "tstat s1 t = RT_THREAD_SUSPEND" using s1(4) by simp
  show ?thesis
  proof (cases "0 < time")
    case False
    then show ?thesis using that[of s1] s1 st1 t1 by (simp add: ipc_wait_def)
  next
    case True
    obtain s2 where s2: "thread_timer_arm t (of_int time) s1 = Some s2" "steady s2" "no_kern s2 = no_kern s1"
      "threads s2 = threads s1" "klists s2 = klists s1" "cur s2 = cur s1"
      by (rule timer_arm_steady[OF st1(1) t1 time_ok_word[OF time True]]) blast
    have "ready_group s2 \<noteq> 0"
      using ready_group_queues[OF s1(2) steadyD(1)[OF s2(2)]] s2(5) st1(2) by simp
    then show ?thesis using that[of s2] s1 s2 t1 True threads_same(1)[OF s2(4)] by (simp add: ipc_wait_def)
  qed
qed

text \<open>Changes of a thread structure that scheduling does not look at.\<close>

lemma steady_inert:
  assumes "inert f"
  shows "steady (upd_thread t f s) = steady s" "front (upd_thread t f s) = front s" "prio (upd_thread t f s) = prio s"
proof -
  note i = inert_upd[OF assms]
  have c: "cur (upd_thread t f s) = cur s" "tmlists (upd_thread t f s) = tmlists s" by (simp_all add: upd_thread_def)
  have "check_ready (upd_thread t f s) = check_ready s" by (rule check_ready_upd) (simp_all add: i c)
  then show "steady (upd_thread t f s) = steady s"
    using settled_cong[of "upd_thread t f s" s] by (simp add: steady_def awake_def i c)
  show "front (upd_thread t f s) = front s" by (rule front_cong) (simp_all add: i c)
  show "prio (upd_thread t f s) = prio s" by (simp add: fun_eq_iff i)
qed

lemma error_inert: "inert (\<lambda>th. th\<lparr>th_error := e\<rparr>)"
  by (simp add: inert_def stack_check_def)

lemma front_running: "front s \<Longrightarrow> cur s = Some t \<Longrightarrow> tstat s t = RT_THREAD_RUNNING"
  by (simp add: front_def)

text \<open>The whole of a blocking wait on the object \<open>x\<close>.\<close>

lemma block_steady:
  assumes s: "steady s" "front s" "cur s = Some t" "t \<noteq> idle_thread" and h: "h \<in> {Susp x, SuspSender x}"
    and f: "inert f" and flag: "ipc_flag_ok flag" and time: "time_ok time"
  obtains s1 s' where "ipc_wait h t flag time (upd_thread t f s) = Some s1" "rt_schedule s1 = Some s'"
    "steady s'" "front s'" "spares {x} s s'" "no_kern s' = no_kern (upd_thread t f s)"
    "\<And>g. wait_head g \<Longrightarrow> klists s' g = (if g = h then wait_insert (prio s) flag t (klists s h) else klists s g)"
    "tick s' = tick s"
proof -
  let ?s = "upd_thread t f s"
  have run: "tstat s t = RT_THREAD_RUNNING" by (rule front_running[OF s(2,3)])
  have r: "tstat ?s t = RT_THREAD_RUNNING" using run inert_upd(1)[OF f] by simp
  have st: "steady ?s" using s(1) steady_inert(1)[OF f] by simp
  obtain s1 where s1: "ipc_wait h t flag time ?s = Some s1" "steady s1" "no_kern s1 = no_kern ?s" "ready_group s1 \<noteq> 0"
    "klists s1 = (klists ?s)(h := wait_insert (prio ?s) flag t (klists ?s h))"
    by (rule wait_steady[OF st r s(4) two_heads[OF h] flag time]) blast
  obtain s' where s': "rt_schedule s1 = Some s'" "steady s'" "no_kern s' = no_kern s1"
    "\<And>g. wait_head g \<Longrightarrow> klists s' g = klists s1 g" "ready_group s1 \<noteq> 0 \<or> front s1 \<Longrightarrow> front s'" "tick s' = tick s1"
    using schedule_steady[OF s1(2)] by metis
  have n: "no_kern s' = no_kern ?s" using s'(3) s1(3) by simp
  have ls: "klists s' g = (if g = h then wait_insert (prio s) flag t (klists s h) else klists s g)" if "wait_head g" for g
    using s'(4)[OF that] s1(5) by (simp add: steady_inert(3)[OF f])
  have off: "t \<notin> set (klists s g)" for g by (rule running_not_waiting[OF steadyD(1)[OF s(1)] run])
  have "spares {x} s s'"
  proof (rule spares_moved[OF n])
    fix y g u
    assume "y \<notin> {x}" "g \<in> {Susp y, SuspSender y}" "u \<in> set (klists s' g)"
    then show "u \<in> set (klists s g) \<and> u \<noteq> t" using ls[OF two_heads[of g y]] h off by (auto split: if_splits)
  qed
  moreover have "tick s' = tick s" using no_kern_fields(3)[OF n] by (simp add: upd_thread_def)
  ultimately show ?thesis using that[of s1 s'] s1(1,4) s'(1,2,5) n ls by simp
qed

section \<open>Waking\<close>

lemma resume_timers:
  assumes "rt_object_get_type (TimerOf t) s = RT_Object_Class_Timer" "tstat s t = RT_THREAD_SUSPEND"
    and "rt_thread_resume t s = Some (r, s')"
  shows "timers s' = timers s \<and> (tmlists s' = ll_remove (TimerOf t) (tmlists s) \<or> tmlists s' = tmlists s) \<and>
    (\<forall>b. has_flag RT_TIMER_FLAG_PERIODIC b s' = has_flag RT_TIMER_FLAG_PERIODIC b s)"
proof -
  let ?k = "s\<lparr>klists := ll_remove t (klists s)\<rparr>"
  have ty0: "rt_object_get_type (TimerOf t) ?k = RT_Object_Class_Timer" using assms(1) by (simp add: rt_object_get_type_def)
  obtain q m where m: "rt_timer_stop (TimerOf t) ?k = Some (q, m)" "rt_schedule_insert_thread t m = Some s'"
    using assms(2,3) by (auto simp: rt_thread_resume_def bind_eq_Some_conv split: if_splits)
  have m': "m = timer_off (TimerOf t) ?k \<or> m = ?k" using m(1) timer_stop_eq[OF ty0] by (auto split: if_splits)
  note g = no_sched_fields[OF no_sched_insert[OF m(2)]]
  have "has_flag RT_TIMER_FLAG_PERIODIC b m = has_flag RT_TIMER_FLAG_PERIODIC b s" for b
    using m' timer_off_flags(2)[of b "TimerOf t" ?k] by (auto simp: has_flag_def)
  then show ?thesis using m' g by (auto simp: has_flag_def)
qed

lemma resume_calm:
  assumes s: "check_ready s" and t: "tstat s t = RT_THREAD_SUSPEND" "cur s \<noteq> Some t"
  obtains s' where "rt_thread_resume t s = Some (RT_EOK, s')" "check_ready s'" "no_kern s' = no_kern s" "ready_group s' \<noteq> 0"
    "\<And>h. (\<And>p. h \<noteq> Ready p) \<Longrightarrow> klists s' h = ll_remove t (klists s) h" "cur s' = cur s"
    "\<And>u. tstat s' u = (if u = t then RT_THREAD_READY else tstat s u)" "timers s' = timers s"
    "tmlists s' = ll_remove (TimerOf t) (tmlists s) \<or> tmlists s' = tmlists s"
proof -
  have d: "kern_wf s" "stacks_ok s" "cur s \<noteq> None" using s by (simp_all add: check_ready_def)
  obtain s' where s': "rt_thread_resume t s = Some (RT_EOK, s')" "kern_wf s'" "cur s' = cur s"
    "\<And>u. tstat s' u = (if u = t then if cur s = Some t then RT_THREAD_RUNNING else RT_THREAD_READY else tstat s u)"
    "\<And>h. (\<And>p. h \<noteq> Ready p) \<Longrightarrow> klists s' h = ll_remove t (klists s) h"
    using resume_thread[OF d(1) t(1)] by metis
  note n = no_kern_resume[OF s'(1)]
  have ty: "rt_object_get_type (TimerOf t) s = RT_Object_Class_Timer"
    using kern_started(3)[OF d(1), of t] t(1) by (simp add: started_def)
  note tm = resume_timers[OF ty t(1) s'(1)]
  have "started s' u \<Longrightarrow> started s u" for u using s'(4)[of u] t by (auto simp: started_def split: if_splits)
  then have "stacks_ok s'" using stacks_ok_cong[OF n] d(2) by blast
  moreover have "periods_ok s'" using s tm no_kern_fields(12)[OF n] by (simp add: check_ready_def periods_ok_def)
  ultimately have c: "check_ready s'" using s'(2,3) d(3) by (simp add: check_ready_def)
  have "tstat s' t = RT_THREAD_READY" using s'(4)[of t] t(2) by simp
  then have "ready_group s' \<noteq> 0" by (rule ready_exists[OF s'(2)])
  then show ?thesis using that[of s'] s' c n t(2) tm by simp
qed

lemma resume_steady:
  assumes s: "steady s" and t: "tstat s t = RT_THREAD_SUSPEND" "cur s \<noteq> Some t"
  obtains s' where "rt_thread_resume t s = Some (RT_EOK, s')" "steady s'" "no_kern s' = no_kern s" "ready_group s' \<noteq> 0"
    "\<And>h. (\<And>p. h \<noteq> Ready p) \<Longrightarrow> klists s' h = ll_remove t (klists s) h"
proof -
  note d = steadyD[OF s]
  obtain s' where s': "rt_thread_resume t s = Some (RT_EOK, s')" "check_ready s'" "no_kern s' = no_kern s" "ready_group s' \<noteq> 0"
    "\<And>h. (\<And>p. h \<noteq> Ready p) \<Longrightarrow> klists s' h = ll_remove t (klists s) h"
    "\<And>u. tstat s' u = (if u = t then RT_THREAD_READY else tstat s u)" "timers s' = timers s"
    "tmlists s' = ll_remove (TimerOf t) (tmlists s) \<or> tmlists s' = tmlists s"
    by (rule resume_calm[OF d(5) t]) blast
  have tk: "tick s' = tick s" by (rule no_kern_fields(3)[OF s'(3)])
  have "settled s'"
    using s'(7,8) settled_cong[of s' s] settled_remove[OF d(6), of s' "TimerOf t"] tk d(6) by (auto simp: ll_remove_def)
  moreover have "awake s' idle_thread" using d(7) s'(6)[of idle_thread] by (simp add: awake_def)
  ultimately have "steady s'" using no_kern_fields(1)[OF s'(3)] d(4) s'(2) by (simp add: steady_def)
  then show ?thesis using that[of s'] s' by blast
qed

lemma waiter_not_cur: "kern_wf s \<Longrightarrow> front s \<Longrightarrow> tstat s t = RT_THREAD_SUSPEND \<Longrightarrow> cur s \<noteq> Some t"
  by (auto simp: front_def)

lemma remove_sub: "wait_head h \<Longrightarrow> (\<And>h. (\<And>p. h \<noteq> Ready p) \<Longrightarrow> L' h = ll_remove t L h) \<Longrightarrow> set (L' h) \<subseteq> set (L h)"
  using set_remove1_subset by (fastforce simp: wait_head_def ll_remove_def)

lemma wake_steady:
  assumes s: "steady s" "front s" and h: "wait_head h"
  obtains s' where "wake_one h s = Some s'" "steady s'" "front s'" "spares {} s s'" "no_kern s' = no_kern s"
proof (cases "klists s h")
  case Nil
  then show ?thesis using that[of s] s by (simp add: wake_one_def)
next
  case (Cons t ts)
  note d = steadyD[OF s(1)]
  have su: "tstat s t = RT_THREAD_SUSPEND" by (rule waiter_suspended[OF d(1) h]) (simp add: Cons)
  obtain s1 where s1: "rt_thread_resume t s = Some (RT_EOK, s1)" "steady s1" "no_kern s1 = no_kern s" "ready_group s1 \<noteq> 0"
    "\<And>h. (\<And>p. h \<noteq> Ready p) \<Longrightarrow> klists s1 h = ll_remove t (klists s) h"
    using resume_steady[OF s(1) su waiter_not_cur[OF d(1) s(2) su]] by metis
  obtain s2 where s2: "rt_schedule s1 = Some s2" "steady s2" "spares {} s1 s2" "no_kern s2 = no_kern s1"
    "ready_group s1 \<noteq> 0 \<or> front s1 \<Longrightarrow> front s2"
    by (rule schedule_steady[OF s1(2)]) blast
  have "spares {} s s1" by (rule spares_no_kern[OF s1(3)]) (rule remove_sub[OF _ s1(5)])
  then have "spares {} s s2" by (rule spares_trans[OF _ s2(3)])
  then show ?thesis using that[of s2] s1 s2 Cons by (simp add: wake_one_def do_ipc_list_resume_def)
qed

section \<open>The tick\<close>

lemma expire_parts:
  assumes "rt_object_get_type a s = RT_Object_Class_Timer"
  shows "no_kern (timer_expire l a s) = no_kern s" "klists (timer_expire l a s) = klists s"
    "threads (timer_expire l a s) = threads s" "cur (timer_expire l a s) = cur s"
proof -
  have ty: "rt_object_get_type a (s\<lparr>tmlists := L\<rparr>) = rt_object_get_type a s" for L s by (simp add: rt_object_get_type_def)
  show "no_kern (timer_expire l a s) = no_kern s"
    using assms by (simp add: timer_expire_def do_timer_remove_def Let_def ty)
qed (simp_all add: timer_expire_def do_timer_remove_def flag_clear_def upd_obj_def Let_def)

text \<open>The timeout of a thread.\<close>

lemma timeout_calm:
  assumes r: "check_ready s" and l: "lock_nest s = 0" and f: "front s" and t: "tstat s t = RT_THREAD_SUSPEND"
    and off: "\<not> has_flag RT_TIMER_FLAG_ACTIVATED (TimerOf t) s"
    and s': "do_thread_timeout t s = Some s'"
  shows "front s'" "spares {} s s'"
proof -
  let ?s = "upd_thread t (\<lambda>th. th\<lparr>th_error := - RT_ETIMEOUT\<rparr>) s"
  have d: "kern_wf s" "stacks_ok s" "cur s \<noteq> None" using r by (simp_all add: check_ready_def)
  obtain s1 where s1: "do_thread_timeout t s = rt_schedule s1" "kern_wf s1" "cur s1 = cur s" "stacks_ok s1" "no_sched s1 = no_sched ?s"
    "\<And>u. tstat s1 u = (if u = t then if cur s = Some t then RT_THREAD_RUNNING else RT_THREAD_READY else tstat s u)"
    "\<And>h. (\<And>p. h \<noteq> Ready p) \<Longrightarrow> klists s1 h = ll_remove t (klists s) h"
    using timeout_insert[OF d(1) t d(3,2) off] by metis
  have sc: "rt_schedule s1 = Some s'" using s1(1) s' by simp
  have ready: "ready_group s1 \<noteq> 0"
    using ready_exists[OF s1(2), of t] s1(6)[of t] waiter_not_cur[OF d(1) f t] by simp
  have l1: "lock_nest s1 = 0" using no_sched_fields(1)[OF s1(5)] l by simp
  show "front s'" unfolding front_def by (rule schedule_highest[OF kern_wf_sched[OF s1(2)] l1 ready sc])
  have n: "no_kern s' = no_kern ?s" using no_kern_schedule[OF sc] no_kern_sched[OF s1(5)] by simp
  have c1: "cur s1 \<noteq> None" using s1(3) d(3) by simp
  have ls: "klists s' g = ll_remove t (klists s) g" if "wait_head g" for g
    using schedule_waits[OF kern_wf_sched[OF s1(2)] c1 sc that] s1(7)[of g] that by (auto simp: wait_head_def)
  have wf: "ll_wf (klists s)" using d(1) by (simp add: kern_inv_def sched_inv_def)
  show "spares {} s s'"
  proof (rule spares_moved[OF n])
    fix x g u
    assume g: "g \<in> {Susp x, SuspSender x}" and u: "u \<in> set (klists s' g)"
    show "u \<in> set (klists s g) \<and> u \<noteq> t" using u unfolding ls[OF two_heads[OF g]] set_ll_remove[OF wf] by simp
  qed
qed

text \<open>Starting a timer, which may wake the timer thread.\<close>

lemma start_calm:
  assumes r: "check_ready s" and l: "lock_nest s = 0" and f: "front s" and ty: "rt_object_get_type a s = RT_Object_Class_Timer"
    and susp: "\<And>t. a = TimerOf t \<Longrightarrow> tstat s t = RT_THREAD_SUSPEND"
    and s': "rt_timer_start a s = Some (c, s')"
  shows "front s'" "spares {} s s'"
proof -
  have k: "kern_wf (timer_on a s)" using timer_on_inv[OF _ ty susp] r by (simp add: check_ready_def)
  have ready: "check_ready (timer_on a s)"
    using r k by (auto simp: check_ready_def stacks_ok_def started_def tstat_def periods_ok_def)
  have f1: "front (timer_on a s)" using f front_cong[of "timer_on a s" s] by (simp add: tstat_def prio_def)
  have n1: "spares {} s (timer_on a s)" by (rule spares_no_kern[OF no_kern_on[OF ty]]) simp
  have "front s' \<and> spares {} s s'"
  proof (cases "has_flag RT_TIMER_FLAG_SOFT_TIMER a s \<and> \<not> soft_busy s \<and> tstat s timer_thread = RT_THREAD_SUSPEND")
    case False
    then have "rt_timer_start a s = Some (RT_EOK, timer_on a s)" unfolding timer_start_eq[OF ty] by (rule if_not_P)
    then show ?thesis using s' f1 n1 by simp
  next
    case True
    have su: "tstat (timer_on a s) timer_thread = RT_THREAD_SUSPEND" using True by (simp add: tstat_def)
    obtain s1 where s1: "rt_thread_resume timer_thread (timer_on a s) = Some (RT_EOK, s1)" "check_ready s1"
      "no_kern s1 = no_kern (timer_on a s)" "ready_group s1 \<noteq> 0"
      "\<And>h. (\<And>p. h \<noteq> Ready p) \<Longrightarrow> klists s1 h = ll_remove timer_thread (klists (timer_on a s)) h"
      by (rule resume_calm[OF ready su waiter_not_cur[OF k f1 su]]) blast
    have l1: "lock_nest s1 = 0" using no_kern_fields(1)[OF s1(3)] l by simp
    obtain s2 where s2: "rt_schedule s1 = Some s2" "spares {} s1 s2" "ready_group s1 \<noteq> 0 \<or> front s1 \<Longrightarrow> front s2"
      by (rule schedule_calm[OF s1(2) l1]) blast
    have e: "s' = s2" using s' True s1(1) s2(1) unfolding timer_start_eq[OF ty] by simp
    have "spares {} (timer_on a s) s1" by (rule spares_no_kern[OF s1(3)]) (rule remove_sub[OF _ s1(5)])
    then have "spares {} s s2" by (rule spares_trans[OF n1 spares_trans[OF _ s2(2)]])
    then show ?thesis using s2(3) s1(4) e by simp
  qed
  then show "front s'" "spares {} s s'" by simp_all
qed

text \<open>
  The interrupt, for any condition \<open>good\<close> on the rest of the kernel that spared objects keep. \<open>ticking\<close>
  is what holds at every point of the check of the timers; the application's callbacks must keep it.
\<close>

definition ticking :: "(kstate \<Rightarrow> bool) \<Rightarrow> kstate \<Rightarrow> bool" where
  "ticking good s \<longleftrightarrow> check_ready s \<and> lock_nest s = 0 \<and> front s \<and> good s"

definition callbacks_keep :: "(kstate \<Rightarrow> bool) \<Rightarrow> callbacks \<Rightarrow> bool" where
  "callbacks_keep good ucb \<longleftrightarrow> callbacks_timely ucb idle_thread \<and>
     (\<forall>n s s'. ticking good s \<longrightarrow> ucb n s = Some s' \<longrightarrow> ticking good s' \<and> int_nest s' = int_nest s)"

locale spared_condition =
  fixes good :: "kstate \<Rightarrow> bool"
  assumes spared: "good s \<Longrightarrow> spares {} s s' \<Longrightarrow> good s'"
    and nest: "good (s\<lparr>int_nest := n\<rparr>) = good s"
begin

lemma ticking_step:
  assumes "ticking good s" "check_ready s'" "front s'" "spares {} s s'"
  shows "ticking good s' \<and> int_nest s' = int_nest s"
  using assms spared[of s s'] by (simp add: ticking_def spares_def)

lemma ticking_same:
  assumes "ticking good s" "check_ready s'" "no_kern s' = no_kern s" "klists s' = klists s" "threads s' = threads s" "cur s' = cur s"
  shows "ticking good s' \<and> int_nest s' = int_nest s"
proof (rule ticking_step[OF assms(1,2)])
  show "front s'" using assms(1) front_cong[of s' s] threads_same[OF assms(5)] assms(6) by (simp add: ticking_def)
  show "spares {} s s'" by (rule spares_no_kern[OF assms(3)]) (simp add: assms(4))
qed

lemma ticking_round:
  assumes cb: "callbacks_keep good ucb" and t: "ticking good s" and l: "tmlists s TmHard = a # ts" and d: "due s a"
    and run: "run_timeout ucb (tm_func (timers s a)) (timer_expire TmHardLocal a s) = Some s2" and r2: "check_ready s2"
  shows "ticking good s2 \<and> int_nest s2 = int_nest s"
proof -
  have r: "check_ready s" using t by (simp add: ticking_def)
  then have k: "kern_wf s" by (simp add: check_ready_def)
  have act: "has_flag RT_TIMER_FLAG_ACTIVATED a s" "rt_object_get_type a s = RT_Object_Class_Timer"
    using k l unfolding kern_inv_def timer_wf_def by (metis insertI1 list.set_intros(1))+
  define s1 where "s1 = timer_expire TmHardLocal a s"
  note e = expire_step[OF r l, of TmHardLocal, folded s1_def, simplified]
  have t1: "ticking good s1 \<and> int_nest s1 = int_nest s"
    by (rule ticking_same[OF t e(1)]) (simp_all add: s1_def expire_parts[OF act(2)])
  show ?thesis
  proof (cases "tm_func (timers s a)")
    case (TF_thread_timeout u)
    then have au: "a = TimerOf u" using k by (simp add: kern_inv_def thread_tm_wf_def)
    have su: "tstat s u = RT_THREAD_SUSPEND" using k act au by (simp add: kern_inv_def thread_tm_wf_def)
    have "\<not> has_flag RT_TIMER_FLAG_PERIODIC a s" using kern_started(5)[OF k, of u] su au by (simp add: started_def)
    then have off: "\<not> has_flag RT_TIMER_FLAG_ACTIVATED (TimerOf u) s1" using e(9) au by simp
    have su1: "tstat s1 u = RT_THREAD_SUSPEND" using su e(5) by (simp add: tstat_def)
    have c1: "lock_nest s1 = 0" "front s1" using t1 by (simp_all add: ticking_def)
    have "do_thread_timeout u s1 = Some s2" using run TF_thread_timeout by (simp add: run_timeout_def s1_def)
    from timeout_calm[OF e(1) c1 su1 off this] have "ticking good s2 \<and> int_nest s2 = int_nest s1"
      using t1 by (intro ticking_step[OF _ r2]) simp_all
    then show ?thesis using t1 by simp
  next
    case (TF_user n)
    then have "ucb n s1 = Some s2" using run by (simp add: run_timeout_def s1_def)
    then show ?thesis using cb t1 unfolding callbacks_keep_def by metis
  qed
qed

lemma ticking_rearm:
  assumes t: "ticking good s" and r2: "check_ready s'"
    and p: "has_flag RT_TIMER_FLAG_PERIODIC a s \<and> has_flag RT_TIMER_FLAG_ACTIVATED a s \<longrightarrow>
       rt_object_get_type a s = RT_Object_Class_Timer \<and> (\<forall>u. a \<noteq> TimerOf u)"
    and s': "timer_rearm a s = Some s'"
  shows "ticking good s' \<and> int_nest s' = int_nest s"
proof (cases "has_flag RT_TIMER_FLAG_PERIODIC a s \<and> has_flag RT_TIMER_FLAG_ACTIVATED a s")
  case False
  have "s' = s\<lparr>tmlists := ll_remove a (tmlists s)\<rparr>" using False s' by (auto simp: timer_rearm_def has_flag_def Let_def)
  then show ?thesis by (intro ticking_same[OF t r2]) simp_all
next
  case True
  have r: "check_ready s" using t by (simp add: ticking_def)
  have ty: "rt_object_get_type a s = RT_Object_Class_Timer" "\<forall>u. a \<noteq> TimerOf u" using p True by blast+
  obtain s2 where s2: "timer_rearm a s = rt_timer_start a s2 \<bind> (\<lambda>(_, s). Some s)" "check_ready s2"
    "rt_object_get_type a s2 = RT_Object_Class_Timer" "threads s2 = threads s"
    "klists s2 = klists s" "cur s2 = cur s" "no_kern s2 = no_kern s"
    by (rule rearm_start[OF r _ _ ty]) (use True in blast)+
  obtain c where c: "rt_timer_start a s2 = Some (c, s')" using s' s2(1) by (auto simp: bind_eq_Some_conv)
  have t2: "ticking good s2 \<and> int_nest s2 = int_nest s" by (rule ticking_same[OF t s2(2,7,5,4,6)])
  then have "lock_nest s2 = 0" "front s2" by (simp_all add: ticking_def)
  from start_calm[OF s2(2) this s2(3) _ c] have "ticking good s' \<and> int_nest s' = int_nest s2"
    using ty(2) t2 by (intro ticking_step[OF _ r2]) blast+
  then show ?thesis using t2 by simp
qed

lemma ticking_loop:
  assumes cb: "callbacks_keep good ucb" and s': "timer_check_loop ucb k s = Some s'"
    and t: "ticking good s" and k: "k = tick s"
  shows "ticking good s' \<and> int_nest s' = int_nest s"
proof -
  have "callbacks_keep good ucb \<longrightarrow> ticking good s \<longrightarrow> k = tick s \<longrightarrow> ticking good s' \<and> int_nest s' = int_nest s"
  proof (rule timer_check_loop.raw_induct[where P = "\<lambda>ucb k s s'. callbacks_keep good ucb \<longrightarrow> ticking good s \<longrightarrow>
        k = tick s \<longrightarrow> ticking good s' \<and> int_nest s' = int_nest s", OF _ s'], goal_cases)
    case (1 loop ucb k s s')
    show ?case
    proof (intro impI)
      assume cb: "callbacks_keep good ucb" and t: "ticking good s" and k: "k = tick s"
      have r: "check_ready s" using t by (simp add: ticking_def)
      show "ticking good s' \<and> int_nest s' = int_nest s"
      proof (cases "tmlists s TmHard")
        case Nil
        then show ?thesis using 1(2) t by simp
      next
        case (Cons a ts)
        show ?thesis
        proof (cases "due s a")
          case False
          then show ?thesis using 1(2) t Cons k by (simp add: due_def)
        next
          case True
          have ok: "callbacks_ok ucb" using cb by (simp add: callbacks_keep_def callbacks_timely_def)
          obtain s2 where s2: "run_timeout ucb (tm_func (timers s a)) (timer_expire TmHardLocal a s) = Some s2"
            "check_ready s2" "tick s2 = tick s"
            "has_flag RT_TIMER_FLAG_PERIODIC a s2 \<and> has_flag RT_TIMER_FLAG_ACTIVATED a s2 \<longrightarrow>
               rt_object_get_type a s2 = RT_Object_Class_Timer \<and> (\<forall>u. a \<noteq> TimerOf u)"
            by (rule check_round[OF ok r Cons True]) blast
          have t2: "ticking good s2 \<and> int_nest s2 = int_nest s" by (rule ticking_round[OF cb t Cons True s2(1,2)])
          obtain s3 where s3: "timer_rearm a s2 = Some s3" "check_ready s3" "tick s3 = tick s2"
            by (rule rearm_round[OF s2(2,4)])
          have t3: "ticking good s3 \<and> int_nest s3 = int_nest s2"
            by (rule ticking_rearm[OF _ s3(2) s2(4) s3(1)]) (use t2 in blast)
          define s4 where "s4 = (if tmlists s2 TmHardLocal = [] then s2 else s3)"
          have "loop ucb (tick s4) s4 = Some s'"
            using 1(2) Cons True k s2(1,3) s3(1,3) by (simp add: due_def rt_tick_get_def s4_def Let_def split: if_splits)
          moreover have "ticking good s4" "int_nest s4 = int_nest s" using t2 t3 by (simp_all add: s4_def)
          ultimately show ?thesis using 1(1) cb by metis
        qed
      qed
    qed
  qed
  then show ?thesis using cb t k by blast
qed

lemma ticking_slice:
  assumes t: "ticking good s" and c: "tstat s c = RT_THREAD_RUNNING"
    and f: "\<And>th. f th = th\<lparr>th_remaining_tick := g th, th_stat := h th\<rparr> \<and> h th AND RT_THREAD_STAT_MASK = th_stat th AND RT_THREAD_STAT_MASK"
  shows "ticking good (upd_thread c f s) \<and> int_nest (upd_thread c f s) = int_nest s"
proof -
  note i = kern_inv_slice[where f = f, OF f]
  have r: "check_ready s" using t by (simp add: ticking_def)
  have e: "cur (upd_thread c f s) = cur s" by (simp add: upd_thread_def)
  have "prio (upd_thread c f s) u = prio s u" for u using f by (simp add: prio_def upd_thread_def)
  then have fr: "front (upd_thread c f s)" using t front_cong[of "upd_thread c f s" s] i(3) e by (simp add: ticking_def)
  have cr: "check_ready (upd_thread c f s)" using r check_ready_upd[of "upd_thread c f s" s] i(1,2) e by simp
  have "kern_wf s" using r by (simp add: check_ready_def)
  then have "spares {} s (upd_thread c f s)" by (intro spares_upd_thread running_not_waiting c)
  then show ?thesis by (rule ticking_step[OF t cr fr])
qed

lemma ticking_schedule:
  assumes t: "ticking good s" and s': "rt_schedule s = Some s'"
  shows "ticking good s' \<and> int_nest s' = int_nest s"
proof -
  have r: "check_ready s" "lock_nest s = 0" "front s" using t by (simp_all add: ticking_def)
  obtain s2 where s2: "rt_schedule s = Some s2" "check_ready s2" "spares {} s s2" "ready_group s \<noteq> 0 \<or> front s \<Longrightarrow> front s2"
    by (rule schedule_calm[OF r(1,2)]) blast
  then show ?thesis using r(3) s' by (intro ticking_step[OF t]) auto
qed

lemma ticking_yield:
  assumes t: "ticking good s" and s': "rt_thread_yield s = Some (r, s')"
  shows "ticking good s' \<and> int_nest s' = int_nest s"
proof -
  obtain c where c: "cur s = Some c" using t by (auto simp: ticking_def front_def)
  have run: "tstat s c = RT_THREAD_RUNNING" using t c by (simp add: ticking_def front_running)
  define f :: "rt_thread \<Rightarrow> rt_thread" where
    "f = (\<lambda>th. th\<lparr>th_remaining_tick := th_init_tick th, th_stat := th_stat th OR RT_THREAD_STAT_YIELD\<rparr>)"
  have u: "ticking good (upd_thread c f s) \<and> int_nest (upd_thread c f s) = int_nest s"
    by (rule ticking_slice[OF t run, where g = th_init_tick and h = "\<lambda>th. th_stat th OR RT_THREAD_STAT_YIELD"]) (simp add: f_def)
  have "rt_schedule (upd_thread c f s) = Some s'"
    using s' c by (auto simp: rt_thread_yield_def rt_thread_self_def f_def bind_eq_Some_conv)
  from ticking_schedule[OF _ this] show ?thesis using u by simp
qed

lemma ticking_count:
  assumes t: "ticking good s" and s': "count_tick s = Some s'"
  shows "ticking good s' \<and> int_nest s' = int_nest s"
proof -
  obtain c where c: "cur s = Some c" using t by (auto simp: ticking_def front_def)
  have run: "tstat s c = RT_THREAD_RUNNING" using t c by (simp add: ticking_def front_running)
  let ?s = "s\<lparr>tick := tick s + 1\<rparr>"
  have "spares {} s ?s" by (simp add: spares_def waits_alike_def rt_object_get_type_def)
  then have t1: "ticking good ?s \<and> int_nest ?s = int_nest s"
    using t front_cong[of ?s s] by (intro ticking_step[OF t]) (simp_all add: ticking_def tstat_def prio_def)
  have run1: "tstat ?s c = RT_THREAD_RUNNING" using run by (simp add: tstat_def)
  show ?thesis
  proof (cases "slice_end c s")
    case False
    have "s' = upd_thread c (\<lambda>th. th\<lparr>th_remaining_tick := th_remaining_tick th - 1\<rparr>) ?s"
      using s' c False by (simp add: count_tick_def)
    then show ?thesis
      using ticking_slice[where s = ?s and c = c and g = "\<lambda>th. th_remaining_tick th - 1" and h = th_stat] t1 run1 by simp
  next
    case True
    then obtain r where "rt_thread_yield ?s = Some (r, s')"
      using s' c by (auto simp: count_tick_def bind_eq_Some_conv)
    from ticking_yield[OF _ this] show ?thesis using t1 by simp
  qed
qed

text \<open>The tick interrupt between two calls.\<close>

lemma systick_steady:
  assumes cb: "callbacks_keep good ucb" and s: "steady s" "front s" "good s"
  shows "\<exists>s'. SysTick_Handler ucb s = Some s' \<and> steady s' \<and> front s' \<and> good s' \<and> int_nest s' = int_nest s"
proof -
  have ct: "callbacks_timely ucb idle_thread" using cb by (simp add: callbacks_keep_def)
  note d = steadyD[OF s(1)]
  obtain s' where s': "SysTick_Handler ucb s = Some s'" "check_ready s'" "settled s'" "awake s' idle_thread"
    by (rule systick_step[OF ct d(5,6), of None]) (use d(7) in auto)
  let ?i = "rt_interrupt_enter s"
  have t0: "ticking good ?i"
    using s d(4,5) nest front_cong[of ?i s] by (simp add: ticking_def rt_interrupt_enter_def tstat_def prio_def)
  obtain s1 s3 where s1: "count_tick ?i = Some s1"
    and s3: "timer_check_loop ucb (tick s1) (s1\<lparr>tmlists := (tmlists s1)(TmHardLocal := [])\<rparr>) = Some s3"
    and e: "s' = rt_interrupt_leave s3"
    using s'(1) by (auto simp: SysTick_Handler_def tick_increase_eq timer_check_eq bind_eq_Some_conv)
  have t1: "ticking good s1 \<and> int_nest s1 = int_nest ?i" by (rule ticking_count[OF t0 s1])
  define s2 where "s2 = s1\<lparr>tmlists := (tmlists s1)(TmHardLocal := [])\<rparr>"
  have "check_ready s2" unfolding s2_def by (rule local_emptied) (use t1 in \<open>simp add: ticking_def\<close>)
  then have t2: "ticking good s2 \<and> int_nest s2 = int_nest s1"
    using t1 by (intro ticking_same[of s1]) (simp_all add: s2_def)
  have "ticking good s3 \<and> int_nest s3 = int_nest s2"
    by (rule ticking_loop[OF cb s3[folded s2_def]]) (use t2 in \<open>simp_all add: s2_def\<close>)
  then have t3: "ticking good s3" "int_nest s3 = int_nest s + 1" using t1 t2 by (simp_all add: rt_interrupt_enter_def)
  have "front s'" "good s'" "lock_nest s' = 0" "int_nest s' = int_nest s"
    using t3 nest front_cong[of s' s3] unfolding e by (simp_all add: ticking_def rt_interrupt_leave_def tstat_def prio_def)
  then show ?thesis using s' by (simp add: steady_def)
qed

end

end
