(* ===== verification/Semaphore.thy ===== *)
theory Semaphore
  imports IpcBase
begin

text \<open>
  Semaphores of \<^verbatim>\<open>src/ipc.c\<close>: the operations, the abstract counting semaphore they implement, and the
  contract both satisfy: tokens are conserved.
\<close>

section \<open>Operations\<close>

definition upd_sem :: "nat \<Rightarrow> (rt_semaphore \<Rightarrow> rt_semaphore) \<Rightarrow> kstate \<Rightarrow> kstate" where
  "upd_sem x f s = s\<lparr>sems := (sems s)(x := f (sems s x))\<rparr>"

definition rt_sem_init :: "nat \<Rightarrow> u8 list \<Rightarrow> u32 \<Rightarrow> u8 \<Rightarrow> kstate \<Rightarrow> (int \<times> kstate) option" where
  "rt_sem_init x nm value flag s = do {
     _ \<leftarrow> kassert (value < 0x10000);
     _ \<leftarrow> kassert (ipc_flag_ok flag);
     s \<leftarrow> rt_object_init (Mem x) RT_Object_Class_Semaphore nm s;
     let s = do_ipc_object_init (Susp x) s;
     let s = upd_sem x (\<lambda>m. m\<lparr>sem_value := ucast value\<rparr>) s;
     Some (RT_EOK, set_flag x flag s)
   }"

definition rt_sem_detach :: "nat \<Rightarrow> kstate \<Rightarrow> (int \<times> kstate) option" where
  "rt_sem_detach x s = do {
     _ \<leftarrow> kassert (rt_object_get_type (Mem x) s = RT_Object_Class_Semaphore);
     _ \<leftarrow> kassert (rt_object_is_systemobject (Mem x) s);
     s \<leftarrow> do_ipc_list_resume_all (Susp x) s;
     Some (RT_EOK, rt_object_detach (Mem x) s)
   }"

definition rt_sem_create :: "nat option \<Rightarrow> u8 list \<Rightarrow> u32 \<Rightarrow> u8 \<Rightarrow> kstate \<Rightarrow> (nat option \<times> kstate) option" where
  "rt_sem_create block nm value flag s = do {
     _ \<leftarrow> kassert (value < 0x10000);
     _ \<leftarrow> kassert (ipc_flag_ok flag);
     _ \<leftarrow> kassert (not_in_interrupt s);
     (r, s) \<leftarrow> rt_object_allocate block RT_Object_Class_Semaphore nm s;
     case r of
       None \<Rightarrow> Some (None, s)
     | Some x \<Rightarrow>
         let s = do_ipc_object_init (Susp x) s;
             s = upd_sem x (\<lambda>m. m\<lparr>sem_value := ucast value\<rparr>) s
         in Some (Some x, set_flag x flag s)
   }"

definition rt_sem_delete :: "nat \<Rightarrow> kstate \<Rightarrow> (int \<times> kstate) option" where
  "rt_sem_delete x s = do {
     _ \<leftarrow> kassert (rt_object_get_type (Mem x) s = RT_Object_Class_Semaphore);
     _ \<leftarrow> kassert (\<not> rt_object_is_systemobject (Mem x) s);
     _ \<leftarrow> kassert (not_in_interrupt s);
     s \<leftarrow> do_ipc_list_resume_all (Susp x) s;
     s \<leftarrow> rt_object_delete (Mem x) s;
     Some (RT_EOK, s)
   }"

definition rt_sem_take :: "nat \<Rightarrow> int \<Rightarrow> kstate \<Rightarrow> ((int, tid) outcome \<times> kstate) option" where
  "rt_sem_take x time s = do {
     _ \<leftarrow> kassert (rt_object_get_type (Mem x) s = RT_Object_Class_Semaphore);
     if sem_value (sems s x) > 0 then
       Some (Done RT_EOK, upd_sem x (\<lambda>m. m\<lparr>sem_value := sem_value m - 1\<rparr>) s)
     else if time = 0 then Some (Done (- RT_ETIMEOUT), s)
     else do {
       _ \<leftarrow> kassert (scheduler_available True s);
       t \<leftarrow> rt_thread_self s;
       let s = upd_thread t (\<lambda>th. th\<lparr>th_error := RT_EOK\<rparr>) s;
       s \<leftarrow> ipc_wait (Susp x) t (oflag (objs s (Mem x))) time s;
       s \<leftarrow> rt_schedule s;
       Some (Blocked t, s)
     }
   }"

definition rt_sem_take_resume :: "tid \<Rightarrow> kstate \<Rightarrow> int" where
  "rt_sem_take_resume t s = (if th_error (threads s t) \<noteq> RT_EOK then th_error (threads s t) else RT_EOK)"

definition rt_sem_trytake :: "nat \<Rightarrow> kstate \<Rightarrow> ((int, tid) outcome \<times> kstate) option" where
  "rt_sem_trytake x s = rt_sem_take x 0 s"

definition rt_sem_release :: "nat \<Rightarrow> kstate \<Rightarrow> (int \<times> kstate) option" where
  "rt_sem_release x s = do {
     _ \<leftarrow> kassert (rt_object_get_type (Mem x) s = RT_Object_Class_Semaphore);
     if klists s (Susp x) \<noteq> [] then do {
       s \<leftarrow> do_ipc_list_resume (Susp x) s;
       s \<leftarrow> rt_schedule s;
       Some (RT_EOK, s)
     }
     else if sem_value (sems s x) < 0xffff then
       Some (RT_EOK, upd_sem x (\<lambda>m. m\<lparr>sem_value := sem_value m + 1\<rparr>) s)
     else Some (- RT_EFULL, s)
   }"

definition rt_sem_control :: "nat \<Rightarrow> int \<Rightarrow> u32 \<Rightarrow> kstate \<Rightarrow> (int \<times> kstate) option" where
  "rt_sem_control x cmd arg s = do {
     _ \<leftarrow> kassert (rt_object_get_type (Mem x) s = RT_Object_Class_Semaphore);
     if cmd = RT_IPC_CMD_RESET then do {
       s \<leftarrow> do_ipc_list_resume_all (Susp x) s;
       let s = upd_sem x (\<lambda>m. m\<lparr>sem_value := ucast arg\<rparr>) s;
       s \<leftarrow> rt_schedule s;
       Some (RT_EOK, s)
     } else Some (- RT_ERROR, s)
   }"

section \<open>The abstract semaphore\<close>

text \<open>A count and the queue of waiting threads.\<close>

type_synonym asem = "nat \<times> tid list"

definition abs_sem :: "kstate \<Rightarrow> nat \<Rightarrow> asem" where
  "abs_sem s x = (unat (sem_value (sems s x)), klists s (Susp x))"

definition take_spec :: "(tid \<Rightarrow> nat) \<Rightarrow> u8 \<Rightarrow> tid \<Rightarrow> asem \<Rightarrow> asem" where
  "take_spec pr flag t a = (case a of (n, q) \<Rightarrow> if 0 < n then (n - 1, q) else (n, wait_insert pr flag t q))"

definition release_spec :: "asem \<Rightarrow> asem" where
  "release_spec a = (case a of (n, []) \<Rightarrow> (if n < 0xffff then (n + 1, []) else (n, [])) | (n, t # ts) \<Rightarrow> (n, ts))"

text \<open>
  \<open>sem_ok\<close>: the object is a semaphore with a legal flag, nobody waits while tokens are left, and a
  waiter's error code is still the \<open>RT_EOK\<close> it went to sleep with.
\<close>

definition sem_ok :: "nat \<Rightarrow> kstate \<Rightarrow> bool" where
  "sem_ok x s \<longleftrightarrow> rt_object_get_type (Mem x) s = RT_Object_Class_Semaphore \<and> ipc_flag_ok (oflag (objs s (Mem x))) \<and>
     (0 < sem_value (sems s x) \<longrightarrow> klists s (Susp x) = []) \<and> (\<forall>t\<in>set (klists s (Susp x)). th_error (threads s t) = RT_EOK)"

lemma kern_upd_sem: "kern_inv X (upd_sem x f s) = kern_inv X s"
  by (rule kern_inv_cong) (simp_all add: upd_sem_def tstat_def prio_def)

text \<open>
  C8. \<^verbatim>\<open>rt_sem_take\<close> implements the abstract take. With a token it returns at once and touches nothing
  but the count; without one a zero timeout is answered \<open>-RT_ETIMEOUT\<close> at once and changes nothing, and any
  other legal timeout puts the caller to sleep at its place in the queue, the count untouched, with its
  timer armed if the timeout is positive.
  The kernel and semaphore invariants are kept.
\<close>

theorem sem_take_refines:
  assumes "kern_wf s" "stacks_ok s" "sem_ok x s" "cur s = Some t" "tstat s t = RT_THREAD_RUNNING"
    and "lock_nest s = 0" "int_nest s = 0" "ready_group s \<noteq> 0" "time_ok time"
  shows "\<exists>out s'. rt_sem_take x time s = Some (out, s') \<and> kern_wf s' \<and> stacks_ok s' \<and> sem_ok x s' \<and>
    (if 0 < sem_value (sems s x) then out = Done RT_EOK \<and> s' = upd_sem x (\<lambda>m. m\<lparr>sem_value := sem_value m - 1\<rparr>) s \<and>
       abs_sem s' x = take_spec (prio s) (oflag (objs s (Mem x))) t (abs_sem s x)
     else if time = 0 then out = Done (- RT_ETIMEOUT) \<and> s' = s
     else out = Blocked t \<and> tstat s' t = RT_THREAD_SUSPEND \<and> cur s' \<noteq> Some t \<and> sems s' = sems s \<and>
       abs_sem s' x = take_spec (prio s) (oflag (objs s (Mem x))) t (abs_sem s x) \<and>
       (0 < time \<longrightarrow> has_flag RT_TIMER_FLAG_ACTIVATED (TimerOf t) s' \<and>
          tm_timeout_tick (timers s' (TimerOf t)) = tick s + of_int time))"
proof (cases "0 < sem_value (sems s x)")
  case True
  let ?s = "upd_sem x (\<lambda>m. m\<lparr>sem_value := sem_value m - 1\<rparr>) s"
  have v: "unat (sem_value (sems s x) - 1) = unat (sem_value (sems s x)) - 1"
    using True by (simp add: unat_minus_one)
  have r: "rt_sem_take x time s = Some (Done RT_EOK, ?s)" using True assms(3) by (simp add: rt_sem_take_def sem_ok_def)
  have "kern_wf ?s" using assms(1) by (simp add: kern_upd_sem)
  moreover have "stacks_ok ?s" using assms(2) by (simp add: stacks_ok_def started_def tstat_def upd_sem_def)
  moreover have "sem_ok x ?s" using assms(3) True by (auto simp: sem_ok_def upd_sem_def rt_object_get_type_def)
  moreover have "0 < unat (sem_value (sems s x))" using True by (simp add: unat_gt_0 word_greater_zero_iff)
  ultimately show ?thesis using r True v by (auto simp: abs_sem_def take_spec_def upd_sem_def)
next
  case False
  then have v0: "sem_value (sems s x) = 0" by (simp add: word_greater_zero_iff)
  have ty: "rt_object_get_type (Mem x) s = RT_Object_Class_Semaphore" using assms(3) by (simp add: sem_ok_def)
  show ?thesis
  proof (cases "time = 0")
    case True
    then show ?thesis using assms False ty by (intro exI[of _ "Done (- RT_ETIMEOUT)"] exI[of _ s]) (auto simp: rt_sem_take_def)
  next
    case nz: False
    let ?s = "upd_thread t (\<lambda>th. th\<lparr>th_error := RT_EOK\<rparr>) s"
    have k: "kern_wf ?s" and ok: "stacks_ok ?s" using assms(1,2) by (simp_all add: kern_inv_error)
    have fl: "oflag (objs s (Mem x)) = RT_IPC_FLAG_FIFO \<or> oflag (objs s (Mem x)) = RT_IPC_FLAG_PRIO"
      using assms(3) by (simp add: sem_ok_def ipc_flag_ok_def)
    have wh: "wait_head (Susp x)" by (simp add: wait_head_def)
    obtain s1 s' u where b: "ipc_wait (Susp x) t (oflag (objs s (Mem x))) time ?s = Some s1" "rt_schedule s1 = Some s'"
      "kern_wf s'" "stacks_ok s'" "cur s' = Some u" "u \<noteq> t" "tstat s' t = RT_THREAD_SUSPEND" "no_kern s' = no_kern ?s"
      "\<forall>g. wait_head g \<longrightarrow> klists s' g = (if g = Susp x then wait_insert (prio ?s) (oflag (objs s (Mem x))) t (klists ?s (Susp x)) else klists ?s g)"
      "0 < time \<longrightarrow> has_flag RT_TIMER_FLAG_ACTIVATED (TimerOf t) s' \<and>
       tm_timeout_tick (timers s' (TimerOf t)) = tick ?s + of_int time"
      using block_and_switch[OF k _ _ wh ok _ _ fl assms(9)] assms(4-6,8) by auto
    have r: "rt_sem_take x time s = Some (Blocked t, s')"
      using ty v0 nz assms(4,6,7) b(1,2)
      by (simp add: rt_sem_take_def scheduler_available_def in_thread_context_def not_in_interrupt_def rt_thread_self_def)
    have pr: "prio ?s = prio s" by (simp add: fun_eq_iff)
    have q: "klists s' (Susp x) = wait_insert (prio s) (oflag (objs s (Mem x))) t (klists s (Susp x))"
      using b(9) wh by (simp add: pr)
    have sv: "sems s' = sems s" using no_kern_fields(6)[OF b(8)] by simp
    have err: "th_error (threads s' v) = th_error (threads ?s v)" for v by (rule no_kern_thread(2)[OF b(8)])
    have "sem_ok x s'"
    proof -
      have "objs s' (Mem x) = objs s (Mem x)" using no_kern_fields(14)[OF b(8), of "Mem x"] ty by simp
      moreover have "rt_object_get_type (Mem x) s' = RT_Object_Class_Semaphore" using ty no_kern_fields(12)[OF b(8)] by simp
      moreover have "\<forall>v\<in>set (klists s' (Susp x)). th_error (threads s' v) = RT_EOK"
        using assms(3) q err by (auto simp: sem_ok_def set_wait_insert upd_thread_def)
      ultimately show ?thesis using assms(3) sv v0 by (simp add: sem_ok_def)
    qed
    then show ?thesis
      using r b(3-7,10) v0 q sv nz by (intro exI[of _ "Blocked t"] exI[of _ s']) (auto simp: abs_sem_def take_spec_def)
  qed
qed

text \<open>
  C9. \<^verbatim>\<open>rt_sem_release\<close> implements the abstract release: it hands the token to the first waiter, who
  becomes ready and whose take then answers \<open>RT_EOK\<close>; with no waiter it counts up, and at 65535 it is
  refused. It never fails on its own, and keeps the kernel and semaphore invariants.
\<close>

theorem sem_release_refines:
  assumes "kern_wf s" "stacks_ok s" "sem_ok x s" "cur s \<noteq> None"
  shows "\<exists>r s'. rt_sem_release x s = Some (r, s') \<and> kern_wf s' \<and> stacks_ok s' \<and> sem_ok x s' \<and>
    abs_sem s' x = release_spec (abs_sem s x) \<and>
    r = (if abs_sem s x = (0xffff, []) then - RT_EFULL else RT_EOK) \<and>
    (\<forall>t ts. klists s (Susp x) = t # ts \<longrightarrow> tstat s' t \<in> {RT_THREAD_READY, RT_THREAD_RUNNING} \<and> rt_sem_take_resume t s' = RT_EOK)"
proof (cases "klists s (Susp x)")
  case Nil
  have ty: "rt_object_get_type (Mem x) s = RT_Object_Class_Semaphore" using assms(3) by (simp add: sem_ok_def)
  show ?thesis
  proof (cases "sem_value (sems s x) < 0xffff")
    case True
    let ?s = "upd_sem x (\<lambda>m. m\<lparr>sem_value := sem_value m + 1\<rparr>) s"
    have v: "unat (sem_value (sems s x)) < 0xffff" using True by (simp add: word_less_nat_alt)
    then have "unat (sem_value (sems s x) + 1) = unat (sem_value (sems s x)) + 1" by (simp add: unat_word_ariths(1))
    moreover have "stacks_ok ?s" using assms(2) by (simp add: stacks_ok_def started_def tstat_def upd_sem_def)
    moreover have "sem_ok x ?s" using assms(3) Nil by (auto simp: sem_ok_def upd_sem_def rt_object_get_type_def)
    moreover have "kern_wf ?s" using assms(1) by (simp add: kern_upd_sem)
    ultimately show ?thesis using ty Nil True v
      by (auto simp: rt_sem_release_def abs_sem_def release_spec_def upd_sem_def)
  next
    case False
    then have "unat (sem_value (sems s x)) = 0xffff"
      using unsigned_less[of "sem_value (sems s x)", where 'a=nat] by (simp add: word_less_nat_alt)
    then show ?thesis using assms ty Nil False by (auto simp: rt_sem_release_def abs_sem_def release_spec_def)
  qed
next
  case (Cons t ts)
  have ty: "rt_object_get_type (Mem x) s = RT_Object_Class_Semaphore" using assms(3) by (simp add: sem_ok_def)
  have wh: "wait_head (Susp x)" by (simp add: wait_head_def)
  obtain s1 where s1: "do_ipc_list_resume (Susp x) s = Some s1" "kern_wf s1" "stacks_ok s1" "cur s1 = cur s" "no_kern s1 = no_kern s"
    "tstat s1 t \<in> {RT_THREAD_READY, RT_THREAD_RUNNING}"
    "\<forall>g. wait_head g \<longrightarrow> klists s1 g = (if g = Susp x then ts else klists s g)"
    using resume_head[OF assms(1,2) wh Cons] by blast
  have c1: "cur s1 \<noteq> None" using s1(4) assms(4) by simp
  obtain s2 where s2: "rt_schedule s1 = Some s2" "kern_wf s2" "stacks_ok s2"
    "\<And>u. tstat s1 u \<in> {RT_THREAD_READY, RT_THREAD_RUNNING} \<Longrightarrow> tstat s2 u \<in> {RT_THREAD_READY, RT_THREAD_RUNNING}"
    using schedule_kern[OF s1(2) c1 s1(3)] by metis
  have n2: "no_kern s2 = no_kern s" using no_kern_schedule[OF s2(1)] s1(5) by simp
  have q: "klists s2 (Susp x) = ts"
    using schedule_waits[OF kern_wf_sched[OF s1(2)] c1 s2(1) wh] s1(7) wh by simp
  have err: "th_error (threads s2 v) = th_error (threads s v)" for v by (rule no_kern_thread(2)[OF n2])
  have sv: "sems s2 = sems s" by (rule no_kern_fields(6)[OF n2])
  have v0: "sem_value (sems s x) = 0" using assms(3) Cons by (auto simp: sem_ok_def word_greater_zero_iff)
  have "sem_ok x s2"
  proof -
    have "objs s2 (Mem x) = objs s (Mem x)" using no_kern_fields(14)[OF n2, of "Mem x"] ty by simp
    then show ?thesis using assms(3) q err sv v0 Cons by (simp add: sem_ok_def rt_object_get_type_def)
  qed
  moreover have "rt_sem_release x s = Some (RT_EOK, s2)" using ty Cons s1(1) s2(1) by (simp add: rt_sem_release_def)
  moreover have "rt_sem_take_resume t s2 = RT_EOK" using err assms(3) Cons by (simp add: rt_sem_take_resume_def sem_ok_def)
  ultimately show ?thesis using s2 s1(6) q sv Cons by (auto simp: abs_sem_def release_spec_def)
qed


lemma idemo_sem: "sem_ok 30 idemo"
  by (simp add: sem_ok_def ipc_flag_ok_def bss_def)

theorem sem_take_refines_witness:
  "rt_sem_take 30 0 idemo = Some (Done (- RT_ETIMEOUT), idemo) \<and>
    (\<exists>s'. rt_sem_take 30 7 idemo = Some (Blocked 2, s') \<and> klists s' (Susp 30) = [2] \<and> tstat s' 2 = RT_THREAD_SUSPEND)"
proof -
  have v: "\<not> 0 < sem_value (sems idemo 30)" by (simp add: bss_def)
  have t: "time_ok 0" "time_ok 7" by (simp_all add: time_ok_def)
  note law = sem_take_refines[OF idemo_wf idemo_stacks idemo_sem, of 2, unfolded if_not_P[OF v], OF _ _ _ _ _ t(1)]
    sem_take_refines[OF idemo_wf idemo_stacks idemo_sem, of 2, unfolded if_not_P[OF v], OF _ _ _ _ _ t(2)]
  have "rt_sem_take 30 0 idemo = Some (Done (- RT_ETIMEOUT), idemo)" using law(1) by auto
  moreover obtain s' where s': "rt_sem_take 30 7 idemo = Some (Blocked 2, s')" "tstat s' 2 = RT_THREAD_SUSPEND"
    "abs_sem s' 30 = take_spec (prio idemo) (oflag (objs idemo (Mem 30))) 2 (abs_sem idemo 30)"
    using law(2) by auto
  moreover have "klists s' (Susp 30) = [2]" using s'(3) by (simp add: abs_sem_def take_spec_def wait_insert_def bss_def)
  ultimately show ?thesis by blast
qed

theorem sem_release_refines_witness:
  "\<exists>s'. rt_sem_release 30 idemo = Some (0, s') \<and> abs_sem s' 30 = (1, [])"
  using sem_release_refines[OF idemo_wf idemo_stacks idemo_sem]
  by (simp add: abs_sem_def release_spec_def bss_def) blast

text \<open>
  Resetting a semaphore wakes every waiter with \<open>-RT_ERROR\<close>, none is left behind, and the count
  becomes the low 16 bits of the argument; every other command is refused without effect.
\<close>

theorem sem_reset_wakes_all:
  assumes "kern_wf s" "stacks_ok s" "sem_ok x s" "cur s \<noteq> None"
  shows "(\<exists>s'. rt_sem_control x RT_IPC_CMD_RESET v s = Some (RT_EOK, s') \<and> kern_wf s' \<and> stacks_ok s' \<and> sem_ok x s' \<and>
      abs_sem s' x = (unat (ucast v :: u16), []) \<and>
      (\<forall>t\<in>set (klists s (Susp x)). tstat s' t \<in> {RT_THREAD_READY, RT_THREAD_RUNNING} \<and> rt_sem_take_resume t s' = - RT_ERROR)) \<and>
    (cmd \<noteq> RT_IPC_CMD_RESET \<longrightarrow> rt_sem_control x cmd v s = Some (- RT_ERROR, s))"
proof -
  have ty: "rt_object_get_type (Mem x) s = RT_Object_Class_Semaphore" using assms(3) by (simp add: sem_ok_def)
  have wh: "wait_head (Susp x)" by (simp add: wait_head_def)
  obtain s1 f where s1: "do_ipc_list_resume_all (Susp x) s = Some s1" "kern_wf s1" "stacks_ok s1" "cur s1 = cur s"
    "\<forall>g. wait_head g \<longrightarrow> klists s1 g = (if g = Susp x then [] else klists s g)"
    "\<forall>t\<in>set (klists s (Susp x)). tstat s1 t \<in> {RT_THREAD_READY, RT_THREAD_RUNNING}"
    "\<forall>t. th_error (threads s1 t) = (if t \<in> set (klists s (Susp x)) then - RT_ERROR else th_error (threads s t))"
    "no_kern s1 = no_kern (s\<lparr>threads := (\<lambda>t. (threads s t)\<lparr>th_error := f t\<rparr>)\<rparr>)"
    using resume_all[OF wh assms(1,2)] by blast
  define s2 where "s2 = upd_sem x (\<lambda>m. m\<lparr>sem_value := ucast v\<rparr>) s1"
  have k2: "kern_wf s2" "stacks_ok s2" "cur s2 \<noteq> None"
    using s1(2-4) assms(4) by (simp_all add: s2_def kern_upd_sem) (simp_all add: stacks_ok_def started_def tstat_def upd_sem_def)
  obtain s3 where s3: "rt_schedule s2 = Some s3" "kern_wf s3" "stacks_ok s3"
    "\<And>u. tstat s2 u \<in> {RT_THREAD_READY, RT_THREAD_RUNNING} \<Longrightarrow> tstat s3 u \<in> {RT_THREAD_READY, RT_THREAD_RUNNING}"
    using schedule_kern[OF k2(1,3,2)] by metis
  note n3 = no_kern_schedule[OF s3(1)]
  have q: "klists s3 (Susp x) = []"
    using schedule_waits[OF kern_wf_sched[OF k2(1)] k2(3) s3(1) wh] s1(5) wh by (simp add: s2_def upd_sem_def)
  have ob: "objs s3 (Mem x) = objs s (Mem x)" "rt_object_get_type (Mem x) s3 = RT_Object_Class_Semaphore"
  proof -
    have t1: "rt_object_get_type (Mem x) s1 = RT_Object_Class_Semaphore" "objs s1 (Mem x) = objs s (Mem x)"
      using no_kern_fields(12,14)[OF s1(8), of "Mem x"] ty by (simp_all add: rt_object_get_type_def)
    then have "rt_object_get_type (Mem x) s2 = RT_Object_Class_Semaphore" "objs s2 (Mem x) = objs s (Mem x)"
      by (simp_all add: s2_def upd_sem_def rt_object_get_type_def)
    then show "objs s3 (Mem x) = objs s (Mem x)" "rt_object_get_type (Mem x) s3 = RT_Object_Class_Semaphore"
      using no_kern_fields(12,14)[OF n3, of "Mem x"] by simp_all
  qed
  have sv: "sem_value (sems s3 x) = ucast v" using no_kern_fields(6)[OF n3] by (simp add: s2_def upd_sem_def)
  have err: "th_error (threads s3 t) = th_error (threads s1 t)" for t
    using no_kern_thread(2)[OF n3, of t] by (simp add: s2_def upd_sem_def)
  have "rt_sem_control x RT_IPC_CMD_RESET v s = Some (RT_EOK, s3)"
    using ty s1(1) s3(1) by (simp add: rt_sem_control_def s2_def)
  moreover have "sem_ok x s3" using assms(3) ob q by (simp add: sem_ok_def)
  moreover have "tstat s3 t \<in> {RT_THREAD_READY, RT_THREAD_RUNNING} \<and> rt_sem_take_resume t s3 = - RT_ERROR"
    if "t \<in> set (klists s (Susp x))" for t
  proof -
    have "tstat s2 t = tstat s1 t" by (simp add: s2_def upd_sem_def tstat_def)
    then have "tstat s3 t \<in> {RT_THREAD_READY, RT_THREAD_RUNNING}" using s1(6) that s3(4)[of t] by simp
    then show ?thesis using s1(7) that err by (simp add: rt_sem_take_resume_def)
  qed
  ultimately show ?thesis using s3 q sv ty by (auto simp: abs_sem_def rt_sem_control_def)
qed

theorem sem_reset_wakes_all_witness:
  "\<exists>s'. rt_sem_control 30 1 0x10005 idemo = Some (0, s') \<and> abs_sem s' 30 = (5, [])"
proof -
  have c: "cur idemo \<noteq> None" by simp
  obtain s' where s': "rt_sem_control 30 1 0x10005 idemo = Some (0, s')" "abs_sem s' 30 = (unat (ucast (0x10005 :: u32) :: u16), [])"
    using sem_reset_wakes_all[OF idemo_wf idemo_stacks idemo_sem c] by blast
  then show ?thesis by simp
qed

end
