(* ===== verification/MessageQueue.thy ===== *)
theory MessageQueue
  imports Mailbox
begin

text \<open>
  Message queues of \<^verbatim>\<open>src/ipc.c\<close>: a pool of equal slots, each linked either into the list of free slots
  or into the queue of messages. The invariant says that the two chains partition the pool; the queue
  alone implements the contract of \<open>Fifo\<close>, and on top of it the blocking calls are shown correct. The
  code copies the bytes of a message with interrupts enabled, when the slot is linked nowhere; the copy
  is one step with the linking here.
\<close>

section \<open>Slots\<close>

abbreviation (input) RT_MQ_ENTRY_MAX :: u16 where "RT_MQ_ENTRY_MAX \<equiv> 0xffff"

definition mq_unfree :: "rt_messagequeue \<Rightarrow> (nat \<times> rt_messagequeue) option" where
  "mq_unfree mq = do { m \<leftarrow> mq_free mq; Some (m, mq\<lparr>mq_free := mq_next mq m\<rparr>) }"

text \<open>\<^verbatim>\<open>rt_memcpy(msg + 1, buffer, size)\<close>: the bytes of the slot beyond \<^verbatim>\<open>size\<close> stay.\<close>

definition mq_store :: "nat \<Rightarrow> u8 list \<Rightarrow> rt_messagequeue \<Rightarrow> rt_messagequeue" where
  "mq_store m buf mq = mq\<lparr>mq_data := (mq_data mq)(m := buf @ drop (length buf) (mq_data mq m))\<rparr>"

definition mq_count :: "rt_messagequeue \<Rightarrow> int \<times> rt_messagequeue" where
  "mq_count mq = (if mq_entry mq < RT_MQ_ENTRY_MAX then (RT_EOK, mq\<lparr>mq_entry := mq_entry mq + 1\<rparr>) else (- RT_EFULL, mq))"

definition mq_append :: "nat \<Rightarrow> u8 list \<Rightarrow> rt_messagequeue \<Rightarrow> int \<times> rt_messagequeue" where
  "mq_append m buf mq =
    (let mq = mq\<lparr>mq_next := (mq_next mq)(m := None)\<rparr>;
         mq = mq_store m buf mq;
         mq = (case mq_tail mq of Some l \<Rightarrow> mq\<lparr>mq_next := (mq_next mq)(l := Some m)\<rparr> | None \<Rightarrow> mq);
         mq = mq\<lparr>mq_tail := Some m\<rparr>;
         mq = (if mq_head mq = None then mq\<lparr>mq_head := Some m\<rparr> else mq)
     in mq_count mq)"

definition mq_prepend :: "nat \<Rightarrow> u8 list \<Rightarrow> rt_messagequeue \<Rightarrow> int \<times> rt_messagequeue" where
  "mq_prepend m buf mq =
    (let mq = mq_store m buf mq;
         mq = mq\<lparr>mq_next := (mq_next mq)(m := mq_head mq)\<rparr>;
         mq = mq\<lparr>mq_head := Some m\<rparr>;
         mq = (if mq_tail mq = None then mq\<lparr>mq_tail := Some m\<rparr> else mq)
     in mq_count mq)"

text \<open>Unlinking the head; a null head would be dereferenced.\<close>

definition mq_unhead :: "rt_messagequeue \<Rightarrow> (nat \<times> rt_messagequeue) option" where
  "mq_unhead mq = do {
     m \<leftarrow> mq_head mq;
     let mq = mq\<lparr>mq_head := mq_next mq m\<rparr>;
     Some (m, if mq_tail mq = Some m then mq\<lparr>mq_tail := None\<rparr> else mq)
   }"

definition mq_giveback :: "nat \<Rightarrow> rt_messagequeue \<Rightarrow> rt_messagequeue" where
  "mq_giveback m mq = mq\<lparr>mq_next := (mq_next mq)(m := mq_free mq), mq_free := Some m\<rparr>"

definition mq_take :: "nat \<Rightarrow> rt_messagequeue \<Rightarrow> (u8 list \<times> rt_messagequeue) option" where
  "mq_take n mq = do {
     (m, mq) \<leftarrow> mq_unhead mq;
     let mq = (if mq_entry mq > 0 then mq\<lparr>mq_entry := mq_entry mq - 1\<rparr> else mq);
     let bytes = take (if n > unat (mq_msg_size mq) then unat (mq_msg_size mq) else n) (mq_data mq m);
     Some (bytes, mq_giveback m mq)
   }"

text \<open>The loop that links all slots of a fresh pool into the free list.\<close>

fun mq_link_all :: "nat \<Rightarrow> rt_messagequeue \<Rightarrow> rt_messagequeue" where
  "mq_link_all 0 mq = mq"
| "mq_link_all (Suc n) mq = mq_giveback n (mq_link_all n mq)"

definition mq_fresh :: "(nat \<Rightarrow> u8 list) \<Rightarrow> rt_messagequeue \<Rightarrow> rt_messagequeue" where
  "mq_fresh pool mq = (mq_link_all (unat (mq_max_msgs mq))
     (mq\<lparr>mq_data := pool, mq_head := None, mq_tail := None, mq_free := None\<rparr>))\<lparr>mq_entry := 0\<rparr>"

partial_function (option) mq_drain :: "rt_messagequeue \<Rightarrow> rt_messagequeue option" where
  "mq_drain mq = (case mq_unhead mq of None \<Rightarrow> Some mq | Some (m, mq1) \<Rightarrow> mq_drain (mq_giveback m mq1))"

section \<open>Operations\<close>

definition upd_mq :: "nat \<Rightarrow> (rt_messagequeue \<Rightarrow> rt_messagequeue) \<Rightarrow> kstate \<Rightarrow> kstate" where
  "upd_mq x f s = s\<lparr>mqs := (mqs s)(x := f (mqs s x))\<rparr>"

text \<open>\<^verbatim>\<open>RT_ALIGN(msg_size, RT_ALIGN_SIZE)\<close>, stored in 16 bits.\<close>

definition mq_slot_size :: "u32 \<Rightarrow> u16" where
  "mq_slot_size n = ucast ((n + 3) AND NOT 3)"

definition rt_mq_init :: "nat \<Rightarrow> u8 list \<Rightarrow> (nat \<Rightarrow> u8 list) \<Rightarrow> u32 \<Rightarrow> u32 \<Rightarrow> u8 \<Rightarrow> kstate \<Rightarrow> (int \<times> kstate) option" where
  "rt_mq_init x nm pool msg_size pool_size flag s = do {
     _ \<leftarrow> kassert (ipc_flag_ok flag);
     s \<leftarrow> rt_object_init (Mem x) RT_Object_Class_MessageQueue nm s;
     let s = do_ipc_object_init (Susp x) (set_flag x flag s);
     let s = upd_mq x (\<lambda>mq. mq\<lparr>mq_msg_size := mq_slot_size msg_size,
                mq_max_msgs := ucast (pool_size div (ucast (mq_slot_size msg_size) + 4))\<rparr>) s;
     let s = upd_mq x (mq_fresh pool) s;
     Some (RT_EOK, do_ipc_object_init (SuspSender x) s)
   }"

definition rt_mq_detach :: "nat \<Rightarrow> kstate \<Rightarrow> (int \<times> kstate) option" where
  "rt_mq_detach x s = do {
     _ \<leftarrow> kassert (rt_object_get_type (Mem x) s = RT_Object_Class_MessageQueue);
     _ \<leftarrow> kassert (rt_object_is_systemobject (Mem x) s);
     s \<leftarrow> do_ipc_list_resume_all (Susp x) s;
     s \<leftarrow> do_ipc_list_resume_all (SuspSender x) s;
     Some (RT_EOK, rt_object_detach (Mem x) s)
   }"

definition rt_mq_create :: "nat option \<Rightarrow> (nat \<Rightarrow> u8 list) option \<Rightarrow> u8 list \<Rightarrow> u32 \<Rightarrow> u32 \<Rightarrow> u8 \<Rightarrow> kstate \<Rightarrow> (nat option \<times> kstate) option" where
  "rt_mq_create block pool nm msg_size max_msgs flag s = do {
     _ \<leftarrow> kassert (ipc_flag_ok flag);
     _ \<leftarrow> kassert (not_in_interrupt s);
     (r, s) \<leftarrow> rt_object_allocate block RT_Object_Class_MessageQueue nm s;
     case r of
       None \<Rightarrow> Some (None, s)
     | Some x \<Rightarrow>
         let s = do_ipc_object_init (Susp x) (set_flag x flag s);
             s = upd_mq x (\<lambda>mq. mq\<lparr>mq_msg_size := mq_slot_size msg_size, mq_max_msgs := ucast max_msgs\<rparr>) s
         in case pool of
              None \<Rightarrow> do { s \<leftarrow> rt_object_delete (Mem x) s; Some (None, s) }
            | Some p \<Rightarrow> Some (Some x, do_ipc_object_init (SuspSender x) (upd_mq x (mq_fresh p) s))
   }"

definition rt_mq_delete :: "nat \<Rightarrow> kstate \<Rightarrow> (int \<times> kstate) option" where
  "rt_mq_delete x s = do {
     _ \<leftarrow> kassert (rt_object_get_type (Mem x) s = RT_Object_Class_MessageQueue);
     _ \<leftarrow> kassert (\<not> rt_object_is_systemobject (Mem x) s);
     _ \<leftarrow> kassert (not_in_interrupt s);
     s \<leftarrow> do_ipc_list_resume_all (Susp x) s;
     s \<leftarrow> do_ipc_list_resume_all (SuspSender x) s;
     s \<leftarrow> rt_object_delete (Mem x) s;
     Some (RT_EOK, s)
   }"

definition mq_send_loop ::
    "nat \<Rightarrow> tid option \<Rightarrow> u8 list \<Rightarrow> int \<Rightarrow> kstate \<Rightarrow> ((int, tid \<times> u8 list \<times> int \<times> u32) outcome \<times> kstate) option" where
  "mq_send_loop x thr buf timeout s =
    (case mq_unfree (mqs s x) of
       None \<Rightarrow> do {
         t \<leftarrow> thr;
         let s = upd_thread t (\<lambda>th. th\<lparr>th_error := RT_EOK\<rparr>) s;
         if timeout = 0 then Some (Done (- RT_EFULL), s)
         else do {
           s1 \<leftarrow> ipc_wait (SuspSender x) t (oflag (objs s (Mem x))) timeout s;
           s2 \<leftarrow> rt_schedule s1;
           Some (Blocked (t, buf, timeout, rt_tick_get s), s2)
         }
       }
     | Some (m, mq) \<Rightarrow>
         (case mq_append m buf mq of (r, mq) \<Rightarrow>
            let s = upd_mq x (\<lambda>_. mq) s
            in if r \<noteq> RT_EOK then Some (Done r, s)
               else do { s \<leftarrow> wake_one (Susp x) s; Some (Done RT_EOK, s) }))"

definition rt_mq_send_wait ::
    "nat \<Rightarrow> u8 list \<Rightarrow> int \<Rightarrow> kstate \<Rightarrow> ((int, tid \<times> u8 list \<times> int \<times> u32) outcome \<times> kstate) option" where
  "rt_mq_send_wait x buf timeout s = do {
     _ \<leftarrow> kassert (rt_object_get_type (Mem x) s = RT_Object_Class_MessageQueue);
     _ \<leftarrow> kassert (buf \<noteq> []);
     _ \<leftarrow> kassert (scheduler_available (timeout \<noteq> 0) s);
     if length buf > unat (mq_msg_size (mqs s x)) then Some (Done (- RT_ERROR), s)
     else if mq_free (mqs s x) = None \<and> timeout = 0 then Some (Done (- RT_EFULL), s)
     else mq_send_loop x (rt_thread_self s) buf timeout s
   }"

definition rt_mq_send_wait_resume ::
    "nat \<Rightarrow> tid \<times> u8 list \<times> int \<times> u32 \<Rightarrow> kstate \<Rightarrow> ((int, tid \<times> u8 list \<times> int \<times> u32) outcome \<times> kstate) option" where
  "rt_mq_send_wait_resume x loc s = (case loc of (t, buf, timeout, start) \<Rightarrow>
     if th_error (threads s t) \<noteq> RT_EOK then Some (Done (th_error (threads s t)), s)
     else mq_send_loop x (Some t) buf (time_left timeout start s) s)"

definition rt_mq_send :: "nat \<Rightarrow> u8 list \<Rightarrow> kstate \<Rightarrow> ((int, tid \<times> u8 list \<times> int \<times> u32) outcome \<times> kstate) option" where
  "rt_mq_send x buf s = rt_mq_send_wait x buf 0 s"

definition rt_mq_urgent :: "nat \<Rightarrow> u8 list \<Rightarrow> kstate \<Rightarrow> (int \<times> kstate) option" where
  "rt_mq_urgent x buf s = do {
     _ \<leftarrow> kassert (rt_object_get_type (Mem x) s = RT_Object_Class_MessageQueue);
     _ \<leftarrow> kassert (buf \<noteq> []);
     if length buf > unat (mq_msg_size (mqs s x)) then Some (- RT_ERROR, s)
     else case mq_unfree (mqs s x) of
       None \<Rightarrow> Some (- RT_EFULL, s)
     | Some (m, mq) \<Rightarrow>
         (case mq_prepend m buf mq of (r, mq) \<Rightarrow>
            let s = upd_mq x (\<lambda>_. mq) s
            in if r \<noteq> RT_EOK then Some (r, s)
               else do { s \<leftarrow> wake_one (Susp x) s; Some (RT_EOK, s) })
   }"

text \<open>The receiver names the size of its buffer; the result carries the bytes copied into it.\<close>

definition mq_recv_loop ::
    "nat \<Rightarrow> tid option \<Rightarrow> nat \<Rightarrow> int \<Rightarrow> kstate \<Rightarrow> ((int \<times> u8 list, tid \<times> nat \<times> int \<times> u32) outcome \<times> kstate) option" where
  "mq_recv_loop x thr n timeout s =
    (if mq_entry (mqs s x) = 0 then do {
       t \<leftarrow> thr;
       let s = upd_thread t (\<lambda>th. th\<lparr>th_error := RT_EOK\<rparr>) s;
       if timeout = 0 then Some (Done (- RT_ETIMEOUT, []), upd_thread t (\<lambda>th. th\<lparr>th_error := - RT_ETIMEOUT\<rparr>) s)
       else do {
         s1 \<leftarrow> ipc_wait (Susp x) t (oflag (objs s (Mem x))) timeout s;
         s2 \<leftarrow> rt_schedule s1;
         Some (Blocked (t, n, timeout, rt_tick_get s), s2)
       }
     } else do {
       (bytes, mq) \<leftarrow> mq_take n (mqs s x);
       s \<leftarrow> wake_one (SuspSender x) (upd_mq x (\<lambda>_. mq) s);
       Some (Done (RT_EOK, bytes), s)
     })"

definition rt_mq_recv :: "nat \<Rightarrow> nat \<Rightarrow> int \<Rightarrow> kstate \<Rightarrow> ((int \<times> u8 list, tid \<times> nat \<times> int \<times> u32) outcome \<times> kstate) option" where
  "rt_mq_recv x n timeout s = do {
     _ \<leftarrow> kassert (rt_object_get_type (Mem x) s = RT_Object_Class_MessageQueue);
     _ \<leftarrow> kassert (n \<noteq> 0);
     _ \<leftarrow> kassert (scheduler_available (timeout \<noteq> 0) s);
     if mq_entry (mqs s x) = 0 \<and> timeout = 0 then Some (Done (- RT_ETIMEOUT, []), s)
     else mq_recv_loop x (rt_thread_self s) n timeout s
   }"

definition rt_mq_recv_resume ::
    "nat \<Rightarrow> tid \<times> nat \<times> int \<times> u32 \<Rightarrow> kstate \<Rightarrow> ((int \<times> u8 list, tid \<times> nat \<times> int \<times> u32) outcome \<times> kstate) option" where
  "rt_mq_recv_resume x loc s = (case loc of (t, n, timeout, start) \<Rightarrow>
     if th_error (threads s t) \<noteq> RT_EOK then Some (Done (th_error (threads s t), []), s)
     else mq_recv_loop x (Some t) n (time_left timeout start s) s)"

definition rt_mq_control :: "nat \<Rightarrow> int \<Rightarrow> kstate \<Rightarrow> (int \<times> kstate) option" where
  "rt_mq_control x cmd s = do {
     _ \<leftarrow> kassert (rt_object_get_type (Mem x) s = RT_Object_Class_MessageQueue);
     if cmd = RT_IPC_CMD_RESET then do {
       s \<leftarrow> do_ipc_list_resume_all (Susp x) s;
       s \<leftarrow> do_ipc_list_resume_all (SuspSender x) s;
       mq \<leftarrow> mq_drain (mqs s x);
       s \<leftarrow> rt_schedule (upd_mq x (\<lambda>_. mq\<lparr>mq_entry := 0\<rparr>) s);
       Some (RT_EOK, s)
     } else Some (- RT_ERROR, s)
   }"

section \<open>The chains\<close>

fun chain :: "(nat \<Rightarrow> nat option) \<Rightarrow> nat option \<Rightarrow> nat list \<Rightarrow> bool" where
  "chain nx p [] = (p = None)"
| "chain nx p (m # ms) = (p = Some m \<and> chain nx (nx m) ms)"

lemma chain_unique: "chain nx p xs \<Longrightarrow> chain nx p ys \<Longrightarrow> xs = ys"
  by (induction nx p xs arbitrary: ys rule: chain.induct) (case_tac ys; auto)+

lemma chain_upd [simp]: "m \<notin> set xs \<Longrightarrow> chain (nx(m := v)) p xs = chain nx p xs"
  by (induction nx p xs rule: chain.induct) auto

lemma chain_if: "m \<notin> set xs \<Longrightarrow> chain (\<lambda>a. if a = m then v else nx a) p xs = chain nx p xs"
  unfolding fun_upd_def[symmetric] by (rule chain_upd)

lemma chain_append: "chain nx p xs \<Longrightarrow> distinct xs \<Longrightarrow> m \<notin> set xs \<Longrightarrow> xs \<noteq> [] \<Longrightarrow> nx m = None \<Longrightarrow>
    chain (nx(last xs := Some m)) p (xs @ [m])"
proof (induction nx p xs rule: chain.induct)
  case (2 nx p a ms)
  show ?case
  proof (cases "ms = []")
    case True
    then show ?thesis using 2 by auto
  next
    case False
    then have "last ms \<noteq> a" using 2 by (metis distinct.simps(2) last_in_set)
    then show ?thesis using 2 False by simp
  qed
qed simp

lemma chain_None [simp]: "chain nx None xs = (xs = [])"
  by (cases xs) auto

text \<open>\<open>mq_slots\<close> follows a chain; the pool has no more slots than its fuel.\<close>

fun mq_slots :: "(nat \<Rightarrow> nat option) \<Rightarrow> nat \<Rightarrow> nat option \<Rightarrow> nat list" where
  "mq_slots nx 0 p = []"
| "mq_slots nx (Suc n) p = (case p of None \<Rightarrow> [] | Some m \<Rightarrow> m # mq_slots nx n (nx m))"

lemma mq_slots_chain: "chain nx p xs \<Longrightarrow> length xs \<le> n \<Longrightarrow> mq_slots nx n p = xs"
proof (induction n arbitrary: p xs)
  case (Suc n)
  then show ?case by (cases xs) auto
qed simp

definition mq_rep :: "rt_messagequeue \<Rightarrow> nat list \<Rightarrow> nat list \<Rightarrow> bool" where
  "mq_rep mq used frees \<longleftrightarrow> chain (mq_next mq) (mq_head mq) used \<and> chain (mq_next mq) (mq_free mq) frees \<and>
     distinct (used @ frees) \<and> set (used @ frees) = {..<unat (mq_max_msgs mq)} \<and> unat (mq_entry mq) = length used \<and>
     mq_tail mq = (if used = [] then None else Some (last used)) \<and>
     (\<forall>i<unat (mq_max_msgs mq). length (mq_data mq i) = unat (mq_msg_size mq))"

definition mq_used :: "rt_messagequeue \<Rightarrow> nat list" where
  "mq_used mq = mq_slots (mq_next mq) (unat (mq_max_msgs mq)) (mq_head mq)"

definition mq_frees :: "rt_messagequeue \<Rightarrow> nat list" where
  "mq_frees mq = mq_slots (mq_next mq) (unat (mq_max_msgs mq)) (mq_free mq)"

definition mq_wf :: "rt_messagequeue \<Rightarrow> bool" where
  "mq_wf mq \<longleftrightarrow> mq_rep mq (mq_used mq) (mq_frees mq)"

definition mq_content :: "rt_messagequeue \<Rightarrow> u8 list list" where
  "mq_content mq = map (mq_data mq) (mq_used mq)"

lemma mq_rep_size: "mq_rep mq used frees \<Longrightarrow> length used + length frees = unat (mq_max_msgs mq)"
  unfolding mq_rep_def by (metis card_lessThan distinct_card length_append)

lemma mq_rep_slots: "mq_rep mq used frees \<Longrightarrow> mq_used mq = used \<and> mq_frees mq = frees"
  using mq_rep_size[of mq used frees] unfolding mq_used_def mq_frees_def
  by (auto simp: mq_rep_def intro!: mq_slots_chain)

lemma mq_wfI: "mq_rep mq used frees \<Longrightarrow> mq_wf mq \<and> mq_content mq = map (mq_data mq) used"
  using mq_rep_slots unfolding mq_wf_def mq_content_def by metis


section \<open>The slots implement the queue\<close>

lemma mq_repD:
  assumes "mq_rep mq used frees"
  shows "chain (mq_next mq) (mq_head mq) used" "chain (mq_next mq) (mq_free mq) frees" "distinct used" "distinct frees"
    "set used \<inter> set frees = {}" "set used \<union> set frees = {..<unat (mq_max_msgs mq)}" "unat (mq_entry mq) = length used"
    "mq_tail mq = (if used = [] then None else Some (last used))"
    "i < unat (mq_max_msgs mq) \<Longrightarrow> length (mq_data mq i) = unat (mq_msg_size mq)"
  using assms by (auto simp: mq_rep_def)

lemma mq_entry_room:
  assumes "mq_rep mq used (m # frees)"
  shows "mq_entry mq < RT_MQ_ENTRY_MAX" "unat (mq_entry mq + 1) = Suc (length used)"
proof -
  have lt: "unat (mq_entry mq) < 65535"
    using mq_rep_size[OF assms] mq_repD(7)[OF assms] unsigned_less[of "mq_max_msgs mq", where 'a=nat] by simp
  then show "mq_entry mq < RT_MQ_ENTRY_MAX" by (simp add: word_less_nat_alt)
  show "unat (mq_entry mq + 1) = Suc (length used)" using lt mq_repD(7)[OF assms] by (simp add: unat_word_ariths(1))
qed

definition mq_message :: "rt_messagequeue \<Rightarrow> nat \<Rightarrow> u8 list \<Rightarrow> u8 list" where
  "mq_message mq m buf = buf @ drop (length buf) (mq_data mq m)"

definition mq_linked :: "nat \<Rightarrow> u8 list \<Rightarrow> (nat \<Rightarrow> nat option) \<Rightarrow> nat option \<Rightarrow> nat option \<Rightarrow> rt_messagequeue \<Rightarrow> rt_messagequeue" where
  "mq_linked m buf nx hp tp mq = mq\<lparr>mq_free := mq_next mq m, mq_next := nx, mq_data := (mq_data mq)(m := mq_message mq m buf),
     mq_head := hp, mq_tail := tp, mq_entry := mq_entry mq + 1\<rparr>"

text \<open>A slot that leaves the free list for the queue, wherever it is linked in there.\<close>

lemma mq_rep_linked:
  assumes r: "mq_rep mq used (m # frees)" and n: "length buf \<le> unat (mq_msg_size mq)" and ms: "set used' = insert m (set used)" "length used' = Suc (length used)"
    and ch: "chain nx hp used'" "chain nx (mq_next mq m) frees" and tp: "tp = Some (last used')"
  shows "mq_rep (mq_linked m buf nx hp tp mq) used' frees"
    "mq_content (mq_linked m buf nx hp tp mq) = map ((mq_data mq)(m := mq_message mq m buf)) used'"
proof -
  note d = mq_repD[OF r]
  have "m \<notin> set used" using d(5) by auto
  then have "card (set used') = length used'" using d(3) ms by (simp add: distinct_card)
  then have dist: "distinct used'" by (rule card_distinct)
  have ne: "used' \<noteq> []" using ms(2) by auto
  have m: "m < unat (mq_max_msgs mq)" "m \<notin> set frees" using d(4,6) by auto
  have len: "length (mq_message mq m buf) = unat (mq_msg_size mq)" using d(9)[OF m(1)] n by (simp add: mq_message_def)
  show rep: "mq_rep (mq_linked m buf nx hp tp mq) used' frees"
    using ch tp dist ne ms d len m mq_entry_room(2)[OF r] unfolding mq_rep_def mq_linked_def by auto
  show "mq_content (mq_linked m buf nx hp tp mq) = map ((mq_data mq)(m := mq_message mq m buf)) used'"
    using mq_wfI[OF rep] by (simp add: mq_linked_def)
qed

lemma mq_append_law:
  assumes r: "mq_rep mq used (m # frees)" and n: "length buf \<le> unat (mq_msg_size mq)"
  shows "\<exists>mq1 mq2. mq_unfree mq = Some (m, mq1) \<and> mq_append m buf mq1 = (RT_EOK, mq2) \<and> mq_rep mq2 (used @ [m]) frees \<and>
    mq_content mq2 = mq_content mq @ [mq_message mq m buf] \<and> mq_msg_size mq2 = mq_msg_size mq \<and> mq_max_msgs mq2 = mq_max_msgs mq"
proof -
  note d = mq_repD[OF r] and e = mq_entry_room[OF r]
  define nx where "nx = (if used = [] then (mq_next mq)(m := None) else (mq_next mq)(m := None, last used := Some m))"
  define hp where "hp = (if used = [] then Some m else mq_head mq)"
  let ?mq2 = "mq_linked m buf nx hp (Some m) mq"
  have m: "m \<notin> set used" "m \<notin> set frees" "mq_free mq = Some m" "chain (mq_next mq) (mq_next mq m) frees"
    using d by auto
  have hn: "mq_head mq = None \<longleftrightarrow> used = []" using d(1) by (cases used) auto
  have u: "mq_unfree mq = Some (m, mq\<lparr>mq_free := mq_next mq m\<rparr>)" by (simp add: mq_unfree_def m(3))
  have a: "mq_append m buf (mq\<lparr>mq_free := mq_next mq m\<rparr>) = (RT_EOK, ?mq2)"
    using e(1) d(8) hn by (cases "used = []") (simp_all add: mq_append_def Let_def mq_store_def mq_count_def mq_linked_def nx_def hp_def mq_message_def)
  have "chain nx hp (used @ [m]) \<and> chain nx (mq_next mq m) frees"
  proof (cases "used = []")
    case True
    then show ?thesis using m by (simp add: nx_def hp_def)
  next
    case False
    have "last used \<notin> set frees" using d(5) last_in_set[OF False] by auto
    moreover have "chain ((mq_next mq)(m := None, last used := Some m)) (mq_head mq) (used @ [m])"
      by (rule chain_append) (use d(1,3) m False in simp_all)
    ultimately show ?thesis using m False by (simp add: nx_def hp_def)
  qed
  then have "mq_rep ?mq2 (used @ [m]) frees" "mq_content ?mq2 = map ((mq_data mq)(m := mq_message mq m buf)) (used @ [m])"
    using mq_rep_linked[OF r n, of "used @ [m]" nx hp "Some m"] by simp_all
  moreover have "map ((mq_data mq)(m := mq_message mq m buf)) (used @ [m]) = mq_content mq @ [mq_message mq m buf]"
    using m(1) mq_wfI[OF r] by simp
  ultimately show ?thesis using u a by (simp add: mq_linked_def)
qed

lemma mq_prepend_law:
  assumes r: "mq_rep mq used (m # frees)" and n: "length buf \<le> unat (mq_msg_size mq)"
  shows "\<exists>mq1 mq2. mq_unfree mq = Some (m, mq1) \<and> mq_prepend m buf mq1 = (RT_EOK, mq2) \<and> mq_rep mq2 (m # used) frees \<and>
    mq_content mq2 = mq_message mq m buf # mq_content mq \<and> mq_msg_size mq2 = mq_msg_size mq \<and> mq_max_msgs mq2 = mq_max_msgs mq"
proof -
  note d = mq_repD[OF r] and e = mq_entry_room[OF r]
  define nx where "nx = (mq_next mq)(m := mq_head mq)"
  define tp where "tp = (if used = [] then Some m else mq_tail mq)"
  let ?mq2 = "mq_linked m buf nx (Some m) tp mq"
  have m: "m \<notin> set used" "m \<notin> set frees" "mq_free mq = Some m" "chain (mq_next mq) (mq_next mq m) frees"
    using d by auto
  have u: "mq_unfree mq = Some (m, mq\<lparr>mq_free := mq_next mq m\<rparr>)" by (simp add: mq_unfree_def m(3))
  have a: "mq_prepend m buf (mq\<lparr>mq_free := mq_next mq m\<rparr>) = (RT_EOK, ?mq2)"
    using e(1) d(8) by (cases "used = []") (simp_all add: mq_prepend_def Let_def mq_store_def mq_count_def mq_linked_def nx_def tp_def mq_message_def)
  have tp: "tp = Some (last (m # used))" using d(8) by (simp add: tp_def)
  have "chain nx (Some m) (m # used)" "chain nx (mq_next mq m) frees" using d(1) m by (simp_all add: nx_def)
  then have "mq_rep ?mq2 (m # used) frees" "mq_content ?mq2 = map ((mq_data mq)(m := mq_message mq m buf)) (m # used)"
    using mq_rep_linked[OF r n _ _ _ _ tp, of nx "Some m"] by simp_all
  moreover have "map ((mq_data mq)(m := mq_message mq m buf)) (m # used) = mq_message mq m buf # mq_content mq"
    using m(1) mq_wfI[OF r] by simp
  ultimately show ?thesis using u a by (simp add: mq_linked_def)
qed

lemma mq_take_law:
  assumes r: "mq_rep mq (m # used) frees"
  shows "\<exists>mq2. mq_take n mq = Some (take n (mq_data mq m), mq2) \<and> mq_rep mq2 used (m # frees) \<and>
    mq_content mq = mq_data mq m # mq_content mq2 \<and> mq_msg_size mq2 = mq_msg_size mq \<and> mq_max_msgs mq2 = mq_max_msgs mq"
proof -
  note d = mq_repD[OF r]
  define mq2 where "mq2 = mq\<lparr>mq_head := mq_next mq m, mq_tail := if used = [] then None else mq_tail mq, mq_entry := mq_entry mq - 1,
    mq_next := (mq_next mq)(m := mq_free mq), mq_free := Some m\<rparr>"
  have m: "mq_head mq = Some m" "m \<notin> set used" "m \<notin> set frees" "m < unat (mq_max_msgs mq)" "chain (mq_next mq) (mq_next mq m) used"
    using d(1,3,5,6) by auto
  have e: "0 < mq_entry mq" using d(7) by (simp add: word_less_nat_alt)
  then have e1: "unat (mq_entry mq - 1) = length used" using d(7) by (simp add: unat_minus_one)
  have tp: "mq_tail mq = Some m \<longleftrightarrow> used = []" using d(8) m(2) by (cases "used = []") (auto dest: last_in_set)
  have len: "length (mq_data mq m) = unat (mq_msg_size mq)" by (rule d(9)[OF m(4)])
  have "mq_take n mq = Some (take n (mq_data mq m), mq2)"
    using m(1) e tp len by (auto simp: mq_take_def mq_unhead_def Let_def mq_giveback_def mq2_def)
  moreover have rep: "mq_rep mq2 used (m # frees)"
    using d m e1 len unfolding mq_rep_def mq2_def by auto
  moreover have "mq_content mq = mq_data mq m # mq_content mq2"
    using mq_wfI[OF rep] mq_wfI[OF r] by (simp add: mq2_def)
  ultimately show ?thesis by (simp add: mq2_def)
qed


definition mq_try_put :: "u8 list \<Rightarrow> rt_messagequeue \<Rightarrow> rt_messagequeue option" where
  "mq_try_put buf mq = (case mq_unfree mq of None \<Rightarrow> None | Some (m, mq) \<Rightarrow> Some (snd (mq_append m buf mq)))"

definition mq_try_push :: "u8 list \<Rightarrow> rt_messagequeue \<Rightarrow> rt_messagequeue option" where
  "mq_try_push buf mq = (case mq_unfree mq of None \<Rightarrow> None | Some (m, mq) \<Rightarrow> Some (snd (mq_prepend m buf mq)))"

definition mq_try_get :: "rt_messagequeue \<Rightarrow> (u8 list \<times> rt_messagequeue) option" where
  "mq_try_get mq = (if mq_entry mq = 0 then None else mq_take (unat (mq_msg_size mq)) mq)"

definition mq_legal :: "rt_messagequeue \<Rightarrow> u8 list \<Rightarrow> bool" where
  "mq_legal mq buf \<longleftrightarrow> length buf = unat (mq_msg_size mq)"

lemma mq_wf_cases:
  assumes "mq_wf mq"
  obtains (full) "mq_free mq = None" "length (mq_content mq) = unat (mq_max_msgs mq)"
  | (room) used m frees where "mq_rep mq used (m # frees)" "length (mq_content mq) < unat (mq_max_msgs mq)"
proof -
  have r: "mq_rep mq (mq_used mq) (mq_frees mq)" using assms by (simp add: mq_wf_def)
  show thesis
  proof (cases "mq_frees mq")
    case Nil
    then show ?thesis using full mq_repD(2)[OF r] mq_rep_size[OF r] by (simp add: mq_content_def)
  next
    case (Cons m frees)
    then show ?thesis using room r mq_rep_size[OF r] by (simp add: mq_content_def)
  qed
qed

lemma mq_wf_head:
  assumes "mq_wf mq"
  obtains (empty) "mq_entry mq = 0" "mq_content mq = []"
  | (message) m used frees where "mq_entry mq \<noteq> 0" "mq_rep mq (m # used) frees"
proof -
  have r: "mq_rep mq (mq_used mq) (mq_frees mq)" using assms by (simp add: mq_wf_def)
  show thesis
  proof (cases "mq_used mq")
    case Nil
    then show ?thesis using empty mq_repD(7)[OF r] by (simp add: mq_content_def unat_eq_0)
  next
    case (Cons m used)
    have "mq_entry mq \<noteq> 0" using mq_repD(7)[OF r] Cons by auto
    then show ?thesis using message r Cons by metis
  qed
qed

lemma mq_slot_length:
  assumes "mq_rep mq used frees" "m \<in> set used \<union> set frees"
  shows "length (mq_data mq m) = unat (mq_msg_size mq)"
proof (rule mq_repD(9)[OF assms(1)])
  show "m < unat (mq_max_msgs mq)" using assms(2) unfolding mq_repD(6)[OF assms(1)] by simp
qed

lemma mq_message_full: "mq_rep mq used (m # frees) \<Longrightarrow> mq_legal mq buf \<Longrightarrow> mq_message mq m buf = buf"
  using mq_slot_length[of mq used "m # frees" m] by (simp add: mq_message_def mq_legal_def)

lemma mq_take_all: "mq_rep mq (m # used) frees \<Longrightarrow> take (unat (mq_msg_size mq)) (mq_data mq m) = mq_data mq m"
  using mq_slot_length[of mq "m # used" frees m] by simp

interpretation msgq: fifo_urgent mq_wf mq_content "\<lambda>mq. unat (mq_max_msgs mq)" mq_legal mq_try_put mq_try_get mq_try_push
proof
  fix mq mq' :: rt_messagequeue and buf :: "u8 list"
  assume wf: "mq_wf mq"
  have same: "mq_legal mq2 = mq_legal mq" if "mq_msg_size mq2 = mq_msg_size mq" for mq2
    using that by (simp add: fun_eq_iff mq_legal_def)
  have put: "mq_free mq = None \<and> length (mq_content mq) = unat (mq_max_msgs mq) \<and> mq_try_put buf mq = None \<and> mq_try_push buf mq = None \<or>
    (\<exists>q2 q3. length (mq_content mq) < unat (mq_max_msgs mq) \<and> mq_try_put buf mq = Some q2 \<and> mq_try_push buf mq = Some q3 \<and>
      mq_wf q2 \<and> mq_content q2 = mq_content mq @ [buf] \<and> mq_msg_size q2 = mq_msg_size mq \<and> mq_max_msgs q2 = mq_max_msgs mq \<and>
      mq_wf q3 \<and> mq_content q3 = buf # mq_content mq \<and> mq_msg_size q3 = mq_msg_size mq \<and> mq_max_msgs q3 = mq_max_msgs mq)"
    if l: "mq_legal mq buf"
    using wf
  proof (cases rule: mq_wf_cases)
    case full
    then show ?thesis by (simp add: mq_try_put_def mq_try_push_def mq_unfree_def)
  next
    case (room used m frees)
    have n: "length buf \<le> unat (mq_msg_size mq)" using l by (simp add: mq_legal_def)
    obtain mq1 mq2 where 1: "mq_unfree mq = Some (m, mq1)" "mq_append m buf mq1 = (RT_EOK, mq2)" "mq_rep mq2 (used @ [m]) frees"
      "mq_content mq2 = mq_content mq @ [mq_message mq m buf]" "mq_msg_size mq2 = mq_msg_size mq" "mq_max_msgs mq2 = mq_max_msgs mq"
      using mq_append_law[OF room(1) n] by blast
    obtain mq3 where 2: "mq_prepend m buf mq1 = (RT_EOK, mq3)" "mq_rep mq3 (m # used) frees"
      "mq_content mq3 = mq_message mq m buf # mq_content mq" "mq_msg_size mq3 = mq_msg_size mq" "mq_max_msgs mq3 = mq_max_msgs mq"
      using mq_prepend_law[OF room(1) n] 1(1) by auto
    show ?thesis
      using room(2) 1 2 mq_wfI[OF 1(3)] mq_wfI[OF 2(2)] mq_message_full[OF room(1) l]
      by (simp add: mq_try_put_def mq_try_push_def)
  qed
  have get: "mq_content mq = [] \<and> mq_try_get mq = None \<or>
    (\<exists>q2. mq_try_get mq = Some (hd (mq_content mq), q2) \<and> mq_content mq \<noteq> [] \<and> mq_wf q2 \<and> mq_content q2 = tl (mq_content mq) \<and>
      mq_msg_size q2 = mq_msg_size mq \<and> mq_max_msgs q2 = mq_max_msgs mq)"
    using wf
  proof (cases rule: mq_wf_head)
    case empty
    then show ?thesis by (simp add: mq_try_get_def)
  next
    case (message m used frees)
    obtain mq2 where "mq_take (unat (mq_msg_size mq)) mq = Some (take (unat (mq_msg_size mq)) (mq_data mq m), mq2)"
      "mq_rep mq2 used (m # frees)" "mq_content mq = mq_data mq m # mq_content mq2" "mq_msg_size mq2 = mq_msg_size mq"
      "mq_max_msgs mq2 = mq_max_msgs mq"
      using mq_take_law[OF message(2)] by blast
    then show ?thesis using message(1) mq_take_all[OF message(2)] mq_wfI[of mq2] by (simp add: mq_try_get_def)
  qed
  show "length (mq_content mq) \<le> unat (mq_max_msgs mq)" using wf by (cases rule: mq_wf_cases) auto
  show "mq_try_put buf mq = None \<longleftrightarrow> length (mq_content mq) = unat (mq_max_msgs mq)" if "mq_legal mq buf" using put[OF that] by auto
  show "mq_try_push buf mq = None \<longleftrightarrow> length (mq_content mq) = unat (mq_max_msgs mq)" if "mq_legal mq buf" using put[OF that] by auto
  show "mq_try_get mq = None \<longleftrightarrow> mq_content mq = []" using get by auto
  show "mq_wf mq' \<and> mq_content mq' = mq_content mq @ [buf] \<and> unat (mq_max_msgs mq') = unat (mq_max_msgs mq) \<and> mq_legal mq' = mq_legal mq"
    if "mq_legal mq buf" "mq_try_put buf mq = Some mq'" using put[OF that(1)] that(2) same[of mq'] by auto
  show "mq_wf mq' \<and> mq_content mq' = buf # mq_content mq \<and> unat (mq_max_msgs mq') = unat (mq_max_msgs mq) \<and> mq_legal mq' = mq_legal mq"
    if "mq_legal mq buf" "mq_try_push buf mq = Some mq'" using put[OF that(1)] that(2) same[of mq'] by auto
  show "mq_wf mq' \<and> mq_content mq = buf # mq_content mq' \<and> unat (mq_max_msgs mq') = unat (mq_max_msgs mq) \<and> mq_legal mq' = mq_legal mq"
    if "mq_try_get mq = Some (buf, mq')" using get that same[of mq'] by auto
qed


section \<open>Correctness of the calls\<close>

definition mq_ok :: "nat \<Rightarrow> kstate \<Rightarrow> bool" where
  "mq_ok x s \<longleftrightarrow> two_sided RT_Object_Class_MessageQueue x s \<and> mq_wf (mqs s x)"

lemma kern_upd_mq: "kern_inv X (upd_mq x f s) = kern_inv X s" "stacks_ok (upd_mq x f s) = stacks_ok s"
proof -
  show "kern_inv X (upd_mq x f s) = kern_inv X s"
    by (rule kern_inv_cong) (simp_all add: upd_mq_def tstat_def prio_def)
  show "stacks_ok (upd_mq x f s) = stacks_ok s" by (simp add: stacks_ok_def started_def tstat_def upd_mq_def)
qed

lemma upd_mq_simps [simp]:
  "threads (upd_mq x f s) = threads s" "klists (upd_mq x f s) = klists s" "cur (upd_mq x f s) = cur s"
  "objs (upd_mq x f s) = objs s" "rt_object_get_type a (upd_mq x f s) = rt_object_get_type a s"
  "mqs (upd_mq x f s) = (mqs s)(x := f (mqs s x))"
  by (simp_all add: upd_mq_def rt_object_get_type_def)

lemma mq_wake:
  assumes k: "kern_wf s" "stacks_ok s" "cur s \<noteq> None" and ok: "mq_ok x s" and wf: "mq_wf mq" and h: "h \<in> {Susp x, SuspSender x}"
  shows "\<exists>s'. wake_one h (upd_mq x (\<lambda>_. mq) s) = Some s' \<and> kern_wf s' \<and> stacks_ok s' \<and> mq_ok x s' \<and> mqs s' x = mq \<and>
    klists s' h = tl (klists s h) \<and> (\<forall>t ts. klists s h = t # ts \<longrightarrow> tstat s' t \<in> {RT_THREAD_READY, RT_THREAD_RUNNING})"
proof -
  let ?s = "upd_mq x (\<lambda>_. mq) s"
  have k0: "kern_wf ?s" "stacks_ok ?s" "cur ?s \<noteq> None" using k by (simp_all add: kern_upd_mq)
  have o: "two_sided RT_Object_Class_MessageQueue x ?s" using ok by (simp add: mq_ok_def two_sided_def)
  obtain s' where s': "wake_one h ?s = Some s'" "kern_wf s'" "stacks_ok s'" "two_sided RT_Object_Class_MessageQueue x s'"
    "no_kern s' = no_kern ?s" "klists s' h = tl (klists ?s h)"
    "\<forall>t ts. klists ?s h = t # ts \<longrightarrow> tstat s' t \<in> {RT_THREAD_READY, RT_THREAD_RUNNING}"
    using two_sided_wake[OF k0 o h] by blast
  then show ?thesis using wf no_kern_fields(10)[OF s'(5)] by (intro exI[of _ s']) (simp add: mq_ok_def)
qed

lemma mq_block:
  assumes k: "kern_wf s" and t: "cur s = Some t" "tstat s t = RT_THREAD_RUNNING" and ok: "stacks_ok s" and m: "mq_ok x s"
    and free: "lock_nest s = 0" "ready_group s \<noteq> 0" and time: "time_ok time" and h: "h \<in> {Susp x, SuspSender x}"
  shows "\<exists>s1 s'. ipc_wait h t (oflag (objs s (Mem x))) time (upd_thread t (\<lambda>th. th\<lparr>th_error := RT_EOK\<rparr>) s) = Some s1 \<and>
    rt_schedule s1 = Some s' \<and> kern_wf s' \<and> stacks_ok s' \<and> mq_ok x s' \<and> mqs s' = mqs s \<and>
    cur s' \<noteq> Some t \<and> tstat s' t = RT_THREAD_SUSPEND \<and>
    klists s' h = wait_insert (prio s) (oflag (objs s (Mem x))) t (klists s h) \<and>
    (0 < time \<longrightarrow> tm_timeout_tick (timers s' (TimerOf t)) = tick s + of_int time)"
proof -
  have o: "two_sided RT_Object_Class_MessageQueue x s" using m by (simp add: mq_ok_def)
  obtain s1 s' where b: "ipc_wait h t (oflag (objs s (Mem x))) time (upd_thread t (\<lambda>th. th\<lparr>th_error := RT_EOK\<rparr>) s) = Some s1"
    "rt_schedule s1 = Some s'" "kern_wf s'" "stacks_ok s'" "two_sided RT_Object_Class_MessageQueue x s'"
    "no_kern s' = no_kern (upd_thread t (\<lambda>th. th\<lparr>th_error := RT_EOK\<rparr>) s)"
    "cur s' \<noteq> Some t" "tstat s' t = RT_THREAD_SUSPEND"
    "klists s' h = wait_insert (prio s) (oflag (objs s (Mem x))) t (klists s h)"
    "0 < time \<longrightarrow> tm_timeout_tick (timers s' (TimerOf t)) = tick s + of_int time"
    using two_sided_block[OF k t ok o free time h] by blast
  moreover have "mqs s' = mqs s" using no_kern_fields(10)[OF b(6)] by simp
  ultimately show ?thesis using m by (intro exI[of _ s1] exI[of _ s']) (simp add: mq_ok_def)
qed

text \<open>
  C16. \<^verbatim>\<open>rt_mq_send_wait\<close>: a message longer than a slot is refused with \<open>-RT_ERROR\<close>; with a free slot the
  message is appended, its bytes first in the slot, and the first waiting receiver becomes ready; without
  one a zero timeout is refused, both without any change, and any other timeout queues the sender at its
  place. The chains keep partitioning the pool.
\<close>

theorem mq_send_refines:
  assumes "kern_wf s" "stacks_ok s" "mq_ok x s" "cur s = Some t" "tstat s t = RT_THREAD_RUNNING"
    and "lock_nest s = 0" "int_nest s = 0" "ready_group s \<noteq> 0" "time_ok timeout" "buf \<noteq> []"
  shows "\<exists>out s'. rt_mq_send_wait x buf timeout s = Some (out, s') \<and> kern_wf s' \<and> stacks_ok s' \<and> mq_ok x s' \<and>
    (if length buf > unat (mq_msg_size (mqs s x)) then out = Done (- RT_ERROR) \<and> s' = s
     else if length (mq_content (mqs s x)) < unat (mq_max_msgs (mqs s x))
     then out = Done RT_EOK \<and>
       (\<exists>m. mq_content (mqs s' x) = mq_content (mqs s x) @ [m] \<and> length m = unat (mq_msg_size (mqs s x)) \<and> take (length buf) m = buf) \<and>
       klists s' (Susp x) = tl (klists s (Susp x)) \<and>
       (\<forall>r rs. klists s (Susp x) = r # rs \<longrightarrow> tstat s' r \<in> {RT_THREAD_READY, RT_THREAD_RUNNING})
     else mqs s' x = mqs s x \<and>
       (if timeout = 0 then out = Done (- RT_EFULL) \<and> s' = s
        else out = Blocked (t, buf, timeout, tick s) \<and> tstat s' t = RT_THREAD_SUSPEND \<and> cur s' \<noteq> Some t \<and>
          klists s' (SuspSender x) = wait_insert (prio s) (oflag (objs s (Mem x))) t (klists s (SuspSender x)) \<and>
          (0 < timeout \<longrightarrow> tm_timeout_tick (timers s' (TimerOf t)) = tick s + of_int timeout)))"
proof -
  let ?mq = "mqs s x"
  have wf: "mq_wf ?mq" and ty: "rt_object_get_type (Mem x) s = RT_Object_Class_MessageQueue"
    using assms(3) by (simp_all add: mq_ok_def two_sided_def)
  have av: "scheduler_available b s" "rt_thread_self s = Some t" for b
    using assms(4,6,7) by (simp_all add: scheduler_available_def in_thread_context_def not_in_interrupt_def rt_thread_self_def)
  show ?thesis
  proof (cases "length buf > unat (mq_msg_size ?mq)")
    case True
    then show ?thesis using ty av assms(1-3,10) by (simp add: rt_mq_send_wait_def)
  next
    case short: False
    show ?thesis
      using wf
    proof (cases rule: mq_wf_cases)
      case (room used m frees)
      have n: "length buf \<le> unat (mq_msg_size ?mq)" using short by simp
      obtain mq1 mq2 where 1: "mq_unfree ?mq = Some (m, mq1)" "mq_append m buf mq1 = (RT_EOK, mq2)" "mq_rep mq2 (used @ [m]) frees"
        "mq_content mq2 = mq_content ?mq @ [mq_message ?mq m buf]" "mq_msg_size mq2 = mq_msg_size ?mq"
        using mq_append_law[OF room(1) n] by blast
      have wf2: "mq_wf mq2" using mq_wfI[OF 1(3)] by simp
      have c: "cur s \<noteq> None" using assms(4) by simp
      obtain s' where s': "wake_one (Susp x) (upd_mq x (\<lambda>_. mq2) s) = Some s'" "kern_wf s'" "stacks_ok s'" "mq_ok x s'" "mqs s' x = mq2"
        "klists s' (Susp x) = tl (klists s (Susp x))"
        "\<forall>t ts. klists s (Susp x) = t # ts \<longrightarrow> tstat s' t \<in> {RT_THREAD_READY, RT_THREAD_RUNNING}"
        using mq_wake[OF assms(1,2) c assms(3) wf2, of "Susp x"] by blast
      have "mq_free ?mq \<noteq> None" using 1(1) by (cases "mq_free ?mq") (simp_all add: mq_unfree_def)
      then have r: "rt_mq_send_wait x buf timeout s = Some (Done RT_EOK, s')"
        using ty av short assms(10) 1(1,2) s'(1) by (simp add: rt_mq_send_wait_def mq_send_loop_def)
      have "length (mq_message ?mq m buf) = unat (mq_msg_size ?mq)" "take (length buf) (mq_message ?mq m buf) = buf"
        using mq_slot_length[OF room(1), of m] n by (simp_all add: mq_message_def)
      then show ?thesis using r s' 1(4) short room(2) by (intro exI[of _ "Done RT_EOK"] exI[of _ s']) auto
    next
      case full
      have u: "mq_unfree ?mq = None" using full(1) by (simp add: mq_unfree_def)
      show ?thesis
      proof (cases "timeout = 0")
        case True
        then show ?thesis using ty av short full assms(1-3,10) by (simp add: rt_mq_send_wait_def)
      next
        case False
        obtain s1 s' where b: "ipc_wait (SuspSender x) t (oflag (objs s (Mem x))) timeout (upd_thread t (\<lambda>th. th\<lparr>th_error := RT_EOK\<rparr>) s) = Some s1"
          "rt_schedule s1 = Some s'" "kern_wf s'" "stacks_ok s'" "mq_ok x s'" "mqs s' = mqs s"
          "cur s' \<noteq> Some t" "tstat s' t = RT_THREAD_SUSPEND"
          "klists s' (SuspSender x) = wait_insert (prio s) (oflag (objs s (Mem x))) t (klists s (SuspSender x))"
          "0 < timeout \<longrightarrow> tm_timeout_tick (timers s' (TimerOf t)) = tick s + of_int timeout"
          using mq_block[OF assms(1,4,5,2,3,6,8,9), of "SuspSender x"] by blast
        have r: "rt_mq_send_wait x buf timeout s = Some (Blocked (t, buf, timeout, tick s), s')"
          using ty av short False u assms(10) b(1,2) by (simp add: rt_mq_send_wait_def mq_send_loop_def rt_tick_get_def)
        show ?thesis using r b short full(2) False by (intro exI[of _ "Blocked (t, buf, timeout, tick s)"] exI[of _ s']) simp
      qed
    qed
  qed
qed

text \<open>
  C17. \<^verbatim>\<open>rt_mq_recv\<close> answers the oldest message, cut to the size of the receiver's buffer, returns its slot
  to the free list and wakes the first waiting sender; from an empty queue a zero timeout is refused and
  changes nothing, and any other timeout queues the receiver at its place.
\<close>

theorem mq_recv_refines:
  assumes "kern_wf s" "stacks_ok s" "mq_ok x s" "cur s = Some t" "tstat s t = RT_THREAD_RUNNING"
    and "lock_nest s = 0" "int_nest s = 0" "ready_group s \<noteq> 0" "time_ok timeout" "n \<noteq> 0"
  shows "\<exists>out s'. rt_mq_recv x n timeout s = Some (out, s') \<and> kern_wf s' \<and> stacks_ok s' \<and> mq_ok x s' \<and>
    (case mq_content (mqs s x) of
       m # ms \<Rightarrow> out = Done (RT_EOK, take n m) \<and> mq_content (mqs s' x) = ms \<and>
         length (mq_frees (mqs s' x)) = length (mq_frees (mqs s x)) + 1 \<and>
         klists s' (SuspSender x) = tl (klists s (SuspSender x)) \<and>
         (\<forall>r rs. klists s (SuspSender x) = r # rs \<longrightarrow> tstat s' r \<in> {RT_THREAD_READY, RT_THREAD_RUNNING})
     | [] \<Rightarrow> mqs s' x = mqs s x \<and>
         (if timeout = 0 then out = Done (- RT_ETIMEOUT, []) \<and> s' = s
          else out = Blocked (t, n, timeout, tick s) \<and> tstat s' t = RT_THREAD_SUSPEND \<and> cur s' \<noteq> Some t \<and>
            klists s' (Susp x) = wait_insert (prio s) (oflag (objs s (Mem x))) t (klists s (Susp x)) \<and>
            (0 < timeout \<longrightarrow> tm_timeout_tick (timers s' (TimerOf t)) = tick s + of_int timeout)))"
proof -
  let ?mq = "mqs s x"
  have wf: "mq_wf ?mq" and ty: "rt_object_get_type (Mem x) s = RT_Object_Class_MessageQueue"
    using assms(3) by (simp_all add: mq_ok_def two_sided_def)
  have av: "scheduler_available b s" "rt_thread_self s = Some t" for b
    using assms(4,6,7) by (simp_all add: scheduler_available_def in_thread_context_def not_in_interrupt_def rt_thread_self_def)
  show ?thesis
    using wf
  proof (cases rule: mq_wf_head)
    case (message m used frees)
    obtain mq2 where 1: "mq_take n ?mq = Some (take n (mq_data ?mq m), mq2)" "mq_rep mq2 used (m # frees)"
      "mq_content ?mq = mq_data ?mq m # mq_content mq2" "mq_msg_size mq2 = mq_msg_size ?mq"
      using mq_take_law[OF message(2)] by blast
    have wf2: "mq_wf mq2" using mq_wfI[OF 1(2)] by simp
    have c: "cur s \<noteq> None" using assms(4) by simp
    obtain s' where s': "wake_one (SuspSender x) (upd_mq x (\<lambda>_. mq2) s) = Some s'" "kern_wf s'" "stacks_ok s'" "mq_ok x s'" "mqs s' x = mq2"
      "klists s' (SuspSender x) = tl (klists s (SuspSender x))"
      "\<forall>t ts. klists s (SuspSender x) = t # ts \<longrightarrow> tstat s' t \<in> {RT_THREAD_READY, RT_THREAD_RUNNING}"
      using mq_wake[OF assms(1,2) c assms(3) wf2, of "SuspSender x"] by blast
    have r: "rt_mq_recv x n timeout s = Some (Done (RT_EOK, take n (mq_data ?mq m)), s')"
      using ty av message(1) assms(10) 1(1) s'(1) by (simp add: rt_mq_recv_def mq_recv_loop_def)
    have "length (mq_frees mq2) = length (mq_frees ?mq) + 1"
      using mq_rep_slots[OF 1(2)] mq_rep_slots[OF message(2)] by simp
    then show ?thesis
      unfolding 1(3) using r s' by (intro exI[of _ "Done (RT_EOK, take n (mq_data ?mq m))"] exI[of _ s']) simp
  next
    case empty
    show ?thesis
    proof (cases "timeout = 0")
      case True
      then show ?thesis using ty av empty assms(1-3,10) by (simp add: rt_mq_recv_def)
    next
      case False
      obtain s1 s' where b: "ipc_wait (Susp x) t (oflag (objs s (Mem x))) timeout (upd_thread t (\<lambda>th. th\<lparr>th_error := RT_EOK\<rparr>) s) = Some s1"
        "rt_schedule s1 = Some s'" "kern_wf s'" "stacks_ok s'" "mq_ok x s'" "mqs s' = mqs s"
        "cur s' \<noteq> Some t" "tstat s' t = RT_THREAD_SUSPEND"
        "klists s' (Susp x) = wait_insert (prio s) (oflag (objs s (Mem x))) t (klists s (Susp x))"
        "0 < timeout \<longrightarrow> tm_timeout_tick (timers s' (TimerOf t)) = tick s + of_int timeout"
        using mq_block[OF assms(1,4,5,2,3,6,8,9), of "Susp x"] by blast
      have r: "rt_mq_recv x n timeout s = Some (Blocked (t, n, timeout, tick s), s')"
        using ty av False empty assms(10) b(1,2) by (simp add: rt_mq_recv_def mq_recv_loop_def rt_tick_get_def)
      show ?thesis using r b False empty(2) by (intro exI[of _ "Blocked (t, n, timeout, tick s)"] exI[of _ s']) simp
    qed
  qed
qed

section \<open>Initialisation and reset\<close>

lemma link_all_rep:
  assumes "\<And>i. length (mq_data mq i) = unat (mq_msg_size mq)" "mq_head mq = None" "mq_tail mq = None" "mq_free mq = None"
  shows "chain (mq_next (mq_link_all n mq)) (mq_free (mq_link_all n mq)) (rev [0..<n]) \<and>
    mq_head (mq_link_all n mq) = None \<and> mq_tail (mq_link_all n mq) = None \<and> mq_data (mq_link_all n mq) = mq_data mq \<and>
    mq_msg_size (mq_link_all n mq) = mq_msg_size mq \<and> mq_max_msgs (mq_link_all n mq) = mq_max_msgs mq"
  using assms by (induction n) (simp_all add: mq_giveback_def)

lemma mq_fresh_wf:
  assumes "\<And>i. length (pool i) = unat (mq_msg_size mq)"
  shows "mq_wf (mq_fresh pool mq) \<and> mq_content (mq_fresh pool mq) = []"
proof -
  let ?n = "unat (mq_max_msgs mq)"
  have "mq_rep (mq_fresh pool mq) [] (rev [0..<?n])"
    using link_all_rep[of "mq\<lparr>mq_data := pool, mq_head := None, mq_tail := None, mq_free := None\<rparr>" ?n] assms
    by (simp add: mq_rep_def mq_fresh_def lessThan_atLeast0)
  then show ?thesis using mq_wfI by fastforce
qed

text \<open>The loop of a reset ends, and every slot is free again.\<close>

lemma mq_drain_wf:
  assumes "chain (mq_next mq) (mq_head mq) used" "chain (mq_next mq) (mq_free mq) frees" "distinct (used @ frees)"
    "mq_tail mq = (if used = [] then None else Some (last used))"
  shows "\<exists>mq'. mq_drain mq = Some mq' \<and> chain (mq_next mq') (mq_free mq') (rev used @ frees) \<and> mq_head mq' = None \<and> mq_tail mq' = None \<and>
    mq_data mq' = mq_data mq \<and> mq_msg_size mq' = mq_msg_size mq \<and> mq_max_msgs mq' = mq_max_msgs mq"
  using assms
proof (induction used arbitrary: mq frees)
  case Nil
  then show ?case by (subst mq_drain.simps) (simp add: mq_unhead_def)
next
  case (Cons m used)
  define mq1 where "mq1 = mq\<lparr>mq_head := mq_next mq m, mq_tail := if mq_tail mq = Some m then None else mq_tail mq\<rparr>"
  have "m \<notin> set used" using Cons.prems(3) by simp
  then have tl: "mq_tail mq = Some m \<longleftrightarrow> used = []" using Cons.prems(4) last_in_set[of used] by (cases "used = []") auto
  have un: "mq_unhead mq = Some (m, mq1)" using Cons.prems(1) by (auto simp: mq_unhead_def mq1_def Let_def)
  have "\<exists>mq'. mq_drain (mq_giveback m mq1) = Some mq' \<and> chain (mq_next mq') (mq_free mq') (rev used @ (m # frees)) \<and>
    mq_head mq' = None \<and> mq_tail mq' = None \<and> mq_data mq' = mq_data (mq_giveback m mq1) \<and>
    mq_msg_size mq' = mq_msg_size (mq_giveback m mq1) \<and> mq_max_msgs mq' = mq_max_msgs (mq_giveback m mq1)"
    by (rule Cons.IH) (use Cons.prems tl in \<open>auto simp: mq_giveback_def mq1_def chain_if\<close>)
  then show ?case by (subst mq_drain.simps) (simp add: un, simp add: mq_giveback_def mq1_def)
qed


definition mq_demo :: kstate where
  "mq_demo = upd_mq 34 (\<lambda>mq. mq_fresh (\<lambda>i. [0, 0, 0, 0]) (mq\<lparr>mq_msg_size := 4, mq_max_msgs := 2\<rparr>)) idemo"

lemma mq_demo_state:
  "kern_wf mq_demo" "stacks_ok mq_demo" "mq_ok 34 mq_demo" "cur mq_demo = Some 2" "tstat mq_demo 2 = RT_THREAD_RUNNING"
  "lock_nest mq_demo = 0" "int_nest mq_demo = 0" "ready_group mq_demo \<noteq> 0" "mq_content (mqs mq_demo 34) = []"
  "mq_msg_size (mqs mq_demo 34) = 4" "mq_max_msgs (mqs mq_demo 34) = 2"
proof -
  let ?mq = "(mqs idemo 34)\<lparr>mq_msg_size := 4, mq_max_msgs := 2\<rparr>"
  have f: "mq_wf (mq_fresh (\<lambda>i. [0, 0, 0, 0]) ?mq)" "mq_content (mq_fresh (\<lambda>i. [0, 0, 0, 0]) ?mq) = []"
    using mq_fresh_wf[of "\<lambda>i. [0, 0, 0, 0]" ?mq] by simp_all
  show "kern_wf mq_demo" "stacks_ok mq_demo" using idemo_wf idemo_stacks by (simp_all add: mq_demo_def kern_upd_mq)
  show "mq_ok 34 mq_demo" using f(1) by (simp add: mq_demo_def mq_ok_def two_sided_def ipc_flag_ok_def)
  show "mq_content (mqs mq_demo 34) = []" using f(2) by (simp add: mq_demo_def)
  have "tstat mq_demo 2 = tstat idemo 2" by (simp add: mq_demo_def tstat_def)
  then show "tstat mq_demo 2 = RT_THREAD_RUNNING" by simp
  show "lock_nest mq_demo = 0" "int_nest mq_demo = 0" "ready_group mq_demo \<noteq> 0"
    using idemo_simps(3,6,7) unfolding mq_demo_def upd_mq_def by simp_all
  have "mq_msg_size (mq_link_all n q) = mq_msg_size q" "mq_max_msgs (mq_link_all n q) = mq_max_msgs q" for n q
    by (induction n) (simp_all add: mq_giveback_def)
  then show "mq_msg_size (mqs mq_demo 34) = 4" "mq_max_msgs (mqs mq_demo 34) = 2" by (simp_all add: mq_demo_def mq_fresh_def)
qed (simp_all add: mq_demo_def)

theorem mq_send_refines_witness:
  "\<exists>s' m. rt_mq_send_wait 34 [1, 2, 3] 0 mq_demo = Some (Done RT_EOK, s') \<and> mq_content (mqs s' 34) = [m] \<and> take (length [1, 2, 3 :: u8]) m = [1, 2, 3]"
proof -
  have t: "time_ok 0" and b: "[1, 2, 3] \<noteq> ([] :: u8 list)" by (simp_all add: time_ok_def)
  show ?thesis using mq_send_refines[OF mq_demo_state(1-8) t b] unfolding mq_demo_state(9-11) by auto
qed

theorem mq_recv_refines_witness:
  "\<exists>s'. rt_mq_recv 34 4 0 mq_demo = Some (Done (- RT_ETIMEOUT, []), s') \<and> mq_ok 34 s'"
proof -
  have t: "time_ok 0" and n: "(4 :: nat) \<noteq> 0" by (simp_all add: time_ok_def)
  show ?thesis using mq_recv_refines[OF mq_demo_state(1-8) t n] unfolding mq_demo_state(9) by auto
qed

section \<open>Delivery\<close>

text \<open>
  Any calls of \<^verbatim>\<open>rt_mq_send\<close> and \<^verbatim>\<open>rt_mq_recv\<close> without waiting on one queue, by whatever threads run; a call
  answers its code and, for a receive, the bytes copied into the receiver's buffer.
\<close>

datatype mq_op = Send "u8 list" | Receive nat

type_synonym mq_answer = "int \<times> u8 list"

fun mq_call :: "nat \<Rightarrow> mq_op \<Rightarrow> kstate \<Rightarrow> (mq_answer \<times> kstate) option" where
  "mq_call x (Send b) s = do {
     (out, s) \<leftarrow> rt_mq_send x b s;
     Some (case out of Done r \<Rightarrow> (r, []) | Blocked _ \<Rightarrow> (0, []), s)
   }"
| "mq_call x (Receive n) s = do {
     (out, s) \<leftarrow> rt_mq_recv x n 0 s;
     Some (case out of Done r \<Rightarrow> r | Blocked _ \<Rightarrow> (0, []), s)
   }"

fun mq_calls :: "nat \<Rightarrow> mq_op list \<Rightarrow> kstate \<Rightarrow> (mq_answer list \<times> kstate) option" where
  "mq_calls x [] s = Some ([], s)"
| "mq_calls x (op # ops) s = do { (a, s) \<leftarrow> mq_call x op s; (as, s) \<leftarrow> mq_calls x ops s; Some (a # as, s) }"

text \<open>
  The same calls on a bounded first-in first-out queue of messages of any length up to \<open>sz\<close>, of which it
  holds \<open>cap\<close>.
\<close>

fun fifo_call :: "nat \<Rightarrow> nat \<Rightarrow> mq_op \<Rightarrow> u8 list list \<Rightarrow> mq_answer \<times> u8 list list" where
  "fifo_call cap sz (Send b) Q =
    (if sz < length b then ((- RT_ERROR, []), Q)
     else if length Q = cap then ((- RT_EFULL, []), Q)
     else ((RT_EOK, []), Q @ [b]))"
| "fifo_call cap sz (Receive n) Q =
    (case Q of [] \<Rightarrow> ((- RT_ETIMEOUT, []), []) | m # ms \<Rightarrow> ((RT_EOK, take n m), ms))"

fun fifo_calls :: "nat \<Rightarrow> nat \<Rightarrow> mq_op list \<Rightarrow> u8 list list \<Rightarrow> mq_answer list \<times> u8 list list" where
  "fifo_calls cap sz [] Q = ([], Q)"
| "fifo_calls cap sz (op # ops) Q =
    (case fifo_call cap sz op Q of (a, Q) \<Rightarrow> case fifo_calls cap sz ops Q of (as, Q) \<Rightarrow> (a # as, Q))"

text \<open>A slot begins with the bytes of its message; the bytes behind a shorter message are those it held before.\<close>

definition begins :: "u8 list \<Rightarrow> u8 list \<Rightarrow> bool" where
  "begins m slot \<longleftrightarrow> take (length m) slot = m"

lemma begins_take: "begins m slot \<Longrightarrow> begins (take n m) (take n slot)"
  unfolding begins_def by (metis length_take take_take min.commute take_all_iff le_cases min.absorb1)

lemma begins_refl [simp]: "begins m m" "begins [] m"
  by (simp_all add: begins_def)

lemma wake_one_cur:
  assumes "kern_wf s" "stacks_ok s" "cur s \<noteq> None" "wait_head h" "wake_one h s = Some s'"
  shows "cur s' \<noteq> None"
proof (cases "klists s h")
  case Nil
  then show ?thesis using assms(3,5) by (simp add: wake_one_def)
next
  case (Cons t ts)
  obtain s1 where s1: "do_ipc_list_resume h s = Some s1" "kern_wf s1" "stacks_ok s1" "cur s1 = cur s"
    using resume_head[OF assms(1,2,4) Cons] by blast
  then obtain s2 where "rt_schedule s1 = Some s2" "cur s2 \<noteq> None" using schedule_kern_ex[of s1] assms(3) by auto
  then show ?thesis using s1(1) assms(5) Cons by (simp add: wake_one_def)
qed

definition mq_live :: "nat \<Rightarrow> kstate \<Rightarrow> bool" where
  "mq_live x s \<longleftrightarrow> kern_wf s \<and> stacks_ok s \<and> mq_ok x s \<and> cur s \<noteq> None"

lemma mq_live_wake:
  assumes l: "mq_live x s" and wf: "mq_wf mq" and h: "h \<in> {Susp x, SuspSender x}"
  shows "\<exists>s'. wake_one h (upd_mq x (\<lambda>_. mq) s) = Some s' \<and> mq_live x s' \<and> mqs s' x = mq"
proof -
  have k: "kern_wf s" "stacks_ok s" "cur s \<noteq> None" "mq_ok x s" using l by (simp_all add: mq_live_def)
  obtain s' where s': "wake_one h (upd_mq x (\<lambda>_. mq) s) = Some s'" "kern_wf s'" "stacks_ok s'" "mq_ok x s'" "mqs s' x = mq"
    using mq_wake[OF k wf h] by blast
  have "cur s' \<noteq> None" by (rule wake_one_cur[OF _ _ _ two_heads[OF h] s'(1)]) (use k in \<open>simp_all add: kern_upd_mq\<close>)
  then show ?thesis using s' by (simp add: mq_live_def)
qed

lemma mq_live_type: "mq_live x s \<Longrightarrow> rt_object_get_type (Mem x) s = RT_Object_Class_MessageQueue \<and> mq_wf (mqs s x)"
  by (simp add: mq_live_def mq_ok_def two_sided_def)

lemma mq_send_step:
  assumes l: "mq_live x s" and b: "b \<noteq> []"
  shows "\<exists>r s'. rt_mq_send x b s = Some (Done r, s') \<and> mq_live x s' \<and>
    mq_max_msgs (mqs s' x) = mq_max_msgs (mqs s x) \<and> mq_msg_size (mqs s' x) = mq_msg_size (mqs s x) \<and>
    (if unat (mq_msg_size (mqs s x)) < length b then r = - RT_ERROR \<and> mqs s' x = mqs s x
     else if length (mq_content (mqs s x)) = unat (mq_max_msgs (mqs s x)) then r = - RT_EFULL \<and> mqs s' x = mqs s x
     else r = RT_EOK \<and> (\<exists>slot. begins b slot \<and> mq_content (mqs s' x) = mq_content (mqs s x) @ [slot]))"
proof -
  let ?mq = "mqs s x"
  have ty: "rt_object_get_type (Mem x) s = RT_Object_Class_MessageQueue" and wf: "mq_wf ?mq"
    using mq_live_type[OF l] by simp_all
  note send = rt_mq_send_def rt_mq_send_wait_def scheduler_available_def
  show ?thesis
  proof (cases "unat (mq_msg_size ?mq) < length b")
    case True
    then show ?thesis using ty l b by (simp add: send)
  next
    case short: False
    show ?thesis
      using wf
    proof (cases rule: mq_wf_cases)
      case full
      then show ?thesis using ty l b short by (simp add: send)
    next
      case (room used m frees)
      have n: "length b \<le> unat (mq_msg_size ?mq)" using short by simp
      obtain mq1 mq2 where 1: "mq_unfree ?mq = Some (m, mq1)" "mq_append m b mq1 = (RT_EOK, mq2)" "mq_rep mq2 (used @ [m]) frees"
        "mq_content mq2 = mq_content ?mq @ [mq_message ?mq m b]" "mq_msg_size mq2 = mq_msg_size ?mq" "mq_max_msgs mq2 = mq_max_msgs ?mq"
        using mq_append_law[OF room(1) n] by blast
      have wf2: "mq_wf mq2" using mq_wfI[OF 1(3)] by simp
      obtain s' where s': "wake_one (Susp x) (upd_mq x (\<lambda>_. mq2) s) = Some s'" "mq_live x s'" "mqs s' x = mq2"
        using mq_live_wake[OF l wf2, of "Susp x"] by auto
      have "mq_free ?mq \<noteq> None" using 1(1) by (cases "mq_free ?mq") (simp_all add: mq_unfree_def)
      then have "rt_mq_send x b s = Some (Done RT_EOK, s')"
        using ty short b 1(1,2) s'(1) by (simp add: send mq_send_loop_def)
      moreover have "begins b (mq_message ?mq m b)" by (simp add: begins_def mq_message_def)
      ultimately show ?thesis using s' 1(4-6) short room(2) by (intro exI[of _ RT_EOK] exI[of _ s']) auto
    qed
  qed
qed

lemma mq_recv_step:
  assumes l: "mq_live x s" and n: "n \<noteq> 0"
  shows "\<exists>r s'. rt_mq_recv x n 0 s = Some (Done r, s') \<and> mq_live x s' \<and>
    mq_max_msgs (mqs s' x) = mq_max_msgs (mqs s x) \<and> mq_msg_size (mqs s' x) = mq_msg_size (mqs s x) \<and>
    (case mq_content (mqs s x) of
       [] \<Rightarrow> r = (- RT_ETIMEOUT, []) \<and> mqs s' x = mqs s x
     | m # ms \<Rightarrow> r = (RT_EOK, take n m) \<and> mq_content (mqs s' x) = ms)"
proof -
  let ?mq = "mqs s x"
  have ty: "rt_object_get_type (Mem x) s = RT_Object_Class_MessageQueue" and wf: "mq_wf ?mq"
    using mq_live_type[OF l] by simp_all
  note recv = rt_mq_recv_def scheduler_available_def
  show ?thesis
    using wf
  proof (cases rule: mq_wf_head)
    case empty
    then show ?thesis using ty l n by (simp add: recv)
  next
    case (message m used frees)
    obtain mq2 where 1: "mq_take n ?mq = Some (take n (mq_data ?mq m), mq2)" "mq_rep mq2 used (m # frees)"
      "mq_content ?mq = mq_data ?mq m # mq_content mq2" "mq_msg_size mq2 = mq_msg_size ?mq" "mq_max_msgs mq2 = mq_max_msgs ?mq"
      using mq_take_law[OF message(2)] by blast
    have wf2: "mq_wf mq2" using mq_wfI[OF 1(2)] by simp
    obtain s' where s': "wake_one (SuspSender x) (upd_mq x (\<lambda>_. mq2) s) = Some s'" "mq_live x s'" "mqs s' x = mq2"
      using mq_live_wake[OF l wf2, of "SuspSender x"] by auto
    have "rt_mq_recv x n 0 s = Some (Done (RT_EOK, take n (mq_data ?mq m)), s')"
      using ty message(1) n 1(1) s'(1) by (simp add: recv mq_recv_loop_def)
    then show ?thesis unfolding 1(3) using s' 1(4,5) by (intro exI[of _ "(RT_EOK, take n (mq_data ?mq m))"] exI[of _ s']) simp
  qed
qed

text \<open>
  The code of a call is that of the specification, and what is received begins with what the specification
  answers; a refused call copies nothing.
\<close>

definition same_answer :: "mq_answer \<Rightarrow> mq_answer \<Rightarrow> bool" where
  "same_answer spec a \<longleftrightarrow> fst a = fst spec \<and> begins (snd spec) (snd a) \<and> (fst a \<noteq> RT_EOK \<longrightarrow> snd a = [])"

fun mq_op_ok :: "mq_op \<Rightarrow> bool" where
  "mq_op_ok (Send b) = (b \<noteq> [])"
| "mq_op_ok (Receive n) = (n \<noteq> 0)"

definition mq_same :: "nat \<Rightarrow> kstate \<Rightarrow> kstate \<Rightarrow> bool" where
  "mq_same x s s' \<longleftrightarrow> mq_max_msgs (mqs s' x) = mq_max_msgs (mqs s x) \<and> mq_msg_size (mqs s' x) = mq_msg_size (mqs s x)"

lemma mq_call_sim:
  assumes l: "mq_live x s" and op: "mq_op_ok op" and q: "list_all2 begins Q (mq_content (mqs s x))"
    and f: "fifo_call (unat (mq_max_msgs (mqs s x))) (unat (mq_msg_size (mqs s x))) op Q = (spec, Q1)"
  shows "\<exists>a s1. mq_call x op s = Some (a, s1) \<and> same_answer spec a \<and> list_all2 begins Q1 (mq_content (mqs s1 x)) \<and>
    mq_live x s1 \<and> mq_same x s s1"
proof (cases op)
  case (Send b)
  have len: "length Q = length (mq_content (mqs s x))" by (rule list_all2_lengthD[OF q])
  obtain r s1 where s1: "rt_mq_send x b s = Some (Done r, s1)" "mq_live x s1" "mq_same x s s1"
    "if unat (mq_msg_size (mqs s x)) < length b then r = - RT_ERROR \<and> mqs s1 x = mqs s x
     else if length (mq_content (mqs s x)) = unat (mq_max_msgs (mqs s x)) then r = - RT_EFULL \<and> mqs s1 x = mqs s x
     else r = RT_EOK \<and> (\<exists>slot. begins b slot \<and> mq_content (mqs s1 x) = mq_content (mqs s x) @ [slot])"
    using mq_send_step[OF l, of b] op Send by (auto simp: mq_same_def)
  have "spec = (r, []) \<and> list_all2 begins Q1 (mq_content (mqs s1 x))"
  proof (cases "unat (mq_msg_size (mqs s x)) < length b \<or> length Q = unat (mq_max_msgs (mqs s x))")
    case True
    then show ?thesis using f Send s1(4) len q by (auto split: if_splits)
  next
    case False
    then obtain slot where "begins b slot" "mq_content (mqs s1 x) = mq_content (mqs s x) @ [slot]" "r = RT_EOK"
      using s1(4) len by auto
    then show ?thesis using f Send False q by (auto intro: list_all2_appendI)
  qed
  then show ?thesis using Send s1(1-3) by (simp add: same_answer_def)
next
  case (Receive n)
  obtain r s1 where s1: "rt_mq_recv x n 0 s = Some (Done r, s1)" "mq_live x s1" "mq_same x s s1"
    "case mq_content (mqs s x) of [] \<Rightarrow> r = (- RT_ETIMEOUT, []) \<and> mqs s1 x = mqs s x
     | m # ms \<Rightarrow> r = (RT_EOK, take n m) \<and> mq_content (mqs s1 x) = ms"
    using mq_recv_step[OF l, of n] op Receive by (auto simp: mq_same_def)
  have "same_answer spec r \<and> list_all2 begins Q1 (mq_content (mqs s1 x))"
    using f Receive s1(4) q by (cases Q; cases "mq_content (mqs s x)") (auto simp: same_answer_def begins_take)
  then show ?thesis using Receive s1(1-3) by simp
qed

lemma mq_calls_sim:
  assumes "mq_live x s" "list_all mq_op_ok ops" "list_all2 begins Q (mq_content (mqs s x))"
    and "fifo_calls (unat (mq_max_msgs (mqs s x))) (unat (mq_msg_size (mqs s x))) ops Q = (spec, Q')"
  shows "\<exists>as s'. mq_calls x ops s = Some (as, s') \<and> list_all2 same_answer spec as \<and>
    list_all2 begins Q' (mq_content (mqs s' x)) \<and> mq_live x s'"
  using assms
proof (induction ops arbitrary: s Q spec)
  case (Cons op ops)
  let ?cap = "unat (mq_max_msgs (mqs s x))" and ?sz = "unat (mq_msg_size (mqs s x))"
  obtain a Q1 where a: "fifo_call ?cap ?sz op Q = (a, Q1)" by fastforce
  obtain spec1 where spec: "fifo_calls ?cap ?sz ops Q1 = (spec1, Q')" "spec = a # spec1"
    using Cons.prems(4) a by (auto split: prod.splits)
  obtain r s1 where s1: "mq_call x op s = Some (r, s1)" "same_answer a r" "list_all2 begins Q1 (mq_content (mqs s1 x))"
    "mq_live x s1" "mq_same x s s1"
    using mq_call_sim[OF Cons.prems(1) _ Cons.prems(3) a] Cons.prems(2) by auto
  obtain as s' where "mq_calls x ops s1 = Some (as, s')" "list_all2 same_answer spec1 as"
    "list_all2 begins Q' (mq_content (mqs s' x))" "mq_live x s'"
    using Cons.IH[OF s1(4) _ s1(3), of spec1] Cons.prems(2) spec(1) s1(5) by (auto simp: mq_same_def)
  then show ?case using s1(1,2) spec(2) by simp
qed simp

text \<open>
  C18. A message queue delivers. Take any calls of \<^verbatim>\<open>rt_mq_send\<close> and \<^verbatim>\<open>rt_mq_recv\<close> with zero timeouts, for messages
  and buffers of any length but zero, on a queue whose slots begin with the messages \<open>Q\<close>. Every call returns, with the
  code it has on a bounded first-in first-out queue of messages: a message is refused only when it is too long
  or the queue is full, a receive only when it is empty. What a receive copies begins with the bytes of the
  oldest message, as many as the receiver's buffer takes, whether or not the message filled its slot, and what is left in the
  slots are the messages left in the queue, in order. (Behind a message shorter than its slot a receiver also
  gets the bytes the slot held before: the code does not record the length of a message.)
\<close>

theorem mq_delivers_in_order:
  assumes "kern_wf s" "stacks_ok s" "mq_ok x s" "cur s \<noteq> None" "list_all mq_op_ok ops"
    and "list_all2 begins Q (mq_content (mqs s x))"
    and "fifo_calls (unat (mq_max_msgs (mqs s x))) (unat (mq_msg_size (mqs s x))) ops Q = (spec, Q')"
  shows "\<exists>as s'. mq_calls x ops s = Some (as, s') \<and> list_all2 same_answer spec as \<and>
    list_all2 begins Q' (mq_content (mqs s' x)) \<and> kern_wf s' \<and> stacks_ok s' \<and> mq_ok x s'"
  using mq_calls_sim[OF _ assms(5-7)] assms(1-4) by (auto simp: mq_live_def)

text \<open>Two messages shorter than their slots come out in order, the third is refused, a third receive finds the queue empty.\<close>

theorem mq_delivers_in_order_witness:
  "\<exists>s' a1 a2 b1 b2. mq_calls 34 [Send [1, 2, 3], Send [4], Send [5], Receive 4, Receive 4, Receive 4] mq_demo =
      Some ([(RT_EOK, a1), (RT_EOK, a2), (- RT_EFULL, []), (RT_EOK, b1), (RT_EOK, b2), (- RT_ETIMEOUT, [])], s') \<and>
    take 3 b1 = [1, 2, 3] \<and> take 1 b2 = [4] \<and> mq_content (mqs s' 34) = []"
proof -
  let ?ops = "[Send [1, 2, 3], Send [4], Send [5], Receive 4, Receive 4, Receive 4] :: mq_op list"
  let ?spec = "[(RT_EOK, []), (RT_EOK, []), (- RT_EFULL, []), (RT_EOK, [1, 2, 3]), (RT_EOK, [4]), (- RT_ETIMEOUT, [])] :: mq_answer list"
  have spec: "fifo_calls (unat (mq_max_msgs (mqs mq_demo 34))) (unat (mq_msg_size (mqs mq_demo 34))) ?ops [] = (?spec, [])"
    by (simp add: mq_demo_state(10,11))
  have c: "cur mq_demo \<noteq> None" by (simp add: mq_demo_state(4))
  have ok: "list_all mq_op_ok ?ops" by simp
  have q: "list_all2 begins [] (mq_content (mqs mq_demo 34))" by (simp add: mq_demo_state(9))
  obtain as s' where r: "mq_calls 34 ?ops mq_demo = Some (as, s')" "list_all2 same_answer ?spec as"
    "list_all2 begins [] (mq_content (mqs s' 34))"
    using mq_delivers_in_order[OF mq_demo_state(1-3) c ok q spec] by blast
  obtain a1 a2 b1 b2 where as: "as = [(RT_EOK, a1), (RT_EOK, a2), (- RT_EFULL, []), (RT_EOK, b1), (RT_EOK, b2), (- RT_ETIMEOUT, [])]"
    "begins [1, 2, 3] b1" "begins [4] b2"
    using r(2) by (auto simp: list_all2_Cons1 same_answer_def)
  have "mq_content (mqs s' 34) = []" using r(3) by simp
  moreover have "take 3 b1 = [1, 2, 3]" "take 1 b2 = [4]" using as(2,3) by (simp_all add: begins_def numeral_3_eq_3)
  ultimately show ?thesis using r(1) unfolding as(1) by blast
qed

text \<open>An urgent message is the next one out.\<close>

lemma mq_urgent_first:
  assumes "mq_wf mq" "length b = unat (mq_msg_size mq)" "mq_try_push b mq = Some mq1"
  shows "\<exists>mq2. mq_try_get mq1 = Some (b, mq2) \<and> mq_content mq2 = mq_content mq"
  using msgq.urgent_first[OF assms(1) _ assms(3)] assms(2) by (auto simp: mq_legal_def)

end
