(* ===== verification/Startup.thy ===== *)
theory Startup
  imports Clock
begin

text \<open>
  \<^verbatim>\<open>src/idle.c\<close> (the hooks and the loop of the idle thread) and \<^verbatim>\<open>src/components.c\<close> (the start of the
  system). The lemmas show that the start-up sequence, run on the memory at reset, ends with the
  scheduler started on the highest of the three system threads and establishes the kernel invariant.
\<close>

section \<open>The idle thread\<close>

text \<open>
  \<^verbatim>\<open>idle_hook_list\<close> is an array of function pointers, here of \<open>option\<close>s: \<open>None\<close> is the null pointer,
  which a caller may also pass.
\<close>

type_synonym hooks = "nat option list"

abbreviation (input) RT_IDLE_HOOK_LIST_SIZE :: nat where "RT_IDLE_HOOK_LIST_SIZE \<equiv> 4"

fun set_first :: "nat option \<Rightarrow> nat option \<Rightarrow> hooks \<Rightarrow> hooks option" where
  "set_first old new [] = None"
| "set_first old new (h # hs) = (if h = old then Some (new # hs) else map_option (Cons h) (set_first old new hs))"

definition rt_thread_idle_sethook :: "nat option \<Rightarrow> hooks \<Rightarrow> int \<times> hooks" where
  "rt_thread_idle_sethook hook hs =
    (case set_first None hook hs of Some hs' \<Rightarrow> (RT_EOK, hs') | None \<Rightarrow> (- RT_EFULL, hs))"

definition rt_thread_idle_delhook :: "nat option \<Rightarrow> hooks \<Rightarrow> int \<times> hooks" where
  "rt_thread_idle_delhook hook hs =
    (case set_first hook None hs of Some hs' \<Rightarrow> (RT_EOK, hs') | None \<Rightarrow> (- RT_ENOSYS, hs))"

text \<open>
  One round of the loop of \<^verbatim>\<open>rt_thread_idle_entry\<close>: the hooks in the order of the array, then the
  clean-up of the closed threads.
\<close>

fun run_hooks :: "callbacks \<Rightarrow> hooks \<Rightarrow> kstate \<Rightarrow> kstate option" where
  "run_hooks ucb [] s = Some s"
| "run_hooks ucb (h # hs) s = (case h of None \<Rightarrow> Some s | Some f \<Rightarrow> ucb f s) \<bind> run_hooks ucb hs"

definition rt_thread_idle_entry_round ::
    "callbacks \<Rightarrow> (nat \<Rightarrow> tid \<Rightarrow> kstate \<Rightarrow> kstate option) \<Rightarrow> hooks \<Rightarrow> kstate \<Rightarrow> kstate option" where
  "rt_thread_idle_entry_round ucb ccb hs s = run_hooks ucb hs s \<bind> rt_defunct_execute ccb"

text \<open>The name is the text \<^verbatim>\<open>tidle0\<close> that \<^verbatim>\<open>rt_sprintf\<close> writes.\<close>

definition rt_thread_idle_init :: "u32 \<Rightarrow> nat \<Rightarrow> kstate \<Rightarrow> kstate option" where
  "rt_thread_idle_init stack entry s = do {
     (_, s) \<leftarrow> rt_thread_init idle_thread [116, 105, 100, 108, 101, 48] entry 0 stack 256 (32 - 1) 32 s;
     (_, s) \<leftarrow> rt_thread_startup idle_thread s;
     Some s
   }"

definition rt_thread_idle_gethandler :: tid where
  "rt_thread_idle_gethandler = idle_thread"

section \<open>The start of the system\<close>

text \<open>
  \<open>board\<close> stands for \<^verbatim>\<open>rt_hw_board_init\<close>, the drivers' part. The addresses of the static stacks and of
  the entry functions are the linker's, the blocks of the main thread the allocator's; the banner of
  \<^verbatim>\<open>rt_show_version\<close> is output only.
\<close>

record image =
  im_timer_stack :: u32
  im_idle_stack :: u32
  im_timer_entry :: nat
  im_idle_entry :: nat
  im_main_entry :: nat
  im_main_block :: "nat option"
  im_main_stack :: "u32 option"

definition rt_application_init :: "image \<Rightarrow> kstate \<Rightarrow> kstate option" where
  "rt_application_init im s = do {
     (r, s) \<leftarrow> rt_thread_create (im_main_block im) (im_main_stack im) [109, 97, 105, 110] (im_main_entry im) 0 2048 10 20 s;
     t \<leftarrow> r;
     (_, s) \<leftarrow> rt_thread_startup t s;
     Some s
   }"

definition rtthread_startup :: "(kstate \<Rightarrow> kstate option) \<Rightarrow> image \<Rightarrow> kstate \<Rightarrow> kstate option" where
  "rtthread_startup board im s = do {
     s \<leftarrow> board s;
     let s = rt_system_timer_init s;
     let s = rt_system_scheduler_init s;
     s \<leftarrow> rt_application_init im s;
     s \<leftarrow> rt_system_timer_thread_init (im_timer_stack im) (im_timer_entry im) s;
     s \<leftarrow> rt_thread_idle_init (im_idle_stack im) (im_idle_entry im) s;
     rt_system_scheduler_start s
   }"

section \<open>The state while the system starts\<close>

text \<open>
  \<open>boot_ok R s\<close>: the scheduler has not started, no timer is queued, the threads in \<open>R\<close> are ready and
  sound, all others are fresh memory.
\<close>

definition boot_ok :: "tid set \<Rightarrow> kstate \<Rightarrow> bool" where
  "boot_ok R s \<longleftrightarrow> sched_inv {} s \<and> cur s = None \<and> lock_nest s = 0 \<and> int_nest s = 0 \<and> tmlists s = (\<lambda>h. []) \<and>
    (\<forall>u. tstat s u = (if u \<in> R then RT_THREAD_READY else RT_THREAD_INIT)) \<and>
    (\<forall>a u. tm_func (timers s a) = TF_thread_timeout u \<longrightarrow> a = TimerOf u) \<and>
    (\<forall>u. \<not> has_flag RT_TIMER_FLAG_ACTIVATED (TimerOf u) s) \<and> periods_ok s \<and>
    (\<forall>u\<in>R. rt_object_get_type (Mem u) s = RT_Object_Class_Thread \<and>
       rt_object_get_type (TimerOf u) s = RT_Object_Class_Timer \<and> tm_func (timers s (TimerOf u)) = TF_thread_timeout u \<and>
       \<not> has_flag RT_TIMER_FLAG_PERIODIC (TimerOf u) s \<and> \<not> has_flag RT_TIMER_FLAG_SOFT_TIMER (TimerOf u) s \<and>
       stack_check (threads s u))"

lemma boot_kern:
  assumes "boot_ok R s"
  shows "kern_wf s" "stacks_ok s"
proof -
  have st: "tstat s u = (if u \<in> R then RT_THREAD_READY else RT_THREAD_INIT)" "started s u = (u \<in> R)" for u
    using assms by (auto simp: boot_ok_def started_def)
  have "ll_wf (tmlists s)" using assms by (simp add: boot_ok_def ll_wf_def)
  then have "timer_wf s" using assms by (simp add: boot_ok_def timer_wf_def)
  moreover have "cur_ok s" using assms st by (simp add: boot_ok_def cur_ok_def)
  moreover have "thread_tm_wf s" "thread_objs s" "sched_inv {} s"
    using assms unfolding thread_tm_wf_def thread_objs_def st by (auto simp: boot_ok_def)
  ultimately show "kern_wf s" by (simp add: kern_inv_def)
  show "stacks_ok s" using assms by (simp add: stacks_ok_def st boot_ok_def)
qed

text \<open>Changes to memory that no ready thread uses.\<close>

lemma boot_upd:
  assumes b: "boot_ok R s"
    and e: "klists s' = klists s" "ready_group s' = ready_group s" "cur s' = cur s" "lock_nest s' = lock_nest s"
      "int_nest s' = int_nest s" "tmlists s' = tmlists s" "\<And>u. tstat s' u = tstat s u"
    and r: "\<And>u. u \<in> R \<Longrightarrow> threads s' u = threads s u \<and> objs s' (Mem u) = objs s (Mem u) \<and>
      objs s' (TimerOf u) = objs s (TimerOf u) \<and> timers s' (TimerOf u) = timers s (TimerOf u)"
    and f: "\<And>a u. tm_func (timers s' a) = TF_thread_timeout u \<Longrightarrow> a = TimerOf u"
      "\<And>u. \<not> has_flag RT_TIMER_FLAG_ACTIVATED (TimerOf u) s'" "periods_ok s'"
  shows "boot_ok R s'"
proof -
  have st: "tstat s u = (if u \<in> R then RT_THREAD_READY else RT_THREAD_INIT)" for u using b by (simp add: boot_ok_def)
  have pr: "u \<in> R \<Longrightarrow> prio s' u = prio s u" "u \<in> R \<Longrightarrow> runnable s' u = runnable s u" for u
    using r[of u] by (simp_all add: prio_def runnable_def)
  have inv: "sched_inv {} s" using b by (simp add: boot_ok_def)
  have q: "\<And>p. bit (ready_group s) p \<longleftrightarrow> klists s (Ready p) \<noteq> []" "ll_wf (klists s)"
    "\<And>t p. t \<in> set (klists s (Ready p)) \<longleftrightarrow> tstat s t = RT_THREAD_READY \<and> prio s t = p"
    "\<And>t h. t \<in> set (klists s h) \<Longrightarrow> wait_head h \<Longrightarrow> tstat s t = RT_THREAD_SUSPEND"
    "\<And>t. t \<in> set (klists s Defunct) \<Longrightarrow> tstat s t = RT_THREAD_CLOSE" "\<And>t. started s t \<Longrightarrow> runnable s t"
    using inv by (auto simp: sched_inv_def)
  have "t \<in> set (klists s (Ready p)) \<longleftrightarrow> tstat s t = RT_THREAD_READY \<and> prio s' t = p" for t p
    unfolding q(3) st using pr(1)[of t] by auto
  moreover have "started s' t \<Longrightarrow> runnable s' t" for t
    using q(6)[of t] pr(2)[of t] unfolding started_def e(7) st by (auto split: if_splits)
  ultimately have "sched_inv {} s'"
    using q unfolding sched_inv_def e by simp
  then show ?thesis
    using b r f unfolding boot_ok_def e has_flag_def rt_object_get_type_def by simp
qed

text \<open>Registering an object before the scheduler runs: no switch happens when the critical section ends.\<close>

definition registered :: "u8 \<Rightarrow> u8 \<Rightarrow> u8 list \<Rightarrow> addr \<Rightarrow> kstate \<Rightarrow> kstate" where
  "registered c ty nm a s =
    (let s = upd_obj a (\<lambda>ob. ob\<lparr>otype := ty, oname := name_copy (oname ob) nm\<rparr>) s
     in s\<lparr>containers := ll_insert_after c a (containers s)\<rparr>)"

lemma object_init_boot:
  assumes "cur s = None" "lock_nest s = 0" "rt_object_get_information ty = Some c" "a \<notin> set (containers s c)"
  shows "rt_object_init a ty nm s = Some (registered c (ty OR RT_Object_Class_Static) nm a s)"
proof -
  have s: "(s\<lparr>lock_nest := lock_nest s\<rparr>) = s" by simp
  then have s0: "s\<lparr>lock_nest := 0\<rparr> = s" using assms(2) by simp
  have "sint (lock_nest (rt_enter_critical s) - 1) = 0" using assms(2) by (simp add: rt_enter_critical_def)
  then have "rt_exit_critical (rt_enter_critical s) = Some s"
    using assms(1,2) s0 by (simp add: rt_exit_critical_def rt_enter_critical_def)
  moreover have "\<forall>obj\<in>set (containers (rt_enter_critical s) c). obj \<noteq> a" using assms(4) by (auto simp: rt_enter_critical_def)
  ultimately show ?thesis using assms(3) by (simp add: rt_object_init_def registered_def Let_def)
qed

text \<open>\<open>sound t start sz p\<close>: the stack is a real block that holds the first frame, the priority is legal.\<close>

definition sound :: "u32 \<Rightarrow> u32 \<Rightarrow> u8 \<Rightarrow> bool" where
  "sound start sz p \<longleftrightarrow> unat start + unat sz < 2 ^ 32 \<and> 80 \<le> sz \<and> unat p < 32"

definition boot_thread :: "nat \<Rightarrow> nat \<Rightarrow> u32 \<Rightarrow> u32 \<Rightarrow> u32 \<Rightarrow> u8 \<Rightarrow> u32 \<Rightarrow> rt_thread \<Rightarrow> rt_thread" where
  "boot_thread entry param sp start sz p n th = th\<lparr>th_entry := entry, th_parameter := param, th_stack_addr := start,
     th_stack_size := sz, th_guard := 0x23, th_sp := sp, th_prio := p, th_number_mask := 0, th_event_set := 0,
     th_event_info := 0, th_init_tick := n, th_remaining_tick := n, th_error := RT_EOK, th_stat := RT_THREAD_INIT,
     th_cleanup := None, th_user_data := 0\<rparr>"

lemma do_thread_init_boot:
  assumes c: "cur s = None" "lock_nest s = 0" "TimerOf t \<notin> set (containers s RT_Object_Class_Timer)"
    and ok: "sound start sz p"
  obtains sp nm where
    "do_thread_init t entry param start sz p n s =
      Some (RT_EOK, do_timer_init (TimerOf t) (TF_thread_timeout t) 0 RT_TIMER_FLAG_ONE_SHOT
        (registered RT_Object_Class_Timer (RT_Object_Class_Timer OR RT_Object_Class_Static) nm (TimerOf t)
          (upd_thread t (boot_thread entry param sp start sz p n) s)))"
    "stack_check (boot_thread entry param sp start sz p n th)"
proof -
  obtain sp frame where f: "rt_hw_stack_init (of_nat entry) (of_nat param) (start + sz - 4) thread_exit_addr = (sp, frame)"
    by (metis surj_pair)
  have a: "unat start + unat sz < 2 ^ 32" "80 \<le> sz" "unat p < 32" using ok by (simp_all add: sound_def)
  note fr = stack_frame_facts(1,2)[OF a(1,2) f]
  have lt: "start < sp" "sp \<le> start + sz" using fr a(1) by (simp_all add: word_less_nat_alt word_le_nat_alt unat_word_ariths(1))
  then have ne: "start \<le> sp" "sp \<noteq> start" by auto
  let ?s = "upd_thread t (boot_thread entry param sp start sz p n) s"
  have u: "upd_thread t (\<lambda>th. th\<lparr>th_prio := p, th_number_mask := 0, th_event_set := 0, th_event_info := 0,
               th_init_tick := n, th_remaining_tick := n, th_error := RT_EOK, th_stat := RT_THREAD_INIT,
               th_cleanup := None, th_user_data := 0\<rparr>)
       (upd_thread t (\<lambda>th. th\<lparr>th_entry := entry, th_parameter := param, th_stack_addr := start,
               th_stack_size := sz, th_guard := 0x23, th_sp := sp\<rparr>) s) = ?s"
    by (simp add: upd_thread_def boot_thread_def)
  have i: "rt_object_get_information RT_Object_Class_Timer = Some RT_Object_Class_Timer"
    by (simp add: rt_object_get_information_def container_types_def)
  have o: "rt_object_init (TimerOf t) RT_Object_Class_Timer nm ?s =
      Some (registered RT_Object_Class_Timer (RT_Object_Class_Timer OR RT_Object_Class_Static) nm (TimerOf t) ?s)" for nm
    using c by (intro object_init_boot[OF _ _ i]) (simp_all add: upd_thread_def)
  have "stack_check (boot_thread entry param sp start sz p n th)"
    using lt by (simp add: stack_check_def boot_thread_def not_le not_less)
  moreover have "do_thread_init t entry param start sz p n s =
      Some (RT_EOK, do_timer_init (TimerOf t) (TF_thread_timeout t) 0 RT_TIMER_FLAG_ONE_SHOT
        (registered RT_Object_Class_Timer (RT_Object_Class_Timer OR RT_Object_Class_Static) (oname (objs s (Mem t))) (TimerOf t) ?s))"
    using f ne a(3) u o[of "oname (objs s (Mem t))"]
    by (simp add: do_thread_init_def rt_timer_init_def) (simp add: upd_thread_def)
  ultimately show ?thesis by (rule that[rotated])
qed

lemma boot_init:
  assumes b: "boot_ok R s" and t: "t \<notin> R" and ty: "rt_object_get_type (Mem t) s = RT_Object_Class_Thread"
    and c: "TimerOf t \<notin> set (containers s RT_Object_Class_Timer)" and ok: "sound start sz p"
  obtains s' where "do_thread_init t entry param start sz p n s = Some (RT_EOK, s')" "boot_ok R s'" "initialised t s'"
    "stack_check (threads s' t)" "prio s' t = unat p" "\<forall>u\<in>R. prio s' u = prio s u"
    "containers s' = ll_insert_after RT_Object_Class_Timer (TimerOf t) (containers s)" "tick s' = tick s"
proof -
  have e: "cur s = None" "lock_nest s = 0" "tstat s t = RT_THREAD_INIT" using b t by (simp_all add: boot_ok_def)
  obtain sp nm where i: "do_thread_init t entry param start sz p n s =
      Some (RT_EOK, do_timer_init (TimerOf t) (TF_thread_timeout t) 0 RT_TIMER_FLAG_ONE_SHOT
        (registered RT_Object_Class_Timer (RT_Object_Class_Timer OR RT_Object_Class_Static) nm (TimerOf t)
          (upd_thread t (boot_thread entry param sp start sz p n) s)))"
    "\<And>th. stack_check (boot_thread entry param sp start sz p n th)"
    by (rule do_thread_init_boot[OF e(1,2) c ok, where entry = entry and param = param and n = n]) (auto simp: boot_thread_def stack_check_def)
  define s' where "s' = do_timer_init (TimerOf t) (TF_thread_timeout t) 0 RT_TIMER_FLAG_ONE_SHOT
        (registered RT_Object_Class_Timer (RT_Object_Class_Timer OR RT_Object_Class_Static) nm (TimerOf t)
          (upd_thread t (boot_thread entry param sp start sz p n) s))"
  note defs = s'_def do_timer_init_def registered_def upd_thread_def upd_obj_def upd_timer_def flag_clear_def Let_def
  have f: "klists s' = klists s" "ready_group s' = ready_group s" "cur s' = cur s" "lock_nest s' = lock_nest s"
      "int_nest s' = int_nest s" "tmlists s' = tmlists s" "tick s' = tick s"
      "containers s' = ll_insert_after RT_Object_Class_Timer (TimerOf t) (containers s)"
      "\<And>u. u \<noteq> t \<Longrightarrow> threads s' u = threads s u" "threads s' t = boot_thread entry param sp start sz p n (threads s t)"
      "\<And>a. a \<noteq> TimerOf t \<Longrightarrow> objs s' a = objs s a" "\<And>a. a \<noteq> TimerOf t \<Longrightarrow> timers s' a = timers s a"
      "oflag (objs s' (TimerOf t)) = 0" "otype (objs s' (TimerOf t)) = 0x8a"
      "tm_func (timers s' (TimerOf t)) = TF_thread_timeout t"
    by (simp_all add: defs)
  have st: "tstat s' u = tstat s u" for u
    using f(9)[of u] f(10) e(3) by (cases "u = t") (simp_all add: tstat_def boot_thread_def)
  have hf: "has_flag g a s' = (a \<noteq> TimerOf t \<and> has_flag g a s)" for g a
    using f(11)[of a] f(13) by (cases "a = TimerOf t") (simp_all add: has_flag_def)
  have "boot_ok R s'"
  proof (rule boot_upd[OF b f(1-6) st])
    show "threads s' u = threads s u \<and> objs s' (Mem u) = objs s (Mem u) \<and>
      objs s' (TimerOf u) = objs s (TimerOf u) \<and> timers s' (TimerOf u) = timers s (TimerOf u)" if "u \<in> R" for u
      using that t f(9,11,12) by (metis addr.distinct(1) addr.inject(2))
    show "a = TimerOf u" if "tm_func (timers s' a) = TF_thread_timeout u" for a u
      using that b f(12)[of a] f(15) by (cases "a = TimerOf t") (auto simp: boot_ok_def)
    show "\<not> has_flag RT_TIMER_FLAG_ACTIVATED (TimerOf u) s'" for u using b by (simp add: hf boot_ok_def)
    show "periods_ok s'" unfolding periods_ok_def
    proof (intro allI impI)
      fix a assume a: "has_flag RT_TIMER_FLAG_PERIODIC a s' \<and> rt_object_get_type a s' = RT_Object_Class_Timer"
      then have "a \<noteq> TimerOf t" "has_flag RT_TIMER_FLAG_PERIODIC a s" by (simp_all add: hf)
      then show "0 < tm_init_tick (timers s' a) \<and> tm_init_tick (timers s' a) < RT_TICK_HALF"
        using a f(11,12)[of a] b by (simp add: boot_ok_def periods_ok_def rt_object_get_type_def)
    qed
  qed
  moreover have "initialised t s'"
    using e(3) ty ok f(10,11,14,15) hf
    by (simp add: initialised_def st prio_def rt_object_get_type_def boot_thread_def sound_def)
  moreover have "\<forall>u\<in>R. prio s' u = prio s u" using f(9) t by (metis prio_def)
  moreover have "do_thread_init t entry param start sz p n s = Some (RT_EOK, s')" unfolding s'_def by (rule i(1))
  moreover have "stack_check (threads s' t)" unfolding f(10) by (rule i(2))
  moreover have "prio s' t = unat p" using f(10) by (simp add: prio_def boot_thread_def)
  ultimately show ?thesis using that[of s'] f(7,8) by blast
qed

lemma boot_start:
  assumes b: "boot_ok R s" and t: "t \<notin> R" and i: "initialised t s" and chk: "stack_check (threads s t)"
  obtains s' where "rt_thread_startup t s = Some (RT_EOK, s')" "boot_ok (insert t R) s'" "prio s' = prio s"
    "containers s' = containers s" "tick s' = tick s"
proof -
  note k = boot_kern[OF b]
  define s1 where "s1 = upd_thread t (\<lambda>th. th\<lparr>th_stat := RT_THREAD_SUSPEND\<rparr>)
      (upd_thread t (\<lambda>th. th\<lparr>th_number_mask := push_bit (unat (th_prio th)) 1\<rparr>) s)"
  note p = startup_prepare[OF k(1) i, folded s1_def]
  have t1: "tstat s1 t = RT_THREAD_SUSPEND" using p(2)[of t] by simp
  have e1: "objs s1 = objs s" "timers s1 = timers s" "tmlists s1 = tmlists s" "cur s1 = None" "lock_nest s1 = 0"
    "int_nest s1 = 0" "containers s1 = containers s" "tick s1 = tick s" "prio s1 u = prio s u"
    "stack_check (threads s1 u) = stack_check (threads s u)" for u
    using b by (simp_all add: s1_def upd_thread_def boot_ok_def prio_def stack_check_def)
  obtain s2 where s2: "rt_thread_resume t s1 = Some (RT_EOK, s2)" "kern_wf s2" "cur s2 = cur s1"
    "\<And>u. tstat s2 u = (if u = t then if cur s1 = Some t then RT_THREAD_RUNNING else RT_THREAD_READY else tstat s1 u)"
    using resume_thread[OF p(1) t1] by metis
  let ?k = "s1\<lparr>klists := ll_remove t (klists s1)\<rparr>"
  have ty: "rt_object_get_type (TimerOf t) ?k = RT_Object_Class_Timer" "\<not> has_flag RT_TIMER_FLAG_ACTIVATED (TimerOf t) ?k"
    using i e1 by (simp_all add: initialised_def rt_object_get_type_def has_flag_def)
  have "rt_schedule_insert_thread t ?k = Some s2"
    using s2(1) t1 timer_stop_eq[OF ty(1)] ty(2)
    by (auto simp: rt_thread_resume_def bind_eq_Some_conv split: if_splits)
  then have ns: "no_sched s2 = no_sched ?k" by (rule no_sched_insert)
  note f = no_sched_fields[OF ns] and g = no_sched_thread[OF ns]
  have e2: "objs s2 = objs s" "timers s2 = timers s" "tmlists s2 = tmlists s" "lock_nest s2 = 0" "int_nest s2 = 0"
    "containers s2 = containers s" "tick s2 = tick s" using f e1 by simp_all
  have th: "prio s2 u = prio s u" "stack_check (threads s2 u) = stack_check (threads s u)" for u
    using g(10)[of u] g(11)[of u] e1(9,10)[of u] by (simp_all add: prio_def)
  have st: "tstat s2 u = (if u \<in> insert t R then RT_THREAD_READY else RT_THREAD_INIT)" for u
    using s2(4)[of u] p(2)[of u] e1(4) b by (simp add: boot_ok_def)
  have "boot_ok (insert t R) s2"
    using b i s2(2,3) e1(4) e2 chk unfolding boot_ok_def st th has_flag_def rt_object_get_type_def periods_ok_def
    by (simp add: kern_inv_def initialised_def has_flag_def rt_object_get_type_def)
  moreover have "rt_thread_startup t s = Some (RT_EOK, s2)"
    using i s2(1,3) e1(4) by (simp add: rt_thread_startup_def rt_thread_self_def initialised_def s1_def)
  ultimately show ?thesis using that[of s2] th e2 by (simp add: fun_eq_iff)
qed

text \<open>
  \<open>launched R t p s s'\<close>: from \<open>s\<close> to \<open>s'\<close> the thread \<open>t\<close> of priority \<open>p\<close> has joined the ready threads \<open>R\<close>, and
  the containers hold nothing new but its objects.
\<close>

definition launched :: "tid set \<Rightarrow> tid \<Rightarrow> nat \<Rightarrow> kstate \<Rightarrow> kstate \<Rightarrow> bool" where
  "launched R t p s s' \<longleftrightarrow> boot_ok (insert t R) s' \<and> prio s' t = p \<and> (\<forall>u\<in>R. prio s' u = prio s u) \<and>
    tick s' = tick s \<and> (\<forall>c. set (containers s' c) \<subseteq> set (containers s c) \<union> {Mem t, TimerOf t})"

lemma set_ll_insert_after: "set (ll_insert_after h n ls c) \<subseteq> insert n (set (ls c))"
  by (auto simp: ll_insert_after_def)

text \<open>From a registered thread object to a ready thread.\<close>

lemma launch:
  assumes b: "boot_ok R s1" and t: "t \<notin> R" and ty: "rt_object_get_type (Mem t) s1 = RT_Object_Class_Thread"
    and c: "TimerOf t \<notin> set (containers s1 RT_Object_Class_Timer)" and ok: "sound start sz p"
    and pr: "\<forall>u\<in>R. prio s1 u = prio s u" "tick s1 = tick s"
    and co: "\<And>c. set (containers s1 c) \<subseteq> insert (Mem t) (set (containers s c))"
  shows "\<exists>s2 s'. do_thread_init t entry param start sz p n s1 = Some (RT_EOK, s2) \<and>
    rt_thread_startup t s2 = Some (RT_EOK, s') \<and> launched R t (unat p) s s'"
proof -
  obtain s2 where s2: "do_thread_init t entry param start sz p n s1 = Some (RT_EOK, s2)" "boot_ok R s2" "initialised t s2"
    "stack_check (threads s2 t)" "prio s2 t = unat p" "\<forall>u\<in>R. prio s2 u = prio s1 u"
    "containers s2 = ll_insert_after RT_Object_Class_Timer (TimerOf t) (containers s1)" "tick s2 = tick s1"
    by (rule boot_init[OF b t ty c ok])
  obtain s' where s': "rt_thread_startup t s2 = Some (RT_EOK, s')" "boot_ok (insert t R) s'" "prio s' = prio s2"
    "containers s' = containers s2" "tick s' = tick s2"
    by (rule boot_start[OF s2(2) t s2(3,4)])
  have "set (containers s' d) \<subseteq> set (containers s d) \<union> {Mem t, TimerOf t}" for d
    using co[of d] set_ll_insert_after[of RT_Object_Class_Timer "TimerOf t" "containers s1" d] s'(4) s2(7) by auto
  then show ?thesis using s2(1,5,6,8) s' pr by (simp add: launched_def)
qed

lemma thread_information: "rt_object_get_information RT_Object_Class_Thread = Some RT_Object_Class_Thread"
  by (simp add: rt_object_get_information_def container_types_def)

lemma launch_static:
  assumes b: "boot_ok R s" and t: "t \<notin> R" and c: "\<And>c. Mem t \<notin> set (containers s c)" "\<And>c. TimerOf t \<notin> set (containers s c)"
    and ok: "start \<noteq> 0" "sound start sz p"
  shows "\<exists>s2 s'. rt_thread_init t nm entry param start sz p n s = Some (RT_EOK, s2) \<and>
    rt_thread_startup t s2 = Some (RT_EOK, s') \<and> launched R t (unat p) s s'"
proof -
  have e: "cur s = None" "lock_nest s = 0" using b by (simp_all add: boot_ok_def)
  define s1 where "s1 = registered RT_Object_Class_Thread (RT_Object_Class_Thread OR RT_Object_Class_Static) nm (Mem t) s"
  have o: "rt_object_init (Mem t) RT_Object_Class_Thread nm s = Some s1"
    unfolding s1_def by (rule object_init_boot[OF e thread_information c(1)])
  note defs = s1_def registered_def upd_obj_def Let_def
  have f: "klists s1 = klists s" "ready_group s1 = ready_group s" "cur s1 = cur s" "lock_nest s1 = lock_nest s"
    "int_nest s1 = int_nest s" "tmlists s1 = tmlists s" "threads s1 = threads s" "timers s1 = timers s" "tick s1 = tick s"
    "containers s1 = ll_insert_after RT_Object_Class_Thread (Mem t) (containers s)"
    "\<And>a. a \<noteq> Mem t \<Longrightarrow> objs s1 a = objs s a" "otype (objs s1 (Mem t)) = 0x81" "oflag (objs s1 a) = oflag (objs s a)" for a
    by (simp_all add: defs)
  have "boot_ok R s1"
  proof (rule boot_upd[OF b f(1-6)])
    show "tstat s1 u = tstat s u" for u using f(7) by (simp add: tstat_def)
    show "threads s1 u = threads s u \<and> objs s1 (Mem u) = objs s (Mem u) \<and>
      objs s1 (TimerOf u) = objs s (TimerOf u) \<and> timers s1 (TimerOf u) = timers s (TimerOf u)" if "u \<in> R" for u
      using that t f(7,8) f(11)[of "Mem u"] f(11)[of "TimerOf u"] by auto
    show "a = TimerOf u" if "tm_func (timers s1 a) = TF_thread_timeout u" for a u
      using that b f(8) by (simp add: boot_ok_def)
    show "\<not> has_flag RT_TIMER_FLAG_ACTIVATED (TimerOf u) s1" for u
      using b f(13)[of "TimerOf u"] by (simp add: boot_ok_def has_flag_def)
    have "rt_object_get_type (Mem t) s1 = RT_Object_Class_Thread" using f(12) by (simp add: rt_object_get_type_def)
    then have "rt_object_get_type a s1 = RT_Object_Class_Timer \<Longrightarrow> rt_object_get_type a s = RT_Object_Class_Timer" for a
      using f(11)[of a] by (cases "a = Mem t") (simp_all add: rt_object_get_type_def)
    then show "periods_ok s1" using b f(8,13) by (simp add: boot_ok_def periods_ok_def has_flag_def)
  qed
  moreover have "rt_object_get_type (Mem t) s1 = RT_Object_Class_Thread" using f(12) by (simp add: rt_object_get_type_def)
  moreover have "TimerOf t \<notin> set (containers s1 RT_Object_Class_Timer)"
    using c(2) f(10) by (simp add: ll_insert_after_def)
  moreover have "prio s1 = prio s" using f(7) by (simp add: prio_def fun_eq_iff)
  moreover have "set (containers s1 d) \<subseteq> insert (Mem t) (set (containers s d))" for d
    unfolding f(10) by (rule set_ll_insert_after)
  ultimately show ?thesis
    using launch[of R s1 t start sz p s entry param n] t ok o f(9) by (simp add: rt_thread_init_def)
qed

lemma launch_main:
  assumes b: "boot_ok R s" and t: "t \<notin> R" and c: "\<And>c. Mem t \<notin> set (containers s c)" "\<And>c. TimerOf t \<notin> set (containers s c)"
    and ok: "sound start sz p"
  shows "\<exists>s2 s'. rt_thread_create (Some t) (Some start) nm entry param sz p n s = Some (Some t, s2) \<and>
    rt_thread_startup t s2 = Some (RT_EOK, s') \<and> launched R t (unat p) s s'"
proof -
  have e: "not_in_interrupt s" using b by (simp add: boot_ok_def not_in_interrupt_def)
  define s1 where "s1 = (let s = clear_block t RT_Object_Class_Thread s;
      s = upd_obj (Mem t) (\<lambda>ob. ob\<lparr>otype := RT_Object_Class_Thread, oflag := 0, oname := name_copy (oname ob) nm\<rparr>) s
    in s\<lparr>containers := ll_insert_after RT_Object_Class_Thread (Mem t) (containers s)\<rparr>)"
  have o: "rt_object_allocate (Some t) RT_Object_Class_Thread nm s = Some (Some t, s1)"
    using e thread_information by (simp add: rt_object_allocate_def s1_def Let_def)
  note defs = s1_def clear_block_def upd_obj_def Let_def
  have f: "klists s1 = klists s" "ready_group s1 = ready_group s" "cur s1 = cur s" "lock_nest s1 = lock_nest s"
    "int_nest s1 = int_nest s" "tmlists s1 = tmlists s" "tick s1 = tick s"
    "containers s1 = ll_insert_after RT_Object_Class_Thread (Mem t) (containers s)"
    "\<And>u. u \<noteq> t \<Longrightarrow> threads s1 u = threads s u" "threads s1 t = blank_thread"
    "\<And>a. a \<notin> {Mem t, TimerOf t} \<Longrightarrow> objs s1 a = objs s a" "\<And>a. a \<noteq> TimerOf t \<Longrightarrow> timers s1 a = timers s a"
    "otype (objs s1 (Mem t)) = 1" "oflag (objs s1 (Mem t)) = 0" "oflag (objs s1 (TimerOf t)) = 0"
    "tm_func (timers s1 (TimerOf t)) = TF_user 0"
    by (simp_all add: defs) (simp_all add: bss_def)
  have hf: "has_flag g a s1 \<Longrightarrow> a \<notin> {Mem t, TimerOf t} \<and> has_flag g a s" for g a
    using f(11)[of a] f(14,15) by (cases "a \<in> {Mem t, TimerOf t}") (auto simp: has_flag_def)
  have "boot_ok R s1"
  proof (rule boot_upd[OF b f(1-6)])
    have "tstat s t = RT_THREAD_INIT" using b t by (simp add: boot_ok_def)
    then show "tstat s1 u = tstat s u" for u
      using f(9)[of u] f(10) by (cases "u = t") (simp_all add: tstat_def blank_thread_def)
    show "threads s1 u = threads s u \<and> objs s1 (Mem u) = objs s (Mem u) \<and>
      objs s1 (TimerOf u) = objs s (TimerOf u) \<and> timers s1 (TimerOf u) = timers s (TimerOf u)" if "u \<in> R" for u
    proof -
      have "u \<noteq> t" using that t by blast
      then show ?thesis using f(9)[of u] f(11)[of "Mem u"] f(11)[of "TimerOf u"] f(12)[of "TimerOf u"] by simp
    qed
    show "a = TimerOf u" if "tm_func (timers s1 a) = TF_thread_timeout u" for a u
      using that b f(12)[of a] f(16) by (cases "a = TimerOf t") (auto simp: boot_ok_def)
    show "\<not> has_flag RT_TIMER_FLAG_ACTIVATED (TimerOf u) s1" for u
      using b hf[of 1 "TimerOf u"] by (auto simp: boot_ok_def)
    show "periods_ok s1" unfolding periods_ok_def
    proof (intro allI impI)
      fix a assume a: "has_flag RT_TIMER_FLAG_PERIODIC a s1 \<and> rt_object_get_type a s1 = RT_Object_Class_Timer"
      then have "a \<notin> {Mem t, TimerOf t}" "has_flag RT_TIMER_FLAG_PERIODIC a s" using hf by blast+
      then show "0 < tm_init_tick (timers s1 a) \<and> tm_init_tick (timers s1 a) < RT_TICK_HALF"
        using a f(11,12)[of a] b by (simp add: boot_ok_def periods_ok_def rt_object_get_type_def)
    qed
  qed
  moreover have "rt_object_get_type (Mem t) s1 = RT_Object_Class_Thread" using f(13) by (simp add: rt_object_get_type_def)
  moreover have "TimerOf t \<notin> set (containers s1 RT_Object_Class_Timer)"
    using c(2) f(8) by (simp add: ll_insert_after_def)
  moreover have "\<forall>u\<in>R. prio s1 u = prio s u" using f(9) t by (metis prio_def)
  moreover have "set (containers s1 d) \<subseteq> insert (Mem t) (set (containers s d))" for d
    unfolding f(8) by (rule set_ll_insert_after)
  ultimately show ?thesis
    using launch[of R s1 t start sz p s entry param n] t ok o f(7) by (auto simp: rt_thread_create_def)
qed

text \<open>Starting the scheduler on the ready threads.\<close>

lemma scheduler_start_boot:
  assumes b: "boot_ok R s" and t: "t \<in> R" and least: "\<forall>u\<in>R. u \<noteq> t \<longrightarrow> prio s t < prio s u"
  obtains s' where "rt_system_scheduler_start s = Some s'" "check_ready s'" "settled s'" "cur s' = Some t"
    "\<And>u. tstat s' u = (if u = t then RT_THREAD_RUNNING else if u \<in> R then RT_THREAD_READY else RT_THREAD_INIT)"
    "lock_nest s' = 0" "int_nest s' = 0" "tick s' = tick s" "prio s' = prio s"
proof -
  have inv: "sched_inv {} s" and st: "\<And>u. tstat s u = (if u \<in> R then RT_THREAD_READY else RT_THREAD_INIT)"
    using b by (simp_all add: boot_ok_def)
  have q: "t \<in> set (klists s (Ready (prio s t)))" using inv st[of t] t by (simp add: sched_inv_def)
  then have ne: "klists s (Ready (prio s t)) \<noteq> []" by auto
  then have "bit (ready_group s) (prio s t)" using inv by (simp add: sched_inv_def)
  then have "ready_group s \<noteq> 0" by auto
  then obtain hi hp where h: "scheduler_get_highest s = Some (hi, hp)"
    using get_highest_spec(1)[OF inv] by (metis old.prod.exhaust option.exhaust)
  note sp = get_highest_spec(2)[OF inv h]
  have "hp \<le> prio s t" using sp ne by blast
  moreover have "hi \<in> R" using sp st[of hi] by (auto split: if_splits)
  ultimately have hi: "hi = t" using sp least by (metis not_less)
  define s0 where "s0 = s\<lparr>cur := Some t\<rparr>"
  have same: "tstat s0 u = tstat s u" "prio s0 u = prio s u" for u by (simp_all add: s0_def tstat_def prio_def)
  have inv0: "sched_inv {} s0" using inv sched_inv_cong[of s0 s "{}"] same by (simp add: s0_def)
  have run: "runnable s0 t" using inv0 t st[of t] same by (simp add: sched_inv_def started_def)
  obtain s1 where s1: "rt_schedule_remove_thread t s0 = Some s1" "sched_inv {t} s1"
      "klists s1 = ll_remove t (klists s0)" "threads s1 = threads s0" "cur s1 = cur s0"
    using remove_inv[OF inv0 run] by auto
  note f = no_sched_fields[OF no_sched_remove[OF s1(1)]]
  define s2 where "s2 = upd_thread t (\<lambda>th. th\<lparr>th_stat := RT_THREAD_RUNNING\<rparr>) s1"
  have e2: "tmlists s2 = (\<lambda>h. [])" "objs s2 = objs s" "timers s2 = timers s" "cur s2 = Some t" "lock_nest s2 = 0"
    "int_nest s2 = 0" "tick s2 = tick s"
    using b f s1(5) by (simp_all add: s2_def upd_thread_def s0_def boot_ok_def)
  have st2: "tstat s2 u = (if u = t then RT_THREAD_RUNNING else if u \<in> R then RT_THREAD_READY else RT_THREAD_INIT)" for u
    using st[of u] s1(4) by (simp add: s2_def upd_thread_def tstat_def s0_def)
  have chk: "stack_check (threads s2 u) = stack_check (threads s u)" for u
    using s1(4) by (simp add: s2_def upd_thread_def stack_check_def s0_def)
  have started: "started s2 u = (u \<in> R)" for u using st2[of u] t by (simp add: started_def)
  have "runnable s1 t" using run s1(4) by (simp add: runnable_def prio_def)
  then have "sched_inv {} (upd_thread t (set_state RT_THREAD_RUNNING) s1)"
    using s1(2) by (intro set_state_inv) simp_all
  then have "sched_inv {} s2"
    using sched_inv_cong[of s2 "upd_thread t (set_state RT_THREAD_RUNNING) s1" "{}"]
    by (simp add: s2_def tstat_def prio_def upd_thread_def set_state_def)
  moreover have "cur_ok s2" using e2(4) by (auto simp: cur_ok_def st2)
  moreover have "timer_wf s2" by (simp add: timer_wf_def e2 ll_wf_def)
  moreover have "thread_tm_wf s2" "thread_objs s2"
    using b unfolding thread_tm_wf_def thread_objs_def started has_flag_def rt_object_get_type_def e2 boot_ok_def by auto
  ultimately have "kern_wf s2" by (simp add: kern_inv_def)
  moreover have "stacks_ok s2" using b by (simp add: stacks_ok_def started chk boot_ok_def)
  moreover have "periods_ok s2" using b by (simp add: boot_ok_def periods_ok_def has_flag_def rt_object_get_type_def e2)
  ultimately have "check_ready s2" using e2(4) by (simp add: check_ready_def)
  moreover have "settled s2" by (simp add: settled_def in_order_def e2)
  moreover have "rt_system_scheduler_start s = Some s2"
    using h hi s1(1) by (simp add: rt_system_scheduler_start_def s0_def s2_def)
  moreover have "prio s2 = prio s" using s1(4) by (simp add: fun_eq_iff s2_def upd_thread_def prio_def s0_def)
  ultimately show ?thesis using that[of s2] e2 st2 by blast
qed

section \<open>The system starts\<close>

text \<open>
  \<open>quiet im s\<close>: what the start-up relies on after \<^verbatim>\<open>rt_hw_board_init\<close>: no thread or timer yet, and the
  memory of the three system threads is not in use. \<open>image_ok\<close>: the stacks are real blocks and the main
  thread's block was allocated.
\<close>

definition fresh :: "tid \<Rightarrow> kstate \<Rightarrow> bool" where
  "fresh t s \<longleftrightarrow> (\<forall>c. Mem t \<notin> set (containers s c) \<and> TimerOf t \<notin> set (containers s c))"

definition image_ok :: "image \<Rightarrow> tid \<Rightarrow> bool" where
  "image_ok im t \<longleftrightarrow> t \<noteq> timer_thread \<and> t \<noteq> idle_thread \<and> im_main_block im = Some t \<and>
    (\<exists>start. im_main_stack im = Some start \<and> sound start 2048 10) \<and>
    im_timer_stack im \<noteq> 0 \<and> sound (im_timer_stack im) 512 4 \<and> im_idle_stack im \<noteq> 0 \<and> sound (im_idle_stack im) 256 31"

definition quiet :: "tid \<Rightarrow> kstate \<Rightarrow> bool" where
  "quiet t s \<longleftrightarrow> boot_ok {} s \<and> fresh timer_thread s \<and> fresh idle_thread s \<and> fresh t s"

lemma fresh_launched: "launched R t p s s' \<Longrightarrow> fresh u s \<Longrightarrow> u \<noteq> t \<Longrightarrow> fresh u s'"
  unfolding launched_def fresh_def by blast

text \<open>Initialising the lists of a quiet system changes nothing.\<close>

lemma quiet_init:
  assumes "boot_ok {} s"
  shows "rt_system_scheduler_init (rt_system_timer_init s) = s"
proof -
  have inv: "sched_inv {} s" and l: "lock_nest s = 0" "tmlists s = (\<lambda>h. [])" using assms by (simp_all add: boot_ok_def)
  have k: "klists s (Ready p) = []" for p
  proof -
    have "t \<notin> set (klists s (Ready p))" for t using inv assms by (simp add: sched_inv_def boot_ok_def)
    then show ?thesis by (metis list.set_intros(1) neq_Nil_conv)
  qed
  then have "\<not> bit (ready_group s) p" for p using inv by (simp add: sched_inv_def)
  then have g: "ready_group s = 0" by (simp add: word_eq_0_bit)
  have "(\<lambda>h. case h of Ready p \<Rightarrow> if p < 32 then [] else klists s h | _ \<Rightarrow> klists s h) = klists s"
    using k by (auto simp: fun_eq_iff split: lhead.split)
  moreover have "(tmlists s)(TmHard := []) = tmlists s" using l(2) by auto
  ultimately show ?thesis using l(1) g by (simp add: rt_system_scheduler_init_def rt_system_timer_init_def)
qed

lemma startup_state:
  assumes "board s0 = Some s" "quiet t s" "image_ok im t"
  obtains s' where "rtthread_startup board im s0 = Some s'" "check_ready s'" "settled s'" "cur s' = Some timer_thread"
    "\<And>u. tstat s' u = (if u = timer_thread then RT_THREAD_RUNNING else if u \<in> {idle_thread, t} then RT_THREAD_READY else RT_THREAD_INIT)"
    "lock_nest s' = 0" "int_nest s' = 0" "prio s' timer_thread = 4" "prio s' t = 10" "prio s' idle_thread = 31"
proof -
  have b: "boot_ok {} s" and fr: "fresh timer_thread s" "fresh idle_thread s" "fresh t s"
    using assms(2) by (simp_all add: quiet_def)
  have t: "t \<noteq> timer_thread" "t \<noteq> idle_thread" "im_main_block im = Some t"
    and im: "im_timer_stack im \<noteq> 0" "sound (im_timer_stack im) 512 4" "im_idle_stack im \<noteq> 0" "sound (im_idle_stack im) 256 31"
    using assms(3) unfolding image_ok_def by blast+
  obtain start where start: "im_main_stack im = Some start" "sound start 2048 10" using assms(3) by (auto simp: image_ok_def)
  obtain s1 s2 where m: "rt_thread_create (Some t) (Some start) [109, 97, 105, 110] (im_main_entry im) 0 2048 10 20 s = Some (Some t, s1)"
    "rt_thread_startup t s1 = Some (RT_EOK, s2)" "launched {} t (unat (10::u8)) s s2"
    using launch_main[OF b _ _ _ start(2)] fr(3) unfolding fresh_def by blast
  have b2: "boot_ok {t} s2" and p2: "prio s2 t = 10" and f2: "fresh timer_thread s2" "fresh idle_thread s2"
    using m(3) fresh_launched[OF m(3)] fr t by (auto simp: launched_def)
  define s3 where "s3 = s2\<lparr>tmlists := (tmlists s2)(TmSoft := [])\<rparr>"
  have "tmlists s2 = (\<lambda>h. [])" using b2 by (simp add: boot_ok_def)
  then have "(tmlists s2)(TmSoft := []) = tmlists s2" by auto
  then have s3: "s3 = s2" by (simp add: s3_def)
  have nt: "timer_thread \<notin> {t}" using t(1) by auto
  obtain s4 s5 where tt: "rt_thread_init timer_thread [116, 105, 109, 101, 114] (im_timer_entry im) 0 (im_timer_stack im) 512 4 10 s2 = Some (RT_EOK, s4)"
    "rt_thread_startup timer_thread s4 = Some (RT_EOK, s5)" "launched {t} timer_thread (unat (4::u8)) s2 s5"
    using launch_static[OF b2 nt _ _ im(1,2)] f2(1) unfolding fresh_def by blast
  have b5: "boot_ok {timer_thread, t} s5" and p5: "prio s5 t = 10" "prio s5 timer_thread = 4" and f5: "fresh idle_thread s5"
    using tt(3) fresh_launched[OF tt(3) f2(2)] p2 by (auto simp: launched_def)
  have ni: "idle_thread \<notin> {timer_thread, t}" using t(2) by auto
  obtain s6 s7 where it: "rt_thread_init idle_thread [116, 105, 100, 108, 101, 48] (im_idle_entry im) 0 (im_idle_stack im) 256 31 32 s5 = Some (RT_EOK, s6)"
    "rt_thread_startup idle_thread s6 = Some (RT_EOK, s7)" "launched {timer_thread, t} idle_thread (unat (31::u8)) s5 s7"
    using launch_static[OF b5 ni _ _ im(3,4)] f5 unfolding fresh_def by blast
  have b7: "boot_ok {idle_thread, timer_thread, t} s7"
    and p7: "prio s7 t = 10" "prio s7 timer_thread = 4" "prio s7 idle_thread = 31"
    using it(3) p5 by (auto simp: launched_def)
  obtain s8 where s8: "rt_system_scheduler_start s7 = Some s8" "check_ready s8" "settled s8" "cur s8 = Some timer_thread"
    "tstat s8 u = (if u = timer_thread then RT_THREAD_RUNNING else if u \<in> {idle_thread, timer_thread, t}
       then RT_THREAD_READY else RT_THREAD_INIT)"
    "lock_nest s8 = 0" "int_nest s8 = 0" "prio s8 = prio s7" for u
    by (rule scheduler_start_boot[OF b7, of timer_thread]) (use p7 in auto)
  have "rtthread_startup board im s0 = Some s8"
    using assms(1) quiet_init[OF b] m(1,2) t(3) start(1) tt(1,2) it(1,2) s8(1) s3
    by (simp add: rtthread_startup_def rt_application_init_def rt_system_timer_thread_init_def rt_thread_idle_init_def
        flip: s3_def)
  moreover have "tstat s8 u = (if u = timer_thread then RT_THREAD_RUNNING else if u \<in> {idle_thread, t} then RT_THREAD_READY else RT_THREAD_INIT)" for u
    using s8(5)[of u] by auto
  ultimately show ?thesis using that[of s8] s8(2-4,6-8) p7 by simp
qed

text \<open>
  C7. The system starts: on a board that leaves the kernel's memory quiet, \<^verbatim>\<open>rtthread_startup\<close> creates the
  main, timer and idle threads and starts the scheduler on the timer thread, the one of the highest
  priority; the other two are ready, the kernel invariant holds, and the timer list is in order.
\<close>

theorem startup_establishes:
  assumes "board s0 = Some s" "quiet t s" "image_ok im t"
  shows "\<exists>s'. rtthread_startup board im s0 = Some s' \<and> check_ready s' \<and> settled s' \<and> cur s' = Some timer_thread \<and>
    tstat s' timer_thread = RT_THREAD_RUNNING \<and> tstat s' t = RT_THREAD_READY \<and> tstat s' idle_thread = RT_THREAD_READY \<and>
    (\<forall>u. u \<notin> {timer_thread, t, idle_thread} \<longrightarrow> tstat s' u = RT_THREAD_INIT) \<and> lock_nest s' = 0 \<and> int_nest s' = 0"
proof -
  obtain s' where "rtthread_startup board im s0 = Some s'" "check_ready s'" "settled s'" "cur s' = Some timer_thread"
    "\<And>u. tstat s' u = (if u = timer_thread then RT_THREAD_RUNNING else if u \<in> {idle_thread, t} then RT_THREAD_READY else RT_THREAD_INIT)"
    "lock_nest s' = 0" "int_nest s' = 0"
    by (rule startup_state[where board = board, OF assms]) blast
  then show ?thesis using assms(3) by (auto simp: image_ok_def)
qed

text \<open>The memory at reset is quiet.\<close>

lemma bss_quiet: "quiet t bss"
proof -
  have "sched_inv {} bss"
    by (simp add: sched_inv_def ll_wf_def started_def) (simp add: bss_def tstat_def blank_thread_def)
  then have "boot_ok {} bss"
    by (simp add: boot_ok_def periods_ok_def has_flag_def) (simp add: bss_def tstat_def blank_thread_def)
  then show ?thesis by (simp add: quiet_def fresh_def) (simp add: bss_def)
qed

definition demo_image :: image where
  "demo_image = \<lparr>im_timer_stack = 0x20000100, im_idle_stack = 0x20000400, im_timer_entry = 0x08000101,
     im_idle_entry = 0x08000201, im_main_entry = 0x08000301, im_main_block = Some 2, im_main_stack = Some 0x20001000\<rparr>"

theorem startup_establishes_witness:
  "\<exists>s'. rtthread_startup Some demo_image bss = Some s' \<and> check_ready s' \<and> cur s' = Some 0 \<and> tstat s' 2 = RT_THREAD_READY"
proof -
  have "image_ok demo_image 2" by (simp add: image_ok_def demo_image_def sound_def)
  then show ?thesis using startup_establishes[OF _ bss_quiet, of Some bss demo_image 2] by auto
qed

text \<open>
  The idle hooks: \<^verbatim>\<open>rt_thread_idle_sethook\<close> stores a hook in the first free slot and is refused
  exactly when the array is full; deleting it again restores the array.
\<close>

lemma set_first_None: "set_first old new hs = None \<longleftrightarrow> old \<notin> set hs"
  by (induction hs) auto

lemma set_first_back: "set_first old new hs = Some hs' \<Longrightarrow> new \<notin> set hs \<Longrightarrow> set_first new old hs' = Some hs"
  by (induction hs arbitrary: hs') (auto split: if_splits)

theorem idle_hooks_roundtrip:
  assumes "f \<notin> set hs" "f \<noteq> None"
  shows "(None \<in> set hs \<longrightarrow> (\<exists>hs'. rt_thread_idle_sethook f hs = (RT_EOK, hs') \<and> rt_thread_idle_delhook f hs' = (RT_EOK, hs))) \<and>
    (None \<notin> set hs \<longrightarrow> rt_thread_idle_sethook f hs = (- RT_EFULL, hs)) \<and>
    rt_thread_idle_delhook f hs = (- RT_ENOSYS, hs)"
proof -
  have "\<exists>hs'. set_first None f hs = Some hs'" if "None \<in> set hs" using that set_first_None[of None f hs] by auto
  then show ?thesis
    using assms(1) set_first_back[of None f hs] set_first_None[of None f hs] set_first_None[of f None hs]
    by (auto simp: rt_thread_idle_sethook_def rt_thread_idle_delhook_def)
qed

end
