(* ===== verification/System.thy ===== *)
theory System
  imports Steady Semaphore MessageQueue Startup
begin

text \<open>
  The invariant of the kernel as a whole, between two calls of the running thread, and the proofs that
  the tick interrupt and every blocking, waking or initialising call of the running thread return and
  keep it: the kernel invariant, the timers, the choice of the running thread and every IPC object.
\<close>

section \<open>The objects of a state\<close>

text \<open>Every object that carries the class of an IPC object is in order; nobody waits at memory that holds no object.\<close>

definition object_ok :: "nat \<Rightarrow> kstate \<Rightarrow> bool" where
  "object_ok x s \<longleftrightarrow>
     (rt_object_get_type (Mem x) s = RT_Object_Class_Semaphore \<longrightarrow> sem_ok x s) \<and>
     (rt_object_get_type (Mem x) s = RT_Object_Class_MailBox \<longrightarrow> mb_ok x s) \<and>
     (rt_object_get_type (Mem x) s = RT_Object_Class_MessageQueue \<longrightarrow> mq_ok x s) \<and>
     (rt_object_get_type (Mem x) s = 0 \<longrightarrow> klists s (Susp x) = [] \<and> klists s (SuspSender x) = [])"

text \<open>What stays as it was set up: the classes of the objects and the slot sizes of the message queues.\<close>

type_synonym layout = "(addr \<Rightarrow> u8) \<times> (nat \<Rightarrow> u16)"

definition layout_of :: "kstate \<Rightarrow> layout" where
  "layout_of s = (\<lambda>a. rt_object_get_type a s, \<lambda>x. mq_msg_size (mqs s x))"

definition objects_ok :: "layout \<Rightarrow> kstate \<Rightarrow> bool" where
  "objects_ok L s \<longleftrightarrow> layout_of s = L \<and> (\<forall>x. object_ok x s)"

lemma sem_spared: "sem_ok x s \<Longrightarrow> spares X s s' \<Longrightarrow> x \<notin> X \<Longrightarrow> sem_ok x s'"
proof -
  assume o: "sem_ok x s" and m: "spares X s s'" and x: "x \<notin> X"
  have w: "set (klists s' (Susp x)) \<subseteq> set (klists s (Susp x))" "\<forall>t\<in>set (klists s' (Susp x)). waits_alike s s' t"
    using m x unfolding spares_def by blast+
  have t: "rt_object_get_type (Mem x) s' = rt_object_get_type (Mem x) s" "sems s' x = sems s x"
    using m x by (simp_all add: spares_def)
  moreover have "objs s' (Mem x) = objs s (Mem x)" using m o by (simp add: spares_def sem_ok_def)
  moreover have "klists s (Susp x) = [] \<Longrightarrow> klists s' (Susp x) = []" using w(1) by simp
  ultimately show ?thesis using o w unfolding sem_ok_def waits_alike_def by auto
qed

lemma two_sided_spared:
  assumes o: "two_sided c x s" and m: "spares X s s'" and x: "x \<notin> X"
  shows "two_sided c x s'"
proof (rule two_sided_cong[OF o])
  show "rt_object_get_type (Mem x) s' = rt_object_get_type (Mem x) s" using m by (simp add: spares_def)
  show "objs s' (Mem x) = objs s (Mem x)" using m o by (simp add: spares_def two_sided_def)
  fix h t
  assume h: "h \<in> {Susp x, SuspSender x}" and t: "t \<in> set (klists s' h)"
  then have "t \<in> set (klists s h)" "waits_alike s s' t" using m x unfolding spares_def by blast+
  then show "th_error (threads s' t) = RT_EOK" using o h unfolding two_sided_def waits_alike_def by metis
qed

lemma object_spared: "object_ok x s \<Longrightarrow> spares X s s' \<Longrightarrow> x \<notin> X \<Longrightarrow> object_ok x s'"
proof -
  assume o: "object_ok x s" and m: "spares X s s'" and x: "x \<notin> X"
  have t: "rt_object_get_type (Mem x) s' = rt_object_get_type (Mem x) s" "mailboxes s' x = mailboxes s x" "mqs s' x = mqs s x"
    using m x by (simp_all add: spares_def)
  have "klists s h = [] \<Longrightarrow> klists s' h = []" if "h \<in> {Susp x, SuspSender x}" for h
    using m x that unfolding spares_def by auto
  then show ?thesis
    using o sem_spared[OF _ m x] two_sided_spared[OF _ m x] unfolding object_ok_def mb_ok_def mq_ok_def t by blast
qed

lemma layout_spared:
  assumes "spares X s s'" "\<And>x. x \<in> X \<Longrightarrow> mq_msg_size (mqs s' x) = mq_msg_size (mqs s x)"
  shows "layout_of s' = layout_of s"
proof -
  have "mq_msg_size (mqs s' x) = mq_msg_size (mqs s x)" for x using assms by (cases "x \<in> X") (simp_all add: spares_def)
  then show ?thesis using assms(1) by (simp add: layout_of_def spares_def)
qed

interpretation objects: spared_condition "objects_ok L" for L
proof
  show "objects_ok L s \<Longrightarrow> spares {} s s' \<Longrightarrow> objects_ok L s'" for s s'
    unfolding objects_ok_def using object_spared[of _ s "{}" s'] layout_spared[of "{}" s s'] by simp
  show "objects_ok L (s\<lparr>int_nest := n\<rparr>) = objects_ok L s" for s n
    by (simp add: objects_ok_def layout_of_def object_ok_def sem_ok_def mb_ok_def mq_ok_def two_sided_def rt_object_get_type_def)
qed

text \<open>The state between two calls.\<close>

definition live :: "layout \<Rightarrow> kstate \<Rightarrow> bool" where
  "live L s \<longleftrightarrow> steady s \<and> front s \<and> int_nest s = 0 \<and> objects_ok L s"

lemma liveD:
  assumes "live L s"
  shows "steady s" "front s" "int_nest s = 0" "objects_ok L s" "kern_wf s" "stacks_ok s" "cur s \<noteq> None" "lock_nest s = 0"
  using assms steadyD[of s] by (simp_all add: live_def)

lemma live_running: "live L s \<Longrightarrow> cur s = Some t \<Longrightarrow> tstat s t = RT_THREAD_RUNNING"
  using liveD(2) front_running by blast

lemma live_step:
  assumes l: "live L s" and s': "steady s'" "front s'" "spares {x} s s'" and x: "object_ok x s'"
    and z: "mq_msg_size (mqs s' x) = mq_msg_size (mqs s x)"
  shows "live L s'"
proof -
  have "layout_of s' = layout_of s" by (rule layout_spared[OF s'(3)]) (simp add: z)
  moreover have "object_ok y s'" for y using l object_spared[OF _ s'(3)] x by (cases "y = x") (auto simp: live_def objects_ok_def)
  ultimately show ?thesis using l s' by (simp add: live_def objects_ok_def spares_def)
qed

lemma live_spared:
  assumes l: "live L s" and s': "steady s'" "front s'" "spares {} s s'"
  shows "live L s'"
  using assms objects.spared[OF liveD(4)[OF l] s'(3)] by (simp add: live_def spares_def)

text \<open>Changes of the contents of an object only.\<close>

lemma steady_data:
  assumes "klists s' = klists s" "ready_group s' = ready_group s" "cur s' = cur s" "threads s' = threads s"
    "tmlists s' = tmlists s" "objs s' = objs s" "timers s' = timers s" "lock_nest s' = lock_nest s" "tick s' = tick s"
  shows "steady s' = steady s" "front s' = front s"
proof -
  note th = threads_same[OF assms(4)]
  have "kern_wf s' = kern_wf s" by (rule kern_inv_cong) (simp_all add: assms th)
  moreover have "stacks_ok s' = stacks_ok s" by (simp add: stacks_ok_def started_def th assms(4))
  ultimately have "check_ready s' = check_ready s" by (intro check_ready_upd) (simp_all add: assms)
  then show "steady s' = steady s" using settled_cong[of s' s] assms by (simp add: steady_def awake_def th)
  show "front s' = front s" by (rule front_cong) (simp_all add: assms th)
qed

section \<open>The calls keep the state live\<close>

subsection \<open>Threads and the clock\<close>

lemma tick_live:
  assumes "callbacks_keep (objects_ok L) ucb" "live L s"
  shows "\<exists>s'. SysTick_Handler ucb s = Some s' \<and> live L s'"
  using objects.systick_steady[OF assms(1) liveD(1,2,4)[OF assms(2)]] assms(2) by (auto simp: live_def)

lemma live_ticking: "live L s \<Longrightarrow> ticking (objects_ok L) s"
  using liveD[of L s] steadyD(5)[of s] by (simp add: ticking_def)

lemma yield_live:
  assumes l: "live L s"
  shows "\<exists>s'. rt_thread_yield s = Some (RT_EOK, s') \<and> live L s'"
proof -
  obtain c where c: "cur s = Some c" using liveD(7)[OF l] by blast
  define f :: "rt_thread \<Rightarrow> rt_thread" where
    "f = (\<lambda>th. th\<lparr>th_remaining_tick := th_init_tick th, th_stat := th_stat th OR RT_THREAD_STAT_YIELD\<rparr>)"
  have "ticking (objects_ok L) (upd_thread c f s)"
    using objects.ticking_slice[OF live_ticking[OF l] live_running[OF l c], where f = f and g = th_init_tick
        and h = "\<lambda>th. th_stat th OR RT_THREAD_STAT_YIELD"] by (simp add: f_def)
  moreover have "settled (upd_thread c f s)" "awake (upd_thread c f s) idle_thread"
    using steadyD[OF liveD(1)[OF l]] settled_cong[of "upd_thread c f s" s]
    by (auto simp: awake_def tstat_def upd_thread_def f_def)
  ultimately have st: "steady (upd_thread c f s)" by (simp add: ticking_def steady_def)
  obtain s' where s': "rt_schedule (upd_thread c f s) = Some s'" "steady s'" by (rule schedule_steady[OF st]) blast
  have y: "rt_thread_yield s = Some (RT_EOK, s')" using c s'(1) by (simp add: rt_thread_yield_def rt_thread_self_def f_def)
  have "ticking (objects_ok L) s' \<and> int_nest s' = int_nest s" by (rule objects.ticking_yield[OF live_ticking[OF l] y])
  then show ?thesis using y s'(2) liveD(3)[OF l] by (simp add: live_def ticking_def)
qed

text \<open>The calling thread changes its error code.\<close>

lemma error_live:
  assumes l: "live L s" and t: "cur s = Some t"
  shows "live L (upd_thread t (\<lambda>th. th\<lparr>th_error := e\<rparr>) s)"
proof (rule live_spared[OF l])
  show "steady (upd_thread t (\<lambda>th. th\<lparr>th_error := e\<rparr>) s)" "front (upd_thread t (\<lambda>th. th\<lparr>th_error := e\<rparr>) s)"
    using liveD(1,2)[OF l] by (simp_all add: steady_inert[OF error_inert])
  show "spares {} s (upd_thread t (\<lambda>th. th\<lparr>th_error := e\<rparr>) s)"
    by (rule spares_upd_thread) (rule running_not_waiting[OF liveD(5)[OF l] live_running[OF l t]])
qed

lemma sleep_live:
  assumes l: "live L s" and t: "cur s = Some t" "t \<noteq> idle_thread" and n: "n < RT_TICK_HALF"
  shows "\<exists>s'. rt_thread_sleep n s = Some (Blocked (), s') \<and> live L s'"
proof -
  let ?s = "upd_thread t (\<lambda>th. th\<lparr>th_error := RT_EOK\<rparr>) s"
  have l0: "live L ?s" by (rule error_live[OF l t(1)])
  have run: "tstat ?s t = RT_THREAD_RUNNING" using live_running[OF l0] t(1) by (simp add: upd_thread_def)
  obtain s1 where s1: "rt_thread_suspend t ?s = Some (RT_EOK, s1)" "steady s1" "no_kern s1 = no_kern ?s" "klists s1 = klists ?s"
    "\<And>u. tstat s1 u = (if u = t then RT_THREAD_SUSPEND else tstat ?s u)" "ready_group s1 \<noteq> 0"
    using suspend_steady[OF liveD(1)[OF l0] run t(2)] by metis
  have su: "tstat s1 t = RT_THREAD_SUSPEND" using s1(5)[of t] by simp
  obtain s2 where s2: "thread_timer_arm t n s1 = Some s2" "steady s2" "no_kern s2 = no_kern s1" "klists s2 = klists s1"
    by (rule timer_arm_steady[OF s1(2) su n]) blast
  have ready: "ready_group s2 \<noteq> 0"
    using ready_group_queues[OF steadyD(1)[OF s1(2)] steadyD(1)[OF s2(2)]] s2(4) s1(6) by simp
  obtain s3 where s3: "rt_schedule s2 = Some s3" "steady s3" "spares {} s2 s3" "ready_group s2 \<noteq> 0 \<or> front s2 \<Longrightarrow> front s3"
    by (rule schedule_steady[OF s2(2)]) blast
  have "spares {} ?s s2" using s1(3,4) s2(3,4) by (intro spares_no_kern) simp_all
  then have "live L s3" by (rule live_spared[OF l0 s3(2) s3(4) spares_trans[OF _ s3(3)], OF disjI1[OF ready]])
  moreover have "rt_object_get_type (Mem t) s = RT_Object_Class_Thread"
    using kern_started(2)[OF liveD(5)[OF l], of t] live_running[OF l t(1)] by (simp add: started_def)
  ultimately show ?thesis using s1(1) s2(1) s3(1) t(1) by (simp add: rt_thread_sleep_def rt_thread_self_def)
qed

lemma sleep_return_live:
  assumes l: "live L s" and t: "cur s = Some t"
  shows "live L (snd (rt_thread_sleep_resume t s))"
  using error_live[OF l t, of RT_EOK] l by (simp add: rt_thread_sleep_resume_def Let_def)

subsection \<open>Semaphores\<close>

lemma available: "live L s \<Longrightarrow> scheduler_available b s"
  using liveD(3,7,8)[of L s] by (simp add: scheduler_available_def in_thread_context_def not_in_interrupt_def)

lemma sem_take_live:
  assumes l: "live L s" and ty: "rt_object_get_type (Mem x) s = RT_Object_Class_Semaphore" and time: "time_ok time"
    and idle: "time \<noteq> 0 \<longrightarrow> cur s \<noteq> Some idle_thread"
  shows "\<exists>out s'. rt_sem_take x time s = Some (out, s') \<and> live L s'"
proof -
  have ok: "sem_ok x s" using l ty by (simp add: live_def objects_ok_def object_ok_def)
  show ?thesis
  proof (cases "0 < sem_value (sems s x) \<or> time = 0")
    case True
    let ?s = "upd_sem x (\<lambda>m. m\<lparr>sem_value := sem_value m - 1\<rparr>) s"
    have "spares {x} s ?s" by (simp add: spares_def waits_alike_def upd_sem_def rt_object_get_type_def)
    moreover have "steady ?s" "front ?s" using liveD(1,2)[OF l] steady_data[of ?s s] by (simp_all add: upd_sem_def)
    moreover have "object_ok x ?s" if "0 < sem_value (sems s x)"
      using that ok ty by (auto simp: object_ok_def sem_ok_def upd_sem_def rt_object_get_type_def)
    moreover have "mq_msg_size (mqs ?s x) = mq_msg_size (mqs s x)" by (simp add: upd_sem_def)
    ultimately have "0 < sem_value (sems s x) \<longrightarrow> live L ?s" using live_step[OF l] by blast
    then show ?thesis using True ty l by (auto simp: rt_sem_take_def)
  next
    case False
    let ?f = "\<lambda>th. th\<lparr>th_error := RT_EOK\<rparr>"
    obtain t where t: "cur s = Some t" "t \<noteq> idle_thread" using liveD(7)[OF l] idle False by auto
    have fl: "ipc_flag_ok (oflag (objs s (Mem x)))" using ok by (simp add: sem_ok_def)
    have h: "Susp x \<in> {Susp x, SuspSender x}" by simp
    obtain s1 s' where b: "ipc_wait (Susp x) t (oflag (objs s (Mem x))) time (upd_thread t ?f s) = Some s1" "rt_schedule s1 = Some s'"
      "steady s'" "front s'" "spares {x} s s'" "no_kern s' = no_kern (upd_thread t ?f s)"
      "\<And>g. wait_head g \<Longrightarrow> klists s' g = (if g = Susp x then wait_insert (prio s) (oflag (objs s (Mem x))) t (klists s (Susp x)) else klists s g)"
      by (rule block_steady[OF liveD(1,2)[OF l] t h error_inert[of RT_EOK] fl time]) (rule that, assumption+)
    have "sem_value (sems s' x) = 0" using no_kern_fields(6)[OF b(6)] False by (simp add: word_greater_zero_iff)
    moreover have "\<forall>v\<in>set (klists s' (Susp x)). th_error (threads s' v) = RT_EOK"
      using b(7)[of "Susp x"] ok no_kern_thread(2)[OF b(6)]
      by (auto simp: sem_ok_def set_wait_insert upd_thread_def wait_head_def)
    moreover have "objs s' (Mem x) = objs s (Mem x)" "rt_object_get_type (Mem x) s' = RT_Object_Class_Semaphore"
      using b(5) ty by (simp_all add: spares_def)
    ultimately have "object_ok x s'" using fl by (simp add: object_ok_def sem_ok_def)
    moreover have "mqs s' = mqs s" using no_kern_fields(10)[OF b(6)] by simp
    ultimately have "live L s'" using live_step[OF l b(3,4,5)] by simp
    then show ?thesis
      using ty False t b(1,2) available[OF l] by (simp add: rt_sem_take_def rt_thread_self_def)
  qed
qed

lemma sem_release_live:
  assumes l: "live L s" and ty: "rt_object_get_type (Mem x) s = RT_Object_Class_Semaphore"
  shows "\<exists>r s'. rt_sem_release x s = Some (r, s') \<and> live L s'"
proof (cases "klists s (Susp x)")
  case Nil
  let ?s = "upd_sem x (\<lambda>m. m\<lparr>sem_value := sem_value m + 1\<rparr>) s"
  have ok: "sem_ok x s" using l ty by (simp add: live_def objects_ok_def object_ok_def)
  have "spares {x} s ?s" by (simp add: spares_def waits_alike_def upd_sem_def rt_object_get_type_def)
  moreover have "steady ?s" "front ?s" using liveD(1,2)[OF l] steady_data[of ?s s] by (simp_all add: upd_sem_def)
  moreover have "object_ok x ?s" using ok ty Nil by (auto simp: object_ok_def sem_ok_def upd_sem_def rt_object_get_type_def)
  moreover have "mq_msg_size (mqs ?s x) = mq_msg_size (mqs s x)" by (simp add: upd_sem_def)
  ultimately have "live L ?s" using live_step[OF l] by blast
  then show ?thesis using ty l Nil by (simp add: rt_sem_release_def)
next
  case Cons
  have wh: "wait_head (Susp x)" by (simp add: wait_head_def)
  obtain s' where s': "wake_one (Susp x) s = Some s'" "steady s'" "front s'" "spares {} s s'"
    by (rule wake_steady[OF liveD(1,2)[OF l] wh]) blast
  have "rt_sem_release x s = Some (RT_EOK, s')"
    using ty Cons s'(1) by (auto simp: rt_sem_release_def wake_one_def bind_eq_Some_conv)
  then show ?thesis using live_spared[OF l s'(2-4)] by blast
qed

subsection \<open>Mailboxes\<close>

text \<open>Blocking and waking on an object whose own invariant is known to be kept.\<close>

lemma blocked_live:
  assumes l: "live L s" and t: "cur s = Some t" "t \<noteq> idle_thread" and h: "h \<in> {Susp x, SuspSender x}"
    and fl: "ipc_flag_ok (oflag (objs s (Mem x)))" and time: "time_ok time"
    and b: "ipc_wait h t (oflag (objs s (Mem x))) time (upd_thread t (\<lambda>th. th\<lparr>th_error := RT_EOK\<rparr>) s) = Some s1" "rt_schedule s1 = Some s'"
    and x: "object_ok x s'"
  shows "live L s'"
proof -
  obtain s2 s3 where c: "ipc_wait h t (oflag (objs s (Mem x))) time (upd_thread t (\<lambda>th. th\<lparr>th_error := RT_EOK\<rparr>) s) = Some s2"
    "rt_schedule s2 = Some s3" "steady s3" "front s3" "spares {x} s s3"
    "no_kern s3 = no_kern (upd_thread t (\<lambda>th. th\<lparr>th_error := RT_EOK\<rparr>) s)"
    by (rule block_steady[OF liveD(1,2)[OF l] t h error_inert[of RT_EOK] fl time]) blast
  have "s3 = s'" using b c(1,2) by simp
  moreover have "mqs s3 = mqs s" using no_kern_fields(10)[OF c(6)] by simp
  ultimately show ?thesis using live_step[OF l] c(3-5) x by metis
qed

lemma woken_live:
  assumes l: "live L s" and s0: "steady s0" "front s0" "spares {x} s s0" and h: "wait_head h"
    and w: "wake_one h s0 = Some s'" and x: "object_ok x s'" and z: "mq_msg_size (mqs s0 x) = mq_msg_size (mqs s x)"
  shows "live L s'"
proof -
  obtain s2 where c: "wake_one h s0 = Some s2" "steady s2" "front s2" "spares {} s0 s2" "no_kern s2 = no_kern s0"
    by (rule wake_steady[OF s0(1,2) h]) blast
  have "mqs s' = mqs s0" using no_kern_fields(10)[OF c(5)] c(1) w by simp
  moreover have "spares {x} s s'" using spares_trans[OF s0(3) spares_mono[OF c(4)]] c(1) w by simp
  ultimately show ?thesis using live_step[OF l] c(1-3) w x z by simp
qed

lemma mb_object: "mb_ok x s \<Longrightarrow> object_ok x s"
  by (simp add: object_ok_def mb_ok_def two_sided_def)

lemma live_mb: "live L s \<Longrightarrow> rt_object_get_type (Mem x) s = RT_Object_Class_MailBox \<Longrightarrow> mb_ok x s"
  by (simp add: live_def objects_ok_def object_ok_def)

lemma mb_data:
  assumes "live L s"
  shows "steady (upd_mb x f s)" "front (upd_mb x f s)" "spares {x} s (upd_mb x f s)" "mqs (upd_mb x f s) = mqs s"
proof -
  show "steady (upd_mb x f s)" "front (upd_mb x f s)"
    using liveD(1,2)[OF assms] steady_data[of "upd_mb x f s" s] by (simp_all add: upd_mb_def)
  show "mqs (upd_mb x f s) = mqs s" by (simp add: upd_mb_def)
  show "spares {x} s (upd_mb x f s)" by (simp add: spares_def waits_alike_def upd_mb_def rt_object_get_type_def)
qed

lemma idle_ready:
  assumes l: "live L s" and t: "cur s = Some t" "t \<noteq> idle_thread"
  shows "ready_group s \<noteq> 0"
proof -
  have k: "kern_wf s" by (rule liveD(5)[OF l])
  have "tstat s idle_thread \<noteq> RT_THREAD_RUNNING" using k t by (auto simp: kern_inv_def cur_ok_def)
  then have "tstat s idle_thread = RT_THREAD_READY" using steadyD(7)[OF liveD(1)[OF l]] by (simp add: awake_def)
  then show ?thesis by (rule ready_exists[OF k])
qed

lemma mb_send_loop_live:
  assumes l: "live L s" and ty: "rt_object_get_type (Mem x) s = RT_Object_Class_MailBox" and t: "cur s = Some t"
    and time: "time_ok time" and idle: "time \<noteq> 0 \<longrightarrow> t \<noteq> idle_thread"
  shows "\<exists>out s'. mb_send_loop x (Some t) v time s = Some (out, s') \<and> live L s'"
proof -
  have ok: "mb_ok x s" by (rule live_mb[OF l ty])
  then have wf: "mb_wf (mailboxes s x)" and fl: "ipc_flag_ok (oflag (objs s (Mem x)))" by (simp_all add: mb_ok_def two_sided_def)
  show ?thesis
  proof (cases "mb_entry (mailboxes s x) = mb_size (mailboxes s x)")
    case False
    obtain mb' where mb': "mb_put v (mailboxes s x) = Some (RT_EOK, mb')" "mb_wf mb'" using mb_put_law[OF wf False] by blast
    obtain s' where s': "wake_one (Susp x) (upd_mb x (\<lambda>_. mb') s) = Some s'" "mb_ok x s'"
      using mb_wake[OF liveD(5-7)[OF l] ok mb'(2), of "Susp x"] by blast
    have "live L s'" by (rule woken_live[OF l mb_data(1-3)[OF l] _ s'(1) mb_object[OF s'(2)]]) (simp_all add: wait_head_def mb_data(4)[OF l])
    then show ?thesis using False mb'(1) s'(1) by (simp add: mb_send_loop_def)
  next
    case full: True
    show ?thesis
    proof (cases "time = 0")
      case True
      then show ?thesis using full error_live[OF l t] by (simp add: mb_send_loop_def)
    next
      case False
      then have ti: "t \<noteq> idle_thread" using idle by simp
      obtain s1 s' where b: "ipc_wait (SuspSender x) t (oflag (objs s (Mem x))) time (upd_thread t (\<lambda>th. th\<lparr>th_error := RT_EOK\<rparr>) s) = Some s1"
        "rt_schedule s1 = Some s'" "mb_ok x s'"
        using mb_block[OF liveD(5)[OF l] t live_running[OF l t] liveD(6)[OF l] ok liveD(8)[OF l] idle_ready[OF l t ti] time, of "SuspSender x"]
        by blast
      have "live L s'" by (rule blocked_live[OF l t ti _ fl time b(1,2) mb_object[OF b(3)]]) simp
      then show ?thesis using full False b(1,2) by (simp add: mb_send_loop_def)
    qed
  qed
qed

lemma mb_recv_loop_live:
  assumes l: "live L s" and ty: "rt_object_get_type (Mem x) s = RT_Object_Class_MailBox" and t: "cur s = Some t"
    and time: "time_ok time" and idle: "time \<noteq> 0 \<longrightarrow> t \<noteq> idle_thread"
  shows "\<exists>out s'. mb_recv_loop x (Some t) time s = Some (out, s') \<and> live L s'"
proof -
  have ok: "mb_ok x s" by (rule live_mb[OF l ty])
  then have wf: "mb_wf (mailboxes s x)" and fl: "ipc_flag_ok (oflag (objs s (Mem x)))" by (simp_all add: mb_ok_def two_sided_def)
  show ?thesis
  proof (cases "mb_entry (mailboxes s x) = 0")
    case False
    obtain v mb' where mb': "mb_get (mailboxes s x) = Some (v, mb')" "mb_wf mb'" using mb_get_law[OF wf False] by blast
    obtain s' where s': "wake_one (SuspSender x) (upd_mb x (\<lambda>_. mb') s) = Some s'" "mb_ok x s'"
      using mb_wake[OF liveD(5-7)[OF l] ok mb'(2), of "SuspSender x"] by blast
    have "live L s'" by (rule woken_live[OF l mb_data(1-3)[OF l] _ s'(1) mb_object[OF s'(2)]]) (simp_all add: wait_head_def mb_data(4)[OF l])
    then show ?thesis using False mb'(1) s'(1) by (simp add: mb_recv_loop_def)
  next
    case empty: True
    show ?thesis
    proof (cases "time = 0")
      case True
      have "live L (upd_thread t (\<lambda>th. th\<lparr>th_error := - RT_ETIMEOUT\<rparr>) (upd_thread t (\<lambda>th. th\<lparr>th_error := RT_EOK\<rparr>) s))"
        by (rule error_live[OF error_live[OF l t]]) (simp add: t)
      then show ?thesis using empty True by (simp add: mb_recv_loop_def)
    next
      case False
      then have ti: "t \<noteq> idle_thread" using idle by simp
      obtain s1 s' where b: "ipc_wait (Susp x) t (oflag (objs s (Mem x))) time (upd_thread t (\<lambda>th. th\<lparr>th_error := RT_EOK\<rparr>) s) = Some s1"
        "rt_schedule s1 = Some s'" "mb_ok x s'"
        using mb_block[OF liveD(5)[OF l] t live_running[OF l t] liveD(6)[OF l] ok liveD(8)[OF l] idle_ready[OF l t ti] time, of "Susp x"]
        by blast
      have "live L s'" by (rule blocked_live[OF l t ti _ fl time b(1,2) mb_object[OF b(3)]]) simp
      then show ?thesis using empty False b(1,2) by (simp add: mb_recv_loop_def)
    qed
  qed
qed

lemma mb_urgent_live:
  assumes l: "live L s" and ty: "rt_object_get_type (Mem x) s = RT_Object_Class_MailBox"
  shows "\<exists>r s'. rt_mb_urgent x v s = Some (r, s') \<and> live L s'"
proof (cases "mb_entry (mailboxes s x) = mb_size (mailboxes s x)")
  case False
  have ok: "mb_ok x s" by (rule live_mb[OF l ty])
  then have wf: "mb_wf (mailboxes s x)" by (simp add: mb_ok_def)
  obtain mb' where mb': "mb_push v (mailboxes s x) = Some mb'" "mb_wf mb'" using mb_push_law[OF wf False] by blast
  obtain s' where s': "wake_one (Susp x) (upd_mb x (\<lambda>_. mb') s) = Some s'" "mb_ok x s'"
    using mb_wake[OF liveD(5-7)[OF l] ok mb'(2), of "Susp x"] by blast
  have "live L s'" by (rule woken_live[OF l mb_data(1-3)[OF l] _ s'(1) mb_object[OF s'(2)]]) (simp_all add: wait_head_def mb_data(4)[OF l])
  then show ?thesis using False ty mb'(1) s'(1) by (simp add: rt_mb_urgent_def)
qed (use l ty in \<open>simp add: rt_mb_urgent_def\<close>)

subsection \<open>Message queues\<close>

lemma mq_object: "mq_ok x s \<Longrightarrow> object_ok x s"
  by (simp add: object_ok_def mq_ok_def two_sided_def)

lemma live_mq: "live L s \<Longrightarrow> rt_object_get_type (Mem x) s = RT_Object_Class_MessageQueue \<Longrightarrow> mq_ok x s"
  by (simp add: live_def objects_ok_def object_ok_def)

lemma mq_data:
  assumes "live L s"
  shows "steady (upd_mq x f s)" "front (upd_mq x f s)" "spares {x} s (upd_mq x f s)"
proof -
  show "steady (upd_mq x f s)" "front (upd_mq x f s)"
    using liveD(1,2)[OF assms] steady_data[of "upd_mq x f s" s] by (simp_all add: upd_mq_def)
  show "spares {x} s (upd_mq x f s)" by (simp add: spares_def waits_alike_def upd_mq_def rt_object_get_type_def)
qed

text \<open>The queue changes and the first waiter on one of its lists is woken.\<close>

lemma mq_woken_live:
  assumes l: "live L s" and ok: "mq_ok x s" and wf: "mq_wf mq" and z: "mq_msg_size mq = mq_msg_size (mqs s x)" and h: "h \<in> {Susp x, SuspSender x}"
  obtains s' where "wake_one h (upd_mq x (\<lambda>_. mq) s) = Some s'" "live L s'"
proof -
  obtain s' where s': "wake_one h (upd_mq x (\<lambda>_. mq) s) = Some s'" "mq_ok x s'"
    using mq_wake[OF liveD(5-7)[OF l] ok wf h] by blast
  have "live L s'" by (rule woken_live[OF l mq_data[OF l] two_heads[OF h] s'(1) mq_object[OF s'(2)]]) (simp add: z)
  then show ?thesis using that s'(1) by blast
qed

lemma mq_blocked_live:
  assumes l: "live L s" and ok: "mq_ok x s" and t: "cur s = Some t" "t \<noteq> idle_thread" and h: "h \<in> {Susp x, SuspSender x}" and time: "time_ok time"
  obtains s1 s' where "ipc_wait h t (oflag (objs s (Mem x))) time (upd_thread t (\<lambda>th. th\<lparr>th_error := RT_EOK\<rparr>) s) = Some s1"
    "rt_schedule s1 = Some s'" "live L s'"
proof -
  have fl: "ipc_flag_ok (oflag (objs s (Mem x)))" using ok by (simp add: mq_ok_def two_sided_def)
  obtain s1 s' where b: "ipc_wait h t (oflag (objs s (Mem x))) time (upd_thread t (\<lambda>th. th\<lparr>th_error := RT_EOK\<rparr>) s) = Some s1"
    "rt_schedule s1 = Some s'" "mq_ok x s'"
    using mq_block[OF liveD(5)[OF l] t(1) live_running[OF l t(1)] liveD(6)[OF l] ok liveD(8)[OF l] idle_ready[OF l t] time h] by blast
  have "live L s'" by (rule blocked_live[OF l t h fl time b(1,2) mq_object[OF b(3)]])
  then show ?thesis using that b(1,2) by blast
qed

lemma mq_send_loop_live:
  assumes l: "live L s" and ty: "rt_object_get_type (Mem x) s = RT_Object_Class_MessageQueue" and t: "cur s = Some t"
    and n: "length buf \<le> unat (mq_msg_size (mqs s x))" and time: "time_ok time" and idle: "time \<noteq> 0 \<longrightarrow> t \<noteq> idle_thread"
  shows "\<exists>out s'. mq_send_loop x (Some t) buf time s = Some (out, s') \<and> live L s'"
proof -
  have ok: "mq_ok x s" by (rule live_mq[OF l ty])
  then have wf: "mq_wf (mqs s x)" by (simp add: mq_ok_def)
  show ?thesis
    using wf
  proof (cases rule: mq_wf_cases)
    case (room used m frees)
    obtain mq1 mq2 where m: "mq_unfree (mqs s x) = Some (m, mq1)" "mq_append m buf mq1 = (RT_EOK, mq2)" "mq_rep mq2 (used @ [m]) frees"
      "mq_msg_size mq2 = mq_msg_size (mqs s x)"
      using mq_append_law[OF room(1) n] by blast
    have wf2: "mq_wf mq2" using mq_wfI[OF m(3)] by simp
    obtain s' where "wake_one (Susp x) (upd_mq x (\<lambda>_. mq2) s) = Some s'" "live L s'"
      by (rule mq_woken_live[OF l ok wf2 m(4), of "Susp x"]) auto
    then show ?thesis using m(1,2) by (simp add: mq_send_loop_def)
  next
    case full
    have u: "mq_unfree (mqs s x) = None" using full(1) by (simp add: mq_unfree_def)
    show ?thesis
    proof (cases "time = 0")
      case True
      then show ?thesis using u error_live[OF l t] by (simp add: mq_send_loop_def)
    next
      case False
      obtain s1 s' where "ipc_wait (SuspSender x) t (oflag (objs s (Mem x))) time (upd_thread t (\<lambda>th. th\<lparr>th_error := RT_EOK\<rparr>) s) = Some s1"
        "rt_schedule s1 = Some s'" "live L s'"
        by (rule mq_blocked_live[OF l ok t _ _ time, of "SuspSender x"]) (use False idle in auto)
      then show ?thesis using u False by (simp add: mq_send_loop_def)
    qed
  qed
qed

lemma mq_recv_loop_live:
  assumes l: "live L s" and ty: "rt_object_get_type (Mem x) s = RT_Object_Class_MessageQueue" and t: "cur s = Some t"
    and time: "time_ok time" and idle: "time \<noteq> 0 \<longrightarrow> t \<noteq> idle_thread"
  shows "\<exists>out s'. mq_recv_loop x (Some t) n time s = Some (out, s') \<and> live L s'"
proof -
  have ok: "mq_ok x s" by (rule live_mq[OF l ty])
  then have wf: "mq_wf (mqs s x)" by (simp add: mq_ok_def)
  show ?thesis
    using wf
  proof (cases rule: mq_wf_head)
    case (message m used frees)
    obtain mq2 where m: "mq_take n (mqs s x) = Some (take n (mq_data (mqs s x) m), mq2)" "mq_rep mq2 used (m # frees)"
      "mq_msg_size mq2 = mq_msg_size (mqs s x)"
      using mq_take_law[OF message(2)] by blast
    have wf2: "mq_wf mq2" using mq_wfI[OF m(2)] by simp
    obtain s' where "wake_one (SuspSender x) (upd_mq x (\<lambda>_. mq2) s) = Some s'" "live L s'"
      by (rule mq_woken_live[OF l ok wf2 m(3), of "SuspSender x"]) auto
    then show ?thesis using message(1) m(1) by (simp add: mq_recv_loop_def)
  next
    case empty
    show ?thesis
    proof (cases "time = 0")
      case True
      have "live L (upd_thread t (\<lambda>th. th\<lparr>th_error := - RT_ETIMEOUT\<rparr>) (upd_thread t (\<lambda>th. th\<lparr>th_error := RT_EOK\<rparr>) s))"
        by (rule error_live[OF error_live[OF l t]]) (simp add: t)
      then show ?thesis using empty True by (simp add: mq_recv_loop_def)
    next
      case False
      obtain s1 s' where "ipc_wait (Susp x) t (oflag (objs s (Mem x))) time (upd_thread t (\<lambda>th. th\<lparr>th_error := RT_EOK\<rparr>) s) = Some s1"
        "rt_schedule s1 = Some s'" "live L s'"
        by (rule mq_blocked_live[OF l ok t _ _ time, of "Susp x"]) (use False idle in auto)
      then show ?thesis using empty False by (simp add: mq_recv_loop_def)
    qed
  qed
qed

lemma mq_urgent_live:
  assumes l: "live L s" and ty: "rt_object_get_type (Mem x) s = RT_Object_Class_MessageQueue" and b: "buf \<noteq> []"
  shows "\<exists>r s'. rt_mq_urgent x buf s = Some (r, s') \<and> live L s'"
proof -
  have ok: "mq_ok x s" by (rule live_mq[OF l ty])
  then have wf: "mq_wf (mqs s x)" by (simp add: mq_ok_def)
  show ?thesis
  proof (cases "length buf > unat (mq_msg_size (mqs s x))")
    case True
    then show ?thesis using ty b l by (simp add: rt_mq_urgent_def)
  next
    case False
    then have n: "length buf \<le> unat (mq_msg_size (mqs s x))" by simp
    show ?thesis
      using wf
    proof (cases rule: mq_wf_cases)
      case (room used m frees)
      obtain mq1 mq2 where m: "mq_unfree (mqs s x) = Some (m, mq1)" "mq_prepend m buf mq1 = (RT_EOK, mq2)" "mq_rep mq2 (m # used) frees"
        "mq_msg_size mq2 = mq_msg_size (mqs s x)"
        using mq_prepend_law[OF room(1) n] by blast
      have wf2: "mq_wf mq2" using mq_wfI[OF m(3)] by simp
      obtain s' where "wake_one (Susp x) (upd_mq x (\<lambda>_. mq2) s) = Some s'" "live L s'"
        by (rule mq_woken_live[OF l ok wf2 m(4), of "Susp x"]) auto
      then show ?thesis using m(1,2) ty b False by (simp add: rt_mq_urgent_def)
    next
      case full
      then show ?thesis using ty b l False by (simp add: rt_mq_urgent_def mq_unfree_def)
    qed
  qed
qed

subsection \<open>New objects\<close>

text \<open>The layout may grow: memory that held no object becomes one.\<close>

definition grows :: "layout \<Rightarrow> layout \<Rightarrow> bool" where
  "grows L L' \<longleftrightarrow> (\<forall>a. fst L a \<noteq> 0 \<longrightarrow> fst L' a = fst L a) \<and>
     (\<forall>x. fst L (Mem x) = RT_Object_Class_MessageQueue \<longrightarrow> snd L' x = snd L x)"

lemma grows_refl [simp]: "grows L L"
  by (simp add: grows_def)

lemma grows_trans: "grows L L' \<Longrightarrow> grows L' L'' \<Longrightarrow> grows L L''"
  unfolding grows_def by force

lemma live_layout: "live L s \<Longrightarrow> fst L a = rt_object_get_type a s \<and> snd L x = mq_msg_size (mqs s x)"
  by (auto simp: live_def objects_ok_def layout_of_def)

text \<open>
  \<open>arises x s s'\<close>: the object \<open>x\<close> was set up in fresh memory; besides it only the containers changed.
\<close>

definition arises :: "nat \<Rightarrow> kstate \<Rightarrow> kstate \<Rightarrow> bool" where
  "arises x s s' \<longleftrightarrow> (\<exists>ob c sm mb mq. s' = s\<lparr>objs := (objs s)(Mem x := ob), containers := c, sems := (sems s)(x := sm),
     mailboxes := (mailboxes s)(x := mb), mqs := (mqs s)(x := mq)\<rparr>)"

lemma arises_steady:
  assumes l: "live L s" and x: "rt_object_get_type (Mem x) s = 0" and a: "arises x s s'"
    and ty: "rt_object_get_type (Mem x) s' \<notin> {RT_Object_Class_Thread, RT_Object_Class_Timer}"
  shows "steady s'" "front s'" "int_nest s' = 0"
proof -
  obtain ob c sm mb mq where s': "s' = s\<lparr>objs := (objs s)(Mem x := ob), containers := c, sems := (sems s)(x := sm),
     mailboxes := (mailboxes s)(x := mb), mqs := (mqs s)(x := mq)\<rparr>" using a by (auto simp: arises_def)
  let ?s = "s\<lparr>objs := (objs s)(Mem x := ob)\<rparr>"
  have ob: "otype ob AND NOT RT_Object_Class_Static \<notin> {RT_Object_Class_Thread, RT_Object_Class_Timer}"
    using ty by (simp add: s' rt_object_get_type_def)
  note d = steadyD[OF liveD(1)[OF l]]
  have th: "tstat s' u = tstat s u" "prio s' u = prio s u" for u by (simp_all add: s' tstat_def prio_def)
  have "kern_wf ?s" by (rule kern_upd_obj[OF d(1) _ ob]) (simp add: x)
  moreover have "kern_wf s' = kern_wf ?s" by (rule kern_inv_cong) (simp_all add: s' tstat_def prio_def)
  moreover have "stacks_ok s'" using d(2) by (simp add: s' stacks_ok_def started_def tstat_def)
  moreover have "periods_ok s'"
    using d(5) ob by (auto simp: check_ready_def periods_ok_def s' has_flag_def rt_object_get_type_def)
  ultimately have "check_ready s'" using d(3) by (simp add: check_ready_def s')
  then show "steady s'" using d settled_cong[of s' s] by (simp add: steady_def awake_def th) (simp add: s')
  show "front s'" using liveD(2)[OF l] front_cong[of s' s] th by (simp add: s')
  show "int_nest s' = 0" using liveD(3)[OF l] by (simp add: s')
qed

lemma arises_live:
  assumes l: "live L s" and x: "rt_object_get_type (Mem x) s = 0" and a: "arises x s s'"
    and ty: "rt_object_get_type (Mem x) s' \<notin> {RT_Object_Class_Thread, RT_Object_Class_Timer}" and o: "object_ok x s'"
  shows "live (layout_of s') s' \<and> grows L (layout_of s')"
proof -
  obtain ob c sm mb mq where s': "s' = s\<lparr>objs := (objs s)(Mem x := ob), containers := c, sems := (sems s)(x := sm),
     mailboxes := (mailboxes s)(x := mb), mqs := (mqs s)(x := mq)\<rparr>" using a by (auto simp: arises_def)
  have "object_ok y s'" for y
  proof (cases "y = x")
    case False
    have "object_ok y s" using l by (simp add: live_def objects_ok_def)
    then show ?thesis using False
      by (simp add: object_ok_def sem_ok_def mb_ok_def mq_ok_def two_sided_def rt_object_get_type_def s')
  qed (simp add: o)
  moreover have "grows L (layout_of s')"
    using x live_layout[OF l] by (auto simp: grows_def layout_of_def s' rt_object_get_type_def)
  ultimately show ?thesis using arises_steady[OF l x a ty] by (simp add: live_def objects_ok_def)
qed

text \<open>
  Registering an object: the critical section ends in a scheduling point, and nothing is left to
  schedule in a live state but a thread of the same priority.
\<close>

lemma object_init_live:
  assumes l: "live L s" and i: "rt_object_get_information ty = Some c" and x: "Mem x \<notin> set (containers s c)"
  obtains s1 where "rt_object_init (Mem x) ty nm s = Some (registered c (ty OR RT_Object_Class_Static) nm (Mem x) s1)" "live L s1"
    "int_nest s1 = int_nest s" "no_kern s1 = no_kern s"
proof -
  have n: "s\<lparr>lock_nest := 0\<rparr> = s" using liveD(8)[OF l] by simp
  obtain s1 where s1: "rt_schedule s = Some s1" "steady s1" "spares {} s s1" "no_kern s1 = no_kern s"
    "ready_group s \<noteq> 0 \<or> front s \<Longrightarrow> front s1"
    by (rule schedule_steady[OF liveD(1)[OF l]]) blast
  have e: "rt_exit_critical (rt_enter_critical s) = Some s1"
    using s1(1) liveD(7,8)[OF l] by (simp add: rt_exit_critical_def rt_enter_critical_def n)
  have "containers (rt_enter_critical s) c = containers s c" by (simp add: rt_enter_critical_def)
  then have "rt_object_init (Mem x) ty nm s = Some (registered c (ty OR RT_Object_Class_Static) nm (Mem x) s1)"
    using i x e by (auto simp: rt_object_init_def registered_def Let_def)
  moreover have "live L s1" using live_spared[OF l s1(2) _ s1(3)] s1(5) liveD(2)[OF l] by blast
  moreover have "int_nest s1 = int_nest s" using s1(3) by (simp add: spares_def)
  ultimately show ?thesis using that s1(4) by blast
qed

lemma arises_trans: "arises x s s' \<Longrightarrow> arises x s' s'' \<Longrightarrow> arises x s s''"
  unfolding arises_def by (elim exE) (simp, blast)

lemma arises_steps:
  "arises x s (registered c ty nm (Mem x) s)" "arises x s (set_flag x flag s)"
  "arises x s (upd_sem x f s)" "arises x s (upd_mb x g s)" "arises x s (upd_mq x h s)"
proof -
  have i: "(objs s)(Mem x := objs s (Mem x)) = objs s" "(sems s)(x := sems s x) = sems s"
    "(mailboxes s)(x := mailboxes s x) = mailboxes s" "(mqs s)(x := mqs s x) = mqs s" by simp_all
  show "arises x s (registered c ty nm (Mem x) s)"
    unfolding arises_def registered_def upd_obj_def Let_def
    by (intro exI[of _ "(objs s (Mem x))\<lparr>otype := ty, oname := name_copy (oname (objs s (Mem x))) nm\<rparr>"]
        exI[of _ "ll_insert_after c (Mem x) (containers s)"] exI[of _ "sems s x"] exI[of _ "mailboxes s x"] exI[of _ "mqs s x"]) simp
  show "arises x s (set_flag x flag s)"
    unfolding arises_def set_flag_def upd_obj_def
    by (intro exI[of _ "(objs s (Mem x))\<lparr>oflag := flag\<rparr>"] exI[of _ "containers s"] exI[of _ "sems s x"] exI[of _ "mailboxes s x"] exI[of _ "mqs s x"]) simp
  show "arises x s (upd_sem x f s)"
    unfolding arises_def upd_sem_def
    by (intro exI[of _ "objs s (Mem x)"] exI[of _ "containers s"] exI[of _ "f (sems s x)"] exI[of _ "mailboxes s x"] exI[of _ "mqs s x"]) simp
  show "arises x s (upd_mb x g s)"
    unfolding arises_def upd_mb_def
    by (intro exI[of _ "objs s (Mem x)"] exI[of _ "containers s"] exI[of _ "sems s x"] exI[of _ "g (mailboxes s x)"] exI[of _ "mqs s x"]) simp
  show "arises x s (upd_mq x h s)"
    unfolding arises_def upd_mq_def
    by (intro exI[of _ "objs s (Mem x)"] exI[of _ "containers s"] exI[of _ "sems s x"] exI[of _ "mailboxes s x"] exI[of _ "h (mqs s x)"]) simp
qed

lemma object_init_id: "klists s h = [] \<Longrightarrow> do_ipc_object_init h s = s"
  by (simp add: do_ipc_object_init_def fun_upd_idem)

lemma live_fresh:
  assumes "live L s" "rt_object_get_type (Mem x) s = 0"
  shows "klists s (Susp x) = []" "klists s (SuspSender x) = []"
  using assms by (simp_all add: live_def objects_ok_def object_ok_def)

definition unused :: "nat \<Rightarrow> kstate \<Rightarrow> bool" where
  "unused x s \<longleftrightarrow> rt_object_get_type (Mem x) s = 0 \<and> (\<forall>c\<in>set container_types. Mem x \<notin> set (containers s c))"

lemma unused_container: "unused x s \<Longrightarrow> rt_object_get_information ty = Some c \<Longrightarrow> Mem x \<notin> set (containers s c)"
  by (auto simp: unused_def rt_object_get_information_def find_Some_iff)

lemma information:
  "rt_object_get_information RT_Object_Class_Semaphore = Some RT_Object_Class_Semaphore"
  "rt_object_get_information RT_Object_Class_MailBox = Some RT_Object_Class_MailBox"
  "rt_object_get_information RT_Object_Class_MessageQueue = Some RT_Object_Class_MessageQueue"
  by (simp_all add: rt_object_get_information_def container_types_def)

text \<open>The rest of an initialisation, after the object was registered.\<close>

lemma init_live:
  assumes l: "live L s" and x: "unused x s" and i: "rt_object_get_information ty = Some c"
    and ty: "ty \<notin> {RT_Object_Class_Thread, RT_Object_Class_Timer}" "ty AND RT_Object_Class_Static = 0"
    and f: "\<And>s1 s2. live L s1 \<Longrightarrow> s2 = registered c (ty OR RT_Object_Class_Static) nm (Mem x) s1 \<Longrightarrow> rt_object_get_type (Mem x) s1 = 0 \<Longrightarrow>
      arises x s2 (f s2) \<and> rt_object_get_type (Mem x) (f s2) = ty \<and> object_ok x (f s2)"
  shows "\<exists>s2 s'. rt_object_init (Mem x) ty nm s = Some s2 \<and> f s2 = s' \<and> live (layout_of s') s' \<and> grows L (layout_of s')"
proof -
  obtain s1 where s1: "rt_object_init (Mem x) ty nm s = Some (registered c (ty OR RT_Object_Class_Static) nm (Mem x) s1)"
    "live L s1" "no_kern s1 = no_kern s"
    by (rule object_init_live[OF l i unused_container[OF x i]]) blast
  have z: "rt_object_get_type (Mem x) s1 = 0" using no_kern_fields(12)[OF s1(3)] x by (simp add: unused_def)
  let ?s2 = "registered c (ty OR RT_Object_Class_Static) nm (Mem x) s1"
  have a: "arises x s1 (f ?s2)" "rt_object_get_type (Mem x) (f ?s2) = ty" "object_ok x (f ?s2)"
    using f[OF s1(2) refl z] arises_trans[OF arises_steps(1)] by blast+
  then have "live (layout_of (f ?s2)) (f ?s2) \<and> grows L (layout_of (f ?s2))"
    using ty(1) by (intro arises_live[OF s1(2) z]) simp_all
  then show ?thesis using s1(1) by blast
qed

lemma registered_simps [simp]:
  "klists (registered c ty nm a s) = klists s" "sems (registered c ty nm a s) = sems s"
  "mailboxes (registered c ty nm a s) = mailboxes s" "mqs (registered c ty nm a s) = mqs s"
  "rt_object_get_type a (registered c ty nm a s) = ty AND NOT RT_Object_Class_Static"
  by (simp_all add: registered_def upd_obj_def Let_def rt_object_get_type_def)

lemma set_flag_simps [simp]:
  "klists (set_flag x fl s) = klists s" "sems (set_flag x fl s) = sems s" "mailboxes (set_flag x fl s) = mailboxes s"
  "mqs (set_flag x fl s) = mqs s" "oflag (objs (set_flag x fl s) (Mem x)) = fl"
  "rt_object_get_type a (set_flag x fl s) = rt_object_get_type a s"
  by (simp_all add: set_flag_def upd_obj_def rt_object_get_type_def)

lemma sem_init_live:
  assumes l: "live L s" and x: "unused x s" and v: "value < 0x10000" and fl: "ipc_flag_ok flag"
  shows "\<exists>s'. rt_sem_init x nm value flag s = Some (RT_EOK, s') \<and> live (layout_of s') s' \<and> grows L (layout_of s')"
proof -
  define f where "f s = set_flag x flag (upd_sem x (\<lambda>m. m\<lparr>sem_value := ucast value\<rparr>) (do_ipc_object_init (Susp x) s))" for s
  have "\<exists>s2 s'. rt_object_init (Mem x) RT_Object_Class_Semaphore nm s = Some s2 \<and> f s2 = s' \<and> live (layout_of s') s' \<and> grows L (layout_of s')"
  proof (rule init_live[OF l x information(1)])
    fix s1 s2
    assume l1: "live L s1" and s2: "s2 = registered RT_Object_Class_Semaphore (RT_Object_Class_Semaphore OR RT_Object_Class_Static) nm (Mem x) s1"
      and z: "rt_object_get_type (Mem x) s1 = 0"
    have k: "klists s2 (Susp x) = []" "klists s2 (SuspSender x) = []" using live_fresh[OF l1 z] s2 by simp_all
    have e: "f s2 = set_flag x flag (upd_sem x (\<lambda>m. m\<lparr>sem_value := ucast value\<rparr>) s2)" by (simp add: f_def object_init_id[OF k(1)])
    have ty: "rt_object_get_type (Mem x) (f s2) = RT_Object_Class_Semaphore"
      unfolding e by (simp add: s2) (simp add: upd_sem_def rt_object_get_type_def registered_def Let_def upd_obj_def)
    moreover have "sem_ok x (f s2)" using ty k fl by (simp add: sem_ok_def) (simp add: e upd_sem_def)
    moreover have "arises x s2 (f s2)" unfolding e by (rule arises_trans[OF arises_steps(3,2)])
    ultimately show "arises x s2 (f s2) \<and> rt_object_get_type (Mem x) (f s2) = RT_Object_Class_Semaphore \<and> object_ok x (f s2)"
      by (simp add: object_ok_def)
  qed simp_all
  then show ?thesis using v fl by (auto simp: rt_sem_init_def f_def Let_def)
qed

lemma mb_init_live:
  assumes l: "live L s" and x: "unused x s" and sz: "(ucast sz :: u16) \<noteq> 0" and fl: "ipc_flag_ok flag"
  shows "\<exists>s'. rt_mb_init x nm pool sz flag s = Some (RT_EOK, s') \<and> live (layout_of s') s' \<and> grows L (layout_of s')"
proof -
  define f where "f s = do_ipc_object_init (SuspSender x)
    (upd_mb x (\<lambda>mb. mb_clear (mb\<lparr>mb_pool := pool, mb_size := ucast sz\<rparr>)) (do_ipc_object_init (Susp x) (set_flag x flag s)))" for s
  have "\<exists>s2 s'. rt_object_init (Mem x) RT_Object_Class_MailBox nm s = Some s2 \<and> f s2 = s' \<and> live (layout_of s') s' \<and> grows L (layout_of s')"
  proof (rule init_live[OF l x information(2)])
    fix s1 s2
    assume l1: "live L s1" and s2: "s2 = registered RT_Object_Class_MailBox (RT_Object_Class_MailBox OR RT_Object_Class_Static) nm (Mem x) s1"
      and z: "rt_object_get_type (Mem x) s1 = 0"
    have k: "klists s2 (Susp x) = []" "klists s2 (SuspSender x) = []" using live_fresh[OF l1 z] s2 by simp_all
    have e: "f s2 = upd_mb x (\<lambda>mb. mb_clear (mb\<lparr>mb_pool := pool, mb_size := ucast sz\<rparr>)) (set_flag x flag s2)"
      using k unfolding f_def by (subst object_init_id; simp add: upd_mb_def)+
    have ty: "rt_object_get_type (Mem x) (f s2) = RT_Object_Class_MailBox"
      unfolding e by (simp add: s2)
    moreover have "mb_wf (mailboxes (f s2) x)" using sz by (simp add: e upd_mb_def mb_wf_def mb_clear_def word_gt_0)
    moreover have "klists (f s2) = klists s2" "oflag (objs (f s2) (Mem x)) = flag"
      unfolding e by (simp_all add: upd_mb_def)
    ultimately have "mb_ok x (f s2)" using k fl by (simp add: mb_ok_def two_sided_def)
    moreover have "arises x s2 (f s2)" unfolding e by (rule arises_trans[OF arises_steps(2,4)])
    ultimately show "arises x s2 (f s2) \<and> rt_object_get_type (Mem x) (f s2) = RT_Object_Class_MailBox \<and> object_ok x (f s2)"
      using ty by (simp add: object_ok_def)
  qed simp_all
  then show ?thesis using fl by (auto simp: rt_mb_init_def f_def Let_def)
qed

lemma mq_init_live:
  assumes l: "live L s" and x: "unused x s" and pool: "\<forall>i. length (pool i) = unat (mq_slot_size msg_size)" and fl: "ipc_flag_ok flag"
  shows "\<exists>s'. rt_mq_init x nm pool msg_size pool_size flag s = Some (RT_EOK, s') \<and> live (layout_of s') s' \<and> grows L (layout_of s')"
proof -
  define g where "g = (\<lambda>mq. mq_fresh pool (mq\<lparr>mq_msg_size := mq_slot_size msg_size,
    mq_max_msgs := ucast (pool_size div (ucast (mq_slot_size msg_size) + 4))\<rparr>))"
  define f where "f s = do_ipc_object_init (SuspSender x) (upd_mq x (mq_fresh pool) (upd_mq x (\<lambda>mq. mq\<lparr>mq_msg_size := mq_slot_size msg_size,
    mq_max_msgs := ucast (pool_size div (ucast (mq_slot_size msg_size) + 4))\<rparr>) (do_ipc_object_init (Susp x) (set_flag x flag s))))" for s
  have "\<exists>s2 s'. rt_object_init (Mem x) RT_Object_Class_MessageQueue nm s = Some s2 \<and> f s2 = s' \<and> live (layout_of s') s' \<and> grows L (layout_of s')"
  proof (rule init_live[OF l x information(3)])
    fix s1 s2
    assume l1: "live L s1" and s2: "s2 = registered RT_Object_Class_MessageQueue (RT_Object_Class_MessageQueue OR RT_Object_Class_Static) nm (Mem x) s1"
      and z: "rt_object_get_type (Mem x) s1 = 0"
    have k: "klists s2 (Susp x) = []" "klists s2 (SuspSender x) = []" using live_fresh[OF l1 z] s2 by simp_all
    have e: "f s2 = upd_mq x g (set_flag x flag s2)"
      using k unfolding f_def g_def by (subst object_init_id; simp add: upd_mq_def)+
    have ty: "rt_object_get_type (Mem x) (f s2) = RT_Object_Class_MessageQueue" unfolding e by (simp add: s2)
    moreover have "mq_wf (mqs (f s2) x)" unfolding e using mq_fresh_wf pool by (simp add: g_def)
    moreover have "klists (f s2) = klists s2" "oflag (objs (f s2) (Mem x)) = flag" unfolding e by simp_all
    ultimately have "mq_ok x (f s2)" using k fl by (simp add: mq_ok_def two_sided_def)
    moreover have "arises x s2 (f s2)" unfolding e by (rule arises_trans[OF arises_steps(2,5)])
    ultimately show "arises x s2 (f s2) \<and> rt_object_get_type (Mem x) (f s2) = RT_Object_Class_MessageQueue \<and> object_ok x (f s2)"
      using ty by (simp add: object_ok_def)
  qed simp_all
  then show ?thesis using fl by (auto simp: rt_mq_init_def f_def Let_def)
qed

end
