(* ===== verification/Reach.thy ===== *)
theory Reach
  imports System
begin

text \<open>
  The kernel as a transition system: the calls the running thread makes and the tick interrupts between
  them. In every reachable state the invariants of all components hold together, the running thread is
  one of the highest priority, and no call that respects its preconditions fails an assertion or does
  not return; the start-up establishes the first state.
\<close>

section \<open>The transition system\<close>

text \<open>
  A call that blocks leaves the rest of itself to be done when its thread runs again: \<open>pending\<close> names
  the call and keeps its local variables.
\<close>

datatype call =
    Yield
  | Sleep u32
  | SemTake nat int
  | SemRelease nat
  | MbSend nat u32 int
  | MbUrgent nat u32
  | MbRecv nat int
  | MqSend nat "u8 list" int
  | MqUrgent nat "u8 list"
  | MqRecv nat nat int
  | SemInit nat "u8 list" u32 u8
  | MbInit nat "u8 list" "nat \<Rightarrow> u32" u32 u8
  | MqInit nat "u8 list" "nat \<Rightarrow> u8 list" u32 u32 u8

datatype pending =
    InSleep
  | InSemTake
  | InMbSend nat "tid \<times> u32 \<times> int \<times> u32"
  | InMbRecv nat "tid \<times> int \<times> u32"
  | InMqSend nat "tid \<times> u8 list \<times> int \<times> u32"
  | InMqRecv nat "tid \<times> nat \<times> int \<times> u32"

definition returned :: "('a \<times> kstate) option \<Rightarrow> (pending option \<times> kstate) option" where
  "returned r = (case r of None \<Rightarrow> None | Some (_, s) \<Rightarrow> Some (None, s))"

definition blocking :: "('k \<Rightarrow> pending) \<Rightarrow> (('a, 'k) outcome \<times> kstate) option \<Rightarrow> (pending option \<times> kstate) option" where
  "blocking f r = (case r of None \<Rightarrow> None | Some (out, s) \<Rightarrow> Some (case out of Done _ \<Rightarrow> None | Blocked k \<Rightarrow> Some (f k), s))"

fun perform :: "call \<Rightarrow> kstate \<Rightarrow> (pending option \<times> kstate) option" where
  "perform Yield s = returned (rt_thread_yield s)"
| "perform (Sleep n) s = blocking (\<lambda>_. InSleep) (rt_thread_sleep n s)"
| "perform (SemTake x time) s = blocking (\<lambda>_. InSemTake) (rt_sem_take x time s)"
| "perform (SemRelease x) s = returned (rt_sem_release x s)"
| "perform (MbSend x v time) s = blocking (InMbSend x) (rt_mb_send_wait x v time s)"
| "perform (MbUrgent x v) s = returned (rt_mb_urgent x v s)"
| "perform (MbRecv x time) s = blocking (InMbRecv x) (rt_mb_recv x time s)"
| "perform (MqSend x buf time) s = blocking (InMqSend x) (rt_mq_send_wait x buf time s)"
| "perform (MqUrgent x buf) s = returned (rt_mq_urgent x buf s)"
| "perform (MqRecv x n time) s = blocking (InMqRecv x) (rt_mq_recv x n time s)"
| "perform (SemInit x nm value flag) s = returned (rt_sem_init x nm value flag s)"
| "perform (MbInit x nm pool sz flag) s = returned (rt_mb_init x nm pool sz flag s)"
| "perform (MqInit x nm pool msg_size pool_size flag) s = returned (rt_mq_init x nm pool msg_size pool_size flag s)"

fun finish :: "tid \<Rightarrow> pending \<Rightarrow> kstate \<Rightarrow> (pending option \<times> kstate) option" where
  "finish t InSleep s = returned (Some (rt_thread_sleep_resume t s))"
| "finish t InSemTake s = returned (Some (rt_sem_take_resume t s, s))"
| "finish t (InMbSend x k) s = blocking (InMbSend x) (rt_mb_send_wait_resume x k s)"
| "finish t (InMbRecv x k) s = blocking (InMbRecv x) (rt_mb_recv_resume x k s)"
| "finish t (InMqSend x k) s = blocking (InMqSend x) (rt_mq_send_wait_resume x k s)"
| "finish t (InMqRecv x k) s = blocking (InMqRecv x) (rt_mq_recv_resume x k s)"

text \<open>
  What a caller owes: an object of the right class, a message that is not empty, a timeout below
  \<^verbatim>\<open>RT_TICK_MAX / 2\<close>, fresh memory for a new object, and the idle thread must not block.
\<close>

definition waits :: "tid \<Rightarrow> int \<Rightarrow> bool" where
  "waits t time \<longleftrightarrow> time_ok time \<and> (time \<noteq> 0 \<longrightarrow> t \<noteq> idle_thread)"

fun legal :: "tid \<Rightarrow> call \<Rightarrow> kstate \<Rightarrow> bool" where
  "legal t Yield s = True"
| "legal t (Sleep n) s = (n < RT_TICK_HALF \<and> t \<noteq> idle_thread)"
| "legal t (SemTake x time) s = (rt_object_get_type (Mem x) s = RT_Object_Class_Semaphore \<and> waits t time)"
| "legal t (SemRelease x) s = (rt_object_get_type (Mem x) s = RT_Object_Class_Semaphore)"
| "legal t (MbSend x v time) s = (rt_object_get_type (Mem x) s = RT_Object_Class_MailBox \<and> waits t time)"
| "legal t (MbUrgent x v) s = (rt_object_get_type (Mem x) s = RT_Object_Class_MailBox)"
| "legal t (MbRecv x time) s = (rt_object_get_type (Mem x) s = RT_Object_Class_MailBox \<and> waits t time)"
| "legal t (MqSend x buf time) s = (rt_object_get_type (Mem x) s = RT_Object_Class_MessageQueue \<and> buf \<noteq> [] \<and> waits t time)"
| "legal t (MqUrgent x buf) s = (rt_object_get_type (Mem x) s = RT_Object_Class_MessageQueue \<and> buf \<noteq> [])"
| "legal t (MqRecv x n time) s = (rt_object_get_type (Mem x) s = RT_Object_Class_MessageQueue \<and> n \<noteq> 0 \<and> waits t time)"
| "legal t (SemInit x nm value flag) s = (unused x s \<and> value < 0x10000 \<and> ipc_flag_ok flag)"
| "legal t (MbInit x nm pool sz flag) s = (unused x s \<and> (ucast sz :: u16) \<noteq> 0 \<and> ipc_flag_ok flag)"
| "legal t (MqInit x nm pool msg_size pool_size flag) s =
    (unused x s \<and> (\<forall>i. length (pool i) = unat (mq_slot_size msg_size)) \<and> ipc_flag_ok flag)"

text \<open>A thread that was woken runs again before half of the tick range has passed.\<close>

fun in_time :: "pending \<Rightarrow> kstate \<Rightarrow> bool" where
  "in_time (InMbSend x (_, _, _, start)) s = (tick s - start < RT_TICK_HALF)"
| "in_time (InMbRecv x (_, _, start)) s = (tick s - start < RT_TICK_HALF)"
| "in_time (InMqSend x (_, _, _, start)) s = (tick s - start < RT_TICK_HALF)"
| "in_time (InMqRecv x (_, _, _, start)) s = (tick s - start < RT_TICK_HALF)"
| "in_time _ s = True"

type_synonym system = "kstate \<times> (tid \<Rightarrow> pending option)"

inductive step :: "callbacks \<Rightarrow> system \<Rightarrow> system \<Rightarrow> bool" for ucb where
  interrupt: "SysTick_Handler ucb s = Some s' \<Longrightarrow> step ucb (s, p) (s', p)"
| call: "cur s = Some t \<Longrightarrow> p t = None \<Longrightarrow> legal t c s \<Longrightarrow> perform c s = Some (k, s') \<Longrightarrow> step ucb (s, p) (s', p(t := k))"
| resumed: "cur s = Some t \<Longrightarrow> p t = Some k \<Longrightarrow> in_time k s \<Longrightarrow> finish t k s = Some (k', s') \<Longrightarrow> step ucb (s, p) (s', p(t := k'))"

inductive reachable :: "callbacks \<Rightarrow> kstate \<Rightarrow> system \<Rightarrow> bool" for ucb s0 where
  init: "reachable ucb s0 (s0, \<lambda>_. None)"
| step: "reachable ucb s0 a \<Longrightarrow> step ucb a b \<Longrightarrow> reachable ucb s0 b"

section \<open>Every call returns and keeps the state live\<close>

text \<open>What a pending call still knows.\<close>

fun pending_ok :: "layout \<Rightarrow> tid \<Rightarrow> pending \<Rightarrow> bool" where
  "pending_ok L t (InMbSend x (u, v, time, start)) = (u = t \<and> fst L (Mem x) = RT_Object_Class_MailBox \<and> waits t time)"
| "pending_ok L t (InMbRecv x (u, time, start)) = (u = t \<and> fst L (Mem x) = RT_Object_Class_MailBox \<and> waits t time)"
| "pending_ok L t (InMqSend x (u, buf, time, start)) =
    (u = t \<and> fst L (Mem x) = RT_Object_Class_MessageQueue \<and> waits t time \<and> length buf \<le> unat (snd L x))"
| "pending_ok L t (InMqRecv x (u, n, time, start)) = (u = t \<and> fst L (Mem x) = RT_Object_Class_MessageQueue \<and> waits t time)"
| "pending_ok L t _ = True"

definition fine :: "layout \<Rightarrow> tid \<Rightarrow> (pending option \<times> kstate) option \<Rightarrow> bool" where
  "fine L t r \<longleftrightarrow> (\<exists>k s' L'. r = Some (k, s') \<and> live L' s' \<and> grows L L' \<and> (\<forall>q. k = Some q \<longrightarrow> pending_ok L' t q))"

lemma fineI:
  "r = Some (k, s') \<Longrightarrow> live L' s' \<Longrightarrow> grows L L' \<Longrightarrow> (\<And>q. k = Some q \<Longrightarrow> pending_ok L' t q) \<Longrightarrow> fine L t r"
  unfolding fine_def by blast

lemma fine_returned: "\<exists>r s'. m = Some (r, s') \<and> live L s' \<Longrightarrow> fine L t (returned m)"
  by (elim exE conjE) (rule fineI[of _ None _ L], simp_all add: returned_def)

lemma fine_grown: "\<exists>s'. m = Some (r, s') \<and> live (layout_of s') s' \<and> grows L (layout_of s') \<Longrightarrow> fine L t (returned m)"
  by (elim exE conjE) (rule fineI[of _ None], simp_all add: returned_def)

lemma fine_blocking:
  assumes m: "\<exists>out s'. m = Some (out, s') \<and> live L s'" and k: "\<And>k s'. m = Some (Blocked k, s') \<Longrightarrow> pending_ok L t (f k)"
  shows "fine L t (blocking f m)"
proof -
  obtain out s' where o: "m = Some (out, s')" "live L s'" using m by blast
  show ?thesis by (rule fineI[OF _ o(2) grows_refl]) (use o(1) k in \<open>auto simp: blocking_def split: outcome.splits\<close>)
qed

lemma waits_left:
  assumes "waits t time" "tick s - start < RT_TICK_HALF"
  shows "waits t (time_left time start s)"
proof (cases "0 < time")
  case False
  then show ?thesis using assms(1) by (simp add: time_left_def)
next
  case True
  define d where "d = tick s - start"
  have u: "uint d < 0x7fffffff" using assms(2) by (simp add: d_def word_less_def)
  have t: "time < 0x7fffffff" using assms(1) by (simp add: waits_def time_ok_def)
  have "- 2147483648 \<le> time - uint d" "time - uint d < 2147483648" using True u t uint_ge_0[of d] by linarith+
  then have "signed_take_bit 31 (time - uint d) = time - uint d" by (simp add: signed_take_bit_int_eq_self)
  moreover have "(of_int time :: u32) - d = word_of_int (time - uint d)" by simp
  ultimately have "sint ((of_int time :: u32) - d) = time - uint d" by (simp only: signed_of_int) simp
  moreover have "time - uint d < 2147483647" using t uint_ge_0[of d] by linarith
  ultimately show ?thesis
    using assms(1) True by (auto simp: time_left_def rt_tick_get_def waits_def time_ok_def d_def)
qed


lemma time_waits: "waits t time \<Longrightarrow> time_ok time \<and> (time \<noteq> 0 \<longrightarrow> t \<noteq> idle_thread)"
  by (simp add: waits_def)

lemma call_fine:
  assumes l: "live L s" and t: "cur s = Some t" and c: "legal t c s"
  shows "fine L t (perform c s)"
proof (cases c)
  case Yield
  then show ?thesis using yield_live[OF l] by (auto intro: fine_returned)
next
  case (Sleep n)
  then have "\<exists>s'. rt_thread_sleep n s = Some (Blocked (), s') \<and> live L s'" using sleep_live[OF l t] c by simp
  then show ?thesis unfolding Sleep perform.simps by (intro fine_blocking) auto
next
  case (SemTake x time)
  then show ?thesis using sem_take_live[OF l] c t by (auto simp: waits_def intro!: fine_blocking)
next
  case (SemRelease x)
  then show ?thesis using sem_release_live[OF l] c by (auto intro: fine_returned)
next
  case (MbSend x v time)
  then have ty: "rt_object_get_type (Mem x) s = RT_Object_Class_MailBox" and w: "waits t time" using c by simp_all
  have "\<exists>out s'. rt_mb_send_wait x v time s = Some (out, s') \<and> live L s'"
    using mb_send_loop_live[OF l ty t] time_waits[OF w] l ty t available[OF l] by (auto simp: rt_mb_send_wait_def rt_thread_self_def)
  moreover have "pending_ok L t (InMbSend x k)" if "rt_mb_send_wait x v time s = Some (Blocked k, s')" for k s'
    using that w ty t live_layout[OF l] by (auto simp: rt_mb_send_wait_def mb_send_loop_def rt_thread_self_def bind_eq_Some_conv Let_def split: if_splits)
  ultimately show ?thesis unfolding MbSend perform.simps by (rule fine_blocking)
next
  case (MbUrgent x v)
  then show ?thesis using mb_urgent_live[OF l] c by (auto intro: fine_returned)
next
  case (MbRecv x time)
  then have ty: "rt_object_get_type (Mem x) s = RT_Object_Class_MailBox" and w: "waits t time" using c by simp_all
  have "\<exists>out s'. rt_mb_recv x time s = Some (out, s') \<and> live L s'"
    using mb_recv_loop_live[OF l ty t] time_waits[OF w] l ty t available[OF l] by (auto simp: rt_mb_recv_def rt_thread_self_def)
  moreover have "pending_ok L t (InMbRecv x k)" if "rt_mb_recv x time s = Some (Blocked k, s')" for k s'
    using that w ty t live_layout[OF l] by (auto simp: rt_mb_recv_def mb_recv_loop_def rt_thread_self_def bind_eq_Some_conv Let_def split: if_splits)
  ultimately show ?thesis unfolding MbRecv perform.simps by (rule fine_blocking)
next
  case (MqSend x buf time)
  then have ty: "rt_object_get_type (Mem x) s = RT_Object_Class_MessageQueue" and w: "waits t time" and b: "buf \<noteq> []" using c by simp_all
  have "\<exists>out s'. rt_mq_send_wait x buf time s = Some (out, s') \<and> live L s'"
    using mq_send_loop_live[OF l ty t, of buf time] time_waits[OF w] l ty t b available[OF l] by (auto simp: rt_mq_send_wait_def rt_thread_self_def not_less)
  moreover have "pending_ok L t (InMqSend x k)" if "rt_mq_send_wait x buf time s = Some (Blocked k, s')" for k s'
    using that w ty t live_layout[OF l]
    by (auto simp: rt_mq_send_wait_def mq_send_loop_def rt_thread_self_def bind_eq_Some_conv Let_def split: if_splits option.splits prod.splits)
  ultimately show ?thesis unfolding MqSend perform.simps by (rule fine_blocking)
next
  case (MqUrgent x buf)
  then show ?thesis using mq_urgent_live[OF l] c by (auto intro: fine_returned)
next
  case (MqRecv x n time)
  then have ty: "rt_object_get_type (Mem x) s = RT_Object_Class_MessageQueue" and w: "waits t time" and n: "n \<noteq> 0" using c by simp_all
  have "\<exists>out s'. rt_mq_recv x n time s = Some (out, s') \<and> live L s'"
    using mq_recv_loop_live[OF l ty t, of time n] time_waits[OF w] l ty t n available[OF l] by (auto simp: rt_mq_recv_def rt_thread_self_def)
  moreover have "pending_ok L t (InMqRecv x k)" if "rt_mq_recv x n time s = Some (Blocked k, s')" for k s'
    using that w ty t live_layout[OF l]
    by (auto simp: rt_mq_recv_def mq_recv_loop_def rt_thread_self_def bind_eq_Some_conv Let_def split: if_splits)
  ultimately show ?thesis unfolding MqRecv perform.simps by (rule fine_blocking)
next
  case (SemInit x nm v flag)
  have "fine L t (perform c s)" unfolding SemInit perform.simps by (rule fine_grown, rule sem_init_live[OF l]) (use c SemInit in simp_all)
  then show ?thesis .
next
  case (MbInit x nm pool sz flag)
  have "fine L t (perform c s)" unfolding MbInit perform.simps by (rule fine_grown, rule mb_init_live[OF l]) (use c MbInit in simp_all)
  then show ?thesis .
next
  case (MqInit x nm pool msg_size pool_size flag)
  have "fine L t (perform c s)" unfolding MqInit perform.simps by (rule fine_grown, rule mq_init_live[OF l]) (use c MqInit in simp_all)
  then show ?thesis .
qed

lemma resume_fine:
  assumes l: "live L s" and t: "cur s = Some t" and k: "pending_ok L t k" and it: "in_time k s"
  shows "fine L t (finish t k s)"
proof (cases k)
  case InSleep
  then show ?thesis using sleep_return_live[OF l t] by (cases "rt_thread_sleep_resume t s") (auto intro: fine_returned)
next
  case InSemTake
  then show ?thesis using l by (auto intro: fine_returned)
next
  case (InMbSend x loc)
  obtain v time start where loc: "loc = (t, v, time, start)" and ty: "rt_object_get_type (Mem x) s = RT_Object_Class_MailBox"
    and w: "waits t (time_left time start s)"
    using k it InMbSend live_layout[OF l] waits_left by (cases loc) auto
  have "\<exists>out s'. rt_mb_send_wait_resume x loc s = Some (out, s') \<and> live L s'"
    using mb_send_loop_live[OF l ty t] time_waits[OF w] l by (auto simp: rt_mb_send_wait_resume_def loc)
  moreover have "pending_ok L t (InMbSend x q)" if "rt_mb_send_wait_resume x loc s = Some (Blocked q, s')" for q s'
    using that w ty t live_layout[OF l] loc by (auto simp: rt_mb_send_wait_resume_def mb_send_loop_def bind_eq_Some_conv Let_def split: if_splits)
  ultimately show ?thesis unfolding InMbSend finish.simps by (rule fine_blocking)
next
  case (InMbRecv x loc)
  obtain time start where loc: "loc = (t, time, start)" and ty: "rt_object_get_type (Mem x) s = RT_Object_Class_MailBox"
    and w: "waits t (time_left time start s)"
    using k it InMbRecv live_layout[OF l] waits_left by (cases loc) auto
  have "\<exists>out s'. rt_mb_recv_resume x loc s = Some (out, s') \<and> live L s'"
    using mb_recv_loop_live[OF l ty t] time_waits[OF w] l by (auto simp: rt_mb_recv_resume_def loc)
  moreover have "pending_ok L t (InMbRecv x q)" if "rt_mb_recv_resume x loc s = Some (Blocked q, s')" for q s'
    using that w ty t live_layout[OF l] loc by (auto simp: rt_mb_recv_resume_def mb_recv_loop_def bind_eq_Some_conv Let_def split: if_splits)
  ultimately show ?thesis unfolding InMbRecv finish.simps by (rule fine_blocking)
next
  case (InMqSend x loc)
  obtain buf time start where loc: "loc = (t, buf, time, start)" and ty: "rt_object_get_type (Mem x) s = RT_Object_Class_MessageQueue"
    and w: "waits t (time_left time start s)" and n: "length buf \<le> unat (mq_msg_size (mqs s x))"
    using k it InMqSend live_layout[OF l] waits_left by (cases loc) auto
  have "\<exists>out s'. rt_mq_send_wait_resume x loc s = Some (out, s') \<and> live L s'"
    using mq_send_loop_live[OF l ty t n] time_waits[OF w] l by (auto simp: rt_mq_send_wait_resume_def loc)
  moreover have "pending_ok L t (InMqSend x q)" if "rt_mq_send_wait_resume x loc s = Some (Blocked q, s')" for q s'
    using that w ty t n live_layout[OF l] loc
    by (auto simp: rt_mq_send_wait_resume_def mq_send_loop_def bind_eq_Some_conv Let_def split: if_splits option.splits prod.splits)
  ultimately show ?thesis unfolding InMqSend finish.simps by (rule fine_blocking)
next
  case (InMqRecv x loc)
  obtain n time start where loc: "loc = (t, n, time, start)" and ty: "rt_object_get_type (Mem x) s = RT_Object_Class_MessageQueue"
    and w: "waits t (time_left time start s)"
    using k it InMqRecv live_layout[OF l] waits_left by (cases loc) auto
  have "\<exists>out s'. rt_mq_recv_resume x loc s = Some (out, s') \<and> live L s'"
    using mq_recv_loop_live[OF l ty t] time_waits[OF w] l by (auto simp: rt_mq_recv_resume_def loc)
  moreover have "pending_ok L t (InMqRecv x q)" if "rt_mq_recv_resume x loc s = Some (Blocked q, s')" for q s'
    using that w ty t live_layout[OF l] loc by (auto simp: rt_mq_recv_resume_def mq_recv_loop_def bind_eq_Some_conv Let_def split: if_splits)
  ultimately show ?thesis unfolding InMqRecv finish.simps by (rule fine_blocking)
qed

section \<open>The reachable states\<close>

lemma pending_grows: "pending_ok L t k \<Longrightarrow> grows L L' \<Longrightarrow> pending_ok L' t k"
proof (induction L t k rule: pending_ok.induct)
qed (auto simp: grows_def)

definition system_ok :: "layout \<Rightarrow> system \<Rightarrow> bool" where
  "system_ok L0 a \<longleftrightarrow> (\<exists>L. live L (fst a) \<and> grows L0 L \<and> (\<forall>t k. snd a t = Some k \<longrightarrow> pending_ok L t k))"

lemma system_okI: "live L s \<Longrightarrow> grows L0 L \<Longrightarrow> (\<And>t k. p t = Some k \<Longrightarrow> pending_ok L t k) \<Longrightarrow> system_ok L0 (s, p)"
  unfolding system_ok_def by (intro exI[of _ L]) simp

lemma system_okE:
  assumes "system_ok L0 (s, p)"
  obtains L where "live L s" "grows L0 L" "\<And>t k. p t = Some k \<Longrightarrow> pending_ok L t k"
  using assms unfolding system_ok_def by (metis fst_conv snd_conv)

text \<open>The callbacks of the application's timers keep the invariant, whatever objects there are.\<close>

definition callbacks_good :: "callbacks \<Rightarrow> bool" where
  "callbacks_good ucb \<longleftrightarrow> (\<forall>L. callbacks_keep (objects_ok L) ucb)"

lemma fine_system:
  assumes f: "fine L t r" and g: "grows L0 L" and r: "r = Some (k, s')" and p: "\<And>u q. p u = Some q \<Longrightarrow> pending_ok L u q"
  shows "system_ok L0 (s', p(t := k))"
proof -
  obtain L' where L': "live L' s'" "grows L L'" "\<And>q. k = Some q \<Longrightarrow> pending_ok L' t q"
    using f r by (auto simp: fine_def simp del: split_paired_Ex)
  show ?thesis by (rule system_okI[OF L'(1) grows_trans[OF g L'(2)]]) (use L'(3) pending_grows[OF p L'(2)] in \<open>auto split: if_splits\<close>)
qed

lemma step_ok:
  assumes cb: "callbacks_good ucb" and st: "step ucb a b" and ok: "system_ok L0 a"
  shows "system_ok L0 b"
  using st
proof cases
  case (interrupt s s' p)
  obtain L where L: "live L s" "grows L0 L" "\<And>t k. p t = Some k \<Longrightarrow> pending_ok L t k" using ok unfolding interrupt(1) by (rule system_okE) blast
  have "live L s'" using tick_live[OF _ L(1)] cb interrupt(3) unfolding callbacks_good_def by (metis option.inject)
  then show ?thesis unfolding interrupt(2) using L(2,3) by (rule system_okI)
next
  case (call s t p c k s')
  obtain L where L: "live L s" "grows L0 L" "\<And>t k. p t = Some k \<Longrightarrow> pending_ok L t k" using ok unfolding call(1) by (rule system_okE) blast
  show ?thesis unfolding call(2) by (rule fine_system[OF call_fine[OF L(1) call(3,5)] L(2) call(6) L(3)])
next
  case (resumed s t p k k' s')
  obtain L where L: "live L s" "grows L0 L" "\<And>t k. p t = Some k \<Longrightarrow> pending_ok L t k" using ok unfolding resumed(1) by (rule system_okE) blast
  show ?thesis unfolding resumed(2) by (rule fine_system[OF resume_fine[OF L(1) resumed(3) L(3)[OF resumed(4)] resumed(5)] L(2) resumed(6) L(3)])
qed

lemma reachable_ok:
  assumes "reachable ucb s0 a" "callbacks_good ucb" "live L s0"
  shows "system_ok L a"
  using assms(1)
proof (induction rule: reachable.induct)
  case init
  show ?case by (rule system_okI[OF assms(3) grows_refl]) simp
next
  case (step a b)
  then show ?case using step_ok[OF assms(2)] by blast
qed

text \<open>What the invariant gives: the parts are in order, and no step that can be taken gets stuck.\<close>

definition never_stuck :: "callbacks \<Rightarrow> system \<Rightarrow> bool" where
  "never_stuck ucb a \<longleftrightarrow> (case a of (s, p) \<Rightarrow>
     SysTick_Handler ucb s \<noteq> None \<and>
     (\<exists>t. cur s = Some t \<and>
        (p t = None \<longrightarrow> (\<forall>c. legal t c s \<longrightarrow> perform c s \<noteq> None)) \<and>
        (\<forall>k. p t = Some k \<longrightarrow> in_time k s \<longrightarrow> finish t k s \<noteq> None)))"

lemma system_safe:
  assumes "callbacks_good ucb" "system_ok L0 (s, p)"
  shows "kern_wf s \<and> stacks_ok s \<and> settled s \<and> front s \<and> objects_ok (layout_of s) s \<and> never_stuck ucb (s, p)"
proof -
  obtain L where l: "live L s" "\<And>t k. p t = Some k \<Longrightarrow> pending_ok L t k"
    using assms(2) by (rule system_okE) blast
  obtain t where t: "cur s = Some t" using liveD(7)[OF l(1)] by blast
  have "SysTick_Handler ucb s \<noteq> None" using tick_live[OF _ l(1)] assms(1) unfolding callbacks_good_def by blast
  moreover have "perform c s \<noteq> None" if "legal t c s" for c using call_fine[OF l(1) t that] by (auto simp: fine_def)
  moreover have "finish t k s \<noteq> None" if "p t = Some k" "in_time k s" for k
    using resume_fine[OF l(1) t l(2)[OF that(1)] that(2)] by (auto simp: fine_def)
  ultimately have "never_stuck ucb (s, p)" using t by (simp add: never_stuck_def)
  moreover have "objects_ok (layout_of s) s" using liveD(4)[OF l(1)] by (simp add: objects_ok_def)
  ultimately show ?thesis using liveD[OF l(1)] steadyD(6)[OF liveD(1)[OF l(1)]] by blast
qed

section \<open>From the start-up\<close>

text \<open>The start-up makes threads and timers only.\<close>

definition adds_threads :: "kstate \<Rightarrow> kstate \<Rightarrow> bool" where
  "adds_threads s s' \<longleftrightarrow> (\<forall>x. rt_object_get_type (Mem x) s' \<in> {rt_object_get_type (Mem x) s, RT_Object_Class_Thread})"

lemma adds_trans: "adds_threads s s' \<Longrightarrow> adds_threads s' s'' \<Longrightarrow> adds_threads s s''"
  unfolding adds_threads_def by (metis insertE insertI1 insertI2 singletonD)

lemma adds_no_kern: "no_kern s' = no_kern s \<Longrightarrow> adds_threads s s'"
  using no_kern_fields(12) unfolding adds_threads_def by blast

lemma adds_same: "objs s' = objs s \<Longrightarrow> adds_threads s s'"
  by (simp add: adds_threads_def rt_object_get_type_def)

lemma adds_object_init:
  assumes "rt_object_init a ty nm s = Some s'" "\<And>x. a = Mem x \<Longrightarrow> ty = RT_Object_Class_Thread"
  shows "adds_threads s s'"
  using object_init_eq(3)[OF assms(1)] assms(2) by (auto simp: adds_threads_def rt_object_get_type_def)

lemma adds_thread_init: "do_thread_init t entry param start sz p n s = Some (r, s') \<Longrightarrow> adds_threads s s'"
proof -
  assume i: "do_thread_init t entry param start sz p n s = Some (r, s')"
  have o: "objs (upd_thread t g (upd_thread t f s)) = objs s" for f g by (simp add: upd_thread_def)
  obtain s1 nm s2 where s2: "rt_object_init (TimerOf t) RT_Object_Class_Timer nm s1 = Some s2" and s1: "objs s1 = objs s"
    and s': "s' = do_timer_init (TimerOf t) (TF_thread_timeout t) 0 RT_TIMER_FLAG_ONE_SHOT s2"
    using i o by (auto simp: do_thread_init_def rt_timer_init_def bind_eq_Some_conv Let_def split: prod.splits if_splits)
  have "adds_threads s1 s2" by (rule adds_object_init[OF s2]) simp
  moreover have "adds_threads s2 s'"
    by (simp add: s' adds_threads_def do_timer_init_def Let_def upd_obj_def upd_timer_def flag_clear_def rt_object_get_type_def)
  ultimately show ?thesis using adds_trans[OF adds_same[OF s1]] adds_trans by blast
qed

lemma adds_startup:
  assumes "rt_thread_startup t s = Some (r, s')"
  shows "adds_threads s s'"
proof -
  obtain s1 q s2 where s2: "rt_thread_resume t s1 = Some (q, s2)" and s1: "objs s1 = objs s" and s': "s' = s2 \<or> rt_schedule s2 = Some s'"
    using assms by (auto simp: rt_thread_startup_def bind_eq_Some_conv Let_def upd_thread_def split: if_splits)
  have "adds_threads s1 s2" by (rule adds_no_kern[OF no_kern_resume[OF s2]])
  moreover have "adds_threads s2 s'" using s' adds_same[of s2 s2] adds_no_kern[OF no_kern_schedule] by auto
  ultimately show ?thesis using adds_trans[OF adds_same[OF s1]] adds_trans by blast
qed

lemma adds_static:
  assumes "rt_thread_init t nm entry param start sz p n s = Some (r, s1)" "rt_thread_startup t s1 = Some (q, s2)"
  shows "adds_threads s s2"
proof -
  obtain s0 where "rt_object_init (Mem t) RT_Object_Class_Thread nm s = Some s0" "do_thread_init t entry param start sz p n s0 = Some (r, s1)"
    using assms(1) by (auto simp: rt_thread_init_def bind_eq_Some_conv split: if_splits)
  then have "adds_threads s s0" "adds_threads s0 s1" using adds_object_init[of "Mem t" _ nm s s0] adds_thread_init by simp_all
  then show ?thesis using adds_startup[OF assms(2)] adds_trans by blast
qed

lemma adds_create:
  assumes "rt_thread_create (Some t) (Some start) nm entry param sz p n s = Some (r, s1)" "rt_thread_startup t s1 = Some (q, s2)"
  shows "adds_threads s s2"
proof -
  obtain s0 k where s0: "rt_object_allocate (Some t) RT_Object_Class_Thread nm s = Some (Some t, s0)" "do_thread_init t entry param start sz p n s0 = Some (k, s1)"
    using assms(1) by (auto simp: rt_thread_create_def rt_object_allocate_def bind_eq_Some_conv Let_def split: if_splits)
  have "adds_threads s s0"
    using s0(1) by (auto simp: rt_object_allocate_def bind_eq_Some_conv Let_def clear_block_def upd_obj_def adds_threads_def rt_object_get_type_def split: if_splits)
  then show ?thesis using adds_thread_init[OF s0(2)] adds_startup[OF assms(2)] adds_trans by blast
qed

lemma adds_parts:
  "rt_application_init im s = Some s' \<Longrightarrow> im_main_block im = Some t \<Longrightarrow> im_main_stack im = Some start \<Longrightarrow> adds_threads s s'"
  "rt_system_timer_thread_init st en s = Some s' \<Longrightarrow> adds_threads s s'"
  "rt_thread_idle_init st en s = Some s' \<Longrightarrow> adds_threads s s'"
  "rt_system_scheduler_start s = Some s' \<Longrightarrow> adds_threads s s'"
proof -
  assume a: "rt_application_init im s = Some s'" "im_main_block im = Some t" "im_main_stack im = Some start"
  obtain r s1 u q where c: "rt_thread_create (Some t) (Some start) [109, 97, 105, 110] (im_main_entry im) 0 2048 10 20 s = Some (r, s1)"
    and u: "r = Some u" "rt_thread_startup u s1 = Some (q, s')"
    using a by (auto simp: rt_application_init_def bind_eq_Some_conv)
  have "u = t" using c u(1) by (auto simp: rt_thread_create_def rt_object_allocate_def bind_eq_Some_conv Let_def split: if_splits)
  then show "adds_threads s s'" using adds_create[OF c] u(2) by blast
next
  assume "rt_system_timer_thread_init st en s = Some s'"
  then obtain r s1 q where c: "rt_thread_init timer_thread [116, 105, 109, 101, 114] en 0 st 512 4 10 (s\<lparr>tmlists := (tmlists s)(TmSoft := [])\<rparr>) = Some (r, s1)"
    and u: "rt_thread_startup timer_thread s1 = Some (q, s')"
    by (auto simp: rt_system_timer_thread_init_def bind_eq_Some_conv Let_def)
  have "adds_threads s (s\<lparr>tmlists := (tmlists s)(TmSoft := [])\<rparr>)" by (rule adds_same) simp
  then show "adds_threads s s'" by (rule adds_trans[OF _ adds_static[OF c u]])
next
  assume "rt_thread_idle_init st en s = Some s'"
  then show "adds_threads s s'" by (auto simp: rt_thread_idle_init_def bind_eq_Some_conv intro: adds_static)
next
  assume "rt_system_scheduler_start s = Some s'"
  then obtain u s1 where "rt_schedule_remove_thread u (s\<lparr>cur := Some u\<rparr>) = Some s1" "objs s' = objs s1"
    by (auto simp: rt_system_scheduler_start_def bind_eq_Some_conv Let_def upd_thread_def)
  then show "adds_threads s s'" using no_sched_fields(4)[OF no_sched_remove] by (intro adds_same) simp
qed

lemma startup_adds:
  assumes "board s0 = Some s" "rtthread_startup board im s0 = Some s'" "im_main_block im = Some t" "im_main_stack im = Some start"
  shows "adds_threads s s'"
proof -
  let ?s = "rt_system_scheduler_init (rt_system_timer_init s)"
  obtain s1 s2 s3 where m: "rt_application_init im ?s = Some s1"
    "rt_system_timer_thread_init (im_timer_stack im) (im_timer_entry im) s1 = Some s2"
    "rt_thread_idle_init (im_idle_stack im) (im_idle_entry im) s2 = Some s3" "rt_system_scheduler_start s3 = Some s'"
    using assms(1,2) by (auto simp: rtthread_startup_def bind_eq_Some_conv Let_def)
  have "adds_threads s ?s" by (rule adds_same) (simp add: rt_system_scheduler_init_def rt_system_timer_init_def)
  then show ?thesis
    using adds_parts(1)[OF m(1) assms(3,4)] adds_parts(2)[OF m(2)] adds_parts(3)[OF m(3)] adds_parts(4)[OF m(4)] adds_trans by blast
qed

text \<open>A board without IPC objects starts into a live state.\<close>

definition no_ipc :: "kstate \<Rightarrow> bool" where
  "no_ipc s \<longleftrightarrow> (\<forall>x. rt_object_get_type (Mem x) s \<notin>
     {RT_Object_Class_Semaphore, RT_Object_Class_MailBox, RT_Object_Class_MessageQueue})"

lemma startup_live:
  assumes b: "board s0 = Some s" and q: "quiet t s" and im: "image_ok im t" and n: "no_ipc s"
  shows "\<exists>s'. rtthread_startup board im s0 = Some s' \<and> live (layout_of s') s'"
proof -
  obtain s' where s': "rtthread_startup board im s0 = Some s'" "check_ready s'" "settled s'" "cur s' = Some timer_thread"
    "\<And>u. tstat s' u = (if u = timer_thread then RT_THREAD_RUNNING else if u \<in> {idle_thread, t} then RT_THREAD_READY else RT_THREAD_INIT)"
    "lock_nest s' = 0" "int_nest s' = 0" "prio s' timer_thread = 4" "prio s' t = 10" "prio s' idle_thread = 31"
    by (rule startup_state[where board = board, OF b q im]) blast
  have st: "steady s'" using s'(2,3,6) s'(5)[of idle_thread] by (simp add: steady_def awake_def)
  have fr: "front s'" using s'(4,5,8-10) by (auto simp: front_def)
  obtain start where "im_main_block im = Some t" "im_main_stack im = Some start" using im by (auto simp: image_ok_def)
  then have ad: "adds_threads s s'" using startup_adds[OF b s'(1)] by blast
  have "rt_object_get_type (Mem x) s' \<notin> {RT_Object_Class_Semaphore, RT_Object_Class_MailBox, RT_Object_Class_MessageQueue}" for x
  proof -
    have "rt_object_get_type (Mem x) s' = rt_object_get_type (Mem x) s \<or> rt_object_get_type (Mem x) s' = RT_Object_Class_Thread"
      using ad by (simp add: adds_threads_def)
    then show ?thesis using n unfolding no_ipc_def by auto
  qed
  moreover have "klists s' h = []" if "wait_head h" for h
  proof (rule ccontr)
    assume "klists s' h \<noteq> []"
    then obtain u us where "klists s' h = u # us" by (meson neq_Nil_conv)
    then have "tstat s' u = RT_THREAD_SUSPEND" using waiter_suspended[OF steadyD(1)[OF st] that, of u] by simp
    then show False using s'(5)[of u] by (auto split: if_splits)
  qed
  ultimately have "object_ok x s'" for x by (simp add: object_ok_def wait_head_def)
  then show ?thesis using s'(1,7) st fr by (auto simp: live_def objects_ok_def)
qed

text \<open>
  C1. From reset, whatever the application does: on a board that leaves the kernel's memory quiet the
  start-up ends in a running system, and in every state that the tick interrupt, the calls of the running
  threads (semaphores, mailboxes, message queues, sleeping, yielding, new objects) and the returns of
  blocked calls lead to, the kernel invariant, the stacks, the timer list and every object are in order,
  no ready thread has a higher priority than the running one, and neither the next tick nor any legal call
  nor the rest of a blocked call stops in an assertion or fails to return.
\<close>

theorem kernel_safe_from_reset:
  assumes "board s0 = Some s1" "quiet t s1" "image_ok im t" "no_ipc s1" "callbacks_good ucb"
  shows "\<exists>s'. rtthread_startup board im s0 = Some s' \<and>
    (\<forall>s p. reachable ucb s' (s, p) \<longrightarrow>
       kern_wf s \<and> stacks_ok s \<and> settled s \<and> front s \<and> objects_ok (layout_of s) s \<and> never_stuck ucb (s, p))"
proof -
  obtain s' where s': "rtthread_startup board im s0 = Some s'" "live (layout_of s') s'"
    using startup_live[where board = board, OF assms(1-4)] by blast
  have "kern_wf s \<and> stacks_ok s \<and> settled s \<and> front s \<and> objects_ok (layout_of s) s \<and> never_stuck ucb (s, p)"
    if "reachable ucb s' (s, p)" for s p
    by (rule system_safe[OF assms(5) reachable_ok[OF that assms(5) s'(2)]])
  then show ?thesis using s'(1) by blast
qed

text \<open>A system without timers of its own.\<close>

lemma quiet_callbacks: "callbacks_good (\<lambda>n s. Some s)"
  by (simp add: callbacks_good_def callbacks_keep_def callbacks_timely_def callbacks_ok_def)

lemma bss_no_ipc: "no_ipc bss"
  by (simp add: no_ipc_def rt_object_get_type_def) (simp add: bss_def)

lemma demo_image_ok: "image_ok demo_image 2"
  by (simp add: image_ok_def demo_image_def sound_def)

theorem kernel_safe_from_reset_witness:
  "\<exists>s'. rtthread_startup Some demo_image bss = Some s' \<and> front s' \<and> never_stuck (\<lambda>n s. Some s) (s', \<lambda>_. None)"
  using kernel_safe_from_reset[where board = Some, OF refl bss_quiet demo_image_ok bss_no_ipc quiet_callbacks] reachable.init by blast

text \<open>
  None of the calls above detaches or deletes an object, and neither does a tick or the rest of a blocked call:
  along any run from a live state every object keeps its class, a message queue its slot size, every object stays
  in order, and the rest of a call blocked on a mailbox or a message queue finds the object it waits for.
  (Detaching clears the class; what becomes of the waiters then is shown with each object.)
\<close>

lemma objects_keep_their_class:
  assumes "callbacks_good ucb" "live (layout_of s0) s0" "reachable ucb s0 (s, p)"
  shows "grows (layout_of s0) (layout_of s) \<and> (\<forall>x. object_ok x s) \<and> (\<forall>t k. p t = Some k \<longrightarrow> pending_ok (layout_of s) t k)"
proof -
  obtain L where L: "live L s" "grows (layout_of s0) L" "\<And>t k. p t = Some k \<Longrightarrow> pending_ok L t k"
    using reachable_ok[OF assms(3,1,2)] by (rule system_okE) blast
  have "layout_of s = L" "\<forall>x. object_ok x s" using liveD(4)[OF L(1)] by (simp_all add: objects_ok_def)
  then show ?thesis using L(2,3) by simp
qed

end
