(* ===== verification/Spec2Isabelle.thy ===== *)
theory Spec2Isabelle
  imports Mutex Event MemPool RingBuffer DataQueue RingBlk Format Serial Reach
begin

text \<open>
  A verification library for the RT-Thread kernel of this repository: the sources under
  \<^verbatim>\<open>src/rt-thread-test/rt-thread-test/rt-thread\<close> (paths below are relative to it) in the configuration of
  the project's \<^verbatim>\<open>rtconfig.h\<close>: one core, 32 priorities, assertions on, no hooks installed, one level of
  the timer list, a timer thread for soft timers, 1000 ticks a second, the small-memory heap behind a
  mutex. The code is translated definition by definition under the names it has; a static function
  \<^verbatim>\<open>_foo\<close> is \<open>do_foo\<close>, a piece of a function with a name of its own is noted where it is defined.

  The program and its theories.

  \<^item> \<open>Prelude\<close>: integer types, error numbers, the reading of \<^verbatim>\<open>RT_ASSERT\<close>, shared lemmas.
  \<^item> \<open>RtList\<close> (\<^verbatim>\<open>include/rtservice.h\<close>): the intrusive doubly linked lists as pointers in a heap, and as
    sequences with a head. The locale \<open>list_store\<close> is the interface; its interpretation \<open>ptr\<close> shows that
    the pointer operations implement the sequences the rest of the model uses.
  \<^item> \<open>Ffs\<close> (\<^verbatim>\<open>src/kservice.c\<close>, \<^verbatim>\<open>libcpu/arm/cortex-m4/cpuport.c\<close>): the lowest set bit, by table and by
    instruction.
  \<^item> \<open>KState\<close> (\<^verbatim>\<open>include/rtdef.h\<close>): the structures as records and the global variables of the kernel as the
    record \<open>kstate\<close>: threads, objects and their containers, timers, queues of threads (ready queues, wait
    lists, closed threads), timer lists, the tick, and the nesting counters of interrupts and of the
    scheduler lock.
  \<^item> \<open>Scheduler\<close> (\<^verbatim>\<open>src/scheduler.c\<close>, \<^verbatim>\<open>src/irq.c\<close>): ready queues with their bitmap, the choice of the next
    thread, the switch. Invariant \<open>sched_inv\<close>; a switch leaves a thread of highest priority running.
  \<^item> \<open>KString\<close> (\<^verbatim>\<open>src/kservice.c\<close>): memory and string routines over a byte memory.
  \<^item> \<open>KObject\<close> (\<^verbatim>\<open>src/object.c\<close>): registration, search and removal of kernel objects by class.
  \<^item> \<open>Timer\<close>, \<open>Clock\<close> (\<^verbatim>\<open>src/timer.c\<close>, \<^verbatim>\<open>src/clock.c\<close>, \<^verbatim>\<open>drivers/drv_common.c\<close>): the sorted timer lists, the
    check loop, the tick interrupt, with the wrap-around of the 32-bit tick; the timeout of a thread.
    The kernel invariant \<open>kern_wf\<close> (\<open>kern_inv\<close> with no thread in transit) joins scheduler and timers.
  \<^item> \<open>Thread\<close>, \<open>Startup\<close> (\<^verbatim>\<open>src/thread.c\<close>, \<^verbatim>\<open>src/idle.c\<close>, \<^verbatim>\<open>src/components.c\<close>): creation and the initial
    stack frame, start, sleep, yield, priority change, closing and clean-up; the idle loop; the start of
    the system from the memory at reset.
  \<^item> \<open>IpcBase\<close>, \<open>Semaphore\<close>, \<open>Mutex\<close>, \<open>Event\<close>, \<open>Mailbox\<close>, \<open>MessageQueue\<close> (\<^verbatim>\<open>src/ipc.c\<close>): wait lists and the five IPC
    objects, each against an abstract specification of its contract (\<open>abs_sem\<close>, \<open>abs_mutex\<close>,
    \<open>abs_event\<close>, or the content of a queue).
  \<^item> \<open>Fifo\<close>: the contract of a bounded queue as the locales \<open>fifo\<close> and \<open>fifo_urgent\<close>, interpreted by the buffer
    of a mailbox (\<open>mbq\<close>), the slots of a message queue (\<open>msgq\<close>, for messages that fill a slot) and a byte ring (\<open>rbq\<close>): what a run
    of the operations delivers is proved once. For the calls \<^verbatim>\<open>rt_mq_send\<close> and \<^verbatim>\<open>rt_mq_recv\<close> with messages of any length,
    \<open>MessageQueue\<close> shows the refinement of a bounded queue of messages (\<open>fifo_calls\<close>).
  \<^item> \<open>Heap\<close>, \<open>HeapFree\<close> (\<^verbatim>\<open>src/mem.c\<close>): the small-memory allocator. \<open>heap_rep\<close> relates the items linked by
    offsets to a list of blocks; allocation is first fit with splitting, freeing merges neighbours.
  \<^item> \<open>Malloc\<close> (\<^verbatim>\<open>src/kservice.c\<close>): \<^verbatim>\<open>rt_malloc\<close> and its family behind the heap lock. The locale
    \<open>allocator\<close> is what a client relies on, interpreted by the bare allocator (\<open>sm\<close>) and the locked heap
    (\<open>heap\<close>); a history of requests (\<open>serve\<close>) records the size asked for with each address, so that what a client holds is shown
    to have room for what it asked for, apart from everything else it holds.
  \<^item> \<open>MemPool\<close> (\<^verbatim>\<open>src/mempool.c\<close>): pools of blocks of one size, with their wait lists; the pool is a further
    interpretation (\<open>pool\<close>) of \<open>allocator\<close>.
  \<^item> \<open>RingBuffer\<close> (\<^verbatim>\<open>components/drivers/ipc/ringbuffer.c\<close>): the byte ring with mirror bits.
  \<^item> \<open>Completion\<close>, \<open>DataQueue\<close> (\<^verbatim>\<open>completion.c\<close> and \<^verbatim>\<open>dataqueue.c\<close> beside it): what drivers wait on. The array
    of a data queue is a further interpretation (\<open>dq\<close>) of \<open>fifo\<close>; the owner's callback is a parameter, and
    the theorems describe the state it is called in.
  \<^item> \<open>SList\<close>, \<open>RingBlk\<close> (\<^verbatim>\<open>include/rtservice.h\<close>, \<^verbatim>\<open>ringblk_buf.c\<close>): single linked lists as pointers, and the ring of
    blocks built on them, with the circular order of its blocks as invariant.
  \<^item> \<open>Format\<close> (\<^verbatim>\<open>src/kservice.c\<close>): formatted printing, byte by byte through a 32-bit pointer into a buffer, with 32-bit widths. Numbers
    have the layout \<open>number_text\<close>; what a format prints is given by \<open>format_text\<close> and does not depend on the buffer. While it does not run
    past the end of the address space \<^verbatim>\<open>rt_vsnprintf\<close> stores the part that fits, terminated and inside the buffer;
    decimal numbers read back.
  \<^item> \<open>Device\<close> (\<^verbatim>\<open>src/device.c\<close>): the layer between applications and drivers, with the contract of a driver as
    the locale \<open>device_driver\<close>; the count of users is right under any calls.
  \<^item> \<open>Serial\<close> (\<^verbatim>\<open>components/drivers/serial/serial.c\<close>): the driver of serial devices, polled and by interrupts,
    over a UART that is a parameter. It interprets \<open>device_driver\<close>; its receive queue holds the newest bytes in
    order, and what an open takes the last close gives back. Waiting for the transmitter is that of \<open>Completion\<close>.
  \<^item> \<open>Steady\<close>, \<open>System\<close>, \<open>Reach\<close>: the composition. \<open>Steady\<close> holds the invariant between two calls and the locale
    \<open>spared_condition\<close> (what a condition on the rest of the kernel must satisfy to survive a tick), which
    \<open>System\<close> interprets by the invariants of all IPC objects (\<open>objects\<close>) and extends to every call; \<open>Reach\<close>
    makes a transition system of the tick, the calls listed in its type \<open>call\<close> and the returns of blocked calls, and shows
    that from reset no reachable state breaks an invariant and no legal step gets stuck. Removing objects (detach, delete,
    control) is verified call by call and is no step of this system.

  How the code is modelled.

  \<^item> A function that can stop in an assertion, read undefined memory or run forever returns an option;
    \<open>None\<close> is any of these, so that a theorem that a call returns says \<open>Some\<close>. Loops that may not end are
    \<open>partial_function (option)\<close>; there is no fuel, except that the slots of a message queue are read off
    its chain with the size of the pool as bound, which no chain without repetition exceeds.
  \<^item> A blocking call is cut at its \<^verbatim>\<open>rt_schedule\<close>: the first part answers \<open>Done\<close> with the result or \<open>Blocked\<close>
    with the local variables, the rest is the operation of the same name with \<open>_resume\<close>. A switch of the
    processor is the change of the current thread; a call that only wakes another thread goes on to its
    end in one step, as nothing is left to do after the switch but to return. So does the registration of a
    new object, whose critical section ends in a scheduling point.
  \<^item> Words keep their width: the tick, flags, sizes and offsets are 8, 16 or 32 bits and wrap around. A time
    to wait, an \<^verbatim>\<open>rt_int32_t\<close>, is an integer, and the error numbers are negative integers.
  \<^item> Kernel objects are named by their address (\<open>Mem x\<close>; \<open>TimerOf t\<close> for the timer inside a thread), a thread
    by the number of its structure. The lists of the kernel are sequences (see \<open>RtList\<close>). The heap is its
    own component: elsewhere the answer of an allocation is an argument.
  \<^item> Parameters stand for what is not in the sources: the callbacks of timers and the clean-up functions of
    threads (application), the board's initialisation, the addresses the linker chooses. What is assumed of
    them is named: \<open>callbacks_ok\<close>, \<open>callbacks_timely\<close>, \<open>callbacks_good\<close>, \<open>quiet\<close>, \<open>image_ok\<close>, \<open>no_ipc\<close>; each property
    that assumes one has a witness on a concrete system.

  What the lemmas show: the invariants \<open>kern_wf\<close> and \<open>stacks_ok\<close> and those of each object are kept by every
  operation; each operation's result and effect on every branch, refusals and timeouts included;
  termination of the loops; delivery in order; bounds of every buffer access; the abstract specifications
  are refined; and the composition: the whole kernel is safe from reset. Mutexes and events are verified
  one by one and are not part of the composed system: priority inheritance changes the priority of waiting
  threads without moving them in the wait lists of other objects, which the code leaves in a stale order.

  Not modelled: the other allocators (\<^verbatim>\<open>memheap.c\<close>, \<^verbatim>\<open>slab.c\<close>, not built), the
  console (output to a device), the pin device, the pipe, the wait queue and the work
  queue, the shell and the optional components (not part of the kernel's core or of the configured build), signals and
  several cores (switched off), the context switch and fault handlers in assembly, the board's drivers and
  the vendor's libraries (register access), the application.
\<close>

end
